(* ===== verification/Prelude.thy ===== *)
theory Prelude
  imports Main "HOL-Library.Word" "HOL-Library.Monad_Syntax"
begin

text \<open>
  Shared material of the development: 64-bit unsigned arithmetic on \<^typ>\<open>nat\<close> with the
  wrap-around written out, the alignment helpers of \<open>src/src/common/alignment.h\<close>, the ordered
  map \<open>std::map\<close> with its iterators, the error codes, and the inversion rules for the option
  monad.  A function that can stop the emulator (a failed \<open>ASSERT\<close>, undefined behaviour such as
  \<open>std::prev(begin())\<close>, or a loop that does not end) returns an option: \<open>None\<close> is that stop.
\<close>

unbundle bit_operations_syntax

type_synonym u64 = nat
type_synonym s32 = int
type_synonym u32 = "32 word"

named_theorems bind_iff \<open>inversion of a successful monadic computation\<close>

lemma bind_Some_iff [bind_iff]: "Option.bind m f = Some y \<longleftrightarrow> (\<exists>x. m = Some x \<and> f x = Some y)"
  by (cases m) auto

lemma if_Some_iff [bind_iff]: "(if c then None else m) = Some y \<longleftrightarrow> \<not> c \<and> m = Some y"
  "(if c then m else None) = Some y \<longleftrightarrow> c \<and> m = Some y"
  by auto

text \<open>\<open>ASSERT\<close> and \<open>ASSERT_MSG\<close>: the emulator stops when the condition is false.\<close>

definition ASSERT :: "bool \<Rightarrow> unit option" where
  "ASSERT c = (if c then Some () else None)"

lemma ASSERT_Some [bind_iff]: "ASSERT c = Some u \<longleftrightarrow> c"
  by (simp add: ASSERT_def)

lemma ASSERT_True [simp]: "ASSERT True = Some ()"
  by (simp add: ASSERT_def)

lemma ASSERT_holds: "c \<Longrightarrow> ASSERT c = Some ()"
  by (simp add: ASSERT_def)

section \<open>64-bit unsigned arithmetic\<close>

abbreviation two64 :: nat where "two64 \<equiv> 18446744073709551616"

definition add64 :: "u64 \<Rightarrow> u64 \<Rightarrow> u64" where
  "add64 a b = (a + b) mod two64"

definition sub64 :: "u64 \<Rightarrow> u64 \<Rightarrow> u64" where
  "sub64 a b = (a + two64 - b mod two64) mod two64"

lemma add64_exact: "a + b < two64 \<Longrightarrow> add64 a b = a + b"
  by (simp add: add64_def)

lemma sub64_exact: "b \<le> a \<Longrightarrow> a < two64 \<Longrightarrow> sub64 a b = a - b"
proof -
  assume a: "b \<le> a" "a < two64"
  have "a + two64 - b = (a - b) + two64" using a by linarith
  then have "(a + two64 - b) mod two64 = (a - b) mod two64" by (simp only: mod_add_self2)
  also have "\<dots> = a - b" using a by (intro mod_less) linarith
  finally show ?thesis using a by (simp add: sub64_def)
qed

lemma add64_less [simp]: "add64 a b < two64"
  by (simp add: add64_def)

text \<open>The PAddr \<open>-1\<close> that the allocators return for failure, as a \<open>u64\<close>.\<close>

abbreviation minus_one64 :: u64 where "minus_one64 \<equiv> 18446744073709551615"

abbreviation KB16 :: u64 where "KB16 \<equiv> 16384"
abbreviation KB64 :: u64 where "KB64 \<equiv> 65536"
abbreviation MB1 :: u64 where "MB1 \<equiv> 1048576"
abbreviation MB2 :: u64 where "MB2 \<equiv> 2097152"
abbreviation GB1 :: u64 where "GB1 \<equiv> 1073741824"

text \<open>Conversion to an unsigned type, and the range check of a signed product.\<close>

definition to_u16 :: "int \<Rightarrow> nat" where "to_u16 x = nat (x mod 65536)"
definition to_u64 :: "int \<Rightarrow> nat" where "to_u64 x = nat (x mod 18446744073709551616)"
definition to_s16 :: "int \<Rightarrow> int" where "to_s16 x = (x + 32768) mod 65536 - 32768"
definition to_s64 :: "nat \<Rightarrow> int" where
  "to_s64 x = (int x + 9223372036854775808) mod 18446744073709551616 - 9223372036854775808"

definition s32_of :: "int \<Rightarrow> int option" where
  "s32_of x = (if - 2147483648 \<le> x \<and> x \<le> 2147483647 then Some x else None)"

definition s64_of :: "int \<Rightarrow> int option" where
  "s64_of x = (if - 9223372036854775808 \<le> x \<and> x \<le> 9223372036854775807 then Some x else None)"

section \<open>Alignment\<close>

definition AlignUp :: "u64 \<Rightarrow> u64 \<Rightarrow> u64" where
  "AlignUp value sz =
     (let m = value mod sz; v = value - m in if m = 0 then v else add64 v sz)"

definition AlignDown :: "u64 \<Rightarrow> u64 \<Rightarrow> u64" where
  "AlignDown value sz = value - value mod sz"

definition IsAligned :: "64 word \<Rightarrow> 64 word \<Rightarrow> bool" where
  "IsAligned value alignment \<longleftrightarrow> value AND (alignment - 1) = 0"

definition Is16KBAligned :: "u64 \<Rightarrow> bool" where
  "Is16KBAligned value \<longleftrightarrow> value AND 0x3FFF = 0"

definition Is64KBAligned :: "u64 \<Rightarrow> bool" where
  "Is64KBAligned value \<longleftrightarrow> value AND 0xFFFF = 0"

definition Is2MBAligned :: "u64 \<Rightarrow> bool" where
  "Is2MBAligned value \<longleftrightarrow> value AND 0x1FFFFF = 0"

lemma and_low_bits_nat: "(n::nat) AND (2 ^ k - 1) = n mod 2 ^ k"
  by (metis and.commute mask_eq_exp_minus_1 take_bit_eq_mask take_bit_eq_mod)

lemma Is16KBAligned_iff: "Is16KBAligned v \<longleftrightarrow> v mod KB16 = 0"
  using and_low_bits_nat [of v 14] by (simp add: Is16KBAligned_def)

lemma Is64KBAligned_iff: "Is64KBAligned v \<longleftrightarrow> v mod KB64 = 0"
  using and_low_bits_nat [of v 16] by (simp add: Is64KBAligned_def)

lemma Is2MBAligned_iff: "Is2MBAligned v \<longleftrightarrow> v mod MB2 = 0"
  using and_low_bits_nat [of v 21] by (simp add: Is2MBAligned_def)

lemma AlignUp_cases:
  assumes "0 < sz" "v + sz \<le> two64"
  obtains "v mod sz = 0" "AlignUp v sz = v"
  | "0 < v mod sz" "AlignUp v sz = v - v mod sz + sz"
proof (cases "v mod sz = 0")
  case True
  then show ?thesis by (intro that(1)) (simp_all add: AlignUp_def)
next
  case False
  have "v - v mod sz + sz < two64"
    using assms False mod_less_eq_dividend [of v sz] by linarith
  with False show ?thesis by (intro that(2)) (simp_all add: AlignUp_def add64_exact)
qed

lemma AlignUp_ge: "v + sz \<le> two64 \<Longrightarrow> 0 < sz \<Longrightarrow> v \<le> AlignUp v sz"
  by (rule AlignUp_cases [of sz v]; simp) (metis add.commute add_diff_assoc2 le_add1
      le_add_diff_inverse mod_less_divisor mod_less_eq_dividend less_imp_le_nat nat_add_left_cancel_le)

lemma AlignUp_less: "v + sz \<le> two64 \<Longrightarrow> 0 < sz \<Longrightarrow> AlignUp v sz < v + sz"
  by (rule AlignUp_cases [of sz v]; simp)

lemma AlignUp_dvd: "v + sz \<le> two64 \<Longrightarrow> 0 < sz \<Longrightarrow> sz dvd AlignUp v sz"
  by (rule AlignUp_cases [of sz v]) (auto simp: minus_mod_eq_mult_div)

lemma AlignUp_least:
  assumes "v + sz \<le> two64" "0 < sz" "sz dvd w" "v \<le> w"
  shows "AlignUp v sz \<le> w"
proof -
  obtain q where w: "w = sz * q" using assms(3) by auto
  obtain p where p: "AlignUp v sz = sz * p" using AlignUp_dvd [OF assms(1,2)] by auto
  have "sz * p < sz * q + sz" using AlignUp_less [OF assms(1,2)] p w assms(4) by linarith
  then have "sz * p < sz * (q + 1)" by (simp add: algebra_simps)
  then have "p < q + 1" using assms(2) nat_mult_less_cancel1 by blast
  then show ?thesis using p w by simp
qed

lemma AlignUp_id: "sz dvd v \<Longrightarrow> AlignUp v sz = v"
  by (auto simp: AlignUp_def)

lemma AlignDown_le: "AlignDown v sz \<le> v"
  by (simp add: AlignDown_def)

lemma AlignDown_dvd: "sz dvd AlignDown v sz"
  by (simp add: AlignDown_def minus_mod_eq_mult_div)

text \<open>An atomic \<open>s32\<close> wraps around; the sum of two plain \<open>s32\<close> must not overflow.\<close>

definition wrap32 :: "int \<Rightarrow> s32" where
  "wrap32 x = (x + 2147483648) mod 4294967296 - 2147483648"

lemma wrap32_id: "- 2147483648 \<le> x \<Longrightarrow> x < 2147483648 \<Longrightarrow> wrap32 x = x"
  by (simp add: wrap32_def)

section \<open>Decimal strings\<close>

text \<open>\<open>std::to_string\<close> and \<open>fmt::format\<close> of an integer.\<close>

definition digit_char :: "nat \<Rightarrow> char" where
  "digit_char n = char_of (48 + n)"

fun nat_string :: "nat \<Rightarrow> string" where
  "nat_string n = (if n < 10 then [digit_char n] else nat_string (n div 10) @ [digit_char (n mod 10)])"

declare nat_string.simps [simp del]

definition to_string :: "int \<Rightarrow> string" where
  "to_string i = (if i < 0 then CHR ''-'' # nat_string (nat (- i)) else nat_string (nat i))"

section \<open>POSIX error codes\<close>

text \<open>The codes of \<open>posix_error.h\<close>, which are those of FreeBSD.\<close>

abbreviation POSIX_EPERM :: s32 where "POSIX_EPERM \<equiv> 1"
abbreviation POSIX_ESRCH :: s32 where "POSIX_ESRCH \<equiv> 3"
abbreviation POSIX_EDEADLK :: s32 where "POSIX_EDEADLK \<equiv> 11"
abbreviation POSIX_ENOMEM :: s32 where "POSIX_ENOMEM \<equiv> 12"
abbreviation POSIX_EBUSY :: s32 where "POSIX_EBUSY \<equiv> 16"
abbreviation POSIX_EINVAL :: s32 where "POSIX_EINVAL \<equiv> 22"
abbreviation POSIX_EAGAIN :: s32 where "POSIX_EAGAIN \<equiv> 35"
abbreviation POSIX_ETIMEDOUT :: s32 where "POSIX_ETIMEDOUT \<equiv> 60"
abbreviation POSIX_EOVERFLOW :: s32 where "POSIX_EOVERFLOW \<equiv> 84"

end
