(* ===== verification/Ordered_Map.thy ===== *)
theory Ordered_Map
  imports Prelude
begin

text \<open>
  \<open>std::map<u64, V>\<close> as the list of its entries in key order.  An iterator is the key it points to;
  \<open>std::next\<close> and \<open>std::prev\<close> are \<open>next_key\<close> and \<open>prev_key\<close>, \<open>std::prev(m.upper_bound(t))\<close> is
  \<open>find_le\<close>, and \<open>None\<close> is \<open>end()\<close> (or, for \<open>find_le\<close>, the undefined predecessor of \<open>begin()\<close>).
  The lemmas describe every operation on a map written \<open>xs @ (k, v) # ys\<close>.
\<close>

type_synonym 'v smap = "(nat \<times> 'v) list"

abbreviation sorted_map :: "'v smap \<Rightarrow> bool" where
  "sorted_map m \<equiv> sorted_wrt (<) (map fst m)"

fun find_le :: "nat \<Rightarrow> 'v smap \<Rightarrow> nat option" where
  "find_le t [] = None"
| "find_le t ((k, v) # m) =
     (if t < k then None else case find_le t m of None \<Rightarrow> Some k | Some k' \<Rightarrow> Some k')"

fun next_key :: "nat \<Rightarrow> 'v smap \<Rightarrow> nat option" where
  "next_key t [] = None"
| "next_key t ((k, v) # m) = (if t < k then Some k else next_key t m)"

fun prev_key :: "nat \<Rightarrow> 'v smap \<Rightarrow> nat option" where
  "prev_key t [] = None"
| "prev_key t ((k, v) # m) =
     (if t \<le> k then None else case prev_key t m of None \<Rightarrow> Some k | Some k' \<Rightarrow> Some k')"

definition begin_key :: "'v smap \<Rightarrow> nat option" where
  "begin_key m = (case m of [] \<Rightarrow> None | e # _ \<Rightarrow> Some (fst e))"

fun put :: "nat \<Rightarrow> 'v \<Rightarrow> 'v smap \<Rightarrow> 'v smap" where
  "put k v [] = [(k, v)]"
| "put k v ((k', v') # m) =
     (if k < k' then (k, v) # (k', v') # m
      else if k = k' then (k, v) # m else (k', v') # put k v m)"

definition emplace :: "nat \<Rightarrow> 'v \<Rightarrow> 'v smap \<Rightarrow> 'v smap" where
  "emplace k v m = (case map_of m k of None \<Rightarrow> put k v m | Some _ \<Rightarrow> m)"

definition erase :: "nat \<Rightarrow> 'v smap \<Rightarrow> 'v smap" where
  "erase k m = filter (\<lambda>e. fst e \<noteq> k) m"

section \<open>The operations on a split map\<close>

declare map_of_append [simp del]

lemma sorted_map_append:
  "sorted_map (xs @ (k, v) # ys) \<longleftrightarrow>
     sorted_map xs \<and> sorted_map ys \<and> (\<forall>e \<in> set xs. fst e < k) \<and> (\<forall>e \<in> set ys. k < fst e)"
  by (induction xs) (auto simp: sorted_wrt_append)

lemma map_of_mid: "\<forall>e \<in> set xs. fst e < (k::nat) \<Longrightarrow> map_of (xs @ (k, v) # ys) k = Some v"
  by (induction xs) auto

lemma map_of_mid2:
  "\<forall>e \<in> set xs. fst e < k \<Longrightarrow> (k::nat) < n \<Longrightarrow> map_of (xs @ (k, v) # (n, u) # zs) n = Some u"
  using map_of_mid [of "xs @ [(k, v)]" n u zs] by (force simp del: map_of_append)

lemma map_of_Some_split:
  "map_of m k = Some v \<Longrightarrow> \<exists>xs ys. m = xs @ (k, v) # ys"
  by (meson map_of_SomeD split_list)

lemma find_le_None_iff: "sorted_map m \<Longrightarrow> find_le t m = None \<longleftrightarrow> (\<forall>e \<in> set m. t < fst e)"
proof (induction m)
  case (Cons e m)
  then show ?case by (cases e) (force split: option.splits)
qed simp

lemma find_le_Some: "find_le t m = Some k \<Longrightarrow> k \<le> t \<and> (\<exists>v. (k, v) \<in> set m)"
  by (induction m arbitrary: k) (auto split: if_splits option.splits)

lemma find_le_above:
  "sorted_map m \<Longrightarrow> find_le t m = Some k \<Longrightarrow> (k', v') \<in> set m \<Longrightarrow> k < k' \<Longrightarrow> t < k'"
proof (induction m arbitrary: k)
  case (Cons e m)
  obtain a b where e: "e = (a, b)" by (cases e)
  show ?case
  proof (cases "find_le t m")
    case None
    then have "\<forall>e \<in> set m. t < fst e" using Cons.prems(1) find_le_None_iff [of m t] by simp
    with None Cons.prems e show ?thesis by (auto split: if_splits)
  next
    case (Some k2)
    then have "k2 = k" using Cons.prems(2) e by (auto split: if_splits)
    then have "a < k" using Some Cons.prems(1) e find_le_Some by fastforce
    with Cons Some e \<open>k2 = k\<close> show ?thesis by auto
  qed
qed simp

lemma find_le_mid:
  "sorted_map (xs @ (k, v) # ys) \<Longrightarrow> k \<le> t \<Longrightarrow> \<forall>e \<in> set ys. t < fst e \<Longrightarrow>
     find_le t (xs @ (k, v) # ys) = Some k"
proof (induction xs)
  case Nil
  then have "find_le t ys = None" by (subst find_le_None_iff) auto
  with Nil show ?case by simp
next
  case (Cons e xs)
  then show ?case by (cases e) auto
qed

lemma find_le_split:
  assumes "sorted_map m" "find_le t m = Some k"
  obtains xs v ys where "m = xs @ (k, v) # ys" "k \<le> t" "\<forall>e \<in> set ys. t < fst e"
proof -
  from assms(2) obtain v where "(k, v) \<in> set m" "k \<le> t" using find_le_Some by blast
  then obtain xs ys where m: "m = xs @ (k, v) # ys" by (meson split_list)
  then have "\<forall>e \<in> set ys. k < fst e" using assms(1) unfolding m sorted_map_append by blast
  have "t < fst e" if "e \<in> set ys" for e
  proof -
    have "(fst e, snd e) \<in> set m" using that m by simp
    with \<open>\<forall>e \<in> set ys. k < fst e\<close> that show ?thesis using find_le_above [OF assms] by blast
  qed
  then have "\<forall>e \<in> set ys. t < fst e" by blast
  with m \<open>k \<le> t\<close> show ?thesis by (rule that)
qed

lemma next_key_mid:
  "\<forall>e \<in> set xs. fst e < k \<Longrightarrow> \<forall>e \<in> set ys. k < fst e \<Longrightarrow>
     next_key k (xs @ (k, v) # ys) = begin_key ys"
proof (induction xs)
  case Nil
  then show ?case by (cases ys) (auto simp: begin_key_def)
qed auto

lemma prev_key_None: "\<forall>e \<in> set m. t \<le> fst e \<Longrightarrow> prev_key t m = None"
  by (cases m) auto

lemma prev_key_mid:
  "\<forall>e \<in> set xs. fst e < k \<Longrightarrow> \<forall>e \<in> set ys. k < fst e \<Longrightarrow>
     prev_key k (xs @ (k, v) # ys) = (if xs = [] then None else Some (fst (last xs)))"
  by (induction xs) (auto simp: prev_key_None)

lemma put_mid: "\<forall>e \<in> set xs. fst e < k \<Longrightarrow> put k v' (xs @ (k, v) # ys) = xs @ (k, v') # ys"
  by (induction xs) auto

lemma put_new:
  "\<forall>e \<in> set xs. fst e < k \<Longrightarrow> \<forall>e \<in> set ys. k < fst e \<Longrightarrow> put k v (xs @ ys) = xs @ (k, v) # ys"
proof (induction xs)
  case Nil
  then show ?case by (cases ys) auto
qed auto

lemma emplace_new:
  "\<forall>e \<in> set xs. fst e < k \<Longrightarrow> \<forall>e \<in> set ys. k < fst e \<Longrightarrow>
     emplace k v (xs @ ys) = xs @ (k, v) # ys"
proof -
  assume a: "\<forall>e \<in> set xs. fst e < k" "\<forall>e \<in> set ys. k < fst e"
  then have "map_of (xs @ ys) k = None" by (auto simp: map_of_eq_None_iff)
  then show ?thesis using put_new [OF a] by (simp only: emplace_def option.case)
qed

lemma erase_mid:
  assumes "\<forall>e \<in> set xs. fst e < k" "\<forall>e \<in> set ys. k < fst e"
  shows "erase k (xs @ (k, v) # ys) = xs @ ys"
proof -
  have "filter (\<lambda>e. fst e \<noteq> k) xs = xs" "filter (\<lambda>e. fst e \<noteq> k) ys = ys"
    using assms by (auto intro!: filter_True)
  then show ?thesis by (simp add: erase_def)
qed

lemma begin_key_Nil [simp]: "begin_key [] = None"
  and begin_key_Cons [simp]: "begin_key (e # m) = Some (fst e)"
  by (simp_all add: begin_key_def)

end
