(* ===== verification/Area_Map.thy ===== *)
theory Area_Map
  imports Ordered_Map
begin

text \<open>
  The interface shared by the two area maps of the memory manager.  An area map is an ordered map
  whose value at key \<open>k\<close> occupies the addresses from \<open>k\<close> to \<open>k + sz v\<close>; \<open>cell v i\<close> is what the
  area says of its \<open>i\<close>-th byte.  \<open>content\<close> is the abstract view: what the map says of an address.
  The locale states the laws that splitting and joining two areas must obey; under them, carving
  and merging change how the map is cut but nothing of what it says.
\<close>

fun content :: "('v \<Rightarrow> nat) \<Rightarrow> ('v \<Rightarrow> nat \<Rightarrow> 'b) \<Rightarrow> 'v smap \<Rightarrow> nat \<Rightarrow> 'b option" where
  "content sz cell [] a = None"
| "content sz cell ((k, v) # m) a =
     (if k \<le> a \<and> a < k + sz v then Some (cell v (a - k)) else content sz cell m a)"

fun areas_wf :: "('v \<Rightarrow> nat) \<Rightarrow> (nat \<Rightarrow> 'v \<Rightarrow> bool) \<Rightarrow> nat \<Rightarrow> 'v smap \<Rightarrow> bool" where
  "areas_wf sz ok lo [] = True"
| "areas_wf sz ok lo ((k, v) # m) = (lo \<le> k \<and> 0 < sz v \<and> ok k v \<and> areas_wf sz ok (k + sz v) m)"

fun areas_end :: "('v \<Rightarrow> nat) \<Rightarrow> nat \<Rightarrow> 'v smap \<Rightarrow> nat" where
  "areas_end sz lo [] = lo"
| "areas_end sz lo ((k, v) # m) = areas_end sz (k + sz v) m"

definition split_area ::
  "('v \<Rightarrow> nat) \<Rightarrow> (nat \<Rightarrow> 'v \<Rightarrow> 'v \<times> 'v) \<Rightarrow> nat \<Rightarrow> nat \<Rightarrow> 'v smap \<Rightarrow> (nat \<times> 'v smap) option" where
  "split_area sz sp k off m = do {
     v \<leftarrow> map_of m k;
     ASSERT (off < sz v \<and> 0 < off);
     Some (k + off, emplace (k + off) (snd (sp off v)) (put k (fst (sp off v)) m)) }"

definition carve_area ::
  "('v \<Rightarrow> nat) \<Rightarrow> (nat \<Rightarrow> 'v \<Rightarrow> 'v \<times> 'v) \<Rightarrow> nat \<Rightarrow> nat \<Rightarrow> 'v smap \<Rightarrow> (nat \<times> 'v smap) option" where
  "carve_area sz sp addr len m = do {
     k \<leftarrow> find_le addr m;
     v \<leftarrow> map_of m k;
     ASSERT (addr - k + len \<le> sz v);
     m1 \<leftarrow> (if addr - k + len \<noteq> sz v then map_option snd (split_area sz sp k (addr - k + len) m)
            else Some m);
     (if addr - k \<noteq> 0 then split_area sz sp k (addr - k) m1 else Some (k, m1)) }"

definition join_next :: "('v \<Rightarrow> 'v \<Rightarrow> bool) \<Rightarrow> ('v \<Rightarrow> 'v \<Rightarrow> 'v) \<Rightarrow> nat \<Rightarrow> 'v smap \<Rightarrow> 'v smap option" where
  "join_next can jn k m = do {
     v \<leftarrow> map_of m k;
     (case next_key k m of None \<Rightarrow> Some m
      | Some n \<Rightarrow> do { w \<leftarrow> map_of m n;
                       Some (if can v w then erase n (put k (jn v w) m) else m) }) }"

definition join_prev ::
  "('v \<Rightarrow> 'v \<Rightarrow> bool) \<Rightarrow> ('v \<Rightarrow> 'v \<Rightarrow> 'v) \<Rightarrow> nat \<Rightarrow> 'v smap \<Rightarrow> (nat \<times> 'v smap) option" where
  "join_prev can jn k m = do {
     v \<leftarrow> map_of m k;
     (case prev_key k m of None \<Rightarrow> Some (k, m)
      | Some p \<Rightarrow> do { u \<leftarrow> map_of m p;
                       Some (if can u v then (p, erase k (put p (jn u v) m)) else (k, m)) }) }"

definition merge_areas ::
  "('v \<Rightarrow> 'v \<Rightarrow> bool) \<Rightarrow> ('v \<Rightarrow> 'v \<Rightarrow> 'v) \<Rightarrow> nat \<Rightarrow> 'v smap \<Rightarrow> (nat \<times> 'v smap) option" where
  "merge_areas can jn k m = Option.bind (join_next can jn k m) (join_prev can jn k)"

section \<open>Facts that need no law\<close>

lemma content_skip: "k + sz v \<le> a \<Longrightarrow> content sz cell ((k, v) # m) a = content sz cell m a"
  by simp

lemma content_append:
  "content sz cell (xs @ ys) a =
     (case content sz cell xs a of None \<Rightarrow> content sz cell ys a | Some b \<Rightarrow> Some b)"
  by (induction xs) auto

lemma areas_wf_lo_le_end: "areas_wf sz ok lo m \<Longrightarrow> lo \<le> areas_end sz lo m"
  by (induction m arbitrary: lo) (auto, meson le_add1 le_trans)

lemma areas_wf_append:
  "areas_wf sz ok lo (xs @ ys) \<longleftrightarrow> areas_wf sz ok lo xs \<and> areas_wf sz ok (areas_end sz lo xs) ys"
  by (induction xs arbitrary: lo) auto

lemma areas_end_append: "areas_end sz lo (xs @ ys) = areas_end sz (areas_end sz lo xs) ys"
  by (induction xs arbitrary: lo) auto

lemma areas_wf_above: "areas_wf sz ok lo m \<Longrightarrow> e \<in> set m \<Longrightarrow> lo \<le> fst e"
  by (induction m arbitrary: lo) (auto, meson le_add1 le_trans)

lemma areas_wf_below:
  "areas_wf sz ok lo m \<Longrightarrow> (k, v) \<in> set m \<Longrightarrow> k + sz v \<le> areas_end sz lo m"
proof (induction m arbitrary: lo)
  case (Cons e m)
  then show ?case by (cases e) (auto dest: areas_wf_lo_le_end)
qed simp

lemma areas_wf_mem: "areas_wf sz ok lo m \<Longrightarrow> (k, v) \<in> set m \<Longrightarrow> 0 < sz v \<and> ok k v"
  by (induction m arbitrary: lo) auto

lemma areas_wf_mono: "areas_wf sz ok lo m \<Longrightarrow> lo' \<le> lo \<Longrightarrow> areas_wf sz ok lo' m"
  by (cases m) auto

lemma areas_wf_sorted: "areas_wf sz ok lo m \<Longrightarrow> sorted_map m"
proof (induction m arbitrary: lo)
  case (Cons e m)
  obtain k v where e: "e = (k, v)" by (cases e)
  have "\<forall>e' \<in> set m. k < fst e'"
    using Cons.prems e areas_wf_above [of sz ok "k + sz v" m] by fastforce
  with Cons e show ?case by auto
qed simp

lemma areas_wf_mid:
  assumes "areas_wf sz ok lo (xs @ (k, v) # ys)"
  shows "areas_wf sz ok lo xs" "areas_end sz lo xs \<le> k" "0 < sz v" "ok k v"
    "areas_wf sz ok (k + sz v) ys" "\<forall>e \<in> set xs. fst e < k" "\<forall>e \<in> set ys. k + sz v \<le> fst e"
    "\<forall>e \<in> set ys. k < fst e" "sorted_map (xs @ (k, v) # ys)"
proof -
  show s: "sorted_map (xs @ (k, v) # ys)" using assms by (rule areas_wf_sorted)
  show "areas_wf sz ok lo xs" "areas_end sz lo xs \<le> k" "0 < sz v" "ok k v"
    "areas_wf sz ok (k + sz v) ys" using assms by (auto simp: areas_wf_append)
  then show "\<forall>e \<in> set ys. k + sz v \<le> fst e" by (blast intro: areas_wf_above)
  show "\<forall>e \<in> set xs. fst e < k" "\<forall>e \<in> set ys. k < fst e"
    using s unfolding sorted_map_append by blast+
qed

lemma content_above_None: "areas_wf sz ok lo m \<Longrightarrow> a < lo \<Longrightarrow> content sz cell m a = None"
  by (induction m arbitrary: lo) auto

lemma content_below_None:
  "areas_wf sz ok lo m \<Longrightarrow> areas_end sz lo m \<le> a \<Longrightarrow> content sz cell m a = None"
proof (induction m arbitrary: lo)
  case (Cons e m)
  then show ?case by (cases e) (auto dest: areas_wf_lo_le_end)
qed simp

lemma content_mid:
  assumes "areas_wf sz ok lo (xs @ (k, v) # ys)"
  shows "content sz cell (xs @ (k, v) # ys) a =
    (if a < k then content sz cell xs a
     else if a < k + sz v then Some (cell v (a - k)) else content sz cell ys a)"
proof -
  note w = areas_wf_mid [OF assms]
  have "content sz cell xs a = None" if "k \<le> a"
    by (rule content_below_None [OF w(1)]) (use w(2) that in linarith)
  moreover have "content sz cell ys a = None" if "a < k"
    by (rule content_above_None [OF w(5)]) (use that in linarith)
  ultimately show ?thesis by (auto simp: content_append split: option.splits)
qed

lemma content_Some_iff:
  "areas_wf sz ok lo m \<Longrightarrow>
   content sz cell m a = Some b \<longleftrightarrow>
     (\<exists>k v. (k, v) \<in> set m \<and> k \<le> a \<and> a < k + sz v \<and> b = cell v (a - k))"
proof (induction m arbitrary: lo)
  case (Cons e m)
  obtain k v where e: "e = (k, v)" by (cases e)
  have above: "\<forall>e' \<in> set m. k + sz v \<le> fst e'"
    using Cons.prems e areas_wf_above [of sz ok "k + sz v" m] by auto
  have IH: "content sz cell m a = Some b \<longleftrightarrow>
     (\<exists>k v. (k, v) \<in> set m \<and> k \<le> a \<and> a < k + sz v \<and> b = cell v (a - k))"
    using Cons e by auto
  show ?case
  proof (cases "k \<le> a \<and> a < k + sz v")
    case True
    then have "\<not> (\<exists>k' v'. (k', v') \<in> set m \<and> k' \<le> a)" using above by force
    with True e show ?thesis by auto
  next
    case False
    with e IH show ?thesis by auto
  qed
qed simp

lemma content_mem:
  assumes "areas_wf sz ok lo m" "(k, v) \<in> set m" "k \<le> a" "a < k + sz v"
  shows "content sz cell m a = Some (cell v (a - k))"
  unfolding content_Some_iff [OF assms(1)] using assms(2-4) by blast

text \<open>The entry that \<open>find_le\<close> finds is the one that holds the address, when one does.\<close>

lemma find_le_content:
  assumes wf: "areas_wf sz ok lo m" and a: "content sz cell m a = Some b"
  obtains k v where "find_le a m = Some k" "map_of m k = Some v" "k \<le> a" "a < k + sz v"
    "b = cell v (a - k)" "(k, v) \<in> set m"
proof -
  from a [unfolded content_Some_iff [OF wf]]
  obtain k v where kv: "(k, v) \<in> set m" "k \<le> a" "a < k + sz v" "b = cell v (a - k)" by auto
  then obtain xs ys where m: "m = xs @ (k, v) # ys" by (meson split_list)
  note w = areas_wf_mid [OF wf [unfolded m]]
  have "\<forall>e \<in> set ys. a < fst e" using w(7) kv(3) by force
  then have "find_le a m = Some k" unfolding m by (rule find_le_mid [OF w(9) kv(2)])
  moreover have "map_of m k = Some v" unfolding m using w(6) by (rule map_of_mid)
  ultimately show ?thesis using kv by (intro that)
qed

lemma finite_content: "finite {a. content sz cell m a \<noteq> None}"
proof (induction m)
  case (Cons e m)
  obtain k v where e: "e = (k, v)" by (cases e)
  have "{a. content sz cell (e # m) a \<noteq> None} \<subseteq> {k..<k + sz v} \<union> {a. content sz cell m a \<noteq> None}"
    using e by auto
  with Cons show ?case by (meson finite_Un finite_atLeastLessThan finite_subset)
qed simp

text \<open>The total size of the areas of one kind is the number of addresses of that kind.\<close>

lemma areas_sum_card:
  assumes "areas_wf sz ok lo m" and Q: "\<And>k v i. (k, v) \<in> set m \<Longrightarrow> i < sz v \<Longrightarrow> Q (cell v i) = P v"
  shows "(\<Sum>(k, v) \<leftarrow> m. if P v then sz v else 0) =
    card {a. \<exists>b. content sz cell m a = Some b \<and> Q b}"
  using assms
proof (induction m arbitrary: lo)
  case (Cons e m)
  obtain k v where e: "e = (k, v)" by (cases e)
  have wf: "areas_wf sz ok (k + sz v) m" and pos: "0 < sz v" using Cons.prems(1) e by auto
  let ?A = "{a. k \<le> a \<and> a < k + sz v \<and> P v}"
  let ?B = "{a. \<exists>b. content sz cell m a = Some b \<and> Q b}"
  have none: "content sz cell m a = None" if "a < k + sz v" for a
    by (rule content_above_None [OF wf that])
  have q: "Q (cell v (a - k)) = P v" if "k \<le> a" "a < k + sz v" for a
    using Cons.prems(2) [of k v "a - k"] e that by auto
  have eq: "{a. \<exists>b. content sz cell (e # m) a = Some b \<and> Q b} = ?A \<union> ?B"
    using e none q by (auto simp: not_less)
  have "?B \<subseteq> {a. content sz cell m a \<noteq> None}" by auto
  then have finB: "finite ?B" using finite_content by (rule finite_subset)
  have finA: "finite ?A" by (rule finite_subset [of _ "{k..<k + sz v}"]) auto
  have cA: "card ?A = (if P v then sz v else 0)"
  proof (cases "P v")
    case True
    then have "?A = {k..<k + sz v}" by auto
    then show ?thesis using True by simp
  qed simp
  have "?A \<inter> ?B = {}" using none by auto
  then have "card (?A \<union> ?B) = card ?A + card ?B" using finA finB by (intro card_Un_disjoint)
  moreover have "(\<Sum>(k, v) \<leftarrow> m. if P v then sz v else 0) = card ?B"
    by (rule Cons.IH [OF wf]) (use Cons.prems(2) in auto)
  ultimately show ?case unfolding eq using cA e by simp
qed simp

text \<open>A range that lies in one area.  Merging only makes areas larger.\<close>

definition one_area :: "('v \<Rightarrow> nat) \<Rightarrow> 'v smap \<Rightarrow> nat \<Rightarrow> nat \<Rightarrow> bool" where
  "one_area sz m a n \<longleftrightarrow> (\<exists>(k, v) \<in> set m. k \<le> a \<and> a + n \<le> k + sz v)"

lemma one_areaI: "(k, v) \<in> set m \<Longrightarrow> k \<le> a \<Longrightarrow> a + n \<le> k + sz v \<Longrightarrow> one_area sz m a n"
  unfolding one_area_def by blast

lemma one_area_find:
  assumes "areas_wf sz ok lo m" "one_area sz m a n" "0 < n"
  obtains k v where "find_le a m = Some k" "map_of m k = Some v" "a + n \<le> k + sz v"
proof -
  obtain k v where k: "(k, v) \<in> set m" "k \<le> a" "a + n \<le> k + sz v"
    using assms(2) unfolding one_area_def by blast
  obtain xs ys where m: "m = xs @ (k, v) # ys" using k(1) by (meson split_list)
  note w = areas_wf_mid [OF assms(1) [unfolded m]]
  have "find_le a m = Some k" unfolding m
    by (rule find_le_mid [OF w(9) k(2)]) (use w(7) k(3) assms(3) in force)
  moreover have "map_of m k = Some v" unfolding m by (rule map_of_mid [OF w(6)])
  ultimately show ?thesis using k(3) by (rule that)
qed

text \<open>Replacing the area at a key by one of the same size rewrites exactly its addresses.\<close>

lemma put_area:
  assumes wf: "areas_wf sz ok lo (xs @ (k, v) # ys)" and "sz v' = sz v" "ok k v'"
  shows "put k v' (xs @ (k, v) # ys) = xs @ (k, v') # ys"
    and "areas_wf sz ok lo (xs @ (k, v') # ys)"
    and "areas_end sz lo (xs @ (k, v') # ys) = areas_end sz lo (xs @ (k, v) # ys)"
    and "content sz cell (xs @ (k, v') # ys) =
           (\<lambda>a. if k \<le> a \<and> a < k + sz v then Some (cell v' (a - k))
                else content sz cell (xs @ (k, v) # ys) a)"
proof -
  note w = areas_wf_mid [OF wf]
  show "put k v' (xs @ (k, v) # ys) = xs @ (k, v') # ys" using w(6) by (rule put_mid)
  show wf': "areas_wf sz ok lo (xs @ (k, v') # ys)"
    using wf assms(2,3) by (simp add: areas_wf_append)
  show "areas_end sz lo (xs @ (k, v') # ys) = areas_end sz lo (xs @ (k, v) # ys)"
    using assms(2) by (simp add: areas_end_append)
  show "content sz cell (xs @ (k, v') # ys) =
           (\<lambda>a. if k \<le> a \<and> a < k + sz v then Some (cell v' (a - k))
                else content sz cell (xs @ (k, v) # ys) a)"
    by (rule ext) (simp add: content_mid [OF wf] content_mid [OF wf'] assms(2))
qed

section \<open>The laws of an area type\<close>

locale area_laws =
  fixes sz :: "'v \<Rightarrow> nat" and cell :: "'v \<Rightarrow> nat \<Rightarrow> 'b" and ok :: "nat \<Rightarrow> 'v \<Rightarrow> bool"
    and sp :: "nat \<Rightarrow> 'v \<Rightarrow> 'v \<times> 'v" and can :: "'v \<Rightarrow> 'v \<Rightarrow> bool" and jn :: "'v \<Rightarrow> 'v \<Rightarrow> 'v"
  assumes sp_size: "ok k v \<Longrightarrow> 0 < off \<Longrightarrow> off < sz v \<Longrightarrow>
        sz (fst (sp off v)) = off \<and> sz (snd (sp off v)) = sz v - off"
    and sp_ok: "ok k v \<Longrightarrow> 0 < off \<Longrightarrow> off < sz v \<Longrightarrow>
        ok k (fst (sp off v)) \<and> ok (k + off) (snd (sp off v))"
    and sp_low: "ok k v \<Longrightarrow> 0 < off \<Longrightarrow> off < sz v \<Longrightarrow> i < off \<Longrightarrow>
        cell (fst (sp off v)) i = cell v i"
    and sp_high: "ok k v \<Longrightarrow> 0 < off \<Longrightarrow> off < sz v \<Longrightarrow> i < sz v - off \<Longrightarrow>
        cell (snd (sp off v)) i = cell v (off + i)"
    and jn_size: "ok k v \<Longrightarrow> ok (k + sz v) w \<Longrightarrow> can v w \<Longrightarrow> sz (jn v w) = sz v + sz w"
    and jn_ok: "ok k v \<Longrightarrow> ok (k + sz v) w \<Longrightarrow> can v w \<Longrightarrow> ok k (jn v w)"
    and jn_cell: "ok k v \<Longrightarrow> ok (k + sz v) w \<Longrightarrow> can v w \<Longrightarrow> i < sz v + sz w \<Longrightarrow>
        cell (jn v w) i = (if i < sz v then cell v i else cell w (i - sz v))"
begin

lemma split_area_mid:
  assumes wf: "areas_wf sz ok lo (xs @ (k, v) # ys)" and off: "0 < off" "off < sz v"
  defines "m' \<equiv> xs @ (k, fst (sp off v)) # (k + off, snd (sp off v)) # ys"
  shows "split_area sz sp k off (xs @ (k, v) # ys) = Some (k + off, m')"
    and "areas_wf sz ok lo m'"
    and "areas_end sz lo m' = areas_end sz lo (xs @ (k, v) # ys)"
    and "content sz cell m' = content sz cell (xs @ (k, v) # ys)"
proof -
  note w = areas_wf_mid [OF wf]
  note sp1 = sp_size [OF w(4) off] sp_ok [OF w(4) off]
  have "emplace (k + off) (snd (sp off v)) ((xs @ [(k, fst (sp off v))]) @ ys)
      = (xs @ [(k, fst (sp off v))]) @ (k + off, snd (sp off v)) # ys"
    by (rule emplace_new) (use w(6,7) off in auto)
  then show "split_area sz sp k off (xs @ (k, v) # ys) = Some (k + off, m')"
    using off w(6) by (simp add: split_area_def map_of_mid put_mid m'_def ASSERT_holds)
  show "areas_wf sz ok lo m'" using wf sp1 off by (simp add: areas_wf_append m'_def)
  show "areas_end sz lo m' = areas_end sz lo (xs @ (k, v) # ys)"
    using off sp1 by (simp add: areas_end_append m'_def)
  show "content sz cell m' = content sz cell (xs @ (k, v) # ys)"
  proof
    fix a
    consider "a < k" | "k \<le> a" "a < k + off" | "k + off \<le> a" "a < k + sz v" | "k + sz v \<le> a"
      by linarith
    then show "content sz cell m' a = content sz cell (xs @ (k, v) # ys) a"
    proof cases
      case 2
      then show ?thesis using off sp1 sp_low [OF w(4) off, of "a - k"]
        by (simp add: content_append m'_def split: option.split)
    next
      case 3
      have "a - (k + off) < sz v - off" "a - k = off + (a - (k + off))" using 3 off by linarith+
      then have "cell (snd (sp off v)) (a - (k + off)) = cell v (a - k)"
        using sp_high [OF w(4) off] by metis
      with 3 show ?thesis using off sp1
        by (simp add: content_append m'_def split: option.split)
    qed (use off sp1 in \<open>simp_all add: content_append m'_def split: option.split\<close>)
  qed
qed

text \<open>
  Carving cuts out the area that covers exactly the requested addresses; the map says the same of
  every address as before.
\<close>

lemma carve_area_correct:
  assumes wf: "areas_wf sz ok lo m" and k: "find_le addr m = Some k" "map_of m k = Some v"
    and len: "0 < len" "addr + len \<le> k + sz v"
  obtains xs v' ys where
    "carve_area sz sp addr len m = Some (addr, xs @ (addr, v') # ys)"
    "areas_wf sz ok lo (xs @ (addr, v') # ys)" "sz v' = len"
    "content sz cell (xs @ (addr, v') # ys) = content sz cell m"
    "areas_end sz lo (xs @ (addr, v') # ys) = areas_end sz lo m"
    "\<And>i. i < len \<Longrightarrow> cell v' i = cell v (addr - k + i)"
    "k \<in> insert addr (fst ` set xs)"
proof -
  from find_le_split [OF areas_wf_sorted [OF wf] k(1)] obtain xs u ys
    where m: "m = xs @ (k, u) # ys" and "k \<le> addr" by metis
  have "u = v" using k(2) areas_wf_mid(6) [OF wf [unfolded m]] m by (simp add: map_of_mid)
  note wfm = wf [unfolded m \<open>u = v\<close>] and mv = m [unfolded \<open>u = v\<close>]
  note w = areas_wf_mid [OF wfm]
  define s where "s = addr - k"
  have addr: "addr = k + s" using \<open>k \<le> addr\<close> by (simp add: s_def)
  have len2: "s + len \<le> sz v" using len(2) addr by linarith
  obtain v1 ys1 where v1: "map_option snd (if s + len \<noteq> sz v then split_area sz sp k (s + len) m
        else Some (0, m)) = Some (xs @ (k, v1) # ys1)"
    and wf1: "areas_wf sz ok lo (xs @ (k, v1) # ys1)" "sz v1 = s + len"
    and c1: "content sz cell (xs @ (k, v1) # ys1) = content sz cell m"
    and e1: "areas_end sz lo (xs @ (k, v1) # ys1) = areas_end sz lo m"
    and cell1: "\<And>i. i < s + len \<Longrightarrow> cell v1 i = cell v i"
  proof (cases "s + len = sz v")
    case True
    then show ?thesis using wfm mv by (intro that [of v ys]) simp_all
  next
    case False
    then have off: "0 < s + len" "s + len < sz v" using len len2 by auto
    show ?thesis
      using split_area_mid [OF wfm off] False mv sp_size [OF w(4) off] sp_low [OF w(4) off]
      by (intro that [of "fst (sp (s + len) v)" "(k + (s + len), snd (sp (s + len) v)) # ys"]) simp_all
  qed
  have carve: "carve_area sz sp addr len m =
      (if s \<noteq> 0 then split_area sz sp k s (xs @ (k, v1) # ys1) else Some (k, xs @ (k, v1) # ys1))"
    using v1 k len2 by (auto simp: carve_area_def addr map_option.compositionality split: if_splits)
  show ?thesis
  proof (cases "s = 0")
    case True
    then show ?thesis
      using carve wf1 c1 e1 cell1 addr by (intro that [of xs v1 ys1]) auto
  next
    case False
    then have off: "0 < s" "s < sz v1" using wf1 len by auto
    note sp = split_area_mid [OF wf1(1) off] sp_size [OF areas_wf_mid(4) [OF wf1(1)] off]
      sp_high [OF areas_wf_mid(4) [OF wf1(1)] off]
    show ?thesis
      using sp False carve wf1(2) c1 e1 cell1 addr
      by (intro that [of "xs @ [(k, fst (sp s v1))]" "snd (sp s v1)" ys1]) (auto simp: add.commute)
  qed
qed

lemma join_next_correct:
  assumes wf: "areas_wf sz ok lo (xs @ (k, v) # ys)"
    and adj: "\<And>n w zs. ys = (n, w) # zs \<Longrightarrow> can v w \<Longrightarrow> n = k + sz v"
  obtains v' ys' where
    "join_next can jn k (xs @ (k, v) # ys) = Some (xs @ (k, v') # ys')"
    "areas_wf sz ok lo (xs @ (k, v') # ys')"
    "content sz cell (xs @ (k, v') # ys') = content sz cell (xs @ (k, v) # ys)"
    "areas_end sz lo (xs @ (k, v') # ys') = areas_end sz lo (xs @ (k, v) # ys)"
    "sz v \<le> sz v'" "\<And>i. i < sz v \<Longrightarrow> cell v' i = cell v i"
    "v' = v \<and> ys' = ys \<and> (\<forall>e zs. ys = e # zs \<longrightarrow> \<not> can v (snd e)) \<or>
     (\<exists>e. ys = e # ys' \<and> can v (snd e) \<and> v' = jn v (snd e))"
proof -
  note w = areas_wf_mid [OF wf]
  have next_k: "next_key k (xs @ (k, v) # ys) = begin_key ys" by (rule next_key_mid [OF w(6,8)])
  show ?thesis
  proof (cases "\<exists>n u zs. ys = (n, u) # zs \<and> can v u")
    case True
    then obtain n u zs where ys: "ys = (n, u) # zs" and c: "can v u" by auto
    then have n: "n = k + sz v" using adj by blast
    have ok: "ok k v" "ok (k + sz v) u" and pos: "0 < sz v" "0 < sz u"
      using wf ys n by (auto simp: areas_wf_append)
    note jn = jn_size [OF ok c] jn_ok [OF ok c] jn_cell [OF ok c]
    have zs: "\<forall>e \<in> set zs. n < fst e"
      using areas_wf_mid(7) [of sz ok lo "xs @ [(k, v)]" n u zs] wf ys pos by fastforce
    have xsn: "\<forall>e \<in> set (xs @ [(k, jn v u)]). fst e < n" using w(6) n pos by auto
    have er: "erase n (put k (jn v u) (xs @ (k, v) # ys)) = xs @ (k, jn v u) # zs"
      using erase_mid [OF xsn zs, of u] w(6) ys by (simp add: put_mid)
    have map_n: "map_of (xs @ (k, v) # ys) n = Some u"
      using map_of_mid2 [OF w(6), of n v u zs] n pos ys by simp
    have eq: "join_next can jn k (xs @ (k, v) # ys) = Some (xs @ (k, jn v u) # zs)"
      unfolding join_next_def next_k
      using map_of_mid [OF w(6), of v ys] map_n er c ys by simp
    have wf': "areas_wf sz ok lo (xs @ (k, jn v u) # zs)"
      using wf ys n jn pos by (auto simp: areas_wf_append add.assoc)
    have cont: "content sz cell (xs @ (k, jn v u) # zs) a = content sz cell (xs @ (k, v) # ys) a"
      for a using jn(1) jn(3) [of "a - k"] n ys
      by (auto simp: content_append split: option.splits)
    show ?thesis
      using jn(3) n ys c wf' jn(1) pos cont
      by (intro that [OF eq]) (auto simp: areas_end_append add.assoc)
  next
    case False
    then have "join_next can jn k (xs @ (k, v) # ys) = Some (xs @ (k, v) # ys)"
      unfolding join_next_def next_k
      using map_of_mid [OF w(6), of v ys] map_of_mid2 [OF w(6)] w(8)
      by (cases ys) auto
    with False wf show ?thesis by (intro that [of v ys]) auto
  qed
qed

lemma join_prev_correct:
  assumes wf: "areas_wf sz ok lo (xs @ (k, v) # ys)"
    and adj: "\<And>ws p u. xs = ws @ [(p, u)] \<Longrightarrow> can u v \<Longrightarrow> k = p + sz u"
  obtains xs' k' v' where
    "join_prev can jn k (xs @ (k, v) # ys) = Some (k', xs' @ (k', v') # ys)"
    "areas_wf sz ok lo (xs' @ (k', v') # ys)"
    "content sz cell (xs' @ (k', v') # ys) = content sz cell (xs @ (k, v) # ys)"
    "areas_end sz lo (xs' @ (k', v') # ys) = areas_end sz lo (xs @ (k, v) # ys)"
    "k' \<le> k" "k + sz v = k' + sz v'" "\<And>i. i < sz v \<Longrightarrow> cell v' (k - k' + i) = cell v i"
    "k' = k \<and> v' = v \<and> xs' = xs \<and> (\<forall>e ws. xs = ws @ [e] \<longrightarrow> \<not> can (snd e) v) \<or>
     (\<exists>e. xs = xs' @ [e] \<and> fst e = k' \<and> can (snd e) v \<and> v' = jn (snd e) v)"
proof -
  note w = areas_wf_mid [OF wf]
  have prev_k: "prev_key k (xs @ (k, v) # ys) = (if xs = [] then None else Some (fst (last xs)))"
    by (rule prev_key_mid [OF w(6,8)])
  show ?thesis
  proof (cases "\<exists>ws p u. xs = ws @ [(p, u)] \<and> can u v")
    case True
    then obtain ws p u where xs: "xs = ws @ [(p, u)]" and c: "can u v" by auto
    then have k: "k = p + sz u" using adj by blast
    have wfp: "areas_wf sz ok lo (ws @ (p, u) # (k, v) # ys)" using wf xs by simp
    have adjp: "n = p + sz u" if "(k, v) # ys = (n, w) # zs" for n w zs using that k by simp
    obtain v' ys' where jn: "areas_wf sz ok lo (ws @ (p, v') # ys')"
      "content sz cell (ws @ (p, v') # ys') = content sz cell (ws @ (p, u) # (k, v) # ys)"
      "areas_end sz lo (ws @ (p, v') # ys') = areas_end sz lo (ws @ (p, u) # (k, v) # ys)"
      and "v' = u \<and> ys' = (k, v) # ys \<and> (\<forall>e zs. (k, v) # ys = e # zs \<longrightarrow> \<not> can u (snd e)) \<or>
        (\<exists>e. (k, v) # ys = e # ys' \<and> can u (snd e) \<and> v' = jn u (snd e))"
      by (rule join_next_correct [OF wfp]) (use adjp in blast)+
    then have v': "v' = jn u v" "ys' = ys" using c by auto
    note jn = jn [unfolded v']
    have ok: "ok p u" "ok (p + sz u) v" using wfp k by (auto simp: areas_wf_append)
    note j = jn_size [OF ok c] jn_cell [OF ok c]
    have er: "erase k (put p (jn u v) (xs @ (k, v) # ys)) = ws @ (p, jn u v) # ys"
      using erase_mid [of "ws @ [(p, jn u v)]" k ys v] areas_wf_mid(6) [OF wfp] w(6,8) xs
      by (simp add: put_mid)
    have map_p: "map_of (xs @ (k, v) # ys) p = Some u"
      using map_of_mid [OF areas_wf_mid(6) [OF wfp], of u "(k, v) # ys"] xs by simp
    have eq: "join_prev can jn k (xs @ (k, v) # ys) = Some (p, ws @ (p, jn u v) # ys)"
      unfolding join_prev_def prev_k
      using map_of_mid [OF w(6), of v ys] map_p er c xs by simp
    have cl: "cell (jn u v) (k - p + i) = cell v i" if "i < sz v" for i
      using j(2) [of "sz u + i"] that k by simp
    show ?thesis
      using jn xs k j(1) cl c by (intro that [OF eq]) auto
  next
    case False
    have "join_prev can jn k (xs @ (k, v) # ys) = Some (k, xs @ (k, v) # ys)"
    proof (cases xs rule: rev_cases)
      case Nil
      then show ?thesis unfolding join_prev_def prev_k by simp
    next
      case (snoc ws e)
      obtain p u where e: "e = (p, u)" by (cases e)
      have "map_of (ws @ (p, u) # (k, v) # ys) p = Some u"
        using wf snoc e areas_wf_mid(6) [of sz ok lo ws p u "(k, v) # ys"]
        by (intro map_of_mid) simp
      then show ?thesis unfolding join_prev_def prev_k
        using map_of_mid [OF w(6), of v ys] False snoc e by simp
    qed
    with False wf show ?thesis by (intro that [of k xs v]) auto
  qed
qed

text \<open>
  \<open>MergeAdjacent\<close> may glue the area to both neighbours; the result still says the same of every
  address, and the area it returns covers the one it was given.
\<close>

lemma merge_areas_mid:
  assumes wf: "areas_wf sz ok lo (xs @ (k, v) # ys)"
    and adj: "\<And>n w zs. ys = (n, w) # zs \<Longrightarrow> can v w \<Longrightarrow> n = k + sz v"
      "\<And>ws p u w. xs = ws @ [(p, u)] \<Longrightarrow> can u w \<Longrightarrow> ok k w \<Longrightarrow> k = p + sz u"
  obtains xs' k' v' ys' where
    "merge_areas can jn k (xs @ (k, v) # ys) = Some (k', xs' @ (k', v') # ys')"
    "areas_wf sz ok lo (xs' @ (k', v') # ys')"
    "content sz cell (xs' @ (k', v') # ys') = content sz cell (xs @ (k, v) # ys)"
    "areas_end sz lo (xs' @ (k', v') # ys') = areas_end sz lo (xs @ (k, v) # ys)"
    "k' \<le> k" "k + sz v \<le> k' + sz v'" "\<And>i. i < sz v \<Longrightarrow> cell v' (k - k' + i) = cell v i"
    "set xs' \<subseteq> set xs" "set ys' \<subseteq> set ys"
proof -
  obtain v1 ys1 where n: "join_next can jn k (xs @ (k, v) # ys) = Some (xs @ (k, v1) # ys1)"
    "areas_wf sz ok lo (xs @ (k, v1) # ys1)"
    "content sz cell (xs @ (k, v1) # ys1) = content sz cell (xs @ (k, v) # ys)"
    "areas_end sz lo (xs @ (k, v1) # ys1) = areas_end sz lo (xs @ (k, v) # ys)"
    "sz v \<le> sz v1" "\<And>i. i < sz v \<Longrightarrow> cell v1 i = cell v i"
    "v1 = v \<and> ys1 = ys \<and> (\<forall>e zs. ys = e # zs \<longrightarrow> \<not> can v (snd e)) \<or>
     (\<exists>e. ys = e # ys1 \<and> can v (snd e) \<and> v1 = jn v (snd e))"
  proof (rule join_next_correct [OF wf])
    show "n = k + sz v" if "ys = (n, w) # zs" "can v w" for n w zs using adj(1) that by blast
  qed (rule that)
  have ys1: "set ys1 \<subseteq> set ys" using n(7) by auto
  have ok1: "ok k v1" by (rule areas_wf_mid(4) [OF n(2)])
  obtain xs' k' v' where p: "join_prev can jn k (xs @ (k, v1) # ys1) = Some (k', xs' @ (k', v') # ys1)"
    "areas_wf sz ok lo (xs' @ (k', v') # ys1)"
    "content sz cell (xs' @ (k', v') # ys1) = content sz cell (xs @ (k, v1) # ys1)"
    "areas_end sz lo (xs' @ (k', v') # ys1) = areas_end sz lo (xs @ (k, v1) # ys1)"
    "k' \<le> k" "k + sz v1 = k' + sz v'" "\<And>i. i < sz v1 \<Longrightarrow> cell v' (k - k' + i) = cell v1 i"
    "k' = k \<and> v' = v1 \<and> xs' = xs \<and> (\<forall>e ws. xs = ws @ [e] \<longrightarrow> \<not> can (snd e) v1) \<or>
     (\<exists>e. xs = xs' @ [e] \<and> fst e = k' \<and> can (snd e) v1 \<and> v' = jn (snd e) v1)"
  proof (rule join_prev_correct [OF n(2)])
    show "k = p + sz u" if "xs = ws @ [(p, u)]" "can u v1" for ws p u
      using adj(2) that ok1 by blast
  qed (rule that)
  have xs': "set xs' \<subseteq> set xs" using p(8) by auto
  show ?thesis
    by (rule that [of k' xs' v' ys1]) (use n p xs' ys1 in \<open>auto simp: merge_areas_def\<close>)
qed

end

text \<open>
  In the maps of the memory manager an area records its own address, so that \<open>CanMergeWith\<close> itself
  checks that two areas touch.
\<close>

locale keyed_areas = area_laws +
  assumes can_adjacent: "ok k v \<Longrightarrow> ok n w \<Longrightarrow> can v w \<Longrightarrow> n = k + sz v"
begin

lemma merge_areas_correct:
  assumes wf: "areas_wf sz ok lo (xs @ (k, v) # ys)"
  obtains xs' k' v' ys' where
    "merge_areas can jn k (xs @ (k, v) # ys) = Some (k', xs' @ (k', v') # ys')"
    "areas_wf sz ok lo (xs' @ (k', v') # ys')"
    "content sz cell (xs' @ (k', v') # ys') = content sz cell (xs @ (k, v) # ys)"
    "areas_end sz lo (xs' @ (k', v') # ys') = areas_end sz lo (xs @ (k, v) # ys)"
    "k' \<le> k" "k + sz v \<le> k' + sz v'" "\<And>i. i < sz v \<Longrightarrow> cell v' (k - k' + i) = cell v i"
    "set xs' \<subseteq> set xs" "set ys' \<subseteq> set ys"
proof (rule merge_areas_mid [OF wf])
  note w = areas_wf_mid [OF wf]
  show "n = k + sz v" if "ys = (n, w) # zs" "can v w" for n w zs
    using can_adjacent [OF w(4) _ that(2)] w(5) that(1) by simp
  show "k = p + sz u" if "xs = ws @ [(p, u)]" "can u w" "ok k w" for ws p u w
  proof -
    have "ok p u" using w(1) that(1) by (simp add: areas_wf_append)
    then show ?thesis using can_adjacent that(2,3) by blast
  qed
qed (rule that)

text \<open>The two joins, with adjacency read off \<open>can\<close>.\<close>

lemma join_next_keyed:
  assumes wf: "areas_wf sz ok lo (xs @ (k, v) # ys)"
  obtains v1 ys1 where "join_next can jn k (xs @ (k, v) # ys) = Some (xs @ (k, v1) # ys1)"
    "areas_wf sz ok lo (xs @ (k, v1) # ys1)"
    "v1 = v \<and> ys1 = ys \<and> (\<forall>e zs. ys = e # zs \<longrightarrow> \<not> can v (snd e)) \<or>
     (\<exists>e. ys = e # ys1 \<and> can v (snd e) \<and> v1 = jn v (snd e))"
proof (rule join_next_correct [OF wf])
  show "n = k + sz v" if "ys = (n, w) # zs" "can v w" for n w zs
    using can_adjacent [of k v n w] areas_wf_mid [OF wf] that by simp
qed (rule that)

lemma join_prev_keyed:
  assumes wf: "areas_wf sz ok lo (xs @ (k, v) # ys)"
  obtains xs' k' v' where "join_prev can jn k (xs @ (k, v) # ys) = Some (k', xs' @ (k', v') # ys)"
    "k' = k \<and> v' = v \<and> xs' = xs \<and> (\<forall>e ws. xs = ws @ [e] \<longrightarrow> \<not> can (snd e) v) \<or>
     (\<exists>e. xs = xs' @ [e] \<and> fst e = k' \<and> can (snd e) v \<and> v' = jn (snd e) v)"
proof (rule join_prev_correct [OF wf])
  show "k = p + sz u" if "xs = ws @ [(p, u)]" "can u v" for ws p u
    using can_adjacent [of p u k v] areas_wf_mid [OF wf] that by (auto simp: areas_wf_append)
qed (rule that)

text \<open>The three steps of every operation that rewrites a range: carve it, assign it, merge it.\<close>

lemma carve_put_merge:
  assumes wf: "areas_wf sz ok lo m" and k: "find_le addr m = Some k" "map_of m k = Some v"
    and len: "0 < len" "addr + len \<le> k + sz v"
  obtains m1 m2 v1 k' where
    "carve_area sz sp addr len m = Some (addr, m1)" "map_of m1 addr = Some v1" "sz v1 = len"
    "areas_wf sz ok lo m1" "content sz cell m1 = content sz cell m"
    "areas_end sz lo m1 = areas_end sz lo m" "ok addr v1" "map_of m1 k \<noteq> None"
    "\<And>i. i < len \<Longrightarrow> cell v1 i = cell v (addr - k + i)"
    "\<And>v2. sz v2 = len \<Longrightarrow> ok addr v2 \<Longrightarrow> \<exists>k' m2. merge_areas can jn addr (put addr v2 m1) = Some (k', m2)
        \<and> areas_wf sz ok lo (put addr v2 m1) \<and> areas_end sz lo (put addr v2 m1) = areas_end sz lo m
        \<and> areas_wf sz ok lo m2 \<and> areas_end sz lo m2 = areas_end sz lo m
        \<and> k' \<le> addr \<and> (\<exists>v'. map_of m2 k' = Some v' \<and> addr + len \<le> k' + sz v')
        \<and> content sz cell (put addr v2 m1) = (\<lambda>a. if addr \<le> a \<and> a < addr + len
              then Some (cell v2 (a - addr)) else content sz cell m a)
        \<and> content sz cell m2 = (\<lambda>a. if addr \<le> a \<and> a < addr + len
              then Some (cell v2 (a - addr)) else content sz cell m a)"
proof -
  obtain xs v1 ys where c: "carve_area sz sp addr len m = Some (addr, xs @ (addr, v1) # ys)"
    "areas_wf sz ok lo (xs @ (addr, v1) # ys)" "sz v1 = len"
    "content sz cell (xs @ (addr, v1) # ys) = content sz cell m"
    "areas_end sz lo (xs @ (addr, v1) # ys) = areas_end sz lo m"
    "\<And>i. i < len \<Longrightarrow> cell v1 i = cell v (addr - k + i)"
    "k \<in> insert addr (fst ` set xs)"
    using that by (rule carve_area_correct [OF assms])
  have kept: "map_of (xs @ (addr, v1) # ys) k \<noteq> None"
    using c(7) by (auto simp: map_of_eq_None_iff)
  note w = areas_wf_mid [OF c(2)]
  have step: "\<exists>k' m2. merge_areas can jn addr (put addr v2 (xs @ (addr, v1) # ys)) = Some (k', m2)
        \<and> areas_wf sz ok lo (put addr v2 (xs @ (addr, v1) # ys))
        \<and> areas_end sz lo (put addr v2 (xs @ (addr, v1) # ys)) = areas_end sz lo m
        \<and> areas_wf sz ok lo m2 \<and> areas_end sz lo m2 = areas_end sz lo m
        \<and> k' \<le> addr \<and> (\<exists>v'. map_of m2 k' = Some v' \<and> addr + len \<le> k' + sz v')
        \<and> content sz cell (put addr v2 (xs @ (addr, v1) # ys)) = (\<lambda>a. if addr \<le> a \<and> a < addr + len
              then Some (cell v2 (a - addr)) else content sz cell m a)
        \<and> content sz cell m2 = (\<lambda>a. if addr \<le> a \<and> a < addr + len
              then Some (cell v2 (a - addr)) else content sz cell m a)"
    if s: "sz v2 = len" and o: "ok addr v2" for v2
  proof -
    have s': "sz v2 = sz v1" using s c(3) by simp
    note pa = put_area(1-3) [OF c(2) s' o]
      put_area(4) [OF c(2) s' o, of cell, unfolded c(3,4)]
    obtain xs' k' v' ys' where mg:
      "merge_areas can jn addr (xs @ (addr, v2) # ys) = Some (k', xs' @ (k', v') # ys')"
      "areas_wf sz ok lo (xs' @ (k', v') # ys')"
      "content sz cell (xs' @ (k', v') # ys') = content sz cell (xs @ (addr, v2) # ys)"
      "areas_end sz lo (xs' @ (k', v') # ys') = areas_end sz lo (xs @ (addr, v2) # ys)"
      "k' \<le> addr" "addr + sz v2 \<le> k' + sz v'"
      by (rule merge_areas_correct [OF pa(2)])
    have "map_of (xs' @ (k', v') # ys') k' = Some v'"
      by (rule map_of_mid) (rule areas_wf_mid(6) [OF mg(2)])
    then show ?thesis
      by (intro exI [of _ k'] exI [of _ "xs' @ (k', v') # ys'"])
        (use mg pa s c(3,4,5) in simp)
  qed
  show ?thesis
    by (rule that [OF c(1) map_of_mid [OF w(6)] c(3,2,4,5) w(4) kept c(6) step])
qed

end

section \<open>Fully merged maps\<close>

text \<open>
  A map is coalesced when no two neighbours can be merged.  The laws say that merging looks only at
  the outer ends of a joined or split area.
\<close>

abbreviation coalesced :: "('v \<Rightarrow> 'v \<Rightarrow> bool) \<Rightarrow> 'v smap \<Rightarrow> bool" where
  "coalesced can m \<equiv> successively (\<lambda>e f. \<not> can (snd e) (snd f)) m"

locale coalescing_areas = keyed_areas +
  assumes can_sp_low: "0 < off \<Longrightarrow> off < sz v \<Longrightarrow> can u (fst (sp off v)) = can u v"
    and can_sp_high: "0 < off \<Longrightarrow> off < sz v \<Longrightarrow> can (snd (sp off v)) w = can v w"
    and can_jn_left: "can v w \<Longrightarrow> can u (jn v w) = can u v"
    and can_jn_right: "can v w \<Longrightarrow> can (jn v w) x = can w x"
begin

lemma coalesced_mid:
  "coalesced can (xs @ (k, v) # ys) \<longleftrightarrow> coalesced can xs \<and> coalesced can ys \<and>
     (xs = [] \<or> \<not> can (snd (last xs)) v) \<and> (ys = [] \<or> \<not> can v (snd (hd ys)))"
  by (auto simp: successively_append_iff successively_Cons)

lemma split_area_coalesced:
  assumes "areas_wf sz ok lo (xs @ (k, v) # ys)" "0 < off" "off < sz v"
    "coalesced can xs" "xs = [] \<or> \<not> can (snd (last xs)) v"
  shows "coalesced can (xs @ [(k, fst (sp off v))])"
  using assms can_sp_low by (auto simp: successively_append_iff)

lemma carve_area_coalesced:
  assumes wf: "areas_wf sz ok lo m" and k: "find_le addr m = Some k" "map_of m k = Some v"
    and len: "0 < len" "addr + len \<le> k + sz v" and co: "coalesced can m"
    and c: "carve_area sz sp addr len m = Some (addr, xs @ (addr, v') # ys)"
    and wf': "areas_wf sz ok lo (xs @ (addr, v') # ys)"
  shows "coalesced can xs \<and> coalesced can ys"
proof -
  from find_le_split [OF areas_wf_sorted [OF wf] k(1)] obtain xs0 u ys0
    where m0: "m = xs0 @ (k, u) # ys0" and "k \<le> addr" by metis
  have "u = v" using k(2) areas_wf_mid(6) [OF wf [unfolded m0]] m0 by (simp add: map_of_mid)
  note wfm = wf [unfolded m0 \<open>u = v\<close>] and m = m0 [unfolded \<open>u = v\<close>]
  note w = areas_wf_mid [OF wfm]
  define s where "s = addr - k"
  have addr: "addr = k + s" using \<open>k \<le> addr\<close> by (simp add: s_def)
  have len2: "s + len \<le> sz v" using len(2) addr by linarith
  have co0: "coalesced can xs0" "coalesced can ys0" "xs0 = [] \<or> \<not> can (snd (last xs0)) v"
    "ys0 = [] \<or> \<not> can v (snd (hd ys0))" using co unfolding m coalesced_mid by auto
  obtain v1 ys1 where v1: "map_option snd (if s + len \<noteq> sz v then split_area sz sp k (s + len) m
        else Some (0, m)) = Some (xs0 @ (k, v1) # ys1)"
    and wf1: "areas_wf sz ok lo (xs0 @ (k, v1) # ys1)" "sz v1 = s + len"
    and co1: "coalesced can ys1" "xs0 = [] \<or> \<not> can (snd (last xs0)) v1"
  proof (cases "s + len = sz v")
    case True
    then show ?thesis using wfm m co0 by (intro that [of v ys0]) simp_all
  next
    case False
    then have off: "0 < s + len" "s + len < sz v" using len len2 by auto
    show ?thesis
      using split_area_mid [OF wfm off] False m sp_size [OF w(4) off] co0
        can_sp_low [OF off] can_sp_high [OF off]
      by (intro that [of "fst (sp (s + len) v)" "(k + (s + len), snd (sp (s + len) v)) # ys0"])
        (simp_all add: successively_Cons)
  qed
  have carve: "carve_area sz sp addr len m =
      (if s \<noteq> 0 then split_area sz sp k s (xs0 @ (k, v1) # ys1) else Some (k, xs0 @ (k, v1) # ys1))"
    using v1 k len2 by (auto simp: carve_area_def addr map_option.compositionality split: if_splits)
  have uniq: "xs = as \<and> ys = bs" if e: "xs @ (addr, v') # ys = as @ (addr, b) # bs" for as b bs
  proof -
    have a: "\<forall>e \<in> set xs. fst e < addr" "\<forall>e \<in> set ys. addr < fst e"
      using areas_wf_mid [OF wf'] by auto
    have b: "\<forall>e \<in> set as. fst e < addr" "\<forall>e \<in> set bs. addr < fst e"
      using areas_wf_mid [OF wf' [unfolded e]] by auto
    have f: "filter (\<lambda>e. fst e < addr) (xs @ (addr, v') # ys) = xs"
      "filter (\<lambda>e. addr < fst e) (xs @ (addr, v') # ys) = ys"
      using a by (auto intro!: filter_True filter_False)
    have g: "filter (\<lambda>e. fst e < addr) (as @ (addr, b) # bs) = as"
      "filter (\<lambda>e. addr < fst e) (as @ (addr, b) # bs) = bs"
      using b by (auto intro!: filter_True filter_False)
    show ?thesis using f g unfolding e by simp
  qed
  show ?thesis
  proof (cases "s = 0")
    case True
    then have "xs @ (addr, v') # ys = xs0 @ (addr, v1) # ys1" using carve c addr by simp
    then show ?thesis using uniq co0(1) co1(1) by blast
  next
    case False
    then have off: "0 < s" "s < sz v1" using wf1 len by auto
    have "xs @ (addr, v') # ys = (xs0 @ [(k, fst (sp s v1))]) @ (addr, snd (sp s v1)) # ys1"
      using carve c False split_area_mid(1) [OF wf1(1) off] addr by simp
    then have "xs = xs0 @ [(k, fst (sp s v1))] \<and> ys = ys1" by (rule uniq)
    then show ?thesis
      using split_area_coalesced [OF wf1(1) off co0(1) co1(2)] co1(1) by simp
  qed
qed

lemma merge_areas_coalesced:
  assumes wf: "areas_wf sz ok lo (xs @ (k, v) # ys)" and co: "coalesced can xs" "coalesced can ys"
    and m: "merge_areas can jn k (xs @ (k, v) # ys) = Some (k', m')"
  shows "coalesced can m'"
proof -
  obtain v1 ys1 where n: "join_next can jn k (xs @ (k, v) # ys) = Some (xs @ (k, v1) # ys1)"
    "areas_wf sz ok lo (xs @ (k, v1) # ys1)"
    "v1 = v \<and> ys1 = ys \<and> (\<forall>e zs. ys = e # zs \<longrightarrow> \<not> can v (snd e)) \<or>
     (\<exists>e. ys = e # ys1 \<and> can v (snd e) \<and> v1 = jn v (snd e))"
    by (rule join_next_keyed [OF wf])
  have co1: "coalesced can ys1" "ys1 = [] \<or> \<not> can v1 (snd (hd ys1))"
    using n(3) co(2) can_jn_right by (auto simp: successively_Cons neq_Nil_conv)
  obtain xs' k'' v' where p: "join_prev can jn k (xs @ (k, v1) # ys1) = Some (k'', xs' @ (k'', v') # ys1)"
    "k'' = k \<and> v' = v1 \<and> xs' = xs \<and> (\<forall>e ws. xs = ws @ [e] \<longrightarrow> \<not> can (snd e) v1) \<or>
     (\<exists>e. xs = xs' @ [e] \<and> fst e = k'' \<and> can (snd e) v1 \<and> v' = jn (snd e) v1)"
    by (rule join_prev_keyed [OF n(2)])
  have "m' = xs' @ (k'', v') # ys1" using m n(1) p(1) by (auto simp: merge_areas_def)
  moreover have "coalesced can (xs' @ (k'', v') # ys1)"
    unfolding coalesced_mid using p(2) co(1) co1 can_jn_left can_jn_right
    by (cases xs rule: rev_cases) (auto simp: successively_append_iff)
  ultimately show ?thesis by simp
qed

text \<open>In a coalesced map a stretch of addresses that could be one area is one area.\<close>

lemma coalesced_single_area:
  assumes wf: "areas_wf sz ok lo m" and co: "coalesced can m"
    and k: "find_le a m = Some k" "map_of m k = Some v" "a < k + sz v"
    and all: "\<And>x. a \<le> x \<Longrightarrow> x < a + n \<Longrightarrow> content sz cell m x \<noteq> None"
    and one: "\<And>w. ok (k + sz v) w \<Longrightarrow> k + sz v < a + n \<Longrightarrow>
      content sz cell m (k + sz v) = Some (cell w 0) \<Longrightarrow> can v w"
  shows "a + n \<le> k + sz v"
proof (rule ccontr)
  assume "\<not> a + n \<le> k + sz v"
  then have lt: "k + sz v < a + n" by simp
  from find_le_split [OF areas_wf_sorted [OF wf] k(1)] obtain xs u ys
    where m0: "m = xs @ (k, u) # ys" by metis
  have "u = v" using k(2) areas_wf_mid(6) [OF wf [unfolded m0]] m0 by (simp add: map_of_mid)
  note m = m0 [unfolded this]
  note w = areas_wf_mid [OF wf [unfolded m]]
  have "content sz cell m (k + sz v) \<noteq> None" using all [of "k + sz v"] k(3) lt by simp
  then have c: "content sz cell ys (k + sz v) \<noteq> None"
    unfolding m content_mid [OF wf [unfolded m]] using w(3) by simp
  then obtain n' u' zs where ys: "ys = (n', u') # zs" by (cases ys) auto
  have "areas_wf sz ok n' ys" using w(5) ys by simp
  then have "n' \<le> k + sz v" using c content_above_None by (metis not_le)
  then have n': "n' = k + sz v" using w(5) ys by simp
  then have "content sz cell m (k + sz v) = Some (cell u' 0)"
    unfolding m content_mid [OF wf [unfolded m]] using w(5) ys by simp
  moreover have "ok (k + sz v) u'" using w(5) ys n' by simp
  ultimately have "can v u'" using one lt by blast
  moreover have "\<not> can v u'" using co unfolding m coalesced_mid ys by simp
  ultimately show False by simp
qed

end

context keyed_areas
begin

lemma merge_areas_one_area:
  assumes wf: "areas_wf sz ok lo (xs @ (k, v) # ys)"
    and m: "merge_areas can jn k (xs @ (k, v) # ys) = Some (k', m')"
    and one: "one_area sz (xs @ (k, v) # ys) a n"
  shows "one_area sz m' a n"
proof -
  obtain v1 ys1 where nx: "join_next can jn k (xs @ (k, v) # ys) = Some (xs @ (k, v1) # ys1)"
    "areas_wf sz ok lo (xs @ (k, v1) # ys1)"
    "v1 = v \<and> ys1 = ys \<and> (\<forall>e zs. ys = e # zs \<longrightarrow> \<not> can v (snd e)) \<or>
     (\<exists>e. ys = e # ys1 \<and> can v (snd e) \<and> v1 = jn v (snd e))"
    by (rule join_next_keyed [OF wf])
  have okv: "ok k v" by (rule areas_wf_mid(4) [OF wf])
  have one1: "one_area sz (xs @ (k, v1) # ys1) a n"
  proof -
    obtain b u where b: "(b, u) \<in> set (xs @ (k, v) # ys)" "b \<le> a" "a + n \<le> b + sz u"
      using one unfolding one_area_def by blast
    show ?thesis using nx(3)
    proof
      assume "\<exists>e. ys = e # ys1 \<and> can v (snd e) \<and> v1 = jn v (snd e)"
      then obtain c w where e: "ys = (c, w) # ys1" "can v w" "v1 = jn v w" by auto
      have c: "c = k + sz v" "ok c w" using can_adjacent [of k v c w] areas_wf_mid [OF wf] e by auto
      then have s: "sz v1 = sz v + sz w" using jn_size [OF okv] e by simp
      show ?thesis
      proof (cases "(b, u) \<in> set xs \<or> (b, u) \<in> set ys1")
        case True
        then show ?thesis using b by (intro one_areaI [of b u]) auto
      next
        case False
        then have "(b, u) = (k, v) \<or> (b, u) = (c, w)" using b(1) e by auto
        then show ?thesis using b(2,3) s c by (intro one_areaI [of k v1]) auto
      qed
    qed (use one in simp)
  qed
  obtain xs' k'' v' where p: "join_prev can jn k (xs @ (k, v1) # ys1) = Some (k'', xs' @ (k'', v') # ys1)"
    "k'' = k \<and> v' = v1 \<and> xs' = xs \<and> (\<forall>e ws. xs = ws @ [e] \<longrightarrow> \<not> can (snd e) v1) \<or>
     (\<exists>e. xs = xs' @ [e] \<and> fst e = k'' \<and> can (snd e) v1 \<and> v' = jn (snd e) v1)"
    by (rule join_prev_keyed [OF nx(2)])
  have m': "m' = xs' @ (k'', v') # ys1" using m nx(1) p(1) by (auto simp: merge_areas_def)
  obtain b u where b: "(b, u) \<in> set (xs @ (k, v1) # ys1)" "b \<le> a" "a + n \<le> b + sz u"
    using one1 unfolding one_area_def by blast
  show ?thesis using p(2)
  proof
    assume "\<exists>e. xs = xs' @ [e] \<and> fst e = k'' \<and> can (snd e) v1 \<and> v' = jn (snd e) v1"
    then obtain w where e: "xs = xs' @ [(k'', w)]" "can w v1" "v' = jn w v1" by auto
    have w: "ok k'' w" "ok k v1" using areas_wf_mid [OF nx(2)] e by (auto simp: areas_wf_append)
    then have k: "k = k'' + sz w" using can_adjacent e by blast
    then have s: "sz v' = sz w + sz v1" using jn_size [OF w(1)] w(2) e by simp
    show ?thesis
    proof (cases "(b, u) \<in> set xs' \<or> (b, u) \<in> set ys1")
      case True
      then show ?thesis using b m' by (intro one_areaI [of b u]) auto
    next
      case False
      then have "(b, u) = (k, v1) \<or> (b, u) = (k'', w)" using b(1) e by auto
      then show ?thesis using b(2,3) s k m' by (intro one_areaI [of k'' v']) auto
    qed
  qed (use one1 m' in simp)
qed

lemma split_area_one_area:
  assumes wf: "areas_wf sz ok lo (xs @ (k, v) # ys)" and off: "0 < off" "off < sz v"
    and one: "one_area sz (xs @ (k, v) # ys) a n" and out: "a + n \<le> k + off \<or> k + off \<le> a"
  shows "one_area sz (xs @ (k, fst (sp off v)) # (k + off, snd (sp off v)) # ys) a n"
proof -
  obtain b u where b: "(b, u) \<in> set (xs @ (k, v) # ys)" "b \<le> a" "a + n \<le> b + sz u"
    using one unfolding one_area_def by blast
  have s: "sz (fst (sp off v)) = off" "sz (snd (sp off v)) = sz v - off"
    using sp_size [OF areas_wf_mid(4) [OF wf] off] by auto
  show ?thesis
  proof (cases "(b, u) \<in> set xs \<or> (b, u) \<in> set ys")
    case True
    then show ?thesis using b by (intro one_areaI [of b u]) auto
  next
    case False
    then have "(b, u) = (k, v)" using b(1) by auto
    then have bu: "b = k" "u = v" by auto
    show ?thesis
    proof (cases "a + n \<le> k + off")
      case True
      then show ?thesis using b bu s by (intro one_areaI [of k "fst (sp off v)"]) auto
    next
      case False
      then show ?thesis using b bu s out off by (intro one_areaI [of "k + off" "snd (sp off v)"]) auto
    qed
  qed
qed

lemma carve_area_one_area:
  assumes wf: "areas_wf sz ok lo m" and k: "find_le addr m = Some k" "map_of m k = Some v"
    and len: "0 < len" "addr + len \<le> k + sz v"
    and c: "carve_area sz sp addr len m = Some (addr, m')"
    and one: "one_area sz m a n" and out: "a + n \<le> addr \<or> addr + len \<le> a"
  shows "one_area sz m' a n"
proof -
  from find_le_split [OF areas_wf_sorted [OF wf] k(1)] obtain xs u ys
    where m0: "m = xs @ (k, u) # ys" and "k \<le> addr" by metis
  have "u = v" using k(2) areas_wf_mid(6) [OF wf [unfolded m0]] m0 by (simp add: map_of_mid)
  note wfm = wf [unfolded m0 \<open>u = v\<close>] and m = m0 [unfolded \<open>u = v\<close>]
  note w = areas_wf_mid [OF wfm]
  define s where "s = addr - k"
  have addr: "addr = k + s" using \<open>k \<le> addr\<close> by (simp add: s_def)
  have len2: "s + len \<le> sz v" using len(2) addr by linarith
  obtain v1 ys1 where v1: "map_option snd (if s + len \<noteq> sz v then split_area sz sp k (s + len) m
        else Some (0, m)) = Some (xs @ (k, v1) # ys1)"
    and wf1: "areas_wf sz ok lo (xs @ (k, v1) # ys1)" "sz v1 = s + len"
    and one1: "one_area sz (xs @ (k, v1) # ys1) a n"
  proof (cases "s + len = sz v")
    case True
    then show ?thesis using wfm m one by (intro that [of v ys]) simp_all
  next
    case False
    then have off: "0 < s + len" "s + len < sz v" using len len2 by auto
    have "a + n \<le> k + (s + len) \<or> k + (s + len) \<le> a" using out addr len by linarith
    from split_area_one_area [OF wfm off one [unfolded m] this] show ?thesis
      using split_area_mid [OF wfm off] False m sp_size [OF w(4) off]
      by (intro that [of "fst (sp (s + len) v)" "(k + (s + len), snd (sp (s + len) v)) # ys"]) simp_all
  qed
  have carve: "carve_area sz sp addr len m =
      (if s \<noteq> 0 then split_area sz sp k s (xs @ (k, v1) # ys1) else Some (k, xs @ (k, v1) # ys1))"
    using v1 k len2 by (auto simp: carve_area_def addr map_option.compositionality split: if_splits)
  show ?thesis
  proof (cases "s = 0")
    case True
    then show ?thesis using carve c one1 by simp
  next
    case False
    then have off: "0 < s" "s < sz v1" using wf1 len by auto
    have "a + n \<le> k + s \<or> k + s \<le> a" using out addr len by linarith
    from split_area_one_area [OF wf1(1) off one1 this] show ?thesis
      using split_area_mid(1) [OF wf1(1) off] carve c False by simp
  qed
qed

end

end
