(* ===== verification/Phys_Map.thy ===== *)
theory Phys_Map
  imports Area_Map
begin

text \<open>
  Physical memory areas (\<open>PhysicalMemoryArea\<close> of \<open>src/src/core/memory.h\<close>) and the operations of
  \<open>MemoryManager\<close> on a map of them: \<open>FindDmemArea\<close>/\<open>FindFmemArea\<close>, the physical overloads of
  \<open>Split\<close> and \<open>MergeAdjacent\<close>, and \<open>CarvePhysArea\<close>.  The map is used twice: \<open>dmem_map\<close> and
  \<open>fmem_map\<close>, keyed by the area's own address, and \<open>phys_areas\<close> of a virtual area, keyed by the
  offset in that area.  Both uses are interpretations of the area interface.
\<close>

datatype PhysicalMemoryType = PFree | Allocated | Mapped | PPooled | Committed | PFlexible

record PhysicalMemoryArea =
  p_base :: u64
  p_size :: u64
  memory_type :: s32
  dma_type :: PhysicalMemoryType

type_synonym PhysMap = "PhysicalMemoryArea smap"

definition GetEnd :: "PhysicalMemoryArea \<Rightarrow> u64" where
  "GetEnd a = p_base a + p_size a"

definition phys_CanMergeWith :: "PhysicalMemoryArea \<Rightarrow> PhysicalMemoryArea \<Rightarrow> bool" where
  "phys_CanMergeWith a n \<longleftrightarrow>
     \<not> (p_base a + p_size a \<noteq> p_base n) \<and> \<not> (memory_type a \<noteq> memory_type n)
     \<and> \<not> (dma_type a \<noteq> dma_type n)"

definition phys_split ::
  "u64 \<Rightarrow> PhysicalMemoryArea \<Rightarrow> PhysicalMemoryArea \<times> PhysicalMemoryArea" where
  "phys_split off a =
     (a\<lparr>p_size := off\<rparr>, a\<lparr>p_base := p_base a + off, p_size := p_size a - off\<rparr>)"

definition phys_join :: "PhysicalMemoryArea \<Rightarrow> PhysicalMemoryArea \<Rightarrow> PhysicalMemoryArea" where
  "phys_join a n = a\<lparr>p_size := p_size a + p_size n\<rparr>"

definition Split_phys :: "PhysMap \<Rightarrow> nat \<Rightarrow> u64 \<Rightarrow> (nat \<times> PhysMap) option" where
  "Split_phys m handle off = split_area p_size phys_split handle off m"

definition MergeAdjacent_phys :: "PhysMap \<Rightarrow> nat \<Rightarrow> (nat \<times> PhysMap) option" where
  "MergeAdjacent_phys m iter = merge_areas phys_CanMergeWith phys_join iter m"

definition CarvePhysArea :: "PhysMap \<Rightarrow> u64 \<Rightarrow> u64 \<Rightarrow> (nat \<times> PhysMap) option" where
  "CarvePhysArea m addr len = carve_area p_size phys_split addr len m"

text \<open>What a physical area says of its \<open>i\<close>-th byte: its address, memory type and use.\<close>

type_synonym phys_info = "u64 \<times> s32 \<times> PhysicalMemoryType"

definition phys_cell :: "PhysicalMemoryArea \<Rightarrow> nat \<Rightarrow> phys_info" where
  "phys_cell a i = (p_base a + i, memory_type a, dma_type a)"

lemma phys_cell_eq:
  "phys_cell a i = phys_cell b j \<longleftrightarrow>
     p_base a + i = p_base b + j \<and> memory_type a = memory_type b \<and> dma_type a = dma_type b"
  by (auto simp: phys_cell_def)

definition at_base :: "nat \<Rightarrow> PhysicalMemoryArea \<Rightarrow> bool" where
  "at_base k a \<longleftrightarrow> p_base a = k"

abbreviation phys_content :: "PhysMap \<Rightarrow> nat \<Rightarrow> phys_info option" where
  "phys_content \<equiv> content p_size phys_cell"

abbreviation phys_wf :: "nat \<Rightarrow> PhysMap \<Rightarrow> bool" where
  "phys_wf \<equiv> areas_wf p_size at_base"

abbreviation phys_end :: "nat \<Rightarrow> PhysMap \<Rightarrow> nat" where
  "phys_end \<equiv> areas_end p_size"

lemmas phys_simps = phys_split_def phys_join_def phys_cell_def phys_CanMergeWith_def at_base_def

interpretation offset_areas: area_laws p_size phys_cell "\<lambda>_ _. True" phys_split
  phys_CanMergeWith phys_join
  by unfold_locales (auto simp: phys_simps)

interpretation phys_areas: coalescing_areas p_size phys_cell at_base phys_split
  phys_CanMergeWith phys_join
  by unfold_locales (auto simp: phys_simps)

section \<open>Physical areas laid end to end\<close>

text \<open>
  \<open>tiles lo m hi\<close>: the areas of \<open>m\<close> cover the offsets from \<open>lo\<close> to \<open>hi\<close> without a gap.  This is the
  shape of \<open>phys_areas\<close> in a virtual area that has physical backing.
\<close>

fun tiles :: "nat \<Rightarrow> PhysMap \<Rightarrow> nat \<Rightarrow> bool" where
  "tiles lo [] hi = (lo = hi)"
| "tiles lo ((k, a) # m) hi = (k = lo \<and> 0 < p_size a \<and> tiles (lo + p_size a) m hi)"

lemma tiles_le: "tiles lo m hi \<Longrightarrow> lo \<le> hi"
  by (induction m arbitrary: lo) (auto, fastforce)

lemma tiles_wf: "tiles lo m hi \<Longrightarrow> areas_wf p_size (\<lambda>_ _. True) lo m"
  by (induction m arbitrary: lo) auto

lemma tiles_end: "tiles lo m hi \<Longrightarrow> areas_end p_size lo m = hi"
  by (induction m arbitrary: lo) auto

lemma tiles_append: "tiles lo (m @ n) hi \<longleftrightarrow> (\<exists>mid. tiles lo m mid \<and> tiles mid n hi)"
  by (induction m arbitrary: lo) auto

lemma tiles_content: "tiles lo m hi \<Longrightarrow> lo \<le> a \<Longrightarrow> a < hi \<Longrightarrow> phys_content m a \<noteq> None"
  by (induction lo m hi rule: tiles.induct) (simp_all del: not_None_eq)

lemma tiles_nonempty: "tiles lo m hi \<Longrightarrow> lo < hi \<Longrightarrow> m \<noteq> []"
  by auto

text \<open>Shifting the offsets: the second half of a virtual area, and a join of two of them.\<close>

abbreviation shift_keys :: "nat \<Rightarrow> PhysMap \<Rightarrow> PhysMap" where
  "shift_keys d m \<equiv> map (\<lambda>(k, a). (d + k, a)) m"

lemma tiles_shift: "tiles lo m hi \<Longrightarrow> tiles (d + lo) (shift_keys d m) (d + hi)"
  by (induction m arbitrary: lo) (auto simp: add.assoc)

lemma content_shift:
  "phys_content (shift_keys d m) a = (if d \<le> a then phys_content m (a - d) else None)"
  by (induction m) auto

lemma fold_put_tiles:
  "tiles lo n hi \<Longrightarrow> (\<forall>e \<in> set m. fst e < d + lo) \<Longrightarrow>
     fold (\<lambda>(k, a). put (d + k) a) n m = m @ shift_keys d n"
proof (induction n arbitrary: lo m)
  case (Cons e n)
  obtain k a where e: "e = (k, a)" by (cases e)
  have "put (d + k) a m = m @ [(d + k, a)]"
    using Cons.prems e put_new [of m "d + k" "[]" a] by simp
  moreover have "\<forall>e \<in> set (m @ [(d + k, a)]). fst e < d + (lo + p_size a)"
    using Cons.prems e by auto
  ultimately show ?case using Cons.IH [of "lo + p_size a" "m @ [(d + k, a)]"] Cons.prems e by simp
qed simp

section \<open>Rewriting a range of physical memory\<close>

text \<open>
  The three statements that every operation runs on a range of \<open>dmem_map\<close> or \<open>fmem_map\<close>: carve it
  out, assign its attributes through the returned handle, merge it with its neighbours.  The
  result is the area as assigned, the handle that \<open>MergeAdjacent\<close> returns, and the new map.
\<close>

definition set_phys ::
  "PhysMap \<Rightarrow> u64 \<Rightarrow> u64 \<Rightarrow> (PhysicalMemoryArea \<Rightarrow> PhysicalMemoryArea) \<Rightarrow>
     (PhysicalMemoryArea \<times> nat \<times> PhysMap) option" where
  "set_phys m addr len f = do {
     (h, m1) \<leftarrow> CarvePhysArea m addr len;
     a \<leftarrow> map_of m1 h;
     (h2, m2) \<leftarrow> MergeAdjacent_phys (put h (f a) m1) h;
     Some (f a, h2, m2) }"

definition phys_rewrite ::
  "u64 \<Rightarrow> u64 \<Rightarrow> s32 \<Rightarrow> PhysicalMemoryType \<Rightarrow> (nat \<Rightarrow> phys_info option) \<Rightarrow>
     nat \<Rightarrow> phys_info option" where
  "phys_rewrite addr len t d c =
     (\<lambda>a. if addr \<le> a \<and> a < addr + len then Some (a, t, d) else c a)"

lemma set_phys_correct:
  assumes m: "phys_wf lo m" "find_le addr m = Some k" "map_of m k = Some v"
      "0 < len" "addr + len \<le> k + p_size v"
    and f: "\<And>a. p_size (f a) = p_size a" "\<And>a. p_base (f a) = p_base a"
      "\<And>a. memory_type a = memory_type v \<Longrightarrow> memory_type (f a) = t" "\<And>a. dma_type (f a) = d"
  obtains h' v' m' where
    "set_phys m addr len f = Some (\<lparr>p_base = addr, p_size = len, memory_type = t, dma_type = d\<rparr>, h', m')"
    "phys_wf lo m'" "phys_end lo m' = phys_end lo m"
    "phys_content m' = phys_rewrite addr len t d (phys_content m)"
    "map_of m' h' = Some v'" "h' \<le> addr" "addr + len \<le> h' + p_size v'"
proof (rule phys_areas.carve_put_merge [OF m])
  fix m1 v1
  assume c: "carve_area p_size phys_split addr len m = Some (addr, m1)" "map_of m1 addr = Some v1"
    "p_size v1 = len" "at_base addr v1"
    "\<And>i. i < len \<Longrightarrow> phys_cell v1 i = phys_cell v (addr - k + i)"
    and step: "\<And>v2. p_size v2 = len \<Longrightarrow> at_base addr v2 \<Longrightarrow>
      \<exists>k' m2. merge_areas phys_CanMergeWith phys_join addr (put addr v2 m1) = Some (k', m2)
        \<and> phys_wf lo (put addr v2 m1) \<and> phys_end lo (put addr v2 m1) = phys_end lo m
        \<and> phys_wf lo m2 \<and> phys_end lo m2 = phys_end lo m
        \<and> k' \<le> addr \<and> (\<exists>v'. map_of m2 k' = Some v' \<and> addr + len \<le> k' + p_size v')
        \<and> phys_content (put addr v2 m1) = (\<lambda>a. if addr \<le> a \<and> a < addr + len
              then Some (phys_cell v2 (a - addr)) else phys_content m a)
        \<and> phys_content m2 = (\<lambda>a. if addr \<le> a \<and> a < addr + len
              then Some (phys_cell v2 (a - addr)) else phys_content m a)"
  have mt: "memory_type v1 = memory_type v" using c(5) [of 0] m(4) by (simp add: phys_cell_def)
  have fv: "f v1 = \<lparr>p_base = addr, p_size = len, memory_type = t, dma_type = d\<rparr>"
    using f c(3,4) mt by (intro PhysicalMemoryArea.equality) (auto simp: at_base_def)
  have fv1: "p_size (f v1) = len" "at_base addr (f v1)" using fv by (auto simp: at_base_def)
  from step [OF fv1] obtain k' m2 v' where
    s: "MergeAdjacent_phys (put addr (f v1) m1) addr = Some (k', m2)"
      "phys_wf lo m2" "phys_end lo m2 = phys_end lo m" "k' \<le> addr"
      "map_of m2 k' = Some v'" "addr + len \<le> k' + p_size v'"
      "phys_content m2 = (\<lambda>a. if addr \<le> a \<and> a < addr + len
              then Some (phys_cell (f v1) (a - addr)) else phys_content m a)"
    unfolding MergeAdjacent_phys_def by auto
  have "phys_content m2 = phys_rewrite addr len t d (phys_content m)"
    unfolding s(7) fv phys_rewrite_def by (auto simp: phys_cell_def)
  moreover have "set_phys m addr len f = Some (f v1, k', m2)"
    using c(1,2) s(1) by (simp add: set_phys_def CarvePhysArea_def)
  ultimately show thesis using s fv by (intro that [of k' m2 v']) simp_all
qed

abbreviation phys_coalesced :: "PhysMap \<Rightarrow> bool" where
  "phys_coalesced \<equiv> coalesced phys_CanMergeWith"

lemma set_phys_coalesced:
  assumes m: "phys_wf lo m" "find_le addr m = Some k" "map_of m k = Some v"
      "0 < len" "addr + len \<le> k + p_size v" "phys_coalesced m"
    and f: "\<And>a. p_size (f a) = p_size a" "\<And>a. p_base (f a) = p_base a"
    and r: "set_phys m addr len f = Some (w, h', m')"
  shows "phys_coalesced m'"
proof -
  obtain xs v1 ys where c: "carve_area p_size phys_split addr len m = Some (addr, xs @ (addr, v1) # ys)"
    "phys_wf lo (xs @ (addr, v1) # ys)" "p_size v1 = len"
    by (rule phys_areas.carve_area_correct [OF m(1-5)])
  have co: "phys_coalesced xs" "phys_coalesced ys"
    using phys_areas.carve_area_coalesced [OF m c(1,2)] by auto
  note w = areas_wf_mid [OF c(2)]
  have "p_size (f v1) = p_size v1" "at_base addr (f v1)" using f w(4) by (auto simp: at_base_def)
  note pa = put_area(1,2) [OF c(2) this]
  have "merge_areas phys_CanMergeWith phys_join addr (xs @ (addr, f v1) # ys) = Some (h', m')"
    using r c(1) map_of_mid [OF w(6), of v1 ys] pa(1)
    by (auto simp: set_phys_def CarvePhysArea_def MergeAdjacent_phys_def bind_iff)
  then show ?thesis by (rule phys_areas.merge_areas_coalesced [OF pa(2) co])
qed

text \<open>In a coalesced map a range of one memory type and one use lies in one area.\<close>

lemma uniform_range_one_area:
  assumes wf: "phys_wf lo m" and co: "phys_coalesced m" and n: "0 < n"
    and u: "\<And>a. addr \<le> a \<Longrightarrow> a < addr + n \<Longrightarrow> phys_content m a = Some (a, t, d)"
  obtains k v where "find_le addr m = Some k" "map_of m k = Some v" "addr + n \<le> k + p_size v"
    "memory_type v = t" "dma_type v = d"
proof -
  have "phys_content m addr = Some (addr, t, d)" using u n by simp
  from find_le_content [OF wf this] obtain k v where
    k: "find_le addr m = Some k" "map_of m k = Some v" "k \<le> addr" "addr < k + p_size v"
      "(addr, t, d) = phys_cell v (addr - k)" "(k, v) \<in> set m" by metis
  have v: "p_base v = k" "memory_type v = t" "dma_type v = d"
    using areas_wf_mem [OF wf k(6)] k(5) by (auto simp: at_base_def phys_cell_def)
  have "addr + n \<le> k + p_size v"
  proof (rule phys_areas.coalesced_single_area [OF wf co k(1,2,4)])
    show "phys_content m x \<noteq> None" if "addr \<le> x" "x < addr + n" for x using u that by simp
    show "phys_CanMergeWith v w" if w: "at_base (k + p_size v) w" "k + p_size v < addr + n"
      "phys_content m (k + p_size v) = Some (phys_cell w 0)" for w
      using u [of "k + p_size v"] k(4) w v by (auto simp: phys_cell_def phys_CanMergeWith_def at_base_def)
  qed
  with k v show ?thesis by (intro that)
qed

lemma set_phys_one_area:
  assumes m: "phys_wf lo m" "find_le addr m = Some k" "map_of m k = Some v"
      "0 < len" "addr + len \<le> k + p_size v"
    and f: "\<And>a. p_size (f a) = p_size a" "\<And>a. p_base (f a) = p_base a"
    and r: "set_phys m addr len f = Some (w, h', m')"
    and one: "one_area p_size m a n" "a + n \<le> addr \<or> addr + len \<le> a"
  shows "one_area p_size m' a n"
proof -
  obtain xs v1 ys where c: "carve_area p_size phys_split addr len m = Some (addr, xs @ (addr, v1) # ys)"
    "phys_wf lo (xs @ (addr, v1) # ys)" "p_size v1 = len"
    by (rule phys_areas.carve_area_correct [OF m(1-5)])
  have o1: "one_area p_size (xs @ (addr, v1) # ys) a n"
    by (rule phys_areas.carve_area_one_area [OF m c(1) one])
  note w = areas_wf_mid [OF c(2)]
  have s: "p_size (f v1) = p_size v1" "at_base addr (f v1)" using f w(4) by (auto simp: at_base_def)
  note pa = put_area(1,2) [OF c(2) s]
  have o2: "one_area p_size (xs @ (addr, f v1) # ys) a n"
    using o1 s(1) unfolding one_area_def by auto
  have "merge_areas phys_CanMergeWith phys_join addr (xs @ (addr, f v1) # ys) = Some (h', m')"
    using r c(1) map_of_mid [OF w(6), of v1 ys] pa(1)
    by (auto simp: set_phys_def CarvePhysArea_def MergeAdjacent_phys_def bind_iff)
  then show ?thesis by (rule phys_areas.merge_areas_one_area [OF pa(2) _ o2])
qed

lemma tiles_from_wf:
  "areas_wf p_size (\<lambda>_ _. True) lo m \<Longrightarrow> areas_end p_size lo m = hi \<Longrightarrow>
   (\<And>a. lo \<le> a \<Longrightarrow> a < hi \<Longrightarrow> phys_content m a \<noteq> None) \<Longrightarrow> tiles lo m hi"
proof (induction m arbitrary: lo)
  case (Cons e m)
  obtain k v where e: "e = (k, v)" by (cases e)
  have wf: "areas_wf p_size (\<lambda>_ _. True) (k + p_size v) m" "lo \<le> k" "0 < p_size v"
    using Cons.prems(1) e by auto
  have hi: "k + p_size v \<le> hi" using areas_wf_lo_le_end [OF wf(1)] Cons.prems(2) e by simp
  have "lo = k"
  proof (rule ccontr)
    assume "lo \<noteq> k"
    then have "phys_content (e # m) lo = None"
      using content_above_None [OF wf(1), of lo phys_cell] wf(2,3) e by auto
    then show False using Cons.prems(3) [of lo] wf(2,3) hi by simp
  qed
  moreover have "phys_content m a \<noteq> None" if "k + p_size v \<le> a" "a < hi" for a
    using Cons.prems(3) [of a] content_skip [of k p_size v a phys_cell m] that e \<open>lo = k\<close> by simp
  then have "tiles (k + p_size v) m hi" using Cons.IH [OF wf(1)] Cons.prems(2) e by simp
  ultimately show ?case using e wf by simp
qed simp

text \<open>Adding an area at the end of a tiled map and merging it with the one before.\<close>

lemma append_merge_tiles:
  assumes t: "tiles 0 pa off" and sz: "0 < p_size area"
  obtains k' pa' where "MergeAdjacent_phys (put off area pa) off = Some (k', pa')"
    "tiles 0 pa' (off + p_size area)"
    "phys_content pa' = (\<lambda>i. if i < off then phys_content pa i else if i < off + p_size area
       then Some (p_base area + (i - off), memory_type area, dma_type area) else None)"
proof -
  note wf = tiles_wf [OF t]
  have below: "\<forall>e \<in> set pa. fst e < off"
  proof
    fix e assume e: "e \<in> set pa"
    then have "(fst e, snd e) \<in> set pa" by simp
    from areas_wf_below [OF wf this] areas_wf_mem [OF wf this] show "fst e < off"
      using tiles_end [OF t] by simp
  qed
  have put: "put off area pa = pa @ [(off, area)]" using put_new [of pa off "[]" area] below by simp
  have t1: "tiles 0 (pa @ [(off, area)]) (off + p_size area)" using t sz by (auto simp: tiles_append)
  obtain xs' k' v' ys' where m: "merge_areas phys_CanMergeWith phys_join off (pa @ (off, area) # [])
      = Some (k', xs' @ (k', v') # ys')"
    "areas_wf p_size (\<lambda>_ _. True) 0 (xs' @ (k', v') # ys')"
    "phys_content (xs' @ (k', v') # ys') = phys_content (pa @ (off, area) # [])"
    "areas_end p_size 0 (xs' @ (k', v') # ys') = areas_end p_size 0 (pa @ (off, area) # [])"
  proof (rule offset_areas.merge_areas_mid [of 0 pa off area "[]"])
    show "areas_wf p_size (\<lambda>_ _. True) 0 (pa @ (off, area) # [])" using tiles_wf [OF t1] by simp
    show "off = p + p_size u" if "pa = ws @ [(p, u)]" for ws p u using t that by (auto simp: tiles_append)
  qed (use that in auto)
  let ?m = "xs' @ (k', v') # ys'"
  have c: "phys_content ?m i \<noteq> None" if "0 \<le> i" "i < off + p_size area" for i
    unfolding m(3) using tiles_content [OF t1] that by simp
  have "areas_end p_size 0 ?m = off + p_size area" using m(4) tiles_end [OF t1] by simp
  then have t2: "tiles 0 ?m (off + p_size area)" using tiles_from_wf [OF m(2)] c by blast
  have "phys_content ?m i = (if i < off then phys_content pa i else if i < off + p_size area
       then Some (p_base area + (i - off), memory_type area, dma_type area) else None)" for i
  proof -
    have "phys_content pa i = None" if "off \<le> i"
      using content_below_None [OF wf, of i phys_cell] tiles_end [OF t] that by simp
    then show ?thesis
      unfolding m(3) by (auto simp: content_append phys_cell_def not_less split: option.splits)
  qed
  then have "phys_content ?m = (\<lambda>i. if i < off then phys_content pa i else if i < off + p_size area
       then Some (p_base area + (i - off), memory_type area, dma_type area) else None)" by blast
  with m(1) t2 put show ?thesis by (intro that [of k' ?m]) (simp_all add: MergeAdjacent_phys_def)
qed

end
