(* ===== verification/Vma_Map.thy ===== *)
theory Vma_Map
  imports Phys_Map
begin

text \<open>
  Virtual memory areas (\<open>VirtualMemoryArea\<close> of \<open>src/src/core/memory.h\<close>) and the operations of
  \<open>MemoryManager\<close> on \<open>vma_map\<close>: \<open>CanMergeWith\<close>, the virtual overloads of \<open>Split\<close> and
  \<open>MergeAdjacent\<close>, which also divide and concatenate the physical backing, and \<open>CarveVMA\<close>.
\<close>

datatype VMAType = VFree | Reserved | Direct | Flexible | Pooled | PoolReserved | Stack | Code | File

text \<open>\<open>MemoryProt\<close> and \<open>MemoryMapFlags\<close> are 32-bit flag words.\<close>

type_synonym MemoryProt = u32
type_synonym MemoryMapFlags = u32

abbreviation NoAccess :: MemoryProt where "NoAccess \<equiv> 0"
abbreviation CpuRead :: MemoryProt where "CpuRead \<equiv> 1"
abbreviation CpuWrite :: MemoryProt where "CpuWrite \<equiv> 2"
abbreviation CpuReadWrite :: MemoryProt where "CpuReadWrite \<equiv> 3"
abbreviation CpuExec :: MemoryProt where "CpuExec \<equiv> 4"
abbreviation GpuRead :: MemoryProt where "GpuRead \<equiv> 16"
abbreviation GpuWrite :: MemoryProt where "GpuWrite \<equiv> 32"
abbreviation GpuReadWrite :: MemoryProt where "GpuReadWrite \<equiv> 48"

abbreviation MapFixed :: MemoryMapFlags where "MapFixed \<equiv> 0x10"
abbreviation MapNoOverwrite :: MemoryMapFlags where "MapNoOverwrite \<equiv> 0x80"
abbreviation MapVoid :: MemoryMapFlags where "MapVoid \<equiv> 0x100"
abbreviation MapStack :: MemoryMapFlags where "MapStack \<equiv> 0x400"
abbreviation MapAnon :: MemoryMapFlags where "MapAnon \<equiv> 0x1000"
abbreviation MapNoCoalesce :: MemoryMapFlags where "MapNoCoalesce \<equiv> 0x400000"

text \<open>\<open>True(flags)\<close> and \<open>False(flags)\<close> of \<open>DECLARE_ENUM_FLAG_OPERATORS\<close>.\<close>

definition True_flag :: "u32 \<Rightarrow> bool" where
  "True_flag w \<longleftrightarrow> w \<noteq> 0"

record VirtualMemoryArea =
  v_base :: u64
  v_size :: u64
  phys_areas :: PhysMap
  vtype :: VMAType
  prot :: MemoryProt
  vname :: string
  fd :: s32
  disallow_merge :: bool

type_synonym VMAMap = "VirtualMemoryArea smap"

definition Contains :: "VirtualMemoryArea \<Rightarrow> u64 \<Rightarrow> u64 \<Rightarrow> bool" where
  "Contains v addr len \<longleftrightarrow> addr \<ge> v_base v \<and> add64 addr len \<le> v_base v + v_size v"

definition Overlaps :: "VirtualMemoryArea \<Rightarrow> u64 \<Rightarrow> u64 \<Rightarrow> bool" where
  "Overlaps v addr len \<longleftrightarrow> addr < v_base v + v_size v \<and> add64 addr len > v_base v"

definition IsFree :: "VirtualMemoryArea \<Rightarrow> bool" where
  "IsFree v \<longleftrightarrow> vtype v = VFree"

definition IsMapped :: "VirtualMemoryArea \<Rightarrow> bool" where
  "IsMapped v \<longleftrightarrow> vtype v \<noteq> VFree \<and> vtype v \<noteq> Reserved \<and> vtype v \<noteq> PoolReserved"

definition HasPhysicalBacking :: "VirtualMemoryArea \<Rightarrow> bool" where
  "HasPhysicalBacking v \<longleftrightarrow> vtype v = Direct \<or> vtype v = Flexible \<or> vtype v = Pooled"

text \<open>
  Between two direct areas the last physical area of the first must continue into the first one of
  the second; \<open>phys_areas\<close> of a direct area is never empty (\<open>vma_ok\<close> below), where the code would
  dereference \<open>end()\<close>.
\<close>

definition direct_continues :: "VirtualMemoryArea \<Rightarrow> VirtualMemoryArea \<Rightarrow> bool" where
  "direct_continues v n =
     (case (rev (phys_areas v), phys_areas n) of
        ((_, last_phys) # _, (_, first_next_phys) # _) \<Rightarrow>
          \<not> (p_base last_phys + p_size last_phys \<noteq> p_base first_next_phys
             \<or> memory_type last_phys \<noteq> memory_type first_next_phys)
      | _ \<Rightarrow> False)"

definition CanMergeWith :: "VirtualMemoryArea \<Rightarrow> VirtualMemoryArea \<Rightarrow> bool" where
  "CanMergeWith v n =
     (if disallow_merge v \<or> disallow_merge n then False
      else if v_base v + v_size v \<noteq> v_base n then False
      else if vtype v = Direct \<and> vtype n = Direct \<and> \<not> direct_continues v n then False
      else if prot v \<noteq> prot n \<or> vtype v \<noteq> vtype n then False
      else if vname v \<noteq> vname n then False
      else True)"

text \<open>The loop of \<open>Split\<close> over the physical areas: the part below the cut and the part above it.\<close>

fun split_phys_areas :: "u64 \<Rightarrow> PhysMap \<Rightarrow> PhysMap \<times> PhysMap" where
  "split_phys_areas offset_in_vma [] = ([], [])"
| "split_phys_areas offset_in_vma ((off, region) # m) =
     (let (olds, news) = split_phys_areas offset_in_vma m;
          fully_old = (if off + p_size region \<le> offset_in_vma then [(off, region)] else []);
          size_in_old = offset_in_vma - off;
          half_old = (if off < offset_in_vma \<and> off + p_size region > offset_in_vma
                      then [(off, region\<lparr>p_size := size_in_old\<rparr>)] else []);
          half_new = (if off < offset_in_vma \<and> off + p_size region > offset_in_vma
                      then [(0, region\<lparr>p_base := p_base region + size_in_old,
                                      p_size := p_size region - size_in_old\<rparr>)] else []);
          fully_new = (if off \<ge> offset_in_vma then [(off - offset_in_vma, region)] else [])
      in (fully_old @ half_old @ olds, half_new @ fully_new @ news))"

definition vma_split ::
  "u64 \<Rightarrow> VirtualMemoryArea \<Rightarrow> VirtualMemoryArea \<times> VirtualMemoryArea" where
  "vma_split offset_in_vma v =
     (let old = v\<lparr>v_size := offset_in_vma\<rparr>;
          new = v\<lparr>v_base := v_base v + offset_in_vma, v_size := v_size v - offset_in_vma\<rparr>
      in if HasPhysicalBacking new
         then (old\<lparr>phys_areas := fst (split_phys_areas offset_in_vma (phys_areas v))\<rparr>,
               new\<lparr>phys_areas := snd (split_phys_areas offset_in_vma (phys_areas v))\<rparr>)
         else (old, new))"

definition vma_join :: "VirtualMemoryArea \<Rightarrow> VirtualMemoryArea \<Rightarrow> VirtualMemoryArea" where
  "vma_join v n =
     v\<lparr>v_size := v_size v + v_size n,
       phys_areas := fold (\<lambda>(k, a). put (v_size v + k) a) (phys_areas n) (phys_areas v)\<rparr>"

definition FindVMA :: "VMAMap \<Rightarrow> u64 \<Rightarrow> nat option" where
  "FindVMA m target = find_le target m"

definition Split_vma :: "VMAMap \<Rightarrow> nat \<Rightarrow> u64 \<Rightarrow> (nat \<times> VMAMap) option" where
  "Split_vma m handle off = split_area v_size vma_split handle off m"

definition MergeAdjacent_vma :: "VMAMap \<Rightarrow> nat \<Rightarrow> (nat \<times> VMAMap) option" where
  "MergeAdjacent_vma m iter = merge_areas CanMergeWith vma_join iter m"

definition CarveVMA :: "VMAMap \<Rightarrow> u64 \<Rightarrow> u64 \<Rightarrow> (nat \<times> VMAMap) option" where
  "CarveVMA m addr len = carve_area v_size vma_split addr len m"

section \<open>What a virtual area says of its bytes\<close>

record vma_info =
  i_type :: VMAType
  i_prot :: MemoryProt
  i_name :: string
  i_nomerge :: bool
  i_phys :: "phys_info option"

definition vma_cell :: "VirtualMemoryArea \<Rightarrow> nat \<Rightarrow> vma_info" where
  "vma_cell v i = \<lparr>i_type = vtype v, i_prot = prot v, i_name = vname v,
     i_nomerge = disallow_merge v, i_phys = phys_content (phys_areas v) i\<rparr>"

lemma vma_cell_sel [simp]:
  "i_type (vma_cell v i) = vtype v" "i_prot (vma_cell v i) = prot v" "i_name (vma_cell v i) = vname v"
  "i_nomerge (vma_cell v i) = disallow_merge v" "i_phys (vma_cell v i) = phys_content (phys_areas v) i"
  by (simp_all add: vma_cell_def)

text \<open>
  A well-formed virtual area sits at its own address; with physical backing its physical areas
  cover it from end to end, without it there are none.
\<close>

definition vma_ok :: "nat \<Rightarrow> VirtualMemoryArea \<Rightarrow> bool" where
  "vma_ok k v \<longleftrightarrow> v_base v = k \<and>
     (if HasPhysicalBacking v then tiles 0 (phys_areas v) (v_size v) else phys_areas v = [])"

abbreviation vma_content :: "VMAMap \<Rightarrow> nat \<Rightarrow> vma_info option" where
  "vma_content \<equiv> content v_size vma_cell"

abbreviation vma_wf :: "nat \<Rightarrow> VMAMap \<Rightarrow> bool" where
  "vma_wf \<equiv> areas_wf v_size vma_ok"

abbreviation vma_end :: "nat \<Rightarrow> VMAMap \<Rightarrow> nat" where
  "vma_end \<equiv> areas_end v_size"

section \<open>Splitting the physical backing\<close>

lemma split_phys_areas_content:
  "phys_content (fst (split_phys_areas offset_in_vma m)) a = (if a < offset_in_vma then phys_content m a else None)"
  "phys_content (snd (split_phys_areas offset_in_vma m)) a = phys_content m (offset_in_vma + a)"
proof (induction m)
  case (Cons e m)
  { case 1 from Cons show ?case by (cases e) (auto simp: Let_def split_beta phys_cell_eq)
  next
    case 2 from Cons show ?case
      by (cases e) (auto simp: Let_def split_beta phys_cell_eq) }
qed simp_all

lemma split_phys_areas_above:
  "tiles lo m hi \<Longrightarrow> offset_in_vma \<le> lo \<Longrightarrow>
     fst (split_phys_areas offset_in_vma m) = [] \<and> tiles (lo - offset_in_vma) (snd (split_phys_areas offset_in_vma m)) (hi - offset_in_vma)"
proof (induction m arbitrary: lo)
  case (Cons e m)
  obtain k a where e: "e = (k, a)" by (cases e)
  have "lo + p_size a - offset_in_vma = lo - offset_in_vma + p_size a" using Cons.prems by linarith
  then show ?case using Cons.IH [of "lo + p_size a"] Cons.prems e
    by (auto simp: Let_def split_beta)
qed simp

lemma split_phys_areas_tiles:
  "tiles lo m hi \<Longrightarrow> lo \<le> offset_in_vma \<Longrightarrow> offset_in_vma \<le> hi \<Longrightarrow>
     tiles lo (fst (split_phys_areas offset_in_vma m)) offset_in_vma \<and> tiles 0 (snd (split_phys_areas offset_in_vma m)) (hi - offset_in_vma)"
proof (induction m arbitrary: lo)
  case (Cons e m)
  obtain k a where e: "e = (k, a)" by (cases e)
  show ?case
  proof (cases "lo + p_size a \<le> offset_in_vma")
    case True
    then show ?thesis using Cons.IH [of "lo + p_size a"] Cons.prems e
      by (auto simp: Let_def split_beta)
  next
    case False
    then show ?thesis
      using split_phys_areas_above [of "lo + p_size a" m hi offset_in_vma] Cons.prems e
      by (auto simp: Let_def split_beta add.commute)
  qed
qed simp

lemma vma_split_fields:
  "vtype (fst (vma_split c v)) = vtype v" "vtype (snd (vma_split c v)) = vtype v"
  "prot (fst (vma_split c v)) = prot v" "prot (snd (vma_split c v)) = prot v"
  "vname (fst (vma_split c v)) = vname v" "vname (snd (vma_split c v)) = vname v"
  "disallow_merge (fst (vma_split c v)) = disallow_merge v"
  "disallow_merge (snd (vma_split c v)) = disallow_merge v"
  "v_size (fst (vma_split c v)) = c" "v_size (snd (vma_split c v)) = v_size v - c"
  "v_base (fst (vma_split c v)) = v_base v" "v_base (snd (vma_split c v)) = v_base v + c"
  "phys_areas (fst (vma_split c v)) =
     (if HasPhysicalBacking v then fst (split_phys_areas c (phys_areas v)) else phys_areas v)"
  "phys_areas (snd (vma_split c v)) =
     (if HasPhysicalBacking v then snd (split_phys_areas c (phys_areas v)) else phys_areas v)"
  by (auto simp: vma_split_def Let_def HasPhysicalBacking_def)

lemma CanMergeWith_iff:
  "CanMergeWith v n \<longleftrightarrow> \<not> disallow_merge v \<and> \<not> disallow_merge n \<and> v_base v + v_size v = v_base n \<and>
     prot v = prot n \<and> vtype v = vtype n \<and> vname v = vname n \<and>
     (vtype v = Direct \<longrightarrow> direct_continues v n)"
  by (auto simp: CanMergeWith_def)

lemma vma_join_areas:
  assumes "vma_ok k v" "vma_ok n w" "vtype v = vtype w"
  shows "phys_areas (vma_join v w) = phys_areas v @ shift_keys (v_size v) (phys_areas w)"
proof (cases "HasPhysicalBacking v")
  case True
  then have t: "tiles 0 (phys_areas v) (v_size v)" "tiles 0 (phys_areas w) (v_size w)"
    using assms by (auto simp: vma_ok_def HasPhysicalBacking_def split: if_splits)
  have "\<forall>e \<in> set (phys_areas v). fst e < v_size v + 0"
  proof
    fix e assume "e \<in> set (phys_areas v)"
    then have "0 < p_size (snd e)" "fst e + p_size (snd e) \<le> v_size v"
      using areas_wf_mem [OF tiles_wf [OF t(1)], of "fst e" "snd e"]
        areas_wf_below [OF tiles_wf [OF t(1)], of "fst e" "snd e"] tiles_end [OF t(1)] by auto
    then show "fst e < v_size v + 0" by linarith
  qed
  then show ?thesis using fold_put_tiles [OF t(2)] by (simp add: vma_join_def)
next
  case False
  then show ?thesis using assms by (auto simp: vma_ok_def vma_join_def HasPhysicalBacking_def)
qed

lemma vma_join_fields:
  "vtype (vma_join v w) = vtype v" "prot (vma_join v w) = prot v" "vname (vma_join v w) = vname v"
  "disallow_merge (vma_join v w) = disallow_merge v" "v_size (vma_join v w) = v_size v + v_size w"
  "v_base (vma_join v w) = v_base v"
  by (simp_all add: vma_join_def)

interpretation vmas: keyed_areas v_size vma_cell vma_ok vma_split CanMergeWith vma_join
proof unfold_locales
  fix k off v assume v: "vma_ok k v" "0 < off" "off < v_size v"
  have t: "HasPhysicalBacking v \<Longrightarrow> tiles 0 (phys_areas v) (v_size v)"
    "\<not> HasPhysicalBacking v \<Longrightarrow> phys_areas v = []" using v(1) by (auto simp: vma_ok_def)
  show "v_size (fst (vma_split off v)) = off \<and> v_size (snd (vma_split off v)) = v_size v - off"
    by (simp add: vma_split_fields)
  show "vma_ok k (fst (vma_split off v)) \<and> vma_ok (k + off) (snd (vma_split off v))"
    using v split_phys_areas_tiles [OF t(1), of off] t
    by (auto simp: vma_ok_def vma_split_fields HasPhysicalBacking_def)
  show "vma_cell (fst (vma_split off v)) i = vma_cell v i" if "i < off" for i
    using that by (simp add: vma_cell_def vma_split_fields split_phys_areas_content)
  show "vma_cell (snd (vma_split off v)) i = vma_cell v (off + i)" if "i < v_size v - off" for i
    using that t(2) by (simp add: vma_cell_def vma_split_fields split_phys_areas_content)
next
  fix k v w assume v: "vma_ok k v" and w: "vma_ok (k + v_size v) w" and c: "CanMergeWith v w"
  have ty: "vtype v = vtype w" using c by (simp add: CanMergeWith_iff)
  note a = vma_join_areas [OF v w ty]
  show "v_size (vma_join v w) = v_size v + v_size w" by (simp add: vma_join_fields)
  show "vma_ok k (vma_join v w)"
    using v w ty tiles_shift [of 0 "phys_areas w" "v_size w" "v_size v"]
    by (auto simp: vma_ok_def vma_join_fields a HasPhysicalBacking_def tiles_append)
  fix i assume i: "i < v_size v + v_size w"
  have none: "phys_content (phys_areas v) i = None" if "v_size v \<le> i"
  proof (cases "HasPhysicalBacking v")
    case True
    then have t: "tiles 0 (phys_areas v) (v_size v)" using v by (simp add: vma_ok_def)
    show ?thesis using content_below_None [OF tiles_wf [OF t]] tiles_end [OF t] that by simp
  qed (use v in \<open>simp add: vma_ok_def\<close>)
  show "vma_cell (vma_join v w) i =
      (if i < v_size v then vma_cell v i else vma_cell w (i - v_size v))"
    using c none by (auto simp: vma_cell_def vma_join_fields a CanMergeWith_iff content_append
        content_shift split: option.split)
next
  show "n = k + v_size v" if "vma_ok k v" "vma_ok n w" "CanMergeWith v w" for k v n w
    using that by (simp add: vma_ok_def CanMergeWith_iff)
qed

end
