(* ===== verification/Memory_State.thy ===== *)
theory Memory_State
  imports Vma_Map
begin

text \<open>
  The state of \<open>MemoryManager\<close> (\<open>src/src/core/memory.h\<close>) and its read-only checks
  \<open>IsValidMapping\<close>, \<open>IsValidGpuMapping\<close> and \<open>ClampRangeSize\<close>.

  The calls into the host (\<open>AddressSpace\<close>, the rasterizer, the zeroing of released backing) are
  recorded in order in the field \<open>effects\<close>; the address space itself is described by the bounds
  that the manager reads from it.  Every operation is one function on this state, as each runs
  under \<open>unmap_mutex\<close> and the writer lock.
\<close>

text \<open>Error codes of \<open>orbis_error.h\<close> as signed 32-bit values.\<close>

abbreviation ORBIS_OK :: s32 where "ORBIS_OK \<equiv> 0"
abbreviation KERNEL_ENOENT :: s32 where "KERNEL_ENOENT \<equiv> 0x80020002 - 2 ^ 32"
abbreviation KERNEL_EBADF :: s32 where "KERNEL_EBADF \<equiv> 0x80020009 - 2 ^ 32"
abbreviation KERNEL_ENOMEM :: s32 where "KERNEL_ENOMEM \<equiv> 0x8002000C - 2 ^ 32"
abbreviation KERNEL_EACCES :: s32 where "KERNEL_EACCES \<equiv> 0x8002000D - 2 ^ 32"
abbreviation KERNEL_EFAULT :: s32 where "KERNEL_EFAULT \<equiv> 0x8002000E - 2 ^ 32"
abbreviation KERNEL_EBUSY :: s32 where "KERNEL_EBUSY \<equiv> 0x80020010 - 2 ^ 32"
abbreviation KERNEL_EINVAL :: s32 where "KERNEL_EINVAL \<equiv> 0x80020016 - 2 ^ 32"
abbreviation KERNEL_EAGAIN :: s32 where "KERNEL_EAGAIN \<equiv> 0x80020023 - 2 ^ 32"
abbreviation KERNEL_ENAMETOOLONG :: s32 where "KERNEL_ENAMETOOLONG \<equiv> 0x8002003F - 2 ^ 32"

datatype Effect =
    AsMap u64 u64 u64 bool
  | AsMapFile u64 u64 int u32
  | AsUnmap u64 u64
  | AsProtect u64 u64 u32
  | GpuMap u64 u64
  | GpuUnmap u64 u64
  | GpuInvalidate u64 u64
  | ZeroBacking u64 u64

record AddressSpace =
  SystemManagedVirtualBase :: u64
  UserVirtualBase :: u64
  UserVirtualSize :: u64

record PrtArea =
  prt_start :: u64
  prt_end :: u64
  prt_mapped :: bool

record MemoryManager =
  impl :: AddressSpace
  dmem_map :: PhysMap
  fmem_map :: PhysMap
  vma_map :: VMAMap
  mapping_generation :: "64 word"
  total_direct_size :: u64
  total_flexible_size :: u64
  flexible_usage :: u64
  pool_budget :: u64
  sdk_version :: s32
  prt_areas :: "PrtArea list"
  effects :: "Effect list"

definition emit :: "Effect \<Rightarrow> MemoryManager \<Rightarrow> MemoryManager" where
  "emit e s = s\<lparr>effects := effects s @ [e]\<rparr>"

definition emit_if :: "bool \<Rightarrow> Effect \<Rightarrow> MemoryManager \<Rightarrow> MemoryManager" where
  "emit_if c e s = (if c then emit e s else s)"

text \<open>The constructor and the destructor of \<open>MemoryMapGeneration::Mutation\<close>.\<close>

definition BeginMutation :: "MemoryManager \<Rightarrow> MemoryManager" where
  "BeginMutation s = s\<lparr>mapping_generation := mapping_generation s + 1\<rparr>"

definition FinishMutation :: "MemoryManager \<Rightarrow> MemoryManager" where
  "FinishMutation s = s\<lparr>mapping_generation := mapping_generation s + 1\<rparr>"

definition GetAvailableFlexibleSize :: "MemoryManager \<Rightarrow> u64" where
  "GetAvailableFlexibleSize s = sub64 (total_flexible_size s) (flexible_usage s)"

definition IsValidGpuMapping :: "u64 \<Rightarrow> u64 \<Rightarrow> bool" where
  "IsValidGpuMapping addr len \<longleftrightarrow> add64 addr len < 0x10000000000"

section \<open>Iterating from a handle\<close>

definition entries_from :: "nat \<Rightarrow> 'v smap \<Rightarrow> 'v smap" where
  "entries_from k m = dropWhile (\<lambda>e. fst e < k) m"

lemma entries_from_mid:
  "\<forall>e \<in> set xs. fst e < k \<Longrightarrow> entries_from k (xs @ (k, v) # ys) = (k, v) # ys"
  by (induction xs) (auto simp: entries_from_def)

text \<open>
  The loop of \<open>IsValidMapping\<close> from the area that holds the address, with the unsigned
  differences of the code.
\<close>

fun valid_loop :: "VMAMap \<Rightarrow> u64 \<Rightarrow> u64 \<Rightarrow> bool" where
  "valid_loop [] addr_to_check size_to_validate = (size_to_validate \<le> 0)"
| "valid_loop ((k, v) # m) addr_to_check size_to_validate =
     (if size_to_validate = 0 then True
      else let offset_in_vma = sub64 addr_to_check (v_base v);
               size_in_vma = min (sub64 (v_size v) offset_in_vma) size_to_validate;
               size_to_validate' = size_to_validate - size_in_vma;
               addr_to_check' = add64 addr_to_check size_in_vma
           in if size_to_validate' > 0 \<and> m \<noteq> [] \<and> addr_to_check' \<noteq> v_base (snd (hd m)) then False
              else valid_loop m addr_to_check' size_to_validate')"

definition IsValidMapping :: "VMAMap \<Rightarrow> u64 \<Rightarrow> u64 \<Rightarrow> bool option" where
  "IsValidMapping m virtual_addr len =
     (if m = [] then None
      else let end_addr = add64 (fst (last m)) (v_size (snd (last m)))
           in if virtual_addr < fst (hd m) \<or> virtual_addr \<ge> end_addr then Some False
              else if len = 0 then Some True
              else do { k \<leftarrow> FindVMA m virtual_addr;
                        Some (valid_loop (entries_from k m) virtual_addr len) })"

text \<open>\<open>ASSERT_MSG(IsValidMapping(..))\<close>, the guard of most operations.\<close>

definition assert_valid :: "VMAMap \<Rightarrow> u64 \<Rightarrow> u64 \<Rightarrow> unit option" where
  "assert_valid m addr len = do { ok \<leftarrow> IsValidMapping m addr len; ASSERT ok }"

fun clamp_loop :: "VMAMap \<Rightarrow> u64 \<Rightarrow> u64 \<Rightarrow> u64" where
  "clamp_loop [] clamped len = clamped"
| "clamp_loop ((k, v) # m) clamped len =
     (if IsMapped v \<and> clamped < len then clamp_loop m (add64 clamped (v_size v)) len else clamped)"

definition ClampRangeSize :: "MemoryManager \<Rightarrow> u64 \<Rightarrow> u64 \<Rightarrow> u64 option" where
  "ClampRangeSize s virtual_addr len =
     (if len < GB1 then Some len
      else do {
        assert_valid (vma_map s) virtual_addr 0;
        k \<leftarrow> FindVMA (vma_map s) virtual_addr;
        v \<leftarrow> map_of (vma_map s) k;
        Some (min (clamp_loop (tl (entries_from k (vma_map s)))
                     (sub64 (v_base v + v_size v) virtual_addr) len) len) })"

section \<open>The address range a map covers\<close>

definition covered :: "VMAMap \<Rightarrow> u64 \<Rightarrow> u64 \<Rightarrow> bool" where
  "covered m addr len \<longleftrightarrow> (\<forall>a. addr \<le> a \<and> a < addr + len \<longrightarrow> vma_content m a \<noteq> None)"

lemma covered_0 [simp]: "covered m addr 0"
  unfolding covered_def by fastforce

text \<open>The facts about the area that \<open>FindVMA\<close> returns, for an address the map covers.\<close>

lemma FindVMA_content:
  assumes "vma_wf lo m" "vma_content m a = Some b"
  obtains xs k v ys where "m = xs @ (k, v) # ys" "FindVMA m a = Some k" "map_of m k = Some v"
    "k \<le> a" "a < k + v_size v" "b = vma_cell v (a - k)" "vma_ok k v" "v_base v = k"
proof -
  obtain k v where kv: "find_le a m = Some k" "map_of m k = Some v" "k \<le> a" "a < k + v_size v"
    "b = vma_cell v (a - k)" "(k, v) \<in> set m"
    by (rule find_le_content [OF assms])
  obtain xs ys where m: "m = xs @ (k, v) # ys" using kv(6) by (meson split_list)
  have "vma_ok k v" using areas_wf_mem [OF assms(1) kv(6)] by simp
  then show ?thesis using kv m by (intro that) (auto simp: FindVMA_def vma_ok_def)
qed

lemma valid_loop_covered:
  "areas_wf v_size vma_ok lo ((k, v) # m) \<Longrightarrow> vma_end lo ((k, v) # m) < two64 \<Longrightarrow>
   k \<le> addr \<Longrightarrow> addr < k + v_size v \<Longrightarrow> len < two64 \<Longrightarrow>
   valid_loop ((k, v) # m) addr len \<longleftrightarrow> covered ((k, v) # m) addr len"
proof (induction m arbitrary: lo k v addr len)
  case Nil
  have b: "v_base v = k" using Nil.prems by (simp add: vma_ok_def)
  have e: "k + v_size v < two64" using Nil.prems by simp
  have off: "sub64 addr (v_base v) = addr - k" "sub64 (v_size v) (addr - k) = v_size v - (addr - k)"
    using b e Nil.prems by (simp_all add: sub64_exact del: diff_diff_right)
  have "covered [(k, v)] addr len \<longleftrightarrow> len \<le> v_size v - (addr - k)"
  proof
    assume c: "covered [(k, v)] addr len"
    show "len \<le> v_size v - (addr - k)"
    proof (rule ccontr)
      assume "\<not> len \<le> v_size v - (addr - k)"
      then show False using c Nil.prems by (auto simp: covered_def dest!: spec [of _ "k + v_size v"])
    qed
  qed (use Nil.prems in \<open>auto simp: covered_def\<close>)
  then show ?case using off by (auto simp: Let_def)
next
  case (Cons e m)
  obtain n w where e: "e = (n, w)" by (cases e)
  have b: "v_base v = k" "v_base w = n" using Cons.prems e by (auto simp: vma_ok_def)
  have wf: "areas_wf v_size vma_ok (k + v_size v) ((n, w) # m)" using Cons.prems e by simp
  have wfn: "areas_wf v_size vma_ok n ((n, w) # m)" using wf by simp
  have ends: "vma_end (k + v_size v) ((n, w) # m) < two64" using Cons.prems e by simp
  have "k + v_size v \<le> n" "0 < v_size w" using wf by auto
  moreover have "n + v_size w \<le> vma_end (k + v_size v) ((n, w) # m)"
    by (rule areas_wf_below [OF wf]) simp
  ultimately have bnd: "n + v_size w < two64" "k + v_size v < two64" using ends by auto
  define r where "r = v_size v - (addr - k)"
  have off: "sub64 addr (v_base v) = addr - k" "sub64 (v_size v) (addr - k) = r"
    using b bnd Cons.prems by (simp_all add: sub64_exact r_def del: diff_diff_right)
  have r: "addr + r = k + v_size v" using Cons.prems by (simp add: r_def)
  show ?case
  proof (cases "len \<le> r")
    case True
    have "covered ((k, v) # (n, w) # m) addr len"
      unfolding covered_def using Cons.prems True r by auto
    moreover have "valid_loop ((n, w) # m) a 0" for a by simp
    ultimately show ?thesis using off True e by (auto simp: Let_def)
  next
    case False
    have min: "min r len = r" using False by simp
    have add: "add64 addr r = k + v_size v" using r bnd by (simp add: add64_exact)
    have step: "valid_loop ((k, v) # (n, w) # m) addr len \<longleftrightarrow>
        k + v_size v = n \<and> valid_loop ((n, w) # m) (k + v_size v) (len - r)"
      using off False b(2) min add by (auto simp: Let_def)
    have cov: "covered ((k, v) # (n, w) # m) addr len \<longleftrightarrow>
        k + v_size v = n \<and> covered ((n, w) # m) (k + v_size v) (len - r)"
    proof
      assume c: "covered ((k, v) # (n, w) # m) addr len"
      have "vma_content ((k, v) # (n, w) # m) (k + v_size v) \<noteq> None"
        using c False r Cons.prems unfolding covered_def by (auto dest!: spec [of _ "k + v_size v"])
      then have "vma_content ((n, w) # m) (k + v_size v) \<noteq> None" by simp
      then have "n \<le> k + v_size v"
        using content_above_None [OF wfn, of "k + v_size v" vma_cell] by (meson not_less)
      then have eq: "k + v_size v = n" using \<open>k + v_size v \<le> n\<close> by simp
      have "covered ((n, w) # m) (k + v_size v) (len - r)"
        unfolding covered_def
      proof (intro allI impI)
        fix a assume a: "k + v_size v \<le> a \<and> a < k + v_size v + (len - r)"
        then have "addr \<le> a \<and> a < addr + len" using False r by linarith
        then have "vma_content ((k, v) # (n, w) # m) a \<noteq> None"
          using c unfolding covered_def by blast
        then show "vma_content ((n, w) # m) a \<noteq> None" using a content_skip by metis
      qed
      with eq show "k + v_size v = n \<and> covered ((n, w) # m) (k + v_size v) (len - r)" by simp
    next
      assume c: "k + v_size v = n \<and> covered ((n, w) # m) (k + v_size v) (len - r)"
      show "covered ((k, v) # (n, w) # m) addr len"
        unfolding covered_def
      proof (intro allI impI)
        fix a assume a: "addr \<le> a \<and> a < addr + len"
        show "vma_content ((k, v) # (n, w) # m) a \<noteq> None"
        proof (cases "a < k + v_size v")
          case True
          then show ?thesis using a Cons.prems by simp
        next
          case False
          then have "k + v_size v \<le> a \<and> a < k + v_size v + (len - r)"
            using a r \<open>\<not> len \<le> r\<close> by linarith
          then have "vma_content ((n, w) # m) a \<noteq> None" using c unfolding covered_def by blast
          with False show ?thesis using content_skip by (metis not_less)
        qed
      qed
    qed
    have IH: "k + v_size v = n \<Longrightarrow> valid_loop ((n, w) # m) (k + v_size v) (len - r)
        \<longleftrightarrow> covered ((n, w) # m) (k + v_size v) (len - r)"
      by (rule Cons.IH [OF wf ends]) (use \<open>0 < v_size w\<close> Cons.prems in auto)
    show ?thesis unfolding e step cov using IH by blast
  qed
qed

text \<open>
  \<open>IsValidMapping\<close> of an address that the map covers decides whether the whole range is covered.
\<close>

lemma IsValidMapping_covered:
  assumes wf: "vma_wf lo m" "vma_end lo m < two64" and a: "vma_content m addr \<noteq> None"
    and len: "len < two64"
  shows "IsValidMapping m addr len = Some (covered m addr len)"
proof -
  obtain b where b: "vma_content m addr = Some b" using a by auto
  obtain xs k v ys where m: "m = xs @ (k, v) # ys" and f: "FindVMA m addr = Some k"
    "k \<le> addr" "addr < k + v_size v"
    by (rule FindVMA_content [OF wf(1) b])
  note w = areas_wf_mid [OF wf(1) [unfolded m]]
  have wfk: "areas_wf v_size vma_ok (areas_end v_size lo xs) ((k, v) # ys)"
    and endk: "vma_end (areas_end v_size lo xs) ((k, v) # ys) < two64"
    using wf m by (auto simp: areas_wf_append areas_end_append)
  have ne: "m \<noteq> []" using m by simp
  have hd: "fst (hd m) \<le> addr" using m w(6) f(2) by (cases xs) auto
  have lastm: "(fst (last m), snd (last m)) \<in> set m" using ne by simp
  have last: "addr < fst (last m) + v_size (snd (last m))"
  proof (cases ys rule: rev_cases)
    case Nil
    then show ?thesis using m f by simp
  next
    case (snoc zs e)
    then have "e \<in> set ys" "last m = e" using m by auto
    then show ?thesis using w(7) f(3) by fastforce
  qed
  have add: "add64 (fst (last m)) (v_size (snd (last m))) = fst (last m) + v_size (snd (last m))"
    using areas_wf_below [OF wf(1) lastm] wf(2) by (intro add64_exact) linarith
  have cov: "covered m addr len \<longleftrightarrow> covered ((k, v) # ys) addr len"
    unfolding covered_def m using content_mid [OF wf(1) [unfolded m], of vma_cell] f(2) by auto
  have "entries_from k m = (k, v) # ys" unfolding m by (rule entries_from_mid [OF w(6)])
  then have "valid_loop (entries_from k m) addr len = covered m addr len"
    using valid_loop_covered [OF wfk endk f(2,3) len] cov by simp
  then show ?thesis
    unfolding IsValidMapping_def Let_def add using ne hd last f(1) by auto
qed

lemma assert_valid_covered:
  assumes "vma_wf lo m" "vma_end lo m < two64" "covered m addr len" "0 < len" "len < two64"
  shows "assert_valid m addr len = Some ()"
proof -
  have "vma_content m addr \<noteq> None" using assms(3,4) unfolding covered_def by simp
  from IsValidMapping_covered [OF assms(1,2) this assms(5)] assms(3)
  show ?thesis by (simp add: assert_valid_def)
qed

section \<open>Rewriting a range of virtual memory\<close>

text \<open>
  Carve a virtual area, assign it through the returned handle, merge it with its neighbours: the
  sequence with which unmapping, protecting, naming and decommitting change \<open>vma_map\<close>.
\<close>

definition set_vma ::
  "VMAMap \<Rightarrow> u64 \<Rightarrow> u64 \<Rightarrow> (VirtualMemoryArea \<Rightarrow> VirtualMemoryArea) \<Rightarrow> (nat \<times> VMAMap) option" where
  "set_vma m addr len f = do {
     (h, m1) \<leftarrow> CarveVMA m addr len;
     v \<leftarrow> map_of m1 h;
     MergeAdjacent_vma (put h (f v) m1) h }"

definition vma_rewrite ::
  "u64 \<Rightarrow> u64 \<Rightarrow> (vma_info \<Rightarrow> vma_info) \<Rightarrow> (nat \<Rightarrow> vma_info option) \<Rightarrow> nat \<Rightarrow> vma_info option" where
  "vma_rewrite addr len g c =
     (\<lambda>a. if addr \<le> a \<and> a < addr + len then map_option g (c a) else c a)"

lemma vma_rewrite_dom: "vma_rewrite addr len g c a = None \<longleftrightarrow> c a = None"
  by (simp add: vma_rewrite_def)

lemma set_vma_correct:
  assumes m: "vma_wf lo m" "FindVMA m addr = Some k" "map_of m k = Some v"
      "0 < len" "addr + len \<le> k + v_size v"
    and f: "\<And>u. vma_ok addr u \<Longrightarrow> v_size u = len \<Longrightarrow> vtype u = vtype v \<Longrightarrow>
      vma_ok addr (f u) \<and> v_size (f u) = len \<and>
      (\<forall>i < len. vma_cell (f u) i = g (vma_cell u i))"
  obtains h' m' v' where "set_vma m addr len f = Some (h', m')" "vma_wf lo m'" "vma_end lo m' = vma_end lo m"
    "vma_content m' = vma_rewrite addr len g (vma_content m)"
    "map_of m' h' = Some v'" "h' \<le> addr" "addr + len \<le> h' + v_size v'"
proof (rule vmas.carve_put_merge [OF m(1) m(2) [unfolded FindVMA_def] m(3,4,5)])
  fix m1 v1
  assume c: "carve_area v_size vma_split addr len m = Some (addr, m1)" "map_of m1 addr = Some v1"
    "v_size v1 = len" "vma_wf lo m1" "vma_content m1 = vma_content m" "vma_ok addr v1"
    "\<And>i. i < len \<Longrightarrow> vma_cell v1 i = vma_cell v (addr - k + i)"
    and step: "\<And>v2. v_size v2 = len \<Longrightarrow> vma_ok addr v2 \<Longrightarrow>
      \<exists>k' m2. merge_areas CanMergeWith vma_join addr (put addr v2 m1) = Some (k', m2)
        \<and> vma_wf lo (put addr v2 m1) \<and> vma_end lo (put addr v2 m1) = vma_end lo m
        \<and> vma_wf lo m2 \<and> vma_end lo m2 = vma_end lo m
        \<and> k' \<le> addr \<and> (\<exists>v'. map_of m2 k' = Some v' \<and> addr + len \<le> k' + v_size v')
        \<and> vma_content (put addr v2 m1) = (\<lambda>a. if addr \<le> a \<and> a < addr + len
              then Some (vma_cell v2 (a - addr)) else vma_content m a)
        \<and> vma_content m2 = (\<lambda>a. if addr \<le> a \<and> a < addr + len
              then Some (vma_cell v2 (a - addr)) else vma_content m a)"
  have "vma_cell v1 0 = vma_cell v (addr - k + 0)" using c(7) m(4) by blast
  then have ty: "vtype v1 = vtype v" by (simp add: vma_cell_def)
  note fv = f [OF c(6,3) ty]
  from step [of "f v1"] fv obtain k' m2 v' where
    s: "merge_areas CanMergeWith vma_join addr (put addr (f v1) m1) = Some (k', m2)"
      "vma_wf lo m2" "vma_end lo m2 = vma_end lo m" "k' \<le> addr" "map_of m2 k' = Some v'"
      "addr + len \<le> k' + v_size v'"
      "vma_content m2 = (\<lambda>a. if addr \<le> a \<and> a < addr + len
              then Some (vma_cell (f v1) (a - addr)) else vma_content m a)" by auto
  have in_m: "vma_content m a = Some (vma_cell v1 (a - addr))"
    if a: "addr \<le> a" "a < addr + len" for a
  proof -
    have "(addr, v1) \<in> set m1" using c(2) by (rule map_of_SomeD)
    then show ?thesis using content_Some_iff [OF c(4), of vma_cell a] a c(3,5) by auto
  qed
  have "vma_content m2 = vma_rewrite addr len g (vma_content m)"
    unfolding s(7) vma_rewrite_def using in_m fv by (intro ext) auto
  then show thesis
    using c(1,2) s by (intro that [of k' m2 v']) (auto simp: set_vma_def CarveVMA_def MergeAdjacent_vma_def)
qed

end
