(* ===== verification/Direct_Memory.thy ===== *)
theory Direct_Memory
  imports Memory_State
begin

text \<open>
  Direct memory (\<open>dmem_map\<close>) in \<open>src/src/core/memory.cpp\<close>: construction and resizing of the
  physical maps, \<open>PoolExpand\<close>, \<open>Allocate\<close>, and the queries \<open>DirectMemoryQuery\<close>,
  \<open>DirectQueryAvailable\<close>, \<open>GetDirectMemoryType\<close> and \<open>GetMemoryPoolStats\<close>.  A function that returns
  a \<open>PAddr\<close> returns \<open>minus_one64\<close> for the \<open>-1\<close> of the code.
\<close>

definition to_s32 :: "nat \<Rightarrow> s32" where
  "to_s32 n = sint (word_of_nat n :: 32 word)"

definition u64_of_int :: "int \<Rightarrow> u64" where
  "u64_of_int x = nat (x mod 18446744073709551616)"

section \<open>Construction\<close>

abbreviation TOTAL_MEM :: u64 where "TOTAL_MEM \<equiv> 5248 * MB1"
abbreviation TOTAL_MEM_PRO :: u64 where "TOTAL_MEM_PRO \<equiv> 5888 * MB1"
abbreviation TOTAL_MEM_DEV :: u64 where "TOTAL_MEM_DEV \<equiv> 6656 * MB1"
abbreviation TOTAL_MEM_DEV_PRO :: u64 where "TOTAL_MEM_DEV_PRO \<equiv> 7936 * MB1"
abbreviation FLEXIBLE_MEMORY_BASE :: u64 where "FLEXIBLE_MEMORY_BASE \<equiv> 64 * MB1"
abbreviation FLEXIBLE_MEMORY_SIZE :: u64 where "FLEXIBLE_MEMORY_SIZE \<equiv> 512 * MB1"

definition free_vma :: "u64 \<Rightarrow> u64 \<Rightarrow> VirtualMemoryArea" where
  "free_vma b n = \<lparr>v_base = b, v_size = n, phys_areas = [], vtype = VFree, prot = NoAccess,
     vname = '''', fd = 0, disallow_merge = False\<rparr>"

definition free_phys :: "u64 \<Rightarrow> u64 \<Rightarrow> PhysicalMemoryArea" where
  "free_phys b n = \<lparr>p_base = b, p_size = n, memory_type = 0, dma_type = PFree\<rparr>"

text \<open>
  \<open>MemoryManager::MemoryManager\<close>: the usable regions are those the address space reserved, the
  extra direct memory is a setting, and the compiled SDK version comes from the executable.
\<close>

definition construct_MemoryManager ::
  "AddressSpace \<Rightarrow> (u64 \<times> u64) list \<Rightarrow> int \<Rightarrow> s32 \<Rightarrow> MemoryManager" where
  "construct_MemoryManager as regions extra_dmem sdk =
     (let total_size = (if extra_dmem \<noteq> 0
                        then add64 TOTAL_MEM_DEV_PRO (u64_of_int (extra_dmem * int MB1))
                        else TOTAL_MEM_DEV_PRO)
      in \<lparr>impl = as,
          dmem_map = emplace 0 (free_phys 0 total_size) [],
          fmem_map = emplace total_size (free_phys total_size FLEXIBLE_MEMORY_SIZE) [],
          vma_map = fold (\<lambda>(lower, upper). emplace lower (free_vma lower (upper - lower))) regions [],
          mapping_generation = 0, total_direct_size = total_size,
          total_flexible_size = FLEXIBLE_MEMORY_SIZE, flexible_usage = 0, pool_budget = 0,
          sdk_version = sdk, prt_areas = replicate 3 \<lparr>prt_start = 0, prt_end = 0, prt_mapped = False\<rparr>,
          effects = []\<rparr>)"

definition SetupMemoryRegions ::
  "bool \<Rightarrow> bool \<Rightarrow> int \<Rightarrow> u64 \<Rightarrow> bool \<Rightarrow> bool \<Rightarrow> MemoryManager \<Rightarrow> MemoryManager option" where
  "SetupMemoryRegions is_neo is_devkit extra_dmem flexible_size use_extended_mem1 use_extended_mem2 s =
     (let t0 = (if is_neo then TOTAL_MEM_PRO else TOTAL_MEM);
          t1 = (if is_devkit then (if is_neo then TOTAL_MEM_DEV_PRO else TOTAL_MEM_DEV) else t0);
          t2 = (if extra_dmem \<noteq> 0 then add64 t1 (u64_of_int (extra_dmem * int MB1)) else t1);
          t3 = (if \<not> use_extended_mem1 \<and> is_neo then sub64 t2 (256 * MB1) else t2);
          t4 = (if \<not> use_extended_mem2 \<and> \<not> is_neo then sub64 t3 (128 * MB1) else t3);
          new_flexible = sub64 flexible_size FLEXIBLE_MEMORY_BASE;
          old_direct_size = total_direct_size s;
          new_direct = sub64 t4 flexible_size
      in do {
        ASSERT (new_flexible \<ge> flexible_usage s);
        k \<leftarrow> find_le new_direct (dmem_map s);
        a \<leftarrow> map_of (dmem_map s) k;
        ASSERT (dma_type a = PFree \<and> p_size a \<ge> sub64 old_direct_size new_direct);
        Some (s\<lparr>total_flexible_size := new_flexible, total_direct_size := new_direct,
                dmem_map := put k (a\<lparr>p_size := p_size a - sub64 old_direct_size new_direct\<rparr>)
                              (dmem_map s)\<rparr>) })"

section \<open>Searching for free direct memory\<close>

text \<open>
  The loop of \<open>PoolExpand\<close> and \<open>Allocate\<close> from an area: the handle of the first free area that ends
  late enough, and the start of the mapping in it; \<open>None\<close> when the map ends.
\<close>

fun search_dmem :: "PhysMap \<Rightarrow> u64 \<Rightarrow> u64 \<Rightarrow> u64 \<Rightarrow> (nat \<times> u64) option" where
  "search_dmem [] mapping_start len alignment = None"
| "search_dmem ((k, a) # m) mapping_start len alignment =
     (if dma_type a \<noteq> PFree \<or> GetEnd a < add64 mapping_start len
      then (case m of [] \<Rightarrow> None
            | (_, a') # _ \<Rightarrow> search_dmem m (AlignUp (p_base a') alignment) len alignment)
      else Some (k, mapping_start))"

definition PoolExpand ::
  "u64 \<Rightarrow> u64 \<Rightarrow> u64 \<Rightarrow> u64 \<Rightarrow> MemoryManager \<Rightarrow> (u64 \<times> MemoryManager) option" where
  "PoolExpand search_start search_end len alignment0 s =
     (let alignment = (if alignment0 > 0 then alignment0 else KB64) in do {
        k \<leftarrow> find_le search_start (dmem_map s);
        a \<leftarrow> map_of (dmem_map s) k;
        let mapping_start = (if search_start > p_base a then AlignUp search_start alignment
                             else AlignUp (p_base a) alignment);
        (case search_dmem (entries_from k (dmem_map s)) mapping_start len alignment of
           None \<Rightarrow> Some (minus_one64, s)
         | Some (h, start) \<Rightarrow> do {
             (c, m1) \<leftarrow> CarvePhysArea (dmem_map s) start len;
             area \<leftarrow> map_of m1 c;
             Some (start, s\<lparr>dmem_map := put c (area\<lparr>dma_type := PPooled, memory_type := 3\<rparr>) m1,
                            pool_budget := add64 (pool_budget s) len\<rparr>) }) })"

text \<open>\<open>Allocate\<close> merges the handle of the area it searched, not that of the area it carved.\<close>

definition Allocate ::
  "u64 \<Rightarrow> u64 \<Rightarrow> u64 \<Rightarrow> u64 \<Rightarrow> s32 \<Rightarrow> MemoryManager \<Rightarrow> (u64 \<times> MemoryManager) option" where
  "Allocate search_start search_end len alignment0 mtype s =
     (let alignment = (if alignment0 > 0 then alignment0 else KB16) in do {
        k \<leftarrow> find_le search_start (dmem_map s);
        a \<leftarrow> map_of (dmem_map s) k;
        let mapping_start = AlignUp (max search_start (p_base a)) alignment;
        (case search_dmem (entries_from k (dmem_map s)) mapping_start len alignment of
           None \<Rightarrow> Some (minus_one64, s)
         | Some (h, start) \<Rightarrow>
             if add64 start len > search_end then Some (minus_one64, s)
             else do {
               (c, m1) \<leftarrow> CarvePhysArea (dmem_map s) start len;
               area \<leftarrow> map_of m1 c;
               (_, m2) \<leftarrow> MergeAdjacent_phys (put c (area\<lparr>memory_type := mtype, dma_type := Allocated\<rparr>) m1) h;
               Some (start, s\<lparr>dmem_map := m2\<rparr>) }) })"

section \<open>Queries\<close>

record OrbisQueryInfo =
  q_start :: u64
  q_end :: u64
  q_memoryType :: s32

text \<open>The second loop of \<open>DirectMemoryQuery\<close>: the end of the run of areas of one memory type.\<close>

fun query_end :: "PhysMap \<Rightarrow> OrbisQueryInfo \<Rightarrow> OrbisQueryInfo" where
  "query_end [] info = info"
| "query_end ((k, a) # m) info =
     (if memory_type a = q_memoryType info \<and> (dma_type a = Mapped \<or> dma_type a = Allocated)
      then query_end m (info\<lparr>q_end := GetEnd a\<rparr>) else info)"

definition DirectMemoryQuery ::
  "u64 \<Rightarrow> bool \<Rightarrow> OrbisQueryInfo \<Rightarrow> MemoryManager \<Rightarrow> (s32 \<times> OrbisQueryInfo) option" where
  "DirectMemoryQuery addr find_next info s =
     (if addr \<ge> total_direct_size s then Some (KERNEL_EACCES, info)
      else do {
        k \<leftarrow> find_le addr (dmem_map s);
        let rest = dropWhile (\<lambda>e. dma_type (snd e) = PFree \<and> find_next) (entries_from k (dmem_map s));
        (case rest of
           [] \<Rightarrow> Some (KERNEL_EACCES, info)
         | (_, a) # _ \<Rightarrow>
             if dma_type a = PFree then Some (KERNEL_EACCES, info)
             else Some (ORBIS_OK,
                    query_end rest (info\<lparr>q_start := p_base a, q_memoryType := memory_type a\<rparr>))) })"

text \<open>One turn of the loop of \<open>DirectQueryAvailable\<close>: the usable start and size of a free area.\<close>

definition available_in :: "u64 \<Rightarrow> u64 \<Rightarrow> u64 \<Rightarrow> PhysicalMemoryArea \<Rightarrow> u64 \<times> u64" where
  "available_in search_start search_end alignment a =
     (let aligned_base = (if alignment > 0 then AlignUp (p_base a) alignment else p_base a);
          alignment_size = sub64 aligned_base (p_base a);
          remaining = (if p_size a \<ge> alignment_size then p_size a - alignment_size else 0);
          (aligned_base, remaining) =
            (if p_base a < search_start
             then (if alignment > 0 then AlignUp search_start alignment else search_start,
                   if remaining > search_start - p_base a
                   then remaining - (search_start - p_base a) else 0)
             else (aligned_base, remaining));
          remaining =
            (if GetEnd a > search_end
             then if remaining > GetEnd a - search_end then remaining - (GetEnd a - search_end) else 0
             else remaining)
      in (aligned_base, remaining))"

fun available_loop :: "u64 \<Rightarrow> u64 \<Rightarrow> u64 \<Rightarrow> PhysMap \<Rightarrow> u64 \<times> u64 \<Rightarrow> u64 \<times> u64" where
  "available_loop search_start search_end alignment [] acc = acc"
| "available_loop search_start search_end alignment ((k, a) # m) acc =
     (if dma_type a \<noteq> PFree then available_loop search_start search_end alignment m acc
      else let (aligned_base, remaining) = available_in search_start search_end alignment a
           in available_loop search_start search_end alignment m
                (if remaining > snd acc then (aligned_base, remaining) else acc))"

definition DirectQueryAvailable ::
  "u64 \<Rightarrow> u64 \<Rightarrow> u64 \<Rightarrow> MemoryManager \<Rightarrow> (s32 \<times> u64 \<times> u64) option" where
  "DirectQueryAvailable search_start search_end alignment s = do {
     k \<leftarrow> find_le search_start (dmem_map s);
     let r = available_loop search_start search_end alignment (entries_from k (dmem_map s)) (0, 0);
     Some (ORBIS_OK, fst r, snd r) }"

text \<open>The outputs of a successful call are the memory type, the start and the end of the area.\<close>

definition GetDirectMemoryType ::
  "u64 \<Rightarrow> MemoryManager \<Rightarrow> (s32 + s32 \<times> u64 \<times> u64) option" where
  "GetDirectMemoryType addr s =
     (if addr \<ge> total_direct_size s then Some (Inl KERNEL_ENOENT)
      else do {
        k \<leftarrow> find_le addr (dmem_map s);
        a \<leftarrow> map_of (dmem_map s) k;
        Some (if dma_type a = PFree then Inl KERNEL_ENOENT
              else Inr (memory_type a, p_base a, GetEnd a)) })"

record OrbisKernelMemoryPoolBlockStats =
  available_flushed_blocks :: s32
  available_cached_blocks :: s32
  allocated_flushed_blocks :: s32
  allocated_cached_blocks :: s32

fun committed_loop :: "PhysMap \<Rightarrow> u64 \<Rightarrow> u64" where
  "committed_loop [] committed_size = committed_size"
| "committed_loop ((k, a) # m) committed_size =
     committed_loop m (if dma_type a = Committed then committed_size + p_size a else committed_size)"

definition GetMemoryPoolStats :: "MemoryManager \<Rightarrow> s32 \<times> OrbisKernelMemoryPoolBlockStats" where
  "GetMemoryPoolStats s =
     (let committed_size = committed_loop (dmem_map s) 0 in
      (ORBIS_OK,
       \<lparr>available_flushed_blocks = to_s32 (committed_size div KB64), available_cached_blocks = 0,
        allocated_flushed_blocks = to_s32 (committed_size div KB64), allocated_cached_blocks = 0\<rparr>))"

section \<open>The invariant of the direct memory map\<close>

text \<open>
  The areas cover exactly the direct memory, from 0 to \<open>total_direct_size\<close>; no address is lost and
  none is described twice.
\<close>

definition dmem_wf :: "MemoryManager \<Rightarrow> bool" where
  "dmem_wf s \<longleftrightarrow> phys_wf 0 (dmem_map s) \<and> phys_end 0 (dmem_map s) = total_direct_size s \<and>
     (\<forall>a < total_direct_size s. phys_content (dmem_map s) a \<noteq> None) \<and> total_direct_size s < 2 ^ 62"

abbreviation dmem_at :: "MemoryManager \<Rightarrow> nat \<Rightarrow> phys_info option" where
  "dmem_at s \<equiv> phys_content (dmem_map s)"

lemma phys_content_addr: "phys_wf lo m \<Longrightarrow> phys_content m a = Some (b, t, d) \<Longrightarrow> b = a"
  using areas_wf_mem [of p_size at_base lo m]
  by (fastforce simp: content_Some_iff phys_cell_def at_base_def)

lemma dmem_wf_end: "dmem_wf s \<Longrightarrow> (k, a) \<in> set (dmem_map s) \<Longrightarrow> k + p_size a \<le> total_direct_size s"
  unfolding dmem_wf_def using areas_wf_below by metis

lemma dmem_find:
  assumes "dmem_wf s" "addr < total_direct_size s"
  obtains xs k a ys where "dmem_map s = xs @ (k, a) # ys" "find_le addr (dmem_map s) = Some k"
    "map_of (dmem_map s) k = Some a" "k \<le> addr" "addr < k + p_size a" "p_base a = k"
    "dmem_at s addr = Some (addr, memory_type a, dma_type a)"
    "\<forall>e \<in> set xs. fst e < k"
proof -
  from assms obtain b where b: "phys_content (dmem_map s) addr = Some b"
    unfolding dmem_wf_def by auto
  have wf: "phys_wf 0 (dmem_map s)" using assms(1) by (simp add: dmem_wf_def)
  obtain k a where k: "find_le addr (dmem_map s) = Some k" "map_of (dmem_map s) k = Some a" "k \<le> addr"
    "addr < k + p_size a" "b = phys_cell a (addr - k)" "(k, a) \<in> set (dmem_map s)"
    by (rule find_le_content [OF wf b])
  have base: "p_base a = k" using areas_wf_mem [OF wf k(6)] by (simp add: at_base_def)
  obtain xs ys where m: "dmem_map s = xs @ (k, a) # ys" using k(6) by (meson split_list)
  have "\<forall>e \<in> set xs. fst e < k" using areas_wf_mid(6) [OF wf [unfolded m]] .
  with k base m b show ?thesis by (intro that) (auto simp: phys_cell_def)
qed

lemma find_le_dmem_Some:
  assumes "dmem_wf s" "0 < total_direct_size s"
  obtains xs k a ys where "dmem_map s = xs @ (k, a) # ys" "find_le addr (dmem_map s) = Some k"
    "map_of (dmem_map s) k = Some a" "k \<le> addr" "\<forall>e \<in> set ys. addr < fst e" "p_base a = k"
    "\<forall>e \<in> set xs. fst e < k" "addr < total_direct_size s \<Longrightarrow> addr < k + p_size a"
proof -
  have wf: "phys_wf 0 (dmem_map s)" using assms(1) by (simp add: dmem_wf_def)
  obtain k0 where "find_le 0 (dmem_map s) = Some k0" by (rule dmem_find [OF assms])
  then have "\<exists>v. (0, v) \<in> set (dmem_map s)" using find_le_Some [of 0 "dmem_map s" k0] by auto
  then have "find_le addr (dmem_map s) \<noteq> None"
    using find_le_None_iff [OF areas_wf_sorted [OF wf], of addr] by fastforce
  then obtain k where k: "find_le addr (dmem_map s) = Some k" by auto
  from find_le_split [OF areas_wf_sorted [OF wf] k] obtain xs a ys
    where m: "dmem_map s = xs @ (k, a) # ys" "k \<le> addr" "\<forall>e \<in> set ys. addr < fst e" by metis
  note w = areas_wf_mid [OF wf [unfolded m(1)]]
  have "map_of (dmem_map s) k = Some a" unfolding m(1) using w(6) by (rule map_of_mid)
  moreover have "addr < k + p_size a" if "addr < total_direct_size s"
    by (rule dmem_find [OF assms(1) that]) (use k calculation in auto)
  ultimately show ?thesis using k m w(4,6) by (intro that) (auto simp: at_base_def)
qed

text \<open>Rewriting the attributes of a range that lies in the map keeps the invariant.\<close>

lemma dmem_wf_rewrite:
  assumes "dmem_wf s" "phys_wf 0 m" "phys_end 0 m = phys_end 0 (dmem_map s)"
    "phys_content m = phys_rewrite addr len t d (dmem_at s)" "total_direct_size s' = total_direct_size s"
    "dmem_map s' = m"
  shows "dmem_wf s'"
  using assms unfolding dmem_wf_def phys_rewrite_def by auto

section \<open>The search is a first fit\<close>

text \<open>An address at which \<open>len\<close> bytes of one free area are available, aligned, from \<open>low\<close> on.\<close>

definition fits :: "PhysMap \<Rightarrow> u64 \<Rightarrow> u64 \<Rightarrow> u64 \<Rightarrow> u64 \<Rightarrow> bool" where
  "fits m low len alignment x \<longleftrightarrow> alignment dvd x \<and> low \<le> x \<and>
     (\<exists>(k, a) \<in> set m. dma_type a = PFree \<and> k \<le> x \<and> x + len \<le> k + p_size a)"

lemma fits_Cons:
  "fits ((k, a) # m) low len al x \<longleftrightarrow>
     (dma_type a = PFree \<and> al dvd x \<and> low \<le> x \<and> k \<le> x \<and> x + len \<le> k + p_size a) \<or> fits m low len al x"
  by (auto simp: fits_def)

lemma search_dmem_first_fit:
  assumes "phys_wf k ((k, a) # m)" "low + phys_end k ((k, a) # m) + al + len \<le> two64"
    "0 < al" "0 < len" "\<forall>e \<in> set m. low \<le> fst e"
  shows "case search_dmem ((k, a) # m) (AlignUp (max low k) al) len al of
      None \<Rightarrow> \<forall>x. \<not> fits ((k, a) # m) low len al x
    | Some (h, x) \<Rightarrow> fits ((k, a) # m) low len al x \<and> (\<forall>y. fits ((k, a) # m) low len al y \<longrightarrow> x \<le> y) \<and>
        (\<exists>b. (h, b) \<in> set ((k, a) # m) \<and> dma_type b = PFree \<and> h \<le> x \<and> x + len \<le> h + p_size b)"
  using assms
proof (induction m arbitrary: k a)
  case (Cons e m)
  obtain n b where e: "e = (n, b)" by (cases e)
  define st where "st = AlignUp (max low k) al"
  have ke: "k + p_size a \<le> phys_end k ((k, a) # e # m)" using areas_wf_below [OF Cons.prems(1)] by auto
  have bnd: "max low k + al \<le> two64" using Cons.prems(2,4) ke by auto
  note st = AlignUp_ge [OF bnd Cons.prems(3)] AlignUp_less [OF bnd Cons.prems(3)]
    AlignUp_dvd [OF bnd Cons.prems(3)] AlignUp_least [OF bnd Cons.prems(3)]
  have add: "add64 st len = st + len"
    using st(2) Cons.prems(2,4) ke unfolding st_def by (intro add64_exact) linarith
  have pb: "p_base a = k" "p_base b = n" using Cons.prems(1) e by (auto simp: at_base_def)
  have wf: "phys_wf n ((n, b) # m)" and en: "phys_end n ((n, b) # m) = phys_end k ((k, a) # e # m)"
    and kn: "k + p_size a \<le> n" and pos: "0 < p_size a" "0 < p_size b"
    using Cons.prems(1) e by auto
  have above: "n \<le> k'" if "(k', c) \<in> set ((n, b) # m)" for k' c
    using areas_wf_above [OF wf that] by simp
  show ?case
  proof (cases "dma_type a \<noteq> PFree \<or> GetEnd a < add64 st len")
    case True
    have step: "search_dmem ((k, a) # e # m) st len al = search_dmem ((n, b) # m) (AlignUp (max low n) al) len al"
      using True e pb Cons.prems(5) by (simp add: max_def)
    have feq: "fits ((k, a) # e # m) low len al x \<longleftrightarrow> fits ((n, b) # m) low len al x" for x
    proof -
      have "st \<le> x" if "al dvd x" "low \<le> x" "k \<le> x" using st(4) [of x] that unfolding st_def by simp
      then show ?thesis using True add pb unfolding fits_Cons [of k] e GetEnd_def by fastforce
    qed
    have "low + phys_end n ((n, b) # m) + al + len \<le> two64" "\<forall>e \<in> set m. low \<le> fst e"
      using Cons.prems(2,5) en by auto
    note IH = Cons.IH [OF wf this(1) Cons.prems(3,4) this(2)]
    show ?thesis
      unfolding st_def [symmetric] step using IH
      by (cases "search_dmem ((n, b) # m) (AlignUp (max low n) al) len al")
        (auto simp: feq [unfolded e] e simp del: search_dmem.simps)
  next
    case False
    have "fits ((k, a) # e # m) low len al st"
      using False st(1,3) add pb unfolding fits_Cons GetEnd_def st_def [symmetric] by simp
    moreover have "st \<le> y" if y: "fits ((k, a) # e # m) low len al y" for y
    proof -
      obtain k' c where kc: "(k', c) \<in> set ((k, a) # e # m)" "k' \<le> y" "low \<le> y" "al dvd y"
        using y unfolding fits_def by blast
      then have "k \<le> k'" using areas_wf_above [OF Cons.prems(1) kc(1)] by simp
      then have "k \<le> y" using kc(2) by simp
      then show ?thesis using st(4) [of y] kc(3,4) unfolding st_def by simp
    qed
    moreover have "search_dmem ((k, a) # e # m) st len al = Some (k, st)" using False by simp
    ultimately show ?thesis
      using False st(1) add pb unfolding st_def [symmetric] GetEnd_def
      by (auto intro!: exI [of _ a])
  qed
next
  case Nil
  define st where "st = AlignUp (max low k) al"
  have bnd: "max low k + al \<le> two64" using Nil.prems(2,4) by auto
  note st = AlignUp_ge [OF bnd Nil.prems(3)] AlignUp_less [OF bnd Nil.prems(3)]
    AlignUp_dvd [OF bnd Nil.prems(3)] AlignUp_least [OF bnd Nil.prems(3)]
  have add: "add64 st len = st + len"
    using st(2) Nil.prems(2,4) unfolding st_def by (intro add64_exact) auto
  have pb: "p_base a = k" using Nil.prems(1) by (auto simp: at_base_def)
  have one: "fits [(k, a)] low len al x \<longleftrightarrow>
      dma_type a = PFree \<and> al dvd x \<and> low \<le> x \<and> k \<le> x \<and> x + len \<le> k + p_size a" for x
    by (auto simp: fits_def)
  have least: "st \<le> x" if "al dvd x" "low \<le> x" "k \<le> x" for x
    using that st(4) [of x] unfolding st_def by simp
  show ?case
  proof (cases "dma_type a \<noteq> PFree \<or> GetEnd a < add64 st len")
    case True
    then have "\<not> fits [(k, a)] low len al x" for x
      unfolding one using least [of x] add pb by (auto simp: GetEnd_def)
    with True show ?thesis unfolding st_def [symmetric] by simp
  next
    case False
    then show ?thesis
      using st(1,3) add pb least unfolding st_def [symmetric] by (simp add: one GetEnd_def)
  qed
qed

text \<open>\<open>search_dmem\<close> from the area that \<open>FindDmemArea\<close> returns, over the whole map.\<close>

lemma search_dmem_from:
  assumes wf: "dmem_wf s" and k: "dmem_map s = xs @ (k, a) # ys" "\<forall>e \<in> set ys. low < fst e"
      "p_base a = k" "\<forall>e \<in> set xs. fst e < k" "k \<le> low"
    and b: "low + total_direct_size s + al + len \<le> two64" "0 < al" "0 < len"
  shows "case search_dmem (entries_from k (dmem_map s)) (AlignUp (max low (p_base a)) al) len al of
      None \<Rightarrow> \<forall>x. \<not> fits (dmem_map s) low len al x
    | Some (h, x) \<Rightarrow> fits (dmem_map s) low len al x \<and> (\<forall>y. fits (dmem_map s) low len al y \<longrightarrow> x \<le> y) \<and>
        (\<exists>b. (h, b) \<in> set (dmem_map s) \<and> dma_type b = PFree \<and> h \<le> x \<and> x + len \<le> h + p_size b)"
proof -
  have wfm: "phys_wf 0 (xs @ (k, a) # ys)" "phys_end 0 (xs @ (k, a) # ys) = total_direct_size s"
    using wf k(1) by (auto simp: dmem_wf_def)
  note w = areas_wf_mid [OF wfm(1)]
  have ef: "entries_from k (dmem_map s) = (k, a) # ys" unfolding k(1) by (rule entries_from_mid [OF k(4)])
  have wfk: "phys_wf k ((k, a) # ys)" and endk: "phys_end k ((k, a) # ys) = total_direct_size s"
    using w(3,4,5) wfm(2) by (auto simp: areas_end_append)
  have none: "\<not> (h \<le> x \<and> x + len \<le> h + p_size c)" if "(h, c) \<in> set xs" "low \<le> x" for h c x
  proof -
    have "h + p_size c \<le> areas_end p_size 0 xs" by (rule areas_wf_below [OF w(1) that(1)])
    then show ?thesis using w(2) k(5) that(2) b(3) by auto
  qed
  have feq: "fits (dmem_map s) low len al x \<longleftrightarrow> fits ((k, a) # ys) low len al x" for x
    unfolding fits_def k(1) using none by fastforce
  have "\<forall>e \<in> set ys. low \<le> fst e" using k(2) by auto
  note S = search_dmem_first_fit [OF wfk b(1) [folded endk] b(2,3) this]
  show ?thesis unfolding ef k(3) feq using S k(1)
    by (cases "search_dmem ((k, a) # ys) (AlignUp (max low k) al) len al")
      (auto simp del: search_dmem.simps)
qed

text \<open>
  The result of \<open>Allocate\<close> is the first fit: the least aligned address of a free area at which the
  request fits, given out when it ends inside the search range; every byte of it was free and is
  now allocated with the requested memory type, and nothing else changes.
\<close>

definition effective_alignment :: "u64 \<Rightarrow> u64 \<Rightarrow> u64" where
  "effective_alignment d alignment = (if alignment > 0 then alignment else d)"

lemma fits_free:
  assumes "phys_wf 0 m" "fits m low len al x" "x \<le> a" "a < x + len"
  shows "\<exists>t. phys_content m a = Some (a, t, PFree)"
proof -
  obtain k c where kc: "(k, c) \<in> set m" "dma_type c = PFree" "k \<le> x" "x + len \<le> k + p_size c"
    using assms(2) unfolding fits_def by blast
  have "phys_content m a = Some (phys_cell c (a - k))"
    by (rule content_mem [OF assms(1) kc(1)]) (use kc assms(3,4) in linarith)+
  moreover have "p_base c = k" using areas_wf_mem [OF assms(1) kc(1)] by (simp add: at_base_def)
  ultimately show ?thesis using kc assms(3) by (auto simp: phys_cell_def)
qed

text \<open>Carving and assigning a free range, with or without the merge of another handle.\<close>

lemma carve_free:
  assumes wf: "dmem_wf s" and h: "(h, b) \<in> set (dmem_map s)" "h \<le> x" "x + len \<le> h + p_size b" "0 < len"
    and f: "\<And>a. p_size (f a) = p_size a" "\<And>a. p_base (f a) = p_base a"
      "\<And>a. memory_type (f a) = t" "\<And>a. dma_type (f a) = d"
  obtains m1 v1 where "CarvePhysArea (dmem_map s) x len = Some (x, m1)" "map_of m1 x = Some v1"
    "phys_wf 0 (put x (f v1) m1)" "phys_end 0 (put x (f v1) m1) = phys_end 0 (dmem_map s)"
    "phys_content (put x (f v1) m1) = phys_rewrite x len t d (dmem_at s)"
    "\<exists>k m2. MergeAdjacent_phys (put x (f v1) m1) h = Some (k, m2) \<and> phys_wf 0 m2 \<and>
       phys_end 0 m2 = phys_end 0 (dmem_map s) \<and>
       phys_content m2 = phys_rewrite x len t d (dmem_at s)"
proof -
  have wfm: "phys_wf 0 (dmem_map s)" using wf by (simp add: dmem_wf_def)
  obtain xs ys where m: "dmem_map s = xs @ (h, b) # ys" using h(1) by (meson split_list)
  note w = areas_wf_mid [OF wfm [unfolded m]]
  have fl: "find_le x (dmem_map s) = Some h"
    unfolding m by (rule find_le_mid [OF w(9) h(2)]) (use w(7) h(3,4) in force)
  have mo: "map_of (dmem_map s) h = Some b" unfolding m by (rule map_of_mid [OF w(6)])
  show ?thesis
  proof (rule phys_areas.carve_put_merge [OF wfm fl mo h(4,3)])
    fix m1 v1
    assume c: "carve_area p_size phys_split x len (dmem_map s) = Some (x, m1)" "map_of m1 x = Some v1"
      "p_size v1 = len" "at_base x v1" "map_of m1 h \<noteq> None"
      and step: "\<And>v2. p_size v2 = len \<Longrightarrow> at_base x v2 \<Longrightarrow>
      \<exists>k' m2. merge_areas phys_CanMergeWith phys_join x (put x v2 m1) = Some (k', m2)
        \<and> phys_wf 0 (put x v2 m1) \<and> phys_end 0 (put x v2 m1) = phys_end 0 (dmem_map s)
        \<and> phys_wf 0 m2 \<and> phys_end 0 m2 = phys_end 0 (dmem_map s)
        \<and> k' \<le> x \<and> (\<exists>v'. map_of m2 k' = Some v' \<and> x + len \<le> k' + p_size v')
        \<and> phys_content (put x v2 m1) = (\<lambda>a. if x \<le> a \<and> a < x + len
              then Some (phys_cell v2 (a - x)) else phys_content (dmem_map s) a)
        \<and> phys_content m2 = (\<lambda>a. if x \<le> a \<and> a < x + len
              then Some (phys_cell v2 (a - x)) else phys_content (dmem_map s) a)"
    have fv: "p_size (f v1) = len" "at_base x (f v1)" using f c by (auto simp: at_base_def)
    from step [OF fv] have s: "phys_wf 0 (put x (f v1) m1)"
      "phys_end 0 (put x (f v1) m1) = phys_end 0 (dmem_map s)"
      "phys_content (put x (f v1) m1) = (\<lambda>a. if x \<le> a \<and> a < x + len
              then Some (phys_cell (f v1) (a - x)) else phys_content (dmem_map s) a)" by auto
    have "(\<lambda>a. if x \<le> a \<and> a < x + len then Some (phys_cell (f v1) (a - x))
        else phys_content (dmem_map s) a) = phys_rewrite x len t d (dmem_at s)"
      using fv f by (auto simp: phys_rewrite_def phys_cell_def at_base_def)
    note cont = s(3) [unfolded this]
    have "h \<in> fst ` set (put x (f v1) m1)"
    proof -
      obtain u where "(h, u) \<in> set m1" using c(5) by (meson map_of_SomeD not_None_eq)
      then show ?thesis by (induction m1) (auto split: if_splits, force+)
    qed
    then obtain u ps qs where ps: "put x (f v1) m1 = ps @ (h, u) # qs"
      by (metis (no_types, opaque_lifting) imageE prod.collapse split_list)
    obtain ps' k' v' qs' where mg:
      "merge_areas phys_CanMergeWith phys_join h (ps @ (h, u) # qs) = Some (k', ps' @ (k', v') # qs')"
      "phys_wf 0 (ps' @ (k', v') # qs')"
      "phys_content (ps' @ (k', v') # qs') = phys_content (ps @ (h, u) # qs)"
      "phys_end 0 (ps' @ (k', v') # qs') = phys_end 0 (ps @ (h, u) # qs)"
      by (rule phys_areas.merge_areas_correct [OF s(1) [unfolded ps]])
    show thesis
      by (rule that [of m1 v1])
        (use c s cont mg ps in \<open>auto simp: CarvePhysArea_def MergeAdjacent_phys_def\<close>)
  qed
qed

lemma Allocate_cases:
  assumes wf: "dmem_wf s" "0 < total_direct_size s" and len: "0 < len"
    and al: "al = effective_alignment KB16 alignment"
    and b: "search_start + total_direct_size s + al + len \<le> two64"
  obtains (fail) "Allocate search_start search_end len alignment mtype s = Some (minus_one64, s)"
      "\<forall>x. fits (dmem_map s) search_start len al x \<longrightarrow> search_end < x + len"
  | (ok) x m where "Allocate search_start search_end len alignment mtype s = Some (x, s\<lparr>dmem_map := m\<rparr>)"
      "fits (dmem_map s) search_start len al x" "x + len \<le> search_end"
      "\<forall>y. fits (dmem_map s) search_start len al y \<longrightarrow> x \<le> y"
      "phys_wf 0 m" "phys_end 0 m = total_direct_size s"
      "phys_content m = phys_rewrite x len mtype Allocated (dmem_at s)"
proof -
  have al0: "0 < al" using al by (simp add: effective_alignment_def)
  obtain xs k a ys where m: "dmem_map s = xs @ (k, a) # ys"
    and k: "find_le search_start (dmem_map s) = Some k" "map_of (dmem_map s) k = Some a" "k \<le> search_start"
      "\<forall>e \<in> set ys. search_start < fst e" "p_base a = k" "\<forall>e \<in> set xs. fst e < k"
    by (rule find_le_dmem_Some [OF wf])
  note S = search_dmem_from [OF wf(1) m k(4,5,6,3) b al0 len]
  let ?r = "search_dmem (entries_from k (dmem_map s)) (AlignUp (max search_start (p_base a)) al) len al"
  have un: "Allocate search_start search_end len alignment mtype s =
      (case ?r of None \<Rightarrow> Some (minus_one64, s)
       | Some (h, start) \<Rightarrow>
             if add64 start len > search_end then Some (minus_one64, s)
             else do {
               (c, m1) \<leftarrow> CarvePhysArea (dmem_map s) start len;
               area \<leftarrow> map_of m1 c;
               (_, m2) \<leftarrow> MergeAdjacent_phys (put c (area\<lparr>memory_type := mtype, dma_type := Allocated\<rparr>) m1) h;
               Some (start, s\<lparr>dmem_map := m2\<rparr>) })"
    unfolding Allocate_def al effective_alignment_def by (simp add: k)
  show ?thesis
  proof (cases ?r)
    case None
    with S un show ?thesis by (intro fail) auto
  next
    case (Some hx)
    obtain h x where hx: "hx = (h, x)" by (cases hx)
    from S Some hx obtain b where
      fit: "fits (dmem_map s) search_start len al x" "\<forall>y. fits (dmem_map s) search_start len al y \<longrightarrow> x \<le> y"
      and hb: "(h, b) \<in> set (dmem_map s)" "h \<le> x" "x + len \<le> h + p_size b" by auto
    have "x + len \<le> total_direct_size s" using dmem_wf_end [OF wf(1) hb(1)] hb(3) by simp
    then have add: "add64 x len = x + len" using b len by (intro add64_exact) linarith
    show ?thesis
    proof (cases "x + len > search_end")
      case True
      then have "\<forall>y. fits (dmem_map s) search_start len al y \<longrightarrow> search_end < y + len"
        using fit(2) by fastforce
      with True un Some hx add show ?thesis by (intro fail) auto
    next
      case False
      obtain m1 v1 m2 k2 where c: "CarvePhysArea (dmem_map s) x len = Some (x, m1)"
        "map_of m1 x = Some v1"
        "MergeAdjacent_phys (put x (v1\<lparr>memory_type := mtype, dma_type := Allocated\<rparr>) m1) h = Some (k2, m2)"
        "phys_wf 0 m2" "phys_end 0 m2 = phys_end 0 (dmem_map s)"
        "phys_content m2 = phys_rewrite x len mtype Allocated (dmem_at s)"
      proof (rule carve_free [OF wf(1) hb len, of "\<lambda>a. a\<lparr>memory_type := mtype, dma_type := Allocated\<rparr>"
            mtype Allocated])
      qed (use that in auto)
      have "Allocate search_start search_end len alignment mtype s = Some (x, s\<lparr>dmem_map := m2\<rparr>)"
        unfolding un Some hx using False add c by simp
      with c fit False wf(1) show ?thesis by (intro ok [of x m2]) (auto simp: dmem_wf_def)
    qed
  qed
qed

lemma PoolExpand_cases:
  assumes wf: "dmem_wf s" "0 < total_direct_size s" and len: "0 < len"
    and al: "al = effective_alignment KB64 alignment"
    and b: "search_start + total_direct_size s + al + len \<le> two64"
  obtains (fail) "PoolExpand search_start search_end len alignment s = Some (minus_one64, s)"
      "\<forall>x. \<not> fits (dmem_map s) search_start len al x"
  | (ok) x m where "PoolExpand search_start search_end len alignment s =
        Some (x, s\<lparr>dmem_map := m, pool_budget := add64 (pool_budget s) len\<rparr>)"
      "fits (dmem_map s) search_start len al x"
      "\<forall>y. fits (dmem_map s) search_start len al y \<longrightarrow> x \<le> y"
      "phys_wf 0 m" "phys_end 0 m = total_direct_size s"
      "phys_content m = phys_rewrite x len 3 PPooled (dmem_at s)"
proof -
  have al0: "0 < al" using al by (simp add: effective_alignment_def)
  obtain xs k a ys where m: "dmem_map s = xs @ (k, a) # ys"
    and k: "find_le search_start (dmem_map s) = Some k" "map_of (dmem_map s) k = Some a" "k \<le> search_start"
      "\<forall>e \<in> set ys. search_start < fst e" "p_base a = k" "\<forall>e \<in> set xs. fst e < k"
    by (rule find_le_dmem_Some [OF wf])
  note S = search_dmem_from [OF wf(1) m k(4,5,6,3) b al0 len]
  let ?r = "search_dmem (entries_from k (dmem_map s)) (AlignUp (max search_start (p_base a)) al) len al"
  have start: "(if search_start > p_base a then AlignUp search_start al else AlignUp (p_base a) al)
      = AlignUp (max search_start (p_base a)) al" by (simp add: max_def)
  have un: "PoolExpand search_start search_end len alignment s =
      (case ?r of None \<Rightarrow> Some (minus_one64, s)
       | Some (h, start) \<Rightarrow> do {
             (c, m1) \<leftarrow> CarvePhysArea (dmem_map s) start len;
             area \<leftarrow> map_of m1 c;
             Some (start, s\<lparr>dmem_map := put c (area\<lparr>dma_type := PPooled, memory_type := 3\<rparr>) m1,
                            pool_budget := add64 (pool_budget s) len\<rparr>) })"
    unfolding PoolExpand_def start [symmetric] by (simp add: k al effective_alignment_def)
  show ?thesis
  proof (cases ?r)
    case None
    with S un show ?thesis by (intro fail) auto
  next
    case (Some hx)
    obtain h x where hx: "hx = (h, x)" by (cases hx)
    from S Some hx obtain b where
      fit: "fits (dmem_map s) search_start len al x" "\<forall>y. fits (dmem_map s) search_start len al y \<longrightarrow> x \<le> y"
      and hb: "(h, b) \<in> set (dmem_map s)" "h \<le> x" "x + len \<le> h + p_size b" by auto
    obtain m1 v1 where c: "CarvePhysArea (dmem_map s) x len = Some (x, m1)" "map_of m1 x = Some v1"
      "phys_wf 0 (put x (v1\<lparr>dma_type := PPooled, memory_type := 3\<rparr>) m1)"
      "phys_end 0 (put x (v1\<lparr>dma_type := PPooled, memory_type := 3\<rparr>) m1) = phys_end 0 (dmem_map s)"
      "phys_content (put x (v1\<lparr>dma_type := PPooled, memory_type := 3\<rparr>) m1)
        = phys_rewrite x len 3 PPooled (dmem_at s)"
    proof (rule carve_free [OF wf(1) hb len, of "\<lambda>a. a\<lparr>dma_type := PPooled, memory_type := 3\<rparr>" 3 PPooled])
    qed (use that in auto)
    show ?thesis
      by (rule ok) (use un Some hx c fit wf(1) in \<open>auto simp: dmem_wf_def\<close>)
  qed
qed

lemma fits_below:
  assumes "dmem_wf s" "fits (dmem_map s) low len al x"
  shows "x + len \<le> total_direct_size s"
proof -
  obtain k a where "(k, a) \<in> set (dmem_map s)" "x + len \<le> k + p_size a"
    using assms(2) unfolding fits_def by blast
  then show ?thesis using dmem_wf_end [OF assms(1)] by fastforce
qed

section \<open>The queries\<close>

text \<open>Between two entries of the direct memory map there is no gap.\<close>

lemma no_gap:
  assumes "phys_wf k ((k, a) # (n, b) # m)" "phys_content ((k, a) # (n, b) # m) (k + p_size a) \<noteq> None"
  shows "n = k + p_size a"
proof -
  have wf: "phys_wf n ((n, b) # m)" and le: "k + p_size a \<le> n" using assms(1) by auto
  have "phys_content ((n, b) # m) (k + p_size a) \<noteq> None"
    using assms(2) content_skip [of k p_size a "k + p_size a"] by (metis order_refl)
  then have "\<not> k + p_size a < n" using content_above_None [OF wf] by metis
  with le show ?thesis by simp
qed

definition in_use :: "(nat \<Rightarrow> phys_info option) \<Rightarrow> s32 \<Rightarrow> nat \<Rightarrow> bool" where
  "in_use c t a \<longleftrightarrow> c a = Some (a, t, Mapped) \<or> c a = Some (a, t, Allocated)"

lemma query_end_run:
  assumes "phys_wf k ((k, a) # m)" "\<forall>x. k \<le> x \<and> x < phys_end k ((k, a) # m) \<longrightarrow> phys_content ((k, a) # m) x \<noteq> None"
    "memory_type a = q_memoryType info" "dma_type a = Mapped \<or> dma_type a = Allocated"
  shows "\<exists>e. query_end ((k, a) # m) info = info\<lparr>q_end := e\<rparr> \<and> k + p_size a \<le> e \<and>
    (\<forall>x. k \<le> x \<and> x < e \<longrightarrow> in_use (phys_content ((k, a) # m)) (q_memoryType info) x) \<and>
    \<not> in_use (phys_content ((k, a) # m)) (q_memoryType info) e"
  using assms
proof (induction m arbitrary: k a info)
  case Nil
  then show ?case by (auto simp: in_use_def phys_cell_def at_base_def GetEnd_def)
next
  case (Cons e m)
  obtain n b where e: "e = (n, b)" by (cases e)
  have pb: "p_base a = k" "p_base b = n" using Cons.prems e by (auto simp: at_base_def)
  have wf: "phys_wf n ((n, b) # m)" and pos: "0 < p_size a" "0 < p_size b" using Cons.prems(1) e by auto
  have nle: "n + p_size b \<le> phys_end k ((k, a) # e # m)"
    using areas_wf_below [OF Cons.prems(1), of n b] e by simp
  have kn: "k + p_size a \<le> n" using Cons.prems(1) e by simp
  have "phys_content ((k, a) # e # m) (k + p_size a) \<noteq> None"
    using Cons.prems(2) [rule_format, of "k + p_size a"] nle kn pos by linarith
  then have n: "n = k + p_size a" using no_gap [of k a n b m] Cons.prems(1) e by simp
  have skip: "phys_content ((k, a) # e # m) x = phys_content ((n, b) # m) x" if "n \<le> x" for x
    using content_skip [of k p_size a x] that n e by metis
  have head: "in_use (phys_content ((k, a) # e # m)) (q_memoryType info) x" if "k \<le> x" "x < n" for x
    using that n Cons.prems(3,4) pb by (auto simp: in_use_def phys_cell_def)
  let ?info = "info\<lparr>q_end := GetEnd a\<rparr>"
  have step: "query_end ((k, a) # e # m) info = query_end ((n, b) # m) ?info"
    using Cons.prems(3,4) e by simp
  show ?case
  proof (cases "memory_type b = q_memoryType info \<and> (dma_type b = Mapped \<or> dma_type b = Allocated)")
    case True
    have cov: "\<forall>x. n \<le> x \<and> x < phys_end n ((n, b) # m) \<longrightarrow> phys_content ((n, b) # m) x \<noteq> None"
    proof (intro allI impI)
      fix x assume x: "n \<le> x \<and> x < phys_end n ((n, b) # m)"
      then have "phys_content ((k, a) # e # m) x \<noteq> None"
        using Cons.prems(2) [rule_format, of x] n e by simp
      then show "phys_content ((n, b) # m) x \<noteq> None" using skip x by metis
    qed
    have "memory_type b = q_memoryType ?info" "dma_type b = Mapped \<or> dma_type b = Allocated"
      using True by auto
    from Cons.IH [OF wf cov this] obtain e' where
      "query_end ((n, b) # m) ?info = ?info\<lparr>q_end := e'\<rparr>" "n + p_size b \<le> e'"
      "\<forall>x. n \<le> x \<and> x < e' \<longrightarrow> in_use (phys_content ((n, b) # m)) (q_memoryType info) x"
      "\<not> in_use (phys_content ((n, b) # m)) (q_memoryType info) e'"
      by (auto simp del: content.simps query_end.simps)
    note r = this
    have iu: "in_use (phys_content ((k, a) # e # m)) t x = in_use (phys_content ((n, b) # m)) t x"
      if "n \<le> x" for t x unfolding in_use_def skip [OF that] by (rule refl)
    have "in_use (phys_content ((k, a) # e # m)) (q_memoryType info) x" if "k \<le> x" "x < e'" for x
      using head [of x] iu [of x] r(3) that by (cases "x < n") auto
    moreover have "\<not> in_use (phys_content ((k, a) # e # m)) (q_memoryType info) e'"
      using iu [of e'] r(2,4) by auto
    ultimately show ?thesis
      unfolding step using r(1,2) kn by (intro exI [of _ e']) (auto simp del: content.simps query_end.simps)
  next
    case False
    then have "query_end ((n, b) # m) ?info = ?info" by auto
    moreover have "\<not> in_use (phys_content ((k, a) # e # m)) (q_memoryType info) n"
      using False skip [of n] pos pb by (auto simp: in_use_def phys_cell_def)
    ultimately show ?thesis
      unfolding step using head n pb by (intro exI [of _ n])
        (auto simp: GetEnd_def simp del: content.simps query_end.simps)
  qed
qed

lemma committed_loop_sum:
  "committed_loop m n = n + (\<Sum>(k, a) \<leftarrow> m. if dma_type a = Committed then p_size a else 0)"
  by (induction m n rule: committed_loop.induct) auto

lemma committed_loop_card:
  assumes "phys_wf lo m"
  shows "committed_loop m 0 = card {a. \<exists>x t. phys_content m a = Some (x, t, Committed)}"
proof -
  have "(\<Sum>(k, v) \<leftarrow> m. if dma_type v = Committed then p_size v else 0) =
    card {a. \<exists>b. phys_content m a = Some b \<and> snd (snd b) = Committed}"
    by (rule areas_sum_card [OF assms]) (simp add: phys_cell_def)
  moreover have "{a. \<exists>b. phys_content m a = Some b \<and> snd (snd b) = Committed} =
      {a. \<exists>x t. phys_content m a = Some (x, t, Committed)}" by force
  ultimately show ?thesis by (simp add: committed_loop_sum)
qed

section \<open>Properties of direct memory\<close>

text \<open>The state right after construction, over one usable region, for concrete evaluations.\<close>

definition boot :: MemoryManager where
  "boot = construct_MemoryManager
     \<lparr>SystemManagedVirtualBase = 0x400000, UserVirtualBase = 0x1000000000, UserVirtualSize = 0x1000000000\<rparr>
     [(0x400000, 0x2000000000)] 0 0x3500000"

lemma boot_eval:
  "dmem_map boot = [(0, free_phys 0 (7936 * MB1))]"
  "fmem_map boot = [(7936 * MB1, free_phys (7936 * MB1) (512 * MB1))]"
  "vma_map boot = [(0x400000, free_vma 0x400000 (0x2000000000 - 0x400000))]"
  "total_direct_size boot = 7936 * MB1" "total_flexible_size boot = 512 * MB1"
  "flexible_usage boot = 0" "pool_budget boot = 0" "effects boot = []" "mapping_generation boot = 0"
  "sdk_version boot = 0x3500000"
  "impl boot = \<lparr>SystemManagedVirtualBase = 0x400000, UserVirtualBase = 0x1000000000, UserVirtualSize = 0x1000000000\<rparr>"
  by (simp_all add: boot_def construct_MemoryManager_def emplace_def Let_def)

lemma boot_dmem_wf: "dmem_wf boot"
  by (simp add: dmem_wf_def boot_eval at_base_def free_phys_def)

text \<open>
  Construction followed by \<open>SetupMemoryRegions\<close>: when the emulator does not stop, the direct
  memory map covers exactly the configured direct memory and all of it is free.
\<close>

theorem SetupMemoryRegions_dmem:
  assumes "SetupMemoryRegions neo devkit extra flexible_size ext1 ext2
      (construct_MemoryManager as regions extra sdk) = Some s"
    and "0 < total_direct_size s" "total_direct_size s < 2 ^ 62"
    and "total_direct_size (construct_MemoryManager as regions extra sdk) < 2 ^ 62"
  shows "dmem_wf s \<and> (\<forall>a < total_direct_size s. dmem_at s a = Some (a, 0, PFree))
    \<and> vma_map s = vma_map (construct_MemoryManager as regions extra sdk)"
proof -
  let ?c = "construct_MemoryManager as regions extra sdk"
  define T where "T = total_direct_size ?c"
  define N where "N = total_direct_size s"
  have dm: "dmem_map ?c = [(0, free_phys 0 T)]"
    by (simp add: construct_MemoryManager_def emplace_def Let_def T_def)
  from assms(1) have r: "dmem_map s = [(0, free_phys 0 (T - sub64 T N))]" "T \<ge> sub64 T N"
    "vma_map s = vma_map ?c"
    unfolding SetupMemoryRegions_def Let_def N_def T_def
    by (auto simp: bind_iff dm T_def [symmetric] free_phys_def split del: if_split)
  have TN: "T < 2 ^ 62" "N < 2 ^ 62" "0 < N" using assms by (auto simp: T_def N_def)
  have "sub64 T N = T - N \<and> N \<le> T"
  proof (cases "N \<le> T")
    case True
    then show ?thesis using TN by (simp add: sub64_exact)
  next
    case False
    then have "sub64 T N = two64 - (N - T)" using TN by (simp add: sub64_def)
    then show ?thesis using r(2) TN False by simp
  qed
  then have "dmem_map s = [(0, free_phys 0 N)]" using r(1) by simp
  then show ?thesis using TN r(3) unfolding N_def
    by (auto simp: dmem_wf_def at_base_def free_phys_def phys_cell_def)
qed

theorem SetupMemoryRegions_dmem_witness:
  "\<exists>s. SetupMemoryRegions False False 0 (448 * MB1) True True
      (construct_MemoryManager (impl boot) [(0x400000, 0x2000000000)] 0 0x3500000) = Some s \<and> dmem_wf s"
proof -
  let ?c = "construct_MemoryManager (impl boot) [(0x400000, 0x2000000000)] 0 0x3500000"
  let ?n = "total_flexible_size_update (\<lambda>_. 384 * MB1) (total_direct_size_update (\<lambda>_. 4800 * MB1)
     (dmem_map_update (\<lambda>_. [(0, free_phys 0 (4800 * MB1))]) ?c))"
  have e: "SetupMemoryRegions False False 0 (448 * MB1) True True ?c = Some ?n"
    by (simp add: SetupMemoryRegions_def construct_MemoryManager_def emplace_def Let_def sub64_def free_phys_def)
  have "dmem_wf ?n"
    using SetupMemoryRegions_dmem [OF e]
    by (simp add: construct_MemoryManager_def emplace_def Let_def)
  with e show ?thesis by blast
qed

lemma Allocate_first_fit_spec:
  assumes "dmem_wf s" "0 < total_direct_size s" "0 < len"
    "search_start + total_direct_size s + effective_alignment KB16 alignment + len \<le> two64"
  shows "\<exists>r s'. Allocate search_start search_end len alignment mtype s = Some (r, s') \<and> dmem_wf s' \<and>
    (let fit = fits (dmem_map s) search_start len (effective_alignment KB16 alignment) in
     if r = minus_one64 then s' = s \<and> (\<forall>x. fit x \<longrightarrow> search_end < x + len)
     else fit r \<and> (\<forall>x. fit x \<longrightarrow> r \<le> x) \<and> r + len \<le> search_end \<and>
       (\<forall>a. r \<le> a \<and> a < r + len \<longrightarrow> (\<exists>t. dmem_at s a = Some (a, t, PFree))) \<and>
       s' = s\<lparr>dmem_map := dmem_map s'\<rparr> \<and>
       dmem_at s' = phys_rewrite r len mtype Allocated (dmem_at s))"
proof (rule Allocate_cases [OF assms(1-3) refl assms(4), of search_end mtype])
  assume f: "Allocate search_start search_end len alignment mtype s = Some (minus_one64, s)"
    "\<forall>x. fits (dmem_map s) search_start len (effective_alignment KB16 alignment) x \<longrightarrow> search_end < x + len"
  then show ?thesis using assms(1) by (intro exI [of _ minus_one64] exI [of _ s]) (simp add: Let_def)
next
  fix x m
  assume o: "Allocate search_start search_end len alignment mtype s = Some (x, s\<lparr>dmem_map := m\<rparr>)"
    "fits (dmem_map s) search_start len (effective_alignment KB16 alignment) x" "x + len \<le> search_end"
    "\<forall>y. fits (dmem_map s) search_start len (effective_alignment KB16 alignment) y \<longrightarrow> x \<le> y"
    "phys_wf 0 m" "phys_end 0 m = total_direct_size s"
    "phys_content m = phys_rewrite x len mtype Allocated (dmem_at s)"
  have "x + len \<le> total_direct_size s" by (rule fits_below [OF assms(1) o(2)])
  then have "x \<noteq> minus_one64" using assms(1) by (simp add: dmem_wf_def)
  moreover have "dmem_wf (s\<lparr>dmem_map := m\<rparr>)"
    by (rule dmem_wf_rewrite [OF assms(1) o(5) _ o(7)]) (use o(6) assms(1) in \<open>auto simp: dmem_wf_def\<close>)
  moreover have "phys_wf 0 (dmem_map s)" using assms(1) by (simp add: dmem_wf_def)
  then have "\<forall>a. x \<le> a \<and> a < x + len \<longrightarrow> (\<exists>t. dmem_at s a = Some (a, t, PFree))"
    using fits_free [OF _ o(2)] by blast
  ultimately show ?thesis
    using o by (intro exI [of _ x] exI [of _ "s\<lparr>dmem_map := m\<rparr>"]) (simp add: Let_def)
qed

text \<open>
  C20. \<open>Allocate\<close> is a first fit.  It fails exactly when the least aligned address at which the
  request fits in one free area would end outside the search range, and then changes nothing;
  otherwise it returns that address, and every byte of the result, and no other, becomes allocated
  with the requested memory type.  The direct memory map stays a partition of the direct memory.
\<close>

theorem Allocate_first_fit:
  assumes "dmem_wf s" "0 < total_direct_size s" "0 < len"
    "search_start + total_direct_size s + effective_alignment KB16 alignment + len \<le> two64"
  shows "\<exists>r s'. Allocate search_start search_end len alignment mtype s = Some (r, s') \<and> dmem_wf s' \<and>
    (let fit = fits (dmem_map s) search_start len (effective_alignment KB16 alignment) in
     if r = minus_one64 then s' = s \<and> (\<forall>x. fit x \<longrightarrow> search_end < x + len)
     else fit r \<and> (\<forall>x. fit x \<longrightarrow> r \<le> x) \<and> r + len \<le> search_end \<and>
       (\<forall>a. r \<le> a \<and> a < r + len \<longrightarrow> (\<exists>t. dmem_at s a = Some (a, t, PFree))) \<and>
       s' = s\<lparr>dmem_map := dmem_map s'\<rparr> \<and>
       dmem_at s' = phys_rewrite r len mtype Allocated (dmem_at s))"
  using assms by (rule Allocate_first_fit_spec)

theorem Allocate_first_fit_witness:
  "\<exists>r s'. Allocate 0 MB2 KB64 0 3 boot = Some (r, s') \<and> dmem_wf s'"
  using Allocate_first_fit [of boot KB64 0 0 MB2 3] boot_dmem_wf
  by (auto simp: boot_eval effective_alignment_def)

lemma PoolExpand_first_fit_spec:
  assumes "dmem_wf s" "0 < total_direct_size s" "0 < len"
    "search_start + total_direct_size s + effective_alignment KB64 alignment + len \<le> two64"
  shows "\<exists>r s'. (\<forall>search_end. PoolExpand search_start search_end len alignment s = Some (r, s')) \<and>
    dmem_wf s' \<and>
    (let fit = fits (dmem_map s) search_start len (effective_alignment KB64 alignment) in
     if r = minus_one64 then s' = s \<and> (\<forall>x. \<not> fit x)
     else fit r \<and> (\<forall>x. fit x \<longrightarrow> r \<le> x) \<and>
       s' = s\<lparr>dmem_map := dmem_map s', pool_budget := add64 (pool_budget s) len\<rparr> \<and>
       dmem_at s' = phys_rewrite r len 3 PPooled (dmem_at s))"
proof (rule PoolExpand_cases [OF assms(1-3) refl assms(4), of 0])
  have any: "PoolExpand search_start e len alignment s = PoolExpand search_start 0 len alignment s" for e
    by (simp add: PoolExpand_def)
  { assume f: "PoolExpand search_start 0 len alignment s = Some (minus_one64, s)"
      "\<forall>x. \<not> fits (dmem_map s) search_start len (effective_alignment KB64 alignment) x"
    then show ?thesis using assms(1) any
      by (intro exI [of _ minus_one64] exI [of _ s]) (simp add: Let_def) }
  fix x m
  assume o: "PoolExpand search_start 0 len alignment s =
      Some (x, s\<lparr>dmem_map := m, pool_budget := add64 (pool_budget s) len\<rparr>)"
    "fits (dmem_map s) search_start len (effective_alignment KB64 alignment) x"
    "\<forall>y. fits (dmem_map s) search_start len (effective_alignment KB64 alignment) y \<longrightarrow> x \<le> y"
    "phys_wf 0 m" "phys_end 0 m = total_direct_size s"
    "phys_content m = phys_rewrite x len 3 PPooled (dmem_at s)"
  have "x + len \<le> total_direct_size s" by (rule fits_below [OF assms(1) o(2)])
  then have "x \<noteq> minus_one64" using assms(1) by (simp add: dmem_wf_def)
  moreover have "dmem_wf (s\<lparr>dmem_map := m, pool_budget := add64 (pool_budget s) len\<rparr>)"
    by (rule dmem_wf_rewrite [OF assms(1) o(4) _ o(6)]) (use o(5) assms(1) in \<open>auto simp: dmem_wf_def\<close>)
  ultimately show ?thesis
    using o any by (intro exI [of _ x] exI [of _ "s\<lparr>dmem_map := m, pool_budget := add64 (pool_budget s) len\<rparr>"])
      (simp add: Let_def)
qed

text \<open>
  C29. \<open>PoolExpand\<close> is a first fit: for a pool of at least one byte, where the start of the search, the
  direct memory, the alignment and the length together stay within 64 bits, it returns the least address
  from the start of the search on that has the alignment (64 KB when none is given) and at which the pool
  fits into one free area, moves that range from free to pooled with memory type 3, and adds its size to
  the pool budget; when the pool fits nowhere it returns -1 and changes nothing.  The end of the search
  range plays no part in it.
\<close>

theorem PoolExpand_first_fit:
  assumes "dmem_wf s" "0 < total_direct_size s" "0 < len"
    "search_start + total_direct_size s + effective_alignment KB64 alignment + len \<le> two64"
  shows "\<exists>r s'. (\<forall>search_end. PoolExpand search_start search_end len alignment s = Some (r, s')) \<and>
    dmem_wf s' \<and>
    (let fit = fits (dmem_map s) search_start len (effective_alignment KB64 alignment) in
     if r = minus_one64 then s' = s \<and> (\<forall>x. \<not> fit x)
     else fit r \<and> (\<forall>x. fit x \<longrightarrow> r \<le> x) \<and>
       s' = s\<lparr>dmem_map := dmem_map s', pool_budget := add64 (pool_budget s) len\<rparr> \<and>
       dmem_at s' = phys_rewrite r len 3 PPooled (dmem_at s))"
  using assms by (rule PoolExpand_first_fit_spec)

theorem PoolExpand_first_fit_witness:
  "\<exists>s'. PoolExpand 0 KB64 MB2 0 boot = Some (0, s') \<and> dmem_wf s' \<and> pool_budget s' = MB2 \<and>
     dmem_at s' = phys_rewrite 0 MB2 3 PPooled (dmem_at boot)"
proof -
  have fit: "fits (dmem_map boot) 0 MB2 (effective_alignment KB64 0) 0"
    by (simp add: fits_def boot_eval free_phys_def)
  obtain r s' where r: "\<forall>e. PoolExpand 0 e MB2 0 boot = Some (r, s')" "dmem_wf s'"
    "if r = minus_one64 then s' = boot \<and> (\<forall>x. \<not> fits (dmem_map boot) 0 MB2 (effective_alignment KB64 0) x)
     else fits (dmem_map boot) 0 MB2 (effective_alignment KB64 0) r \<and>
       (\<forall>x. fits (dmem_map boot) 0 MB2 (effective_alignment KB64 0) x \<longrightarrow> r \<le> x) \<and>
       s' = boot\<lparr>dmem_map := dmem_map s', pool_budget := add64 (pool_budget boot) MB2\<rparr> \<and>
       dmem_at s' = phys_rewrite r MB2 3 PPooled (dmem_at boot)"
    using PoolExpand_first_fit [of boot MB2 0 0, unfolded Let_def] boot_dmem_wf
    by (auto simp: boot_eval effective_alignment_def)
  have "r \<noteq> minus_one64" using r(3) fit by (auto split: if_splits)
  with r(3) fit have e: "r = 0" "s' = boot\<lparr>dmem_map := dmem_map s', pool_budget := add64 (pool_budget boot) MB2\<rparr>"
    "dmem_at s' = phys_rewrite 0 MB2 3 PPooled (dmem_at boot)" by (auto split: if_splits)
  have "pool_budget s' = add64 (pool_budget boot) MB2" by (subst e(2)) simp
  then have "pool_budget s' = MB2" by (simp add: boot_eval add64_def)
  then show ?thesis using r(1,2) e(1,3) by blast
qed

text \<open>
  \<open>DirectMemoryQuery\<close> without the find-next flag: on a free address it reports an access error
  and leaves the output alone; on an allocated or mapped address the reported interval contains the
  address, all of it is in use with the reported memory type, and the byte after it is not.
\<close>

theorem DirectMemoryQuery_interval:
  assumes "dmem_wf s" "addr < total_direct_size s"
  shows "case dmem_at s addr of
      Some (_, t, PFree) \<Rightarrow> DirectMemoryQuery addr False info s = Some (KERNEL_EACCES, info)
    | _ \<Rightarrow> \<forall>t. in_use (dmem_at s) t addr \<longrightarrow>
        (\<exists>info'. DirectMemoryQuery addr False info s = Some (ORBIS_OK, info') \<and> q_memoryType info' = t \<and>
          q_start info' \<le> addr \<and> addr < q_end info' \<and>
          (\<forall>a. q_start info' \<le> a \<and> a < q_end info' \<longrightarrow> in_use (dmem_at s) t a) \<and>
          \<not> in_use (dmem_at s) t (q_end info'))"
proof (rule dmem_find [OF assms])
  fix xs k a ys
  assume m: "dmem_map s = xs @ (k, a) # ys" and k: "find_le addr (dmem_map s) = Some k"
    "k \<le> addr" "addr < k + p_size a" "p_base a = k"
    "dmem_at s addr = Some (addr, memory_type a, dma_type a)" "\<forall>e \<in> set xs. fst e < k"
  have wf: "phys_wf 0 (xs @ (k, a) # ys)" "phys_end 0 (xs @ (k, a) # ys) = total_direct_size s"
    using assms(1) m by (auto simp: dmem_wf_def)
  note w = areas_wf_mid [OF wf(1)]
  have ef: "entries_from k (dmem_map s) = (k, a) # ys" unfolding m by (rule entries_from_mid [OF k(6)])
  have wfk: "phys_wf k ((k, a) # ys)" and endk: "phys_end k ((k, a) # ys) = total_direct_size s"
    using w(3,4,5) wf(2) by (auto simp: areas_end_append)
  have tail: "dmem_at s x = phys_content ((k, a) # ys) x" if "k \<le> x" for x
    unfolding m using content_mid [OF wf(1), of phys_cell x] that by simp
  show ?thesis
  proof (cases "dma_type a = PFree")
    case True
    then show ?thesis using k assms(2) ef by (simp add: DirectMemoryQuery_def)
  next
    case False
    have "\<exists>info'. DirectMemoryQuery addr False info s = Some (ORBIS_OK, info') \<and> q_memoryType info' = t \<and>
          q_start info' \<le> addr \<and> addr < q_end info' \<and>
          (\<forall>a. q_start info' \<le> a \<and> a < q_end info' \<longrightarrow> in_use (dmem_at s) t a) \<and>
          \<not> in_use (dmem_at s) t (q_end info')" if t: "in_use (dmem_at s) t addr" for t
    proof -
      have ta: "memory_type a = t" "dma_type a = Mapped \<or> dma_type a = Allocated"
        using t k(5) by (auto simp: in_use_def)
      let ?info = "info\<lparr>q_start := k, q_memoryType := memory_type a\<rparr>"
      have cov: "\<forall>x. k \<le> x \<and> x < phys_end k ((k, a) # ys) \<longrightarrow> phys_content ((k, a) # ys) x \<noteq> None"
        using assms(1) tail unfolding dmem_wf_def endk by metis
      have "memory_type a = q_memoryType ?info" by simp
      from query_end_run [OF wfk cov this ta(2)] obtain e where
        e: "query_end ((k, a) # ys) ?info = ?info\<lparr>q_end := e\<rparr>" "k + p_size a \<le> e"
        "\<forall>x. k \<le> x \<and> x < e \<longrightarrow> in_use (phys_content ((k, a) # ys)) t x"
        "\<not> in_use (phys_content ((k, a) # ys)) t e" using ta(1) by auto
      have iu: "in_use (phys_content ((k, a) # ys)) t x = in_use (dmem_at s) t x" if "k \<le> x" for x
        unfolding in_use_def tail [OF that] by (rule refl)
      have r: "DirectMemoryQuery addr False info s = Some (ORBIS_OK, ?info\<lparr>q_end := e\<rparr>)"
        using k(1,4) assms(2) ef False e(1) by (simp add: DirectMemoryQuery_def del: query_end.simps)
      show ?thesis
        by (rule exI [of _ "?info\<lparr>q_end := e\<rparr>"]) (use r e iu k(2,3) ta in simp)
    qed
    then show ?thesis using k(5) False by (auto split: PhysicalMemoryType.splits)
  qed
qed

theorem DirectMemoryQuery_interval_witness:
  "DirectMemoryQuery 0x4000 False \<lparr>q_start = 1, q_end = 2, q_memoryType = 3\<rparr> boot
     = Some (KERNEL_EACCES, \<lparr>q_start = 1, q_end = 2, q_memoryType = 3\<rparr>)"
  using DirectMemoryQuery_interval [of boot "0x4000" "\<lparr>q_start = 1, q_end = 2, q_memoryType = 3\<rparr>"]
    boot_dmem_wf
  by (simp add: boot_eval free_phys_def phys_cell_def)

text \<open>
  \<open>GetMemoryPoolStats\<close> reports the number of committed bytes of direct memory in blocks of 64 KB.
\<close>

theorem GetMemoryPoolStats_counts:
  assumes "dmem_wf s"
  shows "allocated_flushed_blocks (snd (GetMemoryPoolStats s)) =
      to_s32 (card {a. \<exists>t. dmem_at s a = Some (a, t, Committed)} div KB64)"
proof -
  have wf: "phys_wf 0 (dmem_map s)" using assms by (simp add: dmem_wf_def)
  have "{a. \<exists>x t. dmem_at s a = Some (x, t, Committed)} = {a. \<exists>t. dmem_at s a = Some (a, t, Committed)}"
    using phys_content_addr [OF wf] by blast
  then show ?thesis using committed_loop_card [OF wf] by (simp add: GetMemoryPoolStats_def Let_def)
qed

theorem GetMemoryPoolStats_counts_witness:
  "allocated_flushed_blocks (snd (GetMemoryPoolStats boot)) =
      to_s32 (card {a. \<exists>t. dmem_at boot a = Some (a, t, Committed)} div KB64)"
  by (rule GetMemoryPoolStats_counts [OF boot_dmem_wf])

end
