(* ===== verification/Backing.thy ===== *)
theory Backing
  imports Direct_Memory
begin

text \<open>
  The invariant of the memory manager: both physical maps and the virtual map are well formed, and
  flexible memory is backed one to one.  \<open>flex_phys\<close> sends a flexible virtual address to the
  physical address that backs it; it is a bijection onto the flexible memory that \<open>fmem_map\<close>
  counts as used, so no physical byte backs two virtual addresses and none is lost.
\<close>

abbreviation vma_at :: "MemoryManager \<Rightarrow> nat \<Rightarrow> vma_info option" where
  "vma_at s \<equiv> vma_content (vma_map s)"

abbreviation fmem_at :: "MemoryManager \<Rightarrow> nat \<Rightarrow> phys_info option" where
  "fmem_at s \<equiv> phys_content (fmem_map s)"

definition flex_addrs :: "(nat \<Rightarrow> vma_info option) \<Rightarrow> nat set" where
  "flex_addrs V = {a. \<exists>i. V a = Some i \<and> i_type i = Flexible}"

definition flex_phys :: "(nat \<Rightarrow> vma_info option) \<Rightarrow> nat \<Rightarrow> nat" where
  "flex_phys V a = fst (the (i_phys (the (V a))))"

definition flex_used :: "(nat \<Rightarrow> phys_info option) \<Rightarrow> nat set" where
  "flex_used F = {p. F p = Some (p, 0, PFlexible)}"

definition flex_free :: "(nat \<Rightarrow> phys_info option) \<Rightarrow> nat set" where
  "flex_free F = {p. F p = Some (p, 0, PFree)}"

definition flex_ok :: "(nat \<Rightarrow> vma_info option) \<Rightarrow> (nat \<Rightarrow> phys_info option) \<Rightarrow> bool" where
  "flex_ok V F \<longleftrightarrow> bij_betw (flex_phys V) (flex_addrs V) (flex_used F) \<and>
     (\<forall>p. F p \<noteq> None \<longrightarrow> p \<in> flex_used F \<or> p \<in> flex_free F)"

definition free_info :: vma_info where
  "free_info = \<lparr>i_type = VFree, i_prot = 0, i_name = '''', i_nomerge = False, i_phys = None\<rparr>"

definition mm_wf :: "MemoryManager \<Rightarrow> bool" where
  "mm_wf s \<longleftrightarrow> vma_wf 0 (vma_map s) \<and> vma_end 0 (vma_map s) < 2 ^ 62 \<and> dmem_wf s \<and>
     phys_wf 0 (fmem_map s) \<and> phys_coalesced (fmem_map s) \<and> phys_end 0 (fmem_map s) < 2 ^ 62 \<and>
     flex_ok (vma_at s) (fmem_at s) \<and> flexible_usage s = card (flex_used (fmem_at s)) \<and>
     (\<forall>a i. vma_at s a = Some i \<longrightarrow> i_type i = VFree \<longrightarrow> i = free_info)"

lemma mm_wfD:
  assumes "mm_wf s"
  shows "vma_wf 0 (vma_map s)" "vma_end 0 (vma_map s) < 2 ^ 62" "vma_end 0 (vma_map s) < two64"
    "dmem_wf s" "phys_wf 0 (fmem_map s)" "phys_coalesced (fmem_map s)"
    "phys_end 0 (fmem_map s) < 2 ^ 62" "flex_ok (vma_at s) (fmem_at s)"
    "flexible_usage s = card (flex_used (fmem_at s))"
    "\<And>a i. vma_at s a = Some i \<Longrightarrow> i_type i = VFree \<Longrightarrow> i = free_info"
  using assms by (auto simp: mm_wf_def)

lemma finite_flex_used: "phys_wf lo m \<Longrightarrow> finite (flex_used (phys_content m))"
  by (rule finite_subset [OF _ finite_content [of p_size phys_cell m]]) (auto simp: flex_used_def)

lemma flex_used_le_end:
  assumes "phys_wf 0 (fmem_map s)" shows "card (flex_used (fmem_at s)) \<le> phys_end 0 (fmem_map s)"
proof -
  have "flex_used (fmem_at s) \<subseteq> {..<phys_end 0 (fmem_map s)}"
  proof
    fix p assume "p \<in> flex_used (fmem_at s)"
    then have "fmem_at s p \<noteq> None" by (simp add: flex_used_def)
    then show "p \<in> {..<phys_end 0 (fmem_map s)}"
      using content_below_None [OF assms, of p phys_cell] by (meson lessThan_iff not_less)
  qed
  then show ?thesis by (metis card_lessThan card_mono finite_lessThan)
qed

lemma flexible_usage_bound: "mm_wf s \<Longrightarrow> flexible_usage s < two64"
  using flex_used_le_end [OF mm_wfD(5), of s] mm_wfD(7,9) [of s] by simp

text \<open>The cell of a virtual area with physical backing always names a physical byte.\<close>

lemma backed_phys:
  assumes "vma_wf lo m" "vma_content m a = Some i" "i_type i \<in> {Direct, Flexible, Pooled}"
  shows "i_phys i \<noteq> None"
proof -
  obtain k v where kv: "(k, v) \<in> set m" "k \<le> a" "a < k + v_size v" "i = vma_cell v (a - k)"
    using assms(2) unfolding content_Some_iff [OF assms(1)] by auto
  have "vma_ok k v" using areas_wf_mem [OF assms(1) kv(1)] by simp
  then have "tiles 0 (phys_areas v) (v_size v)"
    using assms(3) kv(4) by (auto simp: vma_ok_def vma_cell_def HasPhysicalBacking_def split: if_splits)
  then show ?thesis using tiles_content [of 0 "phys_areas v" "v_size v" "a - k"] kv
    by (simp add: vma_cell_def)
qed

text \<open>Freeing virtual addresses together with the flexible memory behind them keeps the bijection.\<close>

lemma flex_ok_release:
  assumes ok: "flex_ok V F"
    and V': "\<And>a. V' a = (if a \<in> A \<and> V a \<noteq> None then Some free_info else V a)"
    and F': "\<And>p. F' p = (if p \<in> flex_phys V ` (flex_addrs V \<inter> A) then Some (p, 0, PFree) else F p)"
  shows "flex_ok V' F'"
    and "flex_used F' = flex_used F - flex_phys V ` (flex_addrs V \<inter> A)"
    and "flex_addrs V' = flex_addrs V - A"
proof -
  have bij: "bij_betw (flex_phys V) (flex_addrs V) (flex_used F)" using ok by (simp add: flex_ok_def)
  show u: "flex_used F' = flex_used F - flex_phys V ` (flex_addrs V \<inter> A)"
    by (auto simp: flex_used_def F')
  show ad: "flex_addrs V' = flex_addrs V - A"
    by (auto simp: flex_addrs_def V' free_info_def split: if_splits)
  have "flex_phys V' a = flex_phys V a" if "a \<in> flex_addrs V - A" for a
    using that by (simp add: flex_phys_def V')
  then have "bij_betw (flex_phys V') (flex_addrs V - A) = bij_betw (flex_phys V) (flex_addrs V - A)"
    using bij_betw_cong by blast
  moreover have "flex_addrs V - A = flex_addrs V - (flex_addrs V \<inter> A)" by blast
  moreover have "bij_betw (flex_phys V) (flex_addrs V - (flex_addrs V \<inter> A))
      (flex_used F - flex_phys V ` (flex_addrs V \<inter> A))"
    by (rule bij_betw_DiffI [OF bij]) (use bij in \<open>auto simp: bij_betw_def intro: inj_on_subset\<close>)
  moreover have "p \<in> flex_used F' \<or> p \<in> flex_free F'" if "F' p \<noteq> None" for p
  proof (cases "p \<in> flex_phys V ` (flex_addrs V \<inter> A)")
    case False
    then have "F' p = F p" by (simp only: F' if_False)
    then show ?thesis using ok that by (auto simp: flex_ok_def flex_used_def flex_free_def)
  qed (simp add: flex_free_def F')
  ultimately show "flex_ok V' F'" unfolding flex_ok_def u ad by simp
qed

lemma flex_image_card:
  "flex_ok V F \<Longrightarrow> card (flex_phys V ` (flex_addrs V \<inter> A)) = card (flex_addrs V \<inter> A)"
  by (rule card_image) (auto simp: flex_ok_def bij_betw_def intro: inj_on_subset)

text \<open>Changes to the virtual map that keep type and backing keep the bijection.\<close>

lemma flex_ok_same:
  assumes "flex_ok V F" "\<And>a. map_option (\<lambda>i. (i_type i, i_phys i)) (V' a) = map_option (\<lambda>i. (i_type i, i_phys i)) (V a)"
  shows "flex_ok V' F"
proof -
  have "flex_addrs V' = flex_addrs V"
  proof -
    have "(\<exists>i. V' a = Some i \<and> i_type i = Flexible) = (\<exists>i. V a = Some i \<and> i_type i = Flexible)" for a
      using assms(2) [of a] by (cases "V a"; cases "V' a") auto
    then show ?thesis by (simp add: flex_addrs_def)
  qed
  moreover have "flex_phys V' a = flex_phys V a" if "a \<in> flex_addrs V" for a
    using assms(2) [of a] that by (cases "V a"; cases "V' a") (auto simp: flex_phys_def flex_addrs_def)
  then have "bij_betw (flex_phys V') (flex_addrs V) = bij_betw (flex_phys V) (flex_addrs V)"
    using bij_betw_cong by blast
  ultimately show ?thesis using assms(1) by (simp add: flex_ok_def)
qed

lemma boot_mm_wf: "mm_wf boot"
proof -
  have e: "flex_addrs (vma_at boot) = {}" "flex_used (fmem_at boot) = {}"
    by (auto simp: flex_addrs_def flex_used_def boot_eval free_vma_def vma_cell_def free_phys_def
        phys_cell_def split: if_splits)
  have "flex_ok (vma_at boot) (fmem_at boot)"
    unfolding flex_ok_def e by (auto simp: boot_eval free_phys_def phys_cell_def flex_free_def bij_betw_def
        split: if_splits)
  then show ?thesis
    unfolding mm_wf_def e using boot_dmem_wf
    by (auto simp: boot_eval free_vma_def free_phys_def at_base_def vma_ok_def HasPhysicalBacking_def
        vma_cell_def free_info_def split: if_splits)
qed

end
