(* ===== verification/Unmap.thy ===== *)
theory Unmap
  imports Backing
begin

text \<open>
  Unmapping in \<open>src/src/core/memory.cpp\<close>: \<open>UnmapBytesFromEntry\<close>, which frees the part of a range
  that lies in one virtual area together with its physical backing, the loop \<open>UnmapMemoryImpl\<close>,
  \<open>UnmapMemory\<close>, and \<open>Free\<close>, which releases direct memory and every mapping of it.
\<close>

text \<open>
  The body of the loop over the physical areas of a virtual area: direct memory becomes allocated
  again; flexible memory becomes free, is zeroed and is no longer counted as used.
\<close>

definition release_region ::
  "VMAType \<Rightarrow> u64 \<Rightarrow> u64 \<Rightarrow> MemoryManager \<Rightarrow> MemoryManager option" where
  "release_region vma_type phys_addr size_in_dma s =
     (if vma_type = Direct then do {
        (_, _, dm) \<leftarrow> set_phys (dmem_map s) phys_addr size_in_dma (\<lambda>a. a\<lparr>dma_type := Allocated\<rparr>);
        Some (s\<lparr>dmem_map := dm\<rparr>) }
      else if vma_type = Flexible then do {
        (_, _, fm) \<leftarrow> set_phys (fmem_map s) phys_addr size_in_dma (\<lambda>a. a\<lparr>dma_type := PFree\<rparr>);
        Some (emit (ZeroBacking phys_addr size_in_dma)
          (s\<lparr>fmem_map := fm, flexible_usage := sub64 (flexible_usage s) size_in_dma\<rparr>)) }
      else Some s)"

text \<open>
  The loop, from the physical area that holds \<open>start_in_vma\<close>; the assertion after it is the
  first equation.
\<close>

primrec release_phys ::
  "VMAType \<Rightarrow> u64 \<Rightarrow> PhysMap \<Rightarrow> u64 \<Rightarrow> MemoryManager \<Rightarrow> MemoryManager option" where
  "release_phys vma_type start_in_vma [] size_to_free s = do { ASSERT (size_to_free = 0); Some s }"
| "release_phys vma_type start_in_vma (e # m) size_to_free s =
     (if size_to_free = 0 then Some s
      else let (off, region) = e;
               dma_offset = max off start_in_vma - off;
               size_in_dma = min size_to_free (p_size region - dma_offset)
           in do {
             s1 \<leftarrow> release_region vma_type (p_base region + dma_offset) size_in_dma s;
             release_phys vma_type start_in_vma m (size_to_free - size_in_dma) s1 })"

definition free_area :: "VirtualMemoryArea \<Rightarrow> VirtualMemoryArea" where
  "free_area v = v\<lparr>vtype := VFree, prot := NoAccess, phys_areas := [], disallow_merge := False,
     vname := ''''\<rparr>"

definition UnmapBytesFromEntry ::
  "u64 \<Rightarrow> VirtualMemoryArea \<Rightarrow> u64 \<Rightarrow> MemoryManager \<Rightarrow> (u64 \<times> MemoryManager) option" where
  "UnmapBytesFromEntry virtual_addr vma_base len s =
     (let start_in_vma = sub64 virtual_addr (v_base vma_base);
          size_in_vma = min (sub64 (v_size vma_base) start_in_vma) len;
          vma_type = vtype vma_base
      in if vma_type = VFree \<or> vma_type = Pooled then Some (size_in_vma, s)
         else do {
           s1 \<leftarrow> (if phys_areas vma_base \<noteq> [] then do {
                    h \<leftarrow> find_le start_in_vma (phys_areas vma_base);
                    release_phys vma_type start_in_vma (entries_from h (phys_areas vma_base)) size_in_vma s }
                  else Some s);
           (_, vm) \<leftarrow> set_vma (vma_map s1) virtual_addr size_in_vma free_area;
           Some (size_in_vma,
             emit_if (vma_type \<noteq> Reserved \<and> vma_type \<noteq> PoolReserved) (AsUnmap virtual_addr size_in_vma)
               (s1\<lparr>vma_map := vm\<rparr>)) })"

text \<open>
  The loop of \<open>UnmapMemoryImpl\<close>, on the address reached and the bytes that remain.  The code stops
  the emulator when an entry makes no progress.
\<close>

partial_function (option) UnmapMemoryImpl ::
  "u64 \<Rightarrow> u64 \<Rightarrow> MemoryManager \<Rightarrow> (s32 \<times> MemoryManager) option" where
  "UnmapMemoryImpl virtual_addr len s = do {
     k \<leftarrow> FindVMA (vma_map s) virtual_addr;
     vma_base \<leftarrow> map_of (vma_map s) k;
     (unmapped, s1) \<leftarrow> UnmapBytesFromEntry virtual_addr vma_base len s;
     ASSERT (unmapped > 0);
     (if unmapped < len then UnmapMemoryImpl (add64 virtual_addr unmapped) (len - unmapped) s1
      else Some (ORBIS_OK, s1)) }"

definition UnmapMemory :: "u64 \<Rightarrow> u64 \<Rightarrow> MemoryManager \<Rightarrow> (s32 \<times> MemoryManager) option" where
  "UnmapMemory virtual_addr0 len0 s =
     (if len0 = 0 then Some (ORBIS_OK, s)
      else let virtual_addr = AlignDown virtual_addr0 KB16; len = AlignUp len0 KB16 in do {
        assert_valid (vma_map s) virtual_addr len;
        let s1 = emit_if (IsValidGpuMapping virtual_addr len) (GpuUnmap virtual_addr len) s;
        (r, s2) \<leftarrow> UnmapMemoryImpl virtual_addr len (BeginMutation s1);
        Some (r, FinishMutation s2) })"

section \<open>Releasing direct memory\<close>

text \<open>
  The first loop of \<open>Free\<close> collects the used areas of the range; a free area ends a checked call
  with an error and is skipped, without reducing the remaining size, by an unchecked one.
\<close>

fun free_list_loop ::
  "bool \<Rightarrow> u64 \<Rightarrow> PhysMap \<Rightarrow> u64 \<Rightarrow> (s32 + (u64 \<times> u64) list)" where
  "free_list_loop is_checked phys_addr [] remaining_size = Inr []"
| "free_list_loop is_checked phys_addr ((k, a) # m) remaining_size =
     (if remaining_size = 0 then Inr []
      else if dma_type a = PFree
      then (if is_checked then Inl KERNEL_ENOENT else free_list_loop is_checked phys_addr m remaining_size)
      else let current_phys_addr = max phys_addr k;
               start_in_dma = current_phys_addr - k;
               size_in_dma = min remaining_size (sub64 (p_size a) start_in_dma)
           in case free_list_loop is_checked phys_addr m (remaining_size - size_in_dma) of
                Inl e \<Rightarrow> Inl e
              | Inr l \<Rightarrow> Inr ((current_phys_addr, size_in_dma) # l))"

text \<open>The second loop: the mappings of the range in one direct virtual area.\<close>

definition mappings_of :: "u64 \<Rightarrow> u64 \<Rightarrow> VirtualMemoryArea \<Rightarrow> (u64 \<times> u64) list" where
  "mappings_of phys_addr len mapping =
     (if vtype mapping \<noteq> Direct then []
      else map (\<lambda>(offset_in_vma, pm).
               let phys_offset = max (p_base pm) phys_addr - p_base pm
               in (v_base mapping + offset_in_vma + phys_offset, min (p_size pm - phys_offset) len))
             (filter (\<lambda>(offset_in_vma, pm).
               add64 phys_addr len > p_base pm \<and> phys_addr < p_base pm + p_size pm) (phys_areas mapping)))"

fun unmap_all :: "(u64 \<times> u64) list \<Rightarrow> MemoryManager \<Rightarrow> MemoryManager option" where
  "unmap_all [] s = Some s"
| "unmap_all ((addr, len) # l) s = do {
     (_, s1) \<leftarrow> UnmapMemoryImpl addr len s;
     unmap_all l s1 }"

fun release_all :: "(u64 \<times> u64) list \<Rightarrow> MemoryManager \<Rightarrow> MemoryManager option" where
  "release_all [] s = Some s"
| "release_all ((phys_addr, len) # l) s = do {
     (_, _, dm) \<leftarrow> set_phys (dmem_map s) phys_addr len (\<lambda>a. a\<lparr>dma_type := PFree, memory_type := 0\<rparr>);
     release_all l (s\<lparr>dmem_map := dm\<rparr>) }"

definition Free :: "u64 \<Rightarrow> u64 \<Rightarrow> bool \<Rightarrow> MemoryManager \<Rightarrow> (s32 \<times> MemoryManager) option" where
  "Free phys_addr len is_checked s =
     (if phys_addr > total_direct_size s \<or> (is_checked \<and> add64 phys_addr len > total_direct_size s)
      then Some (if is_checked then KERNEL_ENOENT else ORBIS_OK, s)
      else do {
        k \<leftarrow> find_le phys_addr (dmem_map s);
        (case free_list_loop is_checked phys_addr (entries_from k (dmem_map s)) len of
           Inl e \<Rightarrow> Some (e, s)
         | Inr free_list \<Rightarrow> do {
             let remove_list = concat (map (\<lambda>(_, v). mappings_of phys_addr len v) (vma_map s));
             let s1 = fold (\<lambda>(addr, n). emit_if (IsValidGpuMapping addr n) (GpuUnmap addr n)) remove_list s;
             s2 \<leftarrow> unmap_all remove_list (BeginMutation s1);
             s3 \<leftarrow> release_all free_list s2;
             Some (ORBIS_OK, FinishMutation s3) }) })"

section \<open>Releasing the backing of a virtual area\<close>

lemma set_phys_SomeD:
  assumes "set_phys m addr len f = Some r"
  obtains k v where "find_le addr m = Some k" "map_of m k = Some v" "addr - k + len \<le> p_size v"
  using assms by (auto simp: set_phys_def CarvePhysArea_def carve_area_def bind_iff)

lemma tiles_content_Cons:
  assumes "tiles lo ((lo, a) # m) hi" "lo \<le> i"
  shows "phys_content ((lo, a) # m) i =
    (if i < lo + p_size a then Some (p_base a + (i - lo), memory_type a, dma_type a) else phys_content m i)"
  using assms by (simp add: phys_cell_def)

text \<open>The physical bytes behind the offsets from \<open>c\<close> to \<open>c + n\<close> of a virtual area.\<close>

definition behind :: "PhysMap \<Rightarrow> nat \<Rightarrow> nat \<Rightarrow> nat set" where
  "behind m c n = {p. \<exists>i t d. c \<le> i \<and> i < c + n \<and> phys_content m i = Some (p, t, d)}"

lemma behind_0 [simp]: "behind m c 0 = {}"
  by (auto simp: behind_def)

lemma behind_Cons:
  assumes t: "tiles lo ((lo, a) # m) hi" and c: "lo \<le> c" "c < lo + p_size a"
    and sz: "sz = min n (p_size a - (c - lo))"
  shows "behind ((lo, a) # m) c n =
      {p_base a + (c - lo)..<p_base a + (c - lo) + sz} \<union> behind m (lo + p_size a) (n - sz)"
    and "sz < n \<Longrightarrow> c + sz = lo + p_size a"
proof -
  have eq: "phys_content ((lo, a) # m) i = (if i < lo + p_size a
      then Some (p_base a + (i - lo), memory_type a, dma_type a) else phys_content m i)" if "c \<le> i" for i
    using tiles_content_Cons [OF t] c that by simp
  show end_c: "sz < n \<Longrightarrow> c + sz = lo + p_size a" using sz c by auto
  show "behind ((lo, a) # m) c n =
      {p_base a + (c - lo)..<p_base a + (c - lo) + sz} \<union> behind m (lo + p_size a) (n - sz)" (is "?l = ?r")
  proof (rule set_eqI)
    fix p
    show "p \<in> ?l \<longleftrightarrow> p \<in> ?r"
    proof
      assume "p \<in> ?l"
      then obtain i t d where i: "c \<le> i" "i < c + n" "phys_content ((lo, a) # m) i = Some (p, t, d)"
        by (auto simp: behind_def)
      show "p \<in> ?r"
      proof (cases "i < lo + p_size a")
        case True
        then have "p = p_base a + (i - lo)" using i(3) eq [OF i(1)] by (simp del: content.simps)
        moreover have "i < c + sz" using i(2) True sz c by linarith
        ultimately have "p_base a + (c - lo) \<le> p" "p < p_base a + (c - lo) + sz" using i(1) c by linarith+
        then show ?thesis by auto
      next
        case False
        then have "phys_content m i = Some (p, t, d)" using i(3) eq [OF i(1)] by (simp del: content.simps)
        moreover have "sz < n" using False i(2) sz c by linarith
        ultimately show ?thesis using False i end_c unfolding behind_def by auto
      qed
    next
      assume "p \<in> ?r"
      then show "p \<in> ?l"
      proof
        assume p: "p \<in> {p_base a + (c - lo)..<p_base a + (c - lo) + sz}"
        define i where "i = c + (p - (p_base a + (c - lo)))"
        have "c \<le> i" "i < c + sz" "i < lo + p_size a" "p = p_base a + (i - lo)"
          using p sz c by (auto simp: i_def)
        then show ?thesis using eq [of i] sz by (auto simp: behind_def intro!: exI [of _ i])
      next
        assume "p \<in> behind m (lo + p_size a) (n - sz)"
        then obtain i t d where i: "lo + p_size a \<le> i" "i < lo + p_size a + (n - sz)"
          "phys_content m i = Some (p, t, d)" by (auto simp: behind_def)
        then have "sz < n" by linarith
        then have "i < c + n" using i(2) end_c by linarith
        then show ?thesis using i eq [of i] c by (auto simp: behind_def intro!: exI [of _ i])
      qed
    qed
  qed
qed

text \<open>
  Flexible memory: as long as the bytes behind the range are used and distinct, the loop ends with
  every one of them free and zeroed.
\<close>

definition zeroed :: "Effect list \<Rightarrow> nat set" where
  "zeroed es = (\<Union>e \<in> set es. case e of ZeroBacking p n \<Rightarrow> {p..<p + n} | _ \<Rightarrow> {})"

lemma zeroed_append [simp]: "zeroed (es @ fs) = zeroed es \<union> zeroed fs"
  by (auto simp: zeroed_def)

lemma zeroed_Nil [simp]: "zeroed [] = {}" by (simp add: zeroed_def)

lemma release_phys_flexible:
  assumes "tiles lo m hi" "c = max lo start" "m \<noteq> [] \<Longrightarrow> c < lo + p_size (snd (hd m))" "c + n \<le> hi"
    "phys_wf 0 (fmem_map s)" "phys_coalesced (fmem_map s)"
    "inj_on (\<lambda>i. fst (the (phys_content m i))) {c..<c + n}"
    "behind m c n \<subseteq> flex_used (fmem_at s)" "n \<le> flexible_usage s" "flexible_usage s < two64"
  obtains fm es where
    "release_phys Flexible start m n s = Some (s\<lparr>fmem_map := fm, flexible_usage := flexible_usage s - n,
        effects := effects s @ es\<rparr>)"
    "phys_wf 0 fm" "phys_coalesced fm" "phys_end 0 fm = phys_end 0 (fmem_map s)"
    "phys_content fm = (\<lambda>p. if p \<in> behind m c n then Some (p, 0, PFree) else fmem_at s p)"
    "zeroed es = behind m c n"
  using assms
proof (induction m arbitrary: lo c n s thesis)
  case Nil
  then have "n = 0" by simp
  then show ?case using Nil.prems by (intro Nil.prems(1) [where fm = "fmem_map s" and es = "[]"]) auto
next
  case (Cons e m)
  obtain a where e: "e = (lo, a)" using Cons.prems(2) by (cases e) auto
  show ?case
  proof (cases "n = 0")
    case True
    then show ?thesis using Cons.prems by (intro Cons.prems(1) [where fm = "fmem_map s" and es = "[]"]) auto
  next
    case False
    note P = Cons.prems(2-) [unfolded e]
    define off where "off = max lo start - lo"
    define sz where "sz = min n (p_size a - off)"
    have c: "lo \<le> c" "c < lo + p_size a" and coff: "c - lo = off" using P(2,3) by (auto simp: off_def)
    have t: "tiles lo ((lo, a) # m) hi" using P(1) .
    have sz': "sz = min n (p_size a - (c - lo))" by (simp add: sz_def coff)
    note B = behind_Cons [OF t c sz']
    have sz0: "0 < sz" "sz \<le> n" using False c coff by (auto simp: sz_def)
    define q where "q = p_base a + off"
    have used: "p \<in> flex_used (fmem_at s)" if "p \<in> {q..<q + sz}" for p
      using P(8) B(1) that coff by (auto simp: q_def)
    have uni: "fmem_at s p = Some (p, 0, PFlexible)" if "q \<le> p" "p < q + sz" for p
      using used [of p] that by (simp add: flex_used_def)
    obtain k v where kv: "find_le q (fmem_map s) = Some k" "map_of (fmem_map s) k = Some v"
      "q + sz \<le> k + p_size v" "memory_type v = 0" "dma_type v = PFlexible"
      by (rule uniform_range_one_area [OF P(5,6) sz0(1) uni])
    obtain h' m' where set: "set_phys (fmem_map s) q sz (\<lambda>a. a\<lparr>dma_type := PFree\<rparr>) =
        Some (\<lparr>p_base = q, p_size = sz, memory_type = 0, dma_type = PFree\<rparr>, h', m')"
      "phys_wf 0 m'" "phys_end 0 m' = phys_end 0 (fmem_map s)"
      "phys_content m' = phys_rewrite q sz 0 PFree (fmem_at s)"
    proof (rule set_phys_correct [OF P(5) kv(1,2) sz0(1) kv(3), of "\<lambda>a. a\<lparr>dma_type := PFree\<rparr>" 0 PFree])
    qed (use kv that in auto)
    have co: "phys_coalesced m'"
      by (rule set_phys_coalesced [OF P(5) kv(1,2) sz0(1) kv(3) P(6) _ _ set(1)]) simp_all
    define s1 where "s1 = emit (ZeroBacking q sz)
        (s\<lparr>fmem_map := m', flexible_usage := sub64 (flexible_usage s) sz\<rparr>)"
    have use1: "flexible_usage s1 = flexible_usage s - sz"
      using P(9,10) sz0 by (simp add: s1_def emit_def sub64_exact)
    have step: "release_phys Flexible start ((lo, a) # m) n s = release_phys Flexible start m (n - sz) s1"
      using False set(1) by (simp add: release_region_def Let_def off_def sz_def q_def s1_def)
    have tm: "tiles (lo + p_size a) m hi" using t by simp
    have st: "n - sz > 0 \<Longrightarrow> start < lo + p_size a" using P(2) c by auto
    have c1: "lo + p_size a = max (lo + p_size a) start" using P(2) c by auto
    have inj: "inj_on (\<lambda>i. fst (the (phys_content m i))) {lo + p_size a..<lo + p_size a + (n - sz)}"
    proof (cases "sz < n")
      case True
      have "inj_on (\<lambda>i. fst (the (phys_content ((lo, a) # m) i))) {lo + p_size a..<lo + p_size a + (n - sz)}"
        by (rule inj_on_subset [OF P(7)]) (use B(2) [OF True] True in auto)
      then show ?thesis
        by (rule inj_on_cong [THEN iffD1, rotated]) (simp add: content_skip)
    qed simp
    have disj: "behind m (lo + p_size a) (n - sz) \<inter> {q..<q + sz} = {}"
    proof (rule ccontr)
      assume "behind m (lo + p_size a) (n - sz) \<inter> {q..<q + sz} \<noteq> {}"
      then obtain p where "p \<in> behind m (lo + p_size a) (n - sz)" "q \<le> p" "p < q + sz"
        by (auto simp del: content.simps)
      then obtain i t' d where p: "q \<le> p" "p < q + sz" "lo + p_size a \<le> i" "i < lo + p_size a + (n - sz)"
        "phys_content m i = Some (p, t', d)" unfolding behind_def by blast
      define j where "j = c + (p - q)"
      have "sz < n" using p by linarith
      note cs = B(2) [OF this]
      have j: "j \<in> {c..<c + n}" "i \<in> {c..<c + n}" "j \<noteq> i"
        using p cs sz0 c by (auto simp: j_def)
      have "phys_content ((lo, a) # m) j = Some (p, memory_type a, dma_type a)"
        using tiles_content_Cons [OF t, of j] p c coff cs \<open>sz < n\<close> by (auto simp: j_def q_def)
      moreover have "phys_content ((lo, a) # m) i = Some (p, t', d)" using p content_skip by metis
      ultimately have "fst (the (phys_content ((lo, a) # m) j)) = fst (the (phys_content ((lo, a) # m) i))"
        by simp
      then show False using inj_onD [OF P(7) _ j(1,2)] j(3) by blast
    qed
    have used1: "behind m (lo + p_size a) (n - sz) \<subseteq> flex_used (fmem_at s1)"
    proof
      fix p assume p: "p \<in> behind m (lo + p_size a) (n - sz)"
      then have "p \<in> flex_used (fmem_at s)" using P(8) B(1) by blast
      moreover have "p \<notin> {q..<q + sz}" using disj p by blast
      ultimately show "p \<in> flex_used (fmem_at s1)"
        using set(4) by (auto simp: flex_used_def s1_def emit_def phys_rewrite_def)
    qed
    have hdm: "m \<noteq> [] \<Longrightarrow> lo + p_size a < lo + p_size a + p_size (snd (hd m))"
      using tm by (cases m) auto
    have le: "lo + p_size a + (n - sz) \<le> hi"
    proof (cases "sz < n")
      case True
      then show ?thesis using B(2) P(4) by auto
    next
      case False
      then show ?thesis using tiles_le [OF tm] by simp
    qed
    obtain fm es where IH: "release_phys Flexible start m (n - sz) s1 =
        Some (s1\<lparr>fmem_map := fm, flexible_usage := flexible_usage s1 - (n - sz), effects := effects s1 @ es\<rparr>)"
      "phys_wf 0 fm" "phys_coalesced fm" "phys_end 0 fm = phys_end 0 (fmem_map s1)"
      "phys_content fm = (\<lambda>p. if p \<in> behind m (lo + p_size a) (n - sz) then Some (p, 0, PFree) else fmem_at s1 p)"
      "zeroed es = behind m (lo + p_size a) (n - sz)"
    proof (rule Cons.IH [where lo = "lo + p_size a" and c = "lo + p_size a" and n = "n - sz" and s = s1])
      show "tiles (lo + p_size a) m hi" by (rule tm)
      show "lo + p_size a = max (lo + p_size a) start" by (rule c1)
    qed (use hdm le set(2) co inj used1 use1 P(9,10) that in \<open>auto simp: s1_def emit_def\<close>)
    have us: "flexible_usage s1 - (n - sz) = flexible_usage s - n" using use1 P(9) sz0 by linarith
    show ?thesis
    proof (rule Cons.prems(1) [where fm = fm and es = "ZeroBacking q sz # es"])
      show "release_phys Flexible start (e # m) n s =
          Some (s\<lparr>fmem_map := fm, flexible_usage := flexible_usage s - n,
            effects := effects s @ ZeroBacking q sz # es\<rparr>)"
        unfolding e step IH(1) us by (simp add: s1_def emit_def)
      show "phys_end 0 fm = phys_end 0 (fmem_map s)" using IH(4) set(3) by (simp add: s1_def emit_def)
      have "fmem_at s1 = phys_rewrite q sz 0 PFree (fmem_at s)" using set(4) by (simp add: s1_def emit_def)
      then show "phys_content fm = (\<lambda>p. if p \<in> behind (e # m) c n then Some (p, 0, PFree) else fmem_at s p)"
        unfolding IH(5) e B(1) by (auto simp: phys_rewrite_def q_def coff)
      have "zeroed (ZeroBacking q sz # es) = {q..<q + sz} \<union> zeroed es" by (simp add: zeroed_def)
      then show "zeroed (ZeroBacking q sz # es) = behind (e # m) c n"
        unfolding IH(6) e B(1) by (simp add: q_def coff)
    qed (rule IH(2,3))+
  qed
qed

text \<open>Changing only the use of a range: what a successful carve establishes.\<close>

definition with_use :: "PhysicalMemoryType \<Rightarrow> phys_info option \<Rightarrow> phys_info option" where
  "with_use d = map_option (\<lambda>(b, t, _). (b, t, d))"

lemma with_use_idem [simp]: "with_use d (with_use e x) = with_use d x"
  by (cases x) (auto simp: with_use_def)

lemma set_phys_use:
  assumes wf: "phys_wf lo m" and len: "0 < len"
    and r: "set_phys m addr len (\<lambda>a. a\<lparr>dma_type := d\<rparr>) = Some (w, h, m')"
  shows "phys_wf lo m'" "phys_end lo m' = phys_end lo m"
    "phys_content m' = (\<lambda>p. if addr \<le> p \<and> p < addr + len then with_use d (phys_content m p)
       else phys_content m p)"
proof -
  obtain k v where kv: "find_le addr m = Some k" "map_of m k = Some v" "addr - k + len \<le> p_size v"
    using r by (rule set_phys_SomeD)
  have k: "k \<le> addr" "(k, v) \<in> set m" using find_le_Some [OF kv(1)] map_of_SomeD [OF kv(2)] by auto
  have le: "addr + len \<le> k + p_size v" using kv(3) k by linarith
  have base: "p_base v = k" using areas_wf_mem [OF wf k(2)] by (simp add: at_base_def)
  obtain h2 v2 m2 where s: "set_phys m addr len (\<lambda>a. a\<lparr>dma_type := d\<rparr>) = Some (v2, h2, m2)"
    "phys_wf lo m2" "phys_end lo m2 = phys_end lo m"
    "phys_content m2 = phys_rewrite addr len (memory_type v) d (phys_content m)"
  proof (rule set_phys_correct [OF wf kv(1,2) len le, of "\<lambda>a. a\<lparr>dma_type := d\<rparr>" "memory_type v" d])
  qed (use that in auto)
  have m2: "m2 = m'" using s(1) r by simp
  show "phys_wf lo m'" "phys_end lo m' = phys_end lo m" using s m2 by auto
  have "phys_content m p = Some (p, memory_type v, dma_type v)" if "addr \<le> p" "p < addr + len" for p
    using content_mem [OF wf k(2), of p phys_cell] that k le base by (simp add: phys_cell_def)
  then show "phys_content m' = (\<lambda>p. if addr \<le> p \<and> p < addr + len then with_use d (phys_content m p)
       else phys_content m p)"
    unfolding m2 [symmetric] s(4) phys_rewrite_def with_use_def by auto
qed

lemma release_phys_direct:
  assumes "tiles lo m hi" "c = max lo start" "m \<noteq> [] \<Longrightarrow> c < lo + p_size (snd (hd m))" "c + n \<le> hi"
    "dmem_wf s" "release_phys Direct start m n s = Some s'"
  shows "\<exists>dm. s' = s\<lparr>dmem_map := dm\<rparr> \<and> dmem_wf s' \<and>
    dmem_at s' = (\<lambda>p. if p \<in> behind m c n then with_use Allocated (dmem_at s p) else dmem_at s p)"
  using assms
proof (induction m arbitrary: lo c n s)
  case Nil
  then have "n = 0" "s' = s" by (auto simp: bind_iff)
  then show ?case using Nil.prems by (intro exI [of _ "dmem_map s"]) auto
next
  case (Cons e m)
  obtain a where e: "e = (lo, a)" using Cons.prems(1) by (cases e) auto
  show ?case
  proof (cases "n = 0")
    case True
    then show ?thesis using Cons.prems by (intro exI [of _ "dmem_map s"]) auto
  next
    case False
    note P = Cons.prems [unfolded e]
    define off where "off = max lo start - lo"
    define sz where "sz = min n (p_size a - off)"
    have c: "lo \<le> c" "c < lo + p_size a" and coff: "c - lo = off" using P(2,3) by (auto simp: off_def)
    have t: "tiles lo ((lo, a) # m) hi" using P(1) .
    have sz': "sz = min n (p_size a - (c - lo))" by (simp add: sz_def coff)
    note B = behind_Cons [OF t c sz']
    have sz0: "0 < sz" "sz \<le> n" using False c coff by (auto simp: sz_def)
    define q where "q = p_base a + off"
    from P(6) False obtain w h dm where
      set: "set_phys (dmem_map s) q sz (\<lambda>a. a\<lparr>dma_type := Allocated\<rparr>) = Some (w, h, dm)"
      and rest: "release_phys Direct start m (n - sz) (s\<lparr>dmem_map := dm\<rparr>) = Some s'"
      by (auto simp: release_region_def Let_def off_def sz_def q_def bind_iff)
    have wfd: "phys_wf 0 (dmem_map s)" using P(5) by (simp add: dmem_wf_def)
    note U = set_phys_use [OF wfd sz0(1) set]
    have wf1: "dmem_wf (s\<lparr>dmem_map := dm\<rparr>)"
      using P(5) U by (auto simp: dmem_wf_def with_use_def simp del: not_None_eq)
    have tm: "tiles (lo + p_size a) m hi" using t by simp
    have "lo + p_size a = max (lo + p_size a) start" using P(2) c by auto
    moreover have "m \<noteq> [] \<Longrightarrow> lo + p_size a < lo + p_size a + p_size (snd (hd m))"
      using tm by (cases m) auto
    moreover have "lo + p_size a + (n - sz) \<le> hi"
    proof (cases "sz < n")
      case True
      then show ?thesis using B(2) P(4) by auto
    next
      case False
      then show ?thesis using tiles_le [OF tm] by simp
    qed
    ultimately have "\<exists>dm'. s' = s\<lparr>dmem_map := dm'\<rparr> \<and> dmem_wf s' \<and>
      dmem_at s' = (\<lambda>p. if p \<in> behind m (lo + p_size a) (n - sz) then with_use Allocated (phys_content dm p)
         else phys_content dm p)"
      using Cons.IH [OF tm _ _ _ wf1 rest] by (simp cong: if_cong)
    then obtain dm' where IH: "s' = s\<lparr>dmem_map := dm'\<rparr>" "dmem_wf s'"
      "dmem_at s' = (\<lambda>p. if p \<in> behind m (lo + p_size a) (n - sz) then with_use Allocated (phys_content dm p)
         else phys_content dm p)" by blast
    have "dmem_at s' = (\<lambda>p. if p \<in> behind (e # m) c n then with_use Allocated (dmem_at s p) else dmem_at s p)"
      unfolding IH(3) U(3) e B(1) by (auto simp: q_def coff)
    with IH(1,2) show ?thesis by blast
  qed
qed

section \<open>What unmapping does to the views\<close>

definition backs :: "(nat \<Rightarrow> vma_info option) \<Rightarrow> VMAType \<Rightarrow> nat set \<Rightarrow> nat set" where
  "backs V ty A = {p. \<exists>a \<in> A. \<exists>i t d. V a = Some i \<and> i_type i = ty \<and> i_phys i = Some (p, t, d)}"

definition unmap_view :: "nat set \<Rightarrow> (nat \<Rightarrow> vma_info option) \<Rightarrow> nat \<Rightarrow> vma_info option" where
  "unmap_view A V = (\<lambda>a. if a \<in> A \<and> (\<exists>i. V a = Some i \<and> i_type i \<noteq> Pooled) then Some free_info else V a)"

definition unmap_fmem ::
  "nat set \<Rightarrow> (nat \<Rightarrow> vma_info option) \<Rightarrow> (nat \<Rightarrow> phys_info option) \<Rightarrow> nat \<Rightarrow> phys_info option" where
  "unmap_fmem A V F = (\<lambda>p. if p \<in> backs V Flexible A then Some (p, 0, PFree) else F p)"

definition unmap_dmem ::
  "nat set \<Rightarrow> (nat \<Rightarrow> vma_info option) \<Rightarrow> (nat \<Rightarrow> phys_info option) \<Rightarrow> nat \<Rightarrow> phys_info option" where
  "unmap_dmem A V D = (\<lambda>p. if p \<in> backs V Direct A then with_use Allocated (D p) else D p)"

lemma unmap_view_Un: "unmap_view B (unmap_view A V) = unmap_view (A \<union> B) V"
  by (rule ext) (auto simp: unmap_view_def free_info_def)

lemma backs_unmap_view: "A \<inter> B = {} \<Longrightarrow> backs (unmap_view A V) ty B = backs V ty B"
  unfolding backs_def unmap_view_def by (metis (no_types, lifting) disjoint_iff)

lemma backs_Un: "backs V ty (A \<union> B) = backs V ty A \<union> backs V ty B"
  by (auto simp: backs_def)

lemma unmap_fmem_Un:
  "A \<inter> B = {} \<Longrightarrow> unmap_fmem B (unmap_view A V) (unmap_fmem A V F) = unmap_fmem (A \<union> B) V F"
  by (rule ext) (simp add: unmap_fmem_def backs_unmap_view backs_Un)

lemma unmap_dmem_Un:
  "A \<inter> B = {} \<Longrightarrow> unmap_dmem B (unmap_view A V) (unmap_dmem A V D) = unmap_dmem (A \<union> B) V D"
  by (rule ext) (auto simp: unmap_dmem_def backs_unmap_view backs_Un)

lemma backs_flex:
  assumes "vma_wf lo m"
  shows "backs (vma_content m) Flexible A =
    flex_phys (vma_content m) ` (flex_addrs (vma_content m) \<inter> A)" (is "?l = ?r")
proof
  show "?l \<subseteq> ?r" by (force simp: backs_def flex_phys_def flex_addrs_def)
  show "?r \<subseteq> ?l"
  proof
    fix p assume "p \<in> ?r"
    then obtain a i where a: "a \<in> A" "vma_content m a = Some i" "i_type i = Flexible"
      "p = flex_phys (vma_content m) a" by (auto simp: flex_addrs_def)
    then obtain q t d where "i_phys i = Some (q, t, d)"
      using backed_phys [OF assms a(2)] by (cases "i_phys i") auto
    with a show "p \<in> ?l" by (auto simp: backs_def flex_phys_def)
  qed
qed

definition same_frame :: "MemoryManager \<Rightarrow> MemoryManager \<Rightarrow> bool" where
  "same_frame s s' \<longleftrightarrow> impl s' = impl s \<and> total_direct_size s' = total_direct_size s \<and>
     total_flexible_size s' = total_flexible_size s \<and> pool_budget s' = pool_budget s \<and>
     sdk_version s' = sdk_version s \<and> mapping_generation s' = mapping_generation s \<and>
     prt_areas s' = prt_areas s \<and> vma_end 0 (vma_map s') = vma_end 0 (vma_map s)"

lemma same_frame_trans: "same_frame s t \<Longrightarrow> same_frame t u \<Longrightarrow> same_frame s u"
  by (simp add: same_frame_def)

lemma same_frame_refl: "same_frame s s"
  by (simp add: same_frame_def)

definition unmapped :: "nat set \<Rightarrow> MemoryManager \<Rightarrow> MemoryManager \<Rightarrow> bool" where
  "unmapped A s s' \<longleftrightarrow> mm_wf s' \<and> same_frame s s' \<and> vma_at s' = unmap_view A (vma_at s) \<and>
     fmem_at s' = unmap_fmem A (vma_at s) (fmem_at s) \<and> dmem_at s' = unmap_dmem A (vma_at s) (dmem_at s) \<and>
     (\<exists>es. effects s' = effects s @ es \<and> zeroed es = backs (vma_at s) Flexible A)"

lemma unmapped_trans:
  assumes "unmapped A s t" "unmapped B t u" "A \<inter> B = {}"
  shows "unmapped (A \<union> B) s u"
proof -
  obtain es fs where es: "effects t = effects s @ es" "zeroed es = backs (vma_at s) Flexible A"
    "effects u = effects t @ fs" "zeroed fs = backs (vma_at t) Flexible B"
    using assms(1,2) by (auto simp: unmapped_def)
  have "backs (vma_at t) Flexible B = backs (vma_at s) Flexible B"
    using assms by (simp add: unmapped_def backs_unmap_view)
  then have "effects u = effects s @ (es @ fs) \<and> zeroed (es @ fs) = backs (vma_at s) Flexible (A \<union> B)"
    using es by (simp add: backs_Un)
  then have "\<exists>gs. effects u = effects s @ gs \<and> zeroed gs = backs (vma_at s) Flexible (A \<union> B)" by blast
  then show ?thesis
    using assms same_frame_trans [of s t u]
    by (simp add: unmapped_def unmap_view_Un unmap_fmem_Un unmap_dmem_Un)
qed

section \<open>One entry\<close>

lemma entries_from_tiles:
  assumes t: "tiles 0 m hi" and st: "st < hi"
  obtains h m' where "find_le st m = Some h" "entries_from h m = m'" "tiles h m' hi" "h \<le> st"
    "m' \<noteq> [] \<Longrightarrow> st < h + p_size (snd (hd m'))" "\<And>c n. h \<le> c \<Longrightarrow> behind m' c n = behind m c n"
    "\<And>i. h \<le> i \<Longrightarrow> phys_content m' i = phys_content m i"
proof -
  note wf = tiles_wf [OF t]
  have "phys_content m st \<noteq> None" using tiles_content [OF t] st by simp
  then obtain b where "phys_content m st = Some b" by blast
  from find_le_content [OF wf this] obtain h a where
    h: "find_le st m = Some h" "h \<le> st" "st < h + p_size a" "(h, a) \<in> set m" by metis
  obtain xs ys where m: "m = xs @ (h, a) # ys" using h(4) by (meson split_list)
  note w = areas_wf_mid [OF wf [unfolded m]]
  have e: "entries_from h m = (h, a) # ys" unfolding m by (rule entries_from_mid [OF w(6)])
  have t': "tiles h ((h, a) # ys) hi" using t unfolding m by (auto simp: tiles_append)
  have c: "phys_content ((h, a) # ys) i = phys_content m i" if "h \<le> i" for i
    unfolding m using content_mid [OF wf [unfolded m], of phys_cell i] that by simp
  have "behind ((h, a) # ys) c n = behind m c n" if "h \<le> c" for c n
    using c that unfolding behind_def by (metis (no_types, lifting) le_trans)
  with h e t' c show ?thesis by (intro that [of h "(h, a) # ys"]) simp_all
qed

lemma behind_backs:
  assumes wf: "vma_wf lo m" and v: "(k, v) \<in> set m" "k \<le> addr" "addr + n \<le> k + v_size v"
  shows "behind (phys_areas v) (addr - k) n = backs (vma_content m) (vtype v) {addr..<addr + n}"
proof -
  have c: "vma_content m a = Some (vma_cell v (a - k))" if "addr \<le> a" "a < addr + n" for a
    by (rule content_mem [OF wf v(1)]) (use v that in linarith)+
  show ?thesis
  proof (rule set_eqI)
    fix p
    have "p \<in> behind (phys_areas v) (addr - k) n \<longleftrightarrow>
        (\<exists>a t d. addr \<le> a \<and> a < addr + n \<and> phys_content (phys_areas v) (a - k) = Some (p, t, d))"
    proof
      assume "p \<in> behind (phys_areas v) (addr - k) n"
      then obtain i t d where i: "addr - k \<le> i" "i < addr - k + n" "phys_content (phys_areas v) i = Some (p, t, d)"
        by (auto simp: behind_def)
      then show "\<exists>a t d. addr \<le> a \<and> a < addr + n \<and> phys_content (phys_areas v) (a - k) = Some (p, t, d)"
        using v(2) by (intro exI [of _ "k + i"]) auto
    next
      assume "\<exists>a t d. addr \<le> a \<and> a < addr + n \<and> phys_content (phys_areas v) (a - k) = Some (p, t, d)"
      then obtain a t d where "addr \<le> a" "a < addr + n" "phys_content (phys_areas v) (a - k) = Some (p, t, d)"
        by blast
      then show "p \<in> behind (phys_areas v) (addr - k) n"
        unfolding behind_def using v(2) by (intro CollectI exI [of _ "a - k"]) auto
    qed
    also have "\<dots> \<longleftrightarrow> p \<in> backs (vma_content m) (vtype v) {addr..<addr + n}"
      unfolding backs_def using c by (auto simp: vma_cell_def intro!: bexI)
    finally show "p \<in> behind (phys_areas v) (addr - k) n \<longleftrightarrow>
        p \<in> backs (vma_content m) (vtype v) {addr..<addr + n}" .
  qed
qed

text \<open>The backing of a range of one type is empty for every other type.\<close>

lemma backs_other:
  assumes wf: "vma_wf lo m" and v: "(k, v) \<in> set m" "k \<le> addr" "addr + n \<le> k + v_size v"
    and ty: "ty \<noteq> vtype v"
  shows "backs (vma_content m) ty {addr..<addr + n} = {}"
proof -
  have "vma_content m a = Some (vma_cell v (a - k))" if "a \<in> {addr..<addr + n}" for a
    using that v by (intro content_mem [OF wf v(1)]) auto
  then show ?thesis unfolding backs_def using ty by (auto simp: vma_cell_def)
qed

lemma set_vma_free:
  assumes m: "vma_wf lo m" "FindVMA m addr = Some k" "map_of m k = Some v" "0 < n" "addr + n \<le> k + v_size v"
    and ty: "vtype v \<noteq> Pooled"
  obtains h m' where "set_vma m addr n free_area = Some (h, m')" "vma_wf lo m'" "vma_end lo m' = vma_end lo m"
    "vma_content m' = unmap_view {addr..<addr + n} (vma_content m)"
proof -
  obtain h m' v' where s: "set_vma m addr n free_area = Some (h, m')" "vma_wf lo m'"
    "vma_end lo m' = vma_end lo m" "vma_content m' = vma_rewrite addr n (\<lambda>_. free_info) (vma_content m)"
  proof (rule set_vma_correct [OF m, of free_area "\<lambda>_. free_info"])
    show "vma_ok addr (free_area u) \<and> v_size (free_area u) = n \<and>
      (\<forall>i < n. vma_cell (free_area u) i = free_info)" if "vma_ok addr u" "v_size u = n" for u
      using that by (auto simp: vma_ok_def free_area_def HasPhysicalBacking_def vma_cell_def free_info_def)
  qed (use that in auto)
  have kv: "(k, v) \<in> set m" "k \<le> addr" using map_of_SomeD [OF m(3)] find_le_Some m(2)
    by (auto simp: FindVMA_def)
  have "vma_content m a = Some (vma_cell v (a - k))" if "addr \<le> a" "a < addr + n" for a
    by (rule content_mem [OF m(1) kv(1)]) (use kv m(5) that in linarith)+
  then have "vma_rewrite addr n (\<lambda>_. free_info) (vma_content m) = unmap_view {addr..<addr + n} (vma_content m)"
    using ty by (intro ext) (auto simp: vma_rewrite_def unmap_view_def vma_cell_def)
  with s that show ?thesis by simp
qed

text \<open>The physical side of one entry, as the code runs it before it touches \<open>vma_map\<close>.\<close>

definition release_stage :: "u64 \<Rightarrow> VirtualMemoryArea \<Rightarrow> u64 \<Rightarrow> MemoryManager \<Rightarrow> MemoryManager option" where
  "release_stage start_in_vma v n s =
     (if phys_areas v \<noteq> [] then do {
        h \<leftarrow> find_le start_in_vma (phys_areas v);
        release_phys (vtype v) start_in_vma (entries_from h (phys_areas v)) n s }
      else Some s)"

definition released :: "nat set \<Rightarrow> MemoryManager \<Rightarrow> MemoryManager \<Rightarrow> bool" where
  "released A s s1 \<longleftrightarrow> (\<exists>dm fm u es. s1 = s\<lparr>dmem_map := dm, fmem_map := fm, flexible_usage := u,
       effects := effects s @ es\<rparr> \<and> dmem_wf s1 \<and> phys_wf 0 fm \<and> phys_coalesced fm \<and>
     phys_end 0 fm = phys_end 0 (fmem_map s) \<and>
     phys_content fm = unmap_fmem A (vma_at s) (fmem_at s) \<and>
     phys_content dm = unmap_dmem A (vma_at s) (dmem_at s) \<and>
     u = card (flex_used (phys_content fm)) \<and> zeroed es = backs (vma_at s) Flexible A)"

lemma released_refl:
  assumes "mm_wf s" "backs (vma_at s) Flexible A = {}" "backs (vma_at s) Direct A = {}"
  shows "released A s s"
  unfolding released_def using mm_wfD [OF assms(1)] assms(2,3)
  by (intro exI [of _ "dmem_map s"] exI [of _ "fmem_map s"] exI [of _ "flexible_usage s"] exI [of _ "[]"])
    (auto simp: unmap_fmem_def unmap_dmem_def)

lemma release_stage_flexible:
  assumes wf: "mm_wf s" and kv: "(k, v) \<in> set (vma_map s)" "k \<le> addr" "addr + n \<le> k + v_size v" "0 < n"
    and ty: "vtype v = Flexible"
  shows "\<exists>s1. release_stage (addr - k) v n s = Some s1 \<and> released {addr..<addr + n} s s1"
proof -
  note W = mm_wfD [OF wf]
  let ?A = "{addr..<addr + n}"
  have t: "tiles 0 (phys_areas v) (v_size v)"
    using areas_wf_mem [OF W(1) kv(1)] ty by (simp add: vma_ok_def HasPhysicalBacking_def)
  have st: "addr - k < v_size v" using kv by linarith
  have cell: "vma_at s (k + i) = Some (vma_cell v i)" if "i < v_size v" for i
    using content_mem [OF W(1) kv(1), of "k + i" vma_cell] that by simp
  have AF: "flex_addrs (vma_at s) \<inter> ?A = ?A"
  proof -
    have "a \<in> flex_addrs (vma_at s)" if "a \<in> ?A" for a
      using cell [of "a - k"] that kv ty by (auto simp: flex_addrs_def vma_cell_def)
    then show ?thesis by blast
  qed
  have bf: "backs (vma_at s) Flexible ?A = flex_phys (vma_at s) ` ?A"
    using backs_flex [OF W(1), of ?A] AF by simp
  have bb: "behind (phys_areas v) (addr - k) n = backs (vma_at s) Flexible ?A"
    using behind_backs [OF W(1) kv(1-3)] ty by simp
  have inj: "inj_on (flex_phys (vma_at s)) ?A"
    using W(8) AF unfolding flex_ok_def bij_betw_def by (metis inf_le1 inj_on_subset)
  have sub: "backs (vma_at s) Flexible ?A \<subseteq> flex_used (fmem_at s)"
    unfolding bf using W(8) AF unfolding flex_ok_def bij_betw_def by blast
  have card: "card (backs (vma_at s) Flexible ?A) = n" unfolding bf card_image [OF inj] by simp
  have fin: "finite (flex_used (fmem_at s))" using W(5) by (rule finite_flex_used)
  have use: "n \<le> flexible_usage s" using card_mono [OF fin sub] card W(9) by simp
  obtain h m' where h: "find_le (addr - k) (phys_areas v) = Some h" "entries_from h (phys_areas v) = m'"
    "tiles h m' (v_size v)" "h \<le> addr - k" "m' \<noteq> [] \<Longrightarrow> addr - k < h + p_size (snd (hd m'))"
    "\<And>c n. h \<le> c \<Longrightarrow> behind m' c n = behind (phys_areas v) c n"
    "\<And>i. h \<le> i \<Longrightarrow> phys_content m' i = phys_content (phys_areas v) i"
    using that by (rule entries_from_tiles [OF t st])
  have c: "addr - k = max h (addr - k)" using h(4) by simp
  have le: "addr - k + n \<le> v_size v" using kv by linarith
  have inj': "inj_on (\<lambda>i. fst (the (phys_content m' i))) {addr - k..<addr - k + n}"
  proof (rule inj_onI)
    fix i j assume ij: "i \<in> {addr - k..<addr - k + n}" "j \<in> {addr - k..<addr - k + n}"
      "fst (the (phys_content m' i)) = fst (the (phys_content m' j))"
    have "flex_phys (vma_at s) (k + x) = fst (the (phys_content m' x))"
      if "x \<in> {addr - k..<addr - k + n}" for x
      using cell [of x] h(4,7) that le by (auto simp: flex_phys_def vma_cell_def)
    then have "flex_phys (vma_at s) (k + i) = flex_phys (vma_at s) (k + j)" using ij by simp
    moreover have "k + i \<in> ?A" "k + j \<in> ?A" using ij kv(2) by auto
    ultimately have "k + i = k + j" using inj_onD [OF inj] by blast
    then show "i = j" by simp
  qed
  have bm: "behind m' (addr - k) n = backs (vma_at s) Flexible ?A" using h(4,6) bb by simp
  obtain fm es where r: "release_phys Flexible (addr - k) m' n s =
      Some (s\<lparr>fmem_map := fm, flexible_usage := flexible_usage s - n, effects := effects s @ es\<rparr>)"
    "phys_wf 0 fm" "phys_coalesced fm" "phys_end 0 fm = phys_end 0 (fmem_map s)"
    "phys_content fm = (\<lambda>p. if p \<in> behind m' (addr - k) n then Some (p, 0, PFree) else fmem_at s p)"
    "zeroed es = behind m' (addr - k) n"
    by (rule release_phys_flexible [OF h(3) c h(5) le W(5,6) inj' _ use flexible_usage_bound [OF wf]])
      (use bm sub in auto)
  have fmc: "phys_content fm = unmap_fmem ?A (vma_at s) (fmem_at s)"
    unfolding r(5) bm unmap_fmem_def by (rule refl)
  have "flex_used (phys_content fm) = flex_used (fmem_at s) - backs (vma_at s) Flexible ?A"
    unfolding fmc by (auto simp: flex_used_def unmap_fmem_def)
  then have u: "flexible_usage s - n = card (flex_used (phys_content fm))"
    using card_Diff_subset [OF finite_subset [OF sub fin] sub] card W(9) by simp
  have nd: "backs (vma_at s) Direct ?A = {}" by (rule backs_other [OF W(1) kv(1-3)]) (simp add: ty)
  have dm: "dmem_at s = unmap_dmem ?A (vma_at s) (dmem_at s)" by (simp add: unmap_dmem_def nd)
  let ?s1 = "s\<lparr>fmem_map := fm, flexible_usage := flexible_usage s - n, effects := effects s @ es\<rparr>"
  have "dmem_wf ?s1" using W(4) by (simp add: dmem_wf_def)
  then have "released ?A s ?s1"
    unfolding released_def using r fmc u dm bm
    by (intro exI [of _ "dmem_map s"] exI [of _ fm] exI [of _ "flexible_usage s - n"] exI [of _ es]) simp
  moreover have "release_stage (addr - k) v n s = Some ?s1"
    using tiles_nonempty [OF t] st h(1,2) r(1) ty by (simp add: release_stage_def)
  ultimately show ?thesis by blast
qed

lemma release_stage_direct:
  assumes wf: "mm_wf s" and kv: "(k, v) \<in> set (vma_map s)" "k \<le> addr" "addr + n \<le> k + v_size v" "0 < n"
    and ty: "vtype v = Direct" and r: "release_stage (addr - k) v n s = Some s1"
  shows "released {addr..<addr + n} s s1"
proof -
  note W = mm_wfD [OF wf]
  let ?A = "{addr..<addr + n}"
  have t: "tiles 0 (phys_areas v) (v_size v)"
    using areas_wf_mem [OF W(1) kv(1)] ty by (simp add: vma_ok_def HasPhysicalBacking_def)
  have st: "addr - k < v_size v" using kv by linarith
  obtain h m' where h: "find_le (addr - k) (phys_areas v) = Some h" "entries_from h (phys_areas v) = m'"
    "tiles h m' (v_size v)" "h \<le> addr - k" "m' \<noteq> [] \<Longrightarrow> addr - k < h + p_size (snd (hd m'))"
    "\<And>c n. h \<le> c \<Longrightarrow> behind m' c n = behind (phys_areas v) c n"
    using that by (rule entries_from_tiles [OF t st])
  have c: "addr - k = max h (addr - k)" using h(4) by simp
  have le: "addr - k + n \<le> v_size v" using kv by linarith
  have "release_phys Direct (addr - k) m' n s = Some s1"
    using r tiles_nonempty [OF t] st h(1,2) ty by (simp add: release_stage_def)
  from release_phys_direct [OF h(3) c h(5) le W(4) this] obtain dm where
    d: "s1 = s\<lparr>dmem_map := dm\<rparr>" "dmem_wf s1"
      "dmem_at s1 = (\<lambda>p. if p \<in> behind m' (addr - k) n then with_use Allocated (dmem_at s p) else dmem_at s p)"
    by blast
  have "behind m' (addr - k) n = backs (vma_at s) Direct ?A"
    using h(4,6) behind_backs [OF W(1) kv(1-3)] ty by simp
  then have dmc: "dmem_at s1 = unmap_dmem ?A (vma_at s) (dmem_at s)"
    unfolding d(3) unmap_dmem_def by simp
  have nf: "backs (vma_at s) Flexible ?A = {}" by (rule backs_other [OF W(1) kv(1-3)]) (simp add: ty)
  have "fmem_at s = unmap_fmem ?A (vma_at s) (fmem_at s)" by (simp add: unmap_fmem_def nf)
  then show ?thesis
    unfolding released_def using d dmc nf W
    by (intro exI [of _ dm] exI [of _ "fmem_map s"] exI [of _ "flexible_usage s"] exI [of _ "[]"]) simp
qed

lemma release_stage_other:
  assumes wf: "mm_wf s" and kv: "(k, v) \<in> set (vma_map s)" "k \<le> addr" "addr + n \<le> k + v_size v"
    and ty: "vtype v \<notin> {Direct, Flexible, Pooled}"
  shows "release_stage (addr - k) v n s = Some s" "released {addr..<addr + n} s s"
proof -
  note W = mm_wfD [OF wf]
  have "phys_areas v = []"
    using areas_wf_mem [OF W(1) kv(1)] ty by (auto simp: vma_ok_def HasPhysicalBacking_def split: if_splits)
  then show "release_stage (addr - k) v n s = Some s" by (simp add: release_stage_def)
  show "released {addr..<addr + n} s s"
    by (rule released_refl [OF wf]; rule backs_other [OF W(1) kv(1-3)]) (use ty in auto)
qed

text \<open>Marking the range as free in the virtual map after its backing is released.\<close>

lemma released_unmapped:
  assumes wf: "mm_wf s" and r: "released {addr..<addr + n} s s1"
    and v: "FindVMA (vma_map s) addr = Some k" "map_of (vma_map s) k = Some v" "0 < n" "addr + n \<le> k + v_size v"
    and ty: "vtype v \<noteq> Pooled"
  obtains h vm where "set_vma (vma_map s1) addr n free_area = Some (h, vm)"
    "\<And>c. unmapped {addr..<addr + n} s (emit_if c (AsUnmap addr n) (s1\<lparr>vma_map := vm\<rparr>))"
proof -
  note W = mm_wfD [OF wf]
  let ?A = "{addr..<addr + n}"
  obtain dm fm u es where R: "s1 = s\<lparr>dmem_map := dm, fmem_map := fm, flexible_usage := u, effects := effects s @ es\<rparr>"
    "dmem_wf s1" "phys_wf 0 fm" "phys_coalesced fm" "phys_end 0 fm = phys_end 0 (fmem_map s)"
    "phys_content fm = unmap_fmem ?A (vma_at s) (fmem_at s)"
    "phys_content dm = unmap_dmem ?A (vma_at s) (dmem_at s)"
    "u = card (flex_used (phys_content fm))" "zeroed es = backs (vma_at s) Flexible ?A"
    using r unfolding released_def by blast
  obtain h vm where S: "set_vma (vma_map s) addr n free_area = Some (h, vm)" "vma_wf 0 vm"
    "vma_end 0 vm = vma_end 0 (vma_map s)" "vma_content vm = unmap_view ?A (vma_at s)"
    by (rule set_vma_free [OF W(1) v(1,2,3,4) ty])
  have kv: "(k, v) \<in> set (vma_map s)" "k \<le> addr"
    using map_of_SomeD [OF v(2)] find_le_Some v(1) by (auto simp: FindVMA_def)
  have np: "\<exists>i. vma_at s a = Some i \<and> i_type i \<noteq> Pooled" if "a \<in> ?A" for a
    using content_mem [OF W(1) kv(1), of a vma_cell] that kv v(4) ty by (auto simp: vma_cell_def)
  have "flex_ok (vma_content vm) (phys_content fm)"
  proof (rule flex_ok_release(1) [OF W(8), of "vma_content vm" ?A])
    show "vma_content vm a = (if a \<in> ?A \<and> vma_at s a \<noteq> None then Some free_info else vma_at s a)" for a
      unfolding S(4) unmap_view_def using np [of a] by auto
    show "phys_content fm p = (if p \<in> flex_phys (vma_at s) ` (flex_addrs (vma_at s) \<inter> ?A)
        then Some (p, 0, PFree) else fmem_at s p)" for p
      unfolding R(6) unmap_fmem_def backs_flex [OF W(1)] by (rule refl)
  qed
  moreover have "vma_content vm a = Some i \<Longrightarrow> i_type i = VFree \<Longrightarrow> i = free_info" for a i
    unfolding S(4) unmap_view_def using W(10) [of a i] by (auto split: if_splits)
  moreover have "dmem_wf (s1\<lparr>vma_map := vm\<rparr>)" using R(2) by (simp add: dmem_wf_def)
  ultimately have wf1: "mm_wf (s1\<lparr>vma_map := vm\<rparr>)"
    unfolding mm_wf_def using R S W(2,7) by simp
  have eff: "\<exists>fs. effects (emit_if c (AsUnmap addr n) (s1\<lparr>vma_map := vm\<rparr>)) = effects s @ fs \<and>
      zeroed fs = backs (vma_at s) Flexible ?A" for c
    by (rule exI [of _ "es @ (if c then [AsUnmap addr n] else [])"])
      (use R(1,9) in \<open>auto simp: emit_if_def emit_def zeroed_def\<close>)
  have wf2: "mm_wf (emit_if c (AsUnmap addr n) (s1\<lparr>vma_map := vm\<rparr>))" for c
    using wf1 unfolding mm_wf_def emit_if_def emit_def dmem_wf_def by simp
  have "unmapped ?A s (emit_if c (AsUnmap addr n) (s1\<lparr>vma_map := vm\<rparr>))" for c
    unfolding unmapped_def using eff [of c] wf2 [of c] R S
    by (auto simp: emit_if_def emit_def same_frame_def)
  moreover have "set_vma (vma_map s1) addr n free_area = Some (h, vm)" using S(1) R(1) by simp
  ultimately show ?thesis by (intro that)
qed

text \<open>
  One entry of the loop: what it establishes when it returns, and that it returns unless the entry
  maps direct memory.
\<close>

lemma UnmapBytesFromEntry_step:
  assumes wf: "mm_wf s" and v: "FindVMA (vma_map s) addr = Some k" "map_of (vma_map s) k = Some v"
      "addr < k + v_size v" and len: "0 < len"
    and n: "n = min (k + v_size v - addr) len"
  shows "UnmapBytesFromEntry addr v len s = Some (n', s') \<Longrightarrow> n' = n \<and> unmapped {addr..<addr + n} s s'"
    and "vtype v \<noteq> Direct \<Longrightarrow> UnmapBytesFromEntry addr v len s \<noteq> None"
proof -
  note W = mm_wfD [OF wf]
  have kv: "(k, v) \<in> set (vma_map s)" "k \<le> addr"
    using map_of_SomeD [OF v(2)] find_le_Some v(1) by (auto simp: FindVMA_def)
  have okv: "vma_ok k v" using areas_wf_mem [OF W(1) kv(1)] by simp
  have base: "v_base v = k" using okv by (simp add: vma_ok_def)
  have bnd: "k + v_size v < 2 ^ 62" using areas_wf_below [OF W(1) kv(1)] W(2) by linarith
  have sub: "sub64 addr (v_base v) = addr - k"
    "min (sub64 (v_size v) (addr - k)) len = n"
  proof -
    show "sub64 addr (v_base v) = addr - k" using base kv(2) v(3) bnd by (simp add: sub64_exact)
    have "sub64 (v_size v) (addr - k) = v_size v - (addr - k)" using kv(2) v(3) bnd by (intro sub64_exact) auto
    also have "\<dots> = k + v_size v - addr" using kv(2) by simp
    finally show "min (sub64 (v_size v) (addr - k)) len = n" using n by simp
  qed
  have n0: "0 < n" "addr + n \<le> k + v_size v" using n len v(3) by auto
  have cell: "vma_at s a = Some (vma_cell v (a - k))" if "addr \<le> a" "a < addr + n" for a
    by (rule content_mem [OF W(1) kv(1)]) (use kv n0 that in linarith)+
  have un: "UnmapBytesFromEntry addr v len s =
      (if vtype v = VFree \<or> vtype v = Pooled then Some (n, s)
       else do {
         s1 \<leftarrow> release_stage (addr - k) v n s;
         (_, vm) \<leftarrow> set_vma (vma_map s1) addr n free_area;
         Some (n, emit_if (vtype v \<noteq> Reserved \<and> vtype v \<noteq> PoolReserved) (AsUnmap addr n)
               (s1\<lparr>vma_map := vm\<rparr>)) })"
    unfolding UnmapBytesFromEntry_def Let_def sub release_stage_def by (rule refl)
  have stage: "released {addr..<addr + n} s s1"
    if "release_stage (addr - k) v n s = Some s1" "vtype v \<noteq> Pooled" for s1
    using that release_stage_flexible [OF wf kv n0(2,1)] release_stage_direct [OF wf kv n0(2,1)]
      release_stage_other [OF wf kv n0(2)]
    by (cases "vtype v = Direct"; cases "vtype v = Flexible") auto
  have skip: "unmapped {addr..<addr + n} s s" if ty: "vtype v = VFree \<or> vtype v = Pooled"
  proof -
    have "unmap_view {addr..<addr + n} (vma_at s) = vma_at s"
    proof (rule ext)
      fix a
      show "unmap_view {addr..<addr + n} (vma_at s) a = vma_at s a"
        using cell [of a] W(10) [of a "vma_cell v (a - k)"] ty
        by (auto simp: unmap_view_def vma_cell_def)
    qed
    moreover have "backs (vma_at s) ty {addr..<addr + n} = {}" if "ty \<in> {Flexible, Direct}" for ty
      using backs_other [OF W(1) kv n0(2), of ty] that \<open>vtype v = VFree \<or> vtype v = Pooled\<close> by auto
    ultimately show ?thesis
      using wf by (auto simp: unmapped_def same_frame_refl unmap_fmem_def unmap_dmem_def)
  qed
  { assume r: "UnmapBytesFromEntry addr v len s = Some (n', s')"
    show "n' = n \<and> unmapped {addr..<addr + n} s s'"
    proof (cases "vtype v = VFree \<or> vtype v = Pooled")
      case True
      with r un skip show ?thesis by auto
    next
      case False
      with r un obtain s1 h vm where s1: "release_stage (addr - k) v n s = Some s1"
        "set_vma (vma_map s1) addr n free_area = Some (h, vm)" "n' = n"
        "s' = emit_if (vtype v \<noteq> Reserved \<and> vtype v \<noteq> PoolReserved) (AsUnmap addr n) (s1\<lparr>vma_map := vm\<rparr>)"
        by (auto simp: bind_iff)
      have "vtype v \<noteq> Pooled" using False by simp
      from released_unmapped [OF wf stage [OF s1(1) this] v(1,2) n0 this] s1(2)
      obtain "\<And>c. unmapped {addr..<addr + n} s (emit_if c (AsUnmap addr n) (s1\<lparr>vma_map := vm\<rparr>))"
        by (metis option.inject prod.inject)
      then show ?thesis using s1(3,4) by blast
    qed }
  { assume nd: "vtype v \<noteq> Direct"
    show "UnmapBytesFromEntry addr v len s \<noteq> None"
    proof (cases "vtype v = VFree \<or> vtype v = Pooled")
      case False
      then have np: "vtype v \<noteq> Pooled" by simp
      obtain s1 where s1: "release_stage (addr - k) v n s = Some s1"
        using release_stage_flexible [OF wf kv n0(2,1)] release_stage_other [OF wf kv n0(2)] nd np
        by (cases "vtype v = Flexible") auto
      obtain h vm where "set_vma (vma_map s1) addr n free_area = Some (h, vm)"
        by (rule released_unmapped [OF wf stage [OF s1 np] v(1,2) n0 np])
      with False s1 un show ?thesis by simp
    qed (use un in simp) }
qed

section \<open>The loop\<close>

lemma covered_mono: "covered m addr len \<Longrightarrow> addr \<le> b \<Longrightarrow> b + n \<le> addr + len \<Longrightarrow> covered m b n"
  unfolding covered_def by (meson le_trans less_le_trans)

lemma covered_head: "covered m addr len \<Longrightarrow> 0 < len \<Longrightarrow> \<exists>b. vma_content m addr = Some b"
  unfolding covered_def by fastforce

lemma covered_end:
  assumes "vma_wf 0 m" "covered m addr len" "0 < len"
  shows "addr + len \<le> vma_end 0 m"
proof (rule ccontr)
  assume "\<not> addr + len \<le> vma_end 0 m"
  then have "vma_content m (addr + len - 1) = None"
    by (intro content_below_None [OF assms(1)]) linarith
  then show False using assms(2,3) unfolding covered_def by (simp del: not_None_eq) 
qed

lemma unmapped_covered:
  "unmapped A s t \<Longrightarrow> covered (vma_map t) b n = covered (vma_map s) b n"
  by (auto simp: unmapped_def covered_def unmap_view_def)

lemma range_split: "n \<le> (len::nat) \<Longrightarrow> {addr..<addr + len} = {addr..<addr + n} \<union> {addr + n..<addr + n + (len - n)}"
  by auto

text \<open>
  The loop unmaps the whole range whenever it returns, and it returns when the range maps no direct
  memory: every turn makes progress and flexible backing is always found.
\<close>

lemma UnmapMemoryImpl_step:
  assumes wf: "mm_wf s" and c: "covered (vma_map s) addr len" and len: "0 < len"
  obtains k v n where "FindVMA (vma_map s) addr = Some k" "map_of (vma_map s) k = Some v"
    "addr < k + v_size v" "n = min (k + v_size v - addr) len" "0 < n" "n \<le> len"
    "vma_at s addr = Some (vma_cell v (addr - k))" "add64 addr n = addr + n"
proof -
  obtain b where b: "vma_at s addr = Some b" using covered_head [OF c len] by blast
  obtain xs k v ys where k: "FindVMA (vma_map s) addr = Some k" "map_of (vma_map s) k = Some v" "k \<le> addr"
    "addr < k + v_size v" "b = vma_cell v (addr - k)" 
    by (rule FindVMA_content [OF mm_wfD(1) [OF wf] b])
  have "addr + min (k + v_size v - addr) len < two64"
    using covered_end [OF mm_wfD(1) [OF wf] c len] mm_wfD(3) [OF wf] by linarith
  then have "add64 addr (min (k + v_size v - addr) len) = addr + min (k + v_size v - addr) len"
    by (rule add64_exact)
  with k b len show ?thesis by (intro that) auto
qed

lemma UnmapMemoryImpl_unmaps:
  assumes "mm_wf s" "covered (vma_map s) addr len" "0 < len"
  shows "UnmapMemoryImpl addr len s = Some (r, s') \<Longrightarrow> r = ORBIS_OK \<and> unmapped {addr..<addr + len} s s'"
    and "\<forall>a i. addr \<le> a \<longrightarrow> a < addr + len \<longrightarrow> vma_at s a = Some i \<longrightarrow> i_type i \<noteq> Direct \<Longrightarrow>
      UnmapMemoryImpl addr len s \<noteq> None"
proof -
  have "(UnmapMemoryImpl addr len s = Some (r, s') \<longrightarrow> r = ORBIS_OK \<and> unmapped {addr..<addr + len} s s') \<and>
    ((\<forall>a i. addr \<le> a \<longrightarrow> a < addr + len \<longrightarrow> vma_at s a = Some i \<longrightarrow> i_type i \<noteq> Direct) \<longrightarrow>
      UnmapMemoryImpl addr len s \<noteq> None)"
    using assms
  proof (induction len arbitrary: addr s rule: less_induct)
    case (less len)
    obtain k v n where k: "FindVMA (vma_map s) addr = Some k" "map_of (vma_map s) k = Some v"
      "addr < k + v_size v" "n = min (k + v_size v - addr) len" "0 < n" "n \<le> len"
      "vma_at s addr = Some (vma_cell v (addr - k))" "add64 addr n = addr + n"
      by (rule UnmapMemoryImpl_step [OF less.prems])
    note step = UnmapBytesFromEntry_step [OF less.prems(1) k(1-3) less.prems(3) k(4)]
    have un: "UnmapMemoryImpl addr len s = do {
        (n', s1) \<leftarrow> UnmapBytesFromEntry addr v len s;
        ASSERT (n' > 0);
        (if n' < len then UnmapMemoryImpl (add64 addr n') (len - n') s1 else Some (ORBIS_OK, s1)) }"
      by (subst UnmapMemoryImpl.simps) (simp add: k(1,2))
    show ?case
    proof (cases "UnmapBytesFromEntry addr v len s")
      case None
      then have "vtype v = Direct" using step(2) by blast
      with None un k(7) less.prems(3) show ?thesis
        by (auto intro!: exI [of _ addr])
    next
      case (Some x)
      obtain s1 where x: "x = (n, s1)" and u: "unmapped {addr..<addr + n} s s1"
        using step(1) Some by (cases x) auto
      have wf1: "mm_wf s1" using u by (simp add: unmapped_def)
      have un1: "UnmapMemoryImpl addr len s =
          (if n < len then UnmapMemoryImpl (addr + n) (len - n) s1 else Some (ORBIS_OK, s1))"
        using un Some x k(5,8) by simp
      show ?thesis
      proof (cases "n < len")
        case False
        then have "n = len" using k(6) by simp
        with un1 u show ?thesis by auto
      next
        case True
        have c1: "covered (vma_map s1) (addr + n) (len - n)"
          unfolding unmapped_covered [OF u] by (rule covered_mono [OF less.prems(2)]) (use True in auto)
        have lt: "len - n < len" "0 < len - n" using True k(5) by auto
        note IH = less.IH [OF lt(1) wf1 c1 lt(2)]
        have "unmapped {addr..<addr + len} s s'" if "unmapped {addr + n..<addr + n + (len - n)} s1 s'"
          using unmapped_trans [OF u that] range_split [OF k(6), of addr] by simp
        moreover have "i_type i \<noteq> Direct" if "\<forall>a i. addr \<le> a \<longrightarrow> a < addr + len \<longrightarrow> vma_at s a = Some i \<longrightarrow> i_type i \<noteq> Direct"
          "addr + n \<le> a" "a < addr + n + (len - n)" "vma_at s1 a = Some i" for a i
        proof -
          have "vma_at s1 a = unmap_view {addr..<addr + n} (vma_at s) a" using u by (simp add: unmapped_def)
          also have "\<dots> = vma_at s a" using that(2) by (simp add: unmap_view_def)
          finally have "vma_at s a = Some i" using that(4) by simp
          moreover have "addr \<le> a" "a < addr + len" using that(2,3) True by linarith+
          ultimately show ?thesis using that(1) by blast
        qed
        ultimately show ?thesis using IH un1 True by auto
      qed
    qed
  qed
  then show "UnmapMemoryImpl addr len s = Some (r, s') \<Longrightarrow> r = ORBIS_OK \<and> unmapped {addr..<addr + len} s s'"
    and "\<forall>a i. addr \<le> a \<longrightarrow> a < addr + len \<longrightarrow> vma_at s a = Some i \<longrightarrow> i_type i \<noteq> Direct \<Longrightarrow>
      UnmapMemoryImpl addr len s \<noteq> None" by blast+
qed

section \<open>Properties of unmapping\<close>

lemma mm_wf_irrelevant [simp]:
  "mm_wf (BeginMutation s) = mm_wf s" "mm_wf (FinishMutation s) = mm_wf s"
  "mm_wf (emit e s) = mm_wf s" "mm_wf (emit_if c e s) = mm_wf s"
  by (simp_all add: mm_wf_def dmem_wf_def BeginMutation_def FinishMutation_def emit_def emit_if_def)

lemma views_irrelevant [simp]:
  "vma_map (BeginMutation s) = vma_map s" "vma_map (FinishMutation s) = vma_map s"
  "vma_map (emit e s) = vma_map s" "vma_map (emit_if c e s) = vma_map s"
  "fmem_map (BeginMutation s) = fmem_map s" "fmem_map (FinishMutation s) = fmem_map s"
  "fmem_map (emit e s) = fmem_map s" "fmem_map (emit_if c e s) = fmem_map s"
  "dmem_map (BeginMutation s) = dmem_map s" "dmem_map (FinishMutation s) = dmem_map s"
  "dmem_map (emit e s) = dmem_map s" "dmem_map (emit_if c e s) = dmem_map s"
  "total_direct_size (BeginMutation s) = total_direct_size s"
  "total_direct_size (FinishMutation s) = total_direct_size s"
  "total_direct_size (emit e s) = total_direct_size s"
  "total_direct_size (emit_if c e s) = total_direct_size s"
  "impl (BeginMutation s) = impl s" "impl (FinishMutation s) = impl s" "impl (emit e s) = impl s"
  "impl (emit_if c e s) = impl s"
  "mapping_generation (BeginMutation s) = mapping_generation s + 1"
  "mapping_generation (FinishMutation s) = mapping_generation s + 1"
  "mapping_generation (emit e s) = mapping_generation s"
  "mapping_generation (emit_if c e s) = mapping_generation s"
  "effects (BeginMutation s) = effects s" "effects (FinishMutation s) = effects s"
  "effects (emit_if c e s) = effects s @ (if c then [e] else [])"
  "flexible_usage (BeginMutation s) = flexible_usage s" "flexible_usage (FinishMutation s) = flexible_usage s"
  "flexible_usage (emit_if c e s) = flexible_usage s"
  by (simp_all add: BeginMutation_def FinishMutation_def emit_def emit_if_def)

lemma UnmapMemory_run:
  assumes "mm_wf s" "0 < len" "n = AlignUp len KB16" "b = AlignDown addr KB16" "0 < n"
    "covered (vma_map s) b n"
  shows "UnmapMemory addr len s = do {
      (r, s2) \<leftarrow> UnmapMemoryImpl b n (BeginMutation (emit_if (IsValidGpuMapping b n) (GpuUnmap b n) s));
      Some (r, FinishMutation s2) }"
proof -
  have "b + n \<le> vma_end 0 (vma_map s)" by (rule covered_end [OF mm_wfD(1) [OF assms(1)] assms(6,5)])
  then have "assert_valid (vma_map s) b n = Some ()"
    using assms mm_wfD(1,3) [OF assms(1)] by (intro assert_valid_covered [of 0]) auto
  then show ?thesis using assms by (simp add: UnmapMemory_def Let_def)
qed

lemma UnmapMemory_frees_spec:
  assumes "mm_wf s" "0 < len" "len + KB16 \<le> two64"
    and "n = AlignUp len KB16" "b = AlignDown addr KB16"
    and "covered (vma_map s) b n"
    and "\<forall>a i. b \<le> a \<longrightarrow> a < b + n \<longrightarrow> vma_at s a = Some i \<longrightarrow> i_type i \<noteq> Direct"
  shows "\<exists>s'. UnmapMemory addr len s = Some (ORBIS_OK, s') \<and> mm_wf s' \<and>
    vma_at s' = unmap_view {b..<b + n} (vma_at s) \<and>
    fmem_at s' = unmap_fmem {b..<b + n} (vma_at s) (fmem_at s) \<and> dmem_at s' = dmem_at s \<and>
    (\<exists>es. effects s' = effects s @ es \<and> zeroed es = backs (vma_at s) Flexible {b..<b + n}) \<and>
    mapping_generation s' = mapping_generation s + 2"
proof -
  have n: "0 < n" using AlignUp_ge [OF assms(3)] assms(2,4) by simp
  let ?s1 = "BeginMutation (emit_if (IsValidGpuMapping b n) (GpuUnmap b n) s)"
  note run = UnmapMemory_run [OF assms(1,2,4,5) n assms(6)]
  have wf1: "mm_wf ?s1" and c1: "covered (vma_map ?s1) b n" using assms by simp_all
  have nd: "\<forall>a i. b \<le> a \<longrightarrow> a < b + n \<longrightarrow> vma_at ?s1 a = Some i \<longrightarrow> i_type i \<noteq> Direct" using assms(7) by simp
  obtain r s2 where r: "UnmapMemoryImpl b n ?s1 = Some (r, s2)"
    using UnmapMemoryImpl_unmaps(2) [OF wf1 c1 n nd] by auto
  from UnmapMemoryImpl_unmaps(1) [OF wf1 c1 n r] have u: "r = ORBIS_OK" "unmapped {b..<b + n} ?s1 s2" by auto
  have "backs (vma_at s) Direct {b..<b + n} = {}" using assms(7) by (auto simp: backs_def)
  then have "dmem_at s2 = dmem_at s" using u(2) by (simp add: unmapped_def unmap_dmem_def)
  moreover have "\<exists>es. effects (FinishMutation s2) = effects s @ es \<and>
      zeroed es = backs (vma_at s) Flexible {b..<b + n}"
  proof -
    obtain es where es: "effects s2 = effects ?s1 @ es" "zeroed es = backs (vma_at s) Flexible {b..<b + n}"
      using u(2) by (auto simp: unmapped_def)
    then show ?thesis
      by (intro exI [of _ "(if IsValidGpuMapping b n then [GpuUnmap b n] else []) @ es"]) (simp add: zeroed_def)
  qed
  ultimately show ?thesis
    using run r u by (intro exI [of _ "FinishMutation s2"]) (auto simp: unmapped_def same_frame_def)
qed

text \<open>A state with one flexible mapping of 16 KB, for concrete evaluations.\<close>

definition flex_boot :: MemoryManager where
  "flex_boot = boot\<lparr>
     vma_map := [(0x400000, \<lparr>v_base = 0x400000, v_size = 0x4000, phys_areas = [(0, \<lparr>p_base = 7936 * MB1, p_size = 0x4000,
         memory_type = 0, dma_type = PFlexible\<rparr>)], vtype = Flexible, prot = 3, vname = ''f'', fd = 0, disallow_merge = False\<rparr>),
       (0x404000, free_vma 0x404000 0x1fffbfc000)],
     fmem_map := [(7936 * MB1, \<lparr>p_base = 7936 * MB1, p_size = 0x4000, memory_type = 0, dma_type = PFlexible\<rparr>),
       (7936 * MB1 + 0x4000, free_phys (7936 * MB1 + 0x4000) (512 * MB1 - 0x4000))], flexible_usage := 0x4000\<rparr>"

lemma flex_boot_vma: "vma_at flex_boot a = (if 0x400000 \<le> a \<and> a < 0x404000
    then Some \<lparr>i_type = Flexible, i_prot = 3, i_name = ''f'', i_nomerge = False, i_phys = Some (7936 * MB1 + (a - 0x400000), 0, PFlexible)\<rparr>
    else if 0x404000 \<le> a \<and> a < 0x404000 + 0x1fffbfc000 then Some free_info else None)"
  by (auto simp: flex_boot_def vma_cell_def free_vma_def free_info_def phys_cell_def)

lemma flex_boot_fmem: "fmem_at flex_boot p = (if 7936 * MB1 \<le> p \<and> p < 7936 * MB1 + 0x4000
    then Some (p, 0, PFlexible) else if 7936 * MB1 + 0x4000 \<le> p \<and> p < 8448 * MB1 then Some (p, 0, PFree) else None)"
  by (auto simp: flex_boot_def free_phys_def phys_cell_def)

lemma flex_boot_mm_wf: "mm_wf flex_boot"
proof -
  have e: "flex_addrs (vma_at flex_boot) = {0x400000..<0x404000}"
    "flex_used (fmem_at flex_boot) = {7936 * MB1..<7936 * MB1 + 0x4000}"
    by (auto simp: flex_addrs_def flex_used_def flex_boot_vma flex_boot_fmem free_info_def split: if_splits)
  have im: "(\<lambda>a. 7936 * MB1 + (a - 0x400000)) ` {0x400000..<0x404000} = {7936 * MB1..<7936 * MB1 + 0x4000}"
  proof (intro equalityI subsetI)
    fix p assume "p \<in> {7936 * MB1..<7936 * MB1 + (0x4000::nat)}"
    then show "p \<in> (\<lambda>a. 7936 * MB1 + (a - 0x400000)) ` {0x400000..<0x404000}"
      by (intro image_eqI [of _ _ "p - 7936 * MB1 + 0x400000"]) auto
  qed auto
  have "bij_betw (flex_phys (vma_at flex_boot)) {0x400000..<0x404000} {7936 * MB1..<7936 * MB1 + 0x4000}"
    by (rule bij_betw_cong [THEN iffD1, OF _ bij_betw_imageI [OF _ im]])
      (auto simp: flex_phys_def flex_boot_vma inj_on_def)
  then have "flex_ok (vma_at flex_boot) (fmem_at flex_boot)"
    unfolding flex_ok_def e by (auto simp: flex_boot_fmem flex_free_def split: if_splits)
  moreover have "vma_at flex_boot a = Some i \<Longrightarrow> i_type i = VFree \<Longrightarrow> i = free_info" for a i
    unfolding flex_boot_vma by (auto split: if_splits)
  ultimately show ?thesis
    unfolding mm_wf_def e
    by (auto simp: flex_boot_def phys_cell_def dmem_wf_def boot_eval free_vma_def free_phys_def at_base_def vma_ok_def
        HasPhysicalBacking_def phys_CanMergeWith_def)
qed

text \<open>
  C4. \<open>UnmapMemory\<close> of a range whose pages lie in the address space and hold no direct mapping returns,
  and afterwards every address of these pages is free, except that committed pool memory stays mapped as
  it was; every flexible byte that backed the range is free again and has been zeroed, nothing else
  changes in any of the three maps, the invariant holds, and the mapping generation has moved on by one
  complete mutation.
\<close>

theorem UnmapMemory_frees:
  assumes "mm_wf s" "0 < len" "len + KB16 \<le> two64"
    and "n = AlignUp len KB16" "b = AlignDown addr KB16"
    and "covered (vma_map s) b n"
    and "\<forall>a i. b \<le> a \<longrightarrow> a < b + n \<longrightarrow> vma_at s a = Some i \<longrightarrow> i_type i \<noteq> Direct"
  shows "\<exists>s'. UnmapMemory addr len s = Some (ORBIS_OK, s') \<and> mm_wf s' \<and>
    vma_at s' = unmap_view {b..<b + n} (vma_at s) \<and>
    fmem_at s' = unmap_fmem {b..<b + n} (vma_at s) (fmem_at s) \<and> dmem_at s' = dmem_at s \<and>
    (\<exists>es. effects s' = effects s @ es \<and> zeroed es = backs (vma_at s) Flexible {b..<b + n}) \<and>
    mapping_generation s' = mapping_generation s + 2"
  using assms by (rule UnmapMemory_frees_spec)

theorem UnmapMemory_frees_witness:
  "vma_at flex_boot 0x400100 \<noteq> Some free_info \<and>
   (\<exists>s'. UnmapMemory 0x400000 0x4000 flex_boot = Some (ORBIS_OK, s') \<and> mm_wf s' \<and>
     vma_at s' 0x400100 = Some free_info \<and> fmem_at s' (7936 * MB1 + 0x100) = Some (7936 * MB1 + 0x100, 0, PFree))"
proof -
  have a: "(0x4000::nat) = AlignUp 0x4000 KB16" "(0x400000::nat) = AlignDown 0x400000 KB16"
    by (simp_all add: AlignUp_def AlignDown_def)
  have c: "covered (vma_map flex_boot) 0x400000 0x4000"
    by (auto simp: covered_def flex_boot_vma)
  have d: "\<forall>a i. 0x400000 \<le> a \<longrightarrow> a < 0x400000 + (0x4000::nat) \<longrightarrow> vma_at flex_boot a = Some i \<longrightarrow> i_type i \<noteq> Direct"
    by (auto simp: flex_boot_vma free_info_def split: if_splits)
  have v: "vma_at flex_boot 0x400100 \<noteq> Some free_info" by (simp add: flex_boot_vma free_info_def)
  have b: "7936 * MB1 + 0x100 \<in> backs (vma_at flex_boot) Flexible {0x400000..<0x400000 + 0x4000}"
    by (auto simp: backs_def flex_boot_vma intro!: bexI [of _ "0x400100"])
  obtain s' where s': "UnmapMemory 0x400000 0x4000 flex_boot = Some (ORBIS_OK, s')" "mm_wf s'"
    "vma_at s' = unmap_view {0x400000..<0x400000 + 0x4000} (vma_at flex_boot)"
    "fmem_at s' = unmap_fmem {0x400000..<0x400000 + 0x4000} (vma_at flex_boot) (fmem_at flex_boot)"
    using UnmapMemory_frees [OF flex_boot_mm_wf _ _ a c d] by auto
  have "vma_at s' 0x400100 = Some free_info" unfolding s'(3) by (simp add: unmap_view_def flex_boot_vma)
  moreover have "fmem_at s' (7936 * MB1 + 0x100) = Some (7936 * MB1 + 0x100, 0, PFree)"
    unfolding s'(4) unmap_fmem_def using b by simp
  ultimately show ?thesis using s' v by blast
qed

text \<open>A state with one direct mapping of 16 KB, for concrete evaluations.\<close>

definition direct_boot :: MemoryManager where
  "direct_boot = boot\<lparr>
     vma_map := [(0x400000, \<lparr>v_base = 0x400000, v_size = 0x4000, phys_areas = [(0, \<lparr>p_base = 0, p_size = 0x4000,
         memory_type = 3, dma_type = Mapped\<rparr>)], vtype = Direct, prot = 3, vname = ''d'', fd = 0, disallow_merge = False\<rparr>),
       (0x404000, free_vma 0x404000 0x1fffbfc000)],
     dmem_map := [(0, \<lparr>p_base = 0, p_size = 0x4000, memory_type = 3, dma_type = Mapped\<rparr>),
       (0x4000, free_phys 0x4000 0x1efffc000)]\<rparr>"

lemma direct_boot_mm_wf: "mm_wf direct_boot"
proof -
  have e: "flex_addrs (vma_at direct_boot) = {}" "flex_used (fmem_at direct_boot) = {}"
    by (auto simp: flex_addrs_def flex_used_def direct_boot_def boot_eval free_vma_def vma_cell_def free_phys_def
        phys_cell_def split: if_splits)
  have "flex_ok (vma_at direct_boot) (fmem_at direct_boot)"
    unfolding flex_ok_def e by (auto simp: direct_boot_def boot_eval free_phys_def phys_cell_def flex_free_def bij_betw_def
        split: if_splits)
  then show ?thesis
    unfolding mm_wf_def e
    by (auto simp: direct_boot_def phys_cell_def dmem_wf_def boot_eval free_vma_def free_phys_def at_base_def vma_ok_def HasPhysicalBacking_def
        vma_cell_def free_info_def split: if_splits)
qed

lemma direct_boot_unmaps: "\<exists>y. UnmapMemory 0x400000 0x4000 direct_boot = Some (0, y)"
  by (simp add: UnmapMemory_def Let_def AlignUp_def AlignDown_def assert_valid_def IsValidMapping_def UnmapMemoryImpl.simps [of "0x400000" "0x4000"]
   direct_boot_def boot_eval FindVMA_def free_vma_def add64_def Contains_def entries_from_def
   IsValidGpuMapping_def emit_if_def BeginMutation_def UnmapBytesFromEntry_def sub64_def release_region_def
   set_phys_def CarvePhysArea_def carve_area_def split_area_def MergeAdjacent_phys_def merge_areas_def join_next_def join_prev_def
   set_vma_def CarveVMA_def MergeAdjacent_vma_def CanMergeWith_def phys_CanMergeWith_def free_phys_def free_area_def FinishMutation_def emit_def IsFree_def IsMapped_def erase_def vma_join_def phys_join_def)

lemma UnmapMemory_direct_spec:
  assumes "mm_wf s" "0 < len" "len + KB16 \<le> two64"
    and "n = AlignUp len KB16" "b = AlignDown addr KB16"
    and "covered (vma_map s) b n" "UnmapMemory addr len s = Some (r, s')"
  shows "r = ORBIS_OK \<and> mm_wf s' \<and> impl s' = impl s \<and> mapping_generation s' = mapping_generation s + 2 \<and>
    vma_at s' = unmap_view {b..<b + n} (vma_at s) \<and>
    (\<forall>p. dmem_at s' p = (if p \<in> backs (vma_at s) Direct {b..<b + n}
                        then with_use Allocated (dmem_at s p) else dmem_at s p))"
proof -
  have n: "0 < n" using AlignUp_ge [OF assms(3)] assms(2,4) by simp
  let ?s1 = "BeginMutation (emit_if (IsValidGpuMapping b n) (GpuUnmap b n) s)"
  note run = UnmapMemory_run [OF assms(1,2,4,5) n assms(6)]
  have wf1: "mm_wf ?s1" and c1: "covered (vma_map ?s1) b n" using assms by simp_all
  obtain s2 where r: "UnmapMemoryImpl b n ?s1 = Some (r, s2)" "s' = FinishMutation s2"
    using assms(7) unfolding run by (auto simp: bind_iff)
  from UnmapMemoryImpl_unmaps(1) [OF wf1 c1 n r(1)] r(2) show ?thesis
    by (auto simp: unmapped_def unmap_dmem_def same_frame_def)
qed

text \<open>
  C23. Unmapping a direct mapping, when it does not stop the emulator: exactly the direct memory
  behind the range returns to the allocated state, keeping its memory type, and the range is free.
\<close>

theorem UnmapMemory_direct:
  assumes "mm_wf s" "0 < len" "len + KB16 \<le> two64"
    and "n = AlignUp len KB16" "b = AlignDown addr KB16"
    and "covered (vma_map s) b n" "UnmapMemory addr len s = Some (r, s')"
  shows "r = ORBIS_OK \<and> mm_wf s' \<and> impl s' = impl s \<and> mapping_generation s' = mapping_generation s + 2 \<and>
    vma_at s' = unmap_view {b..<b + n} (vma_at s) \<and>
    (\<forall>p. dmem_at s' p = (if p \<in> backs (vma_at s) Direct {b..<b + n}
                        then with_use Allocated (dmem_at s p) else dmem_at s p))"
  using assms by (rule UnmapMemory_direct_spec)

theorem UnmapMemory_direct_witness:
  "\<exists>s'. UnmapMemory 0x400000 0x4000 direct_boot = Some (ORBIS_OK, s') \<and> mm_wf s' \<and>
    dmem_at s' 0x100 = Some (0x100, 3, Allocated)"
proof -
  obtain s' where s': "UnmapMemory 0x400000 0x4000 direct_boot = Some (0, s')" using direct_boot_unmaps by blast
  have a: "(0x4000::nat) = AlignUp 0x4000 KB16" "(0x400000::nat) = AlignDown 0x400000 KB16"
    by (simp_all add: AlignUp_def AlignDown_def)
  have c: "covered (vma_map direct_boot) 0x400000 0x4000"
    by (auto simp: covered_def direct_boot_def free_vma_def)
  have b: "0x100 \<in> backs (vma_at direct_boot) Direct {0x400000..<0x400000 + 0x4000}"
    by (auto simp: backs_def direct_boot_def phys_cell_def intro!: bexI [of _ "0x400100"])
  have v: "dmem_at direct_boot 0x100 = Some (0x100, 3, Mapped)" by (simp add: direct_boot_def phys_cell_def)
  show ?thesis
    using UnmapMemory_direct [OF direct_boot_mm_wf _ _ a c s'] s' b v by (simp add: with_use_def)
qed

section \<open>Releasing direct memory\<close>

lemma free_list_checked:
  assumes "phys_wf k ((k, a) # m)"
    "\<forall>x. k \<le> x \<and> x < phys_end k ((k, a) # m) \<longrightarrow> phys_content ((k, a) # m) x \<noteq> None"
    "c = max phys k" "c < k + p_size a" "c + rem \<le> phys_end k ((k, a) # m)"
    "phys_end k ((k, a) # m) < two64"
  shows "case free_list_loop True phys ((k, a) # m) rem of
      Inl e \<Rightarrow> e = KERNEL_ENOENT \<and> (\<exists>x t. c \<le> x \<and> x < c + rem \<and> phys_content ((k, a) # m) x = Some (x, t, PFree))
    | Inr l \<Rightarrow> (\<forall>x t. c \<le> x \<and> x < c + rem \<longrightarrow> phys_content ((k, a) # m) x \<noteq> Some (x, t, PFree)) \<and>
        (\<forall>(q, n) \<in> set l. 0 < n \<and> one_area p_size ((k, a) # m) q n) \<and>
        (\<Union>(q, n) \<in> set l. {q..<q + n}) = {c..<c + rem} \<and>
        sorted_wrt (\<lambda>(q, n) (q', n'). q + n \<le> q') l"
  using assms
proof (induction m arbitrary: k a c rem)
  case Nil
  have sub: "sub64 (p_size a) (c - k) = p_size a - (c - k)" using Nil.prems by (intro sub64_exact) auto
  have pb: "p_base a = k" using Nil.prems(1) by (simp add: at_base_def)
  have ck: "k \<le> c" using Nil.prems(3) by simp
  have con: "phys_content [(k, a)] x = (if k \<le> x \<and> x < k + p_size a then Some (x, memory_type a, dma_type a) else None)" for x
    using pb by (simp add: phys_cell_def)
  have le: "c + rem \<le> k + p_size a" using Nil.prems(5) by simp
  show ?case
  proof (cases "rem = 0")
    case False
    show ?thesis
    proof (cases "dma_type a = PFree")
      case True
      then show ?thesis using False con Nil.prems ck by (auto intro!: exI [of _ c])
    next
      case nf: False
      have "free_list_loop True phys [(k, a)] rem = Inr [(c, rem)]"
      proof -
        have "min rem (p_size a - (c - k)) = rem" using le ck by linarith
        then show ?thesis using False nf by (simp add: Let_def Nil.prems(3) [symmetric] sub)
      qed
      moreover have "phys_content [(k, a)] x \<noteq> Some (x, t, PFree)" for x t
        unfolding con using nf by simp
      moreover have "one_area p_size [(k, a)] c rem" using le ck by (intro one_areaI [of k a]) auto
      ultimately show ?thesis using False
        by (simp del: content.simps free_list_loop.simps)
    qed
  qed auto
next
  case (Cons e m)
  obtain n b where e: "e = (n, b)" by (cases e)
  have sub: "sub64 (p_size a) (c - k) = p_size a - (c - k)"
    using areas_wf_below [OF Cons.prems(1), of k a] Cons.prems by (intro sub64_exact) auto
  have pb: "p_base a = k" using Cons.prems(1) by (simp add: at_base_def)
  have ck: "k \<le> c" using Cons.prems(3) by simp
  have wf: "phys_wf n ((n, b) # m)" and pos: "0 < p_size b" using Cons.prems(1) e by auto
  have nle: "n + p_size b \<le> phys_end k ((k, a) # e # m)"
    using areas_wf_below [OF Cons.prems(1), of n b] e by simp
  have kn: "k + p_size a \<le> n" using Cons.prems(1) e by simp
  have "phys_content ((k, a) # e # m) (k + p_size a) \<noteq> None"
    using Cons.prems(2) [rule_format, of "k + p_size a"] nle kn pos by linarith
  then have n: "n = k + p_size a" using no_gap [of k a n b m] Cons.prems(1) e by simp
  have skip: "phys_content ((k, a) # e # m) x = phys_content ((n, b) # m) x" if "n \<le> x" for x
    using content_skip [of k p_size a x] that n e by metis
  have head: "phys_content ((k, a) # e # m) x = Some (x, memory_type a, dma_type a)" if "k \<le> x" "x < n" for x
    using that n pb by (simp add: phys_cell_def)
  define sz where "sz = min rem (p_size a - (c - k))"
  have sz: "sz < rem \<Longrightarrow> c + sz = n" "c + sz \<le> n" "sz \<le> rem" using ck Cons.prems(4) n by (auto simp: sz_def)
  show ?case
  proof (cases "rem = 0")
    case True
    then show ?thesis by auto
  next
    case r0: False
    then have sz0: "0 < sz" using ck Cons.prems(4) by (simp add: sz_def)
    show ?thesis
    proof (cases "dma_type a = PFree")
      case True
      then show ?thesis using r0 head [of c] ck Cons.prems(4) n by (auto intro!: exI [of _ c] simp del: content.simps)
    next
      case nf: False
      have cov: "\<forall>x. n \<le> x \<and> x < phys_end n ((n, b) # m) \<longrightarrow> phys_content ((n, b) # m) x \<noteq> None"
      proof (intro allI impI)
        fix x assume x: "n \<le> x \<and> x < phys_end n ((n, b) # m)"
        then have "phys_content ((k, a) # e # m) x \<noteq> None"
          using Cons.prems(2) [rule_format, of x] n e by simp
        then show "phys_content ((n, b) # m) x \<noteq> None" using skip x by metis
      qed
      have mx: "n = max phys n" using Cons.prems(3,4) n by simp
      have le: "n + (rem - sz) \<le> phys_end n ((n, b) # m)"
      proof (cases "sz < rem")
        case True
        then show ?thesis using sz(1) Cons.prems(5) e n by simp
      next
        case False
        then show ?thesis using areas_wf_lo_le_end [OF wf] by simp
      qed
      have en: "phys_end n ((n, b) # m) < two64" using Cons.prems(6) e by simp
      have lt: "n < n + p_size b" using pos by simp
      note IH = Cons.IH [OF wf cov mx lt le en]
      have st: "free_list_loop True phys ((k, a) # e # m) rem =
          (case free_list_loop True phys ((n, b) # m) (rem - sz) of Inl x \<Rightarrow> Inl x | Inr l \<Rightarrow> Inr ((c, sz) # l))"
        unfolding e using r0 nf
        by (simp add: Let_def sz_def Cons.prems(3) [symmetric] sub
            del: free_list_loop.simps(2) add: free_list_loop.simps(2) [of _ _ k a] split: sum.split)
      have c1: "one_area p_size ((k, a) # e # m) c sz" using sz(2) n ck by (intro one_areaI [of k a]) auto
      have mono: "one_area p_size ((n, b) # m) q x \<Longrightarrow> one_area p_size ((k, a) # e # m) q x" for q x
        unfolding one_area_def e by auto
      show ?thesis
      proof (cases "free_list_loop True phys ((n, b) # m) (rem - sz)")
        case (Inl x)
        with IH obtain y t where y: "x = KERNEL_ENOENT" "n \<le> y" "y < n + (rem - sz)"
          "phys_content ((n, b) # m) y = Some (y, t, PFree)" by auto
        then have "c \<le> y" "y < c + rem" using sz by linarith+
        moreover have "phys_content ((k, a) # e # m) y = Some (y, t, PFree)" using y(2,4) skip by simp
        ultimately show ?thesis unfolding st Inl using y(1) by (auto simp del: content.simps)
      next
        case (Inr l)
        with IH have l: "\<forall>x t. n \<le> x \<and> x < n + (rem - sz) \<longrightarrow> phys_content ((n, b) # m) x \<noteq> Some (x, t, PFree)"
          "\<forall>(q, y) \<in> set l. 0 < y \<and> one_area p_size ((n, b) # m) q y"
          "(\<Union>(q, y) \<in> set l. {q..<q + y}) = {n..<n + (rem - sz)}"
          "sorted_wrt (\<lambda>(q, n) (q', n'). q + n \<le> q') l" by auto
        have "phys_content ((k, a) # e # m) x \<noteq> Some (x, t, PFree)" if "c \<le> x" "x < c + rem" for x t
        proof (cases "x < n")
          case True
          then show ?thesis using head [of x] that ck nf by simp
        next
          case False
          moreover have "x < n + (rem - sz)" using that False sz by linarith
          ultimately show ?thesis using l(1) skip [of x] by simp
        qed
        then have A: "\<forall>x t. c \<le> x \<and> x < c + rem \<longrightarrow> phys_content ((k, a) # e # m) x \<noteq> Some (x, t, PFree)"
          by blast
        have B: "\<forall>(q, y) \<in> set ((c, sz) # l). 0 < y \<and> one_area p_size ((k, a) # e # m) q y"
          using l(2) c1 sz0 mono by auto
        have "{c..<c + sz} \<union> {n..<n + (rem - sz)} = {c..<c + rem}"
        proof (cases "sz < rem")
          case True
          then have "n + (rem - sz) = c + rem" "c + sz = n" using sz by linarith+
          then show ?thesis by auto
        qed (use sz(3) in auto)
        then have C: "(\<Union>(q, y) \<in> set ((c, sz) # l). {q..<q + y}) = {c..<c + rem}"
          using l(3) by simp
        have "c + sz \<le> q" if "(q, y) \<in> set l" for q y
        proof -
          have "0 < y" using l(2) that by auto
          then have "q \<in> (\<Union>(q, y) \<in> set l. {q..<q + y})" using that by fastforce
          then show ?thesis using sz(2) unfolding l(3) by simp
        qed
        then have D: "sorted_wrt (\<lambda>(q, n) (q', n'). q + n \<le> q') ((c, sz) # l)" using l(4) by auto
        show ?thesis unfolding st Inr sum.case by (intro conjI A B C D)
      qed
    qed
  qed
qed

lemma mappings_of_covered:
  assumes wf: "vma_wf 0 m" and v: "(k, v) \<in> set m" "(b, n) \<in> set (mappings_of phys len v)" "0 < len"
    and r: "phys + len < two64"
  shows "0 < n \<and> covered m b n \<and> (\<exists>a i p t d. vma_content m a = Some i \<and> i_type i = Direct \<and>
    i_phys i = Some (p, t, d) \<and> phys \<le> p \<and> p < phys + len)"
proof -
  have add: "add64 phys len = phys + len" using r by (rule add64_exact)
  have okv: "vma_ok k v" using areas_wf_mem [OF wf v(1)] by simp
  have ty: "vtype v = Direct" using v(2) by (auto simp: mappings_of_def split: if_splits)
  have t: "tiles 0 (phys_areas v) (v_size v)" and base: "v_base v = k"
    using okv ty by (auto simp: vma_ok_def HasPhysicalBacking_def)
  obtain off pm where pm: "(off, pm) \<in> set (phys_areas v)" "phys + len > p_base pm"
    "phys < p_base pm + p_size pm" "b = k + off + (max (p_base pm) phys - p_base pm)"
    "n = min (p_size pm - (max (p_base pm) phys - p_base pm)) len"
    using v(2) ty add base by (auto simp: mappings_of_def Let_def)
  have le: "off + p_size pm \<le> v_size v"
    using areas_wf_below [OF tiles_wf [OF t] pm(1)] tiles_end [OF t] by simp
  define po where "po = max (p_base pm) phys - p_base pm"
  have po: "po < p_size pm" using pm(3) areas_wf_mem [OF tiles_wf [OF t] pm(1)] by (auto simp: po_def)
  have n: "0 < n" "n \<le> p_size pm - po" "b = k + off + po" using pm v(3) po by (auto simp: po_def)
  have "covered m b n"
    unfolding covered_def
  proof (intro allI impI)
    fix a assume "b \<le> a \<and> a < b + n"
    then have "k \<le> a" "a < k + v_size v" using n le po by linarith+
    then show "vma_content m a \<noteq> None" using content_mem [OF wf v(1), of a vma_cell] by simp
  qed
  moreover have "phys_content (phys_areas v) (off + po) = Some (p_base pm + po, memory_type pm, dma_type pm)"
    using content_mem [OF tiles_wf [OF t] pm(1), of "off + po" phys_cell] po by (simp add: phys_cell_def)
  then have "vma_content m (k + (off + po)) = Some (vma_cell v (off + po)) \<and>
      i_phys (vma_cell v (off + po)) = Some (p_base pm + po, memory_type pm, dma_type pm)"
    using content_mem [OF wf v(1), of "k + (off + po)" vma_cell] le po by simp
  moreover have "phys \<le> p_base pm + po \<and> p_base pm + po < phys + len"
    using pm(2) v(3) by (auto simp: po_def)
  ultimately show ?thesis using n(1) ty by (metis vma_cell_sel(1))
qed

lemma unmap_all_spec:
  assumes "mm_wf s" "\<forall>(b, n) \<in> set l. 0 < n \<and> covered (vma_map s) b n" "unmap_all l s = Some s'"
  shows "mm_wf s' \<and> total_direct_size s' = total_direct_size s \<and>
    mapping_generation s' = mapping_generation s \<and>
    (\<forall>p. dmem_at s' p = dmem_at s p \<or> dmem_at s' p = with_use Allocated (dmem_at s p))"
  using assms
proof (induction l arbitrary: s)
  case (Cons x l)
  obtain b n where x: "x = (b, n)" by (cases x)
  from Cons.prems(3) x obtain r s1 where r: "UnmapMemoryImpl b n s = Some (r, s1)" "unmap_all l s1 = Some s'"
    by (auto simp: bind_iff)
  have bn: "covered (vma_map s) b n" "0 < n" using Cons.prems(2) x by auto
  have u: "unmapped {b..<b + n} s s1" using UnmapMemoryImpl_unmaps(1) [OF Cons.prems(1) bn r(1)] by simp
  have wf1: "mm_wf s1" using u by (simp add: unmapped_def)
  have c1: "\<forall>(b, n) \<in> set l. 0 < n \<and> covered (vma_map s1) b n"
    using Cons.prems(2) unmapped_covered [OF u] by auto
  note IH = Cons.IH [OF wf1 c1 r(2)]
  have "dmem_at s1 p = dmem_at s p \<or> dmem_at s1 p = with_use Allocated (dmem_at s p)" for p
    using u by (simp add: unmapped_def unmap_dmem_def)
  then have "dmem_at s' p = dmem_at s p \<or> dmem_at s' p = with_use Allocated (dmem_at s p)" for p
    using IH by (metis with_use_idem)
  then show ?case using IH u by (simp add: unmapped_def same_frame_def)
qed simp

lemma release_all_partial:
  assumes "mm_wf s" "\<forall>(b, n) \<in> set l. 0 < n" "release_all l s = Some s'"
  shows "mm_wf s' \<and> total_direct_size s' = total_direct_size s \<and> vma_map s' = vma_map s \<and>
    fmem_map s' = fmem_map s \<and> mapping_generation s' = mapping_generation s \<and>
    (\<forall>p. dmem_at s' p = (if p \<in> (\<Union>(q, n) \<in> set l. {q..<q + n}) then Some (p, 0, PFree) else dmem_at s p))"
  using assms
proof (induction l arbitrary: s)
  case (Cons x l)
  obtain b n where x: "x = (b, n)" by (cases x)
  let ?f = "\<lambda>a. a\<lparr>dma_type := PFree, memory_type := 0\<rparr>"
  from Cons.prems(3) x obtain w h dm where r: "set_phys (dmem_map s) b n ?f = Some (w, h, dm)"
    "release_all l (s\<lparr>dmem_map := dm\<rparr>) = Some s'" by (auto simp: bind_iff)
  have n: "0 < n" using Cons.prems(2) x by auto
  note W = mm_wfD [OF Cons.prems(1)]
  have wfd: "phys_wf 0 (dmem_map s)" using W(4) by (simp add: dmem_wf_def)
  obtain k v where kv: "find_le b (dmem_map s) = Some k" "map_of (dmem_map s) k = Some v" "b - k + n \<le> p_size v"
    using r(1) by (rule set_phys_SomeD)
  have le: "b + n \<le> k + p_size v" using kv find_le_Some [OF kv(1)] by linarith
  obtain w2 h2 m2 where s: "set_phys (dmem_map s) b n ?f = Some (w2, h2, m2)" "phys_wf 0 m2"
    "phys_end 0 m2 = phys_end 0 (dmem_map s)" "phys_content m2 = phys_rewrite b n 0 PFree (dmem_at s)"
  proof (rule set_phys_correct [OF wfd kv(1,2) n le, of ?f 0 PFree])
  qed (use that in auto)
  have m2: "m2 = dm" using s(1) r(1) by simp
  have "dmem_wf (s\<lparr>dmem_map := dm\<rparr>)"
    by (rule dmem_wf_rewrite [OF W(4) s(2,3,4)]) (simp_all add: m2)
  then have wf1: "mm_wf (s\<lparr>dmem_map := dm\<rparr>)" using Cons.prems(1) by (simp add: mm_wf_def)
  have "\<forall>(b, n) \<in> set l. 0 < n" using Cons.prems(2) by simp
  from Cons.IH [OF wf1 this r(2)] show ?case
    using s(4) x unfolding m2 by (auto simp: phys_rewrite_def)
qed simp

lemma release_all_total:
  assumes "mm_wf s" "\<forall>(b, n) \<in> set l. 0 < n \<and> one_area p_size (dmem_map s) b n"
    "sorted_wrt (\<lambda>(q, n) (q', n'). q + n \<le> q') l"
  shows "release_all l s \<noteq> None"
  using assms
proof (induction l arbitrary: s)
  case (Cons x l)
  obtain b n where x: "x = (b, n)" by (cases x)
  let ?f = "\<lambda>a. a\<lparr>dma_type := PFree, memory_type := 0\<rparr>"
  note W = mm_wfD [OF Cons.prems(1)]
  have wfd: "phys_wf 0 (dmem_map s)" using W(4) by (simp add: dmem_wf_def)
  have n: "0 < n" "one_area p_size (dmem_map s) b n" using Cons.prems(2) x by auto
  obtain k v where kv: "find_le b (dmem_map s) = Some k" "map_of (dmem_map s) k = Some v" "b + n \<le> k + p_size v"
    by (rule one_area_find [OF wfd n(2,1)])
  obtain w2 h2 m2 where s: "set_phys (dmem_map s) b n ?f = Some (w2, h2, m2)" "phys_wf 0 m2"
    "phys_end 0 m2 = phys_end 0 (dmem_map s)" "phys_content m2 = phys_rewrite b n 0 PFree (dmem_at s)"
  proof (rule set_phys_correct [OF wfd kv(1,2) n(1) kv(3), of ?f 0 PFree])
  qed (use that in auto)
  have "dmem_wf (s\<lparr>dmem_map := m2\<rparr>)"
    by (rule dmem_wf_rewrite [OF W(4) s(2,3,4)]) simp_all
  then have wf1: "mm_wf (s\<lparr>dmem_map := m2\<rparr>)" using Cons.prems(1) by (simp add: mm_wf_def)
  have "one_area p_size m2 q y" if "(q, y) \<in> set l" for q y
    by (rule set_phys_one_area [OF wfd kv(1,2) n(1) kv(3) _ _ s(1)])
      (use Cons.prems(2,3) that x in auto)
  then have "\<forall>(q, y) \<in> set l. 0 < y \<and> one_area p_size (dmem_map (s\<lparr>dmem_map := m2\<rparr>)) q y"
    using Cons.prems(2) by auto
  from Cons.IH [OF wf1 this] Cons.prems(3) have "release_all l (s\<lparr>dmem_map := m2\<rparr>) \<noteq> None" by simp
  then show ?case using s(1) x by simp
qed simp

lemma fold_emit:
  "\<exists>es. fold (\<lambda>(addr, n). emit_if (c addr n) (e addr n)) l s = s\<lparr>effects := es\<rparr>"
proof (induction l arbitrary: s)
  case Nil
  then show ?case by (intro exI [of _ "effects s"]) simp
next
  case (Cons x l)
  obtain addr n where x: "x = (addr, n)" by (cases x)
  obtain es where "fold (\<lambda>(addr, n). emit_if (c addr n) (e addr n)) l (emit_if (c addr n) (e addr n) s)
      = (emit_if (c addr n) (e addr n) s)\<lparr>effects := es\<rparr>" using Cons by blast
  moreover have "(emit_if (c addr n) (e addr n) s)\<lparr>effects := es\<rparr> = s\<lparr>effects := es\<rparr>"
    by (simp add: emit_if_def emit_def)
  ultimately show ?case using x by (intro exI [of _ es]) simp
qed

lemma Free_checked_spec:
  assumes "mm_wf s" "0 < len" "addr + len \<le> total_direct_size s"
  shows "case Free addr len True s of
      None \<Rightarrow> \<exists>a i p t d. vma_at s a = Some i \<and> i_type i = Direct \<and> i_phys i = Some (p, t, d) \<and>
        addr \<le> p \<and> p < addr + len
    | Some (r, s') \<Rightarrow>
        if \<exists>a t. addr \<le> a \<and> a < addr + len \<and> dmem_at s a = Some (a, t, PFree)
        then r = KERNEL_ENOENT \<and> s' = s
        else r = ORBIS_OK \<and> mm_wf s' \<and> mapping_generation s' = mapping_generation s + 2 \<and>
          (\<forall>a. addr \<le> a \<and> a < addr + len \<longrightarrow> dmem_at s' a = Some (a, 0, PFree)) \<and>
          (\<forall>a. \<not> (addr \<le> a \<and> a < addr + len) \<longrightarrow>
            dmem_at s' a = dmem_at s a \<or> dmem_at s' a = with_use Allocated (dmem_at s a))"
proof -
  note W = mm_wfD [OF assms(1)]
  have tot: "total_direct_size s < 2 ^ 62" using W(4) by (simp add: dmem_wf_def)
  have add: "add64 addr len = addr + len" using assms(3) tot by (intro add64_exact) simp
  have lt: "addr < total_direct_size s" using assms by linarith
  obtain xs k a ys where m: "dmem_map s = xs @ (k, a) # ys" and k: "find_le addr (dmem_map s) = Some k"
    "k \<le> addr" "addr < k + p_size a" "\<forall>e \<in> set xs. fst e < k"
    by (rule dmem_find [OF W(4) lt])
  have wfd: "phys_wf 0 (xs @ (k, a) # ys)" "phys_end 0 (xs @ (k, a) # ys) = total_direct_size s"
    using W(4) m by (auto simp: dmem_wf_def)
  note w = areas_wf_mid [OF wfd(1)]
  have ef: "entries_from k (dmem_map s) = (k, a) # ys" unfolding m by (rule entries_from_mid [OF k(4)])
  have wfk: "phys_wf k ((k, a) # ys)" and endk: "phys_end k ((k, a) # ys) = total_direct_size s"
    using w(3,4,5) wfd(2) by (auto simp: areas_end_append)
  have tail: "dmem_at s x = phys_content ((k, a) # ys) x" if "k \<le> x" for x
    unfolding m using content_mid [OF wfd(1), of phys_cell x] that by simp
  have cov: "\<forall>x. k \<le> x \<and> x < phys_end k ((k, a) # ys) \<longrightarrow> phys_content ((k, a) # ys) x \<noteq> None"
    using W(4) tail unfolding dmem_wf_def endk by metis
  have mx: "addr = max addr k" using k(2) by simp
  have e1: "addr + len \<le> phys_end k ((k, a) # ys)" "phys_end k ((k, a) # ys) < two64"
    using endk assms(3) tot by auto
  note L = free_list_checked [OF wfk cov mx k(3) e1]
  let ?rl = "concat (map (\<lambda>(_, v). mappings_of addr len v) (vma_map s))"
  let ?s1 = "BeginMutation (fold (\<lambda>(addr, n). emit_if (IsValidGpuMapping addr n) (GpuUnmap addr n)) ?rl s)"
  have un: "Free addr len True s =
      (case free_list_loop True addr ((k, a) # ys) len of
         Inl e \<Rightarrow> Some (e, s)
       | Inr l \<Rightarrow> do { s2 \<leftarrow> unmap_all ?rl ?s1; s3 \<leftarrow> release_all l s2; Some (ORBIS_OK, FinishMutation s3) })"
    unfolding Free_def Let_def using add assms(3) lt k(1) ef by (simp del: free_list_loop.simps)
  have s1: "mm_wf ?s1" "vma_map ?s1 = vma_map s" "dmem_map ?s1 = dmem_map s"
    "total_direct_size ?s1 = total_direct_size s" "mapping_generation ?s1 = mapping_generation s + 1"
  proof -
    obtain es where "fold (\<lambda>(addr, n). emit_if (IsValidGpuMapping addr n) (GpuUnmap addr n)) ?rl s
        = s\<lparr>effects := es\<rparr>" using fold_emit by blast
    then show "mm_wf ?s1" "vma_map ?s1 = vma_map s" "dmem_map ?s1 = dmem_map s"
      "total_direct_size ?s1 = total_direct_size s" "mapping_generation ?s1 = mapping_generation s + 1"
      using assms(1) by (simp_all add: mm_wf_def dmem_wf_def)
  qed
  have free_iff: "(\<exists>x t. addr \<le> x \<and> x < addr + len \<and> phys_content ((k, a) # ys) x = Some (x, t, PFree)) =
      (\<exists>a t. addr \<le> a \<and> a < addr + len \<and> dmem_at s a = Some (a, t, PFree))"
  proof -
    have "phys_content ((k, a) # ys) x = dmem_at s x" if "addr \<le> x" for x
      using tail [of x] k(2) that by simp
    then show ?thesis by (metis (no_types))
  qed
  show ?thesis
  proof (cases "free_list_loop True addr ((k, a) # ys) len")
    case (Inl e)
    then show ?thesis using un L free_iff by auto
  next
    case (Inr l)
    from L [unfolded Inr sum.case] have l: "\<not> (\<exists>a t. addr \<le> a \<and> a < addr + len \<and> dmem_at s a = Some (a, t, PFree))"
      "\<forall>(q, n) \<in> set l. 0 < n \<and> one_area p_size ((k, a) # ys) q n"
      "(\<Union>(q, n) \<in> set l. {q..<q + n}) = {addr..<addr + len}"
      "sorted_wrt (\<lambda>(q, n) (q', n'). q + n \<le> q') l"
      unfolding free_iff [symmetric] by blast+
    have one: "\<forall>(q, n) \<in> set l. 0 < n \<and> one_area p_size (dmem_map s) q n"
      using l(2) unfolding one_area_def m by fastforce
    have sz: "addr + len < two64" using assms(3) tot by simp
    have rl: "0 < n \<and> covered (vma_map s) b n \<and> (\<exists>a i p t d. vma_at s a = Some i \<and> i_type i = Direct \<and>
        i_phys i = Some (p, t, d) \<and> addr \<le> p \<and> p < addr + len)" if bn: "(b, n) \<in> set ?rl" for b n
    proof -
      obtain k v where "(k, v) \<in> set (vma_map s)" "(b, n) \<in> set (mappings_of addr len v)"
        using bn by auto
      then show ?thesis by (rule mappings_of_covered [OF W(1) _ _ assms(2) sz])
    qed
    then have rl1: "\<forall>(b, n) \<in> set ?rl. 0 < n \<and> covered (vma_map ?s1) b n" using s1(2) by fastforce
    show ?thesis
    proof (cases "unmap_all ?rl ?s1")
      case None
      then have "?rl \<noteq> []" by (cases ?rl) auto
      then obtain b n where "(b, n) \<in> set ?rl" by (cases ?rl) auto
      with rl un Inr None show ?thesis by (auto simp del: free_list_loop.simps)
    next
      case (Some s2)
      note U = unmap_all_spec [OF s1(1) rl1 Some]
      show ?thesis
      proof (cases "release_all l s2")
        case None
        have "?rl \<noteq> []"
        proof
          assume e: "?rl = []"
          have "s2 = ?s1" using Some by (simp only: e unmap_all.simps option.inject)
          then have "release_all l s2 \<noteq> None"
            using release_all_total [OF s1(1) _ l(4)] one s1(3) by simp
          with None show False by simp
        qed
        then obtain b n where "(b, n) \<in> set ?rl" by (cases ?rl) auto
        with rl un Inr Some None show ?thesis by (auto simp del: free_list_loop.simps)
      next
        case s3: (Some s3)
        have "\<forall>(b, n) \<in> set l. 0 < n" using one by auto
        note R = release_all_partial [OF _ this s3]
        have "Free addr len True s = Some (ORBIS_OK, FinishMutation s3)"
          using un Inr Some s3 by (simp del: free_list_loop.simps)
        then show ?thesis using l(1) R U s1 unfolding l(3) by auto
      qed
    qed
  qed
qed

text \<open>
  C8. A checked release of direct memory.  When a byte of the range is free it reports an error and
  changes nothing.  Otherwise the emulator can stop only if some mapping still refers to the range;
  when it does not, every byte of the range is free with memory type 0, and a byte outside is as
  before or, if a mapping was removed with it, back in the allocated state.
\<close>

theorem Free_checked:
  assumes "mm_wf s" "0 < len" "addr + len \<le> total_direct_size s"
  shows "case Free addr len True s of
      None \<Rightarrow> \<exists>a i p t d. vma_at s a = Some i \<and> i_type i = Direct \<and> i_phys i = Some (p, t, d) \<and>
        addr \<le> p \<and> p < addr + len
    | Some (r, s') \<Rightarrow>
        if \<exists>a t. addr \<le> a \<and> a < addr + len \<and> dmem_at s a = Some (a, t, PFree)
        then r = KERNEL_ENOENT \<and> s' = s
        else r = ORBIS_OK \<and> mm_wf s' \<and> mapping_generation s' = mapping_generation s + 2 \<and>
          (\<forall>a. addr \<le> a \<and> a < addr + len \<longrightarrow> dmem_at s' a = Some (a, 0, PFree)) \<and>
          (\<forall>a. \<not> (addr \<le> a \<and> a < addr + len) \<longrightarrow>
            dmem_at s' a = dmem_at s a \<or> dmem_at s' a = with_use Allocated (dmem_at s a))"
  using assms by (rule Free_checked_spec)

theorem Free_checked_witness:
  "Free 0 0x4000 True boot = Some (KERNEL_ENOENT, boot)"
proof -
  have "\<exists>a t. 0 \<le> a \<and> a < (0::nat) + 0x4000 \<and> dmem_at boot a = Some (a, t, PFree)"
    by (rule exI [of _ 0]) (simp add: boot_eval free_phys_def phys_cell_def)
  moreover have "\<not> (\<exists>a i. vma_at boot a = Some i \<and> i_type i = Direct)"
    by (auto simp: boot_eval free_vma_def split: if_splits)
  ultimately show ?thesis
    using Free_checked [OF boot_mm_wf, of "0x4000" 0]
    by (auto simp: boot_eval split: option.splits prod.splits if_splits)
qed

end
