(* ===== verification/Mapping_Ops.thy ===== *)
theory Mapping_Ops
  imports Unmap
begin

text \<open>
  Mapping in \<open>src/src/core/memory.cpp\<close>: \<open>SearchFree\<close>, \<open>CreateArea\<close>, \<open>MapMemory\<close> and \<open>MapFile\<close>.
  A mapping call returns the error or the address it mapped.
\<close>

section \<open>Searching for a free virtual range\<close>

fun search_free_loop :: "VMAMap \<Rightarrow> u64 \<Rightarrow> u64 \<Rightarrow> u64 \<Rightarrow> u64" where
  "search_free_loop [] len alignment max_search_address = minus_one64"
| "search_free_loop ((k, v) # m) len alignment max_search_address =
     (if \<not> IsFree v then search_free_loop m len alignment max_search_address
      else let virtual_addr = AlignUp (v_base v) alignment in
        if virtual_addr > v_base v + v_size v then search_free_loop m len alignment max_search_address
        else if virtual_addr \<ge> max_search_address then minus_one64
        else if v_base v + v_size v - virtual_addr \<ge> len then virtual_addr
        else search_free_loop m len alignment max_search_address)"

text \<open>
  The alignment parameter of \<open>SearchFree\<close> is 32 bits wide; the callers pass 64 bits.  An alignment
  that is 0 after the truncation divides by zero.
\<close>

definition SearchFree :: "u64 \<Rightarrow> u64 \<Rightarrow> u64 \<Rightarrow> MemoryManager \<Rightarrow> u64 option" where
  "SearchFree virtual_addr0 len alignment0 s =
     (let alignment = alignment0 mod 2 ^ 32;
          min_search_address = SystemManagedVirtualBase (impl s);
          max_search_address = add64 (UserVirtualBase (impl s)) (UserVirtualSize (impl s));
          virtual_addr1 = (if virtual_addr0 < min_search_address \<or> virtual_addr0 \<ge> max_search_address
                           then min_search_address else virtual_addr0);
          virtual_addr = AlignUp virtual_addr1 alignment
      in do {
        ASSERT (alignment \<noteq> 0);
        k \<leftarrow> FindVMA (vma_map s) virtual_addr;
        v \<leftarrow> map_of (vma_map s) k;
        Some (if IsFree v \<and> Contains v virtual_addr len then virtual_addr
              else search_free_loop (tl (entries_from k (vma_map s))) len alignment max_search_address) })"

section \<open>Creating a virtual area\<close>

partial_function (option) create_unmap ::
  "u64 \<Rightarrow> u64 \<Rightarrow> VirtualMemoryArea \<Rightarrow> MemoryManager \<Rightarrow> MemoryManager option" where
  "create_unmap unmap_addr unmap_size vma s =
     (if unmap_size > 0 then do {
        (unmapped, s1) \<leftarrow> UnmapBytesFromEntry unmap_addr vma unmap_size s;
        k \<leftarrow> FindVMA (vma_map s1) (add64 unmap_addr unmapped);
        vma' \<leftarrow> map_of (vma_map s1) k;
        create_unmap (add64 unmap_addr unmapped) (unmap_size - unmapped) vma' s1 }
      else Some s)"

text \<open>Read is appended to write mappings.\<close>

definition append_read :: "MemoryProt \<Rightarrow> MemoryProt" where
  "append_read p = (if True_flag (p AND CpuWrite) then p OR CpuRead else p)"

definition CreateArea ::
  "u64 \<Rightarrow> u64 \<Rightarrow> MemoryProt \<Rightarrow> MemoryMapFlags \<Rightarrow> VMAType \<Rightarrow> string \<Rightarrow> MemoryManager \<Rightarrow>
     (nat \<times> MemoryManager) option" where
  "CreateArea virtual_addr len prot0 flags ty name s = do {
     k \<leftarrow> FindVMA (vma_map s) virtual_addr;
     vma \<leftarrow> map_of (vma_map s) k;
     s1 \<leftarrow> (if True_flag (flags AND MapFixed) then create_unmap virtual_addr len vma s else Some s);
     k1 \<leftarrow> FindVMA (vma_map s1) virtual_addr;
     vma1 \<leftarrow> map_of (vma_map s1) k1;
     ASSERT (IsFree vma1);
     (h, vm) \<leftarrow> CarveVMA (vma_map s1) virtual_addr len;
     v \<leftarrow> map_of vm h;
     Some (h, s1\<lparr>vma_map := put h
       (v\<lparr>disallow_merge := True_flag (flags AND MapNoCoalesce), prot := append_read prot0,
          vname := name, vtype := ty, phys_areas := []\<rparr>) vm\<rparr>) }"

section \<open>Backing a mapping\<close>

text \<open>Adding a physical area to \<open>phys_areas\<close> of the new virtual area, merged with the one before it.\<close>

definition add_phys_area :: "u64 \<Rightarrow> PhysicalMemoryArea \<Rightarrow> PhysMap \<Rightarrow> PhysMap option" where
  "add_phys_area off area pa = map_option snd (MergeAdjacent_phys (put off area pa) off)"

text \<open>
  The loop that finds flexible memory: free areas of \<open>fmem_map\<close> are used in address order until the
  request is covered.  It returns the backing, the size that could not be covered, and the state.
\<close>

partial_function (option) map_flexible ::
  "bool \<Rightarrow> u64 \<Rightarrow> nat option \<Rightarrow> u64 \<Rightarrow> u64 \<Rightarrow> PhysMap \<Rightarrow> MemoryManager \<Rightarrow>
     (PhysMap \<times> u64 \<times> MemoryManager) option" where
  "map_flexible is_exec mapped_addr handle current_addr remaining_size pa s =
     (case handle of
        None \<Rightarrow> Some (pa, remaining_size, s)
      | Some h \<Rightarrow>
          if remaining_size = 0 then Some (pa, remaining_size, s)
          else do {
            a \<leftarrow> map_of (fmem_map s) h;
            (if dma_type a \<noteq> PFree
             then map_flexible is_exec mapped_addr (next_key h (fmem_map s)) current_addr remaining_size pa s
             else do {
               (area, h2, fm) \<leftarrow> set_phys (fmem_map s) (p_base a) (min remaining_size (p_size a))
                                   (\<lambda>a. a\<lparr>dma_type := PFlexible\<rparr>);
               pa' \<leftarrow> add_phys_area (current_addr - mapped_addr) area pa;
               map_flexible is_exec mapped_addr (next_key h2 fm)
                 (current_addr + min remaining_size (p_size a)) (remaining_size - min remaining_size (p_size a)) pa'
                 (emit (AsMap current_addr (min remaining_size (p_size a)) (p_base area) is_exec)
                   (s\<lparr>fmem_map := fm,
                      flexible_usage := add64 (flexible_usage s) (min remaining_size (p_size a))\<rparr>)) }) })"

partial_function (option) map_direct ::
  "u64 \<Rightarrow> u64 \<Rightarrow> u64 \<Rightarrow> PhysMap \<Rightarrow> MemoryManager \<Rightarrow> (PhysMap \<times> MemoryManager) option" where
  "map_direct phys_addr current_phys_addr remaining_size pa s =
     (if remaining_size = 0 then Some (pa, s)
      else do {
        k \<leftarrow> find_le current_phys_addr (dmem_map s);
        a \<leftarrow> map_of (dmem_map s) k;
        (area, _, dm) \<leftarrow> set_phys (dmem_map s) (max current_phys_addr (p_base a))
           (min (sub64 (p_size a) (max current_phys_addr (p_base a) - p_base a)) remaining_size)
           (\<lambda>a. a\<lparr>dma_type := Mapped\<rparr>);
        pa' \<leftarrow> add_phys_area (current_phys_addr - phys_addr) area pa;
        map_direct phys_addr
          (current_phys_addr + min (sub64 (p_size a) (max current_phys_addr (p_base a) - p_base a)) remaining_size)
          (remaining_size - min (sub64 (p_size a) (max current_phys_addr (p_base a) - p_base a)) remaining_size)
          pa' (s\<lparr>dmem_map := dm\<rparr>) })"

text \<open>The check of the direct memory areas that a call refers to; the result is the error, if any.\<close>

fun validate_dmem_areas :: "bool \<Rightarrow> u64 \<Rightarrow> PhysMap \<Rightarrow> s32 option" where
  "validate_dmem_areas validate_dmem end_addr [] = None"
| "validate_dmem_areas validate_dmem end_addr ((k, a) # m) =
     (if p_base a < end_addr
      then if dma_type a \<noteq> Allocated \<and> dma_type a \<noteq> Mapped then Some KERNEL_ENOMEM
           else if validate_dmem \<and> dma_type a = Mapped then Some KERNEL_EBUSY
           else validate_dmem_areas validate_dmem end_addr m
      else None)"

abbreviation DEFAULT_MAPPING_BASE :: u64 where "DEFAULT_MAPPING_BASE \<equiv> 0x200000000"
text \<open>The version is compared with the constant as an unsigned number.\<close>

abbreviation FW_200 :: int where "FW_200 \<equiv> 0x2000000"

text \<open>The choice of the virtual address: the given one when fixed, a free range otherwise.\<close>

definition choose_address ::
  "u64 \<Rightarrow> u64 \<Rightarrow> MemoryMapFlags \<Rightarrow> u64 \<Rightarrow> MemoryManager \<Rightarrow> (s32 + u64) option" where
  "choose_address virtual_addr len flags alignment s =
     (if True_flag (flags AND MapFixed) \<and> True_flag (flags AND MapNoOverwrite) then do {
        assert_valid (vma_map s) virtual_addr len;
        k \<leftarrow> FindVMA (vma_map s) virtual_addr;
        vma \<leftarrow> map_of (vma_map s) k;
        Some (if \<not> IsFree vma \<or> sub64 (v_base vma + v_size vma) virtual_addr < len
              then Inl KERNEL_ENOMEM else Inr virtual_addr) }
      else if \<not> True_flag (flags AND MapFixed) then do {
        r \<leftarrow> SearchFree (if virtual_addr = 0 then DEFAULT_MAPPING_BASE else virtual_addr) len alignment s;
        Some (if r = minus_one64 then Inl KERNEL_ENOMEM else Inr r) }
      else Some (Inr virtual_addr))"

definition check_physical ::
  "u64 \<Rightarrow> u64 \<Rightarrow> bool \<Rightarrow> MemoryManager \<Rightarrow> s32 option option" where
  "check_physical phys_addr len validate_dmem s =
     (if phys_addr = minus_one64 then Some None
      else if total_direct_size s < add64 phys_addr len then Some (Some KERNEL_ENOMEM)
      else do {
        k \<leftarrow> find_le phys_addr (dmem_map s);
        Some (validate_dmem_areas validate_dmem (add64 phys_addr len) (entries_from k (dmem_map s))) })"

text \<open>The part of \<open>MapMemory\<close> under the writer lock, from the chosen address on.\<close>

definition map_at ::
  "u64 \<Rightarrow> u64 \<Rightarrow> MemoryProt \<Rightarrow> MemoryMapFlags \<Rightarrow> VMAType \<Rightarrow> string \<Rightarrow> u64 \<Rightarrow> MemoryManager \<Rightarrow>
     MemoryManager option" where
  "map_at virtual_addr len prot0 flags ty name phys_addr s = do {
     let is_exec = True_flag (prot0 AND CpuExec);
     (h, s1) \<leftarrow> CreateArea virtual_addr len prot0 flags ty name s;
     (pa, s2) \<leftarrow>
       (if ty = Flexible then do {
          (pa, remaining, s2) \<leftarrow> map_flexible is_exec h (begin_key (fmem_map s1)) h len [] s1;
          ASSERT (remaining = 0);
          Some (pa, s2) }
        else if ty = Direct then map_direct phys_addr phys_addr len [] s1
        else Some ([], s1));
     new_vma \<leftarrow> map_of (vma_map s2) h;
     let vm = put h (new_vma\<lparr>phys_areas := pa\<rparr>) (vma_map s2);
     vm2 \<leftarrow> (if ty \<noteq> Direct \<or> sdk_version s2 mod 4294967296 \<ge> FW_200 then map_option snd (MergeAdjacent_vma vm h) else Some vm);
     let s3 = s2\<lparr>vma_map := vm2\<rparr>;
     Some (if ty \<noteq> Reserved \<and> ty \<noteq> PoolReserved
           then emit_if (IsValidGpuMapping h len) (GpuMap h len)
                  (FinishMutation (emit_if (ty \<noteq> Flexible) (AsMap h len phys_addr is_exec) s3))
           else FinishMutation s3) }"

definition MapMemory ::
  "u64 \<Rightarrow> u64 \<Rightarrow> MemoryProt \<Rightarrow> MemoryMapFlags \<Rightarrow> VMAType \<Rightarrow> string \<Rightarrow> bool \<Rightarrow> u64 \<Rightarrow> u64 \<Rightarrow>
     MemoryManager \<Rightarrow> ((s32 + u64) \<times> MemoryManager) option" where
  "MapMemory virtual_addr len prot0 flags ty name validate_dmem phys_addr alignment s =
     (if ty = Flexible \<and> add64 (flexible_usage s) len > total_flexible_size s
      then Some (Inl KERNEL_EINVAL, s)
      else do {
        pe \<leftarrow> check_physical phys_addr len validate_dmem s;
        (case pe of
           Some e \<Rightarrow> Some (Inl e, s)
         | None \<Rightarrow> do {
             ca \<leftarrow> choose_address virtual_addr len flags (if alignment > 0 then alignment else KB16) s;
             (case ca of
                Inl e \<Rightarrow> Some (Inl e, s)
              | Inr addr \<Rightarrow> do {
                  s1 \<leftarrow> map_at addr len prot0 flags ty name phys_addr
                         (BeginMutation (emit_if (IsValidGpuMapping addr len) (GpuUnmap addr len) s));
                  Some (Inr addr, s1) }) }) })"

section \<open>Mapping a file\<close>

text \<open>
  What \<open>MapFile\<close> asks of the file table: for a descriptor, whether the file is a regular one, its
  access mode and its size.  \<open>host_page\<close> is \<open>sysconf(_SC_PAGESIZE)\<close>.
\<close>

record GuestFile =
  is_regular :: bool
  can_write :: bool
  file_size :: u64

definition MapFile ::
  "(s32 \<Rightarrow> GuestFile option) \<Rightarrow> u64 \<Rightarrow> u64 \<Rightarrow> u64 \<Rightarrow> MemoryProt \<Rightarrow> MemoryMapFlags \<Rightarrow> s32 \<Rightarrow> int \<Rightarrow>
     MemoryManager \<Rightarrow> ((s32 + u64) \<times> MemoryManager) option" where
  "MapFile GetFile host_page virtual_addr len prot0 flags fdesc phys_addr s =
     (case GetFile fdesc of
        None \<Rightarrow> Some (Inl KERNEL_EBADF, s)
      | Some file \<Rightarrow>
          if \<not> is_regular file then Some (Inl KERNEL_EBADF, s)
          else let prot1 = append_read prot0;
                   prot2 = (if \<not> can_write file then prot1 AND NOT CpuWrite else prot1) in do {
            ASSERT (\<not> prot2 \<ge> GpuRead);
            let prot3 = (if True_flag (prot2 AND CpuExec) then prot2 AND NOT CpuExec else prot2);
            ca \<leftarrow> choose_address virtual_addr len flags KB16 s;
            (case ca of
               Inl e \<Rightarrow> Some (Inl e, s)
             | Inr addr \<Rightarrow> do {
                 (h, s1) \<leftarrow> CreateArea addr len prot3 flags File ''anon''
                   (BeginMutation (emit_if (IsValidGpuMapping addr len) (GpuUnmap addr len) s));
                 v \<leftarrow> map_of (vma_map s1) h;
                 let s2 = emit (AsMapFile h len phys_addr prot3)
                   (s1\<lparr>vma_map := put h (v\<lparr>fd := fdesc\<rparr>) (vma_map s1)\<rparr>);
                 let file_bytes = (if file_size file > u64_of_int phys_addr
                                   then file_size file - u64_of_int phys_addr else 0);
                 let valid_size = min len (AlignUp file_bytes host_page);
                 let s3 = emit_if (valid_size < len)
                   (AsMap (h + valid_size) (len - valid_size) minus_one64 False) s2;
                 Some (Inr h, FinishMutation s3) }) })"

section \<open>The search for a free range\<close>

lemma search_free_loop_spec:
  assumes "areas_wf v_size vma_ok lo m" "vma_end lo m + al < two64" "0 < al" "0 < len"
  shows "if search_free_loop m len al mx = minus_one64
    then \<forall>(k, v) \<in> set m. IsFree v \<longrightarrow> AlignUp k al < mx \<longrightarrow> \<not> AlignUp k al + len \<le> k + v_size v
    else \<exists>(k, v) \<in> set m. IsFree v \<and> search_free_loop m len al mx = AlignUp k al \<and>
      AlignUp k al + len \<le> k + v_size v \<and> AlignUp k al < mx"
  using assms(1,2)
proof (induction m arbitrary: lo)
  case (Cons e m)
  obtain k v where e: "e = (k, v)" by (cases e)
  have wf: "areas_wf v_size vma_ok (k + v_size v) m" and en: "vma_end (k + v_size v) m + al < two64"
    and ok: "vma_ok k v" using Cons.prems e by (auto simp del: vma_ok_def)
  have b: "v_base v = k" using ok by (simp add: vma_ok_def)
  have kle: "k + v_size v \<le> vma_end lo (e # m)" using areas_wf_below [OF Cons.prems(1), of k v] e by simp
  have al: "k \<le> AlignUp k al" "AlignUp k al < k + al"
    using AlignUp_ge [of k al] AlignUp_less [of k al] assms(3) kle Cons.prems(2) by auto
  note IH = Cons.IH [OF wf en]
  have mono: "AlignUp k al \<le> AlignUp k' al" if "(k', v') \<in> set m" for k' v'
  proof -
    have "k + v_size v \<le> k'" using areas_wf_above [OF wf that] by simp
    moreover have "k' + v_size v' \<le> vma_end lo (e # m)"
      using areas_wf_below [OF Cons.prems(1), of k' v'] that by simp
    ultimately have b: "k \<le> k'" "k' + al \<le> two64" "k + al \<le> two64" using Cons.prems(2) by auto
    show ?thesis
      by (rule AlignUp_least [OF b(3) assms(3) AlignUp_dvd [OF b(2) assms(3)]])
        (use AlignUp_ge [OF b(2) assms(3)] b(1) in linarith)
  qed
  show ?case
  proof (cases "\<not> IsFree v \<or> AlignUp k al > k + v_size v")
    case True
    then have "search_free_loop (e # m) len al mx = search_free_loop m len al mx" using e b by auto
    with IH True e show ?thesis by (auto split: if_splits)
  next
    case False
    show ?thesis
    proof (cases "AlignUp k al \<ge> mx")
      case True
      then have "search_free_loop (e # m) len al mx = minus_one64" using False e b by simp
      moreover have "\<not> AlignUp k' al < mx" if "(k', v') \<in> set m" for k' v' using mono [OF that] True by simp
      ultimately show ?thesis using True e by auto
    next
      case lt: False
      show ?thesis
      proof (cases "k + v_size v - AlignUp k al \<ge> len")
        case True
        then have "search_free_loop (e # m) len al mx = AlignUp k al" using False lt e b by simp
        moreover have "AlignUp k al \<noteq> minus_one64" using al kle Cons.prems(2) False by auto
        ultimately show ?thesis using True False lt e by auto
      next
        case no: False
        then have "search_free_loop (e # m) len al mx = search_free_loop m len al mx"
          using False lt e b by simp
        moreover have "\<not> AlignUp k al + len \<le> k + v_size v" using no by linarith
        ultimately show ?thesis using IH e by (auto split: if_splits)
      qed
    qed
  qed
qed simp

definition free_range :: "VMAMap \<Rightarrow> nat \<Rightarrow> nat \<Rightarrow> bool" where
  "free_range m addr len \<longleftrightarrow> (\<exists>(k, v) \<in> set m. IsFree v \<and> k \<le> addr \<and> addr + len \<le> k + v_size v)"

lemma SearchFree_sound:
  assumes wf: "mm_wf s" and len: "0 < len" "len < 2 ^ 62" and r: "SearchFree hint len al s = Some r" "r \<noteq> minus_one64"
    and h: "hint < 2 ^ 62"
      "add64 (UserVirtualBase (impl s)) (UserVirtualSize (impl s)) < 2 ^ 62" "SystemManagedVirtualBase (impl s) < 2 ^ 62"
  shows "free_range (vma_map s) r len \<and> (al mod 2 ^ 32) dvd r"
proof -
  note W = mm_wfD [OF wf]
  define a where "a = al mod 2 ^ 32"
  define mx where "mx = add64 (UserVirtualBase (impl s)) (UserVirtualSize (impl s))"
  define v1 where "v1 = (if hint < SystemManagedVirtualBase (impl s) \<or> hint \<ge> mx
                           then SystemManagedVirtualBase (impl s) else hint)"
  define va where "va = AlignUp v1 a"
  have a: "0 < a" "a < 2 ^ 32" using r(1) by (auto simp: SearchFree_def Let_def bind_iff a_def)
  have v1: "v1 < 2 ^ 62" using h by (auto simp: v1_def)
  have va: "va < v1 + a" "a dvd va"
    unfolding va_def using v1 a AlignUp_less [of v1 a] AlignUp_dvd [of v1 a] by auto
  obtain k v where kv: "FindVMA (vma_map s) va = Some k" "map_of (vma_map s) k = Some v"
    "r = (if IsFree v \<and> Contains v va len then va
          else search_free_loop (tl (entries_from k (vma_map s))) len a mx)"
    using r(1) by (auto simp: SearchFree_def Let_def bind_iff a_def mx_def va_def v1_def)
  have mem: "(k, v) \<in> set (vma_map s)" using map_of_SomeD kv(2) by fast
  obtain xs ys where m: "vma_map s = xs @ (k, v) # ys" using mem by (meson split_list)
  note w = areas_wf_mid [OF W(1) [unfolded m]]
  have base: "v_base v = k" using w(4) by (simp add: vma_ok_def)
  show ?thesis
  proof (cases "IsFree v \<and> Contains v va len")
    case True
    have "add64 va len = va + len" using va v1 a len by (intro add64_exact) simp
    with True kv mem va(2) base show ?thesis
      unfolding free_range_def a_def by (auto simp: Contains_def)
  next
    case False
    have ef: "tl (entries_from k (vma_map s)) = ys" unfolding m entries_from_mid [OF w(6)] by simp
    have en: "vma_end (k + v_size v) ys + a < two64"
      using W(2) a m by (simp add: areas_end_append)
    have "search_free_loop ys len a mx \<noteq> minus_one64" using kv(3) False ef r(2) by simp
    then obtain k' v' where k': "(k', v') \<in> set ys" "IsFree v'" "search_free_loop ys len a mx = AlignUp k' a"
      "AlignUp k' a + len \<le> k' + v_size v'"
      using search_free_loop_spec [OF w(5) en a(1) len(1), of mx] by auto
    have "k' + v_size v' \<le> vma_end 0 (vma_map s)" using areas_wf_below [OF W(1), of k' v'] k'(1) m by simp
    then have b: "k' + a \<le> two64" using W(2) a by simp
    have "r = AlignUp k' a" using kv(3) False ef k'(3) by simp
    then show ?thesis
      using k' m AlignUp_ge [OF b a(1)] AlignUp_dvd [OF b a(1)] unfolding free_range_def a_def [symmetric]
      by (auto intro!: bexI [of _ "(k', v')"])
  qed
qed

lemma search_free_loop_least:
  assumes "areas_wf v_size vma_ok lo m" "vma_end lo m + al < two64" "0 < al" "0 < len"
    and "(k', v') \<in> set m" "IsFree v'" "AlignUp k' al < mx" "AlignUp k' al + len \<le> k' + v_size v'"
  shows "search_free_loop m len al mx \<le> AlignUp k' al"
  using assms(1,2,5)
proof (induction m arbitrary: lo)
  case (Cons e m)
  obtain k v where e: "e = (k, v)" by (cases e)
  have wf: "areas_wf v_size vma_ok (k + v_size v) m" and en: "vma_end (k + v_size v) m + al < two64"
    and ok: "vma_ok k v" using Cons.prems e by (auto simp del: vma_ok_def)
  have b: "v_base v = k" using ok by (simp add: vma_ok_def)
  have mono: "AlignUp k al \<le> AlignUp k' al"
  proof -
    have "k \<le> k'" using Cons.prems(3) e areas_wf_above [OF wf, of "(k', v')"] by auto
    moreover have "k' + v_size v' \<le> vma_end lo (e # m)"
      using areas_wf_below [OF Cons.prems(1), of k' v'] Cons.prems(3) by simp
    ultimately have b: "k \<le> k'" "k' + al \<le> two64" "k + al \<le> two64" using Cons.prems(2) by auto
    show ?thesis
      by (rule AlignUp_least [OF b(3) assms(3) AlignUp_dvd [OF b(2) assms(3)]])
        (use AlignUp_ge [OF b(2) assms(3)] b(1) in linarith)
  qed
  show ?case
  proof (cases "(k', v') = (k, v)")
    case True
    then show ?thesis using assms(4,6,7,8) e b by (auto simp: Let_def)
  next
    case False
    then have "(k', v') \<in> set m" using Cons.prems(3) e by auto
    then have "search_free_loop m len al mx \<le> AlignUp k' al" by (rule Cons.IH [OF wf en])
    moreover have "\<not> AlignUp k al \<ge> mx" using mono assms(7) by simp
    ultimately show ?thesis using mono e b by (auto simp: Let_def)
  qed
qed simp

text \<open>
  Where a request may be placed: at its own address when that is fixed, and otherwise at an aligned
  address from the hint on that lies below the end of the user area, the aligned hint itself excepted.
\<close>

definition search_start :: "MemoryManager \<Rightarrow> u64 \<Rightarrow> u64 \<Rightarrow> u64" where
  "search_start s hint al =
     AlignUp (if hint < SystemManagedVirtualBase (impl s) \<or>
                 hint \<ge> add64 (UserVirtualBase (impl s)) (UserVirtualSize (impl s))
              then SystemManagedVirtualBase (impl s) else hint) al"

definition search_fits :: "MemoryManager \<Rightarrow> u64 \<Rightarrow> u64 \<Rightarrow> u64 \<Rightarrow> u64 \<Rightarrow> bool" where
  "search_fits s hint len al x \<longleftrightarrow> free_range (vma_map s) x len \<and> al dvd x \<and> search_start s hint al \<le> x \<and>
     (x = search_start s hint al \<or> x < add64 (UserVirtualBase (impl s)) (UserVirtualSize (impl s)))"

text \<open>\<open>SearchFree\<close> finds the least address at which the request fits, and fails only when there is none.\<close>

lemma SearchFree_least:
  assumes wf: "mm_wf s" and len: "0 < len" "len < 2 ^ 62" and r: "SearchFree hint len al s = Some r"
    and h: "hint < 2 ^ 62" "0 < al" "al < 2 ^ 32"
      "add64 (UserVirtualBase (impl s)) (UserVirtualSize (impl s)) < 2 ^ 62" "SystemManagedVirtualBase (impl s) < 2 ^ 62"
  shows "if r = minus_one64 then \<forall>x. \<not> search_fits s hint len al x
    else search_fits s hint len al r \<and> (\<forall>x. search_fits s hint len al x \<longrightarrow> r \<le> x)"
proof -
  note W = mm_wfD [OF wf]
  define mx where "mx = add64 (UserVirtualBase (impl s)) (UserVirtualSize (impl s))"
  define va where "va = search_start s hint al"
  have alm: "al mod 2 ^ 32 = al" using h(3) by simp
  have va: "va < 2 ^ 62 + 2 ^ 32"
    using AlignUp_less [of "if hint < SystemManagedVirtualBase (impl s) \<or> hint \<ge> mx
      then SystemManagedVirtualBase (impl s) else hint" al] h unfolding va_def search_start_def mx_def by auto
  obtain k v where kv: "FindVMA (vma_map s) va = Some k" "map_of (vma_map s) k = Some v"
    "r = (if IsFree v \<and> Contains v va len then va
          else search_free_loop (tl (entries_from k (vma_map s))) len al mx)"
    using r alm by (auto simp: SearchFree_def Let_def bind_iff mx_def va_def search_start_def)
  have find: "find_le va (vma_map s) = Some k" using kv(1) by (simp add: FindVMA_def)
  obtain xs u ys where m: "vma_map s = xs @ (k, u) # ys" "k \<le> va" "\<forall>f \<in> set ys. va < fst f"
    by (rule find_le_split [OF areas_wf_sorted [OF W(1)] find])
  note w = areas_wf_mid [OF W(1) [unfolded m(1)]]
  have uv: "u = v" using kv(2) m(1) map_of_mid [OF w(6)] by simp
  have base: "v_base v = k" using w(4) uv by (simp add: vma_ok_def)
  have ad: "add64 va len = va + len" using va len by (intro add64_exact) simp
  have cont: "Contains v va len \<longleftrightarrow> va + len \<le> k + v_size v" using m(2) base ad by (simp add: Contains_def)
  have ef: "tl (entries_from k (vma_map s)) = ys" unfolding m(1) entries_from_mid [OF w(6)] by simp
  have en: "vma_end (k + v_size v) ys + al < two64" using W(2) h(3) m uv by (simp add: areas_end_append)
  have wfy: "areas_wf v_size vma_ok (k + v_size v) ys" using w(5) uv by simp
  have least: "r \<noteq> minus_one64 \<and> r \<le> x" if x: "search_fits s hint len al x" for x
  proof -
    obtain k' v' where k': "(k', v') \<in> set (vma_map s)" "IsFree v'" "k' \<le> x" "x + len \<le> k' + v_size v'"
      "al dvd x" "va \<le> x" "x = va \<or> x < mx"
      using x by (auto simp: search_fits_def free_range_def va_def mx_def)
    have nin: "(k', v') \<notin> set xs"
    proof
      assume "(k', v') \<in> set xs"
      then have "k' + v_size v' \<le> k" using areas_wf_below [OF w(1)] w(2) by fastforce
      then show False using k'(4,6) m(2) len(1) by linarith
    qed
    show ?thesis
    proof (cases "(k', v') = (k, v)")
      case True
      then have "IsFree v \<and> Contains v va len" using k' cont by auto
      then show ?thesis using kv(3) k'(6) va by simp
    next
      case False
      then have y: "(k', v') \<in> set ys" using nin k'(1) m(1) uv by auto
      then have "va < k'" using m(3) by force
      then have xm: "x < mx" using k'(3,7) by auto
      have "k' + v_size v' \<le> vma_end 0 (vma_map s)" using areas_wf_below [OF W(1) k'(1)] .
      then have b: "k' + al \<le> two64" "x < 2 ^ 62" using W(2) h(3) k'(4) by auto
      have ax: "AlignUp k' al \<le> x" by (rule AlignUp_least [OF b(1) h(2) k'(5,3)])
      have "search_free_loop ys len al mx \<le> AlignUp k' al"
        by (rule search_free_loop_least [OF wfy en h(2) len(1) y k'(2)]) (use ax xm k'(4) in auto)
      then show ?thesis using kv(3) ef ax b(2) k'(6) va by auto
    qed
  qed
  moreover have "search_fits s hint len al r" if nr: "r \<noteq> minus_one64"
  proof -
    have fr: "free_range (vma_map s) r len" "al dvd r" using SearchFree_sound [OF wf len r nr h(1,4,5)] alm by auto
    show ?thesis
    proof (cases "IsFree v \<and> Contains v va len")
      case True
      then show ?thesis using fr kv(3) by (simp add: search_fits_def va_def)
    next
      case False
      have rl: "r = search_free_loop ys len al mx" using kv(3) unfolding if_not_P [OF False] ef .
      then obtain k' v' where k': "(k', v') \<in> set ys" "r = AlignUp k' al" "r < mx"
        using search_free_loop_spec [OF wfy en h(2) len(1), of mx] nr by (auto split: if_splits)
      have "k' + v_size v' \<le> vma_end 0 (vma_map s)" using areas_wf_below [OF W(1), of k' v'] k'(1) m(1) by simp
      then have "k' \<le> r" using W(2) h(3) AlignUp_ge [of k' al] k'(2) h(2) by simp
      then have "va \<le> r" using m(3) k'(1) by force
      then show ?thesis using fr k'(3) by (simp add: search_fits_def va_def mx_def)
    qed
  qed
  ultimately show ?thesis by auto
qed

lemma free_range_find:
  assumes wf: "vma_wf 0 m" and r: "free_range m addr len" "0 < len"
  obtains k v where "FindVMA m addr = Some k" "map_of m k = Some v" "IsFree v" "k \<le> addr"
    "addr + len \<le> k + v_size v" "v_base v = k" "(k, v) \<in> set m"
proof -
  obtain k v where k: "(k, v) \<in> set m" "IsFree v" "k \<le> addr" "addr + len \<le> k + v_size v"
    using r(1) unfolding free_range_def by blast
  obtain xs ys where m: "m = xs @ (k, v) # ys" using k(1) by (meson split_list)
  note w = areas_wf_mid [OF wf [unfolded m]]
  have "FindVMA m addr = Some k" unfolding m FindVMA_def
    by (rule find_le_mid [OF w(9) k(3)]) (use w(7) k(4) r(2) in force)
  moreover have "map_of m k = Some v" unfolding m by (rule map_of_mid [OF w(6)])
  moreover have "v_base v = k" using w(4) by (simp add: vma_ok_def)
  ultimately show ?thesis using k by (intro that)
qed

text \<open>The address that a call without overwriting maps at lies in one free area, which is large enough.\<close>

lemma choose_address_free:
  assumes wf: "mm_wf s" and len: "0 < len" "len < 2 ^ 62" and addr: "addr < 2 ^ 62"
    and h: "add64 (UserVirtualBase (impl s)) (UserVirtualSize (impl s)) < 2 ^ 62" "SystemManagedVirtualBase (impl s) < 2 ^ 62"
    and cov: "True_flag (flags AND MapFixed) \<longrightarrow> vma_at s addr \<noteq> None"
    and nf: "True_flag (flags AND MapFixed) \<longrightarrow> True_flag (flags AND MapNoOverwrite)"
    and c: "choose_address addr len flags al s = Some (Inr r)"
  shows "free_range (vma_map s) r len"
proof (cases "True_flag (flags AND MapFixed)")
  case False
  then obtain "SearchFree (if addr = 0 then DEFAULT_MAPPING_BASE else addr) len al s = Some r" "r \<noteq> minus_one64"
    using c by (auto simp: choose_address_def bind_iff split: if_splits)
  moreover have "(if addr = 0 then DEFAULT_MAPPING_BASE else addr) < 2 ^ 62" using addr by simp
  ultimately show ?thesis using SearchFree_sound [OF wf len] h by blast
next
  case True
  note W = mm_wfD [OF wf]
  obtain k v where kv: "FindVMA (vma_map s) addr = Some k" "map_of (vma_map s) k = Some v" "IsFree v"
    "sub64 (v_base v + v_size v) addr \<ge> len" "r = addr"
    "assert_valid (vma_map s) addr len = Some ()"
    using c True nf by (auto simp: choose_address_def bind_iff not_less split: if_splits)
  have mem: "(k, v) \<in> set (vma_map s)" "k \<le> addr"
    using map_of_SomeD [OF kv(2)] find_le_Some kv(1) by (auto simp: FindVMA_def)
  have base: "v_base v = k" using areas_wf_mem [OF W(1) mem(1)] by (simp add: vma_ok_def)
  have en: "k + v_size v < 2 ^ 62" using areas_wf_below [OF W(1) mem(1)] W(2) by linarith
  have "addr < k + v_size v"
  proof (rule ccontr)
    assume n: "\<not> addr < k + v_size v"
    obtain b where "vma_content (vma_map s) addr = Some b" using cov True by auto
    then obtain k' v' where k': "FindVMA (vma_map s) addr = Some k'" "map_of (vma_map s) k' = Some v'"
      "addr < k' + v_size v'"
      by (rule FindVMA_content [OF W(1)])
    have "k' = k" using k'(1) kv(1) by simp
    moreover from this have "v' = v" using k'(2) kv(2) by simp
    ultimately show False using n k'(3) by simp
  qed
  moreover have "sub64 (v_base v + v_size v) addr = k + v_size v - addr"
    using base en calculation sub64_exact [of addr "k + v_size v"] by simp
  ultimately show ?thesis
    unfolding free_range_def using kv mem by (intro bexI [of _ "(k, v)"]) auto
qed

end
