(* ===== verification/Map_Memory.thy ===== *)
theory Map_Memory
  imports Mapping_Ops
begin

text \<open>
  What \<open>MapMemory\<close> establishes.  A flexible mapping takes the lowest free bytes of flexible memory,
  each of them once; a mapping that does not overwrite lands in one free area and changes nothing else.
\<close>

section \<open>Finding flexible memory\<close>

text \<open>The handle of the loop: no free byte lies below the entry it names.\<close>

definition at_or_after :: "nat option \<Rightarrow> PhysMap \<Rightarrow> bool" where
  "at_or_after handle m = (case handle of
     None \<Rightarrow> flex_free (phys_content m) = {}
   | Some h \<Rightarrow> map_of m h \<noteq> None \<and> (\<forall>p \<in> flex_free (phys_content m). h \<le> p))"

lemma begin_at_or_after:
  assumes "phys_wf 0 m" shows "at_or_after (begin_key m) m"
proof (cases m)
  case Nil
  then show ?thesis by (simp add: at_or_after_def flex_free_def)
next
  case (Cons e m')
  obtain k v where e: "e = (k, v)" by (cases e)
  have "areas_wf p_size at_base k m" using assms Cons e by simp
  then have "phys_content m p = None" if "p < k" for p using that by (rule content_above_None)
  then show ?thesis using Cons e by (fastforce simp: at_or_after_def flex_free_def not_less [symmetric])
qed

text \<open>Leaving an area without free bytes, the next handle keeps this.\<close>

lemma next_at_or_after:
  assumes wf: "phys_wf 0 m" and k: "map_of m k = Some v"
    and no: "\<And>p. p \<in> flex_free (phys_content m) \<Longrightarrow> k + p_size v \<le> p"
  shows "at_or_after (next_key k m) m" "\<And>h. next_key k m = Some h \<Longrightarrow> k + p_size v \<le> h"
proof -
  obtain xs ys where m: "m = xs @ (k, v) # ys" using map_of_Some_split [OF k] by blast
  note w = areas_wf_mid [OF wf [unfolded m]]
  have nk: "next_key k m = begin_key ys" unfolding m by (rule next_key_mid [OF w(6,8)])
  show "k + p_size v \<le> h" if "next_key k m = Some h" for h
    using that w(7) nk by (cases ys) auto
  have c: "phys_content m p = phys_content ys p" if "k + p_size v \<le> p" for p
    unfolding m content_mid [OF wf [unfolded m]] using that by auto
  show "at_or_after (next_key k m) m"
  proof (cases ys)
    case Nil
    then have "flex_free (phys_content m) = {}" using no c by (force simp: flex_free_def)
    then show ?thesis using nk Nil by (simp add: at_or_after_def)
  next
    case (Cons f zs)
    obtain h u where f: "f = (h, u)" by (cases f)
    have "areas_wf p_size at_base h ys" using w(5) Cons f by simp
    then have "phys_content ys p = None" if "p < h" for p using that by (rule content_above_None)
    then have "\<forall>p \<in> flex_free (phys_content m). h \<le> p"
      using no c by (force simp: flex_free_def not_less [symmetric])
    moreover have "map_of m h = Some u" unfolding m Cons f
      by (rule map_of_mid2 [OF w(6)]) (use w(8) Cons f in auto)
    ultimately show ?thesis using nk Cons f by (simp add: at_or_after_def)
  qed
qed

lemma finite_flex_free: "phys_wf lo m \<Longrightarrow> finite (flex_free (phys_content m))"
  by (rule finite_subset [OF _ finite_content [of p_size phys_cell m]]) (auto simp: flex_free_def)

text \<open>The physical byte behind an offset of a virtual area.\<close>

definition backing :: "PhysMap \<Rightarrow> nat \<Rightarrow> nat" where
  "backing pa i = fst (the (phys_content pa i))"

text \<open>
  The loop covers \<open>rem\<close> bytes: it extends the backing with \<open>rem\<close> new offsets, mapped in increasing
  order to the \<open>rem\<close> lowest free bytes, which become used; nothing else changes.
\<close>

definition filled ::
  "u64 \<Rightarrow> nat \<Rightarrow> PhysMap \<Rightarrow> PhysMap \<Rightarrow> PhysMap \<Rightarrow> PhysMap \<Rightarrow> bool" where
  "filled off rem pa pa' m m' \<longleftrightarrow>
     tiles 0 pa' (off + rem) \<and> (\<forall>i < off. phys_content pa' i = phys_content pa i) \<and>
     (\<forall>i \<in> {off..<off + rem}. phys_content pa' i = Some (backing pa' i, 0, PFlexible)) \<and>
     strict_mono_on {off..<off + rem} (backing pa') \<and>
     backing pa' ` {off..<off + rem} \<subseteq> flex_free (phys_content m) \<and>
     (\<forall>p \<in> backing pa' ` {off..<off + rem}.
        \<forall>q \<in> flex_free (phys_content m) - backing pa' ` {off..<off + rem}. p < q) \<and>
     phys_wf 0 m' \<and> phys_coalesced m' \<and> phys_end 0 m' = phys_end 0 m \<and>
     phys_content m' = (\<lambda>p. if p \<in> backing pa' ` {off..<off + rem}
                             then Some (p, 0, PFlexible) else phys_content m p)"

lemma filled_0:
  "tiles 0 pa off \<Longrightarrow> phys_wf 0 m \<Longrightarrow> phys_coalesced m \<Longrightarrow> filled off 0 pa pa m m"
  by (simp add: filled_def strict_mono_on_def)

lemma filled_step:
  assumes t: "tiles 0 pa1 (off + n)"
    and pa1: "phys_content pa1 = (\<lambda>i. if i < off then phys_content pa i else if i < off + n
       then Some (h + (i - off), 0, PFlexible) else None)"
    and m1: "phys_end 0 m1 = phys_end 0 m" "phys_content m1 = phys_rewrite h n 0 PFlexible (phys_content m)"
    and free: "{h..<h + n} \<subseteq> flex_free (phys_content m)" "\<And>p. p \<in> flex_free (phys_content m) \<Longrightarrow> h \<le> p"
    and F: "filled (off + n) rem pa1 pa' m1 m'"
  shows "filled off (n + rem) pa pa' m m'"
proof -
  note F = F [unfolded filled_def]
  let ?I = "{off..<off + n}" and ?J = "{off + n..<off + n + rem}"
  have split: "{off..<off + (n + rem)} = ?I \<union> ?J" by auto
  have bI: "backing pa' i = h + (i - off)" if "i \<in> ?I" for i
    using F pa1 that by (simp add: backing_def)
  have imI: "backing pa' ` ?I = {h..<h + n}"
  proof -
    have "backing pa' ` ?I = (\<lambda>i. h + (i - off)) ` ?I" using bI by (rule image_cong [OF refl])
    also have "\<dots> = {h..<h + n}"
    proof (intro equalityI subsetI)
      fix p assume "p \<in> {h..<h + n}"
      then show "p \<in> (\<lambda>i. h + (i - off)) ` ?I" by (intro image_eqI [of _ _ "off + (p - h)"]) auto
    qed auto
    finally show ?thesis .
  qed
  have free1: "flex_free (phys_content m1) = flex_free (phys_content m) - {h..<h + n}"
    using m1(2) by (auto simp: flex_free_def phys_rewrite_def)
  define N where "N = backing pa' ` ?J"
  have N: "N \<subseteq> flex_free (phys_content m) - {h..<h + n}" using F free1 by (auto simp: N_def)
  have im: "backing pa' ` {off..<off + (n + rem)} = {h..<h + n} \<union> N"
    unfolding split image_Un imI N_def ..
  have above: "h + n \<le> q" if "q \<in> flex_free (phys_content m) - {h..<h + n}" for q
    using that free(2) [of q] by auto
  have "strict_mono_on {off..<off + (n + rem)} (backing pa')"
    unfolding strict_mono_on_def
  proof (intro allI impI)
    fix i j assume ij: "i \<in> {off..<off + (n + rem)} \<and> j \<in> {off..<off + (n + rem)} \<and> i < j"
    consider "i \<in> ?I" "j \<in> ?I" | "i \<in> ?I" "j \<in> ?J" | "i \<in> ?J" "j \<in> ?J" using ij by force
    then show "backing pa' i < backing pa' j"
    proof cases
      case 1 then show ?thesis using bI ij by auto
    next
      case 2
      then have "backing pa' j \<in> N" by (simp add: N_def)
      then have "h + n \<le> backing pa' j" using N above by blast
      moreover have "backing pa' i < h + n" using 2(1) imI by (metis atLeastLessThan_iff imageI)
      ultimately show ?thesis by linarith
    next
      case 3 then show ?thesis using F ij by (simp add: strict_mono_on_def)
    qed
  qed
  moreover have "p < q" if "p \<in> {h..<h + n} \<union> N" "q \<in> flex_free (phys_content m) - ({h..<h + n} \<union> N)" for p q
  proof (cases "p \<in> N")
    case True
    then show ?thesis using F free1 that by (auto simp: N_def)
  next
    case False
    then show ?thesis using that above [of q] by auto
  qed
  moreover have "phys_content m' p = (if p \<in> {h..<h + n} \<union> N then Some (p, 0, PFlexible) else phys_content m p)" for p
    using F m1(2) by (auto simp: N_def phys_rewrite_def)
  moreover have "phys_content pa' i = phys_content pa i" if "i < off" for i using F pa1 that by simp
  moreover have "tiles 0 pa' (off + (n + rem))" using F by (simp only: add.assoc)
  moreover have "{h..<h + n} \<union> N \<subseteq> flex_free (phys_content m)" using N free(1) by blast
  moreover have "phys_content pa' i = Some (backing pa' i, 0, PFlexible)" if "i \<in> {off..<off + (n + rem)}" for i
  proof (cases "i \<in> ?I")
    case True
    then have "phys_content pa' i = Some (h + (i - off), 0, PFlexible)" using F pa1 by simp
    then show ?thesis by (simp add: backing_def)
  next
    case False
    then show ?thesis using F that by simp
  qed
  moreover have "phys_wf 0 m' \<and> phys_coalesced m' \<and> phys_end 0 m' = phys_end 0 m" using F m1(1) by simp
  ultimately show ?thesis
    unfolding filled_def im by (intro conjI ballI ext allI impI) blast+
qed

definition handle_gap :: "nat option \<Rightarrow> nat \<Rightarrow> nat" where
  "handle_gap handle e = (case handle of None \<Rightarrow> 0 | Some h \<Rightarrow> Suc (e - h))"

lemma map_flexible_correct:
  assumes "tiles 0 pa off" "phys_wf 0 (fmem_map s)" "phys_coalesced (fmem_map s)"
    "at_or_after handle (fmem_map s)"
    "\<And>p. fmem_at s p \<noteq> None \<Longrightarrow> p \<in> flex_used (fmem_at s) \<or> p \<in> flex_free (fmem_at s)"
    "rem \<le> card (flex_free (fmem_at s))" "flexible_usage s + rem < two64"
  obtains fm pa' es where
    "map_flexible is_exec mapped handle (mapped + off) rem pa s =
       Some (pa', 0, s\<lparr>fmem_map := fm, flexible_usage := flexible_usage s + rem, effects := effects s @ es\<rparr>)"
    "filled off rem pa pa' (fmem_map s) fm"
  using assms
proof (induction "handle_gap handle (phys_end 0 (fmem_map s))" arbitrary: handle off rem pa s thesis
    rule: less_induct)
  case less
  note P = less.prems(2-)
  show ?case
  proof (cases "rem = 0")
    case True
    then have "map_flexible is_exec mapped handle (mapped + off) rem pa s = Some (pa, 0, s)"
      by (subst map_flexible.simps) (simp split: option.split)
    then show ?thesis
      using filled_0 [OF P(1-3)] True by (intro less.prems(1) [where fm = "fmem_map s" and pa' = pa and es = "[]"]) simp_all
  next
    case False
    have "flex_free (fmem_at s) \<noteq> {}" using P(6) False by force
    then obtain h a where h: "handle = Some h" "map_of (fmem_map s) h = Some a"
      "\<And>p. p \<in> flex_free (fmem_at s) \<Longrightarrow> h \<le> p"
      using P(4) by (cases handle) (auto simp: at_or_after_def)
    have mem: "(h, a) \<in> set (fmem_map s)" by (rule map_of_SomeD [OF h(2)])
    have a: "0 < p_size a" "p_base a = h" using areas_wf_mem [OF P(2) mem] by (auto simp: at_base_def)
    have le: "h + p_size a \<le> phys_end 0 (fmem_map s)" by (rule areas_wf_below [OF P(2) mem])
    have cell: "fmem_at s p = Some (p, memory_type a, dma_type a)" if "h \<le> p" "p < h + p_size a" for p
      using content_mem [OF P(2) mem that, of phys_cell] that a(2) by (simp add: phys_cell_def)
    show ?thesis
    proof (cases "dma_type a = PFree")
      case nfree: False
      have "h + p_size a \<le> p" if p: "p \<in> flex_free (fmem_at s)" for p
      proof (rule ccontr)
        assume "\<not> h + p_size a \<le> p"
        then have "fmem_at s p = Some (p, memory_type a, dma_type a)" using cell h(3) [OF p] by simp
        then show False using p nfree by (simp add: flex_free_def)
      qed
      note nx = next_at_or_after [OF P(2) h(2) this]
      have gap: "handle_gap (next_key h (fmem_map s)) (phys_end 0 (fmem_map s))
          < handle_gap handle (phys_end 0 (fmem_map s))"
        using nx(2) a(1) le by (auto simp: handle_gap_def h(1) split: option.split)
      have "map_flexible is_exec mapped handle (mapped + off) rem pa s =
          map_flexible is_exec mapped (next_key h (fmem_map s)) (mapped + off) rem pa s"
        using False nfree h by (subst map_flexible.simps) simp
      then show ?thesis
        using less.hyps [OF gap _ P(1,2,3) nx(1) P(5-7)] less.prems(1) by metis
    next
      case free: True
      have mt: "memory_type a = 0"
        using P(5) [of h] cell [of h] a(1) free by (auto simp: flex_used_def flex_free_def)
      define n where "n = min rem (p_size a)"
      have n: "0 < n" "n \<le> rem" "h + n \<le> h + p_size a" using False a(1) by (auto simp: n_def)
      have fl: "find_le h (fmem_map s) = Some h"
      proof -
        have "fmem_at s h = Some (h, memory_type a, dma_type a)" using cell a(1) by simp
        from find_le_content [OF P(2) this] obtain k v where
          k: "find_le h (fmem_map s) = Some k" "k \<le> h" "h < k + p_size v" "(k, v) \<in> set (fmem_map s)" by metis
        obtain xs ys where m: "fmem_map s = xs @ (h, a) # ys" using mem by (meson split_list)
        note w = areas_wf_mid [OF P(2) [unfolded m]]
        show ?thesis unfolding m by (rule find_le_mid [OF w(9) order_refl w(8)])
      qed
      obtain h' v' m' where set: "set_phys (fmem_map s) h n (\<lambda>a. a\<lparr>dma_type := PFlexible\<rparr>) =
          Some (\<lparr>p_base = h, p_size = n, memory_type = 0, dma_type = PFlexible\<rparr>, h', m')"
        "phys_wf 0 m'" "phys_end 0 m' = phys_end 0 (fmem_map s)"
        "phys_content m' = phys_rewrite h n 0 PFlexible (fmem_at s)"
        "map_of m' h' = Some v'" "h' \<le> h" "h + n \<le> h' + p_size v'"
        by (rule set_phys_correct [OF P(2) fl h(2) n(1,3), of "\<lambda>a. a\<lparr>dma_type := PFlexible\<rparr>" 0 PFlexible])
          (use mt in auto)
      have co: "phys_coalesced m'"
        by (rule set_phys_coalesced [OF P(2) fl h(2) n(1,3) P(3) _ _ set(1)]) simp_all
      have v': "dma_type v' = PFlexible" "(h', v') \<in> set m'"
        using content_mem [OF set(2) map_of_SomeD [OF set(5)], of h phys_cell] set(4,6,7) n(1) set(5)
        by (auto simp: phys_rewrite_def phys_cell_def dest: map_of_SomeD)
      have fr: "flex_free (phys_content m') = flex_free (fmem_at s) - {h..<h + n}"
        unfolding set(4) by (auto simp: flex_free_def phys_rewrite_def)
      have above: "h' + p_size v' \<le> p" if p: "p \<in> flex_free (phys_content m')" for p
      proof (rule ccontr)
        assume "\<not> h' + p_size v' \<le> p"
        moreover have "h' \<le> p" using fr p h(3) [of p] set(6) by auto
        ultimately have "phys_content m' p = Some (phys_cell v' (p - h'))"
          using content_mem [OF set(2) v'(2), of p phys_cell] by simp
        then show False using p v'(1) by (simp add: flex_free_def phys_cell_def)
      qed
      note nx = next_at_or_after [OF set(2,5) above]
      define ar where "ar = \<lparr>p_base = h, p_size = n, memory_type = 0, dma_type = PFlexible\<rparr>"
      have ar: "p_base ar = h" "p_size ar = n" "memory_type ar = 0" "dma_type ar = PFlexible" by (simp_all add: ar_def)
      obtain k1 pa1 where pa1: "MergeAdjacent_phys (put off ar pa) off = Some (k1, pa1)" "tiles 0 pa1 (off + n)"
        "phys_content pa1 = (\<lambda>i. if i < off then phys_content pa i else if i < off + n
           then Some (h + (i - off), 0, PFlexible) else None)"
        using append_merge_tiles [OF P(1), of ar, unfolded ar] n(1) by blast
      define s1 where "s1 = emit (AsMap (mapped + off) n h is_exec)
          (s\<lparr>fmem_map := m', flexible_usage := flexible_usage s + n\<rparr>)"
      have s1: "fmem_map s1 = m'" "flexible_usage s1 = flexible_usage s + n" by (simp_all add: s1_def emit_def)
      have use: "add64 (flexible_usage s) n = flexible_usage s + n"
        using P(7) n(2) by (intro add64_exact) linarith
      have step: "map_flexible is_exec mapped handle (mapped + off) rem pa s =
          map_flexible is_exec mapped (next_key h' m') (mapped + (off + n)) (rem - n) pa1 s1"
        using False free h a(2) set(1) pa1(1)
        by (subst map_flexible.simps) (simp add: add_phys_area_def ar_def [symmetric] ar n_def [symmetric] use s1_def add.assoc)
      have sub: "{h..<h + n} \<subseteq> flex_free (fmem_at s)"
        using cell n(3) free mt by (auto simp: flex_free_def)
      have card: "rem - n \<le> card (flex_free (fmem_at s1))"
        using P(6) card_Diff_subset [OF _ sub] by (simp add: s1 fr)
      have gap: "handle_gap (next_key h' m') (phys_end 0 (fmem_map s1))
          < handle_gap handle (phys_end 0 (fmem_map s))"
        using nx(2) set(3,7) n(1) le a(1) by (auto simp: handle_gap_def h(1) s1 split: option.split)
      have uf: "p \<in> flex_used (fmem_at s1) \<or> p \<in> flex_free (fmem_at s1)" if "fmem_at s1 p \<noteq> None" for p
        using P(5) [of p] that unfolding s1 set(4)
        by (auto simp: flex_used_def flex_free_def phys_rewrite_def split: if_splits)
      have us1: "flexible_usage s1 + (rem - n) < two64" using P(7) n(2) by (simp add: s1)
      obtain fm pa' es where IH: "map_flexible is_exec mapped (next_key h' m') (mapped + (off + n)) (rem - n) pa1 s1 =
          Some (pa', 0, s1\<lparr>fmem_map := fm, flexible_usage := flexible_usage s1 + (rem - n), effects := effects s1 @ es\<rparr>)"
        "filled (off + n) (rem - n) pa1 pa' (fmem_map s1) fm"
        by (rule less.hyps [OF gap, where off = "off + n" and rem = "rem - n" and pa = pa1])
          (use pa1(2) set(2) co nx(1) uf card us1 in \<open>simp_all add: s1\<close>)
      have F: "filled off (n + (rem - n)) pa pa' (fmem_map s) fm"
        by (rule filled_step [OF pa1(2,3) set(3,4) sub h(3) IH(2) [unfolded s1]])
      show ?thesis
        by (rule less.prems(1) [where fm = fm and pa' = pa' and es = "AsMap (mapped + off) n h is_exec # es"])
          (use F n(2) in \<open>simp_all add: step IH(1) s1\<close>, simp_all add: s1_def emit_def)
    qed
  qed
qed

section \<open>Mapping direct memory\<close>

lemma map_direct_correct:
  assumes "dmem_wf s" "tiles 0 pa off" "phys + off + rem \<le> total_direct_size s"
  obtains dm pa' where
    "map_direct phys (phys + off) rem pa s = Some (pa', s\<lparr>dmem_map := dm\<rparr>)"
    "dmem_wf (s\<lparr>dmem_map := dm\<rparr>)" "tiles 0 pa' (off + rem)"
    "\<And>i. i < off \<Longrightarrow> phys_content pa' i = phys_content pa i"
    "\<And>i. off \<le> i \<Longrightarrow> i < off + rem \<Longrightarrow> phys_content pa' i = with_use Mapped (dmem_at s (phys + i))"
    "phys_content dm = (\<lambda>p. if phys + off \<le> p \<and> p < phys + off + rem
       then with_use Mapped (dmem_at s p) else dmem_at s p)"
  using assms
proof (induction rem arbitrary: off pa s thesis rule: less_induct)
  case (less rem)
  note P = less.prems(2-)
  show ?case
  proof (cases "rem = 0")
    case True
    then have "map_direct phys (phys + off) rem pa s = Some (pa, s\<lparr>dmem_map := dmem_map s\<rparr>)"
      by (subst map_direct.simps) simp
    then show ?thesis using P True by (intro less.prems(1) [where dm = "dmem_map s" and pa' = pa]) (auto simp: fun_eq_iff)
  next
    case False
    have lt: "phys + off < total_direct_size s" using P(3) False by linarith
    obtain xs k a ys where k: "find_le (phys + off) (dmem_map s) = Some k" "map_of (dmem_map s) k = Some a"
      "k \<le> phys + off" "phys + off < k + p_size a" "p_base a = k"
      by (rule dmem_find [OF P(1) lt])
    have wf: "phys_wf 0 (dmem_map s)" "total_direct_size s < 2 ^ 62" using P(1) by (auto simp: dmem_wf_def)
    have mem: "(k, a) \<in> set (dmem_map s)" by (rule map_of_SomeD [OF k(2)])
    have bound: "k + p_size a \<le> total_direct_size s"
      using areas_wf_below [OF wf(1) mem] P(1) by (simp add: dmem_wf_def)
    define n where "n = min (p_size a - (phys + off - k)) rem"
    have n: "0 < n" "n \<le> rem" "phys + off + n \<le> k + p_size a" using False k(3,4) by (auto simp: n_def)
    have sub: "sub64 (p_size a) (phys + off - k) = p_size a - (phys + off - k)"
      using bound wf(2) k(3,4) by (intro sub64_exact) auto
    define ar where "ar = \<lparr>p_base = phys + off, p_size = n, memory_type = memory_type a, dma_type = Mapped\<rparr>"
    have ar: "p_base ar = phys + off" "p_size ar = n" "memory_type ar = memory_type a" "dma_type ar = Mapped"
      by (simp_all add: ar_def)
    obtain h' v' dm where set: "set_phys (dmem_map s) (phys + off) n (\<lambda>a. a\<lparr>dma_type := Mapped\<rparr>) = Some (ar, h', dm)"
      by (rule set_phys_correct [OF wf(1) k(1,2) n(1,3), of "\<lambda>a. a\<lparr>dma_type := Mapped\<rparr>" "memory_type a" Mapped,
            folded ar_def]) auto
    note U = set_phys_use [OF wf(1) n(1) set]
    define s1 where "s1 = s\<lparr>dmem_map := dm\<rparr>"
    have s1: "dmem_map s1 = dm" "total_direct_size s1 = total_direct_size s" by (simp_all add: s1_def)
    have wf1: "dmem_wf s1" using P(1) U by (auto simp: dmem_wf_def s1 with_use_def simp del: not_None_eq)
    have cell: "dmem_at s p = Some (p, memory_type a, dma_type a)" if "phys + off \<le> p" "p < phys + off + n" for p
      using content_mem [OF wf(1) mem, of p phys_cell] that k(3,5) n(3) by (simp add: phys_cell_def)
    obtain k1 pa1 where pa1: "MergeAdjacent_phys (put off ar pa) off = Some (k1, pa1)" "tiles 0 pa1 (off + n)"
      "phys_content pa1 = (\<lambda>i. if i < off then phys_content pa i else if i < off + n
         then Some (phys + off + (i - off), memory_type a, Mapped) else None)"
      using append_merge_tiles [OF P(2), of ar, unfolded ar] n(1) by blast
    have step: "map_direct phys (phys + off) rem pa s = map_direct phys (phys + (off + n)) (rem - n) pa1 s1"
    proof -
      have mx: "max (phys + off) k = phys + off" using k(3) by simp
      have d: "p_base a = k" by (rule k(5))
      show ?thesis
        using False k(1,2) set pa1(1)
        by (subst map_direct.simps) (simp add: mx d sub n_def [symmetric] add_phys_area_def s1_def add.assoc)
    qed
    have small: "rem - n < rem" and le1: "phys + (off + n) + (rem - n) \<le> total_direct_size s1"
      using n P(3) by (auto simp: s1)
    obtain dm' pa' where IH: "map_direct phys (phys + (off + n)) (rem - n) pa1 s1 = Some (pa', s1\<lparr>dmem_map := dm'\<rparr>)"
      "dmem_wf (s1\<lparr>dmem_map := dm'\<rparr>)" "tiles 0 pa' (off + n + (rem - n))"
      "\<And>i. i < off + n \<Longrightarrow> phys_content pa' i = phys_content pa1 i"
      "\<And>i. off + n \<le> i \<Longrightarrow> i < off + n + (rem - n) \<Longrightarrow> phys_content pa' i = with_use Mapped (dmem_at s1 (phys + i))"
      "phys_content dm' = (\<lambda>p. if phys + (off + n) \<le> p \<and> p < phys + (off + n) + (rem - n)
         then with_use Mapped (dmem_at s1 p) else dmem_at s1 p)"
      using less.IH [OF small _ wf1 pa1(2) le1] by blast
    have s2: "s1\<lparr>dmem_map := dm'\<rparr> = s\<lparr>dmem_map := dm'\<rparr>" by (simp add: s1_def)
    show ?thesis
    proof (rule less.prems(1) [where dm = dm' and pa' = pa'])
      show "map_direct phys (phys + off) rem pa s = Some (pa', s\<lparr>dmem_map := dm'\<rparr>)"
        using step IH(1) s2 by simp
      show "dmem_wf (s\<lparr>dmem_map := dm'\<rparr>)" using IH(2) s2 by simp
      show "tiles 0 pa' (off + rem)" using IH(3) n(2) by simp
      show "phys_content pa' i = phys_content pa i" if "i < off" for i using IH(4) [of i] pa1(3) that by simp
      show "phys_content pa' i = with_use Mapped (dmem_at s (phys + i))" if "off \<le> i" "i < off + rem" for i
      proof (cases "i < off + n")
        case True
        then show ?thesis using IH(4) [OF True] pa1(3) that cell [of "phys + i"] by (simp add: with_use_def)
      next
        case False
        then show ?thesis using IH(5) [of i] that n(2) U(3) s1 by simp
      qed
      show "phys_content dm' = (\<lambda>p. if phys + off \<le> p \<and> p < phys + off + rem
          then with_use Mapped (dmem_at s p) else dmem_at s p)"
        unfolding IH(6) s1 U(3) using n(1,2) by (intro ext) auto
    qed
  qed
qed

section \<open>The new virtual area\<close>

definition map_info :: "MemoryProt \<Rightarrow> MemoryMapFlags \<Rightarrow> VMAType \<Rightarrow> string \<Rightarrow> phys_info option \<Rightarrow> vma_info" where
  "map_info prot0 flags ty name ph = \<lparr>i_type = ty, i_prot = append_read prot0, i_name = name,
     i_nomerge = True_flag (flags AND MapNoCoalesce), i_phys = ph\<rparr>"

lemma map_of_put [simp]: "map_of (put k v m) k = Some v"
  by (induction m) auto

lemma put_put [simp]: "put k w (put k v m) = put k w m"
  by (induction m) auto

lemma create_unmap_free:
  assumes wf: "mm_wf s" and r: "free_range (vma_map s) addr len" "0 < len"
    and v: "FindVMA (vma_map s) addr = Some k" "map_of (vma_map s) k = Some v"
  shows "create_unmap addr len v s = Some s"
proof -
  note W = mm_wfD [OF wf]
  obtain v' where v': "IsFree v'" "k \<le> addr" "addr + len \<le> k + v_size v'" "v_base v' = k" "map_of (vma_map s) k = Some v'"
    "(k, v') \<in> set (vma_map s)"
    using free_range_find [OF W(1) r] v(1) by (metis option.inject)
  have eq: "v' = v" using v'(5) v(2) by simp
  have en: "k + v_size v \<le> vma_end 0 (vma_map s)" using areas_wf_below [OF W(1) v'(6)] eq by simp
  have s1: "sub64 addr (v_base v) = addr - k" using v' eq en W(3) by (auto intro!: sub64_exact)
  have s2: "sub64 (v_size v) (addr - k) = v_size v - (addr - k)"
    using v' eq en W(3) r(2) by (intro sub64_exact) auto
  have U: "UnmapBytesFromEntry addr v len s = Some (len, s)"
    using v'(1-3) eq by (auto simp: UnmapBytesFromEntry_def s1 s2 IsFree_def)
  have add: "add64 addr len = addr + len"
    by (rule add64_exact) (use v'(3) eq en W(3) in simp)
  obtain k2 where k2: "FindVMA (vma_map s) (addr + len) = Some k2" "k2 \<in> fst ` set (vma_map s)"
  proof (cases "find_le (addr + len) (vma_map s)")
    case None
    then have "addr + len < k"
      using v'(6) find_le_None_iff [OF areas_wf_sorted [OF W(1)], of "addr + len"] by auto
    then show ?thesis using v'(2) by simp
  next
    case (Some k2)
    then show ?thesis using find_le_Some [OF Some] that [of k2] by (force simp: FindVMA_def)
  qed
  obtain v2 where "map_of (vma_map s) k2 = Some v2" using k2(2) by (meson map_of_eq_None_iff not_Some_eq)
  then show ?thesis
    using r(2) U add k2(1) create_unmap.simps [of "addr + len" 0 v2 s]
    by (subst create_unmap.simps) simp
qed

lemma free_range_view:
  assumes wf: "mm_wf s" and r: "free_range (vma_map s) addr len" and a: "addr \<le> a" "a < addr + len"
  shows "vma_at s a = Some free_info"
proof -
  note W = mm_wfD [OF wf]
  obtain k v where k: "(k, v) \<in> set (vma_map s)" "IsFree v" "k \<le> addr" "addr + len \<le> k + v_size v"
    using r unfolding free_range_def by blast
  have "vma_at s a = Some (vma_cell v (a - k))"
    by (rule content_mem [OF W(1) k(1)]) (use k a in auto)
  moreover from this have "vma_cell v (a - k) = free_info"
    using W(10) k(2) by (simp add: IsFree_def)
  ultimately show ?thesis by simp
qed

text \<open>
  What \<open>map_at\<close> does in a free range, once the backing is known: \<open>bst\<close> is the state after the
  backing was found, \<open>pa\<close> the physical areas.
\<close>

lemma map_at_free:
  assumes wf: "mm_wf s" and r: "free_range (vma_map s) addr len" "0 < len"
    and bst: "\<And>vm. \<exists>pa bst. (if ty = Flexible then do {
          (pa, remaining, s2) \<leftarrow> map_flexible is_exec addr (begin_key (fmem_map s)) addr len [] (s\<lparr>vma_map := vm\<rparr>);
          ASSERT (remaining = 0);
          Some (pa, s2) }
        else if ty = Direct then map_direct phys phys len [] (s\<lparr>vma_map := vm\<rparr>)
        else Some ([], s\<lparr>vma_map := vm\<rparr>)) = Some (pa, bst\<lparr>vma_map := vm\<rparr>) \<and>
        (if ty \<in> {Direct, Flexible, Pooled} then tiles 0 pa len else pa = []) \<and> Q pa bst"
    and ex: "is_exec = True_flag (prot0 AND CpuExec)"
  obtains vm pa bst where "Q pa bst" "vma_wf 0 vm" "vma_end 0 vm = vma_end 0 (vma_map s)"
    "vma_content vm = (\<lambda>a. if addr \<le> a \<and> a < addr + len
       then Some (map_info prot0 flags ty name (phys_content pa (a - addr))) else vma_at s a)"
    "map_at addr len prot0 flags ty name phys s = Some
      (if ty \<noteq> Reserved \<and> ty \<noteq> PoolReserved
       then emit_if (IsValidGpuMapping addr len) (GpuMap addr len)
              (FinishMutation (emit_if (ty \<noteq> Flexible) (AsMap addr len phys is_exec) (bst\<lparr>vma_map := vm\<rparr>)))
       else FinishMutation (bst\<lparr>vma_map := vm\<rparr>))"
proof -
  note W = mm_wfD [OF wf]
  obtain k v where kv: "FindVMA (vma_map s) addr = Some k" "map_of (vma_map s) k = Some v" "IsFree v"
    "k \<le> addr" "addr + len \<le> k + v_size v" by (rule free_range_find [OF W(1) r])
  show ?thesis
  proof (rule vmas.carve_put_merge [OF W(1) kv(1) [unfolded FindVMA_def] kv(2) r(2) kv(5)])
    fix m1 v1
    assume c: "carve_area v_size vma_split addr len (vma_map s) = Some (addr, m1)" "map_of m1 addr = Some v1"
      "v_size v1 = len" "vma_ok addr v1"
      and step: "\<And>v2. v_size v2 = len \<Longrightarrow> vma_ok addr v2 \<Longrightarrow>
        \<exists>k' m2. merge_areas CanMergeWith vma_join addr (put addr v2 m1) = Some (k', m2)
          \<and> vma_wf 0 (put addr v2 m1) \<and> vma_end 0 (put addr v2 m1) = vma_end 0 (vma_map s)
          \<and> vma_wf 0 m2 \<and> vma_end 0 m2 = vma_end 0 (vma_map s)
          \<and> k' \<le> addr \<and> (\<exists>v'. map_of m2 k' = Some v' \<and> addr + len \<le> k' + v_size v')
          \<and> vma_content (put addr v2 m1) = (\<lambda>a. if addr \<le> a \<and> a < addr + len
                then Some (vma_cell v2 (a - addr)) else vma_at s a)
          \<and> vma_content m2 = (\<lambda>a. if addr \<le> a \<and> a < addr + len
                then Some (vma_cell v2 (a - addr)) else vma_at s a)"
    define v3 where "v3 = v1\<lparr>disallow_merge := True_flag (flags AND MapNoCoalesce), prot := append_read prot0,
          vname := name, vtype := ty, phys_areas := []\<rparr>"
    obtain pa bst where bk: "(if ty = Flexible then do {
          (pa, remaining, s2) \<leftarrow> map_flexible is_exec addr (begin_key (fmem_map s)) addr len []
             (s\<lparr>vma_map := put addr v3 m1\<rparr>);
          ASSERT (remaining = 0);
          Some (pa, s2) }
        else if ty = Direct then map_direct phys phys len [] (s\<lparr>vma_map := put addr v3 m1\<rparr>)
        else Some ([], s\<lparr>vma_map := put addr v3 m1\<rparr>)) = Some (pa, bst\<lparr>vma_map := put addr v3 m1\<rparr>)"
      and pa: "if ty \<in> {Direct, Flexible, Pooled} then tiles 0 pa len else pa = []" and Q: "Q pa bst"
      using bst by blast
    define v2 where "v2 = v3\<lparr>phys_areas := pa\<rparr>"
    have create: "CreateArea addr len prot0 flags ty name s = Some (addr, s\<lparr>vma_map := put addr v3 m1\<rparr>)"
      using kv(1-3) create_unmap_free [OF wf r kv(1,2)] c(1,2)
      by (simp add: CreateArea_def CarveVMA_def v3_def)
    have ok: "v_size v2 = len" "vma_ok addr v2"
      using c(3,4) pa by (auto simp: v2_def v3_def vma_ok_def HasPhysicalBacking_def)
    from step [OF ok] obtain k' m2 where m2: "merge_areas CanMergeWith vma_join addr (put addr v2 m1) = Some (k', m2)"
      "vma_wf 0 (put addr v2 m1)" "vma_end 0 (put addr v2 m1) = vma_end 0 (vma_map s)"
      "vma_wf 0 m2" "vma_end 0 m2 = vma_end 0 (vma_map s)"
      "vma_content (put addr v2 m1) = (\<lambda>a. if addr \<le> a \<and> a < addr + len
                then Some (vma_cell v2 (a - addr)) else vma_at s a)"
      "vma_content m2 = (\<lambda>a. if addr \<le> a \<and> a < addr + len
                then Some (vma_cell v2 (a - addr)) else vma_at s a)" by blast
    define vm where "vm = (if ty \<noteq> Direct \<or> sdk_version bst mod 4294967296 \<ge> FW_200 then m2 else put addr v2 m1)"
    have cell: "vma_cell v2 i = map_info prot0 flags ty name (phys_content pa i)" for i
      by (simp add: vma_cell_def map_info_def v2_def v3_def)
    have fm: "fmem_map (s\<lparr>vma_map := put addr v3 m1\<rparr>) = fmem_map s" by simp
    have "map_at addr len prot0 flags ty name phys s = Some
      (if ty \<noteq> Reserved \<and> ty \<noteq> PoolReserved
       then emit_if (IsValidGpuMapping addr len) (GpuMap addr len)
              (FinishMutation (emit_if (ty \<noteq> Flexible) (AsMap addr len phys is_exec) (bst\<lparr>vma_map := vm\<rparr>)))
       else FinishMutation (bst\<lparr>vma_map := vm\<rparr>))"
      unfolding map_at_def Let_def create bind.bind_lunit prod.case fm ex [symmetric] bk
      using m2(1) by (simp add: v2_def [symmetric] MergeAdjacent_vma_def vm_def)
    then show thesis
      using m2 cell Q by (intro that [of pa bst vm]) (auto simp: vm_def)
  qed
qed

section \<open>The address of a mapping\<close>

text \<open>A request for \<open>len\<close> bytes that does not overwrite anything, in an address space laid out as usual.\<close>

definition request_ok :: "MemoryManager \<Rightarrow> u64 \<Rightarrow> u64 \<Rightarrow> MemoryMapFlags \<Rightarrow> u64 \<Rightarrow> bool" where
  "request_ok s addr len flags alignment \<longleftrightarrow> 0 < len \<and> len < 2 ^ 62 \<and> addr < 2 ^ 62 \<and> alignment < 2 ^ 32 \<and>
     (True_flag (flags AND MapFixed) \<longrightarrow> True_flag (flags AND MapNoOverwrite) \<and> covered (vma_map s) addr len) \<and>
     add64 (UserVirtualBase (impl s)) (UserVirtualSize (impl s)) < 2 ^ 62 \<and>
     SystemManagedVirtualBase (impl s) < 2 ^ 62 \<and> vma_at s (SystemManagedVirtualBase (impl s)) \<noteq> None"

text \<open>
  An address at which the request may be placed: its own one when that is fixed, an address that the
  search from the hint may use otherwise.
\<close>

definition may_map_at :: "MemoryManager \<Rightarrow> u64 \<Rightarrow> u64 \<Rightarrow> MemoryMapFlags \<Rightarrow> u64 \<Rightarrow> u64 \<Rightarrow> bool" where
  "may_map_at s addr len flags alignment x \<longleftrightarrow>
     (if True_flag (flags AND MapFixed) then x = addr \<and> free_range (vma_map s) x len
      else search_fits s (if addr = 0 then DEFAULT_MAPPING_BASE else addr) len
             (if alignment > 0 then alignment else KB16) x)"

lemma may_map_at_free: "may_map_at s addr len flags alignment x \<Longrightarrow> free_range (vma_map s) x len"
  by (auto simp: may_map_at_def search_fits_def split: if_splits)

lemma SearchFree_total:
  assumes wf: "mm_wf s" and b: "vma_at s (SystemManagedVirtualBase (impl s)) \<noteq> None"
    "SystemManagedVirtualBase (impl s) < 2 ^ 62" "hint < 2 ^ 62" and al: "0 < al" "al < 2 ^ 32"
  shows "SearchFree hint len al s \<noteq> None"
proof -
  note W = mm_wfD [OF wf]
  let ?min = "SystemManagedVirtualBase (impl s)"
  define mx where "mx = add64 (UserVirtualBase (impl s)) (UserVirtualSize (impl s))"
  define v1 where "v1 = (if hint < ?min \<or> hint \<ge> mx then ?min else hint)"
  obtain c where "vma_at s ?min = Some c" using b(1) by auto
  then obtain k where k: "find_le ?min (vma_map s) = Some k"
    by (metis FindVMA_content [OF W(1)] FindVMA_def)
  then obtain v where kv: "k \<le> ?min" "(k, v) \<in> set (vma_map s)" using find_le_Some by blast
  have v1: "?min \<le> v1" "v1 < 2 ^ 62" using b(2,3) by (auto simp: v1_def)
  have "v1 \<le> AlignUp v1 al" using AlignUp_ge [of v1 al] v1(2) al by simp
  then have "\<not> (\<forall>e \<in> set (vma_map s). AlignUp v1 al < fst e)" using kv v1(1) by force
  then obtain k' where k': "find_le (AlignUp v1 al) (vma_map s) = Some k'"
    using find_le_None_iff [OF areas_wf_sorted [OF W(1)], of "AlignUp v1 al"]
    by (cases "find_le (AlignUp v1 al) (vma_map s)") auto
  then obtain v' where "map_of (vma_map s) k' = Some v'"
    using find_le_Some [OF k'] by (metis map_of_eq_None_iff image_eqI fst_conv not_None_eq)
  then show ?thesis using k' al by (simp add: SearchFree_def Let_def FindVMA_def v1_def mx_def)
qed

lemma choose_address_exact:
  assumes wf: "mm_wf s" and r: "request_ok s addr len flags alignment"
  obtains e where "choose_address addr len flags (if alignment > 0 then alignment else KB16) s = Some (Inl e)"
      "e = KERNEL_ENOMEM" "\<And>x. \<not> may_map_at s addr len flags alignment x"
    | a where "choose_address addr len flags (if alignment > 0 then alignment else KB16) s = Some (Inr a)"
      "may_map_at s addr len flags alignment a" "\<And>x. may_map_at s addr len flags alignment x \<Longrightarrow> a \<le> x"
proof -
  note R = r [unfolded request_ok_def]
  note W = mm_wfD [OF wf]
  define al where "al = (if alignment > 0 then alignment else KB16)"
  have al: "0 < al" "al < 2 ^ 32" using R by (auto simp: al_def)
  define hint where "hint = (if addr = 0 then DEFAULT_MAPPING_BASE else addr)"
  have hint: "hint < 2 ^ 62" using R by (simp add: hint_def)
  show thesis
  proof (cases "True_flag (flags AND MapFixed)")
    case True
    have c: "covered (vma_map s) addr len" "0 < len" using True R by auto
    have end': "addr + len \<le> vma_end 0 (vma_map s)" by (rule covered_end [OF W(1) c])
    then have av: "assert_valid (vma_map s) addr len = Some ()"
      using W(1,3) c by (intro assert_valid_covered [of 0]) auto
    obtain b where "vma_at s addr = Some b" using covered_head [OF c] by blast
    then obtain k v where kv: "FindVMA (vma_map s) addr = Some k" "map_of (vma_map s) k = Some v" "k \<le> addr"
        "addr < k + v_size v"
      by (rule FindVMA_content [OF W(1)])
    have mem: "(k, v) \<in> set (vma_map s)" using map_of_SomeD [OF kv(2)] .
    have base: "v_base v = k" using areas_wf_mem [OF W(1) mem] by (simp add: vma_ok_def)
    have "k + v_size v < two64" using areas_wf_below [OF W(1) mem] W(3) by simp
    then have sub: "sub64 (v_base v + v_size v) addr = k + v_size v - addr"
      using base kv(4) sub64_exact [of addr "k + v_size v"] by simp
    have fr: "free_range (vma_map s) addr len \<longleftrightarrow> IsFree v \<and> addr + len \<le> k + v_size v"
    proof
      assume "free_range (vma_map s) addr len"
      then obtain k' v' where f: "FindVMA (vma_map s) addr = Some k'" "map_of (vma_map s) k' = Some v'"
          "IsFree v'" "addr + len \<le> k' + v_size v'"
        by (rule free_range_find [OF W(1) _ c(2)])
      then show "IsFree v \<and> addr + len \<le> k + v_size v" using kv(1,2) by simp
    next
      assume "IsFree v \<and> addr + len \<le> k + v_size v"
      then show "free_range (vma_map s) addr len" using mem kv(3) unfolding free_range_def by auto
    qed
    have ch: "choose_address addr len flags al s = Some (if free_range (vma_map s) addr len then Inr addr
        else Inl KERNEL_ENOMEM)"
      using True R av kv sub fr by (auto simp: choose_address_def)
    show thesis
    proof (cases "free_range (vma_map s) addr len")
      case True
      then show thesis using that(2) [of addr] ch \<open>True_flag (flags AND MapFixed)\<close> unfolding al_def [symmetric]
        by (simp add: may_map_at_def)
    next
      case False
      then show thesis using that(1) [of KERNEL_ENOMEM] ch \<open>True_flag (flags AND MapFixed)\<close> unfolding al_def [symmetric]
        by (simp add: may_map_at_def)
    qed
  next
    case False
    have "SearchFree hint len al s \<noteq> None"
      by (rule SearchFree_total [OF wf _ _ _ al]) (use R hint in auto)
    then obtain x where x: "SearchFree hint len al s = Some x" by blast
    have least: "if x = minus_one64 then \<forall>y. \<not> search_fits s hint len al y
      else search_fits s hint len al x \<and> (\<forall>y. search_fits s hint len al y \<longrightarrow> x \<le> y)"
      by (rule SearchFree_least [OF wf _ _ x hint al]) (use R in auto)
    have ch: "choose_address addr len flags al s = Some (if x = minus_one64 then Inl KERNEL_ENOMEM else Inr x)"
      using False x by (simp add: choose_address_def hint_def)
    have m: "may_map_at s addr len flags alignment y = search_fits s hint len al y" for y
      using False by (simp add: may_map_at_def hint_def al_def)
    show thesis
      using that(1) [of KERNEL_ENOMEM] that(2) [of x] ch least m unfolding al_def [symmetric] by (auto split: if_splits)
  qed
qed

section \<open>Properties of mapping\<close>

lemma flex_ok_extend:
  assumes ok: "flex_ok V F"
    and V': "\<And>a. V' a = (if a \<in> A then Some (f a) else V a)"
    and f: "\<And>a. a \<in> A \<Longrightarrow> i_type (f a) = Flexible \<and> fst (the (i_phys (f a))) = p a"
    and A: "\<And>a. a \<in> A \<Longrightarrow> a \<notin> flex_addrs V" "inj_on p A" "p ` A \<subseteq> flex_free F"
    and F': "\<And>q. F' q = (if q \<in> p ` A then Some (q, 0, PFlexible) else F q)"
  shows "flex_ok V' F'" "flex_used F' = flex_used F \<union> p ` A"
proof -
  have bij: "bij_betw (flex_phys V) (flex_addrs V) (flex_used F)" using ok by (simp add: flex_ok_def)
  show u: "flex_used F' = flex_used F \<union> p ` A" by (auto simp: flex_used_def F')
  have ad: "flex_addrs V' = flex_addrs V \<union> A"
    using f by (auto simp: flex_addrs_def V' split: if_splits)
  have fp: "flex_phys V' a = (if a \<in> A then p a else flex_phys V a)" for a
    using f by (simp add: flex_phys_def V')
  have b1: "bij_betw (flex_phys V') (flex_addrs V) (flex_used F)"
    using bij by (rule bij_betw_cong [THEN iffD1, rotated]) (use A(1) fp in auto)
  have b2: "bij_betw (flex_phys V') A (p ` A)"
    using A(2) by (auto simp: bij_betw_def fp inj_on_def)
  have "flex_used F \<inter> p ` A = {}" using A(3) by (auto simp: flex_used_def flex_free_def)
  from bij_betw_combine [OF b1 b2 this]
  have "bij_betw (flex_phys V') (flex_addrs V') (flex_used F')" unfolding ad u .
  moreover have "q \<in> flex_used F' \<or> q \<in> flex_free F'" if "F' q \<noteq> None" for q
  proof (cases "q \<in> p ` A")
    case True
    then show ?thesis by (simp add: flex_used_def F')
  next
    case False
    then have "F' q = F q" by (simp only: F' if_False)
    then show ?thesis using ok that by (auto simp: flex_ok_def flex_used_def flex_free_def)
  qed
  ultimately show "flex_ok V' F'" by (simp add: flex_ok_def)
qed

lemma flex_ok_unbacked:
  assumes ok: "flex_ok V F" and V': "\<And>a. V' a = (if a \<in> A then Some (f a) else V a)"
    and A: "\<And>a. a \<in> A \<Longrightarrow> a \<notin> flex_addrs V \<and> i_type (f a) \<noteq> Flexible"
  shows "flex_ok V' F"
proof -
  have ad: "flex_addrs V' = flex_addrs V"
    using A by (fastforce simp: flex_addrs_def V' split: if_splits)
  have "flex_phys V' a = flex_phys V a" if "a \<in> flex_addrs V" for a
    using A that by (auto simp: flex_phys_def V')
  then have "bij_betw (flex_phys V') (flex_addrs V) = bij_betw (flex_phys V) (flex_addrs V)"
    using bij_betw_cong by blast
  then show ?thesis using ok by (simp add: flex_ok_def ad)
qed

lemma MapMemory_chosen:
  assumes wf: "mm_wf s" and r: "request_ok s addr len flags alignment"
    and flex: "ty = Flexible \<Longrightarrow> flexible_usage s + len \<le> total_flexible_size s \<and> total_flexible_size s < two64"
    and phys: "check_physical phys len validate s = Some None"
    and R: "\<And>a. free_range (vma_map s) a len \<Longrightarrow> \<exists>s'. map_at a len prot0 flags ty name phys
        (BeginMutation (emit_if (IsValidGpuMapping a len) (GpuUnmap a len) s)) = Some s' \<and> Q a s'"
  shows "\<exists>res s'. MapMemory addr len prot0 flags ty name validate phys alignment s = Some (res, s') \<and>
    (case res of Inl e \<Rightarrow> e = KERNEL_ENOMEM \<and> s' = s \<and> (\<forall>x. \<not> may_map_at s addr len flags alignment x)
     | Inr a \<Rightarrow> may_map_at s addr len flags alignment a \<and>
         (\<forall>x. may_map_at s addr len flags alignment x \<longrightarrow> a \<le> x) \<and> Q a s')"
proof -
  have fl: "\<not> (ty = Flexible \<and> add64 (flexible_usage s) len > total_flexible_size s)"
    using flex by (auto simp: add64_exact)
  show ?thesis
  proof (rule choose_address_exact [OF wf r])
    fix e assume "choose_address addr len flags (if alignment > 0 then alignment else KB16) s = Some (Inl e)"
      "e = KERNEL_ENOMEM" "\<And>x. \<not> may_map_at s addr len flags alignment x"
    then show ?thesis using fl phys by (simp add: MapMemory_def)
  next
    fix a assume a: "choose_address addr len flags (if alignment > 0 then alignment else KB16) s = Some (Inr a)"
      "may_map_at s addr len flags alignment a" "\<And>x. may_map_at s addr len flags alignment x \<Longrightarrow> a \<le> x"
    obtain s' where "map_at a len prot0 flags ty name phys
        (BeginMutation (emit_if (IsValidGpuMapping a len) (GpuUnmap a len) s)) = Some s'" "Q a s'"
      using R [OF may_map_at_free [OF a(2)]] by blast
    then show ?thesis using fl phys a by (intro exI [of _ "Inr a"] exI [of _ s']) (simp add: MapMemory_def)
  qed
qed

lemma map_at_flexible:
  assumes wf: "mm_wf s" and len: "0 < len" and fr: "free_range (vma_map s) a len"
    and use: "flexible_usage s + len \<le> total_flexible_size s" "total_flexible_size s < two64"
    and free: "len \<le> card (flex_free (fmem_at s))"
  shows "\<exists>s'. map_at a len prot0 flags Flexible name minus_one64
        (BeginMutation (emit_if (IsValidGpuMapping a len) (GpuUnmap a len) s)) = Some s' \<and>
      mm_wf s' \<and> dmem_map s' = dmem_map s \<and>
         flexible_usage s' = flexible_usage s + len \<and> mapping_generation s' = mapping_generation s + 2 \<and>
         (\<exists>b. strict_mono_on {a..<a + len} b \<and> b ` {a..<a + len} \<subseteq> flex_free (fmem_at s) \<and>
           (\<forall>p \<in> b ` {a..<a + len}. \<forall>q \<in> flex_free (fmem_at s) - b ` {a..<a + len}. p < q) \<and>
           vma_at s' = (\<lambda>x. if x \<in> {a..<a + len}
             then Some (map_info prot0 flags Flexible name (Some (b x, 0, PFlexible))) else vma_at s x) \<and>
           fmem_at s' = (\<lambda>p. if p \<in> b ` {a..<a + len} then Some (p, 0, PFlexible) else fmem_at s p))"
proof -
  note W = mm_wfD [OF wf]
  define s1 where "s1 = BeginMutation (emit_if (IsValidGpuMapping a len) (GpuUnmap a len) s)"
  have s1: "vma_map s1 = vma_map s" "fmem_map s1 = fmem_map s" "dmem_map s1 = dmem_map s"
    "flexible_usage s1 = flexible_usage s" "mapping_generation s1 = mapping_generation s + 1" "mm_wf s1"
    "total_direct_size s1 = total_direct_size s"
    by (simp_all add: s1_def wf)
  define e where "e = True_flag (prot0 AND CpuExec)"
  have fo: "p \<in> flex_used (fmem_at s1) \<or> p \<in> flex_free (fmem_at s1)" if "fmem_at s1 p \<noteq> None" for p
    using W(8) that s1(2) by (simp add: flex_ok_def)
  have us: "flexible_usage s1 + len < two64" using use s1(4) by simp
  have "\<exists>pa bst. (if Flexible = Flexible then do {
          (pa, remaining, s2) \<leftarrow> map_flexible e a (begin_key (fmem_map s1)) a len [] (s1\<lparr>vma_map := vm\<rparr>);
          ASSERT (remaining = 0);
          Some (pa, s2) }
        else if Flexible = Direct then map_direct minus_one64 minus_one64 len [] (s1\<lparr>vma_map := vm\<rparr>)
        else Some ([], s1\<lparr>vma_map := vm\<rparr>)) = Some (pa, bst\<lparr>vma_map := vm\<rparr>) \<and>
      (if Flexible \<in> {Direct, Flexible, Pooled} then tiles 0 pa len else pa = []) \<and>
      (\<exists>fm es. bst = s1\<lparr>fmem_map := fm, flexible_usage := flexible_usage s + len, effects := es\<rparr> \<and>
        filled 0 len [] pa (fmem_map s) fm)" for vm
  proof -
    obtain fm pa es where L: "map_flexible e a (begin_key (fmem_map s1)) (a + 0) len [] (s1\<lparr>vma_map := vm\<rparr>) =
        Some (pa, 0, s1\<lparr>vma_map := vm, fmem_map := fm, flexible_usage := flexible_usage s1 + len, effects := effects s1 @ es\<rparr>)"
      and F: "filled 0 len [] pa (fmem_map s1) fm"
      by (rule map_flexible_correct [of "[]" 0 "s1\<lparr>vma_map := vm\<rparr>" "begin_key (fmem_map s1)" len e a])
        (use W(5,6) fo us free begin_at_or_after [OF W(5)] in \<open>simp_all add: s1\<close>)
    show ?thesis
      by (intro exI [of _ pa] exI [of _ "s1\<lparr>fmem_map := fm, flexible_usage := flexible_usage s + len,
          effects := effects s1 @ es\<rparr>"]) (use L F s1(2,4) in \<open>auto simp: filled_def\<close>)
  qed
  note bk = this
  have fr1: "free_range (vma_map s1) a len" using fr s1(1) by simp
  obtain vm pa bst where M0: "\<exists>fm es. bst = s1\<lparr>fmem_map := fm, flexible_usage := flexible_usage s + len, effects := es\<rparr> \<and>
        filled 0 len [] pa (fmem_map s) fm" "vma_wf 0 vm" "vma_end 0 vm = vma_end 0 (vma_map s1)"
      "vma_content vm = (\<lambda>x. if a \<le> x \<and> x < a + len
         then Some (map_info prot0 flags Flexible name (phys_content pa (x - a))) else vma_at s1 x)"
      "map_at a len prot0 flags Flexible name minus_one64 s1 = Some
        (if Flexible \<noteq> Reserved \<and> Flexible \<noteq> PoolReserved
         then emit_if (IsValidGpuMapping a len) (GpuMap a len)
              (FinishMutation (emit_if (Flexible \<noteq> Flexible) (AsMap a len minus_one64 e) (bst\<lparr>vma_map := vm\<rparr>)))
         else FinishMutation (bst\<lparr>vma_map := vm\<rparr>))"
    by (rule map_at_free [OF s1(6) fr1 len bk e_def])
  obtain fm es where M1: "bst = s1\<lparr>fmem_map := fm, flexible_usage := flexible_usage s + len, effects := es\<rparr>"
      "filled 0 len [] pa (fmem_map s) fm" using M0(1) by blast
  have map: "map_at a len prot0 flags Flexible name minus_one64 s1 = Some (emit_if (IsValidGpuMapping a len) (GpuMap a len)
              (FinishMutation (bst\<lparr>vma_map := vm\<rparr>)))"
    using M0(5) by (simp add: emit_if_def)
  note M = M1 M0(2) M0(3,4) [unfolded s1(1)] map
  define s2 where "s2 = emit_if (IsValidGpuMapping a len) (GpuMap a len) (FinishMutation (bst\<lparr>vma_map := vm\<rparr>))"
  have s2: "vma_map s2 = vm" "fmem_map s2 = fm" "dmem_map s2 = dmem_map s" "flexible_usage s2 = flexible_usage s + len"
    "mapping_generation s2 = mapping_generation s + 2" "total_direct_size s2 = total_direct_size s"
    using s1 by (simp_all add: s2_def M(1))
  define b where "b x = backing pa (x - a)" for x
  note F = M(2) [unfolded filled_def]
  have sh: "(\<lambda>x. x - a) ` {a..<a + len} = {0..<0 + len}"
  proof (intro equalityI subsetI)
    fix i assume "i \<in> {0..<0 + len}"
    then show "i \<in> (\<lambda>x. x - a) ` {a..<a + len}" by (intro image_eqI [of _ _ "a + i"]) auto
  qed auto
  have im: "b ` {a..<a + len} = backing pa ` {0..<0 + len}" unfolding sh [symmetric] by (auto simp: b_def)
  have mono: "strict_mono_on {a..<a + len} b"
  proof -
    have "backing pa i < backing pa j" if "i < j" "j < len" for i j
      using F that unfolding strict_mono_on_def by auto
    moreover have "x - a < y - a" "y - a < len" if "a \<le> x" "x < y" "y < a + len" for x y using that by auto
    ultimately show ?thesis by (auto simp: strict_mono_on_def b_def)
  qed
  have view: "vma_at s2 = (\<lambda>x. if x \<in> {a..<a + len}
      then Some (map_info prot0 flags Flexible name (Some (b x, 0, PFlexible))) else vma_at s x)"
    unfolding s2 M(5) using F by (intro ext) (auto simp: b_def)
  have fmem: "fmem_at s2 = (\<lambda>p. if p \<in> b ` {a..<a + len} then Some (p, 0, PFlexible) else fmem_at s p)"
    using F unfolding s2 im by simp
  have sub: "b ` {a..<a + len} \<subseteq> flex_free (fmem_at s)" using F unfolding im by simp
  have inj: "inj_on b {a..<a + len}" using mono by (rule strict_mono_on_imp_inj_on)
  have nofl: "x \<notin> flex_addrs (vma_at s)" if "x \<in> {a..<a + len}" for x
    using free_range_view [OF wf fr, of x] that by (simp add: flex_addrs_def free_info_def)
  have ok: "flex_ok (vma_at s2) (fmem_at s2)"
    and used: "flex_used (fmem_at s2) = flex_used (fmem_at s) \<union> b ` {a..<a + len}"
    by (rule flex_ok_extend [OF W(8), where A = "{a..<a + len}" and p = b and
        f = "\<lambda>x. map_info prot0 flags Flexible name (Some (b x, 0, PFlexible))"];
        use nofl inj sub in \<open>simp add: view fmem map_info_def\<close>)+
  have card: "card (flex_used (fmem_at s2)) = flexible_usage s2"
  proof -
    have "flex_used (fmem_at s) \<inter> b ` {a..<a + len} = {}" using sub by (auto simp: flex_used_def flex_free_def)
    then have "card (flex_used (fmem_at s2)) = card (flex_used (fmem_at s)) + card (b ` {a..<a + len})"
      unfolding used by (intro card_Un_disjoint) (use finite_flex_used [OF W(5)] in auto)
    then show ?thesis using card_image [OF inj] s2 W(9) by simp
  qed
  have "dmem_wf s2" using W(4) s2 by (simp add: dmem_wf_def)
  moreover have "\<forall>x i. vma_at s2 x = Some i \<longrightarrow> i_type i = VFree \<longrightarrow> i = free_info"
    using W(10) unfolding view by (auto simp: map_info_def)
  ultimately have "mm_wf s2"
    unfolding mm_wf_def using M(3,4) W(2,7) F ok card by (simp add: s2)
  moreover have "map_at a len prot0 flags Flexible name minus_one64
        (BeginMutation (emit_if (IsValidGpuMapping a len) (GpuUnmap a len) s)) = Some s2"
    using M(6) by (simp add: s1_def s2_def)
  ultimately show ?thesis
    using s2(3-5) mono sub view fmem F unfolding im [symmetric] by blast
qed

lemma MapMemory_flexible_spec:
  assumes wf: "mm_wf s" and r: "request_ok s addr len flags alignment"
    and use: "flexible_usage s + len \<le> total_flexible_size s" "total_flexible_size s < two64"
    and free: "len \<le> card (flex_free (fmem_at s))"
  shows "\<exists>res s'. MapMemory addr len prot0 flags Flexible name validate minus_one64 alignment s = Some (res, s') \<and>
    (case res of
       Inl e \<Rightarrow> e = KERNEL_ENOMEM \<and> s' = s \<and> (\<forall>x. \<not> may_map_at s addr len flags alignment x)
     | Inr a \<Rightarrow> may_map_at s addr len flags alignment a \<and>
         (\<forall>x. may_map_at s addr len flags alignment x \<longrightarrow> a \<le> x) \<and> mm_wf s' \<and> dmem_map s' = dmem_map s \<and>
         flexible_usage s' = flexible_usage s + len \<and> mapping_generation s' = mapping_generation s + 2 \<and>
         (\<exists>b. strict_mono_on {a..<a + len} b \<and> b ` {a..<a + len} \<subseteq> flex_free (fmem_at s) \<and>
           (\<forall>p \<in> b ` {a..<a + len}. \<forall>q \<in> flex_free (fmem_at s) - b ` {a..<a + len}. p < q) \<and>
           vma_at s' = (\<lambda>x. if x \<in> {a..<a + len}
             then Some (map_info prot0 flags Flexible name (Some (b x, 0, PFlexible))) else vma_at s x) \<and>
           fmem_at s' = (\<lambda>p. if p \<in> b ` {a..<a + len} then Some (p, 0, PFlexible) else fmem_at s p)))"
proof (rule MapMemory_chosen [OF wf r conjI [OF use]])
  show "check_physical minus_one64 len validate s = Some None" by (simp add: check_physical_def)
  have len: "0 < len" using r by (simp add: request_ok_def)
  show "\<exists>s'. map_at a len prot0 flags Flexible name minus_one64
        (BeginMutation (emit_if (IsValidGpuMapping a len) (GpuUnmap a len) s)) = Some s' \<and>
      mm_wf s' \<and> dmem_map s' = dmem_map s \<and>
         flexible_usage s' = flexible_usage s + len \<and> mapping_generation s' = mapping_generation s + 2 \<and>
         (\<exists>b. strict_mono_on {a..<a + len} b \<and> b ` {a..<a + len} \<subseteq> flex_free (fmem_at s) \<and>
           (\<forall>p \<in> b ` {a..<a + len}. \<forall>q \<in> flex_free (fmem_at s) - b ` {a..<a + len}. p < q) \<and>
           vma_at s' = (\<lambda>x. if x \<in> {a..<a + len}
             then Some (map_info prot0 flags Flexible name (Some (b x, 0, PFlexible))) else vma_at s x) \<and>
           fmem_at s' = (\<lambda>p. if p \<in> b ` {a..<a + len} then Some (p, 0, PFlexible) else fmem_at s p))"
    if fr: "free_range (vma_map s) a len" for a
    by (rule map_at_flexible [OF wf len fr use free])
qed

text \<open>
  C3. A flexible mapping that does not overwrite, with enough free flexible memory: the call returns.
  It reports \<open>ENOMEM\<close> and changes nothing when there is no address at which the request may be placed
  (the fixed address, if the range there is free; otherwise an aligned address from the hint on, below
  the end of the user area, with a free range); else it returns the least such address, and the bytes
  from there on are now backed, in increasing order, by the lowest free bytes of flexible memory, each
  used once.
  Nothing else changes in the virtual map, flexible or direct memory, the amount in use grows by the
  length, the invariant holds, and the mapping generation has moved on by one complete mutation.
\<close>

theorem MapMemory_flexible:
  assumes wf: "mm_wf s" and r: "request_ok s addr len flags alignment"
    and use: "flexible_usage s + len \<le> total_flexible_size s" "total_flexible_size s < two64"
    and free: "len \<le> card (flex_free (fmem_at s))"
  shows "\<exists>res s'. MapMemory addr len prot0 flags Flexible name validate minus_one64 alignment s = Some (res, s') \<and>
    (case res of
       Inl e \<Rightarrow> e = KERNEL_ENOMEM \<and> s' = s \<and> (\<forall>x. \<not> may_map_at s addr len flags alignment x)
     | Inr a \<Rightarrow> may_map_at s addr len flags alignment a \<and>
         (\<forall>x. may_map_at s addr len flags alignment x \<longrightarrow> a \<le> x) \<and> mm_wf s' \<and> dmem_map s' = dmem_map s \<and>
         flexible_usage s' = flexible_usage s + len \<and> mapping_generation s' = mapping_generation s + 2 \<and>
         (\<exists>b. strict_mono_on {a..<a + len} b \<and> b ` {a..<a + len} \<subseteq> flex_free (fmem_at s) \<and>
           (\<forall>p \<in> b ` {a..<a + len}. \<forall>q \<in> flex_free (fmem_at s) - b ` {a..<a + len}. p < q) \<and>
           vma_at s' = (\<lambda>x. if x \<in> {a..<a + len}
             then Some (map_info prot0 flags Flexible name (Some (b x, 0, PFlexible))) else vma_at s x) \<and>
           fmem_at s' = (\<lambda>p. if p \<in> b ` {a..<a + len} then Some (p, 0, PFlexible) else fmem_at s p)))"
  using assms by (rule MapMemory_flexible_spec)

theorem MapMemory_flexible_witness:
  "(\<exists>s'. MapMemory 0 0x4000 CpuReadWrite 0 Flexible ''heap'' False minus_one64 0 boot = Some (Inr 0x200000000, s') \<and>
      flexible_usage s' = 0x4000 \<and> i_type (the (vma_at s' 0x200000100)) = Flexible) \<and>
   (\<exists>s'. MapMemory 0x400000 0x4000 CpuReadWrite (MapFixed OR MapNoOverwrite) Flexible ''heap'' False minus_one64 0
      direct_boot = Some (Inl KERNEL_ENOMEM, s'))"
proof
  have "vma_at boot 0x400000 \<noteq> None" by (simp add: boot_eval free_vma_def)
  then have r: "request_ok boot 0 0x4000 0 0"
    by (simp add: request_ok_def boot_eval True_flag_def add64_def)
  have eq: "flex_free (fmem_at boot) = {7936 * MB1..<8448 * MB1}"
    by (auto simp: flex_free_def boot_eval free_phys_def phys_cell_def split: if_splits)
  have f: "(0x4000::nat) \<le> card (flex_free (fmem_at boot))" unfolding eq by simp
  have m: "may_map_at boot 0 0x4000 0 0 0x200000000" "\<And>x. may_map_at boot 0 0x4000 0 0 x \<Longrightarrow> 0x200000000 \<le> x"
    by (simp_all add: may_map_at_def search_fits_def search_start_def True_flag_def boot_eval free_range_def
        free_vma_def IsFree_def AlignUp_def add64_def dvd_eq_mod_eq_0)
  then have eq2: "a = 0x200000000" if "may_map_at boot 0 0x4000 0 0 a" "\<forall>x. may_map_at boot 0 0x4000 0 0 x \<longrightarrow> a \<le> x" for a
    using that by (meson le_antisym)
  show "\<exists>s'. MapMemory 0 0x4000 CpuReadWrite 0 Flexible ''heap'' False minus_one64 0 boot = Some (Inr 0x200000000, s') \<and>
      flexible_usage s' = 0x4000 \<and> i_type (the (vma_at s' 0x200000100)) = Flexible"
  proof -
    have u: "flexible_usage boot + 0x4000 \<le> total_flexible_size boot" "total_flexible_size boot < two64"
      by (simp_all add: boot_eval)
    from MapMemory_flexible [OF boot_mm_wf r u f, of CpuReadWrite "''heap''" False]
    obtain res s' where M: "MapMemory 0 0x4000 CpuReadWrite 0 Flexible ''heap'' False minus_one64 0 boot = Some (res, s')"
      and C: "case res of
       Inl e \<Rightarrow> \<forall>x. \<not> may_map_at boot 0 0x4000 0 0 x
     | Inr a \<Rightarrow> may_map_at boot 0 0x4000 0 0 a \<and> (\<forall>x. may_map_at boot 0 0x4000 0 0 x \<longrightarrow> a \<le> x) \<and>
         flexible_usage s' = flexible_usage boot + 0x4000 \<and>
         (\<exists>b. vma_at s' = (\<lambda>x. if x \<in> {a..<a + 0x4000}
             then Some (map_info CpuReadWrite 0 Flexible ''heap'' (Some (b x, 0, PFlexible))) else vma_at boot x))"
      by (elim exE conjE) (auto split: sum.splits)
    show ?thesis
    proof (cases res)
      case (Inl e)
      then show ?thesis using C m(1) by simp
    next
      case (Inr a)
      then have "a = 0x200000000" using C eq2 by simp
      moreover have "(0x200000100::nat) \<in> {0x200000000..<0x200000000 + 0x4000}" by simp
      ultimately show ?thesis using M C Inr by (auto simp: boot_eval map_info_def)
    qed
  qed
next
  have c: "covered (vma_map direct_boot) 0x400000 0x4000"
    by (auto simp: covered_def direct_boot_def free_vma_def)
  have d: "impl direct_boot = impl boot" "fmem_map direct_boot = fmem_map boot" "flexible_usage direct_boot = 0"
    "total_flexible_size direct_boot = 512 * MB1"
    by (simp_all add: direct_boot_def boot_eval)
  have r: "request_ok direct_boot 0x400000 0x4000 (MapFixed OR MapNoOverwrite) 0"
    using c by (simp add: request_ok_def d boot_eval True_flag_def add64_def covered_def)
  have eq: "flex_free (fmem_at direct_boot) = {7936 * MB1..<8448 * MB1}"
    unfolding d by (auto simp: flex_free_def boot_eval free_phys_def phys_cell_def split: if_splits)
  have f: "(0x4000::nat) \<le> card (flex_free (fmem_at direct_boot))" unfolding eq by simp
  have m: "\<not> may_map_at direct_boot 0x400000 0x4000 (MapFixed OR MapNoOverwrite) 0 x" for x
    by (auto simp: may_map_at_def True_flag_def direct_boot_def free_range_def free_vma_def IsFree_def)
  show "\<exists>s'. MapMemory 0x400000 0x4000 CpuReadWrite (MapFixed OR MapNoOverwrite) Flexible ''heap'' False minus_one64 0
      direct_boot = Some (Inl KERNEL_ENOMEM, s')"
  proof -
    have u: "flexible_usage direct_boot + 0x4000 \<le> total_flexible_size direct_boot" "total_flexible_size direct_boot < two64"
      by (simp_all add: d)
    from MapMemory_flexible [OF direct_boot_mm_wf r u f, of CpuReadWrite "''heap''" False]
    obtain res s' where M: "MapMemory 0x400000 0x4000 CpuReadWrite (MapFixed OR MapNoOverwrite) Flexible ''heap'' False
        minus_one64 0 direct_boot = Some (res, s')"
      and C: "case res of Inl e \<Rightarrow> e = KERNEL_ENOMEM
        | Inr a \<Rightarrow> may_map_at direct_boot 0x400000 0x4000 (MapFixed OR MapNoOverwrite) 0 a"
      by (elim exE conjE) (auto split: sum.splits)
    then show ?thesis using m by (cases res) auto
  qed
qed

section \<open>Mapping direct memory: the checks\<close>

definition mappable :: "bool \<Rightarrow> phys_info option \<Rightarrow> bool" where
  "mappable validate c \<longleftrightarrow> (case c of None \<Rightarrow> True
     | Some (_, _, d) \<Rightarrow> d = Allocated \<or> d = Mapped \<and> \<not> validate)"

lemma validate_dmem_areas_iff:
  assumes "phys_wf lo m" "m \<noteq> [] \<Longrightarrow> c < fst (hd m) + p_size (snd (hd m))"
    "m \<noteq> [] \<Longrightarrow> c \<le> fst (hd m) \<or> c < e"
  shows "validate_dmem_areas validate e m = None \<longleftrightarrow>
    (\<forall>p. c \<le> p \<and> p < e \<longrightarrow> mappable validate (phys_content m p))"
  using assms
proof (induction m arbitrary: lo c)
  case Nil
  then show ?case by (simp add: mappable_def)
next
  case (Cons f m)
  obtain k a where f: "f = (k, a)" by (cases f)
  have wf: "phys_wf (k + p_size a) m" and a0: "0 < p_size a" "at_base k a" and c: "c < k + p_size a"
    "c \<le> k \<or> c < e" using Cons.prems f by auto
  have a: "0 < p_size a" "p_base a = k" using a0 by (simp_all add: at_base_def)
  have above: "m \<noteq> [] \<Longrightarrow> k + p_size a \<le> fst (hd m) \<and> 0 < p_size (snd (hd m))"
    using wf by (cases m) auto
  have head: "phys_content (f # m) p = Some (p, memory_type a, dma_type a)" if "k \<le> p" "p < k + p_size a" for p
    using that f a by (simp add: phys_cell_def)
  have skip: "phys_content (f # m) p = phys_content m p" if "k + p_size a \<le> p" for p
    using that f content_skip [of k p_size a p phys_cell m] by simp
  have none: "phys_content (f # m) p = None" if "p < k" for p
    using Cons.prems(1) f that content_above_None [of p_size at_base k "(k, a) # m" p phys_cell] by simp
  have IH: "validate_dmem_areas validate e m = None \<longleftrightarrow>
      (\<forall>p. k + p_size a \<le> p \<and> p < e \<longrightarrow> mappable validate (phys_content m p))"
    by (rule Cons.IH [OF wf]) (use above in force)+
  show ?case
  proof (cases "k < e")
    case False
    then have "\<forall>p. c \<le> p \<and> p < e \<longrightarrow> mappable validate (phys_content (f # m) p)"
      using none by (simp add: mappable_def)
    then show ?thesis using False f a(2) by (simp del: content.simps)
  next
    case True
    define d where "d = (dma_type a = Allocated \<or> dma_type a = Mapped \<and> \<not> validate)"
    have m1: "mappable validate (phys_content (f # m) p) = d" if "k \<le> p" "p < k + p_size a" for p
      using head [OF that] by (simp add: mappable_def d_def)
    have m2: "mappable validate (phys_content (f # m) (max c k)) = d" using c(1) a(1) m1 by simp
    have m3: "mappable validate (phys_content (f # m) p) = (p < k \<or> (if p < k + p_size a then d else
        mappable validate (phys_content m p)))" for p
    proof -
      consider "p < k" | "k \<le> p" "p < k + p_size a" | "k + p_size a \<le> p" by linarith
      then show ?thesis
      proof cases
        case 1 then show ?thesis using none by (simp add: mappable_def)
      next
        case 2 then show ?thesis using m1 by simp
      next
        case 3 then show ?thesis using skip by simp
      qed
    qed
    have "(\<forall>p. c \<le> p \<and> p < e \<longrightarrow> mappable validate (phys_content (f # m) p)) \<longleftrightarrow>
        d \<and> (\<forall>p. k + p_size a \<le> p \<and> p < e \<longrightarrow> mappable validate (phys_content m p))"
    proof (intro iffI conjI allI impI)
      assume A: "\<forall>p. c \<le> p \<and> p < e \<longrightarrow> mappable validate (phys_content (f # m) p)"
      have "max c k < e" using True c(2) by auto
      then show d using A m2 by (metis max.cobounded1)
      fix p assume "k + p_size a \<le> p \<and> p < e"
      then show "mappable validate (phys_content m p)" using A m3 [of p] c(1) by auto
    next
      fix p assume "d \<and> (\<forall>p. k + p_size a \<le> p \<and> p < e \<longrightarrow> mappable validate (phys_content m p))" "c \<le> p \<and> p < e"
      then show "mappable validate (phys_content (f # m) p)" using m3 [of p] by (auto simp: not_less)
    qed
    moreover have "validate_dmem_areas validate e (f # m) = None \<longleftrightarrow> d \<and> validate_dmem_areas validate e m = None"
      using True f a(2) by (auto simp: d_def)
    ultimately show ?thesis using IH by simp
  qed
qed

lemma validate_dmem_areas_error:
  "validate_dmem_areas validate e m = Some r \<Longrightarrow> r \<in> {KERNEL_ENOMEM, KERNEL_EBUSY}"
  by (induction m) (auto split: if_splits)

lemma check_physical_iff:
  assumes "dmem_wf s" "0 < len" "phys + len \<le> total_direct_size s"
  shows "\<exists>r. check_physical phys len validate s = Some r \<and>
    (r = None \<longleftrightarrow> (\<forall>p. phys \<le> p \<and> p < phys + len \<longrightarrow> mappable validate (dmem_at s p))) \<and>
    (r = None \<or> r \<in> {Some KERNEL_ENOMEM, Some KERNEL_EBUSY})"
proof -
  have tot: "total_direct_size s < 2 ^ 62" and wf: "phys_wf 0 (dmem_map s)"
    using assms(1) by (auto simp: dmem_wf_def)
  have add: "add64 phys len = phys + len" by (rule add64_exact) (use assms(3) tot in simp)
  have lt: "phys < total_direct_size s" using assms by linarith
  obtain xs k a ys where m: "dmem_map s = xs @ (k, a) # ys" and k: "find_le phys (dmem_map s) = Some k"
    "k \<le> phys" "phys < k + p_size a" "\<forall>e \<in> set xs. fst e < k"
    by (rule dmem_find [OF assms(1) lt])
  have wfm: "phys_wf 0 (xs @ (k, a) # ys)" using wf m by simp
  note w = areas_wf_mid [OF wfm]
  have ef: "entries_from k (dmem_map s) = (k, a) # ys" unfolding m by (rule entries_from_mid [OF k(4)])
  have wfk: "phys_wf k ((k, a) # ys)" using w(3,4,5) by simp
  have tail: "dmem_at s x = phys_content ((k, a) # ys) x" if "k \<le> x" for x
    unfolding m using content_mid [OF wfm, of phys_cell x] that by simp
  have "validate_dmem_areas validate (phys + len) ((k, a) # ys) = None \<longleftrightarrow>
      (\<forall>p. phys \<le> p \<and> p < phys + len \<longrightarrow> mappable validate (phys_content ((k, a) # ys) p))"
    by (rule validate_dmem_areas_iff [OF wfk]) (use k(3) assms(2) in auto)
  also have "\<dots> \<longleftrightarrow> (\<forall>p. phys \<le> p \<and> p < phys + len \<longrightarrow> mappable validate (dmem_at s p))"
    using tail k(2) by (metis le_trans)
  finally have iff: "validate_dmem_areas validate (phys + len) ((k, a) # ys) = None \<longleftrightarrow>
      (\<forall>p. phys \<le> p \<and> p < phys + len \<longrightarrow> mappable validate (dmem_at s p))" .
  have "phys \<noteq> minus_one64" using lt tot by simp
  then have "check_physical phys len validate s = Some (validate_dmem_areas validate (phys + len) ((k, a) # ys))"
    using assms(3) k(1) by (simp add: check_physical_def add ef)
  with iff show ?thesis using validate_dmem_areas_error [of validate "phys + len" "(k, a) # ys"]
    by (cases "validate_dmem_areas validate (phys + len) ((k, a) # ys)") auto
qed

lemma map_at_direct:
  assumes wf: "mm_wf s" and len: "0 < len" and fr: "free_range (vma_map s) a len"
    and le: "phys + len \<le> total_direct_size s"
  shows "\<exists>s'. map_at a len prot0 flags Direct name phys
        (BeginMutation (emit_if (IsValidGpuMapping a len) (GpuUnmap a len) s)) = Some s' \<and>
      mm_wf s' \<and> fmem_map s' = fmem_map s \<and> mapping_generation s' = mapping_generation s + 2 \<and>
      vma_at s' = (\<lambda>x. if x \<in> {a..<a + len}
        then Some (map_info prot0 flags Direct name (with_use Mapped (dmem_at s (phys + (x - a)))))
        else vma_at s x) \<and>
      dmem_at s' = (\<lambda>p. if p \<in> {phys..<phys + len} then with_use Mapped (dmem_at s p) else dmem_at s p)"
proof -
  note W = mm_wfD [OF wf]
  define s1 where "s1 = BeginMutation (emit_if (IsValidGpuMapping a len) (GpuUnmap a len) s)"
  have s1: "vma_map s1 = vma_map s" "fmem_map s1 = fmem_map s" "dmem_map s1 = dmem_map s"
    "flexible_usage s1 = flexible_usage s" "mapping_generation s1 = mapping_generation s + 1" "mm_wf s1"
    "total_direct_size s1 = total_direct_size s"
    by (simp_all add: s1_def wf)
  define e where "e = True_flag (prot0 AND CpuExec)"
  define Q where "Q pa bst \<longleftrightarrow> (\<exists>dm. bst = s1\<lparr>dmem_map := dm\<rparr> \<and> dmem_wf bst \<and>
      (\<forall>i < len. phys_content pa i = with_use Mapped (dmem_at s (phys + i))) \<and>
      phys_content dm = (\<lambda>p. if p \<in> {phys..<phys + len} then with_use Mapped (dmem_at s p) else dmem_at s p))"
    for pa and bst :: MemoryManager
  have bk: "\<exists>pa bst. (if Direct = Flexible then do {
          (pa, remaining, s2) \<leftarrow> map_flexible e a (begin_key (fmem_map s1)) a len [] (s1\<lparr>vma_map := vm\<rparr>);
          ASSERT (remaining = 0);
          Some (pa, s2) }
        else if Direct = Direct then map_direct phys phys len [] (s1\<lparr>vma_map := vm\<rparr>)
        else Some ([], s1\<lparr>vma_map := vm\<rparr>)) = Some (pa, bst\<lparr>vma_map := vm\<rparr>) \<and>
      (if Direct \<in> {Direct, Flexible, Pooled} then tiles 0 pa len else pa = []) \<and> Q pa bst" for vm
  proof -
    have wfd: "dmem_wf (s1\<lparr>vma_map := vm\<rparr>)" using W(4) s1 by (simp add: dmem_wf_def)
    have d: "dmem_at (s1\<lparr>vma_map := vm\<rparr>) = dmem_at s" "phys + 0 + len \<le> total_direct_size (s1\<lparr>vma_map := vm\<rparr>)"
      using s1 le by simp_all
    obtain dm pa where L: "map_direct phys (phys + 0) len [] (s1\<lparr>vma_map := vm\<rparr>) =
        Some (pa, s1\<lparr>vma_map := vm, dmem_map := dm\<rparr>)" "dmem_wf (s1\<lparr>vma_map := vm, dmem_map := dm\<rparr>)"
      "tiles 0 pa (0 + len)" "\<And>i. 0 \<le> i \<Longrightarrow> i < 0 + len \<Longrightarrow> phys_content pa i = with_use Mapped (dmem_at s (phys + i))"
      "phys_content dm = (\<lambda>p. if phys + 0 \<le> p \<and> p < phys + 0 + len
         then with_use Mapped (dmem_at s p) else dmem_at s p)"
      by (rule map_direct_correct [OF wfd _ d(2), of "[]", unfolded d(1)]) simp_all
    have "dmem_wf (s1\<lparr>dmem_map := dm\<rparr>)" using L(2) by (simp add: dmem_wf_def)
    then show ?thesis using L by (intro exI [of _ pa] exI [of _ "s1\<lparr>dmem_map := dm\<rparr>"]) (auto simp: Q_def)
  qed
  have fr1: "free_range (vma_map s1) a len" using fr s1(1) by simp
  obtain vm pa bst where M0: "Q pa bst" "vma_wf 0 vm" "vma_end 0 vm = vma_end 0 (vma_map s1)"
      "vma_content vm = (\<lambda>x. if a \<le> x \<and> x < a + len
         then Some (map_info prot0 flags Direct name (phys_content pa (x - a))) else vma_at s1 x)"
      "map_at a len prot0 flags Direct name phys s1 = Some
        (if Direct \<noteq> Reserved \<and> Direct \<noteq> PoolReserved
         then emit_if (IsValidGpuMapping a len) (GpuMap a len)
              (FinishMutation (emit_if (Direct \<noteq> Flexible) (AsMap a len phys e) (bst\<lparr>vma_map := vm\<rparr>)))
         else FinishMutation (bst\<lparr>vma_map := vm\<rparr>))"
    by (rule map_at_free [OF s1(6) fr1 len bk e_def])
  obtain dm where D: "bst = s1\<lparr>dmem_map := dm\<rparr>" "dmem_wf bst"
      "\<And>i. i < len \<Longrightarrow> phys_content pa i = with_use Mapped (dmem_at s (phys + i))"
      "phys_content dm = (\<lambda>p. if p \<in> {phys..<phys + len} then with_use Mapped (dmem_at s p) else dmem_at s p)"
    using M0(1) by (auto simp: Q_def)
  define s2 where "s2 = emit_if (IsValidGpuMapping a len) (GpuMap a len)
      (FinishMutation (emit_if (Direct \<noteq> Flexible) (AsMap a len phys e) (bst\<lparr>vma_map := vm\<rparr>)))"
  have s2: "vma_map s2 = vm" "fmem_map s2 = fmem_map s" "dmem_map s2 = dm" "flexible_usage s2 = flexible_usage s"
    "mapping_generation s2 = mapping_generation s + 2" "total_direct_size s2 = total_direct_size s"
    using s1 by (simp_all add: s2_def D(1))
  have view: "vma_at s2 = (\<lambda>x. if x \<in> {a..<a + len}
        then Some (map_info prot0 flags Direct name (with_use Mapped (dmem_at s (phys + (x - a)))))
        else vma_at s x)"
    unfolding s2 M0(4) s1 using D(3) by (intro ext) auto
  have nofl: "x \<notin> flex_addrs (vma_at s)" if "x \<in> {a..<a + len}" for x
    using free_range_view [OF wf fr, of x] that by (simp add: flex_addrs_def free_info_def)
  have ok: "flex_ok (vma_at s2) (fmem_at s2)"
    by (rule flex_ok_unbacked [where A = "{a..<a + len}" and V = "vma_at s"])
      (use W(8) nofl view s2 in \<open>auto simp: map_info_def\<close>)
  have "dmem_wf s2" using D(2) by (simp add: dmem_wf_def D(1) s2 s1)
  moreover have "\<forall>x i. vma_at s2 x = Some i \<longrightarrow> i_type i = VFree \<longrightarrow> i = free_info"
    using W(10) unfolding view by (auto simp: map_info_def)
  ultimately have "mm_wf s2"
    unfolding mm_wf_def using M0(2,3) W ok by (simp add: s2 s1)
  moreover have "map_at a len prot0 flags Direct name phys s1 = Some s2" using M0(5) by (simp add: s2_def)
  ultimately show ?thesis unfolding s1_def [symmetric] using s2 view D(4) by auto
qed

lemma MapMemory_direct_spec:
  assumes wf: "mm_wf s" and r: "request_ok s addr len flags alignment"
    and le: "phys + len \<le> total_direct_size s"
  shows "\<exists>res s'. MapMemory addr len prot0 flags Direct name validate phys alignment s = Some (res, s') \<and>
    (if \<exists>p \<in> {phys..<phys + len}. \<not> mappable validate (dmem_at s p)
     then res \<in> {Inl KERNEL_ENOMEM, Inl KERNEL_EBUSY} \<and> s' = s
     else (case res of
       Inl e \<Rightarrow> e = KERNEL_ENOMEM \<and> s' = s \<and> (\<forall>x. \<not> may_map_at s addr len flags alignment x)
     | Inr a \<Rightarrow> may_map_at s addr len flags alignment a \<and>
         (\<forall>x. may_map_at s addr len flags alignment x \<longrightarrow> a \<le> x) \<and> mm_wf s' \<and> fmem_map s' = fmem_map s \<and>
         mapping_generation s' = mapping_generation s + 2 \<and>
         vma_at s' = (\<lambda>x. if x \<in> {a..<a + len}
           then Some (map_info prot0 flags Direct name (with_use Mapped (dmem_at s (phys + (x - a)))))
           else vma_at s x) \<and>
         dmem_at s' = (\<lambda>p. if p \<in> {phys..<phys + len} then with_use Mapped (dmem_at s p) else dmem_at s p)))"
proof -
  have len: "0 < len" using r by (simp add: request_ok_def)
  obtain c where c: "check_physical phys len validate s = Some c"
    "c = None \<longleftrightarrow> (\<forall>p. phys \<le> p \<and> p < phys + len \<longrightarrow> mappable validate (dmem_at s p))"
    "c = None \<or> c \<in> {Some KERNEL_ENOMEM, Some KERNEL_EBUSY}"
    using check_physical_iff [OF mm_wfD(4) [OF wf] len le] by blast
  show ?thesis
  proof (cases c)
    case None
    then have no: "\<not> (\<exists>p \<in> {phys..<phys + len}. \<not> mappable validate (dmem_at s p))" using c(2) by auto
    show ?thesis unfolding if_not_P [OF no]
      by (rule MapMemory_chosen [OF wf r]) (use c(1) None map_at_direct [OF wf len _ le] in auto)
  next
    case (Some x)
    then have "\<exists>p \<in> {phys..<phys + len}. \<not> mappable validate (dmem_at s p)" using c(2) by auto
    then show ?thesis using c(1,3) Some by (auto simp: MapMemory_def)
  qed
qed

text \<open>
  C5. A direct mapping that does not overwrite: when a byte of the physical range may not be mapped
  (it is not allocated, or it is already mapped and the caller asked for that check) the call reports
  an error and changes nothing.  Otherwise it reports \<open>ENOMEM\<close> and changes nothing when there is no
  address at which the request may be placed, and maps the physical range in order from the least such
  address on when there is one: every byte of it becomes mapped, keeping its memory type, nothing else
  changes in the three maps, and the invariant holds.
\<close>

theorem MapMemory_direct:
  assumes wf: "mm_wf s" and r: "request_ok s addr len flags alignment"
    and le: "phys + len \<le> total_direct_size s"
  shows "\<exists>res s'. MapMemory addr len prot0 flags Direct name validate phys alignment s = Some (res, s') \<and>
    (if \<exists>p \<in> {phys..<phys + len}. \<not> mappable validate (dmem_at s p)
     then res \<in> {Inl KERNEL_ENOMEM, Inl KERNEL_EBUSY} \<and> s' = s
     else (case res of
       Inl e \<Rightarrow> e = KERNEL_ENOMEM \<and> s' = s \<and> (\<forall>x. \<not> may_map_at s addr len flags alignment x)
     | Inr a \<Rightarrow> may_map_at s addr len flags alignment a \<and>
         (\<forall>x. may_map_at s addr len flags alignment x \<longrightarrow> a \<le> x) \<and> mm_wf s' \<and> fmem_map s' = fmem_map s \<and>
         mapping_generation s' = mapping_generation s + 2 \<and>
         vma_at s' = (\<lambda>x. if x \<in> {a..<a + len}
           then Some (map_info prot0 flags Direct name (with_use Mapped (dmem_at s (phys + (x - a)))))
           else vma_at s x) \<and>
         dmem_at s' = (\<lambda>p. if p \<in> {phys..<phys + len} then with_use Mapped (dmem_at s p) else dmem_at s p)))"
  using assms by (rule MapMemory_direct_spec)

theorem MapMemory_direct_witness:
  "(\<exists>s'. MapMemory 0 0x4000 CpuReadWrite 0 Direct ''dmem'' False 0 0 direct_boot = Some (Inr 0x200000000, s') \<and>
      i_phys (the (vma_at s' 0x200000100)) = Some (0x100, 3, Mapped)) \<and>
   (\<exists>e s'. MapMemory 0 0x4000 CpuReadWrite 0 Direct ''dmem'' True 0 0 direct_boot = Some (Inl e, s'))"
proof -
  have d: "impl direct_boot = impl boot" "total_direct_size direct_boot = 7936 * MB1"
    by (simp_all add: direct_boot_def boot_eval)
  have "vma_at direct_boot 0x400000 \<noteq> None" by (simp add: direct_boot_def)
  then have r: "request_ok direct_boot 0 0x4000 0 0"
    by (simp add: request_ok_def d boot_eval True_flag_def add64_def)
  have m: "may_map_at direct_boot 0 0x4000 0 0 0x200000000"
    "\<And>x. may_map_at direct_boot 0 0x4000 0 0 x \<Longrightarrow> 0x200000000 \<le> x"
    by (simp_all add: may_map_at_def search_fits_def search_start_def True_flag_def d boot_eval free_range_def)
      (simp_all add: direct_boot_def free_vma_def IsFree_def AlignUp_def add64_def dvd_eq_mod_eq_0)
  then have eq2: "a = 0x200000000"
    if "may_map_at direct_boot 0 0x4000 0 0 a" "\<forall>x. may_map_at direct_boot 0 0x4000 0 0 x \<longrightarrow> a \<le> x" for a
    using that by (meson le_antisym)
  have at: "dmem_at direct_boot p = Some (p, 3, Mapped)" if "p < 0x4000" for p
    using that by (simp add: direct_boot_def phys_cell_def)
  have no: "\<not> (\<exists>p \<in> {0..<0x4000}. \<not> mappable False (dmem_at direct_boot p))"
    and yes: "\<exists>p \<in> {0..<0x4000}. \<not> mappable True (dmem_at direct_boot p)"
    using at by (auto simp: mappable_def intro!: bexI [of _ 0] exI [of _ 0])
  have "\<exists>s'. MapMemory 0 0x4000 CpuReadWrite 0 Direct ''dmem'' False 0 0 direct_boot = Some (Inr 0x200000000, s') \<and>
      i_phys (the (vma_at s' 0x200000100)) = Some (0x100, 3, Mapped)"
  proof -
    have le: "0 + 0x4000 \<le> total_direct_size direct_boot" by (simp add: d)
    from MapMemory_direct [OF direct_boot_mm_wf r le, of CpuReadWrite "''dmem''" False]
    obtain res s' where M: "MapMemory 0 0x4000 CpuReadWrite 0 Direct ''dmem'' False 0 0 direct_boot = Some (res, s')"
      and C: "case res of
       Inl e \<Rightarrow> \<forall>x. \<not> may_map_at direct_boot 0 0x4000 0 0 x
     | Inr a \<Rightarrow> may_map_at direct_boot 0 0x4000 0 0 a \<and> (\<forall>x. may_map_at direct_boot 0 0x4000 0 0 x \<longrightarrow> a \<le> x) \<and>
         vma_at s' = (\<lambda>x. if x \<in> {a..<a + 0x4000}
           then Some (map_info CpuReadWrite 0 Direct ''dmem'' (with_use Mapped (dmem_at direct_boot (0 + (x - a)))))
           else vma_at direct_boot x)"
      unfolding add_0 if_not_P [OF no] by (elim exE conjE) (auto split: sum.splits)
    show ?thesis
    proof (cases res)
      case (Inl e)
      then show ?thesis using C m(1) by simp
    next
      case (Inr a)
      then have "a = 0x200000000" using C eq2 by simp
      then show ?thesis using M C Inr at [of "0x100"] by (simp add: map_info_def with_use_def)
    qed
  qed
  moreover have "\<exists>e s'. MapMemory 0 0x4000 CpuReadWrite 0 Direct ''dmem'' True 0 0 direct_boot = Some (Inl e, s')"
    using MapMemory_direct [OF direct_boot_mm_wf r, of 0 CpuReadWrite "''dmem''" True]
    unfolding add_0 if_P [OF yes] by (auto simp: d)
  ultimately show ?thesis by blast
qed

end
