(* ===== verification/Vma_Join.thy ===== *)
theory Vma_Join
  imports Memory_State
begin

text \<open>
  Which nodes of \<open>vma_map\<close> survive when a part of an area is carved out, changed and merged with its
  neighbours (\<open>set_vma\<close>), for code that keeps a reference to the area it started from.
\<close>

section \<open>The keys of a map\<close>

abbreviation keys :: "'v smap \<Rightarrow> nat set" where
  "keys m \<equiv> fst ` set m"

lemma keys_put: "keys (put k v m) = insert k (keys m)"
  by (induction k v m rule: put.induct) auto

lemma keys_emplace: "keys (emplace k v m) = insert k (keys m)"
  by (cases "map_of m k") (auto simp: emplace_def keys_put dest: map_of_SomeD intro: rev_image_eqI)

lemma map_of_keys: "map_of m k = Some v \<Longrightarrow> k \<in> keys m"
  by (auto dest: map_of_SomeD intro: rev_image_eqI)

lemma keys_split:
  assumes "split_area sz sp k off m = Some (h, m')"
  shows "keys m' \<subseteq> insert (k + off) (keys m) \<and> h = k + off"
proof -
  obtain v where v: "map_of m k = Some v" "h = k + off"
    "m' = emplace (k + off) (snd (sp off v)) (put k (fst (sp off v)) m)"
    using assms by (auto simp: split_area_def bind_iff)
  have "keys m' = insert (k + off) (insert k (keys m))" unfolding v(3) keys_emplace keys_put ..
  then show ?thesis using map_of_keys [OF v(1)] v(2) by blast
qed

lemma keys_carve:
  assumes "carve_area sz sp addr len m = Some (h, m')"
  shows "keys m' \<subseteq> keys m \<union> {addr, addr + len}"
proof -
  obtain k v m1 where k: "find_le addr m = Some k" "map_of m k = Some v"
    and m1: "(if addr - k + len \<noteq> sz v then map_option snd (split_area sz sp k (addr - k + len) m)
            else Some m) = Some m1"
    and m2: "(if addr - k \<noteq> 0 then split_area sz sp k (addr - k) m1 else Some (k, m1)) = Some (h, m')"
    using assms unfolding carve_area_def bind_iff by blast
  have "k \<le> addr" using find_le_Some [OF k(1)] by blast
  then have add: "k + (addr - k + len) = addr + len" "k + (addr - k) = addr" by auto
  have "keys m1 \<subseteq> insert (addr + len) (keys m)"
    using m1 keys_split [of sz sp k "addr - k + len" m] unfolding add by (auto split: if_splits)
  moreover have "keys m' \<subseteq> insert addr (keys m1)"
    using m2 keys_split [of sz sp k "addr - k" m1] unfolding add by (auto split: if_splits)
  ultimately show ?thesis by blast
qed

section \<open>Neighbours that differ in their protection at most\<close>

text \<open>
  The byte at \<open>c\<close> and the one below it agree in all that \<open>CanMergeWith\<close> compares, the protection
  excepted.
\<close>

definition joins :: "(nat \<Rightarrow> vma_info option) \<Rightarrow> nat \<Rightarrow> bool" where
  "joins V c \<longleftrightarrow> 0 < c \<and> (\<exists>i j. V (c - 1) = Some i \<and> V c = Some j \<and> i_type i = i_type j \<and> i_name i = i_name j \<and>
     \<not> i_nomerge i \<and> \<not> i_nomerge j \<and>
     (i_type i = Direct \<longrightarrow> (\<exists>p t d d'. i_phys i = Some (p, t, d) \<and> i_phys j = Some (p + 1, t, d'))))"

definition but_prot :: "vma_info \<Rightarrow> vma_info" where
  "but_prot i = i\<lparr>i_prot := 0\<rparr>"

lemma but_protD:
  "but_prot i = but_prot j \<Longrightarrow> i_type i = i_type j \<and> i_name i = i_name j \<and> i_nomerge i = i_nomerge j \<and> i_phys i = i_phys j"
  by (cases i; cases j) (simp add: but_prot_def)

lemma joins_cong:
  assumes same: "\<And>a. map_option but_prot (V a) = map_option but_prot (V' a)"
  shows "joins V c = joins V' c"
proof -
  have "joins W' c" if W: "joins W c" and s: "\<And>a. map_option but_prot (W a) = map_option but_prot (W' a)" for W W'
  proof -
    obtain i j where ij: "0 < c" "W (c - 1) = Some i" "W c = Some j" "i_type i = i_type j" "i_name i = i_name j"
      "\<not> i_nomerge i" "\<not> i_nomerge j"
      "i_type i = Direct \<longrightarrow> (\<exists>p t d d'. i_phys i = Some (p, t, d) \<and> i_phys j = Some (p + 1, t, d'))"
      using W unfolding joins_def by blast
    obtain i' where i': "W' (c - 1) = Some i'" "but_prot i = but_prot i'"
      using s [of "c - 1"] ij(2) by (cases "W' (c - 1)") auto
    obtain j' where j': "W' c = Some j'" "but_prot j = but_prot j'"
      using s [of c] ij(3) by (cases "W' c") auto
    show ?thesis unfolding joins_def
      using ij(1,4-8) i'(1) j'(1) but_protD [OF i'(2)] but_protD [OF j'(2)] by simp
  qed
  then show ?thesis using same by metis
qed

lemma phys_content_last:
  assumes "tiles 0 m hi" "m = ws @ [(k, a)]"
  shows "phys_content m (hi - 1) = Some (p_base a + p_size a - 1, memory_type a, dma_type a)"
proof -
  have w: "areas_wf p_size (\<lambda>_ _. True) 0 (ws @ (k, a) # [])" using tiles_wf assms by simp
  have "0 < p_size a" "hi = k + p_size a"
    using areas_wf_mid(3) [OF w] tiles_end [OF assms(1)] assms(2) by (auto simp: areas_end_append)
  moreover have "phys_content m (k + (p_size a - 1)) = Some (phys_cell a (p_size a - 1))"
    using content_mem [OF w, of k a "k + (p_size a - 1)" phys_cell] assms(2) calculation by simp
  ultimately show ?thesis by (simp add: phys_cell_def)
qed

lemma CanMergeWith_joins:
  assumes wf: "vma_wf lo (ws @ (p, u) # (c, v) # ys)" and can: "CanMergeWith u v"
  shows "joins (vma_content (ws @ (p, u) # (c, v) # ys)) c"
proof -
  let ?m = "ws @ (p, u) # (c, v) # ys"
  have wf2: "vma_wf lo ((ws @ [(p, u)]) @ (c, v) # ys)" using wf by simp
  have u: "0 < v_size u" "vma_ok p u" and v: "0 < v_size v" "vma_ok c v"
    using areas_wf_mid(3,4) [OF wf] areas_wf_mid(3,4) [OF wf2] by auto
  have c: "c = p + v_size u" using vmas.can_adjacent [OF u(2) v(2) can] .
  have "vma_content ?m (p + (v_size u - 1)) = Some (vma_cell u (v_size u - 1))"
    using content_mem [OF wf, of p u "p + (v_size u - 1)" vma_cell] u(1) by simp
  then have i: "vma_content ?m (c - 1) = Some (vma_cell u (v_size u - 1))" using u(1) c by simp
  have j: "vma_content ?m c = Some (vma_cell v 0)"
    using content_mem [OF wf, of c v c vma_cell] v(1) by simp
  have "\<exists>q t d d'. phys_content (phys_areas u) (v_size u - 1) = Some (q, t, d) \<and>
      phys_content (phys_areas v) 0 = Some (q + 1, t, d')" if D: "vtype u = Direct"
  proof -
    have t: "tiles 0 (phys_areas u) (v_size u)" "tiles 0 (phys_areas v) (v_size v)" "direct_continues u v"
      using u(2) v(2) can D by (auto simp: vma_ok_def HasPhysicalBacking_def CanMergeWith_iff)
    obtain k a rs where r: "rev (phys_areas u) = (k, a) # rs"
      using t(1) u(1) tiles_nonempty by (cases "rev (phys_areas u)") auto
    then have pu: "phys_areas u = rev rs @ [(k, a)]" by (metis rev.simps(2) rev_rev_ident)
    obtain k' b zs where pv: "phys_areas v = (k', b) # zs"
      using t(2) v(1) tiles_nonempty by (cases "phys_areas v") auto
    have b: "k' = 0" "0 < p_size b" using t(2) pv by auto
    have sz: "0 < p_size a" using areas_wf_mid(3) [OF tiles_wf [OF t(1), unfolded pu]] .
    have "p_base a + p_size a = p_base b" "memory_type a = memory_type b"
      using t(3) r pv by (auto simp: direct_continues_def)
    moreover have "phys_content (phys_areas v) 0 = Some (p_base b, memory_type b, dma_type b)"
      using pv b by (simp add: phys_cell_def)
    ultimately show ?thesis using phys_content_last [OF t(1) pu] sz by auto
  qed
  moreover have "0 < c" using c u(1) by simp
  ultimately show ?thesis unfolding joins_def i j using can by (simp add: CanMergeWith_iff)
qed

section \<open>What \<open>set_vma\<close> keeps\<close>

lemma set_vma_nodes:
  assumes m: "vma_wf lo m" "FindVMA m addr = Some k" "map_of m k = Some v"
      "0 < n" "addr + n \<le> k + v_size v"
    and f: "\<And>u. vma_ok addr u \<Longrightarrow> v_size u = n \<Longrightarrow> vtype u = vtype v \<Longrightarrow>
      vma_ok addr (f u) \<and> v_size (f u) = n \<and> (\<forall>i < n. vma_cell (f u) i = g (vma_cell u i))"
    and s: "set_vma m addr n f = Some (h, m')"
  shows "keys m' \<subseteq> keys m \<union> {addr, addr + n}"
    and "addr = k \<Longrightarrow> \<not> joins (vma_rewrite addr n g (vma_content m)) addr \<Longrightarrow> map_of m' k \<noteq> None"
    and "addr \<noteq> k \<Longrightarrow> map_of m' k \<noteq> None"
proof -
  obtain xs v1 ys where c: "carve_area v_size vma_split addr n m = Some (addr, xs @ (addr, v1) # ys)"
    "vma_wf lo (xs @ (addr, v1) # ys)" "v_size v1 = n"
    "vma_content (xs @ (addr, v1) # ys) = vma_content m"
    "\<And>i. i < n \<Longrightarrow> vma_cell v1 i = vma_cell v (addr - k + i)"
    "k \<in> insert addr (fst ` set xs)"
    by (rule vmas.carve_area_correct [OF m(1) m(2) [unfolded FindVMA_def] m(3,4,5)], rule that)
  note w = areas_wf_mid [OF c(2)]
  have "vma_cell v1 0 = vma_cell v (addr - k + 0)" using c(5) m(4) by blast
  then have ty: "vtype v1 = vtype v" by (simp add: vma_cell_def)
  note fv = f [OF w(4) c(3) ty]
  have sz: "v_size (f v1) = v_size v1" using fv c(3) by simp
  have ok: "vma_ok addr (f v1)" using fv by simp
  note pa = put_area [OF c(2) sz ok]
  have at: "map_of (xs @ (addr, v1) # ys) addr = Some v1" by (rule map_of_mid [OF w(6)])
  have view: "vma_content (xs @ (addr, f v1) # ys) = vma_rewrite addr n g (vma_content m)"
  proof (rule ext)
    fix a
    show "vma_content (xs @ (addr, f v1) # ys) a = vma_rewrite addr n g (vma_content m) a"
    proof (cases "addr \<le> a \<and> a < addr + n")
      case True
      then have "vma_content m a = Some (vma_cell v1 (a - addr))"
        using content_mem [OF c(2), of addr v1 a vma_cell] c(3,4) by simp
      moreover have "a - addr < n" using True by auto
      ultimately show ?thesis using pa(4) [of vma_cell] True fv c(3) by (simp add: vma_rewrite_def)
    next
      case False
      then show ?thesis using pa(4) [of vma_cell] c(3,4) by (auto simp: vma_rewrite_def)
    qed
  qed
  have merge: "merge_areas CanMergeWith vma_join addr (xs @ (addr, f v1) # ys) = Some (h, m')"
    using s c(1) at pa(1) by (simp add: set_vma_def CarveVMA_def MergeAdjacent_vma_def)
  obtain v2 ys2 where n: "join_next CanMergeWith vma_join addr (xs @ (addr, f v1) # ys) = Some (xs @ (addr, v2) # ys2)"
    "vma_wf lo (xs @ (addr, v2) # ys2)"
    "vma_content (xs @ (addr, v2) # ys2) = vma_content (xs @ (addr, f v1) # ys)"
    "v2 = f v1 \<and> ys2 = ys \<and> (\<forall>e zs. ys = e # zs \<longrightarrow> \<not> CanMergeWith (f v1) (snd e)) \<or>
     (\<exists>e. ys = e # ys2 \<and> CanMergeWith (f v1) (snd e) \<and> v2 = vma_join (f v1) (snd e))"
  proof (rule vmas.join_next_correct [OF pa(2)])
    show "n' = addr + v_size (f v1)" if "ys = (n', w) # zs" "CanMergeWith (f v1) w" for n' w zs
      using vmas.can_adjacent [OF ok _ that(2)] areas_wf_mid(5) [OF pa(2)] that(1) by simp
  qed (rule that)
  obtain xs' k' v' where p: "join_prev CanMergeWith vma_join addr (xs @ (addr, v2) # ys2) = Some (k', xs' @ (k', v') # ys2)"
    "k' = addr \<and> v' = v2 \<and> xs' = xs \<and> (\<forall>e ws. xs = ws @ [e] \<longrightarrow> \<not> CanMergeWith (snd e) v2) \<or>
     (\<exists>e. xs = xs' @ [e] \<and> fst e = k' \<and> CanMergeWith (snd e) v2 \<and> v' = vma_join (snd e) v2)"
    by (rule vmas.join_prev_keyed [OF n(2)])
  have m': "m' = xs' @ (k', v') # ys2" using merge n(1) p(1) by (auto simp: merge_areas_def)
  have sub: "keys ys2 \<subseteq> keys ys" using n(4) by auto
  have "keys m' \<subseteq> keys (xs @ (addr, v1) # ys)" using p(2) sub unfolding m' by auto
  then show "keys m' \<subseteq> keys m \<union> {addr, addr + n}" using keys_carve [OF c(1)] by blast
  have in_dom: "map_of m' k \<noteq> None" if "k \<in> keys m'" using that by (simp add: map_of_eq_None_iff)
  show "map_of m' k \<noteq> None" if "addr \<noteq> k"
    by (rule in_dom) (use c(6) that p(2) in \<open>auto simp: m'\<close>)
  show "map_of m' k \<noteq> None" if a: "addr = k" and nj: "\<not> joins (vma_rewrite addr n g (vma_content m)) addr"
  proof (rule in_dom)
    from p(2) show "k \<in> keys m'"
    proof
      assume "k' = addr \<and> v' = v2 \<and> xs' = xs \<and> (\<forall>e ws. xs = ws @ [e] \<longrightarrow> \<not> CanMergeWith (snd e) v2)"
      then show ?thesis using a by (auto simp: m')
    next
      assume "\<exists>e. xs = xs' @ [e] \<and> fst e = k' \<and> CanMergeWith (snd e) v2 \<and> v' = vma_join (snd e) v2"
      then obtain q u where e: "xs = xs' @ [(q, u)]" "CanMergeWith u v2" by auto
      have "vma_wf lo (xs' @ (q, u) # (addr, v2) # ys2)" using n(2) e(1) by simp
      from CanMergeWith_joins [OF this e(2)] have "joins (vma_content (xs @ (addr, v2) # ys2)) addr"
        using e(1) by simp
      then show ?thesis using nj unfolding n(3) view by simp
    qed
  qed
qed

end
