(* ===== verification/Protection.thy ===== *)
theory Protection
  imports Map_Memory Vma_Join
begin

text \<open>
  Protection and names of virtual memory in \<open>src/src/core/memory.cpp\<close>: \<open>QueryProtection\<close>,
  \<open>ProtectBytes\<close>, \<open>Protect\<close>, \<open>SealGuestExecutable\<close>, \<open>NameVirtualRange\<close> and \<open>SetDirectMemoryType\<close>.
\<close>

section \<open>Protection\<close>

text \<open>The outputs of \<open>QueryProtection\<close>; a caller passes null for those it does not want.\<close>

record ProtectionInfo =
  pr_start :: u64
  pr_end :: u64
  pr_prot :: MemoryProt
  pr_generation :: "64 word"

definition QueryProtection :: "u64 \<Rightarrow> MemoryManager \<Rightarrow> (s32 + ProtectionInfo) option" where
  "QueryProtection addr s =
     (if addr < SystemManagedVirtualBase (impl s) then Some (Inl KERNEL_EACCES)
      else do {
        k \<leftarrow> FindVMA (vma_map s) addr;
        vma \<leftarrow> map_of (vma_map s) k;
        Some (if IsFree vma then Inl KERNEL_EACCES
              else Inr \<lparr>pr_start = v_base vma, pr_end = add64 (v_base vma) (v_size vma), pr_prot = prot vma,
                        pr_generation = mapping_generation s\<rparr>) })"

text \<open>\<open>MemoryPermission\<close> of \<open>src/src/core/address_space.h\<close>.\<close>

abbreviation PermRead :: u32 where "PermRead \<equiv> 1"
abbreviation PermWrite :: u32 where "PermWrite \<equiv> 2"
abbreviation PermReadWrite :: u32 where "PermReadWrite \<equiv> 3"
abbreviation PermExecute :: u32 where "PermExecute \<equiv> 4"

definition host_perms :: "MemoryProt \<Rightarrow> u32" where
  "host_perms p =
     ((if True_flag (p AND CpuRead) then PermRead else 0) OR
      (if True_flag (p AND CpuReadWrite) then PermReadWrite else 0) OR
      (if True_flag (p AND CpuExec) then PermExecute else 0) OR
      (if True_flag (p AND GpuRead) then PermRead else 0) OR
      (if True_flag (p AND GpuWrite) then PermWrite else 0) OR
      (if True_flag (p AND GpuReadWrite) then PermReadWrite else 0))"

text \<open>The protection that a virtual area of a type records: some types hide the execute permission.\<close>

definition recorded_prot :: "VMAType \<Rightarrow> MemoryProt \<Rightarrow> MemoryProt" where
  "recorded_prot ty p =
     (if ty = Direct \<or> ty = Pooled \<or> ty = File then append_read p AND NOT CpuExec else append_read p)"

text \<open>
  The code reads the type of the entry again, through its reference, after carving and merging.  A merge
  with the area below erases the node of an entry that starts at \<open>addr\<close>: the read is then undefined,
  and there is no result.
\<close>

definition ProtectBytes ::
  "u64 \<Rightarrow> VirtualMemoryArea \<Rightarrow> u64 \<Rightarrow> MemoryProt \<Rightarrow> MemoryManager \<Rightarrow> (u64 \<times> MemoryManager) option" where
  "ProtectBytes addr vma_base len new_prot s =
     (let start_in_vma = sub64 addr (v_base vma_base);
          adjusted_size = min (sub64 (v_size vma_base) start_in_vma) len;
          ty = vtype vma_base
      in if ty = VFree \<or> ty = PoolReserved then Some (adjusted_size, s)
         else do {
           (_, vm) \<leftarrow> set_vma (vma_map s) addr adjusted_size (\<lambda>v. v\<lparr>prot := recorded_prot ty new_prot\<rparr>);
           base_now \<leftarrow> map_of vm (v_base vma_base);
           Some (adjusted_size,
             emit_if (vtype base_now \<noteq> Reserved \<and> new_prot \<noteq> prot vma_base)
               (AsProtect addr adjusted_size (host_perms (append_read new_prot))) (s\<lparr>vma_map := vm\<rparr>)) })"

text \<open>
  The loop of \<open>Protect\<close>.  The entry found never starts above the address asked for, so the
  adjustment for gaps adds nothing; a result that is negative as a signed number would be returned.
\<close>

partial_function (option) protect_loop ::
  "u64 \<Rightarrow> u64 \<Rightarrow> u64 \<Rightarrow> MemoryProt \<Rightarrow> MemoryManager \<Rightarrow> (s32 \<times> MemoryManager) option" where
  "protect_loop addr len protected_bytes p s =
     (if protected_bytes < len then do {
        k \<leftarrow> FindVMA (vma_map s) (add64 addr protected_bytes);
        vma \<leftarrow> map_of (vma_map s) k;
        (result, s1) \<leftarrow> ProtectBytes (add64 addr protected_bytes) vma (len - protected_bytes) p s;
        (if result \<ge> 2 ^ 63 then Some (to_s32 result, s1)
         else protect_loop addr len (protected_bytes + result) p s1) }
      else Some (ORBIS_OK, s))"

definition Protect :: "u64 \<Rightarrow> u64 \<Rightarrow> MemoryProt \<Rightarrow> MemoryManager \<Rightarrow> (s32 \<times> MemoryManager) option" where
  "Protect addr len p s =
     (if len = 0 then Some (ORBIS_OK, s)
      else do {
        assert_valid (vma_map s) addr len;
        (r, s1) \<leftarrow> protect_loop addr len 0 p (BeginMutation s);
        Some (r, FinishMutation s1) })"

section \<open>Sealing executable memory\<close>

partial_function (option) seal_loop :: "VMAMap \<Rightarrow> u64 \<Rightarrow> u64 \<Rightarrow> s32 option" where
  "seal_loop m end_addr cursor =
     (if cursor < end_addr then do {
        k \<leftarrow> FindVMA m cursor;
        vma \<leftarrow> map_of m k;
        (let vma_end = add64 (v_base vma) (v_size vma) in
         if v_base vma > cursor \<or> IsFree vma \<or> vtype vma = Reserved \<or> vtype vma = PoolReserved \<or>
            \<not> True_flag (prot vma AND CpuExec) \<or> True_flag (prot vma AND CpuWrite)
         then Some KERNEL_EACCES
         else if vma_end \<le> cursor then Some KERNEL_EACCES
         else seal_loop m end_addr (min end_addr vma_end)) }
      else Some ORBIS_OK)"

definition SealGuestExecutable :: "u64 \<Rightarrow> u64 \<Rightarrow> MemoryManager \<Rightarrow> (s32 \<times> MemoryManager) option" where
  "SealGuestExecutable addr len s =
     (if len = 0 then Some (ORBIS_OK, s)
      else do {
        valid \<leftarrow> IsValidMapping (vma_map s) addr len;
        (if \<not> valid \<or> addr > minus_one64 - len then Some (KERNEL_EACCES, s)
         else do {
           r \<leftarrow> seal_loop (vma_map s) (addr + len) addr;
           Some (r, emit_if (r = ORBIS_OK) (AsProtect addr len (PermRead OR PermExecute)) s) }) })"

section \<open>Names\<close>

text \<open>
  The loop of \<open>NameVirtualRange\<close>, on the handle of the current entry; the result of carving is the
  handle the merge starts from.
\<close>

partial_function (option) name_loop ::
  "nat option \<Rightarrow> u64 \<Rightarrow> u64 \<Rightarrow> string \<Rightarrow> VMAMap \<Rightarrow> VMAMap option" where
  "name_loop it current_addr remaining_size name m =
     (case it of
        None \<Rightarrow> Some m
      | Some k \<Rightarrow>
          if remaining_size > 0 then do {
            v \<leftarrow> map_of m k;
            let size_in_vma = min remaining_size (sub64 (v_size v) (sub64 current_addr (v_base v)));
            (h, m1) \<leftarrow> (if IsFree v then Some (k, m)
                        else if size_in_vma < v_size v then do {
                          (h, m1) \<leftarrow> CarveVMA m current_addr size_in_vma;
                          w \<leftarrow> map_of m1 h;
                          Some (h, put h (w\<lparr>vname := name\<rparr>) m1) }
                        else Some (k, put k (v\<lparr>vname := name\<rparr>) m));
            (h2, m2) \<leftarrow> MergeAdjacent_vma m1 h;
            w2 \<leftarrow> map_of m2 h2;
            name_loop (if v_base w2 + v_size w2 \<le> current_addr + size_in_vma then next_key h2 m2 else Some h2)
              (current_addr + size_in_vma) (remaining_size - size_in_vma) name m2 }
          else Some m)"

definition NameVirtualRange :: "u64 \<Rightarrow> u64 \<Rightarrow> string \<Rightarrow> MemoryManager \<Rightarrow> MemoryManager option" where
  "NameVirtualRange virtual_addr len name s = do {
     let aligned_size = AlignUp len KB16;
     let aligned_addr = AlignDown virtual_addr KB16;
     assert_valid (vma_map s) aligned_addr aligned_size;
     k \<leftarrow> FindVMA (vma_map s) aligned_addr;
     m \<leftarrow> name_loop (Some k) aligned_addr aligned_size name (vma_map s);
     Some (FinishMutation (BeginMutation s\<lparr>vma_map := m\<rparr>)) }"

section \<open>Memory types\<close>

text \<open>The inner loop of \<open>SetDirectMemoryType\<close> over the physical areas of the carved entry.\<close>

primrec retype_phys :: "PhysMap \<Rightarrow> s32 \<Rightarrow> PhysMap \<Rightarrow> PhysMap option" where
  "retype_phys [] t dm = Some dm"
| "retype_phys (e # pa) t dm = do {
     (h, dm1) \<leftarrow> CarvePhysArea dm (p_base (snd e)) (p_size (snd e));
     a \<leftarrow> map_of dm1 h;
     retype_phys pa t (put h (a\<lparr>memory_type := t\<rparr>) dm1) }"

partial_function (option) retype_loop ::
  "nat option \<Rightarrow> u64 \<Rightarrow> u64 \<Rightarrow> s32 \<Rightarrow> MemoryManager \<Rightarrow> MemoryManager option" where
  "retype_loop it current_addr remaining_size t s =
     (case it of
        None \<Rightarrow> Some s
      | Some k \<Rightarrow>
          if remaining_size > 0 then do {
            v \<leftarrow> map_of (vma_map s) k;
            let size_in_vma = min remaining_size (sub64 (v_size v) (sub64 current_addr (v_base v)));
            (h, s1) \<leftarrow> (if vtype v = Direct \<or> vtype v = Pooled then do {
                          (h, vm) \<leftarrow> CarveVMA (vma_map s) current_addr size_in_vma;
                          w \<leftarrow> map_of vm h;
                          dm \<leftarrow> retype_phys (phys_areas w) t (dmem_map s);
                          Some (h, s\<lparr>dmem_map := dm, vma_map := put h
                            (w\<lparr>phys_areas := map (\<lambda>(off, a). (off, a\<lparr>memory_type := t\<rparr>)) (phys_areas w)\<rparr>) vm\<rparr>) }
                        else Some (k, s));
            (h2, vm2) \<leftarrow> MergeAdjacent_vma (vma_map s1) h;
            w2 \<leftarrow> map_of vm2 h2;
            retype_loop (if v_base w2 + v_size w2 \<le> current_addr + size_in_vma then next_key h2 vm2 else Some h2)
              (current_addr + size_in_vma) (remaining_size - size_in_vma) t (s1\<lparr>vma_map := vm2\<rparr>) }
          else Some s)"

definition SetDirectMemoryType :: "u64 \<Rightarrow> u64 \<Rightarrow> s32 \<Rightarrow> MemoryManager \<Rightarrow> (s32 \<times> MemoryManager) option" where
  "SetDirectMemoryType addr len t s = do {
     assert_valid (vma_map s) addr len;
     k \<leftarrow> FindVMA (vma_map s) addr;
     s1 \<leftarrow> retype_loop (Some k) addr len t (BeginMutation s);
     Some (ORBIS_OK, FinishMutation s1) }"

section \<open>Rewriting cells of the virtual map\<close>

text \<open>Only the virtual map changes, on the addresses of \<open>A\<close>, cell by cell; type and backing stay.\<close>

definition rewritten :: "(vma_info \<Rightarrow> vma_info) \<Rightarrow> nat set \<Rightarrow> MemoryManager \<Rightarrow> MemoryManager \<Rightarrow> bool" where
  "rewritten g A s s' \<longleftrightarrow> mm_wf s' \<and> same_frame s s' \<and> fmem_map s' = fmem_map s \<and> dmem_map s' = dmem_map s \<and>
     vma_at s' = (\<lambda>a. if a \<in> A then map_option g (vma_at s a) else vma_at s a)"

lemma rewritten_refl: "mm_wf s \<Longrightarrow> (\<And>a i. a \<in> A \<Longrightarrow> vma_at s a = Some i \<Longrightarrow> g i = i) \<Longrightarrow> rewritten g A s s"
  by (auto simp: rewritten_def same_frame_refl fun_eq_iff map_option_case split: option.splits)

lemma rewritten_trans:
  "rewritten g A s t \<Longrightarrow> rewritten g B t u \<Longrightarrow> A \<inter> B = {} \<Longrightarrow> rewritten g (A \<union> B) s u"
  unfolding rewritten_def using same_frame_trans [of s t u] by (simp add: fun_eq_iff) blast

lemma rewritten_empty: "mm_wf s \<Longrightarrow> rewritten g {} s s"
  by (rule rewritten_refl) simp_all

lemma rewritten_covered: "rewritten g A s s' \<Longrightarrow> covered (vma_map s') addr len = covered (vma_map s) addr len"
  by (auto simp: rewritten_def covered_def)

lemma rewritten_emit [simp]: "rewritten g A s (emit_if c e t) = rewritten g A s t"
  by (auto simp: rewritten_def same_frame_def emit_if_def emit_def mm_wf_def dmem_wf_def)

lemma mm_wf_view:
  assumes wf: "mm_wf s" and vm: "vma_wf 0 vm" "vma_end 0 vm = vma_end 0 (vma_map s)"
    and keep: "\<And>a. map_option (\<lambda>i. (i_type i, i_phys i)) (vma_content vm a) = map_option (\<lambda>i. (i_type i, i_phys i)) (vma_at s a)"
    and free: "\<And>a i. vma_content vm a = Some i \<Longrightarrow> i_type i = VFree \<Longrightarrow> i = free_info"
  shows "mm_wf (s\<lparr>vma_map := vm\<rparr>)"
  using mm_wfD [OF wf] vm flex_ok_same [of "vma_at s" "fmem_at s", OF _ keep] free
  unfolding mm_wf_def dmem_wf_def by simp

text \<open>A change of attributes that keeps base, size, type and backing, over part of one entry.\<close>

lemma set_vma_rewritten:
  assumes wf: "mm_wf s" and k: "FindVMA (vma_map s) addr = Some k" "map_of (vma_map s) k = Some v"
    and n: "0 < n" "addr + n \<le> k + v_size v" and ty: "vtype v \<noteq> VFree"
    and f: "\<And>u. v_base (f u) = v_base u \<and> v_size (f u) = v_size u \<and> vtype (f u) = vtype u \<and> phys_areas (f u) = phys_areas u"
    and g: "\<And>u i. vtype u = vtype v \<Longrightarrow> vma_cell (f u) i = g (vma_cell u i)"
  obtains h v' vm where "set_vma (vma_map s) addr n f = Some (h, vm)" "rewritten g {addr..<addr + n} s (s\<lparr>vma_map := vm\<rparr>)"
    "map_of vm h = Some v'" "h \<le> addr" "addr + n \<le> h + v_size v'"
    "keys vm \<subseteq> keys (vma_map s) \<union> {addr, addr + n}"
    "map_of vm k = None \<Longrightarrow> addr = k \<and> joins (vma_rewrite addr n g (vma_at s)) addr"
proof -
  note W = mm_wfD [OF wf]
  obtain h m' v' where s: "set_vma (vma_map s) addr n f = Some (h, m')" "vma_wf 0 m'" "vma_end 0 m' = vma_end 0 (vma_map s)"
    "vma_content m' = vma_rewrite addr n g (vma_at s)"
    "map_of m' h = Some v'" "h \<le> addr" "addr + n \<le> h + v_size v'"
    by (rule set_vma_correct [OF W(1) k n, of f g]) (use f g in \<open>auto simp: vma_ok_def HasPhysicalBacking_def\<close>)
  have f': "vma_ok addr (f u) \<and> v_size (f u) = n \<and> (\<forall>i < n. vma_cell (f u) i = g (vma_cell u i))"
    if "vma_ok addr u" "v_size u = n" "vtype u = vtype v" for u
    using that f [of u] g [of u] by (auto simp: vma_ok_def HasPhysicalBacking_def)
  note nodes = set_vma_nodes [OF W(1) k n f' s(1)]
  have kv: "(k, v) \<in> set (vma_map s)" "k \<le> addr" using map_of_SomeD [OF k(2)] find_le_Some k(1)
    by (auto simp: FindVMA_def)
  have cell: "vma_at s a = Some (vma_cell v (a - k))" if "addr \<le> a" "a < addr + n" for a
    by (rule content_mem [OF W(1) kv(1)]) (use kv n(2) that in linarith)+
  have gv: "g (vma_cell v i) = vma_cell (f v) i" for i using g by simp
  have "i_type (g (vma_cell v i)) = vtype v" "i_phys (g (vma_cell v i)) = phys_content (phys_areas v) i" for i
    unfolding gv using f [of v] by simp_all
  then have view: "map_option (\<lambda>i. (i_type i, i_phys i)) (vma_content m' a) =
      map_option (\<lambda>i. (i_type i, i_phys i)) (vma_at s a)"
    "\<And>i. vma_content m' a = Some i \<Longrightarrow> i_type i = VFree \<Longrightarrow> i = free_info" for a
    unfolding s(4) vma_rewrite_def using cell [of a] W(10) [of a] ty by (auto split: if_splits)
  have "mm_wf (s\<lparr>vma_map := m'\<rparr>)" by (rule mm_wf_view [OF wf s(2,3) view])
  then have "rewritten g {addr..<addr + n} s (s\<lparr>vma_map := m'\<rparr>)"
    using s(3,4) by (auto simp: rewritten_def same_frame_def vma_rewrite_def)
  moreover have "addr = k \<and> joins (vma_rewrite addr n g (vma_at s)) addr" if "map_of m' k = None"
    using nodes(2,3) that by blast
  ultimately show ?thesis using s(1,5-7) nodes(1) by (intro that)
qed

section \<open>Protecting a range\<close>

definition protect_info :: "MemoryProt \<Rightarrow> vma_info \<Rightarrow> vma_info" where
  "protect_info p i = (if i_type i = VFree \<or> i_type i = PoolReserved then i
                       else i\<lparr>i_prot := recorded_prot (i_type i) p\<rparr>)"

lemma but_prot_protect: "but_prot (protect_info p i) = but_prot i"
  by (simp add: protect_info_def but_prot_def)

lemma joins_protected:
  "joins (\<lambda>a. if a \<in> A then map_option (protect_info p) (V a) else V a) c = joins V c"
  by (rule joins_cong) (simp add: option.map_comp comp_def but_prot_protect)

text \<open>
  The areas that begin in a range and can change their protection do not continue the area below them:
  they differ from it in more than the protection, or may not be merged.
\<close>

definition no_joins :: "MemoryManager \<Rightarrow> nat \<Rightarrow> nat \<Rightarrow> bool" where
  "no_joins s lo hi \<longleftrightarrow> (\<forall>c \<in> keys (vma_map s). lo \<le> c \<longrightarrow> c < hi \<longrightarrow>
     (\<exists>i. vma_at s c = Some i \<and> i_type i \<noteq> VFree \<and> i_type i \<noteq> PoolReserved) \<longrightarrow> \<not> joins (vma_at s) c)"

lemma ProtectBytes_step:
  assumes wf: "mm_wf s" and k: "FindVMA (vma_map s) addr = Some k" "map_of (vma_map s) k = Some v"
      "addr < k + v_size v" and len: "0 < len" and n: "n = min (k + v_size v - addr) len"
  obtains (stops) "ProtectBytes addr v len p s = None" "addr = k" "joins (vma_at s) addr"
      "vtype v \<noteq> VFree" "vtype v \<noteq> PoolReserved"
    | (goes_on) s' where "ProtectBytes addr v len p s = Some (n, s')" "rewritten (protect_info p) {addr..<addr + n} s s'"
      "keys (vma_map s') \<subseteq> keys (vma_map s) \<union> {addr, addr + n}"
proof -
  note W = mm_wfD [OF wf]
  have kv: "(k, v) \<in> set (vma_map s)" "k \<le> addr" using map_of_SomeD [OF k(2)] find_le_Some k(1)
    by (auto simp: FindVMA_def)
  have base: "v_base v = k" using areas_wf_mem [OF W(1) kv(1)] by (simp add: vma_ok_def)
  have bnd: "k + v_size v < 2 ^ 62" using areas_wf_below [OF W(1) kv(1)] W(2) by linarith
  have n0: "0 < n" "addr + n \<le> k + v_size v" using n len k(3) by auto
  have s1: "sub64 addr (v_base v) = addr - k" using base kv(2) k(3) bnd by (simp add: sub64_exact)
  have s2: "sub64 (v_size v) (addr - k) = v_size v - (addr - k)" using kv(2) k(3) bnd by (intro sub64_exact) auto
  have sz: "min (sub64 (v_size v) (sub64 addr (v_base v))) len = n" unfolding s1 s2 using n kv(2) by simp
  have cell: "vma_at s a = Some (vma_cell v (a - k))" if "addr \<le> a" "a < addr + n" for a
    by (rule content_mem [OF W(1) kv(1)]) (use kv n0 that in linarith)+
  show ?thesis
  proof (cases "vtype v = VFree \<or> vtype v = PoolReserved")
    case True
    have "rewritten (protect_info p) {addr..<addr + n} s s"
      by (rule rewritten_refl [OF wf]) (use cell True in \<open>auto simp: protect_info_def\<close>)
    then show ?thesis using True sz by (intro goes_on [of s]) (auto simp: ProtectBytes_def Let_def)
  next
    case False
    let ?f = "\<lambda>u. u\<lparr>prot := recorded_prot (vtype v) p\<rparr>"
    have "vma_cell (?f u) i = protect_info p (vma_cell u i)" if "vtype u = vtype v" for u i
      using that False by (simp add: protect_info_def vma_cell_def)
    then obtain h vm where S: "set_vma (vma_map s) addr n ?f = Some (h, vm)"
      "rewritten (protect_info p) {addr..<addr + n} s (s\<lparr>vma_map := vm\<rparr>)"
      "keys vm \<subseteq> keys (vma_map s) \<union> {addr, addr + n}"
      "map_of vm k = None \<Longrightarrow> addr = k \<and> joins (vma_rewrite addr n (protect_info p) (vma_at s)) addr"
      by (rule set_vma_rewritten [OF wf k(1,2) n0, of ?f "protect_info p", rotated 2]) (use False in auto)
    have "vma_rewrite addr n (protect_info p) (vma_at s) =
        (\<lambda>a. if a \<in> {addr..<addr + n} then map_option (protect_info p) (vma_at s a) else vma_at s a)"
      by (simp add: vma_rewrite_def fun_eq_iff)
    then have j: "joins (vma_rewrite addr n (protect_info p) (vma_at s)) addr = joins (vma_at s) addr"
      using joins_protected by metis
    show ?thesis
    proof (cases "map_of vm k")
      case None
      have "ProtectBytes addr v len p s = None" using False sz S(1) base None by (simp add: ProtectBytes_def Let_def)
      moreover have "addr = k" "joins (vma_at s) addr" using S(4) [OF None] j by blast+
      ultimately show ?thesis using False by (intro stops) simp_all
    next
      case (Some w)
      then show ?thesis
        using False sz S(1-3) base by (intro goes_on [where s' = "emit_if (vtype w \<noteq> Reserved \<and> p \<noteq> prot v)
          (AsProtect addr n (host_perms (append_read p))) (s\<lparr>vma_map := vm\<rparr>)"]) (simp_all add: ProtectBytes_def Let_def)
    qed
  qed
qed

lemma key_after_entry:
  assumes wf: "vma_wf 0 m" and k: "map_of m k = Some v" and c: "vma_content m (k + v_size v) \<noteq> None"
  shows "k + v_size v \<in> keys m"
proof -
  obtain xs ys where m: "m = xs @ (k, v) # ys" using map_of_SomeD [OF k] by (meson split_list)
  note w = areas_wf_mid [OF wf [unfolded m]]
  obtain b where "vma_content m (k + v_size v) = Some b" using c by blast
  then obtain k' v' where k': "FindVMA m (k + v_size v) = Some k'" "map_of m k' = Some v'" "k' \<le> k + v_size v"
      "k + v_size v < k' + v_size v'"
    by (rule FindVMA_content [OF wf])
  have mem: "(k', v') \<in> set m" using map_of_SomeD [OF k'(2)] .
  have "(k', v') \<notin> set xs" using areas_wf_below [OF w(1), of k' v'] w(2) k'(4) by auto
  moreover have "(k', v') \<noteq> (k, v)" using k'(4) by auto
  ultimately have "(k', v') \<in> set ys" using mem m by auto
  then have "k' = k + v_size v" using areas_wf_above [OF w(5), of "(k', v')"] k'(3) by simp
  then show ?thesis using mem by (metis fst_conv image_eqI)
qed

lemma protect_loop_rewrites:
  assumes "mm_wf s" "covered (vma_map s) (addr + done) rem" "addr + done + rem < 2 ^ 62"
  shows "(\<forall>r s'. protect_loop addr (done + rem) done p s = Some (r, s') \<longrightarrow>
      r = ORBIS_OK \<and> rewritten (protect_info p) {addr + done..<addr + done + rem} s s') \<and>
    (no_joins s (addr + done) (addr + done + rem) \<longrightarrow> protect_loop addr (done + rem) done p s \<noteq> None)"
  using assms
proof (induction rem arbitrary: "done" s rule: less_induct)
  case (less rem)
  note W = mm_wfD [OF less.prems(1)]
  show ?case
  proof (cases "rem = 0")
    case True
    have "protect_loop addr done done p s = Some (ORBIS_OK, s)" by (subst protect_loop.simps) simp
    then show ?thesis using True less.prems(1) by (simp add: rewritten_empty)
  next
    case False
    then have rem: "0 < rem" by simp
    obtain k v n where k: "FindVMA (vma_map s) (addr + done) = Some k" "map_of (vma_map s) k = Some v"
      "addr + done < k + v_size v" "n = min (k + v_size v - (addr + done)) rem" "0 < n" "n \<le> rem"
      by (rule UnmapMemoryImpl_step [OF less.prems(1,2) rem])
    have mem: "(k, v) \<in> set (vma_map s)" "k \<le> addr + done" using map_of_SomeD [OF k(2)] find_le_Some k(1)
      by (auto simp: FindVMA_def)
    have add: "add64 addr done = addr + done" using less.prems(3) by (intro add64_exact) simp
    show ?thesis
    proof (rule ProtectBytes_step [OF less.prems(1) k(1-3) rem k(4), of p])
      assume st: "ProtectBytes (addr + done) v rem p s = None" "addr + done = k" "joins (vma_at s) (addr + done)"
        "vtype v \<noteq> VFree" "vtype v \<noteq> PoolReserved"
      have "protect_loop addr (done + rem) done p s = None"
        using rem k(1,2) st(1) by (subst protect_loop.simps) (simp add: add)
      moreover have "vma_at s k = Some (vma_cell v 0)"
        using content_mem [OF W(1) mem(1), of k vma_cell] k(3) st(2) by simp
      then have "\<not> no_joins s (addr + done) (addr + done + rem)"
        using st rem mem(1) unfolding no_joins_def by (auto intro!: bexI [of _ "(k, v)"])
      ultimately show ?thesis by simp
    next
      fix s1
      assume s1: "ProtectBytes (addr + done) v rem p s = Some (n, s1)"
        "rewritten (protect_info p) {addr + done..<addr + done + n} s s1"
        "keys (vma_map s1) \<subseteq> keys (vma_map s) \<union> {addr + done, addr + done + n}"
      have step: "protect_loop addr (done + rem) done p s = protect_loop addr (done + n + (rem - n)) (done + n) p s1"
        using rem k(1,2,6) s1(1) less.prems(3) by (subst protect_loop.simps) (simp add: add)
      have c1: "covered (vma_map s1) (addr + (done + n)) (rem - n)"
        unfolding rewritten_covered [OF s1(2)] by (rule covered_mono [OF less.prems(2)]) (use k(6) in auto)
      have wf1: "mm_wf s1" using s1(2) by (simp add: rewritten_def)
      have lt: "rem - n < rem" "addr + (done + n) + (rem - n) < 2 ^ 62" using k(5,6) less.prems(3) by auto
      note IH = less.IH [OF lt(1) wf1 c1 lt(2)]
      have view: "vma_at s1 = (\<lambda>a. if a \<in> {addr + done..<addr + done + n}
          then map_option (protect_info p) (vma_at s a) else vma_at s a)"
        using s1(2) by (simp add: rewritten_def)
      have "no_joins s1 (addr + (done + n)) (addr + (done + n) + (rem - n))"
        if nj: "no_joins s (addr + done) (addr + done + rem)"
        unfolding no_joins_def
      proof (intro ballI impI)
        fix c
        assume c: "c \<in> keys (vma_map s1)" "addr + (done + n) \<le> c" "c < addr + (done + n) + (rem - n)"
          and ty: "\<exists>i. vma_at s1 c = Some i \<and> i_type i \<noteq> VFree \<and> i_type i \<noteq> PoolReserved"
        have at: "vma_at s1 c = vma_at s c" using c(2) unfolding view by simp
        have "c \<in> keys (vma_map s)"
        proof (cases "c = addr + done + n")
          case True
          then have "k + v_size v = c" using c(3) k(3,4) by auto
          moreover have "vma_at s c \<noteq> None" using ty at by auto
          ultimately show ?thesis using key_after_entry [OF W(1) k(2)] by simp
        next
          case False
          then show ?thesis using c(1,2) k(5) s1(3) by auto
        qed
        moreover have "joins (vma_at s1) c = joins (vma_at s) c" unfolding view by (rule joins_protected)
        ultimately show "\<not> joins (vma_at s1) c" using nj c(2,3) k(6) ty at unfolding no_joins_def by auto
      qed
      moreover have "{addr + done..<addr + done + rem} =
          {addr + done..<addr + done + n} \<union> {addr + (done + n)..<addr + (done + n) + (rem - n)}"
        using k(6) by auto
      ultimately show ?thesis using step IH rewritten_trans [OF s1(2)] by auto
    qed
  qed
qed

lemma Protect_rewrites_spec:
  assumes "mm_wf s" "0 < len" "covered (vma_map s) addr len"
  shows "(\<forall>r s'. Protect addr len p s = Some (r, s') \<longrightarrow> r = ORBIS_OK \<and> mm_wf s' \<and>
      mapping_generation s' = mapping_generation s + 2 \<and> fmem_map s' = fmem_map s \<and> dmem_map s' = dmem_map s \<and>
      vma_at s' = (\<lambda>a. if addr \<le> a \<and> a < addr + len
        then map_option (\<lambda>i. if i_type i = VFree \<or> i_type i = PoolReserved then i
                             else i\<lparr>i_prot := recorded_prot (i_type i) p\<rparr>) (vma_at s a)
        else vma_at s a)) \<and>
    (no_joins s addr (addr + len) \<longrightarrow> Protect addr len p s \<noteq> None)"
proof -
  note W = mm_wfD [OF assms(1)]
  have en: "addr + len \<le> vma_end 0 (vma_map s)" by (rule covered_end [OF W(1) assms(3,2)])
  then have av: "assert_valid (vma_map s) addr len = Some ()"
    using assms W(1,3) by (intro assert_valid_covered [of 0]) auto
  have "mm_wf (BeginMutation s)" "covered (vma_map (BeginMutation s)) (addr + 0) len" "addr + 0 + len < 2 ^ 62"
    using assms en W(2) by simp_all
  note L = protect_loop_rewrites [OF this, of p, simplified]
  have nj: "no_joins (BeginMutation s) addr (addr + len) = no_joins s addr (addr + len)"
    by (simp add: no_joins_def)
  have P: "Protect addr len p s = map_option (\<lambda>(r, s1). (r, FinishMutation s1)) (protect_loop addr len 0 p (BeginMutation s))"
    using assms(2) av by (cases "protect_loop addr len 0 p (BeginMutation s)") (auto simp: Protect_def)
  show ?thesis
  proof (intro conjI allI impI)
    fix r s' assume "Protect addr len p s = Some (r, s')"
    then obtain s1 where "protect_loop addr len 0 p (BeginMutation s) = Some (r, s1)" "s' = FinishMutation s1"
      unfolding P by auto
    moreover from this have "r = ORBIS_OK" "rewritten (protect_info p) {addr..<addr + len} (BeginMutation s) s1"
      using L by auto
    ultimately show "r = ORBIS_OK" "mm_wf s'" "mapping_generation s' = mapping_generation s + 2"
      "fmem_map s' = fmem_map s" "dmem_map s' = dmem_map s"
      "vma_at s' = (\<lambda>a. if addr \<le> a \<and> a < addr + len
        then map_option (\<lambda>i. if i_type i = VFree \<or> i_type i = PoolReserved then i
                             else i\<lparr>i_prot := recorded_prot (i_type i) p\<rparr>) (vma_at s a)
        else vma_at s a)"
      by (auto simp: rewritten_def same_frame_def protect_info_def fun_eq_iff intro!: option.map_cong)
  next
    assume "no_joins s addr (addr + len)"
    then show "Protect addr len p s \<noteq> None" using L unfolding P nj by auto
  qed
qed

text \<open>
  C25. \<open>Protect\<close> of a range that lies in the address space.  When it returns, the result is success
  and only the virtual map has changed: inside the range every address that is neither free nor reserved
  for a pool has the protection that was asked for, all bits of it (the mask that the code computes is
  not used), with read added to write and with execute hidden for direct, pooled and file memory;
  everything else, the invariant included, is as before.  It does return when no area that begins in the
  range and whose protection can change continues the area below it; otherwise merging the two can free
  the node that the code still reads.
\<close>

theorem Protect_rewrites:
  assumes "mm_wf s" "0 < len" "covered (vma_map s) addr len"
  shows "(\<forall>r s'. Protect addr len p s = Some (r, s') \<longrightarrow> r = ORBIS_OK \<and> mm_wf s' \<and>
      mapping_generation s' = mapping_generation s + 2 \<and> fmem_map s' = fmem_map s \<and> dmem_map s' = dmem_map s \<and>
      vma_at s' = (\<lambda>a. if addr \<le> a \<and> a < addr + len
        then map_option (\<lambda>i. if i_type i = VFree \<or> i_type i = PoolReserved then i
                             else i\<lparr>i_prot := recorded_prot (i_type i) p\<rparr>) (vma_at s a)
        else vma_at s a)) \<and>
    (no_joins s addr (addr + len) \<longrightarrow> Protect addr len p s \<noteq> None)"
  using assms by (rule Protect_rewrites_spec)

lemma direct_boot_no_joins: "no_joins direct_boot 0x400000 (0x400000 + 0x4000)"
  by (simp add: no_joins_def joins_def direct_boot_def)

theorem Protect_rewrites_witness:
  "\<exists>s'. Protect 0x400000 0x4000 CpuWrite direct_boot = Some (ORBIS_OK, s') \<and>
    i_prot (the (vma_at s' 0x400100)) = CpuReadWrite"
proof -
  have c: "covered (vma_map direct_boot) 0x400000 0x4000"
    by (auto simp: covered_def direct_boot_def free_vma_def)
  show ?thesis
    using Protect_rewrites [OF direct_boot_mm_wf _ c, of CpuWrite] direct_boot_no_joins
    by (auto simp: direct_boot_def recorded_prot_def append_read_def True_flag_def)
qed

text \<open>
  Two reserved areas that differ in their protection only: giving the second one the protection of the
  first merges it into the first, and the read of its type goes to a freed node.
\<close>

definition reserved_boot :: MemoryManager where
  "reserved_boot = boot\<lparr>
     vma_map := [(0x400000, (free_vma 0x400000 0x4000)\<lparr>vtype := Reserved, prot := CpuRead\<rparr>),
       (0x404000, (free_vma 0x404000 0x4000)\<lparr>vtype := Reserved, prot := CpuReadWrite\<rparr>),
       (0x408000, free_vma 0x408000 0x1fffbf8000)]\<rparr>"

lemma reserved_boot_mm_wf: "mm_wf reserved_boot"
proof -
  have e: "flex_addrs (vma_at reserved_boot) = {}" "flex_used (fmem_at reserved_boot) = {}"
    by (auto simp: flex_addrs_def flex_used_def reserved_boot_def boot_eval free_vma_def vma_cell_def free_phys_def
        phys_cell_def split: if_splits)
  have "flex_ok (vma_at reserved_boot) (fmem_at reserved_boot)"
    unfolding flex_ok_def e by (auto simp: reserved_boot_def boot_eval free_phys_def phys_cell_def flex_free_def
        bij_betw_def split: if_splits)
  then show ?thesis
    unfolding mm_wf_def e
    by (auto simp: reserved_boot_def phys_cell_def dmem_wf_def boot_eval free_vma_def free_phys_def at_base_def vma_ok_def
        HasPhysicalBacking_def vma_cell_def free_info_def split: if_splits)
qed

lemma Protect_reads_freed_node: "Protect 0x404000 0x4000 CpuRead reserved_boot = None"
  by (simp add: Protect_def protect_loop.simps [of _ _ 0] ProtectBytes_def Let_def assert_valid_def IsValidMapping_def
    reserved_boot_def boot_eval FindVMA_def free_vma_def add64_def sub64_def BeginMutation_def set_vma_def CarveVMA_def
    carve_area_def split_area_def MergeAdjacent_vma_def merge_areas_def join_next_def join_prev_def CanMergeWith_def
    recorded_prot_def append_read_def True_flag_def erase_def vma_join_def)

section \<open>Sealing a range\<close>

definition sealable :: "vma_info \<Rightarrow> bool" where
  "sealable i \<longleftrightarrow> i_type i \<notin> {VFree, Reserved, PoolReserved} \<and>
     True_flag (i_prot i AND CpuExec) \<and> \<not> True_flag (i_prot i AND CpuWrite)"

lemma seal_loop_spec:
  assumes wf: "vma_wf lo m" "vma_end lo m < two64" and b: "m \<noteq> []" "fst (hd m) \<le> cursor" and le: "cursor \<le> e"
  shows "seal_loop m e cursor = Some
    (if \<forall>a. cursor \<le> a \<longrightarrow> a < e \<longrightarrow> (\<exists>i. vma_content m a = Some i \<and> sealable i)
     then ORBIS_OK else KERNEL_EACCES)"
  using b le
proof (induction "e - cursor" arbitrary: cursor rule: less_induct)
  case less
  show ?case
  proof (cases "cursor < e")
    case False
    then show ?thesis by (subst seal_loop.simps) simp
  next
    case True
    have "(fst (hd m), snd (hd m)) \<in> set m" using b(1) by simp
    then have "\<not> (\<forall>f \<in> set m. cursor < fst f)" using less.prems(2) by force
    then obtain k where k: "find_le cursor m = Some k"
      using find_le_None_iff [OF areas_wf_sorted [OF wf(1)], of cursor] by (cases "find_le cursor m") auto
    obtain xs v ys where m: "m = xs @ (k, v) # ys" "k \<le> cursor" "\<forall>f \<in> set ys. cursor < fst f"
      by (rule find_le_split [OF areas_wf_sorted [OF wf(1)] k])
    note w = areas_wf_mid [OF wf(1) [unfolded m(1)]]
    have kv: "map_of m k = Some v" unfolding m(1) by (rule map_of_mid [OF w(6)])
    have mem: "(k, v) \<in> set m" using m(1) by simp
    have base: "v_base v = k" using w(4) by (simp add: vma_ok_def)
    have en: "add64 (v_base v) (v_size v) = k + v_size v"
      using areas_wf_below [OF wf(1) mem] wf(2) base by (intro add64_exact [THEN trans]) auto
    define bad where "bad \<longleftrightarrow> IsFree v \<or> vtype v = Reserved \<or> vtype v = PoolReserved \<or>
            \<not> True_flag (prot v AND CpuExec) \<or> True_flag (prot v AND CpuWrite)"
    have step: "seal_loop m e cursor =
        (if bad \<or> k + v_size v \<le> cursor then Some KERNEL_EACCES else seal_loop m e (min e (k + v_size v)))"
      using True k kv m(2) base en
      by (subst seal_loop.simps) (simp add: FindVMA_def Let_def bad_def)
    have cell: "vma_content m a = Some (vma_cell v (a - k))" if "k \<le> a" "a < k + v_size v" for a
      by (rule content_mem [OF wf(1) mem that])
    have seal: "sealable (vma_cell v i) = (\<not> bad)" for i by (auto simp: sealable_def bad_def IsFree_def)
    show ?thesis
    proof (cases "k + v_size v \<le> cursor")
      case gap: True
      have "vma_content m cursor = None"
      proof -
        have "vma_content ys cursor = None"
        proof (cases ys)
          case (Cons f zs)
          obtain h u where f: "f = (h, u)" by (cases f)
          have "areas_wf v_size vma_ok h ys" using w(5) Cons f by simp
          then show ?thesis by (rule content_above_None) (use m(3) Cons f in simp)
        qed simp
        then show ?thesis unfolding m(1) content_mid [OF wf(1) [unfolded m(1)]] using gap m(2) by simp
      qed
      then have "\<not> (\<forall>a. cursor \<le> a \<longrightarrow> a < e \<longrightarrow> (\<exists>i. vma_content m a = Some i \<and> sealable i))"
        using True by (metis option.distinct(1) order_refl)
      then show ?thesis using step gap by simp
    next
      case False
      show ?thesis
      proof (cases bad)
        case True
        have "\<not> (\<exists>i. vma_content m cursor = Some i \<and> sealable i)"
          using cell [of cursor] m(2) False seal True by simp
        then show ?thesis using step True \<open>cursor < e\<close> by auto
      next
        case good: False
        let ?c = "min e (k + v_size v)"
        have c: "cursor < ?c" "?c \<le> e" using True False by auto
        have IH: "seal_loop m e ?c = Some
            (if \<forall>a. ?c \<le> a \<longrightarrow> a < e \<longrightarrow> (\<exists>i. vma_content m a = Some i \<and> sealable i)
             then ORBIS_OK else KERNEL_EACCES)"
          by (rule less.hyps) (use c less.prems True in auto)
        have "(\<exists>i. vma_content m a = Some i \<and> sealable i)" if "cursor \<le> a" "a < ?c" for a
          using cell [of a] seal good that m(2) by simp
        then have "(\<forall>a. cursor \<le> a \<longrightarrow> a < e \<longrightarrow> (\<exists>i. vma_content m a = Some i \<and> sealable i)) =
            (\<forall>a. ?c \<le> a \<longrightarrow> a < e \<longrightarrow> (\<exists>i. vma_content m a = Some i \<and> sealable i))"
          using c(1) by (meson not_less order.trans less_imp_le)
        then show ?thesis using step good False IH by simp
      qed
    qed
  qed
qed

lemma SealGuestExecutable_iff_spec:
  assumes "mm_wf s" "vma_map s \<noteq> []" "0 < len" "addr + len < two64"
  shows "SealGuestExecutable addr len s =
    (if \<forall>a. addr \<le> a \<and> a < addr + len \<longrightarrow> (\<exists>i. vma_at s a = Some i \<and> sealable i)
     then Some (ORBIS_OK, emit (AsProtect addr len 5) s) else Some (KERNEL_EACCES, s))"
proof -
  note W = mm_wfD [OF assms(1)]
  let ?P = "\<forall>a. addr \<le> a \<and> a < addr + len \<longrightarrow> (\<exists>i. vma_at s a = Some i \<and> sealable i)"
  obtain valid where v: "IsValidMapping (vma_map s) addr len = Some valid" "valid \<Longrightarrow> fst (hd (vma_map s)) \<le> addr"
  proof (cases "addr < fst (hd (vma_map s))")
    case True
    then show ?thesis using assms(2) by (intro that [of False]) (simp_all add: IsValidMapping_def)
  next
    case False
    have "(fst (hd (vma_map s)), snd (hd (vma_map s))) \<in> set (vma_map s)" using assms(2) by simp
    then have "\<not> (\<forall>f \<in> set (vma_map s). addr < fst f)" using False by force
    then obtain k where k: "find_le addr (vma_map s) = Some k"
      using find_le_None_iff [OF areas_wf_sorted [OF W(1)], of addr] by (cases "find_le addr (vma_map s)") auto
    show ?thesis using assms(2) False k
      by (intro that [of "the (IsValidMapping (vma_map s) addr len)"])
        (auto simp: IsValidMapping_def Let_def FindVMA_def)
  qed
  have imp: "valid" if "?P"
  proof -
    have "vma_at s addr \<noteq> None" "covered (vma_map s) addr len" using that assms(3) by (auto simp: covered_def)
    then show ?thesis using IsValidMapping_covered [OF W(1,3), of addr len] assms(4) v(1) by simp
  qed
  have le: "\<not> addr > minus_one64 - len" using assms(4) by simp
  show ?thesis
  proof (cases valid)
    case False
    then show ?thesis using imp v(1) assms(3) by (auto simp: SealGuestExecutable_def)
  next
    case True
    have "seal_loop (vma_map s) (addr + len) addr = Some (if ?P then ORBIS_OK else KERNEL_EACCES)"
      using seal_loop_spec [OF W(1,3) assms(2) v(2) [OF True], of "addr + len"] by simp
    then show ?thesis using True v(1) le assms(3) by (simp add: SealGuestExecutable_def emit_if_def)
  qed
qed

text \<open>
  C26. \<open>SealGuestExecutable\<close> succeeds exactly when every byte of the range is mapped executable and
  not writable; then it makes the range read and execute only in the host, and otherwise it changes
  nothing.
\<close>

theorem SealGuestExecutable_iff:
  assumes "mm_wf s" "vma_map s \<noteq> []" "0 < len" "addr + len < two64"
  shows "SealGuestExecutable addr len s =
    (if \<forall>a. addr \<le> a \<and> a < addr + len \<longrightarrow> (\<exists>i. vma_at s a = Some i \<and> sealable i)
     then Some (ORBIS_OK, emit (AsProtect addr len 5) s) else Some (KERNEL_EACCES, s))"
  using assms by (rule SealGuestExecutable_iff_spec)

theorem SealGuestExecutable_iff_witness:
  "SealGuestExecutable 0x400000 0x4000 direct_boot = Some (KERNEL_EACCES, direct_boot)"
proof -
  have "\<exists>i. vma_at direct_boot 0x400000 = Some i \<and> \<not> sealable i"
    by (simp add: direct_boot_def sealable_def True_flag_def)
  then have "\<not> (\<forall>a. 0x400000 \<le> a \<and> a < 0x400000 + (0x4000::nat) \<longrightarrow>
      (\<exists>i. vma_at direct_boot a = Some i \<and> sealable i))" by fastforce
  moreover have "vma_map direct_boot \<noteq> []" by (simp add: direct_boot_def)
  ultimately show ?thesis using SealGuestExecutable_iff [OF direct_boot_mm_wf, of "0x4000" "0x400000"] by auto
qed

section \<open>Naming a range\<close>

definition name_info :: "string \<Rightarrow> vma_info \<Rightarrow> vma_info" where
  "name_info name i = (if i_type i = VFree then i else i\<lparr>i_name := name\<rparr>)"

text \<open>
  Where the loop goes on after it merged the entry it worked on: at the entry that holds the next
  address, whether that is the merged one or the one after it.
\<close>

lemma next_entry:
  assumes wf: "vma_wf lo m" and h: "map_of m h = Some w" "h \<le> c" "c \<le> h + v_size w"
    and c: "vma_content m c \<noteq> None"
  obtains k v where "(if v_base w + v_size w \<le> c then next_key h m else Some h) = Some k"
    "map_of m k = Some v" "k \<le> c" "c < k + v_size v" "FindVMA m c = Some k"
proof -
  obtain xs ys where m: "m = xs @ (h, w) # ys" using map_of_Some_split [OF h(1)] by blast
  note W = areas_wf_mid [OF wf [unfolded m]]
  have base: "v_base w = h" using W(4) by (simp add: vma_ok_def)
  have nk: "next_key h m = begin_key ys" unfolding m by (rule next_key_mid [OF W(6,8)])
  obtain b where b: "vma_content m c = Some b" using c by auto
  obtain zs k v us where k: "m = zs @ (k, v) # us" "FindVMA m c = Some k" "map_of m k = Some v" "k \<le> c" "c < k + v_size v"
    by (rule FindVMA_content [OF wf b])
  have kv: "(k, v) \<in> set m" using k(1) by simp
  show ?thesis
  proof (cases "h + v_size w \<le> c")
    case False
    have "FindVMA m c = Some h" unfolding m FindVMA_def
      by (rule find_le_mid [OF W(9) h(2)]) (use W(7) False in force)
    then show ?thesis using False h base by (intro that [of h w]) auto
  next
    case True
    then have ceq: "c = h + v_size w" using h(3) by simp
    have "k \<notin> fst ` set xs" "k \<noteq> h"
    proof -
      show "k \<noteq> h" using k(3,5) h(1) ceq by auto
      show "k \<notin> fst ` set xs"
      proof
        assume "k \<in> fst ` set xs"
        then obtain u where u: "(k, u) \<in> set xs" by auto
        then obtain as bs where m2: "m = as @ (k, u) # (bs @ (h, w) # ys)" using m split_list [OF u] by auto
        have "map_of m k = Some u" unfolding m2 by (rule map_of_mid [OF areas_wf_mid(6) [OF wf [unfolded m2]]])
        then have "u = v" using k(3) by simp
        then show False using areas_wf_below [OF W(1) u] W(2) k(5) ceq by simp
      qed
    qed
    then have "(k, v) \<in> set ys" using kv m by force
    then obtain f zs' where ys: "ys = f # zs'" by (cases ys) auto
    obtain h2 u2 where f: "f = (h2, u2)" by (cases f)
    have h2: "h + v_size w \<le> h2" "areas_wf v_size vma_ok (h2 + v_size u2) zs'" "0 < v_size u2"
      using W(5) ys f by auto
    have "k = h2"
    proof (rule ccontr)
      assume "k \<noteq> h2"
      then have "(k, v) \<in> set zs'" using \<open>(k, v) \<in> set ys\<close> ys f by auto
      then show False using areas_wf_above [OF h2(2), of "(k, v)"] k(4) h2 ceq by simp
    qed
    then show ?thesis using True base nk ys f k by (intro that [of k v]) auto
  qed
qed

lemma name_step:
  assumes wf: "mm_wf s" and k: "FindVMA (vma_map s) c = Some k" "map_of (vma_map s) k = Some v" "c < k + v_size v"
    and n: "0 < n" "c + n \<le> k + v_size v"
  obtains h2 m2 w2 where
    "do { (h, m1) \<leftarrow> (if IsFree v then Some (k, vma_map s)
                        else if n < v_size v then do {
                          (h, m1) \<leftarrow> CarveVMA (vma_map s) c n;
                          w \<leftarrow> map_of m1 h;
                          Some (h, put h (w\<lparr>vname := name\<rparr>) m1) }
                        else Some (k, put k (v\<lparr>vname := name\<rparr>) (vma_map s)));
          MergeAdjacent_vma m1 h } = Some (h2, m2)"
    "rewritten (name_info name) {c..<c + n} s (s\<lparr>vma_map := m2\<rparr>)"
    "map_of m2 h2 = Some w2" "h2 \<le> c" "c + n \<le> h2 + v_size w2"
proof -
  note W = mm_wfD [OF wf]
  have kv: "(k, v) \<in> set (vma_map s)" "k \<le> c" using map_of_SomeD [OF k(2)] find_le_Some k(1)
    by (auto simp: FindVMA_def)
  have cell: "vma_at s a = Some (vma_cell v (a - k))" if "c \<le> a" "a < c + n" for a
    by (rule content_mem [OF W(1) kv(1)]) (use kv n that in linarith)+
  show ?thesis
  proof (cases "vtype v = VFree")
    case True
    obtain xs ys where m: "vma_map s = xs @ (k, v) # ys" using kv(1) by (meson split_list)
    obtain xs' h2 w2 ys' where mg: "merge_areas CanMergeWith vma_join k (xs @ (k, v) # ys) = Some (h2, xs' @ (h2, w2) # ys')"
      "vma_wf 0 (xs' @ (h2, w2) # ys')" "vma_content (xs' @ (h2, w2) # ys') = vma_content (xs @ (k, v) # ys)"
      "vma_end 0 (xs' @ (h2, w2) # ys') = vma_end 0 (xs @ (k, v) # ys)"
      "h2 \<le> k" "k + v_size v \<le> h2 + v_size w2"
      by (rule vmas.merge_areas_correct [OF W(1) [unfolded m]])
    let ?m = "xs' @ (h2, w2) # ys'"
    have "mm_wf (s\<lparr>vma_map := ?m\<rparr>)"
      by (rule mm_wf_view [OF wf mg(2)]) (use mg W(10) m in \<open>auto simp: m\<close>)
    moreover have "map_option (name_info name) (vma_at s a) = vma_at s a" if "c \<le> a" "a < c + n" for a
      using cell [OF that] True by (simp add: name_info_def)
    ultimately have "rewritten (name_info name) {c..<c + n} s (s\<lparr>vma_map := ?m\<rparr>)"
      using mg(3,4) by (auto simp: rewritten_def same_frame_def m [symmetric] fun_eq_iff)
    moreover have "map_of ?m h2 = Some w2" by (rule map_of_mid [OF areas_wf_mid(6) [OF mg(2)]])
    ultimately show ?thesis using mg(1,5,6) m True kv(2) n(2)
      by (intro that [of h2 ?m w2]) (auto simp: IsFree_def MergeAdjacent_vma_def)
  next
    case False
    let ?f = "\<lambda>u. u\<lparr>vname := name\<rparr>"
    have eq: "do { (h, m1) \<leftarrow> (if n < v_size v then do {
                          (h, m1) \<leftarrow> CarveVMA (vma_map s) c n;
                          w \<leftarrow> map_of m1 h;
                          Some (h, put h (?f w) m1) }
                        else Some (k, put k (?f v) (vma_map s)));
          MergeAdjacent_vma m1 h } = set_vma (vma_map s) c n ?f"
    proof (cases "n < v_size v")
      case True
      then show ?thesis by (cases "CarveVMA (vma_map s) c n") (auto simp: set_vma_def bind_assoc split: prod.splits)
    next
      case False
      then have "c = k" "n = v_size v" using n kv(2) by auto
      then have "CarveVMA (vma_map s) c n = Some (k, vma_map s)"
        using k(1,2) by (simp add: CarveVMA_def carve_area_def FindVMA_def)
      then show ?thesis using False k(2) by (simp add: set_vma_def)
    qed
    have "vma_cell (?f u) i = name_info name (vma_cell u i)" if "vtype u = vtype v" for u i
      using that False by (simp add: name_info_def vma_cell_def)
    then obtain h w2 vm where S: "set_vma (vma_map s) c n ?f = Some (h, vm)"
      "rewritten (name_info name) {c..<c + n} s (s\<lparr>vma_map := vm\<rparr>)"
      "map_of vm h = Some w2" "h \<le> c" "c + n \<le> h + v_size w2"
      by (rule set_vma_rewritten [OF wf k(1,2) n False, of ?f "name_info name", rotated]) auto
    then show ?thesis using eq False by (intro that [of h vm w2]) (simp_all add: IsFree_def)
  qed
qed

lemma name_loop_rewrites:
  assumes "mm_wf s" "covered (vma_map s) c rem" "c + rem < 2 ^ 62"
    "0 < rem \<Longrightarrow> FindVMA (vma_map s) c = it"
  shows "\<exists>m. name_loop it c rem name (vma_map s) = Some m \<and>
    rewritten (name_info name) {c..<c + rem} s (s\<lparr>vma_map := m\<rparr>)"
  using assms
proof (induction rem arbitrary: c s it rule: less_induct)
  case (less rem)
  show ?case
  proof (cases "rem = 0")
    case True
    then have "name_loop it c rem name (vma_map s) = Some (vma_map s)"
      by (subst name_loop.simps) (simp split: option.split)
    then show ?thesis using True rewritten_empty [OF less.prems(1)] by simp
  next
    case False
    then have rem: "0 < rem" by simp
    note W = mm_wfD [OF less.prems(1)]
    obtain k v n where k: "FindVMA (vma_map s) c = Some k" "map_of (vma_map s) k = Some v"
      "c < k + v_size v" "n = min (k + v_size v - c) rem" "0 < n" "n \<le> rem"
      by (rule UnmapMemoryImpl_step [OF less.prems(1,2) rem])
    have kv: "(k, v) \<in> set (vma_map s)" "k \<le> c" using map_of_SomeD [OF k(2)] find_le_Some k(1)
      by (auto simp: FindVMA_def)
    have base: "v_base v = k" using areas_wf_mem [OF W(1) kv(1)] by (simp add: vma_ok_def)
    have bnd: "k + v_size v < 2 ^ 62" using areas_wf_below [OF W(1) kv(1)] W(2) by linarith
    have s1: "sub64 c (v_base v) = c - k" using base kv(2) k(3) bnd by (simp add: sub64_exact)
    have s2: "sub64 (v_size v) (c - k) = v_size v - (c - k)" using kv(2) k(3) bnd by (intro sub64_exact) auto
    have sz: "min rem (sub64 (v_size v) (sub64 c (v_base v))) = n" unfolding s1 s2 using k(4) kv(2) by simp
    have n2: "c + n \<le> k + v_size v" using k(3,4) by simp
    obtain h2 m2 w2 where S: "do { (h, m1) \<leftarrow> (if IsFree v then Some (k, vma_map s)
                        else if n < v_size v then do {
                          (h, m1) \<leftarrow> CarveVMA (vma_map s) c n;
                          w \<leftarrow> map_of m1 h;
                          Some (h, put h (w\<lparr>vname := name\<rparr>) m1) }
                        else Some (k, put k (v\<lparr>vname := name\<rparr>) (vma_map s)));
          MergeAdjacent_vma m1 h } = Some (h2, m2)"
      "rewritten (name_info name) {c..<c + n} s (s\<lparr>vma_map := m2\<rparr>)"
      "map_of m2 h2 = Some w2" "h2 \<le> c" "c + n \<le> h2 + v_size w2"
      by (rule name_step [OF less.prems(1) k(1-3,5) n2])
    define it2 where "it2 = (if v_base w2 + v_size w2 \<le> c + n then next_key h2 m2 else Some h2)"
    have it: "it = Some k" using less.prems(4) rem k(1) by simp
    obtain h m1 where op: "(if IsFree v then Some (k, vma_map s)
                        else if n < v_size v then do {
                          (h, m1) \<leftarrow> CarveVMA (vma_map s) c n;
                          w \<leftarrow> map_of m1 h;
                          Some (h, put h (w\<lparr>vname := name\<rparr>) m1) }
                        else Some (k, put k (v\<lparr>vname := name\<rparr>) (vma_map s))) = Some (h, m1)"
      "MergeAdjacent_vma m1 h = Some (h2, m2)" using S(1) by (auto simp: bind_iff)
    have step: "name_loop it c rem name (vma_map s) = name_loop it2 (c + n) (rem - n) name m2"
      by (subst name_loop.simps) (simp add: it rem k(2) sz op S(3) it2_def)
    let ?s = "s\<lparr>vma_map := m2\<rparr>"
    have wf2: "mm_wf ?s" using S(2) by (simp add: rewritten_def)
    have cov: "covered (vma_map ?s) (c + n) (rem - n)"
      unfolding rewritten_covered [OF S(2)] by (rule covered_mono [OF less.prems(2)]) (use k(6) in auto)
    have nx: "FindVMA (vma_map ?s) (c + n) = it2" if "0 < rem - n"
    proof -
      have c2: "vma_content m2 (c + n) \<noteq> None" using cov that by (auto simp: covered_def)
      have wfm: "vma_wf 0 m2" using mm_wfD(1) [OF wf2] by simp
      have "h2 \<le> c + n" using S(4) by simp
      then show ?thesis using next_entry [OF wfm S(3) _ S(5) c2] unfolding it2_def by fastforce
    qed
    have lt: "rem - n < rem" "c + n + (rem - n) < 2 ^ 62" using k(5,6) less.prems(3) by auto
    from less.IH [OF lt(1) wf2 cov lt(2) nx] obtain m where
      m: "name_loop it2 (c + n) (rem - n) name m2 = Some m"
      "rewritten (name_info name) {c + n..<c + n + (rem - n)} ?s (s\<lparr>vma_map := m\<rparr>)" by auto
    have "{c..<c + rem} = {c..<c + n} \<union> {c + n..<c + n + (rem - n)}" using k(6) by auto
    then show ?thesis using step m rewritten_trans [OF S(2) m(2)] by auto
  qed
qed

lemma NameVirtualRange_names_spec:
  assumes "mm_wf s" "0 < len" "len + KB16 \<le> two64" "n = AlignUp len KB16" "b = AlignDown addr KB16"
    "covered (vma_map s) b n"
  shows "\<exists>s'. NameVirtualRange addr len name s = Some s' \<and> mm_wf s' \<and>
    mapping_generation s' = mapping_generation s + 2 \<and> fmem_map s' = fmem_map s \<and> dmem_map s' = dmem_map s \<and>
    vma_at s' = (\<lambda>a. if b \<le> a \<and> a < b + n
      then map_option (\<lambda>i. if i_type i = VFree then i else i\<lparr>i_name := name\<rparr>) (vma_at s a) else vma_at s a)"
proof -
  note W = mm_wfD [OF assms(1)]
  have n: "0 < n" using AlignUp_ge [OF assms(3)] assms(2,4) by simp
  have en: "b + n \<le> vma_end 0 (vma_map s)" by (rule covered_end [OF W(1) assms(6) n])
  then have av: "assert_valid (vma_map s) b n = Some ()"
    using assms W(1,3) n by (intro assert_valid_covered [of 0]) auto
  obtain c where "vma_at s b = Some c" using covered_head [OF assms(6) n] by blast
  then obtain k where k: "FindVMA (vma_map s) b = Some k" by (rule FindVMA_content [OF W(1)])
  have "b + n < 2 ^ 62" using en W(2) by linarith
  from name_loop_rewrites [OF assms(1,6) this k, of name] obtain m where
    m: "name_loop (Some k) b n name (vma_map s) = Some m"
    "rewritten (name_info name) {b..<b + n} s (s\<lparr>vma_map := m\<rparr>)" by auto
  let ?s = "FinishMutation (BeginMutation s\<lparr>vma_map := m\<rparr>)"
  have "NameVirtualRange addr len name s = Some ?s"
    using av k m(1) assms(4,5) by (simp add: NameVirtualRange_def Let_def)
  moreover have "mm_wf ?s"
  proof -
    have "BeginMutation s\<lparr>vma_map := m\<rparr> = BeginMutation (s\<lparr>vma_map := m\<rparr>)" by (simp add: BeginMutation_def)
    then show ?thesis using m(2) by (simp add: rewritten_def)
  qed
  ultimately show ?thesis using m(2) by (intro exI [of _ ?s])
    (auto simp: rewritten_def name_info_def fun_eq_iff intro!: option.map_cong)
qed

text \<open>
  \<open>NameVirtualRange\<close> on a range whose pages the address space covers returns, and gives exactly
  the mapped or reserved addresses of those pages the new name; nothing else changes.
\<close>

theorem NameVirtualRange_names:
  assumes "mm_wf s" "0 < len" "len + KB16 \<le> two64" "n = AlignUp len KB16" "b = AlignDown addr KB16"
    "covered (vma_map s) b n"
  shows "\<exists>s'. NameVirtualRange addr len name s = Some s' \<and> mm_wf s' \<and>
    mapping_generation s' = mapping_generation s + 2 \<and> fmem_map s' = fmem_map s \<and> dmem_map s' = dmem_map s \<and>
    vma_at s' = (\<lambda>a. if b \<le> a \<and> a < b + n
      then map_option (\<lambda>i. if i_type i = VFree then i else i\<lparr>i_name := name\<rparr>) (vma_at s a) else vma_at s a)"
  using assms by (rule NameVirtualRange_names_spec)

theorem NameVirtualRange_names_witness:
  "\<exists>s'. NameVirtualRange 0x400000 0x4000 ''heap'' direct_boot = Some s' \<and>
    i_name (the (vma_at s' 0x400100)) = ''heap''"
proof -
  have c: "covered (vma_map direct_boot) 0x400000 0x4000"
    by (auto simp: covered_def direct_boot_def free_vma_def)
  have a: "(0x4000::nat) = AlignUp 0x4000 KB16" "(0x400000::nat) = AlignDown 0x400000 KB16"
    by (simp_all add: AlignUp_def AlignDown_def)
  show ?thesis
    using NameVirtualRange_names [OF direct_boot_mm_wf _ _ a c, of "''heap''"]
    by (auto simp: direct_boot_def)
qed

end
