(* ===== verification/Memory_Pool.thy ===== *)
theory Memory_Pool
  imports Map_Memory
begin

text \<open>
  Pool memory in \<open>src/src/core/memory.cpp\<close>: \<open>PoolCommit\<close> backs part of a pool reservation with pooled
  direct memory, \<open>PoolDecommit\<close> gives it back.
\<close>

section \<open>Committing\<close>

text \<open>The loop over \<open>dmem_map\<close> that takes pooled areas in address order.\<close>

partial_function (option) commit_loop ::
  "s32 \<Rightarrow> u64 \<Rightarrow> nat option \<Rightarrow> u64 \<Rightarrow> u64 \<Rightarrow> PhysMap \<Rightarrow> MemoryManager \<Rightarrow>
     (PhysMap \<times> u64 \<times> MemoryManager) option" where
  "commit_loop mtype mapped_addr handle current_addr remaining_size pa s =
     (case handle of
        None \<Rightarrow> Some (pa, remaining_size, s)
      | Some h \<Rightarrow>
          if remaining_size = 0 then Some (pa, remaining_size, s)
          else do {
            a \<leftarrow> map_of (dmem_map s) h;
            (if dma_type a \<noteq> PPooled
             then commit_loop mtype mapped_addr (next_key h (dmem_map s)) current_addr remaining_size pa s
             else do {
               (area, h2, dm) \<leftarrow> set_phys (dmem_map s) (p_base a) (min remaining_size (p_size a))
                                   (\<lambda>a. a\<lparr>dma_type := Committed, memory_type := mtype\<rparr>);
               pa' \<leftarrow> add_phys_area (current_addr - mapped_addr) area pa;
               commit_loop mtype mapped_addr (next_key h2 dm)
                 (current_addr + min remaining_size (p_size a)) (remaining_size - min remaining_size (p_size a)) pa'
                 (emit (AsMap current_addr (min remaining_size (p_size a)) (p_base area) False)
                   (s\<lparr>dmem_map := dm\<rparr>)) }) })"

definition pool_area :: "MemoryProt \<Rightarrow> VirtualMemoryArea \<Rightarrow> VirtualMemoryArea" where
  "pool_area prot0 v = v\<lparr>disallow_merge := False, prot := append_read prot0, vname := ''anon'', vtype := Pooled,
     phys_areas := []\<rparr>"

text \<open>
  The checks look at the aligned address, the carve uses the address as given.  Each return ends the
  generation's mutation.
\<close>

definition PoolCommit :: "u64 \<Rightarrow> u64 \<Rightarrow> MemoryProt \<Rightarrow> s32 \<Rightarrow> MemoryManager \<Rightarrow> (s32 \<times> MemoryManager) option" where
  "PoolCommit virtual_addr len prot0 mtype s0 = do {
     let s = BeginMutation s0;
     assert_valid (vma_map s) virtual_addr len;
     let mapped_addr = AlignUp virtual_addr KB64;
     k \<leftarrow> FindVMA (vma_map s) mapped_addr;
     vma \<leftarrow> map_of (vma_map s) k;
     (if vtype vma \<noteq> PoolReserved then Some (KERNEL_EINVAL, FinishMutation s)
      else if \<not> Contains vma mapped_addr len then Some (KERNEL_EINVAL, FinishMutation s)
      else if pool_budget s \<le> len then Some (KERNEL_ENOMEM, FinishMutation s)
      else do {
        (h, vm) \<leftarrow> CarveVMA (vma_map s) virtual_addr len;
        v \<leftarrow> map_of vm h;
        (pa, remaining, s1) \<leftarrow> commit_loop mtype mapped_addr (begin_key (dmem_map s)) mapped_addr len []
           (s\<lparr>pool_budget := pool_budget s - len, vma_map := put h (pool_area prot0 v) vm\<rparr>);
        ASSERT (remaining = 0);
        (_, vm2) \<leftarrow> MergeAdjacent_vma (put h ((pool_area prot0 v)\<lparr>phys_areas := pa\<rparr>) (vma_map s1)) h;
        Some (ORBIS_OK, emit_if (IsValidGpuMapping mapped_addr len) (GpuMap mapped_addr len)
                          (FinishMutation (s1\<lparr>vma_map := vm2\<rparr>))) }) }"

section \<open>Decommitting\<close>

fun all_pool :: "VMAMap \<Rightarrow> u64 \<Rightarrow> bool" where
  "all_pool [] end_addr = True"
| "all_pool ((k, v) # m) end_addr =
     (if add64 (v_base v) (v_size v) \<le> end_addr
      then (vtype v = PoolReserved \<or> vtype v = Pooled) \<and> all_pool m end_addr
      else True)"

primrec repool_phys :: "u64 \<Rightarrow> PhysMap \<Rightarrow> u64 \<Rightarrow> PhysMap \<Rightarrow> PhysMap option" where
  "repool_phys start_in_vma [] size_to_free dm = do { ASSERT (size_to_free = 0); Some dm }"
| "repool_phys start_in_vma (e # m) size_to_free dm =
     (if size_to_free = 0 then Some dm
      else let (off, region) = e;
               dma_offset = max off start_in_vma - off;
               size_in_dma = min size_to_free (p_size region - dma_offset)
           in do {
             (_, _, dm1) \<leftarrow> set_phys dm (p_base region + dma_offset) size_in_dma (\<lambda>a. a\<lparr>dma_type := PPooled\<rparr>);
             repool_phys start_in_vma m (size_to_free - size_in_dma) dm1 })"

definition reserve_area :: "VirtualMemoryArea \<Rightarrow> VirtualMemoryArea" where
  "reserve_area v = v\<lparr>vtype := PoolReserved, prot := NoAccess, disallow_merge := False, vname := ''anon'',
     phys_areas := []\<rparr>"

partial_function (option) decommit_loop :: "u64 \<Rightarrow> u64 \<Rightarrow> MemoryManager \<Rightarrow> MemoryManager option" where
  "decommit_loop current_addr remaining_size s =
     (if remaining_size \<noteq> 0 then do {
        k \<leftarrow> FindVMA (vma_map s) current_addr;
        vma_base \<leftarrow> map_of (vma_map s) k;
        let start_in_vma = sub64 current_addr (v_base vma_base);
        let size_in_vma = min remaining_size (sub64 (v_size vma_base) start_in_vma);
        s1 \<leftarrow> (if vtype vma_base = Pooled then do {
                 h \<leftarrow> find_le start_in_vma (phys_areas vma_base);
                 dm \<leftarrow> repool_phys start_in_vma (entries_from h (phys_areas vma_base)) size_in_vma (dmem_map s);
                 Some (s\<lparr>pool_budget := add64 (pool_budget s) size_in_vma, dmem_map := dm\<rparr>) }
               else Some s);
        (_, vm) \<leftarrow> set_vma (vma_map s1) current_addr size_in_vma reserve_area;
        decommit_loop (add64 current_addr size_in_vma) (remaining_size - size_in_vma) (s1\<lparr>vma_map := vm\<rparr>) }
      else Some s)"

definition PoolDecommit :: "u64 \<Rightarrow> u64 \<Rightarrow> MemoryManager \<Rightarrow> (s32 \<times> MemoryManager) option" where
  "PoolDecommit virtual_addr len s = do {
     assert_valid (vma_map s) virtual_addr len;
     k \<leftarrow> FindVMA (vma_map s) virtual_addr;
     (if \<not> all_pool (entries_from k (vma_map s)) (add64 virtual_addr len) then Some (KERNEL_EINVAL, s)
      else do {
        s1 \<leftarrow> decommit_loop virtual_addr len
               (BeginMutation (emit_if (IsValidGpuMapping virtual_addr len) (GpuUnmap virtual_addr len) s));
        Some (ORBIS_OK, FinishMutation (emit (AsUnmap virtual_addr len) s1)) }) }"

section \<open>What a commit establishes\<close>

definition pooled :: "(nat \<Rightarrow> phys_info option) \<Rightarrow> nat set" where
  "pooled D = {p. \<exists>t. D p = Some (p, t, PPooled)}"

definition committed :: "u64 \<Rightarrow> nat \<Rightarrow> s32 \<Rightarrow> PhysMap \<Rightarrow> PhysMap \<Rightarrow> MemoryManager \<Rightarrow> MemoryManager \<Rightarrow> bool" where
  "committed off n mtype pa pa' s s' \<longleftrightarrow>
     dmem_wf s' \<and> tiles 0 pa' (off + n) \<and> (\<forall>i < off. phys_content pa' i = phys_content pa i) \<and>
     inj_on (backing pa') {off..<off + n} \<and> backing pa' ` {off..<off + n} \<subseteq> pooled (dmem_at s) \<and>
     (\<forall>i \<in> {off..<off + n}. phys_content pa' i = Some (backing pa' i, mtype, Committed)) \<and>
     dmem_at s' = (\<lambda>p. if p \<in> backing pa' ` {off..<off + n} then Some (p, mtype, Committed) else dmem_at s p) \<and>
     (\<exists>dm es. s' = s\<lparr>dmem_map := dm, effects := effects s @ es\<rparr>)"

lemma committed_0: "dmem_wf s \<Longrightarrow> tiles 0 pa off \<Longrightarrow> committed off 0 mtype pa pa s s"
proof -
  assume a: "dmem_wf s" "tiles 0 pa off"
  have "s = s\<lparr>dmem_map := dmem_map s, effects := effects s @ []\<rparr>" by simp
  then have "\<exists>dm es. s = s\<lparr>dmem_map := dm, effects := effects s @ es\<rparr>" by blast
  with a show ?thesis by (simp add: committed_def)
qed

lemma committed_step:
  assumes pa1: "phys_content pa1 = (\<lambda>i. if i < off then phys_content pa i else if i < off + n
       then Some (h + (i - off), mtype, Committed) else None)"
    and s1: "s1 = s\<lparr>dmem_map := dm, effects := effects s @ es\<rparr>"
      "phys_content dm = phys_rewrite h n mtype Committed (dmem_at s)"
    and free: "{h..<h + n} \<subseteq> pooled (dmem_at s)"
    and C: "committed (off + n) m mtype pa1 pa' s1 s'"
  shows "committed off (n + m) mtype pa pa' s s'"
proof -
  note C = C [unfolded committed_def]
  let ?I = "{off..<off + n}" and ?J = "{off + n..<off + n + m}"
  have split: "{off..<off + (n + m)} = ?I \<union> ?J" by auto
  have cI: "phys_content pa' i = Some (h + (i - off), mtype, Committed)" if "i \<in> ?I" for i
    using C pa1 that by simp
  have bI: "backing pa' i = h + (i - off)" if "i \<in> ?I" for i
    using cI [OF that] by (simp add: backing_def)
  have imI: "backing pa' ` ?I = {h..<h + n}"
  proof -
    have "backing pa' ` ?I = (\<lambda>i. h + (i - off)) ` ?I" using bI by (rule image_cong [OF refl])
    also have "\<dots> = {h..<h + n}"
    proof (intro equalityI subsetI)
      fix p assume "p \<in> {h..<h + n}"
      then show "p \<in> (\<lambda>i. h + (i - off)) ` ?I" by (intro image_eqI [of _ _ "off + (p - h)"]) auto
    qed auto
    finally show ?thesis .
  qed
  have d1: "dmem_at s1 = phys_rewrite h n mtype Committed (dmem_at s)" using s1 by simp
  have pool1: "pooled (dmem_at s1) = pooled (dmem_at s) - {h..<h + n}"
    unfolding d1 by (auto simp: pooled_def phys_rewrite_def split: if_splits)
  define N where "N = backing pa' ` ?J"
  have N: "N \<subseteq> pooled (dmem_at s) - {h..<h + n}" using C pool1 by (auto simp: N_def)
  have im: "backing pa' ` {off..<off + (n + m)} = {h..<h + n} \<union> N"
    unfolding split image_Un imI N_def ..
  have "inj_on (backing pa') (?I \<union> ?J)"
  proof (rule inj_on_Un [THEN iffD2], intro conjI)
    show "inj_on (backing pa') ?I" using bI by (auto simp: inj_on_def)
    show "inj_on (backing pa') ?J" using C by simp
    have "backing pa' ` (?I - ?J) \<subseteq> {h..<h + n}" "backing pa' ` (?J - ?I) \<subseteq> N" using imI by (auto simp: N_def)
    then show "backing pa' ` (?I - ?J) \<inter> backing pa' ` (?J - ?I) = {}" using N by blast
  qed
  then have inj: "inj_on (backing pa') {off..<off + (n + m)}" unfolding split .
  have cells: "phys_content pa' i = Some (backing pa' i, mtype, Committed)" if "i \<in> {off..<off + (n + m)}" for i
    using that C cI [of i] bI [of i] unfolding split by auto
  have low: "phys_content pa' i = phys_content pa i" if "i < off" for i using C pa1 that by simp
  have dm': "dmem_at s' p = (if p \<in> {h..<h + n} \<union> N then Some (p, mtype, Committed) else dmem_at s p)" for p
    using C unfolding d1 by (auto simp: N_def phys_rewrite_def)
  obtain dm2 es2 where "s' = s1\<lparr>dmem_map := dm2, effects := effects s1 @ es2\<rparr>" using C by blast
  then have "s' = s\<lparr>dmem_map := dm2, effects := effects s @ (es @ es2)\<rparr>" using s1(1) by simp
  then have ex: "\<exists>dm es. s' = s\<lparr>dmem_map := dm, effects := effects s @ es\<rparr>" by blast
  have "dmem_wf s'" "tiles 0 pa' (off + (n + m))" using C by (simp_all add: add.assoc)
  then show ?thesis
    unfolding committed_def im using inj cells low dm' ex N free by (intro conjI ballI allI impI ext) blast+
qed

lemma find_le_key:
  assumes "phys_wf lo m" "map_of m h = Some a"
  shows "find_le h m = Some h"
proof -
  obtain xs ys where m: "m = xs @ (h, a) # ys" using map_of_Some_split [OF assms(2)] by blast
  note w = areas_wf_mid [OF assms(1) [unfolded m]]
  show ?thesis unfolding m by (rule find_le_mid [OF w(9) order_refl w(8)])
qed

lemma commit_loop_commits:
  assumes "commit_loop mtype mapped handle cur rem pa s = Some (pa', r, s')"
    and "dmem_wf s" "tiles 0 pa off" "cur = mapped + off"
  shows "r \<le> rem \<and> committed off (rem - r) mtype pa pa' s s'"
proof -
  let ?P = "\<lambda>mtype mapped (handle :: nat option) cur rem pa s x. \<forall>off pa' r s'. x = (pa', r, s') \<longrightarrow> dmem_wf s \<longrightarrow>
      tiles 0 pa off \<longrightarrow> cur = mapped + off \<longrightarrow> r \<le> rem \<and> committed off (rem - r) mtype pa pa' s s'"
  have "?P mtype mapped handle cur rem pa s (pa', r, s')"
  proof (rule commit_loop.raw_induct [where P = ?P, OF _ assms(1)])
    fix f mtype mapped handle cur rem pa s x
    assume IH: "\<And>mtype mapped handle cur rem pa s x. f mtype mapped handle cur rem pa s = Some x \<Longrightarrow>
        ?P mtype mapped handle cur rem pa s x"
      and body: "(case handle of
        None \<Rightarrow> Some (pa, rem, s)
      | Some h \<Rightarrow>
          if rem = 0 then Some (pa, rem, s)
          else do {
            a \<leftarrow> map_of (dmem_map s) h;
            (if dma_type a \<noteq> PPooled
             then f mtype mapped (next_key h (dmem_map s)) cur rem pa s
             else do {
               (area, h2, dm) \<leftarrow> set_phys (dmem_map s) (p_base a) (min rem (p_size a))
                                   (\<lambda>a. a\<lparr>dma_type := Committed, memory_type := mtype\<rparr>);
               pa' \<leftarrow> add_phys_area (cur - mapped) area pa;
               f mtype mapped (next_key h2 dm)
                 (cur + min rem (p_size a)) (rem - min rem (p_size a)) pa'
                 (emit (AsMap cur (min rem (p_size a)) (p_base area) False)
                   (s\<lparr>dmem_map := dm\<rparr>)) }) }) = Some x"
    show "?P mtype mapped handle cur rem pa s x"
    proof (intro allI impI)
      fix off pa' r s'
      assume x: "x = (pa', r, s')" and wf: "dmem_wf s" and t: "tiles 0 pa off" and cur: "cur = mapped + off"
      show "r \<le> rem \<and> committed off (rem - r) mtype pa pa' s s'"
      proof (cases "handle = None \<or> rem = 0")
        case True
        then show ?thesis using body x committed_0 [OF wf t] by (cases handle) auto
      next
        case False
        then obtain h where h: "handle = Some h" "0 < rem" by auto
        then obtain a where a: "map_of (dmem_map s) h = Some a" using body by (auto simp: bind_iff)
        have wfd: "phys_wf 0 (dmem_map s)" using wf by (simp add: dmem_wf_def)
        have mem: "(h, a) \<in> set (dmem_map s)" by (rule map_of_SomeD [OF a])
        have a2: "0 < p_size a" "p_base a = h" using areas_wf_mem [OF wfd mem] by (auto simp: at_base_def)
        show ?thesis
        proof (cases "dma_type a = PPooled")
          case False
          then have "f mtype mapped (next_key h (dmem_map s)) cur rem pa s = Some x" using body h a by simp
          from IH [OF this] x wf t cur show ?thesis by blast
        next
          case pool: True
          define n where "n = min rem (p_size a)"
          have n: "0 < n" "n \<le> rem" "h + n \<le> h + p_size a" using h(2) a2(1) by (auto simp: n_def)
          define ar where "ar = \<lparr>p_base = h, p_size = n, memory_type = mtype, dma_type = Committed\<rparr>"
          have ar: "p_base ar = h" "p_size ar = n" "memory_type ar = mtype" "dma_type ar = Committed"
            by (simp_all add: ar_def)
          obtain h2 v' dm where S: "set_phys (dmem_map s) h n (\<lambda>a. a\<lparr>dma_type := Committed, memory_type := mtype\<rparr>) =
              Some (ar, h2, dm)" "phys_wf 0 dm" "phys_end 0 dm = phys_end 0 (dmem_map s)"
            "phys_content dm = phys_rewrite h n mtype Committed (dmem_at s)"
            by (rule set_phys_correct [OF wfd find_le_key [OF wfd a] a n(1,3),
                  of "\<lambda>a. a\<lparr>dma_type := Committed, memory_type := mtype\<rparr>" mtype Committed, folded ar_def]) auto
          obtain k1 pa1 where pa1: "MergeAdjacent_phys (put off ar pa) off = Some (k1, pa1)" "tiles 0 pa1 (off + n)"
            "phys_content pa1 = (\<lambda>i. if i < off then phys_content pa i else if i < off + n
               then Some (h + (i - off), mtype, Committed) else None)"
            using append_merge_tiles [OF t, of ar, unfolded ar] n(1) by blast
          define s1 where "s1 = emit (AsMap cur n h False) (s\<lparr>dmem_map := dm\<rparr>)"
          have s1: "s1 = s\<lparr>dmem_map := dm, effects := effects s @ [AsMap cur n h False]\<rparr>"
            by (simp add: s1_def emit_def)
          have "f mtype mapped (next_key h2 dm) (cur + n) (rem - n) pa1 s1 = Some x"
            using body h a pool a2(2) S(1) pa1(1) cur
            by (simp add: n_def [symmetric] add_phys_area_def ar s1_def)
          from IH [OF this] x have rest: "dmem_wf s1 \<Longrightarrow> r \<le> rem - n \<and>
              committed (off + n) (rem - n - r) mtype pa1 pa' s1 s'"
            using pa1(2) cur by (simp add: add.assoc)
          have "dmem_wf s1"
            using wf S(2-4) by (auto simp: dmem_wf_def s1 phys_rewrite_def simp del: not_None_eq)
          with rest have R: "r \<le> rem - n" "committed (off + n) (rem - n - r) mtype pa1 pa' s1 s'" by auto
          have "dmem_at s p = Some (p, memory_type a, dma_type a)" if "h \<le> p" "p < h + n" for p
            using content_mem [OF wfd mem, of p phys_cell] that n(3) a2(2) by (simp add: phys_cell_def)
          then have "{h..<h + n} \<subseteq> pooled (dmem_at s)" using pool by (auto simp: pooled_def)
          from committed_step [OF pa1(3) s1 S(4) this R(2)] R(1) n(2) show ?thesis by simp
        qed
      qed
    qed
  qed
  then show ?thesis using assms(2-4) by simp
qed

text \<open>The virtual side of a commit: the carved area becomes pool memory with the backing found.\<close>

lemma pool_carve:
  assumes wf: "mm_wf s" and kv: "FindVMA (vma_map s) addr = Some k" "map_of (vma_map s) k = Some v"
    and len: "0 < len" "addr + len \<le> k + v_size v"
    and C: "CarveVMA (vma_map s) addr len = Some (h, vm)" "map_of vm h = Some v1" and pa: "tiles 0 pa len"
  obtains h2 m2 where "h = addr" "MergeAdjacent_vma (put h ((pool_area p v1)\<lparr>phys_areas := pa\<rparr>) vm) h = Some (h2, m2)"
    "vma_wf 0 m2" "vma_end 0 m2 = vma_end 0 (vma_map s)"
    "vma_content m2 = (\<lambda>x. if addr \<le> x \<and> x < addr + len
       then Some (map_info p 0 Pooled ''anon'' (phys_content pa (x - addr))) else vma_at s x)"
proof (rule vmas.carve_put_merge [OF mm_wfD(1) [OF wf] kv(1) [unfolded FindVMA_def] kv(2) len])
  fix m1 w
  assume c: "carve_area v_size vma_split addr len (vma_map s) = Some (addr, m1)" "map_of m1 addr = Some w"
    "v_size w = len" "vma_ok addr w"
    and step: "\<And>v2. v_size v2 = len \<Longrightarrow> vma_ok addr v2 \<Longrightarrow>
      \<exists>k' m2. merge_areas CanMergeWith vma_join addr (put addr v2 m1) = Some (k', m2)
        \<and> vma_wf 0 (put addr v2 m1) \<and> vma_end 0 (put addr v2 m1) = vma_end 0 (vma_map s)
        \<and> vma_wf 0 m2 \<and> vma_end 0 m2 = vma_end 0 (vma_map s)
        \<and> k' \<le> addr \<and> (\<exists>v'. map_of m2 k' = Some v' \<and> addr + len \<le> k' + v_size v')
        \<and> vma_content (put addr v2 m1) = (\<lambda>a. if addr \<le> a \<and> a < addr + len
              then Some (vma_cell v2 (a - addr)) else vma_at s a)
        \<and> vma_content m2 = (\<lambda>a. if addr \<le> a \<and> a < addr + len
              then Some (vma_cell v2 (a - addr)) else vma_at s a)"
  have hm: "h = addr" "vm = m1" "v1 = w" using c(1,2) C(1,2) by (auto simp: CarveVMA_def)
  define v2 where "v2 = (pool_area p w)\<lparr>phys_areas := pa\<rparr>"
  have ok: "v_size v2 = len" "vma_ok addr v2"
    using c(3,4) pa by (auto simp: v2_def pool_area_def vma_ok_def HasPhysicalBacking_def)
  have cell: "vma_cell v2 i = map_info p 0 Pooled ''anon'' (phys_content pa i)" for i
    by (simp add: vma_cell_def v2_def pool_area_def map_info_def True_flag_def)
  from step [OF ok] obtain k' m2 where "merge_areas CanMergeWith vma_join addr (put addr v2 m1) = Some (k', m2)"
    "vma_wf 0 m2" "vma_end 0 m2 = vma_end 0 (vma_map s)"
    "vma_content m2 = (\<lambda>a. if addr \<le> a \<and> a < addr + len
            then Some (vma_cell v2 (a - addr)) else vma_at s a)" by blast
  then show thesis unfolding cell using hm by (intro that [of k' m2]) (simp_all add: MergeAdjacent_vma_def v2_def)
qed

lemma PoolCommit_commits_spec:
  assumes wf: "mm_wf s" and al: "KB64 dvd addr" and len: "0 < len"
    and r: "PoolCommit addr len p mtype s = Some (r, s')"
  shows "if r \<noteq> ORBIS_OK
    then s' = s\<lparr>mapping_generation := mapping_generation s + 2\<rparr> \<and> r \<in> {KERNEL_EINVAL, KERNEL_ENOMEM} \<and>
      (r = KERNEL_ENOMEM \<longrightarrow> pool_budget s \<le> len)
    else mm_wf s' \<and> len < pool_budget s \<and> pool_budget s' = pool_budget s - len \<and> fmem_map s' = fmem_map s \<and>
      mapping_generation s' = mapping_generation s + 2 \<and>
      (\<forall>x \<in> {addr..<addr + len}. \<exists>i. vma_at s x = Some i \<and> i_type i = PoolReserved) \<and>
      (\<exists>b. inj_on b {addr..<addr + len} \<and> b ` {addr..<addr + len} \<subseteq> pooled (dmem_at s) \<and>
        vma_at s' = (\<lambda>x. if x \<in> {addr..<addr + len}
          then Some (map_info p 0 Pooled ''anon'' (Some (b x, mtype, Committed))) else vma_at s x) \<and>
        dmem_at s' = (\<lambda>q. if q \<in> b ` {addr..<addr + len} then Some (q, mtype, Committed) else dmem_at s q))"
proof -
  note W = mm_wfD [OF wf]
  define s0 where "s0 = BeginMutation s"
  have s0: "vma_map s0 = vma_map s" "dmem_map s0 = dmem_map s" "fmem_map s0 = fmem_map s" "mm_wf s0"
    "pool_budget s0 = pool_budget s" by (simp_all add: s0_def wf, simp add: BeginMutation_def)
  have same: "FinishMutation s0 = s\<lparr>mapping_generation := mapping_generation s + 2\<rparr>"
    by (simp add: s0_def BeginMutation_def FinishMutation_def)
  have aligned: "AlignUp addr KB64 = addr" using al by (simp add: AlignUp_def)
  obtain k v where kv: "FindVMA (vma_map s) addr = Some k" "map_of (vma_map s) k = Some v"
    using r by (auto simp: PoolCommit_def Let_def bind_iff aligned s0_def [symmetric] s0(1))
  have mem: "(k, v) \<in> set (vma_map s)" "k \<le> addr" using map_of_SomeD [OF kv(2)] find_le_Some kv(1)
    by (auto simp: FindVMA_def)
  have base: "v_base v = k" using areas_wf_mem [OF W(1) mem(1)] by (simp add: vma_ok_def)
  have en: "k + v_size v < 2 ^ 62" using areas_wf_below [OF W(1) mem(1)] W(2) by linarith
  show ?thesis
  proof (cases "vtype v \<noteq> PoolReserved \<or> \<not> Contains v addr len \<or> pool_budget s \<le> len")
    case True
    then have "s' = FinishMutation s0 \<and> (r = KERNEL_EINVAL \<or> r = KERNEL_ENOMEM \<and> pool_budget s \<le> len)"
      using r kv by (auto simp: PoolCommit_def Let_def bind_iff aligned s0_def [symmetric] s0 split: if_splits)
    then show ?thesis using same by auto
  next
    case False
    then have ty: "vtype v = PoolReserved" and bud: "len < pool_budget s" and cont: "Contains v addr len" by auto
    obtain vm v1 h pa rem s1 h2 vm2 where C:
      "CarveVMA (vma_map s) addr len = Some (h, vm)" "map_of vm h = Some v1"
      "commit_loop mtype addr (begin_key (dmem_map s)) addr len []
         (s0\<lparr>pool_budget := pool_budget s - len, vma_map := put h (pool_area p v1) vm\<rparr>) = Some (pa, rem, s1)"
      "rem = 0" "MergeAdjacent_vma (put h ((pool_area p v1)\<lparr>phys_areas := pa\<rparr>) (vma_map s1)) h = Some (h2, vm2)"
      "r = ORBIS_OK" "s' = emit_if (IsValidGpuMapping addr len) (GpuMap addr len) (FinishMutation (s1\<lparr>vma_map := vm2\<rparr>))"
      using r kv ty cont bud
      by (auto simp: PoolCommit_def Let_def bind_iff aligned s0_def [symmetric] s0 not_le split: if_splits)
    have lt: "addr + len < two64 \<and> addr + len \<le> k + v_size v"
    proof -
      have "add64 addr len \<le> k + v_size v" using cont base by (simp add: Contains_def)
      moreover have "add64 addr len = addr + len"
      proof -
        have "addr - k + len \<le> v_size v" using C(1) kv by (auto simp: CarveVMA_def carve_area_def FindVMA_def bind_iff)
        then have "addr + len \<le> k + v_size v" using mem(2) by simp
        then show ?thesis using en by (intro add64_exact) simp
      qed
      ultimately show ?thesis using en by simp
    qed
    let ?s1 = "s0\<lparr>pool_budget := pool_budget s - len, vma_map := put h (pool_area p v1) vm\<rparr>"
    have "dmem_wf ?s1" using W(4) s0 by (simp add: dmem_wf_def s0_def BeginMutation_def)
    from commit_loop_commits [OF C(3) this, of 0] C(4) have L: "committed 0 len mtype [] pa ?s1 s1" by simp
    have d0: "dmem_at ?s1 = dmem_at s" by (simp add: s0)
    note L = L [unfolded committed_def d0]
    obtain dm es where s1: "s1 = ?s1\<lparr>dmem_map := dm, effects := effects ?s1 @ es\<rparr>" using L by blast
    obtain h3 m2 where m2: "h = addr" "MergeAdjacent_vma (put h ((pool_area p v1)\<lparr>phys_areas := pa\<rparr>) vm) h = Some (h3, m2)"
      "vma_wf 0 m2" "vma_end 0 m2 = vma_end 0 (vma_map s)"
      "vma_content m2 = (\<lambda>x. if addr \<le> x \<and> x < addr + len
         then Some (map_info p 0 Pooled ''anon'' (phys_content pa (x - addr))) else vma_at s x)"
      by (rule pool_carve [OF wf kv len conjunct2 [OF lt] C(1,2), of pa p]) (use L in simp)
    have vm2: "vm2 = m2" using C(5) m2(2) s1 by simp
      have s': "vma_map s' = m2" "fmem_map s' = fmem_map s" "dmem_map s' = dm" "pool_budget s' = pool_budget s - len"
        "flexible_usage s' = flexible_usage s" "total_direct_size s' = total_direct_size s"
        "mapping_generation s' = mapping_generation s + 2"
        unfolding C(7) vm2 s1 by (simp_all add: s0_def emit_if_def emit_def FinishMutation_def BeginMutation_def)
      define b where "b x = backing pa (x - addr)" for x
      have sh: "(\<lambda>x. x - addr) ` {addr..<addr + len} = {0..<0 + len}"
      proof (intro equalityI subsetI)
        fix i assume "i \<in> {0..<0 + len}"
        then show "i \<in> (\<lambda>x. x - addr) ` {addr..<addr + len}" by (intro image_eqI [of _ _ "addr + i"]) auto
      qed auto
      have im: "b ` {addr..<addr + len} = backing pa ` {0..<0 + len}" unfolding sh [symmetric] by (auto simp: b_def)
      have inj: "inj_on b {addr..<addr + len}"
      proof -
        have "inj_on (backing pa \<circ> (\<lambda>x. x - addr)) {addr..<addr + len}"
          by (rule comp_inj_on) (use L sh in \<open>auto simp: inj_on_def\<close>)
        then show ?thesis by (simp add: b_def [abs_def] comp_def)
      qed
      have view: "vma_at s' = (\<lambda>x. if x \<in> {addr..<addr + len}
          then Some (map_info p 0 Pooled ''anon'' (Some (b x, mtype, Committed))) else vma_at s x)"
      proof (rule ext)
        fix x
        show "vma_at s' x = (if x \<in> {addr..<addr + len}
          then Some (map_info p 0 Pooled ''anon'' (Some (b x, mtype, Committed))) else vma_at s x)"
          unfolding s'(1) m2(5) using L
          by (auto simp: b_def)
      qed
      have dview: "dmem_at s' = (\<lambda>q. if q \<in> b ` {addr..<addr + len} then Some (q, mtype, Committed) else dmem_at s q)"
        using L unfolding s'(3) im s1 by simp
      have sub: "b ` {addr..<addr + len} \<subseteq> pooled (dmem_at s)" using L unfolding im by simp
      have cell: "vma_at s x = Some (vma_cell v (x - k))" if "x \<in> {addr..<addr + len}" for x
        by (rule content_mem [OF W(1) mem(1)]) (use that mem lt in auto)
      have ok': "flex_ok (vma_at s') (fmem_at s')"
        by (rule flex_ok_unbacked [where A = "{addr..<addr + len}" and V = "vma_at s"])
          (use W(8) cell view s' ty in \<open>auto simp: map_info_def flex_addrs_def\<close>)
      have "dmem_wf s1" using L by blast
      moreover have "dmem_map s1 = dm" "total_direct_size s1 = total_direct_size s"
        by (simp_all add: s1 s0_def BeginMutation_def)
      ultimately have "dmem_wf s'" using s'(3,6) unfolding dmem_wf_def by metis
      moreover have "\<forall>x i. vma_at s' x = Some i \<longrightarrow> i_type i = VFree \<longrightarrow> i = free_info"
        using W(10) unfolding view by (auto simp: map_info_def)
      ultimately have "mm_wf s'" unfolding mm_wf_def using m2(3,4) W ok' by (simp add: s')
      moreover have "\<forall>x \<in> {addr..<addr + len}. \<exists>i. vma_at s x = Some i \<and> i_type i = PoolReserved"
        using cell ty by simp
      ultimately show ?thesis using C(6) bud s' inj sub view dview by auto
  qed
qed

text \<open>One area that is reserved for a pool holds the whole range.\<close>

definition reserved_range :: "VMAMap \<Rightarrow> nat \<Rightarrow> nat \<Rightarrow> bool" where
  "reserved_range m addr len \<longleftrightarrow> (\<exists>(k, v) \<in> set m. vtype v = PoolReserved \<and> k \<le> addr \<and> addr + len \<le> k + v_size v)"

lemma PoolCommit_result:
  assumes wf: "mm_wf s" and al: "KB64 dvd addr" and len: "0 < len" "addr + len < two64"
    and r: "PoolCommit addr len p mtype s = Some (r, s')"
  shows "r = (if \<not> reserved_range (vma_map s) addr len then KERNEL_EINVAL
    else if pool_budget s \<le> len then KERNEL_ENOMEM else ORBIS_OK)"
proof -
  note W = mm_wfD [OF wf]
  define s0 where "s0 = BeginMutation s"
  have s0: "vma_map s0 = vma_map s" "dmem_map s0 = dmem_map s" "pool_budget s0 = pool_budget s"
    by (simp_all add: s0_def, simp add: BeginMutation_def)
  have aligned: "AlignUp addr KB64 = addr" using al by (simp add: AlignUp_def)
  obtain k v where kv: "FindVMA (vma_map s) addr = Some k" "map_of (vma_map s) k = Some v"
    using r by (auto simp: PoolCommit_def Let_def bind_iff aligned s0_def [symmetric] s0(1))
  have find: "find_le addr (vma_map s) = Some k" using kv(1) by (simp add: FindVMA_def)
  obtain xs u ys where m: "vma_map s = xs @ (k, u) # ys" "k \<le> addr" "\<forall>f \<in> set ys. addr < fst f"
    by (rule find_le_split [OF areas_wf_sorted [OF W(1)] find])
  note w = areas_wf_mid [OF W(1) [unfolded m(1)]]
  have uv: "u = v" using kv(2) m(1) map_of_mid [OF w(6)] by simp
  have base: "v_base v = k" using w(4) uv by (simp add: vma_ok_def)
  have cont: "Contains v addr len \<longleftrightarrow> addr + len \<le> k + v_size v"
    using m(2) base len(2) by (simp add: Contains_def add64_exact)
  have res: "reserved_range (vma_map s) addr len \<longleftrightarrow> vtype v = PoolReserved \<and> Contains v addr len"
  proof
    assume "reserved_range (vma_map s) addr len"
    then obtain k' v' where k': "(k', v') \<in> set (vma_map s)" "vtype v' = PoolReserved" "k' \<le> addr"
        "addr + len \<le> k' + v_size v'"
      unfolding reserved_range_def by blast
    have "(k', v') \<notin> set xs" using areas_wf_below [OF w(1), of k' v'] w(2) k'(4) m(2) len(1) by auto
    moreover have "(k', v') \<notin> set ys" using m(3) k'(3) by auto
    ultimately show "vtype v = PoolReserved \<and> Contains v addr len" using k' m(1) uv cont by auto
  next
    assume "vtype v = PoolReserved \<and> Contains v addr len"
    then show "reserved_range (vma_map s) addr len" unfolding reserved_range_def using m(1,2) uv cont by auto
  qed
  show ?thesis unfolding res
    using r kv by (auto simp: PoolCommit_def Let_def bind_iff aligned s0_def [symmetric] s0 split: if_splits)
qed

text \<open>
  C24. \<open>PoolCommit\<close> of an address that is a multiple of 64 KB, when it returns.  It reports an invalid
  argument exactly when no single area reserved for a pool holds the range, and otherwise too little
  memory exactly when the pool budget does not exceed the size; then nothing but the generation has
  changed.  In all other cases it succeeds: the range is pool memory with the requested protection, each
  of its bytes backed by a pooled byte of direct memory of its own that is now committed with the
  requested memory type; the budget shrinks by the size, nothing else changes in the three maps and the
  invariant holds.
\<close>

theorem PoolCommit_commits:
  assumes wf: "mm_wf s" and al: "KB64 dvd addr" and len: "0 < len" "addr + len < two64"
    and r: "PoolCommit addr len p mtype s = Some (r, s')"
  shows "r = (if \<not> reserved_range (vma_map s) addr len then KERNEL_EINVAL
      else if pool_budget s \<le> len then KERNEL_ENOMEM else ORBIS_OK) \<and>
    (if r \<noteq> ORBIS_OK then s' = s\<lparr>mapping_generation := mapping_generation s + 2\<rparr>
    else mm_wf s' \<and> len < pool_budget s \<and> pool_budget s' = pool_budget s - len \<and> fmem_map s' = fmem_map s \<and>
      mapping_generation s' = mapping_generation s + 2 \<and>
      (\<forall>x \<in> {addr..<addr + len}. \<exists>i. vma_at s x = Some i \<and> i_type i = PoolReserved) \<and>
      (\<exists>b. inj_on b {addr..<addr + len} \<and> b ` {addr..<addr + len} \<subseteq> pooled (dmem_at s) \<and>
        vma_at s' = (\<lambda>x. if x \<in> {addr..<addr + len}
          then Some (map_info p 0 Pooled ''anon'' (Some (b x, mtype, Committed))) else vma_at s x) \<and>
        dmem_at s' = (\<lambda>q. if q \<in> b ` {addr..<addr + len} then Some (q, mtype, Committed) else dmem_at s q)))"
proof -
  have weaken: "(if c then A \<and> B else D) \<Longrightarrow> (if c then A else D)" for c A B D by (simp split: if_splits)
  show ?thesis
    by (rule conjI [OF PoolCommit_result [OF assms] weaken [OF PoolCommit_commits_spec [OF wf al len(1) r]]])
qed

text \<open>A state with a pool reservation and pooled direct memory, for concrete evaluations.\<close>

definition pool_boot :: MemoryManager where
  "pool_boot = boot\<lparr>
     vma_map := [(0x400000, \<lparr>v_base = 0x400000, v_size = 0x20000, phys_areas = [], vtype = PoolReserved, prot = 0,
         vname = ''anon'', fd = 0, disallow_merge = False\<rparr>),
       (0x420000, free_vma 0x420000 0x1fffbe0000)],
     dmem_map := [(0, \<lparr>p_base = 0, p_size = 0x20000, memory_type = 0, dma_type = PPooled\<rparr>),
       (0x20000, free_phys 0x20000 0x1effe0000)], pool_budget := 0x20000\<rparr>"

lemma pool_boot_mm_wf: "mm_wf pool_boot"
proof -
  have e: "flex_addrs (vma_at pool_boot) = {}" "flex_used (fmem_at pool_boot) = {}"
    by (auto simp: flex_addrs_def flex_used_def pool_boot_def boot_eval free_vma_def vma_cell_def free_phys_def
        phys_cell_def split: if_splits)
  have "flex_ok (vma_at pool_boot) (fmem_at pool_boot)"
    unfolding flex_ok_def e by (auto simp: pool_boot_def boot_eval free_phys_def phys_cell_def flex_free_def bij_betw_def
        split: if_splits)
  then show ?thesis
    unfolding mm_wf_def e
    by (auto simp: pool_boot_def phys_cell_def dmem_wf_def boot_eval free_vma_def free_phys_def at_base_def vma_ok_def
        HasPhysicalBacking_def vma_cell_def free_info_def split: if_splits)
qed

lemma pool_boot_commits: "\<exists>y. PoolCommit 0x400000 0x10000 CpuWrite 3 pool_boot = Some (0, y)"
  by (simp add: PoolCommit_def Let_def AlignUp_def assert_valid_def IsValidMapping_def
    commit_loop.simps [of _ _ "Some 0"] commit_loop.simps [of _ _ "Some 0x10000"]
    pool_boot_def boot_eval FindVMA_def free_vma_def add64_def Contains_def entries_from_def
    IsValidGpuMapping_def emit_if_def BeginMutation_def sub64_def pool_area_def add_phys_area_def
    set_phys_def CarvePhysArea_def carve_area_def split_area_def MergeAdjacent_phys_def merge_areas_def
    join_next_def join_prev_def CarveVMA_def MergeAdjacent_vma_def CanMergeWith_def phys_CanMergeWith_def
    free_phys_def FinishMutation_def emit_def erase_def vma_join_def phys_join_def emplace_def phys_split_def
    vma_split_def HasPhysicalBacking_def)

theorem PoolCommit_commits_witness:
  "\<exists>s'. PoolCommit 0x400000 0x10000 CpuWrite 3 pool_boot = Some (ORBIS_OK, s') \<and> mm_wf s' \<and>
    pool_budget s' = 0x10000"
proof -
  obtain s' where s': "PoolCommit 0x400000 0x10000 CpuWrite 3 pool_boot = Some (0, s')" using pool_boot_commits by blast
  have "KB64 dvd 0x400000" by (simp add: dvd_eq_mod_eq_0)
  from PoolCommit_commits [OF pool_boot_mm_wf this _ _ s'] s' show ?thesis by (auto simp: pool_boot_def)
qed

end
