(* ===== verification/Memory_Query.thy ===== *)
theory Memory_Query
  imports Map_Memory
begin

text \<open>
  Queries and copies in \<open>src/src/core/memory.cpp\<close>: \<open>VirtualQuery\<close>, \<open>IsStack\<close>, \<open>CopySparseMemory\<close>,
  \<open>TryWriteBacking\<close>, \<open>SetPrtArea\<close> and \<open>InvalidateMemory\<close>.
\<close>

section \<open>Virtual queries\<close>

record OrbisVirtualQueryInfo =
  vq_start :: u64
  vq_end :: u64
  vq_offset :: u64
  vq_protection :: s32
  vq_memory_type :: s32
  vq_is_flexible :: bool
  vq_is_direct :: bool
  vq_is_stack :: bool
  vq_is_pooled :: bool
  vq_is_committed :: bool
  vq_name :: string

abbreviation MAXIMUM_NAME_LENGTH :: nat where "MAXIMUM_NAME_LENGTH \<equiv> 32"

definition query_info :: "VirtualMemoryArea \<Rightarrow> OrbisVirtualQueryInfo option" where
  "query_info vma = do {
     (off, mt) \<leftarrow> (if vtype vma = Direct
                   then (case phys_areas vma of [] \<Rightarrow> None | (_, a) # _ \<Rightarrow> Some (p_base a, memory_type a))
                   else Some (0, 0));
     Some \<lparr>vq_start = v_base vma, vq_end = add64 (v_base vma) (v_size vma), vq_offset = off,
       vq_protection = (if vtype vma = Reserved \<or> vtype vma = PoolReserved then 0 else sint (prot vma)),
       vq_memory_type = mt, vq_is_flexible = (vtype vma = Flexible), vq_is_direct = (vtype vma = Direct),
       vq_is_stack = (vtype vma = Stack), vq_is_pooled = (vtype vma = PoolReserved \<or> vtype vma = Pooled),
       vq_is_committed = IsMapped vma, vq_name = take MAXIMUM_NAME_LENGTH (vname vma)\<rparr> }"

definition VirtualQuery :: "u64 \<Rightarrow> s32 \<Rightarrow> MemoryManager \<Rightarrow> (s32 + OrbisVirtualQueryInfo) option" where
  "VirtualQuery addr flags s =
     (let query_addr = (if addr < SystemManagedVirtualBase (impl s) then SystemManagedVirtualBase (impl s) else addr)
      in if addr < query_addr \<and> flags = 0 then Some (Inl KERNEL_EACCES)
         else do {
           k \<leftarrow> FindVMA (vma_map s) query_addr;
           (case dropWhile (\<lambda>(_, v). vtype v = VFree \<and> flags = 1) (entries_from k (vma_map s)) of
              [] \<Rightarrow> Some (Inl KERNEL_EACCES)
            | (_, vma) # _ \<Rightarrow> if vtype vma = VFree then Some (Inl KERNEL_EACCES)
                            else map_option Inr (query_info vma)) })"

text \<open>The start and the end are 0 for mappings that are not stacks.\<close>

definition IsStack :: "u64 \<Rightarrow> MemoryManager \<Rightarrow> (s32 + u64 \<times> u64) option" where
  "IsStack addr s = do {
     assert_valid (vma_map s) addr 0;
     k \<leftarrow> FindVMA (vma_map s) addr;
     vma \<leftarrow> map_of (vma_map s) k;
     Some (if IsFree vma then Inl KERNEL_EACCES
           else if vtype vma = Stack then Inr (v_base vma, add64 (v_base vma) (v_size vma)) else Inr (0, 0)) }"

section \<open>Copies\<close>

text \<open>
  \<open>CopySparseMemory\<close>: the guest memory is a function from addresses to bytes.  The loop follows the
  iterator; past the last entry its behaviour is undefined.
\<close>

fun copy_loop :: "(u64 \<Rightarrow> 8 word) \<Rightarrow> VMAMap \<Rightarrow> u64 \<Rightarrow> u64 \<Rightarrow> 8 word list option" where
  "copy_loop mem [] virtual_addr len = (if len = 0 then Some [] else None)"
| "copy_loop mem ((k, vma) # m) virtual_addr len =
     (if len = 0 then Some []
      else let copy_size = min (sub64 (v_size vma) (sub64 virtual_addr k)) len in
        map_option (append (if IsMapped vma then map (\<lambda>i. mem (virtual_addr + i)) [0..<copy_size]
                            else replicate copy_size 0))
          (copy_loop mem m (add64 virtual_addr copy_size) (len - copy_size)))"

definition CopySparseMemory :: "(u64 \<Rightarrow> 8 word) \<Rightarrow> u64 \<Rightarrow> u64 \<Rightarrow> MemoryManager \<Rightarrow> 8 word list option" where
  "CopySparseMemory mem virtual_addr len s = do {
     assert_valid (vma_map s) virtual_addr 0;
     k \<leftarrow> FindVMA (vma_map s) virtual_addr;
     copy_loop mem (entries_from k (vma_map s)) virtual_addr len }"

text \<open>
  \<open>TryWriteBacking\<close>: the entries to write, then the writes to the backing file, each an offset and
  the bytes.  The source pointer does not move between the writes.
\<close>

fun vmas_to_write :: "VMAMap \<Rightarrow> u64 \<Rightarrow> u64 \<Rightarrow> VirtualMemoryArea list option" where
  "vmas_to_write [] virtual_addr len = None"
| "vmas_to_write ((k, v) # m) virtual_addr len =
     (if Overlaps v virtual_addr len \<and> HasPhysicalBacking v
      then map_option (Cons v) (vmas_to_write m virtual_addr len) else Some [])"

fun write_phys :: "u64 \<Rightarrow> PhysMap \<Rightarrow> 8 word list \<Rightarrow> u64 \<Rightarrow> (u64 \<times> 8 word list) list \<times> u64" where
  "write_phys start_in_vma [] bytes len = ([], len)"
| "write_phys start_in_vma ((off, a) # m) bytes len =
     (if len = 0 then ([], len)
      else let start_in_dma = max start_in_vma off - off;
               copy_size = min len (sub64 (p_size a) start_in_dma);
               (ws, len') = write_phys start_in_vma m bytes (len - copy_size)
           in ((p_base a + start_in_dma, take copy_size bytes) # ws, len'))"

fun write_vmas :: "u64 \<Rightarrow> VirtualMemoryArea list \<Rightarrow> 8 word list \<Rightarrow> u64 \<Rightarrow> (u64 \<times> 8 word list) list option" where
  "write_vmas virtual_addr [] bytes len = Some []"
| "write_vmas virtual_addr (v # vs) bytes len = do {
     let start_in_vma = max virtual_addr (v_base v) - v_base v;
     h \<leftarrow> find_le start_in_vma (phys_areas v);
     let (ws, len') = write_phys start_in_vma (entries_from h (phys_areas v)) bytes len;
     rest \<leftarrow> write_vmas virtual_addr vs bytes len';
     Some (ws @ rest) }"

definition TryWriteBacking ::
  "u64 \<Rightarrow> 8 word list \<Rightarrow> u64 \<Rightarrow> MemoryManager \<Rightarrow> (bool \<times> (u64 \<times> 8 word list) list) option" where
  "TryWriteBacking virtual_addr bytes len s = do {
     assert_valid (vma_map s) virtual_addr len;
     k \<leftarrow> FindVMA (vma_map s) virtual_addr;
     vs \<leftarrow> vmas_to_write (entries_from k (vma_map s)) virtual_addr len;
     (if vs = [] then Some (False, [])
      else map_option (Pair True) (write_vmas virtual_addr vs bytes len)) }"

section \<open>The GPU's view\<close>

text \<open>An index beyond the three areas is undefined.\<close>

definition SetPrtArea :: "nat \<Rightarrow> u64 \<Rightarrow> u64 \<Rightarrow> MemoryManager \<Rightarrow> MemoryManager option" where
  "SetPrtArea i address len s =
     (if i < length (prt_areas s)
      then let area = prt_areas s ! i;
               s1 = emit_if (prt_mapped area) (GpuUnmap (prt_start area) (sub64 (prt_end area) (prt_start area))) s
           in Some (emit (GpuMap address len)
                (s1\<lparr>prt_areas := (prt_areas s1)[i := \<lparr>prt_start = address, prt_end = add64 address len,
                                                    prt_mapped = True\<rparr>]\<rparr>))
      else None)"

definition InvalidateMemory :: "bool \<Rightarrow> u64 \<Rightarrow> u64 \<Rightarrow> MemoryManager \<Rightarrow> MemoryManager" where
  "InvalidateMemory has_rasterizer addr len s = emit_if has_rasterizer (GpuInvalidate addr len) s"

section \<open>What a copy reads\<close>

definition sparse_byte :: "(u64 \<Rightarrow> 8 word) \<Rightarrow> (nat \<Rightarrow> vma_info option) \<Rightarrow> nat \<Rightarrow> 8 word" where
  "sparse_byte mem V a = (case V a of
     Some i \<Rightarrow> if i_type i \<in> {VFree, Reserved, PoolReserved} then 0 else mem a | None \<Rightarrow> 0)"

lemma map_chunk:
  "(\<And>i. i < n \<Longrightarrow> f i = (if c then g i else z)) \<Longrightarrow>
     (if c then map g [0..<n] else replicate n z) = map f [0..<n]"
  by (auto intro!: nth_equalityI)

lemma copy_loop_reads:
  assumes "vma_wf lo ((k, v) # m)" "vma_end lo ((k, v) # m) < two64" "k \<le> addr" "addr < k + v_size v"
    "covered ((k, v) # m) addr len"
  shows "copy_loop mem ((k, v) # m) addr len =
    Some (map (\<lambda>i. sparse_byte mem (vma_content ((k, v) # m)) (addr + i)) [0..<len])"
  using assms
proof (induction m arbitrary: lo k v addr len)
  case Nil
  have wf: "0 < v_size v" "k + v_size v < two64" using Nil.prems by auto
  have le: "addr + len \<le> k + v_size v"
  proof (rule ccontr)
    assume "\<not> addr + len \<le> k + v_size v"
    then have "addr \<le> k + v_size v \<and> k + v_size v < addr + len" using Nil.prems(4) by simp
    then have "vma_content [(k, v)] (k + v_size v) \<noteq> None" using Nil.prems(5) unfolding covered_def by blast
    then show False by simp
  qed
  have s: "sub64 addr k = addr - k" "sub64 (v_size v) (addr - k) = v_size v - (addr - k)"
    using Nil.prems(3,4) wf sub64_exact [of k addr] sub64_exact [of "addr - k" "v_size v"] by simp_all
  have n: "min (sub64 (v_size v) (sub64 addr k)) len = len" unfolding s using le Nil.prems(3) by simp
  have "sparse_byte mem (vma_content [(k, v)]) (addr + i) = (if IsMapped v then mem (addr + i) else 0)" if "i < len" for i
    using that le Nil.prems(3) by (auto simp: sparse_byte_def IsMapped_def)
  from map_chunk [of len, OF this] show ?case
    using n by (simp add: Let_def del: content.simps)
next
  case (Cons e m)
  obtain k2 v2 where e: "e = (k2, v2)" by (cases e)
  note w = Cons.prems(1)
  have wf: "vma_wf (k + v_size v) ((k2, v2) # m)" "vma_end (k + v_size v) ((k2, v2) # m) < two64" "0 < v_size v"
    using Cons.prems(1,2) e by auto
  have end1: "k + v_size v < two64" using areas_wf_lo_le_end [OF wf(1)] wf(2) by linarith
  have s: "sub64 addr k = addr - k" "sub64 (v_size v) (addr - k) = v_size v - (addr - k)"
    using Cons.prems(3,4) end1 sub64_exact [of k addr] sub64_exact [of "addr - k" "v_size v"] by simp_all
  define n where "n = min (v_size v - (addr - k)) len"
  have here: "vma_content ((k, v) # e # m) a = Some (vma_cell v (a - k))" if "k \<le> a" "a < k + v_size v" for a
    using that by simp
  have rest: "vma_content ((k, v) # e # m) a = vma_content (e # m) a" if "k + v_size v \<le> a" for a
    using content_skip [of k v_size v a vma_cell "e # m"] that by simp
  have chunk: "map (\<lambda>i. sparse_byte mem (vma_content ((k, v) # e # m)) (addr + i)) [0..<n] =
      (if IsMapped v then map (\<lambda>i. mem (addr + i)) [0..<n] else replicate n 0)"
  proof -
    have "sparse_byte mem (vma_content ((k, v) # e # m)) (addr + i) = (if IsMapped v then mem (addr + i) else 0)"
      if "i < n" for i
    proof -
      have "k \<le> addr + i" "addr + i < k + v_size v" using that Cons.prems(3) by (auto simp: n_def)
      from here [OF this] show ?thesis by (auto simp: sparse_byte_def IsMapped_def simp del: content.simps)
    qed
    from map_chunk [of n, OF this] show ?thesis by (rule sym)
  qed
  show ?case
  proof (cases "len = 0")
    case True
    then show ?thesis by simp
  next
    case False
    have n: "n \<le> len" "addr + n \<le> k + v_size v" "add64 addr n = addr + n"
    proof -
      show "n \<le> len" by (simp add: n_def)
      show "addr + n \<le> k + v_size v" using Cons.prems(3,4) by (auto simp: n_def)
      then show "add64 addr n = addr + n" using end1 by (intro add64_exact) linarith
    qed
    have step: "copy_loop mem ((k, v) # e # m) addr len =
        map_option (append (map (\<lambda>i. sparse_byte mem (vma_content ((k, v) # e # m)) (addr + i)) [0..<n]))
          (copy_loop mem (e # m) (addr + n) (len - n))"
      unfolding chunk using False s n(3) by (simp add: n_def [symmetric] Let_def del: content.simps)
    have IH: "copy_loop mem (e # m) (addr + n) (len - n) =
        Some (map (\<lambda>i. sparse_byte mem (vma_content ((k, v) # e # m)) (addr + n + i)) [0..<len - n])"
    proof (cases "len - n = 0")
      case True
      then show ?thesis by (cases e) simp
    next
      case more: False
      then have an: "addr + n = k + v_size v" using Cons.prems(3,4) by (auto simp: n_def)
      have c: "vma_content (e # m) (addr + n) \<noteq> None"
      proof -
        have "addr \<le> addr + n \<and> addr + n < addr + len" using more by simp
        then have "vma_content ((k, v) # e # m) (addr + n) \<noteq> None"
          using Cons.prems(5) unfolding covered_def by blast
        then show ?thesis using rest [of "addr + n"] an by (simp del: content.simps)
      qed
      have k2: "k2 = addr + n"
      proof (rule ccontr)
        assume ne: "k2 \<noteq> addr + n"
        have "k + v_size v \<le> k2" using wf(1) by simp
        moreover have "areas_wf v_size vma_ok k2 (e # m)" using wf(1) e by simp
        ultimately have "vma_content (e # m) (addr + n) = None"
          by (intro content_above_None) (use ne an in auto)
        then show False using c by simp
      qed
      have cov: "covered (e # m) (addr + n) (len - n)"
        unfolding covered_def
      proof (intro allI impI)
        fix a assume "addr + n \<le> a \<and> a < addr + n + (len - n)"
        then have "addr \<le> a \<and> a < addr + len" "k + v_size v \<le> a" using n(1) an by auto
        then show "vma_content (e # m) a \<noteq> None" using Cons.prems(5) rest [of a] unfolding covered_def by metis
      qed
      have "0 < v_size v2" using wf(1) by simp
      then have "copy_loop mem (e # m) (addr + n) (len - n) =
          Some (map (\<lambda>i. sparse_byte mem (vma_content (e # m)) (addr + n + i)) [0..<len - n])"
        using Cons.IH [OF wf(1,2), of "addr + n" "len - n"] cov k2 unfolding e
        by (simp del: content.simps copy_loop.simps)
      moreover have "sparse_byte mem (vma_content (e # m)) (addr + n + i) =
          sparse_byte mem (vma_content ((k, v) # e # m)) (addr + n + i)" for i
        using rest [of "addr + n + i"] an by (simp add: sparse_byte_def del: content.simps)
      ultimately show ?thesis by (simp del: content.simps copy_loop.simps)
    qed
    have up: "[0..<len] = [0..<n] @ map (\<lambda>i. i + n) [0..<len - n]"
      using n(1) upt_add_eq_append [of 0 n "len - n"] map_add_upt [of n "len - n"] by simp
    have "map (\<lambda>i. sparse_byte mem (vma_content ((k, v) # e # m)) (addr + i)) [0..<len] =
        map (\<lambda>i. sparse_byte mem (vma_content ((k, v) # e # m)) (addr + i)) [0..<n] @
        map (\<lambda>i. sparse_byte mem (vma_content ((k, v) # e # m)) (addr + n + i)) [0..<len - n]"
      unfolding up by (simp add: comp_def add.assoc add.commute [of n] del: content.simps)
    then show ?thesis unfolding step IH by (simp del: content.simps)
  qed
qed

text \<open>
  \<open>CopySparseMemory\<close> of a range that the address space covers reads each mapped byte from guest
  memory and 0 for each byte that is free or only reserved, in order.
\<close>

theorem CopySparseMemory_reads:
  assumes "mm_wf s" "covered (vma_map s) addr len" "vma_at s addr \<noteq> None"
  shows "CopySparseMemory mem addr len s = Some (map (\<lambda>i. sparse_byte mem (vma_at s) (addr + i)) [0..<len])"
proof -
  note W = mm_wfD [OF assms(1)]
  obtain b where b: "vma_at s addr = Some b" using assms(3) by auto
  obtain xs k v ys where m: "vma_map s = xs @ (k, v) # ys" and f: "FindVMA (vma_map s) addr = Some k"
    "k \<le> addr" "addr < k + v_size v"
    by (rule FindVMA_content [OF W(1) b])
  note w = areas_wf_mid [OF W(1) [unfolded m]]
  have "IsValidMapping (vma_map s) addr 0 = Some True"
    using IsValidMapping_covered [OF W(1,3) assms(3), of 0] by simp
  then have av: "assert_valid (vma_map s) addr 0 = Some ()" by (simp add: assert_valid_def)
  have wfk: "vma_wf (vma_end 0 xs) ((k, v) # ys)" and endk: "vma_end (vma_end 0 xs) ((k, v) # ys) < two64"
    using W(1,3) m by (auto simp: areas_wf_append areas_end_append)
  have tail: "vma_at s a = vma_content ((k, v) # ys) a" if "k \<le> a" for a
    unfolding m using content_mid [OF W(1) [unfolded m], of vma_cell a] that by simp
  have ef: "entries_from k (vma_map s) = (k, v) # ys" unfolding m by (rule entries_from_mid [OF w(6)])
  have cov: "covered ((k, v) # ys) addr len" using assms(2) tail f(2) by (auto simp: covered_def simp del: content.simps)
  have "copy_loop mem ((k, v) # ys) addr len =
      Some (map (\<lambda>i. sparse_byte mem (vma_content ((k, v) # ys)) (addr + i)) [0..<len])"
    by (rule copy_loop_reads [OF wfk endk f(2,3) cov])
  moreover have "sparse_byte mem (vma_content ((k, v) # ys)) (addr + i) = sparse_byte mem (vma_at s) (addr + i)" for i
    using tail [of "addr + i"] f(2) by (simp add: sparse_byte_def del: content.simps)
  ultimately show ?thesis using av f(1) ef by (simp add: CopySparseMemory_def del: content.simps copy_loop.simps)
qed

theorem CopySparseMemory_reads_witness:
  "CopySparseMemory (\<lambda>a. of_nat a) 0x403ffe 3 direct_boot = Some [0xfe, 0xff, 0]"
proof -
  have c: "covered (vma_map direct_boot) 0x403ffe 3"
    by (auto simp: covered_def direct_boot_def free_vma_def)
  have v: "vma_at direct_boot 0x403ffe \<noteq> None" by (simp add: direct_boot_def)
  show ?thesis
    using CopySparseMemory_reads [OF direct_boot_mm_wf c v, of "\<lambda>a. of_nat a"]
    by (simp add: upt_rec sparse_byte_def direct_boot_def free_vma_def)
qed

end
