(* ===== verification/Kernel_Memory.thy ===== *)
theory Kernel_Memory
  imports Protection Memory_Pool Memory_Query
begin

text \<open>
  The guest-facing memory calls of \<open>src/src/core/libraries/kernel/memory.cpp\<close>: the argument checks
  in front of \<open>MemoryManager\<close>, the translation of its results into kernel and POSIX errors, and the
  batch calls.

  The state is the memory manager with the globals of the file.  A pointer a call writes through is
  an option of the old content, \<open>None\<close> being \<open>nullptr\<close>; the new content is part of the result.
  Logging is not modelled.
\<close>

section \<open>State\<close>

record KernelMemory =
  memory :: MemoryManager
  g_sdk_version :: s32
  g_alias_dmem :: bool
  g_posix_errno :: s32
  PrtApertures :: "(u64 \<times> u64) list"
  has_rasterizer :: bool

abbreviation FW_170 :: nat where "FW_170 \<equiv> 0x1700000"
abbreviation FW_250 :: nat where "FW_250 \<equiv> 0x2500000"
abbreviation KERNEL_UNKNOWN :: s32 where "KERNEL_UNKNOWN \<equiv> 0x80020000 - 2 ^ 32"

text \<open>The firmware constants are \<open>u32\<close>, so the version is compared as unsigned.\<close>

definition sdk_at_least :: "nat \<Rightarrow> KernelMemory \<Rightarrow> bool" where
  "sdk_at_least fw ks \<longleftrightarrow> fw \<le> nat (g_sdk_version ks mod 4294967296)"

definition has_single_bit :: "u64 \<Rightarrow> bool" where
  "has_single_bit n \<longleftrightarrow> n \<noteq> 0 \<and> n AND (n - 1) = 0"

definition on_memory ::
  "(MemoryManager \<Rightarrow> ('r \<times> MemoryManager) option) \<Rightarrow> KernelMemory \<Rightarrow> ('r \<times> KernelMemory) option" where
  "on_memory f ks = do { (r, m) \<leftarrow> f (memory ks); Some (r, ks\<lparr>memory := m\<rparr>) }"

text \<open>The result code and the output address of \<open>MapMemory\<close> and \<open>MapFile\<close>.\<close>

definition map_result :: "u64 \<Rightarrow> s32 + u64 \<Rightarrow> s32 \<times> u64" where
  "map_result out r = (case r of Inl e \<Rightarrow> (e, out) | Inr a \<Rightarrow> (ORBIS_OK, a))"

definition ErrSceToPosix :: "s32 \<Rightarrow> KernelMemory \<Rightarrow> KernelMemory" where
  "ErrSceToPosix error ks = ks\<lparr>g_posix_errno := error - KERNEL_UNKNOWN\<rparr>"

definition ErrnoToSceKernelError :: "s32 \<Rightarrow> s32" where
  "ErrnoToSceKernelError error = error + KERNEL_UNKNOWN"

section \<open>Direct memory\<close>

definition sceKernelGetDirectMemorySize :: "KernelMemory \<Rightarrow> u64" where
  "sceKernelGetDirectMemorySize ks = total_direct_size (memory ks)"

definition sceKernelEnableDmemAliasing :: "KernelMemory \<Rightarrow> s32 \<times> KernelMemory" where
  "sceKernelEnableDmemAliasing ks = (ORBIS_OK, ks\<lparr>g_alias_dmem := True\<rparr>)"

definition sceKernelAllocateDirectMemory ::
  "int \<Rightarrow> int \<Rightarrow> u64 \<Rightarrow> u64 \<Rightarrow> s32 \<Rightarrow> u64 option \<Rightarrow> KernelMemory \<Rightarrow>
     ((s32 \<times> u64 option) \<times> KernelMemory) option" where
  "sceKernelAllocateDirectMemory searchStart searchEnd len alignment memoryType physAddrOut ks =
     (if searchStart < 0 \<or> searchEnd < 0 then Some ((KERNEL_EINVAL, physAddrOut), ks)
      else if len = 0 \<or> \<not> Is16KBAligned len then Some ((KERNEL_EINVAL, physAddrOut), ks)
      else if alignment \<noteq> 0 \<and> \<not> Is16KBAligned alignment then Some ((KERNEL_EINVAL, physAddrOut), ks)
      else if memoryType > 10 then Some ((KERNEL_EINVAL, physAddrOut), ks)
      else if physAddrOut = None then Some ((KERNEL_EINVAL, physAddrOut), ks)
      else let is_in_range = (u64_of_int (searchEnd - searchStart) \<ge> len) in
        if searchEnd \<le> searchStart \<or> u64_of_int searchEnd < len \<or> \<not> is_in_range
        then Some ((KERNEL_EAGAIN, physAddrOut), ks)
        else do {
          (phys_addr, ks1) \<leftarrow>
            on_memory (Allocate (u64_of_int searchStart) (u64_of_int searchEnd) len alignment memoryType) ks;
          Some (if phys_addr = minus_one64 then (KERNEL_EAGAIN, physAddrOut)
                else (ORBIS_OK, Some phys_addr), ks1)
        })"

definition sceKernelAllocateMainDirectMemory ::
  "u64 \<Rightarrow> u64 \<Rightarrow> s32 \<Rightarrow> u64 option \<Rightarrow> KernelMemory \<Rightarrow> ((s32 \<times> u64 option) \<times> KernelMemory) option" where
  "sceKernelAllocateMainDirectMemory len alignment memoryType physAddrOut ks =
     sceKernelAllocateDirectMemory 0 (int (sceKernelGetDirectMemorySize ks)) len alignment memoryType
       physAddrOut ks"

definition sceKernelCheckedReleaseDirectMemory ::
  "u64 \<Rightarrow> u64 \<Rightarrow> KernelMemory \<Rightarrow> (s32 \<times> KernelMemory) option" where
  "sceKernelCheckedReleaseDirectMemory start len ks =
     (if \<not> Is16KBAligned start \<or> \<not> Is16KBAligned len then Some (KERNEL_EINVAL, ks)
      else if len = 0 then Some (ORBIS_OK, ks)
      else on_memory (Free start len True) ks)"

definition sceKernelReleaseDirectMemory ::
  "u64 \<Rightarrow> u64 \<Rightarrow> KernelMemory \<Rightarrow> (s32 \<times> KernelMemory) option" where
  "sceKernelReleaseDirectMemory start len ks =
     (if \<not> Is16KBAligned start \<or> \<not> Is16KBAligned len then Some (KERNEL_EINVAL, ks)
      else if len = 0 then Some (ORBIS_OK, ks)
      else do { (_, ks1) \<leftarrow> on_memory (Free start len False) ks; Some (ORBIS_OK, ks1) })"

definition sceKernelAvailableDirectMemorySize ::
  "u64 \<Rightarrow> u64 \<Rightarrow> u64 \<Rightarrow> u64 option \<Rightarrow> u64 option \<Rightarrow> KernelMemory \<Rightarrow> (s32 \<times> u64 option \<times> u64 option) option"
where
  "sceKernelAvailableDirectMemorySize searchStart searchEnd alignment physAddrOut sizeOut ks =
     (if physAddrOut = None \<or> sizeOut = None then Some (KERNEL_EINVAL, physAddrOut, sizeOut)
      else do {
        (result, physAddr, size) \<leftarrow> DirectQueryAvailable searchStart searchEnd alignment (memory ks);
        Some (if size = 0 then (KERNEL_ENOMEM, physAddrOut, sizeOut)
              else (result, Some physAddr, Some size))
      })"

definition sceKernelDirectMemoryQuery ::
  "u64 \<Rightarrow> s32 \<Rightarrow> OrbisQueryInfo \<Rightarrow> KernelMemory \<Rightarrow> (s32 \<times> OrbisQueryInfo) option" where
  "sceKernelDirectMemoryQuery offset flags info ks =
     DirectMemoryQuery offset (flags = 1) info (memory ks)"

definition sceKernelGetDirectMemoryType ::
  "u64 \<Rightarrow> KernelMemory \<Rightarrow> (s32 + s32 \<times> u64 \<times> u64) option" where
  "sceKernelGetDirectMemoryType addr ks = GetDirectMemoryType addr (memory ks)"

section \<open>Mapping\<close>

definition bad_alignment :: "(u64 \<Rightarrow> bool) \<Rightarrow> u64 \<Rightarrow> bool" where
  "bad_alignment aligned alignment \<longleftrightarrow>
     alignment \<noteq> 0 \<and> \<not> has_single_bit alignment \<and> \<not> aligned alignment"

text \<open>A fixed mapping at address 0: an error from firmware 1.70 on, not fixed before.\<close>

definition fixed_at_null :: "MemoryMapFlags \<Rightarrow> u64 \<Rightarrow> KernelMemory \<Rightarrow> MemoryMapFlags option" where
  "fixed_at_null map_flags in_addr ks =
     (if True_flag (map_flags AND MapFixed) \<and> in_addr = 0
      then (if sdk_at_least FW_170 ks then None else Some (map_flags AND NOT MapFixed))
      else Some map_flags)"

definition sceKernelReserveVirtualRange ::
  "u64 option \<Rightarrow> u64 \<Rightarrow> s32 \<Rightarrow> u64 \<Rightarrow> KernelMemory \<Rightarrow> ((s32 \<times> u64 option) \<times> KernelMemory) option" where
  "sceKernelReserveVirtualRange addr len flags alignment ks = (case addr of
     None \<Rightarrow> Some ((KERNEL_EINVAL, None), ks)
   | Some in_addr \<Rightarrow>
       if len = 0 \<or> \<not> Is16KBAligned len then Some ((KERNEL_EINVAL, addr), ks)
       else if bad_alignment Is16KBAligned alignment then Some ((KERNEL_EINVAL, addr), ks)
       else (case fixed_at_null (word_of_int flags) in_addr ks of
         None \<Rightarrow> Some ((KERNEL_EINVAL, addr), ks)
       | Some map_flags \<Rightarrow> do {
           (r, ks1) \<leftarrow> on_memory (MapMemory in_addr len NoAccess map_flags Reserved ''anon'' False
             minus_one64 alignment) ks;
           let (result, out) = map_result in_addr r;
           Some ((result, Some out), ks1)
         }))"

definition sceKernelMapNamedDirectMemory ::
  "u64 \<Rightarrow> u64 \<Rightarrow> s32 \<Rightarrow> s32 \<Rightarrow> int \<Rightarrow> u64 \<Rightarrow> string \<Rightarrow> KernelMemory \<Rightarrow>
     ((s32 \<times> u64) \<times> KernelMemory) option" where
  "sceKernelMapNamedDirectMemory in_addr len prot0 flags phys_addr alignment name ks =
     (let mem_prot = (word_of_int prot0 :: MemoryProt); map_flags = (word_of_int flags :: MemoryMapFlags) in
      if len = 0 \<or> \<not> Is16KBAligned len then Some ((KERNEL_EINVAL, in_addr), ks)
      else if \<not> Is16KBAligned (u64_of_int phys_addr) then Some ((KERNEL_EINVAL, in_addr), ks)
      else if bad_alignment Is16KBAligned alignment then Some ((KERNEL_EINVAL, in_addr), ks)
      else if length name \<ge> MAXIMUM_NAME_LENGTH then Some ((KERNEL_ENAMETOOLONG, in_addr), ks)
      else if True_flag (mem_prot AND CpuExec) then Some ((KERNEL_EACCES, in_addr), ks)
      else let should_check = (if sdk_at_least FW_250 ks \<and> \<not> True_flag (map_flags AND MapStack)
                               then \<not> g_alias_dmem ks else False)
        in (case fixed_at_null map_flags in_addr ks of
         None \<Rightarrow> Some ((KERNEL_EINVAL, in_addr), ks)
       | Some map_flags \<Rightarrow> do {
           (r, ks1) \<leftarrow> on_memory (MapMemory in_addr len mem_prot map_flags Direct name should_check
             (u64_of_int phys_addr) alignment) ks;
           Some (map_result in_addr r, ks1)
         }))"

definition sceKernelMapDirectMemory ::
  "u64 \<Rightarrow> u64 \<Rightarrow> s32 \<Rightarrow> s32 \<Rightarrow> int \<Rightarrow> u64 \<Rightarrow> KernelMemory \<Rightarrow> ((s32 \<times> u64) \<times> KernelMemory) option" where
  "sceKernelMapDirectMemory in_addr len prot0 flags phys_addr alignment ks =
     sceKernelMapNamedDirectMemory in_addr len prot0 flags phys_addr alignment ''anon'' ks"

definition sceKernelMapDirectMemory2 ::
  "u64 \<Rightarrow> u64 \<Rightarrow> s32 \<Rightarrow> s32 \<Rightarrow> s32 \<Rightarrow> int \<Rightarrow> u64 \<Rightarrow> KernelMemory \<Rightarrow>
     ((s32 \<times> u64) \<times> KernelMemory) option" where
  "sceKernelMapDirectMemory2 in_addr len type prot0 flags phys_addr alignment ks =
     (let mem_prot = (word_of_int prot0 :: MemoryProt); map_flags = (word_of_int flags :: MemoryMapFlags) in
      if len = 0 \<or> \<not> Is16KBAligned len then Some ((KERNEL_EINVAL, in_addr), ks)
      else if \<not> Is16KBAligned (u64_of_int phys_addr) then Some ((KERNEL_EINVAL, in_addr), ks)
      else if bad_alignment Is16KBAligned alignment then Some ((KERNEL_EINVAL, in_addr), ks)
      else if True_flag (mem_prot AND CpuExec) then Some ((KERNEL_EINVAL, in_addr), ks)
      else do {
        (r, ks1) \<leftarrow> on_memory (MapMemory in_addr len mem_prot map_flags Direct ''anon''
          (\<not> g_alias_dmem ks) (u64_of_int phys_addr) alignment) ks;
        let (ret, out_addr) = map_result in_addr r;
        (if ret = 0 then do {
           (_, ks2) \<leftarrow> on_memory (SetDirectMemoryType out_addr len type) ks1;
           Some ((ret, out_addr), ks2)
         } else Some ((ret, out_addr), ks1))
      })"

definition sceKernelMapNamedFlexibleMemory ::
  "u64 \<Rightarrow> u64 \<Rightarrow> s32 \<Rightarrow> s32 \<Rightarrow> string option \<Rightarrow> KernelMemory \<Rightarrow> ((s32 \<times> u64) \<times> KernelMemory) option" where
  "sceKernelMapNamedFlexibleMemory in_addr len prot0 flags name0 ks =
     (if len = 0 \<or> \<not> Is16KBAligned len then Some ((KERNEL_EINVAL, in_addr), ks)
      else (case name0 of
        None \<Rightarrow> Some ((KERNEL_EFAULT, in_addr), ks)
      | Some name \<Rightarrow>
          if length name \<ge> MAXIMUM_NAME_LENGTH then Some ((KERNEL_ENAMETOOLONG, in_addr), ks)
          else (case fixed_at_null (word_of_int flags) in_addr ks of
            None \<Rightarrow> Some ((KERNEL_EINVAL, in_addr), ks)
          | Some map_flags \<Rightarrow> do {
              (r, ks1) \<leftarrow> on_memory (MapMemory in_addr len (word_of_int prot0) map_flags Flexible name
                False minus_one64 0) ks;
              Some (map_result in_addr r, ks1)
            })))"

definition sceKernelMapFlexibleMemory ::
  "u64 \<Rightarrow> u64 \<Rightarrow> s32 \<Rightarrow> s32 \<Rightarrow> KernelMemory \<Rightarrow> ((s32 \<times> u64) \<times> KernelMemory) option" where
  "sceKernelMapFlexibleMemory in_addr len prot0 flags ks =
     sceKernelMapNamedFlexibleMemory in_addr len prot0 flags (Some ''anon'') ks"

section \<open>Protection, unmapping and queries\<close>

definition sceKernelQueryMemoryProtection ::
  "u64 \<Rightarrow> u64 option \<Rightarrow> u64 option \<Rightarrow> u32 option \<Rightarrow> KernelMemory \<Rightarrow>
     (s32 \<times> u64 option \<times> u64 option \<times> u32 option) option" where
  "sceKernelQueryMemoryProtection addr start end_out prot_out ks = do {
     r \<leftarrow> QueryProtection addr (memory ks);
     Some (case r of
       Inl e \<Rightarrow> (e, start, end_out, prot_out)
     | Inr info \<Rightarrow> (ORBIS_OK, map_option (\<lambda>_. pr_start info) start, map_option (\<lambda>_. pr_end info) end_out,
         map_option (\<lambda>_. pr_prot info) prot_out))
   }"

definition page_range :: "u64 \<Rightarrow> u64 \<Rightarrow> u64 \<times> u64" where
  "page_range in_addr len =
     (let aligned_addr = AlignDown in_addr KB16
      in (aligned_addr, AlignUp (sub64 (add64 len in_addr) aligned_addr) KB16))"

definition sceKernelMprotect :: "u64 \<Rightarrow> u64 \<Rightarrow> s32 \<Rightarrow> KernelMemory \<Rightarrow> (s32 \<times> KernelMemory) option" where
  "sceKernelMprotect addr len prot0 ks =
     (let (aligned_addr, aligned_size) = page_range addr len in
      if aligned_size = 0 then Some (ORBIS_OK, ks)
      else do {
        (result, ks1) \<leftarrow> on_memory (Protect aligned_addr aligned_size (word_of_int prot0)) ks;
        Some (result, if result = ORBIS_OK
          then ks1\<lparr>memory := InvalidateMemory (has_rasterizer ks1) aligned_addr aligned_size (memory ks1)\<rparr>
          else ks1)
      })"

definition posix_mprotect :: "u64 \<Rightarrow> u64 \<Rightarrow> s32 \<Rightarrow> KernelMemory \<Rightarrow> (s32 \<times> KernelMemory) option" where
  "posix_mprotect addr len prot0 ks = do {
     (result, ks1) \<leftarrow> sceKernelMprotect addr len prot0 ks;
     Some (if result < 0 then (- 1, ErrSceToPosix result ks1) else (result, ks1))
   }"

definition sceKernelMtypeprotect ::
  "u64 \<Rightarrow> u64 \<Rightarrow> s32 \<Rightarrow> s32 \<Rightarrow> KernelMemory \<Rightarrow> (s32 \<times> KernelMemory) option" where
  "sceKernelMtypeprotect addr len mtype prot0 ks =
     (let (aligned_addr, aligned_size) = page_range addr len in
      if aligned_size = 0 then Some (ORBIS_OK, ks)
      else do {
        (result, ks1) \<leftarrow> on_memory (Protect aligned_addr aligned_size (word_of_int prot0)) ks;
        (if result = ORBIS_OK then do {
           (_, ks2) \<leftarrow> on_memory (SetDirectMemoryType aligned_addr aligned_size mtype) ks1;
           Some (result, ks2\<lparr>memory := InvalidateMemory (has_rasterizer ks2) aligned_addr aligned_size
             (memory ks2)\<rparr>)
         } else Some (result, ks1))
      })"

definition sceKernelMunmap :: "u64 \<Rightarrow> u64 \<Rightarrow> KernelMemory \<Rightarrow> (s32 \<times> KernelMemory) option" where
  "sceKernelMunmap addr len ks =
     (if len = 0 then Some (KERNEL_EINVAL, ks) else on_memory (UnmapMemory addr len) ks)"

definition posix_munmap :: "u64 \<Rightarrow> u64 \<Rightarrow> KernelMemory \<Rightarrow> (s32 \<times> KernelMemory) option" where
  "posix_munmap addr len ks = do {
     (result, ks1) \<leftarrow> sceKernelMunmap addr len ks;
     Some (if result < 0 then (- 1, ErrSceToPosix result ks1) else (result, ks1))
   }"

definition sceKernelVirtualQuery ::
  "u64 \<Rightarrow> s32 \<Rightarrow> KernelMemory \<Rightarrow> (s32 + OrbisVirtualQueryInfo) option" where
  "sceKernelVirtualQuery addr flags ks = VirtualQuery addr flags (memory ks)"

definition sceKernelIsStack :: "u64 \<Rightarrow> KernelMemory \<Rightarrow> (s32 + u64 \<times> u64) option" where
  "sceKernelIsStack addr ks = IsStack addr (memory ks)"

definition sceKernelIsAddressSanitizerEnabled :: nat where
  "sceKernelIsAddressSanitizerEnabled = 0"

definition sceKernelAvailableFlexibleMemorySize :: "KernelMemory \<Rightarrow> s32 \<times> u64" where
  "sceKernelAvailableFlexibleMemorySize ks = (ORBIS_OK, GetAvailableFlexibleSize (memory ks))"

definition sceKernelConfiguredFlexibleMemorySize :: "u64 option \<Rightarrow> KernelMemory \<Rightarrow> s32 \<times> u64 option" where
  "sceKernelConfiguredFlexibleMemorySize sizeOut ks =
     (if sizeOut = None then (KERNEL_EINVAL, None) else (ORBIS_OK, Some (total_flexible_size (memory ks))))"

definition sceKernelSetVirtualRangeName ::
  "u64 \<Rightarrow> u64 \<Rightarrow> string option \<Rightarrow> KernelMemory \<Rightarrow> (s32 \<times> KernelMemory) option" where
  "sceKernelSetVirtualRangeName addr len name0 ks = (case name0 of
     None \<Rightarrow> Some (KERNEL_EFAULT, ks)
   | Some name \<Rightarrow>
       if length name \<ge> MAXIMUM_NAME_LENGTH then Some (KERNEL_ENAMETOOLONG, ks)
       else do { m \<leftarrow> NameVirtualRange addr len name (memory ks); Some (ORBIS_OK, ks\<lparr>memory := m\<rparr>) })"

section \<open>Batched mapping\<close>

text \<open>
  The fields \<open>protection\<close> and \<open>type\<close> are \<open>char\<close>s; the model holds the \<open>int\<close> they are promoted to.
  The start address is updated in place by the mapping operations.
\<close>

record OrbisKernelBatchMapEntry =
  be_start :: u64
  be_offset :: u64
  be_length :: u64
  be_protection :: s32
  be_type :: s32
  be_operation :: s32

definition batch_map_entry ::
  "s32 \<Rightarrow> OrbisKernelBatchMapEntry \<Rightarrow> KernelMemory \<Rightarrow>
     ((s32 \<times> OrbisKernelBatchMapEntry) \<times> KernelMemory) option" where
  "batch_map_entry flags e ks =
     (if be_length e = 0 \<or> be_operation e > 4 then Some ((KERNEL_EINVAL, e), ks)
      else if be_operation e = 0 then do {
        ((r, a), ks1) \<leftarrow> sceKernelMapNamedDirectMemory (be_start e) (be_length e) (be_protection e) flags
          (to_s64 (be_offset e)) 0 ''anon'' ks;
        Some ((r, e\<lparr>be_start := a\<rparr>), ks1) }
      else if be_operation e = 1 then do {
        (r, ks1) \<leftarrow> sceKernelMunmap (be_start e) (be_length e) ks; Some ((r, e), ks1) }
      else if be_operation e = 2 then do {
        (r, ks1) \<leftarrow> sceKernelMprotect (be_start e) (be_length e) (be_protection e) ks;
        Some ((r, e), ks1) }
      else if be_operation e = 3 then do {
        ((r, a), ks1) \<leftarrow> sceKernelMapNamedFlexibleMemory (be_start e) (be_length e) (be_protection e) flags
          (Some ''anon'') ks;
        Some ((r, e\<lparr>be_start := a\<rparr>), ks1) }
      else if be_operation e = 4 then do {
        (r, ks1) \<leftarrow> sceKernelMtypeprotect (be_start e) (be_length e) (be_type e) (be_protection e) ks;
        Some ((r, e), ks1) }
      else None)"

text \<open>
  The loop over the entries from index \<open>i\<close>: the result, the number of processed entries and the
  entries as they are left.  Reading past the array has no result.
\<close>

fun batch_map_loop ::
  "s32 \<Rightarrow> nat \<Rightarrow> OrbisKernelBatchMapEntry list \<Rightarrow> s32 \<Rightarrow> KernelMemory \<Rightarrow>
     ((s32 \<times> s32 \<times> OrbisKernelBatchMapEntry list) \<times> KernelMemory) option" where
  "batch_map_loop flags 0 es processed ks = Some ((ORBIS_OK, processed, es), ks)"
| "batch_map_loop flags (Suc n) [] processed ks = None"
| "batch_map_loop flags (Suc n) (e # es) processed ks = do {
     ((result, e'), ks1) \<leftarrow> batch_map_entry flags e ks;
     (if result \<noteq> ORBIS_OK then Some ((result, processed, e' # es), ks1)
      else do {
        ((r, p, es'), ks2) \<leftarrow> batch_map_loop flags n es (processed + 1) ks1;
        Some ((r, p, e' # es'), ks2) })
   }"

definition sceKernelBatchMap2 ::
  "OrbisKernelBatchMapEntry list option \<Rightarrow> s32 \<Rightarrow> s32 option \<Rightarrow> s32 \<Rightarrow> KernelMemory \<Rightarrow>
     ((s32 \<times> s32 option \<times> OrbisKernelBatchMapEntry list option) \<times> KernelMemory) option" where
  "sceKernelBatchMap2 entries numEntries numEntriesOut flags ks = (case entries of
     None \<Rightarrow> Some ((if numEntries > 0 then KERNEL_EINVAL else ORBIS_OK,
                    map_option (\<lambda>_. 0) numEntriesOut, None), ks)
   | Some es \<Rightarrow> do {
       ((result, processed, es'), ks1) \<leftarrow> batch_map_loop flags (nat numEntries) es 0 ks;
       Some ((result, map_option (\<lambda>_. processed) numEntriesOut, Some es'), ks1)
     })"

definition sceKernelBatchMap ::
  "OrbisKernelBatchMapEntry list option \<Rightarrow> s32 \<Rightarrow> s32 option \<Rightarrow> KernelMemory \<Rightarrow>
     ((s32 \<times> s32 option \<times> OrbisKernelBatchMapEntry list option) \<times> KernelMemory) option" where
  "sceKernelBatchMap entries numEntries numEntriesOut ks =
     sceKernelBatchMap2 entries numEntries numEntriesOut 0x10 ks"

section \<open>Memory pools\<close>

definition sceKernelMemoryPoolExpand ::
  "u64 \<Rightarrow> u64 \<Rightarrow> u64 \<Rightarrow> u64 \<Rightarrow> u64 option \<Rightarrow> KernelMemory \<Rightarrow> ((s32 \<times> u64 option) \<times> KernelMemory) option"
where
  "sceKernelMemoryPoolExpand searchStart searchEnd len alignment physAddrOut ks =
     (if searchEnd \<le> searchStart then Some ((KERNEL_EINVAL, physAddrOut), ks)
      else if len = 0 \<or> \<not> Is64KBAligned len then Some ((KERNEL_EINVAL, physAddrOut), ks)
      else if alignment \<noteq> 0 \<and> \<not> Is64KBAligned alignment then Some ((KERNEL_EINVAL, physAddrOut), ks)
      else if physAddrOut = None then Some ((KERNEL_EINVAL, physAddrOut), ks)
      else let is_in_range = (sub64 searchEnd searchStart \<ge> len) in
        if searchEnd \<le> searchStart \<or> searchEnd < len \<or> \<not> is_in_range
        then Some ((KERNEL_ENOMEM, physAddrOut), ks)
        else do {
          (phys_addr, ks1) \<leftarrow> on_memory (PoolExpand searchStart searchEnd len alignment) ks;
          Some (if phys_addr = minus_one64 then (KERNEL_ENOMEM, physAddrOut)
                else (ORBIS_OK, Some phys_addr), ks1)
        })"

definition sceKernelMemoryPoolReserve ::
  "u64 \<Rightarrow> u64 \<Rightarrow> u64 \<Rightarrow> s32 \<Rightarrow> u64 \<Rightarrow> KernelMemory \<Rightarrow> ((s32 \<times> u64) \<times> KernelMemory) option" where
  "sceKernelMemoryPoolReserve addr_in len alignment flags addr_out ks =
     (if len = 0 \<or> \<not> Is2MBAligned len then Some ((KERNEL_EINVAL, addr_out), ks)
      else if bad_alignment Is2MBAligned alignment then Some ((KERNEL_EINVAL, addr_out), ks)
      else do {
        (r, ks1) \<leftarrow> on_memory (MapMemory addr_in len NoAccess (word_of_int flags) PoolReserved ''anon'' False
          minus_one64 (if alignment = 0 then MB2 else alignment)) ks;
        Some (map_result addr_out r, ks1)
      })"

definition sceKernelMemoryPoolCommit ::
  "u64 \<Rightarrow> u64 \<Rightarrow> s32 \<Rightarrow> s32 \<Rightarrow> s32 \<Rightarrow> KernelMemory \<Rightarrow> (s32 \<times> KernelMemory) option" where
  "sceKernelMemoryPoolCommit addr len type prot0 flags ks =
     (let mem_prot = (word_of_int prot0 :: MemoryProt) in
      if addr = 0 then Some (KERNEL_EINVAL, ks)
      else if len = 0 \<or> \<not> Is64KBAligned len then Some (KERNEL_EINVAL, ks)
      else if True_flag (mem_prot AND CpuExec) then Some (KERNEL_EINVAL, ks)
      else on_memory (PoolCommit addr len mem_prot type) ks)"

definition sceKernelMemoryPoolDecommit ::
  "u64 \<Rightarrow> u64 \<Rightarrow> s32 \<Rightarrow> KernelMemory \<Rightarrow> (s32 \<times> KernelMemory) option" where
  "sceKernelMemoryPoolDecommit addr len flags ks =
     (if addr = 0 then Some (KERNEL_EINVAL, ks)
      else if len = 0 \<or> \<not> Is64KBAligned len then Some (KERNEL_EINVAL, ks)
      else on_memory (PoolDecommit addr len) ks)"

text \<open>An entry of a pool batch, the union by its opcode.\<close>

datatype OrbisKernelMemoryPoolBatchEntry =
    PoolOpCommit (pe_addr: u64) (pe_len: u64) (pe_prot: nat) (pe_type: nat)
  | PoolOpDecommit (pe_addr: u64) (pe_len: u64)
  | PoolOpProtect (pe_addr: u64) (pe_len: u64) (pe_prot: nat)
  | PoolOpTypeProtect (pe_addr: u64) (pe_len: u64) (pe_prot: nat) (pe_type: nat)
  | PoolOpMove
  | PoolOpOther

fun pool_batch_entry ::
  "s32 \<Rightarrow> OrbisKernelMemoryPoolBatchEntry \<Rightarrow> KernelMemory \<Rightarrow> (s32 \<times> KernelMemory) option" where
  "pool_batch_entry flags (PoolOpCommit a n p t) ks =
     sceKernelMemoryPoolCommit a n (int t) (int p) flags ks"
| "pool_batch_entry flags (PoolOpDecommit a n) ks = sceKernelMemoryPoolDecommit a n flags ks"
| "pool_batch_entry flags (PoolOpProtect a n p) ks = sceKernelMprotect a n (int p) ks"
| "pool_batch_entry flags (PoolOpTypeProtect a n p t) ks = sceKernelMtypeprotect a n (int t) (int p) ks"
| "pool_batch_entry flags PoolOpMove ks = None"
| "pool_batch_entry flags PoolOpOther ks = Some (KERNEL_EINVAL, ks)"

fun pool_batch_loop ::
  "nat \<Rightarrow> (s32 \<times> OrbisKernelMemoryPoolBatchEntry) list \<Rightarrow> s32 \<Rightarrow> KernelMemory \<Rightarrow>
     ((s32 \<times> s32) \<times> KernelMemory) option" where
  "pool_batch_loop 0 es processed ks = Some ((ORBIS_OK, processed), ks)"
| "pool_batch_loop (Suc n) [] processed ks = None"
| "pool_batch_loop (Suc n) ((flags, e) # es) processed ks = do {
     (result, ks1) \<leftarrow> pool_batch_entry flags e ks;
     (if result \<noteq> ORBIS_OK then Some ((result, processed), ks1)
      else pool_batch_loop n es (processed + 1) ks1)
   }"

definition sceKernelMemoryPoolBatch ::
  "(s32 \<times> OrbisKernelMemoryPoolBatchEntry) list option \<Rightarrow> s32 \<Rightarrow> s32 option \<Rightarrow> KernelMemory \<Rightarrow>
     ((s32 \<times> s32 option) \<times> KernelMemory) option" where
  "sceKernelMemoryPoolBatch entries count num_processed ks = (case entries of
     None \<Rightarrow> Some ((KERNEL_EINVAL, num_processed), ks)
   | Some es \<Rightarrow> do {
       ((result, processed), ks1) \<leftarrow> pool_batch_loop (nat count) es 0 ks;
       Some ((result, map_option (\<lambda>_. processed) num_processed), ks1)
     })"

text \<open>The statistics are copied byte by byte, as many as fit; \<open>le_bytes\<close> is the layout of an \<open>s32\<close>.\<close>

definition le_bytes :: "s32 \<Rightarrow> nat list" where
  "le_bytes x = (let n = nat (x mod 4294967296) in
     [n mod 256, n div 256 mod 256, n div 65536 mod 256, n div 16777216 mod 256])"

definition stats_bytes :: "OrbisKernelMemoryPoolBlockStats \<Rightarrow> nat list" where
  "stats_bytes st = le_bytes (available_flushed_blocks st) @ le_bytes (available_cached_blocks st) @
     le_bytes (allocated_flushed_blocks st) @ le_bytes (allocated_cached_blocks st)"

definition sceKernelMemoryPoolGetBlockStats ::
  "nat list option \<Rightarrow> u64 \<Rightarrow> KernelMemory \<Rightarrow> (s32 \<times> nat list option) option" where
  "sceKernelMemoryPoolGetBlockStats stats len ks =
     (let local_stats = snd (GetMemoryPoolStats (memory ks));
          size_to_copy = (if len < 16 then len else 16) in do {
        ASSERT (stats \<noteq> None \<or> len = 0);
        (case stats of
           None \<Rightarrow> Some (ORBIS_OK, None)
         | Some old \<Rightarrow> if length old < size_to_copy then None
             else Some (ORBIS_OK, Some (take size_to_copy (stats_bytes local_stats) @ drop size_to_copy old)))
      })"

section \<open>mmap\<close>

definition posix_mmap ::
  "(s32 \<Rightarrow> GuestFile option) \<Rightarrow> u64 \<Rightarrow> u64 \<Rightarrow> u64 \<Rightarrow> s32 \<Rightarrow> s32 \<Rightarrow> s32 \<Rightarrow> int \<Rightarrow> KernelMemory \<Rightarrow>
     (u64 \<times> KernelMemory) option" where
  "posix_mmap GetFile host_page addr len prot0 flags fdesc phys_addr ks =
     (let mem_prot = (word_of_int prot0 :: MemoryProt); mem_flags = (word_of_int flags :: MemoryMapFlags);
          aligned_addr = AlignUp addr KB16; aligned_size = AlignUp len KB16 in
      if len = 0 then Some (minus_one64, ErrSceToPosix KERNEL_EINVAL ks)
      else if True_flag (mem_flags AND MapFixed) \<and> addr \<noteq> aligned_addr
      then Some (minus_one64, ErrSceToPosix KERNEL_EINVAL ks)
      else do {
        (r, ks1) \<leftarrow>
          (if True_flag (mem_flags AND MapAnon)
           then on_memory (MapMemory aligned_addr aligned_size mem_prot mem_flags Flexible ''anon'' False
             minus_one64 0) ks
           else if True_flag (mem_flags AND MapStack)
           then on_memory (MapMemory aligned_addr aligned_size mem_prot mem_flags Stack ''anon'' False
             minus_one64 0) ks
           else if True_flag (mem_flags AND MapVoid)
           then on_memory (MapMemory aligned_addr aligned_size NoAccess mem_flags Reserved ''anon'' False
             minus_one64 0) ks
           else on_memory (MapFile GetFile host_page aligned_addr aligned_size mem_prot mem_flags fdesc
             phys_addr) ks);
        Some (case r of Inl e \<Rightarrow> (minus_one64, ErrSceToPosix e ks1) | Inr addr_out \<Rightarrow> (addr_out, ks1))
      })"

definition sceKernelMmap ::
  "(s32 \<Rightarrow> GuestFile option) \<Rightarrow> u64 \<Rightarrow> u64 \<Rightarrow> u64 \<Rightarrow> s32 \<Rightarrow> s32 \<Rightarrow> s32 \<Rightarrow> int \<Rightarrow> u64 \<Rightarrow> KernelMemory \<Rightarrow>
     ((s32 \<times> u64) \<times> KernelMemory) option" where
  "sceKernelMmap GetFile host_page addr len prot0 flags fdesc phys_addr res ks = do {
     (addr_out, ks1) \<leftarrow> posix_mmap GetFile host_page addr len prot0 flags fdesc phys_addr ks;
     Some (if addr_out = minus_one64 then ((ErrnoToSceKernelError (g_posix_errno ks1), res), ks1)
           else ((ORBIS_OK, addr_out), ks1))
   }"

definition sceKernelMlock :: "u64 \<Rightarrow> u64 \<Rightarrow> s32" where "sceKernelMlock addr len = ORBIS_OK"
definition posix_msync :: "u64 \<Rightarrow> u64 \<Rightarrow> s32 \<Rightarrow> s32" where "posix_msync addr len flags = ORBIS_OK"

section \<open>PRT apertures\<close>

abbreviation MAX_PRT_APERTURES :: s32 where "MAX_PRT_APERTURES \<equiv> 3"
abbreviation PRT_AREA_START_ADDR :: u64 where "PRT_AREA_START_ADDR \<equiv> 0x1000000000"
abbreviation PRT_AREA_SIZE :: u64 where "PRT_AREA_SIZE \<equiv> 0xec00000000"

definition sceKernelSetPrtAperture ::
  "s32 \<Rightarrow> u64 \<Rightarrow> u64 \<Rightarrow> KernelMemory \<Rightarrow> (s32 \<times> KernelMemory) option" where
  "sceKernelSetPrtAperture i address len ks =
     (if i < 0 \<or> i \<ge> MAX_PRT_APERTURES then Some (KERNEL_EINVAL, ks)
      else if address < PRT_AREA_START_ADDR \<or> add64 address len > PRT_AREA_START_ADDR + PRT_AREA_SIZE
      then Some (KERNEL_EINVAL, ks)
      else if address mod 4096 \<noteq> 0 then Some (KERNEL_EINVAL, ks)
      else do {
        m \<leftarrow> SetPrtArea (nat i) address len (memory ks);
        Some (ORBIS_OK, ks\<lparr>memory := m, PrtApertures := (PrtApertures ks)[nat i := (address, len)]\<rparr>)
      })"

definition sceKernelGetPrtAperture :: "s32 \<Rightarrow> u64 \<times> u64 \<Rightarrow> KernelMemory \<Rightarrow> s32 \<times> u64 \<times> u64" where
  "sceKernelGetPrtAperture i out ks =
     (if i < 0 \<or> i \<ge> MAX_PRT_APERTURES then (KERNEL_EINVAL, out)
      else (ORBIS_OK, PrtApertures ks ! nat i))"

end
