(* ===== verification/Kernel_Memory_Props.thy ===== *)
theory Kernel_Memory_Props
  imports Kernel_Memory
begin

text \<open>
  What the memory calls of \<open>src/src/core/libraries/kernel/memory.cpp\<close> promise a guest: the argument
  checks of the allocation, the page rounding of \<open>sceKernelMprotect\<close>, the order and the count of a
  batch, the PRT apertures, and the invariant of the memory manager over every sequence of calls.
\<close>

section \<open>Allocation\<close>

definition alloc_args_ok :: "int \<Rightarrow> int \<Rightarrow> u64 \<Rightarrow> u64 \<Rightarrow> s32 \<Rightarrow> u64 option \<Rightarrow> bool" where
  "alloc_args_ok searchStart searchEnd len alignment memoryType out \<longleftrightarrow>
     0 \<le> searchStart \<and> 0 \<le> searchEnd \<and> 0 < len \<and> KB16 dvd len \<and> KB16 dvd alignment \<and>
     memoryType \<le> 10 \<and> out \<noteq> None"

lemma u64_of_int_nat: "0 \<le> x \<Longrightarrow> x < 18446744073709551616 \<Longrightarrow> u64_of_int x = nat x"
  by (simp add: u64_of_int_def)

lemma mod_0_dvd: "(n::nat) mod k = 0 \<longleftrightarrow> k dvd n"
  by (rule dvd_eq_mod_eq_0 [symmetric])

lemma Allocate_args:
  "\<not> alloc_args_ok a e len alignment t out \<Longrightarrow>
     sceKernelAllocateDirectMemory a e len alignment t out ks = Some ((KERNEL_EINVAL, out), ks)"
  by (auto simp: sceKernelAllocateDirectMemory_def alloc_args_ok_def Is16KBAligned_iff mod_0_dvd)

lemma Allocate_checked:
  assumes "alloc_args_ok a e len alignment t out" "e < 2 ^ 63"
  shows "sceKernelAllocateDirectMemory a e len alignment t out ks =
    (if a + int len \<le> e then do {
       (x, ks1) \<leftarrow> on_memory (Allocate (nat a) (nat e) len alignment t) ks;
       Some (if x = minus_one64 then (KERNEL_EAGAIN, out) else (ORBIS_OK, Some x), ks1) }
     else Some ((KERNEL_EAGAIN, out), ks))"
proof -
  have nn: "0 \<le> a" "0 \<le> e" "0 < len" using assms(1) by (auto simp: alloc_args_ok_def)
  have ue: "u64_of_int e = nat e" using nn assms(2) by (intro u64_of_int_nat) auto
  have guards: "(e \<le> a \<or> u64_of_int e < len \<or> \<not> u64_of_int (e - a) \<ge> len) \<longleftrightarrow> \<not> a + int len \<le> e"
  proof (cases "e \<le> a")
    case True
    then show ?thesis using nn by simp
  next
    case False
    then have "u64_of_int (e - a) = nat (e - a)" using nn assms(2) by (intro u64_of_int_nat) auto
    then show ?thesis using nn ue False by auto
  qed
  have arg: "(0 \<le> a \<and> 0 \<le> e \<and> 0 < len \<and> Is16KBAligned len \<and> (alignment = 0 \<or> Is16KBAligned alignment) \<and>
      t \<le> 10 \<and> out \<noteq> None)"
    using assms(1) by (auto simp: alloc_args_ok_def Is16KBAligned_iff mod_0_dvd)
  show ?thesis
  proof (cases "a + int len \<le> e")
    case True
    then have "u64_of_int a = nat a" using nn assms(2) by (intro u64_of_int_nat) auto
    then show ?thesis using arg guards True ue
      by (auto simp: sceKernelAllocateDirectMemory_def Let_def)
  next
    case False
    then show ?thesis using arg guards by (auto simp: sceKernelAllocateDirectMemory_def Let_def)
  qed
qed

text \<open>
  C34. \<open>sceKernelAllocateDirectMemory\<close>: arguments outside the documented domain give \<open>EINVAL\<close>; else,
  when the request fits somewhere in the search range, the call returns the least aligned address
  where it does and only that range changes, from free to allocated with the given type; when it
  does not fit the result is \<open>EAGAIN\<close>.  On both errors nothing is changed and nothing is stored.
\<close>

theorem sceKernelAllocateDirectMemory_spec:
  assumes wf: "dmem_wf (memory ks)" "0 < total_direct_size (memory ks)" and e: "searchEnd < 2 ^ 63"
    and b: "nat searchStart + total_direct_size (memory ks) + effective_alignment KB16 alignment + len \<le> two64"
  defines "fit \<equiv> \<lambda>x. fits (dmem_map (memory ks)) (nat searchStart) len (effective_alignment KB16 alignment) x
    \<and> int x + int len \<le> searchEnd"
  shows "\<exists>res ks'. sceKernelAllocateDirectMemory searchStart searchEnd len alignment memoryType out ks
      = Some (res, ks') \<and>
    (if \<not> alloc_args_ok searchStart searchEnd len alignment memoryType out
     then res = (KERNEL_EINVAL, out) \<and> ks' = ks
     else if \<forall>x. \<not> fit x then res = (KERNEL_EAGAIN, out) \<and> ks' = ks
     else \<exists>x. res = (ORBIS_OK, Some x) \<and> fit x \<and> (\<forall>y. fit y \<longrightarrow> x \<le> y) \<and> dmem_wf (memory ks') \<and>
       ks' = ks\<lparr>memory := (memory ks)\<lparr>dmem_map := dmem_map (memory ks')\<rparr>\<rparr> \<and>
       dmem_at (memory ks') = phys_rewrite x len memoryType Allocated (dmem_at (memory ks)))"
proof (cases "alloc_args_ok searchStart searchEnd len alignment memoryType out")
  case False
  then show ?thesis using Allocate_args by auto
next
  case True
  then have nn: "0 \<le> searchStart" "0 < len" "0 \<le> searchEnd" by (auto simp: alloc_args_ok_def)
  note call = Allocate_checked [OF True e, of ks]
  have low: "nat searchStart \<le> x" if "fit x" for x using that by (auto simp: fit_def fits_def)
  show ?thesis
  proof (cases "searchStart + int len \<le> searchEnd")
    case small: False
    have "\<not> fit x" for x
    proof
      assume "fit x"
      with low [OF this] nn small show False by (auto simp: fit_def)
    qed
    then show ?thesis using call True small by auto
  next
    case room: True
    obtain r s' where A: "Allocate (nat searchStart) (nat searchEnd) len alignment memoryType (memory ks)
        = Some (r, s')" "dmem_wf s'"
      "let f = fits (dmem_map (memory ks)) (nat searchStart) len (effective_alignment KB16 alignment) in
       if r = minus_one64 then s' = memory ks \<and> (\<forall>x. f x \<longrightarrow> nat searchEnd < x + len)
       else f r \<and> (\<forall>x. f x \<longrightarrow> r \<le> x) \<and> r + len \<le> nat searchEnd \<and>
         (\<forall>a. r \<le> a \<and> a < r + len \<longrightarrow> (\<exists>t. dmem_at (memory ks) a = Some (a, t, PFree))) \<and>
         s' = (memory ks)\<lparr>dmem_map := dmem_map s'\<rparr> \<and>
         dmem_at s' = phys_rewrite r len memoryType Allocated (dmem_at (memory ks))"
      using Allocate_first_fit_spec [OF wf nn(2) b, of "nat searchEnd" memoryType] by blast
    show ?thesis
    proof (cases "r = minus_one64")
      case True
      then have s': "s' = memory ks"
        and no: "\<And>x. fits (dmem_map (memory ks)) (nat searchStart) len (effective_alignment KB16 alignment) x
          \<Longrightarrow> nat searchEnd < x + len"
        using A(3) by (auto simp: Let_def)
      have "\<not> fit x" for x using no [of x] nn by (auto simp: fit_def)
      then show ?thesis
        using call room A(1) True s' \<open>alloc_args_ok _ _ _ _ _ _\<close> by (auto simp: on_memory_def)
    next
      case False
      then have f: "fits (dmem_map (memory ks)) (nat searchStart) len (effective_alignment KB16 alignment) r"
        "\<And>x. fits (dmem_map (memory ks)) (nat searchStart) len (effective_alignment KB16 alignment) x \<Longrightarrow> r \<le> x"
        "r + len \<le> nat searchEnd" "s' = (memory ks)\<lparr>dmem_map := dmem_map s'\<rparr>"
        "dmem_at s' = phys_rewrite r len memoryType Allocated (dmem_at (memory ks))"
        using A(3) by (auto simp: Let_def)
      have "fit r" using f(1,3) nn by (auto simp: fit_def)
      moreover have "\<forall>y. fit y \<longrightarrow> r \<le> y" using f(2) by (auto simp: fit_def)
      moreover have "sceKernelAllocateDirectMemory searchStart searchEnd len alignment memoryType out ks
          = Some ((ORBIS_OK, Some r), ks\<lparr>memory := s'\<rparr>)"
        using call room A(1) False by (simp add: on_memory_def)
      ultimately show ?thesis using \<open>alloc_args_ok _ _ _ _ _ _\<close> A(2) f(4,5)
        by (intro exI [of _ "(ORBIS_OK, Some r)"] exI [of _ "ks\<lparr>memory := s'\<rparr>"]) auto
    qed
  qed
qed

text \<open>A kernel whose memory manager has just been set up, with the version of firmware 3.50.\<close>

definition kernel_boot :: "MemoryManager \<Rightarrow> KernelMemory" where
  "kernel_boot m = \<lparr>memory = m, g_sdk_version = 0x3500000, g_alias_dmem = False, g_posix_errno = 0,
     PrtApertures = replicate 3 (0, 0), has_rasterizer = True\<rparr>"

lemma kernel_boot_sel [simp]:
  "memory (kernel_boot m) = m" "g_sdk_version (kernel_boot m) = 0x3500000"
  "PrtApertures (kernel_boot m) = replicate 3 (0, 0)"
  by (simp_all add: kernel_boot_def)

theorem sceKernelAllocateDirectMemory_spec_witness:
  "\<exists>res ks'. sceKernelAllocateDirectMemory 0 0x200000 0x10000 0 3 None (kernel_boot boot) = Some (res, ks') \<and>
    fst res = KERNEL_EINVAL"
  using sceKernelAllocateDirectMemory_spec [of "kernel_boot boot" "0x200000" 0 0 "0x10000" 3 None] boot_dmem_wf
  by (auto simp: boot_eval effective_alignment_def alloc_args_ok_def)

section \<open>Page rounding of mprotect\<close>

lemma page_range_exact:
  assumes "addr + len + KB16 \<le> two64"
  shows "page_range addr len = (AlignDown addr KB16, AlignUp (len + addr mod KB16) KB16)"
proof -
  have d: "AlignDown addr KB16 = addr - addr mod KB16" "addr mod KB16 \<le> addr"
    by (simp_all add: AlignDown_def)
  have "sub64 (add64 len addr) (AlignDown addr KB16) = len + addr - (addr - addr mod KB16)"
    using assms d add64_exact [of len addr] sub64_exact [of "AlignDown addr KB16" "len + addr"] by simp
  also have "\<dots> = len + addr mod KB16" using d(2) by simp
  finally show ?thesis by (simp add: page_range_def)
qed

lemma sceKernelMprotect_pages_spec:
  assumes wf: "mm_wf (memory ks)" and len: "0 < len" "addr + len + KB16 \<le> two64"
    and b: "b = AlignDown addr KB16" "n = AlignUp (len + addr mod KB16) KB16"
    and c: "covered (vma_map (memory ks)) b n"
  shows "{addr..<addr + len} \<subseteq> {b..<b + n} \<and>
    (\<forall>r ks'. sceKernelMprotect addr len prot0 ks = Some (r, ks') \<longrightarrow> r = ORBIS_OK \<and> mm_wf (memory ks') \<and>
      mapping_generation (memory ks') = mapping_generation (memory ks) + 2 \<and>
      fmem_map (memory ks') = fmem_map (memory ks) \<and> dmem_map (memory ks') = dmem_map (memory ks) \<and>
      (has_rasterizer ks \<longrightarrow> GpuInvalidate b n \<in> set (effects (memory ks'))) \<and>
      vma_at (memory ks') = (\<lambda>a. if a \<in> {b..<b + n}
        then map_option (\<lambda>i. if i_type i = VFree \<or> i_type i = PoolReserved then i
               else i\<lparr>i_prot := recorded_prot (i_type i) (word_of_int prot0)\<rparr>) (vma_at (memory ks) a)
        else vma_at (memory ks) a)) \<and>
    (no_joins (memory ks) b (b + n) \<longrightarrow> sceKernelMprotect addr len prot0 ks \<noteq> None)"
proof -
  have up: "len + addr mod KB16 + KB16 \<le> two64"
    using len mod_less_eq_dividend [of addr KB16] by linarith
  have n: "len + addr mod KB16 \<le> n" "0 < n"
    using AlignUp_ge [OF up] len b by simp_all
  have ab: "b = addr - addr mod KB16" using b by (simp add: AlignDown_def)
  have sub: "{addr..<addr + len} \<subseteq> {b..<b + n}"
    using n(1) mod_less_eq_dividend [of addr KB16] unfolding ab by auto
  note P = Protect_rewrites_spec [OF wf n(2) c, of "word_of_int prot0"]
  have eq: "sceKernelMprotect addr len prot0 ks = map_option (\<lambda>(r, s').
      (r, ks\<lparr>memory := if r = ORBIS_OK then InvalidateMemory (has_rasterizer ks) b n s' else s'\<rparr>))
      (Protect b n (word_of_int prot0) (memory ks))"
    using n(2) by (cases "Protect b n (word_of_int prot0) (memory ks)")
      (auto simp: sceKernelMprotect_def page_range_exact [OF len(2)] b [symmetric] on_memory_def)
  have inv: "mm_wf (InvalidateMemory (has_rasterizer ks) b n s') = mm_wf s'"
    "fmem_map (InvalidateMemory (has_rasterizer ks) b n s') = fmem_map s'"
    "dmem_map (InvalidateMemory (has_rasterizer ks) b n s') = dmem_map s'"
    "vma_at (InvalidateMemory (has_rasterizer ks) b n s') = vma_at s'"
    "mapping_generation (InvalidateMemory (has_rasterizer ks) b n s') = mapping_generation s'"
    "has_rasterizer ks \<longrightarrow> GpuInvalidate b n \<in> set (effects (InvalidateMemory (has_rasterizer ks) b n s'))" for s'
    by (simp_all add: InvalidateMemory_def)
  show ?thesis
  proof (intro conjI allI impI)
    show "{addr..<addr + len} \<subseteq> {b..<b + n}" by (rule sub)
  next
    fix r ks' assume "sceKernelMprotect addr len prot0 ks = Some (r, ks')"
    then obtain s' where s': "Protect b n (word_of_int prot0) (memory ks) = Some (r, s')"
      "ks' = ks\<lparr>memory := if r = ORBIS_OK then InvalidateMemory (has_rasterizer ks) b n s' else s'\<rparr>"
      unfolding eq by auto
    have r: "r = ORBIS_OK" using P s'(1) by blast
    then have m: "memory ks' = InvalidateMemory (has_rasterizer ks) b n s'" using s'(2) by simp
    show "r = ORBIS_OK" by (rule r)
    show "mm_wf (memory ks')" "mapping_generation (memory ks') = mapping_generation (memory ks) + 2"
      "fmem_map (memory ks') = fmem_map (memory ks)" "dmem_map (memory ks') = dmem_map (memory ks)"
      unfolding m using P s'(1) inv by simp_all
    show "GpuInvalidate b n \<in> set (effects (memory ks'))" if "has_rasterizer ks"
      unfolding m using inv that by simp
    show "vma_at (memory ks') = (\<lambda>a. if a \<in> {b..<b + n}
        then map_option (\<lambda>i. if i_type i = VFree \<or> i_type i = PoolReserved then i
               else i\<lparr>i_prot := recorded_prot (i_type i) (word_of_int prot0)\<rparr>) (vma_at (memory ks) a)
        else vma_at (memory ks) a)"
      unfolding m inv using P s'(1) by simp
  next
    assume "no_joins (memory ks) b (b + n)"
    then show "sceKernelMprotect addr len prot0 ks \<noteq> None" using P unfolding eq by auto
  qed
qed

text \<open>
  C36. \<open>sceKernelMprotect\<close> rounds the range out to pages, all of which lie in the address space.  When it
  returns it succeeds, has recorded the protection that was asked for, unmasked, for exactly the bytes of
  those pages that are neither free nor reserved for a pool (read added to write, execute hidden for
  direct, pooled and file memory), has kept direct and flexible memory and the invariant, and has
  invalidated the cached copies of the pages.  It returns when no area that begins in the pages and whose
  protection can change continues the area below it.
\<close>

theorem sceKernelMprotect_pages:
  assumes wf: "mm_wf (memory ks)" and len: "0 < len" "addr + len + KB16 \<le> two64"
    and b: "b = AlignDown addr KB16" "n = AlignUp (len + addr mod KB16) KB16"
    and c: "covered (vma_map (memory ks)) b n"
  shows "{addr..<addr + len} \<subseteq> {b..<b + n} \<and>
    (\<forall>r ks'. sceKernelMprotect addr len prot0 ks = Some (r, ks') \<longrightarrow> r = ORBIS_OK \<and> mm_wf (memory ks') \<and>
      mapping_generation (memory ks') = mapping_generation (memory ks) + 2 \<and>
      fmem_map (memory ks') = fmem_map (memory ks) \<and> dmem_map (memory ks') = dmem_map (memory ks) \<and>
      (has_rasterizer ks \<longrightarrow> GpuInvalidate b n \<in> set (effects (memory ks'))) \<and>
      vma_at (memory ks') = (\<lambda>a. if a \<in> {b..<b + n}
        then map_option (\<lambda>i. if i_type i = VFree \<or> i_type i = PoolReserved then i
               else i\<lparr>i_prot := recorded_prot (i_type i) (word_of_int prot0)\<rparr>) (vma_at (memory ks) a)
        else vma_at (memory ks) a)) \<and>
    (no_joins (memory ks) b (b + n) \<longrightarrow> sceKernelMprotect addr len prot0 ks \<noteq> None)"
  using assms by (rule sceKernelMprotect_pages_spec)

theorem sceKernelMprotect_pages_witness:
  "\<exists>ks'. sceKernelMprotect 0x400100 0x100 1 (kernel_boot direct_boot) = Some (ORBIS_OK, ks') \<and>
    i_prot (the (vma_at (memory ks') 0x400000)) = CpuRead"
proof -
  have c: "covered (vma_map (memory (kernel_boot direct_boot))) 0x400000 0x4000"
    by (auto simp: covered_def direct_boot_def free_vma_def)
  have a: "(0x400000::nat) = AlignDown 0x400100 KB16" "(0x4000::nat) = AlignUp (0x100 + 0x400100 mod KB16) KB16"
    by (simp_all add: AlignDown_def AlignUp_def add64_def)
  have w: "mm_wf (memory (kernel_boot direct_boot))" using direct_boot_mm_wf by simp
  show ?thesis
    using sceKernelMprotect_pages [OF w _ _ a c, of 1] direct_boot_no_joins
    by (auto simp: direct_boot_def recorded_prot_def append_read_def True_flag_def)
qed

section \<open>Batches\<close>

text \<open>Running the entries one after the other, as long as each succeeds.\<close>

fun run_entries ::
  "s32 \<Rightarrow> OrbisKernelBatchMapEntry list \<Rightarrow> KernelMemory \<Rightarrow> (OrbisKernelBatchMapEntry list \<times> KernelMemory) option"
where
  "run_entries flags [] ks = Some ([], ks)"
| "run_entries flags (e # es) ks = do {
     ((r, e'), ks1) \<leftarrow> batch_map_entry flags e ks;
     ASSERT (r = ORBIS_OK);
     (es', ks2) \<leftarrow> run_entries flags es ks1;
     Some (e' # es', ks2) }"

lemma batch_map_loop_prefix:
  assumes "batch_map_loop flags n es p0 ks = Some ((r, p, es'), ks')"
  shows "\<exists>k \<le> n. p = p0 + int k \<and> k \<le> length es \<and> (\<exists>ks1. run_entries flags (take k es) ks = Some (take k es', ks1) \<and>
    (if r = ORBIS_OK then k = n \<and> ks' = ks1 \<and> drop k es' = drop k es
     else k < n \<and> k < length es \<and> batch_map_entry flags (es ! k) ks1 = Some ((r, es' ! k), ks') \<and>
       drop (Suc k) es' = drop (Suc k) es) \<and> length es' = length es)"
  using assms
proof (induction n arbitrary: es p0 ks es' p)
  case 0
  then show ?case by auto
next
  case (Suc n)
  then obtain e rest where es: "es = e # rest" by (cases es) auto
  obtain r1 e1 ks1 where step: "batch_map_entry flags e ks = Some ((r1, e1), ks1)"
    using Suc.prems es by (auto simp: bind_iff)
  show ?case
  proof (cases "r1 = ORBIS_OK")
    case False
    then have "r = r1" "p = p0" "es' = e1 # rest" "ks' = ks1" using Suc.prems es step by auto
    then show ?thesis using es step False by (intro exI [of _ 0]) auto
  next
    case True
    then obtain p2 es2 where rec: "batch_map_loop flags n rest (p0 + 1) ks1 = Some ((r, p2, es2), ks')"
      "p = p2" "es' = e1 # es2"
      using Suc.prems es step by (auto simp: bind_iff)
    obtain k ks2 where IH: "k \<le> n" "p2 = p0 + 1 + int k" "k \<le> length rest"
      "run_entries flags (take k rest) ks1 = Some (take k es2, ks2)"
      "if r = ORBIS_OK then k = n \<and> ks' = ks2 \<and> drop k es2 = drop k rest
       else k < n \<and> k < length rest \<and> batch_map_entry flags (rest ! k) ks2 = Some ((r, es2 ! k), ks') \<and>
         drop (Suc k) es2 = drop (Suc k) rest" "length es2 = length rest"
      using Suc.IH [OF rec(1)] by blast
    show ?thesis
      using IH rec(2,3) es step True by (intro exI [of _ "Suc k"] conjI exI [of _ ks2]) (auto split: if_splits)
  qed
qed

text \<open>
  C35. A batch runs its entries in order, each on the state the one before left, and stops at the
  first that fails: the number it reports is the number of entries that succeeded, the entries after
  the failing one are untouched, and on success all requested entries have run.
\<close>

theorem sceKernelBatchMap2_prefix:
  assumes "sceKernelBatchMap2 (Some es) numEntries (Some out) flags ks = Some ((r, p, es'), ks')"
  shows "\<exists>k done_es ks1 rest. k \<le> nat numEntries \<and> k \<le> length es \<and> p = Some (int k) \<and> es' = Some (done_es @ rest) \<and>
    run_entries flags (take k es) ks = Some (done_es, ks1) \<and>
    (if r = ORBIS_OK then k = nat numEntries \<and> ks' = ks1 \<and> rest = drop k es
     else k < nat numEntries \<and> (\<exists>e'. rest = e' # drop (Suc k) es \<and>
       batch_map_entry flags (es ! k) ks1 = Some ((r, e'), ks')))"
proof -
  obtain p1 es1 where L: "batch_map_loop flags (nat numEntries) es 0 ks = Some ((r, p1, es1), ks')"
    "p = Some p1" "es' = Some es1"
    using assms by (auto simp: sceKernelBatchMap2_def bind_iff)
  obtain k ks1 where K: "k \<le> nat numEntries" "p1 = int k" "k \<le> length es"
    "run_entries flags (take k es) ks = Some (take k es1, ks1)"
    "if r = ORBIS_OK then k = nat numEntries \<and> ks' = ks1 \<and> drop k es1 = drop k es
     else k < nat numEntries \<and> k < length es \<and> batch_map_entry flags (es ! k) ks1 = Some ((r, es1 ! k), ks') \<and>
       drop (Suc k) es1 = drop (Suc k) es" "length es1 = length es"
    using batch_map_loop_prefix [OF L(1)] by auto
  have rest: "drop k es1 = es1 ! k # drop (Suc k) es1" if "k < length es"
    using that K(6) by (simp add: Cons_nth_drop_Suc)
  show ?thesis
    using K L(2,3) rest
    by (intro exI [of _ k] exI [of _ "take k es1"] exI [of _ ks1] exI [of _ "drop k es1"])
      (auto split: if_splits)
qed

theorem sceKernelBatchMap2_prefix_witness:
  "\<exists>es' ks'. sceKernelBatchMap2 (Some [\<lparr>be_start = 0, be_offset = 0, be_length = 0, be_protection = 0, be_type = 0,
     be_operation = 0\<rparr>]) 1 (Some 7) 16 (kernel_boot boot) = Some ((KERNEL_EINVAL, Some 0, es'), ks') \<and>
   run_entries 16 [] (kernel_boot boot) = Some ([], kernel_boot boot)"
proof -
  let ?e = "\<lparr>be_start = 0, be_offset = 0, be_length = 0, be_protection = 0, be_type = 0, be_operation = 0\<rparr>"
  have c: "sceKernelBatchMap2 (Some [?e]) 1 (Some 7) 16 (kernel_boot boot)
      = Some ((KERNEL_EINVAL, Some 0, Some [?e]), kernel_boot boot)"
    by (simp add: sceKernelBatchMap2_def batch_map_entry_def)
  from sceKernelBatchMap2_prefix [OF c] c show ?thesis by auto
qed

section \<open>PRT apertures\<close>

text \<open>
  An aperture is accepted exactly when its index is 0, 1 or 2, its address is page aligned and
  not below the PRT area, and its end, computed modulo \<open>2 ^ 64\<close>, is not above the area; so a size
  that wraps around is accepted.  An accepted aperture is what \<open>sceKernelGetPrtAperture\<close> reports,
  and the others keep their values.
\<close>

theorem sceKernelSetPrtAperture_get:
  assumes "length (PrtApertures ks) = 3" "length (prt_areas (memory ks)) = 3" "address < two64" "len < two64"
  shows "\<exists>r ks'. sceKernelSetPrtAperture i address len ks = Some (r, ks') \<and>
    (if 0 \<le> i \<and> i < 3 \<and> address mod 4096 = 0 \<and> 0x1000000000 \<le> address \<and>
        (address + len) mod two64 \<le> 0xFC00000000
     then r = ORBIS_OK \<and> (\<forall>out. sceKernelGetPrtAperture i out ks' = (ORBIS_OK, address, len)) \<and>
       (\<forall>j out. j \<noteq> i \<longrightarrow> sceKernelGetPrtAperture j out ks' = sceKernelGetPrtAperture j out ks) \<and>
       length (PrtApertures ks') = 3 \<and> length (prt_areas (memory ks')) = 3 \<and>
       vma_at (memory ks') = vma_at (memory ks)
     else r = KERNEL_EINVAL \<and> ks' = ks)"
proof (cases "0 \<le> i \<and> i < 3 \<and> address mod 4096 = 0 \<and> 0x1000000000 \<le> address \<and>
        (address + len) mod two64 \<le> 0xFC00000000")
  case False
  then have "sceKernelSetPrtAperture i address len ks = Some (KERNEL_EINVAL, ks)"
    by (auto simp: sceKernelSetPrtAperture_def add64_def)
  then show ?thesis using False by auto
next
  case True
  then have i: "nat i < 3" by auto
  obtain m where m: "SetPrtArea (nat i) address len (memory ks) = Some m"
    "length (prt_areas m) = 3" "vma_map m = vma_map (memory ks)"
    using i assms(2) by (auto simp: SetPrtArea_def Let_def emit_def emit_if_def)
  let ?ks = "ks\<lparr>memory := m, PrtApertures := (PrtApertures ks)[nat i := (address, len)]\<rparr>"
  have "sceKernelSetPrtAperture i address len ks = Some (ORBIS_OK, ?ks)"
    using True m(1) by (simp add: sceKernelSetPrtAperture_def add64_def)
  moreover have "sceKernelGetPrtAperture i out ?ks = (ORBIS_OK, address, len)" for out
    using True i assms(1) by (simp add: sceKernelGetPrtAperture_def)
  moreover have "sceKernelGetPrtAperture j out ?ks = sceKernelGetPrtAperture j out ks" if "j \<noteq> i" for j out
    using that True by (auto simp: sceKernelGetPrtAperture_def nth_list_update_neq)
  ultimately show ?thesis using True m(2,3) assms(1) by auto
qed

theorem sceKernelSetPrtAperture_get_witness:
  "\<exists>ks'. sceKernelSetPrtAperture 2 0x1000000000 18446744073709551615 (kernel_boot (boot\<lparr>prt_areas :=
       replicate 3 \<lparr>prt_start = 0, prt_end = 0, prt_mapped = False\<rparr>\<rparr>)) = Some (ORBIS_OK, ks') \<and>
     sceKernelGetPrtAperture 2 (0, 0) ks' = (ORBIS_OK, 0x1000000000, 18446744073709551615)"
  using sceKernelSetPrtAperture_get [of "kernel_boot (boot\<lparr>prt_areas :=
       replicate 3 \<lparr>prt_start = 0, prt_end = 0, prt_mapped = False\<rparr>\<rparr>)" "0x1000000000" 18446744073709551615 2]
  by auto

section \<open>Sequences of calls\<close>

lemma mm_wf_dmem_update:
  assumes "mm_wf s" "dmem_wf (s\<lparr>dmem_map := m, pool_budget := b\<rparr>)"
  shows "mm_wf (s\<lparr>dmem_map := m, pool_budget := b\<rparr>)"
  using assms by (simp add: mm_wf_def)

lemma mm_wf_dmem_update':
  assumes "mm_wf s" "dmem_wf (s\<lparr>dmem_map := m\<rparr>)"
  shows "mm_wf (s\<lparr>dmem_map := m\<rparr>)"
  using assms by (simp add: mm_wf_def)

text \<open>
  One call of a guest, out of nine kinds of calls, with what the guest has to respect: sizes and
  addresses below \<open>2 ^ 62\<close>, ranges that lie in the address space, mappings that do not overwrite, an
  address that is given to the named mappings, enough flexible memory, direct memory below its end, a
  pool commit at a multiple of 64 KB (at other addresses the code breaks the backing).  Decommitting,
  reserving and the unchecked release are not among the calls.  A call has to return; whether it succeeds
  or reports an error is left open.
\<close>

inductive guest_call :: "KernelMemory \<Rightarrow> KernelMemory \<Rightarrow> bool" where
  allocate: "sceKernelAllocateDirectMemory a e len alignment t out ks = Some (res, ks') \<Longrightarrow>
    0 < total_direct_size (memory ks) \<Longrightarrow> e < 2 ^ 63 \<Longrightarrow>
    nat a + total_direct_size (memory ks) + effective_alignment KB16 alignment + len \<le> two64 \<Longrightarrow>
    guest_call ks ks'"
| release: "sceKernelCheckedReleaseDirectMemory start len ks = Some (r, ks') \<Longrightarrow>
    start + len \<le> total_direct_size (memory ks) \<Longrightarrow> guest_call ks ks'"
| pool_expand: "sceKernelMemoryPoolExpand a e len alignment out ks = Some (res, ks') \<Longrightarrow>
    0 < total_direct_size (memory ks) \<Longrightarrow> e < two64 \<Longrightarrow>
    a + total_direct_size (memory ks) + effective_alignment KB64 alignment + len \<le> two64 \<Longrightarrow>
    guest_call ks ks'"
| map_flexible: "sceKernelMapNamedFlexibleMemory addr len p flags name ks = Some (res, ks') \<Longrightarrow>
    request_ok (memory ks) addr len (word_of_int flags) 0 \<Longrightarrow> addr \<noteq> 0 \<Longrightarrow>
    flexible_usage (memory ks) + len \<le> total_flexible_size (memory ks) \<Longrightarrow>
    total_flexible_size (memory ks) < two64 \<Longrightarrow>
    len \<le> card (flex_free (fmem_at (memory ks))) \<Longrightarrow> guest_call ks ks'"
| map_direct: "sceKernelMapNamedDirectMemory addr len p flags (int phys) alignment name ks = Some (res, ks') \<Longrightarrow>
    request_ok (memory ks) addr len (word_of_int flags) alignment \<Longrightarrow> addr \<noteq> 0 \<Longrightarrow>
    phys + len \<le> total_direct_size (memory ks) \<Longrightarrow> guest_call ks ks'"
| unmap: "sceKernelMunmap addr len ks = Some (r, ks') \<Longrightarrow> len + KB16 \<le> two64 \<Longrightarrow>
    covered (vma_map (memory ks)) (AlignDown addr KB16) (AlignUp len KB16) \<Longrightarrow> guest_call ks ks'"
| protect: "sceKernelMprotect addr len p ks = Some (r, ks') \<Longrightarrow> 0 < len \<Longrightarrow> addr + len + KB16 \<le> two64 \<Longrightarrow>
    covered (vma_map (memory ks)) (AlignDown addr KB16) (AlignUp (len + addr mod KB16) KB16) \<Longrightarrow>
    guest_call ks ks'"
| set_name: "sceKernelSetVirtualRangeName addr len name ks = Some (r, ks') \<Longrightarrow> 0 < len \<Longrightarrow>
    len + KB16 \<le> two64 \<Longrightarrow>
    covered (vma_map (memory ks)) (AlignDown addr KB16) (AlignUp len KB16) \<Longrightarrow> guest_call ks ks'"
| commit: "sceKernelMemoryPoolCommit addr len t p flags ks = Some (r, ks') \<Longrightarrow> KB64 dvd addr \<Longrightarrow>
    guest_call ks ks'"
| errno: "guest_call ks (ErrSceToPosix e ks)"

inductive_cases guest_callE: "guest_call ks ks'"

text \<open>
  A call moves the mapping generation on by one complete mutation, or leaves the areas alone.
\<close>

definition generation_step :: "MemoryManager \<Rightarrow> MemoryManager \<Rightarrow> bool" where
  "generation_step s s' \<longleftrightarrow> mapping_generation s' = mapping_generation s + 2 \<or>
     mapping_generation s' = mapping_generation s \<and> vma_map s' = vma_map s"

lemma generation_step_same [simp]: "generation_step s s"
  by (simp add: generation_step_def)

lemma allocate_wf:
  assumes "sceKernelAllocateDirectMemory a e len alignment t out ks = Some (res, ks')" "mm_wf (memory ks)"
    "0 < total_direct_size (memory ks)" "e < 2 ^ 63"
    "nat a + total_direct_size (memory ks) + effective_alignment KB16 alignment + len \<le> two64"
  shows "mm_wf (memory ks') \<and> generation_step (memory ks) (memory ks')"
proof (cases "alloc_args_ok a e len alignment t out \<and> a + int len \<le> e")
  case False
  have "ks' = ks"
  proof (cases "alloc_args_ok a e len alignment t out")
    case True
    with False show ?thesis
      using assms(1) unfolding Allocate_checked [OF True assms(4)] by simp
  qed (use assms(1) Allocate_args in simp)
  then show ?thesis using assms(2) by simp
next
  case True
  then have len: "0 < len" by (simp add: alloc_args_ok_def)
  have d: "dmem_wf (memory ks)" using assms(2) by (simp add: mm_wf_def)
  obtain r s' where A: "Allocate (nat a) (nat e) len alignment t (memory ks) = Some (r, s')" "dmem_wf s'"
    "let f = fits (dmem_map (memory ks)) (nat a) len (effective_alignment KB16 alignment) in
     if r = minus_one64 then s' = memory ks \<and> (\<forall>x. f x \<longrightarrow> nat e < x + len)
     else f r \<and> (\<forall>x. f x \<longrightarrow> r \<le> x) \<and> r + len \<le> nat e \<and>
       (\<forall>x. r \<le> x \<and> x < r + len \<longrightarrow> (\<exists>t. dmem_at (memory ks) x = Some (x, t, PFree))) \<and>
       s' = (memory ks)\<lparr>dmem_map := dmem_map s'\<rparr> \<and>
       dmem_at s' = phys_rewrite r len t Allocated (dmem_at (memory ks))"
    using Allocate_first_fit_spec [OF d assms(3) len assms(5), of "nat e" t] by blast
  have "s' = memory ks \<or> s' = (memory ks)\<lparr>dmem_map := dmem_map s'\<rparr>"
    using A(3) unfolding Let_def by (cases "r = minus_one64") simp_all
  moreover have "generation_step m (m\<lparr>dmem_map := d\<rparr>)" for m d by (simp add: generation_step_def)
  ultimately have "mm_wf s' \<and> generation_step (memory ks) s'"
    using A(2) assms(2) mm_wf_dmem_update' generation_step_same by metis
  then show ?thesis
    using assms(1) A(1) True Allocate_checked [of a e len alignment t out, OF _ assms(4)]
    by (auto simp: on_memory_def)
qed

lemma pool_expand_wf:
  assumes "sceKernelMemoryPoolExpand a e len alignment out ks = Some (res, ks')" "mm_wf (memory ks)"
    "0 < total_direct_size (memory ks)"
    "a + total_direct_size (memory ks) + effective_alignment KB64 alignment + len \<le> two64"
  shows "mm_wf (memory ks') \<and> generation_step (memory ks) (memory ks')"
proof -
  have d: "dmem_wf (memory ks)" using assms(2) by (simp add: mm_wf_def)
  { assume len: "0 < len"
    obtain r s' where P: "\<forall>e. PoolExpand a e len alignment (memory ks) = Some (r, s')" "dmem_wf s'"
      "let fit = fits (dmem_map (memory ks)) a len (effective_alignment KB64 alignment)
       in if r = minus_one64 then s' = memory ks \<and> (\<forall>x. \<not> fit x)
          else fit r \<and> (\<forall>x. fit x \<longrightarrow> r \<le> x) \<and>
            s' = (memory ks)\<lparr>dmem_map := dmem_map s', pool_budget := add64 (pool_budget (memory ks)) len\<rparr> \<and>
            dmem_at s' = phys_rewrite r len 3 PPooled (dmem_at (memory ks))"
      using PoolExpand_first_fit_spec [OF d assms(3) len assms(4)] by blast
    then have "s' = memory ks \<or>
        s' = (memory ks)\<lparr>dmem_map := dmem_map s', pool_budget := add64 (pool_budget (memory ks)) len\<rparr>"
      unfolding Let_def by (cases "r = minus_one64") simp_all
    moreover have "generation_step m (m\<lparr>dmem_map := d, pool_budget := b\<rparr>)" for m d b
      by (simp add: generation_step_def)
    ultimately have "mm_wf s' \<and> generation_step (memory ks) s'"
      using P(2) assms(2) mm_wf_dmem_update generation_step_same by metis
    with P(1) have ?thesis
      using assms(1,2) by (auto simp: sceKernelMemoryPoolExpand_def on_memory_def Let_def split: if_splits) }
  moreover have "ks' = ks" if "len = 0"
    using that assms(1) by (auto simp: sceKernelMemoryPoolExpand_def split: if_splits)
  ultimately show ?thesis using assms(2) by (cases "len = 0") simp_all
qed

lemma on_memoryE:
  assumes "on_memory f ks = Some (r, ks')"
  obtains m where "f (memory ks) = Some (r, m)" "ks' = ks\<lparr>memory := m\<rparr>"
  using assms by (auto simp: on_memory_def bind_iff)

lemma release_wf:
  assumes "sceKernelCheckedReleaseDirectMemory start len ks = Some (r, ks')" "mm_wf (memory ks)"
    "start + len \<le> total_direct_size (memory ks)"
  shows "mm_wf (memory ks') \<and> generation_step (memory ks) (memory ks')"
proof (cases "Is16KBAligned start \<and> Is16KBAligned len \<and> 0 < len")
  case False
  then have "ks' = ks" using assms(1) by (auto simp: sceKernelCheckedReleaseDirectMemory_def split: if_splits)
  then show ?thesis using assms(2) by simp
next
  case True
  then have "on_memory (Free start len True) ks = Some (r, ks')"
    using assms(1) by (auto simp: sceKernelCheckedReleaseDirectMemory_def)
  then obtain m where m: "Free start len True (memory ks) = Some (r, m)" "ks' = ks\<lparr>memory := m\<rparr>"
    by (rule on_memoryE)
  have "0 < len" using True by blast
  from Free_checked_spec [OF assms(2) this assms(3)] m assms(2) show ?thesis
    by (auto simp: generation_step_def split: if_splits)
qed

lemma map_flexible_wf:
  assumes "sceKernelMapNamedFlexibleMemory addr len p flags name ks = Some (res, ks')" "mm_wf (memory ks)"
    "request_ok (memory ks) addr len (word_of_int flags) 0" "addr \<noteq> 0"
    "flexible_usage (memory ks) + len \<le> total_flexible_size (memory ks)"
    "total_flexible_size (memory ks) < two64" "len \<le> card (flex_free (fmem_at (memory ks)))"
  shows "mm_wf (memory ks') \<and> generation_step (memory ks) (memory ks')"
proof -
  have fx: "fixed_at_null (word_of_int flags) addr ks = Some (word_of_int flags)"
    using assms(4) by (simp add: fixed_at_null_def)
  note M = MapMemory_flexible_spec [OF assms(2,3,5,6,7)]
  have step: "mm_wf (memory ks1) \<and> generation_step (memory ks) (memory ks1)"
    if "on_memory (MapMemory addr len (word_of_int p) (word_of_int flags) Flexible n False minus_one64 0) ks
      = Some (r, ks1)" for n r ks1
  proof -
    from that obtain m where m: "MapMemory addr len (word_of_int p) (word_of_int flags) Flexible n False
        minus_one64 0 (memory ks) = Some (r, m)" "ks1 = ks\<lparr>memory := m\<rparr>" by (rule on_memoryE)
    have "m = memory ks \<or> mm_wf m \<and> generation_step (memory ks) m"
      using M [of "word_of_int p" n False] unfolding m(1) by (cases r) (auto simp: generation_step_def)
    with m(2) assms(2) show ?thesis by auto
  qed
  show ?thesis
    using assms(1,2) step unfolding sceKernelMapNamedFlexibleMemory_def fx
    by (auto simp: bind_iff split: if_splits option.splits)
qed

lemma map_direct_wf:
  assumes "sceKernelMapNamedDirectMemory addr len p flags (int phys) alignment name ks = Some (res, ks')"
    "mm_wf (memory ks)" "request_ok (memory ks) addr len (word_of_int flags) alignment" "addr \<noteq> 0"
    "phys + len \<le> total_direct_size (memory ks)"
  shows "mm_wf (memory ks') \<and> generation_step (memory ks) (memory ks')"
proof -
  have fx: "fixed_at_null (word_of_int flags) addr ks = Some (word_of_int flags)"
    using assms(4) by (simp add: fixed_at_null_def)
  have "phys < 2 ^ 62" using assms(2,3,5) by (auto simp: mm_wf_def dmem_wf_def request_ok_def)
  then have ph: "u64_of_int (int phys) = phys" by (subst u64_of_int_nat) auto
  note M = MapMemory_direct_spec [OF assms(2,3,5)]
  have step: "mm_wf (memory ks1) \<and> generation_step (memory ks) (memory ks1)"
    if "on_memory (MapMemory addr len (word_of_int p) (word_of_int flags) Direct name v phys alignment) ks
      = Some (r, ks1)" for v r ks1
  proof -
    from that obtain m where m: "MapMemory addr len (word_of_int p) (word_of_int flags) Direct name v phys
        alignment (memory ks) = Some (r, m)" "ks1 = ks\<lparr>memory := m\<rparr>" by (rule on_memoryE)
    have "m = memory ks \<or> mm_wf m \<and> generation_step (memory ks) m"
      using M [of "word_of_int p" name v] unfolding m(1) by (cases r) (auto simp: generation_step_def split: if_splits)
    with m(2) assms(2) show ?thesis by auto
  qed
  show ?thesis
    using assms(1,2) step unfolding sceKernelMapNamedDirectMemory_def fx ph Let_def
    by (auto simp: bind_iff split: if_splits)
qed

lemma unmap_wf:
  assumes "sceKernelMunmap addr len ks = Some (r, ks')" "mm_wf (memory ks)" "len + KB16 \<le> two64"
    "covered (vma_map (memory ks)) (AlignDown addr KB16) (AlignUp len KB16)"
  shows "mm_wf (memory ks') \<and> generation_step (memory ks) (memory ks')"
proof (cases "len = 0")
  case True
  then show ?thesis using assms(1,2) by (auto simp: sceKernelMunmap_def)
next
  case False
  then have "on_memory (UnmapMemory addr len) ks = Some (r, ks')" using assms(1) by (simp add: sceKernelMunmap_def)
  then obtain m where "UnmapMemory addr len (memory ks) = Some (r, m)" "ks' = ks\<lparr>memory := m\<rparr>"
    by (rule on_memoryE)
  with UnmapMemory_direct_spec [OF assms(2) _ assms(3) refl refl assms(4)] False show ?thesis
    by (auto simp: generation_step_def)
qed

lemma set_name_wf:
  assumes "sceKernelSetVirtualRangeName addr len name ks = Some (r, ks')" "mm_wf (memory ks)" "0 < len"
    "len + KB16 \<le> two64" "covered (vma_map (memory ks)) (AlignDown addr KB16) (AlignUp len KB16)"
  shows "mm_wf (memory ks') \<and> generation_step (memory ks) (memory ks')"
proof (cases name)
  case None
  then show ?thesis using assms(1,2) by (simp add: sceKernelSetVirtualRangeName_def)
next
  case (Some n)
  obtain m where "NameVirtualRange addr len n (memory ks) = Some m" "mm_wf m"
    "mapping_generation m = mapping_generation (memory ks) + 2"
    using NameVirtualRange_names_spec [OF assms(2-4) refl refl assms(5), of n] by blast
  then show ?thesis using assms(1,2) Some
    by (auto simp: sceKernelSetVirtualRangeName_def generation_step_def split: if_splits)
qed

lemma commit_wf:
  assumes "sceKernelMemoryPoolCommit addr len t p flags ks = Some (r, ks')" "mm_wf (memory ks)" "KB64 dvd addr"
  shows "mm_wf (memory ks') \<and> generation_step (memory ks) (memory ks')"
proof (cases "on_memory (PoolCommit addr len (word_of_int p) t) ks = Some (r, ks') \<and> 0 < len")
  case False
  then show ?thesis using assms(1,2)
    by (auto simp: sceKernelMemoryPoolCommit_def Let_def split: if_splits)
next
  case True
  then obtain m where m: "PoolCommit addr len (word_of_int p) t (memory ks) = Some (r, m)" "ks' = ks\<lparr>memory := m\<rparr>"
    by (auto elim: on_memoryE)
  have "mm_wf ((memory ks)\<lparr>mapping_generation := mapping_generation (memory ks) + 2\<rparr>)"
    using assms(2) by (simp add: mm_wf_def dmem_wf_def)
  with PoolCommit_commits_spec [OF assms(2,3) _ m(1)] True m(2) show ?thesis
    by (auto simp: generation_step_def split: if_splits)
qed

text \<open>One call keeps the invariant, so does every sequence of calls.\<close>

lemma guest_call_step:
  assumes "guest_call ks ks'" "mm_wf (memory ks)"
  shows "mm_wf (memory ks') \<and> generation_step (memory ks) (memory ks')"
  using assms(1)
proof (cases rule: guest_call.cases)
  case allocate
  then show ?thesis using allocate_wf assms(2) by blast
next
  case release
  then show ?thesis using release_wf assms(2) by blast
next
  case pool_expand
  then show ?thesis using pool_expand_wf assms(2) by blast
next
  case map_flexible
  then show ?thesis using map_flexible_wf assms(2) by blast
next
  case map_direct
  then show ?thesis using map_direct_wf assms(2) by blast
next
  case unmap
  then show ?thesis using unmap_wf assms(2) by blast
next
  case (protect addr len p r)
  then show ?thesis
    using sceKernelMprotect_pages_spec [OF assms(2) protect(2,3) refl refl protect(4), of p] protect(1)
    by (auto simp: generation_step_def)
next
  case set_name
  then show ?thesis using set_name_wf assms(2) by blast
next
  case commit
  then show ?thesis using commit_wf assms(2) by blast
next
  case errno
  then show ?thesis using assms(2) by (simp add: ErrSceToPosix_def)
qed

lemmas guest_call_wf = guest_call_step [THEN conjunct1]

text \<open>
  C1. Every sequence of the nine kinds of guest calls above, each within its conditions and returning
  whatever it does, keeps the invariant of the memory manager: the areas of the address space and of both
  physical memories are in order, disjoint and not empty, an area with physical backing is backed from
  end to end; direct memory has no gaps and flexible memory no neighbours that could be merged; the
  flexible bytes in use are exactly those some flexible mapping is backed by, each by one address, and the
  usage counter is their number.
\<close>

theorem guest_calls_wf:
  assumes "guest_call\<^sup>*\<^sup>* ks ks'" "mm_wf (memory ks)"
  shows "mm_wf (memory ks') \<and> flexible_usage (memory ks') = card (flex_used (fmem_at (memory ks'))) \<and>
    flex_ok (vma_at (memory ks')) (fmem_at (memory ks'))"
proof -
  have "mm_wf (memory ks')"
    using assms by (induction rule: rtranclp_induct) (auto intro: guest_call_wf)
  then show ?thesis by (simp add: mm_wf_def)
qed

theorem guest_calls_wf_witness:
  "\<exists>ks1. sceKernelMunmap 0x400000 0x4000 (kernel_boot direct_boot) = Some (ORBIS_OK, ks1) \<and>
    (let ks2 = snd (the (sceKernelMemoryPoolCommit 0 0x10000 0 3 0 ks1)) in mm_wf (memory ks2) \<and> ks2 = ks1)"
proof -
  obtain s' where s': "UnmapMemory 0x400000 0x4000 direct_boot = Some (0, s')" using direct_boot_unmaps by blast
  let ?ks1 = "(kernel_boot direct_boot)\<lparr>memory := s'\<rparr>"
  have u: "sceKernelMunmap 0x400000 0x4000 (kernel_boot direct_boot) = Some (ORBIS_OK, ?ks1)"
    using s' by (simp add: sceKernelMunmap_def on_memory_def)
  have c: "covered (vma_map (memory (kernel_boot direct_boot))) (AlignDown 0x400000 KB16) (AlignUp 0x4000 KB16)"
    by (auto simp: AlignUp_def AlignDown_def covered_def direct_boot_def free_vma_def)
  have p: "sceKernelMemoryPoolCommit 0 0x10000 0 3 0 ?ks1 = Some (KERNEL_EINVAL, ?ks1)"
    by (simp add: sceKernelMemoryPoolCommit_def)
  have "guest_call\<^sup>*\<^sup>* (kernel_boot direct_boot) ?ks1"
    by (rule r_into_rtranclp, rule guest_call.unmap [OF u _ c]) simp
  moreover have "guest_call ?ks1 ?ks1" by (rule guest_call.commit [OF p]) simp
  ultimately have "guest_call\<^sup>*\<^sup>* (kernel_boot direct_boot) ?ks1" by (rule rtranclp.rtrancl_into_rtrancl)
  from guest_calls_wf [OF this] direct_boot_mm_wf have "mm_wf (memory ?ks1)" by simp
  with u p show ?thesis by simp
qed

end
