(* ===== verification/Slot_Vector.thy ===== *)
theory Slot_Vector
  imports Prelude
begin

text \<open>
  The container \<open>Common::SlotVector\<close> of \<open>src/src/common/slot_vector.h\<close>: an array of slots that grows
  by doubling, a bit set of the slots in use and a list of the free indices.

  The array holds \<open>None\<close> where no object lives.  Reading outside the bit set or the array, moving or
  destroying an object that does not live, and taking the last element of an empty list are undefined
  behaviour, here \<open>None\<close>.  The debug assertions are not part of the behaviour.
\<close>

abbreviation u32_max1 :: nat where "u32_max1 \<equiv> 4294967296"

record 'a SlotVector =
  slot_values :: "'a option list"
  values_capacity :: nat
  stored_bitset :: "64 word list"
  free_list :: "nat list"

section \<open>Operations\<close>

definition InitialCapacity :: nat where "InitialCapacity = 2048"

definition ReadStorageBit :: "nat \<Rightarrow> 'a SlotVector \<Rightarrow> bool option" where
  "ReadStorageBit index v =
     (if index div 64 < length (stored_bitset v)
      then Some (drop_bit (index mod 64) (stored_bitset v ! (index div 64)) AND 1 \<noteq> 0) else None)"

definition SetStorageBit :: "nat \<Rightarrow> 'a SlotVector \<Rightarrow> 'a SlotVector option" where
  "SetStorageBit index v =
     (if index div 64 < length (stored_bitset v)
      then Some (v\<lparr>stored_bitset := (stored_bitset v)[index div 64 :=
             stored_bitset v ! (index div 64) OR push_bit (index mod 64) 1]\<rparr>) else None)"

definition ResetStorageBit :: "nat \<Rightarrow> 'a SlotVector \<Rightarrow> 'a SlotVector option" where
  "ResetStorageBit index v =
     (if index div 64 < length (stored_bitset v)
      then Some (v\<lparr>stored_bitset := (stored_bitset v)[index div 64 :=
             stored_bitset v ! (index div 64) AND NOT (push_bit (index mod 64) 1)]\<rparr>) else None)"

lemma drop_bit_1_less:
  assumes "(w :: 64 word) \<noteq> 0"
  shows "unat (drop_bit (Suc 0) w) < unat w"
proof -
  have "unat (drop_bit (Suc 0) w) = unat w div 2"
    by (simp only: unat_drop_bit_eq) (simp add: drop_bit_Suc)
  moreover have "0 < unat w" using assms by (simp add: unat_gt_0)
  ultimately show ?thesis by simp
qed

text \<open>The inner loop of \<open>Reserve\<close>, over the bits of one word, and the outer one over the words.\<close>

function move_bits ::
  "64 word \<Rightarrow> nat \<Rightarrow> 'a option list \<Rightarrow> 'a option list \<Rightarrow> 'a option list option" where
  "move_bits bits i old new =
     (if bits = 0 then Some new
      else if bits AND 1 = 0 then move_bits (drop_bit 1 bits) (i + 1) old new
      else if i < length old \<and> i < length new \<and> old ! i \<noteq> None
      then move_bits (drop_bit 1 bits) (i + 1) old (new[i := old ! i])
      else None)"
  by pat_completeness auto
termination by (relation "measure (\<lambda>(bits, _, _, _). unat bits)") (auto simp: drop_bit_1_less)

declare move_bits.simps [simp del]

fun move_words ::
  "64 word list \<Rightarrow> nat \<Rightarrow> 'a option list \<Rightarrow> 'a option list \<Rightarrow> 'a option list option" where
  "move_words [] index old new = Some new"
| "move_words (bits # ws) index old new = do {
     new' \<leftarrow> move_bits bits index old new;
     move_words ws (index + 64) old new' }"

definition Reserve :: "nat \<Rightarrow> 'a SlotVector \<Rightarrow> 'a SlotVector option" where
  "Reserve new_capacity v = do {
     new_values \<leftarrow> move_words (stored_bitset v) 0 (slot_values v) (replicate new_capacity None);
     let words = (new_capacity + 63) div 64;
     Some (v\<lparr>stored_bitset := take words (stored_bitset v) @ replicate (words - length (stored_bitset v)) 0,
             free_list := free_list v @ rev (map (\<lambda>i. i mod u32_max1) [values_capacity v..<new_capacity]),
             slot_values := new_values, values_capacity := new_capacity\<rparr>) }"

definition construct_SlotVector :: "'a SlotVector option" where
  "construct_SlotVector =
     Reserve InitialCapacity \<lparr>slot_values = [], values_capacity = 0, stored_bitset = [], free_list = []\<rparr>"

definition FreeValueIndex :: "'a SlotVector \<Rightarrow> (nat \<times> 'a SlotVector) option" where
  "FreeValueIndex v0 = do {
     v \<leftarrow> (if free_list v0 = []
           then Reserve (if values_capacity v0 \<noteq> 0 then push_bit 1 (values_capacity v0) mod two64 else 1) v0
           else Some v0);
     (if free_list v = [] then None
      else Some (last (free_list v), v\<lparr>free_list := butlast (free_list v)\<rparr>)) }"

definition slot_insert :: "'a \<Rightarrow> 'a SlotVector \<Rightarrow> (nat \<times> 'a SlotVector) option" where
  "slot_insert x v0 = do {
     (index, v) \<leftarrow> FreeValueIndex v0;
     (if index < length (slot_values v) then do {
        v' \<leftarrow> SetStorageBit index (v\<lparr>slot_values := (slot_values v)[index := Some x]\<rparr>);
        Some (index, v') }
      else None) }"

definition slot_erase :: "nat \<Rightarrow> 'a SlotVector \<Rightarrow> 'a SlotVector option" where
  "slot_erase i v =
     (if i < length (slot_values v) \<and> slot_values v ! i \<noteq> None
      then ResetStorageBit i (v\<lparr>slot_values := (slot_values v)[i := None], free_list := free_list v @ [i]\<rparr>)
      else None)"

text \<open>\<open>operator[]\<close>, which gives a reference: reading through it, and writing through it.\<close>

definition slot_at :: "nat \<Rightarrow> 'a SlotVector \<Rightarrow> 'a option" where
  "slot_at i v = (if i < length (slot_values v) then slot_values v ! i else None)"

definition slot_put :: "nat \<Rightarrow> 'a \<Rightarrow> 'a SlotVector \<Rightarrow> 'a SlotVector option" where
  "slot_put i x v =
     (if slot_at i v \<noteq> None then Some (v\<lparr>slot_values := (slot_values v)[i := Some x]\<rparr>) else None)"

definition is_allocated :: "nat \<Rightarrow> 'a SlotVector \<Rightarrow> bool option" where
  "is_allocated i v = ReadStorageBit i v"

definition slot_size :: "'a SlotVector \<Rightarrow> u64" where
  "slot_size v = sub64 (values_capacity v) (length (free_list v))"

lemma AdvanceToValid_less: "slot < c mod u32_max1 \<Longrightarrow> (slot + 1) mod u32_max1 = slot + 1"
  using mod_less_divisor [of u32_max1 c] by (simp add: mod_less)

text \<open>
  The iterator: its slot moves up to the next one in use, or to the capacity.  A \<open>SlotId\<close> holds 32 bits, so
  that the capacity is compared, and the slot counted, modulo \<open>2 ^ 32\<close>.
\<close>

function AdvanceToValid :: "nat \<Rightarrow> 'a SlotVector \<Rightarrow> nat option" where
  "AdvanceToValid slot v =
     (if slot < values_capacity v mod u32_max1 then do {
        b \<leftarrow> ReadStorageBit slot v;
        (if b then Some slot else AdvanceToValid ((slot + 1) mod u32_max1) v) }
      else Some slot)"
  by pat_completeness auto
termination
proof (relation "measure (\<lambda>(slot, v). values_capacity v mod u32_max1 - slot)")
  fix slot v b
  assume "slot < values_capacity v mod u32_max1"
  then show "(((slot + 1) mod u32_max1, v), slot, v) \<in> measure (\<lambda>(slot, v). values_capacity v mod u32_max1 - slot)"
    unfolding in_measure prod.case by (subst AdvanceToValid_less, assumption) linarith
qed (rule wf_measure)

declare AdvanceToValid.simps [simp del]

definition iterator_begin :: "'a SlotVector \<Rightarrow> nat option" where
  "iterator_begin v = AdvanceToValid 0 v"

definition iterator_end :: "'a SlotVector \<Rightarrow> nat option" where
  "iterator_end v = AdvanceToValid (values_capacity v mod u32_max1) v"

definition iterator_next :: "nat \<Rightarrow> 'a SlotVector \<Rightarrow> nat option" where
  "iterator_next slot v = AdvanceToValid ((slot + 1) mod u32_max1) v"

section \<open>Invariant and content\<close>

definition slot_map :: "'a SlotVector \<Rightarrow> nat \<Rightarrow> 'a option" where
  "slot_map v i = (if i < values_capacity v then slot_values v ! i else None)"

definition slots_wf :: "'a SlotVector \<Rightarrow> bool" where
  "slots_wf v \<longleftrightarrow> length (slot_values v) = values_capacity v \<and> values_capacity v \<le> u32_max1 \<and>
     length (stored_bitset v) = (values_capacity v + 63) div 64 \<and>
     (\<forall>i < 64 * length (stored_bitset v).
        bit (stored_bitset v ! (i div 64)) (i mod 64) \<longleftrightarrow> slot_map v i \<noteq> None) \<and>
     distinct (free_list v) \<and> set (free_list v) = {i. i < values_capacity v \<and> slot_map v i = None}"

text \<open>There is a free slot, or the array may be doubled without an index above 32 bits.\<close>

definition slots_room :: "'a SlotVector \<Rightarrow> bool" where
  "slots_room v \<longleftrightarrow> free_list v \<noteq> [] \<or> 2 * values_capacity v \<le> u32_max1"

lemma slots_wfD:
  assumes "slots_wf v"
  shows "length (slot_values v) = values_capacity v" "values_capacity v \<le> u32_max1"
    "length (stored_bitset v) = (values_capacity v + 63) div 64"
    "distinct (free_list v)" "set (free_list v) = {i. i < values_capacity v \<and> slot_map v i = None}"
    "\<And>i. i < 64 * length (stored_bitset v) \<Longrightarrow>
       bit (stored_bitset v ! (i div 64)) (i mod 64) \<longleftrightarrow> slot_map v i \<noteq> None"
  using assms by (auto simp: slots_wf_def)

lemma bits_words: "index div 64 < n \<longleftrightarrow> index < 64 * (n::nat)"
  by (simp add: div_less_iff_less_mult mult.commute)

lemma drop_bit_and_1: "drop_bit n (w :: 64 word) AND 1 \<noteq> 0 \<longleftrightarrow> bit w n"
  by (simp add: bit_iff_odd_drop_bit and_one_eq odd_iff_mod_2_eq_one)

lemma ReadStorageBit_map:
  assumes "slots_wf v" "i < 64 * length (stored_bitset v)"
  shows "ReadStorageBit i v = Some (slot_map v i \<noteq> None)"
  using assms slots_wfD(6) [OF assms] by (simp add: ReadStorageBit_def bits_words drop_bit_and_1)

lemma capacity_words: "slots_wf v \<Longrightarrow> values_capacity v \<le> 64 * length (stored_bitset v)"
  using slots_wfD(3) [of v] by linarith

section \<open>Growing\<close>

lemma bit_drop_1: "bit (drop_bit (Suc 0) (w :: 64 word)) n \<longleftrightarrow> bit w (Suc n)"
  by (simp add: bit_drop_bit_eq)

lemma move_bits_spec:
  assumes "length new \<ge> length old"
    "\<forall>k. bit bits k \<longrightarrow> i + k < length old \<and> old ! (i + k) \<noteq> None"
  shows "\<exists>new'. move_bits bits i old new = Some new' \<and> length new' = length new \<and>
    (\<forall>j < length new. new' ! j = (if i \<le> j \<and> bit bits (j - i) then old ! j else new ! j))"
  using assms
proof (induction bits i old new rule: move_bits.induct)
  case (1 bits i old new)
  have step: "\<forall>k. bit (drop_bit 1 bits) k \<longrightarrow> i + 1 + k < length old \<and> old ! (i + 1 + k) \<noteq> None"
  proof (intro allI impI)
    fix k assume "bit (drop_bit 1 bits) k"
    then have "bit bits (Suc k)" by (simp add: bit_drop_1)
    from 1(4) [rule_format, OF this] show "i + 1 + k < length old \<and> old ! (i + 1 + k) \<noteq> None" by simp
  qed
  have split: "(i \<le> j \<and> bit bits (j - i)) \<longleftrightarrow> (j = i \<and> bit bits 0) \<or> (i + 1 \<le> j \<and> bit (drop_bit 1 bits) (j - (i + 1)))" for j
  proof (cases "i < j")
    case True
    then obtain k where "j = Suc (i + k)" using less_imp_Suc_add by blast
    then show ?thesis by (simp add: bit_drop_1)
  next
    case False
    then show ?thesis by (cases "j = i") simp_all
  qed
  have b0: "bits AND 1 = 0 \<longleftrightarrow> \<not> bit bits 0"
    using drop_bit_and_1 [of 0 bits] unfolding drop_bit_0 id_apply by blast
  show ?case
  proof (cases "bits = 0")
    case True
    then show ?thesis by (simp add: move_bits.simps)
  next
    case nz: False
    show ?thesis
    proof (cases "bit bits 0")
      case False
      from 1(1) [OF nz _ 1(3) step] False b0 obtain new' where N: "move_bits (drop_bit 1 bits) (i + 1) old new = Some new'"
        "length new' = length new" "\<forall>j < length new. new' ! j =
          (if i + 1 \<le> j \<and> bit (drop_bit 1 bits) (j - (i + 1)) then old ! j else new ! j)" by auto
      show ?thesis using N nz False b0 by (subst move_bits.simps) (simp add: split)
    next
      case True
      have i: "i < length old" "i < length new" "old ! i \<noteq> None" using 1(3,4) True by (force dest: spec [of _ 0])+
      from 1(2) [OF nz _ _ _ step] True b0 i 1(3) obtain new' where N:
        "move_bits (drop_bit 1 bits) (i + 1) old (new[i := old ! i]) = Some new'"
        "length new' = length new" "\<forall>j < length new. new' ! j =
          (if i + 1 \<le> j \<and> bit (drop_bit 1 bits) (j - (i + 1)) then old ! j else new[i := old ! i] ! j)" by auto
      show ?thesis using N nz True b0 i
        by (subst move_bits.simps) (auto simp: split nth_list_update)
    qed
  qed
qed

lemma move_words_spec:
  assumes "length new \<ge> length old"
    "\<forall>k < 64 * length ws. bit (ws ! (k div 64)) (k mod 64) \<longrightarrow> index + k < length old \<and> old ! (index + k) \<noteq> None"
  shows "\<exists>new'. move_words ws index old new = Some new' \<and> length new' = length new \<and>
    (\<forall>j < length new. new' ! j =
       (if index \<le> j \<and> j - index < 64 * length ws \<and> bit (ws ! ((j - index) div 64)) ((j - index) mod 64)
        then old ! j else new ! j))"
  using assms
proof (induction ws arbitrary: index new)
  case Nil
  then show ?case by simp
next
  case (Cons w ws)
  have w: "\<forall>k. bit w k \<longrightarrow> index + k < length old \<and> old ! (index + k) \<noteq> None"
  proof (intro allI impI)
    fix k assume b: "bit w k"
    then have "k < 64" using bit_imp_le_length [of w k] by simp
    with Cons.prems(2) [rule_format, of k] b show "index + k < length old \<and> old ! (index + k) \<noteq> None" by simp
  qed
  obtain n1 where n1: "move_bits w index old new = Some n1" "length n1 = length new"
    "\<forall>j < length new. n1 ! j = (if index \<le> j \<and> bit w (j - index) then old ! j else new ! j)"
    using move_bits_spec [OF Cons.prems(1) w] by blast
  have rest: "\<forall>k < 64 * length ws. bit (ws ! (k div 64)) (k mod 64) \<longrightarrow>
      index + 64 + k < length old \<and> old ! (index + 64 + k) \<noteq> None"
  proof (intro allI impI)
    fix k assume k: "k < 64 * length ws" "bit (ws ! (k div 64)) (k mod 64)"
    have "(64 + k) div 64 = Suc (k div 64)" "(64 + k) mod 64 = k mod 64" by (simp_all add: div_add_self1)
    with Cons.prems(2) [rule_format, of "64 + k"] k
    show "index + 64 + k < length old \<and> old ! (index + 64 + k) \<noteq> None"
      by (simp add: add.assoc)
  qed
  from Cons.IH [OF _ rest, of n1] n1(2) Cons.prems(1) obtain n2 where n2:
    "move_words ws (index + 64) old n1 = Some n2" "length n2 = length new"
    "\<forall>j < length new. n2 ! j = (if index + 64 \<le> j \<and> j - (index + 64) < 64 * length ws \<and>
        bit (ws ! ((j - (index + 64)) div 64)) ((j - (index + 64)) mod 64) then old ! j else n1 ! j)"
    by auto
  have later: "(w # ws) ! (m div 64) = ws ! ((m - 64) div 64)" "m mod 64 = (m - 64) mod 64" if "64 \<le> m" for m :: nat
  proof -
    define k where "k = m - 64"
    then have k: "m = 64 + k" using that by simp
    show "(w # ws) ! (m div 64) = ws ! ((m - 64) div 64)" "m mod 64 = (m - 64) mod 64"
      unfolding k by (simp_all add: div_add_self1)
  qed
  have "n2 ! j = (if index \<le> j \<and> j - index < 64 * length (w # ws) \<and>
      bit ((w # ws) ! ((j - index) div 64)) ((j - index) mod 64) then old ! j else new ! j)"
    if j: "j < length new" for j
  proof (cases "index + 64 \<le> j")
    case True
    define m where "m = j - index"
    have m: "64 \<le> m" "j - (index + 64) = m - 64" "index \<le> j" "\<not> bit w m"
      using True bit_imp_le_length [of w m] by (auto simp: m_def)
    have "n2 ! j = (if m - 64 < 64 * length ws \<and> bit (ws ! ((m - 64) div 64)) ((m - 64) mod 64)
        then old ! j else n1 ! j)"
      using n2(3) [rule_format, OF j] True m(2) by simp
    also have "n1 ! j = new ! j" using n1(3) [rule_format, OF j] m(4) by (simp add: m_def)
    also have "m - 64 < 64 * length ws \<longleftrightarrow> m < 64 * length (w # ws)" using m(1) by simp linarith
    finally show ?thesis unfolding later [OF m(1), symmetric] m_def [symmetric] using m(3) by simp
  next
    case False
    then show ?thesis using n2(3) n1(3) j by (cases "index \<le> j") auto
  qed
  then show ?case using n1(1) n2(1,2) by auto
qed

lemma Reserve_spec:
  assumes wf: "slots_wf v" and n: "values_capacity v \<le> n" "n \<le> u32_max1"
  shows "\<exists>v'. Reserve n v = Some v' \<and> slots_wf v' \<and> slot_map v' = slot_map v \<and> values_capacity v' = n \<and>
    free_list v' = free_list v @ rev [values_capacity v..<n]"
proof -
  note W = slots_wfD [OF wf]
  let ?bs = "stored_bitset v" and ?words = "(n + 63) div 64"
  have live: "\<forall>k < 64 * length ?bs. bit (?bs ! (k div 64)) (k mod 64) \<longrightarrow>
      0 + k < length (slot_values v) \<and> slot_values v ! (0 + k) \<noteq> None"
  proof (intro allI impI)
    fix k assume k: "k < 64 * length ?bs" "bit (?bs ! (k div 64)) (k mod 64)"
    then have "slot_map v k \<noteq> None" using W(6) by blast
    then show "0 + k < length (slot_values v) \<and> slot_values v ! (0 + k) \<noteq> None"
      using W(1) by (auto simp: slot_map_def split: if_splits)
  qed
  obtain new where new: "move_words ?bs 0 (slot_values v) (replicate n None) = Some new" "length new = n"
    "\<forall>j < n. new ! j = (if j < 64 * length ?bs \<and> bit (?bs ! (j div 64)) (j mod 64)
        then slot_values v ! j else None)"
    using move_words_spec [OF _ live, of "replicate n None"] n(1) W(1) by auto
  have cap: "values_capacity v \<le> 64 * length ?bs" by (rule capacity_words [OF wf])
  have words: "length ?bs \<le> ?words" using W(3) n(1) by (simp add: div_le_mono)
  have content: "new ! j = slot_map v j" if "j < n" for j
  proof (cases "j < 64 * length ?bs")
    case True
    with new(3) that W(6) [OF True] show ?thesis by (auto simp: slot_map_def split: if_splits)
  next
    case False
    with new(3) that cap show ?thesis by (simp add: slot_map_def)
  qed
  let ?v = "v\<lparr>stored_bitset := take ?words ?bs @ replicate (?words - length ?bs) 0,
     free_list := free_list v @ rev [values_capacity v..<n], slot_values := new, values_capacity := n\<rparr>"
  have "map (\<lambda>i. i mod u32_max1) [values_capacity v..<n] = [values_capacity v..<n]"
    using n(2) by (intro map_idI) simp
  then have R: "Reserve n v = Some ?v" by (simp add: Reserve_def new(1) Let_def)
  have same: "slot_map ?v = slot_map v"
    using content n(1) by (auto simp: slot_map_def fun_eq_iff)
  have "bit (stored_bitset ?v ! (i div 64)) (i mod 64) \<longleftrightarrow> slot_map ?v i \<noteq> None"
    if "i < 64 * length (stored_bitset ?v)" for i
  proof (cases "i < 64 * length ?bs")
    case True
    then have "i div 64 < length ?bs" by (simp add: bits_words)
    then show ?thesis unfolding same using W(6) [OF True] words by (simp add: nth_append)
  next
    case False
    then have out: "\<not> i div 64 < length ?bs" by (simp add: bits_words)
    moreover have "i div 64 - length ?bs < ?words - length ?bs"
    proof -
      have "length (stored_bitset ?v) = ?words" using words by simp
      then have "i div 64 < ?words" using that by (simp only: bits_words)
      with out show ?thesis by linarith
    qed
    moreover have "slot_map v i = None" using False cap by (simp add: slot_map_def)
    ultimately show ?thesis unfolding same using words by (simp add: nth_append)
  qed
  moreover have "set (free_list ?v) = {i. i < n \<and> slot_map ?v i = None}"
  proof -
    have beyond: "slot_map v j = None" if "\<not> j < values_capacity v" for j using that by (simp add: slot_map_def)
    have "set (free_list ?v) = {i. i < values_capacity v \<and> slot_map v i = None} \<union> {values_capacity v..<n}"
      by (simp add: W(5))
    also have "\<dots> = {i. i < n \<and> slot_map v i = None}"
    proof (rule set_eqI)
      fix j
      show "j \<in> {i. i < values_capacity v \<and> slot_map v i = None} \<union> {values_capacity v..<n} \<longleftrightarrow>
          j \<in> {i. i < n \<and> slot_map v i = None}"
        using beyond [of j] n(1) by (cases "j < values_capacity v") simp_all
    qed
    finally show ?thesis unfolding same .
  qed
  moreover have "set (free_list v) \<inter> {values_capacity v..<n} = {}" unfolding W(5) by fastforce
  then have "distinct (free_list ?v)" using W(4) by simp
  moreover have "length (stored_bitset ?v) = ?words" using words by simp
  ultimately have "slots_wf ?v" using new(2) n(2) unfolding slots_wf_def by simp
  with R same show ?thesis by (intro exI [of _ ?v]) simp
qed

section \<open>The operations on the content\<close>

lemma FreeValueIndex_spec:
  assumes wf: "slots_wf v" and room: "slots_room v"
  shows "\<exists>i v'. FreeValueIndex v = Some (i, v') \<and> i < values_capacity v' \<and> slot_map v i = None \<and>
    slots_wf (v'\<lparr>free_list := free_list v' @ [i]\<rparr>) \<and> slot_map v' = slot_map v"
proof -
  have pop: "\<exists>i v'. (if free_list u = [] then None else Some (last (free_list u), u\<lparr>free_list := butlast (free_list u)\<rparr>))
      = Some (i, v') \<and> i < values_capacity v' \<and> slot_map u i = None \<and>
      slots_wf (v'\<lparr>free_list := free_list v' @ [i]\<rparr>) \<and> slot_map v' = slot_map u"
    if u: "slots_wf u" "free_list u \<noteq> []" for u :: "'a SlotVector"
  proof -
    have "last (free_list u) \<in> set (free_list u)" using u(2) by simp
    then have "last (free_list u) < values_capacity u" "slot_map u (last (free_list u)) = None"
      using slots_wfD(5) [OF u(1)] by auto
    moreover have "slot_map (u\<lparr>free_list := butlast (free_list u)\<rparr>) = slot_map u"
      by (simp add: slot_map_def fun_eq_iff)
    moreover have "u\<lparr>free_list := butlast (free_list u) @ [last (free_list u)]\<rparr> = u" using u(2) by simp
    ultimately show ?thesis using u by simp
  qed
  show ?thesis
  proof (cases "free_list v = []")
    case False
    with pop [OF wf] show ?thesis by (simp add: FreeValueIndex_def)
  next
    case True
    let ?n = "if values_capacity v \<noteq> 0 then push_bit 1 (values_capacity v) mod two64 else 1"
    have n: "?n = (if values_capacity v \<noteq> 0 then 2 * values_capacity v else 1)" "?n \<le> u32_max1"
      "values_capacity v < ?n"
      using room True by (auto simp: slots_room_def push_bit_eq_mult)
    obtain u where u: "Reserve ?n v = Some u" "slots_wf u" "slot_map u = slot_map v"
      "free_list u = rev [values_capacity v..<?n]"
      using Reserve_spec [OF wf less_imp_le [OF n(3)] n(2)] True by auto
    have "free_list u \<noteq> []" using u(4) n(3) by simp
    from pop [OF u(2) this] u(1,3) True show ?thesis by (simp add: FreeValueIndex_def)
  qed
qed

lemma nth_word_update:
  "i div 64 < length bs \<Longrightarrow> j div 64 < length bs \<Longrightarrow>
   bit (bs[i div 64 := w] ! (j div 64)) (j mod 64) \<longleftrightarrow>
     (if i div 64 = j div 64 then bit w (j mod 64) else bit (bs ! (j div 64)) (j mod 64))"
  by (simp add: nth_list_update)

lemma same_word: "i div 64 = j div 64 \<Longrightarrow> (i mod 64 = j mod 64) = (i = (j::nat))"
  by (metis div_mult_mod_eq)

lemma bit_one_at: "bit ((2 :: 64 word) ^ n) m \<longleftrightarrow> n = m \<and> n < 64"
  by (auto simp: bit_exp_iff possible_bit_word)

lemma slot_insert_spec:
  assumes wf: "slots_wf v" and room: "slots_room v"
  shows "\<exists>i v'. slot_insert x v = Some (i, v') \<and> slot_map v i = None \<and> slots_wf v' \<and>
    slot_map v' = (slot_map v)(i \<mapsto> x)"
proof -
  obtain i u where u: "FreeValueIndex v = Some (i, u)" "i < values_capacity u" "slot_map v i = None"
    "slots_wf (u\<lparr>free_list := free_list u @ [i]\<rparr>)" "slot_map u = slot_map v"
    using FreeValueIndex_spec [OF wf room] by blast
  note W = slots_wfD [OF u(4), simplified]
  let ?bs = "stored_bitset u"
  let ?w = "?bs ! (i div 64) OR push_bit (i mod 64) 1"
  let ?v = "u\<lparr>slot_values := (slot_values u)[i := Some x], stored_bitset := ?bs[i div 64 := ?w]\<rparr>"
  have upd: "slot_map (u\<lparr>free_list := fl\<rparr>) = slot_map u" for fl by (simp add: slot_map_def fun_eq_iff)
  have iw: "i div 64 < length ?bs" using u(2) W(3) by (simp add: bits_words)
  have "slot_insert x v = Some (i, ?v)"
    using u(1,2) W(1) iw by (simp add: slot_insert_def SetStorageBit_def)
  moreover have content: "slot_map ?v = (slot_map u)(i \<mapsto> x)"
    using u(2) W(1) by (auto simp: slot_map_def fun_eq_iff nth_list_update)
  moreover have "bit (?bs[i div 64 := ?w] ! (j div 64)) (j mod 64) \<longleftrightarrow> slot_map ?v j \<noteq> None"
    if j: "j < 64 * length ?bs" for j
  proof -
    have jw: "j div 64 < length ?bs" using j by (simp add: bits_words)
    have old: "bit (?bs ! (j div 64)) (j mod 64) \<longleftrightarrow> slot_map u j \<noteq> None"
      using W(6) [OF j] by (simp add: upd)
    show ?thesis
      unfolding nth_word_update [OF iw jw] content using old same_word [of i j]
      by (auto simp: bit_or_iff bit_one_at)
  qed
  moreover have "set (free_list u) = {j. j < values_capacity u \<and> slot_map ?v j = None}"
  proof -
    have "set (free_list u) = {j. j < values_capacity u \<and> slot_map u j = None} - {i}"
      using W(4,5) by (auto simp: upd)
    then show ?thesis unfolding content by auto
  qed
  ultimately have "slots_wf ?v" using W(1-4) unfolding slots_wf_def by simp
  with \<open>slot_insert x v = Some (i, ?v)\<close> content u(3,5) show ?thesis by auto
qed

lemma slot_erase_spec:
  assumes wf: "slots_wf v" and i: "slot_map v i \<noteq> None"
  shows "\<exists>v'. slot_erase i v = Some v' \<and> slots_wf v' \<and> slot_map v' = (slot_map v)(i := None)"
proof -
  note W = slots_wfD [OF wf]
  let ?bs = "stored_bitset v"
  let ?w = "?bs ! (i div 64) AND NOT (push_bit (i mod 64) 1)"
  let ?v = "v\<lparr>slot_values := (slot_values v)[i := None], free_list := free_list v @ [i],
     stored_bitset := ?bs[i div 64 := ?w]\<rparr>"
  have c: "i < values_capacity v" "slot_values v ! i \<noteq> None" using i by (auto simp: slot_map_def split: if_splits)
  have iw: "i div 64 < length ?bs" using c(1) W(3) by (simp add: bits_words)
  have E: "slot_erase i v = Some ?v"
    using c W(1) iw by (simp add: slot_erase_def ResetStorageBit_def)
  have content: "slot_map ?v = (slot_map v)(i := None)"
    using c W(1) by (auto simp: slot_map_def fun_eq_iff nth_list_update)
  have "bit (?bs[i div 64 := ?w] ! (j div 64)) (j mod 64) \<longleftrightarrow> slot_map ?v j \<noteq> None"
    if j: "j < 64 * length ?bs" for j
  proof -
    have jw: "j div 64 < length ?bs" using j by (simp add: bits_words)
    have "j mod 64 < 64" by simp
    then show ?thesis
      unfolding nth_word_update [OF iw jw] content using W(6) [OF j] same_word [of i j]
      by (auto simp: bit_and_iff bit_not_iff bit_one_at)
  qed
  moreover have "set (free_list ?v) = {j. j < values_capacity v \<and> slot_map ?v j = None}"
    unfolding content using W(5) c(1) by auto
  moreover have "distinct (free_list ?v)" using W(4,5) i by auto
  ultimately have "slots_wf ?v" using W(1-3) unfolding slots_wf_def by simp
  with E content show ?thesis by blast
qed

lemma slot_at_map: "slots_wf v \<Longrightarrow> slot_at i v = slot_map v i"
  by (simp add: slot_at_def slot_map_def slots_wfD(1))

lemma slot_put_spec:
  assumes "slots_wf v" "slot_map v i \<noteq> None"
  shows "\<exists>v'. slot_put i x v = Some v' \<and> slots_wf v' \<and> slot_map v' = (slot_map v)(i \<mapsto> x)"
proof -
  let ?v = "v\<lparr>slot_values := (slot_values v)[i := Some x]\<rparr>"
  note W = slots_wfD [OF assms(1)]
  have c: "i < values_capacity v" using assms(2) by (auto simp: slot_map_def split: if_splits)
  have m: "slot_map ?v = (slot_map v)(i \<mapsto> x)"
    using c W(1) by (auto simp: slot_map_def fun_eq_iff nth_list_update)
  have none: "slot_map ?v j = None \<longleftrightarrow> slot_map v j = None" for j unfolding m using assms(2) by auto
  then have "slots_wf ?v" using assms(1) unfolding slots_wf_def by (simp add: none)
  with m assms show ?thesis by (simp add: slot_put_def slot_at_map)
qed

lemma slots_wf_none:
  "slots_wf \<lparr>slot_values = [], values_capacity = 0, stored_bitset = [], free_list = []\<rparr>"
  by (simp add: slots_wf_def slot_map_def)

lemma construct_SlotVector_spec:
  "\<exists>v. construct_SlotVector = Some v \<and> slots_wf v \<and> slot_map v = (\<lambda>_. None) \<and>
     values_capacity v = 2048 \<and> free_list v = rev [0..<2048]"
  using Reserve_spec [OF slots_wf_none, of 2048]
  by (auto simp: construct_SlotVector_def InitialCapacity_def slot_map_def fun_eq_iff)

lemma slot_size_spec:
  assumes "slots_wf v"
  shows "slot_size v = card (dom (slot_map v))"
proof -
  note W = slots_wfD [OF assms]
  have "dom (slot_map v) = {..<values_capacity v} - set (free_list v)"
    unfolding W(5) by (auto simp: slot_map_def split: if_splits)
  moreover have "set (free_list v) \<subseteq> {..<values_capacity v}" unfolding W(5) by auto
  ultimately have "card (dom (slot_map v)) = values_capacity v - length (free_list v)"
    using distinct_card [OF W(4)] by (simp add: card_Diff_subset)
  moreover have "length (free_list v) \<le> values_capacity v"
    using distinct_card [OF W(4)] card_mono [OF _ \<open>set (free_list v) \<subseteq> {..<values_capacity v}\<close>] by simp
  ultimately show ?thesis using W(2) by (simp add: slot_size_def sub64_exact)
qed

lemma AdvanceToValid_spec:
  assumes "slots_wf v" "values_capacity v < u32_max1"
  shows "\<exists>j. AdvanceToValid i v = Some j \<and> i \<le> j \<and> (\<forall>k. i \<le> k \<and> k < j \<longrightarrow> slot_map v k = None) \<and>
    (j < values_capacity v \<longrightarrow> slot_map v j \<noteq> None) \<and> (values_capacity v \<le> j \<longrightarrow> j = max i (values_capacity v))"
  using assms
proof (induction i v rule: AdvanceToValid.induct)
  case (1 i v)
  have cap: "values_capacity v mod u32_max1 = values_capacity v" using 1(3) by simp
  show ?case
  proof (cases "i < values_capacity v")
    case False
    then show ?thesis by (subst AdvanceToValid.simps) (auto simp: cap)
  next
    case True
    then have m: "i < values_capacity v mod u32_max1" by (simp only: cap)
    have r: "ReadStorageBit i v = Some (slot_map v i \<noteq> None)"
      using ReadStorageBit_map [OF 1(2)] capacity_words [OF 1(2)] True by simp
    show ?thesis
    proof (cases "slot_map v i")
      case (Some x)
      then show ?thesis using m r by (subst AdvanceToValid.simps) auto
    next
      case None
      obtain j where "AdvanceToValid (i + 1) v = Some j" "i + 1 \<le> j" "\<forall>k. i + 1 \<le> k \<and> k < j \<longrightarrow> slot_map v k = None"
        "j < values_capacity v \<longrightarrow> slot_map v j \<noteq> None" "values_capacity v \<le> j \<longrightarrow> j = max (i + 1) (values_capacity v)"
        using 1(1) [OF m r _ 1(2,3)] None unfolding AdvanceToValid_less [OF m] by auto
      moreover have "\<forall>k. i \<le> k \<and> k < j \<longrightarrow> slot_map v k = None"
        using calculation(3) None by (metis Suc_eq_plus1 Suc_leI le_neq_implies_less)
      moreover have "AdvanceToValid i v = AdvanceToValid (i + 1) v"
        using m r None by (subst AdvanceToValid.simps) (simp only: AdvanceToValid_less [OF m], simp)
      moreover have "values_capacity v \<le> j \<longrightarrow> j = max i (values_capacity v)"
        using calculation(5) True by auto
      ultimately show ?thesis by (intro exI [of _ j]) simp
    qed
  qed
qed

lemma iterator_end_capacity: "iterator_end v = Some (values_capacity v mod u32_max1)"
  unfolding iterator_end_def by (subst AdvanceToValid.simps) (simp only: less_irrefl if_False)

text \<open>What the iterator does below the capacity of \<open>2 ^ 32\<close>: the next handle in use at or above \<open>i\<close>, or the end.\<close>

lemma AdvanceToValid_next:
  assumes "slots_wf v" "values_capacity v < u32_max1" "i \<le> values_capacity v"
  shows "\<exists>j \<ge> i. AdvanceToValid i v = Some j \<and> (\<forall>k. i \<le> k \<and> k < j \<longrightarrow> slot_map v k = None) \<and>
    (slot_map v j \<noteq> None \<or> j = values_capacity v)"
proof -
  obtain j where j: "AdvanceToValid i v = Some j" "i \<le> j" "\<forall>k. i \<le> k \<and> k < j \<longrightarrow> slot_map v k = None"
    "j < values_capacity v \<longrightarrow> slot_map v j \<noteq> None" "values_capacity v \<le> j \<longrightarrow> j = max i (values_capacity v)"
    using AdvanceToValid_spec [OF assms(1,2), of i] by auto
  have "slot_map v j \<noteq> None \<or> j = values_capacity v"
  proof (cases "j < values_capacity v")
    case False
    then show ?thesis using j(5) assms(3) by simp
  qed (use j(4) in simp)
  then show ?thesis using j(1,2,3) by blast
qed

text \<open>At that capacity the end is slot 0, where every iteration begins.\<close>

lemma AdvanceToValid_full:
  assumes "values_capacity v = u32_max1"
  shows "iterator_begin v = Some 0 \<and> iterator_end v = Some 0"
proof -
  have "values_capacity v mod u32_max1 = 0" using assms by simp
  then show ?thesis unfolding iterator_begin_def iterator_end_capacity
    by (subst AdvanceToValid.simps) (simp only: less_irrefl if_False simp_thms)
qed

section \<open>A store of objects under handles\<close>

text \<open>
  What a client of the container relies on: under the invariant, inserting gives a handle that was
  free, erasing and assigning touch one handle, and nothing else changes.
\<close>

locale slot_store =
  fixes inv :: "'s \<Rightarrow> bool" and room :: "'s \<Rightarrow> bool" and content :: "'s \<Rightarrow> nat \<Rightarrow> 'a option"
    and ins :: "'a \<Rightarrow> 's \<Rightarrow> (nat \<times> 's) option" and del :: "nat \<Rightarrow> 's \<Rightarrow> 's option"
    and upd :: "nat \<Rightarrow> 'a \<Rightarrow> 's \<Rightarrow> 's option"
  assumes ins_law: "inv s \<Longrightarrow> room s \<Longrightarrow>
      \<exists>i s'. ins x s = Some (i, s') \<and> content s i = None \<and> inv s' \<and> content s' = (content s)(i \<mapsto> x)"
    and del_law: "inv s \<Longrightarrow> content s i \<noteq> None \<Longrightarrow>
      \<exists>s'. del i s = Some s' \<and> inv s' \<and> content s' = (content s)(i := None)"
    and upd_law: "inv s \<Longrightarrow> content s i \<noteq> None \<Longrightarrow>
      \<exists>s'. upd i x s = Some s' \<and> inv s' \<and> content s' = (content s)(i \<mapsto> x)"
begin

lemma ins_fresh:
  assumes "inv s" "room s"
  obtains i s' where "ins x s = Some (i, s')" "content s i = None" "inv s'" "content s' = (content s)(i \<mapsto> x)"
  using ins_law [OF assms] by blast

lemma ins_keeps:
  assumes "inv s" "room s" "ins x s = Some (i, s')" "content s j = Some y"
  shows "content s' j = Some y \<and> i \<noteq> j"
  using ins_law [OF assms(1,2), of x] assms(3,4) by auto

lemma ins_del:
  assumes "inv s" "room s" "ins x s = Some (i, s')"
  shows "\<exists>s''. del i s' = Some s'' \<and> inv s'' \<and> content s'' = content s"
proof -
  have s': "inv s'" "content s i = None" "content s' = (content s)(i \<mapsto> x)"
    using ins_law [OF assms(1,2), of x] assms(3) by auto
  then obtain s'' where "del i s' = Some s''" "inv s''" "content s'' = (content s')(i := None)"
    using del_law [of s' i] by auto
  then show ?thesis using s'(2,3) by (auto simp: fun_eq_iff)
qed

lemma upd_upd:
  assumes "inv s" "content s i \<noteq> None" "upd i x s = Some s'"
  shows "\<exists>s''. upd i y s' = Some s'' \<and> inv s'' \<and> content s'' = (content s)(i \<mapsto> y)"
proof -
  have s': "inv s'" "content s' = (content s)(i \<mapsto> x)" using upd_law [OF assms(1,2), of x] assms(3) by auto
  then show ?thesis using upd_law [of s' i y] by auto
qed

end

interpretation slots: slot_store slots_wf slots_room slot_map slot_insert slot_erase slot_put
  by unfold_locales (rule slot_insert_spec slot_erase_spec slot_put_spec; assumption)+

text \<open>
  C15. \<open>SlotVector\<close> implements a finite map from handles to objects: a new container is empty; while a slot
  is free, or the array may be doubled without an index above 32 bits, inserting finds a free handle,
  growing the array when all are used, and adds one entry; erasing a handle in use removes its entry;
  reading, the test for a handle below the capacity, and the size agree with the map; below the capacity of
  \<open>2 ^ 32\<close> the iterator begins at the least handle in use and goes from each to the next, and after the last
  one to the end; at that capacity the iteration is empty, whatever the container holds.
\<close>

theorem slot_vector_refines_map:
  assumes wf: "slots_wf v"
  shows "(\<exists>v0. construct_SlotVector = Some (v0 :: 'a SlotVector) \<and> slots_wf v0 \<and> slot_map v0 = (\<lambda>_. None)) \<and>
    (slots_room v \<longrightarrow> (\<exists>i v'. slot_insert (x :: 'a) v = Some (i, v') \<and> slot_map v i = None \<and> slots_wf v' \<and>
       slot_map v' = (slot_map v)(i \<mapsto> x))) \<and>
    (\<forall>i. slot_map v i \<noteq> None \<longrightarrow>
       (\<exists>v'. slot_erase i v = Some v' \<and> slots_wf v' \<and> slot_map v' = (slot_map v)(i := None))) \<and>
    (\<forall>i. slot_at i v = slot_map v i \<and> (i < values_capacity v \<longrightarrow> is_allocated i v = Some (slot_map v i \<noteq> None))) \<and>
    slot_size v = card (dom (slot_map v)) \<and>
    (values_capacity v < 2 ^ 32 \<longrightarrow> iterator_end v = Some (values_capacity v) \<and>
      (\<exists>j. iterator_begin v = Some j \<and> (\<forall>k < j. slot_map v k = None) \<and> (slot_map v j \<noteq> None \<or> iterator_end v = Some j)) \<and>
      (\<forall>i. slot_map v i \<noteq> None \<longrightarrow>
        (\<exists>j > i. iterator_next i v = Some j \<and> (\<forall>k. i < k \<and> k < j \<longrightarrow> slot_map v k = None) \<and>
          (slot_map v j \<noteq> None \<or> iterator_end v = Some j)))) \<and>
    (values_capacity v = 2 ^ 32 \<longrightarrow> iterator_begin v = iterator_end v)"
proof (intro conjI allI impI)
  show "\<exists>v0. construct_SlotVector = Some (v0 :: 'a SlotVector) \<and> slots_wf v0 \<and> slot_map v0 = (\<lambda>_. None)"
    using construct_SlotVector_spec by blast
  show "slot_at i v = slot_map v i" for i by (rule slot_at_map [OF wf])
  show "is_allocated i v = Some (slot_map v i \<noteq> None)" if "i < values_capacity v" for i
    using ReadStorageBit_map [OF wf] capacity_words [OF wf] that by (simp add: is_allocated_def)
  show "slot_size v = card (dom (slot_map v))" by (rule slot_size_spec [OF wf])
  show "iterator_begin v = iterator_end v" if "values_capacity v = 2 ^ 32"
    using AdvanceToValid_full [of v] that by simp
next
  assume "values_capacity v < 2 ^ 32"
  then have cap: "values_capacity v < u32_max1" by simp
  then show e: "iterator_end v = Some (values_capacity v)" by (simp add: iterator_end_capacity)
  show "\<exists>j. iterator_begin v = Some j \<and> (\<forall>k < j. slot_map v k = None) \<and> (slot_map v j \<noteq> None \<or> iterator_end v = Some j)"
    using AdvanceToValid_next [OF wf cap, of 0] unfolding iterator_begin_def e by auto
  fix i assume "slot_map v i \<noteq> None"
  then have i: "i < values_capacity v" by (auto simp: slot_map_def split: if_splits)
  then have "(i + 1) mod u32_max1 = i + 1" using cap by simp
  then show "\<exists>j > i. iterator_next i v = Some j \<and> (\<forall>k. i < k \<and> k < j \<longrightarrow> slot_map v k = None) \<and>
      (slot_map v j \<noteq> None \<or> iterator_end v = Some j)"
    using AdvanceToValid_next [OF wf cap, of "i + 1"] i unfolding iterator_next_def e by (auto simp: Suc_le_eq)
qed (use slots.ins_law [OF wf] slots.del_law [OF wf] in blast)+

theorem slot_vector_refines_map_witness:
  "\<exists>v0 i v'. construct_SlotVector = Some v0 \<and> slot_insert ''sema'' v0 = Some (i, v') \<and> slot_map v0 i = None \<and>
     slot_map v' i = Some ''sema''"
proof -
  obtain v0 :: "string SlotVector" where v0: "construct_SlotVector = Some v0" "slots_wf v0"
    "free_list v0 = rev [0..<2048]" using construct_SlotVector_spec by blast
  have "slots_room v0" using v0(3) by (simp add: slots_room_def)
  with slot_vector_refines_map [OF v0(2), of "''sema''"] v0(1) show ?thesis by fastforce
qed

end
