(* ===== verification/Semaphore.thy ===== *)
theory Semaphore
  imports Slot_Vector Kernel_Memory
begin

text \<open>
  The kernel semaphores of \<open>src/src/core/libraries/kernel/threads/semaphore.cpp\<close>: \<open>OrbisSem\<close> with its
  list of waiting threads, the calls on handles, and the POSIX semaphores.

  What a thread does while it holds the mutex of a semaphore is one operation.  A thread that has to
  wait leaves a frame, its \<open>WaitingThread\<close>, behind and goes on in later operations: the semaphore of
  the frame is acquired or its time is over, and then the mutex is taken again.  A frame is found by
  the number of its thread, which is what the pointers of the wait list are here.
\<close>

abbreviation KERNEL_EPERM :: s32 where "KERNEL_EPERM \<equiv> 0x80020001 - 2 ^ 32"
abbreviation KERNEL_ESRCH :: s32 where "KERNEL_ESRCH \<equiv> 0x80020003 - 2 ^ 32"
abbreviation KERNEL_ETIMEDOUT :: s32 where "KERNEL_ETIMEDOUT \<equiv> 0x8002003C - 2 ^ 32"
abbreviation KERNEL_ECANCELED :: s32 where "KERNEL_ECANCELED \<equiv> 0x80020055 - 2 ^ 32"

section \<open>Data\<close>

text \<open>Where a waiting thread is: in the semaphore of its frame, past it, or past its time limit.\<close>

datatype WaitPhase = Blocked | Acquired | Expired

record WaitingThread =
  wt_sem :: nat
  wt_priority :: nat
  wt_need_count :: s32
  was_signaled :: bool
  was_deleted :: bool
  was_canceled :: bool
  wt_phase :: WaitPhase
  wt_timeout :: "nat option"
  wt_owner :: nat

record OrbisSem =
  wait_list :: "nat list"
  sem_name :: string
  token_count :: s32
  max_count :: s32
  init_count :: s32
  is_fifo :: bool

type_synonym Frames = "nat \<Rightarrow> WaitingThread option"

definition construct_OrbisSem :: "s32 \<Rightarrow> s32 \<Rightarrow> string \<Rightarrow> bool \<Rightarrow> OrbisSem" where
  "construct_OrbisSem initial maximum name fifo =
     \<lparr>wait_list = [], sem_name = name, token_count = initial, max_count = maximum, init_count = initial,
      is_fifo = fifo\<rparr>"

definition construct_WaitingThread :: "s32 \<Rightarrow> bool \<Rightarrow> nat \<Rightarrow> nat option \<Rightarrow> nat \<Rightarrow> WaitingThread" where
  "construct_WaitingThread need fifo prio timeout owner =
     \<lparr>wt_sem = 0, wt_priority = (if \<not> fifo then prio else 0), wt_need_count = need, was_signaled = False,
      was_deleted = False, was_canceled = False, wt_phase = Blocked, wt_timeout = timeout, wt_owner = owner\<rparr>"

section \<open>The operations of a semaphore\<close>

fun insert_by_priority :: "Frames \<Rightarrow> nat \<Rightarrow> nat \<Rightarrow> nat list \<Rightarrow> nat list option" where
  "insert_by_priority ws p t [] = Some [t]"
| "insert_by_priority ws p t (u # us) = do {
     w \<leftarrow> ws u;
     (if wt_priority w \<le> p then do { us' \<leftarrow> insert_by_priority ws p t us; Some (u # us') }
      else Some (t # u # us)) }"

definition AddWaiter :: "nat \<Rightarrow> WaitingThread \<Rightarrow> OrbisSem \<times> Frames \<Rightarrow> (OrbisSem \<times> Frames) option" where
  "AddWaiter t w st = (case st of (s, ws) \<Rightarrow>
     if is_fifo s then Some (s\<lparr>wait_list := wait_list s @ [t]\<rparr>, ws(t \<mapsto> w))
     else do {
       l \<leftarrow> insert_by_priority ws (wt_priority w) t (wait_list s);
       Some (s\<lparr>wait_list := l\<rparr>, ws(t \<mapsto> w)) })"

text \<open>
  The first part of \<open>Wait\<close>, up to giving up the mutex: the result, or none when the thread waits.
  A pointer \<open>timeout\<close> is the option of its content.
\<close>

definition Wait_enter ::
  "bool \<Rightarrow> s32 \<Rightarrow> nat option \<Rightarrow> nat \<Rightarrow> nat \<Rightarrow> nat \<Rightarrow> OrbisSem \<times> Frames \<Rightarrow>
     (s32 option \<times> OrbisSem \<times> Frames) option" where
  "Wait_enter can_block need timeout t prio owner st = (case st of (s, ws) \<Rightarrow>
     if token_count s \<ge> need
     then Some (Some ORBIS_OK, s\<lparr>token_count := wrap32 (token_count s - need)\<rparr>, ws)
     else if \<not> can_block then Some (Some KERNEL_EBUSY, s, ws)
     else if timeout = Some 0 then Some (Some KERNEL_ETIMEDOUT, s, ws)
     else do {
       st' \<leftarrow> AddWaiter t (construct_WaitingThread need (is_fifo s) prio timeout owner) (s, ws);
       Some (None, st') })"

text \<open>\<open>sem.acquire\<close> or a successful \<open>try_acquire_for\<close>, and one that fails, without the mutex.\<close>

definition Wait_acquire :: "nat \<Rightarrow> Frames \<Rightarrow> Frames option" where
  "Wait_acquire t ws = do {
     w \<leftarrow> ws t;
     (if wt_phase w = Blocked \<and> wt_sem w > 0
      then Some (ws(t \<mapsto> w\<lparr>wt_sem := wt_sem w - 1, wt_phase := Acquired\<rparr>)) else None) }"

definition Wait_expire :: "nat \<Rightarrow> Frames \<Rightarrow> Frames option" where
  "Wait_expire t ws = do {
     w \<leftarrow> ws t;
     (if wt_phase w = Blocked \<and> wt_sem w = 0 \<and> wt_timeout w \<noteq> None
      then Some (ws(t \<mapsto> w\<lparr>wt_phase := Expired\<rparr>)) else None) }"

definition GetResult :: "WaitingThread \<Rightarrow> s32" where
  "GetResult w =
     (if was_signaled w then ORBIS_OK else if was_deleted w then KERNEL_EACCES
      else if was_canceled w then KERNEL_ECANCELED else KERNEL_ETIMEDOUT)"

text \<open>
  The last part, with the mutex: the time that is left of a limit, \<open>elapsed\<close> being the microseconds
  that were measured, the result, and the frame leaves the list when it timed out.
\<close>

definition Wait_finish ::
  "nat \<Rightarrow> nat \<Rightarrow> OrbisSem \<times> Frames \<Rightarrow> ((s32 \<times> nat option) \<times> OrbisSem \<times> Frames) option" where
  "Wait_finish t elapsed st = (case st of (s, ws) \<Rightarrow> do {
     w \<leftarrow> ws t;
     (if wt_phase w = Blocked then None
      else let timeout = map_option (\<lambda>micros. if was_signaled w
                 then nat ((int micros - int elapsed) mod 4294967296) else 0) (wt_timeout w);
               result = GetResult w;
               s' = (if result = KERNEL_ETIMEDOUT then s\<lparr>wait_list := remove1 t (wait_list s)\<rparr> else s)
        in Some ((result, timeout), s', ws(t := None))) })"

fun wake_loop :: "s32 \<Rightarrow> nat list \<Rightarrow> Frames \<Rightarrow> (s32 \<times> nat list \<times> Frames) option" where
  "wake_loop tokens [] ws = Some (tokens, [], ws)"
| "wake_loop tokens (t # ts) ws = do {
     w \<leftarrow> ws t;
     (if wt_need_count w > tokens then do {
        (tokens', ts', ws') \<leftarrow> wake_loop tokens ts ws;
        Some (tokens', t # ts', ws') }
      else wake_loop (wrap32 (tokens - wt_need_count w)) ts
             (ws(t \<mapsto> w\<lparr>was_signaled := True, wt_sem := wt_sem w + 1\<rparr>))) }"

definition Signal :: "s32 \<Rightarrow> OrbisSem \<times> Frames \<Rightarrow> (bool \<times> OrbisSem \<times> Frames) option" where
  "Signal signal_count st = (case st of (s, ws) \<Rightarrow> do {
     total \<leftarrow> s32_of (token_count s + signal_count);
     (if total > max_count s then Some (False, s, ws)
      else do {
        (tokens, l, ws') \<leftarrow> wake_loop (wrap32 (token_count s + signal_count)) (wait_list s) ws;
        Some (True, s\<lparr>token_count := tokens, wait_list := l\<rparr>, ws') }) })"

fun release_loop :: "(WaitingThread \<Rightarrow> WaitingThread) \<Rightarrow> nat list \<Rightarrow> Frames \<Rightarrow> Frames option" where
  "release_loop f [] ws = Some ws"
| "release_loop f (t # ts) ws = do {
     w \<leftarrow> ws t;
     release_loop f ts (ws(t \<mapsto> (f w)\<lparr>wt_sem := wt_sem w + 1\<rparr>)) }"

definition Cancel ::
  "s32 \<Rightarrow> s32 option \<Rightarrow> OrbisSem \<times> Frames \<Rightarrow> ((s32 \<times> s32 option) \<times> OrbisSem \<times> Frames) option" where
  "Cancel set_count num_waiters st = (case st of (s, ws) \<Rightarrow> do {
     let n = map_option (\<lambda>_. int (length (wait_list s))) num_waiters;
     ws' \<leftarrow> release_loop (\<lambda>w. w\<lparr>was_canceled := True\<rparr>) (wait_list s) ws;
     Some ((ORBIS_OK, n),
       s\<lparr>wait_list := [], token_count := (if set_count < 0 then init_count s else set_count)\<rparr>, ws') })"

definition Delete :: "OrbisSem \<times> Frames \<Rightarrow> (OrbisSem \<times> Frames) option" where
  "Delete st = (case st of (s, ws) \<Rightarrow> do {
     ws' \<leftarrow> release_loop (\<lambda>w. w\<lparr>was_deleted := True\<rparr>) (wait_list s) ws;
     Some (s\<lparr>wait_list := []\<rparr>, ws') })"

section \<open>The calls on handles\<close>

text \<open>
  The table holds pointers to the semaphores, which live in a store of their own: a destroyed
  semaphore is one that is not in the store any more, and using it has no result.
\<close>

record SemaWorld =
  orbis_sems :: "nat SlotVector"
  sema_objects :: "nat \<Rightarrow> OrbisSem option"
  sema_frames :: Frames
  next_object :: nat

definition on_object ::
  "nat \<Rightarrow> (OrbisSem \<times> Frames \<Rightarrow> ('r \<times> OrbisSem \<times> Frames) option) \<Rightarrow> SemaWorld \<Rightarrow> ('r \<times> SemaWorld) option"
where
  "on_object p f w = do {
     s \<leftarrow> sema_objects w p;
     (r, s', ws) \<leftarrow> f (s, sema_frames w);
     Some (r, w\<lparr>sema_objects := (sema_objects w)(p \<mapsto> s'), sema_frames := ws\<rparr>) }"

definition sceKernelCreateSema ::
  "nat option \<Rightarrow> string option \<Rightarrow> nat \<Rightarrow> s32 \<Rightarrow> s32 \<Rightarrow> SemaWorld \<Rightarrow> ((s32 \<times> nat option) \<times> SemaWorld) option" where
  "sceKernelCreateSema sem pName attr initCount maxCount w = (case pName of
     None \<Rightarrow> Some ((KERNEL_EINVAL, sem), w)
   | Some name \<Rightarrow>
       if attr > 2 \<or> initCount < 0 \<or> maxCount \<le> 0 \<or> initCount > maxCount then Some ((KERNEL_EINVAL, sem), w)
       else do {
         ASSERT (sem \<noteq> None);
         let p = next_object w;
         (index, v) \<leftarrow> slot_insert p (orbis_sems w);
         Some ((ORBIS_OK, Some index), w\<lparr>orbis_sems := v, next_object := p + 1,
           sema_objects := (sema_objects w)(p \<mapsto> construct_OrbisSem initCount maxCount name (attr = 1))\<rparr>) })"

definition on_sema ::
  "nat \<Rightarrow> (nat \<Rightarrow> OrbisSem \<times> Frames \<Rightarrow> ('r \<times> OrbisSem \<times> Frames) option) \<Rightarrow> (s32 \<Rightarrow> 'r) \<Rightarrow> SemaWorld \<Rightarrow>
     ('r \<times> SemaWorld) option" where
  "on_sema sem f err w = do {
     b \<leftarrow> is_allocated sem (orbis_sems w);
     (if \<not> b then Some (err KERNEL_ESRCH, w)
      else do { p \<leftarrow> slot_at sem (orbis_sems w); on_object p (f p) w }) }"

definition sceKernelWaitSema ::
  "nat \<Rightarrow> s32 \<Rightarrow> nat option \<Rightarrow> nat \<Rightarrow> nat \<Rightarrow> SemaWorld \<Rightarrow> (s32 option \<times> SemaWorld) option" where
  "sceKernelWaitSema sem needCount pTimeout t prio =
     on_sema sem (\<lambda>p. Wait_enter True needCount pTimeout t prio p) Some"

definition sceKernelSignalSema :: "nat \<Rightarrow> s32 \<Rightarrow> SemaWorld \<Rightarrow> (s32 \<times> SemaWorld) option" where
  "sceKernelSignalSema sem signalCount =
     on_sema sem (\<lambda>p st. do {
       (ok, st') \<leftarrow> Signal signalCount st;
       Some (if \<not> ok then KERNEL_EINVAL else ORBIS_OK, st') }) (\<lambda>e. e)"

definition sceKernelPollSema :: "nat \<Rightarrow> s32 \<Rightarrow> nat \<Rightarrow> nat \<Rightarrow> SemaWorld \<Rightarrow> (s32 option \<times> SemaWorld) option" where
  "sceKernelPollSema sem needCount t prio =
     on_sema sem (\<lambda>p. Wait_enter False needCount None t prio p) Some"

definition sceKernelCancelSema ::
  "nat \<Rightarrow> s32 \<Rightarrow> s32 option \<Rightarrow> SemaWorld \<Rightarrow> ((s32 \<times> s32 option) \<times> SemaWorld) option" where
  "sceKernelCancelSema sem setCount pNumWaitThreads =
     on_sema sem (\<lambda>p. Cancel setCount pNumWaitThreads) (\<lambda>e. (e, pNumWaitThreads))"

definition sceKernelDeleteSema :: "nat \<Rightarrow> SemaWorld \<Rightarrow> (s32 \<times> SemaWorld) option" where
  "sceKernelDeleteSema sem w = do {
     b \<leftarrow> is_allocated sem (orbis_sems w);
     (if \<not> b then Some (KERNEL_ESRCH, w)
      else do {
        p \<leftarrow> slot_at sem (orbis_sems w);
        (_, w1) \<leftarrow> on_object p (\<lambda>st. do { st' \<leftarrow> Delete st; Some ((), st') }) w;
        v \<leftarrow> slot_erase sem (orbis_sems w1);
        Some (ORBIS_OK, w1\<lparr>orbis_sems := v, sema_objects := (sema_objects w1)(p := None)\<rparr>) }) }"

text \<open>What a thread that waits does next: its frame names the semaphore it came from.\<close>

definition sema_acquire :: "nat \<Rightarrow> SemaWorld \<Rightarrow> SemaWorld option" where
  "sema_acquire t w = do { ws \<leftarrow> Wait_acquire t (sema_frames w); Some (w\<lparr>sema_frames := ws\<rparr>) }"

definition sema_expire :: "nat \<Rightarrow> SemaWorld \<Rightarrow> SemaWorld option" where
  "sema_expire t w = do { ws \<leftarrow> Wait_expire t (sema_frames w); Some (w\<lparr>sema_frames := ws\<rparr>) }"

definition sema_finish :: "nat \<Rightarrow> nat \<Rightarrow> SemaWorld \<Rightarrow> ((s32 \<times> nat option) \<times> SemaWorld) option" where
  "sema_finish t elapsed w = do {
     f \<leftarrow> sema_frames w t;
     on_object (wt_owner f) (Wait_finish t elapsed) w }"

section \<open>POSIX semaphores\<close>

abbreviation SEM_VALUE_MAX :: s32 where "SEM_VALUE_MAX \<equiv> 0x7FFFFFFF"

text \<open>The counting semaphore of the host, and the value the guest can read.\<close>

record PthreadSem =
  semaphore :: nat
  sem_value :: s32

text \<open>The atomic steps of the calls.  Releasing above the maximum of the host semaphore has no result.\<close>

definition psem_acquire :: "PthreadSem \<Rightarrow> PthreadSem option" where
  "psem_acquire s = (if semaphore s > 0 then Some (s\<lparr>semaphore := semaphore s - 1\<rparr>) else None)"

definition psem_taken :: "PthreadSem \<Rightarrow> PthreadSem" where
  "psem_taken s = s\<lparr>sem_value := wrap32 (sem_value s - 1)\<rparr>"

definition psem_count :: "PthreadSem \<Rightarrow> PthreadSem option" where
  "psem_count s =
     (if sem_value s = SEM_VALUE_MAX then None else Some (s\<lparr>sem_value := wrap32 (sem_value s + 1)\<rparr>))"

definition psem_release :: "PthreadSem \<Rightarrow> PthreadSem option" where
  "psem_release s =
     (if int (semaphore s) < SEM_VALUE_MAX then Some (s\<lparr>semaphore := semaphore s + 1\<rparr>) else None)"

record PosixSems =
  psems :: "nat \<Rightarrow> PthreadSem option"
  next_psem :: nat
  sem_errno :: s32

text \<open>A \<open>PthreadSem **\<close> is the option of the pointer it points to, again an option.\<close>

definition sem_fail :: "s32 \<Rightarrow> PosixSems \<Rightarrow> s32 \<times> PosixSems" where
  "sem_fail e w = (- 1, w\<lparr>sem_errno := e\<rparr>)"

definition posix_sem_init ::
  "nat option option \<Rightarrow> s32 \<Rightarrow> nat \<Rightarrow> PosixSems \<Rightarrow> (s32 \<times> nat option option) \<times> PosixSems" where
  "posix_sem_init sem pshared v w =
     (if int v > SEM_VALUE_MAX then let (r, w') = sem_fail POSIX_EINVAL w in ((r, sem), w')
      else (case sem of
        None \<Rightarrow> ((0, None), w)
      | Some _ \<Rightarrow> let p = next_psem w in
          ((0, Some (Some p)), w\<lparr>psems := (psems w)(p \<mapsto> \<lparr>semaphore = v, sem_value = int v\<rparr>), next_psem := p + 1\<rparr>)))"

definition posix_sem_destroy ::
  "nat option option \<Rightarrow> PosixSems \<Rightarrow> (s32 \<times> nat option option) \<times> PosixSems" where
  "posix_sem_destroy sem w = (case sem of
     Some (Some p) \<Rightarrow> ((0, Some None), w\<lparr>psems := (psems w)(p := None)\<rparr>)
   | _ \<Rightarrow> let (r, w') = sem_fail POSIX_EINVAL w in ((r, sem), w'))"

definition with_psem ::
  "nat option option \<Rightarrow> (PthreadSem \<Rightarrow> PosixSems \<Rightarrow> ('r \<times> PthreadSem \<times> PosixSems) option) \<Rightarrow> (s32 \<Rightarrow> 'r) \<Rightarrow>
     PosixSems \<Rightarrow> ('r \<times> PosixSems) option" where
  "with_psem sem f fail w = (case sem of
     Some (Some p) \<Rightarrow> do {
       s \<leftarrow> psems w p;
       (r, s', w') \<leftarrow> f s w;
       Some (r, w'\<lparr>psems := (psems w')(p \<mapsto> s')\<rparr>) }
   | _ \<Rightarrow> let (r, w') = sem_fail POSIX_EINVAL w in Some (fail r, w'))"

text \<open>The result of \<open>posix_sem_wait\<close> is none while the thread has to wait.\<close>

definition posix_sem_wait :: "nat option option \<Rightarrow> PosixSems \<Rightarrow> (s32 option \<times> PosixSems) option" where
  "posix_sem_wait sem = with_psem sem (\<lambda>s w. (case psem_acquire s of
     None \<Rightarrow> Some (None, s, w)
   | Some s' \<Rightarrow> Some (Some 0, psem_taken s', w))) Some"

definition posix_sem_trywait :: "nat option option \<Rightarrow> PosixSems \<Rightarrow> (s32 \<times> PosixSems) option" where
  "posix_sem_trywait sem = with_psem sem (\<lambda>s w. (case psem_acquire s of
     None \<Rightarrow> (let (r, w') = sem_fail POSIX_EAGAIN w in Some (r, s, w'))
   | Some s' \<Rightarrow> Some (0, psem_taken s', w))) (\<lambda>r. r)"

text \<open>
  The call at the moment it acquires the semaphore or its time \<open>t\<close> is over, whichever comes first; how
  long that takes is up to the host.
\<close>

definition posix_sem_timedwait :: "nat option option \<Rightarrow> nat \<times> nat \<Rightarrow> PosixSems \<Rightarrow> (s32 \<times> PosixSems) option" where
  "posix_sem_timedwait sem t = with_psem sem (\<lambda>s w. (case psem_acquire s of
     None \<Rightarrow> (let (r, w') = sem_fail POSIX_ETIMEDOUT w in Some (r, s, w'))
   | Some s' \<Rightarrow> Some (0, psem_taken s', w))) (\<lambda>r. r)"

definition posix_sem_post :: "nat option option \<Rightarrow> PosixSems \<Rightarrow> (s32 \<times> PosixSems) option" where
  "posix_sem_post sem = with_psem sem (\<lambda>s w. (case psem_count s of
     None \<Rightarrow> (let (r, w') = sem_fail POSIX_EOVERFLOW w in Some (r, s, w'))
   | Some s1 \<Rightarrow> do { s2 \<leftarrow> psem_release s1; Some (0, s2, w) })) (\<lambda>r. r)"

definition posix_sem_getvalue ::
  "nat option option \<Rightarrow> s32 option \<Rightarrow> PosixSems \<Rightarrow> ((s32 \<times> s32 option) \<times> PosixSems) option" where
  "posix_sem_getvalue sem sval =
     with_psem sem (\<lambda>s w. Some ((0, map_option (\<lambda>_. sem_value s) sval), s, w)) (\<lambda>r. (r, sval))"

definition sce_result :: "s32 \<Rightarrow> PosixSems \<Rightarrow> s32" where
  "sce_result ret w = (if ret \<noteq> 0 then ErrnoToSceKernelError (sem_errno w) else ORBIS_OK)"

definition scePthreadSemInit ::
  "nat option option \<Rightarrow> s32 \<Rightarrow> nat \<Rightarrow> PosixSems \<Rightarrow> (s32 \<times> nat option option) \<times> PosixSems" where
  "scePthreadSemInit sem flag v w =
     (if flag \<noteq> 0 then ((KERNEL_EINVAL, sem), w)
      else let ((ret, sem'), w') = posix_sem_init sem 0 v w in ((sce_result ret w', sem'), w'))"

definition scePthreadSemDestroy ::
  "nat option option \<Rightarrow> PosixSems \<Rightarrow> (s32 \<times> nat option option) \<times> PosixSems" where
  "scePthreadSemDestroy sem w =
     (let ((ret, sem'), w') = posix_sem_destroy sem w in ((sce_result ret w', sem'), w'))"

definition scePthreadSemWait :: "nat option option \<Rightarrow> PosixSems \<Rightarrow> (s32 option \<times> PosixSems) option" where
  "scePthreadSemWait sem w = do {
     (ret, w') \<leftarrow> posix_sem_wait sem w; Some (map_option (\<lambda>r. sce_result r w') ret, w') }"

definition scePthreadSemTrywait :: "nat option option \<Rightarrow> PosixSems \<Rightarrow> (s32 \<times> PosixSems) option" where
  "scePthreadSemTrywait sem w = do { (ret, w') \<leftarrow> posix_sem_trywait sem w; Some (sce_result ret w', w') }"

text \<open>The deadline as seconds and nanoseconds, from the real time \<open>now\<close>.\<close>

definition scePthreadSemTimedwait ::
  "nat option option \<Rightarrow> nat \<Rightarrow> nat \<times> nat \<Rightarrow> PosixSems \<Rightarrow> (s32 \<times> PosixSems) option" where
  "scePthreadSemTimedwait sem usec now w = (let (sec, nsec) = now;
     total_nsec = nsec + usec mod 1000000 * 1000;
     t = (sec + usec div 1000000 + total_nsec div 1000000000, total_nsec mod 1000000000)
     in do { (ret, w') \<leftarrow> posix_sem_timedwait sem t w; Some (sce_result ret w', w') })"

definition scePthreadSemPost :: "nat option option \<Rightarrow> PosixSems \<Rightarrow> (s32 \<times> PosixSems) option" where
  "scePthreadSemPost sem w = do { (ret, w') \<leftarrow> posix_sem_post sem w; Some (sce_result ret w', w') }"

definition scePthreadSemGetvalue ::
  "nat option option \<Rightarrow> s32 option \<Rightarrow> PosixSems \<Rightarrow> ((s32 \<times> s32 option) \<times> PosixSems) option" where
  "scePthreadSemGetvalue sem sval w = do {
     ((ret, sval'), w') \<leftarrow> posix_sem_getvalue sem sval w; Some ((sce_result ret w', sval'), w') }"

end
