(* ===== verification/Semaphore_Props.thy ===== *)
theory Semaphore_Props
  imports Semaphore
begin

text \<open>
  What the semaphores promise: the invariant of \<open>OrbisSem\<close> over every interleaving of calls and
  waiting threads, whom a signal wakes, that a released thread returns, and the bounds of the POSIX
  semaphores.
\<close>

section \<open>The loops\<close>

definition frame_need :: "Frames \<Rightarrow> nat \<Rightarrow> s32" where
  "frame_need ws t = (case ws t of None \<Rightarrow> 0 | Some w \<Rightarrow> wt_need_count w)"

definition frame_priority :: "Frames \<Rightarrow> nat \<Rightarrow> nat" where
  "frame_priority ws t = (case ws t of None \<Rightarrow> 0 | Some w \<Rightarrow> wt_priority w)"

text \<open>Whom a signal serves: from the front, each thread whose need is met by what is left.\<close>

fun served :: "(nat \<Rightarrow> s32) \<Rightarrow> s32 \<Rightarrow> nat list \<Rightarrow> nat list" where
  "served need tokens [] = []"
| "served need tokens (t # ts) =
     (if need t \<le> tokens then t # served need (tokens - need t) ts else served need tokens ts)"

definition woken :: "WaitingThread \<Rightarrow> WaitingThread" where
  "woken w = w\<lparr>was_signaled := True, wt_sem := wt_sem w + 1\<rparr>"

lemma served_subset: "set (served need k l) \<subseteq> set l"
  by (induction need k l rule: served.induct) auto

lemma served_distinct: "distinct l \<Longrightarrow> distinct (served need k l)"
  by (induction need k l rule: served.induct) (auto dest: subsetD [OF served_subset])

lemma served_sum: "0 \<le> k \<Longrightarrow> sum_list (map need (served need k l)) \<le> k"
  by (induction need k l rule: served.induct) auto

lemma served_left:
  assumes "\<forall>t \<in> set l. 0 < need t" "t \<in> set l" "t \<notin> set (served need k l)"
  shows "k - sum_list (map need (served need k l)) < need t"
  using assms
proof (induction need k l rule: served.induct)
  case (2 need k u us)
  show ?case
  proof (cases "need u \<le> k")
    case True
    with 2 show ?thesis by (auto simp: algebra_simps)
  next
    case False
    have "0 \<le> sum_list (map need (served need k us))"
      using 2(3) subsetD [OF served_subset, of _ need k us]
      by (intro sum_list_nonneg) (auto simp: order_less_imp_le)
    with 2 False show ?thesis by auto
  qed
qed simp

lemma served_cong: "(\<And>t. t \<in> set l \<Longrightarrow> f t = g t) \<Longrightarrow> served f k l = served g k l"
  by (induction f k l rule: served.induct) auto

lemma wake_loop_served:
  assumes "distinct l" "\<forall>t \<in> set l. \<exists>w. ws t = Some w \<and> 0 < wt_need_count w" "0 \<le> k" "k \<le> SEM_VALUE_MAX"
    "S = served (frame_need ws) k l"
  shows "wake_loop k l ws = Some (k - sum_list (map (frame_need ws) S), filter (\<lambda>t. t \<notin> set S) l,
    (\<lambda>t. if t \<in> set S then map_option woken (ws t) else ws t))"
  using assms
proof (induction l arbitrary: k ws S)
  case Nil
  then show ?case by simp
next
  case (Cons t ts)
  obtain w where w: "ws t = Some w" "0 < wt_need_count w" using Cons.prems(2) by auto
  have n: "frame_need ws t = wt_need_count w" using w(1) by (simp add: frame_need_def)
  have sub: "set (served f j ts) \<subseteq> set ts" for f j by (rule served_subset)
  show ?case
  proof (cases "wt_need_count w > k")
    case True
    then have S: "S = served (frame_need ws) k ts" using Cons.prems(5) n by simp
    have "t \<notin> set S" using S sub Cons.prems(1) by auto
    with Cons.IH [OF _ _ Cons.prems(3,4) S] Cons.prems(1,2) w True show ?thesis by simp
  next
    case False
    let ?ws = "ws(t \<mapsto> woken w)"
    have same: "frame_need ?ws = frame_need ws" using w(1) by (auto simp: frame_need_def woken_def fun_eq_iff)
    have k: "wrap32 (k - wt_need_count w) = k - wt_need_count w" "0 \<le> k - wt_need_count w"
      "k - wt_need_count w \<le> SEM_VALUE_MAX"
      using Cons.prems(3,4) False w(2) by (auto intro: wrap32_id)
    let ?S = "served (frame_need ws) (k - wt_need_count w) ts"
    have S: "S = t # ?S" using Cons.prems(5) n False by simp
    have t: "t \<notin> set ts" "t \<notin> set ?S" using Cons.prems(1) sub by auto
    have all: "\<forall>u \<in> set ts. \<exists>w. ?ws u = Some w \<and> 0 < wt_need_count w" using Cons.prems(2) t(1) by auto
    have "distinct ts" using Cons.prems(1) by simp
    from Cons.IH [OF this all k(2,3) refl]
    have IH: "wake_loop (k - wt_need_count w) ts ?ws = Some (k - wt_need_count w - sum_list (map (frame_need ws) ?S),
        filter (\<lambda>t. t \<notin> set ?S) ts, (\<lambda>u. if u \<in> set ?S then map_option woken (?ws u) else ?ws u))"
      unfolding same .
    have step: "wake_loop k (t # ts) ws = wake_loop (k - wt_need_count w) ts ?ws"
      using w False k(1) by (simp add: woken_def)
    have left: "filter (\<lambda>u. u \<notin> set S) (t # ts) = filter (\<lambda>u. u \<notin> set ?S) ts"
      using t(1) unfolding S by (auto intro: filter_cong)
    have frames: "(\<lambda>u. if u \<in> set ?S then map_option woken (?ws u) else ?ws u) =
        (\<lambda>u. if u \<in> set S then map_option woken (ws u) else ws u)"
      using t w(1) unfolding S by (auto simp: fun_eq_iff)
    have sum: "k - wt_need_count w - sum_list (map (frame_need ws) ?S) = k - sum_list (map (frame_need ws) S)"
      unfolding S using n by simp
    show ?thesis unfolding step IH left frames sum ..
  qed
qed

lemma release_loop_all:
  assumes "distinct l" "\<forall>t \<in> set l. ws t \<noteq> None"
  shows "release_loop f l ws = Some (\<lambda>t. if t \<in> set l
    then map_option (\<lambda>w. (f w)\<lparr>wt_sem := wt_sem w + 1\<rparr>) (ws t) else ws t)"
  using assms
proof (induction l arbitrary: ws)
  case (Cons t ts)
  then obtain w where "ws t = Some w" by auto
  with Cons show ?case by (auto simp: fun_eq_iff)
qed simp

lemma insert_by_priority_eq:
  assumes "\<forall>u \<in> set l. ws u \<noteq> None"
  shows "insert_by_priority ws p t l =
    Some (takeWhile (\<lambda>u. frame_priority ws u \<le> p) l @ t # dropWhile (\<lambda>u. frame_priority ws u \<le> p) l)"
  using assms by (induction l) (auto simp: frame_priority_def)

lemma sorted_insert_priority:
  assumes "sorted_wrt (\<lambda>t u. f t \<le> f u) l" "t \<notin> set l" "f t = p"
  shows "sorted_wrt (\<lambda>t u. f t \<le> (f u :: nat)) (takeWhile (\<lambda>u. f u \<le> p) l @ t # dropWhile (\<lambda>u. f u \<le> p) l)"
  using assms
proof (induction l)
  case (Cons u us)
  show ?case
  proof (cases "f u \<le> p")
    case True
    have "\<forall>x \<in> set (takeWhile (\<lambda>u. f u \<le> p) us @ t # dropWhile (\<lambda>u. f u \<le> p) us). f u \<le> f x"
      using Cons.prems(1,3) True by (auto dest: set_takeWhileD set_dropWhileD)
    with Cons True show ?thesis by simp
  next
    case False
    with Cons.prems show ?thesis by force
  qed
qed simp

section \<open>The invariant\<close>

text \<open>A thread in the list waits for more than there is; a thread that left it has one reason to go on.\<close>

definition queued :: "nat \<Rightarrow> OrbisSem \<Rightarrow> WaitingThread \<Rightarrow> bool" where
  "queued p s w \<longleftrightarrow> wt_owner w = p \<and> \<not> was_signaled w \<and> \<not> was_deleted w \<and> \<not> was_canceled w \<and>
     wt_sem w = 0 \<and> wt_phase w \<noteq> Acquired \<and> token_count s < wt_need_count w \<and> 0 < wt_need_count w \<and>
     (is_fifo s \<longrightarrow> wt_priority w = 0) \<and> (wt_phase w = Expired \<longrightarrow> wt_timeout w \<noteq> None)"

definition let_go :: "WaitingThread \<Rightarrow> bool" where
  "let_go w \<longleftrightarrow> (if wt_phase w = Acquired then wt_sem w = 0 else wt_sem w = 1) \<and>
     (was_signaled w \<and> \<not> was_deleted w \<and> \<not> was_canceled w \<or>
      \<not> was_signaled w \<and> was_deleted w \<and> \<not> was_canceled w \<or>
      \<not> was_signaled w \<and> \<not> was_deleted w \<and> was_canceled w)"

definition sema_inv :: "nat \<Rightarrow> OrbisSem \<times> Frames \<Rightarrow> bool" where
  "sema_inv p st \<longleftrightarrow> (case st of (s, ws) \<Rightarrow>
     0 \<le> token_count s \<and> token_count s \<le> max_count s \<and> max_count s \<le> SEM_VALUE_MAX \<and>
     0 \<le> init_count s \<and> init_count s \<le> max_count s \<and> distinct (wait_list s) \<and>
     sorted_wrt (\<lambda>t u. frame_priority ws t \<le> frame_priority ws u) (wait_list s) \<and>
     (\<forall>t \<in> set (wait_list s). \<exists>w. ws t = Some w \<and> queued p s w) \<and>
     (\<forall>t w. ws t = Some w \<longrightarrow> wt_owner w = p \<longrightarrow> t \<notin> set (wait_list s) \<longrightarrow> let_go w))"

text \<open>
  One step of a thread at the semaphore \<open>p\<close>: it begins to wait, goes on after waiting, or signals, cancels
  or wakes all to delete.  A guest asks for at least one token, signals no negative number and cancels to a count
  within the maximum.
\<close>

inductive sema_step :: "nat \<Rightarrow> OrbisSem \<times> Frames \<Rightarrow> OrbisSem \<times> Frames \<Rightarrow> bool" for p :: nat where
  wait: "Wait_enter can_block need timeout t prio p (s, ws) = Some (r, st') \<Longrightarrow> 0 < need \<Longrightarrow> need \<le> SEM_VALUE_MAX \<Longrightarrow>
    ws t = None \<Longrightarrow> sema_step p (s, ws) st'"
| acquire: "Wait_acquire t ws = Some ws' \<Longrightarrow> ws t = Some w \<Longrightarrow> wt_owner w = p \<Longrightarrow> sema_step p (s, ws) (s, ws')"
| expire: "Wait_expire t ws = Some ws' \<Longrightarrow> ws t = Some w \<Longrightarrow> wt_owner w = p \<Longrightarrow> sema_step p (s, ws) (s, ws')"
| finish: "Wait_finish t elapsed (s, ws) = Some (r, st') \<Longrightarrow> ws t = Some w \<Longrightarrow> wt_owner w = p \<Longrightarrow>
    sema_step p (s, ws) st'"
| signal: "Signal n (s, ws) = Some (ok, st') \<Longrightarrow> 0 \<le> n \<Longrightarrow> sema_step p (s, ws) st'"
| cancel: "Cancel c nw (s, ws) = Some (r, st') \<Longrightarrow> c \<le> max_count s \<Longrightarrow> sema_step p (s, ws) st'"
| delete: "Delete (s, ws) = Some st' \<Longrightarrow> sema_step p (s, ws) st'"

inductive_cases sema_stepE: "sema_step p st st'"

lemma frame_priority_upd [simp]:
  "frame_priority (ws(t \<mapsto> w)) u = (if u = t then wt_priority w else frame_priority ws u)"
  by (simp add: frame_priority_def)

lemma distinct_insert_while:
  "distinct l \<Longrightarrow> t \<notin> set l \<Longrightarrow> distinct (takeWhile P l @ t # dropWhile P l)"
  by (induction l) (auto dest: set_takeWhileD set_dropWhileD)

lemma Wait_enter_inv:
  assumes inv: "sema_inv p (s, ws)" and r: "Wait_enter can_block need timeout t prio p (s, ws) = Some (r, st')"
    and need: "0 < need" "need \<le> SEM_VALUE_MAX" and fresh: "ws t = None"
  shows "sema_inv p st'"
proof -
  consider (take) "token_count s \<ge> need" "st' = (s\<lparr>token_count := wrap32 (token_count s - need)\<rparr>, ws)"
    | (no) "st' = (s, ws)"
    | (block) "token_count s < need"
        "AddWaiter t (construct_WaitingThread need (is_fifo s) prio timeout p) (s, ws) = Some st'"
    using r unfolding Wait_enter_def by (auto simp: bind_iff split: if_splits)
  then show ?thesis
  proof cases
    case take
    have "wrap32 (token_count s - need) = token_count s - need"
      using inv take(1) need by (intro wrap32_id) (auto simp: sema_inv_def)
    then show ?thesis using inv take need unfolding sema_inv_def queued_def by fastforce
  next
    case no
    then show ?thesis using inv by simp
  next
    case block
    let ?w = "construct_WaitingThread need (is_fifo s) prio timeout p"
    let ?f = "frame_priority (ws(t \<mapsto> ?w))"
    have live: "\<forall>u \<in> set (wait_list s). ws u \<noteq> None" using inv unfolding sema_inv_def by fastforce
    then have t: "t \<notin> set (wait_list s)" using fresh by auto
    have le: "(\<lambda>u. frame_priority ws u \<le> wt_priority ?w) = (\<lambda>u. frame_priority ws u \<le> ?f t)" by simp
    have prio: "frame_priority ws u = ?f u" if "u \<in> set (wait_list s)" for u using that t by auto
    have old: "sorted_wrt (\<lambda>t u. ?f t \<le> ?f u) (wait_list s)"
      using inv t unfolding sema_inv_def by (auto intro: sorted_wrt_mono_rel [rotated])
    obtain l where l: "st' = (s\<lparr>wait_list := l\<rparr>, ws(t \<mapsto> ?w))" "set l = insert t (set (wait_list s))"
      "distinct l" "sorted_wrt (\<lambda>t u. ?f t \<le> ?f u) l"
    proof (cases "is_fifo s")
      case True
      have zero: "?f u = 0" if "u \<in> set (wait_list s)" for u
        using inv that True t unfolding sema_inv_def queued_def by (fastforce simp: frame_priority_def)
      have "?f t = 0" using True by (simp add: construct_WaitingThread_def)
      then have "sorted_wrt (\<lambda>t u. ?f t \<le> ?f u) (wait_list s @ [t])"
        using old zero by (auto simp: sorted_wrt_append)
      moreover have "distinct (wait_list s @ [t])" using inv t unfolding sema_inv_def by simp
      moreover have "st' = (s\<lparr>wait_list := wait_list s @ [t]\<rparr>, ws(t \<mapsto> ?w))"
        using block(2) True by (simp add: AddWaiter_def)
      ultimately show ?thesis using that by auto
    next
      case False
      let ?l = "takeWhile (\<lambda>u. frame_priority ws u \<le> wt_priority ?w) (wait_list s) @
        t # dropWhile (\<lambda>u. frame_priority ws u \<le> wt_priority ?w) (wait_list s)"
      have l: "?l = takeWhile (\<lambda>u. ?f u \<le> ?f t) (wait_list s) @ t # dropWhile (\<lambda>u. ?f u \<le> ?f t) (wait_list s)"
        using prio t by (auto intro!: arg_cong2 [of _ _ _ _ append] takeWhile_cong dropWhile_cong)
      have "sorted_wrt (\<lambda>t u. ?f t \<le> ?f u) ?l"
        unfolding l by (rule sorted_insert_priority [OF old t refl])
      moreover have "set ?l = insert t (set (wait_list s))"
        using set_append [of "takeWhile (\<lambda>u. frame_priority ws u \<le> wt_priority ?w) (wait_list s)"
            "dropWhile (\<lambda>u. frame_priority ws u \<le> wt_priority ?w) (wait_list s)"] by (simp only: set_append takeWhile_dropWhile_id list.set(2)) auto
      moreover have "distinct ?l"
        using distinct_insert_while [OF _ t] inv unfolding sema_inv_def by blast
      moreover have "st' = (s\<lparr>wait_list := ?l\<rparr>, ws(t \<mapsto> ?w))"
        using block(2) False insert_by_priority_eq [OF live, of "wt_priority ?w" t] by (simp add: AddWaiter_def)
      ultimately show ?thesis using that by blast
    qed
    have "queued p s ?w" using block(1) need
      by (simp add: queued_def construct_WaitingThread_def)
    then have q: "\<forall>u \<in> set l. \<exists>w. (ws(t \<mapsto> ?w)) u = Some w \<and> queued p (s\<lparr>wait_list := l\<rparr>) w"
      using inv l(2) t unfolding sema_inv_def queued_def by auto
    show ?thesis using inv l q unfolding sema_inv_def by auto
  qed
qed

lemma sema_inv_frame:
  assumes "sema_inv p (s, ws)" "ws t = Some w" "wt_owner w = p"
  shows "t \<in> set (wait_list s) \<and> queued p s w \<or> t \<notin> set (wait_list s) \<and> let_go w"
  using assms unfolding sema_inv_def by fastforce

lemma sema_inv_upd:
  assumes inv: "sema_inv p (s, ws)" and w: "ws t = Some w" "wt_owner w = p"
    and w': "wt_priority w' = wt_priority w" "wt_owner w' = p"
    and k: "queued p s w \<Longrightarrow> queued p s w'" "let_go w \<Longrightarrow> let_go w'"
  shows "sema_inv p (s, ws(t \<mapsto> w'))"
proof -
  have "frame_priority (ws(t \<mapsto> w')) = frame_priority ws" using w w' by (auto simp: fun_eq_iff frame_priority_def)
  with assms sema_inv_frame [OF inv w] show ?thesis unfolding sema_inv_def by auto
qed

lemma Wait_acquire_inv:
  assumes "sema_inv p (s, ws)" "Wait_acquire t ws = Some ws'" "ws t = Some w" "wt_owner w = p"
  shows "sema_inv p (s, ws')"
proof -
  have w: "wt_phase w = Blocked" "0 < wt_sem w" "ws' = ws(t \<mapsto> w\<lparr>wt_sem := wt_sem w - 1, wt_phase := Acquired\<rparr>)"
    using assms(2,3) by (auto simp: Wait_acquire_def bind_iff split: if_splits)
  show ?thesis unfolding w(3)
    by (rule sema_inv_upd [OF assms(1,3,4)]) (use w(1,2) assms(4) in \<open>auto simp: queued_def let_go_def\<close>)
qed

lemma Wait_expire_inv:
  assumes "sema_inv p (s, ws)" "Wait_expire t ws = Some ws'" "ws t = Some w" "wt_owner w = p"
  shows "sema_inv p (s, ws')"
proof -
  have w: "wt_phase w = Blocked" "wt_sem w = 0" "wt_timeout w \<noteq> None" "ws' = ws(t \<mapsto> w\<lparr>wt_phase := Expired\<rparr>)"
    using assms(2,3) by (auto simp: Wait_expire_def bind_iff split: if_splits)
  show ?thesis unfolding w(4)
    by (rule sema_inv_upd [OF assms(1,3,4)]) (use w(1,2,3) assms(4) in \<open>auto simp: queued_def let_go_def\<close>)
qed

lemma Wait_finish_inv:
  assumes inv: "sema_inv p (s, ws)" and r: "Wait_finish t elapsed (s, ws) = Some (r, st')"
    and w: "ws t = Some w" "wt_owner w = p"
  shows "sema_inv p st'"
proof -
  have st': "st' = ((if GetResult w = KERNEL_ETIMEDOUT then s\<lparr>wait_list := remove1 t (wait_list s)\<rparr> else s), ws(t := None))"
    "wt_phase w \<noteq> Blocked"
    using r w by (auto simp: Wait_finish_def bind_iff Let_def split: if_splits)
  have d: "distinct (wait_list s)" using inv by (simp add: sema_inv_def)
  let ?l = "remove1 t (wait_list s)"
  have l: "?l = filter (\<lambda>u. u \<noteq> t) (wait_list s)" 
    by (auto simp: distinct_remove1_removeAll [OF d] removeAll_filter_not_eq intro: filter_cong)
  have "sorted_wrt (\<lambda>a b. frame_priority (ws(t := None)) a \<le> frame_priority (ws(t := None)) b) ?l"
  proof -
    have "sorted_wrt (\<lambda>a b. frame_priority ws a \<le> frame_priority ws b) ?l"
      unfolding l using inv by (auto simp: sema_inv_def intro: sorted_wrt_filter)
    then show ?thesis by (rule sorted_wrt_mono_rel [rotated]) (auto simp: l frame_priority_def)
  qed
  then have with_l: "sema_inv p (s\<lparr>wait_list := ?l\<rparr>, ws(t := None))"
    using inv d unfolding sema_inv_def queued_def by (auto simp: l)
  from sema_inv_frame [OF inv w] show ?thesis
  proof
    assume q: "t \<in> set (wait_list s) \<and> queued p s w"
    then have "GetResult w = KERNEL_ETIMEDOUT" by (simp add: GetResult_def queued_def)
    with with_l st' show ?thesis by simp
  next
    assume q: "t \<notin> set (wait_list s) \<and> let_go w"
    then have "?l = wait_list s" by (simp add: remove1_idem)
    then have "s\<lparr>wait_list := ?l\<rparr> = s" by simp
    with with_l st' show ?thesis by simp
  qed
qed

lemma let_go_wake: "queued p s w \<Longrightarrow> let_go (woken w)"
  by (auto simp: queued_def let_go_def woken_def)

lemma let_go_cancel: "queued p s w \<Longrightarrow> let_go (w\<lparr>was_canceled := True, wt_sem := wt_sem w + 1\<rparr>)"
  by (auto simp: queued_def let_go_def)

lemma let_go_delete: "queued p s w \<Longrightarrow> let_go (w\<lparr>was_deleted := True, wt_sem := wt_sem w + 1\<rparr>)"
  by (auto simp: queued_def let_go_def)

lemma Signal_eq:
  assumes inv: "sema_inv p (s, ws)" and n: "0 \<le> n"
    and S: "S = served (frame_need ws) (token_count s + n) (wait_list s)"
  shows "Signal n (s, ws) =
    (if token_count s + n > SEM_VALUE_MAX then None
     else if token_count s + n > max_count s then Some (False, s, ws)
     else Some (True, s\<lparr>token_count := token_count s + n - sum_list (map (frame_need ws) S),
            wait_list := filter (\<lambda>t. t \<notin> set S) (wait_list s)\<rparr>,
          (\<lambda>t. if t \<in> set S then map_option woken (ws t) else ws t)))"
proof -
  have b: "0 \<le> token_count s" "max_count s \<le> SEM_VALUE_MAX" "distinct (wait_list s)"
    "\<forall>t \<in> set (wait_list s). \<exists>w. ws t = Some w \<and> 0 < wt_need_count w"
    using inv by (auto simp: sema_inv_def queued_def)
  have "wrap32 (token_count s + n) = token_count s + n" if "token_count s + n \<le> SEM_VALUE_MAX"
    using that b(1) n by (intro wrap32_id) auto
  then show ?thesis
    using wake_loop_served [OF b(3,4) _ _ S] b(1,2) n by (auto simp: Signal_def s32_of_def)
qed

lemma Signal_inv:
  assumes inv: "sema_inv p (s, ws)" and r: "Signal n (s, ws) = Some (ok, st')" and n: "0 \<le> n"
  shows "sema_inv p st'"
proof -
  define S where "S = served (frame_need ws) (token_count s + n) (wait_list s)"
  note eq = Signal_eq [OF inv n S_def]
  show ?thesis
  proof (cases "token_count s + n > max_count s")
    case True
    then show ?thesis using r eq inv by (auto split: if_splits)
  next
    case False
    let ?s = "s\<lparr>token_count := token_count s + n - sum_list (map (frame_need ws) S),
      wait_list := filter (\<lambda>t. t \<notin> set S) (wait_list s)\<rparr>"
    let ?ws = "\<lambda>t. if t \<in> set S then map_option woken (ws t) else ws t"
    have st': "st' = (?s, ?ws)" using r eq False by (auto split: if_splits)
    have sub: "set S \<subseteq> set (wait_list s)" unfolding S_def by (rule served_subset)
    have live: "\<forall>t \<in> set (wait_list s). \<exists>w. ws t = Some w \<and> queued p s w" using inv by (simp add: sema_inv_def)
    have pos: "\<forall>t \<in> set (wait_list s). 0 < frame_need ws t"
      using live by (force simp: queued_def frame_need_def)
    have k: "0 \<le> token_count s + n" using inv n by (simp add: sema_inv_def)
    have sum: "sum_list (map (frame_need ws) S) \<le> token_count s + n" unfolding S_def by (rule served_sum [OF k])
    have "0 \<le> sum_list (map (frame_need ws) S)"
      using sub pos by (intro sum_list_nonneg) (auto simp: order_less_imp_le)
    then have tokens: "0 \<le> token_count ?s" "token_count ?s \<le> max_count ?s" using sum False by auto
    have prio: "frame_priority ?ws = frame_priority ws"
      by (auto simp: fun_eq_iff frame_priority_def woken_def split: option.split)
    have left: "\<exists>w. ?ws t = Some w \<and> queued p ?s w" if t: "t \<in> set (wait_list ?s)" for t
    proof -
      have t': "t \<in> set (wait_list s)" "t \<notin> set S" using t by auto
      obtain w where w: "ws t = Some w" "queued p s w" using live t'(1) by blast
      have "token_count ?s < frame_need ws t"
        using served_left [OF pos t'(1), of "token_count s + n"] t'(2) unfolding S_def by simp
      then have "queued p ?s w" using w by (simp add: queued_def frame_need_def)
      with w t' show ?thesis by simp
    qed
    have gone: "let_go w" if w: "?ws t = Some w" "wt_owner w = p" "t \<notin> set (wait_list ?s)" for t w
    proof (cases "t \<in> set S")
      case True
      then obtain v where "ws t = Some v" "queued p s v" using live sub by blast
      with w True show ?thesis using let_go_wake by auto
    next
      case False
      then have "t \<notin> set (wait_list s)" using w(3) by simp
      with w False inv show ?thesis by (auto simp: sema_inv_def)
    qed
    have "distinct (wait_list ?s)" "sorted_wrt (\<lambda>t u. frame_priority ?ws t \<le> frame_priority ?ws u) (wait_list ?s)"
      unfolding prio using inv by (auto simp: sema_inv_def intro: sorted_wrt_filter)
    then show ?thesis using inv tokens left gone unfolding st' sema_inv_def by auto
  qed
qed

lemma Cancel_inv:
  assumes inv: "sema_inv p (s, ws)" and r: "Cancel c nw (s, ws) = Some (r, st')" and c: "c \<le> max_count s"
  shows "sema_inv p st'"
proof -
  have live: "\<forall>t \<in> set (wait_list s). \<exists>w. ws t = Some w \<and> queued p s w" using inv by (simp add: sema_inv_def)
  have l: "distinct (wait_list s)" "\<forall>t \<in> set (wait_list s). ws t \<noteq> None"
    using inv live by (auto simp: sema_inv_def)
  let ?f = "\<lambda>w. w\<lparr>was_canceled := True, wt_sem := wt_sem w + 1\<rparr>"
  let ?ws = "\<lambda>t. if t \<in> set (wait_list s) then map_option ?f (ws t) else ws t"
  let ?s = "s\<lparr>wait_list := [], token_count := (if c < 0 then init_count s else c)\<rparr>"
  have st': "st' = (?s, ?ws)"
    using r release_loop_all [OF l, of "\<lambda>w. w\<lparr>was_canceled := True\<rparr>"]
    by (simp add: Cancel_def cong: if_cong)
  have "let_go w" if w: "?ws t = Some w" "wt_owner w = p" for t w
  proof (cases "t \<in> set (wait_list s)")
    case True
    then obtain v where v: "ws t = Some v" "queued p s v" using live by blast
    then have "w = ?f v" using w(1) True by simp
    then show ?thesis using let_go_cancel [OF v(2)] by simp
  next
    case False
    with w inv show ?thesis by (auto simp: sema_inv_def)
  qed
  then show ?thesis using inv c unfolding st' sema_inv_def by auto
qed

lemma Delete_inv:
  assumes inv: "sema_inv p (s, ws)" and r: "Delete (s, ws) = Some st'"
  shows "sema_inv p st'"
proof -
  have live: "\<forall>t \<in> set (wait_list s). \<exists>w. ws t = Some w \<and> queued p s w" using inv by (simp add: sema_inv_def)
  have l: "distinct (wait_list s)" "\<forall>t \<in> set (wait_list s). ws t \<noteq> None"
    using inv live by (auto simp: sema_inv_def)
  let ?f = "\<lambda>w. w\<lparr>was_deleted := True, wt_sem := wt_sem w + 1\<rparr>"
  let ?ws = "\<lambda>t. if t \<in> set (wait_list s) then map_option ?f (ws t) else ws t"
  let ?s = "s\<lparr>wait_list := []\<rparr>"
  have st': "st' = (?s, ?ws)"
    using r release_loop_all [OF l, of "\<lambda>w. w\<lparr>was_deleted := True\<rparr>"]
    by (simp add: Delete_def cong: if_cong)
  have "let_go w" if w: "?ws t = Some w" "wt_owner w = p" for t w
  proof (cases "t \<in> set (wait_list s)")
    case True
    then obtain v where v: "ws t = Some v" "queued p s v" using live by blast
    then have "w = ?f v" using w(1) True by simp
    then show ?thesis using let_go_delete [OF v(2)] by simp
  next
    case False
    with w inv show ?thesis by (auto simp: sema_inv_def)
  qed
  then show ?thesis using inv unfolding st' sema_inv_def by auto
qed

lemma sema_step_inv:
  assumes "sema_step p st st'" "sema_inv p st"
  shows "sema_inv p st'"
  using assms(1)
proof (cases rule: sema_step.cases)
  case wait
  then show ?thesis using Wait_enter_inv assms(2) by blast
next
  case acquire
  then show ?thesis using Wait_acquire_inv assms(2) by blast
next
  case expire
  then show ?thesis using Wait_expire_inv assms(2) by blast
next
  case finish
  then show ?thesis using Wait_finish_inv assms(2) by blast
next
  case signal
  then show ?thesis using Signal_inv assms(2) by blast
next
  case cancel
  then show ?thesis using Cancel_inv assms(2) by blast
next
  case delete
  then show ?thesis using Delete_inv assms(2) by blast
qed

lemma sema_steps_inv:
  assumes "(sema_step p)\<^sup>*\<^sup>* st st'" "sema_inv p st"
  shows "sema_inv p st'"
  using assms by (induction rule: rtranclp_induct) (auto intro: sema_step_inv)

section \<open>Properties of the semaphores\<close>

lemma construct_OrbisSem_inv:
  "0 \<le> initial \<Longrightarrow> initial \<le> maximum \<Longrightarrow> maximum \<le> SEM_VALUE_MAX \<Longrightarrow>
   sema_inv p (construct_OrbisSem initial maximum name fifo, \<lambda>_. None)"
  by (simp add: sema_inv_def construct_OrbisSem_def)

text \<open>
  C7. No wake-up is lost, as long as the calls ask for a positive number of tokens, signal no negative
  number and cancel to at most the maximum (other numbers take the count out of its bounds): in every
  state that waits, signals, cancellations, deletions, timeouts and the threads that wake up reach from a
  new semaphore, in any order, the token count is between 0 and the maximum; the wait list has no thread
  twice and is in order of priority; every thread in it asks for more tokens than there are; and every
  other thread that still waits has its semaphore released or acquired, with one of the results success,
  deleted or cancelled.
\<close>

theorem semaphore_no_lost_wakeup:
  assumes "0 \<le> initial" "initial \<le> maximum" "maximum \<le> SEM_VALUE_MAX"
    and "(sema_step p)\<^sup>*\<^sup>* (construct_OrbisSem initial maximum name fifo, \<lambda>_. None) (s, ws)"
  shows "0 \<le> token_count s \<and> token_count s \<le> max_count s \<and> distinct (wait_list s) \<and>
    sorted_wrt (\<lambda>t u. frame_priority ws t \<le> frame_priority ws u) (wait_list s) \<and>
    (\<forall>t \<in> set (wait_list s). \<exists>w. ws t = Some w \<and> token_count s < wt_need_count w \<and>
       GetResult w = KERNEL_ETIMEDOUT \<and> wt_sem w = 0) \<and>
    (\<forall>t w. ws t = Some w \<and> wt_owner w = p \<and> t \<notin> set (wait_list s) \<longrightarrow>
       GetResult w \<in> {ORBIS_OK, KERNEL_EACCES, KERNEL_ECANCELED} \<and> (wt_phase w = Blocked \<longrightarrow> wt_sem w = 1))"
proof -
  have inv: "sema_inv p (s, ws)"
    by (rule sema_steps_inv [OF assms(4)]) (rule construct_OrbisSem_inv [OF assms(1-3)])
  have q: "queued p s w \<Longrightarrow> token_count s < wt_need_count w \<and> GetResult w = KERNEL_ETIMEDOUT \<and> wt_sem w = 0" for w
    by (simp add: queued_def GetResult_def)
  have g: "let_go w \<Longrightarrow> GetResult w \<in> {ORBIS_OK, KERNEL_EACCES, KERNEL_ECANCELED} \<and>
      (wt_phase w = Blocked \<longrightarrow> wt_sem w = 1)" for w
    by (auto simp: let_go_def GetResult_def)
  show ?thesis using inv q g unfolding sema_inv_def by (simp, blast)
qed

theorem semaphore_no_lost_wakeup_witness:
  "\<exists>s1 ws1 s2 ws2. Wait_enter True 2 None 7 700 3 (construct_OrbisSem 1 3 ''s'' False, \<lambda>_. None) = Some (None, s1, ws1) \<and>
     Signal 1 (s1, ws1) = Some (True, s2, ws2) \<and> wait_list s1 = [7] \<and> wait_list s2 = [] \<and>
     GetResult (the (ws2 7)) = ORBIS_OK \<and> token_count s2 = 0"
proof -
  let ?s0 = "construct_OrbisSem 1 3 ''s'' False" and ?w = "construct_WaitingThread 2 False 700 None 3"
  let ?s1 = "?s0\<lparr>wait_list := [7]\<rparr>" and ?ws1 = "(\<lambda>_. None)(7 \<mapsto> ?w)"
  let ?s2 = "?s1\<lparr>token_count := 0, wait_list := []\<rparr>" and ?ws2 = "(\<lambda>_. None)(7 \<mapsto> woken ?w)"
  have w: "Wait_enter True 2 None 7 700 3 (?s0, \<lambda>_. None) = Some (None, ?s1, ?ws1)"
    by (simp add: Wait_enter_def AddWaiter_def construct_OrbisSem_def)
  have g: "Signal 1 (?s1, ?ws1) = Some (True, ?s2, ?ws2)"
    by (simp add: Signal_def construct_OrbisSem_def construct_WaitingThread_def s32_of_def wrap32_def woken_def)
  have "sema_step 3 (?s0, \<lambda>_. None) (?s1, ?ws1)" by (rule sema_step.wait [OF w]) simp_all
  moreover have "sema_step 3 (?s1, ?ws1) (?s2, ?ws2)" by (rule sema_step.signal [OF g]) simp
  ultimately have "(sema_step 3)\<^sup>*\<^sup>* (?s0, \<lambda>_. None) (?s2, ?ws2)" by auto
  from semaphore_no_lost_wakeup [OF _ _ _ this] have "GetResult (woken ?w) \<in> {ORBIS_OK, KERNEL_EACCES, KERNEL_ECANCELED}"
    by (auto simp: woken_def construct_WaitingThread_def construct_OrbisSem_def)
  moreover have "GetResult (woken ?w) = ORBIS_OK" by (simp add: GetResult_def woken_def)
  ultimately show ?thesis using w g by (intro exI conjI) (assumption | simp add: construct_OrbisSem_def)+
qed

text \<open>
  C33. \<open>Signal\<close> refuses a count that would exceed the maximum and changes nothing; else it serves the
  waiting threads in the order of the list, each that finds enough tokens: the tokens are the old
  ones and the new ones less what the served threads asked for, the served threads leave the list and
  their semaphores are released, the others keep their places, and each of them asks for more than
  is left.
\<close>

theorem Signal_serves:
  assumes inv: "sema_inv p (s, ws)" and n: "0 \<le> n" "token_count s + n \<le> SEM_VALUE_MAX"
  shows "\<exists>ok s' ws'. Signal n (s, ws) = Some (ok, s', ws') \<and>
    (if token_count s + n > max_count s then \<not> ok \<and> s' = s \<and> ws' = ws
     else ok \<and> (\<exists>S. S = served (frame_need ws) (token_count s + n) (wait_list s) \<and>
       token_count s' + sum_list (map (frame_need ws) S) = token_count s + n \<and>
       wait_list s' = filter (\<lambda>t. t \<notin> set S) (wait_list s) \<and>
       (\<forall>t. ws' t = (if t \<in> set S
          then map_option (\<lambda>w. w\<lparr>was_signaled := True, wt_sem := 1\<rparr>) (ws t) else ws t)) \<and>
       (\<forall>t \<in> set (wait_list s'). token_count s' < frame_need ws t)))"
proof -
  define S where "S = served (frame_need ws) (token_count s + n) (wait_list s)"
  note eq = Signal_eq [OF inv n(1) S_def]
  have live: "\<forall>t \<in> set (wait_list s). \<exists>w. ws t = Some w \<and> queued p s w" using inv by (simp add: sema_inv_def)
  then have pos: "\<forall>t \<in> set (wait_list s). 0 < frame_need ws t" by (force simp: queued_def frame_need_def)
  have sub: "set S \<subseteq> set (wait_list s)" unfolding S_def by (rule served_subset)
  have frames: "map_option woken (ws t) = map_option (\<lambda>w. w\<lparr>was_signaled := True, wt_sem := 1\<rparr>) (ws t)"
    if "t \<in> set S" for t
    using live sub that by (force simp: queued_def woken_def)
  have left: "token_count s + n - sum_list (map (frame_need ws) S) < frame_need ws t"
    if "t \<in> set (wait_list s)" "t \<notin> set S" for t
    using served_left [OF pos that(1)] that(2) unfolding S_def by blast
  show ?thesis unfolding eq using n(2) frames left by (auto simp: S_def)
qed

theorem Signal_serves_witness:
  "\<exists>s' ws'. Signal 2 (construct_OrbisSem 1 3 ''s'' True, \<lambda>_. None) = Some (True, s', ws') \<and> token_count s' = 3"
  using Signal_serves [OF construct_OrbisSem_inv [of 1 3 0 "''s''" True], of 2]
  by (auto simp: construct_OrbisSem_def)

text \<open>
  C28. A waiting thread gets out: when it has left the list, or has a time limit, at most one move of its
  own, acquiring its semaphore or finding its time over, brings it to the end of \<open>Wait\<close>, which
  returns; the result is a timeout exactly when it was still in the list, and its frame and its place
  in the list are gone.
\<close>

theorem semaphore_wait_returns:
  assumes inv: "sema_inv p (s, ws)" and w: "ws t = Some w" "wt_owner w = p"
    and out: "t \<notin> set (wait_list s) \<or> wt_timeout w \<noteq> None"
  shows "\<exists>ws1 r timeout s' ws'. (ws1 = ws \<or> Wait_acquire t ws = Some ws1 \<or> Wait_expire t ws = Some ws1) \<and>
    Wait_finish t elapsed (s, ws1) = Some ((r, timeout), s', ws') \<and> ws' t = None \<and>
    t \<notin> set (wait_list s') \<and> (r = KERNEL_ETIMEDOUT \<longleftrightarrow> t \<in> set (wait_list s)) \<and> sema_inv p (s', ws')"
proof -
  have finish: "\<exists>r timeout s' ws'. Wait_finish t elapsed (s, ws1) = Some ((r, timeout), s', ws') \<and> ws' t = None \<and>
      t \<notin> set (wait_list s') \<and> (r = KERNEL_ETIMEDOUT \<longleftrightarrow> t \<in> set (wait_list s)) \<and> sema_inv p (s', ws')"
    if ws1: "ws1 t = Some v" "wt_phase v \<noteq> Blocked" "wt_owner v = p" "sema_inv p (s, ws1)" for ws1 v
  proof -
    obtain r timeout s' ws' where f: "Wait_finish t elapsed (s, ws1) = Some ((r, timeout), s', ws')"
      "ws' = ws1(t := None)" "r = GetResult v"
      "s' = (if r = KERNEL_ETIMEDOUT then s\<lparr>wait_list := remove1 t (wait_list s)\<rparr> else s)"
      using ws1(1,2) by (auto simp: Wait_finish_def Let_def)
    have "sema_inv p (s', ws')" by (rule Wait_finish_inv [OF ws1(4) f(1) ws1(1,3)])
    moreover have "r = KERNEL_ETIMEDOUT \<longleftrightarrow> t \<in> set (wait_list s)"
      using sema_inv_frame [OF ws1(4,1,3)] f(3) by (auto simp: queued_def let_go_def GetResult_def)
    moreover have "distinct (wait_list s)" using inv by (simp add: sema_inv_def)
    ultimately show ?thesis using f by auto
  qed
  show ?thesis
  proof (cases "wt_phase w = Blocked")
    case False
    from finish [OF w(1) False w(2) inv] show ?thesis by blast
  next
    case True
    show ?thesis
    proof (cases "wt_sem w = 0")
      case False
      let ?ws = "ws(t \<mapsto> w\<lparr>wt_sem := wt_sem w - 1, wt_phase := Acquired\<rparr>)"
      have a: "Wait_acquire t ws = Some ?ws" using w(1) True False by (simp add: Wait_acquire_def)
      from finish [of ?ws "w\<lparr>wt_sem := wt_sem w - 1, wt_phase := Acquired\<rparr>"] a Wait_acquire_inv [OF inv a w] w(2)
      show ?thesis by auto
    next
      case sem: True
      then have "t \<in> set (wait_list s)" using sema_inv_frame [OF inv w] True by (auto simp: let_go_def)
      with out have "wt_timeout w \<noteq> None" by blast
      let ?ws = "ws(t \<mapsto> w\<lparr>wt_phase := Expired\<rparr>)"
      have e: "Wait_expire t ws = Some ?ws" using w(1) True sem \<open>wt_timeout w \<noteq> None\<close> by (simp add: Wait_expire_def)
      from finish [of ?ws "w\<lparr>wt_phase := Expired\<rparr>"] e Wait_expire_inv [OF inv e w] w(2) show ?thesis by auto
    qed
  qed
qed

theorem semaphore_wait_returns_witness:
  "\<exists>s1 ws1 ws2 r timeout s' ws'.
     Wait_enter True 2 (Some 50) 7 700 3 (construct_OrbisSem 1 3 ''s'' False, \<lambda>_. None) = Some (None, s1, ws1) \<and>
     Wait_finish 7 60 (s1, ws2) = Some ((KERNEL_ETIMEDOUT, timeout), s', ws') \<and> wait_list s' = [] \<and> ws' 7 = None"
proof -
  let ?s0 = "construct_OrbisSem 1 3 ''s'' False" and ?w = "construct_WaitingThread 2 False 700 (Some 50) 3"
  let ?s1 = "?s0\<lparr>wait_list := [7]\<rparr>" and ?ws1 = "(\<lambda>_. None)(7 \<mapsto> ?w)"
  have w: "Wait_enter True 2 (Some 50) 7 700 3 (?s0, \<lambda>_. None) = Some (None, ?s1, ?ws1)"
    by (simp add: Wait_enter_def AddWaiter_def construct_OrbisSem_def)
  have inv: "sema_inv 3 (?s1, ?ws1)"
    by (rule Wait_enter_inv [OF construct_OrbisSem_inv w]) simp_all
  obtain ws2 r timeout s' ws' where f: "Wait_finish 7 60 (?s1, ws2) = Some ((r, timeout), s', ws')" "ws' 7 = None"
    "7 \<notin> set (wait_list s')" "r = KERNEL_ETIMEDOUT \<longleftrightarrow> 7 \<in> set (wait_list ?s1)"
    using semaphore_wait_returns [OF inv, of 7 ?w 60] by (auto simp: construct_WaitingThread_def)
  have "s' = ?s1 \<or> s' = ?s1\<lparr>wait_list := remove1 7 (wait_list ?s1)\<rparr>"
    using f(1) by (auto simp: Wait_finish_def bind_iff Let_def split: if_splits)
  then have "wait_list s' = []" using f(3) by auto
  with w f show ?thesis by auto
qed

section \<open>Handles\<close>

lemma slot_erase_capacity: "slot_erase i v = Some v' \<Longrightarrow> values_capacity v' = values_capacity v"
  by (auto simp: slot_erase_def ResetStorageBit_def split: if_splits)

lemma slot_map_allocated: "slots_wf v \<Longrightarrow> i < values_capacity v \<Longrightarrow> is_allocated i v = Some (slot_map v i \<noteq> None)"
  using ReadStorageBit_map capacity_words by (fastforce simp: is_allocated_def)

lemma slot_map_capacity: "slot_map v i = Some x \<Longrightarrow> i < values_capacity v"
  by (auto simp: slot_map_def split: if_splits)

lemma on_sema_live:
  assumes "slots_wf (orbis_sems w)" "slot_map (orbis_sems w) i = Some p"
  shows "on_sema i f err w = on_object p (f p) w"
  using assms slot_map_allocated [OF assms(1) slot_map_capacity [OF assms(2)]]
  by (simp add: on_sema_def slot_at_map)

text \<open>
  The life of a handle: creating a semaphore with valid parameters gives a handle that was not in
  use; polling it takes tokens exactly when there are enough; after deleting it the table of handles
  is as before, calls on the handle report \<open>ESRCH\<close>, and a thread that was still waiting on the
  semaphore has nothing to return through: whatever it does, finishing its wait would use the
  destroyed semaphore.
\<close>

theorem sceKernelCreateSema_lifecycle:
  assumes wf: "slots_wf (orbis_sems w)" "slots_room (orbis_sems w)"
    and arg: "attr \<le> 2" "0 \<le> initCount" "initCount \<le> maxCount" "0 < maxCount" "maxCount \<le> SEM_VALUE_MAX"
  shows "\<exists>i w1. sceKernelCreateSema (Some out) (Some name) attr initCount maxCount w = Some ((ORBIS_OK, Some i), w1) \<and>
    slot_map (orbis_sems w) i = None \<and>
    (\<forall>need t prio. 0 < need \<longrightarrow> (\<exists>w2. sceKernelPollSema i need t prio w1 =
       Some (Some (if need \<le> initCount then ORBIS_OK else KERNEL_EBUSY), w2))) \<and>
    (\<forall>t prio need ws. 0 < need \<longrightarrow> sceKernelWaitSema i need None t prio w1 = Some (None, ws) \<longrightarrow>
       (\<exists>w3. sceKernelDeleteSema i ws = Some (ORBIS_OK, w3) \<and>
         slot_map (orbis_sems w3) = slot_map (orbis_sems w) \<and>
         sceKernelSignalSema i 1 w3 = Some (KERNEL_ESRCH, w3) \<and>
         (\<forall>w4 elapsed. sema_acquire t w3 = Some w4 \<longrightarrow> sema_finish t elapsed w4 = None)))"
proof -
  let ?p = "next_object w" and ?s = "construct_OrbisSem initCount maxCount name (attr = 1)"
  obtain i v where v: "slot_insert ?p (orbis_sems w) = Some (i, v)" "slot_map (orbis_sems w) i = None"
    "slots_wf v" "slot_map v = (slot_map (orbis_sems w))(i \<mapsto> ?p)"
    by (rule slots.ins_fresh [OF wf])
  let ?w1 = "w\<lparr>orbis_sems := v, next_object := ?p + 1, sema_objects := (sema_objects w)(?p \<mapsto> ?s)\<rparr>"
  have create: "sceKernelCreateSema (Some out) (Some name) attr initCount maxCount w = Some ((ORBIS_OK, Some i), ?w1)"
    using arg v(1) by (simp add: sceKernelCreateSema_def Let_def)
  have live: "on_sema i f err ?w1 = on_object ?p (f ?p) ?w1" for f :: "nat \<Rightarrow> OrbisSem \<times> Frames \<Rightarrow> ('r \<times> OrbisSem \<times> Frames) option" and err
    using v(3,4) by (intro on_sema_live) simp_all
  have poll: "\<exists>w2. sceKernelPollSema i need t prio ?w1 =
      Some (Some (if need \<le> initCount then ORBIS_OK else KERNEL_EBUSY), w2)" for need t prio
    unfolding sceKernelPollSema_def live by (simp add: on_object_def Wait_enter_def construct_OrbisSem_def)
  obtain v3 where v3: "slot_erase i v = Some v3" "slots_wf v3" "slot_map v3 = slot_map (orbis_sems w)"
    using slots.ins_del [OF wf v(1)] by blast
  have gone: "is_allocated i v3 = Some False"
  proof -
    have "i < values_capacity v3"
      using slot_erase_capacity [OF v3(1)] slot_map_capacity [of v i ?p] v(4) by simp
    then show ?thesis using slot_map_allocated [OF v3(2)] v3(3) v(2) by simp
  qed
  have strand: "\<exists>w3. sceKernelDeleteSema i ws = Some (ORBIS_OK, w3) \<and> slot_map (orbis_sems w3) = slot_map (orbis_sems w) \<and>
      sceKernelSignalSema i 1 w3 = Some (KERNEL_ESRCH, w3) \<and>
      (\<forall>w4 elapsed. sema_acquire t w3 = Some w4 \<longrightarrow> sema_finish t elapsed w4 = None)"
    if need: "0 < need" and wait: "sceKernelWaitSema i need None t prio ?w1 = Some (None, ws)" for t prio need ws
  proof -
    let ?f = "construct_WaitingThread need (attr = 1) prio None ?p"
    have ws: "ws = ?w1\<lparr>sema_objects := (sema_objects w)(?p \<mapsto> ?s\<lparr>wait_list := [t]\<rparr>), sema_frames := (sema_frames w)(t \<mapsto> ?f)\<rparr>"
      using wait unfolding sceKernelWaitSema_def live
      by (auto simp: on_object_def Wait_enter_def AddWaiter_def construct_OrbisSem_def bind_iff split: if_splits)
    let ?frames = "(sema_frames w)(t \<mapsto> ?f\<lparr>was_deleted := True, wt_sem := 1\<rparr>)"
    let ?w3 = "ws\<lparr>orbis_sems := v3, sema_frames := ?frames,
      sema_objects := (sema_objects ws)(?p := None)\<rparr>"
    have del: "sceKernelDeleteSema i ws = Some (ORBIS_OK, ?w3)"
      using v(3,4) v3(1) slot_map_allocated [OF v(3) slot_map_capacity [of v i ?p]]
      by (simp add: sceKernelDeleteSema_def ws slot_at_map on_object_def Delete_def construct_WaitingThread_def)
    have "sceKernelSignalSema i 1 ?w3 = Some (KERNEL_ESRCH, ?w3)"
      using gone by (simp add: sceKernelSignalSema_def on_sema_def)
    moreover have "sema_finish t elapsed w4 = None" if "sema_acquire t ?w3 = Some w4" for w4 elapsed
      using that by (auto simp: sema_acquire_def Wait_acquire_def sema_finish_def on_object_def construct_WaitingThread_def
          ws bind_iff)
    ultimately show ?thesis using del v3(3) by auto
  qed
  show ?thesis using create v(2) poll strand by blast
qed

theorem sceKernelCreateSema_lifecycle_witness:
  "\<exists>v0 i w1. construct_SlotVector = Some v0 \<and>
     sceKernelCreateSema (Some 0) (Some ''sema'') 1 1 4 \<lparr>orbis_sems = v0, sema_objects = (\<lambda>_. None),
       sema_frames = (\<lambda>_. None), next_object = 0\<rparr> = Some ((ORBIS_OK, Some i), w1) \<and>
     fst (the (sceKernelPollSema i 2 5 700 w1)) = Some KERNEL_EBUSY"
proof -
  obtain v0 :: "nat SlotVector" where v0: "construct_SlotVector = Some v0" "slots_wf v0"
    "free_list v0 = rev [0..<2048]" using construct_SlotVector_spec by blast
  have room: "slots_room v0" using v0(3) by (simp add: slots_room_def)
  let ?w = "\<lparr>orbis_sems = v0, sema_objects = (\<lambda>_. None), sema_frames = (\<lambda>_. None), next_object = 0\<rparr>"
  obtain i w1 where c: "sceKernelCreateSema (Some 0) (Some ''sema'') 1 1 4 ?w = Some ((ORBIS_OK, Some i), w1)"
    "\<forall>need t prio. 0 < need \<longrightarrow> (\<exists>w2. sceKernelPollSema i need t prio w1 =
       Some (Some (if need \<le> 1 then ORBIS_OK else KERNEL_EBUSY), w2))"
    using sceKernelCreateSema_lifecycle [of ?w 1 1 4 0 "''sema''"] v0(2) room by auto
  from c(2) [rule_format, of 2 5 700] obtain w2 where "sceKernelPollSema i 2 5 700 w1 = Some (Some KERNEL_EBUSY, w2)"
    by auto
  with v0(1) c(1) show ?thesis by auto
qed

section \<open>The value of a POSIX semaphore\<close>

text \<open>Where a thread is in a call: outside, past acquiring but not yet counted down, or counted up but not yet released.\<close>

datatype PsemPc = PsIdle | PsTaken | PsCounted

inductive psem_step :: "PthreadSem \<times> (nat \<Rightarrow> PsemPc) \<Rightarrow> PthreadSem \<times> (nat \<Rightarrow> PsemPc) \<Rightarrow> bool" where
  acquire: "pc t = PsIdle \<Longrightarrow> psem_acquire s = Some s' \<Longrightarrow> psem_step (s, pc) (s', pc(t := PsTaken))"
| taken: "pc t = PsTaken \<Longrightarrow> psem_step (s, pc) (psem_taken s, pc(t := PsIdle))"
| count: "pc t = PsIdle \<Longrightarrow> psem_count s = Some s' \<Longrightarrow> psem_step (s, pc) (s', pc(t := PsCounted))"
| release: "pc t = PsCounted \<Longrightarrow> psem_release s = Some s' \<Longrightarrow> psem_step (s, pc) (s', pc(t := PsIdle))"

definition busy :: "(nat \<Rightarrow> PsemPc) \<Rightarrow> nat set" where
  "busy pc = {t. pc t \<noteq> PsIdle}"

definition psem_inv :: "PthreadSem \<times> (nat \<Rightarrow> PsemPc) \<Rightarrow> bool" where
  "psem_inv x \<longleftrightarrow> (case x of (s, pc) \<Rightarrow> finite (busy pc) \<and>
     sem_value s = int (semaphore s) + int (card (busy pc)) \<and> sem_value s \<le> SEM_VALUE_MAX)"

lemma busy_enter: "pc t = PsIdle \<Longrightarrow> q \<noteq> PsIdle \<Longrightarrow> busy (pc(t := q)) = insert t (busy pc) \<and> t \<notin> busy pc"
  by (auto simp: busy_def)

lemma busy_leave: "pc t \<noteq> PsIdle \<Longrightarrow> busy (pc(t := PsIdle)) = busy pc - {t} \<and> t \<in> busy pc"
  by (auto simp: busy_def)

lemma psem_step_inv:
  assumes "psem_step x y" "psem_inv x"
  shows "psem_inv y"
  using assms
proof (induction rule: psem_step.induct)
  case (acquire pc t s s')
  then show ?case using busy_enter [of pc t PsTaken]
    by (auto simp: psem_inv_def psem_acquire_def split: if_splits)
next
  case (taken pc t s)
  then have b: "busy (pc(t := PsIdle)) = busy pc - {t}" "t \<in> busy pc" "finite (busy pc)"
    using busy_leave [of pc t] by (auto simp: psem_inv_def)
  then have pos: "0 < card (busy pc)" by (auto simp: card_gt_0_iff)
  then have "wrap32 (sem_value s - 1) = sem_value s - 1"
    using taken by (intro wrap32_id) (auto simp: psem_inv_def)
  moreover have "card (busy pc - {t}) = card (busy pc) - 1" using b by simp
  ultimately show ?case using taken b(1,3) pos by (simp add: psem_inv_def psem_taken_def)
next
  case (count pc t s s')
  have "wrap32 (sem_value s + 1) = sem_value s + 1" if "sem_value s \<noteq> SEM_VALUE_MAX"
    using count that by (intro wrap32_id) (auto simp: psem_inv_def)
  then show ?case using count busy_enter [of pc t PsCounted]
    by (auto simp: psem_inv_def psem_count_def split: if_splits)
next
  case (release pc t s s')
  then have b: "busy (pc(t := PsIdle)) = busy pc - {t}" "t \<in> busy pc" "finite (busy pc)"
    using busy_leave [of pc t] by (auto simp: psem_inv_def)
  then have "0 < card (busy pc)" by (auto simp: card_gt_0_iff)
  moreover have "card (busy pc - {t}) = card (busy pc) - 1" using b by simp
  moreover have "s' = s\<lparr>semaphore := semaphore s + 1\<rparr>"
    using release by (simp add: psem_release_def split: if_splits)
  ultimately show ?case using release b(1,3) by (simp add: psem_inv_def)
qed

text \<open>
  C37. However the calls of the threads are interleaved, the value of a POSIX semaphore stays between 0
  and its maximum and is never below the count of the host semaphore, with which it agrees whenever no
  thread is inside a call; so a \<open>sem_post\<close> that passed its overflow check never releases the host
  semaphore beyond its maximum.
\<close>

theorem posix_sem_bounds:
  assumes "int v \<le> SEM_VALUE_MAX"
    "psem_step\<^sup>*\<^sup>* (\<lparr>semaphore = v, sem_value = int v\<rparr>, \<lambda>_. PsIdle) (s, pc)"
  shows "int (semaphore s) \<le> sem_value s \<and> sem_value s \<le> SEM_VALUE_MAX \<and>
    ((\<forall>t. pc t = PsIdle) \<longrightarrow> sem_value s = int (semaphore s)) \<and>
    (\<forall>t. pc t = PsCounted \<longrightarrow> psem_release s \<noteq> None)"
proof -
  have start: "psem_inv (\<lparr>semaphore = v, sem_value = int v\<rparr>, \<lambda>_. PsIdle)"
    using assms(1) by (simp add: psem_inv_def busy_def)
  have inv: "psem_inv (s, pc)"
    using assms(2) start by (induction rule: rtranclp_induct) (auto intro: psem_step_inv)
  then have i: "finite (busy pc)" "sem_value s = int (semaphore s) + int (card (busy pc))" "sem_value s \<le> SEM_VALUE_MAX"
    by (auto simp: psem_inv_def)
  have "psem_release s \<noteq> None" if "pc t = PsCounted" for t
  proof -
    have "t \<in> busy pc" using that by (simp add: busy_def)
    then have "0 < card (busy pc)" using i(1) by (auto simp: card_gt_0_iff)
    then show ?thesis using i(2,3) by (simp add: psem_release_def)
  qed
  moreover have "(\<forall>t. pc t = PsIdle) \<longrightarrow> busy pc = {}" by (simp add: busy_def)
  ultimately show ?thesis using i(2,3) by auto
qed

lemma psem_count_last: "psem_count \<lparr>semaphore = 2147483646, sem_value = 2147483646\<rparr> =
    Some \<lparr>semaphore = 2147483646, sem_value = 2147483647\<rparr>"
  by (simp add: psem_count_def wrap32_def)

theorem posix_sem_bounds_witness:
  "\<exists>s. psem_count \<lparr>semaphore = 2147483646, sem_value = 2147483646\<rparr> = Some s \<and> sem_value s = SEM_VALUE_MAX \<and>
     psem_release s \<noteq> None \<and> psem_count s = None"
proof -
  let ?start = "\<lparr>semaphore = 2147483646, sem_value = 2147483646\<rparr>" and ?next = "\<lparr>semaphore = 2147483646, sem_value = 2147483647\<rparr>"
  have c: "psem_count ?start = Some ?next" by (rule psem_count_last)
  have "psem_step (?start, \<lambda>_. PsIdle) (?next, (\<lambda>_. PsIdle)(5 := PsCounted))" by (rule psem_step.count [OF _ c]) simp
  then have "psem_step\<^sup>*\<^sup>* (\<lparr>semaphore = 2147483646, sem_value = int 2147483646\<rparr>, \<lambda>_. PsIdle)
      (?next, (\<lambda>_. PsIdle)(5 := PsCounted))" by auto
  moreover have "int 2147483646 \<le> SEM_VALUE_MAX" by simp
  ultimately have "\<forall>t::nat. ((\<lambda>_. PsIdle)(5 := PsCounted)) t = PsCounted \<longrightarrow> psem_release ?next \<noteq> None"
    using posix_sem_bounds by blast
  then have "psem_release ?next \<noteq> None" by (metis fun_upd_same)
  with c show ?thesis by (intro exI [of _ ?next]) (simp add: psem_count_def)
qed

end
