(* ===== verification/Event_Flag.thy ===== *)
theory Event_Flag
  imports Semaphore
begin

text \<open>
  The event flags of \<open>src/src/core/libraries/kernel/threads/event_flag.cpp\<close>: the class
  \<open>EventFlagInternal\<close> and the calls on it.

  A critical section is one operation.  A thread that waits in the condition variable has a frame;
  notifying marks all frames, and a thread whose frame is marked looks at the condition again, as
  does one whose time is over.  \<open>Set\<close>, \<open>Clear\<close> and \<open>Cancel\<close> spin while the flag is being cancelled:
  they have no result there, and \<open>Cancel\<close> has two parts, since it spins until nobody waits.
\<close>

section \<open>Data\<close>

datatype ClearMode = ClearNone | ClearAll | ClearBits
datatype WaitMode = WaitAnd | WaitOr
datatype ThreadMode = ThreadSingle | ThreadMulti
datatype QueueMode = QueueFifo | QueueThreadPrio
datatype EvfStatus = StatusSet | StatusCanceled | StatusDeleted

type_synonym bits64 = "64 word"

record EventFlagInternal =
  m_status :: EvfStatus
  m_waiting_threads :: s32
  m_name :: string
  m_thread_mode :: ThreadMode
  m_queue_mode :: QueueMode
  m_bits :: bits64

text \<open>The variables of a thread that waits: what for, its time limit, and whether it was notified.\<close>

record EvfFrame =
  ef_bits :: bits64
  ef_wait :: WaitMode
  ef_clear :: ClearMode
  ef_micros :: "nat option"
  ef_notified :: bool

type_synonym EvfFrames = "nat \<Rightarrow> EvfFrame option"

definition construct_EventFlagInternal :: "string \<Rightarrow> ThreadMode \<Rightarrow> QueueMode \<Rightarrow> bits64 \<Rightarrow> EventFlagInternal" where
  "construct_EventFlagInternal name tm qm bits =
     \<lparr>m_status = StatusSet, m_waiting_threads = 0, m_name = name, m_thread_mode = tm, m_queue_mode = qm,
      m_bits = bits\<rparr>"

section \<open>The operations\<close>

definition waitFunc :: "WaitMode \<Rightarrow> bits64 \<Rightarrow> EventFlagInternal \<Rightarrow> bool" where
  "waitFunc wait_mode bits e \<longleftrightarrow> m_status e = StatusCanceled \<or> m_status e = StatusDeleted \<or>
     wait_mode = WaitAnd \<and> m_bits e AND bits = bits \<or> wait_mode = WaitOr \<and> m_bits e AND bits \<noteq> 0"

text \<open>
  The end of \<open>Wait\<close> when the condition holds: the result, the pattern that is reported, and the time
  that is left, \<open>elapsed\<close> being the microseconds measured.
\<close>

definition Evf_complete ::
  "bits64 \<Rightarrow> ClearMode \<Rightarrow> nat option \<Rightarrow> nat \<Rightarrow> EventFlagInternal \<Rightarrow>
     (s32 \<times> bits64 \<times> nat option) \<times> EventFlagInternal" where
  "Evf_complete bits clear_mode micros elapsed e =
     (let e1 = e\<lparr>m_waiting_threads := m_waiting_threads e - 1\<rparr>;
          left = map_option (\<lambda>m. if elapsed \<ge> m then 0 else m - elapsed) micros
      in if m_status e = StatusCanceled then ((KERNEL_ECANCELED, m_bits e, left), e1)
         else if m_status e = StatusDeleted then ((KERNEL_EACCES, m_bits e, left), e1)
         else ((ORBIS_OK, m_bits e, left),
               e1\<lparr>m_bits := (if clear_mode = ClearAll then 0
                              else if clear_mode = ClearBits then m_bits e AND NOT bits else m_bits e)\<rparr>))"

text \<open>
  \<open>Wait\<close> up to the condition variable: it is refused, completes at once, or leaves a frame.  The
  refusal writes neither the pattern nor the time.  The pattern is stored only where the caller gave a
  pointer for it.
\<close>

datatype EvfOutcome = Refused s32 | Completed s32 bits64 "nat option" | Waiting

definition Evf_begin ::
  "bits64 \<Rightarrow> WaitMode \<Rightarrow> ClearMode \<Rightarrow> nat option \<Rightarrow> nat \<Rightarrow> nat \<Rightarrow> EventFlagInternal \<times> EvfFrames \<Rightarrow>
     EvfOutcome \<times> EventFlagInternal \<times> EvfFrames" where
  "Evf_begin bits wait_mode clear_mode micros t elapsed st = (case st of (e, ws) \<Rightarrow>
     if m_thread_mode e = ThreadSingle \<and> m_waiting_threads e > 0 then (Refused KERNEL_EPERM, e, ws)
     else let e1 = e\<lparr>m_waiting_threads := m_waiting_threads e + 1\<rparr> in
       if waitFunc wait_mode bits e1
       then let ((r, pat, left), e2) = Evf_complete bits clear_mode micros elapsed e1 in (Completed r pat left, e2, ws)
       else (Waiting, e1, ws(t \<mapsto> \<lparr>ef_bits = bits, ef_wait = wait_mode, ef_clear = clear_mode,
               ef_micros = micros, ef_notified = False\<rparr>)))"

text \<open>A thread looks at the condition again: it completes, or waits on.\<close>

definition Evf_wake ::
  "nat \<Rightarrow> nat \<Rightarrow> EventFlagInternal \<times> EvfFrames \<Rightarrow> (EvfOutcome \<times> EventFlagInternal \<times> EvfFrames) option" where
  "Evf_wake t elapsed st = (case st of (e, ws) \<Rightarrow> do {
     f \<leftarrow> ws t;
     Some (if waitFunc (ef_wait f) (ef_bits f) e
           then let ((r, pat, left), e') = Evf_complete (ef_bits f) (ef_clear f) (ef_micros f) elapsed e
                in (Completed r pat left, e', ws(t := None))
           else (Waiting, e, ws(t \<mapsto> f\<lparr>ef_notified := False\<rparr>))) })"

text \<open>Its time is over: the condition is looked at once more.\<close>

definition Evf_timeout ::
  "nat \<Rightarrow> nat \<Rightarrow> EventFlagInternal \<times> EvfFrames \<Rightarrow> (EvfOutcome \<times> EventFlagInternal \<times> EvfFrames) option" where
  "Evf_timeout t elapsed st = (case st of (e, ws) \<Rightarrow> do {
     f \<leftarrow> ws t;
     (if ef_micros f = None then None
      else if waitFunc (ef_wait f) (ef_bits f) e
      then let ((r, pat, left), e') = Evf_complete (ef_bits f) (ef_clear f) (ef_micros f) elapsed e
           in Some (Completed r pat left, e', ws(t := None))
      else Some (Completed KERNEL_ETIMEDOUT (m_bits e) (Some 0),
                 e\<lparr>m_waiting_threads := m_waiting_threads e - 1\<rparr>, ws(t := None))) })"

definition notify_all :: "EvfFrames \<Rightarrow> EvfFrames" where
  "notify_all ws = (\<lambda>t. map_option (\<lambda>f. f\<lparr>ef_notified := True\<rparr>) (ws t))"

definition Evf_Set :: "bits64 \<Rightarrow> EventFlagInternal \<times> EvfFrames \<Rightarrow> (EventFlagInternal \<times> EvfFrames) option" where
  "Evf_Set bits st = (case st of (e, ws) \<Rightarrow>
     if m_status e \<noteq> StatusSet then None else Some (e\<lparr>m_bits := m_bits e OR bits\<rparr>, notify_all ws))"

definition Evf_Clear :: "bits64 \<Rightarrow> EventFlagInternal \<times> EvfFrames \<Rightarrow> (EventFlagInternal \<times> EvfFrames) option" where
  "Evf_Clear bits st = (case st of (e, ws) \<Rightarrow>
     if m_status e \<noteq> StatusSet then None else Some (e\<lparr>m_bits := m_bits e AND bits\<rparr>, ws))"

definition Cancel_begin ::
  "bits64 \<Rightarrow> s32 option \<Rightarrow> EventFlagInternal \<times> EvfFrames \<Rightarrow> (s32 option \<times> EventFlagInternal \<times> EvfFrames) option"
where
  "Cancel_begin setPattern numWaitThreads st = (case st of (e, ws) \<Rightarrow>
     if m_status e \<noteq> StatusSet then None
     else Some (map_option (\<lambda>_. m_waiting_threads e) numWaitThreads,
                e\<lparr>m_status := StatusCanceled, m_bits := setPattern\<rparr>, notify_all ws))"

definition Cancel_end :: "EventFlagInternal \<times> EvfFrames \<Rightarrow> (EventFlagInternal \<times> EvfFrames) option" where
  "Cancel_end st = (case st of (e, ws) \<Rightarrow>
     if m_waiting_threads e > 0 then None else Some (e\<lparr>m_status := StatusSet\<rparr>, ws))"

text \<open>\<open>Poll\<close> is a wait without time; no other thread comes between its two looks at the condition.\<close>

definition Evf_Poll ::
  "bits64 \<Rightarrow> WaitMode \<Rightarrow> ClearMode \<Rightarrow> nat \<Rightarrow> EventFlagInternal \<times> EvfFrames \<Rightarrow>
     (EvfOutcome \<times> EventFlagInternal \<times> EvfFrames) option" where
  "Evf_Poll bits wait_mode clear_mode t st = (
     let (r, st1) = Evf_begin bits wait_mode clear_mode (Some 0) t 0 st in do {
       (r2, st2) \<leftarrow> (if r = Waiting then Evf_timeout t 0 st1 else Some (r, st1));
       Some (case r2 of
         Completed c pat left \<Rightarrow> Completed (if c = KERNEL_ETIMEDOUT then KERNEL_EBUSY else c) pat left
       | Refused c \<Rightarrow> Refused (if c = KERNEL_ETIMEDOUT then KERNEL_EBUSY else c)
       | Waiting \<Rightarrow> Waiting, st2) })"

section \<open>The calls\<close>

record EvfWorld =
  evf_objects :: "nat \<Rightarrow> EventFlagInternal option"
  evf_frames :: "nat \<Rightarrow> EvfFrames"
  next_evf :: nat

text \<open>A flag pointer is the option of its address.  The branches marked unreachable stop the emulator.\<close>

definition evf_queue_mode :: "u32 \<Rightarrow> QueueMode option" where
  "evf_queue_mode attr = (let a = attr AND 0xf in
     if a = 0x01 then Some QueueFifo else if a = 0x02 then Some QueueThreadPrio
     else if a = 0x00 then Some QueueFifo else None)"

definition evf_thread_mode :: "u32 \<Rightarrow> ThreadMode option" where
  "evf_thread_mode attr = (let a = attr AND 0xf0 in
     if a = 0x10 then Some ThreadSingle else if a = 0x20 then Some ThreadMulti
     else if a = 0x00 then Some ThreadSingle else None)"

definition sceKernelCreateEventFlag ::
  "nat option option \<Rightarrow> string option \<Rightarrow> u32 \<Rightarrow> bits64 \<Rightarrow> bool \<Rightarrow> EvfWorld \<Rightarrow>
     ((s32 \<times> nat option option) \<times> EvfWorld) option" where
  "sceKernelCreateEventFlag ef pName attr initPattern has_opt w = (case pName of
     None \<Rightarrow> Some ((KERNEL_EINVAL, ef), w)
   | Some name \<Rightarrow>
       if ef = None then Some ((KERNEL_EINVAL, ef), w)
       else if has_opt \<or> attr > 0x22 then Some ((KERNEL_EINVAL, ef), w)
       else if length name \<ge> 32 then Some ((KERNEL_ENAMETOOLONG, ef), w)
       else do {
         queue_mode \<leftarrow> evf_queue_mode attr;
         thread_mode \<leftarrow> evf_thread_mode attr;
         let p = next_evf w;
         Some ((ORBIS_OK, Some (Some p)), w\<lparr>next_evf := p + 1, evf_objects := (evf_objects w)(p \<mapsto>
           construct_EventFlagInternal name thread_mode queue_mode initPattern)\<rparr>) })"

definition on_evf ::
  "nat option \<Rightarrow> (EventFlagInternal \<times> EvfFrames \<Rightarrow> ('r \<times> EventFlagInternal \<times> EvfFrames) option) \<Rightarrow> 'r \<Rightarrow>
     EvfWorld \<Rightarrow> ('r \<times> EvfWorld) option" where
  "on_evf ef f esrch w = (case ef of
     None \<Rightarrow> Some (esrch, w)
   | Some p \<Rightarrow> do {
       e \<leftarrow> evf_objects w p;
       (r, e', ws) \<leftarrow> f (e, evf_frames w p);
       Some (r, w\<lparr>evf_objects := (evf_objects w)(p \<mapsto> e'), evf_frames := (evf_frames w)(p := ws)\<rparr>) })"

definition sceKernelDeleteEventFlag :: "nat option \<Rightarrow> EvfWorld \<Rightarrow> (s32 \<times> EvfWorld) option" where
  "sceKernelDeleteEventFlag ef w = (case ef of
     None \<Rightarrow> Some (KERNEL_ESRCH, w)
   | Some p \<Rightarrow> do { _ \<leftarrow> evf_objects w p; Some (ORBIS_OK, w\<lparr>evf_objects := (evf_objects w)(p := None)\<rparr>) })"

definition sceKernelClearEventFlag :: "nat option \<Rightarrow> bits64 \<Rightarrow> EvfWorld \<Rightarrow> (s32 \<times> EvfWorld) option" where
  "sceKernelClearEventFlag ef bitPattern =
     on_evf ef (\<lambda>st. map_option (\<lambda>st'. (ORBIS_OK, st')) (Evf_Clear bitPattern st)) KERNEL_ESRCH"

definition sceKernelSetEventFlag :: "nat option \<Rightarrow> bits64 \<Rightarrow> EvfWorld \<Rightarrow> (s32 \<times> EvfWorld) option" where
  "sceKernelSetEventFlag ef bitPattern =
     on_evf ef (\<lambda>st. map_option (\<lambda>st'. (ORBIS_OK, st')) (Evf_Set bitPattern st)) KERNEL_ESRCH"

text \<open>The first part of \<open>sceKernelCancelEventFlag\<close>; the call returns after \<open>Cancel_end\<close>.\<close>

definition sceKernelCancelEventFlag ::
  "nat option \<Rightarrow> bits64 \<Rightarrow> s32 option \<Rightarrow> EvfWorld \<Rightarrow> ((s32 \<times> s32 option) \<times> EvfWorld) option" where
  "sceKernelCancelEventFlag ef setPattern pNumWaitThreads =
     on_evf ef (\<lambda>st. map_option (\<lambda>(n, st'). ((ORBIS_OK, n), st')) (Cancel_begin setPattern pNumWaitThreads st))
       (KERNEL_ESRCH, pNumWaitThreads)"

definition sceKernelOpenEventFlag :: s32 where "sceKernelOpenEventFlag = ORBIS_OK"
definition sceKernelCloseEventFlag :: s32 where "sceKernelCloseEventFlag = ORBIS_OK"

definition decode_wait :: "u32 \<Rightarrow> WaitMode option" where
  "decode_wait waitMode = (let m = waitMode AND 0xf in
     if m = 0x01 then Some WaitAnd else if m = 0x02 then Some WaitOr else None)"

definition decode_clear :: "u32 \<Rightarrow> ClearMode option" where
  "decode_clear waitMode = (let m = waitMode AND 0xf0 in
     if m = 0x00 then Some ClearNone else if m = 0x10 then Some ClearAll
     else if m = 0x20 then Some ClearBits else None)"

definition sceKernelPollEventFlag ::
  "nat option \<Rightarrow> bits64 \<Rightarrow> u32 \<Rightarrow> nat \<Rightarrow> EvfWorld \<Rightarrow> (EvfOutcome \<times> EvfWorld) option" where
  "sceKernelPollEventFlag ef bitPattern waitMode t w =
     (if ef = None then Some (Refused KERNEL_ESRCH, w)
      else if bitPattern = 0 then Some (Refused KERNEL_EINVAL, w)
      else do {
        wait \<leftarrow> decode_wait waitMode;
        clear \<leftarrow> decode_clear waitMode;
        on_evf ef (Evf_Poll bitPattern wait clear t) (Refused KERNEL_ESRCH) w })"

definition sceKernelWaitEventFlag ::
  "nat option \<Rightarrow> bits64 \<Rightarrow> u32 \<Rightarrow> nat option \<Rightarrow> nat \<Rightarrow> nat \<Rightarrow> EvfWorld \<Rightarrow> (EvfOutcome \<times> EvfWorld) option" where
  "sceKernelWaitEventFlag ef bitPattern waitMode pTimeout t elapsed w =
     (if ef = None then Some (Refused KERNEL_ESRCH, w)
      else if bitPattern = 0 then Some (Refused KERNEL_EINVAL, w)
      else do {
        wait \<leftarrow> decode_wait waitMode;
        clear \<leftarrow> decode_clear waitMode;
        on_evf ef (\<lambda>st. Some (Evf_begin bitPattern wait clear pTimeout t elapsed st)) (Refused KERNEL_ESRCH) w })"

section \<open>The invariant\<close>

inductive evf_move :: "EventFlagInternal \<times> EvfFrames \<Rightarrow> EventFlagInternal \<times> EvfFrames \<Rightarrow> bool" where
  enter: "Evf_begin bits wm cm micros t elapsed (e, ws) = (r, st') \<Longrightarrow> ws t = None \<Longrightarrow> evf_move (e, ws) st'"
| wake: "Evf_wake t elapsed (e, ws) = Some (r, st') \<Longrightarrow> evf_move (e, ws) st'"
| timeout: "Evf_timeout t elapsed (e, ws) = Some (r, st') \<Longrightarrow> evf_move (e, ws) st'"
| set: "Evf_Set bits (e, ws) = Some st' \<Longrightarrow> evf_move (e, ws) st'"
| clear: "Evf_Clear bits (e, ws) = Some st' \<Longrightarrow> evf_move (e, ws) st'"
| cancel_begin: "Cancel_begin pat n (e, ws) = Some (k, st') \<Longrightarrow> evf_move (e, ws) st'"

inductive evf_step :: "EventFlagInternal \<times> EvfFrames \<Rightarrow> EventFlagInternal \<times> EvfFrames \<Rightarrow> bool" where
  move: "evf_move st st' \<Longrightarrow> evf_step st st'"
| cancel_end: "m_status e = StatusCanceled \<Longrightarrow> Cancel_end (e, ws) = Some st' \<Longrightarrow> evf_step (e, ws) st'"

definition frame_holds :: "EventFlagInternal \<Rightarrow> EvfFrame \<Rightarrow> bool" where
  "frame_holds e f \<longleftrightarrow> waitFunc (ef_wait f) (ef_bits f) e"

definition evf_inv :: "EventFlagInternal \<times> EvfFrames \<Rightarrow> bool" where
  "evf_inv st \<longleftrightarrow> (case st of (e, ws) \<Rightarrow> finite (dom ws) \<and> m_waiting_threads e = int (card (dom ws)) \<and>
     m_status e \<noteq> StatusDeleted \<and>
     (\<forall>t f. ws t = Some f \<longrightarrow> frame_holds e f \<longrightarrow> ef_notified f) \<and>
     (m_thread_mode e = ThreadSingle \<longrightarrow> card (dom ws) \<le> 1))"

text \<open>Fewer bits satisfy fewer waits.\<close>

lemma waitFunc_mono:
  assumes "m_status e' = m_status e" "m_bits e AND m_bits e' = m_bits e'" "waitFunc wm b e'"
  shows "waitFunc wm b e"
proof -
  have "m_bits e AND b = b" if "m_bits e' AND b = b"
    using assms(2) that by (metis and.assoc)
  moreover have "m_bits e AND b \<noteq> 0" if "m_bits e' AND b \<noteq> 0"
  proof
    assume z: "m_bits e AND b = 0"
    have "m_bits e' AND b = m_bits e' AND (m_bits e AND b)" using assms(2) by (metis and.assoc and.commute)
    with z that show False by simp
  qed
  ultimately show ?thesis using assms(1,3) by (auto simp: waitFunc_def)
qed

lemma Evf_complete_state:
  assumes "Evf_complete bits cm micros elapsed e = ((r, pat, left), e')"
  shows "m_waiting_threads e' = m_waiting_threads e - 1" "m_status e' = m_status e"
    "m_bits e AND m_bits e' = m_bits e'" "m_thread_mode e' = m_thread_mode e" "pat = m_bits e"
    "m_status e = StatusCanceled \<longrightarrow> r = KERNEL_ECANCELED \<and> m_bits e' = m_bits e"
    "m_status e = StatusSet \<longrightarrow> r = ORBIS_OK"
  using assms by (auto simp: Evf_complete_def Let_def and.left_commute split: if_splits)

lemma evf_inv_complete:
  assumes inv: "evf_inv (e, ws)" and c: "Evf_complete bits cm micros elapsed e = ((r, pat, left), e')"
    and t: "ws t \<noteq> None"
  shows "evf_inv (e', ws(t := None))"
proof -
  note C = Evf_complete_state [OF c]
  have d: "dom (ws(t := None)) = dom ws - {t}" "t \<in> dom ws" using t by auto
  have fin: "finite (dom ws)" using inv by (simp add: evf_inv_def)
  then have card: "card (dom ws - {t}) = card (dom ws) - 1" "0 < card (dom ws)"
    using d(2) by (auto simp: card_gt_0_iff)
  have "frame_holds e f" if "frame_holds e' f" for f
    using waitFunc_mono [OF C(2,3)] that by (simp add: frame_holds_def)
  then show ?thesis using inv C(1,2,4) fin card unfolding evf_inv_def d(1) by auto
qed

lemma evf_inv_more:
  assumes inv: "evf_inv (e, ws)" and t: "ws t = None" and f: "frame_holds e f \<Longrightarrow> ef_notified f"
    and s: "\<not> (m_thread_mode e = ThreadSingle \<and> m_waiting_threads e > 0)"
  shows "evf_inv (e\<lparr>m_waiting_threads := m_waiting_threads e + 1\<rparr>, ws(t \<mapsto> f))"
proof -
  have "dom (ws(t \<mapsto> f)) = insert t (dom ws)" "t \<notin> dom ws" using t by auto
  moreover have "frame_holds (e\<lparr>m_waiting_threads := n\<rparr>) g = frame_holds e g" for n g
    by (simp add: frame_holds_def waitFunc_def)
  ultimately show ?thesis using inv f s unfolding evf_inv_def by auto
qed

lemma notify_all_eq: "notify_all ws t = map_option (\<lambda>f. f\<lparr>ef_notified := True\<rparr>) (ws t)"
  by (simp add: notify_all_def)

lemma dom_notify_all [simp]: "dom (notify_all ws) = dom ws"
  by (auto simp: notify_all_def)

lemma evf_inv_notify:
  assumes "evf_inv (e, ws)" "m_waiting_threads e' = m_waiting_threads e" "m_thread_mode e' = m_thread_mode e"
    "m_status e' \<noteq> StatusDeleted"
  shows "evf_inv (e', notify_all ws)"
  using assms by (auto simp: evf_inv_def notify_all_eq)

lemma evf_inv_less:
  assumes "evf_inv (e, ws)" "m_status e' = m_status e" "m_bits e AND m_bits e' = m_bits e'"
    "m_waiting_threads e' = m_waiting_threads e" "m_thread_mode e' = m_thread_mode e"
  shows "evf_inv (e', ws)"
  using assms waitFunc_mono [OF assms(2,3)] by (auto simp: evf_inv_def frame_holds_def)

lemma evf_move_inv:
  assumes "evf_move st st'" "evf_inv st"
  shows "evf_inv st'"
  using assms
proof (induction rule: evf_move.induct)
  case (enter bits wm cm micros t elapsed e ws r st')
  let ?e1 = "e\<lparr>m_waiting_threads := m_waiting_threads e + 1\<rparr>"
  let ?f = "\<lparr>ef_bits = bits, ef_wait = wm, ef_clear = cm, ef_micros = micros, ef_notified = False\<rparr>"
  show ?case
  proof (cases "m_thread_mode e = ThreadSingle \<and> m_waiting_threads e > 0")
    case True
    then show ?thesis using enter by (auto simp: Evf_begin_def)
  next
    case ok: False
    show ?thesis
    proof (cases "waitFunc wm bits ?e1")
      case True
      obtain r2 pat left e2 where c: "Evf_complete bits cm micros elapsed ?e1 = ((r2, pat, left), e2)"
        by (metis surj_pair)
      have "evf_inv (?e1, ws(t \<mapsto> ?f\<lparr>ef_notified := True\<rparr>))"
        by (rule evf_inv_more [OF enter(3,2) _ ok]) simp
      then have "evf_inv (e2, (ws(t \<mapsto> ?f\<lparr>ef_notified := True\<rparr>))(t := None))"
        by (rule evf_inv_complete [OF _ c]) simp
      moreover have "(ws(t \<mapsto> ?f\<lparr>ef_notified := True\<rparr>))(t := None) = ws" using enter(2) by auto
      moreover have "st' = (e2, ws)" using enter(1) ok True c by (simp add: Evf_begin_def)
      ultimately show ?thesis by simp
    next
      case False
      have "waitFunc wm bits ?e1 = waitFunc wm bits e" by (simp add: waitFunc_def)
      then have "evf_inv (?e1, ws(t \<mapsto> ?f))"
        using False by (intro evf_inv_more [OF enter(3,2) _ ok]) (simp add: frame_holds_def)
      moreover have "st' = (?e1, ws(t \<mapsto> ?f))" using enter(1) ok False by (simp add: Evf_begin_def)
      ultimately show ?thesis by simp
    qed
  qed
next
  case (wake t elapsed e ws r st')
  then obtain f where f: "ws t = Some f" by (auto simp: Evf_wake_def bind_iff)
  show ?case
  proof (cases "waitFunc (ef_wait f) (ef_bits f) e")
    case True
    obtain r2 pat left e2 where c: "Evf_complete (ef_bits f) (ef_clear f) (ef_micros f) elapsed e = ((r2, pat, left), e2)"
      by (metis surj_pair)
    have "st' = (e2, ws(t := None))" using wake(1) f True c by (auto simp: Evf_wake_def)
    then show ?thesis using evf_inv_complete [OF wake(2) c] f by simp
  next
    case False
    have "dom (ws(t \<mapsto> f\<lparr>ef_notified := False\<rparr>)) = dom ws" using f by auto
    moreover have "st' = (e, ws(t \<mapsto> f\<lparr>ef_notified := False\<rparr>))" using wake(1) f False by (auto simp: Evf_wake_def)
    ultimately show ?thesis using wake(2) False f by (auto simp: evf_inv_def frame_holds_def)
  qed
next
  case (timeout t elapsed e ws r st')
  then obtain f where f: "ws t = Some f" by (auto simp: Evf_timeout_def bind_iff)
  show ?case
  proof (cases "waitFunc (ef_wait f) (ef_bits f) e")
    case True
    obtain r2 pat left e2 where c: "Evf_complete (ef_bits f) (ef_clear f) (ef_micros f) elapsed e = ((r2, pat, left), e2)"
      by (metis surj_pair)
    have "st' = (e2, ws(t := None))" using timeout(1) f True c by (auto simp: Evf_timeout_def split: if_splits)
    then show ?thesis using evf_inv_complete [OF timeout(2) c] f by simp
  next
    case False
    have d: "dom (ws(t := None)) = dom ws - {t}" "t \<in> dom ws" using f by auto
    have fin: "finite (dom ws)" using timeout(2) by (simp add: evf_inv_def)
    then have card: "card (dom ws - {t}) = card (dom ws) - 1" "0 < card (dom ws)"
      using d(2) by (auto simp: card_gt_0_iff)
    have "frame_holds (e\<lparr>m_waiting_threads := n\<rparr>) g = frame_holds e g" for n g
      by (simp add: frame_holds_def waitFunc_def)
    moreover have "st' = (e\<lparr>m_waiting_threads := m_waiting_threads e - 1\<rparr>, ws(t := None))"
      using timeout(1) f False by (auto simp: Evf_timeout_def split: if_splits)
    ultimately show ?thesis using timeout(2) fin card unfolding evf_inv_def d(1) by auto
  qed
next
  case (set bits e ws st')
  then show ?case by (auto simp: Evf_Set_def intro!: evf_inv_notify split: if_splits)
next
  case (clear bits e ws st')
  then show ?case
    by (auto simp: Evf_Clear_def and.left_commute intro!: evf_inv_less [of e ws] split: if_splits)
next
  case (cancel_begin pat n e ws k st')
  then show ?case by (auto simp: Cancel_begin_def intro!: evf_inv_notify split: if_splits)
qed

lemma evf_step_inv:
  assumes "evf_step st st'" "evf_inv st"
  shows "evf_inv st'"
  using assms
proof (induction rule: evf_step.induct)
  case (move st st')
  then show ?case by (rule evf_move_inv)
next
  case (cancel_end e ws st')
  then have "dom ws = {}" "st' = (e\<lparr>m_status := StatusSet\<rparr>, ws)"
    by (auto simp: Cancel_end_def evf_inv_def split: if_splits)
  then show ?case using cancel_end(3) by (auto simp: evf_inv_def)
qed

section \<open>Properties\<close>

lemma construct_evf_inv: "evf_inv (construct_EventFlagInternal name tm qm bits, \<lambda>_. None)"
  by (simp add: evf_inv_def construct_EventFlagInternal_def)

text \<open>
  C21. No event is lost: in every state the calls and the waiting threads reach, the count of waiting
  threads is the number of threads that wait, a flag for a single waiter has at most one, and a thread
  whose condition holds has been notified; when it looks again it returns, with success and the
  pattern when the flag is set, and with the bits cleared as it asked.
\<close>

theorem event_flag_no_lost_wakeup:
  assumes "evf_step\<^sup>*\<^sup>* (construct_EventFlagInternal name tm qm bits, \<lambda>_. None) (e, ws)"
  shows "m_waiting_threads e = int (card (dom ws)) \<and> (m_thread_mode e = ThreadSingle \<longrightarrow> card (dom ws) \<le> 1) \<and>
    (\<forall>t f elapsed. ws t = Some f \<and> waitFunc (ef_wait f) (ef_bits f) e \<longrightarrow> ef_notified f \<and>
       (\<exists>c left e'. Evf_wake t elapsed (e, ws) = Some (Completed c (m_bits e) left, e', ws(t := None)) \<and>
         (m_status e = StatusSet \<longrightarrow> c = ORBIS_OK \<and> m_bits e' = (case ef_clear f of
            ClearNone \<Rightarrow> m_bits e | ClearAll \<Rightarrow> 0 | ClearBits \<Rightarrow> m_bits e AND NOT (ef_bits f)))))"
proof -
  have inv: "evf_inv (e, ws)"
    using assms construct_evf_inv [of name tm qm bits]
    by (induction rule: rtranclp_induct) (auto intro: evf_step_inv)
  have "\<exists>c left e'. Evf_wake t elapsed (e, ws) = Some (Completed c (m_bits e) left, e', ws(t := None)) \<and>
         (m_status e = StatusSet \<longrightarrow> c = ORBIS_OK \<and> m_bits e' = (case ef_clear f of
            ClearNone \<Rightarrow> m_bits e | ClearAll \<Rightarrow> 0 | ClearBits \<Rightarrow> m_bits e AND NOT (ef_bits f)))"
    if "ws t = Some f" "waitFunc (ef_wait f) (ef_bits f) e" for t f elapsed
    using that by (auto simp: Evf_wake_def Evf_complete_def Let_def split: ClearMode.splits)
  then show ?thesis using inv by (auto simp: evf_inv_def frame_holds_def)
qed

theorem event_flag_no_lost_wakeup_witness:
  "\<exists>e1 ws1 e2 ws2 left e3.
     Evf_begin 6 WaitAnd ClearBits None 9 0 (construct_EventFlagInternal ''f'' ThreadSingle QueueFifo 2, \<lambda>_. None)
       = (Waiting, e1, ws1) \<and>
     Evf_Set 5 (e1, ws1) = Some (e2, ws2) \<and>
     Evf_wake 9 0 (e2, ws2) = Some (Completed ORBIS_OK 7 left, e3, \<lambda>_. None) \<and> m_bits e3 = 1"
proof -
  let ?e = "construct_EventFlagInternal ''f'' ThreadSingle QueueFifo 2"
  let ?f = "\<lparr>ef_bits = 6, ef_wait = WaitAnd, ef_clear = ClearBits, ef_micros = None, ef_notified = False\<rparr>"
  let ?a = "?e\<lparr>m_waiting_threads := 1\<rparr>" and ?ws = "(\<lambda>_. None)(9 \<mapsto> ?f)"
  let ?b = "?a\<lparr>m_bits := 7\<rparr>" and ?ns = "(\<lambda>_. None)(9 \<mapsto> ?f\<lparr>ef_notified := True\<rparr>)"
  have b: "Evf_begin 6 WaitAnd ClearBits None 9 0 (?e, \<lambda>_. None) = (Waiting, ?a, ?ws)"
    by (simp add: Evf_begin_def construct_EventFlagInternal_def waitFunc_def)
  have "notify_all ?ws = ?ns" by (auto simp: notify_all_def fun_eq_iff)
  then have s: "Evf_Set 5 (?a, ?ws) = Some (?b, ?ns)"
    by (simp add: Evf_Set_def construct_EventFlagInternal_def)
  have "evf_step (?e, \<lambda>_. None) (?a, ?ws)" by (rule evf_step.move, rule evf_move.enter [OF b]) simp
  moreover have "evf_step (?a, ?ws) (?b, ?ns)" by (rule evf_step.move, rule evf_move.set [OF s])
  ultimately have run: "evf_step\<^sup>*\<^sup>* (?e, \<lambda>_. None) (?b, ?ns)" by auto
  have w: "waitFunc (ef_wait (?f\<lparr>ef_notified := True\<rparr>)) (ef_bits (?f\<lparr>ef_notified := True\<rparr>)) ?b"
    by (simp add: waitFunc_def)
  have n9: "?ns 9 = Some (?f\<lparr>ef_notified := True\<rparr>) \<and> waitFunc (ef_wait (?f\<lparr>ef_notified := True\<rparr>)) (ef_bits (?f\<lparr>ef_notified := True\<rparr>)) ?b"
    using w by simp
  from event_flag_no_lost_wakeup [OF run, THEN conjunct2, THEN conjunct2, rule_format, OF n9, of 0]
  obtain c left e' where wk: "Evf_wake 9 0 (?b, ?ns) = Some (Completed c (m_bits ?b) left, e', ?ns(9 := None))"
    "m_status ?b = StatusSet \<longrightarrow> c = ORBIS_OK \<and> m_bits e' = (case ef_clear (?f\<lparr>ef_notified := True\<rparr>) of
       ClearNone \<Rightarrow> m_bits ?b | ClearAll \<Rightarrow> 0 | ClearBits \<Rightarrow> m_bits ?b AND NOT (ef_bits (?f\<lparr>ef_notified := True\<rparr>)))"
    by blast
  moreover have "?ns(9 := None) = (\<lambda>_. None)" by auto
  moreover have "m_bits ?b = 7" "m_status ?b = StatusSet" by (simp_all add: construct_EventFlagInternal_def)
  moreover have "(7 :: bits64) AND NOT 6 = 1" by simp
  ultimately have "Evf_wake 9 0 (?b, ?ns) = Some (Completed ORBIS_OK 7 left, e', \<lambda>_. None)" "m_bits e' = 1"
    using wk by simp_all
  with b s show ?thesis by blast
qed

lemma evf_moves_inv:
  assumes "evf_move\<^sup>*\<^sup>* st st'" "evf_inv st"
  shows "evf_inv st'"
  using assms by (induction rule: rtranclp_induct) (auto intro: evf_move_inv)

text \<open>While a flag is being cancelled.\<close>

lemma cancelled_move:
  assumes "evf_move st st'" "m_status (fst st) = StatusCanceled" "m_bits (fst st) = pat"
  shows "m_status (fst st') = StatusCanceled \<and> m_bits (fst st') = pat \<and> dom (snd st') \<subseteq> dom (snd st)"
  using assms
proof (induction rule: evf_move.induct)
  case (enter bits wm cm micros t elapsed e ws r st')
  then show ?case by (auto simp: Evf_begin_def Evf_complete_def waitFunc_def Let_def split: if_splits)
next
  case (wake t elapsed e ws r st')
  then show ?case
    by (auto simp: Evf_wake_def Evf_complete_def waitFunc_def Let_def bind_iff split: if_splits)
next
  case (timeout t elapsed e ws r st')
  then show ?case
    by (auto simp: Evf_timeout_def Evf_complete_def waitFunc_def Let_def bind_iff split: if_splits)
qed (auto simp: Evf_Set_def Evf_Clear_def Cancel_begin_def split: if_splits)

lemma cancelled_moves:
  assumes "evf_move\<^sup>*\<^sup>* st st'" "m_status (fst st) = StatusCanceled" "m_bits (fst st) = pat"
  shows "m_status (fst st') = StatusCanceled \<and> m_bits (fst st') = pat \<and> dom (snd st') \<subseteq> dom (snd st)"
  using assms by (induction rule: rtranclp_induct) (use cancelled_move in blast)+

text \<open>
  C31. A cancellation drains the flag: it reports the number of waiting threads, and from then on, until
  it ends, no thread is added to those that wait, each of them is notified and its next look ends its
  wait with \<open>ECANCELED\<close> and the given pattern, and the cancellation can end exactly when none is left.
\<close>

theorem event_flag_cancel_drains:
  assumes inv: "evf_inv (e, ws)" and c: "Cancel_begin pat (Some old) (e, ws) = Some (n, e1, ws1)"
    and run: "evf_move\<^sup>*\<^sup>* (e1, ws1) (e2, ws2)"
  shows "n = Some (int (card (dom ws))) \<and> dom ws2 \<subseteq> dom ws \<and>
    (\<forall>t \<in> dom ws2. ef_notified (the (ws2 t)) \<and> (\<forall>elapsed. \<exists>left e3.
       Evf_wake t elapsed (e2, ws2) = Some (Completed KERNEL_ECANCELED pat left, e3, ws2(t := None)))) \<and>
    (Cancel_end (e2, ws2) \<noteq> None \<longleftrightarrow> dom ws2 = {})"
proof -
  have b: "e1 = e\<lparr>m_status := StatusCanceled, m_bits := pat\<rparr>" "ws1 = notify_all ws" "n = Some (m_waiting_threads e)"
    using c by (auto simp: Cancel_begin_def split: if_splits)
  have "evf_move (e, ws) (e1, ws1)" by (rule evf_move.cancel_begin [OF c])
  then have "evf_inv (e1, ws1)" using inv by (rule evf_move_inv)
  with run have inv2: "evf_inv (e2, ws2)" by (rule evf_moves_inv)
  have m: "m_status e2 = StatusCanceled" "m_bits e2 = pat" "dom ws2 \<subseteq> dom ws"
    using cancelled_moves [OF run, of pat] b by simp_all
  have holds: "waitFunc wm bits e2" for wm bits using m(1) by (simp add: waitFunc_def)
  have w: "\<exists>left e3. Evf_wake t elapsed (e2, ws2) = Some (Completed KERNEL_ECANCELED pat left, e3, ws2(t := None))"
    if "ws2 t = Some f" for t f elapsed
    using that m holds by (auto simp: Evf_wake_def Evf_complete_def Let_def)
  have "ef_notified f" if "ws2 t = Some f" for t f
    using inv2 that holds by (auto simp: evf_inv_def frame_holds_def)
  moreover have "Cancel_end (e2, ws2) \<noteq> None \<longleftrightarrow> dom ws2 = {}"
    using inv2 by (simp add: evf_inv_def Cancel_end_def card_gt_0_iff)
  moreover have "n = Some (int (card (dom ws)))" using inv b(3) by (simp add: evf_inv_def)
  ultimately show ?thesis using m(3) w by (auto simp del: not_None_eq)
qed

theorem event_flag_cancel_drains_witness:
  "\<exists>e1 ws1 e2 ws2 left e3. Evf_begin 4 WaitOr ClearNone None 9 0 (construct_EventFlagInternal ''f'' ThreadMulti QueueFifo 2, \<lambda>_. None)
       = (Waiting, e1, ws1) \<and> Cancel_begin 8 (Some 0) (e1, ws1) = Some (Some 1, e2, ws2) \<and>
     Evf_wake 9 0 (e2, ws2) = Some (Completed KERNEL_ECANCELED 8 left, e3, ws2(9 := None))"
proof -
  let ?e = "construct_EventFlagInternal ''f'' ThreadMulti QueueFifo 2"
  let ?f = "\<lparr>ef_bits = 4, ef_wait = WaitOr, ef_clear = ClearNone, ef_micros = None, ef_notified = False\<rparr>"
  let ?a = "?e\<lparr>m_waiting_threads := 1\<rparr>" and ?ws = "(\<lambda>_. None)(9 \<mapsto> ?f)"
  have b: "Evf_begin 4 WaitOr ClearNone None 9 0 (?e, \<lambda>_. None) = (Waiting, ?a, ?ws)"
    by (simp add: Evf_begin_def construct_EventFlagInternal_def waitFunc_def)
  have inv: "evf_inv (?a, ?ws)"
    by (rule evf_move_inv [OF evf_move.enter [OF b] construct_evf_inv]) simp
  have c: "Cancel_begin 8 (Some 0) (?a, ?ws) =
      Some (Some 1, ?a\<lparr>m_status := StatusCanceled, m_bits := 8\<rparr>, notify_all ?ws)"
    by (simp add: Cancel_begin_def construct_EventFlagInternal_def)
  have "9 \<in> dom (notify_all ?ws)" unfolding dom_notify_all by simp
  with event_flag_cancel_drains [OF inv c rtranclp.rtrancl_refl] b c show ?thesis by blast
qed

end
