(* ===== verification/Guest_Validation.thy ===== *)
theory Guest_Validation
  imports Kernel_Memory_Props
begin

text \<open>
  The check of guest pointers: \<open>ValidateGuestMemory\<close> of \<open>src/src/core/linker.cpp\<close> and the cache it
  keeps in every thread, \<open>src/src/core/guest_cpu/guest_memory_validation_cache.h\<close>.

  The cache holds answers of \<open>QueryProtection\<close> with the mapping generation they were given at, and an
  entry counts only while that generation is current.  The theory shows that the cache never makes the
  check accept a range that the memory manager would now refuse.
\<close>

section \<open>The cache\<close>

text \<open>The owner is an address, 0 where the code has \<open>nullptr\<close>.\<close>

record CacheEntry =
  ce_owner :: nat
  ce_generation :: "64 word"
  ce_begin :: u64
  ce_end :: u64
  ce_protection :: u32

record GuestMemoryValidationCache =
  cache_entries :: "CacheEntry list"
  next_entry :: nat

definition empty_entry :: CacheEntry where
  "empty_entry = \<lparr>ce_owner = 0, ce_generation = 0, ce_begin = 0, ce_end = 0, ce_protection = 0\<rparr>"

definition empty_cache :: GuestMemoryValidationCache where
  "empty_cache = \<lparr>cache_entries = replicate 4 empty_entry, next_entry = 0\<rparr>"

definition cache_Contains ::
  "nat \<Rightarrow> 64 word \<Rightarrow> u64 \<Rightarrow> u64 \<Rightarrow> u32 \<Rightarrow> GuestMemoryValidationCache \<Rightarrow> bool" where
  "cache_Contains owner gen address len required c =
     (if owner = 0 \<or> address = 0 \<or> len = 0 \<or> address > two64 - 1 - len \<or> gen AND 1 \<noteq> 0 then False
      else let end_address = address + len in
        list_ex (\<lambda>e. ce_owner e = owner \<and> ce_generation e = gen \<and> ce_begin e \<le> address \<and>
          end_address \<le> ce_end e \<and> ce_protection e AND required = required) (cache_entries c))"

definition cache_Store ::
  "nat \<Rightarrow> 64 word \<Rightarrow> u64 \<Rightarrow> u64 \<Rightarrow> u32 \<Rightarrow> GuestMemoryValidationCache \<Rightarrow> GuestMemoryValidationCache" where
  "cache_Store owner gen b e p c =
     \<lparr>cache_entries = (cache_entries c)[next_entry c :=
        \<lparr>ce_owner = owner, ce_generation = gen, ce_begin = b, ce_end = e, ce_protection = p\<rparr>],
      next_entry = (next_entry c + 1) mod length (cache_entries c)\<rparr>"

section \<open>The check\<close>

text \<open>The loop over the areas from \<open>cursor\<close> up to \<open>stop\<close>.\<close>

function validate_loop ::
  "nat \<Rightarrow> u32 \<Rightarrow> u64 \<Rightarrow> u64 \<Rightarrow> MemoryManager \<Rightarrow> GuestMemoryValidationCache \<Rightarrow>
     (bool \<times> GuestMemoryValidationCache) option" where
  "validate_loop owner required stop cursor s c =
     (if cursor < stop then do {
        q \<leftarrow> QueryProtection cursor s;
        (case q of
           Inl e \<Rightarrow> Some (False, c)
         | Inr i \<Rightarrow>
             if pr_end i \<le> cursor \<or> pr_prot i AND required \<noteq> required then Some (False, c)
             else validate_loop owner required stop (min stop (pr_end i)) s
                    (cache_Store owner (pr_generation i) (pr_start i) (pr_end i) (pr_prot i) c)) }
      else Some (True, c))"
  by pat_completeness auto
termination by (relation "measure (\<lambda>(owner, required, stop, cursor, s, c). stop - cursor)") auto

declare validate_loop.simps [simp del]

definition required_protection :: "bool \<Rightarrow> u32" where
  "required_protection writable = CpuRead OR (if writable then CpuWrite else 0)"

definition ValidateGuestMemory ::
  "nat \<Rightarrow> u64 \<Rightarrow> u64 \<Rightarrow> bool \<Rightarrow> MemoryManager \<Rightarrow> GuestMemoryValidationCache \<Rightarrow>
     (bool \<times> GuestMemoryValidationCache) option" where
  "ValidateGuestMemory context_ptr address len writable s c =
     (if context_ptr = 0 \<or> address = 0 \<or> len = 0 \<or> address > two64 - 1 - len then Some (False, c)
      else if cache_Contains context_ptr (mapping_generation s) address len (required_protection writable) c
      then Some (True, c)
      else validate_loop context_ptr (required_protection writable) (address + len) address s c)"

section \<open>Accurate entries\<close>

text \<open>A byte may be accessed: it belongs to an area that is not free and has the permissions.\<close>

definition accessible :: "u32 \<Rightarrow> MemoryManager \<Rightarrow> nat \<Rightarrow> bool" where
  "accessible required s a \<longleftrightarrow>
     (\<exists>i. vma_at s a = Some i \<and> i_type i \<noteq> VFree \<and> i_prot i AND required = required)"

definition accurate :: "MemoryManager \<Rightarrow> CacheEntry \<Rightarrow> bool" where
  "accurate s e \<longleftrightarrow> (\<forall>a. ce_begin e \<le> a \<and> a < ce_end e \<longrightarrow>
     (\<exists>i. vma_at s a = Some i \<and> i_type i \<noteq> VFree \<and> i_prot i = ce_protection e))"

text \<open>
  What holds of the cache after \<open>n\<close> calls: an entry of this owner was made \<open>k\<close> mutations ago, each of
  which moved the generation on by two, and when \<open>k\<close> is 0 it says what the areas are now.
\<close>

definition entry_ok :: "nat \<Rightarrow> nat \<Rightarrow> MemoryManager \<Rightarrow> CacheEntry \<Rightarrow> bool" where
  "entry_ok owner n s e \<longleftrightarrow> ce_owner e = owner \<longrightarrow>
     (\<exists>k \<le> n. mapping_generation s = ce_generation e + of_nat (2 * k) \<and> (k = 0 \<longrightarrow> accurate s e))"

definition cache_ok :: "nat \<Rightarrow> nat \<Rightarrow> MemoryManager \<Rightarrow> GuestMemoryValidationCache \<Rightarrow> bool" where
  "cache_ok owner n s c \<longleftrightarrow> length (cache_entries c) = 4 \<and> next_entry c < 4 \<and>
     (\<forall>e \<in> set (cache_entries c). entry_ok owner n s e)"

lemma cache_ok_empty: "owner \<noteq> 0 \<Longrightarrow> cache_ok owner 0 s empty_cache"
  by (simp add: cache_ok_def entry_ok_def empty_cache_def empty_entry_def)

lemma cache_ok_Store:
  assumes "cache_ok owner n s c"
    "accurate s \<lparr>ce_owner = owner, ce_generation = mapping_generation s, ce_begin = b, ce_end = e, ce_protection = p\<rparr>"
  shows "cache_ok owner n s (cache_Store owner (mapping_generation s) b e p c)"
proof -
  let ?e = "\<lparr>ce_owner = owner, ce_generation = mapping_generation s, ce_begin = b, ce_end = e, ce_protection = p\<rparr>"
  have e: "entry_ok owner n s ?e" using assms(2) by (auto simp: entry_ok_def intro!: exI [of _ 0])
  have "set ((cache_entries c)[next_entry c := ?e]) \<subseteq> insert ?e (set (cache_entries c))"
    by (rule set_update_subset_insert)
  then have "\<forall>x \<in> set ((cache_entries c)[next_entry c := ?e]). entry_ok owner n s x"
    using e assms(1) unfolding cache_ok_def by blast
  then show ?thesis using assms(1) by (simp add: cache_ok_def cache_Store_def)
qed

text \<open>
  A call that changes the memory manager moves the generation on by one mutation; one that does not
  leaves the areas alone.
\<close>

lemma cache_ok_step:
  assumes "cache_ok owner n s c"
    "mapping_generation s' = mapping_generation s + 2 \<or>
     mapping_generation s' = mapping_generation s \<and> vma_at s' = vma_at s"
  shows "cache_ok owner (Suc n) s' c"
proof -
  have "entry_ok owner (Suc n) s' e" if e: "entry_ok owner n s e" for e
    unfolding entry_ok_def
  proof
    assume "ce_owner e = owner"
    then obtain k where k: "k \<le> n" "mapping_generation s = ce_generation e + of_nat (2 * k)" "k = 0 \<longrightarrow> accurate s e"
      using e by (auto simp: entry_ok_def)
    show "\<exists>k \<le> Suc n. mapping_generation s' = ce_generation e + of_nat (2 * k) \<and> (k = 0 \<longrightarrow> accurate s' e)"
      using assms(2)
    proof
      assume "mapping_generation s' = mapping_generation s + 2"
      then show ?thesis using k by (intro exI [of _ "Suc k"]) simp
    next
      assume "mapping_generation s' = mapping_generation s \<and> vma_at s' = vma_at s"
      then show ?thesis using k by (intro exI [of _ k]) (simp add: accurate_def)
    qed
  qed
  then show ?thesis using assms(1) by (simp add: cache_ok_def)
qed

text \<open>Below \<open>2 ^ 63\<close> mutations the generation does not come round: an entry that counts is accurate.\<close>

lemma generation_0:
  assumes "(g :: 64 word) = g + of_nat (2 * k)" "k \<le> n" "n < 2 ^ 63"
  shows "k = 0"
proof -
  have "(of_nat (2 * k) :: 64 word) = 0" using assms(1) by (metis add.right_neutral add_left_imp_eq)
  then have "2 ^ 64 dvd 2 * k" by (simp only: word_of_nat_eq_0_iff) simp
  moreover have "2 * k < 2 ^ 64" using assms(2,3) by simp
  ultimately show ?thesis using dvd_imp_le by fastforce
qed

lemma accurate_accessible:
  assumes "accurate s e" "ce_begin e \<le> a" "a < ce_end e" "ce_protection e AND required = required"
  shows "accessible required s a"
  using assms unfolding accurate_def accessible_def by metis

lemma Contains_accessible:
  assumes "cache_ok owner n s c" "n < 2 ^ 63"
    "cache_Contains owner (mapping_generation s) address len required c"
  shows "\<forall>a \<in> {address..<address + len}. accessible required s a"
proof -
  obtain e where e: "e \<in> set (cache_entries c)" "ce_owner e = owner" "ce_generation e = mapping_generation s"
    "ce_begin e \<le> address" "address + len \<le> ce_end e" "ce_protection e AND required = required"
    using assms(3) by (auto simp: cache_Contains_def Let_def list_ex_iff split: if_splits)
  obtain k where k: "k \<le> n" "mapping_generation s = ce_generation e + of_nat (2 * k)" "k = 0 \<longrightarrow> accurate s e"
    using assms(1) e(1,2) by (auto simp: cache_ok_def entry_ok_def)
  have "k = 0" by (rule generation_0 [OF k(2) [unfolded e(3)] k(1) assms(2)])
  then have "accurate s e" using k(3) by simp
  then show ?thesis using accurate_accessible [OF _ _ _ e(6)] e(4,5) by simp
qed

section \<open>The loop\<close>

text \<open>What \<open>QueryProtection\<close> answers about a byte, and that its answer makes an accurate entry.\<close>

lemma QueryProtection_byte:
  assumes "mm_wf s" "vma_at s a = Some i" "i_type i \<noteq> VFree" "SystemManagedVirtualBase (impl s) \<le> a"
  shows "\<exists>q. QueryProtection a s = Some (Inr q)"
proof -
  obtain xs k v ys where v: "FindVMA (vma_map s) a = Some k" "map_of (vma_map s) k = Some v" "i = vma_cell v (a - k)"
    by (rule FindVMA_content [OF mm_wfD(1) [OF assms(1)] assms(2)])
  then show ?thesis using assms(3,4) by (simp add: QueryProtection_def IsFree_def)
qed

lemma QueryProtection_accurate:
  assumes "mm_wf s" "QueryProtection a s = Some (Inr q)"
  shows "pr_generation q = mapping_generation s" "pr_start q \<le> a"
    "accurate s \<lparr>ce_owner = owner, ce_generation = g, ce_begin = pr_start q, ce_end = pr_end q, ce_protection = pr_prot q\<rparr>"
proof -
  obtain k v where v: "FindVMA (vma_map s) a = Some k" "map_of (vma_map s) k = Some v" "\<not> IsFree v"
    "q = \<lparr>pr_start = v_base v, pr_end = add64 (v_base v) (v_size v), pr_prot = prot v, pr_generation = mapping_generation s\<rparr>"
    using assms(2) by (auto simp: QueryProtection_def bind_iff split: if_splits)
  note W = mm_wfD [OF assms(1)]
  have mem: "(k, v) \<in> set (vma_map s)" using v(2) by (rule map_of_SomeD)
  have ok: "vma_ok k v" "k + v_size v \<le> vma_end 0 (vma_map s)"
    using areas_wf_mem [OF W(1) mem] areas_wf_below [OF W(1) mem] by auto
  then have b: "v_base v = k" by (simp add: vma_ok_def)
  have en: "add64 k (v_size v) = k + v_size v" using ok(2) W(3) by (intro add64_exact) simp
  show "pr_generation q = mapping_generation s" using v(4) by simp
  show "pr_start q \<le> a" using v(1,4) b by (auto simp: FindVMA_def dest!: find_le_Some split: if_splits option.splits)
  have "vma_at s x = Some (vma_cell v (x - k))" if "k \<le> x" "x < k + v_size v" for x
    by (rule content_mem [OF W(1) mem that])
  then show "accurate s \<lparr>ce_owner = owner, ce_generation = g, ce_begin = pr_start q, ce_end = pr_end q, ce_protection = pr_prot q\<rparr>"
    using v(3,4) b en by (auto simp: accurate_def IsFree_def)
qed

text \<open>
  The loop returns.  It accepts only bytes that are accessible, it accepts if all are, and what it
  stores is accurate.
\<close>

lemma QueryProtection_covers:
  assumes "mm_wf s" "QueryProtection a s = Some (Inr q)" "vma_at s a = Some i"
  shows "a < pr_end q" "i_prot i = pr_prot q"
proof -
  obtain xs k v ys where v: "FindVMA (vma_map s) a = Some k" "map_of (vma_map s) k = Some v" "a < k + v_size v"
    "i = vma_cell v (a - k)" "v_base v = k" "vma_map s = xs @ (k, v) # ys"
    by (rule FindVMA_content [OF mm_wfD(1) [OF assms(1)] assms(3)])
  have "k + v_size v \<le> vma_end 0 (vma_map s)" using areas_wf_below [OF mm_wfD(1) [OF assms(1)], of k v] v(6) by simp
  then have "add64 k (v_size v) = k + v_size v" using mm_wfD(3) [OF assms(1)] by (intro add64_exact) simp
  then show "a < pr_end q" "i_prot i = pr_prot q"
    using assms(2) v by (auto simp: QueryProtection_def split: if_splits)
qed

lemma QueryProtection_returns:
  assumes "mm_wf s" "vma_at s (SystemManagedVirtualBase (impl s)) \<noteq> None"
  shows "QueryProtection a s \<noteq> None"
proof -
  let ?b = "SystemManagedVirtualBase (impl s)"
  obtain i where "vma_at s ?b = Some i" using assms(2) by blast
  from find_le_content [OF mm_wfD(1) [OF assms(1)] this]
  obtain k v where k: "k \<le> ?b" "(k, v) \<in> set (vma_map s)" by metis
  have "find_le a (vma_map s) \<noteq> None" if "?b \<le> a"
    using find_le_None_iff [OF areas_wf_sorted [OF mm_wfD(1) [OF assms(1)]], of a] k that by fastforce
  moreover have "map_of (vma_map s) l \<noteq> None" if "find_le a (vma_map s) = Some l" for l
    using find_le_Some [OF that] by (metis map_of_eq_None_iff image_eqI fst_conv)
  ultimately show ?thesis by (auto simp: QueryProtection_def FindVMA_def bind_eq_None_conv)
qed

lemma validate_loop_returns:
  assumes wf: "mm_wf s" and base: "vma_at s (SystemManagedVirtualBase (impl s)) \<noteq> None"
    and "cache_ok owner n s c"
  shows "\<exists>b c'. validate_loop owner required stop cursor s c = Some (b, c') \<and> cache_ok owner n s c' \<and>
    (b \<longrightarrow> (\<forall>a \<in> {cursor..<stop}. accessible required s a)) \<and>
    (SystemManagedVirtualBase (impl s) \<le> cursor \<and> (\<forall>a \<in> {cursor..<stop}. accessible required s a) \<longrightarrow> b)"
  using assms(3)
proof (induction "stop - cursor" arbitrary: cursor c rule: less_induct)
  case less
  show ?case
  proof (cases "cursor < stop")
    case False
    then show ?thesis using less.prems by (subst validate_loop.simps) auto
  next
    case lt: True
    obtain q where q: "QueryProtection cursor s = Some q" using QueryProtection_returns [OF wf base] by blast
    have head: "accessible required s cursor" if "\<forall>a \<in> {cursor..<stop}. accessible required s a"
      using that lt by simp
    show ?thesis
    proof (cases q)
      case (Inl e)
      have n: "\<not> (accessible required s cursor \<and> SystemManagedVirtualBase (impl s) \<le> cursor)"
      proof
        assume h: "accessible required s cursor \<and> SystemManagedVirtualBase (impl s) \<le> cursor"
        then obtain i where "vma_at s cursor = Some i" "i_type i \<noteq> VFree" by (auto simp: accessible_def)
        then show False using QueryProtection_byte [OF wf] q Inl h by fastforce
      qed
      have "validate_loop owner required stop cursor s c = Some (False, c)"
        using q Inl lt by (subst validate_loop.simps) simp
      then show ?thesis using less.prems head n by blast
    next
      case (Inr i)
      note A = QueryProtection_accurate [OF wf q [unfolded Inr]]
      show ?thesis
      proof (cases "pr_end i \<le> cursor \<or> pr_prot i AND required \<noteq> required")
        case True
        have n: "\<not> accessible required s cursor"
        proof
          assume "accessible required s cursor"
          then obtain j where "vma_at s cursor = Some j" "i_prot j AND required = required" by (auto simp: accessible_def)
          then show False using True QueryProtection_covers [OF wf q [unfolded Inr]] by fastforce
        qed
        have "validate_loop owner required stop cursor s c = Some (False, c)"
          using q Inr True lt by (subst validate_loop.simps) auto
        then show ?thesis using less.prems head n by blast
      next
        case ok: False
        let ?c = "cache_Store owner (pr_generation i) (pr_start i) (pr_end i) (pr_prot i) c"
        let ?m = "min stop (pr_end i)"
        have c1: "cache_ok owner n s ?c" unfolding A(1) by (rule cache_ok_Store [OF less.prems A(3)])
        have dec: "stop - ?m < stop - cursor" using lt ok by auto
        have acc: "accessible required s a" if "cursor \<le> a" "a < pr_end i" for a
          by (rule accurate_accessible [OF A(3)]) (use A(2) that ok in auto)
        obtain b c' where L: "validate_loop owner required stop ?m s ?c = Some (b, c')" "cache_ok owner n s c'"
          "b \<longrightarrow> (\<forall>a \<in> {?m..<stop}. accessible required s a)"
          "SystemManagedVirtualBase (impl s) \<le> ?m \<and> (\<forall>a \<in> {?m..<stop}. accessible required s a) \<longrightarrow> b"
          using less.hyps [OF dec c1] by blast
        have run: "validate_loop owner required stop cursor s c = Some (b, c')"
          using q Inr ok lt L(1) by (subst validate_loop.simps) simp
        have "accessible required s a" if b: b and "a \<in> {cursor..<stop}" for a
          using L(3) acc [of a] that by (cases "a < pr_end i") auto
        moreover have "b" if "SystemManagedVirtualBase (impl s) \<le> cursor"
          "\<forall>a \<in> {cursor..<stop}. accessible required s a"
          using L(4) that lt ok by auto
        ultimately show ?thesis using run L(2) by blast
      qed
    qed
  qed
qed

section \<open>Calls and checks\<close>

text \<open>
  A thread checks pointers with its own cache while calls, its own and those of other threads, change
  the memory manager.
\<close>

inductive checked_step :: "nat \<Rightarrow> KernelMemory \<times> GuestMemoryValidationCache \<Rightarrow>
    KernelMemory \<times> GuestMemoryValidationCache \<Rightarrow> bool" for owner where
  call: "guest_call ks ks' \<Longrightarrow> checked_step owner (ks, c) (ks', c)"
| check: "ValidateGuestMemory owner address len writable (memory ks) c = Some (b, c') \<Longrightarrow>
    vma_at (memory ks) (SystemManagedVirtualBase (impl (memory ks))) \<noteq> None \<Longrightarrow>
    checked_step owner (ks, c) (ks, c')"

lemma ValidateGuestMemory_returns:
  assumes wf: "mm_wf s" and base: "vma_at s (SystemManagedVirtualBase (impl s)) \<noteq> None"
    and c: "cache_ok owner n s c" "n < 2 ^ 63"
  shows "\<exists>b c'. ValidateGuestMemory owner address len writable s c = Some (b, c') \<and> cache_ok owner n s c' \<and>
    (b \<longrightarrow> owner \<noteq> 0 \<and> address \<noteq> 0 \<and> len \<noteq> 0 \<and> address + len < two64 \<and>
       (\<forall>a \<in> {address..<address + len}. accessible (required_protection writable) s a)) \<and>
    (owner \<noteq> 0 \<and> address \<noteq> 0 \<and> len \<noteq> 0 \<and> address + len < two64 \<and>
       SystemManagedVirtualBase (impl s) \<le> address \<and>
       (\<forall>a \<in> {address..<address + len}. accessible (required_protection writable) s a) \<longrightarrow> b)"
proof (cases "owner = 0 \<or> address = 0 \<or> len = 0 \<or> address > two64 - 1 - len")
  case True
  have "\<not> (owner \<noteq> 0 \<and> address \<noteq> 0 \<and> len \<noteq> 0 \<and> address + len < two64)" using True by auto
  then show ?thesis using c(1) unfolding ValidateGuestMemory_def if_P [OF True] by blast
next
  case False
  note def = ValidateGuestMemory_def [of owner address len writable s c, unfolded if_not_P [OF False]]
  show ?thesis
  proof (cases "cache_Contains owner (mapping_generation s) address len (required_protection writable) c")
    case True
    have "address + len < two64" using True by (auto simp: cache_Contains_def split: if_splits)
    with Contains_accessible [OF c True] show ?thesis
      using False c(1) unfolding def if_P [OF True] by blast
  next
    case miss: False
    have lt: "address + len < two64" using False by auto
    from validate_loop_returns [OF wf base c(1), of "required_protection writable" "address + len" address]
    show ?thesis unfolding def if_not_P [OF miss] using lt False by blast
  qed
qed

lemma checked_step_ok:
  assumes "checked_step owner (ks, c) (ks', c')" "mm_wf (memory ks)" "cache_ok owner n (memory ks) c" "n < 2 ^ 63"
  shows "mm_wf (memory ks') \<and> cache_ok owner (Suc n) (memory ks') c'"
  using assms(1)
proof (cases rule: checked_step.cases)
  case call
  note G = guest_call_step [OF call(2) assms(2)]
  have "cache_ok owner (Suc n) (memory ks') c"
    by (rule cache_ok_step [OF assms(3)]) (use G in \<open>auto simp: generation_step_def\<close>)
  then show ?thesis using G call(1) by simp
next
  case (check address len writable b)
  obtain b2 c2 where "ValidateGuestMemory owner address len writable (memory ks) c = Some (b2, c2)"
    "cache_ok owner n (memory ks) c2"
    using ValidateGuestMemory_returns [OF assms(2) check(3) assms(3,4), of address len writable] by blast
  then have "cache_ok owner n (memory ks) c'" using check(2) by simp
  then have "cache_ok owner (Suc n) (memory ks) c'" by (rule cache_ok_step) simp
  then show ?thesis using check(1) assms(2) by simp
qed

lemma checked_steps_ok:
  assumes "(checked_step owner ^^ n) (ks, empty_cache) (ks', c')" "mm_wf (memory ks)" "owner \<noteq> 0" "n \<le> 2 ^ 63"
  shows "mm_wf (memory ks') \<and> cache_ok owner n (memory ks') c'"
  using assms(1,4)
proof (induction n arbitrary: ks' c')
  case 0
  then show ?case using assms(2) cache_ok_empty [OF assms(3)] by simp
next
  case (Suc n)
  then obtain kc where k: "(checked_step owner ^^ n) (ks, empty_cache) kc" "checked_step owner kc (ks', c')" by auto
  obtain k1 c1 where kc: "kc = (k1, c1)" by (cases kc)
  have "mm_wf (memory k1) \<and> cache_ok owner n (memory k1) c1" using Suc.IH k(1) kc Suc.prems(2) by simp
  then show ?case using checked_step_ok [of owner k1 c1 ks' c' n] k(2) kc Suc.prems(2) by simp
qed

text \<open>
  C2. A cached answer is never stale: however calls and checks were interleaved before (fewer than
  \<open>2 ^ 63\<close> of them), \<open>ValidateGuestMemory\<close> returns, and it accepts a range only when every byte of it
  is now in a mapped or reserved area with the permissions asked for; from the system managed base on
  it accepts every such range.
\<close>

theorem guest_memory_check_truthful:
  assumes "(checked_step owner ^^ n) (ks0, empty_cache) (ks, c)" "mm_wf (memory ks0)" "owner \<noteq> 0" "n < 2 ^ 63"
    and "vma_at (memory ks) (SystemManagedVirtualBase (impl (memory ks))) \<noteq> None"
    and "p = required_protection writable"
  shows "\<exists>b c'. ValidateGuestMemory owner address len writable (memory ks) c = Some (b, c') \<and>
    (b \<longrightarrow> address \<noteq> 0 \<and> len \<noteq> 0 \<and> address + len < two64 \<and>
       (\<forall>a \<in> {address..<address + len}. \<exists>i. vma_at (memory ks) a = Some i \<and> i_type i \<noteq> VFree \<and> i_prot i AND p = p)) \<and>
    (address \<noteq> 0 \<and> len \<noteq> 0 \<and> address + len < two64 \<and> SystemManagedVirtualBase (impl (memory ks)) \<le> address \<and>
       (\<forall>a \<in> {address..<address + len}. \<exists>i. vma_at (memory ks) a = Some i \<and> i_type i \<noteq> VFree \<and> i_prot i AND p = p)
     \<longrightarrow> b)"
proof -
  have w: "mm_wf (memory ks)" "cache_ok owner n (memory ks) c"
    using checked_steps_ok [OF assms(1-3)] assms(4) by simp_all
  from ValidateGuestMemory_returns [OF w(1) assms(5) w(2) assms(4), of address len writable, folded assms(6)]
  obtain b c' where "ValidateGuestMemory owner address len writable (memory ks) c = Some (b, c')"
    "b \<longrightarrow> address \<noteq> 0 \<and> len \<noteq> 0 \<and> address + len < two64 \<and>
       (\<forall>a \<in> {address..<address + len}. accessible p (memory ks) a)"
    "address \<noteq> 0 \<and> len \<noteq> 0 \<and> address + len < two64 \<and> SystemManagedVirtualBase (impl (memory ks)) \<le> address \<and>
       (\<forall>a \<in> {address..<address + len}. accessible p (memory ks) a) \<longrightarrow> b"
    using assms(3) by blast
  then show ?thesis unfolding accessible_def by blast
qed

theorem guest_memory_check_truthful_witness:
  "\<exists>c1 s' c2. ValidateGuestMemory 1 0x400ff8 8 True direct_boot empty_cache = Some (True, c1) \<and>
     UnmapMemory 0x400000 0x4000 direct_boot = Some (ORBIS_OK, s') \<and>
     ValidateGuestMemory 1 0x400ff8 8 True s' c1 = Some (False, c2)"
proof -
  let ?k = "kernel_boot direct_boot"
  have base: "vma_at (memory ?k) (SystemManagedVirtualBase (impl (memory ?k))) \<noteq> None"
    by (simp add: direct_boot_def boot_eval)
  have p: "required_protection True = 3" by (simp add: required_protection_def)
  have acc: "\<forall>a \<in> {0x400ff8..<0x400ff8 + 8}. accessible (required_protection True) (memory ?k) a"
    unfolding p by (auto simp: accessible_def direct_boot_def)
  obtain c1 where c1: "ValidateGuestMemory 1 0x400ff8 8 True (memory ?k) empty_cache = Some (True, c1)"
    using ValidateGuestMemory_returns [OF _ base cache_ok_empty, of 1 "0x400ff8" 8 True] direct_boot_mm_wf acc
    by (auto simp: direct_boot_def boot_eval)
  obtain s' where s': "UnmapMemory 0x400000 0x4000 direct_boot = Some (0, s')" using direct_boot_unmaps by blast
  let ?k1 = "?k\<lparr>memory := s'\<rparr>"
  have al: "AlignDown 0x400000 KB16 = 0x400000" "AlignUp 0x4000 KB16 = 0x4000" by (simp_all add: AlignUp_def AlignDown_def)
  have c: "covered (vma_map direct_boot) (AlignDown 0x400000 KB16) (AlignUp 0x4000 KB16)"
    unfolding al by (auto simp: covered_def direct_boot_def free_vma_def)
  have "sceKernelMunmap 0x400000 0x4000 ?k = Some (ORBIS_OK, ?k1)"
    using s' by (simp add: sceKernelMunmap_def on_memory_def)
  then have g: "guest_call ?k ?k1" using c by (intro guest_call.unmap) simp_all
  note U = UnmapMemory_direct_spec [OF direct_boot_mm_wf _ _ refl refl c s', unfolded al]
  have v: "vma_at s' = unmap_view {0x400000..<0x400000 + 0x4000} (vma_at direct_boot)" "impl s' = impl direct_boot"
    using U by simp_all
  have "(checked_step 1 ^^ 2) (?k, empty_cache) (?k1, c1)"
    using checked_step.check [OF c1 base] checked_step.call [OF g] by (auto simp: numeral_2_eq_2)
  from guest_memory_check_truthful [OF this _ _ _ _ refl, of "0x400ff8" 8 True]
  obtain b c2 where V: "ValidateGuestMemory 1 0x400ff8 8 True s' c1 = Some (b, c2)"
    "b \<longrightarrow> (\<forall>a \<in> {0x400ff8..<0x400ff8 + 8}. \<exists>i. vma_at s' a = Some i \<and> i_type i \<noteq> VFree)"
    using direct_boot_mm_wf v by (auto simp: unmap_view_def direct_boot_def boot_eval)
  have "\<not> b"
  proof
    assume b
    then have "\<exists>i. vma_at s' 0x400ff8 = Some i \<and> i_type i \<noteq> VFree" using V(2) by simp
    then show False unfolding v(1) by (simp add: unmap_view_def direct_boot_def free_info_def)
  qed
  with c1 s' V(1) show ?thesis by auto
qed

end
