(* ===== verification/Hle_Call.thy ===== *)
theory Hle_Call
  imports Prelude
begin

unbundle bit_operations_syntax

text \<open>
  Calls from guest code into the host: \<open>src/src/core/guest_cpu/hle_call_adapter.h\<close> and the registry of
  \<open>src/src/core/guest_cpu/hle_call_adapter.cpp\<close>.

  A call arrives as the registers and the stack pointer of the guest.  The adapter of the host function
  decodes its arguments by the System V convention, calls it and encodes its result.  The template
  parameters of an adapter, the types of a C++ signature, are values here, and so is the host function.
  The function that checks a range of guest memory is a field of the frame, as in the code; it is a
  predicate of the memory at the time of the call.
\<close>

section \<open>The frame and its memory\<close>

type_synonym reg = "64 word"
type_synonym GuestBytes = "nat \<Rightarrow> 8 word"

record HleCallFrame =
  operation :: reg
  gpr :: "reg list"
  xmm :: "(reg \<times> reg) list"
  rsp :: u64
  validate_range :: "(u64 \<Rightarrow> u64 \<Rightarrow> bool \<Rightarrow> bool) option"

text \<open>The eight bytes that \<open>memcpy\<close> reads into, or writes from, a 64-bit value: the lowest first.\<close>

definition load64 :: "GuestBytes \<Rightarrow> u64 \<Rightarrow> reg" where
  "load64 m a = fold (OR) (map (\<lambda>i. push_bit (8 * i) (ucast (m (a + i)))) [0..<8]) 0"

definition store64 :: "u64 \<Rightarrow> reg \<Rightarrow> GuestBytes \<Rightarrow> GuestBytes" where
  "store64 a v m = (\<lambda>b. if a \<le> b \<and> b < a + 8 then ucast (drop_bit (8 * (b - a)) v) else m b)"

section \<open>The types of a signature\<close>

text \<open>
  \<open>IntegerArg n sg\<close> is an integer or enumeration of \<open>n\<close> bytes, \<open>PointerArg n c\<close> a pointer to an object of
  \<open>n\<close> bytes (1 for an incomplete type), constant or not.
\<close>

datatype ArgType = IntegerArg nat bool | BoolArg | PointerArg nat bool | FunctionArg | FloatArg | DoubleArg
  | WideArg | OtherArg

datatype ArgValue = VInt int | VBool bool | VPtr u64 | VFloat "32 word" | VDouble reg | VWide reg reg | VVoid

datatype RetType = VoidRet | IntegerRet nat bool | BoolRet | PointerRet | FloatRet | DoubleRet | OtherRet

definition IsVectorArgument :: "ArgType \<Rightarrow> bool" where
  "IsVectorArgument t \<longleftrightarrow> t = FloatArg \<or> t = DoubleArg"

definition IsWideVectorArgument :: "ArgType \<Rightarrow> bool" where
  "IsWideVectorArgument t \<longleftrightarrow> t = WideArg"

definition FitsIntegerRegister :: "ArgType \<Rightarrow> bool" where
  "FitsIntegerRegister t = (case t of IntegerArg n sg \<Rightarrow> n \<le> 8 | BoolArg \<Rightarrow> True
     | PointerArg n c \<Rightarrow> True | FunctionArg \<Rightarrow> True | _ \<Rightarrow> False)"

definition IsSupportedArgument :: "ArgType \<Rightarrow> bool" where
  "IsSupportedArgument t \<longleftrightarrow> FitsIntegerRegister t \<or> IsVectorArgument t \<or> IsWideVectorArgument t"

definition IsSupportedReturn :: "RetType \<Rightarrow> bool" where
  "IsSupportedReturn t = (case t of IntegerRet n sg \<Rightarrow> n \<le> 8 | OtherRet \<Rightarrow> False | _ \<Rightarrow> True)"

section \<open>The cursor\<close>

definition SysVIntegerArgs :: "nat list" where
  "SysVIntegerArgs = [7, 6, 2, 1, 8, 9]"

record CallCursor =
  integer_index :: nat
  vector_index :: nat
  stack_offset :: u64

definition CallCursor_start :: CallCursor where
  "CallCursor_start = \<lparr>integer_index = 0, vector_index = 0, stack_offset = 8\<rparr>"

definition NextStackSlot :: "GuestBytes \<Rightarrow> HleCallFrame \<Rightarrow> CallCursor \<Rightarrow> reg option \<times> CallCursor" where
  "NextStackSlot m fr c =
     (if rsp fr = 0 \<or> rsp fr > two64 - 1 - stack_offset c \<or>
         (case validate_range fr of None \<Rightarrow> True | Some v \<Rightarrow> \<not> v (rsp fr + stack_offset c) 8 False)
      then (None, c)
      else (Some (load64 m (rsp fr + stack_offset c)), c\<lparr>stack_offset := stack_offset c + 8\<rparr>))"

definition NextInteger :: "GuestBytes \<Rightarrow> HleCallFrame \<Rightarrow> CallCursor \<Rightarrow> reg option \<times> CallCursor" where
  "NextInteger m fr c =
     (if integer_index c < length SysVIntegerArgs
      then (Some (gpr fr ! (SysVIntegerArgs ! integer_index c)), c\<lparr>integer_index := integer_index c + 1\<rparr>)
      else NextStackSlot m fr c)"

definition NextVector :: "GuestBytes \<Rightarrow> HleCallFrame \<Rightarrow> CallCursor \<Rightarrow> reg option \<times> CallCursor" where
  "NextVector m fr c =
     (if vector_index c < 8
      then (Some (fst (xmm fr ! vector_index c)), c\<lparr>vector_index := vector_index c + 1\<rparr>)
      else NextStackSlot m fr c)"

definition NextVectorWide ::
  "GuestBytes \<Rightarrow> HleCallFrame \<Rightarrow> CallCursor \<Rightarrow> (reg \<times> reg) option \<times> CallCursor" where
  "NextVectorWide m fr c =
     (if vector_index c < 8
      then (Some (xmm fr ! vector_index c), c\<lparr>vector_index := vector_index c + 1\<rparr>)
      else (case NextStackSlot m fr c of
              (None, c1) \<Rightarrow> (None, c1)
            | (Some low, c1) \<Rightarrow> (case NextStackSlot m fr c1 of
                (None, c2) \<Rightarrow> (None, c2)
              | (Some high, c2) \<Rightarrow> (Some (low, high), c2))))"

section \<open>Arguments and results\<close>

text \<open>\<open>static_cast\<close> of a register to an integer of \<open>n\<close> bytes.\<close>

definition cast_integer :: "nat \<Rightarrow> bool \<Rightarrow> reg \<Rightarrow> int" where
  "cast_integer n sg v = (if sg then signed_take_bit (8 * n - 1) (uint v) else take_bit (8 * n) (uint v))"

text \<open>
  A pointer passes when its object may be accessed; one that may not still passes from 4096 on, since
  host objects that were never published have such addresses.
\<close>

definition DecodePointer :: "HleCallFrame \<Rightarrow> nat \<Rightarrow> bool \<Rightarrow> reg \<Rightarrow> ArgValue option" where
  "DecodePointer fr n const v =
     (if v \<noteq> 0 \<and> (case validate_range fr of None \<Rightarrow> True | Some f \<Rightarrow> \<not> f (unat v) n (\<not> const)) \<and> v < 4096
      then None else Some (VPtr (unat v)))"

definition DecodeArgument ::
  "GuestBytes \<Rightarrow> HleCallFrame \<Rightarrow> ArgType \<Rightarrow> CallCursor \<Rightarrow> ArgValue option \<times> CallCursor" where
  "DecodeArgument m fr t c = (case t of
     WideArg \<Rightarrow> map_prod (map_option (\<lambda>(low, high). VWide low high)) id (NextVectorWide m fr c)
   | FloatArg \<Rightarrow> map_prod (map_option (\<lambda>v. VFloat (ucast v))) id (NextVector m fr c)
   | DoubleArg \<Rightarrow> map_prod (map_option VDouble) id (NextVector m fr c)
   | FunctionArg \<Rightarrow> map_prod (map_option (\<lambda>v. VPtr (unat v))) id (NextInteger m fr c)
   | PointerArg n const \<Rightarrow> map_prod (\<lambda>r. Option.bind r (DecodePointer fr n const)) id (NextInteger m fr c)
   | BoolArg \<Rightarrow> map_prod (map_option (\<lambda>v. VBool (v \<noteq> 0))) id (NextInteger m fr c)
   | IntegerArg n sg \<Rightarrow> map_prod (map_option (\<lambda>v. VInt (cast_integer n sg v))) id (NextInteger m fr c)
   | OtherArg \<Rightarrow> (None, c))"

text \<open>The arguments are decoded from left to right, each whether or not those before it could be.\<close>

fun DecodeArguments ::
  "GuestBytes \<Rightarrow> HleCallFrame \<Rightarrow> ArgType list \<Rightarrow> CallCursor \<Rightarrow> ArgValue option list" where
  "DecodeArguments m fr [] c = []"
| "DecodeArguments m fr (t # ts) c =
     (let (v, c1) = DecodeArgument m fr t c in v # DecodeArguments m fr ts c1)"

definition EncodeReturn :: "HleCallFrame \<Rightarrow> ArgValue \<Rightarrow> HleCallFrame" where
  "EncodeReturn fr v = (case v of
     VFloat w \<Rightarrow> fr\<lparr>xmm := (xmm fr)[0 := (ucast w, 0)]\<rparr>
   | VDouble w \<Rightarrow> fr\<lparr>xmm := (xmm fr)[0 := (w, 0)]\<rparr>
   | VPtr p \<Rightarrow> fr\<lparr>gpr := (gpr fr)[0 := of_nat p]\<rparr>
   | VInt i \<Rightarrow> fr\<lparr>gpr := (gpr fr)[0 := word_of_int i]\<rparr>
   | VBool b \<Rightarrow> fr\<lparr>gpr := (gpr fr)[0 := of_bool b]\<rparr>
   | _ \<Rightarrow> fr)"

section \<open>Adapters and their registry\<close>

datatype Errno = E_NOTSUP | E_FAULT | E_NOSYS | E_INVAL | E_NOMEM | E_ACCES | E_2BIG | E_OVERFLOW | E_PROTO | E_NXIO
  | E_OTHER int

text \<open>An adapter of a host function of the state \<open>'w\<close>, or one for a function that is missing.\<close>

datatype 'w HleFunction =
    Typed "ArgType list" RetType "ArgValue list \<Rightarrow> 'w \<Rightarrow> ArgValue \<times> 'w"
  | UnsupportedFunction

record 'w HleCallAdapter =
  hle_operation :: reg
  hle_name :: string
  hle_function :: "'w HleFunction"

type_synonym HleCallResult = "(Errno \<times> string) + bool"

definition Adapter_Invoke ::
  "'w HleCallAdapter \<Rightarrow> GuestBytes \<Rightarrow> HleCallFrame \<Rightarrow> 'w \<Rightarrow> HleCallResult \<times> HleCallFrame \<times> 'w" where
  "Adapter_Invoke a m fr w = (case hle_function a of
     UnsupportedFunction \<Rightarrow> (Inl (E_NOSYS, hle_name a), fr, w)
   | Typed args ret f \<Rightarrow>
       if \<not> list_all IsSupportedArgument args \<or> \<not> IsSupportedReturn ret then (Inl (E_NOTSUP, hle_name a), fr, w)
       else let decoded = DecodeArguments m fr args CallCursor_start in
         if \<not> list_all (\<lambda>v. v \<noteq> None) decoded then (Inl (E_FAULT, hle_name a), fr, w)
         else let (r, w1) = f (map the decoded) w;
                  fr1 = (if ret = VoidRet then fr\<lparr>gpr := (gpr fr)[0 := 0]\<rparr> else EncodeReturn fr r)
              in (Inr True, fr1, w1))"

text \<open>
  Adapters are shared objects; the registry keeps their addresses.  Registering an object that is
  already registered gives it a new operation.
\<close>

record 'w HleCallRegistry =
  next_operation :: reg
  adapters :: "nat list"
  adapter_objects :: "nat \<Rightarrow> 'w HleCallAdapter option"

definition empty_registry :: "'w HleCallRegistry" where
  "empty_registry = \<lparr>next_operation = 1, adapters = [], adapter_objects = (\<lambda>_. None)\<rparr>"

definition Register ::
  "nat option \<Rightarrow> string \<Rightarrow> 'w HleCallRegistry \<Rightarrow> nat option \<times> 'w HleCallRegistry" where
  "Register adapter name r = (case adapter of
     None \<Rightarrow> (None, r)
   | Some p \<Rightarrow>
       if next_operation r = 0 then (None, r)
       else (Some p, r\<lparr>next_operation := next_operation r + 1, adapters := adapters r @ [p],
          adapter_objects := (adapter_objects r)(p :=
            map_option (\<lambda>a. a\<lparr>hle_operation := next_operation r, hle_name := name\<rparr>) (adapter_objects r p))\<rparr>))"

definition Find :: "reg \<Rightarrow> 'w HleCallRegistry \<Rightarrow> nat option" where
  "Find op r = (if op = 0 \<or> unat op > length (adapters r) then None else Some (adapters r ! (unat op - 1)))"

section \<open>The convention\<close>

text \<open>
  Where the System V convention puts the arguments of a call: the first six of integer class in
  registers, the first eight of vector class in vector registers, all others on the stack, in order.
\<close>

definition vector_class :: "ArgType \<Rightarrow> bool" where
  "vector_class t \<longleftrightarrow> t = FloatArg \<or> t = DoubleArg \<or> t = WideArg"

definition class_rank :: "ArgType list \<Rightarrow> nat \<Rightarrow> nat" where
  "class_rank ts i = length (filter (\<lambda>t. vector_class t = vector_class (ts ! i)) (take i ts))"

definition on_stack :: "ArgType list \<Rightarrow> nat \<Rightarrow> bool" where
  "on_stack ts i \<longleftrightarrow> (if vector_class (ts ! i) then 8 else 6) \<le> class_rank ts i"

definition stack_index :: "ArgType list \<Rightarrow> nat \<Rightarrow> nat" where
  "stack_index ts i = length (filter (on_stack ts) [0..<i])"

datatype Location = InGpr nat | InXmm nat | OnStack u64

definition sysv_location :: "ArgType list \<Rightarrow> nat \<Rightarrow> Location" where
  "sysv_location ts i =
     (if on_stack ts i then OnStack (8 + 8 * stack_index ts i)
      else if vector_class (ts ! i) then InXmm (class_rank ts i)
      else InGpr ([7, 6, 2, 1, 8, 9] ! class_rank ts i))"

definition fetch :: "GuestBytes \<Rightarrow> HleCallFrame \<Rightarrow> Location \<Rightarrow> reg \<times> reg" where
  "fetch m fr l = (case l of InGpr r \<Rightarrow> (gpr fr ! r, 0) | InXmm k \<Rightarrow> xmm fr ! k
     | OnStack off \<Rightarrow> (load64 m (rsp fr + off), 0))"

definition value_of :: "HleCallFrame \<Rightarrow> ArgType \<Rightarrow> reg \<times> reg \<Rightarrow> ArgValue option" where
  "value_of fr t v = (case t of
     WideArg \<Rightarrow> Some (VWide (fst v) (snd v)) | FloatArg \<Rightarrow> Some (VFloat (ucast (fst v)))
   | DoubleArg \<Rightarrow> Some (VDouble (fst v)) | FunctionArg \<Rightarrow> Some (VPtr (unat (fst v)))
   | PointerArg n const \<Rightarrow> DecodePointer fr n const (fst v) | BoolArg \<Rightarrow> Some (VBool (fst v \<noteq> 0))
   | IntegerArg n sg \<Rightarrow> Some (VInt (cast_integer n sg (fst v))) | OtherArg \<Rightarrow> None)"

definition slot_readable :: "HleCallFrame \<Rightarrow> u64 \<Rightarrow> bool" where
  "slot_readable fr off \<longleftrightarrow> rsp fr \<noteq> 0 \<and> rsp fr + off < two64 \<and>
     (\<exists>v. validate_range fr = Some v \<and> v (rsp fr + off) 8 False)"

text \<open>The cursor before argument \<open>k\<close>.\<close>

definition cursor_at :: "ArgType list \<Rightarrow> nat \<Rightarrow> CallCursor" where
  "cursor_at ts k =
     \<lparr>integer_index = min 6 (length (filter (\<lambda>t. \<not> vector_class t) (take k ts))),
      vector_index = min 8 (length (filter vector_class (take k ts))),
      stack_offset = 8 + 8 * stack_index ts k\<rparr>"

lemma cursor_at_0: "cursor_at ts 0 = CallCursor_start"
  by (simp add: cursor_at_def CallCursor_start_def stack_index_def)

lemma stack_index_Suc: "stack_index ts (Suc k) = stack_index ts k + (if on_stack ts k then 1 else 0)"
  by (simp add: stack_index_def)

lemma NextStackSlot_readable:
  assumes "slot_readable fr (stack_offset c)"
  shows "NextStackSlot m fr c = (Some (load64 m (rsp fr + stack_offset c)), c\<lparr>stack_offset := stack_offset c + 8\<rparr>)"
  using assms by (auto simp: slot_readable_def NextStackSlot_def)

lemma cursor_at_fields:
  assumes "\<not> vector_class (ts ! k) \<Longrightarrow> n = class_rank ts k" "vector_class (ts ! k) \<Longrightarrow> v = class_rank ts k"
  shows "\<not> vector_class (ts ! k) \<Longrightarrow> integer_index (cursor_at ts k) = min 6 n"
    "vector_class (ts ! k) \<Longrightarrow> vector_index (cursor_at ts k) = min 8 v"
    "stack_offset (cursor_at ts k) = 8 + 8 * stack_index ts k"
  using assms by (simp_all add: cursor_at_def class_rank_def)

lemma cursor_at_Suc:
  assumes "k < length ts"
  shows "on_stack ts k \<Longrightarrow> cursor_at ts (Suc k) = (cursor_at ts k)\<lparr>stack_offset := stack_offset (cursor_at ts k) + 8\<rparr>"
    "\<not> on_stack ts k \<Longrightarrow> vector_class (ts ! k) \<Longrightarrow>
      cursor_at ts (Suc k) = (cursor_at ts k)\<lparr>vector_index := vector_index (cursor_at ts k) + 1\<rparr>"
    "\<not> on_stack ts k \<Longrightarrow> \<not> vector_class (ts ! k) \<Longrightarrow>
      cursor_at ts (Suc k) = (cursor_at ts k)\<lparr>integer_index := integer_index (cursor_at ts k) + 1\<rparr>"
  using assms
  by (auto simp: cursor_at_def stack_index_Suc take_Suc_conv_app_nth on_stack_def class_rank_def split: if_splits)

lemma DecodeArgument_at:
  assumes k: "k < length ts" "ts ! k \<noteq> OtherArg"
    and st: "on_stack ts k \<Longrightarrow> ts ! k \<noteq> WideArg \<and> slot_readable fr (8 + 8 * stack_index ts k)"
  shows "DecodeArgument m fr (ts ! k) (cursor_at ts k) =
    (value_of fr (ts ! k) (fetch m fr (sysv_location ts k)), cursor_at ts (Suc k))"
proof -
  note F = cursor_at_fields [OF refl refl, of ts k]
  show ?thesis
  proof (cases "on_stack ts k")
    case True
    then have r: "slot_readable fr (stack_offset (cursor_at ts k))" "ts ! k \<noteq> WideArg" using st F(3) by simp_all
    note N = NextStackSlot_readable [OF r(1), of m]
    have i: "NextInteger m fr (cursor_at ts k) = NextStackSlot m fr (cursor_at ts k)" if "\<not> vector_class (ts ! k)"
      using True that F(1) by (simp add: NextInteger_def on_stack_def SysVIntegerArgs_def)
    have v: "NextVector m fr (cursor_at ts k) = NextStackSlot m fr (cursor_at ts k)" if "vector_class (ts ! k)"
      using True that F(2) by (simp add: NextVector_def on_stack_def)
    show ?thesis
      using k(2) r(2) True N i v F(3) cursor_at_Suc(1) [OF k(1) True]
      by (cases "ts ! k") (auto simp: DecodeArgument_def value_of_def fetch_def sysv_location_def vector_class_def)
  next
    case False
    have i: "NextInteger m fr (cursor_at ts k) = (Some (gpr fr ! (SysVIntegerArgs ! class_rank ts k)), cursor_at ts (Suc k))"
      if "\<not> vector_class (ts ! k)"
      using False that F(1) cursor_at_Suc(3) [OF k(1) False that]
      by (simp add: NextInteger_def on_stack_def SysVIntegerArgs_def)
    have v: "NextVector m fr (cursor_at ts k) = (Some (fst (xmm fr ! class_rank ts k)), cursor_at ts (Suc k))"
      "NextVectorWide m fr (cursor_at ts k) = (Some (xmm fr ! class_rank ts k), cursor_at ts (Suc k))"
      if "vector_class (ts ! k)"
      using False that F(2) cursor_at_Suc(2) [OF k(1) False that]
      by (simp_all add: NextVector_def NextVectorWide_def on_stack_def)
    show ?thesis
      using k(2) False i v
      by (cases "ts ! k")
        (auto simp: DecodeArgument_def value_of_def fetch_def sysv_location_def vector_class_def SysVIntegerArgs_def
          split: prod.splits)
  qed
qed

lemma DecodeArguments_at:
  assumes "OtherArg \<notin> set ts" "k \<le> length ts"
    and st: "\<forall>i < length ts. on_stack ts i \<longrightarrow> ts ! i \<noteq> WideArg \<and> slot_readable fr (8 + 8 * stack_index ts i)"
  shows "DecodeArguments m fr (drop k ts) (cursor_at ts k) =
    map (\<lambda>i. value_of fr (ts ! i) (fetch m fr (sysv_location ts i))) [k..<length ts]"
  using assms(2)
proof (induction "length ts - k" arbitrary: k)
  case (Suc n)
  then have k: "k < length ts" by simp
  then have d: "drop k ts = ts ! k # drop (Suc k) ts" "[k..<length ts] = k # [Suc k..<length ts]"
    by (simp_all add: Cons_nth_drop_Suc upt_conv_Cons)
  have "ts ! k \<noteq> OtherArg" using assms(1) k by (metis nth_mem)
  then have "DecodeArgument m fr (ts ! k) (cursor_at ts k) =
      (value_of fr (ts ! k) (fetch m fr (sysv_location ts k)), cursor_at ts (Suc k))"
    using st k by (intro DecodeArgument_at) blast+
  then show ?case using Suc.hyps(1) [of "Suc k"] Suc.hyps(2) k by (simp add: d)
qed simp

section \<open>Properties\<close>

text \<open>A pointer argument that makes a call fail.\<close>

definition bad_pointer :: "HleCallFrame \<Rightarrow> ArgType \<Rightarrow> reg \<Rightarrow> bool" where
  "bad_pointer fr t v \<longleftrightarrow> (case t of
     PointerArg n const \<Rightarrow> 0 < v \<and> v < 4096 \<and>
       (case validate_range fr of None \<Rightarrow> True | Some p \<Rightarrow> \<not> p (unat v) n (\<not> const))
   | _ \<Rightarrow> False)"

lemma bit_fold_or: "bit (fold (OR) xs (acc :: 'a :: len word)) n \<longleftrightarrow> bit acc n \<or> (\<exists>x \<in> set xs. bit x n)"
  by (induction xs arbitrary: acc) (auto simp: bit_simps)

lemma load64_store64_same: "load64 (store64 a v m) a = v"
proof (rule bit_word_eqI)
  fix n assume n: "n < LENGTH(64)"
  have "bit (push_bit (8 * i) (ucast (store64 a v m (a + i))) :: reg) n \<longleftrightarrow> 8 * i \<le> n \<and> n - 8 * i < 8 \<and> bit v n"
    if "i < 8" for i
    using n that by (auto simp: store64_def bit_simps)
  then have "bit (load64 (store64 a v m) a) n \<longleftrightarrow> (\<exists>i < 8. 8 * i \<le> n \<and> n - 8 * i < 8 \<and> bit v n)"
    by (auto simp: load64_def bit_fold_or)
  moreover have "n div 8 < 8" "8 * (n div 8) \<le> n" "n - 8 * (n div 8) < 8" using n by simp_all
  ultimately show "bit (load64 (store64 a v m) a) n = bit v n" by blast
qed

lemma load64_cong: "(\<And>i. i < 8 \<Longrightarrow> m (a + i) = m' (b + i)) \<Longrightarrow> load64 m a = load64 m' b"
  unfolding load64_def by (intro arg_cong [where f = "\<lambda>xs. fold (OR) xs 0"] map_cong) auto

lemma load64_store64_other: "a + 8 \<le> b \<or> b + 8 \<le> a \<Longrightarrow> load64 (store64 b v m) a = load64 m a"
  by (auto simp: load64_def store64_def upt_rec)

lemma hle_call_convention_spec:
  assumes f: "hle_function a = Typed ts ret f" and sup: "list_all IsSupportedArgument ts" "IsSupportedReturn ret"
    and st: "\<forall>i < length ts. on_stack ts i \<longrightarrow> ts ! i \<noteq> WideArg \<and> slot_readable fr (8 + 8 * stack_index ts i)"
    and vs: "vs = map (\<lambda>i. value_of fr (ts ! i) (fetch m fr (sysv_location ts i))) [0..<length ts]"
  shows "Adapter_Invoke a m fr w =
    (if \<exists>i < length ts. bad_pointer fr (ts ! i) (fst (fetch m fr (sysv_location ts i)))
     then (Inl (E_FAULT, hle_name a), fr, w)
     else let (r, w1) = f (map the vs) w
          in (Inr True, if ret = VoidRet then fr\<lparr>gpr := (gpr fr)[0 := 0]\<rparr> else EncodeReturn fr r, w1))"
proof -
  have other: "OtherArg \<notin> set ts"
    using sup(1) by (auto simp: list_all_iff IsSupportedArgument_def FitsIntegerRegister_def IsVectorArgument_def
        IsWideVectorArgument_def)
  have d: "DecodeArguments m fr ts CallCursor_start = vs"
    using DecodeArguments_at [OF other le0 st, of m] by (simp add: cursor_at_0 vs)
  have none: "value_of fr (ts ! i) v = None \<longleftrightarrow> bad_pointer fr (ts ! i) (fst v)" if "i < length ts" for i v
    using other that by (cases "ts ! i")
      (auto simp: value_of_def DecodePointer_def bad_pointer_def word_gt_0 dest: nth_mem split: option.splits)
  have "\<not> list_all (\<lambda>v. v \<noteq> None) vs \<longleftrightarrow>
      (\<exists>i < length ts. bad_pointer fr (ts ! i) (fst (fetch m fr (sysv_location ts i))))"
    using none unfolding vs list_all_iff by (auto simp del: not_None_eq)
  then show ?thesis using f sup d by (simp add: Adapter_Invoke_def Let_def split_beta del: not_None_eq)
qed

text \<open>
  C22. A call passes the arguments by the System V convention: when the stack slots it uses are readable
  and no 16-byte argument is among them, the host function gets the value of its \<open>i\<close>-th parameter from
  the register or stack slot of the convention, converted to the type, and its result goes to the
  result register; a pointer below 4096 to memory that may not be accessed makes the call fail with
  \<open>EFAULT\<close>, without calling the function or changing a register.
\<close>

theorem hle_call_convention:
  assumes f: "hle_function a = Typed ts ret f" and sup: "list_all IsSupportedArgument ts" "IsSupportedReturn ret"
    and st: "\<forall>i < length ts. on_stack ts i \<longrightarrow> ts ! i \<noteq> WideArg \<and> slot_readable fr (8 + 8 * stack_index ts i)"
    and vs: "vs = map (\<lambda>i. value_of fr (ts ! i) (fetch m fr (sysv_location ts i))) [0..<length ts]"
  shows "Adapter_Invoke a m fr w =
    (if \<exists>i < length ts. bad_pointer fr (ts ! i) (fst (fetch m fr (sysv_location ts i)))
     then (Inl (E_FAULT, hle_name a), fr, w)
     else let (r, w1) = f (map the vs) w
          in (Inr True, if ret = VoidRet then fr\<lparr>gpr := (gpr fr)[0 := 0]\<rparr> else EncodeReturn fr r, w1))"
  using assms by (rule hle_call_convention_spec)

text \<open>A call with eight arguments, the last two on the stack.\<close>

definition sum_function :: "nat HleFunction" where
  "sum_function = Typed (replicate 8 (IntegerArg 4 True)) (IntegerRet 8 True)
     (\<lambda>vs w. (VInt (sum_list (map (\<lambda>v. case v of VInt i \<Rightarrow> i | _ \<Rightarrow> 0) vs)), w + 1))"

definition sum_frame :: HleCallFrame where
  "sum_frame = \<lparr>operation = 1, gpr = [0, 4, 3, 0, 0, 0, 2, 1, 5, 6, 0, 0, 0, 0, 0, 0], xmm = replicate 16 (0, 0),
     rsp = 0x1000, validate_range = Some (\<lambda>a n w. 0x1000 \<le> a \<and> a + n \<le> 0x2000)\<rparr>"

theorem hle_call_convention_witness:
  "let fr' = fst (snd (Adapter_Invoke \<lparr>hle_operation = 1, hle_name = ''sum'', hle_function = sum_function\<rparr>
       (store64 0x1008 7 (store64 0x1010 0xffffffffffffffff (\<lambda>_. 0))) sum_frame 0)) in gpr fr' ! 0 = 27"
proof -
  let ?a = "\<lparr>hle_operation = 1, hle_name = ''sum'', hle_function = sum_function\<rparr>"
  let ?m = "store64 0x1008 7 (store64 0x1010 0xffffffffffffffff (\<lambda>_. 0))"
  let ?ts = "replicate 8 (IntegerArg 4 True)"
  have l: "load64 ?m 0x1008 = 7" "load64 ?m 0x1010 = 0xffffffffffffffff"
    by (simp_all add: load64_store64_same load64_store64_other)
  have loc: "map (sysv_location ?ts) [0..<8] = [InGpr 7, InGpr 6, InGpr 2, InGpr 1, InGpr 8, InGpr 9, OnStack 8, OnStack 16]"
    by code_simp
  have on: "\<forall>i < length ?ts. on_stack ?ts i \<longrightarrow> 6 \<le> i"
    by (simp add: on_stack_def class_rank_def vector_class_def)
  have idx: "i < 8 \<Longrightarrow> stack_index ?ts i \<le> 1" for i
  proof -
    have "map (stack_index ?ts) [0..<8] = [0, 0, 0, 0, 0, 0, 0, 1]" by code_simp
    then show "i < 8 \<Longrightarrow> stack_index ?ts i \<le> 1" by (auto simp: upt_rec numeral_eq_Suc less_Suc_eq)
  qed
  have st: "\<forall>i < length ?ts. on_stack ?ts i \<longrightarrow> ?ts ! i \<noteq> WideArg \<and> slot_readable sum_frame (8 + 8 * stack_index ?ts i)"
    using idx by (auto simp: slot_readable_def sum_frame_def le_Suc_eq dest!: idx)
  have vs: "map (\<lambda>i. value_of sum_frame (?ts ! i) (fetch ?m sum_frame (sysv_location ?ts i))) [0..<length ?ts]
      = map Some [VInt 1, VInt 2, VInt 3, VInt 4, VInt 5, VInt 6, VInt 7, VInt (- 1)]"
  proof -
    have "map (\<lambda>i. value_of sum_frame (?ts ! i) (fetch ?m sum_frame (sysv_location ?ts i))) [0..<length ?ts] =
        map (\<lambda>l. value_of sum_frame (IntegerArg 4 True) (fetch ?m sum_frame l)) (map (sysv_location ?ts) [0..<8])"
      by (simp del: upt_Suc)
    also have "\<dots> = map Some [VInt 1, VInt 2, VInt 3, VInt 4, VInt 5, VInt 6, VInt 7, VInt (- 1)]"
      unfolding loc using l by (simp add: fetch_def value_of_def cast_integer_def sum_frame_def)
    finally show ?thesis .
  qed
  have nb: "\<not> (\<exists>i < length ?ts. bad_pointer sum_frame (?ts ! i) (fst (fetch ?m sum_frame (sysv_location ?ts i))))"
    by (simp add: bad_pointer_def)
  have f: "hle_function ?a = Typed ?ts (IntegerRet 8 True)
      (\<lambda>vs w. (VInt (sum_list (map (\<lambda>v. case v of VInt i \<Rightarrow> i | _ \<Rightarrow> 0) vs)), w + 1))"
    by (simp add: sum_function_def)
  have sup: "list_all IsSupportedArgument ?ts" "IsSupportedReturn (IntegerRet 8 True)"
    by (simp_all add: list_all_iff IsSupportedArgument_def FitsIntegerRegister_def IsSupportedReturn_def)
  show ?thesis
    unfolding hle_call_convention [OF f sup st vs [symmetric]] if_not_P [OF nb]
    by (simp add: EncodeReturn_def sum_frame_def)
qed

section \<open>The registry\<close>

text \<open>The registrations of the adapters of the symbol table, from the objects \<open>ob\<close>.\<close>

definition register_all ::
  "(nat \<times> string) list \<Rightarrow> (nat \<Rightarrow> 'w HleCallAdapter option) \<Rightarrow> 'w HleCallRegistry" where
  "register_all l ob =
     fold (\<lambda>(p, name) r. snd (Register (Some p) name r)) l (empty_registry\<lparr>adapter_objects := ob\<rparr>)"

lemma register_all_snoc:
  "register_all (l @ [(p, name)]) ob = snd (Register (Some p) name (register_all l ob))"
  by (simp add: register_all_def)

lemma register_all_state:
  assumes "length l < 2 ^ 64 - 1" "distinct (map fst l)" "\<forall>e \<in> set l. ob (fst e) \<noteq> None"
  shows "next_operation (register_all l ob) = of_nat (length l + 1) \<and>
    adapters (register_all l ob) = map fst l \<and>
    (\<forall>i < length l. adapter_objects (register_all l ob) (fst (l ! i)) =
       map_option (\<lambda>a. a\<lparr>hle_operation := of_nat (i + 1), hle_name := snd (l ! i)\<rparr>) (ob (fst (l ! i)))) \<and>
    (\<forall>p. p \<notin> fst ` set l \<longrightarrow> adapter_objects (register_all l ob) p = ob p)"
  using assms
proof (induction l rule: rev_induct)
  case Nil
  then show ?case by (simp add: register_all_def empty_registry_def)
next
  case (snoc x l)
  obtain p name where x: "x = (p, name)" by (cases x)
  have d: "distinct (map fst l)" "p \<notin> fst ` set l" using snoc.prems(2) x by auto
  have l: "length l < 2 ^ 64 - 1" "\<forall>e \<in> set l. ob (fst e) \<noteq> None" using snoc.prems by auto
  note IH = snoc.IH [OF l(1) d(1) l(2)]
  have "(of_nat (length l + 1) :: reg) \<noteq> 0"
    using l(1) by (auto simp: word_of_nat_eq_0_iff simp del: of_nat_Suc of_nat_add dest!: dvd_imp_le)
  then have n: "next_operation (register_all l ob) \<noteq> 0" using IH by simp
  have "fst (l ! i) \<noteq> p" if "i < length l" for i using that d(2) by force
  then show ?case
    using IH d n unfolding x register_all_snoc
    by (auto simp: Register_def nth_append less_Suc_eq)
qed

text \<open>
  The operations of registered adapters are 1, 2, 3, \<dots> in the order of registration: looking one up
  gives the adapter object, which carries that operation and the name it was registered under, and any
  other operation is unknown.
\<close>

theorem hle_registry_lookup:
  assumes "length l < 2 ^ 64 - 1" "distinct (map fst l)" "\<forall>e \<in> set l. ob (fst e) \<noteq> None"
  shows "Find op (register_all l ob) =
      (if 0 < op \<and> unat op \<le> length l then Some (fst (l ! (unat op - 1))) else None) \<and>
    (\<forall>p. Find op (register_all l ob) = Some p \<longrightarrow> (\<exists>a. ob p = Some a \<and> adapter_objects (register_all l ob) p =
       Some (a\<lparr>hle_operation := op, hle_name := snd (l ! (unat op - 1))\<rparr>)))"
proof -
  note S = register_all_state [OF assms]
  show ?thesis
  proof (cases "0 < op \<and> unat op \<le> length l")
    case True
    then have u0: "0 < unat op" "op \<noteq> 0" by (simp_all add: unat_gt_0 word_gt_0)
    then have u: "0 < unat op" "unat op - 1 < length l" "op \<noteq> 0" using True by linarith+
    then have "Find op (register_all l ob) = Some (fst (l ! (unat op - 1)))"
      using S True by (simp add: Find_def)
    moreover have "ob (fst (l ! (unat op - 1))) \<noteq> None" using assms(3) nth_mem [OF u(2)] by blast
    moreover have "(of_nat (unat op - 1 + 1) :: reg) = op" using u(1) by simp
    ultimately show ?thesis using S u True by auto
  next
    case False
    then have "Find op (register_all l ob) = None" using S by (auto simp: Find_def word_gt_0)
    then show ?thesis using False by simp
  qed
qed

theorem hle_registry_lookup_witness:
  "let ob = (\<lambda>p. Some \<lparr>hle_operation = 0, hle_name = '''', hle_function = sum_function\<rparr>);
       r = register_all [(7, ''a''), (4, ''b'')] ob
   in Find 2 r = Some 4 \<and> map_option hle_operation (adapter_objects r 4) = Some 2 \<and> Find 3 r = None"
  using hle_registry_lookup [of "[(7, ''a''), (4, ''b'')]" "\<lambda>p. Some \<lparr>hle_operation = 0, hle_name = '''', hle_function = sum_function\<rparr>" 2]
    hle_registry_lookup [of "[(7, ''a''), (4, ''b'')]" "\<lambda>p. Some \<lparr>hle_operation = 0, hle_name = '''', hle_function = sum_function\<rparr>" 3]
  by (auto simp: Let_def)

end
