(* ===== verification/Hle_Veneer.thy ===== *)
theory Hle_Veneer
  imports Hle_Call
begin

text \<open>
  The code through which a guest calls a host function: \<open>HleVeneerAllocator\<close> of
  \<open>src/src/core/guest_cpu/hle_call_adapter.cpp\<close>.

  A veneer is 16 bytes of x86 code that load the operation of an adapter and trap.  It lies on a page
  of its own, or, on iOS, in a region that holds many and is mapped twice, once to write and once to
  execute.  The answers of the host (\<open>sysconf\<close>, \<open>mmap\<close>, \<open>mprotect\<close>, the region allocator) are a record.
  The bytes are those that the executable mapping shows.
\<close>

section \<open>State\<close>

record GuestExecutionRange =
  ge_begin :: u64
  ge_size :: u64
  ge_executable :: bool
  ge_writable :: bool

record VeneerBatch =
  region_rw :: u64
  region_rx :: u64
  region_size :: u64
  used :: u64

record HleVeneerAllocator =
  batches :: "VeneerBatch list"
  allocations :: "(u64 \<times> u64) list"
  executable_ranges :: "GuestExecutionRange list"
  veneers :: "reg \<Rightarrow> u64 option"
  veneer_bytes :: GuestBytes

definition empty_veneers :: HleVeneerAllocator where
  "empty_veneers = \<lparr>batches = [], allocations = [], executable_ranges = [], veneers = Map.empty,
     veneer_bytes = (\<lambda>_. 0)\<rparr>"

text \<open>
  What the host answers: the page size with the \<open>errno\<close> of a failed query, a page or the \<open>errno\<close>,
  whether protecting it and releasing it again work, and a region (write address, execute address, size).
\<close>

record VeneerHost =
  sc_pagesize :: int
  host_errno :: int
  mmap_page :: "u64 option"
  mprotect_fails :: bool
  munmap_fails :: bool
  dual_region :: "(u64 \<times> u64 \<times> u64) option"

section \<open>Allocation\<close>

definition veneer_code :: "reg \<Rightarrow> 8 word list" where
  "veneer_code op =
     [0x49, 0x89, 0xca] @ [0x48, 0xb8] @ map (\<lambda>i. ucast (drop_bit (8 * i) op)) [0..<8] @ [0x0f, 0x05, 0xc3]"

definition write_bytes :: "u64 \<Rightarrow> 8 word list \<Rightarrow> GuestBytes \<Rightarrow> GuestBytes" where
  "write_bytes a bs m = (\<lambda>b. if a \<le> b \<and> b < a + length bs then bs ! (b - a) else m b)"

text \<open>A page for one veneer.  \<open>None\<close> is the \<open>abort\<close> when a page cannot be given back.\<close>

definition place_on_page ::
  "VeneerHost \<Rightarrow> 8 word list \<Rightarrow> HleVeneerAllocator \<Rightarrow> ((Errno + u64) \<times> HleVeneerAllocator) option" where
  "place_on_page h code st =
     (if sc_pagesize h \<le> 0 then Some (Inl (E_OTHER (if host_errno h = 0 then 5 else host_errno h)), st)
      else let size = nat (sc_pagesize h) in (case mmap_page h of
        None \<Rightarrow> Some (Inl (E_OTHER (host_errno h)), st)
      | Some page \<Rightarrow>
          let st1 = st\<lparr>veneer_bytes := write_bytes page code (veneer_bytes st)\<rparr> in
          if mprotect_fails h
          then (if munmap_fails h then None else Some (Inl (E_OTHER (host_errno h)), st1))
          else Some (Inr page, st1\<lparr>allocations := allocations st @ [(page, size)],
                 executable_ranges := executable_ranges st @
                   [\<lparr>ge_begin = page, ge_size = size, ge_executable = True, ge_writable = False\<rparr>]\<rparr>)))"

text \<open>
  A place in the last region, or at the start of a new one.  The code asks for regions of 16 KB; the
  size is what the host answers.
\<close>

definition place_in_batch ::
  "VeneerHost \<Rightarrow> 8 word list \<Rightarrow> HleVeneerAllocator \<Rightarrow> ((Errno + u64) \<times> HleVeneerAllocator) option" where
  "place_in_batch h code st =
     (let full = (batches st = [] \<or> used (last (batches st)) + 16 > region_size (last (batches st)))
      in if full \<and> dual_region h = None then Some (Inl E_NOMEM, st)
         else let st1 = (if full then (case dual_region h of Some (rw, rx, n) \<Rightarrow>
                           st\<lparr>executable_ranges := executable_ranges st @
                                [\<lparr>ge_begin = rx, ge_size = n, ge_executable = True, ge_writable = False\<rparr>],
                              batches := batches st @
                                [\<lparr>region_rw = rw, region_rx = rx, region_size = n, used = 0\<rparr>]\<rparr> | None \<Rightarrow> st)
                         else st);
                  batch = last (batches st1);
                  exec_ptr = region_rx batch + used batch
              in Some (Inr exec_ptr, st1\<lparr>veneer_bytes := write_bytes exec_ptr code (veneer_bytes st1),
                   batches := butlast (batches st1) @ [batch\<lparr>used := used batch + 16\<rparr>]\<rparr>))"

text \<open>The target decides how a veneer is placed.\<close>

definition Veneer_Allocate ::
  "bool \<Rightarrow> VeneerHost \<Rightarrow> reg \<Rightarrow> HleVeneerAllocator \<Rightarrow> ((Errno + u64) \<times> HleVeneerAllocator) option" where
  "Veneer_Allocate ios h op st =
     (if op = 0 then Some (Inl E_INVAL, st)
      else case veneers st op of
        Some a \<Rightarrow> Some (Inr a, st)
      | None \<Rightarrow> (case (if ios then place_in_batch else place_on_page) h (veneer_code op) st of
          None \<Rightarrow> None
        | Some (Inl e, st1) \<Rightarrow> Some (Inl e, st1)
        | Some (Inr address, st1) \<Rightarrow> Some (Inr address, st1\<lparr>veneers := (veneers st1)(op \<mapsto> address)\<rparr>)))"

definition GetExecutableRanges :: "HleVeneerAllocator \<Rightarrow> GuestExecutionRange list" where
  "GetExecutableRanges st = executable_ranges st"

definition QueryExecutableRange :: "u64 \<Rightarrow> HleVeneerAllocator \<Rightarrow> GuestExecutionRange option" where
  "QueryExecutableRange address st =
     (if address = 0 then None
      else List.find (\<lambda>r. ge_executable r \<and> ge_begin r \<noteq> 0 \<and> ge_size r \<noteq> 0 \<and>
             ge_begin r \<le> address \<and> address < add64 (ge_begin r) (ge_size r)) (executable_ranges st))"

text \<open>The destructor gives the pages back; \<open>None\<close> is the \<open>abort\<close> when that fails.\<close>

definition destroy_veneers :: "(u64 \<Rightarrow> u64 \<Rightarrow> bool) \<Rightarrow> HleVeneerAllocator \<Rightarrow> unit option" where
  "destroy_veneers munmap_ok st =
     (if list_all (\<lambda>(page, size). page = 0 \<or> munmap_ok page size) (allocations st) then Some () else None)"

section \<open>Where veneers lie\<close>

definition apart :: "u64 \<times> u64 \<Rightarrow> u64 \<times> u64 \<Rightarrow> bool" where
  "apart x y \<longleftrightarrow> fst x + snd x \<le> fst y \<or> fst y + snd y \<le> fst x"

lemma apart_sym: "apart x y \<Longrightarrow> apart y x"
  by (auto simp: apart_def)

text \<open>The memory the allocator owns, and the part of it that veneers occupy.\<close>

definition footprint :: "HleVeneerAllocator \<Rightarrow> (u64 \<times> u64) list" where
  "footprint st = map (\<lambda>b. (region_rx b, region_size b)) (batches st) @ allocations st"

definition occupied :: "HleVeneerAllocator \<Rightarrow> (u64 \<times> u64) list" where
  "occupied st = map (\<lambda>b. (region_rx b, used b)) (batches st) @ allocations st"

definition inside :: "HleVeneerAllocator \<Rightarrow> u64 \<Rightarrow> bool" where
  "inside st a \<longleftrightarrow> (\<exists>(b, n) \<in> set (occupied st). b \<le> a \<and> a + 16 \<le> b + n)"

text \<open>The host gives memory that is new and large enough for a veneer.\<close>

definition new_area :: "HleVeneerAllocator \<Rightarrow> u64 \<times> u64 \<Rightarrow> bool" where
  "new_area st x \<longleftrightarrow> 0 < fst x \<and> 16 \<le> snd x \<and> fst x + snd x < two64 \<and> (\<forall>y \<in> set (footprint st). apart x y)"

definition veneer_host_ok :: "VeneerHost \<Rightarrow> HleVeneerAllocator \<Rightarrow> bool" where
  "veneer_host_ok h st \<longleftrightarrow> (\<forall>p. mmap_page h = Some p \<longrightarrow> new_area st (p, nat (sc_pagesize h))) \<and>
     (\<forall>rw rx n. dual_region h = Some (rw, rx, n) \<longrightarrow> new_area st (rx, n))"

definition areas_ok :: "HleVeneerAllocator \<Rightarrow> bool" where
  "areas_ok st \<longleftrightarrow> sorted_wrt apart (footprint st) \<and> (\<forall>b \<in> set (batches st). used b \<le> region_size b) \<and>
     (\<forall>x \<in> set (footprint st). 0 < fst x \<and> 0 < snd x \<and> fst x + snd x < two64) \<and>
     set (executable_ranges st) =
       (\<lambda>(b, n). \<lparr>ge_begin = b, ge_size = n, ge_executable = True, ge_writable = False\<rparr>) ` set (footprint st)"

text \<open>What a placement does: a place apart from all that is occupied, with the code written there.\<close>

definition placed :: "HleVeneerAllocator \<Rightarrow> u64 \<Rightarrow> 8 word list \<Rightarrow> HleVeneerAllocator \<Rightarrow> bool" where
  "placed st e code st1 \<longleftrightarrow> areas_ok st1 \<and> veneers st1 = veneers st \<and>
     veneer_bytes st1 = write_bytes e code (veneer_bytes st) \<and> inside st1 e \<and>
     (\<forall>a. inside st a \<longrightarrow> inside st1 a \<and> (a + 16 \<le> e \<or> e + 16 \<le> a))"

lemma sorted_wrt_apart_insert:
  "sorted_wrt apart (xs @ ys) \<Longrightarrow> \<forall>y \<in> set (xs @ ys). apart x y \<Longrightarrow> sorted_wrt apart (xs @ x # ys)"
  by (auto simp: sorted_wrt_append intro: apart_sym)

lemma new_area_apart:
  assumes "areas_ok st" "new_area st (e, n)" "inside st a"
  shows "a + 16 \<le> e \<or> e + 16 \<le> a"
proof -
  obtain b m where b: "(b, m) \<in> set (occupied st)" "b \<le> a" "a + 16 \<le> b + m" using assms(3) by (auto simp: inside_def)
  have "\<exists>k. (b, k) \<in> set (footprint st) \<and> m \<le> k"
    using b(1) assms(1) by (auto simp: occupied_def footprint_def areas_ok_def)
  then show ?thesis using assms(2) b(2,3) by (fastforce simp: new_area_def apart_def)
qed

lemma place_on_page_placed:
  assumes ok: "areas_ok st" "veneer_host_ok h st" and r: "place_on_page h code st = Some (Inr e, st1)"
  shows "placed st e code st1"
proof -
  have p: "mmap_page h = Some e" "0 < sc_pagesize h"
    "st1 = st\<lparr>veneer_bytes := write_bytes e code (veneer_bytes st), allocations := allocations st @ [(e, nat (sc_pagesize h))],
       executable_ranges := executable_ranges st @
         [\<lparr>ge_begin = e, ge_size = nat (sc_pagesize h), ge_executable = True, ge_writable = False\<rparr>]\<rparr>"
    using r by (auto simp: place_on_page_def Let_def split: if_splits option.splits)
  have new: "new_area st (e, nat (sc_pagesize h))" using ok(2) p(1) by (simp add: veneer_host_ok_def)
  have f: "footprint st1 = footprint st @ [(e, nat (sc_pagesize h))]" "occupied st1 = occupied st @ [(e, nat (sc_pagesize h))]"
    using p(3) by (simp_all add: footprint_def occupied_def)
  have "areas_ok st1"
    using ok(1) new sorted_wrt_apart_insert [of "footprint st" "[]"] p(3)
    unfolding areas_ok_def f by (auto simp: new_area_def)
  moreover have "a + 16 \<le> e \<or> e + 16 \<le> a" if "inside st a" for a
    by (rule new_area_apart [OF ok(1) new that])
  ultimately show ?thesis
    using p(3) new f(2) by (auto simp: placed_def inside_def new_area_def)
qed

lemma place_in_batch_placed:
  assumes ok: "areas_ok st" "veneer_host_ok h st" and r: "place_in_batch h code st = Some (Inr e, st1)"
  shows "placed st e code st1"
proof -
  define full where "full \<longleftrightarrow> batches st = [] \<or> used (last (batches st)) + 16 > region_size (last (batches st))"
  obtain st0 where st0: "areas_ok st0" "veneers st0 = veneers st" "veneer_bytes st0 = veneer_bytes st"
    "batches st0 \<noteq> []" "used (last (batches st0)) + 16 \<le> region_size (last (batches st0))"
    "\<And>a. inside st a \<Longrightarrow> inside st0 a"
    "st1 = st0\<lparr>veneer_bytes := write_bytes e code (veneer_bytes st0),
       batches := butlast (batches st0) @ [(last (batches st0))\<lparr>used := used (last (batches st0)) + 16\<rparr>]\<rparr>"
    "e = region_rx (last (batches st0)) + used (last (batches st0))"
  proof (cases full)
    case False
    then show thesis using r ok(1) by (intro that [of st]) (auto simp: place_in_batch_def Let_def full_def split: if_splits)
  next
    case True
    then obtain rw rx n where d: "dual_region h = Some (rw, rx, n)"
      using r by (auto simp: place_in_batch_def Let_def full_def split: if_splits)
    let ?b = "\<lparr>region_rw = rw, region_rx = rx, region_size = n, used = 0\<rparr>"
    let ?s = "st\<lparr>executable_ranges := executable_ranges st @
        [\<lparr>ge_begin = rx, ge_size = n, ge_executable = True, ge_writable = False\<rparr>], batches := batches st @ [?b]\<rparr>"
    have new: "new_area st (rx, n)" using ok(2) d by (auto simp: veneer_host_ok_def)
    have f: "footprint ?s = map (\<lambda>b. (region_rx b, region_size b)) (batches st) @ (rx, n) # allocations st"
      by (simp add: footprint_def)
    have "areas_ok ?s"
      using ok(1) new sorted_wrt_apart_insert [of "map (\<lambda>b. (region_rx b, region_size b)) (batches st)" "allocations st"]
      unfolding areas_ok_def f by (auto simp: new_area_def footprint_def)
    moreover have "inside ?s a" if "inside st a" for a
      using that by (auto simp: inside_def occupied_def)
    moreover have "16 \<le> n" using new by (simp add: new_area_def)
    ultimately show thesis
      using r True d by (intro that [of ?s]) (auto simp: place_in_batch_def Let_def full_def)
  qed
  let ?l = "last (batches st0)"
  have b: "batches st0 = butlast (batches st0) @ [?l]" using st0(4) by simp
  have f: "footprint st1 = footprint st0"
    unfolding st0(7) footprint_def by (subst (2) b) simp
  have used: "\<forall>b \<in> set (batches st0). used b \<le> region_size b" using st0(1) by (simp add: areas_ok_def)
  have bl: "set (butlast (batches st0)) \<subseteq> set (batches st0)" by (auto dest: in_set_butlastD)
  have "areas_ok st1"
    using st0(1,5) bl unfolding areas_ok_def f by (auto simp: st0(7))
  moreover have o: "occupied st1 = map (\<lambda>b. (region_rx b, used b)) (butlast (batches st0)) @
      (region_rx ?l, used ?l + 16) # allocations st0" by (simp add: occupied_def st0(7))
  have o0: "occupied st0 = map (\<lambda>b. (region_rx b, used b)) (butlast (batches st0)) @
      (region_rx ?l, used ?l) # allocations st0"
    unfolding occupied_def by (subst b) simp
  have f0: "footprint st0 = map (\<lambda>b. (region_rx b, region_size b)) (butlast (batches st0)) @
      (region_rx ?l, region_size ?l) # allocations st0"
    unfolding footprint_def by (subst b) simp
  have sep: "apart (region_rx ?l, region_size ?l) y" if y: "y \<in> set (map (\<lambda>b. (region_rx b, region_size b)) (butlast (batches st0)) @ allocations st0)" for y
    using st0(1) y unfolding areas_ok_def f0 by (auto simp: sorted_wrt_append intro: apart_sym)
  have "inside st1 a \<and> (a + 16 \<le> e \<or> e + 16 \<le> a)" if ia: "inside st a" for a
  proof -
    obtain b n where bn: "(b, n) \<in> set (occupied st0)" "b \<le> a" "a + 16 \<le> b + n"
      using st0(6) [OF ia] by (auto simp: inside_def)
    have "inside st1 a" using bn unfolding inside_def o o0 by force
    moreover have "(b, n) = (region_rx ?l, used ?l) \<or>
        (\<exists>m \<ge> n. (b, m) \<in> set (map (\<lambda>b. (region_rx b, region_size b)) (butlast (batches st0)) @ allocations st0))"
      using bn(1) used bl unfolding o0 by auto
    then have "a + 16 \<le> e \<or> e + 16 \<le> a"
    proof
      assume "(b, n) = (region_rx ?l, used ?l)"
      then show ?thesis using bn st0(8) by simp
    next
      assume "\<exists>m \<ge> n. (b, m) \<in> set (map (\<lambda>b. (region_rx b, region_size b)) (butlast (batches st0)) @ allocations st0)"
      then obtain m where m: "n \<le> m" "apart (region_rx ?l, region_size ?l) (b, m)" using sep by blast
      then show ?thesis using bn st0(5,8) by (auto simp: apart_def)
    qed
    ultimately show ?thesis by blast
  qed
  moreover have "inside st1 e" unfolding inside_def o using st0(8) by auto
  ultimately show ?thesis using st0(2,3) by (simp add: placed_def st0(7))
qed

section \<open>The invariant\<close>

definition veneers_ok :: "HleVeneerAllocator \<Rightarrow> bool" where
  "veneers_ok st \<longleftrightarrow> areas_ok st \<and>
     (\<forall>op a. veneers st op = Some a \<longrightarrow> op \<noteq> 0 \<and> inside st a \<and>
        map (\<lambda>i. veneer_bytes st (a + i)) [0..<16] = veneer_code op \<and>
        (\<forall>op' a'. veneers st op' = Some a' \<longrightarrow> op' \<noteq> op \<longrightarrow> a + 16 \<le> a' \<or> a' + 16 \<le> a))"

lemma empty_veneers_ok: "veneers_ok empty_veneers"
  by (simp add: veneers_ok_def areas_ok_def empty_veneers_def footprint_def)

lemma length_veneer_code [simp]: "length (veneer_code op) = 16"
  by (simp add: veneer_code_def)

lemma write_bytes_same: "map (\<lambda>i. write_bytes a bs m (a + i)) [0..<length bs] = bs"
  by (auto simp: write_bytes_def intro: nth_equalityI)

lemma write_bytes_apart:
  "b + n \<le> a \<or> a + length bs \<le> b \<Longrightarrow> i < n \<Longrightarrow> write_bytes a bs m (b + i) = m (b + i)"
  by (auto simp: write_bytes_def)

lemma placed_veneers_ok:
  assumes "veneers_ok st" "placed st e (veneer_code op) st1" "op \<noteq> 0" "veneers st op = None"
  shows "veneers_ok (st1\<lparr>veneers := (veneers st1)(op \<mapsto> e)\<rparr>)"
proof -
  let ?s = "st1\<lparr>veneers := (veneers st1)(op \<mapsto> e)\<rparr>"
  have i: "inside ?s a = inside st1 a" for a by (simp add: inside_def occupied_def)
  have P: "veneers st1 = veneers st" "veneer_bytes st1 = write_bytes e (veneer_code op) (veneer_bytes st)"
    "inside st1 e" "areas_ok st1" "\<And>a. inside st a \<Longrightarrow> inside st1 a \<and> (a + 16 \<le> e \<or> e + 16 \<le> a)"
    using assms(2) by (auto simp: placed_def)
  have o: "areas_ok ?s" using P(4) by (simp add: areas_ok_def footprint_def)
  have old: "op' \<noteq> 0 \<and> inside st1 a \<and> (a + 16 \<le> e \<or> e + 16 \<le> a) \<and>
      map (\<lambda>i. veneer_bytes st1 (a + i)) [0..<16] = veneer_code op'" if v: "veneers st op' = Some a" for op' a
  proof -
    have A: "op' \<noteq> 0" "inside st a" "map (\<lambda>i. veneer_bytes st (a + i)) [0..<16] = veneer_code op'"
      using assms(1) v unfolding veneers_ok_def by blast+
    have "a + 16 \<le> e \<or> e + 16 \<le> a" using P(5) A(2) by blast
    then have "map (\<lambda>i. veneer_bytes st1 (a + i)) [0..<16] = map (\<lambda>i. veneer_bytes st (a + i)) [0..<16]"
      unfolding P(2) by (intro map_cong refl write_bytes_apart [where n = 16]) auto
    then show ?thesis using A P(5) by simp
  qed
  have new: "map (\<lambda>i. veneer_bytes st1 (e + i)) [0..<16] = veneer_code op"
    unfolding P(2) using write_bytes_same [of e "veneer_code op" "veneer_bytes st"] by (simp del: upt_Suc)
  show ?thesis
    unfolding veneers_ok_def i
  proof (intro conjI o allI impI)
    fix op' a' op'' a''
    assume v: "veneers ?s op' = Some a'"
    show "op' \<noteq> 0" "inside st1 a'" "map (\<lambda>i. veneer_bytes ?s (a' + i)) [0..<16] = veneer_code op'"
      using v old new P(1,3) assms(3) by (auto split: if_splits simp del: upt_Suc)
    assume "veneers ?s op'' = Some a''" "op'' \<noteq> op'"
    then show "a' + 16 \<le> a'' \<or> a'' + 16 \<le> a'"
      using v old P(1) assms(1) unfolding veneers_ok_def by (auto split: if_splits)
  qed
qed

text \<open>A failed placement changes at most bytes that no veneer has.\<close>

lemma place_fails:
  assumes ok: "veneers_ok st" "veneer_host_ok h st"
    and r: "(if ios then place_in_batch else place_on_page) h (veneer_code op) st = Some (Inl e, st1)"
  shows "veneers_ok st1"
proof -
  have "st1 = st \<or> (\<exists>p. mmap_page h = Some p \<and>
      st1 = st\<lparr>veneer_bytes := write_bytes p (veneer_code op) (veneer_bytes st)\<rparr>)"
    using r by (auto simp: place_in_batch_def place_on_page_def Let_def split: if_splits option.splits)
  then show ?thesis
  proof
    assume "\<exists>p. mmap_page h = Some p \<and>
      st1 = st\<lparr>veneer_bytes := write_bytes p (veneer_code op) (veneer_bytes st)\<rparr>"
    then obtain p where p: "new_area st (p, nat (sc_pagesize h))"
      "st1 = st\<lparr>veneer_bytes := write_bytes p (veneer_code op) (veneer_bytes st)\<rparr>"
      using ok(2) by (auto simp: veneer_host_ok_def)
    have a: "areas_ok st" using ok(1) by (simp add: veneers_ok_def)
    have i: "inside st1 = inside st" "areas_ok st1 = areas_ok st"
      by (simp_all add: p(2) fun_eq_iff inside_def occupied_def areas_ok_def footprint_def)
    have w: "map (\<lambda>i. veneer_bytes st1 (x + i)) [0..<16] = map (\<lambda>i. veneer_bytes st (x + i)) [0..<16]"
      if "inside st x" for x
    proof -
      have "veneer_bytes st1 = write_bytes p (veneer_code op) (veneer_bytes st)" by (simp add: p(2))
      then show ?thesis
        using new_area_apart [OF a p(1) that] by (intro map_cong refl) (auto intro: write_bytes_apart [where n = 16])
    qed
    have "map (\<lambda>i. veneer_bytes st1 (x + i)) [0..<16] = veneer_code o'" if v: "veneers st o' = Some x" for o' x
    proof -
      have "inside st x \<and> map (\<lambda>i. veneer_bytes st (x + i)) [0..<16] = veneer_code o'"
        using ok(1) v unfolding veneers_ok_def by blast
      then show ?thesis using w [of x] by argo
    qed
    moreover have "veneers st1 = veneers st" by (simp add: p(2))
    ultimately show ?thesis using ok(1) unfolding veneers_ok_def i by metis
  qed (use ok(1) in simp)
qed

lemma Veneer_Allocate_ok:
  assumes ok: "veneers_ok st" "veneer_host_ok h st" and r: "Veneer_Allocate ios h op st = Some (res, st1)"
  shows "veneers_ok st1 \<and> (\<forall>a. res = Inr a \<longrightarrow> veneers st1 op = Some a)"
proof (cases "op = 0 \<or> veneers st op \<noteq> None")
  case True
  then show ?thesis using ok(1) r by (auto simp: Veneer_Allocate_def split: option.splits if_splits)
next
  case False
  then obtain q st2 where q: "(if ios then place_in_batch else place_on_page) h (veneer_code op) st = Some (q, st2)"
    using r by (auto simp: Veneer_Allocate_def split: option.splits)
  note def = r [unfolded Veneer_Allocate_def q, simplified]
  show ?thesis
  proof (cases q)
    case (Inl e)
    have "veneers_ok st2" by (rule place_fails [OF ok q [unfolded Inl]])
    then show ?thesis using r False q Inl by (auto simp: Veneer_Allocate_def)
  next
    case (Inr a)
    have "areas_ok st" using ok(1) by (simp add: veneers_ok_def)
    then have "placed st a (veneer_code op) st2"
      using place_in_batch_placed place_on_page_placed ok(2) q [unfolded Inr] by (cases ios) auto
    then have "veneers_ok (st2\<lparr>veneers := (veneers st2)(op \<mapsto> a)\<rparr>)"
      using placed_veneers_ok [OF ok(1)] False by simp
    then show ?thesis using r False q Inr by (auto simp: Veneer_Allocate_def)
  qed
qed

section \<open>Calling a veneer\<close>

inductive veneer_step :: "bool \<Rightarrow> HleVeneerAllocator \<Rightarrow> HleVeneerAllocator \<Rightarrow> bool" for ios where
  "Veneer_Allocate ios h op st = Some (res, st') \<Longrightarrow> veneer_host_ok h st \<Longrightarrow> veneer_step ios st st'"

lemma reachable_veneers_ok: "(veneer_step ios)\<^sup>*\<^sup>* empty_veneers st \<Longrightarrow> veneers_ok st"
  by (induction rule: rtranclp_induct) (auto simp: empty_veneers_ok veneer_step.simps dest: Veneer_Allocate_ok)

lemma QueryExecutableRange_inside:
  assumes "areas_ok st" "inside st a"
  shows "\<exists>r. QueryExecutableRange a st = Some r \<and> ge_executable r \<and> \<not> ge_writable r \<and>
    ge_begin r \<le> a \<and> a + 16 \<le> ge_begin r + ge_size r"
proof -
  obtain b n where b: "(b, n) \<in> set (occupied st)" "b \<le> a" "a + 16 \<le> b + n" using assms(2) by (auto simp: inside_def)
  then obtain m where m: "(b, m) \<in> set (footprint st)" "a + 16 \<le> b + m"
    using assms(1) by (fastforce simp: occupied_def footprint_def areas_ok_def)
  let ?P = "\<lambda>r. ge_executable r \<and> ge_begin r \<noteq> 0 \<and> ge_size r \<noteq> 0 \<and>
             ge_begin r \<le> a \<and> a < add64 (ge_begin r) (ge_size r)"
  let ?r = "\<lparr>ge_begin = b, ge_size = m, ge_executable = True, ge_writable = False\<rparr>"
  have pos: "0 < b" "0 < m" "b + m < two64" using assms(1) m(1) unfolding areas_ok_def by fastforce+
  have r: "?r \<in> set (executable_ranges st)" "?P ?r"
    using assms(1) m b(2) pos by (auto simp: areas_ok_def add64_exact)
  then have "List.find ?P (executable_ranges st) \<noteq> None" unfolding find_None_iff by blast
  then obtain q where q: "List.find ?P (executable_ranges st) = Some q" by blast
  then have q2: "q \<in> set (executable_ranges st)" "?P q" by (auto simp: find_Some_iff)
  then obtain c k where c: "(c, k) \<in> set (footprint st)" "q = \<lparr>ge_begin = c, ge_size = k, ge_executable = True, ge_writable = False\<rparr>"
    using assms(1) by (auto simp: areas_ok_def)
  have "c + k < two64" using assms(1) c(1) unfolding areas_ok_def by fastforce
  then have "c \<le> a" "a < c + k" using q2(2) c(2) by (simp_all add: add64_exact)
  then have "\<not> apart (b, m) (c, k)" "\<not> apart (c, k) (b, m)" using b(2) m(2) by (auto simp: apart_def)
  moreover have "sorted_wrt apart (footprint st)" using assms(1) by (simp add: areas_ok_def)
  ultimately have "(c, k) = (b, m)"
    using m(1) c(1) by (metis in_set_conv_nth linorder_neqE_nat sorted_wrt_iff_nth_less)
  then show ?thesis using q c(2) b(2) m(2) pos by (auto simp: QueryExecutableRange_def)
qed

lemma veneer_code_operand:
  assumes "map (\<lambda>i. m (a + i)) [0..<16] = veneer_code op"
  shows "load64 m (a + 5) = op" "m (a + 3) = 0x48" "m (a + 4) = 0xb8" "m (a + 13) = 0x0f" "m (a + 14) = 0x05" "m (a + 15) = 0xc3"
proof -
  have n: "m (a + i) = veneer_code op ! i" if "i < 16" for i
    using that arg_cong [OF assms, of "\<lambda>l. l ! i"] by simp
  have "load64 m (a + 5) = load64 (store64 (a + 5) op (\<lambda>_. 0)) (a + 5)"
  proof -
    have "m (a + 5 + i) = store64 (a + 5) op (\<lambda>_. 0) (a + 5 + i)" if "i < 8" for i
      using n [of "5 + i"] that by (simp add: veneer_code_def store64_def nth_append add.assoc)
    then show ?thesis by (rule load64_cong)
  qed
  then show "load64 m (a + 5) = op" by (simp add: load64_store64_same)
  show "m (a + 3) = 0x48" "m (a + 4) = 0xb8" "m (a + 13) = 0x0f" "m (a + 14) = 0x05" "m (a + 15) = 0xc3"
    using n [of 3] n [of 4] n [of 13] n [of 14] n [of 15] by (simp_all add: veneer_code_def nth_append upt_rec)
qed

text \<open>
  C17. Through a veneer the guest reaches the function it was made for: in every state that allocations
  reach, on either target, the address handed out for an operation holds code that loads this
  operation (\<open>mov rax, imm64; syscall; ret\<close>), the range query finds it in executable memory that is not
  writable, no other veneer overlaps it, and asking again gives the same address; the operation, looked
  up in the registry, is that of the adapter it was taken from.
\<close>

theorem veneer_reaches_function:
  assumes st: "(veneer_step ios)\<^sup>*\<^sup>* empty_veneers st" and v: "veneers st op = Some a"
    and reg: "length l < 2 ^ 64 - 1" "distinct (map fst l)" "\<forall>e \<in> set l. ob (fst e) \<noteq> None"
    and obj: "adapter_objects (register_all l ob) p = Some ad" "p \<in> fst ` set l" "hle_operation ad = op"
  shows "load64 (veneer_bytes st) (a + 5) = op \<and>
    map (\<lambda>i. veneer_bytes st (a + i)) [3, 4, 13, 14, 15] = [0x48, 0xb8, 0x0f, 0x05, 0xc3] \<and>
    (\<exists>r. QueryExecutableRange a st = Some r \<and> ge_executable r \<and> \<not> ge_writable r \<and>
       ge_begin r \<le> a \<and> a + 16 \<le> ge_begin r + ge_size r) \<and>
    (\<forall>op' a'. veneers st op' = Some a' \<longrightarrow> op' \<noteq> op \<longrightarrow> a + 16 \<le> a' \<or> a' + 16 \<le> a) \<and>
    Veneer_Allocate ios h op st = Some (Inr a, st) \<and> Find op (register_all l ob) = Some p"
proof -
  note ok = reachable_veneers_ok [OF st]
  have A: "areas_ok st" "op \<noteq> 0" "inside st a" "map (\<lambda>i. veneer_bytes st (a + i)) [0..<16] = veneer_code op"
    "\<forall>op' a'. veneers st op' = Some a' \<longrightarrow> op' \<noteq> op \<longrightarrow> a + 16 \<le> a' \<or> a' + 16 \<le> a"
    using ok v unfolding veneers_ok_def by blast+
  note S = register_all_state [OF reg]
  obtain i where i: "i < length l" "fst (l ! i) = p" using obj(2) by (auto simp: in_set_conv_nth)
  then have "op = of_nat (i + 1)" using S obj(1,3) by auto
  moreover have "unat (of_nat (i + 1) :: reg) = i + 1" using i(1) reg(1) by (simp add: unat_of_nat take_bit_nat_eq_self del: of_nat_Suc of_nat_add)
  ultimately have "Find op (register_all l ob) = Some p" using A(2) S i by (simp add: Find_def)
  then show ?thesis
    using veneer_code_operand [OF A(4)] QueryExecutableRange_inside [OF A(1,3)] A(2,5) v
    by (auto simp: Veneer_Allocate_def)
qed

definition sample_host :: VeneerHost where
  "sample_host = \<lparr>sc_pagesize = 4096, host_errno = 12, mmap_page = None, mprotect_fails = False, munmap_fails = False,
     dual_region = Some (0x90000, 0x10000, 0x4000)\<rparr>"

theorem veneer_reaches_function_witness:
  "\<exists>st st2. Veneer_Allocate True sample_host 2 empty_veneers = Some (Inr 0x10000, st) \<and>
     Veneer_Allocate True sample_host 1 st = Some (Inr 0x10010, st2) \<and> load64 (veneer_bytes st2) 0x10015 = 1"
proof -
  let ?ob = "\<lambda>p. Some \<lparr>hle_operation = 0, hle_name = '''', hle_function = sum_function\<rparr>"
  let ?l = "[(7, ''f''), (8, ''g'')]"
  define st where "st = snd (the (Veneer_Allocate True sample_host 2 empty_veneers))"
  define st2 where "st2 = snd (the (Veneer_Allocate True sample_host 1 st))"
  have 1: "Veneer_Allocate True sample_host 2 empty_veneers = Some (Inr 0x10000, st)"
    by (simp add: st_def Veneer_Allocate_def place_in_batch_def sample_host_def empty_veneers_def Let_def)
  have f: "batches st = [\<lparr>region_rw = 0x90000, region_rx = 0x10000, region_size = 0x4000, used = 16\<rparr>]"
    "veneers st = [2 \<mapsto> 0x10000]"
    by (simp_all add: st_def Veneer_Allocate_def place_in_batch_def sample_host_def empty_veneers_def Let_def)
  have 2: "Veneer_Allocate True sample_host 1 st = Some (Inr 0x10010, st2)"
    using f by (simp add: st2_def Veneer_Allocate_def place_in_batch_def Let_def)
  have h: "veneer_host_ok sample_host empty_veneers"
    by (simp add: veneer_host_ok_def sample_host_def new_area_def footprint_def empty_veneers_def)
  have h2: "veneer_host_ok (sample_host\<lparr>dual_region := None\<rparr>) st" by (simp add: veneer_host_ok_def sample_host_def)
  have 3: "Veneer_Allocate True (sample_host\<lparr>dual_region := None\<rparr>) 1 st = Some (Inr 0x10010, st2)"
    using f by (simp add: st2_def Veneer_Allocate_def place_in_batch_def Let_def)
  have s: "(veneer_step True)\<^sup>*\<^sup>* empty_veneers st2"
    using veneer_step.intros [OF 1 h] veneer_step.intros [OF 3 h2] by auto
  have v: "veneers st2 1 = Some 0x10010"
    using f by (simp add: st2_def Veneer_Allocate_def place_in_batch_def Let_def)
  have ad: "adapter_objects (register_all ?l ?ob) 7 = Some \<lparr>hle_operation = 1, hle_name = ''f'', hle_function = sum_function\<rparr>"
    by (simp add: register_all_def Register_def empty_registry_def)
  from veneer_reaches_function [OF s v _ _ _ ad] have "load64 (veneer_bytes st2) 0x10015 = 1" by simp
  with 1 2 show ?thesis by blast
qed

end
