(* ===== verification/Guest_Bridge.thy ===== *)
theory Guest_Bridge
  imports Hle_Call
begin

text \<open>
  The bridge between guest code and host functions: \<open>src/src/core/guest_cpu/fex_hle_bridge.cpp\<close>.

  The bridge finds the adapter of a trap, gives it the check of guest pointers and reports failures.
  Host objects whose addresses are given to the guest are published as ranges that the check accepts
  besides guest memory.
\<close>

section \<open>State\<close>

record HostRange =
  hr_begin :: u64
  hr_end :: u64
  hr_writable :: bool

text \<open>
  The state of the bridge and of the host functions, \<open>'x\<close>; \<open>active_frame\<close> tells whether the thread is in
  a call (the thread-local \<open>ActiveHleCallFrame\<close>), \<open>failures\<close> what was reported.
\<close>

record 'x HleGuestBridge =
  host_ranges :: "HostRange list"
  failures :: "(Errno \<times> string) list"
  active_frame :: bool
  host_state :: 'x

type_synonym RangeValidator = "u64 \<Rightarrow> u64 \<Rightarrow> bool \<Rightarrow> bool"

section \<open>Published ranges\<close>

definition Bridge_PublishHostRange :: "u64 \<Rightarrow> u64 \<Rightarrow> bool \<Rightarrow> HostRange list \<Rightarrow> bool \<times> HostRange list" where
  "Bridge_PublishHostRange address len writable rs =
     (if address = 0 \<or> len = 0 \<or> address > two64 - 1 - len then (False, rs)
      else let range = \<lparr>hr_begin = address, hr_end = address + len, hr_writable = writable\<rparr> in
        if list_ex (\<lambda>existing. hr_begin range < hr_end existing \<and> hr_begin existing < hr_end range) rs
        then (False, rs) else (True, rs @ [range]))"

text \<open>The first range with this start goes.\<close>

fun remove_range :: "u64 \<Rightarrow> HostRange list \<Rightarrow> HostRange list" where
  "remove_range address [] = []"
| "remove_range address (r # rs) = (if hr_begin r = address then rs else r # remove_range address rs)"

definition Bridge_RevokeHostRange :: "u64 \<Rightarrow> HostRange list \<Rightarrow> bool \<times> HostRange list" where
  "Bridge_RevokeHostRange address rs =
     (if address = 0 \<or> \<not> list_ex (\<lambda>r. hr_begin r = address) rs then (False, rs)
      else (True, remove_range address rs))"

definition ValidatePublishedHostRange :: "u64 \<Rightarrow> u64 \<Rightarrow> bool \<Rightarrow> HostRange list \<Rightarrow> bool" where
  "ValidatePublishedHostRange address len writable rs =
     (if address = 0 \<or> len = 0 \<or> address > two64 - 1 - len then False
      else let en = address + len in
        list_ex (\<lambda>r. hr_begin r \<le> address \<and> en \<le> hr_end r \<and> (\<not> writable \<or> hr_writable r)) rs)"

definition ValidateRange :: "RangeValidator option \<Rightarrow> HostRange list \<Rightarrow> RangeValidator" where
  "ValidateRange validator rs address len writable =
     (if ValidatePublishedHostRange address len writable rs then True
      else (case validator of None \<Rightarrow> False | Some v \<Rightarrow> v address len writable))"

text \<open>The functions that host code calls while it serves a guest call.\<close>

definition PublishHostRange ::
  "u64 \<Rightarrow> u64 \<Rightarrow> bool \<Rightarrow> 'x HleGuestBridge \<Rightarrow> bool \<times> 'x HleGuestBridge" where
  "PublishHostRange pointer len writable b =
     (if \<not> active_frame b \<or> pointer = 0 then (False, b)
      else let (ok, rs) = Bridge_PublishHostRange pointer len writable (host_ranges b) in (ok, b\<lparr>host_ranges := rs\<rparr>))"

definition RevokeHostRange :: "u64 \<Rightarrow> 'x HleGuestBridge \<Rightarrow> bool \<times> 'x HleGuestBridge" where
  "RevokeHostRange pointer b =
     (if \<not> active_frame b \<or> pointer = 0 then (False, b)
      else let (ok, rs) = Bridge_RevokeHostRange pointer (host_ranges b) in (ok, b\<lparr>host_ranges := rs\<rparr>))"

section \<open>A call\<close>

definition Report :: "Errno \<times> string \<Rightarrow> 'x HleGuestBridge \<Rightarrow> 'x HleGuestBridge" where
  "Report failure b = b\<lparr>failures := failures b @ [failure]\<rparr>"

text \<open>
  The result is the error of the engine's bridge stage or success.  The outer \<open>None\<close> is an adapter
  object that does not exist.  Tracing is not modelled.
\<close>

definition Bridge_Invoke ::
  "('x HleGuestBridge) HleCallRegistry \<Rightarrow> RangeValidator option \<Rightarrow> GuestBytes \<Rightarrow> HleCallFrame \<Rightarrow>
     'x HleGuestBridge \<Rightarrow> ((Errno + bool) \<times> HleCallFrame \<times> 'x HleGuestBridge) option" where
  "Bridge_Invoke registry validator m fr b = (case Find (operation fr) registry of
     None \<Rightarrow> Some (Inl E_NOSYS, fr, Report (E_NOSYS, ''unregistered HLE operation'') b)
   | Some p \<Rightarrow> (case adapter_objects registry p of
       None \<Rightarrow> None
     | Some a \<Rightarrow>
         let fr1 = fr\<lparr>validate_range := Some (ValidateRange validator (host_ranges b))\<rparr>;
             previous = active_frame b;
             (result, fr2, b2) = Adapter_Invoke a m fr1 (b\<lparr>active_frame := True\<rparr>);
             b3 = b2\<lparr>active_frame := previous\<rparr>
         in Some (case result of
              Inl failure \<Rightarrow> (Inl (fst failure), fr2, Report failure b3)
            | Inr ok \<Rightarrow> (Inr True, fr2, b3))))"

section \<open>Ranges do not overlap\<close>

definition ranges_apart :: "HostRange \<Rightarrow> HostRange \<Rightarrow> bool" where
  "ranges_apart r q \<longleftrightarrow> hr_end r \<le> hr_begin q \<or> hr_end q \<le> hr_begin r"

definition ranges_ok :: "HostRange list \<Rightarrow> bool" where
  "ranges_ok rs \<longleftrightarrow> sorted_wrt ranges_apart rs \<and>
     (\<forall>r \<in> set rs. 0 < hr_begin r \<and> hr_begin r < hr_end r \<and> hr_end r < two64)"

text \<open>The changes that host code makes to the published ranges, revoking only addresses in \<open>A\<close>.\<close>

inductive range_step :: "u64 set \<Rightarrow> HostRange list \<Rightarrow> HostRange list \<Rightarrow> bool" for A where
  publish: "Bridge_PublishHostRange address len writable rs = (ok, rs') \<Longrightarrow> range_step A rs rs'"
| revoke: "Bridge_RevokeHostRange address rs = (ok, rs') \<Longrightarrow> address \<in> A \<Longrightarrow> range_step A rs rs'"

lemma ranges_ok_Nil: "ranges_ok []"
  by (simp add: ranges_ok_def)

lemma set_remove_range_subset: "set (remove_range a rs) \<subseteq> set rs"
  by (induction rs) auto

lemma remove_range_ok: "ranges_ok rs \<Longrightarrow> ranges_ok (remove_range a rs)"
  by (induction rs) (use set_remove_range_subset in \<open>fastforce simp: ranges_ok_def\<close>)+

lemma ranges_okD:
  assumes "ranges_ok rs" "r \<in> set rs" "q \<in> set rs" "r \<noteq> q"
  shows "ranges_apart r q"
proof -
  have "ranges_apart r q \<or> ranges_apart q r"
    using assms unfolding ranges_ok_def by (metis in_set_conv_nth linorder_neqE_nat sorted_wrt_iff_nth_less)
  then show ?thesis by (auto simp: ranges_apart_def)
qed

lemma set_remove_range:
  assumes "ranges_ok rs" "r \<in> set rs"
  shows "set (remove_range (hr_begin r) rs) = set rs - {r}"
  using assms
proof (induction rs)
  case (Cons x rs)
  have ok: "ranges_ok rs" "\<forall>q \<in> set rs. ranges_apart x q" "hr_begin x < hr_end x"
    using Cons.prems(1) by (auto simp: ranges_ok_def)
  have pos: "\<forall>q \<in> set rs. hr_begin q < hr_end q" using Cons.prems(1) by (auto simp: ranges_ok_def)
  show ?case
  proof (cases "r = x")
    case True
    have "x \<notin> set rs" using ok(2,3) by (auto simp: ranges_apart_def)
    then show ?thesis using True by simp
  next
    case False
    then have "r \<in> set rs" using Cons.prems(2) by simp
    moreover from this have "hr_begin x \<noteq> hr_begin r" using ok(2,3) pos by (fastforce simp: ranges_apart_def)
    ultimately show ?thesis using Cons.IH ok(1) False by auto
  qed
qed simp

lemma range_step_ok:
  assumes "range_step A rs rs'" "ranges_ok rs"
  shows "ranges_ok rs'"
  using assms
proof (cases rule: range_step.cases)
  case (publish address len writable ok)
  show ?thesis
  proof (cases ok)
    case True
    let ?r = "\<lparr>hr_begin = address, hr_end = address + len, hr_writable = writable\<rparr>"
    have p: "rs' = rs @ [?r]" "0 < address" "0 < len" "address + len < two64"
      "\<forall>e \<in> set rs. \<not> (address < hr_end e \<and> hr_begin e < address + len)"
      using publish True by (auto simp: Bridge_PublishHostRange_def Let_def list_ex_iff split: if_splits)
    have "\<forall>e \<in> set rs. ranges_apart e ?r" using p(5) by (auto simp: ranges_apart_def not_less)
    then show ?thesis using assms(2) p by (auto simp: ranges_ok_def sorted_wrt_append)
  next
    case False
    then show ?thesis using publish assms(2) by (auto simp: Bridge_PublishHostRange_def Let_def split: if_splits)
  qed
next
  case (revoke address ok)
  then show ?thesis
    using assms(2) remove_range_ok by (auto simp: Bridge_RevokeHostRange_def split: if_splits)
qed

lemma range_steps_ok:
  assumes "(range_step A)\<^sup>*\<^sup>* rs rs'" "ranges_ok rs"
  shows "ranges_ok rs'"
  using assms by (induction rule: rtranclp_induct) (auto intro: range_step_ok)

lemma range_step_keeps:
  assumes "range_step (- {hr_begin r}) rs rs'" "r \<in> set rs"
  shows "r \<in> set rs'"
  using assms(1)
proof (cases rule: range_step.cases)
  case (publish address len writable ok)
  then show ?thesis using assms(2) by (auto simp: Bridge_PublishHostRange_def Let_def split: if_splits)
next
  case (revoke address ok)
  have "r \<in> set (remove_range address rs)" if "address \<noteq> hr_begin r"
    using assms(2) that by (induction rs) auto
  then show ?thesis using revoke assms(2) by (auto simp: Bridge_RevokeHostRange_def split: if_splits)
qed

lemma range_steps_keep:
  assumes "(range_step (- {hr_begin r}))\<^sup>*\<^sup>* rs rs'" "r \<in> set rs"
  shows "r \<in> set rs'"
  using assms by (induction rule: rtranclp_induct) (auto intro: range_step_keeps)

section \<open>Properties\<close>

text \<open>
  C32. A published host object may be accessed by the guest from its publication until it is revoked, and
  not afterwards: whatever else is published or revoked in between, every part of it is accepted by
  the check (for writing when it was published as writable); revoking its address then succeeds, and no
  range that touches it is accepted as a published one any more.
\<close>

theorem published_range_lifecycle:
  assumes "(range_step UNIV)\<^sup>*\<^sup>* [] rs" "Bridge_PublishHostRange a n w rs = (True, rs1)"
    "(range_step (- {a}))\<^sup>*\<^sup>* rs1 rs2" "Bridge_RevokeHostRange a rs2 = (ok, rs3)"
  shows "(\<forall>x k wr. a \<le> x \<and> 0 < k \<and> x + k \<le> a + n \<longrightarrow>
      ValidatePublishedHostRange x k wr rs2 = (wr \<longrightarrow> w) \<and> ((wr \<longrightarrow> w) \<longrightarrow> ValidateRange v rs2 x k wr)) \<and>
    ok \<and> (\<forall>x k wr. 0 < k \<and> x < a + n \<and> a < x + k \<longrightarrow> \<not> ValidatePublishedHostRange x k wr rs3)"
proof -
  let ?r = "\<lparr>hr_begin = a, hr_end = a + n, hr_writable = w\<rparr>"
  have p: "rs1 = rs @ [?r]" "0 < a" "0 < n" "a + n < two64"
    using assms(2) by (auto simp: Bridge_PublishHostRange_def Let_def split: if_splits)
  have "range_step UNIV rs rs1" by (rule range_step.publish [OF assms(2)])
  then have "ranges_ok rs1" using range_step_ok range_steps_ok [OF assms(1) ranges_ok_Nil] by blast
  then have ok2: "ranges_ok rs2" by (rule range_steps_ok [OF assms(3)])
  have mem: "?r \<in> set rs2" using range_steps_keep [of ?r rs1 rs2] assms(3) p(1) by simp
  have only: "q = ?r" if "q \<in> set rs2" "hr_begin q \<le> x" "x < hr_end q" "a \<le> x" "x < a + n" for q x
    using ranges_okD [OF ok2 that(1) mem] that by (auto simp: ranges_apart_def)
  have val: "ValidatePublishedHostRange x k wr rs2 = (wr \<longrightarrow> w)" if x: "a \<le> x" "0 < k" "x + k \<le> a + n" for x k wr
  proof -
    have "(\<exists>q \<in> set rs2. hr_begin q \<le> x \<and> x + k \<le> hr_end q \<and> (\<not> wr \<or> hr_writable q)) \<longleftrightarrow> (wr \<longrightarrow> w)"
      (is "?L \<longleftrightarrow> _")
    proof
      assume ?L
      then obtain q where q: "q \<in> set rs2" "hr_begin q \<le> x" "x + k \<le> hr_end q" "\<not> wr \<or> hr_writable q" by blast
      then have "q = ?r" by (intro only [of q x]) (use x in auto)
      then show "wr \<longrightarrow> w" using q(4) by simp
    next
      assume "wr \<longrightarrow> w"
      then show ?L using mem x by (intro bexI [of _ ?r]) auto
    qed
    moreover have "\<not> (x = 0 \<or> k = 0 \<or> x > two64 - 1 - k)" using x p(2,4) by auto
    ultimately show ?thesis by (simp add: ValidatePublishedHostRange_def Let_def list_ex_iff)
  qed
  have rm: "ok" "set rs3 = set rs2 - {?r}"
    using assms(4) mem p(2) set_remove_range [OF ok2 mem] by (auto simp: Bridge_RevokeHostRange_def list_ex_iff split: if_splits)
  have "\<not> ValidatePublishedHostRange x k wr rs3" if x: "0 < k" "x < a + n" "a < x + k" for x k wr
  proof
    assume "ValidatePublishedHostRange x k wr rs3"
    then obtain q where q: "q \<in> set rs3" "hr_begin q \<le> x" "x + k \<le> hr_end q"
      by (auto simp: ValidatePublishedHostRange_def Let_def list_ex_iff split: if_splits)
    have "q = ?r" by (rule only [of q "max x a"]) (use q rm x p(3) in auto)
    then show False using q(1) rm(2) by simp
  qed
  then show ?thesis using val rm(1) by (auto simp: ValidateRange_def)
qed

theorem published_range_lifecycle_witness:
  "let rs1 = snd (Bridge_PublishHostRange 0x5000 0x20 True []); rs2 = snd (Bridge_PublishHostRange 0x5020 8 False rs1)
   in ValidateRange None rs2 0x5008 8 True \<and>
      \<not> ValidatePublishedHostRange 0x5018 0x10 False (snd (Bridge_RevokeHostRange 0x5000 rs2))"
proof -
  let ?a = "\<lparr>hr_begin = 0x5000, hr_end = 0x5020, hr_writable = True\<rparr>"
  let ?b = "\<lparr>hr_begin = 0x5020, hr_end = 0x5028, hr_writable = False\<rparr>"
  have 1: "Bridge_PublishHostRange 0x5000 0x20 True [] = (True, [?a])"
    by (simp add: Bridge_PublishHostRange_def)
  have 2: "Bridge_PublishHostRange 0x5020 8 False [?a] = (True, [?a, ?b])"
    by (simp add: Bridge_PublishHostRange_def)
  have 3: "Bridge_RevokeHostRange 0x5000 [?a, ?b] = (True, [?b])" by (simp add: Bridge_RevokeHostRange_def)
  have s: "(range_step (- {0x5000}))\<^sup>*\<^sup>* [?a] [?a, ?b]" by (rule r_into_rtranclp, rule range_step.publish [OF 2])
  show ?thesis
    unfolding 1 2 3 Let_def snd_conv using published_range_lifecycle [OF rtranclp.rtrancl_refl 1 s 3, of None] by simp
qed

end
