(* ===== verification/Guest_Run.thy ===== *)
theory Guest_Run
  imports Guest_Validation Hle_Veneer Guest_Bridge
begin

text \<open>
  Running guest code: the part of \<open>src/src/core/linker.cpp\<close> that prepares a call of a guest function
  (\<open>RunGuestFunction\<close>, \<open>RunGuestMain\<close> and their helpers).

  The engine that executes guest code is a record of functions: a nested call in a thread that already
  runs guest code, a run of a request, and the addresses of its return code.  It takes and returns the
  world it changes: the memory manager, the bytes of guest memory, the cache of checked ranges and
  the state \<open>'x\<close> of the rest of the host.
\<close>

section \<open>Data\<close>

datatype GuestExecutionStage = StageRequest | StageMapping | StageThread | StageExecute | StageTeardown
datatype GuestStopReason = StopReturned | StopHalted | StopFaulted

type_synonym GuestExecutionFailure = "GuestExecutionStage \<times> Errno"

record GuestExecutionRequest =
  req_Rip :: u64
  req_Rsp :: u64
  req_Gpr :: "reg list"
  req_Rflags :: reg
  req_FsBase :: u64
  req_MappedRanges :: "GuestExecutionRange list"

record GuestExecutionState =
  st_Rip :: u64
  st_LastRip :: u64
  st_Rsp :: u64
  st_Gpr :: "reg list"
  st_StopReason :: GuestStopReason

record 'x GuestWorld =
  gw_memory :: MemoryManager
  gw_bytes :: GuestBytes
  gw_cache :: GuestMemoryValidationCache
  gw_host :: 'x

record 'x FexBackend =
  fex_CallGuest :: "u64 \<Rightarrow> reg list \<Rightarrow> 'x GuestWorld \<Rightarrow> (GuestExecutionFailure + GuestExecutionState) \<times> 'x GuestWorld"
  fex_Run :: "GuestExecutionRequest \<Rightarrow> 'x GuestWorld \<Rightarrow>
    ((GuestExecutionFailure + GuestExecutionState) \<times> 'x GuestWorld) option"
  fex_ReturnAddress :: u64
  fex_ReturnRange :: GuestExecutionRange
  fex_CallbackReturnRange :: GuestExecutionRange

section \<open>Executable and writable ranges\<close>

definition SealGuestExecutableMemory :: "u64 \<Rightarrow> u64 \<Rightarrow> MemoryManager \<Rightarrow> (bool \<times> MemoryManager) option" where
  "SealGuestExecutableMemory b len s = do {
     (r, s1) \<leftarrow> SealGuestExecutable b len s;
     Some (r = ORBIS_OK, s1) }"

definition QueryGuestMemoryRange ::
  "u64 \<Rightarrow> bool \<Rightarrow> bool \<Rightarrow> MemoryManager \<Rightarrow> (GuestExecutionRange option \<times> MemoryManager) option" where
  "QueryGuestMemoryRange address executable writable s = do {
     q \<leftarrow> QueryProtection address s;
     (case q of
        Inl e \<Rightarrow> Some (None, s)
      | Inr i \<Rightarrow>
          if executable \<and> (pr_prot i AND CpuExec = 0 \<or> pr_prot i AND CpuWrite \<noteq> 0) then Some (None, s)
          else if writable \<and> (pr_prot i AND CpuWrite = 0 \<or> pr_prot i AND CpuExec \<noteq> 0) then Some (None, s)
          else if pr_start i = 0 \<or> pr_end i \<le> pr_start i then Some (None, s)
          else do {
            (sealed, s1) \<leftarrow> (if executable then SealGuestExecutableMemory (pr_start i) (pr_end i - pr_start i) s
                            else Some (True, s));
            Some (if sealed then Some \<lparr>ge_begin = pr_start i, ge_size = pr_end i - pr_start i,
                    ge_executable = executable, ge_writable = writable\<rparr> else None, s1) }) }"

text \<open>The query the engine makes when it meets code it has not seen: veneers first, then guest memory.\<close>

definition QueryGuestExecutableMemory ::
  "HleVeneerAllocator option \<Rightarrow> u64 \<Rightarrow> MemoryManager option \<Rightarrow>
     (GuestExecutionRange option \<times> MemoryManager option) option" where
  "QueryGuestExecutableMemory vs address mm =
     (if address = 0 then Some (None, mm)
      else case Option.bind vs (QueryExecutableRange address) of
        Some r \<Rightarrow> Some (Some r, mm)
      | None \<Rightarrow> (case mm of
          None \<Rightarrow> Some (None, None)
        | Some s \<Rightarrow> map_option (\<lambda>(r, s1). (r, Some s1)) (QueryGuestMemoryRange address True False s)))"

text \<open>
  Sorting is stable here; where the code's is not, only the error of a list with equal starts depends
  on it.
\<close>

fun check_ranges :: "GuestExecutionRange option \<Rightarrow> GuestExecutionRange list \<Rightarrow> GuestExecutionFailure option" where
  "check_ranges previous [] = None"
| "check_ranges previous (r # rs) =
     (if ge_begin r = 0 \<or> ge_size r = 0 \<or> add64 (ge_begin r) (ge_size r) < ge_begin r then Some (StageMapping, E_INVAL)
      else case previous of
        Some p \<Rightarrow> if add64 (ge_begin p) (ge_size p) > ge_begin r then Some (StageMapping, E_ACCES)
                  else check_ranges (Some r) rs
      | None \<Rightarrow> check_ranges (Some r) rs)"

definition NormalizeGuestRanges ::
  "GuestExecutionRange list \<Rightarrow> GuestExecutionFailure option \<times> GuestExecutionRange list" where
  "NormalizeGuestRanges ranges = (let rs = sort_key ge_begin ranges in (check_ranges None rs, rs))"

section \<open>Calling a guest function\<close>

fun set_registers :: "reg list \<Rightarrow> nat list \<Rightarrow> reg list \<Rightarrow> reg list" where
  "set_registers g (r # rs) (a # as) = set_registers (g[r := a]) rs as"
| "set_registers g rs as = g"

definition SetGuestIntegerArguments :: "GuestExecutionRequest \<Rightarrow> reg list \<Rightarrow> GuestExecutionRequest" where
  "SetGuestIntegerArguments request arguments =
     request\<lparr>req_Gpr := set_registers (req_Gpr request) [7, 6, 2, 1, 8, 9] arguments\<rparr>"

definition stackArgumentBytes :: "reg list \<Rightarrow> u64" where
  "stackArgumentBytes arguments = (if length arguments > 6 then length arguments - 6 else 0) * 8"

definition call_rsp :: "reg list \<Rightarrow> u64 \<Rightarrow> u64" where
  "call_rsp arguments stack_top = AlignDown (stack_top - stackArgumentBytes arguments) 16 - 8"

text \<open>The stores of the loop over the arguments on the stack, \<open>i\<close> being \<open>index - 5\<close>.\<close>

fun store_arguments :: "u64 \<Rightarrow> nat \<Rightarrow> reg list \<Rightarrow> GuestBytes \<Rightarrow> GuestBytes" where
  "store_arguments sp i [] m = m"
| "store_arguments sp i (a # as) m = store_arguments sp (i + 1) as (store64 (sp + 8 * i) a m)"

text \<open>
  The last part, which both entry points share: the ranges of code and stack, the registers, which
  \<open>regs\<close> sets, and the checked list of ranges; \<open>fs\<close> is the address of the thread control block, \<open>vs\<close>
  are the ranges of the veneers.
\<close>

definition make_request ::
  "'x FexBackend \<Rightarrow> u64 \<Rightarrow> u64 \<Rightarrow> (GuestExecutionRequest \<Rightarrow> GuestExecutionRequest) \<Rightarrow> u64 \<Rightarrow>
     GuestExecutionRange list \<Rightarrow> 'x GuestWorld \<Rightarrow>
     ((GuestExecutionFailure + GuestExecutionRequest) \<times> 'x GuestWorld) option" where
  "make_request fex entry sp regs fs vs w = do {
     (code, s1) \<leftarrow> QueryGuestMemoryRange entry True False (gw_memory w);
     (stack, s2) \<leftarrow> QueryGuestMemoryRange sp False True s1;
     let w1 = w\<lparr>gw_memory := s2\<rparr>;
     (if code = None \<or> stack = None then Some (Inl (StageMapping, E_FAULT), w1)
      else let request = regs \<lparr>req_Rip = entry, req_Rsp = sp, req_Gpr = replicate 16 0, req_Rflags = 2, req_FsBase = fs,
                 req_MappedRanges = []\<rparr>;
               (failure, ranges) = NormalizeGuestRanges
                 ([the code, the stack, fex_ReturnRange fex, fex_CallbackReturnRange fex] @ vs)
           in Some (case failure of
                Some f \<Rightarrow> (Inl f, w1)
              | None \<Rightarrow> (Inr (request\<lparr>req_MappedRanges := ranges\<rparr>), w1))) }"

text \<open>From the checks of the request to the one that is run; \<open>owner\<close> is the address of the memory manager.\<close>

definition prepare_call ::
  "'x FexBackend \<Rightarrow> nat \<Rightarrow> u64 \<Rightarrow> reg list \<Rightarrow> u64 \<Rightarrow> u64 \<Rightarrow> GuestExecutionRange list \<Rightarrow> 'x GuestWorld \<Rightarrow>
     ((GuestExecutionFailure + GuestExecutionRequest) \<times> 'x GuestWorld) option" where
  "prepare_call fex owner entry arguments stack_top fs vs w =
     (if length arguments > 32 \<or> stack_top < 0x1000 then Some (Inl (StageRequest, E_2BIG), w)
      else if stack_top < stackArgumentBytes arguments + 8 then Some (Inl (StageRequest, E_OVERFLOW), w)
      else let sp = call_rsp arguments stack_top in do {
        (ok, cache) \<leftarrow> ValidateGuestMemory owner sp (8 + stackArgumentBytes arguments) True (gw_memory w) (gw_cache w);
        let w1 = w\<lparr>gw_cache := cache\<rparr>;
        (if \<not> ok \<or> fex_ReturnAddress fex = 0 then Some (Inl (StageMapping, E_FAULT), w1)
         else make_request fex entry sp (\<lambda>q. SetGuestIntegerArguments q arguments) fs vs
                (w1\<lparr>gw_bytes := store_arguments sp 1 (drop 6 arguments)
                        (store64 sp (of_nat (fex_ReturnAddress fex)) (gw_bytes w1))\<rparr>)) })"

text \<open>The run, and the check that it ended in the return code.\<close>

definition run_call ::
  "'x FexBackend \<Rightarrow> nat \<Rightarrow> u64 \<Rightarrow> reg list \<Rightarrow> u64 \<Rightarrow> u64 \<Rightarrow> GuestExecutionRange list \<Rightarrow> 'x GuestWorld \<Rightarrow>
     ((GuestExecutionFailure + reg) \<times> 'x GuestWorld) option" where
  "run_call fex owner entry arguments stack_top fs vs w = do {
     (p, w1) \<leftarrow> prepare_call fex owner entry arguments stack_top fs vs w;
     (case p of
        Inl f \<Rightarrow> Some (Inl f, w1)
      | Inr request \<Rightarrow> do {
          (r, w2) \<leftarrow> fex_Run fex request w1;
          Some (case r of
            Inl f \<Rightarrow> (Inl f, w2)
          | Inr st \<Rightarrow>
              if st_StopReason st \<noteq> StopHalted \<or> st_Rip st < fex_ReturnAddress fex \<or>
                 st_Rip st \<ge> fex_ReturnAddress fex + 0x1000
              then (Inl (StageExecute, E_PROTO), w2) else (Inr (st_Gpr st ! 0), w2)) }) }"

abbreviation FexTemporaryStackSize :: u64 where "FexTemporaryStackSize \<equiv> MB1"

text \<open>
  \<open>GuestStackMapping\<close>: the constructor maps a stack, the destructor unmaps it on every way out; its
  error is only logged.
\<close>

definition GuestStackMapping_open ::
  "u64 \<Rightarrow> string \<Rightarrow> MemoryManager \<Rightarrow> ((s32 + u64) \<times> MemoryManager) option" where
  "GuestStackMapping_open sz name s = MapMemory 0 sz CpuReadWrite 0 Stack name False minus_one64 0 s"

definition GuestStackMapping_close :: "u64 \<Rightarrow> u64 \<Rightarrow> MemoryManager \<Rightarrow> MemoryManager option" where
  "GuestStackMapping_close base sz s =
     (if base \<noteq> 0 then do { (r, s1) \<leftarrow> UnmapMemory base sz s; Some s1 } else Some s)"

definition RunGuestFunction ::
  "GuestExecutionFailure option \<Rightarrow> 'x FexBackend \<Rightarrow> nat \<Rightarrow> u64 \<Rightarrow> reg list \<Rightarrow> u64 \<Rightarrow> u64 \<Rightarrow>
     GuestExecutionRange list \<Rightarrow> 'x GuestWorld \<Rightarrow> ((GuestExecutionFailure + reg) \<times> 'x GuestWorld) option" where
  "RunGuestFunction init fex owner entry arguments stack_top fs vs w = (case init of
     Some f \<Rightarrow> Some (Inl f, w)
   | None \<Rightarrow> (case fex_CallGuest fex entry arguments w of
       (Inr st, w1) \<Rightarrow> Some (Inr (st_Gpr st ! 0), w1)
     | (Inl f, w1) \<Rightarrow>
         if f \<noteq> (StageThread, E_NXIO) then Some (Inl f, w1)
         else if stack_top \<noteq> 0 then run_call fex owner entry arguments stack_top fs vs w1
         else do {
           (m, s1) \<leftarrow> GuestStackMapping_open FexTemporaryStackSize ''FEX guest call stack'' (gw_memory w1);
           (case m of
              Inl e \<Rightarrow> Some (Inl (StageMapping, if e = 0 then E_NOMEM else E_OTHER e), w1\<lparr>gw_memory := s1\<rparr>)
            | Inr base \<Rightarrow>
                if base = 0 then Some (Inl (StageMapping, E_NOMEM), w1\<lparr>gw_memory := s1\<rparr>)
                else do {
                  (r, w2) \<leftarrow> run_call fex owner entry arguments (base + FexTemporaryStackSize) fs vs (w1\<lparr>gw_memory := s1\<rparr>);
                  s2 \<leftarrow> GuestStackMapping_close base FexTemporaryStackSize (gw_memory w2);
                  Some (r, w2\<lparr>gw_memory := s2\<rparr>) }) }))"

section \<open>Running the program\<close>

text \<open>
  \<open>EntryParams\<close>, with the strings that the pointers of \<open>argv\<close> point to in the host; 33 of them.
\<close>

record EntryParams =
  ep_argc :: s32
  ep_padding :: u32
  ep_argv :: "(u64 \<times> string) list"
  ep_entry_addr :: u64

definition string_bytes :: "string \<Rightarrow> 8 word list" where
  "string_bytes s = map of_char s @ [0]"

text \<open>
  The loop from the last argument to the first: each string goes below the one before it, and its
  address into the copy of \<open>argv\<close>.
\<close>

fun copy_argv ::
  "nat \<Rightarrow> (u64 \<times> string) list \<Rightarrow> u64 \<Rightarrow> u64 list \<Rightarrow> GuestBytes \<Rightarrow> (u64 \<times> u64 list \<times> GuestBytes) option" where
  "copy_argv 0 argv cursor ptrs m = Some (cursor, ptrs, m)"
| "copy_argv (Suc i) argv cursor ptrs m =
     (if fst (argv ! i) = 0 then copy_argv i argv cursor (ptrs[i := 0]) m
      else let len = length (snd (argv ! i)) + 1 in
        if cursor < len then None
        else copy_argv i argv (cursor - len) (ptrs[i := cursor - len])
               (write_bytes (cursor - len) (string_bytes (snd (argv ! i))) m))"

text \<open>The bytes of the structure: \<open>argc\<close>, the padding, the pointers, the entry address.\<close>

definition bytes_of :: "nat \<Rightarrow> reg \<Rightarrow> 8 word list" where
  "bytes_of n v = map (\<lambda>i. ucast (drop_bit (8 * i) v)) [0..<n]"

definition params_bytes :: "EntryParams \<Rightarrow> u64 list \<Rightarrow> 8 word list" where
  "params_bytes p ptrs = bytes_of 4 (word_of_int (ep_argc p)) @ bytes_of 4 (ucast (ep_padding p)) @
     concat (map (\<lambda>a. bytes_of 8 (of_nat a)) ptrs) @ bytes_of 8 (of_nat (ep_entry_addr p))"

definition main_stack_size :: "nat option \<Rightarrow> u64" where
  "main_stack_size main_thread_stack_size = (case main_thread_stack_size of
     None \<Rightarrow> FexTemporaryStackSize
   | Some n \<Rightarrow> AlignUp (max KB64 (min (64 * MB1) n)) KB16)"

text \<open>
  \<open>RunGuestMain\<close> from the mapped stack on: the strings, the parameters and the first two words of them
  at the stack pointer, then the run.  \<open>in_module\<close> tells whether an address lies in a loaded module; the
  flag of the result is \<open>g_deliberate_guest_halt\<close>.
\<close>

definition main_on_stack ::
  "'x FexBackend \<Rightarrow> (u64 \<Rightarrow> bool) \<Rightarrow> u64 \<Rightarrow> EntryParams \<Rightarrow> u64 \<Rightarrow> u64 \<Rightarrow> GuestExecutionRange list \<Rightarrow> 'x GuestWorld \<Rightarrow>
     ((GuestExecutionFailure + reg \<times> bool) \<times> 'x GuestWorld) option" where
  "main_on_stack fex in_module exit_veneer p stack_top fs vs w =
     (case copy_argv (nat (ep_argc p)) (ep_argv p) stack_top (map fst (ep_argv p)) (gw_bytes w) of
        None \<Rightarrow> Some (Inl (StageMapping, E_OVERFLOW), w)
      | Some (cursor, ptrs, m) \<Rightarrow>
          let guestParams = params_bytes p ptrs;
              params_at = AlignDown (sub64 cursor 280) 16;
              m1 = write_bytes params_at guestParams m
          in if params_at < 24 then Some (Inl (StageMapping, E_OVERFLOW), w\<lparr>gw_bytes := m1\<rparr>)
          else let sp = AlignDown (params_at - 24) 16 + 8 in do {
            (q, w1) \<leftarrow> make_request fex (ep_entry_addr p) sp
              (\<lambda>q. q\<lparr>req_Gpr := (req_Gpr q)[7 := of_nat params_at, 6 := of_nat exit_veneer]\<rparr>) fs vs
              (w\<lparr>gw_bytes := write_bytes sp (take 16 guestParams) m1\<rparr>);
            (case q of
               Inl f \<Rightarrow> Some (Inl f, w1)
             | Inr request \<Rightarrow> do {
                 (r, w2) \<leftarrow> fex_Run fex request w1;
                 Some (case r of
                   Inl f \<Rightarrow> (Inl f, w2)
                 | Inr st \<Rightarrow> (Inr (st_Gpr st ! 0, in_module (st_Rip st)), w2)) }) })"

definition RunGuestMain ::
  "GuestExecutionFailure option \<Rightarrow> 'x FexBackend \<Rightarrow> (u64 \<Rightarrow> bool) \<Rightarrow> u64 \<Rightarrow> nat option \<Rightarrow> EntryParams option \<Rightarrow> u64 \<Rightarrow>
     GuestExecutionRange list \<Rightarrow> 'x GuestWorld \<Rightarrow> ((GuestExecutionFailure + reg \<times> bool) \<times> 'x GuestWorld) option" where
  "RunGuestMain init fex in_module exit_veneer stack_size params fs vs w = (case params of
     None \<Rightarrow> Some (Inl (StageRequest, E_INVAL), w)
   | Some p \<Rightarrow>
       if ep_entry_addr p = 0 \<or> ep_argc p < 0 \<or> ep_argc p > 33 then Some (Inl (StageRequest, E_INVAL), w)
       else (case init of
         Some f \<Rightarrow> Some (Inl f, w)
       | None \<Rightarrow> do {
           (m, s1) \<leftarrow> GuestStackMapping_open (main_stack_size stack_size) ''FEX main guest stack'' (gw_memory w);
           let w1 = w\<lparr>gw_memory := s1\<rparr>;
           (case m of
              Inl e \<Rightarrow> Some (Inl (StageMapping, if e = 0 then E_NOMEM else E_OTHER e), w1)
            | Inr base \<Rightarrow>
                if base = 0 then Some (Inl (StageMapping, E_NOMEM), w1)
                else do {
                  (r, w2) \<leftarrow> main_on_stack fex in_module exit_veneer p (base + main_stack_size stack_size) fs vs w1;
                  s2 \<leftarrow> GuestStackMapping_close base (main_stack_size stack_size) (gw_memory w2);
                  Some (r, w2\<lparr>gw_memory := s2\<rparr>) }) }))"

text \<open>
  The guest finds its arguments: every string lies between the new cursor and the old one, at the
  address that its pointer has, and no other pointer changes.
\<close>

lemma copy_argv_strings:
  assumes "copy_argv n argv cursor ptrs m = Some (cursor', ptrs', m')" "n \<le> length ptrs" "length ptrs = length argv"
  shows "cursor' \<le> cursor \<and> length ptrs' = length ptrs \<and> (\<forall>i. n \<le> i \<longrightarrow> i < length ptrs \<longrightarrow> ptrs' ! i = ptrs ! i) \<and>
    (\<forall>a. \<not> (cursor' \<le> a \<and> a < cursor) \<longrightarrow> m' a = m a) \<and>
    (\<forall>i < n. if fst (argv ! i) = 0 then ptrs' ! i = 0
       else cursor' \<le> ptrs' ! i \<and> ptrs' ! i + length (snd (argv ! i)) + 1 \<le> cursor \<and>
         map (\<lambda>k. m' (ptrs' ! i + k)) [0..<length (snd (argv ! i)) + 1] = string_bytes (snd (argv ! i)))"
  using assms
proof (induction n arbitrary: cursor ptrs m)
  case (Suc n)
  show ?case
  proof (cases "fst (argv ! n) = 0")
    case True
    then have "copy_argv n argv cursor (ptrs[n := 0]) m = Some (cursor', ptrs', m')" using Suc.prems(1) by simp
    from Suc.IH [OF this] Suc.prems(2,3) True show ?thesis by (auto simp: less_Suc_eq)
  next
    case False
    define len where "len = length (snd (argv ! n)) + 1"
    have bytes: "length (string_bytes (snd (argv ! n))) = len" by (simp add: string_bytes_def len_def)
    have le: "len \<le> cursor" and c: "copy_argv n argv (cursor - len) (ptrs[n := cursor - len])
        (write_bytes (cursor - len) (string_bytes (snd (argv ! n))) m) = Some (cursor', ptrs', m')"
      using Suc.prems(1) False by (auto simp: len_def Let_def split: if_splits)
    have IH: "cursor' \<le> cursor - len" "length ptrs' = length ptrs" "\<forall>i. n \<le> i \<longrightarrow> i < length ptrs \<longrightarrow> ptrs' ! i = ptrs[n := cursor - len] ! i"
      "\<forall>a. \<not> (cursor' \<le> a \<and> a < cursor - len) \<longrightarrow> m' a = write_bytes (cursor - len) (string_bytes (snd (argv ! n))) m a"
      "\<forall>i < n. if fst (argv ! i) = 0 then ptrs' ! i = 0
       else cursor' \<le> ptrs' ! i \<and> ptrs' ! i + length (snd (argv ! i)) + 1 \<le> cursor - len \<and>
         map (\<lambda>k. m' (ptrs' ! i + k)) [0..<length (snd (argv ! i)) + 1] = string_bytes (snd (argv ! i))"
      using Suc.IH [OF c] Suc.prems(2,3) by auto
    have p: "ptrs' ! n = cursor - len" using IH(3) Suc.prems(2) by simp
    have "map (\<lambda>k. m' (ptrs' ! n + k)) [0..<len] = string_bytes (snd (argv ! n))"
      using write_bytes_same [of "cursor - len" "string_bytes (snd (argv ! n))" m] IH(4) unfolding p bytes by simp
    then have n: "cursor' \<le> ptrs' ! n \<and> ptrs' ! n + length (snd (argv ! n)) + 1 \<le> cursor \<and>
         map (\<lambda>k. m' (ptrs' ! n + k)) [0..<length (snd (argv ! n)) + 1] = string_bytes (snd (argv ! n))"
      using p IH(1) le by (simp add: len_def del: upt_Suc)
    have out: "m' a = m a" if "\<not> (cursor' \<le> a \<and> a < cursor)" for a
    proof -
      have "\<not> (cursor' \<le> a \<and> a < cursor - len)" "\<not> (cursor - len \<le> a \<and> a < cursor - len + len)" using that IH(1) le by auto
      then show ?thesis using IH(4) [rule_format, of a] by (auto simp: write_bytes_def bytes)
    qed
    have old: "if fst (argv ! i) = 0 then ptrs' ! i = 0
       else cursor' \<le> ptrs' ! i \<and> ptrs' ! i + length (snd (argv ! i)) + 1 \<le> cursor \<and>
         map (\<lambda>k. m' (ptrs' ! i + k)) [0..<length (snd (argv ! i)) + 1] = string_bytes (snd (argv ! i))" if "i < n" for i
      using IH(5) that by (auto split: if_splits)
    have rest: "\<forall>i. Suc n \<le> i \<longrightarrow> i < length ptrs \<longrightarrow> ptrs' ! i = ptrs ! i" using IH(3) by simp
    have all: "\<forall>i < Suc n. if fst (argv ! i) = 0 then ptrs' ! i = 0
       else cursor' \<le> ptrs' ! i \<and> ptrs' ! i + length (snd (argv ! i)) + 1 \<le> cursor \<and>
         map (\<lambda>k. m' (ptrs' ! i + k)) [0..<length (snd (argv ! i)) + 1] = string_bytes (snd (argv ! i))" (is "\<forall>i < Suc n. ?Q i")
    proof (intro allI impI)
      fix i assume "i < Suc n"
      then consider "i = n" | "i < n" by linarith
      then show "?Q i"
      proof cases
        case 1
        then show ?thesis unfolding 1 if_not_P [OF False] by (intro n)
      qed (rule old)
    qed
    have le': "cursor' \<le> cursor" using IH(1) by simp
    have "\<forall>a. \<not> (cursor' \<le> a \<and> a < cursor) \<longrightarrow> m' a = m a" using out by blast
    then show ?thesis by (intro conjI le' IH(2) rest all)
  qed
qed simp

section \<open>The frame\<close>

lemma stackArgumentBytes_eq: "stackArgumentBytes arguments = 8 * (length arguments - 6)"
  by (simp add: stackArgumentBytes_def)

lemma call_rsp_facts:
  assumes "0x1000 \<le> stack_top" "length arguments \<le> 32"
  shows "16 dvd call_rsp arguments stack_top + 8" "call_rsp arguments stack_top + 8 + stackArgumentBytes arguments \<le> stack_top"
    "0 < call_rsp arguments stack_top" "stack_top < call_rsp arguments stack_top + 8 + stackArgumentBytes arguments + 16"
proof -
  let ?t = "stack_top - stackArgumentBytes arguments"
  have t: "0x1000 - 208 \<le> ?t" "stackArgumentBytes arguments \<le> 208" using assms by (simp_all add: stackArgumentBytes_eq)
  have "?t mod 16 < 16" "?t mod 16 \<le> ?t" by simp_all
  then have d: "16 dvd AlignDown ?t 16" "AlignDown ?t 16 \<le> ?t" "?t < AlignDown ?t 16 + 16"
    using AlignDown_dvd [of 16 ?t] AlignDown_le [of ?t 16] by (auto simp: AlignDown_def)
  have c: "call_rsp arguments stack_top + 8 = AlignDown ?t 16" using d t by (simp add: call_rsp_def)
  show "16 dvd call_rsp arguments stack_top + 8" unfolding c by (rule d(1))
  show "call_rsp arguments stack_top + 8 + stackArgumentBytes arguments \<le> stack_top" using c d(2) t assms by simp
  show "0 < call_rsp arguments stack_top" using c d t by linarith
  show "stack_top < call_rsp arguments stack_top + 8 + stackArgumentBytes arguments + 16" using c d t by linarith
qed

lemma store_arguments_below: "a + 8 \<le> sp + 8 * i \<Longrightarrow> load64 (store_arguments sp i as m) a = load64 m a"
  by (induction sp i as m rule: store_arguments.induct) (simp_all add: load64_store64_other)

lemma store_arguments_nth:
  "k < length as \<Longrightarrow> load64 (store_arguments sp i as m) (sp + 8 * (i + k)) = as ! k"
proof (induction sp i as m arbitrary: k rule: store_arguments.induct)
  case (2 sp i a as m)
  then show ?case
    by (cases k) (simp_all add: store_arguments_below load64_store64_same)
qed simp

lemma set_registers_other: "r \<notin> set rs \<Longrightarrow> set_registers g rs as ! r = g ! r"
  by (induction g rs as rule: set_registers.induct) auto

lemma length_set_registers [simp]: "length (set_registers g rs as) = length g"
  by (induction g rs as rule: set_registers.induct) auto

lemma set_registers_nth:
  "distinct rs \<Longrightarrow> \<forall>r \<in> set rs. r < length g \<Longrightarrow> i < length rs \<Longrightarrow> i < length as \<Longrightarrow>
   set_registers g rs as ! (rs ! i) = as ! i"
proof (induction g rs as arbitrary: i rule: set_registers.induct)
  case (1 g r rs a as)
  then show ?case by (cases i) (auto simp: set_registers_other)
qed auto

section \<open>What a prepared call is\<close>

lemma SealGuestExecutable_state:
  "SealGuestExecutable b len s = Some (r, s1) \<Longrightarrow> s1 = s \<or> s1 = emit (AsProtect b len 5) s"
  by (auto simp: SealGuestExecutable_def emit_if_def bind_iff split: if_splits)

lemma QueryGuestMemoryRange_state:
  assumes "QueryGuestMemoryRange a ex wr s = Some (r, s1)"
  shows "vma_map s1 = vma_map s" "impl s1 = impl s" "mapping_generation s1 = mapping_generation s" "mm_wf s1 = mm_wf s"
proof -
  have "s1 = s \<or> (\<exists>b len. s1 = emit (AsProtect b len 5) s)"
  proof (cases "QueryProtection a s")
    case (Some p)
    show ?thesis
    proof (cases p)
      case (Inr i)
      have "s2 = s \<or> (\<exists>b len. s2 = emit (AsProtect b len 5) s)"
        if "SealGuestExecutableMemory b len s = Some (x, s2)" for b len x s2
        using that by (auto simp: SealGuestExecutableMemory_def bind_iff dest!: SealGuestExecutable_state)
      then show ?thesis using assms Some Inr by (auto simp: QueryGuestMemoryRange_def bind_iff split: if_splits)
    qed (use assms Some in \<open>simp add: QueryGuestMemoryRange_def\<close>)
  qed (use assms in \<open>simp add: QueryGuestMemoryRange_def\<close>)
  then show "vma_map s1 = vma_map s" "impl s1 = impl s" "mapping_generation s1 = mapping_generation s" "mm_wf s1 = mm_wf s"
    by auto
qed

lemma QueryGuestMemoryRange_range:
  assumes wf: "mm_wf s" and q: "QueryGuestMemoryRange a ex wr s = Some (Some g, s1)"
  shows "ge_executable g = ex" "ge_writable g = wr" "SystemManagedVirtualBase (impl s) \<le> a" "ge_begin g \<le> a"
    "vma_at s a \<noteq> None \<Longrightarrow> a < ge_begin g + ge_size g" "ge_begin g + ge_size g < two64"
    "\<forall>x \<in> {ge_begin g..<ge_begin g + ge_size g}. \<exists>i. vma_at s x = Some i \<and> i_type i \<noteq> VFree \<and>
       (ex \<longrightarrow> i_prot i AND CpuExec \<noteq> 0 \<and> i_prot i AND CpuWrite = 0) \<and>
       (wr \<longrightarrow> i_prot i AND CpuWrite \<noteq> 0 \<and> i_prot i AND CpuExec = 0)"
proof -
  obtain i where i: "QueryProtection a s = Some (Inr i)"
    "g = \<lparr>ge_begin = pr_start i, ge_size = pr_end i - pr_start i, ge_executable = ex, ge_writable = wr\<rparr>"
    "ex \<longrightarrow> pr_prot i AND CpuExec \<noteq> 0 \<and> pr_prot i AND CpuWrite = 0"
    "wr \<longrightarrow> pr_prot i AND CpuWrite \<noteq> 0 \<and> pr_prot i AND CpuExec = 0" "pr_start i < pr_end i"
  proof (cases "QueryProtection a s")
    case (Some p)
    then obtain i where "p = Inr i" using q by (cases p) (auto simp: QueryGuestMemoryRange_def)
    then show ?thesis
      using q Some by (intro that [of i]) (auto simp: QueryGuestMemoryRange_def bind_iff not_le split: if_splits)
  qed (use q in \<open>simp add: QueryGuestMemoryRange_def\<close>)
  show "ge_executable g = ex" "ge_writable g = wr" by (simp_all add: i(2))
  show "SystemManagedVirtualBase (impl s) \<le> a"
    using i(1) by (auto simp: QueryProtection_def split: if_splits)
  note A = QueryProtection_accurate [OF wf i(1)]
  show "ge_begin g \<le> a" using A(2) by (simp add: i(2))
  show "a < ge_begin g + ge_size g" if "vma_at s a \<noteq> None"
    using QueryProtection_covers [OF wf i(1)] that i(5) by (auto simp: i(2))
  have "pr_end i < two64" using i(1) by (auto simp: QueryProtection_def bind_iff add64_def split: if_splits)
  then show "ge_begin g + ge_size g < two64" using i(5) by (simp add: i(2))
  show "\<forall>x \<in> {ge_begin g..<ge_begin g + ge_size g}. \<exists>i. vma_at s x = Some i \<and> i_type i \<noteq> VFree \<and>
       (ex \<longrightarrow> i_prot i AND CpuExec \<noteq> 0 \<and> i_prot i AND CpuWrite = 0) \<and>
       (wr \<longrightarrow> i_prot i AND CpuWrite \<noteq> 0 \<and> i_prot i AND CpuExec = 0)"
  proof
    fix x assume "x \<in> {ge_begin g..<ge_begin g + ge_size g}"
    then have "pr_start i \<le> x \<and> x < pr_end i" using i(5) by (auto simp: i(2))
    then obtain j where "vma_at s x = Some j" "i_type j \<noteq> VFree" "i_prot j = pr_prot i"
      using A(3) unfolding accurate_def by auto
    then show "\<exists>i. vma_at s x = Some i \<and> i_type i \<noteq> VFree \<and>
       (ex \<longrightarrow> i_prot i AND CpuExec \<noteq> 0 \<and> i_prot i AND CpuWrite = 0) \<and>
       (wr \<longrightarrow> i_prot i AND CpuWrite \<noteq> 0 \<and> i_prot i AND CpuExec = 0)" using i(3,4) by auto
  qed
qed

text \<open>An executable range that is found has been sealed; a writable one leaves the state as it is.\<close>

lemma QueryGuestMemoryRange_sealed:
  assumes wf: "mm_wf s" and q: "QueryGuestMemoryRange a ex wr s = Some (Some g, s1)"
  shows "ex \<Longrightarrow> s1 = emit (AsProtect (ge_begin g) (ge_size g) 5) s \<and>
      (\<forall>x \<in> {ge_begin g..<ge_begin g + ge_size g}. \<exists>i. vma_at s x = Some i \<and> sealable i)"
    and "\<not> ex \<Longrightarrow> s1 = s"
proof -
  obtain i where i: "QueryProtection a s = Some (Inr i)" "ge_begin g = pr_start i" "ge_size g = pr_end i - pr_start i"
    "pr_start i < pr_end i" "ex \<Longrightarrow> SealGuestExecutable (pr_start i) (pr_end i - pr_start i) s = Some (ORBIS_OK, s1)"
    "\<not> ex \<Longrightarrow> s1 = s"
  proof (cases "QueryProtection a s")
    case (Some p)
    then obtain i where "p = Inr i" using q by (cases p) (auto simp: QueryGuestMemoryRange_def)
    then show ?thesis
      using q Some by (intro that [of i])
        (auto simp: QueryGuestMemoryRange_def SealGuestExecutableMemory_def bind_iff not_le split: if_splits)
  qed (use q in \<open>simp add: QueryGuestMemoryRange_def\<close>)
  show "s1 = s" if "\<not> ex" using i(6) that by blast
  have "vma_map s \<noteq> []" using i(1) by (auto simp: QueryProtection_def bind_iff FindVMA_def split: if_splits)
  moreover have "ge_begin g + ge_size g < two64" by (rule QueryGuestMemoryRange_range(6) [OF wf q])
  ultimately have iff: "SealGuestExecutable (pr_start i) (pr_end i - pr_start i) s =
    (if \<forall>a. pr_start i \<le> a \<and> a < pr_start i + (pr_end i - pr_start i) \<longrightarrow> (\<exists>i. vma_at s a = Some i \<and> sealable i)
     then Some (ORBIS_OK, emit (AsProtect (pr_start i) (pr_end i - pr_start i) 5) s) else Some (KERNEL_EACCES, s))"
    using i(2-4) by (intro SealGuestExecutable_iff_spec [OF wf]) auto
  show "s1 = emit (AsProtect (ge_begin g) (ge_size g) 5) s \<and>
      (\<forall>x \<in> {ge_begin g..<ge_begin g + ge_size g}. \<exists>i. vma_at s x = Some i \<and> sealable i)" if "ex"
    using i(5) [OF that] unfolding iff i(2,3) by (auto split: if_splits)
qed

text \<open>Ranges that pass are sorted and apart.\<close>

lemma check_ranges_None:
  "check_ranges previous rs = None \<Longrightarrow> \<forall>p. previous = Some p \<longrightarrow> ge_begin p + ge_size p < two64 \<Longrightarrow>
   \<forall>r \<in> set rs. ge_begin r < two64 \<and> ge_size r < two64 \<Longrightarrow>
   sorted_wrt (\<lambda>r q. ge_begin r + ge_size r \<le> ge_begin q) rs \<and>
   (\<forall>r \<in> set rs. 0 < ge_begin r \<and> 0 < ge_size r \<and> ge_begin r + ge_size r < two64 \<and>
      (\<forall>p. previous = Some p \<longrightarrow> ge_begin p + ge_size p \<le> ge_begin r))"
proof (induction rs arbitrary: previous)
  case (Cons r rs)
  have c: "check_ranges (Some r) rs = None" "0 < ge_begin r" "0 < ge_size r" "\<not> add64 (ge_begin r) (ge_size r) < ge_begin r"
    "\<And>p. previous = Some p \<Longrightarrow> add64 (ge_begin p) (ge_size p) \<le> ge_begin r"
    using Cons.prems(1) by (auto split: if_splits option.splits)
  have nw: "ge_begin r + ge_size r < two64"
  proof (rule ccontr)
    assume h: "\<not> ge_begin r + ge_size r < two64"
    have lt: "ge_begin r < two64" "ge_size r < two64" using Cons.prems(3) by simp_all
    then have "add64 (ge_begin r) (ge_size r) = ge_begin r + ge_size r - two64"
      using h by (simp add: add64_def le_mod_geq)
    then show False using c(4) lt h by linarith
  qed
  have p: "ge_begin p + ge_size p \<le> ge_begin r" if "previous = Some p" for p
    using c(5) [OF that] Cons.prems(2) that add64_exact [of "ge_begin p" "ge_size p"] by simp
  have IH: "sorted_wrt (\<lambda>r q. ge_begin r + ge_size r \<le> ge_begin q) rs"
    "\<And>q. q \<in> set rs \<Longrightarrow> 0 < ge_begin q \<and> 0 < ge_size q \<and> ge_begin q + ge_size q < two64 \<and> ge_begin r + ge_size r \<le> ge_begin q"
    using Cons.IH [OF c(1)] nw Cons.prems(3) by auto
  have "ge_begin p + ge_size p \<le> ge_begin q" if "previous = Some p" "q \<in> set rs" for p q
    using p [OF that(1)] IH(2) [OF that(2)] by linarith
  then show ?case using IH p c(2,3) nw by auto
qed simp

lemma prepare_callE:
  assumes "prepare_call fex owner entry arguments stack_top fs vs w = Some (Inr q, w')"
  obtains cache m code s1 stack s2 where
    "length arguments \<le> 32" "0x1000 \<le> stack_top"
    "ValidateGuestMemory owner (call_rsp arguments stack_top) (8 + stackArgumentBytes arguments) True (gw_memory w)
       (gw_cache w) = Some (True, cache)" "fex_ReturnAddress fex \<noteq> 0"
    "m = store_arguments (call_rsp arguments stack_top) 1 (drop 6 arguments)
       (store64 (call_rsp arguments stack_top) (of_nat (fex_ReturnAddress fex)) (gw_bytes w))"
    "QueryGuestMemoryRange entry True False (gw_memory w) = Some (Some code, s1)"
    "QueryGuestMemoryRange (call_rsp arguments stack_top) False True s1 = Some (Some stack, s2)"
    "w' = w\<lparr>gw_cache := cache, gw_bytes := m, gw_memory := s2\<rparr>"
    "check_ranges None (req_MappedRanges q) = None"
    "req_MappedRanges q = sort_key ge_begin ([code, stack, fex_ReturnRange fex, fex_CallbackReturnRange fex] @ vs)"
    "req_Rip q = entry" "req_Rsp q = call_rsp arguments stack_top"
    "req_Gpr q = set_registers (replicate 16 0) [7, 6, 2, 1, 8, 9] arguments"
proof -
  let ?sp = "call_rsp arguments stack_top"
  have c: "\<not> (length arguments > 32 \<or> stack_top < 0x1000)" "\<not> stack_top < stackArgumentBytes arguments + 8"
    using assms by (auto simp: prepare_call_def split: if_splits)
  note def = assms [unfolded prepare_call_def if_not_P [OF c(1)] if_not_P [OF c(2)] make_request_def Let_def]
  obtain cache where v: "ValidateGuestMemory owner ?sp (8 + stackArgumentBytes arguments) True (gw_memory w) (gw_cache w)
      = Some (True, cache)" "fex_ReturnAddress fex \<noteq> 0"
    using def by (auto simp: bind_iff split: if_splits)
  let ?m = "store_arguments ?sp 1 (drop 6 arguments) (store64 ?sp (of_nat (fex_ReturnAddress fex)) (gw_bytes w))"
  obtain code s1 stack s2 where r: "QueryGuestMemoryRange entry True False (gw_memory w) = Some (Some code, s1)"
    "QueryGuestMemoryRange ?sp False True s1 = Some (Some stack, s2)"
    using def v by (auto simp: bind_iff split: if_splits)
  let ?rs = "sort_key ge_begin ([code, stack, fex_ReturnRange fex, fex_CallbackReturnRange fex] @ vs)"
  have n: "check_ranges None ?rs = None"
    using def v r by (auto simp: NormalizeGuestRanges_def Let_def split: option.splits)
  show ?thesis
    by (rule that [OF _ _ v refl r]) (use def v r n c in \<open>auto simp: NormalizeGuestRanges_def SetGuestIntegerArguments_def Let_def\<close>)
qed

lemma prepare_call_arguments:
  assumes "prepare_call fex owner entry arguments stack_top fs vs w = Some (Inr q, w')"
  shows "load64 (gw_bytes w') (req_Rsp q) = of_nat (fex_ReturnAddress fex)"
    "i < length arguments \<Longrightarrow> i < 6 \<Longrightarrow> req_Gpr q ! ([7, 6, 2, 1, 8, 9] ! i) = arguments ! i"
    "i < length arguments \<Longrightarrow> 6 \<le> i \<Longrightarrow> load64 (gw_bytes w') (req_Rsp q + 8 * (i - 5)) = arguments ! i"
    "length (req_Gpr q) = 16"
proof -
  obtain m where m: "m = store_arguments (req_Rsp q) 1 (drop 6 arguments)
       (store64 (req_Rsp q) (of_nat (fex_ReturnAddress fex)) (gw_bytes w))"
    "gw_bytes w' = m" "req_Gpr q = set_registers (replicate 16 0) [7, 6, 2, 1, 8, 9] arguments"
    by (rule prepare_callE [OF assms]) simp
  show "load64 (gw_bytes w') (req_Rsp q) = of_nat (fex_ReturnAddress fex)"
    unfolding m(2) m(1) by (simp add: store_arguments_below load64_store64_same)
  show "req_Gpr q ! ([7, 6, 2, 1, 8, 9] ! i) = arguments ! i" if "i < length arguments" "i < 6"
    unfolding m(3) by (rule set_registers_nth) (use that in auto)
  show "load64 (gw_bytes w') (req_Rsp q + 8 * (i - 5)) = arguments ! i" if i: "i < length arguments" "6 \<le> i"
  proof -
    have "i - 6 < length (drop 6 arguments)" "req_Rsp q + 8 * (i - 5) = req_Rsp q + 8 * (1 + (i - 6))" using i by auto
    then show ?thesis
      unfolding m(2) m(1) using i by (simp only: store_arguments_nth) simp
  qed
  show "length (req_Gpr q) = 16" by (simp add: m(3))
qed

lemma prepare_call_stack:
  assumes p: "prepare_call fex owner entry arguments stack_top fs vs w = Some (Inr q, w')"
    and wf: "mm_wf (gw_memory w)" and cache: "cache_ok owner n (gw_memory w) (gw_cache w)" "n < 2 ^ 63"
    and base: "vma_at (gw_memory w) (SystemManagedVirtualBase (impl (gw_memory w))) \<noteq> None"
  shows "\<forall>a \<in> {req_Rsp q..<req_Rsp q + 8 + stackArgumentBytes arguments}. accessible 3 (gw_memory w') a"
    "SystemManagedVirtualBase (impl (gw_memory w)) \<le> req_Rsp q" "0 < req_Rsp q"
    "req_Rsp q + 8 + stackArgumentBytes arguments < two64"
    "vma_map (gw_memory w') = vma_map (gw_memory w)" "impl (gw_memory w') = impl (gw_memory w)"
    "mm_wf (gw_memory w')" "cache_ok owner n (gw_memory w') (gw_cache w')"
proof -
  let ?sp = "req_Rsp q"
  obtain c s1 code stack where c: "ValidateGuestMemory owner ?sp (8 + stackArgumentBytes arguments) True (gw_memory w) (gw_cache w)
      = Some (True, c)" "QueryGuestMemoryRange entry True False (gw_memory w) = Some (Some code, s1)"
    "QueryGuestMemoryRange ?sp False True s1 = Some (Some stack, gw_memory w')" "gw_cache w' = c"
    by (rule prepare_callE [OF p]) simp
  note S1 = QueryGuestMemoryRange_state [OF c(2)] and S2 = QueryGuestMemoryRange_state [OF c(3)]
  have eq: "vma_map (gw_memory w') = vma_map (gw_memory w)" "impl (gw_memory w') = impl (gw_memory w)"
    "mapping_generation (gw_memory w') = mapping_generation (gw_memory w)" using S1 S2 by simp_all
  note V = ValidateGuestMemory_returns [OF wf base cache, of ?sp "8 + stackArgumentBytes arguments" True]
  then have v: "cache_ok owner n (gw_memory w) c" "0 < ?sp" "?sp + (8 + stackArgumentBytes arguments) < two64"
    "\<forall>a \<in> {?sp..<?sp + (8 + stackArgumentBytes arguments)}. accessible (required_protection True) (gw_memory w) a"
    unfolding c(1) by auto
  have acc: "accessible r (gw_memory w') a = accessible r (gw_memory w) a" for r a by (simp add: accessible_def eq)
  show "\<forall>a \<in> {?sp..<?sp + 8 + stackArgumentBytes arguments}. accessible 3 (gw_memory w') a"
    using v(4) unfolding acc by (simp add: required_protection_def add.assoc)
  show "0 < ?sp" "?sp + 8 + stackArgumentBytes arguments < two64" using v(2,3) by simp_all
  show "SystemManagedVirtualBase (impl (gw_memory w)) \<le> ?sp"
    using QueryGuestMemoryRange_range(3) [OF _ c(3)] S1 wf by simp
  show "vma_map (gw_memory w') = vma_map (gw_memory w)" "impl (gw_memory w') = impl (gw_memory w)" using eq by simp_all
  show "mm_wf (gw_memory w')" using S1 S2 wf by simp
  show "cache_ok owner n (gw_memory w') (gw_cache w')"
    using v(1) unfolding c(4) cache_ok_def entry_ok_def accurate_def by (simp add: eq)
qed

section \<open>Properties\<close>

text \<open>
  C27. What the engine is asked to run is a well-formed call: the stack is aligned as the convention
  demands at a function entry and lies below the given top, in memory that may be read and written;
  the return address and the arguments are where a guest function expects them; the mapped ranges are
  sorted and do not overlap; the entry lies in one of them, a range all of which is mapped, executable and
  not writable and whose host pages have been sealed (protected for reading and executing); and preparing
  the call changes nothing else of the memory manager.  The entry and the base of the managed addresses
  are assumed to lie in the address space, and the ranges of the engine in 64 bits.
\<close>

theorem guest_call_request:
  assumes p: "prepare_call fex owner entry arguments stack_top fs vs w = Some (Inr q, w')"
    and wf: "mm_wf (gw_memory w)" and cache: "cache_ok owner n (gw_memory w) (gw_cache w)" "n < 2 ^ 63"
    and base: "vma_at (gw_memory w) (SystemManagedVirtualBase (impl (gw_memory w))) \<noteq> None"
    and u64: "\<forall>r \<in> set ([fex_ReturnRange fex, fex_CallbackReturnRange fex] @ vs). ge_begin r < two64 \<and> ge_size r < two64"
    and entry: "vma_at (gw_memory w) entry \<noteq> None"
  shows "16 dvd req_Rsp q + 8 \<and> req_Rsp q + 8 + 8 * (length arguments - 6) \<le> stack_top \<and>
    (\<forall>a \<in> {req_Rsp q..<req_Rsp q + 8 + 8 * (length arguments - 6)}. accessible (CpuRead OR CpuWrite) (gw_memory w') a) \<and>
    load64 (gw_bytes w') (req_Rsp q) = of_nat (fex_ReturnAddress fex) \<and>
    (\<forall>i < length arguments. arguments ! i =
       (if i < 6 then req_Gpr q ! ([7, 6, 2, 1, 8, 9] ! i) else load64 (gw_bytes w') (req_Rsp q + 8 * (i - 5)))) \<and>
    sorted_wrt (\<lambda>r r'. ge_begin r + ge_size r \<le> ge_begin r') (req_MappedRanges q) \<and>
    req_Rip q = entry \<and> (\<exists>c \<in> set (req_MappedRanges q). ge_begin c \<le> entry \<and> entry < ge_begin c + ge_size c \<and>
       ge_executable c \<and> gw_memory w' = emit (AsProtect (ge_begin c) (ge_size c) (PermRead OR PermExecute)) (gw_memory w) \<and>
       (\<forall>a \<in> {ge_begin c..<ge_begin c + ge_size c}. \<exists>i. vma_at (gw_memory w) a = Some i \<and>
         i_type i \<notin> {VFree, Reserved, PoolReserved} \<and> i_prot i AND CpuExec \<noteq> 0 \<and> i_prot i AND CpuWrite = 0))"
proof -
  obtain cache2 m code s1 stack s2 where P: "length arguments \<le> 32" "0x1000 \<le> stack_top"
    "QueryGuestMemoryRange entry True False (gw_memory w) = Some (Some code, s1)"
    "QueryGuestMemoryRange (req_Rsp q) False True s1 = Some (Some stack, s2)"
    "check_ranges None (req_MappedRanges q) = None"
    "req_MappedRanges q = sort_key ge_begin ([code, stack, fex_ReturnRange fex, fex_CallbackReturnRange fex] @ vs)"
    "req_Rip q = entry" "req_Rsp q = call_rsp arguments stack_top" "gw_memory w' = s2"
    by (rule prepare_callE [OF p]) simp
  note S = prepare_call_stack [OF p wf cache base]
  note R = QueryGuestMemoryRange_range [OF wf P(3)]
  have small: "ge_begin g < two64 \<and> ge_size g < two64"
    if "QueryGuestMemoryRange a ex wr s = Some (Some g, s')" "mm_wf s" for a ex wr s g s'
    using QueryGuestMemoryRange_range(6) [OF that(2,1)] by simp
  have set: "set (req_MappedRanges q) = set ([code, stack, fex_ReturnRange fex, fex_CallbackReturnRange fex] @ vs)"
    unfolding P(6) set_sort ..
  have "\<forall>r \<in> set (req_MappedRanges q). ge_begin r < two64 \<and> ge_size r < two64"
    using u64 small [OF P(3) wf] small [OF P(4)] QueryGuestMemoryRange_state(4) [OF P(3)] wf unfolding set by auto
  then have sorted: "sorted_wrt (\<lambda>r r'. ge_begin r + ge_size r \<le> ge_begin r') (req_MappedRanges q)"
    using check_ranges_None [OF P(5)] by simp
  have code: "code \<in> set (req_MappedRanges q)" unfolding set by simp
  have wf1: "mm_wf s1" using QueryGuestMemoryRange_state(4) [OF P(3)] wf by simp
  have sealed: "gw_memory w' = emit (AsProtect (ge_begin code) (ge_size code) 5) (gw_memory w)"
    "\<forall>x \<in> {ge_begin code..<ge_begin code + ge_size code}. \<exists>i. vma_at (gw_memory w) x = Some i \<and> sealable i"
    using QueryGuestMemoryRange_sealed(1) [OF wf P(3)] QueryGuestMemoryRange_sealed(2) [OF wf1 P(4)] P(9) by simp_all
  have five: "PermRead OR PermExecute = 5" by simp
  have acc: "\<exists>c \<in> set (req_MappedRanges q). ge_begin c \<le> entry \<and> entry < ge_begin c + ge_size c \<and>
       ge_executable c \<and> gw_memory w' = emit (AsProtect (ge_begin c) (ge_size c) (PermRead OR PermExecute)) (gw_memory w) \<and>
       (\<forall>a \<in> {ge_begin c..<ge_begin c + ge_size c}. \<exists>i. vma_at (gw_memory w) a = Some i \<and>
         i_type i \<notin> {VFree, Reserved, PoolReserved} \<and> i_prot i AND CpuExec \<noteq> 0 \<and> i_prot i AND CpuWrite = 0)"
    using R entry sealed unfolding five by (intro bexI [OF _ code]) (auto simp: sealable_def True_flag_def)
  show ?thesis
    using call_rsp_facts [OF P(2,1)] S(1,5) prepare_call_arguments [OF p] sorted acc P(7)
    unfolding P(8) stackArgumentBytes_eq by auto
qed

text \<open>A state with 16 KB of code and 16 KB of stack, for concrete evaluations.\<close>

definition run_boot :: MemoryManager where
  "run_boot = boot\<lparr>
     vma_map := [(0x400000, \<lparr>v_base = 0x400000, v_size = 0x4000, phys_areas = [(0, \<lparr>p_base = 0, p_size = 0x4000,
         memory_type = 3, dma_type = Mapped\<rparr>)], vtype = Direct, prot = 5, vname = ''c'', fd = 0, disallow_merge = False\<rparr>),
       (0x404000, \<lparr>v_base = 0x404000, v_size = 0x4000, phys_areas = [(0, \<lparr>p_base = 0x4000, p_size = 0x4000,
         memory_type = 3, dma_type = Mapped\<rparr>)], vtype = Direct, prot = 3, vname = ''s'', fd = 0, disallow_merge = False\<rparr>),
       (0x408000, free_vma 0x408000 0x1fffbf8000)],
     dmem_map := [(0, \<lparr>p_base = 0, p_size = 0x8000, memory_type = 3, dma_type = Mapped\<rparr>),
       (0x8000, free_phys 0x8000 0x1efff8000)]\<rparr>"

lemma run_boot_mm_wf: "mm_wf run_boot"
proof -
  have e: "flex_addrs (vma_at run_boot) = {}" "flex_used (fmem_at run_boot) = {}"
    by (auto simp: flex_addrs_def flex_used_def run_boot_def boot_eval free_vma_def vma_cell_def free_phys_def
        phys_cell_def split: if_splits)
  have "flex_ok (vma_at run_boot) (fmem_at run_boot)"
    unfolding flex_ok_def e by (auto simp: run_boot_def boot_eval free_phys_def phys_cell_def flex_free_def bij_betw_def
        split: if_splits)
  then show ?thesis
    unfolding mm_wf_def e
    by (auto simp: run_boot_def phys_cell_def dmem_wf_def boot_eval free_vma_def free_phys_def at_base_def vma_ok_def HasPhysicalBacking_def
        vma_cell_def free_info_def split: if_splits)
qed

definition run_world :: "unit GuestWorld" where
  "run_world = \<lparr>gw_memory = run_boot, gw_bytes = (\<lambda>_. 0), gw_cache = empty_cache, gw_host = ()\<rparr>"

definition sample_fex :: "unit FexBackend" where
  "sample_fex = \<lparr>fex_CallGuest = (\<lambda>_ _ w. (Inl (StageThread, E_NXIO), w)), fex_Run = (\<lambda>_ _. None),
     fex_ReturnAddress = 0x7000,
     fex_ReturnRange = \<lparr>ge_begin = 0x7000, ge_size = 0x1000, ge_executable = True, ge_writable = False\<rparr>,
     fex_CallbackReturnRange = \<lparr>ge_begin = 0x5000, ge_size = 0x1000, ge_executable = True, ge_writable = False\<rparr>\<rparr>"

lemma run_boot_prepares:
  "\<exists>q w'. prepare_call sample_fex 1 0x400010 [1, 2, 3, 4, 5, 6, 7, 8] 0x408000 0 [] run_world = Some (Inr q, w')"
proof -
  let ?args = "[1, 2, 3, 4, 5, 6, 7, 8] :: reg list"
  have sp: "call_rsp ?args 0x408000 = 0x407fe8" "stackArgumentBytes ?args = 16"
    by (simp_all add: call_rsp_def stackArgumentBytes_def AlignDown_def)
  have base: "vma_at run_boot (SystemManagedVirtualBase (impl run_boot)) \<noteq> None" by (simp add: run_boot_def boot_eval)
  have acc: "\<forall>a \<in> {0x407fe8..<0x407fe8 + 24}. accessible (required_protection True) run_boot a"
    by (auto simp: accessible_def run_boot_def required_protection_def)
  obtain c where c: "ValidateGuestMemory 1 0x407fe8 24 True run_boot empty_cache = Some (True, c)"
    using ValidateGuestMemory_returns [OF run_boot_mm_wf base cache_ok_empty, of 1 "0x407fe8" 24 True] acc
    by (auto simp: run_boot_def boot_eval)
  have seal: "SealGuestExecutable 0x400000 0x4000 run_boot = Some (ORBIS_OK, emit (AsProtect 0x400000 0x4000 5) run_boot)"
  proof -
    have "\<forall>a. 0x400000 \<le> a \<and> a < 0x400000 + (0x4000::nat) \<longrightarrow> (\<exists>i. vma_at run_boot a = Some i \<and> sealable i)"
      by (auto simp: run_boot_def sealable_def True_flag_def)
    moreover have "vma_map run_boot \<noteq> []" by (simp add: run_boot_def)
    ultimately show ?thesis using SealGuestExecutable_iff_spec [OF run_boot_mm_wf, of "0x4000" "0x400000"] by simp
  qed
  have f: "impl run_boot = impl boot" "FindVMA (vma_map run_boot) 0x400010 = Some 0x400000"
    "FindVMA (vma_map run_boot) 0x407fe8 = Some 0x404000"
    by (simp_all add: run_boot_def FindVMA_def)
  have q1: "QueryGuestMemoryRange 0x400010 True False run_boot =
      Some (Some \<lparr>ge_begin = 0x400000, ge_size = 0x4000, ge_executable = True, ge_writable = False\<rparr>,
        emit (AsProtect 0x400000 0x4000 5) run_boot)"
    using seal f by (simp add: QueryGuestMemoryRange_def QueryProtection_def boot_eval SealGuestExecutableMemory_def
        IsFree_def add64_def run_boot_def)
  have q2: "QueryGuestMemoryRange 0x407fe8 False True (emit (AsProtect 0x400000 0x4000 5) run_boot) =
      Some (Some \<lparr>ge_begin = 0x404000, ge_size = 0x4000, ge_executable = False, ge_writable = True\<rparr>,
        emit (AsProtect 0x400000 0x4000 5) run_boot)"
    using f by (simp add: QueryGuestMemoryRange_def QueryProtection_def boot_eval IsFree_def add64_def run_boot_def)
  show ?thesis
    using c q1 q2 by (simp add: prepare_call_def make_request_def sp run_world_def sample_fex_def NormalizeGuestRanges_def add64_def)
qed

theorem guest_call_request_witness:
  "\<exists>q w'. prepare_call sample_fex 1 0x400010 [1, 2, 3, 4, 5, 6, 7, 8] 0x408000 0 [] run_world = Some (Inr q, w') \<and>
     req_Gpr q ! 7 = 1 \<and> load64 (gw_bytes w') (req_Rsp q + 16) = 8 \<and>
     (\<exists>b n. effects (gw_memory w') = effects (gw_memory run_world) @ [AsProtect b n 5])"
proof -
  let ?args = "[1, 2, 3, 4, 5, 6, 7, 8] :: reg list"
  obtain q w' where p: "prepare_call sample_fex 1 0x400010 ?args 0x408000 0 [] run_world = Some (Inr q, w')"
    using run_boot_prepares by blast
  note R = guest_call_request [OF p, of 0]
  have "\<forall>i < length ?args. ?args ! i =
       (if i < 6 then req_Gpr q ! ([7, 6, 2, 1, 8, 9] ! i) else load64 (gw_bytes w') (req_Rsp q + 8 * (i - 5)))"
    and E: "\<exists>b n. gw_memory w' = emit (AsProtect b n 5) (gw_memory run_world)"
    using R run_boot_mm_wf cache_ok_empty
    by (simp_all add: run_world_def sample_fex_def run_boot_def boot_eval) blast
  from this(1) [rule_format, of 0] this(1) [rule_format, of 7]
  have "req_Gpr q ! 7 = 1 \<and> load64 (gw_bytes w') (req_Rsp q + 16) = 8" by (simp add: numeral_eq_Suc)
  moreover have "\<exists>b n. effects (gw_memory w') = effects (gw_memory run_world) @ [AsProtect b n 5]"
    using E by (auto simp: emit_def)
  ultimately show ?thesis using p by blast
qed

text \<open>The arguments of a call with integers only.\<close>

lemma integer_arguments:
  assumes "i < n"
  shows "on_stack (replicate n (IntegerArg 8 False)) i \<longleftrightarrow> 6 \<le> i"
    "stack_index (replicate n (IntegerArg 8 False)) i = i - 6"
    "sysv_location (replicate n (IntegerArg 8 False)) i =
       (if i < 6 then InGpr ([7, 6, 2, 1, 8, 9] ! i) else OnStack (8 * (i - 5)))"
proof -
  have on: "on_stack (replicate n (IntegerArg 8 False)) j \<longleftrightarrow> 6 \<le> j" if "j < n" for j
    using that by (simp add: on_stack_def class_rank_def vector_class_def)
  have "length (filter (on_stack (replicate n (IntegerArg 8 False))) [0..<j]) = j - 6" if "j < n" for j
    using that by (induction j) (auto simp: on)
  then show st: "stack_index (replicate n (IntegerArg 8 False)) i = i - 6" using assms by (simp add: stack_index_def)
  show "on_stack (replicate n (IntegerArg 8 False)) i \<longleftrightarrow> 6 \<le> i" by (rule on [OF assms])
  then show "sysv_location (replicate n (IntegerArg 8 False)) i =
       (if i < 6 then InGpr ([7, 6, 2, 1, 8, 9] ! i) else OnStack (8 * (i - 5)))"
    using assms st by (auto simp: sysv_location_def class_rank_def vector_class_def)
qed

lemma cast_integer_u64 [simp]: "cast_integer 8 False v = uint v"
  using uint_bounded [of v] by (simp add: cast_integer_def take_bit_int_eq_self_iff)

lemma accessible_read: "accessible 3 s a \<Longrightarrow> accessible (required_protection False) s a"
proof -
  have "p AND 1 = 1" if "p AND 3 = 3" for p :: u32
  proof -
    have "(p AND 3) AND 1 = p AND 1" by (simp add: and.assoc)
    then show ?thesis using that by simp
  qed
  then show "accessible 3 s a \<Longrightarrow> accessible (required_protection False) s a"
    by (auto simp: accessible_def required_protection_def)
qed

text \<open>
  C6. Arguments survive the way to the guest and back: a guest function that is entered with the
  registers and the stack of a prepared call and passes them on to a host function, as a veneer given
  as a callback does, makes it run with exactly the arguments of the call, whatever their number, and
  the check of its stack slots accepts them.
\<close>

theorem hle_arguments_roundtrip:
  assumes p: "prepare_call fex owner entry arguments stack_top fs vs w = Some (Inr q, w')"
    and wf: "mm_wf (gw_memory w)" and cache: "cache_ok owner n (gw_memory w) (gw_cache w)" "n < 2 ^ 63" "owner \<noteq> 0"
    and base: "vma_at (gw_memory w) (SystemManagedVirtualBase (impl (gw_memory w))) \<noteq> None"
    and fr: "fr = \<lparr>operation = op, gpr = req_Gpr q, xmm = xs, rsp = req_Rsp q, validate_range = Some (ValidateRange (Some v) rs)\<rparr>"
    and v: "v = (\<lambda>a k wr. fst (the (ValidateGuestMemory owner a k wr (gw_memory w') (gw_cache w'))))"
    and ad: "hle_function ad = Typed (replicate (length arguments) (IntegerArg 8 False)) ret f" "IsSupportedReturn ret"
  shows "Adapter_Invoke ad (gw_bytes w') fr x =
    (let (r, x1) = f (map (\<lambda>a. VInt (uint a)) arguments) x
     in (Inr True, if ret = VoidRet then fr\<lparr>gpr := (gpr fr)[0 := 0]\<rparr> else EncodeReturn fr r, x1))"
proof -
  let ?ts = "replicate (length arguments) (IntegerArg 8 False)"
  note S = prepare_call_stack [OF p wf cache(1,2) base] and A = prepare_call_arguments [OF p]
  have slot: "slot_readable fr (8 * (i - 5))" if i: "i < length arguments" "6 \<le> i" for i
  proof -
    have le: "req_Rsp q \<le> req_Rsp q + 8 * (i - 5)" "req_Rsp q + 8 * (i - 5) + 8 \<le> req_Rsp q + 8 + stackArgumentBytes arguments"
      using i by (simp_all add: stackArgumentBytes_eq)
    have acc: "\<forall>a \<in> {req_Rsp q + 8 * (i - 5)..<req_Rsp q + 8 * (i - 5) + 8}. accessible (required_protection False) (gw_memory w') a"
      using S(1) le by (auto intro: accessible_read)
    have base': "vma_at (gw_memory w') (SystemManagedVirtualBase (impl (gw_memory w'))) \<noteq> None" using base S(5,6) by simp
    have pre: "req_Rsp q + 8 * (i - 5) \<noteq> 0" "(8 :: nat) \<noteq> 0" "req_Rsp q + 8 * (i - 5) + 8 < two64"
      "SystemManagedVirtualBase (impl (gw_memory w')) \<le> req_Rsp q + 8 * (i - 5)"
      using S(2,3,4,6) le by simp_all
    obtain b c where V: "ValidateGuestMemory owner (req_Rsp q + 8 * (i - 5)) 8 False (gw_memory w') (gw_cache w') = Some (b, c)" "b"
      using ValidateGuestMemory_returns [OF S(7) base' S(8) cache(2), of "req_Rsp q + 8 * (i - 5)" 8 False]
        acc pre cache(3) by blast
    then have "v (req_Rsp q + 8 * (i - 5)) 8 False" by (simp add: v)
    then show ?thesis using le S(3,4) by (simp add: slot_readable_def fr ValidateRange_def)
  qed
  have st: "\<forall>i < length ?ts. on_stack ?ts i \<longrightarrow> ?ts ! i \<noteq> WideArg \<and> slot_readable fr (8 + 8 * stack_index ?ts i)"
  proof (intro allI impI)
    fix i assume i: "i < length ?ts" "on_stack ?ts i"
    then have "6 \<le> i" "i < length arguments" using integer_arguments(1) [of i "length arguments"] by simp_all
    moreover from this have "8 + 8 * stack_index ?ts i = 8 * (i - 5)" using integer_arguments(2) [of i "length arguments"] by auto
    ultimately show "?ts ! i \<noteq> WideArg \<and> slot_readable fr (8 + 8 * stack_index ?ts i)" using slot by simp
  qed
  have vs: "map (\<lambda>i. value_of fr (?ts ! i) (fetch (gw_bytes w') fr (sysv_location ?ts i))) [0..<length ?ts] =
      map Some (map (\<lambda>a. VInt (uint a)) arguments)"
  proof (rule nth_equalityI)
    fix i assume "i < length (map (\<lambda>i. value_of fr (?ts ! i) (fetch (gw_bytes w') fr (sysv_location ?ts i))) [0..<length ?ts])"
    then have i: "i < length arguments" by simp
    have "fst (fetch (gw_bytes w') fr (sysv_location ?ts i)) = arguments ! i"
      using A(2,3) [OF i] integer_arguments(3) [OF i] by (auto simp: fetch_def fr)
    then show "map (\<lambda>i. value_of fr (?ts ! i) (fetch (gw_bytes w') fr (sysv_location ?ts i))) [0..<length ?ts] ! i =
      map Some (map (\<lambda>a. VInt (uint a)) arguments) ! i" using i by (simp add: value_of_def)
  qed simp
  have sup: "list_all IsSupportedArgument ?ts"
    by (simp add: list_all_iff IsSupportedArgument_def FitsIntegerRegister_def)
  have nb: "\<not> (\<exists>i < length ?ts. bad_pointer fr (?ts ! i) (fst (fetch (gw_bytes w') fr (sysv_location ?ts i))))"
    by (simp add: bad_pointer_def)
  show ?thesis
    unfolding hle_call_convention_spec [OF ad(1) sup ad(2) st vs [symmetric]] if_not_P [OF nb]
    by (simp add: comp_def)
qed

theorem hle_arguments_roundtrip_witness:
  "\<exists>q w'. prepare_call sample_fex 1 0x400010 [1, 2, 3, 4, 5, 6, 7, 8] 0x408000 0 [] run_world = Some (Inr q, w') \<and>
     gpr (fst (snd (Adapter_Invoke \<lparr>hle_operation = 1, hle_name = ''sum'', hle_function =
         Typed (replicate 8 (IntegerArg 8 False)) (IntegerRet 8 False)
           (\<lambda>vs w. (VInt (sum_list (map (\<lambda>v. case v of VInt i \<Rightarrow> i | _ \<Rightarrow> 0) vs)), w + 1))\<rparr>
       (gw_bytes w') \<lparr>operation = 1, gpr = req_Gpr q, xmm = [], rsp = req_Rsp q, validate_range = Some (ValidateRange
         (Some (\<lambda>a k wr. fst (the (ValidateGuestMemory 1 a k wr (gw_memory w') (gw_cache w'))))) [])\<rparr> (0 :: nat)))) ! 0 = 36"
proof -
  let ?args = "[1, 2, 3, 4, 5, 6, 7, 8] :: reg list"
  let ?f = "\<lambda>vs w :: nat. (VInt (sum_list (map (\<lambda>v. case v of VInt i \<Rightarrow> i | _ \<Rightarrow> 0) vs)), w + 1)"
  let ?ad = "\<lparr>hle_operation = 1, hle_name = ''sum'', hle_function = Typed (replicate 8 (IntegerArg 8 False)) (IntegerRet 8 False) ?f\<rparr>"
  obtain q w' where p: "prepare_call sample_fex 1 0x400010 ?args 0x408000 0 [] run_world = Some (Inr q, w')"
    using run_boot_prepares by blast
  have wf: "mm_wf (gw_memory run_world)" "cache_ok 1 0 (gw_memory run_world) (gw_cache run_world)"
    using run_boot_mm_wf cache_ok_empty by (simp_all add: run_world_def)
  have base: "vma_at (gw_memory run_world) (SystemManagedVirtualBase (impl (gw_memory run_world))) \<noteq> None"
    by (simp add: run_world_def run_boot_def boot_eval)
  have f: "hle_function ?ad = Typed (replicate (length ?args) (IntegerArg 8 False)) (IntegerRet 8 False) ?f"
    by (simp add: numeral_eq_Suc)
  have r: "IsSupportedReturn (IntegerRet 8 False)" by (simp add: IsSupportedReturn_def)
  note R = hle_arguments_roundtrip [OF p wf _ _ base refl refl f r, of 1 "[]" "[]" 0]
  have g: "length (req_Gpr q) = 16" by (rule prepare_call_arguments(4) [OF p])
  show ?thesis using p R g by (intro exI [of _ q] exI [of _ w']) (simp add: EncodeReturn_def)
qed

end
