(* ===== verification/Rtc_Calendar.thy ===== *)
theory Rtc_Calendar
  imports Prelude
begin

text \<open>
  Calendar arithmetic of the real-time-clock library, \<open>src/src/core/libraries/rtc/rtc.h\<close> and
  \<open>rtc.cpp\<close>: the date record, the parts of \<open>std::chrono\<close> the library calls, the validity check,
  and the two conversions between a date and a tick (microseconds since 0001-01-01).

  The \<open>u16\<close> and \<open>u32\<close> fields and the \<open>u64\<close> ticks are naturals with the wrap-around written out;
  \<open>int\<close> values are integers.  A signed product that leaves the range of its C++ type has no
  defined value, and the model returns \<open>None\<close>.  A pointer argument is an option, \<open>None\<close> being
  \<open>nullptr\<close>; what a function stores through a pointer is part of its result.
\<close>

section \<open>Data\<close>

record OrbisRtcDateTime =
  year :: nat
  month :: nat
  day :: nat
  hour :: nat
  minute :: nat
  second :: nat
  microsecond :: nat

definition UNIX_EPOCH_TICKS :: nat where "UNIX_EPOCH_TICKS = 0xdcbffeff2bc000"
definition WIN32_FILETIME_EPOCH_TICKS :: nat where "WIN32_FILETIME_EPOCH_TICKS = 0xb36168b6a58000"

text \<open>The error codes of \<open>rtc_error.h\<close>, as the negative \<open>int\<close> they are read back as.\<close>

definition ORBIS_RTC_ERROR_DATETIME_UNINITIALIZED :: int where
  "ORBIS_RTC_ERROR_DATETIME_UNINITIALIZED = 0x7FFEF9FE"
definition ORBIS_RTC_ERROR_NOT_INITIALIZED :: int where
  "ORBIS_RTC_ERROR_NOT_INITIALIZED = 0x80B50001 - 0x100000000"
definition ORBIS_RTC_ERROR_INVALID_POINTER :: int where
  "ORBIS_RTC_ERROR_INVALID_POINTER = 0x80B50002 - 0x100000000"
definition ORBIS_RTC_ERROR_INVALID_VALUE :: int where
  "ORBIS_RTC_ERROR_INVALID_VALUE = 0x80B50003 - 0x100000000"
definition ORBIS_RTC_ERROR_INVALID_YEAR :: int where
  "ORBIS_RTC_ERROR_INVALID_YEAR = 0x80B50008 - 0x100000000"
definition ORBIS_RTC_ERROR_INVALID_MONTH :: int where
  "ORBIS_RTC_ERROR_INVALID_MONTH = 0x80B50009 - 0x100000000"
definition ORBIS_RTC_ERROR_INVALID_DAY :: int where
  "ORBIS_RTC_ERROR_INVALID_DAY = 0x80B5000A - 0x100000000"
definition ORBIS_RTC_ERROR_INVALID_HOUR :: int where
  "ORBIS_RTC_ERROR_INVALID_HOUR = 0x80B5000B - 0x100000000"
definition ORBIS_RTC_ERROR_INVALID_MINUTE :: int where
  "ORBIS_RTC_ERROR_INVALID_MINUTE = 0x80B5000C - 0x100000000"
definition ORBIS_RTC_ERROR_INVALID_SECOND :: int where
  "ORBIS_RTC_ERROR_INVALID_SECOND = 0x80B5000D - 0x100000000"
definition ORBIS_RTC_ERROR_INVALID_MICROSECOND :: int where
  "ORBIS_RTC_ERROR_INVALID_MICROSECOND = 0x80B5000E - 0x100000000"

lemmas rtc_error_defs =
  ORBIS_RTC_ERROR_DATETIME_UNINITIALIZED_def ORBIS_RTC_ERROR_NOT_INITIALIZED_def
  ORBIS_RTC_ERROR_INVALID_POINTER_def ORBIS_RTC_ERROR_INVALID_VALUE_def
  ORBIS_RTC_ERROR_INVALID_YEAR_def ORBIS_RTC_ERROR_INVALID_MONTH_def
  ORBIS_RTC_ERROR_INVALID_DAY_def ORBIS_RTC_ERROR_INVALID_HOUR_def
  ORBIS_RTC_ERROR_INVALID_MINUTE_def ORBIS_RTC_ERROR_INVALID_SECOND_def
  ORBIS_RTC_ERROR_INVALID_MICROSECOND_def

section \<open>Machine integers\<close>

abbreviation two32 :: nat where "two32 \<equiv> 4294967296"

definition add32 :: "nat \<Rightarrow> nat \<Rightarrow> nat" where "add32 a b = (a + b) mod two32"
definition sub32 :: "nat \<Rightarrow> nat \<Rightarrow> nat" where "sub32 a b = (a + two32 - b mod two32) mod two32"
definition mul32 :: "nat \<Rightarrow> nat \<Rightarrow> nat" where "mul32 a b = (a * b) mod two32"

lemma add32_exact: "a + b < two32 \<Longrightarrow> add32 a b = a + b"
  by (simp add: add32_def)

lemma mul32_exact: "a * b < two32 \<Longrightarrow> mul32 a b = a * b"
  by (simp add: mul32_def)

lemma sub32_exact: "b \<le> a \<Longrightarrow> a < two32 \<Longrightarrow> sub32 a b = a - b"
proof -
  assume a: "b \<le> a" "a < two32"
  have "a + two32 - b = (a - b) + two32" using a by linarith
  then have "(a + two32 - b) mod two32 = (a - b) mod two32" by (simp only: mod_add_self2)
  also have "\<dots> = a - b" using a by (intro mod_less) linarith
  finally show ?thesis using a by (simp add: sub32_def)
qed

section \<open>What the code uses of std::chrono\<close>

text \<open>
  \<open>std::chrono::year\<close> stores a \<open>short\<close>; \<open>year_month_day_last::day\<close> is the last day of a month of
  the proleptic Gregorian calendar; a \<open>sys_days\<close> counts days since 1970-01-01, a Thursday.
\<close>

definition chrono_is_leap :: "int \<Rightarrow> bool" where
  "chrono_is_leap y \<longleftrightarrow> y mod 4 = 0 \<and> (y mod 100 \<noteq> 0 \<or> y mod 400 = 0)"

definition chrono_last_day :: "int \<Rightarrow> nat \<Rightarrow> nat" where
  "chrono_last_day y m =
     (if m = 2 then (if chrono_is_leap (to_s16 y) then 29 else 28)
      else if m = 4 \<or> m = 6 \<or> m = 9 \<or> m = 11 then 30 else 31)"

definition chrono_sys_days :: "int \<Rightarrow> int \<Rightarrow> int \<Rightarrow> int" where
  "chrono_sys_days y m d =
     (let y' = (if m \<le> 2 then to_s16 y - 1 else to_s16 y);
          era = y' div 400;
          yoe = y' - era * 400;
          doy = (153 * (if m > 2 then m - 3 else m + 9) + 2) div 5 + d - 1;
          doe = yoe * 365 + yoe div 4 - yoe div 100 + doy
      in era * 146097 + doe - 719468)"

definition chrono_weekday :: "int \<Rightarrow> int" where
  "chrono_weekday days = (days + 4) mod 7"

section \<open>Validity\<close>

definition sceRtcCheckValid :: "OrbisRtcDateTime option \<Rightarrow> int" where
  "sceRtcCheckValid pTime = (case pTime of
     None \<Rightarrow> ORBIS_RTC_ERROR_INVALID_POINTER
   | Some t \<Rightarrow>
       if year t = 0 \<or> year t > 9999 then ORBIS_RTC_ERROR_INVALID_YEAR
       else if month t = 0 \<or> month t > 12 then ORBIS_RTC_ERROR_INVALID_MONTH
       else if day t = 0 then ORBIS_RTC_ERROR_INVALID_DAY
       else if day t > chrono_last_day (int (year t)) (month t) then ORBIS_RTC_ERROR_INVALID_DAY
       else if hour t \<ge> 24 then ORBIS_RTC_ERROR_INVALID_HOUR
       else if minute t \<ge> 60 then ORBIS_RTC_ERROR_INVALID_MINUTE
       else if second t \<ge> 60 then ORBIS_RTC_ERROR_INVALID_SECOND
       else if microsecond t \<ge> 1000000 then ORBIS_RTC_ERROR_INVALID_MICROSECOND
       else 0)"

section \<open>Tick conversions\<close>

text \<open>
  \<open>sceRtcGetTick\<close> also stores the shifted month and year in the date it is given.  The product
  \<open>pTime->minute * 60000000\<close> is a product of two \<open>int\<close>s, as is the one of the seconds; the product
  of the hour is one of \<open>long\<close>s.  The other \<open>int\<close> terms are bounded by the validity check.
\<close>

definition sceRtcGetTick ::
  "OrbisRtcDateTime option \<Rightarrow> u64 option \<Rightarrow> (int \<times> OrbisRtcDateTime option \<times> u64 option) option"
where
  "sceRtcGetTick pTime pTick = (case (pTime, pTick) of
     (Some t, Some _) \<Rightarrow>
       if sceRtcCheckValid pTime \<noteq> 0 then Some (sceRtcCheckValid pTime, pTime, pTick)
       else do {
         let t = (if month t > 2 then t\<lparr>month := month t - 3\<rparr>
                  else t\<lparr>month := month t + 9, year := year t - 1\<rparr>);
         let c = year t div 100;
         let ya = year t - 100 * c;
         let days = to_u64 (int (drop_bit 2 (146097 * c) + drop_bit 2 (1461 * ya)
                                 + (153 * month t + 2) div 5 + day t));
         let days = sub64 days 307;
         let days = (days * 86400000000) mod two64;
         minutes \<leftarrow> s32_of (int (minute t) * 60000000);
         seconds \<leftarrow> s32_of (int (second t) * 1000000);
         let msec = to_u64 (int (hour t) * 3600000000 + minutes + seconds + int (microsecond t));
         Some (0, Some t, Some (add64 days msec))
       }
   | _ \<Rightarrow> Some (ORBIS_RTC_ERROR_INVALID_POINTER, pTime, pTick))"

definition sceRtcSetTick ::
  "OrbisRtcDateTime option \<Rightarrow> u64 option \<Rightarrow> int \<times> OrbisRtcDateTime option" where
  "sceRtcSetTick pTime pTick = (case (pTime, pTick) of
     (Some t, Some tick) \<Rightarrow>
       (let days = tick div 86400000000;
            msec = tick mod 86400000000;
            days = add64 days 307;
            j = (sub64 (push_bit 2 days mod two64) 1) mod two32;
            ly = j div 146097;
            j = sub32 j (mul32 146097 ly);
            ld = drop_bit 2 j;
            j = (add32 (push_bit 2 ld mod two32) 3) div 1461;
            ld = drop_bit 2 (sub32 (add32 (push_bit 2 ld mod two32) 7) (mul32 1461 j));
            lm = (sub32 (mul32 5 ld) 3) div 153;
            ld = (sub32 (add32 (mul32 5 ld) 2) (mul32 153 lm)) div 5;
            ly = add32 (mul32 100 ly) j;
            (lm, ly) = (if lm < 10 then (add32 lm 3, ly) else (sub32 lm 9, add32 ly 1))
        in (0, Some (t\<lparr>year := ly mod 65536, month := lm mod 65536, day := ld mod 65536,
               hour := msec div 3600000000 mod 65536,
               minute := msec mod 3600000000 div 60000000 mod 65536,
               second := msec mod 3600000000 mod 60000000 div 1000000 mod 65536,
               microsecond := msec mod 3600000000 mod 60000000 mod 1000000 mod two32\<rparr>)))
   | _ \<Rightarrow> (ORBIS_RTC_ERROR_INVALID_POINTER, pTime))"

section \<open>The reference calendar\<close>

text \<open>
  The proleptic Gregorian calendar, defined by counting: the length of each month, the days of
  the years before a date and the days of the months before it.
\<close>

definition is_leap :: "nat \<Rightarrow> bool" where
  "is_leap y \<longleftrightarrow> y mod 4 = 0 \<and> (y mod 100 \<noteq> 0 \<or> y mod 400 = 0)"

definition month_length :: "nat \<Rightarrow> nat \<Rightarrow> nat" where
  "month_length y m = (if m = 2 then (if is_leap y then 29 else 28)
     else if m \<in> {4, 6, 9, 11} then 30 else 31)"

fun days_before_year :: "nat \<Rightarrow> nat" where
  "days_before_year 0 = 0"
| "days_before_year (Suc y) =
     days_before_year y + (if y = 0 then 0 else if is_leap y then 366 else 365)"

definition days_before_month :: "nat \<Rightarrow> nat \<Rightarrow> nat" where
  "days_before_month y m = sum_list (map (month_length y) [1..<m])"

definition day_number :: "nat \<Rightarrow> nat \<Rightarrow> nat \<Rightarrow> nat" where
  "day_number y m d = days_before_year y + days_before_month y m + (d - 1)"

definition valid_date :: "nat \<Rightarrow> nat \<Rightarrow> nat \<Rightarrow> bool" where
  "valid_date y m d \<longleftrightarrow> 1 \<le> y \<and> 1 \<le> m \<and> m \<le> 12 \<and> 1 \<le> d \<and> d \<le> month_length y m"

definition valid_time :: "OrbisRtcDateTime \<Rightarrow> bool" where
  "valid_time t \<longleftrightarrow> year t \<le> 9999 \<and> valid_date (year t) (month t) (day t) \<and> hour t < 24 \<and>
     minute t < 60 \<and> second t < 60 \<and> microsecond t < 1000000"

definition date_tick :: "OrbisRtcDateTime \<Rightarrow> nat" where
  "date_tick t = (((day_number (year t) (month t) (day t) * 24 + hour t) * 60 + minute t) * 60
     + second t) * 1000000 + microsecond t"

lemma to_s16_id: "- 32768 \<le> y \<Longrightarrow> y \<le> 32767 \<Longrightarrow> to_s16 y = y"
  by (simp add: to_s16_def)

lemma chrono_is_leap_nat: "chrono_is_leap (int y) = is_leap y"
proof -
  have "int y mod 4 = int (y mod 4)" "int y mod 100 = int (y mod 100)"
    "int y mod 400 = int (y mod 400)"
    by (simp_all add: zmod_int)
  then show ?thesis by (simp add: chrono_is_leap_def is_leap_def)
qed

lemma chrono_last_day_nat: "y \<le> 32767 \<Longrightarrow> chrono_last_day (int y) m = month_length y m"
  by (simp add: chrono_last_day_def month_length_def to_s16_id chrono_is_leap_nat)

lemma days_before_year_step:
  fixes d c q h y :: nat
  assumes "d + c = 365 * y + q + h" "b400 \<Longrightarrow> b100" "b100 \<Longrightarrow> b4"
    "q' = q + (if b4 then 1 else 0)" "c' = c + (if b100 then 1 else 0)" "h' = h + (if b400 then 1 else 0)"
  shows "d + (if b4 \<and> (\<not> b100 \<or> b400) then 366 else 365) + c' = 365 * Suc y + q' + h'"
  using assms by (cases b4; cases b100; cases b400) simp_all

lemma div_Suc_add: "Suc m div n = m div n + (if Suc m mod n = 0 then 1 else 0)"
  by (simp add: div_Suc)

lemma days_before_year_closed:
  "days_before_year (Suc y) + y div 100 = 365 * y + y div 4 + y div 400"
proof (induction y)
  case (Suc y)
  have dvd: "Suc y mod 400 = 0 \<Longrightarrow> Suc y mod 100 = 0" "Suc y mod 100 = 0 \<Longrightarrow> Suc y mod 4 = 0"
    using mod_mod_cancel [of 100 400 "Suc y"] mod_mod_cancel [of 4 100 "Suc y"] by simp_all
  have "days_before_year (Suc (Suc y)) =
    days_before_year (Suc y) + (if is_leap (Suc y) then 366 else 365)" by simp
  then show ?case
    by (simp only: is_leap_def)
      (rule days_before_year_step [OF Suc dvd div_Suc_add div_Suc_add div_Suc_add])
qed simp

lemma days_before_month_1 [simp]: "days_before_month y (Suc 0) = 0"
  by (simp add: days_before_month_def)

lemma days_before_month_step:
  "1 \<le> m \<Longrightarrow> days_before_month y (m + 1) = days_before_month y m + month_length y m"
  by (simp add: days_before_month_def)

lemma days_before_month_table:
  assumes "1 \<le> m" "m \<le> 12"
  shows "days_before_month y m = (if m = 1 then 0 else if m = 2 then 31
      else (153 * (m - 3) + 2) div 5 + 59 + (if is_leap y then 1 else 0))"
proof -
  note step = days_before_month_step [of _ y, unfolded month_length_def]
  have 2: "days_before_month y 2 = 31" using step [of 1] by (simp add: numeral_2_eq_2)
  have 3: "days_before_month y 3 = 59 + (if is_leap y then 1 else 0)" using step [of 2] 2 by simp
  have 4: "days_before_month y 4 = 90 + (if is_leap y then 1 else 0)" using step [of 3] 3 by simp
  have 5: "days_before_month y 5 = 120 + (if is_leap y then 1 else 0)" using step [of 4] 4 by simp
  have 6: "days_before_month y 6 = 151 + (if is_leap y then 1 else 0)" using step [of 5] 5 by simp
  have 7: "days_before_month y 7 = 181 + (if is_leap y then 1 else 0)" using step [of 6] 6 by simp
  have 8: "days_before_month y 8 = 212 + (if is_leap y then 1 else 0)" using step [of 7] 7 by simp
  have 9: "days_before_month y 9 = 243 + (if is_leap y then 1 else 0)" using step [of 8] 8 by simp
  have 10: "days_before_month y 10 = 273 + (if is_leap y then 1 else 0)" using step [of 9] 9 by simp
  have 11: "days_before_month y 11 = 304 + (if is_leap y then 1 else 0)" using step [of 10] 10 by simp
  have 12: "days_before_month y 12 = 334 + (if is_leap y then 1 else 0)" using step [of 11] 11 by simp
  have "m = 1 \<or> m = 2 \<or> m = 3 \<or> m = 4 \<or> m = 5 \<or> m = 6 \<or> m = 7 \<or> m = 8 \<or> m = 9 \<or>
    m = 10 \<or> m = 11 \<or> m = 12" using assms by presburger
  then show ?thesis by (elim disjE) (simp_all add: 2 3 4 5 6 7 8 9 10 11 12)
qed

section \<open>The arithmetic of the conversions\<close>

text \<open>
  Both conversions work on years that start in March.  \<open>march_days y m d\<close> is the day count
  \<open>sceRtcGetTick\<close> computes from the shifted year and month, 307 days ahead of the tick.
\<close>

definition march_days :: "nat \<Rightarrow> nat \<Rightarrow> nat \<Rightarrow> nat" where
  "march_days y m d = 146097 * (y div 100) div 4 + 1461 * (y mod 100) div 4 + (153 * m + 2) div 5 + d"

lemma march_years:
  "146097 * (y div 100) div 4 + 1461 * (y mod 100) div 4 + y div 100
    = 365 * (y::nat) + y div 4 + y div 400"
proof -
  define c a where "c = y div 100" and "a = y mod 100"
  have y: "y = 100 * c + a" by (simp add: c_def a_def)
  have "146097 * c div 4 = 36524 * c + c div 4"
    using div_mult_self2 [of 4 c "36524 * c"] by simp
  moreover have "1461 * a div 4 = 365 * a + a div 4"
    using div_mult_self2 [of 4 a "365 * a"] by simp
  moreover have "y div 4 = 25 * c + a div 4"
    using div_mult_self2 [of 4 a "25 * c"] by (simp add: y add.commute)
  moreover have "y div 400 = c div 4"
    using div_mult2_eq [of y 100 4] by (simp add: c_def)
  ultimately have "146097 * c div 4 + 1461 * a div 4 + c = 365 * y + y div 4 + y div 400"
    using y by linarith
  then show ?thesis by (simp only: c_def a_def)
qed

lemma march_days_day_number:
  assumes "valid_date y m d"
  shows "march_days (if m > 2 then y else y - 1) (if m > 2 then m - 3 else m + 9) d
    = day_number y m d + 307"
proof -
  have y: "1 \<le> y" and m: "1 \<le> m" "m \<le> 12" and d: "1 \<le> d"
    using assms by (auto simp: valid_date_def)
  note tab = days_before_month_table [OF m, of y]
  show ?thesis
  proof (cases "m > 2")
    case True
    have "days_before_year (Suc y) = days_before_year y + (if is_leap y then 366 else 365)"
      using y by simp
    then show ?thesis
      using True tab d march_years [of y] days_before_year_closed [of y]
      by (auto simp: march_days_def day_number_def simp del: days_before_year.simps)
  next
    case False
    then have "m = 1 \<or> m = 2" using m by linarith
    moreover have "Suc (y - 1) = y" using y by simp
    ultimately show ?thesis
      using tab d march_years [of "y - 1"] days_before_year_closed [of "y - 1"]
      by (auto simp: march_days_def day_number_def)
  qed
qed

text \<open>The inverse, as \<open>sceRtcSetTick\<close> computes it, without the machine arithmetic.\<close>

definition march_century :: "nat \<Rightarrow> nat" where "march_century n = (4 * n - 1) div 146097"
definition march_cday :: "nat \<Rightarrow> nat" where "march_cday n = (4 * n - 1) mod 146097 div 4"
definition march_year :: "nat \<Rightarrow> nat" where "march_year n = (4 * march_cday n + 3) div 1461"
definition march_yday :: "nat \<Rightarrow> nat" where
  "march_yday n = (4 * march_cday n + 7 - 1461 * march_year n) div 4"
definition march_month :: "nat \<Rightarrow> nat" where "march_month n = (5 * march_yday n - 3) div 153"
definition march_day :: "nat \<Rightarrow> nat" where
  "march_day n = (5 * march_yday n + 2 - 153 * march_month n) div 5"

lemma march_yday_bounds: "1 \<le> march_yday n" "march_yday n \<le> 366"
proof -
  define k where "k = march_cday n"
  have "4 * k + 3 = 1461 * march_year n + (4 * k + 3) mod 1461"
    by (simp add: march_year_def k_def)
  moreover have "(4 * k + 3) mod 1461 < 1461" by simp
  ultimately show "1 \<le> march_yday n" "march_yday n \<le> 366"
    unfolding march_yday_def k_def [symmetric] by linarith+
qed

lemma march_month_le: "march_month n \<le> 11"
  using march_yday_bounds [of n] by (simp add: march_month_def)

lemma march_cday_le: "march_cday n \<le> 36524"
proof -
  have "(4 * n - 1) mod 146097 < (146097::nat)" by (rule mod_less_divisor) simp
  then show ?thesis unfolding march_cday_def by linarith
qed

lemma march_year_le: "march_year n \<le> 99"
  using march_cday_le [of n] by (simp add: march_year_def)

text \<open>
  A cycle of \<open>4 * q + 1\<close> quarter days, four of which make a leap cycle: centuries with
  \<open>q = 36524\<close> and years with \<open>q = 365\<close>.
\<close>

lemma cycle_start: "(4 * q + 1) * c div 4 = q * c + c div 4" for q c :: nat
  using div_mult_self2 [of 4 c "q * c"] by (simp add: algebra_simps)

lemma cycle_split:
  fixes c q A :: nat
  assumes "1 \<le> A" "A \<le> q + (if c mod 4 = 3 then 1 else 0)"
  shows "(4 * ((4 * q + 1) * c div 4 + A) - 1) div (4 * q + 1) = c"
    "(4 * ((4 * q + 1) * c div 4 + A) - 1) mod (4 * q + 1) div 4 = A - 1"
proof -
  define r where "r = 4 * A - 1 - c mod 4"
  have c4: "c mod 4 < 4" by simp
  have le: "c mod 4 + 1 \<le> 4 * A" using assms(1) c4 by linarith
  have r_less: "r < 4 * q + 1" using assms c4 unfolding r_def by (cases "c mod 4 = 3") auto
  have r_div: "r div 4 = A - 1" using assms(1) c4 unfolding r_def by linarith
  have c_eq: "4 * (c div 4) + c mod 4 = c" by simp
  have "4 * ((4 * q + 1) * c div 4 + A) - 1 = 4 * (q * c) + 4 * (c div 4) + 4 * A - 1"
    by (simp only: cycle_start) (simp add: algebra_simps)
  also have "\<dots> = 4 * (q * c) + c + r" using le c_eq unfolding r_def by linarith
  also have "\<dots> = r + (4 * q + 1) * c" by (simp add: algebra_simps)
  finally have eq: "4 * ((4 * q + 1) * c div 4 + A) - 1 = r + (4 * q + 1) * c" .
  show "(4 * ((4 * q + 1) * c div 4 + A) - 1) div (4 * q + 1) = c"
    unfolding eq using r_less by (simp only: div_mult_self2) simp
  show "(4 * ((4 * q + 1) * c div 4 + A) - 1) mod (4 * q + 1) div 4 = A - 1"
    unfolding eq mod_mult_self2 using r_less r_div by (simp only: mod_less)
qed

lemma cycle_join:
  fixes N q :: nat
  defines "c \<equiv> (4 * N - 1) div (4 * q + 1)" and "A \<equiv> (4 * N - 1) mod (4 * q + 1) div 4 + 1"
  assumes "1 \<le> N"
  shows "(4 * q + 1) * c div 4 + A = N" "A \<le> q + (if c mod 4 = 3 then 1 else 0)"
proof -
  define r where "r = (4 * N - 1) mod (4 * q + 1)"
  have r: "r < 4 * q + 1" unfolding r_def by (rule mod_less_divisor) simp
  have "4 * N - 1 = (4 * q + 1) * c + r" unfolding c_def r_def by (rule mult_div_mod_eq [symmetric])
  then have eq: "4 * N = 4 * (q * c) + c + r + 1" using assms(3) by (simp add: algebra_simps)
  define x where "x = q * c"
  define c0 c1 r0 r1 where "c0 = c mod 4" and "c1 = c div 4" and "r0 = r mod 4" and "r1 = r div 4"
  have c: "c = 4 * c1 + c0" "c0 < 4" and r': "r = 4 * r1 + r0" "r0 < 4"
    by (simp_all add: c0_def c1_def r0_def r1_def)
  have sum: "c0 + r0 = 3"
    using eq [folded x_def, unfolded c(1) r'(1)] c(2) r'(2) by presburger
  then have N: "x + c1 + r1 + 1 = N" using eq [folded x_def, unfolded c(1) r'(1)] by linarith
  then show "(4 * q + 1) * c div 4 + A = N" unfolding A_def r_def [symmetric] cycle_start
    by (simp add: x_def c1_def r1_def)
  have "r div 4 \<le> q" using r by simp
  moreover have "c mod 4 = 3" if "r div 4 = q"
  proof -
    have "r0 = 0" using that r r' unfolding r1_def by linarith
    then show ?thesis using sum by (simp add: c0_def)
  qed
  ultimately show "A \<le> q + (if c mod 4 = 3 then 1 else 0)"
    unfolding A_def r_def [symmetric] by (cases "c mod 4 = 3"; cases "r div 4 = q") auto
qed

text \<open>Months counted from March, with their lengths in the year \<open>y\<close> that starts in March.\<close>

definition march_length :: "nat \<Rightarrow> nat \<Rightarrow> nat" where
  "march_length y m = (if m = 11 then (if is_leap (Suc y) then 29 else 28)
     else if m \<in> {1, 3, 6, 8} then 30 else 31)"

lemma twelve_months: "m \<le> 11 \<Longrightarrow> m = 0 \<or> m = 1 \<or> m = 2 \<or> m = 3 \<or> m = 4 \<or> m = 5 \<or> m = 6 \<or> m = 7 \<or>
    m = 8 \<or> m = 9 \<or> m = 10 \<or> m = (11::nat)"
  by presburger

lemma march_length_bound: "m \<le> 11 \<Longrightarrow> 5 * march_length y m \<le> 153 + (153 * m + 2) mod 5"
  by (drule twelve_months) (elim disjE; simp add: march_length_def)

lemma march_length_year:
  "m \<le> 11 \<Longrightarrow> (153 * m + 2) div 5 + march_length y m \<le> 365 + (if is_leap (Suc y) then 1 else 0)"
  by (drule twelve_months) (elim disjE; simp add: march_length_def)

lemma march_length_complete: "m \<le> 11 \<Longrightarrow> 5 * d \<le> 153 + (153 * m + 2) mod 5 \<Longrightarrow>
    (153 * m + 2) div 5 + d \<le> 365 + (if is_leap (Suc y) then 1 else 0) \<Longrightarrow> d \<le> march_length y m"
  by (drule twelve_months) (elim disjE; simp add: march_length_def split: if_splits)

lemma month_split:
  assumes "m \<le> 11" "1 \<le> d" "d \<le> march_length y m" "B = (153 * m + 2) div 5 + d"
  shows "(5 * B - 3) div 153 = m" "(5 * B + 2 - 153 * m) div 5 = d" "1 \<le> B"
    "B \<le> 365 + (if is_leap (Suc y) then 1 else 0)"
proof -
  define q s where "q = (153 * m + 2) div 5" and "s = (153 * m + 2) mod 5"
  have qs: "5 * q + s = 153 * m + 2" "s < 5" by (simp_all add: q_def s_def)
  have up: "5 * d \<le> 153 + s"
    using march_length_bound [OF assms(1), of y] assms(3) unfolding s_def by linarith
  have B: "5 * B = 153 * m + 2 - s + 5 * d" using assms(4) qs unfolding q_def by linarith
  have "5 * B - 3 = (5 * d - 1 - s) + 153 * m" using B qs assms(2) by linarith
  moreover have "5 * d - 1 - s < 153" using up by linarith
  ultimately show "(5 * B - 3) div 153 = m" by simp
  have "5 * B + 2 - 153 * m = (4 - s) + 5 * d" using B qs by linarith
  then show "(5 * B + 2 - 153 * m) div 5 = d" by simp
  show "1 \<le> B" using assms(2,4) by simp
  show "B \<le> 365 + (if is_leap (Suc y) then 1 else 0)"
    using march_length_year [OF assms(1), of y] assms(3,4) by linarith
qed

lemma month_join:
  assumes "1 \<le> B" "B \<le> 365 + (if is_leap (Suc y) then 1 else 0)"
    "m = (5 * B - 3) div 153" "d = (5 * B + 2 - 153 * m) div 5"
  shows "m \<le> 11" "(153 * m + 2) div 5 + d = B" "1 \<le> d" "d \<le> march_length y m"
proof -
  have "B \<le> 366" using assms(2) by (simp split: if_splits)
  then show m: "m \<le> 11" using assms(3) by simp
  define q s k where "q = (153 * m + 2) div 5" and "s = (153 * m + 2) mod 5"
    and "k = (5 * B - 3) mod 153"
  have qs: "5 * q + s = 153 * m + 2" "s < 5" by (simp_all add: q_def s_def)
  have k: "153 * m + k = 5 * B - 3" "k < 153" unfolding assms(3) k_def by simp_all
  have B: "5 * B = 5 * q + s + 1 + k" using qs k assms(1) by linarith
  have d: "d = (k + 5) div 5" unfolding assms(4) using k assms(1) by simp
  have "k mod 5 + s = 4" using B qs(2) by presburger
  then have d5: "5 * d = k + 1 + s" using d by presburger
  then show "(153 * m + 2) div 5 + d = B" using B unfolding q_def by linarith
  then show "d \<le> march_length y m"
    using march_length_complete [OF m, of d y] d5 k(2) assms(2) unfolding s_def by linarith
  show "1 \<le> d" using d by simp
qed

lemma leap_cycle: "is_leap (Suc y) \<longleftrightarrow> y mod 4 = 3 \<and> (y mod 100 = 99 \<longrightarrow> y div 100 mod 4 = 3)"
proof -
  have "y mod 400 = y mod 100 + 100 * (y div 100 mod 4)"
    using mod_mult2_eq [of y 100 4] by simp
  moreover have "y mod 100 < 100" "y div 100 mod 4 < 4" by simp_all
  ultimately have 400: "y mod 400 = 399 \<longleftrightarrow> y mod 100 = 99 \<and> y div 100 mod 4 = 3" by linarith
  have suc: "Suc y mod 400 = 0 \<longleftrightarrow> y mod 400 = 399" "Suc y mod 100 = 0 \<longleftrightarrow> y mod 100 = 99"
    "Suc y mod 4 = 0 \<longleftrightarrow> y mod 4 = 3"
    by (simp_all only: mod_Suc split: if_split) simp_all
  show ?thesis by (simp only: is_leap_def suc 400) blast
qed

text \<open>The two directions compose to the identity.\<close>

lemma march_split:
  assumes "m \<le> 11" "1 \<le> d" "d \<le> march_length y m"
  defines "n \<equiv> march_days y m d"
  shows "march_century n = y div 100" "march_year n = y mod 100" "march_month n = m" "march_day n = d"
proof -
  define B where "B = (153 * m + 2) div 5 + d"
  note mo = month_split [OF assms(1-3) B_def]
  define a where "a = y mod 100"
  define c where "c = y div 100"
  define A where "A = 1461 * a div 4 + B"
  have n: "n = 146097 * c div 4 + A"
    by (simp add: n_def march_days_def A_def B_def a_def c_def)
  have a4: "a mod 4 = y mod 4" unfolding a_def by (rule mod_mod_cancel) simp
  have a: "a \<le> 99" unfolding a_def by simp
  have B_le: "B \<le> 365 + (if a mod 4 = 3 then 1 else 0)"
    using mo(4) leap_cycle [of y] a4 by (simp split: if_splits)
  have "1461 * a div 4 = 365 * a + a div 4" using cycle_start [of 365 a] by simp
  then have A_le: "A \<le> 36524 + (if c mod 4 = 3 then 1 else 0)"
  proof (cases "a = 99")
    case True
    then show ?thesis using mo(4) leap_cycle [of y] unfolding A_def a_def c_def
      by (simp split: if_splits)
  next
    case False
    then have "a \<le> 98" "a div 4 \<le> 24" using a by simp_all
    moreover have "B \<le> 366" using B_le by (simp split: if_splits)
    ultimately have "A \<le> 36524"
      using \<open>1461 * a div 4 = 365 * a + a div 4\<close> unfolding A_def by linarith
    then show ?thesis by simp
  qed
  have A1: "1 \<le> A" using mo(3) by (simp add: A_def)
  have cd: "march_century n = c" "march_cday n = A - 1"
    using cycle_split [OF A1 A_le] unfolding march_century_def march_cday_def n by simp_all
  have k: "4 * (A - 1) + 3 = 4 * A - 1" using A1 by simp
  have p: "4 * 365 + 1 = (1461::nat)" by simp
  note cs = cycle_split [OF mo(3) B_le, unfolded p, folded A_def]
  have yr: "march_year n = a" unfolding march_year_def cd k by (rule cs(1))
  have rest: "(4 * A - 1) mod 1461 div 4 = B - 1" by (rule cs(2))
  have "4 * A - 1 = 1461 * ((4 * A - 1) div 1461) + (4 * A - 1) mod 1461" by simp
  then have "4 * (A - 1) + 7 - 1461 * a = (4 * A - 1) mod 1461 + 4"
    unfolding cs(1) using A1 by linarith
  then have "march_yday n = ((4 * A - 1) mod 1461 + 4) div 4" unfolding march_yday_def cd yr by simp
  then have yd: "march_yday n = B" using rest mo(3) by linarith
  show "march_century n = y div 100" "march_year n = y mod 100" using cd yr by (simp_all add: c_def a_def)
  show "march_month n = m" "march_day n = d"
    unfolding march_day_def march_month_def yd using mo(1,2) by simp_all
qed

lemma march_join:
  assumes "1 \<le> n"
  defines "y \<equiv> 100 * march_century n + march_year n"
  shows "march_days y (march_month n) (march_day n) = n" "1 \<le> march_day n"
    "march_day n \<le> march_length y (march_month n)" "y div 100 = march_century n" "y mod 100 = march_year n"
proof -
  define c a where "c = march_century n" and "a = march_year n"
  define A where "A = march_cday n + 1"
  have cA: "146097 * c div 4 + A = n" "A \<le> 36524 + (if c mod 4 = 3 then 1 else 0)"
    using cycle_join [of n 36524, OF assms(1)]
    by (simp_all add: c_def A_def march_century_def march_cday_def)
  have A1: "1 \<le> A" and k: "4 * march_cday n + 3 = 4 * A - 1" by (simp_all add: A_def)
  have a_eq: "a = (4 * A - 1) div 1461" by (simp add: a_def march_year_def k)
  define B where "B = (4 * A - 1) mod 1461 div 4 + 1"
  have p: "4 * 365 + 1 = (1461::nat)" by simp
  note cj = cycle_join [of A 365, OF A1, unfolded p, folded a_eq B_def]
  have aB: "1461 * a div 4 + B = A" "B \<le> 365 + (if a mod 4 = 3 then 1 else 0)"
    by (rule cj(1), rule cj(2))
  have "4 * A - 1 = 1461 * a + (4 * A - 1) mod 1461" unfolding a_eq by simp
  then have "4 * march_cday n + 7 - 1461 * a = (4 * A - 1) mod 1461 + 4"
    using k A1 by linarith
  then have yd: "march_yday n = B" by (simp add: march_yday_def a_def B_def)
  have a99: "a \<le> 99" using march_year_le by (simp add: a_def)
  have y: "y = 100 * c + a" by (simp add: y_def c_def a_def)
  show yc: "y div 100 = march_century n" and ya: "y mod 100 = march_year n"
    using a99 y by (simp_all add: c_def [symmetric] a_def [symmetric])
  have y4: "y mod 4 = a mod 4" using ya mod_mod_cancel [of 4 100 y] by (simp add: a_def)
  have "B \<le> 365 + (if is_leap (Suc y) then 1 else 0)"
  proof (cases "B = 366")
    case True
    then have a4: "a mod 4 = 3" using aB(2) by (simp split: if_splits)
    moreover have "c mod 4 = 3" if "a = 99"
      using cA(2) aB(1) True that by (simp split: if_splits)
    ultimately have "is_leap (Suc y)" unfolding leap_cycle y4 yc ya by (simp add: a_def c_def)
    then show ?thesis using True by simp
  qed (use aB(2) in \<open>simp split: if_splits\<close>)
  note mo = month_join [OF _ this march_month_def [of n, unfolded yd] march_day_def [of n, unfolded yd]]
  have B1: "1 \<le> B" by (simp add: B_def)
  show "1 \<le> march_day n" "march_day n \<le> march_length y (march_month n)"
    using mo(3,4) [OF B1] by simp_all
  show "march_days y (march_month n) (march_day n) = n"
    using mo(2) [OF B1] cA(1) aB(1) yc ya unfolding march_days_def by (simp add: c_def a_def)
qed

section \<open>The conversions are the calendar\<close>

definition ticks_per_day :: nat where "ticks_per_day = 86400000000"

text \<open>The first tick of the year 10000.\<close>

definition tick_limit :: nat where "tick_limit = 3652059 * 86400000000"

definition date_of_tick :: "nat \<Rightarrow> OrbisRtcDateTime" where
  "date_of_tick tick =
     (let n = tick div 86400000000 + 307; ms = tick mod 86400000000; mm = march_month n;
          y = 100 * march_century n + march_year n
      in \<lparr>year = (if mm < 10 then y else y + 1) mod 65536, month = (if mm < 10 then mm + 3 else mm - 9),
          day = march_day n, hour = ms div 3600000000, minute = ms mod 3600000000 div 60000000,
          second = ms mod 60000000 div 1000000, microsecond = ms mod 1000000\<rparr>)"

lemma sub_mul_div: "sub32 j (mul32 k (j div k)) = j mod k" if "j < two32"
proof -
  have le: "k * (j div k) \<le> j" by (simp add: mult.commute)
  then have "mul32 k (j div k) = k * (j div k)" using that by (intro mul32_exact) linarith
  then show ?thesis using sub32_exact [OF le that] by (simp add: minus_mult_div_eq_mod)
qed

lemma march_day_le: "march_day n \<le> 31"
proof -
  have "5 * march_yday n - 3 < 153 * march_month n + 153"
    unfolding march_month_def by (simp add: dividend_less_times_div [of 153, simplified])
  then show ?thesis unfolding march_day_def by linarith
qed

lemma time_of_day_bounds:
  "ms < 86400000000 \<Longrightarrow> ms div 3600000000 < 24" "ms mod 3600000000 div 60000000 < (60::nat)"
  "ms mod 60000000 div 1000000 < (60::nat)" "ms mod 1000000 < (1000000::nat)"
proof -
  have "ms mod 3600000000 < 3600000000" "ms mod 60000000 < 60000000" by simp_all
  then show "ms mod 3600000000 div 60000000 < (60::nat)" "ms mod 60000000 div 1000000 < (60::nat)"
    by (simp_all add: div_less_iff_less_mult)
qed (simp_all add: div_less_iff_less_mult)

lemma march_machine:
  assumes "1 \<le> n" "4 * n < two32"
  shows "sub64 (push_bit 2 n mod two64) 1 mod two32 = 4 * n - 1"
    "drop_bit 2 (sub32 (4 * n - 1) (mul32 146097 ((4 * n - 1) div 146097))) = march_cday n"
    "add32 (push_bit 2 (march_cday n) mod two32) 3 div 1461 = march_year n"
    "drop_bit 2 (sub32 (add32 (push_bit 2 (march_cday n) mod two32) 7) (mul32 1461 (march_year n)))
      = march_yday n"
    "sub32 (mul32 5 (march_yday n)) 3 div 153 = march_month n"
    "sub32 (add32 (mul32 5 (march_yday n)) 2) (mul32 153 (march_month n)) div 5 = march_day n"
    "add32 (mul32 100 ((4 * n - 1) div 146097)) (march_year n)
      = 100 * march_century n + march_year n"
proof -
  have sh: "push_bit 2 k = 4 * k" "drop_bit 2 k = k div 4" for k :: nat
    by (simp_all add: push_bit_eq_mult drop_bit_eq_div)
  show "sub64 (push_bit 2 n mod two64) 1 mod two32 = 4 * n - 1"
    using assms sub64_exact [of 1 "4 * n"] by (simp add: sh)
  show "drop_bit 2 (sub32 (4 * n - 1) (mul32 146097 ((4 * n - 1) div 146097))) = march_cday n"
    using assms by (subst sub_mul_div) (simp_all add: sh march_cday_def)
  have cd: "march_cday n \<le> 36524" and yr: "march_year n \<le> 99" and mm: "march_month n \<le> 11"
    and yd: "1 \<le> march_yday n" "march_yday n \<le> 366"
    by (rule march_cday_le march_year_le march_month_le march_yday_bounds)+
  show "add32 (push_bit 2 (march_cday n) mod two32) 3 div 1461 = march_year n"
    using cd by (simp add: sh add32_exact march_year_def)
  have "1461 * march_year n \<le> 4 * march_cday n + 3" by (simp add: march_year_def)
  then show "drop_bit 2 (sub32 (add32 (push_bit 2 (march_cday n) mod two32) 7)
      (mul32 1461 (march_year n))) = march_yday n"
    using cd yr by (simp add: sh add32_exact mul32_exact sub32_exact march_yday_def)
  show "sub32 (mul32 5 (march_yday n)) 3 div 153 = march_month n"
    using yd by (simp add: mul32_exact sub32_exact march_month_def)
  have "153 * march_month n \<le> 5 * march_yday n - 3" by (simp add: march_month_def)
  then have "153 * march_month n \<le> 5 * march_yday n + 2" by linarith
  then show "sub32 (add32 (mul32 5 (march_yday n)) 2) (mul32 153 (march_month n)) div 5 = march_day n"
    using yd mm by (simp add: mul32_exact add32_exact sub32_exact march_day_def)
  have "march_century n \<le> 4 * n div 146097" unfolding march_century_def by (rule div_le_mono) simp
  then show "add32 (mul32 100 ((4 * n - 1) div 146097)) (march_year n)
      = 100 * march_century n + march_year n"
    using assms yr by (simp add: mul32_exact add32_exact march_century_def)
qed

lemma sceRtcSetTick_date:
  assumes "tick < two64"
  shows "sceRtcSetTick (Some t) (Some tick) = (0, Some (date_of_tick tick))"
proof -
  define n where "n = tick div 86400000000 + 307"
  have "tick div 86400000000 \<le> 213503982" using assms by simp
  then have n: "1 \<le> n" "4 * n < two32" and add: "add64 (tick div 86400000000) 307 = n"
    by (simp_all add: n_def add64_exact)
  note machine = march_machine [OF n]
  have mm: "march_month n \<le> 11" and md: "march_day n \<le> 31" and yr: "march_year n \<le> 99"
    by (rule march_month_le march_day_le march_year_le)+
  have "march_century n \<le> 4 * n div 146097" unfolding march_century_def by (rule div_le_mono) simp
  then have y: "100 * march_century n + march_year n + 1 < two32" using n yr by linarith
  have ml: "add32 (march_month n) 3 = march_month n + 3"
    "\<not> march_month n < 10 \<Longrightarrow> sub32 (march_month n) 9 = march_month n - 9"
    "add32 (100 * march_century n + march_year n) 1 = 100 * march_century n + march_year n + 1"
    using mm y by (simp_all add: add32_exact sub32_exact)
  define ms where "ms = tick mod 86400000000"
  have ms: "ms < 86400000000" by (simp add: ms_def)
  note tod = time_of_day_bounds(1) [OF ms] time_of_day_bounds(2-) [of ms]
  have mods: "ms mod 3600000000 mod 60000000 = ms mod 60000000"
    "ms mod 60000000 mod 1000000 = ms mod 1000000"
    by (simp_all add: mod_mod_cancel)
  have small: "ms div 3600000000 mod 65536 = ms div 3600000000"
    "ms mod 3600000000 div 60000000 mod 65536 = ms mod 3600000000 div 60000000"
    "ms mod 60000000 div 1000000 mod 65536 = ms mod 60000000 div 1000000"
    "ms mod 1000000 mod two32 = ms mod 1000000"
    "march_day n mod 65536 = march_day n"
    using tod md by (intro mod_less; linarith)+
  show ?thesis
    unfolding sceRtcSetTick_def date_of_tick_def Let_def option.case prod.case add machine
      ms_def [symmetric] n_def [symmetric] mods small
    using mm ml by (cases t) simp
qed

lemma CheckValid_cases:
  "sceRtcCheckValid (Some t) = 0 \<longleftrightarrow> valid_time t"
proof (cases "year t \<le> 9999")
  case True
  then show ?thesis
    by (auto simp: sceRtcCheckValid_def valid_time_def valid_date_def rtc_error_defs
        chrono_last_day_nat Suc_le_eq)
qed (simp add: sceRtcCheckValid_def valid_time_def rtc_error_defs)

lemma div_mod_eqI: "r = x + k * q \<Longrightarrow> x < k \<Longrightarrow> r div k = q" "r = x + k * q \<Longrightarrow> x < k \<Longrightarrow> r mod k = x"
  for r x k q :: nat
  by simp_all

lemma date_tick_split:
  assumes "valid_time t"
  shows "date_tick t div 86400000000 = day_number (year t) (month t) (day t)" (is ?D)
    "date_tick t mod 86400000000 div 3600000000 = hour t" (is ?H)
    "date_tick t mod 86400000000 mod 3600000000 div 60000000 = minute t" (is ?M)
    "date_tick t mod 86400000000 mod 60000000 div 1000000 = second t" (is ?S)
    "date_tick t mod 86400000000 mod 1000000 = microsecond t" (is ?U)
proof -
  have b: "hour t \<le> 23" "minute t \<le> 59" "second t \<le> 59" "microsecond t \<le> 999999"
    using assms by (auto simp: valid_time_def)
  define r where "r = hour t * 3600000000 + minute t * 60000000 + second t * 1000000 + microsecond t"
  have tick: "date_tick t = r + 86400000000 * day_number (year t) (month t) (day t)"
    by (simp add: date_tick_def r_def algebra_simps)
  have r: "r < 86400000000" using b unfolding r_def by linarith
  have rm: "date_tick t mod 86400000000 = r" using r by (simp add: tick)
  show ?D using r by (simp add: tick)
  have m3: "minute t * 60000000 + second t * 1000000 + microsecond t < 3600000000"
    and m2: "second t * 1000000 + microsecond t < 60000000" using b by linarith+
  have "r = (minute t * 60000000 + second t * 1000000 + microsecond t) + 3600000000 * hour t"
    by (simp add: r_def)
  note h = div_mod_eqI [OF this m3]
  show ?H unfolding rm by (rule h(1))
  show ?M unfolding rm h(2)
    using div_mod_eqI(1) [of _ _ 60000000 "minute t", OF _ m2] by (simp add: add.assoc)
  have "r = (second t * 1000000 + microsecond t) + 60000000 * (60 * hour t + minute t)"
    by (simp add: r_def algebra_simps)
  note s = div_mod_eqI(2) [OF this m2]
  show ?S unfolding rm s using b by simp
  have "r = microsecond t + 1000000 * (3600 * hour t + 60 * minute t + second t)"
    by (simp add: r_def algebra_simps)
  then show ?U unfolding rm by (rule div_mod_eqI(2)) (use b in simp)
qed

lemma days_before_year_mono: "y \<le> y' \<Longrightarrow> days_before_year y \<le> days_before_year y'"
  by (rule lift_Suc_mono_le [of days_before_year]) auto

lemma day_number_less:
  assumes "valid_date y m d"
  shows "day_number y m d < days_before_year (Suc y)"
proof -
  have m: "1 \<le> m" "m \<le> 12" "1 \<le> d" "1 \<le> y" using assms by (auto simp: valid_date_def)
  have "m = 1 \<or> m = 2 \<or> m = 3 \<or> m = 4 \<or> m = 5 \<or> m = 6 \<or> m = 7 \<or> m = 8 \<or> m = 9 \<or>
    m = 10 \<or> m = 11 \<or> m = 12" using m by presburger
  then have "days_before_month y m + month_length y m \<le> (if is_leap y then 366 else 365)"
    using days_before_month_table [OF m(1,2), of y]
    by (elim disjE) (simp_all add: month_length_def split: if_splits)
  moreover have "days_before_year (Suc y) = days_before_year y + (if is_leap y then 366 else 365)"
    using m by simp
  ultimately show ?thesis using assms m(3) unfolding day_number_def valid_date_def by linarith
qed

lemma days_before_10000: "days_before_year 10000 = 3652059"
  using days_before_year_closed [of 9999] by simp

lemma date_tick_less:
  assumes "valid_time t"
  shows "date_tick t < tick_limit"
proof -
  have "day_number (year t) (month t) (day t) < days_before_year (Suc (year t))"
    using assms by (intro day_number_less) (simp add: valid_time_def)
  also have "\<dots> \<le> days_before_year 10000"
    using assms by (intro days_before_year_mono) (simp add: valid_time_def)
  finally have "date_tick t div 86400000000 < 3652059"
    by (simp only: date_tick_split [OF assms] days_before_10000)
  then show ?thesis unfolding tick_limit_def by linarith
qed

lemma to_u64_int: "to_u64 (int n) = n mod two64"
  unfolding to_u64_def using zmod_int [of n two64] by simp

text \<open>The date \<open>sceRtcGetTick\<close> leaves in its argument: the year that starts in March.\<close>

definition march_of :: "OrbisRtcDateTime \<Rightarrow> OrbisRtcDateTime" where
  "march_of t = (if month t > 2 then t\<lparr>month := month t - 3\<rparr>
     else t\<lparr>month := month t + 9, year := year t - 1\<rparr>)"

lemma march_of_length:
  assumes "valid_date (year t) (month t) (day t)"
  shows "month (march_of t) \<le> 11" "day t \<le> march_length (year (march_of t)) (month (march_of t))"
    "march_days (year (march_of t)) (month (march_of t)) (day t)
      = day_number (year t) (month t) (day t) + 307"
proof -
  have m: "1 \<le> month t" "month t \<le> 12" "1 \<le> year t" using assms by (auto simp: valid_date_def)
  then show "month (march_of t) \<le> 11" by (auto simp: march_of_def)
  have "month_length (year t) (month t) = march_length (year (march_of t)) (month (march_of t))"
    using m by (auto simp: month_length_def march_length_def march_of_def)
  then show "day t \<le> march_length (year (march_of t)) (month (march_of t))"
    using assms by (simp add: valid_date_def)
  show "march_days (year (march_of t)) (month (march_of t)) (day t)
      = day_number (year t) (month t) (day t) + 307"
    using march_days_day_number [OF assms] by (simp add: march_of_def split: if_splits)
qed

lemma GetTick_value:
  assumes t: "valid_time t"
  shows "sceRtcGetTick (Some t) (Some k)
    = (if minute t \<le> 35 then Some (0, Some (march_of t), Some (date_tick t)) else None)"
proof -
  have vd: "valid_date (year t) (month t) (day t)" and
    b: "hour t \<le> 23" "minute t \<le> 59" "second t \<le> 59" "microsecond t \<le> 999999"
    using t by (auto simp: valid_time_def)
  define N where "N = day_number (year t) (month t) (day t)"
  define r where "r = hour t * 3600000000 + minute t * 60000000 + second t * 1000000 + microsecond t"
  have N: "N < 3652059"
    using date_tick_less [OF t] date_tick_split(1) [OF t] unfolding N_def tick_limit_def by linarith
  have r: "r < 86400000000" using b unfolding r_def by linarith
  have y: "year m - 100 * (year m div 100) = year m mod 100" for m :: OrbisRtcDateTime
    by (rule minus_mult_div_eq_mod)
  have same: "hour (march_of t) = hour t" "minute (march_of t) = minute t"
    "second (march_of t) = second t" "microsecond (march_of t) = microsecond t" "day (march_of t) = day t"
    by (simp_all add: march_of_def)
  have four: "drop_bit 2 k = k div 4" for k :: nat by (simp add: drop_bit_eq_div)
  have days: "drop_bit 2 (146097 * (year (march_of t) div 100))
      + drop_bit 2 (1461 * (year (march_of t) mod 100))
      + (153 * month (march_of t) + 2) div 5 + day (march_of t) = N + 307"
    using march_of_length(3) [OF vd] unfolding march_days_def N_def four same(5) .
  have u1: "to_u64 (int (N + 307)) = N + 307" unfolding to_u64_int by (rule mod_less) (use N in linarith)
  have "sub64 (N + 307) 307 = N + 307 - 307" by (rule sub64_exact) (use N in linarith)+
  then have u2: "sub64 (N + 307) 307 = N" by (simp only: add_diff_cancel_right')
  have u3: "N * 86400000000 mod two64 = N * 86400000000" by (rule mod_less) (use N in linarith)
  have sec: "s32_of (int (second t) * 1000000) = Some (int (second t) * 1000000)"
    using b by (simp add: s32_of_def)
  have int_r: "int (hour t) * 3600000000 + int (minute t) * 60000000 + int (second t) * 1000000
      + int (microsecond t) = int r"
    by (simp add: r_def)
  have ms: "to_u64 (int (hour t) * 3600000000 + int (minute t) * 60000000
      + int (second t) * 1000000 + int (microsecond t)) = r"
    unfolding int_r to_u64_int by (rule mod_less) (use r in linarith)
  have tick: "add64 (N * 86400000000) r = date_tick t"
    using N r by (simp add: add64_exact date_tick_def r_def N_def algebra_simps)
  have valid: "sceRtcCheckValid (Some t) = 0" using t by (simp add: CheckValid_cases)
  have eq: "(if 2 < month t then t\<lparr>month := month t - 3\<rparr>
      else t\<lparr>month := month t + 9, year := year t - 1\<rparr>) = march_of t"
    by (simp add: march_of_def)
  show ?thesis
  proof (cases "minute t \<le> 35")
    case True
    then have min: "s32_of (int (minute t) * 60000000) = Some (int (minute t) * 60000000)"
      by (simp add: s32_of_def)
    show ?thesis
      unfolding sceRtcGetTick_def prod.case option.case valid Let_def eq y days u1 u2 u3 same(1-4) min sec
        bind.bind_lunit ms tick using True by simp
  next
    case False
    then have min: "s32_of (int (minute t) * 60000000) = None" by (simp add: s32_of_def)
    show ?thesis
      unfolding sceRtcGetTick_def prod.case option.case valid Let_def eq y days u1 u2 u3 same(1-4) min
      using False by simp
  qed
qed

lemma date_of_date_tick:
  assumes t: "valid_time t"
  shows "date_of_tick (date_tick t) = t"
proof -
  have vd: "valid_date (year t) (month t) (day t)" and y: "year t \<le> 9999"
    using t by (auto simp: valid_time_def)
  have b: "1 \<le> year t" "1 \<le> month t" "month t \<le> 12" "1 \<le> day t" using vd by (auto simp: valid_date_def)
  note mo = march_of_length [OF vd]
  note split = march_split [OF mo(1) b(4) mo(2), unfolded mo(3)]
  have y': "100 * (year (march_of t) div 100) + year (march_of t) mod 100 = year (march_of t)" by simp
  note parts = date_tick_split [OF t]
  have mods: "date_tick t mod 86400000000 mod 3600000000 div 60000000 = minute t" by (rule parts(3))
  show ?thesis
    unfolding date_of_tick_def Let_def parts split y'
    using b y by (cases t) (auto simp: march_of_def)
qed

lemma compose_time:
  "ms = 3600000000 * h + x \<Longrightarrow> x = 60000000 * m + y \<Longrightarrow> y = 1000000 * s + u \<Longrightarrow>
    (((D * 24 + h) * 60 + m) * 60 + s) * 1000000 + u = 86400000000 * D + (ms::nat)"
  by simp

lemma date_of_tick_valid:
  assumes "tick < tick_limit"
  shows "valid_time (date_of_tick tick)" "date_tick (date_of_tick tick) = tick"
proof -
  define D where "D = tick div 86400000000"
  define ms where "ms = tick mod 86400000000"
  define n where "n = D + 307"
  define mm where "mm = march_month n"
  define y where "y = 100 * march_century n + march_year n"
  define Y M where "Y = (if mm < 10 then y else y + 1)" and "M = (if mm < 10 then mm + 3 else mm - 9)"
  have n1: "1 \<le> n" by (simp add: n_def)
  note join = march_join [OF n1, folded y_def mm_def]
  have mm: "mm \<le> 11" unfolding mm_def by (rule march_month_le)
  have md: "march_day n \<le> 31" by (rule march_day_le)
  have Y1: "1 \<le> Y"
  proof (cases "mm < 10 \<and> y = 0")
    case True
    then have "(153 * mm + 2) div 5 + march_day n = D + 307"
      using join(1) by (simp add: march_days_def n_def)
    moreover have "(153 * mm + 2) div 5 \<le> (153 * 9 + 2) div 5" using True by (intro div_le_mono) simp
    ultimately show ?thesis using md by simp
  qed (auto simp: Y_def)
  have M: "1 \<le> M" "M \<le> 12" using mm by (auto simp: M_def)
  have "month_length Y M = march_length y mm"
    using mm by (auto simp: month_length_def march_length_def Y_def M_def)
  then have vd: "valid_date Y M (march_day n)"
    using join(2,3) Y1 M by (simp add: valid_date_def)
  have unshift: "(if M > 2 then Y else Y - 1) = y" "(if M > 2 then M - 3 else M + 9) = mm"
    using mm by (auto simp: Y_def M_def)
  have D: "day_number Y M (march_day n) = D"
    using march_days_day_number [OF vd] join(1) unfolding unshift n_def by linarith
  have Y: "Y \<le> 9999"
  proof (rule ccontr)
    assume "\<not> Y \<le> 9999"
    then have "days_before_year 10000 \<le> days_before_year Y" by (intro days_before_year_mono) simp
    also have "\<dots> \<le> D" using D by (simp add: day_number_def)
    finally show False using assms unfolding days_before_10000 D_def tick_limit_def by linarith
  qed
  have date: "date_of_tick tick = \<lparr>year = Y, month = M, day = march_day n, hour = ms div 3600000000,
      minute = ms mod 3600000000 div 60000000, second = ms mod 60000000 div 1000000,
      microsecond = ms mod 1000000\<rparr>"
    unfolding date_of_tick_def Let_def D_def [symmetric] ms_def [symmetric] n_def [symmetric]
      mm_def [symmetric] y_def [symmetric] Y_def [symmetric] M_def [symmetric] using Y by simp
  have ms: "ms < 86400000000" by (simp add: ms_def)
  note tod = time_of_day_bounds(1) [OF ms] time_of_day_bounds(2-) [of ms]
  show "valid_time (date_of_tick tick)"
    using Y vd tod unfolding date valid_time_def by simp
  have tick: "tick = 86400000000 * D + ms" by (simp add: D_def ms_def)
  have "ms = 3600000000 * (ms div 3600000000) + ms mod 3600000000" by simp
  moreover have "ms mod 3600000000 = 60000000 * (ms mod 3600000000 div 60000000) + ms mod 60000000"
    using mult_div_mod_eq [of 60000000 "ms mod 3600000000"] by (simp add: mod_mod_cancel)
  moreover have "ms mod 60000000 = 1000000 * (ms mod 60000000 div 1000000) + ms mod 1000000"
    using mult_div_mod_eq [of 1000000 "ms mod 60000000"] by (simp add: mod_mod_cancel)
  ultimately have "date_tick (date_of_tick tick) = 86400000000 * D + ms"
    unfolding date date_tick_def OrbisRtcDateTime.select_convs D by (rule compose_time)
  then show "date_tick (date_of_tick tick) = tick" by (simp only: tick)
qed

section \<open>Properties\<close>

text \<open>
  The validity check accepts exactly the dates of the Gregorian calendar up to the year 9999
  with a time of day; otherwise it names the first wrong field in the order year, month, day,
  hour, minute, second, microsecond.
\<close>

theorem sceRtcCheckValid_spec:
  "sceRtcCheckValid (Some t) =
     (if valid_time t then 0
      else if year t \<notin> {1..9999} then ORBIS_RTC_ERROR_INVALID_YEAR
      else if month t \<notin> {1..12} then ORBIS_RTC_ERROR_INVALID_MONTH
      else if day t \<notin> {1..month_length (year t) (month t)} then ORBIS_RTC_ERROR_INVALID_DAY
      else if hour t \<notin> {0..<24} then ORBIS_RTC_ERROR_INVALID_HOUR
      else if minute t \<notin> {0..<60} then ORBIS_RTC_ERROR_INVALID_MINUTE
      else if second t \<notin> {0..<60} then ORBIS_RTC_ERROR_INVALID_SECOND
      else ORBIS_RTC_ERROR_INVALID_MICROSECOND)"
proof (cases "year t \<le> 9999")
  case True
  then have "chrono_last_day (int (year t)) (month t) = month_length (year t) (month t)"
    by (simp add: chrono_last_day_nat)
  then show ?thesis using True
    by (auto simp: sceRtcCheckValid_def valid_time_def valid_date_def Suc_le_eq)
qed (simp add: sceRtcCheckValid_def valid_time_def)

text \<open>
  C39. On a valid date \<open>sceRtcGetTick\<close> stores the number of microseconds since 0001-01-01 in the
  proleptic Gregorian calendar, as counted by the reference calendar, when the minute is at most
  35.  From minute 36 on the product of the minute with 60000000 leaves the range of \<open>int\<close> and
  the call has no defined result.
\<close>

theorem sceRtcGetTick_counts:
  assumes "valid_time t"
  shows "sceRtcGetTick (Some t) (Some k) =
    (if minute t \<le> 35
     then Some (0, Some (if month t > 2 then t\<lparr>month := month t - 3\<rparr>
                         else t\<lparr>month := month t + 9, year := year t - 1\<rparr>), Some (date_tick t))
     else None)"
  using GetTick_value [OF assms] by (simp add: march_of_def)

theorem sceRtcGetTick_counts_witness:
  "sceRtcGetTick (Some \<lparr>year = 2024, month = 2, day = 29, hour = 23, minute = 35, second = 59,
      microsecond = 999999\<rparr>) (Some 0)
    = Some (0, Some \<lparr>year = 2023, month = 11, day = 29, hour = 23, minute = 35, second = 59,
      microsecond = 999999\<rparr>, Some 63844846559999999)"
proof -
  let ?t = "\<lparr>year = 2024, month = 2, day = 29, hour = 23, minute = 35, second = 59,
      microsecond = 999999\<rparr>"
  have "valid_time ?t" by (simp add: valid_time_def valid_date_def month_length_def is_leap_def)
  moreover have "days_before_year 2024 = 738885"
    using days_before_year_closed [of 2023] by simp
  ultimately show ?thesis
    by (simp add: sceRtcGetTick_counts date_tick_def day_number_def days_before_month_table)
qed

text \<open>
  \<open>sceRtcSetTick\<close> inverts the calendar: every tick before the year 10000 becomes a valid date,
  and the reference calendar counts exactly that tick for it, whatever the record held before.
\<close>

theorem sceRtcSetTick_inverts:
  assumes "tick < tick_limit"
  shows "\<exists>t. sceRtcSetTick (Some t0) (Some tick) = (0, Some t) \<and> valid_time t \<and> date_tick t = tick"
proof -
  have "tick < two64" using assms by (simp add: tick_limit_def)
  then show ?thesis using sceRtcSetTick_date date_of_tick_valid [OF assms] by blast
qed

theorem sceRtcSetTick_inverts_witness:
  "\<exists>t. sceRtcSetTick (Some \<lparr>year = 0, month = 0, day = 0, hour = 0, minute = 0,
      second = 0, microsecond = 0\<rparr>) (Some 63844846559999999) = (0, Some t) \<and> valid_time t
    \<and> date_tick t = 63844846559999999"
  by (rule sceRtcSetTick_inverts) (simp add: tick_limit_def)

text \<open>
  C38. Round trip: converting a valid date with a minute of at most 35 to a tick and back gives the date
  again: \<open>sceRtcGetTick\<close> succeeds and stores a tick, and \<open>sceRtcSetTick\<close> of that tick succeeds and stores the
  date, whatever the record held before.  (From minute 36 on the tick is not defined.)
\<close>

theorem rtc_tick_roundtrip:
  assumes "valid_time t" "minute t \<le> 35"
  shows "\<exists>t' tick. sceRtcGetTick (Some t) (Some k) = Some (0, t', Some tick) \<and>
    sceRtcSetTick (Some t0) (Some tick) = (0, Some t)"
proof -
  have "date_tick t < two64"
    using date_tick_less [OF assms(1)] by (simp add: tick_limit_def)
  then have "sceRtcSetTick (Some t0) (Some (date_tick t)) = (0, Some t)"
    using sceRtcSetTick_date [of "date_tick t"] date_of_date_tick [OF assms(1)] by simp
  then show ?thesis using GetTick_value [OF assms(1)] assms(2) by simp
qed

theorem rtc_tick_roundtrip_witness:
  "let t = \<lparr>year = 2024, month = 2, day = 29, hour = 23, minute = 35, second = 59, microsecond = 999999\<rparr>
   in \<exists>t' tick. sceRtcGetTick (Some t) (Some 0) = Some (0, t', Some tick) \<and>
     sceRtcSetTick (Some (t\<lparr>year := 1, month := 1, day := 1\<rparr>)) (Some tick) = (0, Some t)"
proof -
  let ?t = "\<lparr>year = 2024, month = 2, day = 29, hour = 23, minute = 35, second = 59, microsecond = 999999\<rparr>"
  have "valid_time ?t" "minute ?t \<le> 35" by (simp_all add: valid_time_def valid_date_def month_length_def is_leap_def)
  from rtc_tick_roundtrip [OF this] show ?thesis unfolding Let_def by blast
qed

end
