(* ===== verification/Rtc_Ops.thy ===== *)
theory Rtc_Ops
  imports Rtc_Calendar
begin

text \<open>
  The operations of \<open>src/src/core/libraries/rtc/rtc.cpp\<close> on ticks and dates: adding spans, reading
  and setting the clocks, the calendar queries, and the DOS, \<open>time_t\<close> and Win32 conversions.

  What the kernel library answers is an environment record: the host clock, the host time zone
  and the compiled SDK version.  The kernel functions the library calls are translated from
  \<open>src/src/core/libraries/kernel/time.cpp\<close> and \<open>process.cpp\<close> as far as they do not ask the host.
\<close>

section \<open>The kernel\<close>

record kernel_env =
  clock_ret :: int      \<comment> \<open>result of \<open>sceKernelClockGettime(ORBIS_CLOCK_REALTIME)\<close>\<close>
  clock_sec :: int
  clock_nsec :: int
  tz_ret :: int         \<comment> \<open>result of \<open>sceKernelGettimezone\<close>\<close>
  tz_minuteswest :: int
  tz_dsttime :: int
  compiled_sdk :: int
  errno_error :: int    \<comment> \<open>\<open>ErrnoToSceKernelError(*__Error())\<close>\<close>
  stack_tick :: u64     \<comment> \<open>the content of a local \<open>OrbisRtcTick\<close> before it is written\<close>
  stack_time :: OrbisRtcDateTime

definition ORBIS_RTC_CLOCK_ID_NETWORK :: int where "ORBIS_RTC_CLOCK_ID_NETWORK = 0x10"
definition ORBIS_RTC_CLOCK_ID_DEBUG_NETWORK :: int where "ORBIS_RTC_CLOCK_ID_DEBUG_NETWORK = 0x11"
definition ORBIS_RTC_CLOCK_ID_AD_NETWORK :: int where "ORBIS_RTC_CLOCK_ID_AD_NETWORK = 0x12"

definition sceKernelGetCompiledSdkVersion :: "kernel_env \<Rightarrow> int option \<Rightarrow> int \<times> int option" where
  "sceKernelGetCompiledSdkVersion env ver = (case ver of
     None \<Rightarrow> (0x80020016 - 0x100000000, None)
   | Some _ \<Rightarrow> (0, Some (compiled_sdk env)))"

text \<open>\<open>posix_clock_settime\<close> and \<open>posix_settimeofday\<close> are stubs that log and return success.\<close>

definition posix_clock_settime :: "int \<Rightarrow> (int \<times> int) option \<Rightarrow> int" where
  "posix_clock_settime clock_id tp = 0"

definition posix_settimeofday :: "(int \<times> int) option \<Rightarrow> (int \<times> int) option \<Rightarrow> int" where
  "posix_settimeofday tv tz = 0"

definition sceKernelSettimeofday ::
  "kernel_env \<Rightarrow> (int \<times> int) option \<Rightarrow> (int \<times> int) option \<Rightarrow> int" where
  "sceKernelSettimeofday env tv tz =
     (let ret = posix_settimeofday tv tz in if ret < 0 then errno_error env else ret)"

text \<open>
  \<open>sceKernelConvertLocaltimeToUtc\<close> with a time zone and no \<open>dst_seconds\<close>, as the library calls
  it: the zone of the kernel and the shifted seconds.
\<close>

definition sceKernelConvertLocaltimeToUtc :: "kernel_env \<Rightarrow> int \<Rightarrow> (int \<times> int \<times> int \<times> int) option" where
  "sceKernelConvertLocaltimeToUtc env param_1 = do {
     zone \<leftarrow> s32_of (tz_minuteswest env + tz_dsttime env);
     zone \<leftarrow> s32_of (zone * 60);
     seconds \<leftarrow> s64_of (param_1 - zone);
     Some (0, seconds, tz_minuteswest env, tz_dsttime env)
   }"

section \<open>Adding spans to a tick\<close>

text \<open>
  The first argument is the tick that is written, the second the tick that is read; the result is
  the error code and the content of the first.
\<close>

definition tick_add :: "int \<Rightarrow> u64 option \<Rightarrow> u64 option \<Rightarrow> int \<Rightarrow> (int \<times> u64 option) option" where
  "tick_add unit pTick1 pTick2 lAdd = (case (pTick1, pTick2) of
     (Some _, Some tick2) \<Rightarrow> do {
       span \<leftarrow> s64_of (lAdd * unit);
       Some (0, Some (add64 (to_u64 span) tick2))
     }
   | _ \<Rightarrow> Some (ORBIS_RTC_ERROR_INVALID_POINTER, pTick1))"

definition sceRtcTickAddTicks :: "u64 option \<Rightarrow> u64 option \<Rightarrow> int \<Rightarrow> (int \<times> u64 option) option" where
  "sceRtcTickAddTicks = tick_add 1"
definition sceRtcTickAddMicroseconds :: "u64 option \<Rightarrow> u64 option \<Rightarrow> int \<Rightarrow> (int \<times> u64 option) option" where
  "sceRtcTickAddMicroseconds = tick_add 1"
definition sceRtcTickAddSeconds :: "u64 option \<Rightarrow> u64 option \<Rightarrow> int \<Rightarrow> (int \<times> u64 option) option" where
  "sceRtcTickAddSeconds = tick_add 1000000"
definition sceRtcTickAddMinutes :: "u64 option \<Rightarrow> u64 option \<Rightarrow> int \<Rightarrow> (int \<times> u64 option) option" where
  "sceRtcTickAddMinutes = tick_add 60000000"
definition sceRtcTickAddHours :: "u64 option \<Rightarrow> u64 option \<Rightarrow> int \<Rightarrow> (int \<times> u64 option) option" where
  "sceRtcTickAddHours = tick_add 3600000000"
definition sceRtcTickAddDays :: "u64 option \<Rightarrow> u64 option \<Rightarrow> int \<Rightarrow> (int \<times> u64 option) option" where
  "sceRtcTickAddDays = tick_add 86400000000"
definition sceRtcTickAddWeeks :: "u64 option \<Rightarrow> u64 option \<Rightarrow> int \<Rightarrow> (int \<times> u64 option) option" where
  "sceRtcTickAddWeeks = tick_add 604800000000"

text \<open>
  Months and years go through the date.  Both read the tick they are about to overwrite.  The
  signed division and remainder of the months truncate toward zero.
\<close>

definition tdiv :: "int \<Rightarrow> int \<Rightarrow> int" where
  "tdiv a b = (if (a < 0) = (b < 0) then \<bar>a\<bar> div \<bar>b\<bar> else - (\<bar>a\<bar> div \<bar>b\<bar>))"

definition tmod :: "int \<Rightarrow> int \<Rightarrow> int" where
  "tmod a b = a - tdiv a b * b"

definition store_date_tick ::
  "OrbisRtcDateTime \<Rightarrow> u64 option \<Rightarrow> (int \<times> u64 option) option" where
  "store_date_tick t pTick1 =
     (if sceRtcCheckValid (Some t) = 0 then do {
        (r, t', tick) \<leftarrow> sceRtcGetTick (Some t) pTick1;
        Some (0, tick)
      } else Some (sceRtcCheckValid (Some t), pTick1))"

definition sceRtcTickAddMonths ::
  "kernel_env \<Rightarrow> u64 option \<Rightarrow> u64 option \<Rightarrow> int \<Rightarrow> (int \<times> u64 option) option" where
  "sceRtcTickAddMonths env pTick1 pTick2 lAdd = (case (pTick1, pTick2) of
     (Some _, Some tick2) \<Rightarrow>
       if lAdd = 0 then Some (0, Some tick2)
       else (case sceRtcSetTick (Some (stack_time env)) pTick1 of
         (_, None) \<Rightarrow> None
       | (_, Some t) \<Rightarrow>
           let s = (if lAdd \<ge> 0 then 1 else - 1);
               y = to_u16 (int (year t) + tdiv lAdd 12);
               tempMonth = int (month t) + tmod lAdd 12 - 1;
               (tempMonth, y) = (if tempMonth > 11 \<or> tempMonth < 0
                 then (tempMonth - s * 12, to_u16 (int y + s)) else (tempMonth, y));
               m = to_u16 (tempMonth + 1);
               lastDay = chrono_last_day (int y) m;
               d = (if day t > lastDay then lastDay else day t)
           in store_date_tick (t\<lparr>year := y, month := m, day := d\<rparr>) pTick1)
   | _ \<Rightarrow> Some (ORBIS_RTC_ERROR_INVALID_POINTER, pTick1))"

definition sceRtcTickAddYears ::
  "kernel_env \<Rightarrow> u64 option \<Rightarrow> u64 option \<Rightarrow> int \<Rightarrow> (int \<times> u64 option) option" where
  "sceRtcTickAddYears env pTick1 pTick2 lAdd = (case (pTick1, pTick2) of
     (Some _, Some tick2) \<Rightarrow>
       if lAdd = 0 then Some (0, Some tick2)
       else (case sceRtcSetTick (Some (stack_time env)) pTick1 of
         (_, None) \<Rightarrow> None
       | (_, Some t) \<Rightarrow> do {
           y \<leftarrow> s32_of (int (year t) + lAdd);
           store_date_tick (t\<lparr>year := to_u16 y\<rparr>) pTick1
         })
   | _ \<Rightarrow> Some (ORBIS_RTC_ERROR_INVALID_POINTER, pTick1))"

definition sceRtcCompareTick :: "u64 option \<Rightarrow> u64 option \<Rightarrow> int" where
  "sceRtcCompareTick pTick1 pTick2 = (case (pTick1, pTick2) of
     (Some t1, Some t2) \<Rightarrow> (if t1 \<le> t2 then 1 else 0)
   | _ \<Rightarrow> ORBIS_RTC_ERROR_INVALID_POINTER)"

definition sceRtcGetTickResolution :: nat where
  "sceRtcGetTickResolution = 1000000"

section \<open>Reading and setting the clocks\<close>

text \<open>The tick of a clock reading: \<open>tv_nsec / 1000 + tv_sec * 1000000 + UNIX_EPOCH_TICKS\<close>, in \<open>s64\<close>.\<close>

definition clock_tick :: "kernel_env \<Rightarrow> u64 option" where
  "clock_tick env = do {
     us \<leftarrow> s64_of (clock_sec env * 1000000);
     us \<leftarrow> s64_of (tdiv (clock_nsec env) 1000 + us);
     us \<leftarrow> s64_of (us + int UNIX_EPOCH_TICKS);
     Some (to_u64 us)
   }"

definition current_network_tick :: "kernel_env \<Rightarrow> u64 option \<Rightarrow> (int \<times> u64 option) option" where
  "current_network_tick env pTick = (case pTick of
     None \<Rightarrow> Some (ORBIS_RTC_ERROR_INVALID_POINTER, None)
   | Some _ \<Rightarrow>
       if clock_ret env = 0 then do { t \<leftarrow> clock_tick env; Some (0, Some t) }
       else Some (ORBIS_RTC_ERROR_NOT_INITIALIZED, pTick))"

definition sceRtcGetCurrentAdNetworkTick :: "kernel_env \<Rightarrow> u64 option \<Rightarrow> (int \<times> u64 option) option" where
  "sceRtcGetCurrentAdNetworkTick = current_network_tick"
definition sceRtcGetCurrentDebugNetworkTick :: "kernel_env \<Rightarrow> u64 option \<Rightarrow> (int \<times> u64 option) option" where
  "sceRtcGetCurrentDebugNetworkTick = current_network_tick"
definition sceRtcGetCurrentNetworkTick :: "kernel_env \<Rightarrow> u64 option \<Rightarrow> (int \<times> u64 option) option" where
  "sceRtcGetCurrentNetworkTick = current_network_tick"
definition sceRtcGetCurrentRawNetworkTick :: "kernel_env \<Rightarrow> u64 option \<Rightarrow> (int \<times> u64 option) option" where
  "sceRtcGetCurrentRawNetworkTick = current_network_tick"

definition sceRtcGetCurrentTick :: "kernel_env \<Rightarrow> u64 option \<Rightarrow> (int \<times> u64 option) option" where
  "sceRtcGetCurrentTick env pTick = (case pTick of
     None \<Rightarrow> Some (ORBIS_RTC_ERROR_DATETIME_UNINITIALIZED, None)
   | Some _ \<Rightarrow>
       if clock_ret env \<ge> 0 then do { t \<leftarrow> clock_tick env; Some (0, Some t) }
       else Some (0, pTick))"

definition sceRtcGetCurrentClock ::
  "kernel_env \<Rightarrow> OrbisRtcDateTime option \<Rightarrow> int \<Rightarrow> (int \<times> OrbisRtcDateTime option) option" where
  "sceRtcGetCurrentClock env pTime timeZone = (case pTime of
     None \<Rightarrow> Some (ORBIS_RTC_ERROR_DATETIME_UNINITIALIZED, None)
   | Some _ \<Rightarrow>
       if clock_ret env = 0 then do {
         t \<leftarrow> clock_tick env;
         (_, clockTick) \<leftarrow> sceRtcTickAddMinutes (Some t) (Some t) timeZone;
         Some (0, snd (sceRtcSetTick pTime clockTick))
       } else Some (clock_ret env, pTime))"

text \<open>The offset of the local time zone in minutes, \<open>-(tz_minuteswest - tz_dsttime * 60)\<close>.\<close>

definition local_offset :: "kernel_env \<Rightarrow> int option" where
  "local_offset env = do {
     dst \<leftarrow> s32_of (tz_dsttime env * 60);
     off \<leftarrow> s32_of (tz_minuteswest env - dst);
     s32_of (- off)
   }"

definition sceRtcGetCurrentClockLocalTime ::
  "kernel_env \<Rightarrow> OrbisRtcDateTime option \<Rightarrow> (int \<times> OrbisRtcDateTime option) option" where
  "sceRtcGetCurrentClockLocalTime env pTime = (case pTime of
     None \<Rightarrow> Some (ORBIS_RTC_ERROR_DATETIME_UNINITIALIZED, None)
   | Some _ \<Rightarrow>
       if tz_ret env \<ge> 0 then do {
         off \<leftarrow> local_offset env;
         let tzOffset = to_u64 off;
         (_, newTick) \<leftarrow> sceRtcGetCurrentTick env (Some (stack_tick env));
         (_, newTick) \<leftarrow> sceRtcTickAddMinutes newTick newTick (to_s64 tzOffset);
         Some (tz_ret env, snd (sceRtcSetTick pTime newTick))
       } else Some (tz_ret env, pTime))"

definition sceRtcConvertLocalTimeToUtc ::
  "kernel_env \<Rightarrow> u64 option \<Rightarrow> u64 option \<Rightarrow> (int \<times> u64 option) option" where
  "sceRtcConvertLocalTimeToUtc env pTickLocal pTickUtc = (case pTickLocal of
     None \<Rightarrow> Some (ORBIS_RTC_ERROR_INVALID_POINTER, pTickUtc)
   | Some tick \<Rightarrow> do {
       (convertValue, seconds, minuteswest, dsttime) \<leftarrow>
         sceKernelConvertLocaltimeToUtc env (to_s64 (sub64 tick UNIX_EPOCH_TICKS div 1000000));
       if convertValue \<ge> 0 then do {
         dst \<leftarrow> s32_of (dsttime * 60);
         off \<leftarrow> s32_of (dst - minuteswest);
         off \<leftarrow> s32_of (- off);
         sceRtcTickAddMinutes pTickUtc pTickLocal off
       } else Some (convertValue, pTickUtc)
     })"

definition sceRtcConvertUtcToLocalTime ::
  "kernel_env \<Rightarrow> u64 option \<Rightarrow> u64 option \<Rightarrow> (int \<times> u64 option) option" where
  "sceRtcConvertUtcToLocalTime env pTickUtc pTickLocal = (case pTickUtc of
     None \<Rightarrow> Some (ORBIS_RTC_ERROR_INVALID_POINTER, pTickLocal)
   | Some tick \<Rightarrow> do {
       off \<leftarrow> local_offset env;
       (_, pTickLocal) \<leftarrow> sceRtcTickAddMinutes pTickLocal pTickUtc off;
       Some (0, pTickLocal)
     })"

text \<open>
  The network clocks are set through \<open>posix_clock_settime\<close>.  The tick is read before it is
  compared with \<open>nullptr\<close>.
\<close>

definition set_network_tick :: "int \<Rightarrow> kernel_env \<Rightarrow> u64 option \<Rightarrow> int option" where
  "set_network_tick clock_id env pTick = (case pTick of
     None \<Rightarrow> None
   | Some tick \<Rightarrow>
       if UNIX_EPOCH_TICKS \<ge> tick then Some ORBIS_RTC_ERROR_INVALID_VALUE
       else (let temp = sub64 tick UNIX_EPOCH_TICKS;
                 ret = posix_clock_settime clock_id
                   (Some (to_s64 (temp div 1000000), to_s64 (temp mod 1000000)))
             in Some (if ret < 0 then errno_error env else ret)))"

definition sceRtcSetCurrentAdNetworkTick :: "kernel_env \<Rightarrow> u64 option \<Rightarrow> int option" where
  "sceRtcSetCurrentAdNetworkTick = set_network_tick ORBIS_RTC_CLOCK_ID_AD_NETWORK"
definition sceRtcSetCurrentDebugNetworkTick :: "kernel_env \<Rightarrow> u64 option \<Rightarrow> int option" where
  "sceRtcSetCurrentDebugNetworkTick = set_network_tick ORBIS_RTC_CLOCK_ID_DEBUG_NETWORK"
definition sceRtcSetCurrentNetworkTick :: "kernel_env \<Rightarrow> u64 option \<Rightarrow> int option" where
  "sceRtcSetCurrentNetworkTick = set_network_tick ORBIS_RTC_CLOCK_ID_NETWORK"

definition sceRtcSetCurrentTick :: "kernel_env \<Rightarrow> u64 option \<Rightarrow> int" where
  "sceRtcSetCurrentTick env pTick = (case pTick of
     None \<Rightarrow> ORBIS_RTC_ERROR_INVALID_POINTER
   | Some tick \<Rightarrow>
       if UNIX_EPOCH_TICKS \<ge> tick then ORBIS_RTC_ERROR_INVALID_VALUE
       else (let temp = to_s64 (sub64 tick UNIX_EPOCH_TICKS)
             in sceKernelSettimeofday env (Some (tdiv temp 1000000, tmod temp 1000000)) None))"

definition sceRtcSetConf :: "kernel_env \<Rightarrow> int \<Rightarrow> int \<Rightarrow> int" where
  "sceRtcSetConf env minuteswest dsttime =
     sceKernelSettimeofday env None (Some (minuteswest, dsttime))"

section \<open>Calendar queries\<close>

definition sceRtcGetDaysInMonth :: "int \<Rightarrow> int \<Rightarrow> int" where
  "sceRtcGetDaysInMonth y m =
     (if y \<le> 0 then ORBIS_RTC_ERROR_INVALID_YEAR
      else if m \<le> 0 \<or> m > 12 then ORBIS_RTC_ERROR_INVALID_MONTH
      else int (chrono_last_day y (nat m)))"

definition sceRtcGetDayOfWeek :: "kernel_env \<Rightarrow> int \<Rightarrow> int \<Rightarrow> int \<Rightarrow> int" where
  "sceRtcGetDayOfWeek env y m d =
     (let (sdkResult, ver) = sceKernelGetCompiledSdkVersion env (Some 0);
          sdk_version = (if sdkResult \<noteq> 0 then 0 else the ver);
          daysInMonth = sceRtcGetDaysInMonth y m
      in if (if sdk_version < 0x3000000 then y < 1 else y > 9999 \<or> y < 1)
         then ORBIS_RTC_ERROR_INVALID_YEAR
         else if m > 12 \<or> m \<le> 0 then ORBIS_RTC_ERROR_INVALID_MONTH
         else if d \<le> 0 \<or> d > daysInMonth then ORBIS_RTC_ERROR_INVALID_DAY
         else chrono_weekday (chrono_sys_days y m d))"

definition sceRtcIsLeapYear :: "int \<Rightarrow> int" where
  "sceRtcIsLeapYear yearInt =
     (if yearInt < 1 then ORBIS_RTC_ERROR_INVALID_YEAR
      else if chrono_last_day yearInt 2 = 29 then 1 else 0)"

section \<open>DOS, time_t and Win32 conversions\<close>

definition sceRtcGetDosTime ::
  "OrbisRtcDateTime option \<Rightarrow> nat option \<Rightarrow> int \<times> nat option" where
  "sceRtcGetDosTime pTime dosTime = (case (pTime, dosTime) of
     (Some t, Some dos) \<Rightarrow>
       if sceRtcCheckValid pTime \<noteq> 0 then (sceRtcCheckValid pTime, dosTime)
       else (let dos = dos OR (second t div 2 AND 0x1F);
                 dos = dos OR push_bit 5 (minute t AND 0x3F);
                 dos = dos OR push_bit 11 (hour t AND 0x1F);
                 dos = dos OR push_bit 16 (day t AND 0x1F);
                 dos = dos OR push_bit 21 (month t AND 0x0F);
                 dos = dos OR push_bit 25 (nat ((int (year t) - 1980) AND 0x7F))
             in (0, Some dos))
   | _ \<Rightarrow> (ORBIS_RTC_ERROR_INVALID_POINTER, dosTime))"

definition sceRtcSetDosTime :: "OrbisRtcDateTime option \<Rightarrow> nat \<Rightarrow> int \<times> OrbisRtcDateTime option" where
  "sceRtcSetDosTime pTime dosTime = (case pTime of
     None \<Rightarrow> (ORBIS_RTC_ERROR_INVALID_POINTER, None)
   | Some t \<Rightarrow>
       (let days = to_s16 (int (drop_bit 16 dosTime))
        in (0, Some (t\<lparr>microsecond := 0, second := push_bit 1 dosTime AND 0x3E,
              minute := drop_bit 5 dosTime AND 0x3F, hour := drop_bit 11 (dosTime AND 0xF800),
              day := nat (days AND 0x1F), month := nat (drop_bit 5 days AND 0x0F),
              year := to_u16 (drop_bit 9 days + 1980)\<rparr>))))"

definition sceRtcGetTime_t ::
  "OrbisRtcDateTime option \<Rightarrow> u64 \<Rightarrow> int option \<Rightarrow> (int \<times> OrbisRtcDateTime option \<times> int option) option"
where
  "sceRtcGetTime_t pTime stack llTime = (case (pTime, llTime) of
     (Some t, Some _) \<Rightarrow>
       if sceRtcCheckValid pTime \<noteq> 0 then Some (sceRtcCheckValid pTime, pTime, llTime)
       else do {
         (_, pTime, timeTick) \<leftarrow> sceRtcGetTick pTime (Some stack);
         tick \<leftarrow> timeTick;
         Some (0, pTime, Some (if tick < UNIX_EPOCH_TICKS then 0
           else to_s64 (sub64 tick UNIX_EPOCH_TICKS div 1000000)))
       }
   | _ \<Rightarrow> Some (ORBIS_RTC_ERROR_INVALID_POINTER, pTime, llTime))"

definition sceRtcGetWin32FileTime ::
  "OrbisRtcDateTime option \<Rightarrow> u64 \<Rightarrow> u64 option \<Rightarrow> (int \<times> OrbisRtcDateTime option \<times> u64 option) option"
where
  "sceRtcGetWin32FileTime pTime stack ulWin32Time = (case (pTime, ulWin32Time) of
     (Some t, Some _) \<Rightarrow>
       if sceRtcCheckValid pTime \<noteq> 0 then Some (sceRtcCheckValid pTime, pTime, ulWin32Time)
       else do {
         (_, pTime, timeTick) \<leftarrow> sceRtcGetTick pTime (Some stack);
         tick \<leftarrow> timeTick;
         Some (0, pTime, Some (if tick < WIN32_FILETIME_EPOCH_TICKS then 0
           else (sub64 tick WIN32_FILETIME_EPOCH_TICKS * 10) mod two64))
       }
   | _ \<Rightarrow> Some (ORBIS_RTC_ERROR_INVALID_POINTER, pTime, ulWin32Time))"

definition sceRtcSetTime_t ::
  "kernel_env \<Rightarrow> OrbisRtcDateTime option \<Rightarrow> int \<Rightarrow> (int \<times> OrbisRtcDateTime option) option" where
  "sceRtcSetTime_t env pTime llTime = (case pTime of
     None \<Rightarrow> Some (ORBIS_RTC_ERROR_INVALID_POINTER, None)
   | Some _ \<Rightarrow>
       (let (sdkResult, ver) = sceKernelGetCompiledSdkVersion env (Some 0);
            sdk_version = (if sdkResult \<noteq> 0 then 0 else the ver)
        in if sdk_version < 0x3000000
           then Some (0, snd (sceRtcSetTick pTime (Some (add64 (to_u64 ((llTime AND 0xffffffff) * 1000000))
             UNIX_EPOCH_TICKS))))
           else if llTime < 0 then Some (ORBIS_RTC_ERROR_INVALID_VALUE, pTime)
           else do {
             us \<leftarrow> s64_of (llTime * 1000000);
             Some (0, snd (sceRtcSetTick pTime (Some (add64 (to_u64 us) UNIX_EPOCH_TICKS))))
           }))"

definition sceRtcSetWin32FileTime ::
  "OrbisRtcDateTime option \<Rightarrow> int \<Rightarrow> (int \<times> OrbisRtcDateTime option) option" where
  "sceRtcSetWin32FileTime pTime ulWin32Time = (case pTime of
     None \<Rightarrow> Some (ORBIS_RTC_ERROR_INVALID_POINTER, None)
   | Some _ \<Rightarrow> do {
       convertedTime \<leftarrow> s64_of (tdiv ulWin32Time 10 + int WIN32_FILETIME_EPOCH_TICKS);
       Some (0, snd (sceRtcSetTick pTime (Some (to_u64 convertedTime))))
     })"

definition sceRtcInit :: int where "sceRtcInit = 0"
definition sceRtcEnd :: int where "sceRtcEnd = 0"

section \<open>Facts shared by the properties\<close>

lemma to_u64_less: "to_u64 x < two64"
  by (simp add: to_u64_def nat_less_iff)

lemma to_u16_id: "0 \<le> x \<Longrightarrow> x < 65536 \<Longrightarrow> to_u16 x = nat x"
  by (simp add: to_u16_def)

lemma SetTick_date_tick:
  assumes "valid_time t"
  shows "sceRtcSetTick (Some t0) (Some (date_tick t)) = (0, Some t)"
proof -
  have "date_tick t < two64" using date_tick_less [OF assms] by (simp add: tick_limit_def)
  then show ?thesis using sceRtcSetTick_date date_of_date_tick [OF assms] by simp
qed

lemma tdiv_tmod:
  assumes "0 < b"
  shows "tdiv a b * b + tmod a b = a" "\<bar>tmod a b\<bar> < b" "0 \<le> a \<Longrightarrow> 0 \<le> tmod a b" "a \<le> 0 \<Longrightarrow> tmod a b \<le> 0"
proof -
  show "tdiv a b * b + tmod a b = a" by (simp add: tmod_def)
  have "tmod a b = (if a < 0 then - (\<bar>a\<bar> mod b) else \<bar>a\<bar> mod b)"
  proof (cases "a < 0")
    case True
    then have "tmod a b = a + b * (- a div b)" using assms by (simp add: tmod_def tdiv_def)
    also have "\<dots> = - (- a mod b)" using mult_div_mod_eq [of b "- a"] by linarith
    finally show ?thesis using True by simp
  next
    case False
    then have "tmod a b = a - b * (a div b)" using assms by (simp add: tmod_def tdiv_def)
    also have "\<dots> = a mod b" by (rule minus_mult_div_eq_mod)
    finally show ?thesis using False by simp
  qed
  moreover have "0 \<le> \<bar>a\<bar> mod b" "\<bar>a\<bar> mod b < b" using assms by simp_all
  ultimately show "\<bar>tmod a b\<bar> < b" "0 \<le> a \<Longrightarrow> 0 \<le> tmod a b" "a \<le> 0 \<Longrightarrow> tmod a b \<le> 0"
    by (auto split: if_splits)
qed

lemma store_date_tick_valid:
  assumes "valid_time t" "minute t \<le> 35"
  shows "store_date_tick t (Some k) = Some (0, Some (date_tick t))"
  using assms by (simp add: store_date_tick_def CheckValid_cases GetTick_value)

lemma store_date_tick_invalid:
  "\<not> valid_time t \<Longrightarrow> store_date_tick t p = Some (sceRtcCheckValid (Some t), p)"
  by (simp add: store_date_tick_def CheckValid_cases)

text \<open>The shift of year and month that \<open>sceRtcTickAddMonths\<close> computes is division by 12.\<close>

lemma month_shift:
  fixes n y m :: int
  assumes "1 \<le> m" "m \<le> 12" "12 \<le> 12 * y + m - 1 + n" "12 * y + m - 1 + n < 120000" "0 \<le> y"
  defines "k \<equiv> 12 * y + m - 1 + n" and "tm \<equiv> m + tmod n 12 - 1"
    and "s \<equiv> if n \<ge> 0 then 1 else - 1" and "y' \<equiv> to_u16 (y + tdiv n 12)"
  shows "(if tm > 11 \<or> tm < 0 then (tm - s * 12, to_u16 (int y' + s)) else (tm, y'))
    = (k mod 12, nat (k div 12))"
proof -
  note dm = tdiv_tmod [of 12 n]
  have r: "- 11 \<le> tmod n 12" "tmod n 12 \<le> 11" using dm(2) by simp_all
  have k: "k = 12 * (y + tdiv n 12) + tm" using dm(1) by (simp add: k_def tm_def)
  consider "tm > 11" "n \<ge> 0" | "tm < 0" "n < 0" | "0 \<le> tm" "tm \<le> 11"
    using dm(3,4) assms(1,2) unfolding tm_def by linarith
  then show ?thesis
  proof cases
    case 1
    have "k = 12 * (y + tdiv n 12 + 1) + (tm - 12)" "0 \<le> tm - 12" "tm - 12 < 12"
      using 1 r assms(2) by (simp add: k algebra_simps, simp_all add: tm_def)
    then have d: "k mod 12 = tm - 12" "k div 12 = y + tdiv n 12 + 1"
      by (rule int_mod_pos_eq, rule int_div_pos_eq)
    have "0 \<le> y + tdiv n 12" "y + tdiv n 12 + 1 < 65536" using d(2) assms(3,4) unfolding k_def by linarith+
    then show ?thesis using 1 d by (simp add: y'_def s_def to_u16_id)
  next
    case 2
    have "k = 12 * (y + tdiv n 12 - 1) + (tm + 12)" "0 \<le> tm + 12" "tm + 12 < 12"
      using 2 r assms(1) by (simp add: k algebra_simps, simp_all add: tm_def)
    then have d: "k mod 12 = tm + 12" "k div 12 = y + tdiv n 12 - 1"
      by (rule int_mod_pos_eq, rule int_div_pos_eq)
    have "1 \<le> y + tdiv n 12" "y + tdiv n 12 < 65536" using d(2) assms(3,4) unfolding k_def by linarith+
    then show ?thesis using 2 d by (simp add: y'_def s_def to_u16_id)
  next
    case 3
    then have "tm < 12" by simp
    then have d: "k mod 12 = tm" "k div 12 = y + tdiv n 12"
      using int_mod_pos_eq [OF k 3(1)] int_div_pos_eq [OF k 3(1)] by simp_all
    have "0 \<le> y + tdiv n 12" "y + tdiv n 12 < 65536" using d(2) assms(3,4) unfolding k_def by linarith+
    then show ?thesis using 3 d by (simp add: y'_def to_u16_id)
  qed
qed

text \<open>Day counts of \<open>std::chrono\<close> and of the reference calendar.\<close>

lemma sys_days_arith:
  fixes A B P :: nat
  assumes "A + B + P + d = N + 307" "A + B + 4 * e + r100 = 365 * Y + 100 * e + r4 + e" "Y = 400 * e + r"
  shows "int e * 146097 + (int r * 365 + int r4 - int r100 + (int P + int d - 1)) - 719468
    = int N - 719162"
  using assms by linarith

lemma chrono_sys_days_number:
  assumes "valid_date y m d" "y \<le> 9999"
  shows "chrono_sys_days (int y) (int m) (int d) = int (day_number y m d) - 719162"
proof -
  have b: "1 \<le> y" "1 \<le> m" "m \<le> 12" "1 \<le> d" using assms(1) by (auto simp: valid_date_def)
  define Y M where "Y = (if m > 2 then y else y - 1)" and "M = (if m > 2 then m - 3 else m + 9)"
  have days: "march_days Y M d = day_number y m d + 307"
    using march_days_day_number [OF assms(1)] by (simp add: Y_def M_def)
  define e r where "e = Y div 400" and "r = Y mod 400"
  have Y: "Y = 400 * e + r" by (simp add: e_def r_def)
  have q: "Y div 4 = 100 * e + r div 4" "Y div 100 = 4 * e + r div 100"
  proof -
    have "Y = r + 4 * (100 * e)" "Y = r + 100 * (4 * e)" by (simp_all add: Y)
    then show "Y div 4 = 100 * e + r div 4" "Y div 100 = 4 * e + r div 100"
      by (metis div_mult_self2 zero_neq_numeral)+
  qed
  have years: "146097 * (Y div 100) div 4 + 1461 * (Y mod 100) div 4 + 4 * e + r div 100
      = 365 * Y + 100 * e + r div 4 + e"
    using march_years [of Y] q by (simp add: e_def)
  have days': "146097 * (Y div 100) div 4 + 1461 * (Y mod 100) div 4 + (153 * M + 2) div 5 + d
      = day_number y m d + 307" using days unfolding march_days_def .
  have "int Y - int e * 400 = int r" by (simp add: Y)
  moreover have "int Y div 400 = int e" by (simp only: e_def zdiv_int of_nat_numeral)
  moreover have "int r div 4 = int (r div 4)" "int r div 100 = int (r div 100)"
    "(153 * int M + 2) div 5 = int ((153 * M + 2) div 5)"
    by (simp_all only: zdiv_int of_nat_numeral of_nat_add of_nat_mult)
  ultimately have ints: "int Y div 400 = int e" "int Y - int e * 400 = int r"
    "int r div 4 = int (r div 4)" "int r div 100 = int (r div 100)"
    "(153 * int M + 2) div 5 = int ((153 * M + 2) div 5)" by blast+
  have sh: "(if int m \<le> 2 then to_s16 (int y) - 1 else to_s16 (int y)) = int Y"
    "(if int m > 2 then int m - 3 else int m + 9) = int M"
    using b assms(2) by (simp_all add: Y_def M_def to_s16_id of_nat_diff)
  show ?thesis
    unfolding chrono_sys_days_def sh Let_def ints by (rule sys_days_arith [OF days' years Y])
qed

section \<open>Properties\<close>

lemma GetDayOfWeek_monday:
  assumes "valid_date y m d" "y \<le> 9999"
  shows "sceRtcGetDayOfWeek env (int y) (int m) (int d) = int ((day_number y m d + 1) mod 7)"
proof -
  have b: "1 \<le> y" "1 \<le> m" "m \<le> 12" "1 \<le> d" "d \<le> month_length y m"
    using assms(1) by (auto simp: valid_date_def)
  have dim: "sceRtcGetDaysInMonth (int y) (int m) = int (month_length y m)"
    using b assms(2) by (simp add: sceRtcGetDaysInMonth_def chrono_last_day_nat)
  have "chrono_weekday (chrono_sys_days (int y) (int m) (int d))
      = (int (day_number y m d) + 1 + 7 * - 102737) mod 7"
    by (simp add: chrono_weekday_def chrono_sys_days_number [OF assms])
  also have "\<dots> = int ((day_number y m d + 1) mod 7)"
    by (simp only: mod_mult_self2 zmod_int of_nat_add of_nat_1 of_nat_numeral)
  finally show ?thesis
    using b assms(2)
    by (simp add: sceRtcGetDayOfWeek_def sceKernelGetCompiledSdkVersion_def dim)
qed

text \<open>
  The day of the week of every date up to the year 9999: the library answers the number of days
  since 0001-01-01, which was a Monday, modulo 7, with Sunday as 0.
\<close>

theorem sceRtcGetDayOfWeek_monday:
  assumes "valid_date y m d" "y \<le> 9999"
  shows "sceRtcGetDayOfWeek env (int y) (int m) (int d) = int ((day_number y m d + 1) mod 7)"
  by (rule GetDayOfWeek_monday [OF assms])

theorem sceRtcGetDayOfWeek_monday_witness:
  "\<exists>env. sceRtcGetDayOfWeek env 2000 1 1 = 6"
proof -
  have "valid_date 2000 1 1" by (simp add: valid_date_def month_length_def)
  moreover have "days_before_year 2000 = 730119" using days_before_year_closed [of 1999] by simp
  ultimately have "sceRtcGetDayOfWeek env 2000 1 1 = 6" for env
    using sceRtcGetDayOfWeek_monday [of 2000 1 1 env]
    by (simp add: day_number_def)
  then show ?thesis by blast
qed

text \<open>
  Adding months in place: the month counted from year 0 moves by the signed number of months,
  the day is cut to the length of the new month, and the time of day stays.
\<close>

theorem sceRtcTickAddMonths_clamps:
  fixes t :: OrbisRtcDateTime and n :: int
  assumes "valid_time t" "minute t \<le> 35" "n \<noteq> 0"
  defines "k \<equiv> 12 * int (year t) + int (month t) - 1 + n"
  assumes "12 \<le> k" "k < 120000"
  shows "sceRtcTickAddMonths env (Some (date_tick t)) (Some (date_tick t)) n =
    Some (0, Some (date_tick (t\<lparr>year := nat (k div 12), month := nat (k mod 12) + 1,
      day := min (day t) (month_length (nat (k div 12)) (nat (k mod 12) + 1))\<rparr>)))"
proof -
  have vd: "1 \<le> month t" "month t \<le> 12" "1 \<le> day t" "day t \<le> month_length (year t) (month t)"
    using assms(1) by (auto simp: valid_time_def valid_date_def)
  define y m where "y = nat (k div 12)" and "m = nat (k mod 12) + 1"
  have y: "1 \<le> y" "y \<le> 9999" using assms(5,6) unfolding y_def by simp_all
  have m: "1 \<le> m" "m \<le> 12" unfolding m_def by simp_all
  have last: "chrono_last_day (int y) m = month_length y m"
    using y by (simp add: chrono_last_day_nat)
  have "1 \<le> month_length y m" by (simp add: month_length_def)
  then have valid: "valid_time (t\<lparr>year := y, month := m, day := min (day t) (month_length y m)\<rparr>)"
    using assms(1) y m vd(3) by (simp add: valid_time_def valid_date_def)
  have m16: "to_u16 (k mod 12 + 1) = m" by (simp add: m_def to_u16_id nat_add_distrib)
  have d: "(if month_length y m < day t then month_length y m else day t) = min (day t) (month_length y m)"
    by simp
  have mt: "1 \<le> int (month t)" "int (month t) \<le> 12" using vd by simp_all
  note shift = month_shift [OF mt assms(5,6) [unfolded k_def] of_nat_0_le_iff, folded k_def y_def]
  show ?thesis
    unfolding sceRtcTickAddMonths_def prod.case option.case SetTick_date_tick [OF assms(1)] Let_def
      if_not_P [OF assms(3)] shift m16 last d y_def [symmetric] m_def [symmetric]
    by (rule store_date_tick_valid [OF valid]) (simp add: assms(2))
qed

theorem sceRtcTickAddMonths_clamps_witness:
  "\<exists>env t. valid_time t \<and> (year t, month t, day t) = (2024, 1, 31) \<and>
    sceRtcTickAddMonths env (Some (date_tick t)) (Some (date_tick t)) 13 =
      Some (0, Some (date_tick (t\<lparr>year := 2025, month := 2, day := 28\<rparr>)))"
proof -
  let ?t = "\<lparr>year = 2024, month = 1, day = 31, hour = 0, minute = 0, second = 0, microsecond = 0\<rparr>"
  have "valid_time ?t" by (simp add: valid_time_def valid_date_def month_length_def)
  moreover from this have "sceRtcTickAddMonths env (Some (date_tick ?t)) (Some (date_tick ?t)) 13 =
      Some (0, Some (date_tick (?t\<lparr>year := 2025, month := 2, day := 28\<rparr>)))" for env
    using sceRtcTickAddMonths_clamps [of ?t 13 env]
    by (simp add: month_length_def is_leap_def numeral_2_eq_2)
  ultimately show ?thesis by fastforce
qed

text \<open>
  Adding years in place keeps month, day and time of day and leaves the day as it is: when the
  resulting date does not exist the tick is unchanged and the validity error comes back.  The year
  is kept modulo 65536, so a span of 65536 years is accepted and changes nothing.
\<close>

theorem sceRtcTickAddYears_spec:
  fixes t :: OrbisRtcDateTime
  assumes "valid_time t" "minute t \<le> 35" "n \<noteq> 0" "- 2147483648 \<le> n" "n \<le> 2147473648"
  defines "t' \<equiv> t\<lparr>year := nat ((int (year t) + n) mod 65536)\<rparr>"
  shows "sceRtcTickAddYears env (Some (date_tick t)) (Some (date_tick t)) n =
    (if valid_time t' then Some (0, Some (date_tick t'))
     else Some (sceRtcCheckValid (Some t'), Some (date_tick t)))"
proof -
  have "year t \<le> 9999" using assms(1) by (simp add: valid_time_def)
  then have "s32_of (int (year t) + n) = Some (int (year t) + n)"
    using assms(4,5) by (simp add: s32_of_def)
  then have "sceRtcTickAddYears env (Some (date_tick t)) (Some (date_tick t)) n
      = store_date_tick t' (Some (date_tick t))"
    using assms(3) by (simp add: sceRtcTickAddYears_def SetTick_date_tick [OF assms(1)] t'_def to_u16_def)
  moreover have "minute t' \<le> 35" using assms(2) by (simp add: t'_def)
  ultimately show ?thesis by (simp add: store_date_tick_valid store_date_tick_invalid)
qed

theorem sceRtcTickAddYears_spec_witness:
  "\<exists>env t. valid_time t \<and>
    sceRtcTickAddYears env (Some (date_tick t)) (Some (date_tick t)) 65536 = Some (0, Some (date_tick t))"
proof -
  let ?t = "\<lparr>year = 2024, month = 2, day = 29, hour = 0, minute = 0, second = 0, microsecond = 0\<rparr>"
  have v: "valid_time ?t" by (simp add: valid_time_def valid_date_def month_length_def is_leap_def)
  have "sceRtcTickAddYears env (Some (date_tick ?t)) (Some (date_tick ?t)) 65536
      = Some (0, Some (date_tick ?t))" for env
    using sceRtcTickAddYears_spec [OF v, of 65536 env] v by simp
  then show ?thesis using v by blast
qed

lemma or_shift_add: "x < 2 ^ n \<Longrightarrow> x OR push_bit n y = x + 2 ^ n * y" for x y :: nat
proof -
  assume "x < 2 ^ n"
  then have "take_bit n x = x" by (simp add: take_bit_nat_eq_self_iff)
  then have "\<not> bit x k" if "n \<le> k" for k
    using that by (metis bit_take_bit_iff not_less)
  then have "x AND push_bit n y = 0" by (intro bit_eqI) (auto simp: bit_simps)
  then show ?thesis by (simp add: disjunctive_add_eq_or [symmetric] push_bit_eq_mult mult.commute)
qed

text \<open>The fields of a packed DOS time, and their packing without the bit operations.\<close>

definition dos_pack :: "nat \<Rightarrow> nat \<Rightarrow> nat \<Rightarrow> nat \<Rightarrow> nat \<Rightarrow> nat \<Rightarrow> nat" where
  "dos_pack y mo d h mi s2 = s2 + 32 * mi + 2048 * h + 65536 * d + 2097152 * mo + 33554432 * y"

lemma and_low: "(n::nat) AND 1 = n mod 2" "n AND 0x0F = n mod 16" "n AND 0x1F = n mod 32"
    "n AND 0x3F = n mod 64" "(n::nat) AND 0x7F = n mod 128"
  using and_low_bits_nat [of n 1] and_low_bits_nat [of n 4] and_low_bits_nat [of n 5]
    and_low_bits_nat [of n 6] and_low_bits_nat [of n 7] by simp_all

lemma and_low_int: "(i::int) AND 0x0F = i mod 16" "i AND 0x1F = i mod 32" "i AND 0x7F = i mod 128"
  using take_bit_eq_mask [of 4 i] take_bit_eq_mask [of 5 i] take_bit_eq_mask [of 7 i]
  by (simp_all add: take_bit_eq_mod mask_numeral)

lemma or_shift_add': "x < k \<Longrightarrow> 2 ^ n = k \<Longrightarrow> x OR push_bit n y = x + k * y" for x y k :: nat
  using or_shift_add by blast

lemma to_s16_wrap: "32768 \<le> x \<Longrightarrow> x < 65536 \<Longrightarrow> to_s16 x = x - 65536"
  using int_mod_pos_eq [of "x + 32768" 65536 1 "x - 32768"] by (simp add: to_s16_def)

lemma GetDosTime_pack:
  assumes "valid_time t" "1980 \<le> year t" "year t \<le> 2107"
  shows "sceRtcGetDosTime (Some t) (Some 0) = (0, Some (dos_pack (year t - 1980) (month t) (day t)
    (hour t) (minute t) (second t div 2)))"
proof -
  have b: "month t \<le> 12" "hour t \<le> 23" "minute t \<le> 59" "second t \<le> 59"
    using assms(1) by (auto simp: valid_time_def valid_date_def)
  have d: "day t \<le> 31"
    using assms(1) by (auto simp: valid_time_def valid_date_def month_length_def split: if_splits)
  have "(int (year t) - 1980) AND 0x7F = int (year t) - 1980"
    unfolding and_low_int by (rule mod_pos_pos_trivial) (use assms(2,3) in linarith)+
  then have y: "nat ((int (year t) - 1980) AND 0x7F) = year t - 1980"
    using assms(2) by simp
  define a0 where "a0 = second t div 2"
  have m: "a0 AND 0x1F = a0" "minute t AND 0x3F = minute t"
    "hour t AND 0x1F = hour t" "day t AND 0x1F = day t" "month t AND 0x0F = month t"
    unfolding and_low a0_def using b d by simp_all
  define a1 where "a1 = a0 + 32 * minute t"
  define a2 where "a2 = a1 + 2048 * hour t"
  define a3 where "a3 = a2 + 65536 * day t"
  define a4 where "a4 = a3 + 2097152 * month t"
  have o: "0 OR a0 = a0" "a0 OR push_bit 5 (minute t) = a1" "a1 OR push_bit 11 (hour t) = a2"
    "a2 OR push_bit 16 (day t) = a3" "a3 OR push_bit 21 (month t) = a4"
    "a4 OR push_bit 25 (year t - 1980) = a4 + 33554432 * (year t - 1980)"
    unfolding a1_def a2_def a3_def a4_def
    using b d by (simp_all add: or_shift_add' a0_def)
  show ?thesis
    unfolding sceRtcGetDosTime_def prod.case option.case Let_def m y a0_def [symmetric] o
    using assms(1) by (simp add: CheckValid_cases dos_pack_def a4_def a3_def a2_def a1_def)
qed

text \<open>
  DOS round trip: packing a date of the years 1980 to 2107 into a cleared word and unpacking it
  gives the date with even seconds and no microseconds up to the year 2043.  From 2044 on the sign
  of the 16-bit date part moves the year back by 128.
\<close>

theorem rtc_dos_roundtrip:
  assumes "valid_time t" "1980 \<le> year t" "year t \<le> 2107"
  shows "\<exists>dos < 2 ^ 32. sceRtcGetDosTime (Some t) (Some 0) = (0, Some dos) \<and>
    sceRtcSetDosTime (Some t0) dos =
      (0, Some (t\<lparr>second := 2 * (second t div 2), microsecond := 0,
        year := (if year t \<le> 2043 then year t else year t - 128)\<rparr>))"
proof -
  have b: "month t \<le> 12" "hour t \<le> 23" "minute t \<le> 59" "second t div 2 \<le> 29"
    using assms(1) by (auto simp: valid_time_def valid_date_def)
  have d: "day t \<le> 31"
    using assms(1) by (auto simp: valid_time_def valid_date_def month_length_def split: if_splits)
  define y where "y = year t - 1980"
  have y: "y \<le> 127" "year t = y + 1980" using assms(2,3) by (simp_all add: y_def)
  define D where "D = day t + 32 * month t + 512 * y"
  define L where "L = second t div 2 + 32 * minute t + 2048 * hour t"
  define dos where "dos = dos_pack y (month t) (day t) (hour t) (minute t) (second t div 2)"
  have dos: "dos = L + 65536 * D" by (simp add: dos_def dos_pack_def L_def D_def)
  have L: "L < 65536" and D: "D < 65536" using b d y by (simp_all add: L_def D_def)
  have sec: "push_bit 1 dos AND 0x3E = 2 * (second t div 2)"
  proof -
    have "push_bit 1 dos AND 0x3E = push_bit 1 (dos AND 0x1F)" by (simp add: push_bit_and)
    moreover have "dos = second t div 2 + 32 * (minute t + 64 * (hour t + 32 * D))"
      by (simp add: dos L_def)
    then have "dos AND 0x1F = second t div 2"
      unfolding and_low by (rule div_mod_eqI(2)) (use b in simp)
    ultimately show ?thesis by simp
  qed
  have min: "drop_bit 5 dos AND 0x3F = minute t"
  proof -
    have "dos div 32 = minute t + 64 * (hour t + 32 * D)"
      using b by (intro div_mod_eqI(1) [of _ "second t div 2"]) (simp_all add: dos L_def)
    moreover have "(minute t + 64 * (hour t + 32 * D)) mod 64 = minute t"
      by (rule div_mod_eqI(2) [OF refl]) (use b in simp)
    ultimately show ?thesis unfolding and_low by (simp add: drop_bit_eq_div)
  qed
  have hr: "drop_bit 11 (dos AND 0xF800) = hour t"
  proof -
    have "drop_bit 11 (dos AND 0xF800) = drop_bit 11 dos AND 0x1F" by (simp add: drop_bit_and)
    moreover have "dos div 2048 = hour t + 32 * D"
      using b by (intro div_mod_eqI(1) [of _ "second t div 2 + 32 * minute t"]) (simp_all add: dos L_def)
    moreover have "(hour t + 32 * D) mod 32 = hour t"
      by (rule div_mod_eqI(2) [OF refl]) (use b in simp)
    ultimately show ?thesis unfolding and_low by (simp add: drop_bit_eq_div)
  qed
  define days where "days = to_s16 (int (drop_bit 16 dos))"
  have "drop_bit 16 dos = D" using L by (simp add: drop_bit_eq_div dos)
  then have days: "days = int D - (if y \<le> 63 then 0 else 65536)"
    using b d y by (cases "y \<le> 63") (simp_all add: days_def D_def to_s16_id to_s16_wrap)
  define Y where "Y = int y - (if y \<le> 63 then 0 else 128)"
  have days': "days = 32 * (int (month t) + 16 * Y) + int (day t)"
    by (simp add: days D_def Y_def)
  have dm: "days mod 32 = int (day t)" "days div 32 = int (month t) + 16 * Y"
    by (rule int_mod_pos_eq [OF days'], use d in simp, use d in simp)
      (rule int_div_pos_eq [OF days'], use d in simp, use d in simp)
  have m': "int (month t) + 16 * Y = 16 * Y + int (month t)" by simp
  have ym: "(int (month t) + 16 * Y) mod 16 = int (month t)" "(int (month t) + 16 * Y) div 16 = Y"
    by (rule int_mod_pos_eq [OF m'], use b in simp, use b in simp)
      (rule int_div_pos_eq [OF m'], use b in simp, use b in simp)
  have dy: "nat (days AND 0x1F) = day t" by (simp add: and_low_int dm)
  have q: "drop_bit 5 days = int (month t) + 16 * Y" by (simp add: drop_bit_eq_div dm)
  have mo: "nat (drop_bit 5 days AND 0x0F) = month t" by (simp only: q and_low_int ym nat_int)
  have "drop_bit 9 days = drop_bit 4 (drop_bit 5 days)" by simp
  also have "\<dots> = Y" unfolding q using ym(2) by (simp add: drop_bit_eq_div)
  finally have yr: "to_u16 (drop_bit 9 days + 1980) = (if year t \<le> 2043 then year t else year t - 128)"
    using y by (simp add: to_u16_id Y_def nat_add_distrib)
  have "sceRtcSetDosTime (Some t0) dos = (0, Some (t\<lparr>second := 2 * (second t div 2), microsecond := 0,
        year := (if year t \<le> 2043 then year t else year t - 128)\<rparr>))"
    unfolding sceRtcSetDosTime_def option.case Let_def days_def [symmetric] sec min hr dy mo yr by simp
  moreover have "dos < 2 ^ 32" using L D unfolding dos by simp
  ultimately show ?thesis
    using GetDosTime_pack [OF assms] unfolding dos_def y_def by blast
qed

theorem rtc_dos_roundtrip_witness:
  "\<exists>dos t0. sceRtcSetDosTime (Some t0) dos = (0, Some \<lparr>year = 1916, month = 1, day = 1, hour = 0,
     minute = 0, second = 0, microsecond = 0\<rparr>)"
proof -
  let ?t = "\<lparr>year = 2044, month = 1, day = 1, hour = 0, minute = 0, second = 0, microsecond = 0\<rparr>"
  have "valid_time ?t" by (simp add: valid_time_def valid_date_def month_length_def)
  then show ?thesis using rtc_dos_roundtrip [of ?t ?t] by auto
qed

lemma UNIX_EPOCH_date: "UNIX_EPOCH_TICKS = 719162 * 86400000000"
  by (simp add: UNIX_EPOCH_TICKS_def)

text \<open>
  \<open>time_t\<close> round trip, on an SDK of version 3.00 or later: a second count from 1970 up to the
  year 9999 becomes the valid date that many seconds after 1970-01-01, a negative one is refused,
  and reading the date back gives the same second count, unless the minute is past 35, where
  \<open>sceRtcGetTick\<close> has no defined result.
\<close>

theorem rtc_time_t_roundtrip:
  assumes "0x3000000 \<le> compiled_sdk env" "s < 253402300800"
  shows "if s < 0 then sceRtcSetTime_t env (Some t0) s = Some (ORBIS_RTC_ERROR_INVALID_VALUE, Some t0)
    else \<exists>t. sceRtcSetTime_t env (Some t0) s = Some (0, Some t) \<and> valid_time t \<and>
      date_tick t = nat s * 1000000 + 719162 * 86400000000 \<and>
      sceRtcGetTime_t (Some t) k (Some v) =
        (if minute t \<le> 35 then Some (0, Some (march_of t), Some s) else None)"
proof (cases "s < 0")
  case True
  then show ?thesis
    using assms(1) by (simp add: sceRtcSetTime_t_def sceKernelGetCompiledSdkVersion_def)
next
  case False
  define n where "n = nat s"
  have s: "s = int n" using False by (simp add: n_def)
  have n: "n < 253402300800" using assms(2) s by simp
  define tick where "tick = n * 1000000 + 719162 * 86400000000"
  have tick: "tick < tick_limit" using n by (simp add: tick_def tick_limit_def)
  have s64: "s64_of (s * 1000000) = Some (int (n * 1000000))" using n by (simp add: s s64_of_def)
  have add: "add64 (to_u64 (int (n * 1000000))) UNIX_EPOCH_TICKS = tick"
    unfolding to_u64_int UNIX_EPOCH_date tick_def using n by (simp add: add64_exact)
  define t where "t = date_of_tick tick"
  have t: "valid_time t" "date_tick t = tick"
    using date_of_tick_valid [OF tick] by (simp_all add: t_def)
  have set_eq: "sceRtcSetTime_t env (Some t0) s = Some (0, Some t)"
    using assms(1) False tick
    by (simp add: sceRtcSetTime_t_def sceKernelGetCompiledSdkVersion_def s64 add [simplified]
        sceRtcSetTick_date t_def tick_limit_def)
  have sub: "sub64 tick UNIX_EPOCH_TICKS div 1000000 = n"
    using n sub64_exact [of UNIX_EPOCH_TICKS tick] by (simp add: UNIX_EPOCH_date tick_def)
  have s64': "to_s64 n = s" using n by (simp add: to_s64_def s)
  have "sceRtcGetTime_t (Some t) k (Some v) =
      (if minute t \<le> 35 then Some (0, Some (march_of t), Some s) else None)"
    using t sub s64' by (simp add: sceRtcGetTime_t_def CheckValid_cases GetTick_value)
      (simp add: tick_def UNIX_EPOCH_date)
  then show ?thesis using False set_eq t by (auto simp: tick_def n_def)
qed

theorem rtc_time_t_roundtrip_witness:
  "\<exists>env t0 t. sceRtcSetTime_t env (Some t0) 0 = Some (0, Some t) \<and> date_tick t = 62135596800000000"
proof -
  obtain env :: kernel_env where "compiled_sdk env = 0x3000000"
    by (metis kernel_env.select_convs(7))
  then show ?thesis
    using rtc_time_t_roundtrip [of env 0] by fastforce
qed

lemma add64_to_u64: "int (add64 (to_u64 x) t) = (x + int t) mod 18446744073709551616"
proof -
  have "int (add64 (to_u64 x) t) = (int (to_u64 x) + int t) mod 18446744073709551616"
    by (simp add: add64_def zmod_int)
  also have "int (to_u64 x) = x mod 18446744073709551616" by (simp add: to_u64_def)
  finally show ?thesis by (simp add: mod_add_left_eq)
qed

lemma add64_inverse:
  assumes "t < two64"
  shows "add64 (to_u64 (- x)) (add64 (to_u64 x) t) = t"
proof -
  have "int (add64 (to_u64 (- x)) (add64 (to_u64 x) t))
      = (- x + (x + int t) mod 18446744073709551616) mod 18446744073709551616"
    by (simp only: add64_to_u64)
  also have "\<dots> = (- x + (x + int t)) mod 18446744073709551616" by (rule mod_add_right_eq)
  also have "\<dots> = int t" using assms by simp
  finally show ?thesis by (simp only: of_nat_eq_iff)
qed

lemma s32_of_abs: "\<bar>x\<bar> \<le> 2147483647 \<Longrightarrow> s32_of x = Some x"
  by (auto simp: s32_of_def)

lemma s64_of_abs: "\<bar>x\<bar> \<le> 9223372036854775807 \<Longrightarrow> s64_of x = Some x"
  by (auto simp: s64_of_def)

text \<open>
  Converting a UTC tick to local time and back gives the tick again, for every time zone within
  a million minutes of UTC: the offset the two conversions add is the same with opposite signs.
\<close>

theorem rtc_local_time_roundtrip:
  assumes "t < two64" "\<bar>tz_minuteswest env\<bar> \<le> 1000000" "\<bar>tz_dsttime env\<bar> \<le> 1000000"
  shows "\<exists>l. sceRtcConvertUtcToLocalTime env (Some t) (Some a) = Some (0, Some l) \<and>
    sceRtcConvertLocalTimeToUtc env (Some l) (Some b) = Some (0, Some t)"
proof -
  define off where "off = tz_dsttime env * 60 - tz_minuteswest env"
  define l where "l = add64 (to_u64 (off * 60000000)) t"
  have off: "\<bar>off\<bar> \<le> 61000000" using assms(2,3) unfolding off_def by linarith
  have zone: "s32_of (tz_dsttime env * 60) = Some (tz_dsttime env * 60)"
    "s32_of (tz_minuteswest env - tz_dsttime env * 60) = Some (- off)"
    "s32_of off = Some off" "s32_of (- off) = Some (- off)"
    "s32_of (tz_minuteswest env + tz_dsttime env) = Some (tz_minuteswest env + tz_dsttime env)"
    "s32_of ((tz_minuteswest env + tz_dsttime env) * 60)
      = Some ((tz_minuteswest env + tz_dsttime env) * 60)"
    "s64_of (off * 60000000) = Some (off * 60000000)" "s64_of (- off * 60000000) = Some (- off * 60000000)"
    using assms(2,3) off
    by (subst s32_of_abs s64_of_abs; simp add: off_def abs_if split: if_splits)+
  have lo: "local_offset env = Some off"
    by (simp add: local_offset_def zone)
  have "sceRtcConvertUtcToLocalTime env (Some t) (Some a) = Some (0, Some l)"
    by (simp add: sceRtcConvertUtcToLocalTime_def lo sceRtcTickAddMinutes_def tick_add_def zone l_def)
  moreover have "sceRtcConvertLocalTimeToUtc env (Some l) (Some b) = Some (0, Some t)"
  proof -
    define p where "p = to_s64 (sub64 l UNIX_EPOCH_TICKS div 1000000)"
    have sub: "sub64 l UNIX_EPOCH_TICKS div 1000000 \<le> 18446744073709"
      using div_le_mono [of "sub64 l UNIX_EPOCH_TICKS" "two64 - 1" 1000000]
      by (simp add: sub64_def less_Suc_eq_le [symmetric])
    then have p: "0 \<le> p" "p \<le> 18446744073709" by (simp_all add: p_def to_s64_def)
    have "\<bar>p - (tz_minuteswest env + tz_dsttime env) * 60\<bar> \<le> 9223372036854775807"
      using assms(2,3) p by (simp add: abs_if split: if_splits)
    then have conv: "sceKernelConvertLocaltimeToUtc env p
        = Some (0, p - (tz_minuteswest env + tz_dsttime env) * 60, tz_minuteswest env, tz_dsttime env)"
      unfolding sceKernelConvertLocaltimeToUtc_def zone bind.bind_lunit
      by (simp only: s64_of_abs bind.bind_lunit)
    have inv: "add64 (to_u64 (- off * 60000000)) l = t"
      using add64_inverse [OF assms(1), of "off * 60000000"] by (simp add: l_def)
    show ?thesis
      using inv by (simp add: sceRtcConvertLocalTimeToUtc_def p_def [symmetric] conv
          off_def [symmetric] zone zone(8) [simplified] sceRtcTickAddMinutes_def tick_add_def)
  qed
  ultimately show ?thesis by blast
qed

theorem rtc_local_time_roundtrip_witness:
  "\<exists>env l. tz_minuteswest env = - 60 \<and>
    sceRtcConvertUtcToLocalTime env (Some 0) (Some 0) = Some (0, Some l) \<and>
    sceRtcConvertLocalTimeToUtc env (Some l) (Some 0) = Some (0, Some 0)"
proof -
  obtain env :: kernel_env where "tz_minuteswest env = - 60" "tz_dsttime env = 1"
    by (metis kernel_env.select_convs(5,6))
  then show ?thesis using rtc_local_time_roundtrip [of 0 env 0 0] by auto
qed

end
