(* ===== verification/Rtc_Format.thy ===== *)
theory Rtc_Format
  imports Rtc_Ops
begin

text \<open>
  The text formats of \<open>src/src/core/libraries/rtc/rtc.cpp\<close>: RFC 2822, RFC 3339 and asctime.

  A guest buffer is an option of its C string, without the terminating zero.  \<open>std::stoi\<close> and
  \<open>std::string::substr\<close> throw on bad input, which nothing catches: such a call returns \<open>None\<close>, as
  does an index past the end of a string.
\<close>

section \<open>Strings of the standard library\<close>

definition is_space :: "char \<Rightarrow> bool" where
  "is_space c \<longleftrightarrow> of_char c = (32::nat) \<or> 9 \<le> (of_char c::nat) \<and> (of_char c::nat) \<le> 13"

definition is_digit :: "char \<Rightarrow> bool" where
  "is_digit c \<longleftrightarrow> 48 \<le> (of_char c::nat) \<and> (of_char c::nat) \<le> 57"

definition digits_value :: "string \<Rightarrow> nat" where
  "digits_value ds = foldl (\<lambda>v c. 10 * v + (of_char c - 48)) 0 ds"

definition stoi :: "string \<Rightarrow> int option" where
  "stoi s =
     (let s = dropWhile is_space s;
          (neg, s) = (case s of [] \<Rightarrow> (False, [])
            | c # cs \<Rightarrow> if c = CHR ''-'' then (True, cs) else if c = CHR ''+'' then (False, cs)
                       else (False, s));
          ds = takeWhile is_digit s
      in if ds = [] then None
         else s32_of (if neg then - int (digits_value ds) else int (digits_value ds)))"

definition substr :: "string \<Rightarrow> nat \<Rightarrow> nat \<Rightarrow> string option" where
  "substr s pos n = (if pos \<le> length s then Some (take n (drop pos s)) else None)"

definition char_at :: "string \<Rightarrow> nat \<Rightarrow> char option" where
  "char_at s i = (if i < length s then Some (s ! i) else if i = length s then Some (CHR 0x00) else None)"

definition stoi_at :: "string \<Rightarrow> nat \<Rightarrow> nat \<Rightarrow> int option" where
  "stoi_at s pos n = do { f \<leftarrow> substr s pos n; stoi f }"

section \<open>Formatting\<close>

text \<open>A field below 10 gets a leading zero.\<close>

definition pad2 :: "nat \<Rightarrow> string" where
  "pad2 n = (if n < 10 then ''0'' @ nat_string n else nat_string n)"

definition week_day_name :: "int \<Rightarrow> string" where
  "week_day_name d =
     (if d = 0 then ''Sun, '' else if d = 1 then ''Mon, '' else if d = 2 then ''Tue, ''
      else if d = 3 then ''Wed, '' else if d = 4 then ''Thu, '' else if d = 5 then ''Fri, ''
      else if d = 6 then ''Sat, '' else [])"

definition month_name :: "nat \<Rightarrow> string" where
  "month_name m =
     (if m = 1 then ''Jan '' else if m = 2 then ''Feb '' else if m = 3 then ''Mar ''
      else if m = 4 then ''Apr '' else if m = 5 then ''May '' else if m = 6 then ''Jun ''
      else if m = 7 then ''Jul '' else if m = 8 then ''Aug '' else if m = 9 then ''Sep ''
      else if m = 10 then ''Oct '' else if m = 11 then ''Nov '' else if m = 12 then ''Dec '' else [])"

text \<open>A zone offset that is not zero, with the given separator between hours and minutes.\<close>

definition zone_string :: "string \<Rightarrow> int \<Rightarrow> string" where
  "zone_string sep m =
     (let hours = tdiv m 60; remainder = tmod m 60;
          (sign, hours) = (if hours < 0 then (''-'', hours * - 1) else (''+'', hours))
      in sign @ (if hours < 10 then ''0'' @ to_string hours else to_string hours) @ sep @
         (if remainder = 0 then ''00''
          else to_string (if remainder < 0 then remainder * - 1 else remainder)))"

definition format_tick :: "kernel_env \<Rightarrow> u64 option \<Rightarrow> int \<Rightarrow> u64 option option" where
  "format_tick env pTickUtc m = do {
     (_, t) \<leftarrow> (case pTickUtc of
        None \<Rightarrow> sceRtcGetCurrentTick env (Some (stack_tick env))
      | Some tick \<Rightarrow> Some (0, Some tick));
     (_, t) \<leftarrow> sceRtcTickAddMinutes t t m;
     Some t
   }"

definition rfc2822_string :: "kernel_env \<Rightarrow> OrbisRtcDateTime \<Rightarrow> int \<Rightarrow> string" where
  "rfc2822_string env t m =
     week_day_name (sceRtcGetDayOfWeek env (int (year t)) (int (month t)) (int (day t))) @
     pad2 (day t) @ '' '' @ month_name (month t) @ nat_string (year t) @ '' '' @
     pad2 (hour t) @ '':'' @ pad2 (minute t) @ '':'' @ pad2 (second t) @ '' '' @
     (if m = 0 then ''+0000'' else zone_string [] m)"

definition sceRtcFormatRFC2822 ::
  "kernel_env \<Rightarrow> string option \<Rightarrow> u64 option \<Rightarrow> int \<Rightarrow> (int \<times> string option) option" where
  "sceRtcFormatRFC2822 env pszDateTime pTickUtc m = (case pszDateTime of
     None \<Rightarrow> Some (ORBIS_RTC_ERROR_INVALID_POINTER, None)
   | Some _ \<Rightarrow> do {
       formatTick \<leftarrow> format_tick env pTickUtc m;
       formatTime \<leftarrow> snd (sceRtcSetTick (Some (stack_time env)) formatTick);
       Some (0, if sceRtcCheckValid (Some formatTime) \<ge> 0
                then Some (rfc2822_string env formatTime m) else pszDateTime)
     })"

definition rfc3339_string :: "OrbisRtcDateTime \<Rightarrow> int \<Rightarrow> string" where
  "rfc3339_string t m =
     nat_string (year t) @ ''-'' @ pad2 (month t) @ ''-'' @ pad2 (day t) @ ''T'' @
     pad2 (hour t) @ '':'' @ pad2 (minute t) @ '':'' @ pad2 (second t) @
     (if microsecond t \<noteq> 0 then ''.'' @ take 2 (nat_string (microsecond t div 1000)) else ''.00'') @
     (if m = 0 then ''Z'' else zone_string '':'' m)"

definition sceRtcFormatRFC3339Precise ::
  "kernel_env \<Rightarrow> string option \<Rightarrow> u64 option \<Rightarrow> int \<Rightarrow> (int \<times> string option) option" where
  "sceRtcFormatRFC3339Precise env pszDateTime pTickUtc m = (case pszDateTime of
     None \<Rightarrow> Some (ORBIS_RTC_ERROR_INVALID_POINTER, None)
   | Some _ \<Rightarrow> do {
       formatTick \<leftarrow> format_tick env pTickUtc m;
       formatTime \<leftarrow> snd (sceRtcSetTick (Some (stack_time env)) formatTick);
       Some (0, Some (rfc3339_string formatTime m))
     })"

definition sceRtcFormatRFC3339 ::
  "kernel_env \<Rightarrow> string option \<Rightarrow> u64 option \<Rightarrow> int \<Rightarrow> (int \<times> string option) option" where
  "sceRtcFormatRFC3339 = sceRtcFormatRFC3339Precise"

definition sceRtcFormatRFC2822LocalTime ::
  "kernel_env \<Rightarrow> string option \<Rightarrow> u64 option \<Rightarrow> (int \<times> string option) option" where
  "sceRtcFormatRFC2822LocalTime env pszDateTime pTickUtc = do {
     off \<leftarrow> local_offset env; sceRtcFormatRFC2822 env pszDateTime pTickUtc off }"

definition sceRtcFormatRFC3339LocalTime ::
  "kernel_env \<Rightarrow> string option \<Rightarrow> u64 option \<Rightarrow> (int \<times> string option) option" where
  "sceRtcFormatRFC3339LocalTime env pszDateTime pTickUtc = do {
     off \<leftarrow> local_offset env; sceRtcFormatRFC3339 env pszDateTime pTickUtc off }"

definition sceRtcFormatRFC3339PreciseLocalTime ::
  "kernel_env \<Rightarrow> string option \<Rightarrow> u64 option \<Rightarrow> (int \<times> string option) option" where
  "sceRtcFormatRFC3339PreciseLocalTime env pszDateTime pTickUtc = do {
     off \<leftarrow> local_offset env; sceRtcFormatRFC3339Precise env pszDateTime pTickUtc off }"

section \<open>Parsing\<close>

definition GetMonthFromString :: "string \<Rightarrow> nat" where
  "GetMonthFromString monthStr =
     (if monthStr = ''Jan'' then 1 else if monthStr = ''Feb'' then 2 else if monthStr = ''Mar'' then 3
      else if monthStr = ''Apr'' then 4 else if monthStr = ''May'' then 5 else if monthStr = ''Jun'' then 6
      else if monthStr = ''Jul'' then 7 else if monthStr = ''Aug'' then 8 else if monthStr = ''Sep'' then 9
      else if monthStr = ''Oct'' then 10 else if monthStr = ''Nov'' then 11
      else if monthStr = ''Dec'' then 12 else 1)"

text \<open>
  A parsed date goes through \<open>sceRtcGetTick\<close>, whose error code is dropped; then the zone offset
  \<open>sign * (60 * hours + minutes)\<close> is added to the tick.
\<close>

definition parsed_tick :: "OrbisRtcDateTime \<Rightarrow> u64 option \<Rightarrow> u64 option option" where
  "parsed_tick t pTickUtc = do {
     (_, _, tick) \<leftarrow> sceRtcGetTick (Some t) pTickUtc;
     Some tick
   }"

definition add_zone :: "int \<Rightarrow> string \<Rightarrow> nat \<Rightarrow> nat \<Rightarrow> u64 option \<Rightarrow> u64 option option" where
  "add_zone sign s hpos mpos tick = do {
     h \<leftarrow> stoi_at s hpos 2;
     m \<leftarrow> stoi_at s mpos 2;
     (_, tick) \<leftarrow> sceRtcTickAddMinutes tick tick (sign * (h * 60 + m));
     Some tick
   }"

definition sceRtcParseRFC3339 :: "u64 option \<Rightarrow> string option \<Rightarrow> (int \<times> u64 option) option" where
  "sceRtcParseRFC3339 pTickUtc pszDateTime = (case (pTickUtc, pszDateTime) of
     (Some _, Some s) \<Rightarrow> do {
       y \<leftarrow> stoi_at s 0 4;
       mo \<leftarrow> stoi_at s 5 2;
       d \<leftarrow> stoi_at s 8 2;
       h \<leftarrow> stoi_at s 11 2;
       mi \<leftarrow> stoi_at s 14 2;
       sec \<leftarrow> stoi_at s 17 2;
       c \<leftarrow> char_at s 19;
       (timezone_pos, us) \<leftarrow> (if c = CHR ''.'' then do { us \<leftarrow> stoi_at s 20 2; Some (22, us) }
                             else Some (19, 0));
       tick \<leftarrow> parsed_tick \<lparr>year = to_u16 y, month = to_u16 mo, day = to_u16 d, hour = to_u16 h,
                 minute = to_u16 mi, second = to_u16 sec,
                 microsecond = nat (us mod 4294967296)\<rparr> pTickUtc;
       z \<leftarrow> char_at s timezone_pos;
       tick \<leftarrow> (if z = CHR ''-'' then add_zone (- 1) s (timezone_pos + 1) (timezone_pos + 4) tick
                else if z = CHR ''+'' then add_zone 1 s (timezone_pos + 1) (timezone_pos + 4) tick
                else Some tick);
       Some (0, tick)
     }
   | _ \<Rightarrow> Some (ORBIS_RTC_ERROR_INVALID_POINTER, pTickUtc))"

definition parse_rfc2822 :: "u64 option \<Rightarrow> string \<Rightarrow> u64 option option" where
  "parse_rfc2822 pTickUtc s = do {
     d \<leftarrow> stoi_at s 5 2;
     mo \<leftarrow> substr s 8 3;
     y \<leftarrow> stoi_at s 12 4;
     h \<leftarrow> stoi_at s 17 2;
     mi \<leftarrow> stoi_at s 20 2;
     sec \<leftarrow> stoi_at s 23 2;
     tick \<leftarrow> parsed_tick \<lparr>year = to_u16 y, month = GetMonthFromString mo, day = to_u16 d,
               hour = to_u16 h, minute = to_u16 mi, second = to_u16 sec, microsecond = 0\<rparr> pTickUtc;
     z \<leftarrow> char_at s 26;
     (if z = CHR ''+'' then add_zone 1 s 27 29 tick
      else if z = CHR ''-'' then add_zone (- 1) s 27 29 tick
      else Some tick)
   }"

definition parse_asctime :: "u64 option \<Rightarrow> string \<Rightarrow> u64 option option" where
  "parse_asctime pTickUtc s = do {
     mo \<leftarrow> substr s 4 3;
     d \<leftarrow> stoi_at s 8 2;
     h \<leftarrow> stoi_at s 11 2;
     mi \<leftarrow> stoi_at s 14 2;
     sec \<leftarrow> stoi_at s 17 2;
     y \<leftarrow> stoi_at s 20 4;
     parsed_tick \<lparr>year = to_u16 y, month = GetMonthFromString mo, day = to_u16 d,
       hour = to_u16 h, minute = to_u16 mi, second = to_u16 sec, microsecond = 0\<rparr> pTickUtc
   }"

definition sceRtcParseDateTime :: "u64 option \<Rightarrow> string option \<Rightarrow> (int \<times> u64 option) option" where
  "sceRtcParseDateTime pTickUtc pszDateTime = (case (pTickUtc, pszDateTime) of
     (Some _, Some s) \<Rightarrow> do {
       formatKey \<leftarrow> char_at s 19;
       tick \<leftarrow> (if formatKey \<in> {CHR ''Z'', CHR ''-'', CHR ''+'', CHR ''.''}
                then do { (_, tick) \<leftarrow> sceRtcParseRFC3339 pTickUtc pszDateTime; Some tick }
                else if formatKey = CHR '':'' then parse_rfc2822 pTickUtc s
                else parse_asctime pTickUtc s);
       Some (0, tick)
     }
   | _ \<Rightarrow> Some (ORBIS_RTC_ERROR_INVALID_POINTER, pTickUtc))"

section \<open>Digits\<close>

lemma of_digit_char [simp]: "n < 10 \<Longrightarrow> of_char (digit_char n) = 48 + n"
  by (simp add: digit_char_def)

lemma digit_char_simps [simp]:
  assumes "n < 10"
  shows "is_digit (digit_char n)" "\<not> is_space (digit_char n)" "digit_char n \<noteq> CHR ''-''"
    "digit_char n \<noteq> CHR ''+''"
proof -
  have c: "(of_char (CHR ''-'') :: nat) = 45" "(of_char (CHR ''+'') :: nat) = 43" by simp_all
  show "is_digit (digit_char n)" "\<not> is_space (digit_char n)"
    using assms by (simp_all add: is_digit_def is_space_def)
  show "digit_char n \<noteq> CHR ''-''" "digit_char n \<noteq> CHR ''+''"
    using of_digit_char [OF assms] c by auto
qed

lemma digit_char_0: "CHR ''0'' = digit_char 0"
  by (simp add: digit_char_def char_of_def bit_0)

lemma nat_string_digit: "n < 10 \<Longrightarrow> nat_string n = [digit_char n]"
  by (subst nat_string.simps) simp

lemma nat_string_snoc: "10 \<le> n \<Longrightarrow> nat_string n = nat_string (n div 10) @ [digit_char (n mod 10)]"
  by (subst nat_string.simps) simp

lemma pad2_digits: "n < 100 \<Longrightarrow> pad2 n = [digit_char (n div 10), digit_char (n mod 10)]"
  by (cases "n < 10") (simp_all add: pad2_def nat_string_digit nat_string_snoc digit_char_0 [symmetric])

lemma nat_string_4:
  assumes "1000 \<le> n" "n < 10000"
  shows "nat_string n = [digit_char (n div 1000), digit_char (n div 100 mod 10),
    digit_char (n div 10 mod 10), digit_char (n mod 10)]"
proof -
  have d: "n div 10 div 10 = n div 100" "n div 100 div 10 = n div 1000"
    by (simp_all add: div_mult2_eq [symmetric])
  have "10 \<le> n" "10 \<le> n div 10" "10 \<le> n div 100" "n div 1000 < 10" using assms by simp_all
  then show ?thesis
    by (simp add: nat_string_snoc nat_string_digit d)
qed

lemma stoi_2:
  assumes "a < 10" "b < 10"
  shows "stoi [digit_char a, digit_char b] = Some (int (10 * a + b))"
  using assms by (simp add: stoi_def Let_def digits_value_def s32_of_def)

lemma stoi_4:
  assumes "a < 10" "b < 10" "c < 10" "d < 10"
  shows "stoi [digit_char a, digit_char b, digit_char c, digit_char d]
    = Some (int (1000 * a + 100 * b + 10 * c + d))"
  using assms by (simp add: stoi_def Let_def digits_value_def s32_of_def)

lemma stoi_pad2: "n < 100 \<Longrightarrow> stoi [digit_char (n div 10), digit_char (n mod 10)] = Some (int n)"
  by (subst stoi_2) (simp_all add: div_less_iff_less_mult)

lemma stoi_year:
  assumes "n < 10000"
  shows "stoi [digit_char (n div 1000), digit_char (n div 100 mod 10), digit_char (n div 10 mod 10),
    digit_char (n mod 10)] = Some (int n)"
proof -
  have d: "n div 10 div 10 = n div 100" "n div 100 div 10 = n div 1000"
    by (simp_all add: div_mult2_eq [symmetric])
  have "1000 * (n div 1000) + 100 * (n div 100 mod 10) + 10 * (n div 10 mod 10) + n mod 10 = n"
    using mult_div_mod_eq [of 10 n] mult_div_mod_eq [of 10 "n div 10"]
      mult_div_mod_eq [of 10 "n div 100"] unfolding d by linarith
  then show ?thesis using assms by (subst stoi_4) (simp_all add: div_less_iff_less_mult)
qed

text \<open>The offsets the two formats write so that they can be read back.\<close>

definition readable_zone :: "int \<Rightarrow> bool" where
  "readable_zone m \<longleftrightarrow> \<bar>m\<bar> < 6000 \<and> (0 \<le> m \<or> m \<le> - 60) \<and> (tmod m 60 = 0 \<or> 10 \<le> \<bar>tmod m 60\<bar>)"

lemma zone_string_digits:
  assumes "readable_zone m"
  obtains h r where "h < 100" "r < 60"
    "zone_string sep m = (if m < 0 then CHR ''-'' else CHR ''+'') # pad2 h @ sep @ pad2 r"
    "m = (if m < 0 then - 1 else 1) * (int h * 60 + int r)"
proof -
  note dm = tdiv_tmod [of 60 m]
  define h where "h = nat \<bar>tdiv m 60\<bar>"
  define r where "r = nat \<bar>tmod m 60\<bar>"
  have neg: "tdiv m 60 < 0 \<longleftrightarrow> m < 0"
    using assms dm unfolding readable_zone_def by (cases "m < 0") auto
  have h: "h < 100" and r: "r < 60"
    using assms dm unfolding h_def r_def readable_zone_def by (cases "m < 0"; auto)+
  have hs: "(if tdiv m 60 < 0 then tdiv m 60 * - 1 else tdiv m 60) = int h"
    by (simp add: h_def)
  have rs: "(if tmod m 60 < 0 then tmod m 60 * - 1 else tmod m 60) = int r"
    by (simp add: r_def)
  have hp: "(if int h < 10 then ''0'' @ to_string (int h) else to_string (int h)) = pad2 h"
    by (simp add: pad2_def to_string_def)
  have rp: "(if tmod m 60 = 0 then ''00'' else to_string (int r)) = pad2 r"
    using assms by (auto simp: pad2_def to_string_def r_def readable_zone_def nat_string_digit
        digit_char_0 [symmetric])
  have z: "zone_string sep m = (if m < 0 then CHR ''-'' else CHR ''+'') # pad2 h @ sep @ pad2 r"
  proof (cases "m < 0")
    case True
    then have "tdiv m 60 < 0" using neg by simp
    then show ?thesis
      unfolding zone_string_def Let_def rs rp using hs hp True by (simp del: of_nat_less_iff)
  next
    case False
    then have "\<not> tdiv m 60 < 0" using neg by simp
    then show ?thesis
      unfolding zone_string_def Let_def rs rp using hs hp False by (simp del: of_nat_less_iff)
  qed
  have "m = (if m < 0 then - 1 else 1) * (int h * 60 + int r)"
    using dm neg by (cases "m < 0") (auto simp: h_def r_def)
  then show ?thesis using that h r z by blast
qed

section \<open>Properties\<close>

lemma zone_string_not_Z: "(if m < 0 then CHR ''-'' else CHR ''+'') \<noteq> CHR ''.''" for m :: int
  by simp

lemma add_zone_read:
  assumes "stoi_at s hpos 2 = Some (int h)" "stoi_at s mpos 2 = Some (int r)"
    "h < 100" "r < 60" "sign = 1 \<or> sign = - 1"
  shows "add_zone sign s hpos mpos (Some tick)
    = Some (Some (add64 (to_u64 (sign * (int h * 60 + int r) * 60000000)) tick))"
proof -
  have "s64_of (sign * (int h * 60 + int r) * 60000000) = Some (sign * (int h * 60 + int r) * 60000000)"
    using assms(3-5) by (elim disjE) (simp_all add: s64_of_def)
  then show ?thesis
    by (simp only: add_zone_def assms(1,2) bind.bind_lunit sceRtcTickAddMinutes_def tick_add_def
        prod.case option.case)
qed

lemma parse_rfc3339_string:
  assumes t: "valid_time t" "1000 \<le> year t" "microsecond t = 0" "minute t \<le> 35"
    and m: "m = 0 \<or> readable_zone m"
  shows "sceRtcParseRFC3339 (Some k) (Some (rfc3339_string t m))
    = Some (0, Some (add64 (to_u64 (m * 60000000)) (date_tick t)))"
proof -
  have b: "year t < 10000" "month t < 100" "day t < 100" "hour t < 100" "minute t < 100" "second t < 100"
    using t(1) by (auto simp: valid_time_def valid_date_def month_length_def split: if_splits)
  define zone where "zone = (if m = 0 then ''Z'' else zone_string '':'' m)"
  define s where "s = rfc3339_string t m"
  define Y where "Y = nat_string (year t)"
  have s: "s = nat_string (year t) @ ''-'' @ pad2 (month t) @ ''-'' @ pad2 (day t) @ ''T'' @
     pad2 (hour t) @ '':'' @ pad2 (minute t) @ '':'' @ pad2 (second t) @ ''.00'' @ zone"
    by (simp add: s_def rfc3339_string_def t(3) zone_def)
  note digits = nat_string_4 [OF t(2) b(1)] b(2-) [THEN pad2_digits]
  have f: "stoi_at s 0 4 = Some (int (year t))" "stoi_at s 5 2 = Some (int (month t))"
    "stoi_at s 8 2 = Some (int (day t))" "stoi_at s 11 2 = Some (int (hour t))"
    "stoi_at s 14 2 = Some (int (minute t))" "stoi_at s 17 2 = Some (int (second t))"
    unfolding s digits stoi_at_def substr_def using b
    by (simp_all add: stoi_pad2 stoi_year)
  have us: "char_at s 19 = Some (CHR ''.'')" "stoi_at s 20 2 = Some 0"
    using stoi_pad2 [of 0]
    by (simp_all add: s digits char_at_def stoi_at_def substr_def digit_char_0)
  have tick: "parsed_tick \<lparr>year = to_u16 (int (year t)), month = to_u16 (int (month t)),
      day = to_u16 (int (day t)), hour = to_u16 (int (hour t)), minute = to_u16 (int (minute t)),
      second = to_u16 (int (second t)), microsecond = nat (0 mod 4294967296)\<rparr> (Some k)
    = Some (Some (date_tick t))"
  proof -
    have "\<lparr>year = to_u16 (int (year t)), month = to_u16 (int (month t)),
      day = to_u16 (int (day t)), hour = to_u16 (int (hour t)), minute = to_u16 (int (minute t)),
      second = to_u16 (int (second t)), microsecond = nat (0 mod 4294967296)\<rparr> = t"
      using b t(3) by (cases t) (simp add: to_u16_id)
    then show ?thesis using t(4) by (simp add: parsed_tick_def GetTick_value [OF t(1)])
  qed
  have len: "char_at s 22 = char_at zone 0" "stoi_at s (22 + 1) 2 = stoi_at zone 1 2"
    "stoi_at s (22 + 4) 2 = stoi_at zone 4 2"
    by (simp_all add: s digits char_at_def stoi_at_def substr_def)
  have "(do { z \<leftarrow> char_at s 22;
       tick \<leftarrow> (if z = CHR ''-'' then add_zone (- 1) s (22 + 1) (22 + 4) (Some (date_tick t))
                else if z = CHR ''+'' then add_zone 1 s (22 + 1) (22 + 4) (Some (date_tick t))
                else Some (Some (date_tick t)));
       Some (0, tick) }) = Some (0::int, Some (add64 (to_u64 (m * 60000000)) (date_tick t)))"
  proof (cases "m = 0")
    case True
    have "date_tick t < two64" using date_tick_less [OF t(1)] by (simp add: tick_limit_def)
    moreover have "char_at s 22 = Some (CHR ''Z'')"
      unfolding len using True by (simp add: zone_def char_at_def)
    ultimately show ?thesis using True by (simp add: to_u64_def add64_def)
  next
    case False
    then obtain h r where z: "h < 100" "r < 60"
      "zone_string '':'' m = (if m < 0 then CHR ''-'' else CHR ''+'') # pad2 h @ '':'' @ pad2 r"
      "m = (if m < 0 then - 1 else 1) * (int h * 60 + int r)"
      using m zone_string_digits [of m "'':''"] by metis
    have zs: "zone = (if m < 0 then CHR ''-'' else CHR ''+'') # pad2 h @ '':'' @ pad2 r"
      using False z(3) by (simp add: zone_def)
    have hr: "stoi_at s (22 + 1) 2 = Some (int h)" "stoi_at s (22 + 4) 2 = Some (int r)"
      unfolding len using z(1,2) by (simp_all add: zs pad2_digits stoi_at_def substr_def stoi_pad2)
    have c: "char_at s 22 = Some (if m < 0 then CHR ''-'' else CHR ''+'')"
      unfolding len by (simp add: zs char_at_def)
    show ?thesis
      using add_zone_read [OF hr z(1,2), of "if m < 0 then - 1 else 1" "date_tick t"] z(4)
      by (cases "m < 0") (simp_all add: c)
  qed
  then show ?thesis
    unfolding s_def [symmetric]
    by (simp only: sceRtcParseRFC3339_def prod.case option.case f us bind.bind_lunit tick simp_thms if_True)
qed

lemma add64_to_u64_exact:
  assumes "0 \<le> x + int t" "x + int t < 18446744073709551616"
  shows "add64 (to_u64 x) t = nat (x + int t)"
proof -
  have "int (add64 (to_u64 x) t) = x + int t"
    using assms by (simp add: add64_to_u64)
  then show ?thesis by simp
qed

text \<open>
  C40. Formatting a tick as RFC 3339 with a zone offset writes the local date, and parsing that text
  moves the tick by twice the offset: the formatter adds the offset to UTC, and the parser adds it
  again instead of taking it away.  Only for UTC (offset 0) is parsing the inverse of formatting.
  This is for a local time of whole seconds, with a minute of at most 35 and in a year of four digits,
  and for an offset of zero or one that is written as it is read: positive or at most minus one hour, with
  minutes that are zero or of two digits, and below 100 hours.
\<close>

theorem rfc3339_format_parse:
  assumes "valid_time t" "1000 \<le> year t" "microsecond t = 0" "minute t \<le> 35"
    and "m = 0 \<or> readable_zone m" and "int tick + m * 60000000 = int (date_tick t)"
  shows "\<exists>s. sceRtcFormatRFC3339 env (Some buf) (Some tick) m = Some (0, Some s) \<and>
    sceRtcParseRFC3339 (Some k) (Some s) = Some (0, Some (nat (int tick + 2 * m * 60000000)))"
proof -
  have m: "\<bar>m\<bar> < 6000" using assms(5) by (auto simp: readable_zone_def)
  have lim: "int (date_tick t) < 315537897600000000"
    using date_tick_less [OF assms(1)] by (simp add: tick_limit_def)
  have "days_before_year 1000 \<le> day_number (year t) (month t) (day t)"
    using days_before_year_mono [OF assms(2)] by (simp add: day_number_def)
  moreover have "days_before_year 1000 = 364877"
    using days_before_year_closed [of 999] by simp
  ultimately have "364877 \<le> date_tick t div 86400000000"
    by (simp only: date_tick_split [OF assms(1)])
  then have low: "31525372800000000 \<le> int (date_tick t)" by linarith
  have span: "s64_of (m * 60000000) = Some (m * 60000000)"
    using m by (intro s64_of_abs) (simp add: abs_mult)
  have "add64 (to_u64 (m * 60000000)) tick = date_tick t"
    using add64_to_u64_exact [of "m * 60000000" tick] assms(6) lim by (simp add: add.commute)
  then have "format_tick env (Some tick) m = Some (Some (date_tick t))"
    by (simp add: format_tick_def sceRtcTickAddMinutes_def tick_add_def span)
  then have fmt: "sceRtcFormatRFC3339 env (Some buf) (Some tick) m = Some (0, Some (rfc3339_string t m))"
    by (simp add: sceRtcFormatRFC3339_def sceRtcFormatRFC3339Precise_def SetTick_date_tick [OF assms(1)])
  have "- 360000000000 \<le> m * 60000000" "m * 60000000 \<le> 360000000000" using m by linarith+
  then have "add64 (to_u64 (m * 60000000)) (date_tick t) = nat (m * 60000000 + int (date_tick t))"
    using low lim by (intro add64_to_u64_exact) linarith+
  also have "\<dots> = nat (int tick + 2 * m * 60000000)" using assms(6) by simp
  finally have "sceRtcParseRFC3339 (Some k) (Some (rfc3339_string t m))
      = Some (0, Some (nat (int tick + 2 * m * 60000000)))"
    using parse_rfc3339_string [OF assms(1-5)] by simp
  then show ?thesis using fmt by blast
qed

theorem rfc3339_format_parse_witness:
  "\<exists>tick env s. sceRtcFormatRFC3339 env (Some []) (Some tick) 60 = Some (0, Some s) \<and>
    sceRtcParseRFC3339 (Some 0) (Some s) = Some (0, Some (tick + 7200000000))"
proof -
  let ?t = "\<lparr>year = 2000, month = 1, day = 1, hour = 0, minute = 0, second = 0, microsecond = 0\<rparr>"
  have v: "valid_time ?t" by (simp add: valid_time_def valid_date_def month_length_def)
  have z: "readable_zone 60" by (simp add: readable_zone_def tmod_def tdiv_def)
  have "days_before_year 2000 = 730119" using days_before_year_closed [of 1999] by simp
  then have "date_tick ?t = 63082281600000000" by (simp add: date_tick_def day_number_def)
  then have "\<exists>s. sceRtcFormatRFC3339 env (Some []) (Some 63082278000000000) 60 = Some (0, Some s) \<and>
      sceRtcParseRFC3339 (Some 0) (Some s) = Some (0, Some (63082278000000000 + 7200000000))" for env
    using rfc3339_format_parse [OF v, of 60 63082278000000000 env "[]" 0] z by simp
  then show ?thesis by blast
qed

text \<open>A date that does not exist is accepted, and the tick keeps its old content.\<close>

lemma parse_invalid_date:
  "sceRtcParseRFC3339 (Some k) (Some ''2023-02-30T00:00:00Z'') = Some (0, Some k)"
  by (simp add: sceRtcParseRFC3339_def stoi_at_def substr_def stoi_def Let_def is_space_def is_digit_def
      digits_value_def s32_of_def char_at_def parsed_tick_def sceRtcGetTick_def sceRtcCheckValid_def
      chrono_last_day_def chrono_is_leap_def to_s16_def to_u16_def rtc_error_defs)

lemma week_day_name_3:
  assumes "0 \<le> d" "d \<le> 6"
  obtains a b c where "week_day_name d = [a, b, c, CHR '','', CHR '' '']"
proof -
  have "d = 0 \<or> d = 1 \<or> d = 2 \<or> d = 3 \<or> d = 4 \<or> d = 5 \<or> d = 6" using assms by presburger
  then show ?thesis using that by (elim disjE) (simp_all add: week_day_name_def)
qed

lemma month_name_back:
  assumes "1 \<le> m" "m \<le> 12"
  obtains a b c where "month_name m = [a, b, c, CHR '' '']" "GetMonthFromString [a, b, c] = m"
proof -
  have "m = 1 \<or> m = 2 \<or> m = 3 \<or> m = 4 \<or> m = 5 \<or> m = 6 \<or> m = 7 \<or> m = 8 \<or> m = 9 \<or>
    m = 10 \<or> m = 11 \<or> m = 12" using assms by presburger
  then show ?thesis using that by (elim disjE) (simp_all add: month_name_def GetMonthFromString_def)
qed

text \<open>
  Round trip of RFC 2822 in UTC: the text written for a tick of whole seconds in the years 1000
  to 9999 is read back as the same tick (minutes up to 35, where \<open>sceRtcGetTick\<close> is defined).
\<close>

theorem rfc2822_roundtrip:
  assumes "valid_time t" "1000 \<le> year t" "microsecond t = 0" "minute t \<le> 35"
  shows "\<exists>s. sceRtcFormatRFC2822 env (Some buf) (Some (date_tick t)) 0 = Some (0, Some s) \<and>
    sceRtcParseDateTime (Some k) (Some s) = Some (0, Some (date_tick t))"
proof -
  have vd: "valid_date (year t) (month t) (day t)" "year t \<le> 9999"
    using assms(1) by (auto simp: valid_time_def)
  have b: "year t < 10000" "day t < 100" "hour t < 100" "minute t < 100" "second t < 100"
    and mo: "1 \<le> month t" "month t \<le> 12"
    using assms(1) by (auto simp: valid_time_def valid_date_def month_length_def split: if_splits)
  define w where "w = sceRtcGetDayOfWeek env (int (year t)) (int (month t)) (int (day t))"
  have "w = int ((day_number (year t) (month t) (day t) + 1) mod 7)"
    unfolding w_def by (rule GetDayOfWeek_monday [OF vd])
  then have w: "0 \<le> w" "w \<le> 6" by simp_all
  obtain a1 a2 a3 where wd: "week_day_name w = [a1, a2, a3, CHR '','', CHR '' '']"
    by (rule week_day_name_3 [OF w])
  obtain b1 b2 b3 where mn: "month_name (month t) = [b1, b2, b3, CHR '' '']"
      "GetMonthFromString [b1, b2, b3] = month t"
    using month_name_back [OF mo] by metis
  define s where "s = rfc2822_string env t 0"
  note digits = nat_string_4 [OF assms(2) b(1)] b(2-) [THEN pad2_digits]
  have s: "s = [a1, a2, a3, CHR '','', CHR '' ''] @ pad2 (day t) @ '' '' @ [b1, b2, b3, CHR '' ''] @
     nat_string (year t) @ '' '' @ pad2 (hour t) @ '':'' @ pad2 (minute t) @ '':'' @ pad2 (second t) @
     '' '' @ ''+0000''"
    by (simp add: s_def rfc2822_string_def w_def [symmetric] wd mn)
  have f: "stoi_at s 5 2 = Some (int (day t))" "substr s 8 3 = Some [b1, b2, b3]"
    "stoi_at s 12 4 = Some (int (year t))" "stoi_at s 17 2 = Some (int (hour t))"
    "stoi_at s 20 2 = Some (int (minute t))" "stoi_at s 23 2 = Some (int (second t))"
    "stoi_at s 27 2 = Some (int 0)" "stoi_at s 29 2 = Some (int 0)"
    unfolding s digits stoi_at_def substr_def using b stoi_pad2 [of 0]
    by (simp_all add: stoi_pad2 stoi_year digit_char_0)
  have c: "char_at s 19 = Some (CHR '':'')" "char_at s 26 = Some (CHR ''+'')"
    unfolding s digits char_at_def by simp_all
  have rec: "\<lparr>year = to_u16 (int (year t)), month = month t, day = to_u16 (int (day t)),
      hour = to_u16 (int (hour t)), minute = to_u16 (int (minute t)),
      second = to_u16 (int (second t)), microsecond = 0\<rparr> = t"
    using b assms(3) by (cases t) (simp add: to_u16_id)
  have lim: "date_tick t < two64" using date_tick_less [OF assms(1)] by (simp add: tick_limit_def)
  have zero: "add64 (to_u64 0) (date_tick t) = date_tick t"
    using lim by (simp add: to_u64_def add64_def)
  have p: "parsed_tick t (Some k) = Some (Some (date_tick t))"
    using assms(4) by (simp add: parsed_tick_def GetTick_value [OF assms(1)])
  have z: "add_zone 1 s 27 29 (Some (date_tick t)) = Some (Some (date_tick t))"
    using add_zone_read [OF f(7,8), of 1 "date_tick t"] zero by simp
  have parse: "sceRtcParseDateTime (Some k) (Some s) = Some (0, Some (date_tick t))"
    unfolding sceRtcParseDateTime_def parse_rfc2822_def prod.case option.case c f bind.bind_lunit mn(2) rec p
    using z by simp
  have ft: "format_tick env (Some (date_tick t)) 0 = Some (Some (date_tick t))"
    using zero by (simp add: format_tick_def sceRtcTickAddMinutes_def tick_add_def s64_of_def)
  have "sceRtcFormatRFC2822 env (Some buf) (Some (date_tick t)) 0 = Some (0, Some s)"
    using assms(1) CheckValid_cases [of t]
    by (simp add: sceRtcFormatRFC2822_def ft SetTick_date_tick [OF assms(1)] s_def)
  then show ?thesis using parse by blast
qed

theorem rfc2822_roundtrip_witness:
  "\<exists>tick env s. tick > 0 \<and> sceRtcFormatRFC2822 env (Some []) (Some tick) 0 = Some (0, Some s) \<and>
    sceRtcParseDateTime (Some 0) (Some s) = Some (0, Some tick)"
proof -
  let ?t = "\<lparr>year = 2000, month = 1, day = 1, hour = 0, minute = 0, second = 1, microsecond = 0\<rparr>"
  have v: "valid_time ?t" by (simp add: valid_time_def valid_date_def month_length_def)
  have "date_tick ?t > 0" by (simp add: date_tick_def)
  then show ?thesis using rfc2822_roundtrip [OF v, of _ "[]" 0] by fastforce
qed

end
