(* ===== verification/Pthread_Mutex.thy ===== *)
theory Pthread_Mutex
  imports Prelude
begin

unbundle bit_operations_syntax

text \<open>
  The mutexes of \<open>src/src/core/libraries/kernel/threads/mutex.cpp\<close> and the types they need from
  \<open>pthread.h\<close>.

  Pointers are natural numbers and 0 is the null pointer; a \<open>PthreadMutexT *\<close> is the address of a cell
  that holds a pointer.  The host lock \<open>m_lock\<close> is the thread that holds it.  A call of \<open>Lock\<close> is a
  sequence of atomic steps, between which other threads act: \<open>LockState\<close> says where in the function the
  thread is.  \<open>None\<close> stands for \<open>UNREACHABLE\<close> and for undefined behaviour: an invalid pointer, the
  overflow of a signed counter, the release of a host lock that the thread does not hold.
\<close>

section \<open>Data\<close>

abbreviation MUTEX_ADAPTIVE_SPINS :: s32 where "MUTEX_ADAPTIVE_SPINS \<equiv> 2000"
abbreviation THR_MUTEX_INITIALIZER :: nat where "THR_MUTEX_INITIALIZER \<equiv> 0"
abbreviation THR_ADAPTIVE_MUTEX_INITIALIZER :: nat where "THR_ADAPTIVE_MUTEX_INITIALIZER \<equiv> 1"
abbreviation THR_MUTEX_DESTROYED :: nat where "THR_MUTEX_DESTROYED \<equiv> 2"
abbreviation PRIO_LOWEST :: s32 where "PRIO_LOWEST \<equiv> 256"
abbreviation PRIO_HIGHEST :: s32 where "PRIO_HIGHEST \<equiv> 767"

text \<open>\<open>PthreadMutexType\<close>, \<open>PthreadMutexProt\<close> and \<open>PthreadMutexFlags\<close> are 32-bit values: nothing checks them.\<close>

abbreviation ErrorCheck :: u32 where "ErrorCheck \<equiv> 1"
abbreviation Recursive :: u32 where "Recursive \<equiv> 2"
abbreviation Normal :: u32 where "Normal \<equiv> 3"
abbreviation AdaptiveNp :: u32 where "AdaptiveNp \<equiv> 4"
abbreviation TypeMax :: u32 where "TypeMax \<equiv> 5"
abbreviation ProtNone :: u32 where "ProtNone \<equiv> 0"
abbreviation ProtProtect :: u32 where "ProtProtect \<equiv> 2"
abbreviation FlagTypeMask :: u32 where "FlagTypeMask \<equiv> 0xff"
abbreviation FlagDeferred :: u32 where "FlagDeferred \<equiv> 0x200"

record PthreadMutex =
  m_owner :: "nat option"
  m_count :: s32
  m_spinloops :: s32
  m_yieldloops :: s32
  m_protocol :: u32
  m_flags :: u32
  m_lock :: "nat option"
  mutex_name :: string

definition Type :: "PthreadMutex \<Rightarrow> u32" where
  "Type m = m_flags m AND FlagTypeMask"

record PthreadMutexAttr =
  m_type :: u32
  attr_protocol :: u32
  m_ceiling :: s32

definition PthreadMutexattrDefault :: PthreadMutexAttr where
  "PthreadMutexattrDefault = \<lparr>m_type = ErrorCheck, attr_protocol = ProtNone, m_ceiling = 0\<rparr>"

definition PthreadMutexattrAdaptiveDefault :: PthreadMutexAttr where
  "PthreadMutexattrAdaptiveDefault = \<lparr>m_type = AdaptiveNp, attr_protocol = ProtNone, m_ceiling = 0\<rparr>"

text \<open>What the mutexes and condition variables use of a thread.\<close>

record Pthread =
  cancel_enable :: bool
  cancel_pending :: bool
  no_cancel :: bool
  sleepqueue :: "nat option"
  wchan :: "nat option"
  mutex_obj :: "nat option"
  will_sleep :: bool
  defer_waiters :: "nat list"
  wake_sema :: nat
  thread_errno :: s32

record MutexWorld =
  mutexes :: "nat \<Rightarrow> PthreadMutex option"
  mutex_cells :: "nat \<Rightarrow> nat"
  mutexattrs :: "nat \<Rightarrow> PthreadMutexAttr option"
  mutexattr_cells :: "nat \<Rightarrow> nat"
  MutexId :: s32
  threads :: "nat \<Rightarrow> Pthread"

text \<open>The time limit of a call: a null pointer, \<open>THR_RELTIME\<close> with its microseconds, or a time.\<close>

datatype LockTime = NoTime | RelTime u64 | AbsTime int int

section \<open>Creation\<close>

text \<open>\<open>new\<close> is the result of the allocation.\<close>

definition construct_PthreadMutex :: "PthreadMutexAttr \<Rightarrow> string \<Rightarrow> PthreadMutex" where
  "construct_PthreadMutex attr nm =
     \<lparr>m_owner = None, m_count = 0,
      m_spinloops = (if m_type attr = AdaptiveNp then MUTEX_ADAPTIVE_SPINS else 0), m_yieldloops = 0,
      m_protocol = attr_protocol attr, m_flags = m_type attr, m_lock = None, mutex_name = nm\<rparr>"

definition MutexInit ::
  "nat \<Rightarrow> PthreadMutexAttr option \<Rightarrow> string option \<Rightarrow> nat option \<Rightarrow> 'a MutexWorld_scheme \<Rightarrow> s32 \<times> 'a MutexWorld_scheme"
where
  "MutexInit mutex mutex_attr name new w =
     (let attr = (case mutex_attr of None \<Rightarrow> PthreadMutexattrDefault | Some a \<Rightarrow> a)
      in if mutex_attr \<noteq> None \<and> (m_type attr < ErrorCheck \<or> m_type attr \<ge> TypeMax) then (POSIX_EINVAL, w)
         else if mutex_attr \<noteq> None \<and> attr_protocol attr > ProtProtect then (POSIX_EINVAL, w)
         else (case new of
           None \<Rightarrow> (POSIX_ENOMEM, w)
         | Some p \<Rightarrow>
             let (nm, w1) = (case name of Some n \<Rightarrow> (n, w)
                   | None \<Rightarrow> (''Mutex'' @ to_string (MutexId w), w\<lparr>MutexId := wrap32 (MutexId w + 1)\<rparr>))
             in (0, w1\<lparr>mutexes := (mutexes w1)(p \<mapsto> construct_PthreadMutex attr nm),
                       mutex_cells := (mutex_cells w1)(mutex := p)\<rparr>)))"

definition InitStatic :: "nat \<Rightarrow> nat option \<Rightarrow> 'a MutexWorld_scheme \<Rightarrow> s32 \<times> 'a MutexWorld_scheme" where
  "InitStatic mutex new w =
     (if mutex_cells w mutex = THR_MUTEX_INITIALIZER \<or> mutex_cells w mutex = THR_MUTEX_DESTROYED
      then MutexInit mutex (Some PthreadMutexattrDefault) None new w
      else if mutex_cells w mutex = THR_ADAPTIVE_MUTEX_INITIALIZER
      then MutexInit mutex (Some PthreadMutexattrAdaptiveDefault) None new w
      else (0, w))"

definition check_and_init_mutex :: "nat \<Rightarrow> nat option \<Rightarrow> 'a MutexWorld_scheme \<Rightarrow> s32 \<times> 'a MutexWorld_scheme" where
  "check_and_init_mutex mutex new w =
     (if mutex_cells w mutex \<le> THR_MUTEX_DESTROYED then InitStatic mutex new w else (0, w))"

text \<open>\<open>mutex_attr ? *mutex_attr : nullptr\<close>, read.\<close>

definition read_mutexattr :: "nat \<Rightarrow> 'a MutexWorld_scheme \<Rightarrow> PthreadMutexAttr option option" where
  "read_mutexattr mutex_attr w =
     (let p = (if mutex_attr = 0 then 0 else mutexattr_cells w mutex_attr)
      in if p = 0 then Some None else map_option Some (mutexattrs w p))"

definition scePthreadMutexInit ::
  "nat \<Rightarrow> nat \<Rightarrow> string option \<Rightarrow> nat option \<Rightarrow> 'a MutexWorld_scheme \<Rightarrow> (s32 \<times> 'a MutexWorld_scheme) option" where
  "scePthreadMutexInit mutex mutex_attr name new w =
     map_option (\<lambda>attr. MutexInit mutex attr name new w) (read_mutexattr mutex_attr w)"

definition posix_pthread_mutex_init ::
  "nat \<Rightarrow> nat \<Rightarrow> nat option \<Rightarrow> 'a MutexWorld_scheme \<Rightarrow> (s32 \<times> 'a MutexWorld_scheme) option" where
  "posix_pthread_mutex_init mutex mutex_attr new w =
     map_option (\<lambda>attr. MutexInit mutex attr None new w) (read_mutexattr mutex_attr w)"

definition posix_pthread_mutex_destroy :: "nat \<Rightarrow> 'a MutexWorld_scheme \<Rightarrow> (s32 \<times> 'a MutexWorld_scheme) option" where
  "posix_pthread_mutex_destroy mutex w =
     (let p = mutex_cells w mutex
      in if p < THR_MUTEX_DESTROYED then Some (0, w)
         else if p = THR_MUTEX_DESTROYED then Some (POSIX_EINVAL, w)
         else do {
           m \<leftarrow> mutexes w p;
           (if m_owner m \<noteq> None then Some (POSIX_EBUSY, w)
            else Some (0, w\<lparr>mutex_cells := (mutex_cells w)(mutex := THR_MUTEX_DESTROYED),
                           mutexes := (mutexes w)(p := None)\<rparr>)) })"

section \<open>Locking\<close>

text \<open>The recursion counter of a mutex that the thread owns.\<close>

definition count_up :: "PthreadMutex \<Rightarrow> (s32 \<times> PthreadMutex) option" where
  "count_up m = (if m_count m = 2147483647 then None
     else if m_count m + 1 > 0 then Some (0, m\<lparr>m_count := m_count m + 1\<rparr>) else Some (POSIX_EAGAIN, m))"

definition SelfTryLock :: "PthreadMutex \<Rightarrow> (s32 \<times> PthreadMutex) option" where
  "SelfTryLock m =
     (if Type m = ErrorCheck \<or> Type m = Normal \<or> Type m = AdaptiveNp then Some (POSIX_EBUSY, m)
      else if Type m = Recursive then count_up m
      else Some (POSIX_EINVAL, m))"

definition bad_nsec :: "int \<Rightarrow> bool" where
  "bad_nsec ns \<longleftrightarrow> ns < 0 \<or> ns \<ge> 1000000000"

text \<open>\<open>DoSleep\<close>: the result after the thread has slept.\<close>

definition DoSleep :: "LockTime \<Rightarrow> s32" where
  "DoSleep abstime = (case abstime of
     AbsTime sec ns \<Rightarrow> if sec < 0 \<or> bad_nsec ns then POSIX_EINVAL else POSIX_ETIMEDOUT
   | _ \<Rightarrow> POSIX_ETIMEDOUT)"

definition SelfLock :: "LockTime \<Rightarrow> PthreadMutex \<Rightarrow> (s32 \<times> PthreadMutex) option" where
  "SelfLock abstime m =
     (if Type m = ErrorCheck \<or> Type m = AdaptiveNp then
        (if abstime \<noteq> NoTime then Some (DoSleep abstime, m) else Some (POSIX_EDEADLK, m))
      else if Type m = Normal then
        (if abstime \<noteq> NoTime then Some (DoSleep abstime, m) else None)
      else if Type m = Recursive then count_up m
      else Some (POSIX_EINVAL, m))"

text \<open>
  Where a thread is in \<open>Lock\<close>: in the loop that spins, with the tries that are left, in the loop that
  yields, or after both.
\<close>

datatype LockState = Spinning s32 | Yielding s32 | Locking
datatype LockOutcome = Returned s32 | Pending LockState

text \<open>\<open>m_lock.try_lock()\<close>, and the assignment of the owner after it.\<close>

definition try_acquire :: "nat \<Rightarrow> PthreadMutex \<Rightarrow> PthreadMutex option" where
  "try_acquire curthread m =
     (if m_lock m = None then Some (m\<lparr>m_lock := Some curthread, m_owner := Some curthread\<rparr>) else None)"

definition acquire_or :: "nat \<Rightarrow> LockState \<Rightarrow> PthreadMutex \<Rightarrow> LockOutcome \<times> PthreadMutex" where
  "acquire_or curthread l m = (case try_acquire curthread m of
     Some m' \<Rightarrow> (Returned 0, m') | None \<Rightarrow> (Pending l, m))"

definition Lock :: "nat \<Rightarrow> LockTime \<Rightarrow> PthreadMutex \<Rightarrow> (LockOutcome \<times> PthreadMutex) option" where
  "Lock curthread abstime m =
     (if m_owner m = Some curthread then map_option (\<lambda>(r, m'). (Returned r, m')) (SelfLock abstime m)
      else Some (Pending (if m_protocol m = ProtNone then Spinning (m_spinloops m) else Locking), m))"

definition bad_abstime :: "LockTime \<Rightarrow> bool" where
  "bad_abstime abstime = (case abstime of AbsTime sec ns \<Rightarrow> bad_nsec ns | _ \<Rightarrow> False)"

fun Lock_step :: "nat \<Rightarrow> LockTime \<Rightarrow> LockState \<Rightarrow> PthreadMutex \<Rightarrow> LockOutcome \<times> PthreadMutex" where
  "Lock_step t abstime (Spinning n) m =
     (if n = 0 then (Pending (Yielding (m_yieldloops m)), m) else acquire_or t (Spinning (n - 1)) m)"
| "Lock_step t abstime (Yielding n) m =
     (if n = 0 then (Pending Locking, m) else acquire_or t (Yielding (n - 1)) m)"
| "Lock_step t abstime Locking m =
     (if bad_abstime abstime then (Returned POSIX_EINVAL, m) else acquire_or t Locking m)"

text \<open>The time of a limited wait is over.\<close>

definition Lock_timeout :: "LockTime \<Rightarrow> LockState \<Rightarrow> s32 option" where
  "Lock_timeout abstime l =
     (if l = Locking \<and> abstime \<noteq> NoTime \<and> \<not> bad_abstime abstime then Some POSIX_ETIMEDOUT else None)"

definition TryLock :: "nat \<Rightarrow> PthreadMutex \<Rightarrow> (s32 \<times> PthreadMutex) option" where
  "TryLock curthread m =
     (if m_owner m = Some curthread then SelfTryLock m
      else Some (case try_acquire curthread m of Some m' \<Rightarrow> (0, m') | None \<Rightarrow> (POSIX_EBUSY, m)))"

text \<open>\<open>Unlock\<close> up to \<open>WakeAll\<close>; the flag says whether that call follows.\<close>

definition Unlock :: "nat \<Rightarrow> bool \<Rightarrow> PthreadMutex \<Rightarrow> ((s32 \<times> bool) \<times> PthreadMutex) option" where
  "Unlock curthread sleeps m =
     (if m_owner m \<noteq> Some curthread then Some ((POSIX_EPERM, False), m)
      else if Type m = Recursive \<and> m_count m > 0 then Some ((0, False), m\<lparr>m_count := m_count m - 1\<rparr>)
      else if m_lock m \<noteq> Some curthread then None
      else Some ((0, \<not> sleeps \<and> m_flags m AND FlagDeferred \<noteq> 0),
             m\<lparr>m_flags := m_flags m AND NOT FlagDeferred, m_owner := None, m_lock := None\<rparr>))"

definition CvUnlock :: "nat \<Rightarrow> bool \<Rightarrow> PthreadMutex \<Rightarrow> ((s32 \<times> s32 \<times> bool) \<times> PthreadMutex) option" where
  "CvUnlock curthread sleeps m =
     map_option (\<lambda>((r, wk), m'). ((r, m_count m, wk), m')) (Unlock curthread sleeps (m\<lparr>m_count := 0\<rparr>))"

definition IsOwned :: "nat \<Rightarrow> nat \<Rightarrow> 'a MutexWorld_scheme \<Rightarrow> s32 option" where
  "IsOwned p curthread w =
     (if p \<le> THR_MUTEX_DESTROYED then Some (if p = THR_MUTEX_DESTROYED then POSIX_EINVAL else POSIX_EPERM)
      else map_option (\<lambda>m. if m_owner m \<noteq> Some curthread then POSIX_EPERM else 0) (mutexes w p))"

section \<open>The calls on a mutex\<close>

text \<open>A call on the object behind the cell, initialised where it is static.  \<open>f\<close> is the method that is called.\<close>

definition on_mutex ::
  "(PthreadMutex \<Rightarrow> ('r \<times> PthreadMutex) option) \<Rightarrow> nat \<Rightarrow> 'a MutexWorld_scheme \<Rightarrow> ('r \<times> 'a MutexWorld_scheme) option"
where
  "on_mutex f p w = do {
     m \<leftarrow> mutexes w p;
     (r, m') \<leftarrow> f m;
     Some (r, w\<lparr>mutexes := (mutexes w)(p \<mapsto> m')\<rparr>) }"

definition with_mutex ::
  "nat \<Rightarrow> nat option \<Rightarrow> (PthreadMutex \<Rightarrow> ('r \<times> PthreadMutex) option) \<Rightarrow> 'a MutexWorld_scheme \<Rightarrow>
     ((s32 + 'r) \<times> 'a MutexWorld_scheme) option" where
  "with_mutex mutex new f w =
     (let (ret, w1) = check_and_init_mutex mutex new w
      in if ret \<noteq> 0 then Some (Inl ret, w1)
         else map_option (\<lambda>(r, w2). (Inr r, w2)) (on_mutex f (mutex_cells w1 mutex) w1))"

definition posix_pthread_mutex_trylock where
  "posix_pthread_mutex_trylock curthread mutex new = with_mutex mutex new (TryLock curthread)"

text \<open>The three calls that lock, up to the point where the thread has to take the host lock.\<close>

definition posix_pthread_mutex_lock where
  "posix_pthread_mutex_lock curthread mutex new = with_mutex mutex new (Lock curthread NoTime)"

definition posix_pthread_mutex_timedlock where
  "posix_pthread_mutex_timedlock curthread mutex sec nsec new =
     with_mutex mutex new (Lock curthread (AbsTime sec nsec))"

definition posix_pthread_mutex_reltimedlock_np where
  "posix_pthread_mutex_reltimedlock_np curthread mutex usec new =
     with_mutex mutex new (Lock curthread (RelTime usec))"

definition posix_pthread_mutex_unlock ::
  "nat \<Rightarrow> nat \<Rightarrow> 'a MutexWorld_scheme \<Rightarrow> ((s32 \<times> bool) \<times> 'a MutexWorld_scheme) option" where
  "posix_pthread_mutex_unlock curthread mutex w =
     (let mp = mutex_cells w mutex
      in if mp \<le> THR_MUTEX_DESTROYED
         then Some ((if mp = THR_MUTEX_DESTROYED then POSIX_EINVAL else POSIX_EPERM, False), w)
         else on_mutex (Unlock curthread (will_sleep (threads w curthread))) mp w)"

text \<open>The result and the value that is read.\<close>

definition posix_pthread_mutex_getspinloops_np where
  "posix_pthread_mutex_getspinloops_np mutex new = with_mutex mutex new (\<lambda>m. Some ((0 :: s32, m_spinloops m), m))"

definition posix_pthread_mutex_setspinloops_np where
  "posix_pthread_mutex_setspinloops_np mutex n new =
     with_mutex mutex new (\<lambda>m. Some (0 :: s32, m\<lparr>m_spinloops := n\<rparr>))"

definition posix_pthread_mutex_getyieldloops_np where
  "posix_pthread_mutex_getyieldloops_np mutex new = with_mutex mutex new (\<lambda>m. Some ((0 :: s32, m_yieldloops m), m))"

definition posix_pthread_mutex_setyieldloops_np where
  "posix_pthread_mutex_setyieldloops_np mutex n new =
     with_mutex mutex new (\<lambda>m. Some (0 :: s32, m\<lparr>m_yieldloops := n\<rparr>))"

definition posix_pthread_mutex_isowned_np :: "nat \<Rightarrow> nat \<Rightarrow> 'a MutexWorld_scheme \<Rightarrow> s32 option" where
  "posix_pthread_mutex_isowned_np curthread mutex w =
     (let p = mutex_cells w mutex
      in if p \<le> THR_MUTEX_DESTROYED then Some 0
         else map_option (\<lambda>m. if m_owner m = Some curthread then 1 else 0) (mutexes w p))"

section \<open>Attributes\<close>

text \<open>
  \<open>attr_at\<close> is the attribute object behind a \<open>PthreadMutexAttrT *\<close>: \<open>Some None\<close> when one of the two
  pointers is null.
\<close>

definition attr_at :: "nat \<Rightarrow> 'a MutexWorld_scheme \<Rightarrow> PthreadMutexAttr option option" where
  "attr_at attr w = (if attr = 0 \<or> mutexattr_cells w attr = 0 then Some None
     else map_option Some (mutexattrs w (mutexattr_cells w attr)))"

definition set_attr :: "nat \<Rightarrow> PthreadMutexAttr \<Rightarrow> 'a MutexWorld_scheme \<Rightarrow> 'a MutexWorld_scheme" where
  "set_attr attr a w = w\<lparr>mutexattrs := (mutexattrs w)(mutexattr_cells w attr \<mapsto> a)\<rparr>"

definition fail_errno :: "nat \<Rightarrow> s32 \<Rightarrow> 'a MutexWorld_scheme \<Rightarrow> s32 \<times> 'a MutexWorld_scheme" where
  "fail_errno t e w = (- 1, w\<lparr>threads := (threads w)(t := (threads w t)\<lparr>thread_errno := e\<rparr>)\<rparr>)"

definition posix_pthread_mutexattr_init ::
  "nat \<Rightarrow> nat option \<Rightarrow> 'a MutexWorld_scheme \<Rightarrow> s32 \<times> 'a MutexWorld_scheme" where
  "posix_pthread_mutexattr_init attr new w = (case new of
     None \<Rightarrow> (POSIX_ENOMEM, w)
   | Some p \<Rightarrow> (0, w\<lparr>mutexattrs := (mutexattrs w)(p \<mapsto> PthreadMutexattrDefault),
                     mutexattr_cells := (mutexattr_cells w)(attr := p)\<rparr>))"

definition posix_pthread_mutexattr_setkind_np ::
  "nat \<Rightarrow> nat \<Rightarrow> u32 \<Rightarrow> 'a MutexWorld_scheme \<Rightarrow> (s32 \<times> 'a MutexWorld_scheme) option" where
  "posix_pthread_mutexattr_setkind_np t attr kind w = do {
     ao \<leftarrow> attr_at attr w;
     Some (case ao of None \<Rightarrow> fail_errno t POSIX_EINVAL w | Some a \<Rightarrow> (0, set_attr attr (a\<lparr>m_type := kind\<rparr>) w)) }"

definition posix_pthread_mutexattr_getkind_np ::
  "nat \<Rightarrow> nat \<Rightarrow> 'a MutexWorld_scheme \<Rightarrow> (s32 \<times> 'a MutexWorld_scheme) option" where
  "posix_pthread_mutexattr_getkind_np t attr w =
     (if attr = 0 then Some (fail_errno t POSIX_EINVAL w)
      else map_option (\<lambda>a. (sint (m_type a), w)) (mutexattrs w attr))"

definition posix_pthread_mutexattr_setprioceiling ::
  "nat \<Rightarrow> s32 \<Rightarrow> 'a MutexWorld_scheme \<Rightarrow> (s32 \<times> 'a MutexWorld_scheme) option" where
  "posix_pthread_mutexattr_setprioceiling attr prioceiling w = do {
     ao \<leftarrow> attr_at attr w;
     Some (case ao of None \<Rightarrow> (POSIX_EINVAL, w) | Some a \<Rightarrow>
       if attr_protocol a \<noteq> ProtProtect \<or> prioceiling > PRIO_HIGHEST \<or> prioceiling < PRIO_LOWEST
       then (POSIX_EINVAL, w) else (0, set_attr attr (a\<lparr>m_ceiling := prioceiling\<rparr>) w)) }"

definition posix_pthread_mutexattr_getprioceiling ::
  "nat \<Rightarrow> 'a MutexWorld_scheme \<Rightarrow> (s32 \<times> s32 option) option" where
  "posix_pthread_mutexattr_getprioceiling attr w = do {
     ao \<leftarrow> attr_at attr w;
     Some (case ao of None \<Rightarrow> (POSIX_EINVAL, None) | Some a \<Rightarrow>
       if attr_protocol a \<noteq> ProtProtect then (POSIX_EINVAL, None) else (0, Some (m_ceiling a))) }"

definition posix_pthread_mutexattr_setprotocol ::
  "nat \<Rightarrow> u32 \<Rightarrow> 'a MutexWorld_scheme \<Rightarrow> (s32 \<times> 'a MutexWorld_scheme) option" where
  "posix_pthread_mutexattr_setprotocol mattr protocol w = do {
     ao \<leftarrow> attr_at mattr w;
     Some (case ao of None \<Rightarrow> (POSIX_EINVAL, w) | Some a \<Rightarrow>
       if protocol < ProtNone \<or> protocol > ProtProtect then (POSIX_EINVAL, w)
       else (0, set_attr mattr (a\<lparr>attr_protocol := protocol, m_ceiling := PRIO_HIGHEST\<rparr>) w)) }"

definition posix_pthread_mutexattr_getprotocol ::
  "nat \<Rightarrow> 'a MutexWorld_scheme \<Rightarrow> (s32 \<times> u32 option) option" where
  "posix_pthread_mutexattr_getprotocol mattr w = do {
     ao \<leftarrow> attr_at mattr w;
     Some (case ao of None \<Rightarrow> (POSIX_EINVAL, None) | Some a \<Rightarrow> (0, Some (attr_protocol a))) }"

definition posix_pthread_mutexattr_setpshared ::
  "nat \<Rightarrow> s32 \<Rightarrow> 'a MutexWorld_scheme \<Rightarrow> s32" where
  "posix_pthread_mutexattr_setpshared attr pshared w =
     (if attr = 0 \<or> mutexattr_cells w attr = 0 \<or> pshared \<noteq> 0 then POSIX_EINVAL else 0)"

definition posix_pthread_mutexattr_getpshared ::
  "nat \<Rightarrow> 'a MutexWorld_scheme \<Rightarrow> s32 \<times> s32 option" where
  "posix_pthread_mutexattr_getpshared attr w =
     (if attr = 0 \<or> mutexattr_cells w attr = 0 then (POSIX_EINVAL, None) else (0, Some 0))"

definition posix_pthread_mutexattr_settype ::
  "nat \<Rightarrow> u32 \<Rightarrow> 'a MutexWorld_scheme \<Rightarrow> (s32 \<times> 'a MutexWorld_scheme) option" where
  "posix_pthread_mutexattr_settype attr type w = do {
     ao \<leftarrow> attr_at attr w;
     Some (case ao of None \<Rightarrow> (POSIX_EINVAL, w) | Some a \<Rightarrow>
       if type < ErrorCheck \<or> type \<ge> TypeMax then (POSIX_EINVAL, w)
       else (0, set_attr attr (a\<lparr>m_type := type\<rparr>) w)) }"

definition posix_pthread_mutexattr_gettype ::
  "nat \<Rightarrow> 'a MutexWorld_scheme \<Rightarrow> (s32 \<times> u32 option) option" where
  "posix_pthread_mutexattr_gettype attr w = do {
     ao \<leftarrow> attr_at attr w;
     Some (case ao of None \<Rightarrow> (POSIX_EINVAL, None) | Some a \<Rightarrow>
       if m_type a \<ge> TypeMax then (POSIX_EINVAL, None) else (0, Some (m_type a))) }"

definition posix_pthread_mutexattr_destroy ::
  "nat \<Rightarrow> 'a MutexWorld_scheme \<Rightarrow> (s32 \<times> 'a MutexWorld_scheme) option" where
  "posix_pthread_mutexattr_destroy attr w = do {
     ao \<leftarrow> attr_at attr w;
     Some (case ao of None \<Rightarrow> (POSIX_EINVAL, w) | Some a \<Rightarrow>
       (0, w\<lparr>mutexattrs := (mutexattrs w)(mutexattr_cells w attr := None),
             mutexattr_cells := (mutexattr_cells w)(attr := 0)\<rparr>)) }"

section \<open>Threads that share a mutex\<close>

text \<open>
  The calls of any number of threads on one mutex, step by step.  \<open>ws\<close> has the threads that are in
  \<open>Lock\<close>.  An event is a call that succeeds; the flag that a signal defers to the unlock, and the loop
  counts, change at any time.
\<close>

datatype MutexEvent = Locked nat | Unlocked nat | Quiet

definition lock_event :: "nat \<Rightarrow> s32 \<Rightarrow> MutexEvent" where
  "lock_event t r = (if r = 0 then Locked t else Quiet)"

type_synonym MutexSystem = "PthreadMutex \<times> (nat \<Rightarrow> (LockTime \<times> LockState) option)"

inductive mutex_step :: "MutexSystem \<Rightarrow> MutexEvent \<Rightarrow> MutexSystem \<Rightarrow> bool" where
  lock: "ws t = None \<Longrightarrow> Lock t tm m = Some (Returned r, m') \<Longrightarrow> mutex_step (m, ws) (lock_event t r) (m', ws)"
| enter: "ws t = None \<Longrightarrow> Lock t tm m = Some (Pending l, m') \<Longrightarrow> mutex_step (m, ws) Quiet (m', ws(t \<mapsto> (tm, l)))"
| finish: "ws t = Some (tm, l) \<Longrightarrow> Lock_step t tm l m = (Returned r, m') \<Longrightarrow>
     mutex_step (m, ws) (lock_event t r) (m', ws(t := None))"
| retry: "ws t = Some (tm, l) \<Longrightarrow> Lock_step t tm l m = (Pending l', m') \<Longrightarrow>
     mutex_step (m, ws) Quiet (m', ws(t \<mapsto> (tm, l')))"
| expire: "ws t = Some (tm, l) \<Longrightarrow> Lock_timeout tm l = Some r \<Longrightarrow>
     mutex_step (m, ws) (lock_event t r) (m, ws(t := None))"
| tries: "ws t = None \<Longrightarrow> TryLock t m = Some (r, m') \<Longrightarrow> mutex_step (m, ws) (lock_event t r) (m', ws)"
| unlock: "ws t = None \<Longrightarrow> Unlock t sl m = Some ((r, wk), m') \<Longrightarrow>
     mutex_step (m, ws) (if r = 0 then Unlocked t else Quiet) (m', ws)"
| deferred: "mutex_step (m, ws) Quiet (m\<lparr>m_flags := m_flags m OR FlagDeferred\<rparr>, ws)"
| loops: "mutex_step (m, ws) Quiet (m\<lparr>m_spinloops := a, m_yieldloops := b\<rparr>, ws)"

inductive mutex_run :: "MutexSystem \<Rightarrow> MutexEvent list \<Rightarrow> MutexSystem \<Rightarrow> bool" where
  start: "mutex_run s [] s"
| more: "mutex_run s es s' \<Longrightarrow> mutex_step s' e s'' \<Longrightarrow> mutex_run s (es @ [e]) s''"

text \<open>How often a thread has locked the mutex more than it has unlocked it.\<close>

definition lock_depth :: "nat \<Rightarrow> MutexEvent list \<Rightarrow> int" where
  "lock_depth t es = int (count_list es (Locked t)) - int (count_list es (Unlocked t))"

lemma lock_depth_simps [simp]:
  "lock_depth t [] = 0"
  "lock_depth t (es @ [Quiet]) = lock_depth t es"
  "lock_depth t (es @ [Locked u]) = lock_depth t es + (if t = u then 1 else 0)"
  "lock_depth t (es @ [Unlocked u]) = lock_depth t es - (if t = u then 1 else 0)"
  by (auto simp: lock_depth_def)

text \<open>
  The abstract mutex: its owner and the depth.  The invariant says what the fields of the object mean in
  these terms.
\<close>

definition owns :: "nat option \<Rightarrow> int \<Rightarrow> (nat \<Rightarrow> int) \<Rightarrow> bool" where
  "owns ow n d \<longleftrightarrow> (case ow of None \<Rightarrow> d = (\<lambda>_. 0) | Some t \<Rightarrow> n > 0 \<and> d = (\<lambda>_. 0)(t := n))"

definition mutex_inv :: "u32 \<Rightarrow> PthreadMutex \<Rightarrow> (nat \<Rightarrow> int) \<Rightarrow> bool" where
  "mutex_inv ty m d \<longleftrightarrow> Type m = ty \<and> m_lock m = m_owner m \<and> 0 \<le> m_count m \<and>
     (ty \<noteq> Recursive \<or> m_owner m = None \<longrightarrow> m_count m = 0) \<and> owns (m_owner m) (m_count m + 1) d"

lemma Type_simps [simp]:
  "Type (m\<lparr>m_owner := ow\<rparr>) = Type m" "Type (m\<lparr>m_lock := lk\<rparr>) = Type m" "Type (m\<lparr>m_count := n\<rparr>) = Type m"
  "Type (m\<lparr>m_spinloops := n\<rparr>) = Type m" "Type (m\<lparr>m_yieldloops := n\<rparr>) = Type m"
  by (simp_all add: Type_def)

lemma Type_deferred [simp]:
  "Type (m\<lparr>m_flags := m_flags m OR FlagDeferred\<rparr>) = Type m"
  "Type (m\<lparr>m_flags := m_flags m AND NOT FlagDeferred\<rparr>) = Type m"
  "Type (m\<lparr>m_flags := m_flags m AND - 513\<rparr>) = Type m"
proof -
  have z: "(0x200 :: u32) AND 0xff = 0" "NOT (0x200 :: u32) AND 0xff = 0xff" "NOT (0x200 :: u32) = - 513"
    by simp_all
  show "Type (m\<lparr>m_flags := m_flags m OR FlagDeferred\<rparr>) = Type m"
    by (simp add: Type_def z(1) bit.conj_disj_distrib2)
  have c: "(f AND - 513) AND 0xff = f AND (0xff :: u32)" for f
    unfolding z(3) [symmetric] and.assoc z(2) by (rule refl)
  show "Type (m\<lparr>m_flags := m_flags m AND NOT FlagDeferred\<rparr>) = Type m"
    "Type (m\<lparr>m_flags := m_flags m AND - 513\<rparr>) = Type m"
    by (simp_all add: Type_def c)
qed

fun depth_after :: "MutexEvent \<Rightarrow> (nat \<Rightarrow> int) \<Rightarrow> nat \<Rightarrow> int" where
  "depth_after Quiet d = d"
| "depth_after (Locked t) d = d(t := d t + 1)"
| "depth_after (Unlocked t) d = d(t := d t - 1)"

lemma lock_depth_after: "(\<lambda>t. lock_depth t (es @ [e])) = depth_after e (\<lambda>t. lock_depth t es)"
  by (cases e) (auto simp: fun_eq_iff)

lemma mutex_inv_acquire:
  assumes "mutex_inv ty m d" "try_acquire t m = Some m'"
  shows "mutex_inv ty m' (d(t := d t + 1))"
  using assms by (auto simp: mutex_inv_def try_acquire_def owns_def split: if_splits)

lemma mutex_inv_count_up:
  assumes "mutex_inv ty m d" "m_owner m = Some t" "ty = Recursive" "count_up m = Some (r, m')"
  shows "mutex_inv ty m' (depth_after (lock_event t r) d)" "r = 0"
  using assms by (auto simp: mutex_inv_def count_up_def owns_def lock_event_def split: if_splits)

lemma mutex_inv_SelfTryLock:
  assumes "mutex_inv ty m d" "m_owner m = Some t" "SelfTryLock m = Some (r, m')"
  shows "mutex_inv ty m' (depth_after (lock_event t r) d)"
  using assms mutex_inv_count_up [OF assms(1,2)]
  by (auto simp: SelfTryLock_def lock_event_def mutex_inv_def split: if_splits)

lemma DoSleep_error: "DoSleep tm \<noteq> 0"
  by (auto simp: DoSleep_def split: LockTime.splits)

lemma mutex_inv_SelfLock:
  assumes "mutex_inv ty m d" "m_owner m = Some t" "SelfLock tm m = Some (r, m')"
  shows "mutex_inv ty m' (depth_after (lock_event t r) d)"
  using assms mutex_inv_count_up [OF assms(1,2)] DoSleep_error [of tm]
  by (auto simp: SelfLock_def lock_event_def mutex_inv_def split: if_splits)

lemma mutex_inv_Lock:
  assumes "mutex_inv ty m d" "Lock t tm m = Some (out, m')"
  shows "case out of Returned r \<Rightarrow> mutex_inv ty m' (depth_after (lock_event t r) d) | Pending l \<Rightarrow> m' = m"
  using assms mutex_inv_SelfLock [OF assms(1)] by (auto simp: Lock_def split: if_splits)

lemma acquire_or_cases:
  assumes "acquire_or t l m = (out, m')"
  obtains "out = Returned 0" "try_acquire t m = Some m'" | "out = Pending l" "m' = m" "m_lock m \<noteq> None"
  using assms by (auto simp: acquire_or_def try_acquire_def split: option.splits if_splits)

lemma Lock_step_cases:
  assumes "Lock_step t tm l m = (out, m')"
  obtains "out = Returned 0" "try_acquire t m = Some m'"
  | r where "out = Returned r" "r \<noteq> 0" "m' = m"
  | l' where "out = Pending l'" "m' = m"
  using assms by (cases l; auto split: if_splits elim!: acquire_or_cases)

lemma mutex_inv_Lock_step:
  assumes "mutex_inv ty m d" "Lock_step t tm l m = (out, m')"
  shows "case out of Returned r \<Rightarrow> mutex_inv ty m' (depth_after (lock_event t r) d) | Pending l \<Rightarrow> m' = m"
  using assms(2) by (rule Lock_step_cases) (use assms(1) mutex_inv_acquire in \<open>auto simp: lock_event_def\<close>)

lemma mutex_inv_TryLock:
  assumes "mutex_inv ty m d" "TryLock t m = Some (r, m')"
  shows "mutex_inv ty m' (depth_after (lock_event t r) d)"
  using assms mutex_inv_SelfTryLock [OF assms(1)] mutex_inv_acquire [OF assms(1)]
  by (auto simp: TryLock_def lock_event_def split: if_splits option.splits)

lemma mutex_inv_Unlock:
  assumes inv: "mutex_inv ty m d" and u: "Unlock t sl m = Some ((r, wk), m')"
  shows "mutex_inv ty m' (depth_after (if r = 0 then Unlocked t else Quiet) d)"
proof (cases "m_owner m = Some t")
  case True
  with inv have d: "d = (\<lambda>_. 0)(t := m_count m + 1)" "m_lock m = Some t" "0 \<le> m_count m"
    "ty \<noteq> Recursive \<longrightarrow> m_count m = 0" "Type m = ty"
    by (auto simp: mutex_inv_def owns_def)
  then show ?thesis using u True by (auto simp: Unlock_def mutex_inv_def owns_def split: if_splits)
next
  case False
  then show ?thesis using u inv by (auto simp: Unlock_def)
qed

lemma mutex_step_inv:
  assumes "mutex_step s e s'" "mutex_inv ty (fst s) d"
  shows "mutex_inv ty (fst s') (depth_after e d)"
  using assms
proof (cases rule: mutex_step.cases)
  case (lock ws t tm m r m')
  then show ?thesis using mutex_inv_Lock [of ty m d t tm] assms(2) by simp
next
  case (enter ws t tm m l m')
  then show ?thesis using mutex_inv_Lock [of ty m d t tm] assms(2) by fastforce
next
  case (finish ws t tm l m r m')
  then show ?thesis using mutex_inv_Lock_step [of ty m d t tm l] assms(2) by fastforce
next
  case (retry ws t tm l m l' m')
  then show ?thesis using mutex_inv_Lock_step [of ty m d t tm l] assms(2) by fastforce
next
  case (expire ws t tm l r m)
  then show ?thesis using assms(2) by (auto simp: Lock_timeout_def lock_event_def split: if_splits)
next
  case (tries ws t m r m')
  then show ?thesis using mutex_inv_TryLock assms(2) by simp
next
  case (unlock ws t m sl r wk m')
  then show ?thesis using mutex_inv_Unlock assms(2) by fastforce
qed (use assms(2) in \<open>simp_all add: mutex_inv_def\<close>)

lemma mutex_run_inv:
  assumes "mutex_run s es s'" "mutex_inv ty (fst s) (\<lambda>_. 0)"
  shows "mutex_inv ty (fst s') (\<lambda>t. lock_depth t es)"
  using assms
proof induction
  case (more s es s' e s'')
  then show ?case using mutex_step_inv by (simp add: lock_depth_after)
qed simp

lemma mutex_type_cases:
  assumes "ErrorCheck \<le> ty" "ty < TypeMax"
  obtains "ty = ErrorCheck" | "ty = Recursive" | "ty = Normal" | "ty = AdaptiveNp"
proof -
  have "unat ty \<in> {1, 2, 3, 4}" using assms by (auto simp: word_le_nat_alt word_less_nat_alt)
  moreover have "ty = of_nat (unat ty)" by simp
  ultimately have "ty = 1 \<or> ty = 2 \<or> ty = 3 \<or> ty = 4" by (elim insertE) (metis of_nat_1 of_nat_numeral | simp)+
  with that show thesis by blast
qed

lemma construct_mutex_inv:
  assumes "ErrorCheck \<le> m_type a" "m_type a < TypeMax"
  shows "mutex_inv (m_type a) (construct_PthreadMutex a nm) (\<lambda>_. 0)"
  using assms by (rule mutex_type_cases) (auto simp: mutex_inv_def construct_PthreadMutex_def Type_def owns_def)

text \<open>
  C9. A mutex that was created with a valid type belongs to at most one thread, whatever calls however
  many threads have made on it and however their steps were interleaved: the thread that has locked it
  more often than it has unlocked it is its owner, the depth is the recursion count plus one, and it is
  above one for recursive mutexes only.
\<close>

theorem mutex_ownership:
  assumes "mutex_run (construct_PthreadMutex a nm, \<lambda>_. None) es (m, ws)"
    and "ErrorCheck \<le> m_type a" "m_type a < TypeMax"
  shows "(m_owner m = Some t \<longleftrightarrow> lock_depth t es > 0) \<and> 0 \<le> lock_depth t es \<and>
    (lock_depth t es > 0 \<and> lock_depth u es > 0 \<longrightarrow> t = u) \<and>
    (m_owner m = Some t \<longrightarrow> lock_depth t es = m_count m + 1) \<and>
    (m_type a \<noteq> Recursive \<longrightarrow> lock_depth t es \<le> 1)"
proof -
  have "mutex_inv (m_type a) m (\<lambda>t. lock_depth t es)"
    using mutex_run_inv [OF assms(1)] construct_mutex_inv [OF assms(2,3)] by simp
  then have o: "owns (m_owner m) (m_count m + 1) (\<lambda>t. lock_depth t es)" "0 \<le> m_count m"
    "m_type a \<noteq> Recursive \<or> m_owner m = None \<longrightarrow> m_count m = 0"
    by (auto simp: mutex_inv_def)
  show ?thesis
  proof (cases "m_owner m")
    case None
    with o(1) have "lock_depth v es = 0" for v by (simp add: owns_def fun_eq_iff)
    with None show ?thesis by simp
  next
    case (Some v)
    with o(1) have "lock_depth x es = (if x = v then m_count m + 1 else 0)" for x
      by (simp add: owns_def fun_eq_iff)
    with Some o(2,3) show ?thesis by auto
  qed
qed

definition example_mutex :: PthreadMutex where
  "example_mutex = construct_PthreadMutex \<lparr>m_type = Recursive, attr_protocol = ProtNone, m_ceiling = 0\<rparr> ''m''"

text \<open>Thread 1 locks twice and unlocks once while thread 2 waits.\<close>

lemma example_mutex_run:
  "mutex_run (example_mutex, \<lambda>_. None) [Locked 1, Quiet, Locked 1, Unlocked 1]
     (example_mutex\<lparr>m_owner := Some 1, m_lock := Some 1\<rparr>, (\<lambda>_. None)(2 \<mapsto> (NoTime, Spinning 0)))"
proof -
  let ?m = "example_mutex\<lparr>m_owner := Some 1, m_lock := Some 1\<rparr>" and ?w = "(\<lambda>_. None)(2 \<mapsto> (NoTime, Spinning 0))"
  note defs = example_mutex_def construct_PthreadMutex_def
  have 1: "mutex_step (example_mutex, \<lambda>_. None) (Locked 1) (?m, \<lambda>_. None)"
    using mutex_step.tries [of "\<lambda>_. None" 1 example_mutex 0 ?m]
    by (simp add: TryLock_def try_acquire_def lock_event_def defs)
  have 2: "mutex_step (?m, \<lambda>_. None) Quiet (?m, ?w)"
    using mutex_step.enter [of "\<lambda>_. None" 2 NoTime ?m "Spinning 0" ?m] by (simp add: Lock_def defs)
  have 3: "mutex_step (?m, ?w) (Locked 1) (?m\<lparr>m_count := 1\<rparr>, ?w)"
    using mutex_step.lock [of ?w 1 NoTime ?m 0 "?m\<lparr>m_count := 1\<rparr>"]
    by (simp add: Type_def Lock_def SelfLock_def count_up_def lock_event_def defs)
  have 4: "mutex_step (?m\<lparr>m_count := 1\<rparr>, ?w) (Unlocked 1) (?m, ?w)"
    using mutex_step.unlock [of ?w 1 False "?m\<lparr>m_count := 1\<rparr>" 0 False ?m]
    by (simp add: Type_def Unlock_def defs)
  show ?thesis
    using mutex_run.more [OF mutex_run.more [OF mutex_run.more [OF mutex_run.more [OF mutex_run.start 1] 2] 3] 4]
    by simp
qed

theorem mutex_ownership_witness:
  "\<exists>m ws es. mutex_run (example_mutex, \<lambda>_. None) es (m, ws) \<and> length es = 4 \<and> ws 2 \<noteq> None \<and>
    m_owner m = Some 1 \<and> lock_depth 1 es = m_count m + 1 \<and> lock_depth 2 es = 0"
proof -
  let ?m = "example_mutex\<lparr>m_owner := Some 1, m_lock := Some 1\<rparr>"
  note run = example_mutex_run
  have o: "m_owner ?m = Some 1 \<longrightarrow> lock_depth 1 [Locked 1, Quiet, Locked 1, Unlocked 1] = m_count ?m + 1"
    "(m_owner ?m = Some 2 \<longleftrightarrow> lock_depth 2 [Locked 1, Quiet, Locked 1, Unlocked 1] > 0) \<and>
     0 \<le> lock_depth 2 [Locked 1, Quiet, Locked 1, Unlocked 1]"
    using mutex_ownership [OF run [unfolded example_mutex_def], of 1 2]
      mutex_ownership [OF run [unfolded example_mutex_def], of 2 1] by (simp_all add: example_mutex_def)
  then have "lock_depth 1 [Locked 1, Quiet, Locked 1, Unlocked 1] = m_count ?m + 1"
    "lock_depth 2 [Locked 1, Quiet, Locked 1, Unlocked 1] = 0" by (simp, force)
  then show ?thesis using run by (intro exI [of _ ?m] exI [of _ "(\<lambda>_. None)(2 \<mapsto> (NoTime, Spinning 0))"]
      exI [of _ "[Locked 1, Quiet, Locked 1, Unlocked 1]"]) simp
qed

section \<open>The abstract mutex\<close>

text \<open>A mutex is free, or has an owner and a depth.\<close>

definition abs_mutex :: "PthreadMutex \<Rightarrow> (nat \<times> int) option" where
  "abs_mutex m = map_option (\<lambda>t. (t, m_count m + 1)) (m_owner m)"

text \<open>A recursive mutex has a depth of at most \<open>2 ^ 31\<close>; one more overflows the counter.\<close>

definition spec_deeper :: "nat \<Rightarrow> int \<Rightarrow> (s32 \<times> (nat \<times> int) option) option" where
  "spec_deeper t n = (if n = 2147483648 then None else Some (0, Some (t, n + 1)))"

definition spec_try :: "u32 \<Rightarrow> nat \<Rightarrow> (nat \<times> int) option \<Rightarrow> (s32 \<times> (nat \<times> int) option) option" where
  "spec_try ty t a = (case a of None \<Rightarrow> Some (0, Some (t, 1))
     | Some (u, n) \<Rightarrow> if u = t \<and> ty = Recursive then spec_deeper t n else Some (POSIX_EBUSY, a))"

definition spec_unlock :: "nat \<Rightarrow> (nat \<times> int) option \<Rightarrow> s32 \<times> (nat \<times> int) option" where
  "spec_unlock t a = (case a of None \<Rightarrow> (POSIX_EPERM, a)
     | Some (u, n) \<Rightarrow> if u \<noteq> t then (POSIX_EPERM, a) else (0, if n = 1 then None else Some (u, n - 1)))"

text \<open>
  A lock by a thread that owns the mutex; \<open>None\<close> is the deadlock of a normal mutex.  With a time the
  thread sleeps until then, unless the time is not valid.
\<close>

definition spec_self_lock :: "u32 \<Rightarrow> LockTime \<Rightarrow> nat \<times> int \<Rightarrow> (s32 \<times> (nat \<times> int) option) option" where
  "spec_self_lock ty tm a = (case a of (t, n) \<Rightarrow>
     if ty = Recursive then spec_deeper t n
     else case tm of
       NoTime \<Rightarrow> if ty = Normal then None else Some (POSIX_EDEADLK, Some a)
     | AbsTime sec ns \<Rightarrow> Some (if sec < 0 \<or> ns < 0 \<or> ns \<ge> 1000000000 then POSIX_EINVAL else POSIX_ETIMEDOUT, Some a)
     | RelTime usec \<Rightarrow> Some (POSIX_ETIMEDOUT, Some a))"

text \<open>
  One step of a thread that waits in \<open>Lock\<close>: a time that is not valid is found when the loops are over;
  otherwise a step that tries gets the mutex exactly when it is free, and every other step goes on waiting.
\<close>

definition spec_invalid :: "LockTime \<Rightarrow> LockState \<Rightarrow> bool" where
  "spec_invalid tm l \<longleftrightarrow> l = Locking \<and> (\<exists>sec ns. tm = AbsTime sec ns \<and> (ns < 0 \<or> ns \<ge> 1000000000))"

definition spec_wait_step ::
  "nat \<Rightarrow> LockTime \<Rightarrow> LockState \<Rightarrow> (nat \<times> int) option \<Rightarrow> LockOutcome \<times> (nat \<times> int) option \<Rightarrow> bool" where
  "spec_wait_step t tm l a out \<longleftrightarrow>
     (if spec_invalid tm l then out = (Returned POSIX_EINVAL, a)
      else if a = None \<and> l \<noteq> Spinning 0 \<and> l \<noteq> Yielding 0 then out = (Returned 0, Some (t, 1))
      else \<exists>l'. out = (Pending l', a))"

definition mutex_wf :: "PthreadMutex \<Rightarrow> bool" where
  "mutex_wf m \<longleftrightarrow> ErrorCheck \<le> Type m \<and> Type m < TypeMax \<and> m_lock m = m_owner m \<and> 0 \<le> m_count m \<and>
     (Type m \<noteq> Recursive \<or> m_owner m = None \<longrightarrow> m_count m = 0)"

lemma mutex_inv_wf: "mutex_inv ty m d \<Longrightarrow> ErrorCheck \<le> ty \<Longrightarrow> ty < TypeMax \<Longrightarrow> mutex_wf m"
  by (auto simp: mutex_inv_def mutex_wf_def)

lemma count_up_spec:
  assumes "m_owner m = Some t" "0 \<le> m_count m"
  shows "map_option (\<lambda>(r, m'). (r, abs_mutex m')) (count_up m) = spec_deeper t (m_count m + 1)"
  using assms by (auto simp: count_up_def abs_mutex_def spec_deeper_def)

lemma TryLock_refines:
  assumes "mutex_wf m"
  shows "map_option (\<lambda>(r, m'). (r, abs_mutex m')) (TryLock t m) = spec_try (Type m) t (abs_mutex m)"
proof -
  have ty: "ErrorCheck \<le> Type m" "Type m < TypeMax" using assms(1) by (auto simp: mutex_wf_def)
  consider "m_owner m = None" | "m_owner m = Some t" | u where "m_owner m = Some u" "u \<noteq> t"
    by (cases "m_owner m") auto
  then show ?thesis
  proof cases
    case 1
    with assms show ?thesis by (auto simp: TryLock_def try_acquire_def spec_try_def abs_mutex_def mutex_wf_def)
  next
    case 2
    from ty have "Type m = Recursive \<or> (Type m = ErrorCheck \<or> Type m = Normal \<or> Type m = AdaptiveNp)"
      by (rule mutex_type_cases) simp_all
    then show ?thesis
    proof
      assume "Type m = Recursive"
      with count_up_spec [OF 2] assms(1) 2 show ?thesis
        by (auto simp: TryLock_def SelfTryLock_def spec_try_def abs_mutex_def mutex_wf_def)
    qed (use 2 in \<open>auto simp: TryLock_def SelfTryLock_def spec_try_def abs_mutex_def\<close>)
  next
    case 3
    with assms show ?thesis by (auto simp: TryLock_def try_acquire_def spec_try_def abs_mutex_def mutex_wf_def)
  qed
qed

lemma Unlock_refines:
  assumes "mutex_wf m"
  shows "map_option (\<lambda>((r, wk), m'). (r, abs_mutex m')) (Unlock t sl m) = Some (spec_unlock t (abs_mutex m))"
  using assms by (cases "m_owner m") (auto simp: Unlock_def spec_unlock_def abs_mutex_def mutex_wf_def)

lemma Lock_self_refines:
  assumes "mutex_wf m" "m_owner m = Some t"
  shows "map_option (\<lambda>(out, m'). (out, abs_mutex m')) (Lock t tm m) =
    map_option (\<lambda>(r, a). (Returned r, a)) (spec_self_lock (Type m) tm (t, m_count m + 1))"
proof -
  have "ErrorCheck \<le> Type m" "Type m < TypeMax" using assms(1) by (auto simp: mutex_wf_def)
  moreover have "map_option (\<lambda>(out, m'). (out, abs_mutex m')) (map_option (\<lambda>(r, m'). (Returned r, m')) (count_up m)) =
      map_option (\<lambda>(r, a). (Returned r, a)) (spec_deeper t (m_count m + 1))"
    using count_up_spec [OF assms(2)] assms(1)
    by (cases "count_up m") (auto simp: mutex_wf_def spec_deeper_def split: if_splits)
  ultimately show ?thesis
    by (cases tm; elim mutex_type_cases)
      (use assms in \<open>auto simp: Lock_def SelfLock_def spec_self_lock_def abs_mutex_def mutex_wf_def
         DoSleep_def bad_nsec_def\<close>)
qed

lemma bad_abstime_invalid: "l = Locking \<and> bad_abstime tm \<longleftrightarrow> spec_invalid tm l"
  by (cases tm) (auto simp: bad_abstime_def bad_nsec_def spec_invalid_def)

lemma Lock_other_refines:
  assumes "mutex_wf m" "m_owner m \<noteq> Some t"
  shows "(\<exists>l. Lock t tm m = Some (Pending l, m)) \<and>
    (\<forall>l. spec_wait_step t tm l (abs_mutex m) (map_prod id abs_mutex (Lock_step t tm l m)))"
proof (intro conjI allI)
  show "\<exists>l. Lock t tm m = Some (Pending l, m)" using assms by (auto simp: Lock_def)
  fix l
  show "spec_wait_step t tm l (abs_mutex m) (map_prod id abs_mutex (Lock_step t tm l m))"
    using assms bad_abstime_invalid [of l tm]
    by (cases l) (auto simp: spec_wait_step_def acquire_or_def try_acquire_def abs_mutex_def mutex_wf_def)
qed

text \<open>
  C10. On every mutex of a valid type that the calls can reach, \<open>TryLock\<close>, \<open>Unlock\<close> and \<open>Lock\<close> act as on the
  abstract mutex: which call succeeds, with which error it fails, where it does not return (a normal mutex
  locked again by its owner, the overflow of the recursion counter) and what it leaves depends on the
  owner, the depth, the type and the time alone.  A thread that does not own the mutex waits in \<open>Lock\<close>; in
  every step there it gets the mutex exactly when it tries and the mutex is free, fails with \<open>EINVAL\<close>
  exactly when it comes to its time and that is not valid, and goes on waiting otherwise; the end of a
  valid time gives \<open>ETIMEDOUT\<close>.
\<close>

theorem mutex_refines_abstract:
  assumes "mutex_run (construct_PthreadMutex a nm, \<lambda>_. None) es (m, ws)"
    and "ErrorCheck \<le> m_type a" "m_type a < TypeMax"
  shows "map_option (\<lambda>(r, m'). (r, abs_mutex m')) (TryLock t m) = spec_try (m_type a) t (abs_mutex m) \<and>
    map_option (\<lambda>((r, wk), m'). (r, abs_mutex m')) (Unlock t sl m) = Some (spec_unlock t (abs_mutex m)) \<and>
    (if \<exists>n. abs_mutex m = Some (t, n)
     then map_option (\<lambda>(out, m'). (out, abs_mutex m')) (Lock t tm m) =
             map_option (\<lambda>(r, a). (Returned r, a)) (spec_self_lock (m_type a) tm (the (abs_mutex m)))
     else (\<exists>l. Lock t tm m = Some (Pending l, m)) \<and>
       (\<forall>l. spec_wait_step t tm l (abs_mutex m) (map_prod id abs_mutex (Lock_step t tm l m)) \<and>
         Lock_timeout tm l = (if l = Locking \<and> tm \<noteq> NoTime \<and> \<not> spec_invalid tm l then Some POSIX_ETIMEDOUT else None)))"
proof -
  have inv: "mutex_inv (m_type a) m (\<lambda>t. lock_depth t es)"
    using mutex_run_inv [OF assms(1)] construct_mutex_inv [OF assms(2,3)] by simp
  then have ty: "Type m = m_type a" by (simp add: mutex_inv_def)
  have wf: "mutex_wf m" by (rule mutex_inv_wf [OF inv assms(2,3)])
  note R = TryLock_refines [OF wf, of t, unfolded ty] Unlock_refines [OF wf, of t sl]
  have tmo: "Lock_timeout tm l = (if l = Locking \<and> tm \<noteq> NoTime \<and> \<not> spec_invalid tm l then Some POSIX_ETIMEDOUT else None)"
    for l using bad_abstime_invalid [of l tm] by (auto simp: Lock_timeout_def)
  show ?thesis
  proof (cases "m_owner m = Some t")
    case True
    then have "abs_mutex m = Some (t, m_count m + 1)" by (simp add: abs_mutex_def)
    then show ?thesis using R Lock_self_refines [OF wf True, of tm, unfolded ty] by simp
  next
    case False
    then have no: "\<not> (\<exists>n. abs_mutex m = Some (t, n))" by (auto simp: abs_mutex_def)
    show ?thesis unfolding if_not_P [OF no] using R Lock_other_refines [OF wf False, of tm] tmo by blast
  qed
qed

theorem mutex_refines_abstract_witness:
  "\<exists>es ws. mutex_run (example_mutex, \<lambda>_. None) es (example_mutex\<lparr>m_owner := Some 1, m_lock := Some 1\<rparr>, ws) \<and>
   Unlock 2 False (example_mutex\<lparr>m_owner := Some 1, m_lock := Some 1\<rparr>) =
     Some ((POSIX_EPERM, False), example_mutex\<lparr>m_owner := Some 1, m_lock := Some 1\<rparr>) \<and>
   map_option (\<lambda>(r, m'). (r, abs_mutex m')) (TryLock 1 (example_mutex\<lparr>m_owner := Some 1, m_lock := Some 1\<rparr>)) =
     Some (0, Some (1, 2))"
proof -
  have "map_option (\<lambda>(r, m'). (r, abs_mutex m')) (TryLock 1 (example_mutex\<lparr>m_owner := Some 1, m_lock := Some 1\<rparr>)) =
     Some (0, Some (1, 2))"
    using mutex_refines_abstract [OF example_mutex_run [unfolded example_mutex_def], of 1 False NoTime]
    by (simp add: spec_try_def spec_deeper_def abs_mutex_def example_mutex_def construct_PthreadMutex_def)
  moreover have "Unlock 2 False (example_mutex\<lparr>m_owner := Some 1, m_lock := Some 1\<rparr>) =
     Some ((POSIX_EPERM, False), example_mutex\<lparr>m_owner := Some 1, m_lock := Some 1\<rparr>)"
    by (simp add: Unlock_def)
  ultimately show ?thesis using example_mutex_run by blast
qed

end
