(* ===== verification/Sleepq.thy ===== *)
theory Sleepq
  imports Pthread_Mutex
begin

text \<open>
  The sleep queues of \<open>src/src/core/libraries/kernel/threads/sleepq.cpp\<close>: which threads wait on which
  channel.

  Queue objects are lent by the threads: a thread that does not wait owns one.  The first thread that
  waits on a channel puts its object into the hash table, and the objects of the others are kept in the
  free list of that object, to be handed out again.  The table refines a map from channels to lists of
  threads, which is what the condition variables rely on.
\<close>

section \<open>Data\<close>

record SleepQueue =
  sq_blocked :: "nat list"
  sq_freeq :: "nat list"
  sq_wchan :: nat

record SleepWorld = MutexWorld +
  sqs :: "nat \<Rightarrow> SleepQueue"
  sc_table :: "nat \<Rightarrow> nat list"

definition SC_HASH :: "nat \<Rightarrow> nat" where
  "SC_HASH wc = unat ((drop_bit 3 (of_nat wc :: 64 word) XOR drop_bit 12 (of_nat wc)) AND 511)"

definition set_thread :: "nat \<Rightarrow> Pthread \<Rightarrow> 'a SleepWorld_scheme \<Rightarrow> 'a SleepWorld_scheme" where
  "set_thread t td w = w\<lparr>threads := (threads w)(t := td)\<rparr>"

definition set_sq :: "nat \<Rightarrow> SleepQueue \<Rightarrow> 'a SleepWorld_scheme \<Rightarrow> 'a SleepWorld_scheme" where
  "set_sq q sq w = w\<lparr>sqs := (sqs w)(q := sq)\<rparr>"

section \<open>The operations\<close>

definition SleepqLookup :: "nat \<Rightarrow> 'a SleepWorld_scheme \<Rightarrow> nat option" where
  "SleepqLookup wc w = find (\<lambda>q. sq_wchan (sqs w q) = wc) (sc_table w (SC_HASH wc))"

text \<open>An object leaves the list it is linked in.\<close>

definition unlink :: "nat \<Rightarrow> 'a SleepWorld_scheme \<Rightarrow> 'a SleepWorld_scheme" where
  "unlink q w = w\<lparr>sc_table := \<lambda>h. removeAll q (sc_table w h)\<rparr>"

text \<open>A thread that has no object, and an empty free list where an object is taken, have no result.\<close>

definition SleepqAdd :: "nat \<Rightarrow> nat \<Rightarrow> 'a SleepWorld_scheme \<Rightarrow> 'a SleepWorld_scheme option" where
  "SleepqAdd wc t w = do {
     own \<leftarrow> sleepqueue (threads w t);
     let (q, w1) = (case SleepqLookup wc w of
           Some q \<Rightarrow> (q, set_sq q ((sqs w q)\<lparr>sq_freeq := own # sq_freeq (sqs w q)\<rparr>) w)
         | None \<Rightarrow> (own, set_sq own ((sqs w own)\<lparr>sq_wchan := wc\<rparr>)
                     (w\<lparr>sc_table := (sc_table w)(SC_HASH wc := own # sc_table w (SC_HASH wc))\<rparr>)));
     let w2 = set_thread t ((threads w1 t)\<lparr>sleepqueue := None, wchan := Some wc\<rparr>) w1;
     Some (set_sq q ((sqs w2 q)\<lparr>sq_blocked := t # sq_blocked (sqs w2 q)\<rparr>) w2) }"

definition lend :: "nat \<Rightarrow> nat \<Rightarrow> 'a SleepWorld_scheme \<Rightarrow> 'a SleepWorld_scheme" where
  "lend t q w = set_thread t ((threads w t)\<lparr>sleepqueue := Some q, wchan := None\<rparr>) w"

definition SleepqRemove :: "nat \<Rightarrow> nat \<Rightarrow> 'a SleepWorld_scheme \<Rightarrow> (bool \<times> 'a SleepWorld_scheme) option" where
  "SleepqRemove q t w =
     (let w1 = set_sq q ((sqs w q)\<lparr>sq_blocked := removeAll t (sq_blocked (sqs w q))\<rparr>) w
      in if sq_blocked (sqs w1 q) = []
         then Some (False, unlink q (lend t q w1))
         else (case sq_freeq (sqs w1 q) of
             [] \<Rightarrow> None
           | f # fs \<Rightarrow> Some (True, lend t f
                         (set_sq q ((sqs w1 q)\<lparr>sq_freeq := fs\<rparr>) w1))))"

text \<open>
  \<open>SleepqDrop\<close>: the callback for the first thread comes before the thread gets the object, as in the
  code.  The callback carries its argument, which it may change; \<open>drop_rest\<close> is the loop over the other
  threads, which walks the free list alongside.
\<close>

fun drop_rest ::
  "(nat \<Rightarrow> 'b \<times> 'a SleepWorld_scheme \<Rightarrow> ('b \<times> 'a SleepWorld_scheme) option) \<Rightarrow> nat list \<Rightarrow> nat list \<Rightarrow>
     'b \<times> 'a SleepWorld_scheme \<Rightarrow> ('b \<times> 'a SleepWorld_scheme) option" where
  "drop_rest cb [] fs s = Some s"
| "drop_rest cb (t # ts) [] s = None"
| "drop_rest cb (t # ts) (f # fs) s = do {
     (arg, w) \<leftarrow> cb t s;
     drop_rest cb ts fs (arg, lend t f w) }"

definition SleepqDrop ::
  "nat \<Rightarrow> (nat \<Rightarrow> 'b \<times> 'a SleepWorld_scheme \<Rightarrow> ('b \<times> 'a SleepWorld_scheme) option) \<Rightarrow>
     'b \<times> 'a SleepWorld_scheme \<Rightarrow> ('b \<times> 'a SleepWorld_scheme) option" where
  "SleepqDrop q cb s = (case s of (arg, w) \<Rightarrow> case sq_blocked (sqs w q) of
     [] \<Rightarrow> Some s
   | t # ts \<Rightarrow> do {
       (arg1, w1) \<leftarrow> cb t (arg, set_sq q ((sqs w q)\<lparr>sq_blocked := ts\<rparr>) (unlink q w));
       (arg2, w2) \<leftarrow> drop_rest cb ts (sq_freeq (sqs w1 q)) (arg1, lend t q w1);
       Some (arg2, set_sq q ((sqs w2 q)\<lparr>sq_blocked := [], sq_freeq := []\<rparr>) w2) })"

section \<open>The invariant\<close>

text \<open>
  In terms of the linked objects \<open>L\<close>, their channels, threads and free lists, and of the object and
  channel of each thread: channels have one object; a linked object has a spare for each thread but one;
  a thread waits on the channel whose object lists it, and owns an object when it does not wait; no
  object is in two places.
\<close>

definition sq_ok ::
  "nat set \<Rightarrow> (nat \<Rightarrow> nat) \<Rightarrow> (nat \<Rightarrow> nat list) \<Rightarrow> (nat \<Rightarrow> nat list) \<Rightarrow> (nat \<Rightarrow> nat option) \<Rightarrow> (nat \<Rightarrow> nat option) \<Rightarrow> bool"
where
  "sq_ok L W B F S C \<longleftrightarrow> inj_on W L \<and>
     (\<forall>q. q \<in> L \<longrightarrow> length (B q) = Suc (length (F q))) \<and>
     (\<forall>q. distinct (B q)) \<and> (\<forall>q. distinct (F q)) \<and>
     (\<forall>q. q \<notin> L \<longrightarrow> B q = []) \<and> (\<forall>q. q \<notin> L \<longrightarrow> F q = []) \<and>
     (\<forall>q t. q \<in> L \<longrightarrow> t \<in> set (B q) \<longrightarrow> C t = Some (W q)) \<and>
     (\<forall>t c. C t = Some c \<longrightarrow> (\<exists>q. q \<in> L \<and> W q = c \<and> t \<in> set (B q))) \<and>
     (\<forall>t. S t = None \<longleftrightarrow> C t \<noteq> None) \<and>
     (\<forall>t u q. S t = Some q \<longrightarrow> S u = Some q \<longrightarrow> t = u) \<and>
     (\<forall>t q. S t = Some q \<longrightarrow> q \<notin> L) \<and> (\<forall>t q p. S t = Some q \<longrightarrow> q \<notin> set (F p)) \<and>
     (\<forall>p q. q \<in> set (F p) \<longrightarrow> q \<notin> L) \<and>
     (\<forall>p p' q. q \<in> set (F p) \<longrightarrow> q \<in> set (F p') \<longrightarrow> p = p')"

lemma sq_okI:
  assumes "inj_on W L" "\<And>q. q \<in> L \<Longrightarrow> length (B q) = Suc (length (F q))"
    "\<And>q. distinct (B q)" "\<And>q. distinct (F q)" "\<And>q. q \<notin> L \<Longrightarrow> B q = []" "\<And>q. q \<notin> L \<Longrightarrow> F q = []"
    "\<And>q t. q \<in> L \<Longrightarrow> t \<in> set (B q) \<Longrightarrow> C t = Some (W q)"
    "\<And>t c. C t = Some c \<Longrightarrow> \<exists>q. q \<in> L \<and> W q = c \<and> t \<in> set (B q)"
    "\<And>t. S t = None \<longleftrightarrow> C t \<noteq> None" "\<And>t u q. S t = Some q \<Longrightarrow> S u = Some q \<Longrightarrow> t = u"
    "\<And>t q. S t = Some q \<Longrightarrow> q \<notin> L" "\<And>t q p. S t = Some q \<Longrightarrow> q \<notin> set (F p)"
    "\<And>p q. q \<in> set (F p) \<Longrightarrow> q \<notin> L" "\<And>p p' q. q \<in> set (F p) \<Longrightarrow> q \<in> set (F p') \<Longrightarrow> p = p'"
  shows "sq_ok L W B F S C"
  unfolding sq_ok_def by (intro conjI allI impI) (rule assms; assumption)+

lemma sq_okD:
  assumes "sq_ok L W B F S C"
  shows "inj_on W L" "q \<in> L \<Longrightarrow> length (B q) = Suc (length (F q))" "distinct (B q)" "distinct (F q)"
    "q \<notin> L \<Longrightarrow> B q = []" "q \<notin> L \<Longrightarrow> F q = []"
    "q \<in> L \<Longrightarrow> t \<in> set (B q) \<Longrightarrow> C t = Some (W q)"
    "C t = Some c \<Longrightarrow> \<exists>q. q \<in> L \<and> W q = c \<and> t \<in> set (B q)"
    "S t = None \<longleftrightarrow> C t \<noteq> None" "S t = Some q \<Longrightarrow> S u = Some q \<Longrightarrow> t = u"
    "S t = Some q \<Longrightarrow> q \<notin> L" "S t = Some q \<Longrightarrow> q \<notin> set (F p)" "q \<in> set (F p) \<Longrightarrow> q \<notin> L"
    "q \<in> set (F p) \<Longrightarrow> q \<in> set (F p') \<Longrightarrow> p = p'"
proof -
  note k = assms [unfolded sq_ok_def]
  show "inj_on W L" by (rule k [THEN conjunct1])
  show "q \<in> L \<Longrightarrow> length (B q) = Suc (length (F q))" by (rule k [THEN conjunct2, THEN conjunct1, rule_format])
  show "distinct (B q)" by (rule k [THEN conjunct2, THEN conjunct2, THEN conjunct1, rule_format])
  show "distinct (F q)" by (rule k [THEN conjunct2, THEN conjunct2, THEN conjunct2, THEN conjunct1, rule_format])
  show "q \<notin> L \<Longrightarrow> B q = []" by (rule k [THEN conjunct2, THEN conjunct2, THEN conjunct2, THEN conjunct2, THEN conjunct1, rule_format])
  show "q \<notin> L \<Longrightarrow> F q = []" by (rule k [THEN conjunct2, THEN conjunct2, THEN conjunct2, THEN conjunct2, THEN conjunct2, THEN conjunct1, rule_format])
  show "q \<in> L \<Longrightarrow> t \<in> set (B q) \<Longrightarrow> C t = Some (W q)" by (rule k [THEN conjunct2, THEN conjunct2, THEN conjunct2, THEN conjunct2, THEN conjunct2, THEN conjunct2, THEN conjunct1, rule_format])
  show "C t = Some c \<Longrightarrow> \<exists>q. q \<in> L \<and> W q = c \<and> t \<in> set (B q)" by (rule k [THEN conjunct2, THEN conjunct2, THEN conjunct2, THEN conjunct2, THEN conjunct2, THEN conjunct2, THEN conjunct2, THEN conjunct1, rule_format])
  show "S t = None \<longleftrightarrow> C t \<noteq> None" by (rule k [THEN conjunct2, THEN conjunct2, THEN conjunct2, THEN conjunct2, THEN conjunct2, THEN conjunct2, THEN conjunct2, THEN conjunct2, THEN conjunct1, rule_format])
  show "S t = Some q \<Longrightarrow> S u = Some q \<Longrightarrow> t = u" by (rule k [THEN conjunct2, THEN conjunct2, THEN conjunct2, THEN conjunct2, THEN conjunct2, THEN conjunct2, THEN conjunct2, THEN conjunct2, THEN conjunct2, THEN conjunct1, rule_format])
  show "S t = Some q \<Longrightarrow> q \<notin> L" by (rule k [THEN conjunct2, THEN conjunct2, THEN conjunct2, THEN conjunct2, THEN conjunct2, THEN conjunct2, THEN conjunct2, THEN conjunct2, THEN conjunct2, THEN conjunct2, THEN conjunct1, rule_format])
  show "S t = Some q \<Longrightarrow> q \<notin> set (F p)" by (rule k [THEN conjunct2, THEN conjunct2, THEN conjunct2, THEN conjunct2, THEN conjunct2, THEN conjunct2, THEN conjunct2, THEN conjunct2, THEN conjunct2, THEN conjunct2, THEN conjunct2, THEN conjunct1, rule_format])
  show "q \<in> set (F p) \<Longrightarrow> q \<notin> L" by (rule k [THEN conjunct2, THEN conjunct2, THEN conjunct2, THEN conjunct2, THEN conjunct2, THEN conjunct2, THEN conjunct2, THEN conjunct2, THEN conjunct2, THEN conjunct2, THEN conjunct2, THEN conjunct2, THEN conjunct1, rule_format])
  show "q \<in> set (F p) \<Longrightarrow> q \<in> set (F p') \<Longrightarrow> p = p'" by (rule k [THEN conjunct2, THEN conjunct2, THEN conjunct2, THEN conjunct2, THEN conjunct2, THEN conjunct2, THEN conjunct2, THEN conjunct2, THEN conjunct2, THEN conjunct2, THEN conjunct2, THEN conjunct2, THEN conjunct2, rule_format])
qed

lemma sq_ok_member:
  assumes "sq_ok L W B F S C" "t \<in> set (B p)"
  shows "p \<in> L" "C t = Some (W p)" "q \<in> L \<Longrightarrow> C t = Some (W q) \<longleftrightarrow> p = q" "t \<in> set (B q) \<Longrightarrow> p = q"
proof -
  note D = sq_okD [OF assms(1)]
  show p: "p \<in> L" using D(5) [of p] assms(2) by fastforce
  then show c: "C t = Some (W p)" using D(7) assms(2) by blast
  then show i: "C t = Some (W q) \<longleftrightarrow> p = q" if "q \<in> L" for q using inj_onD [OF D(1) _ p that] by auto
  show "t \<in> set (B q) \<Longrightarrow> p = q" using D(5,7) [of q] i by fastforce
qed

lemma sq_ok_add_new:
  assumes ok: "sq_ok L W B F S C" and t: "S t = Some q" and c: "c \<notin> W ` L"
  shows "sq_ok (insert q L) (W(q := c)) (B(q := [t])) F (S(t := None)) (C(t \<mapsto> c))"
proof -
  note D = sq_okD [OF ok]
  have q: "q \<notin> L" "F q = []" "\<And>p. q \<notin> set (F p)" using D(11,12) [OF t] D(6) by blast+
  have nt: "C t = None" using D(9) [of t] t by auto
  have tb: "t \<notin> set (B p)" for p using sq_ok_member(2) [OF ok, of t p] nt by auto
  show ?thesis
  proof (rule sq_okI, goal_cases)
    case 1 show ?case using D(1) q(1) c by (auto simp: inj_on_def)
  next
    case (2 p) then show ?case using D(2) q by auto
  next
    case (3 p) then show ?case using D(3) by auto
  next
    case (4 p) show ?case by (rule D(4))
  next
    case (5 p) then show ?case using D(5) by auto
  next
    case (6 p) then show ?case using D(6) by auto
  next
    case (7 p u) then show ?case using D(7) q tb by (auto split: if_splits)
  next
    case (8 u d)
    show ?case
    proof (cases "u = t")
      case True then show ?thesis using 8 by (intro exI [of _ q]) simp
    next
      case False
      then obtain p where "p \<in> L" "W p = d" "u \<in> set (B p)" using 8 D(8) by auto
      then show ?thesis using q by (intro exI [of _ p]) auto
    qed
  next
    case (9 u) then show ?case using D(9) by simp
  next
    case (10 u v p) then show ?case using D(10) by (simp split: if_splits)
  next
    case (11 u p) then show ?case using D(10) [OF _ t] D(11) by (auto split: if_splits)
  next
    case (12 u p r) then show ?case using D(12) by (simp split: if_splits)
  next
    case (13 p r) then show ?case using D(13) q by auto
  next
    case (14 p r x) then show ?case using D(14) by blast
  qed
qed

lemma sq_ok_add_old:
  assumes ok: "sq_ok L W B F S C" and t: "S t = Some x" and q: "q \<in> L"
  shows "sq_ok L W (B(q := t # B q)) (F(q := x # F q)) (S(t := None)) (C(t \<mapsto> W q))"
proof -
  note D = sq_okD [OF ok]
  have x: "x \<notin> L" "\<And>p. x \<notin> set (F p)" using D(11,12) [OF t] by blast+
  have nt: "C t = None" using D(9) [of t] t by auto
  have tb: "t \<notin> set (B p)" for p using sq_ok_member(2) [OF ok, of t p] nt by auto
  show ?thesis
  proof (rule sq_okI, goal_cases)
    case 1 show ?case by (rule D(1))
  next
    case (2 p) then show ?case using D(2) by auto
  next
    case (3 p) then show ?case using D(3) tb by auto
  next
    case (4 p) show ?case using D(4) x by auto
  next
    case (5 p) then show ?case using D(5) q by auto
  next
    case (6 p) then show ?case using D(6) q by auto
  next
    case (7 p u) then show ?case using D(7) q tb by (auto split: if_splits)
  next
    case (8 u d)
    show ?case
    proof (cases "u = t")
      case True then show ?thesis using 8 q by (intro exI [of _ q]) simp
    next
      case False
      then obtain p where "p \<in> L" "W p = d" "u \<in> set (B p)" using 8 D(8) by auto
      then show ?thesis by (intro exI [of _ p]) auto
    qed
  next
    case (9 u) then show ?case using D(9) by simp
  next
    case (10 u v p) then show ?case using D(10) by (simp split: if_splits)
  next
    case (11 u p) then show ?case using D(11) by (simp split: if_splits)
  next
    case (12 u p r) then show ?case using D(12) D(10) [OF _ t] by (auto split: if_splits)
  next
    case (13 p r) then show ?case using D(13) x by (auto split: if_splits)
  next
    case (14 p r y) then show ?case using D(14) x by (auto split: if_splits)
  qed
qed

text \<open>
  Threads \<open>T\<close> of the object \<open>q\<close> leave it and get the objects \<open>g\<close>: \<open>q\<close> itself when nobody is left, and
  objects of its free list.
\<close>

lemma sq_ok_leave:
  assumes ok: "sq_ok L W B F S C" and q: "q \<in> L" and T: "T \<subseteq> set (B q)"
    and B': "distinct B'" "set B' = set (B q) - T" and F': "distinct F'" "set F' \<subseteq> set (F q)"
    and len: "if B' = [] then F' = [] else length B' = Suc (length F')"
    and g: "inj_on g T" "\<And>t. t \<in> T \<Longrightarrow> g t \<in> set (F q) - set F' \<or> B' = [] \<and> g t = q"
  shows "sq_ok (if B' = [] then L - {q} else L) W (B(q := B')) (F(q := F'))
    (\<lambda>t. if t \<in> T then Some (g t) else S t) (\<lambda>t. if t \<in> T then None else C t)"
proof -
  note D = sq_okD [OF ok]
  have TC: "C t = Some (W q)" if "t \<in> T" for t using D(7) [OF q] T that by blast
  then have TS: "S t = None" if "t \<in> T" for t using D(9) [of t] that by auto
  have gF: "g t \<notin> set (F p)" if "t \<in> T" "p \<noteq> q" for t p
    using g(2) [OF that(1)] D(14) [of "g t" q p] that(2) D(13) [of "g t" p] q by auto
  have gS: "S u \<noteq> Some (g t)" if "t \<in> T" for t u using g(2) [OF that] D(11,12) [of u "g t"] q by auto
  show ?thesis
  proof (rule sq_okI, goal_cases)
    case 1 show ?case using D(1) by (auto intro: inj_on_subset)
  next
    case (2 p) then show ?case using D(2) len by (auto split: if_splits)
  next
    case (3 p) then show ?case using D(3) B'(1) by simp
  next
    case (4 p) show ?case using D(4) F'(1) by simp
  next
    case (5 p) then show ?case using D(5) q by (auto split: if_splits)
  next
    case (6 p) then show ?case using D(6) len q by (auto split: if_splits)
  next
    case (7 p u)
    then have p: "p \<in> L" "u \<in> set (B p)" using B'(2) by (auto split: if_splits)
    then have "u \<notin> T" using sq_ok_member(4) [OF ok p(2), of q] T 7(2) B'(2) by (auto split: if_splits)
    with p show ?case using D(7) by simp
  next
    case (8 u d)
    then have u: "u \<notin> T" "C u = Some d" by (auto split: if_splits)
    then obtain p where p: "p \<in> L" "W p = d" "u \<in> set (B p)" using D(8) by auto
    with u(1) B'(2) have "u \<in> set ((B(q := B')) p)" by auto
    moreover have "p = q \<Longrightarrow> B' \<noteq> []" using p(3) u(1) B'(2) by auto
    ultimately show ?case using p by (intro exI [of _ p]) auto
  next
    case (9 u) then show ?case using D(9) by simp
  next
    case (10 u v p) then show ?case using D(10) gS inj_onD [OF g(1)] by (auto split: if_splits)
  next
    case (11 u p) then show ?case using D(11) [of u p] D(13) [of p q] g(2) [of u] by (auto split: if_splits)
  next
    case (12 u p r) then show ?case using D(12) F'(2) gF g(2) D(13) q by (fastforce split: if_splits)
  next
    case (13 p r) then show ?case using D(13) F'(2) by (auto split: if_splits)
  next
    case (14 p r y) then show ?case using D(14) F'(2) by (auto split: if_splits)
  qed
qed

lemma arg_cong6:
  "\<lbrakk>a = a'; b = b'; c = c'; d = d'; e = e'; g = g'\<rbrakk> \<Longrightarrow> f a b c d e g = f a' b' c' d' e' g'"
  by simp

section \<open>The table as a map\<close>

definition linked :: "'a SleepWorld_scheme \<Rightarrow> nat set" where
  "linked w = {q. q \<in> set (sc_table w (SC_HASH (sq_wchan (sqs w q))))}"

definition sq_wf :: "'a SleepWorld_scheme \<Rightarrow> bool" where
  "sq_wf w \<longleftrightarrow> (\<forall>h q. q \<in> set (sc_table w h) \<longrightarrow> SC_HASH (sq_wchan (sqs w q)) = h) \<and>
     sq_ok (linked w) (\<lambda>q. sq_wchan (sqs w q)) (\<lambda>q. sq_blocked (sqs w q)) (\<lambda>q. sq_freeq (sqs w q))
       (\<lambda>t. sleepqueue (threads w t)) (\<lambda>t. wchan (threads w t))"

text \<open>The abstraction: the threads that wait on a channel, the last one first.\<close>

definition waiting :: "'a SleepWorld_scheme \<Rightarrow> nat \<Rightarrow> nat list" where
  "waiting w wc = (case SleepqLookup wc w of None \<Rightarrow> [] | Some q \<Rightarrow> sq_blocked (sqs w q))"

lemma sq_wf_parts:
  assumes "sq_wf w"
  shows "q \<in> set (sc_table w h) \<Longrightarrow> SC_HASH (sq_wchan (sqs w q)) = h"
    "sq_ok (linked w) (\<lambda>q. sq_wchan (sqs w q)) (\<lambda>q. sq_blocked (sqs w q)) (\<lambda>q. sq_freeq (sqs w q))
       (\<lambda>t. sleepqueue (threads w t)) (\<lambda>t. wchan (threads w t))"
  using assms by (simp_all add: sq_wf_def)

lemma sq_wfI:
  assumes "sq_ok L W B F S C" "linked w = L" "\<And>h q. q \<in> set (sc_table w h) \<Longrightarrow> SC_HASH (sq_wchan (sqs w q)) = h"
    "\<And>q. sq_wchan (sqs w q) = W q" "\<And>q. sq_blocked (sqs w q) = B q" "\<And>q. sq_freeq (sqs w q) = F q"
    "\<And>t. sleepqueue (threads w t) = S t" "\<And>t. wchan (threads w t) = C t"
  shows "sq_wf w"
  using assms by (simp add: sq_wf_def)

lemma SleepqLookup_iff:
  assumes "sq_wf w"
  shows "SleepqLookup wc w = Some q \<longleftrightarrow> q \<in> linked w \<and> sq_wchan (sqs w q) = wc"
proof -
  note inj = sq_okD(1) [OF sq_wf_parts(2) [OF assms]]
  have f: "q \<in> linked w \<and> sq_wchan (sqs w q) = wc" if "SleepqLookup wc w = Some q" for q
    using that by (auto simp: SleepqLookup_def linked_def find_Some_iff)
  show ?thesis
  proof
    assume q: "q \<in> linked w \<and> sq_wchan (sqs w q) = wc"
    then have "SleepqLookup wc w \<noteq> None" by (auto simp: SleepqLookup_def linked_def find_None_iff)
    then obtain p where p: "SleepqLookup wc w = Some p" by auto
    then have "p = q" using inj_onD [OF inj, of p q] f [OF p] q by simp
    with p show "SleepqLookup wc w = Some q" by simp
  qed (rule f)
qed

lemma waiting_linked:
  assumes "sq_wf w" "q \<in> linked w"
  shows "waiting w (sq_wchan (sqs w q)) = sq_blocked (sqs w q)"
  using SleepqLookup_iff [OF assms(1), of "sq_wchan (sqs w q)" q] assms(2) by (simp add: waiting_def)

lemma waiting_none:
  assumes "sq_wf w" "\<And>q. q \<in> linked w \<Longrightarrow> sq_wchan (sqs w q) \<noteq> wc"
  shows "waiting w wc = []"
  using SleepqLookup_iff [OF assms(1), of wc] assms(2) by (auto simp: waiting_def split: option.split)

lemma linked_blocked: "sq_wf w \<Longrightarrow> q \<in> linked w \<Longrightarrow> sq_blocked (sqs w q) \<noteq> []"
  using sq_okD(2) [OF sq_wf_parts(2)] by fastforce

text \<open>One object changes, the one of the channel \<open>wc\<close>.\<close>

lemma waiting_updated:
  assumes wf: "sq_wf w" "sq_wf w'" and q: "q \<in> linked w \<Longrightarrow> sq_wchan (sqs w q) = wc"
    "q \<notin> linked w \<Longrightarrow> waiting w wc = []"
    and p: "\<And>p. p \<noteq> q \<Longrightarrow> (p \<in> linked w' \<longleftrightarrow> p \<in> linked w) \<and> sqs w' p = sqs w p"
    and q': "if q \<in> linked w' then sq_wchan (sqs w' q) = wc \<and> sq_blocked (sqs w' q) = bs else bs = []"
  shows "waiting w' = (waiting w)(wc := bs)"
proof
  fix d
  show "waiting w' d = ((waiting w)(wc := bs)) d"
  proof (cases "d = wc")
    case False
    have "SleepqLookup d w' = Some r \<longleftrightarrow> SleepqLookup d w = Some r" for r
      unfolding SleepqLookup_iff [OF wf(1)] SleepqLookup_iff [OF wf(2)]
      using p [of r] q(1) q' False by (cases "r = q") (auto split: if_splits)
    then have "SleepqLookup d w' = SleepqLookup d w" by (metis option.exhaust)
    moreover have "r \<noteq> q" if "SleepqLookup d w = Some r" for r
      using that SleepqLookup_iff [OF wf(1)] q(1) False by auto
    ultimately show ?thesis using p False by (auto simp: waiting_def split: option.split)
  next
    case True
    show ?thesis
    proof (cases "q \<in> linked w'")
      case t: True
      with q' have "sq_wchan (sqs w' q) = wc" "sq_blocked (sqs w' q) = bs" by simp_all
      with waiting_linked [OF wf(2) t] True show ?thesis by simp
    next
      case f: False
      have "sq_wchan (sqs w' r) \<noteq> wc" if r: "r \<in> linked w'" for r
      proof
        assume c: "sq_wchan (sqs w' r) = wc"
        from r f have "r \<noteq> q" by auto
        with r c p have r: "r \<in> linked w" "sq_wchan (sqs w r) = wc" by auto
        with q(1) inj_onD [OF sq_okD(1) [OF sq_wf_parts(2) [OF wf(1)]], of r q] \<open>r \<noteq> q\<close> have "q \<notin> linked w" by auto
        then have "waiting w wc = []" by (rule q(2))
        with waiting_linked [OF wf(1) r(1)] linked_blocked [OF wf(1) r(1)] r(2) show False by simp
      qed
      then have "waiting w' wc = []" by (rule waiting_none [OF wf(2)])
      then show ?thesis using q' f True by simp
    qed
  qed
qed

text \<open>A thread waits on at most one channel, and is listed there once.\<close>

lemma waiting_wchan:
  assumes "sq_wf w"
  shows "t \<in> set (waiting w wc) \<longleftrightarrow> wchan (threads w t) = Some wc" "distinct (waiting w wc)"
proof -
  note D = sq_okD [OF sq_wf_parts(2) [OF assms]]
  show "t \<in> set (waiting w wc) \<longleftrightarrow> wchan (threads w t) = Some wc"
  proof
    assume "t \<in> set (waiting w wc)"
    then obtain q where "SleepqLookup wc w = Some q" "t \<in> set (sq_blocked (sqs w q))"
      by (cases "SleepqLookup wc w") (auto simp: waiting_def)
    then show "wchan (threads w t) = Some wc" using D(7) SleepqLookup_iff [OF assms] by auto
  next
    assume "wchan (threads w t) = Some wc"
    then obtain q where "q \<in> linked w" "sq_wchan (sqs w q) = wc" "t \<in> set (sq_blocked (sqs w q))" using D(8) by blast
    then show "t \<in> set (waiting w wc)" using waiting_linked [OF assms] by auto
  qed
  show "distinct (waiting w wc)" using D(3) by (auto simp: waiting_def split: option.split)
qed

lemma SleepqLookup_waiting:
  assumes "sq_wf w"
  shows "SleepqLookup wc w = None \<longleftrightarrow> waiting w wc = []"
proof (cases "SleepqLookup wc w")
  case (Some q)
  then have q: "q \<in> linked w" "sq_wchan (sqs w q) = wc" using SleepqLookup_iff [OF assms] by auto
  with Some linked_blocked [OF assms] show ?thesis by (simp add: waiting_def)
qed (simp add: waiting_def)

section \<open>The operations on the map\<close>

lemma SleepqAdd_refines:
  assumes wf: "sq_wf w" and t: "wchan (threads w t) = None"
  shows "\<exists>w'. SleepqAdd wc t w = Some w' \<and> sq_wf w' \<and> waiting w' = (waiting w)(wc := t # waiting w wc) \<and>
    threads w' = (threads w)(t := (threads w t)\<lparr>sleepqueue := None, wchan := Some wc\<rparr>) \<and>
    mutexes w' = mutexes w"
proof -
  note P = sq_wf_parts [OF wf]
  note D = sq_okD [OF P(2)]
  obtain x where x: "sleepqueue (threads w t) = Some x" using D(9) t by fastforce
  have xl: "x \<notin> linked w" "sq_blocked (sqs w x) = []" using D(5,11) x by blast+
  have xt: "x \<notin> set (sc_table w h)" for h using P(1) [of x h] xl(1) by (auto simp: linked_def)
  show ?thesis
  proof (cases "SleepqLookup wc w")
    case None
    let ?w = "w\<lparr>sc_table := (sc_table w)(SC_HASH wc := x # sc_table w (SC_HASH wc)),
      sqs := (sqs w)(x := (sqs w x)\<lparr>sq_wchan := wc, sq_blocked := [t]\<rparr>),
      threads := (threads w)(t := (threads w t)\<lparr>sleepqueue := None, wchan := Some wc\<rparr>)\<rparr>"
    have e: "SleepqAdd wc t w = Some ?w"
      using x None xl(2) by (simp add: SleepqAdd_def set_sq_def set_thread_def Let_def)
    have L: "linked ?w = insert x (linked w)" using xt by (auto simp: linked_def)
    have c: "wc \<notin> (\<lambda>q. sq_wchan (sqs w q)) ` linked w" using None SleepqLookup_iff [OF wf, of wc] by auto
    have K: "sq_ok (insert x (linked w)) ((\<lambda>q. sq_wchan (sqs w q))(x := wc)) ((\<lambda>q. sq_blocked (sqs w q))(x := [t]))
      (\<lambda>q. sq_freeq (sqs w q)) ((\<lambda>t. sleepqueue (threads w t))(t := None)) ((\<lambda>t. wchan (threads w t))(t \<mapsto> wc))"
      by (rule sq_ok_add_new [OF P(2) x c])
    have ok: "sq_wf ?w"
      by (rule sq_wfI [OF K L]) (use P(1) xt in \<open>auto split: if_splits\<close>)
    have wn: "waiting w wc = []" using None by (simp add: waiting_def)
    have "waiting ?w = (waiting w)(wc := [t])"
      by (rule waiting_updated [OF wf ok, where q = x]) (use xl wn L in auto)
    with e ok wn show ?thesis by simp
  next
    case (Some q)
    then have q: "q \<in> linked w" "sq_wchan (sqs w q) = wc" using SleepqLookup_iff [OF wf] by auto
    let ?w = "w\<lparr>sqs := (sqs w)(q := (sqs w q)\<lparr>sq_freeq := x # sq_freeq (sqs w q), sq_blocked := t # sq_blocked (sqs w q)\<rparr>),
      threads := (threads w)(t := (threads w t)\<lparr>sleepqueue := None, wchan := Some wc\<rparr>)\<rparr>"
    have e: "SleepqAdd wc t w = Some ?w"
      using x Some by (simp add: SleepqAdd_def set_sq_def set_thread_def Let_def)
    have L: "linked ?w = linked w" by (auto simp: linked_def)
    have K: "sq_ok (linked w) (\<lambda>q. sq_wchan (sqs w q)) ((\<lambda>q. sq_blocked (sqs w q))(q := t # sq_blocked (sqs w q)))
      ((\<lambda>q. sq_freeq (sqs w q))(q := x # sq_freeq (sqs w q))) ((\<lambda>t. sleepqueue (threads w t))(t := None))
      ((\<lambda>t. wchan (threads w t))(t \<mapsto> sq_wchan (sqs w q)))"
      by (rule sq_ok_add_old [OF P(2) x q(1)])
    have ok: "sq_wf ?w"
      by (rule sq_wfI [OF K L]) (use P(1) q in auto)
    have wq: "waiting w wc = sq_blocked (sqs w q)" using Some by (simp add: waiting_def)
    have "waiting ?w = (waiting w)(wc := t # sq_blocked (sqs w q))"
      by (rule waiting_updated [OF wf ok, where q = q]) (use q L in auto)
    with e ok wq show ?thesis by simp
  qed
qed

lemma linked_unlink [simp]: "linked (unlink q w) = linked w - {q}"
  by (auto simp: linked_def unlink_def)

lemma lend_simps [simp]:
  "sleepqueue (threads (lend t f w) u) = (if u = t then Some f else sleepqueue (threads w u))"
  "wchan (threads (lend t f w) u) = (if u = t then None else wchan (threads w u))"
  "sqs (lend t f w) = sqs w" "sc_table (lend t f w) = sc_table w" "mutexes (lend t f w) = mutexes w"
  by (simp_all add: lend_def set_thread_def)

lemma linked_lend [simp]: "linked (lend t f w) = linked w"
  by (simp add: linked_def lend_def set_thread_def)

lemma linked_set_sq [simp]: "sq_wchan sq = sq_wchan (sqs w q) \<Longrightarrow> linked (set_sq q sq w) = linked w"
  by (auto simp: linked_def set_sq_def)

lemma length_removeAll_distinct: "distinct xs \<Longrightarrow> t \<in> set xs \<Longrightarrow> Suc (length (removeAll t xs)) = length xs"
  by (induction xs) auto

lemma SleepqRemove_refines:
  assumes wf: "sq_wf w" and q: "q \<in> linked w" and t: "t \<in> set (sq_blocked (sqs w q))"
  shows "\<exists>b w'. SleepqRemove q t w = Some (b, w') \<and> sq_wf w' \<and>
    waiting w' = (waiting w)(sq_wchan (sqs w q) := removeAll t (sq_blocked (sqs w q))) \<and>
    (\<exists>f. threads w' = (threads w)(t := (threads w t)\<lparr>sleepqueue := Some f, wchan := None\<rparr>)) \<and>
    mutexes w' = mutexes w \<and> b = (waiting w' (sq_wchan (sqs w q)) \<noteq> [])"
proof -
  note P = sq_wf_parts [OF wf]
  note D = sq_okD [OF P(2)]
  let ?B = "sq_blocked (sqs w q)" and ?F = "sq_freeq (sqs w q)"
  let ?R = "removeAll t ?B"
  have sR: "set ?R = set ?B - {t}" "distinct ?R" using D(3) by (auto simp: distinct_removeAll)
  have lR: "Suc (length ?R) = length ?B"
    using t D(3) [of q] by (rule length_removeAll_distinct [rotated])
  show ?thesis
  proof (cases "?R = []")
    case True
    then have F: "?F = []" using lR D(2) [OF q] by simp
    let ?w = "unlink q (lend t q (set_sq q ((sqs w q)\<lparr>sq_blocked := []\<rparr>) w))"
    have e: "SleepqRemove q t w = Some (False, ?w)"
      using True by (simp add: SleepqRemove_def set_sq_def)
    have v: "sqs ?w = (sqs w)(q := (sqs w q)\<lparr>sq_blocked := []\<rparr>)" "mutexes ?w = mutexes w"
      "threads ?w = (threads w)(t := (threads w t)\<lparr>sleepqueue := Some q, wchan := None\<rparr>)"
      by (simp_all add: unlink_def lend_def set_sq_def set_thread_def)
    have L: "linked ?w = linked w - {q}" by simp
    have K: "sq_ok (linked w - {q}) (\<lambda>q. sq_wchan (sqs w q))
      ((\<lambda>q. sq_blocked (sqs w q))(q := [])) ((\<lambda>q. sq_freeq (sqs w q))(q := []))
      (\<lambda>u. if u \<in> {t} then Some q else sleepqueue (threads w u)) (\<lambda>u. if u \<in> {t} then None else wchan (threads w u))"
      using sq_ok_leave [OF P(2) q, of "{t}" "[]" "[]" "\<lambda>_. q"] t sR True F by simp
    have ok: "sq_wf ?w"
      by (rule sq_wfI [OF K L]) (use P(1) v F in \<open>auto simp: unlink_def lend_def set_sq_def set_thread_def\<close>)
    have "waiting ?w = (waiting w)(sq_wchan (sqs w q) := [])"
      by (rule waiting_updated [OF wf ok, where q = q]) (use q L v in auto)
    with e ok v True show ?thesis by (intro exI [of _ False] exI [of _ ?w]) auto
  next
    case False
    then obtain f fs where F: "?F = f # fs" using lR D(2) [OF q] by (cases ?F) auto
    let ?w = "lend t f (set_sq q ((sqs w q)\<lparr>sq_blocked := ?R, sq_freeq := fs\<rparr>) w)"
    have e: "SleepqRemove q t w = Some (True, ?w)"
      using False F by (simp add: SleepqRemove_def set_sq_def lend_def set_thread_def)
    have v: "sqs ?w = (sqs w)(q := (sqs w q)\<lparr>sq_blocked := ?R, sq_freeq := fs\<rparr>)" "mutexes ?w = mutexes w"
      "threads ?w = (threads w)(t := (threads w t)\<lparr>sleepqueue := Some f, wchan := None\<rparr>)" "sc_table ?w = sc_table w"
      by (simp_all add: lend_def set_sq_def set_thread_def)
    have L: "linked ?w = linked w" by simp
    have fs: "f \<notin> set fs" "distinct fs" using D(4) [of q] F by auto
    have K: "sq_ok (linked w) (\<lambda>q. sq_wchan (sqs w q))
      ((\<lambda>q. sq_blocked (sqs w q))(q := ?R)) ((\<lambda>q. sq_freeq (sqs w q))(q := fs))
      (\<lambda>u. if u \<in> {t} then Some f else sleepqueue (threads w u)) (\<lambda>u. if u \<in> {t} then None else wchan (threads w u))"
      using sq_ok_leave [OF P(2) q, of "{t}" ?R fs "\<lambda>_. f"] t sR F fs lR D(2) [OF q] False
      by (simp add: subset_insertI)
    have ok: "sq_wf ?w"
      by (rule sq_wfI [OF K L]) (use P(1) v False in auto)
    have "waiting ?w = (waiting w)(sq_wchan (sqs w q) := ?R)"
      by (rule waiting_updated [OF wf ok, where q = q]) (use q L v in auto)
    with e ok v False show ?thesis by (intro exI [of _ True] exI [of _ ?w]) auto
  qed
qed

text \<open>
  What a callback of \<open>SleepqDrop\<close> may do: it leaves the sleep queues alone, and keeps a fact about the
  threads it was called for that does not depend on them.
\<close>

definition same_sleep :: "'a SleepWorld_scheme \<Rightarrow> 'a SleepWorld_scheme \<Rightarrow> bool" where
  "same_sleep w w' \<longleftrightarrow> sqs w' = sqs w \<and> sc_table w' = sc_table w \<and>
     (\<forall>t. sleepqueue (threads w' t) = sleepqueue (threads w t) \<and> wchan (threads w' t) = wchan (threads w t))"

definition same_rest :: "'a SleepWorld_scheme \<Rightarrow> 'a SleepWorld_scheme \<Rightarrow> bool" where
  "same_rest w w' \<longleftrightarrow> (\<exists>Q T th. w' = w\<lparr>sqs := Q, sc_table := T, threads := th\<rparr> \<and>
     (\<forall>t. \<exists>q c. th t = (threads w t)\<lparr>sleepqueue := q, wchan := c\<rparr>))"

lemma same_rest_refl: "same_rest w (w\<lparr>sqs := Q, sc_table := T\<rparr>)"
proof -
  have "p = p\<lparr>sleepqueue := sleepqueue p, wchan := wchan p\<rparr>" for p :: Pthread by simp
  then have "\<forall>t. \<exists>q c. threads w t = (threads w t)\<lparr>sleepqueue := q, wchan := c\<rparr>" by metis
  moreover have "w\<lparr>sqs := Q, sc_table := T\<rparr> = w\<lparr>sqs := Q, sc_table := T, threads := threads w\<rparr>" by simp
  ultimately show ?thesis unfolding same_rest_def by blast
qed

lemma same_rest_lend: "same_rest w (lend t f w)"
proof -
  have "p = p\<lparr>sleepqueue := sleepqueue p, wchan := wchan p\<rparr>" for p :: Pthread by simp
  then have "\<forall>u. \<exists>q c. ((threads w)(t := (threads w t)\<lparr>sleepqueue := Some f, wchan := None\<rparr>)) u =
      (threads w u)\<lparr>sleepqueue := q, wchan := c\<rparr>" by (metis fun_upd_apply)
  moreover have "lend t f w = w\<lparr>sqs := sqs w, sc_table := sc_table w,
      threads := (threads w)(t := (threads w t)\<lparr>sleepqueue := Some f, wchan := None\<rparr>)\<rparr>"
    by (simp add: lend_def set_thread_def)
  ultimately show ?thesis unfolding same_rest_def by blast
qed

locale drop_callback =
  fixes cb :: "nat \<Rightarrow> 'b \<times> 'a SleepWorld_scheme \<Rightarrow> ('b \<times> 'a SleepWorld_scheme) option"
    and called :: "nat list \<Rightarrow> 'b \<Rightarrow> 'a SleepWorld_scheme \<Rightarrow> bool"
  assumes cb_called: "called d a w \<Longrightarrow> cb t (a, w) = Some (a', w') \<Longrightarrow> same_sleep w w' \<and> called (d @ [t]) a' w'"
    and called_rest: "called d a w \<Longrightarrow> same_rest w w' \<Longrightarrow> called d a w'"
begin

lemma drop_rest_called:
  assumes "called d a w" "length ts = length fs" "distinct ts" "drop_rest cb ts fs (a, w) = Some (a', w')"
  shows "called (d @ ts) a' w' \<and> sqs w' = sqs w \<and> sc_table w' = sc_table w \<and>
    (\<forall>u. sleepqueue (threads w' u) = (case map_of (zip ts fs) u of Some f \<Rightarrow> Some f
        | None \<Rightarrow> sleepqueue (threads w u)) \<and>
      wchan (threads w' u) = (if u \<in> set ts then None else wchan (threads w u)))"
  using assms(2,1,3,4)
proof (induction ts fs arbitrary: d a w rule: list_induct2)
  case (Cons t ts f fs)
  obtain a1 w1 where 0: "cb t (a, w) = Some (a1, w1)" "drop_rest cb ts fs (a1, lend t f w1) = Some (a', w')"
    using Cons.prems(3) by (auto simp: bind_iff)
  have 1: "cb t (a, w) = Some (a1, w1)" "same_sleep w w1" "called (d @ [t]) a1 w1"
    using cb_called [OF Cons.prems(1) 0(1)] 0(1) by auto
  have "same_rest w1 (lend t f w1)"
    by (rule same_rest_lend)
  then have "called (d @ [t]) a1 (lend t f w1)" by (rule called_rest [OF 1(3)])
  from Cons.IH [OF this _ 0(2)] Cons.prems(2) have
    2: "called ((d @ [t]) @ ts) a' w'" "sqs w' = sqs (lend t f w1)" "sc_table w' = sc_table (lend t f w1)"
    "\<forall>u. sleepqueue (threads w' u) = (case map_of (zip ts fs) u of Some f \<Rightarrow> Some f
        | None \<Rightarrow> sleepqueue (threads (lend t f w1) u)) \<and>
      wchan (threads w' u) = (if u \<in> set ts then None else wchan (threads (lend t f w1) u))"
    by auto
  have nt: "map_of (zip ts fs) t = None" using Cons.prems(2) Cons.hyps by (auto simp: map_of_eq_None_iff dest: set_zip_leftD)
  show ?case
    using 1(1,2) 2 nt by (auto simp: same_sleep_def split: option.split)
qed (use assms in simp)

lemma SleepqDrop_called:
  assumes wf: "sq_wf w" and q: "q \<in> linked w" and start: "called [] a w"
    and e: "SleepqDrop q cb (a, w) = Some (a2, w')"
  shows "sq_wf w' \<and>
    waiting w' = (waiting w)(sq_wchan (sqs w q) := []) \<and> called (sq_blocked (sqs w q)) a2 w' \<and>
    (\<forall>u. wchan (threads w' u) = (if u \<in> set (sq_blocked (sqs w q)) then None else wchan (threads w u)))"
proof -
  note P = sq_wf_parts [OF wf]
  note D = sq_okD [OF P(2)]
  obtain t ts where B: "sq_blocked (sqs w q) = t # ts" using linked_blocked [OF wf q] by (cases "sq_blocked (sqs w q)") auto
  have dist: "distinct (t # ts)" using D(3) [of q] B by simp
  have len: "length ts = length (sq_freeq (sqs w q))" using D(2) [OF q] B by simp
  let ?w = "set_sq q ((sqs w q)\<lparr>sq_blocked := ts\<rparr>) (unlink q w)"
  obtain a1 w1 w2 where E: "cb t (a, ?w) = Some (a1, w1)"
    "drop_rest cb ts (sq_freeq (sqs w1 q)) (a1, lend t q w1) = Some (a2, w2)"
    "w' = set_sq q ((sqs w2 q)\<lparr>sq_blocked := [], sq_freeq := []\<rparr>) w2"
    using e B by (auto simp: SleepqDrop_def bind_iff)
  have "same_rest w ?w"
    using same_rest_refl [of w "\<lambda>h. removeAll q (sc_table w h)" "(sqs w)(q := (sqs w q)\<lparr>sq_blocked := ts\<rparr>)"]
    by (cases w) (simp add: set_sq_def unlink_def)
  then have "called [] a ?w" by (rule called_rest [OF start])
  from cb_called [OF this E(1)] have 1: "same_sleep ?w w1" "called [t] a1 w1" by auto
  have "called [t] a1 (lend t q w1)" by (rule called_rest [OF 1(2) same_rest_lend])
  moreover have F: "sq_freeq (sqs w1 q) = sq_freeq (sqs w q)" using 1(1) by (simp add: same_sleep_def set_sq_def)
  ultimately have 2: "called (t # ts) a2 w2" "sqs w2 = sqs w1" "sc_table w2 = sc_table w1"
      "\<forall>u. sleepqueue (threads w2 u) = (case map_of (zip ts (sq_freeq (sqs w q))) u of Some f \<Rightarrow> Some f
          | None \<Rightarrow> sleepqueue (threads (lend t q w1) u)) \<and>
        wchan (threads w2 u) = (if u \<in> set ts then None else wchan (threads (lend t q w1) u))"
    using drop_rest_called [of "[t]" a1 "lend t q w1" ts "sq_freeq (sqs w1 q)" a2 w2] len dist E(2) by auto
  let ?w' = "set_sq q ((sqs w2 q)\<lparr>sq_blocked := [], sq_freeq := []\<rparr>) w2"
  have v: "sqs ?w' = (sqs w)(q := (sqs w q)\<lparr>sq_blocked := [], sq_freeq := []\<rparr>)"
    "sc_table ?w' = (\<lambda>h. removeAll q (sc_table w h))" "threads ?w' = threads w2"
    using 1(1) 2(2,3) by (auto simp: same_sleep_def set_sq_def unlink_def)
  define g where "g u = the (map_of (zip (t # ts) (q # sq_freeq (sqs w q))) u)" for u
  have S: "sleepqueue (threads w2 u) = (if u \<in> set (t # ts) then Some (g u) else sleepqueue (threads w u))"
    and C: "wchan (threads w2 u) = (if u \<in> set (t # ts) then None else wchan (threads w u))" for u
  proof -
    have M: "map_of (zip ts (sq_freeq (sqs w q))) u = None \<longleftrightarrow> u \<notin> set ts"
      using map_of_zip_is_None [OF len] .
    have w1: "sleepqueue (threads w1 u) = sleepqueue (threads w u)" "wchan (threads w1 u) = wchan (threads w u)"
      using 1(1) by (simp_all add: same_sleep_def set_sq_def unlink_def)
    note U = 2(4) [rule_format, of u]
    show "wchan (threads w2 u) = (if u \<in> set (t # ts) then None else wchan (threads w u))"
      using U w1 by simp
    show "sleepqueue (threads w2 u) = (if u \<in> set (t # ts) then Some (g u) else sleepqueue (threads w u))"
      using U w1 M dist by (cases "map_of (zip ts (sq_freeq (sqs w q))) u") (auto simp: g_def simp del: map_of_eq_None_iff)
  qed
  have qF: "q \<notin> set (sq_freeq (sqs w q))" using D(13) q by blast
  let ?k = "t # ts" and ?v = "q # sq_freeq (sqs w q)"
  have g: "g (?k ! i) = ?v ! i" if "i < length ?k" for i
    using map_of_zip_nth [of ?k ?v i] dist len that by (simp add: g_def del: zip_Cons_Cons map_of.simps)
  have gin: "inj_on g (set ?k)"
  proof (rule inj_onI)
    fix x y assume "x \<in> set ?k" "y \<in> set ?k" and e: "g x = g y"
    then obtain i j where i: "i < length ?k" "x = ?k ! i" and j: "j < length ?k" "y = ?k ! j"
      by (metis in_set_conv_nth)
    with e g have "?v ! i = ?v ! j" by simp
    moreover have "distinct ?v" using qF D(4) by simp
    ultimately have "i = j" using i(1) j(1) len nth_eq_iff_index_eq [of ?v i j] by simp
    with i j show "x = y" by simp
  qed
  have gv: "g x \<in> set (sq_freeq (sqs w q)) \<or> g x = q" if x: "x \<in> set ?k" for x
  proof -
    have "g x \<in> set ?v" using x g len by (metis in_set_conv_nth length_Cons nth_mem)
    then show ?thesis by auto
  qed
  have K: "sq_ok (linked w - {q}) (\<lambda>q. sq_wchan (sqs w q)) ((\<lambda>q. sq_blocked (sqs w q))(q := []))
      ((\<lambda>q. sq_freeq (sqs w q))(q := [])) (\<lambda>u. if u \<in> set ?k then Some (g u) else sleepqueue (threads w u))
      (\<lambda>u. if u \<in> set ?k then None else wchan (threads w u))"
    using sq_ok_leave [OF P(2) q, of "set ?k" "[]" "[]" g] gin gv B by simp
  have L: "linked ?w' = linked w - {q}" using v by (auto simp: linked_def)
  have ok: "sq_wf ?w'" by (rule sq_wfI [OF K L]) (use P(1) v S C in auto)
  have "waiting ?w' = (waiting w)(sq_wchan (sqs w q) := [])"
    by (rule waiting_updated [OF wf ok, where q = q]) (use q L v in auto)
  moreover have "same_rest w2 ?w'"
    using same_rest_refl [of w2 "sc_table w2" "(sqs w2)(q := (sqs w2 q)\<lparr>sq_blocked := [], sq_freeq := []\<rparr>)"]
    by (simp add: set_sq_def)
  then have "called ?k a2 ?w'" by (rule called_rest [OF 2(1)])
  ultimately show ?thesis using E(3) ok C v(3) B by simp
qed

end

text \<open>A callback that always returns.\<close>

locale total_callback = drop_callback +
  assumes cb_total: "called d a w \<Longrightarrow> cb t (a, w) \<noteq> None"
begin

lemma drop_rest_total:
  assumes "called d a w" "length ts = length fs"
  shows "drop_rest cb ts fs (a, w) \<noteq> None"
  using assms(2,1)
proof (induction ts fs arbitrary: d a w rule: list_induct2)
  case (Cons t ts f fs)
  obtain a1 w1 where 1: "cb t (a, w) = Some (a1, w1)" using cb_total [OF Cons.prems] by fast
  then have "called (d @ [t]) a1 (lend t f w1)" using cb_called [OF Cons.prems 1] called_rest same_rest_lend by blast
  from Cons.IH [OF this] 1 show ?case by simp
qed simp

lemma SleepqDrop_total:
  assumes wf: "sq_wf w" and q: "q \<in> linked w" and start: "called [] a w"
  shows "\<exists>a' w'. SleepqDrop q cb (a, w) = Some (a', w')"
proof -
  obtain t ts where B: "sq_blocked (sqs w q) = t # ts" using linked_blocked [OF wf q] by (cases "sq_blocked (sqs w q)") auto
  have len: "length ts = length (sq_freeq (sqs w q))" using sq_okD(2) [OF sq_wf_parts(2) [OF wf] q] B by simp
  let ?w = "set_sq q ((sqs w q)\<lparr>sq_blocked := ts\<rparr>) (unlink q w)"
  have "same_rest w ?w"
    using same_rest_refl [of w "\<lambda>h. removeAll q (sc_table w h)" "(sqs w)(q := (sqs w q)\<lparr>sq_blocked := ts\<rparr>)"]
    by (cases w) (simp add: set_sq_def unlink_def)
  then have c: "called [] a ?w" by (rule called_rest [OF start])
  obtain a1 w1 where 1: "cb t (a, ?w) = Some (a1, w1)" using cb_total [OF c] by fast
  have s: "same_sleep ?w w1" "called [t] a1 w1" using cb_called [OF c 1] by auto
  have "sq_freeq (sqs w1 q) = sq_freeq (sqs w q)" using s(1) by (simp add: same_sleep_def set_sq_def)
  with drop_rest_total [OF called_rest [OF s(2) same_rest_lend [of w1 t q]], of ts "sq_freeq (sqs w1 q)"] len
  show ?thesis using B 1 by (auto simp: SleepqDrop_def)
qed

end

section \<open>Refinement\<close>

text \<open>A thread that is created gets an object of its own; nobody waits at first.\<close>

definition no_sleepers :: "'a SleepWorld_scheme \<Rightarrow> bool" where
  "no_sleepers w \<longleftrightarrow> (\<forall>h. sc_table w h = []) \<and> (\<forall>q. sq_blocked (sqs w q) = [] \<and> sq_freeq (sqs w q) = []) \<and>
     (\<forall>t. sleepqueue (threads w t) = Some t \<and> wchan (threads w t) = None)"

lemma no_sleepers_wf: "no_sleepers w \<Longrightarrow> sq_wf w" "no_sleepers w \<Longrightarrow> waiting w = (\<lambda>_. [])"
proof -
  assume n: "no_sleepers w"
  then have L: "linked w = {}" by (simp add: no_sleepers_def linked_def)
  show wf: "sq_wf w" unfolding sq_wf_def L
    by (intro conjI sq_okI) (use n in \<open>auto simp: no_sleepers_def\<close>)
  show "waiting w = (\<lambda>_. [])" using waiting_none [OF wf] L by auto
qed

datatype SleepOp = OpAdd nat nat | OpRemove nat nat | OpDrop nat

text \<open>The operations on a map from channels to threads.\<close>

fun sleep_spec :: "SleepOp \<Rightarrow> (nat \<Rightarrow> nat list) \<Rightarrow> (nat \<Rightarrow> nat list) option" where
  "sleep_spec (OpAdd wc t) m = (if \<exists>c. t \<in> set (m c) then None else Some (m(wc := t # m wc)))"
| "sleep_spec (OpRemove wc t) m = (if t \<in> set (m wc) then Some (m(wc := removeAll t (m wc))) else None)"
| "sleep_spec (OpDrop wc) m = (if m wc = [] then None else Some (m(wc := [])))"

text \<open>The same on the table, as the callers do it: the object is looked up first.\<close>

fun sleep_op :: "SleepOp \<Rightarrow> SleepWorld \<Rightarrow> SleepWorld option" where
  "sleep_op (OpAdd wc t) w = SleepqAdd wc t w"
| "sleep_op (OpRemove wc t) w = do { q \<leftarrow> SleepqLookup wc w; (b, w') \<leftarrow> SleepqRemove q t w; Some w' }"
| "sleep_op (OpDrop wc) w = do { q \<leftarrow> SleepqLookup wc w; (u, w') \<leftarrow> SleepqDrop q (\<lambda>t s. Some s) ((), w); Some w' }"

fun run_ops :: "('op \<Rightarrow> 's \<Rightarrow> 's option) \<Rightarrow> 'op list \<Rightarrow> 's \<Rightarrow> 's option" where
  "run_ops f [] s = Some s"
| "run_ops f (x # xs) s = do { s' \<leftarrow> f x s; run_ops f xs s' }"

interpretation no_callback: total_callback "\<lambda>t s. Some s" "\<lambda>d a w. True"
  by unfold_locales (auto simp: same_sleep_def)

lemma sleep_op_refines:
  assumes wf: "sq_wf w" and m: "sleep_spec x (waiting w) = Some m"
  shows "\<exists>w'. sleep_op x w = Some w' \<and> sq_wf w' \<and> waiting w' = m"
proof (cases x)
  case (OpAdd wc t)
  with m have "wchan (threads w t) = None"
    using waiting_wchan(1) [OF wf, of t] by (cases "wchan (threads w t)") (auto split: if_splits)
  from SleepqAdd_refines [OF wf this, of wc] OpAdd m show ?thesis by (auto split: if_splits)
next
  case (OpRemove wc t)
  with m have t: "t \<in> set (waiting w wc)" by (simp split: if_splits)
  then obtain q where q: "SleepqLookup wc w = Some q" using SleepqLookup_waiting [OF wf, of wc] by fastforce
  then have l: "q \<in> linked w" "sq_wchan (sqs w q) = wc" using SleepqLookup_iff [OF wf] by auto
  have b: "waiting w wc = sq_blocked (sqs w q)" using q by (simp add: waiting_def)
  from SleepqRemove_refines [OF wf l(1), of t] t l b q m OpRemove show ?thesis by auto
next
  case (OpDrop wc)
  with m have "waiting w wc \<noteq> []" by (simp split: if_splits)
  then obtain q where q: "SleepqLookup wc w = Some q" using SleepqLookup_waiting [OF wf, of wc] by fastforce
  then have l: "q \<in> linked w" "sq_wchan (sqs w q) = wc" using SleepqLookup_iff [OF wf] by auto
  obtain u w' where d: "SleepqDrop sq (\<lambda>t s. Some s) ((), w) = Some (u, w')" if "sq = q" for sq
    using no_callback.SleepqDrop_total [OF wf l(1) TrueI, of "()"] by blast
  from no_callback.SleepqDrop_called [OF wf l(1) TrueI d [OF refl]] d [OF refl] l(2) q m OpDrop show ?thesis
    by (auto split: if_splits)
qed

lemma run_ops_refine:
  assumes "sq_wf w" "run_ops sleep_spec xs (waiting w) = Some m"
  shows "\<exists>w'. run_ops sleep_op xs w = Some w' \<and> sq_wf w' \<and> waiting w' = m"
  using assms
proof (induction xs arbitrary: w)
  case (Cons x xs)
  then obtain m1 where m1: "sleep_spec x (waiting w) = Some m1" "run_ops sleep_spec xs m1 = Some m"
    by (auto simp: bind_iff)
  obtain w1 where "sleep_op x w = Some w1" "sq_wf w1" "waiting w1 = m1"
    using sleep_op_refines [OF Cons.prems(1) m1(1)] by blast
  with Cons.IH [of w1] m1(2) show ?case by simp
qed simp

text \<open>
  C13. The hash table of sleep queues, with its chains, lent objects and free lists, implements a map from
  channels to lists of threads: every sequence of operations that the map allows runs on the table
  without a missing object, and a thread is on the list of exactly the channel it is said to wait on.
\<close>

theorem sleepq_refines_map:
  assumes "no_sleepers w" and "run_ops sleep_spec xs (\<lambda>_. []) = Some m"
  shows "\<exists>w'. run_ops sleep_op xs w = Some w' \<and> waiting w' = m \<and>
    (\<forall>t wc. wchan (threads w' t) = Some wc \<longleftrightarrow> t \<in> set (m wc)) \<and>
    (\<forall>t. sleepqueue (threads w' t) \<noteq> None \<longleftrightarrow> (\<forall>wc. t \<notin> set (m wc))) \<and> (\<forall>wc. distinct (m wc))"
proof -
  note n = no_sleepers_wf [OF assms(1)]
  obtain w' where w': "run_ops sleep_op xs w = Some w'" "sq_wf w'" "waiting w' = m"
    using run_ops_refine [OF n(1), of xs m] n(2) assms(2) by auto
  have W: "wchan (threads w' t) = Some wc \<longleftrightarrow> t \<in> set (m wc)" "distinct (m wc)" for t wc
    using waiting_wchan [OF w'(2)] w'(3) by auto
  have "sleepqueue (threads w' t) \<noteq> None \<longleftrightarrow> (\<forall>wc. t \<notin> set (m wc))" for t
    using sq_okD(9) [OF sq_wf_parts(2) [OF w'(2)], of t] W(1) [of t] by (cases "wchan (threads w' t)") auto
  with W w' show ?thesis by blast
qed

definition idle_thread :: "nat \<Rightarrow> Pthread" where
  "idle_thread t = \<lparr>cancel_enable = True, cancel_pending = False, no_cancel = False, sleepqueue = Some t,
     wchan = None, mutex_obj = None, will_sleep = False, defer_waiters = [], wake_sema = 0, thread_errno = 0\<rparr>"

definition sleep_boot :: SleepWorld where
  "sleep_boot = \<lparr>mutexes = \<lambda>_. None, mutex_cells = \<lambda>_. 0, mutexattrs = \<lambda>_. None, mutexattr_cells = \<lambda>_. 0,
     MutexId = 0, threads = idle_thread,
     sqs = \<lambda>_. \<lparr>sq_blocked = [], sq_freeq = [], sq_wchan = 0\<rparr>, sc_table = \<lambda>_. []\<rparr>"

theorem sleepq_refines_map_witness:
  "\<exists>w'. run_ops sleep_op [OpAdd 64 1, OpAdd 64 2, OpAdd 128 3, OpRemove 64 1, OpDrop 128] sleep_boot = Some w' \<and>
     waiting w' 64 = [2] \<and> wchan (threads w' 2) = Some 64 \<and> wchan (threads w' 3) = None"
proof -
  let ?xs = "[OpAdd 64 1, OpAdd 64 2, OpAdd 128 3, OpRemove 64 1, OpDrop 128]" and ?m = "(\<lambda>_. [])(64 := [2])"
  have n: "no_sleepers sleep_boot" by (simp add: no_sleepers_def sleep_boot_def idle_thread_def)
  have m: "run_ops sleep_spec ?xs (\<lambda>_. []) = Some ?m" by (simp add: fun_eq_iff)
  from sleepq_refines_map [OF n m] obtain w' where "run_ops sleep_op ?xs sleep_boot = Some w'"
    "waiting w' = ?m" "\<forall>t wc. wchan (threads w' t) = Some wc \<longleftrightarrow> t \<in> set (?m wc)" by blast
  then show ?thesis by (cases "wchan (threads w' 3)") (auto simp del: run_ops.simps)
qed

end
