(* ===== verification/Pthread_Cond.thy ===== *)
theory Pthread_Cond
  imports Sleepq
begin

unbundle bit_operations_syntax

text \<open>
  The condition variables of \<open>src/src/core/libraries/kernel/threads/condvar.cpp\<close>, with the part of
  \<open>Pthread\<close> in \<open>pthread.h\<close> that puts threads to sleep and wakes them.

  What a thread does between \<open>SleepqLock\<close> and \<open>SleepqUnlock\<close> is one step.  A signal by the owner of the
  mutex is deferred: the thread that is woken is put on the list of the signalling thread, the mutex is
  marked, and the semaphore is released when the mutex is unlocked or when the signalling thread goes to
  sleep itself.  \<open>Pc\<close> says where in a call a thread is; a wait is the steps \<open>Cond_Wait\<close>, \<open>Sleep_begin\<close>,
  \<open>Sleep_acquire\<close> or a timeout, \<open>Cond_woken\<close> and those of the lock that follows.
\<close>

section \<open>Data\<close>

abbreviation THR_COND_INITIALIZER :: nat where "THR_COND_INITIALIZER \<equiv> 0"
abbreviation THR_COND_DESTROYED :: nat where "THR_COND_DESTROYED \<equiv> 1"
abbreviation MaxDeferWaiters :: nat where "MaxDeferWaiters \<equiv> 50"
abbreviation ClockRealtime :: u32 where "ClockRealtime \<equiv> 0"

record PthreadCond =
  has_user_waiters :: bool
  clock_id :: u32
  cond_name :: string

record PthreadCondAttr =
  c_pshared :: s32
  c_clockid :: u32

definition PthreadCondattrDefault :: PthreadCondAttr where
  "PthreadCondattrDefault = \<lparr>c_pshared = 0, c_clockid = ClockRealtime\<rparr>"

record CondWorld = SleepWorld +
  conds :: "nat \<Rightarrow> PthreadCond option"
  cond_cells :: "nat \<Rightarrow> nat"
  condattrs :: "nat \<Rightarrow> PthreadCondAttr option"
  condattr_cells :: "nat \<Rightarrow> nat"
  CondId :: s32
  thread_list :: "nat list"
  dead_threads :: "nat list"

text \<open>
  Where a thread is: outside with the result of its last call; in \<open>Lock\<close>; in \<open>Unlock\<close> before \<open>WakeAll\<close>;
  in \<open>Wait\<close> before it sleeps, asleep, after it slept with the result of \<open>Sleep\<close>, and locking the mutex
  again, where the error is missing if the wait was cancelled; after the critical section of a signal or
  broadcast, with the semaphores to release; at \<open>UNREACHABLE\<close>.
\<close>

datatype Pc =
    Out s32
  | InLock nat LockTime LockState
  | Waking
  | PreSleep nat nat s32 LockTime
  | Asleep nat nat s32 LockTime
  | Awake nat nat s32 s32
  | Relock nat s32 "s32 option" LockState
  | Releasing "nat list"
  | Stopped nat

section \<open>Sleeping and waking\<close>

definition upd_thread :: "nat \<Rightarrow> (Pthread \<Rightarrow> Pthread) \<Rightarrow> 'a MutexWorld_scheme \<Rightarrow> 'a MutexWorld_scheme" where
  "upd_thread t f w = w\<lparr>threads := (threads w)(t := f (threads w t))\<rparr>"

definition release_sema :: "nat \<Rightarrow> 'a MutexWorld_scheme \<Rightarrow> 'a MutexWorld_scheme" where
  "release_sema u = upd_thread u (\<lambda>td. td\<lparr>wake_sema := wake_sema td + 1\<rparr>)"

definition WakeAll :: "nat \<Rightarrow> 'a MutexWorld_scheme \<Rightarrow> 'a MutexWorld_scheme" where
  "WakeAll t w = upd_thread t (\<lambda>td. td\<lparr>defer_waiters := []\<rparr>) (fold release_sema (defer_waiters (threads w t)) w)"

definition ClearWake :: "nat \<Rightarrow> 'a MutexWorld_scheme \<Rightarrow> 'a MutexWorld_scheme" where
  "ClearWake t = upd_thread t (\<lambda>td. td\<lparr>wake_sema := wake_sema td - 1\<rparr>)"

definition ShouldCancel :: "Pthread \<Rightarrow> bool" where
  "ShouldCancel td \<longleftrightarrow> cancel_pending td \<and> cancel_enable td \<and> \<not> no_cancel td"

text \<open>\<open>Sleep\<close> up to the semaphore, and its two ends.\<close>

definition Sleep_begin :: "nat \<Rightarrow> 'a MutexWorld_scheme \<Rightarrow> 'a MutexWorld_scheme" where
  "Sleep_begin t w =
     (let w1 = upd_thread t (\<lambda>td. td\<lparr>will_sleep := False\<rparr>) w
      in if defer_waiters (threads w1 t) \<noteq> [] then WakeAll t w1 else w1)"

definition Sleep_acquire :: "nat \<Rightarrow> 'a MutexWorld_scheme \<Rightarrow> 'a MutexWorld_scheme option" where
  "Sleep_acquire t w =
     (if wake_sema (threads w t) > 0
      then Some (upd_thread t (\<lambda>td. td\<lparr>wake_sema := wake_sema td - 1\<rparr>) w) else None)"

section \<open>Creation\<close>

definition CondInit ::
  "nat \<Rightarrow> nat \<Rightarrow> string option \<Rightarrow> nat option \<Rightarrow> CondWorld \<Rightarrow> (s32 \<times> CondWorld) option" where
  "CondInit cond cond_attr name new w = (case new of
     None \<Rightarrow> Some (POSIX_ENOMEM, w)
   | Some c \<Rightarrow> do {
       let (nm, w1) = (case name of Some n \<Rightarrow> (n, w)
             | None \<Rightarrow> (''Cond'' @ to_string (CondId w), w\<lparr>CondId := wrap32 (CondId w + 1)\<rparr>));
       clock \<leftarrow> (if cond_attr = 0 \<or> condattr_cells w cond_attr = 0 then Some ClockRealtime
                else map_option c_clockid (condattrs w (condattr_cells w cond_attr)));
       Some (0, w1\<lparr>conds := (conds w1)(c \<mapsto> \<lparr>has_user_waiters = False, clock_id = clock, cond_name = nm\<rparr>),
                   cond_cells := (cond_cells w1)(cond := c)\<rparr>) })"

definition Cond_InitStatic :: "nat \<Rightarrow> nat option \<Rightarrow> CondWorld \<Rightarrow> (s32 \<times> CondWorld) option" where
  "Cond_InitStatic cond new w =
     (if cond_cells w cond = 0 then CondInit cond 0 None new w else Some (0, w))"

definition check_and_init_cond :: "nat \<Rightarrow> nat option \<Rightarrow> CondWorld \<Rightarrow> (s32 \<times> CondWorld) option" where
  "check_and_init_cond cond new w =
     (if cond_cells w cond = THR_COND_INITIALIZER then Cond_InitStatic cond new w
      else if cond_cells w cond = THR_COND_DESTROYED then Some (POSIX_EINVAL, w)
      else Some (0, w))"

definition scePthreadCondInit ::
  "nat \<Rightarrow> nat \<Rightarrow> string option \<Rightarrow> nat option \<Rightarrow> CondWorld \<Rightarrow> (s32 \<times> CondWorld) option" where
  "scePthreadCondInit cond cond_attr name new w =
     CondInit cond cond_attr name new (w\<lparr>cond_cells := (cond_cells w)(cond := 0)\<rparr>)"

definition posix_pthread_cond_init ::
  "nat \<Rightarrow> nat \<Rightarrow> nat option \<Rightarrow> CondWorld \<Rightarrow> (s32 \<times> CondWorld) option" where
  "posix_pthread_cond_init cond cond_attr new w =
     CondInit cond cond_attr None new (w\<lparr>cond_cells := (cond_cells w)(cond := 0)\<rparr>)"

definition posix_pthread_cond_destroy :: "nat \<Rightarrow> CondWorld \<Rightarrow> s32 \<times> CondWorld" where
  "posix_pthread_cond_destroy cond w =
     (let cvp = cond_cells w cond
      in if cvp = THR_COND_INITIALIZER then (0, w)
         else if cvp = THR_COND_DESTROYED then (POSIX_EINVAL, w)
         else (0, w\<lparr>cond_cells := (cond_cells w)(cond := THR_COND_DESTROYED), conds := (conds w)(cvp := None)\<rparr>))"

section \<open>Waiting\<close>

definition set_mutex :: "nat \<Rightarrow> PthreadMutex \<Rightarrow> 'a MutexWorld_scheme \<Rightarrow> 'a MutexWorld_scheme" where
  "set_mutex p m w = w\<lparr>mutexes := (mutexes w)(p \<mapsto> m)\<rparr>"

text \<open>The flag of the variable, which must exist.\<close>

definition set_waiters :: "nat \<Rightarrow> bool \<Rightarrow> CondWorld \<Rightarrow> CondWorld option" where
  "set_waiters c b w = map_option (\<lambda>cv. w\<lparr>conds := (conds w)(c \<mapsto> cv\<lparr>has_user_waiters := b\<rparr>)\<rparr>) (conds w c)"

definition Cond_Wait :: "nat \<Rightarrow> nat \<Rightarrow> nat \<Rightarrow> LockTime \<Rightarrow> CondWorld \<Rightarrow> (Pc \<times> CondWorld) option" where
  "Cond_Wait t c mutex abstime w = do {
     let mp = mutex_cells w mutex;
     error \<leftarrow> IsOwned mp t w;
     (if error \<noteq> 0 then Some (Out error, w)
      else do {
        ASSERT (wchan (threads w t) = None);
        w1 \<leftarrow> set_waiters c True w;
        let w2 = upd_thread t (\<lambda>td. td\<lparr>will_sleep := True\<rparr>) w1;
        m \<leftarrow> mutexes w2 mp;
        ((r, recurse, wk), m') \<leftarrow> CvUnlock t (will_sleep (threads w2 t)) m;
        let w3 = upd_thread t (\<lambda>td. td\<lparr>mutex_obj := Some mp\<rparr>) (set_mutex mp m' w2);
        w4 \<leftarrow> SleepqAdd c t w3;
        Some (PreSleep c mp recurse abstime, ClearWake t w4) }) }"

text \<open>The end of a wait: what \<open>CvLock\<close> does after \<open>Lock\<close>, and the result.\<close>

definition wait_result :: "s32 option \<Rightarrow> s32 \<Rightarrow> s32" where
  "wait_result error error2 = (case error of None \<Rightarrow> 0 | Some e \<Rightarrow> if e = 0 then error2 else e)"

definition CvLock_end :: "nat \<Rightarrow> s32 \<Rightarrow> s32 option \<Rightarrow> LockOutcome \<Rightarrow> PthreadMutex \<Rightarrow> Pc \<times> PthreadMutex" where
  "CvLock_end p recurse error out m = (case out of
     Pending l \<Rightarrow> (Relock p recurse error l, m)
   | Returned r \<Rightarrow> (Out (wait_result error r), if r = 0 then m\<lparr>m_count := recurse\<rparr> else m))"

definition CvLock :: "nat \<Rightarrow> nat \<Rightarrow> s32 \<Rightarrow> s32 option \<Rightarrow> CondWorld \<Rightarrow> (Pc \<times> CondWorld) option" where
  "CvLock t p recurse error w =
     on_mutex (\<lambda>m. do { (out, m') \<leftarrow> Lock t NoTime m; Some (CvLock_end p recurse error out m') }) p
       (upd_thread t (\<lambda>td. td\<lparr>mutex_obj := None\<rparr>) w)"

text \<open>A thread takes itself from the queue.\<close>

definition leave_queue :: "nat \<Rightarrow> nat \<Rightarrow> CondWorld \<Rightarrow> CondWorld option" where
  "leave_queue t c w = do {
     sq \<leftarrow> SleepqLookup c w;
     (b, w1) \<leftarrow> SleepqRemove sq t w;
     set_waiters c b w1 }"

definition Cond_woken :: "nat \<Rightarrow> nat \<Rightarrow> nat \<Rightarrow> s32 \<Rightarrow> s32 \<Rightarrow> CondWorld \<Rightarrow> (Pc \<times> CondWorld) option" where
  "Cond_woken t c mp recurse error w =
     (if wchan (threads w t) = None then CvLock t mp recurse (Some 0) w
      else if ShouldCancel (threads w t) then do { w1 \<leftarrow> leave_queue t c w; CvLock t mp recurse None w1 }
      else if error = POSIX_ETIMEDOUT then do { w1 \<leftarrow> leave_queue t c w; CvLock t mp recurse (Some error) w1 }
      else Some (Stopped c, w))"

section \<open>Signalling\<close>

definition FindThread :: "nat \<Rightarrow> bool \<Rightarrow> CondWorld \<Rightarrow> s32" where
  "FindThread thread include_dead w =
     (if thread = 0 then POSIX_EINVAL
      else if thread \<notin> set (thread_list w) then POSIX_ESRCH
      else if \<not> include_dead \<and> thread \<in> set (dead_threads w) then POSIX_ESRCH
      else 0)"

text \<open>
  The owner of the mutex keeps the thread for later.  The list of a thread has room for
  \<open>MaxDeferWaiters\<close>: when it is full it is emptied first.
\<close>

definition defer_wake :: "nat \<Rightarrow> nat \<Rightarrow> nat \<Rightarrow> PthreadMutex \<Rightarrow> 'a MutexWorld_scheme \<Rightarrow> 'a MutexWorld_scheme" where
  "defer_wake t td mp m w =
     (let w1 = (if length (defer_waiters (threads w t)) \<ge> MaxDeferWaiters then WakeAll t w else w)
      in set_mutex mp (m\<lparr>m_flags := m_flags m OR FlagDeferred\<rparr>)
           (upd_thread t (\<lambda>p. p\<lparr>defer_waiters := defer_waiters p @ [td]\<rparr>) w1))"

definition Cond_Signal :: "nat \<Rightarrow> nat \<Rightarrow> nat option \<Rightarrow> CondWorld \<Rightarrow> (Pc \<times> CondWorld) option" where
  "Cond_Signal t c thread w =
     (let ret = (case thread of None \<Rightarrow> 0 | Some td \<Rightarrow> FindThread td False w)
      in if ret \<noteq> 0 then Some (Out ret, w)
         else case SleepqLookup c w of
           None \<Rightarrow> Some (Out 0, w)
         | Some sq \<Rightarrow> do {
             td \<leftarrow> (case thread of Some td \<Rightarrow> Some td
                   | None \<Rightarrow> (case sq_blocked (sqs w sq) of [] \<Rightarrow> None | x # xs \<Rightarrow> Some x));
             mp \<leftarrow> mutex_obj (threads w td);
             (b, w1) \<leftarrow> SleepqRemove sq td w;
             w2 \<leftarrow> set_waiters c b w1;
             m \<leftarrow> mutexes w2 mp;
             Some (if m_owner m = Some t then (Out 0, defer_wake t td mp m w2) else (Releasing [td], w2)) })"

text \<open>The callback of a broadcast; its argument is the list of the semaphores to release afterwards.\<close>

definition drop_cb :: "nat \<Rightarrow> nat \<Rightarrow> nat list \<times> CondWorld \<Rightarrow> (nat list \<times> CondWorld) option" where
  "drop_cb t td s = (case s of (waddrs, w) \<Rightarrow> do {
     mp \<leftarrow> mutex_obj (threads w td);
     m \<leftarrow> mutexes w mp;
     Some (if m_owner m = Some t then (waddrs, defer_wake t td mp m w)
           else if length waddrs \<ge> MaxDeferWaiters then ([td], fold release_sema waddrs w)
           else (waddrs @ [td], w)) })"

definition Cond_Broadcast :: "nat \<Rightarrow> nat \<Rightarrow> CondWorld \<Rightarrow> (Pc \<times> CondWorld) option" where
  "Cond_Broadcast t c w = (case SleepqLookup c w of
     None \<Rightarrow> Some (Out 0, w)
   | Some sq \<Rightarrow> do {
       (waddrs, w1) \<leftarrow> SleepqDrop sq (drop_cb t) ([], w);
       w2 \<leftarrow> set_waiters c False w1;
       Some (Releasing waddrs, w2) })"

section \<open>The calls\<close>

definition with_cond ::
  "nat \<Rightarrow> nat option \<Rightarrow> (nat \<Rightarrow> CondWorld \<Rightarrow> (Pc \<times> CondWorld) option) \<Rightarrow> CondWorld \<Rightarrow> (Pc \<times> CondWorld) option"
where
  "with_cond cond new f w = do {
     (ret, w1) \<leftarrow> check_and_init_cond cond new w;
     (if ret \<noteq> 0 then Some (Out ret, w1) else f (cond_cells w1 cond) w1) }"

definition posix_pthread_cond_wait where
  "posix_pthread_cond_wait t cond mutex new = with_cond cond new (\<lambda>c. Cond_Wait t c mutex NoTime)"

text \<open>\<open>None\<close> is a null pointer for the time.\<close>

definition posix_pthread_cond_timedwait where
  "posix_pthread_cond_timedwait t cond mutex abstime new w = (case abstime of
     None \<Rightarrow> Some (Out POSIX_EINVAL, w)
   | Some (sec, ns) \<Rightarrow>
       if sec < 0 \<or> bad_nsec ns then Some (Out POSIX_EINVAL, w)
       else with_cond cond new (\<lambda>c. Cond_Wait t c mutex (AbsTime sec ns)) w)"

definition posix_pthread_cond_reltimedwait_np where
  "posix_pthread_cond_reltimedwait_np t cond mutex usec new =
     with_cond cond new (\<lambda>c. Cond_Wait t c mutex (RelTime usec))"

definition posix_pthread_cond_signal where
  "posix_pthread_cond_signal t cond new = with_cond cond new (\<lambda>c. Cond_Signal t c None)"

text \<open>A null thread signals any.\<close>

definition posix_pthread_cond_signalto_np where
  "posix_pthread_cond_signalto_np t cond thread new =
     with_cond cond new (\<lambda>c. Cond_Signal t c (if thread = 0 then None else Some thread))"

definition posix_pthread_cond_broadcast where
  "posix_pthread_cond_broadcast t cond new = with_cond cond new (\<lambda>c. Cond_Broadcast t c)"

section \<open>Attributes\<close>

definition condattr_at :: "nat \<Rightarrow> CondWorld \<Rightarrow> PthreadCondAttr option option" where
  "condattr_at attr w = (if attr = 0 \<or> condattr_cells w attr = 0 then Some None
     else map_option Some (condattrs w (condattr_cells w attr)))"

definition posix_pthread_condattr_init :: "nat \<Rightarrow> nat option \<Rightarrow> CondWorld \<Rightarrow> s32 \<times> CondWorld" where
  "posix_pthread_condattr_init attr new w = (case new of
     None \<Rightarrow> (POSIX_ENOMEM, w)
   | Some p \<Rightarrow> (0, w\<lparr>condattrs := (condattrs w)(p \<mapsto> PthreadCondattrDefault),
                     condattr_cells := (condattr_cells w)(attr := p)\<rparr>))"

definition posix_pthread_condattr_destroy :: "nat \<Rightarrow> CondWorld \<Rightarrow> (s32 \<times> CondWorld) option" where
  "posix_pthread_condattr_destroy attr w = do {
     ao \<leftarrow> condattr_at attr w;
     Some (case ao of None \<Rightarrow> (POSIX_EINVAL, w) | Some a \<Rightarrow>
       (0, w\<lparr>condattrs := (condattrs w)(condattr_cells w attr := None),
             condattr_cells := (condattr_cells w)(attr := 0)\<rparr>)) }"

definition posix_pthread_condattr_getclock :: "nat \<Rightarrow> CondWorld \<Rightarrow> (s32 \<times> u32 option) option" where
  "posix_pthread_condattr_getclock attr w = do {
     ao \<leftarrow> condattr_at attr w;
     Some (case ao of None \<Rightarrow> (POSIX_EINVAL, None) | Some a \<Rightarrow> (0, Some (c_clockid a))) }"

text \<open>The clocks \<open>Realtime\<close>, \<open>Virtual\<close>, \<open>Prof\<close> and \<open>Monotonic\<close>.\<close>

definition posix_pthread_condattr_setclock :: "nat \<Rightarrow> u32 \<Rightarrow> CondWorld \<Rightarrow> (s32 \<times> CondWorld) option" where
  "posix_pthread_condattr_setclock attr clock w = do {
     ao \<leftarrow> condattr_at attr w;
     Some (case ao of None \<Rightarrow> (POSIX_EINVAL, w) | Some a \<Rightarrow>
       if clock \<noteq> 0 \<and> clock \<noteq> 1 \<and> clock \<noteq> 2 \<and> clock \<noteq> 4 then (POSIX_EINVAL, w)
       else (0, w\<lparr>condattrs := (condattrs w)(condattr_cells w attr \<mapsto> a\<lparr>c_clockid := clock\<rparr>)\<rparr>)) }"

definition posix_pthread_condattr_getpshared :: "nat \<Rightarrow> CondWorld \<Rightarrow> s32 \<times> s32 option" where
  "posix_pthread_condattr_getpshared attr w =
     (if attr = 0 \<or> condattr_cells w attr = 0 then (POSIX_EINVAL, None) else (0, Some 0))"

definition posix_pthread_condattr_setpshared :: "nat \<Rightarrow> s32 \<Rightarrow> CondWorld \<Rightarrow> s32" where
  "posix_pthread_condattr_setpshared attr pshared w =
     (if attr = 0 \<or> condattr_cells w attr = 0 then POSIX_EINVAL else if pshared \<noteq> 0 then POSIX_EINVAL else 0)"

section \<open>The threads\<close>

text \<open>
  A move of a thread: a call, the next step of the call it is in, or the end of its time.  \<open>Env\<close> sets what
  other calls may change at any time: the flags for cancellation of a thread, and the loops of a mutex.
  The result of an allocation is an argument of the call.
\<close>

datatype Move =
    MLock nat LockTime "nat option" | MTryLock nat "nat option" | MUnlock nat
  | MMutexInit nat nat "nat option" | MMutexDestroy nat
  | MWait nat nat LockTime "nat option"
  | MSignal nat "nat option" "nat option" | MBroadcast nat "nat option"
  | MCondInit nat nat "nat option" | MCondDestroy nat
  | MNext | MTimeout
  | MCancelFlags bool bool bool | MLoops nat s32 s32

definition locked_pc :: "nat \<Rightarrow> LockTime \<Rightarrow> LockOutcome \<Rightarrow> Pc" where
  "locked_pc p tm out = (case out of Returned r \<Rightarrow> Out r | Pending l \<Rightarrow> InLock p tm l)"

text \<open>A call of a thread that is outside.\<close>

fun call_step :: "nat \<Rightarrow> Move \<Rightarrow> CondWorld \<Rightarrow> (Pc \<times> CondWorld) option" where
  "call_step t (MLock mutex tm new) w = do {
     (x, w') \<leftarrow> with_mutex mutex new (Lock t tm) w;
     Some (case x of Inl e \<Rightarrow> Out e | Inr out \<Rightarrow> locked_pc (mutex_cells w' mutex) tm out, w') }"
| "call_step t (MTryLock mutex new) w = do {
     (x, w') \<leftarrow> posix_pthread_mutex_trylock t mutex new w;
     Some (case x of Inl e \<Rightarrow> Out e | Inr r \<Rightarrow> Out r, w') }"
| "call_step t (MUnlock mutex) w = do {
     ((r, wk), w') \<leftarrow> posix_pthread_mutex_unlock t mutex w;
     Some (if wk then Waking else Out r, w') }"
| "call_step t (MMutexInit mutex attr new) w =
     map_option (\<lambda>(r, w'). (Out r, w')) (posix_pthread_mutex_init mutex attr new w)"
| "call_step t (MMutexDestroy mutex) w =
     map_option (\<lambda>(r, w'). (Out r, w')) (posix_pthread_mutex_destroy mutex w)"
| "call_step t (MWait cond mutex tm new) w = (case tm of
     NoTime \<Rightarrow> posix_pthread_cond_wait t cond mutex new w
   | RelTime usec \<Rightarrow> posix_pthread_cond_reltimedwait_np t cond mutex usec new w
   | AbsTime sec ns \<Rightarrow> posix_pthread_cond_timedwait t cond mutex (Some (sec, ns)) new w)"
| "call_step t (MSignal cond thread new) w =
     (case thread of None \<Rightarrow> posix_pthread_cond_signal t cond new w
      | Some td \<Rightarrow> posix_pthread_cond_signalto_np t cond td new w)"
| "call_step t (MBroadcast cond new) w = posix_pthread_cond_broadcast t cond new w"
| "call_step t (MCondInit cond attr new) w =
     map_option (\<lambda>(r, w'). (Out r, w')) (posix_pthread_cond_init cond attr new w)"
| "call_step t (MCondDestroy cond) w = (let (r, w') = posix_pthread_cond_destroy cond w in Some (Out r, w'))"
| "call_step t _ w = None"

text \<open>The next step of the call a thread is in.\<close>

fun next_step :: "nat \<Rightarrow> Pc \<Rightarrow> CondWorld \<Rightarrow> (Pc \<times> CondWorld) option" where
  "next_step t (InLock p tm l) w =
     on_mutex (\<lambda>m. let (out, m') = Lock_step t tm l m in Some (locked_pc p tm out, m')) p w"
| "next_step t Waking w = Some (Out 0, WakeAll t w)"
| "next_step t (PreSleep c p r tm) w = Some (Asleep c p r tm, Sleep_begin t w)"
| "next_step t (Asleep c p r tm) w = map_option (Pair (Awake c p r 0)) (Sleep_acquire t w)"
| "next_step t (Awake c p r e) w = Cond_woken t c p r e w"
| "next_step t (Relock p r e l) w =
     on_mutex (\<lambda>m. let (out, m') = Lock_step t NoTime l m in Some (CvLock_end p r e out m')) p w"
| "next_step t (Releasing (u # us)) w = Some (Releasing us, release_sema u w)"
| "next_step t (Releasing []) w = Some (Out 0, w)"
| "next_step t _ w = None"

fun timeout_step :: "nat \<Rightarrow> Pc \<Rightarrow> CondWorld \<Rightarrow> (Pc \<times> CondWorld) option" where
  "timeout_step t (InLock p tm l) w = map_option (\<lambda>r. (Out r, w)) (Lock_timeout tm l)"
| "timeout_step t (Asleep c p r tm) w = (if tm = NoTime then None else Some (Awake c p r POSIX_ETIMEDOUT, w))"
| "timeout_step t _ w = None"

fun move :: "nat \<Rightarrow> Move \<Rightarrow> Pc \<Rightarrow> CondWorld \<Rightarrow> (Pc \<times> CondWorld) option" where
  "move t MNext pc w = next_step t pc w"
| "move t MTimeout pc w = timeout_step t pc w"
| "move t (MCancelFlags a b c) pc w =
     Some (pc, upd_thread t (\<lambda>td. td\<lparr>cancel_enable := a, cancel_pending := b, no_cancel := c\<rparr>) w)"
| "move t (MLoops p a b) pc w =
     map_option (\<lambda>(u, w'). (pc, w')) (on_mutex (\<lambda>m. Some ((), m\<lparr>m_spinloops := a, m_yieldloops := b\<rparr>)) p w)"
| "move t mv (Out r) w = call_step t mv w"
| "move t mv pc w = None"

text \<open>
  Allocation returns memory that is not in use, and \<open>signalto_np\<close> is called for a thread that waits on
  the variable, if for any.
\<close>

definition move_ok :: "Move \<Rightarrow> CondWorld \<Rightarrow> bool" where
  "move_ok mv w = (case mv of
     MLock mutex tm (Some p) \<Rightarrow> p > 2 \<and> mutexes w p = None
   | MTryLock mutex (Some p) \<Rightarrow> p > 2 \<and> mutexes w p = None
   | MMutexInit mutex attr (Some p) \<Rightarrow> p > 2 \<and> mutexes w p = None
   | MSignal cond (Some td) new \<Rightarrow> td = 0 \<or>
       cond_cells w cond > 1 \<and> wchan (threads w td) = Some (cond_cells w cond)
   | _ \<Rightarrow> True)"

type_synonym CondConfig = "(nat \<Rightarrow> Pc) \<times> CondWorld"

inductive cond_step :: "CondConfig \<Rightarrow> CondConfig \<Rightarrow> bool" where
  thread: "move t mv (pcs t) w = Some (pc', w') \<Longrightarrow> move_ok mv w \<Longrightarrow> cond_step (pcs, w) (pcs(t := pc'), w')"

definition cond_start :: "CondWorld \<Rightarrow> bool" where
  "cond_start w \<longleftrightarrow> no_sleepers w \<and> (\<forall>p m. mutexes w p = Some m \<longrightarrow> m_lock m = m_owner m) \<and>
     (\<forall>t. defer_waiters (threads w t) = [] \<and> \<not> will_sleep (threads w t))"

end
