(* ===== verification/Cond_Wakeup.thy ===== *)
theory Cond_Wakeup
  imports Pthread_Cond
begin

unbundle bit_operations_syntax

text \<open>
  No wake-up of a condition variable is lost: the invariant \<open>cond_inv\<close> of the threads in
  \<open>Pthread_Cond\<close>, kept by every step, and two runs.
\<close>

section \<open>The invariant\<close>

text \<open>
  A thread that is asleep and no longer in a queue has its wake-up ahead of it: the semaphore is
  released already, or it is on the list of a thread, or in the hands of one that is about to release.
  Such a list belongs to a thread that will empty it: it holds a mutex that is marked, or is about to
  call \<open>WakeAll\<close>.
\<close>

definition sleeping :: "Pc \<Rightarrow> bool" where
  "sleeping pc = (case pc of PreSleep c p r tm \<Rightarrow> True | Asleep c p r tm \<Rightarrow> True | _ \<Rightarrow> False)"

definition will_wake :: "Pc \<Rightarrow> bool" where
  "will_wake pc = (case pc of PreSleep c p r tm \<Rightarrow> True | Waking \<Rightarrow> True | _ \<Rightarrow> False)"

text \<open>The channel a thread may be queued on.\<close>

definition channel :: "Pc \<Rightarrow> nat option" where
  "channel pc = (case pc of PreSleep c p r tm \<Rightarrow> Some c | Asleep c p r tm \<Rightarrow> Some c | Awake c p r e \<Rightarrow> Some c
     | Stopped c \<Rightarrow> Some c | _ \<Rightarrow> None)"

definition holds_deferred :: "nat \<Rightarrow> 'a MutexWorld_scheme \<Rightarrow> bool" where
  "holds_deferred s w \<longleftrightarrow> (\<exists>p m. mutexes w p = Some m \<and> m_owner m = Some s \<and> m_flags m AND FlagDeferred \<noteq> 0)"

definition pending :: "Pc \<Rightarrow> nat list" where
  "pending pc = (case pc of Releasing us \<Rightarrow> us | _ \<Rightarrow> [])"

definition wake_coming :: "(nat \<Rightarrow> Pc) \<Rightarrow> 'a MutexWorld_scheme \<Rightarrow> nat \<Rightarrow> bool" where
  "wake_coming pcs w t \<longleftrightarrow> wake_sema (threads w t) > 0 \<or> (\<exists>s. t \<in> set (defer_waiters (threads w s))) \<or>
     (\<exists>s. t \<in> set (pending (pcs s)))"

definition locks_ok :: "'a MutexWorld_scheme \<Rightarrow> bool" where
  "locks_ok w \<longleftrightarrow> (\<forall>p m. mutexes w p = Some m \<longrightarrow> m_lock m = m_owner m)"

definition cond_inv :: "CondConfig \<Rightarrow> bool" where
  "cond_inv s \<longleftrightarrow> (case s of (pcs, w) \<Rightarrow> sq_wf w \<and> locks_ok w \<and>
     (\<forall>s. defer_waiters (threads w s) \<noteq> [] \<longrightarrow> will_wake (pcs s) \<or> holds_deferred s w) \<and>
     (\<forall>t. will_sleep (threads w t) \<longrightarrow> (\<exists>c p r tm. pcs t = PreSleep c p r tm)) \<and>
     (\<forall>t. sleeping (pcs t) \<longrightarrow> wchan (threads w t) = None \<longrightarrow> wake_coming pcs w t) \<and>
     (\<forall>t. wchan (threads w t) = None \<or> wchan (threads w t) = channel (pcs t)))"

lemma cond_invD:
  assumes "cond_inv (pcs, w)"
  shows "sq_wf w" "locks_ok w" "defer_waiters (threads w s) \<noteq> [] \<Longrightarrow> will_wake (pcs s) \<or> holds_deferred s w"
    "will_sleep (threads w t) \<Longrightarrow> \<exists>c p r tm. pcs t = PreSleep c p r tm"
    "sleeping (pcs t) \<Longrightarrow> wchan (threads w t) = None \<Longrightarrow> wake_coming pcs w t"
    "wchan (threads w t) = None \<or> wchan (threads w t) = channel (pcs t)"
  using assms by (auto simp: cond_inv_def)

lemma cond_inv_step:
  assumes inv: "cond_inv (pcs, w)" and "sq_wf w'" "locks_ok w'"
    and others: "\<And>s. s \<noteq> t \<Longrightarrow> defer_waiters (threads w' s) = defer_waiters (threads w s) \<and>
      will_sleep (threads w' s) = will_sleep (threads w s) \<and> (holds_deferred s w \<longrightarrow> holds_deferred s w') \<and>
      (wchan (threads w' s) = wchan (threads w s) \<or> wchan (threads w' s) = None)"
    and "defer_waiters (threads w' t) \<noteq> [] \<Longrightarrow> will_wake pc' \<or> holds_deferred t w'"
    and "will_sleep (threads w' t) \<Longrightarrow> \<exists>c p r tm. pc' = PreSleep c p r tm"
    and "\<And>u. sleeping ((pcs(t := pc')) u) \<Longrightarrow> wchan (threads w' u) = None \<Longrightarrow> wake_coming (pcs(t := pc')) w' u"
    and "wchan (threads w' t) = None \<or> wchan (threads w' t) = channel pc'"
  shows "cond_inv (pcs(t := pc'), w')"
  unfolding cond_inv_def prod.case
proof (intro conjI allI impI)
  fix s assume d: "defer_waiters (threads w' s) \<noteq> []"
  show "will_wake ((pcs(t := pc')) s) \<or> holds_deferred s w'"
    using d assms(5) others [of s] cond_invD(3) [OF inv, of s] by (cases "s = t") auto
next
  fix s assume d: "will_sleep (threads w' s)"
  show "\<exists>c p r tm. (pcs(t := pc')) s = PreSleep c p r tm"
    using d assms(6) others [of s] cond_invD(4) [OF inv, of s] by (cases "s = t") auto
next
  fix s show "wchan (threads w' s) = None \<or> wchan (threads w' s) = channel ((pcs(t := pc')) s)"
    using assms(8) others [of s] cond_invD(6) [OF inv, of s] by (cases "s = t") auto
qed (use assms in auto)

lemma wake_coming_mono:
  assumes "wake_coming pcs w u"
    and "wake_sema (threads w u) > 0 \<Longrightarrow> wake_sema (threads w' u) > 0"
    and "\<And>s. u \<in> set (defer_waiters (threads w s)) \<Longrightarrow>
      u \<in> set (defer_waiters (threads w' s)) \<or> wake_sema (threads w' u) > 0"
    and "\<And>s. u \<in> set (pending (pcs s)) \<Longrightarrow> u \<in> set (pending (pcs' s)) \<or> wake_sema (threads w' u) > 0"
  shows "wake_coming pcs' w' u"
  using assms unfolding wake_coming_def by blast

text \<open>Steps that touch no list and no semaphore.\<close>

definition plain :: "Pc \<Rightarrow> bool" where
  "plain pc \<longleftrightarrow> \<not> will_wake pc \<and> pending pc = []"

lemma cond_inv_plain:
  assumes inv: "cond_inv (pcs, w)" and sq: "sq_wf w'" and lk: "locks_ok w'" and pc: "plain (pcs t)"
    and h: "\<And>s. holds_deferred s w \<Longrightarrow> holds_deferred s w'"
    and th: "\<And>s. defer_waiters (threads w' s) = defer_waiters (threads w s) \<and>
      will_sleep (threads w' s) = will_sleep (threads w s) \<and> wake_sema (threads w' s) = wake_sema (threads w s)"
    and wc: "\<And>s. s \<noteq> t \<Longrightarrow> wchan (threads w' s) = wchan (threads w s)"
    and pc': "sleeping pc' \<Longrightarrow> sleeping (pcs t) \<and> wchan (threads w' t) = wchan (threads w t)"
    and ch: "wchan (threads w' t) = None \<or> wchan (threads w' t) = wchan (threads w t) \<and> channel pc' = channel (pcs t)"
  shows "cond_inv (pcs(t := pc'), w')"
proof (rule cond_inv_step [OF inv sq lk])
  show "defer_waiters (threads w' s) = defer_waiters (threads w s) \<and>
      will_sleep (threads w' s) = will_sleep (threads w s) \<and> (holds_deferred s w \<longrightarrow> holds_deferred s w') \<and>
      (wchan (threads w' s) = wchan (threads w s) \<or> wchan (threads w' s) = None)" if "s \<noteq> t" for s
    using th h wc [OF that] by blast
  show "will_wake pc' \<or> holds_deferred t w'" if "defer_waiters (threads w' t) \<noteq> []"
    using that th cond_invD(3) [OF inv, of t] pc h by (auto simp: plain_def)
  show "\<exists>c p r tm. pc' = PreSleep c p r tm" if "will_sleep (threads w' t)"
    using that th cond_invD(4) [OF inv, of t] pc by (auto simp: plain_def will_wake_def)
  show "wchan (threads w' t) = None \<or> wchan (threads w' t) = channel pc'"
    using ch cond_invD(6) [OF inv, of t] by auto
  fix u assume s: "sleeping ((pcs(t := pc')) u)" "wchan (threads w' u) = None"
  then have "sleeping (pcs u) \<and> wchan (threads w u) = None" using wc pc' by (cases "u = t") auto
  then have "wake_coming pcs w u" using cond_invD(5) [OF inv] by blast
  then show "wake_coming (pcs(t := pc')) w' u"
    by (rule wake_coming_mono) (use th pc in \<open>auto simp: plain_def\<close>)
qed

section \<open>Steps on a mutex\<close>

lemma upd_thread_simps [simp]:
  "threads (upd_thread t f w) u = (if u = t then f (threads w t) else threads w u)"
  "mutexes (upd_thread t f w) = mutexes w" "mutex_cells (upd_thread t f w) = mutex_cells w"
  by (simp_all add: upd_thread_def)

lemma upd_thread_sleep [simp]:
  "sqs (upd_thread t f w) = sqs w" "sc_table (upd_thread t f w) = sc_table w" for w :: "'a SleepWorld_scheme"
  by (simp_all add: upd_thread_def)

lemma upd_thread_conds [simp]:
  "conds (upd_thread t f w) = conds w" "cond_cells (upd_thread t f w) = cond_cells w" for w :: CondWorld
  by (simp_all add: upd_thread_def)

lemma same_sleep_wf: "same_sleep w w' \<Longrightarrow> sq_wf w \<Longrightarrow> sq_wf w'"
  by (simp add: same_sleep_def sq_wf_def linked_def)

lemma same_sleep_waiting: "same_sleep w w' \<Longrightarrow> waiting w' = waiting w"
  by (rule ext) (simp add: same_sleep_def waiting_def SleepqLookup_def split: option.split)

text \<open>Locking takes a free mutex, or changes the count only.\<close>

definition lock_effect :: "nat \<Rightarrow> PthreadMutex \<Rightarrow> PthreadMutex \<Rightarrow> bool" where
  "lock_effect t m m' \<longleftrightarrow> m_flags m' = m_flags m \<and>
     (m_owner m' = m_owner m \<and> m_lock m' = m_lock m \<or>
      m_lock m = None \<and> m_owner m' = Some t \<and> m_lock m' = Some t)"

lemma count_up_effect: "count_up m = Some (r, m') \<Longrightarrow> lock_effect t m m'"
  by (auto simp: count_up_def lock_effect_def split: if_splits)

lemma Lock_effect: "Lock t tm m = Some (out, m') \<Longrightarrow> lock_effect t m m'"
  by (auto simp: Lock_def SelfLock_def lock_effect_def dest!: count_up_effect [of _ _ _ t] split: if_splits)

lemma TryLock_effect: "TryLock t m = Some (r, m') \<Longrightarrow> lock_effect t m m'"
  by (auto simp: TryLock_def SelfTryLock_def try_acquire_def lock_effect_def dest!: count_up_effect [of _ _ _ t]
      split: if_splits option.splits)

lemma Lock_step_effect: "Lock_step t tm l m = (out, m') \<Longrightarrow> lock_effect t m m'"
  by (erule Lock_step_cases) (auto simp: try_acquire_def lock_effect_def split: if_splits)

lemma lock_effect_world:
  assumes "lock_effect t m m'" "mutexes w p = Some m" "mutexes w' = (mutexes w)(p \<mapsto> m')" "locks_ok w"
  shows "locks_ok w'" "holds_deferred s w \<Longrightarrow> holds_deferred s w'"
proof -
  have l: "m_lock m = m_owner m" using assms(2,4) by (auto simp: locks_ok_def)
  then have l': "m_lock m' = m_owner m'" using assms(1) by (auto simp: lock_effect_def)
  then show "locks_ok w'" using assms(3,4) by (auto simp: locks_ok_def)
  assume "holds_deferred s w"
  then obtain q k where k: "mutexes w q = Some k" "m_owner k = Some s" "m_flags k AND FlagDeferred \<noteq> 0"
    by (auto simp: holds_deferred_def)
  show "holds_deferred s w'"
  proof (cases "q = p")
    case True
    with k assms(1,2) l have "m_owner m' = Some s" "m_flags m' AND FlagDeferred \<noteq> 0" by (auto simp: lock_effect_def)
    then show ?thesis using assms(3) by (auto simp: holds_deferred_def)
  next
    case False
    then show ?thesis using k assms(3) by (auto simp: holds_deferred_def)
  qed
qed

text \<open>What a step on a mutex leaves alone, and what it keeps.\<close>

definition mutex_moved :: "CondWorld \<Rightarrow> CondWorld \<Rightarrow> bool" where
  "mutex_moved w w' \<longleftrightarrow> locks_ok w' \<and> (\<forall>s. holds_deferred s w \<longrightarrow> holds_deferred s w') \<and> threads w' = threads w \<and>
     sqs w' = sqs w \<and> sc_table w' = sc_table w \<and> conds w' = conds w"

lemma mutex_moved_trans: "mutex_moved w w1 \<Longrightarrow> mutex_moved w1 w' \<Longrightarrow> mutex_moved w w'"
  by (simp add: mutex_moved_def)

lemma on_mutex_moved:
  assumes "on_mutex f p w = Some (r, w')" "locks_ok w"
    and "\<And>m r m'. mutexes w p = Some m \<Longrightarrow> f m = Some (r, m') \<Longrightarrow> lock_effect t m m'"
  shows "mutex_moved w w'"
proof -
  obtain m m' where m: "mutexes w p = Some m" "f m = Some (r, m')" "w' = w\<lparr>mutexes := (mutexes w)(p \<mapsto> m')\<rparr>"
    using assms(1) by (auto simp: on_mutex_def bind_iff)
  from m(3) have "mutexes w' = (mutexes w)(p \<mapsto> m')" by simp
  from lock_effect_world [OF assms(3) [OF m(1,2)] m(1) this assms(2)] m(3) show ?thesis
    by (simp add: mutex_moved_def)
qed

lemma MutexInit_moved:
  assumes "MutexInit mutex attr name new w = (r, w')" "locks_ok w" "\<And>p. new = Some p \<Longrightarrow> mutexes w p = None"
  shows "mutex_moved w w'"
proof (cases "w' = w")
  case True
  then show ?thesis using assms(2) by (simp add: mutex_moved_def)
next
  case False
  then obtain p nm a where p: "new = Some p" "mutexes w' = (mutexes w)(p \<mapsto> construct_PthreadMutex a nm)"
    "threads w' = threads w" "sqs w' = sqs w" "sc_table w' = sc_table w" "conds w' = conds w"
    using assms(1) by (auto simp: MutexInit_def Let_def split: if_splits option.splits)
  have "locks_ok w'" using assms(2) p by (auto simp: locks_ok_def construct_PthreadMutex_def)
  moreover have "holds_deferred s w'" if "holds_deferred s w" for s
  proof -
    from that obtain q k where k: "mutexes w q = Some k" "m_owner k = Some s" "m_flags k AND FlagDeferred \<noteq> 0"
      by (auto simp: holds_deferred_def)
    moreover from k have "q \<noteq> p" using assms(3) p(1) by auto
    ultimately show ?thesis using p(2) by (auto simp: holds_deferred_def)
  qed
  ultimately show ?thesis using p by (simp add: mutex_moved_def)
qed

lemma check_and_init_mutex_moved:
  assumes "check_and_init_mutex mutex new w = (r, w')" "locks_ok w" "\<And>p. new = Some p \<Longrightarrow> mutexes w p = None"
  shows "mutex_moved w w'"
proof (cases "w' = w")
  case True
  then show ?thesis using assms(2) by (simp add: mutex_moved_def)
next
  case False
  with assms(1) obtain a where "MutexInit mutex a None new w = (r, w')"
    by (auto simp: check_and_init_mutex_def InitStatic_def split: if_splits)
  from MutexInit_moved [OF this assms(2,3)] show ?thesis .
qed

lemma with_mutex_moved:
  assumes "with_mutex mutex new f w = Some (x, w')" "locks_ok w" "\<And>p. new = Some p \<Longrightarrow> mutexes w p = None"
    and "\<And>m r m'. f m = Some (r, m') \<Longrightarrow> lock_effect t m m'"
  shows "mutex_moved w w'"
proof -
  obtain ret w1 where 1: "check_and_init_mutex mutex new w = (ret, w1)" by fastforce
  have m1: "mutex_moved w w1" by (rule check_and_init_mutex_moved [OF 1 assms(2,3)])
  show ?thesis
  proof (cases "ret = 0")
    case True
    with assms(1) 1 obtain r where "on_mutex f (mutex_cells w1 mutex) w1 = Some (r, w')"
      by (auto simp: with_mutex_def)
    from on_mutex_moved [OF this _ assms(4)] m1 show ?thesis by (auto simp: mutex_moved_def)
  next
    case False
    with assms(1) 1 m1 show ?thesis by (auto simp: with_mutex_def)
  qed
qed

lemma cond_inv_moved:
  assumes inv: "cond_inv (pcs, w)" and m: "mutex_moved w w'" and pc: "plain (pcs t)" "wchan (threads w t) = None"
    and pc': "\<not> sleeping pc'"
  shows "cond_inv (pcs(t := pc'), w')"
proof -
  have "same_sleep w w'" using m by (simp add: mutex_moved_def same_sleep_def)
  then have "sq_wf w'" using cond_invD(1) [OF inv] by (rule same_sleep_wf)
  with m pc' pc(2) show ?thesis
    by (intro cond_inv_plain [OF inv _ _ pc(1)]) (auto simp: mutex_moved_def)
qed

lemma cond_inv_moved_same:
  assumes inv: "cond_inv (pcs, w)" and m: "mutex_moved w w'"
  shows "cond_inv (pcs, w')"
proof -
  have th: "threads w' = threads w" using m by (simp add: mutex_moved_def)
  have "same_sleep w w'" using m by (simp add: mutex_moved_def same_sleep_def)
  then have sq: "sq_wf w'" using cond_invD(1) [OF inv] by (rule same_sleep_wf)
  have h: "holds_deferred s w \<Longrightarrow> holds_deferred s w'" for s using m by (simp add: mutex_moved_def)
  have wk: "wake_coming pcs w' u = wake_coming pcs w u" for u by (simp add: wake_coming_def th)
  show ?thesis unfolding cond_inv_def prod.case th wk
    using sq m h cond_invD [OF inv] by (auto simp: mutex_moved_def)
qed

lemma plain_simps [simp]:
  "plain (Out r)" "plain (InLock p tm l)" "plain (Awake c p r e)" "plain (Asleep c p r tm)" "plain (Relock p r eo l)"
  "plain (Stopped c)" "\<not> plain Waking" "\<not> plain (PreSleep c p r tm)" "plain (Releasing us) \<longleftrightarrow> us = []"
  "sleeping (PreSleep c p r tm)" "sleeping (Asleep c p r tm)" "\<not> sleeping (Out r)" "\<not> sleeping (InLock p tm l)"
  "\<not> sleeping (Awake c p r e)" "\<not> sleeping (Relock p r eo l)" "\<not> sleeping (Stopped c)" "\<not> sleeping Waking"
  "\<not> sleeping (Releasing us)" "will_wake Waking" "will_wake (PreSleep c p r tm)" "pending (Releasing us) = us"
  "pending (Out r) = []" "pending Waking = []" "pending (PreSleep c p r tm) = []" "pending (Asleep c p r tm) = []"
  "\<not> will_wake (Out r)" "\<not> will_wake (Asleep c p r tm)" "\<not> will_wake (Releasing us)" "pending (Awake c p r e) = []"
  by (simp_all add: plain_def sleeping_def will_wake_def pending_def)

lemma channel_simps [simp]:
  "channel (PreSleep c p r tm) = Some c" "channel (Asleep c p r tm) = Some c" "channel (Awake c p r e) = Some c"
  "channel (Out r) = None" "channel (InLock p tm l) = None" "channel Waking = None"
  "channel (Relock p r eo l) = None" "channel (Releasing us) = None" "channel (Stopped c) = Some c"
  by (simp_all add: channel_def)

lemma locked_pc_sleeping [simp]: "\<not> sleeping (locked_pc p tm out)"
  by (simp add: locked_pc_def split: LockOutcome.split)

text \<open>Unlocking, and destroying a mutex that is free.\<close>

lemma unlock_cond_inv:
  assumes inv: "cond_inv (pcs, w)" and pc: "pcs t = Out r0"
    and u: "posix_pthread_mutex_unlock t mutex w = Some ((r, wk), w')"
  shows "cond_inv (pcs(t := if wk then Waking else Out r), w')"
proof (cases "mutex_cells w mutex \<le> THR_MUTEX_DESTROYED")
  case True
  then have "w' = w" "\<not> wk" using u by (auto simp: posix_pthread_mutex_unlock_def Let_def split: if_splits)
  then show ?thesis using cond_invD [OF inv] pc by (intro cond_inv_plain [OF inv]) auto
next
  case False
  then obtain p m m' where p: "mutexes w p = Some m" "Unlock t (will_sleep (threads w t)) m = Some ((r, wk), m')"
    "w' = w\<lparr>mutexes := (mutexes w)(p \<mapsto> m')\<rparr>"
    using u by (auto simp: posix_pthread_mutex_unlock_def on_mutex_def bind_iff Let_def split: if_splits)
  have ws: "\<not> will_sleep (threads w t)" using cond_invD(4) [OF inv, of t] pc by auto
  have lk: "m_lock m = m_owner m" using cond_invD(2) [OF inv] p(1) by (auto simp: locks_ok_def)
  have ss: "same_sleep w w'" using p(3) by (simp add: same_sleep_def)
  show ?thesis
  proof (cases "m_owner m = Some t \<and> \<not> (Type m = Recursive \<and> m_count m > 0)")
    case False
    then have "lock_effect t m m'" "\<not> wk" using p(2) by (auto simp: Unlock_def lock_effect_def split: if_splits)
    with lock_effect_world [OF _ p(1) _ cond_invD(2) [OF inv], of t m' w'] p(3)
    have "mutex_moved w w'" by (simp add: mutex_moved_def)
    then show ?thesis using pc \<open>\<not> wk\<close> cond_invD(6) [OF inv, of t] by (intro cond_inv_moved [OF inv]) auto
  next
    case True
    then have m': "m_owner m' = None" "m_lock m' = None" "wk = (m_flags m AND FlagDeferred \<noteq> 0)"
      using p(2) ws lk by (auto simp: Unlock_def)
    have others: "holds_deferred s w'" if h: "holds_deferred s w" "s \<noteq> t \<or> \<not> wk" for s
    proof -
      obtain q k where k: "mutexes w q = Some k" "m_owner k = Some s" "m_flags k AND FlagDeferred \<noteq> 0"
        using h(1) by (auto simp: holds_deferred_def)
      then have "q \<noteq> p" using h(2) True p(1) m'(3) by auto
      with k p(3) show ?thesis by (auto simp: holds_deferred_def)
    qed
    show ?thesis
    proof (rule cond_inv_step [OF inv same_sleep_wf [OF ss cond_invD(1) [OF inv]]])
      show "locks_ok w'" using cond_invD(2) [OF inv] p(3) m' by (auto simp: locks_ok_def)
      show "will_wake (if wk then Waking else Out r) \<or> holds_deferred t w'" if "defer_waiters (threads w' t) \<noteq> []"
        using that p(3) cond_invD(3) [OF inv, of t] pc others [of t] by auto
      show "\<exists>c p r' tm. (if wk then Waking else Out r) = PreSleep c p r' tm" if "will_sleep (threads w' t)"
        using that p(3) ws by simp
      show "wake_coming (pcs(t := if wk then Waking else Out r)) w' u"
        if "sleeping ((pcs(t := if wk then Waking else Out r)) u)" "wchan (threads w' u) = None" for u
      proof -
        have "wake_coming pcs w u" using that p(3) cond_invD(5) [OF inv, of u] by (auto split: if_splits)
        then show ?thesis by (rule wake_coming_mono) (use p(3) pc in auto)
      qed
    qed (use p(3) others cond_invD(6) [OF inv, of t] pc in auto)
  qed
qed

section \<open>Steps that wake\<close>

lemma release_sema_simps [simp]:
  "mutexes (release_sema u w) = mutexes w"
  "threads (release_sema u w) s =
     (if s = u then (threads w s)\<lparr>wake_sema := wake_sema (threads w s) + 1\<rparr> else threads w s)"
  by (simp_all add: release_sema_def)

lemma fold_release_threads:
  "threads (fold release_sema us w) s = (threads w s)\<lparr>wake_sema := wake_sema (threads w s) + count_list us s\<rparr>"
  by (induction us arbitrary: w) auto

lemma fold_release_mutexes: "mutexes (fold release_sema us w) = mutexes w"
  by (induction us arbitrary: w) auto

lemma fold_release_sleep: "same_sleep w (fold release_sema us w)"
  by (induction us arbitrary: w) (auto simp: same_sleep_def release_sema_def)

lemma fold_release_conds: "conds (fold release_sema us w) = conds w" for w :: CondWorld
  by (induction us arbitrary: w) (auto simp: release_sema_def)

lemma WakeAll_threads:
  "threads (WakeAll t w) s = (threads w s)\<lparr>wake_sema := wake_sema (threads w s) + count_list (defer_waiters (threads w t)) s,
     defer_waiters := (if s = t then [] else defer_waiters (threads w s))\<rparr>"
  by (auto simp: WakeAll_def fold_release_threads)

lemma WakeAll_rest: "mutexes (WakeAll t w) = mutexes w"
  by (simp add: WakeAll_def fold_release_mutexes)

lemma WakeAll_sleep: "same_sleep w (WakeAll t w)"
  using fold_release_sleep [of w "defer_waiters (threads w t)"] by (simp add: WakeAll_def same_sleep_def)

lemma WakeAll_conds: "conds (WakeAll t w) = conds w" for w :: CondWorld
  by (simp add: WakeAll_def fold_release_conds)

lemma holds_deferred_cong: "mutexes w' = mutexes w \<Longrightarrow> holds_deferred s w' = holds_deferred s w"
  by (simp add: holds_deferred_def)

lemma count_list_pos_iff: "count_list xs x > 0 \<longleftrightarrow> x \<in> set xs"
  by (induction xs) auto

lemmas count_list_pos = count_list_pos_iff [THEN iffD2]

text \<open>A thread empties its list.\<close>

lemma wake_all_cond_inv:
  assumes inv: "cond_inv (pcs, w)" and pc: "will_wake (pcs t)"
    and w': "\<And>s. threads w' s = (threads w s)\<lparr>wake_sema := wake_sema (threads w s) + count_list (defer_waiters (threads w t)) s,
      defer_waiters := (if s = t then [] else defer_waiters (threads w s)),
      will_sleep := (if s = t then False else will_sleep (threads w s))\<rparr>"
    and rest: "mutexes w' = mutexes w" "same_sleep w w'"
    and pc': "sleeping pc' \<Longrightarrow> sleeping (pcs t)" and ch: "channel pc' = channel (pcs t)"
  shows "cond_inv (pcs(t := pc'), w')"
proof (rule cond_inv_step [OF inv same_sleep_wf [OF rest(2) cond_invD(1) [OF inv]]])
  show "locks_ok w'" using cond_invD(2) [OF inv] rest(1) by (simp add: locks_ok_def)
  fix u assume s: "sleeping ((pcs(t := pc')) u)" "wchan (threads w' u) = None"
  then have "sleeping (pcs u)" "wchan (threads w u) = None" using w' pc' by (auto split: if_splits)
  then have "wake_coming pcs w u" using cond_invD(5) [OF inv] by blast
  then show "wake_coming (pcs(t := pc')) w' u"
  proof (rule wake_coming_mono)
    show "u \<in> set (defer_waiters (threads w' s)) \<or> wake_sema (threads w' u) > 0"
      if "u \<in> set (defer_waiters (threads w s))" for s
      using that count_list_pos [of u "defer_waiters (threads w t)"] by (cases "s = t") (simp_all add: w')
    show "u \<in> set (pending ((pcs(t := pc')) s)) \<or> wake_sema (threads w' u) > 0"
      if "u \<in> set (pending (pcs s))" for s
      using that pc by (cases "s = t") (auto simp: pending_def will_wake_def split: Pc.splits)
  qed (simp add: w')
qed (use w' holds_deferred_cong [OF rest(1)] cond_invD(6) [OF inv, of t] ch in auto)

lemma waking_cond_inv:
  assumes "cond_inv (pcs, w)" "pcs t = Waking"
  shows "cond_inv (pcs(t := Out 0), WakeAll t w)"
proof (rule wake_all_cond_inv [OF assms(1), of t])
  have "\<not> will_sleep (threads w t)" using cond_invD(4) [OF assms(1), of t] assms(2) by auto
  then show "threads (WakeAll t w) s = (threads w s)\<lparr>wake_sema := wake_sema (threads w s) + count_list (defer_waiters (threads w t)) s,
      defer_waiters := (if s = t then [] else defer_waiters (threads w s)),
      will_sleep := (if s = t then False else will_sleep (threads w s))\<rparr>" for s
    by (simp add: WakeAll_threads)
qed (use assms(2) in \<open>simp_all add: WakeAll_rest WakeAll_sleep\<close>)

lemma sleep_begin_cond_inv:
  assumes "cond_inv (pcs, w)" "pcs t = PreSleep c p r tm"
  shows "cond_inv (pcs(t := Asleep c p r tm), Sleep_begin t w)"
proof (rule wake_all_cond_inv [OF assms(1), of t])
  show "threads (Sleep_begin t w) s = (threads w s)\<lparr>wake_sema := wake_sema (threads w s) + count_list (defer_waiters (threads w t)) s,
      defer_waiters := (if s = t then [] else defer_waiters (threads w s)),
      will_sleep := (if s = t then False else will_sleep (threads w s))\<rparr>" for s
    by (simp add: Sleep_begin_def WakeAll_threads Let_def)
  show "same_sleep w (Sleep_begin t w)"
    using WakeAll_sleep [of "upd_thread t (\<lambda>td. td\<lparr>will_sleep := False\<rparr>) w" t]
    by (simp add: Sleep_begin_def Let_def same_sleep_def)
qed (use assms(2) in \<open>simp_all add: Sleep_begin_def Let_def WakeAll_rest\<close>)

lemma acquire_cond_inv:
  assumes inv: "cond_inv (pcs, w)" and pc: "pcs t = Asleep c p r tm" and a: "Sleep_acquire t w = Some w'"
  shows "cond_inv (pcs(t := Awake c p r e), w')"
proof -
  have w': "w' = upd_thread t (\<lambda>td. td\<lparr>wake_sema := wake_sema td - 1\<rparr>) w"
    using a by (simp add: Sleep_acquire_def split: if_splits)
  have ss: "same_sleep w w'" by (simp add: w' same_sleep_def)
  show ?thesis
  proof (rule cond_inv_step [OF inv same_sleep_wf [OF ss cond_invD(1) [OF inv]]])
    show "locks_ok w'" using cond_invD(2) [OF inv] by (simp add: w' locks_ok_def)
    show "will_wake (Awake c p r e) \<or> holds_deferred t w'" if "defer_waiters (threads w' t) \<noteq> []"
      using that cond_invD(3) [OF inv, of t] pc by (simp add: w' holds_deferred_def)
    show "\<exists>c' p' r' tm'. Awake c p r e = PreSleep c' p' r' tm'" if "will_sleep (threads w' t)"
      using that cond_invD(4) [OF inv, of t] pc by (simp add: w')
    fix u assume s: "sleeping ((pcs(t := Awake c p r e)) u)" "wchan (threads w' u) = None"
    then have u: "u \<noteq> t" "sleeping (pcs u)" "wchan (threads w u) = None" using w' by (auto split: if_splits)
    then have "wake_coming pcs w u" using cond_invD(5) [OF inv] by blast
    then show "wake_coming (pcs(t := Awake c p r e)) w' u"
      by (rule wake_coming_mono) (use w' u(1) pc in auto)
  qed (use cond_invD(6) [OF inv, of t] pc in \<open>auto simp: w' holds_deferred_def\<close>)
qed

lemma releasing_cond_inv:
  assumes inv: "cond_inv (pcs, w)" and pc: "pcs t = Releasing (x # us)"
  shows "cond_inv (pcs(t := Releasing us), release_sema x w)"
proof -
  let ?w = "release_sema x w"
  have ss: "same_sleep w ?w" using fold_release_sleep [of w "[x]"] by simp
  show ?thesis
  proof (rule cond_inv_step [OF inv same_sleep_wf [OF ss cond_invD(1) [OF inv]]])
    show "locks_ok ?w" using cond_invD(2) [OF inv] by (simp add: locks_ok_def)
    show "will_wake (Releasing us) \<or> holds_deferred t ?w" if "defer_waiters (threads ?w t) \<noteq> []"
      using that cond_invD(3) [OF inv, of t] pc by (auto simp: holds_deferred_def split: if_splits)
    show "\<exists>c p r tm. Releasing us = PreSleep c p r tm" if "will_sleep (threads ?w t)"
      using that cond_invD(4) [OF inv, of t] pc by (auto split: if_splits)
    fix u assume s: "sleeping ((pcs(t := Releasing us)) u)" "wchan (threads ?w u) = None"
    then have u: "sleeping (pcs u)" "wchan (threads w u) = None" by (auto split: if_splits)
    then have "wake_coming pcs w u" using cond_invD(5) [OF inv] by blast
    then show "wake_coming (pcs(t := Releasing us)) ?w u"
      by (rule wake_coming_mono) (use pc in \<open>auto split: if_splits\<close>)
  qed (use cond_invD(6) [OF inv, of t] pc in \<open>auto simp: holds_deferred_def\<close>)
qed

section \<open>Waiting\<close>

definition same_core :: "CondWorld \<Rightarrow> CondWorld \<Rightarrow> bool" where
  "same_core w w' \<longleftrightarrow> threads w' = threads w \<and> mutexes w' = mutexes w \<and> sqs w' = sqs w \<and> sc_table w' = sc_table w"

lemma same_core_refl [simp]: "same_core w w"
  by (simp add: same_core_def)

lemma cond_inv_core: "same_core w w' \<Longrightarrow> cond_inv (pcs, w) \<Longrightarrow> cond_inv (pcs, w')"
  by (simp add: same_core_def cond_inv_def sq_wf_def linked_def locks_ok_def holds_deferred_def wake_coming_def)

lemma set_waiters_core: "set_waiters c b w = Some w' \<Longrightarrow> same_core w w' \<and> mutex_cells w' = mutex_cells w"
  by (auto simp: set_waiters_def same_core_def)

lemma CondInit_core: "CondInit cond a name new w = Some (r, w') \<Longrightarrow> same_core w w'"
  by (auto simp: CondInit_def same_core_def Let_def bind_iff split: option.splits)

lemma check_and_init_cond_core: "check_and_init_cond cond new w = Some (r, w') \<Longrightarrow> same_core w w'"
  by (auto simp: check_and_init_cond_def Cond_InitStatic_def CondInit_core split: if_splits)

lemma IsOwned_0:
  assumes "IsOwned p t w = Some 0"
  obtains m where "mutexes w p = Some m" "m_owner m = Some t"
  using assms by (auto simp: IsOwned_def split: if_splits)

lemma wait_cond_inv:
  assumes inv: "cond_inv (pcs, w)" and pc: "pcs t = Out r0" and e: "Cond_Wait t c mutex tm w = Some (pc', w')"
  shows "cond_inv (pcs(t := pc'), w')"
proof (cases "IsOwned (mutex_cells w mutex) t w = Some 0")
  case False
  then have "w' = w" "\<exists>r. pc' = Out r" using e by (auto simp: Cond_Wait_def Let_def bind_iff split: if_splits)
  then show ?thesis using cond_invD [OF inv] pc by (intro cond_inv_plain [OF inv]) auto
next
  case True
  let ?p = "mutex_cells w mutex"
  obtain w1 m m' r recurse wk w4 where
    S: "wchan (threads w t) = None" "set_waiters c True w = Some w1" "mutexes w1 ?p = Some m"
      "CvUnlock t True m = Some ((r, recurse, wk), m')"
      "SleepqAdd c t (upd_thread t (\<lambda>td. td\<lparr>mutex_obj := Some ?p\<rparr>)
         (set_mutex ?p m' (upd_thread t (\<lambda>td. td\<lparr>will_sleep := True\<rparr>) w1))) = Some w4"
      "pc' = PreSleep c ?p recurse tm" "w' = ClearWake t w4"
    using e True by (auto simp: Cond_Wait_def Let_def bind_iff)
  let ?w3 = "upd_thread t (\<lambda>td. td\<lparr>mutex_obj := Some ?p\<rparr>)
         (set_mutex ?p m' (upd_thread t (\<lambda>td. td\<lparr>will_sleep := True\<rparr>) w1))"
  have core: "same_core w w1" using set_waiters_core [OF S(2)] by simp
  have inv1: "cond_inv (pcs, w1)" by (rule cond_inv_core [OF core inv])
  obtain m0 where "mutexes w ?p = Some m0" "m_owner m0 = Some t" by (rule IsOwned_0 [OF True])
  then have ow: "m_owner m = Some t" "m_lock m = Some t"
    using core S(3) cond_invD(2) [OF inv] by (auto simp: same_core_def locks_ok_def)
  then have m': "m_owner m' = None" "m_lock m' = None" using S(4) by (auto simp: CvUnlock_def Unlock_def)
  have ss: "same_sleep w1 ?w3" by (simp add: same_sleep_def set_mutex_def)
  have wf3: "sq_wf ?w3" by (rule same_sleep_wf [OF ss cond_invD(1) [OF inv1]])
  have "wchan (threads ?w3 t) = None" using S(1) core by (simp add: set_mutex_def same_core_def)
  from SleepqAdd_refines [OF wf3 this, of c] S(5) have A: "sq_wf w4" "mutexes w4 = mutexes ?w3"
    "threads w4 = (threads ?w3)(t := (threads ?w3 t)\<lparr>sleepqueue := None, wchan := Some c\<rparr>)" by auto
  have th: "threads w' s = threads w1 s" if "s \<noteq> t" for s
    using that A(3) by (simp add: S(7) ClearWake_def set_mutex_def)
  have tt: "wchan (threads w' t) = Some c" "defer_waiters (threads w' t) = defer_waiters (threads w1 t)"
    using A(3) by (simp_all add: S(7) ClearWake_def set_mutex_def)
  have mx: "mutexes w' = (mutexes w1)(?p \<mapsto> m')" using A(2) by (simp add: S(7) ClearWake_def set_mutex_def)
  have hd: "holds_deferred s w'" if h: "holds_deferred s w1" "s \<noteq> t" for s
  proof -
    obtain q k where k: "mutexes w1 q = Some k" "m_owner k = Some s" "m_flags k AND FlagDeferred \<noteq> 0"
      using h(1) by (auto simp: holds_deferred_def)
    then have "q \<noteq> ?p" using h(2) ow S(3) by auto
    with k mx show ?thesis by (auto simp: holds_deferred_def)
  qed
  show ?thesis unfolding S(6)
  proof (rule cond_inv_step [OF inv1])
    have "same_sleep w4 w'" by (simp add: S(7) ClearWake_def same_sleep_def)
    then show "sq_wf w'" using A(1) by (rule same_sleep_wf)
    show "locks_ok w'" using cond_invD(2) [OF inv1] mx m' by (auto simp: locks_ok_def)
    fix u assume s: "sleeping ((pcs(t := PreSleep c ?p recurse tm)) u)" "wchan (threads w' u) = None"
    then have u: "u \<noteq> t" using tt(1) by auto
    with s th have "wake_coming pcs w1 u" using cond_invD(5) [OF inv1, of u] by auto
    then show "wake_coming (pcs(t := PreSleep c ?p recurse tm)) w' u"
    proof (rule wake_coming_mono)
      show "u \<in> set (defer_waiters (threads w' s)) \<or> wake_sema (threads w' u) > 0"
        if "u \<in> set (defer_waiters (threads w1 s))" for s
        using that th [of s] tt(2) by (cases "s = t") auto
    qed (use th u pc in auto)
  qed (use th hd tt(1) in auto)
qed

text \<open>Leaving the queue, and locking the mutex again.\<close>

lemma leave_queue_frame:
  assumes wf: "sq_wf w" and e: "leave_queue t c w = Some w'" and t: "wchan (threads w t) = Some d"
    and c: "d = c"
  shows "sq_wf w'" "mutexes w' = mutexes w" "wchan (threads w' t) = None"
    "\<exists>q. threads w' = (threads w)(t := (threads w t)\<lparr>sleepqueue := q, wchan := None\<rparr>)"
proof -
  obtain sq b w1 where S: "SleepqLookup c w = Some sq" "SleepqRemove sq t w = Some (b, w1)" "set_waiters c b w1 = Some w'"
    using e by (auto simp: leave_queue_def bind_iff)
  have l: "sq \<in> linked w" "sq_wchan (sqs w sq) = c" using SleepqLookup_iff [OF wf] S(1) by auto
  have "t \<in> set (waiting w c)" using waiting_wchan(1) [OF wf] t c by simp
  then have "t \<in> set (sq_blocked (sqs w sq))" using waiting_linked [OF wf l(1)] l(2) by simp
  from SleepqRemove_refines [OF wf l(1) this] S(2)
  obtain f where R: "sq_wf w1" "mutexes w1 = mutexes w"
    "threads w1 = (threads w)(t := (threads w t)\<lparr>sleepqueue := Some f, wchan := None\<rparr>)" by auto
  have core: "same_core w1 w'" using set_waiters_core [OF S(3)] by simp
  show "sq_wf w'" using R(1) core by (simp add: same_core_def sq_wf_def linked_def)
  show "mutexes w' = mutexes w" using R(2) core by (simp add: same_core_def)
  show "\<exists>q. threads w' = (threads w)(t := (threads w t)\<lparr>sleepqueue := q, wchan := None\<rparr>)"
    using R(3) core by (auto simp: same_core_def)
  then show "wchan (threads w' t) = None" by auto
qed

lemma CvLock_end_not_sleeping [simp]: "\<not> sleeping (fst (CvLock_end p r eo out m))"
  by (simp add: CvLock_end_def split: LockOutcome.split)

lemma CvLock_end_effect: "lock_effect t m m' \<Longrightarrow> lock_effect t m (snd (CvLock_end p r eo out m'))"
  by (auto simp: CvLock_end_def lock_effect_def split: LockOutcome.split)

lemma CvLock_moved:
  assumes "CvLock t p r eo w = Some (pc', w')" "locks_ok w"
  shows "mutex_moved (upd_thread t (\<lambda>td. td\<lparr>mutex_obj := None\<rparr>) w) w'" "\<not> sleeping pc'"
proof -
  let ?w = "upd_thread t (\<lambda>td. td\<lparr>mutex_obj := None\<rparr>) w"
  have lk: "locks_ok ?w" using assms(2) by (simp add: locks_ok_def)
  have e: "on_mutex (\<lambda>m. do { (out, m') \<leftarrow> Lock t NoTime m; Some (CvLock_end p r eo out m') }) p ?w = Some (pc', w')"
    using assms(1) by (simp add: CvLock_def)
  then show "mutex_moved ?w w'"
  proof (rule on_mutex_moved [OF _ lk])
    fix m x m'
    assume "do { (out, m') \<leftarrow> Lock t NoTime m; Some (CvLock_end p r eo out m') } = Some (x, m')"
    then obtain out m1 where m1: "Lock t NoTime m = Some (out, m1)" "CvLock_end p r eo out m1 = (x, m')"
      by (auto simp: bind_iff)
    from CvLock_end_effect [OF Lock_effect [OF m1(1)], of p r eo out] m1(2) show "lock_effect t m m'" by simp
  qed
  from e obtain out m1 m' where "CvLock_end p r eo out m1 = (pc', m')" by (auto simp: on_mutex_def bind_iff)
  then show "\<not> sleeping pc'" using CvLock_end_not_sleeping [of p r eo out m1] by simp
qed

lemma CvLock_cond_inv:
  assumes inv: "cond_inv (pcs, w)" and pc: "pcs t = Awake c p r e" and t: "wchan (threads w t) = None"
    and l: "CvLock t p r eo w = Some (pc', w')"
  shows "cond_inv (pcs(t := pc'), w')"
proof -
  let ?w = "upd_thread t (\<lambda>td. td\<lparr>mutex_obj := None\<rparr>) w"
  have ss: "same_sleep w ?w" by (simp add: same_sleep_def)
  have "cond_inv (pcs(t := pcs t), ?w)"
    by (rule cond_inv_plain [OF inv same_sleep_wf [OF ss cond_invD(1) [OF inv]]])
      (use cond_invD(2) [OF inv] pc in \<open>auto simp: locks_ok_def holds_deferred_def\<close>)
  then have "cond_inv (pcs, ?w)" by simp
  from cond_inv_moved [OF this, of w' t pc'] CvLock_moved [OF l cond_invD(2) [OF inv]] pc t show ?thesis by simp
qed

lemma woken_cond_inv:
  assumes inv: "cond_inv (pcs, w)" and pc: "pcs t = Awake c p r e" and k: "Cond_woken t c p r e w = Some (pc', w')"
  shows "cond_inv (pcs(t := pc'), w')"
proof (cases "wchan (threads w t)")
  case None
  with k have "CvLock t p r (Some 0) w = Some (pc', w')" by (simp add: Cond_woken_def)
  then show ?thesis by (rule CvLock_cond_inv [OF inv pc None])
next
  case (Some d)
  then have d: "d = c" using cond_invD(6) [OF inv, of t] pc by simp
  show ?thesis
  proof (cases "ShouldCancel (threads w t) \<or> e = POSIX_ETIMEDOUT")
    case False
    with k Some have "pc' = Stopped c" "w' = w" by (auto simp: Cond_woken_def)
    then show ?thesis using cond_invD [OF inv] pc by (intro cond_inv_plain [OF inv]) auto
  next
    case True
    with k Some obtain w1 eo where l: "leave_queue t c w = Some w1" "CvLock t p r eo w1 = Some (pc', w')"
      by (auto simp: Cond_woken_def bind_iff split: if_splits)
    note F = leave_queue_frame [OF cond_invD(1) [OF inv] l(1) Some d]
    obtain q where th: "threads w1 = (threads w)(t := (threads w t)\<lparr>sleepqueue := q, wchan := None\<rparr>)" using F(4) by blast
    have "cond_inv (pcs(t := pcs t), w1)"
      by (rule cond_inv_plain [OF inv F(1)])
        (use cond_invD(2) [OF inv] pc F(2) th in \<open>auto simp: locks_ok_def holds_deferred_def\<close>)
    then have "cond_inv (pcs, w1)" by simp
    then show ?thesis using CvLock_cond_inv [of pcs w1 t c p r e eo pc' w'] pc F(3) l(2) by blast
  qed
qed

section \<open>Signals\<close>

lemma defer_wake_threads:
  "threads (defer_wake t td mp m w) s = (threads w s)\<lparr>
     wake_sema := wake_sema (threads w s) + (if length (defer_waiters (threads w t)) \<ge> MaxDeferWaiters
       then count_list (defer_waiters (threads w t)) s else 0),
     defer_waiters := (if s = t then (if length (defer_waiters (threads w t)) \<ge> MaxDeferWaiters then []
       else defer_waiters (threads w t)) @ [td] else defer_waiters (threads w s))\<rparr>"
  by (auto simp: defer_wake_def set_mutex_def WakeAll_threads Let_def)

lemma defer_wake_mutexes:
  "mutexes (defer_wake t td mp m w) = (mutexes w)(mp \<mapsto> m\<lparr>m_flags := m_flags m OR FlagDeferred\<rparr>)"
  by (simp add: defer_wake_def set_mutex_def WakeAll_rest Let_def)

lemma defer_wake_sleep: "same_sleep w (defer_wake t td mp m w)"
  using WakeAll_sleep [of w t] by (simp add: defer_wake_def set_mutex_def Let_def same_sleep_def)

lemma deferred_flag: "(f OR FlagDeferred) AND FlagDeferred \<noteq> 0" for f :: u32
proof -
  have "(f OR FlagDeferred) AND FlagDeferred = FlagDeferred" by (simp add: bit.conj_disj_distrib2)
  then show ?thesis by simp
qed

lemma defer_wake_holds:
  assumes "mutexes w mp = Some m" "m_owner m = Some t"
  shows "holds_deferred t (defer_wake t td mp m w)"
    "holds_deferred s w \<Longrightarrow> holds_deferred s (defer_wake t td mp m w)"
    "locks_ok w \<Longrightarrow> locks_ok (defer_wake t td mp m w)"
proof -
  show h: "holds_deferred t (defer_wake t td mp m w)"
    unfolding holds_deferred_def defer_wake_mutexes using assms(2) deferred_flag [of "m_flags m"]
    by (intro exI [of _ mp] exI [of _ "m\<lparr>m_flags := m_flags m OR FlagDeferred\<rparr>"]) simp
  show "holds_deferred s (defer_wake t td mp m w)" if s: "holds_deferred s w"
  proof (cases "s = t")
    case False
    obtain q k where k: "mutexes w q = Some k" "m_owner k = Some s" "m_flags k AND FlagDeferred \<noteq> 0"
      using s by (auto simp: holds_deferred_def)
    then have "q \<noteq> mp" using False assms by auto
    with k show ?thesis unfolding holds_deferred_def defer_wake_mutexes by (intro exI [of _ q] exI [of _ k]) simp
  qed (use h in simp)
  show "locks_ok w \<Longrightarrow> locks_ok (defer_wake t td mp m w)"
    using assms(1) by (auto simp: locks_ok_def defer_wake_mutexes)
qed

text \<open>Nobody is forgotten when a thread defers a wake-up.\<close>

lemma defer_wake_keeps:
  assumes "u \<in> set (defer_waiters (threads w s))"
  shows "u \<in> set (defer_waiters (threads (defer_wake t td mp m w) s)) \<or>
    wake_sema (threads (defer_wake t td mp m w) u) > 0"
  using assms count_list_pos [of u "defer_waiters (threads w t)"]
  by (cases "s = t") (auto simp: defer_wake_threads)

lemma signal_cond_inv:
  assumes inv: "cond_inv (pcs, w)" and pc: "pcs t = Out r0" and k: "Cond_Signal t c thread w = Some (pc', w')"
    and to: "\<And>td. thread = Some td \<Longrightarrow> wchan (threads w td) = Some c"
  shows "cond_inv (pcs(t := pc'), w')"
proof -
  note W = cond_invD(1) [OF inv]
  have stay: ?thesis if "w' = w" "pc' = Out r" for r
    using that cond_invD [OF inv] pc by (intro cond_inv_plain [OF inv]) auto
  show ?thesis
  proof (cases "(\<exists>td. thread = Some td \<and> FindThread td False w \<noteq> 0) \<or> SleepqLookup c w = None")
    case True
    then show ?thesis using k stay by (auto simp: Cond_Signal_def Let_def split: option.splits if_splits)
  next
    case False
    then obtain sq where sq: "SleepqLookup c w = Some sq" by auto
    then have l: "sq \<in> linked w" "sq_wchan (sqs w sq) = c" using SleepqLookup_iff [OF W] by auto
    obtain td mp b w1 w2 m where S:
      "(case thread of Some td \<Rightarrow> Some td | None \<Rightarrow> (case sq_blocked (sqs w sq) of [] \<Rightarrow> None | x # xs \<Rightarrow> Some x)) = Some td"
      "SleepqRemove sq td w = Some (b, w1)" "set_waiters c b w1 = Some w2" "mutexes w2 mp = Some m"
      "(if m_owner m = Some t then (Out 0, defer_wake t td mp m w2) else (Releasing [td], w2)) = (pc', w')"
      using k False sq by (auto simp: Cond_Signal_def Let_def bind_iff split: option.splits if_splits)
    have td: "td \<in> set (sq_blocked (sqs w sq))"
    proof (cases thread)
      case None then show ?thesis using S(1) by (simp split: list.splits)
    next
      case (Some x)
      then have "td \<in> set (waiting w c)" using S(1) to waiting_wchan(1) [OF W] by simp
      then show ?thesis using waiting_linked [OF W l(1)] l(2) by simp
    qed
    from SleepqRemove_refines [OF W l(1) td] S(2) obtain f where R: "sq_wf w1" "mutexes w1 = mutexes w"
      "threads w1 = (threads w)(td := (threads w td)\<lparr>sleepqueue := Some f, wchan := None\<rparr>)" by auto
    have core: "same_core w1 w2" using set_waiters_core [OF S(3)] by simp
    have w2: "sq_wf w2" "mutexes w2 = mutexes w" "locks_ok w2" "\<And>s. holds_deferred s w2 = holds_deferred s w"
      "threads w2 = (threads w)(td := (threads w td)\<lparr>sleepqueue := Some f, wchan := None\<rparr>)"
      using R core cond_invD(2) [OF inv]
      by (simp_all add: same_core_def sq_wf_def linked_def locks_ok_def holds_deferred_def)
    have tt: "wchan (threads w t) = None" using cond_invD(6) [OF inv, of t] pc by simp
    have ws: "\<not> will_sleep (threads w t)" using cond_invD(4) [OF inv, of t] pc by auto
    have old: "wake_coming pcs w u" if "sleeping ((pcs(t := pc')) u)" "wchan (threads w2 u) = None" "u \<noteq> td"
      "\<not> sleeping pc'" for u
      using that w2(5) cond_invD(5) [OF inv, of u] by (auto split: if_splits)
    show ?thesis
    proof (cases "m_owner m = Some t")
      case own: True
      then have e: "pc' = Out 0" "w' = defer_wake t td mp m w2" using S(5) by auto
      note H = defer_wake_holds [OF S(4) own, where td = td]
      have th: "wchan (threads w' s) = wchan (threads w2 s)" "will_sleep (threads w' s) = will_sleep (threads w2 s)"
        "s \<noteq> t \<Longrightarrow> defer_waiters (threads w' s) = defer_waiters (threads w2 s)" for s
        by (simp_all add: e(2) defer_wake_threads)
      show ?thesis
      proof (rule cond_inv_step [OF inv])
        show "sq_wf w'" unfolding e(2) by (rule same_sleep_wf [OF defer_wake_sleep w2(1)])
        show "locks_ok w'" unfolding e(2) by (rule H(3) [OF w2(3)])
        show "will_wake pc' \<or> holds_deferred t w'" using H(1) e(2) by simp
        fix u assume s: "sleeping ((pcs(t := pc')) u)" "wchan (threads w' u) = None"
        show "wake_coming (pcs(t := pc')) w' u"
        proof (cases "u = td")
          case True
          then show ?thesis unfolding wake_coming_def e(2) defer_wake_threads
            by (intro disjI2 disjI1 exI [of _ t]) simp
        next
          case False
          have "wake_coming pcs w u" using old [OF s(1) _ False] s(2) th(1) e(1) by simp
          then show ?thesis
          proof (rule wake_coming_mono)
            show "u \<in> set (defer_waiters (threads w' s)) \<or> wake_sema (threads w' u) > 0"
              if "u \<in> set (defer_waiters (threads w s))" for s
              using that w2(5) unfolding e(2) by (intro defer_wake_keeps) auto
          qed (use pc w2(5) False in \<open>auto simp: e defer_wake_threads\<close>)
        qed
      qed (use th w2(4,5) H(2) e tt ws in \<open>auto split: if_splits\<close>)
    next
      case False
      then have e: "pc' = Releasing [td]" "w' = w2" using S(5) by auto
      show ?thesis
      proof (rule cond_inv_step [OF inv])
        show "will_wake pc' \<or> holds_deferred t w'" if "defer_waiters (threads w' t) \<noteq> []"
          using that e w2(4,5) cond_invD(3) [OF inv, of t] pc by (auto split: if_splits)
        fix u assume s: "sleeping ((pcs(t := pc')) u)" "wchan (threads w' u) = None"
        show "wake_coming (pcs(t := pc')) w' u"
        proof (cases "u = td")
          case True
          then show ?thesis unfolding wake_coming_def e by (intro disjI2 exI [of _ t]) simp
        next
          case False
          have "wake_coming pcs w u" using old [OF s(1) _ False] s(2) e by simp
          then show ?thesis by (rule wake_coming_mono) (use pc w2(5) False in \<open>auto simp: e split: if_splits\<close>)
        qed
      qed (use w2 e tt ws in \<open>auto split: if_splits\<close>)
    qed
  qed
qed

section \<open>Broadcasts\<close>

text \<open>
  After the callback has been called for the threads \<open>d\<close>, each of them, and each thread that was on the
  list of the caller, is on that list, has its semaphore released, or is in the argument.
\<close>

definition broadcasting :: "nat \<Rightarrow> CondWorld \<Rightarrow> nat list \<Rightarrow> nat list \<Rightarrow> CondWorld \<Rightarrow> bool" where
  "broadcasting t w0 d ws w \<longleftrightarrow> locks_ok w \<and> (\<forall>s. holds_deferred s w0 \<longrightarrow> holds_deferred s w) \<and>
     (defer_waiters (threads w t) \<noteq> [] \<longrightarrow> holds_deferred t w) \<and>
     (\<forall>s. s \<noteq> t \<longrightarrow> defer_waiters (threads w s) = defer_waiters (threads w0 s)) \<and>
     (\<forall>s. will_sleep (threads w s) = will_sleep (threads w0 s)) \<and>
     (\<forall>u. wake_sema (threads w0 u) > 0 \<longrightarrow> wake_sema (threads w u) > 0) \<and>
     (\<forall>u. u \<in> set (defer_waiters (threads w0 t)) \<or> u \<in> set d \<longrightarrow>
        u \<in> set (defer_waiters (threads w t)) \<or> wake_sema (threads w u) > 0 \<or> u \<in> set ws)"

lemma broadcasting_cong:
  assumes "broadcasting t w0 d ws w" "mutexes w' = mutexes w"
    "\<And>s. defer_waiters (threads w' s) = defer_waiters (threads w s) \<and>
      will_sleep (threads w' s) = will_sleep (threads w s) \<and> wake_sema (threads w' s) = wake_sema (threads w s)"
  shows "broadcasting t w0 d ws w'"
  using assms by (simp add: broadcasting_def locks_ok_def holds_deferred_def)

lemma same_rest_fields:
  assumes "same_rest w w'"
  shows "mutexes w' = mutexes w" "defer_waiters (threads w' s) = defer_waiters (threads w s) \<and>
      will_sleep (threads w' s) = will_sleep (threads w s) \<and> wake_sema (threads w' s) = wake_sema (threads w s)"
proof -
  obtain Q T th where w': "w' = w\<lparr>sqs := Q, sc_table := T, threads := th\<rparr>"
    "\<forall>t. \<exists>q c. th t = (threads w t)\<lparr>sleepqueue := q, wchan := c\<rparr>" using assms by (auto simp: same_rest_def)
  show "mutexes w' = mutexes w" using w'(1) by simp
  obtain q c where "th s = (threads w s)\<lparr>sleepqueue := q, wchan := c\<rparr>" using w'(2) by blast
  then show "defer_waiters (threads w' s) = defer_waiters (threads w s) \<and>
      will_sleep (threads w' s) = will_sleep (threads w s) \<and> wake_sema (threads w' s) = wake_sema (threads w s)"
    using w'(1) by simp
qed

lemma drop_cb_broadcasting:
  assumes b: "broadcasting t w0 d ws w" and e: "drop_cb t td (ws, w) = Some (ws', w')"
  shows "same_sleep w w' \<and> broadcasting t w0 (d @ [td]) ws' w'"
proof -
  obtain mp m where m: "mutexes w mp = Some m"
    "(if m_owner m = Some t then (ws, defer_wake t td mp m w)
      else if length ws \<ge> MaxDeferWaiters then ([td], fold release_sema ws w) else (ws @ [td], w)) = (ws', w')"
    using e by (auto simp: drop_cb_def bind_iff)
  consider "m_owner m = Some t" "ws' = ws" "w' = defer_wake t td mp m w"
    | "ws' = [td]" "w' = fold release_sema ws w" | "ws' = ws @ [td]" "w' = w"
    using m(2) by (auto split: if_splits)
  then show ?thesis
  proof cases
    case 1
    note H = defer_wake_holds [OF m(1) 1(1), where td = td]
    have "u \<in> set (defer_waiters (threads w' t)) \<or> wake_sema (threads w' u) > 0 \<or> u \<in> set ws'"
      if u: "u \<in> set (defer_waiters (threads w0 t)) \<or> u \<in> set (d @ [td])" for u
    proof (cases "u = td")
      case True
      then show ?thesis by (simp add: 1(3) defer_wake_threads)
    next
      case False
      with u b have "u \<in> set (defer_waiters (threads w t)) \<or> wake_sema (threads w u) > 0 \<or> u \<in> set ws"
        by (auto simp: broadcasting_def)
      then show ?thesis using defer_wake_keeps [of u w t t td mp m] 1(2,3) by (auto simp: defer_wake_threads)
    qed
    then show ?thesis using b H defer_wake_sleep [of w t td mp m]
      by (auto simp: broadcasting_def 1(3) defer_wake_threads)
  next
    case 2
    have "holds_deferred s w' = holds_deferred s w" for s by (simp add: 2 holds_deferred_def fold_release_mutexes)
    then show ?thesis using b fold_release_sleep [of w ws] count_list_pos_iff [of ws]
      by (auto simp: broadcasting_def 2 fold_release_threads locks_ok_def fold_release_mutexes)
  next
    case 3
    then show ?thesis using b by (auto simp: broadcasting_def same_sleep_def)
  qed
qed

interpretation broadcast: drop_callback "drop_cb t" "broadcasting t w0" for t w0
  by unfold_locales (use drop_cb_broadcasting broadcasting_cong same_rest_fields in blast)+

lemma broadcast_cond_inv:
  assumes inv: "cond_inv (pcs, w)" and pc: "pcs t = Out r0" and k: "Cond_Broadcast t c w = Some (pc', w')"
  shows "cond_inv (pcs(t := pc'), w')"
proof (cases "SleepqLookup c w")
  case None
  then have "w' = w" "pc' = Out 0" using k by (auto simp: Cond_Broadcast_def)
  then show ?thesis using cond_invD [OF inv] pc by (intro cond_inv_plain [OF inv]) auto
next
  case (Some sq)
  note W = cond_invD(1) [OF inv]
  have l: "sq \<in> linked w" "sq_wchan (sqs w sq) = c" using SleepqLookup_iff [OF W] Some by auto
  obtain ws w1 where S: "SleepqDrop sq (drop_cb t) ([], w) = Some (ws, w1)" "set_waiters c False w1 = Some w'"
    "pc' = Releasing ws"
    using k Some by (auto simp: Cond_Broadcast_def bind_iff)
  have tt: "wchan (threads w t) = None" "\<not> will_sleep (threads w t)"
    using cond_invD(4,6) [OF inv, of t] pc by auto
  have "broadcasting t w [] [] w"
    using cond_invD(2,3) [OF inv] pc by (auto simp: broadcasting_def dest!: cond_invD(3) [OF inv])
  from broadcast.SleepqDrop_called [OF W l(1) this S(1)]
  have D: "sq_wf w1" "broadcasting t w (sq_blocked (sqs w sq)) ws w1"
    "\<And>u. wchan (threads w1 u) = (if u \<in> set (sq_blocked (sqs w sq)) then None else wchan (threads w u))" by auto
  have core: "same_core w1 w'" using set_waiters_core [OF S(2)] by simp
  have B: "broadcasting t w (sq_blocked (sqs w sq)) ws w'"
    by (rule broadcasting_cong [OF D(2)]) (use core in \<open>auto simp: same_core_def\<close>)
  have wc: "wchan (threads w' u) = (if u \<in> set (sq_blocked (sqs w sq)) then None else wchan (threads w u))" for u
    using D(3) core by (simp add: same_core_def)
  show ?thesis
  proof (rule cond_inv_step [OF inv])
    show "sq_wf w'" using D(1) core by (simp add: same_core_def sq_wf_def linked_def)
    fix u assume s: "sleeping ((pcs(t := pc')) u)" "wchan (threads w' u) = None"
    then have u: "u \<noteq> t" "sleeping (pcs u)" using S(3) by (auto split: if_splits)
    have P: "u \<in> set (defer_waiters (threads w t)) \<or> u \<in> set (sq_blocked (sqs w sq)) \<Longrightarrow>
        u \<in> set (defer_waiters (threads w' t)) \<or> wake_sema (threads w' u) > 0 \<or> u \<in> set ws"
      using B by (auto simp: broadcasting_def)
    show "wake_coming (pcs(t := pc')) w' u"
    proof (cases "u \<in> set (sq_blocked (sqs w sq)) \<or> u \<in> set (defer_waiters (threads w t))")
      case True
      with P have "u \<in> set (defer_waiters (threads w' t)) \<or> wake_sema (threads w' u) > 0 \<or> u \<in> set (pending pc')"
        using S(3) by auto
      then show ?thesis unfolding wake_coming_def by (metis fun_upd_same)
    next
      case False
      then have "wchan (threads w u) = None" using s(2) wc by (auto split: if_splits)
      with u(2) have "wake_coming pcs w u" using cond_invD(5) [OF inv] by blast
      then show ?thesis
      proof (rule wake_coming_mono)
        show "u \<in> set (defer_waiters (threads w' s)) \<or> wake_sema (threads w' u) > 0"
          if "u \<in> set (defer_waiters (threads w s))" for s
          using that False B by (cases "s = t") (auto simp: broadcasting_def)
      qed (use B pc in \<open>auto simp: broadcasting_def\<close>)
    qed
  qed (use B wc tt S(3) in \<open>auto simp: broadcasting_def\<close>)
qed

section \<open>All steps\<close>

lemma out_cond_inv:
  assumes "cond_inv (pcs, w)" "pcs t = Out r0" "same_core w w'"
  shows "cond_inv (pcs(t := Out r), w')"
proof -
  have "cond_inv (pcs(t := Out r), w)"
    using cond_invD [OF assms(1)] assms(2) by (intro cond_inv_plain [OF assms(1)]) auto
  then show ?thesis by (rule cond_inv_core [OF assms(3)])
qed

lemma with_cond_inv:
  assumes inv: "cond_inv (pcs, w)" and pc: "pcs t = Out r0" and e: "with_cond cond new f w = Some (pc', w')"
    and f: "\<And>w1. cond_inv (pcs, w1) \<Longrightarrow> same_core w w1 \<Longrightarrow> (cond_cells w cond > 1 \<Longrightarrow> w1 = w) \<Longrightarrow>
      f (cond_cells w1 cond) w1 = Some (pc', w') \<Longrightarrow> cond_inv (pcs(t := pc'), w')"
  shows "cond_inv (pcs(t := pc'), w')"
proof -
  obtain ret w1 where 1: "check_and_init_cond cond new w = Some (ret, w1)"
    "(if ret \<noteq> 0 then Some (Out ret, w1) else f (cond_cells w1 cond) w1) = Some (pc', w')"
    using e by (auto simp: with_cond_def bind_iff)
  have core: "same_core w w1" by (rule check_and_init_cond_core [OF 1(1)])
  have same: "w1 = w" if "cond_cells w cond > 1" using 1(1) that by (auto simp: check_and_init_cond_def)
  show ?thesis
  proof (cases "ret = 0")
    case True
    then show ?thesis using f [OF cond_inv_core [OF core inv] core same] 1(2) by simp
  next
    case False
    then show ?thesis using 1(2) out_cond_inv [OF inv pc core] by auto
  qed
qed

lemma out_moved:
  assumes "cond_inv (pcs, w)" "pcs t = Out r0" "mutex_moved w w'" "\<not> sleeping pc'"
  shows "cond_inv (pcs(t := pc'), w')"
  using assms cond_invD(6) [OF assms(1), of t] by (intro cond_inv_moved) auto

lemma destroy_moved:
  assumes "posix_pthread_mutex_destroy mutex w = Some (r, w')" "locks_ok w"
  shows "mutex_moved w w'"
proof (cases "w' = w")
  case True then show ?thesis using assms(2) by (simp add: mutex_moved_def)
next
  case False
  then obtain p m where p: "mutexes w p = Some m" "m_owner m = None" "mutexes w' = (mutexes w)(p := None)"
    "threads w' = threads w" "sqs w' = sqs w" "sc_table w' = sc_table w" "conds w' = conds w"
    using assms(1) by (auto simp: posix_pthread_mutex_destroy_def Let_def bind_iff split: if_splits)
  have "holds_deferred s w'" if h: "holds_deferred s w" for s
  proof -
    obtain q k where k: "mutexes w q = Some k" "m_owner k = Some s" "m_flags k AND FlagDeferred \<noteq> 0"
      using h by (auto simp: holds_deferred_def)
    moreover have "q \<noteq> p" using k p by auto
    ultimately show ?thesis using p(3) by (auto simp: holds_deferred_def)
  qed
  then show ?thesis using assms(2) p by (auto simp: mutex_moved_def locks_ok_def)
qed

lemma wait_call_inv:
  assumes "cond_inv (pcs, w)" "pcs t = Out r0" "with_cond cond new (\<lambda>c. Cond_Wait t c mutex tm) w = Some (pc', w')"
  shows "cond_inv (pcs(t := pc'), w')"
  by (rule with_cond_inv [OF assms], rule wait_cond_inv [where pcs = pcs and t = t]) (use assms(2) in auto)

lemma signal_call_inv:
  assumes inv: "cond_inv (pcs, w)" and pc: "pcs t = Out r0"
    and e: "with_cond cond new (\<lambda>c. Cond_Signal t c thread) w = Some (pc', w')"
    and to: "\<And>td. thread = Some td \<Longrightarrow> cond_cells w cond > 1 \<and> wchan (threads w td) = Some (cond_cells w cond)"
  shows "cond_inv (pcs(t := pc'), w')"
proof (rule with_cond_inv [OF inv pc e])
  fix w1 assume w1: "cond_inv (pcs, w1)" "same_core w w1" "cond_cells w cond > 1 \<Longrightarrow> w1 = w"
    "Cond_Signal t (cond_cells w1 cond) thread w1 = Some (pc', w')"
  show "cond_inv (pcs(t := pc'), w')" by (rule signal_cond_inv [OF w1(1) pc w1(4)]) (use to w1(3) in auto)
qed

lemma call_step_inv:
  assumes inv: "cond_inv (pcs, w)" and pc: "pcs t = Out r0" and k: "call_step t mv w = Some (pc', w')"
    and ok: "move_ok mv w"
  shows "cond_inv (pcs(t := pc'), w')"
proof (cases mv)
  case (MLock mutex tm new)
  then obtain x where x: "with_mutex mutex new (Lock t tm) w = Some (x, w')"
    "pc' = (case x of Inl e \<Rightarrow> Out e | Inr out \<Rightarrow> locked_pc (mutex_cells w' mutex) tm out)"
    using k by (auto simp: bind_iff)
  have "mutex_moved w w'"
    by (rule with_mutex_moved [OF x(1) cond_invD(2) [OF inv]]) (use ok MLock in \<open>auto simp: move_ok_def dest: Lock_effect\<close>)
  then show ?thesis by (rule out_moved [OF inv pc]) (simp add: x(2) split: sum.split)
next
  case (MTryLock mutex new)
  then obtain x where x: "with_mutex mutex new (TryLock t) w = Some (x, w')"
    "pc' = (case x of Inl e \<Rightarrow> Out e | Inr r \<Rightarrow> Out r)"
    using k by (auto simp: bind_iff posix_pthread_mutex_trylock_def)
  have "mutex_moved w w'"
    by (rule with_mutex_moved [OF x(1) cond_invD(2) [OF inv]]) (use ok MTryLock in \<open>auto simp: move_ok_def dest: TryLock_effect\<close>)
  then show ?thesis by (rule out_moved [OF inv pc]) (simp add: x(2) split: sum.split)
next
  case (MUnlock mutex)
  then obtain r wk where "posix_pthread_mutex_unlock t mutex w = Some ((r, wk), w')" "pc' = (if wk then Waking else Out r)"
    using k by (auto simp: bind_iff)
  then show ?thesis using unlock_cond_inv [OF inv pc] by simp
next
  case (MMutexInit mutex attr new)
  then obtain r a where r: "MutexInit mutex a None new w = (r, w')" "pc' = Out r"
    using k by (auto simp: posix_pthread_mutex_init_def)
  have "mutex_moved w w'"
    by (rule MutexInit_moved [OF r(1) cond_invD(2) [OF inv]]) (use ok MMutexInit in \<open>auto simp: move_ok_def\<close>)
  then show ?thesis by (rule out_moved [OF inv pc]) (simp add: r)
next
  case (MMutexDestroy mutex)
  then obtain r where r: "posix_pthread_mutex_destroy mutex w = Some (r, w')" "pc' = Out r" using k by auto
  show ?thesis by (rule out_moved [OF inv pc destroy_moved [OF r(1) cond_invD(2) [OF inv]]]) (simp add: r)
next
  case (MWait cond mutex tm new)
  show ?thesis
  proof (cases "\<exists>r. pc' = Out r \<and> w' = w")
    case True
    then show ?thesis using out_cond_inv [OF inv pc, of w] by auto
  next
    case False
    then have "with_cond cond new (\<lambda>c. Cond_Wait t c mutex tm) w = Some (pc', w')"
      using k MWait by (auto simp: posix_pthread_cond_wait_def posix_pthread_cond_timedwait_def
          posix_pthread_cond_reltimedwait_np_def split: LockTime.splits if_splits)
    then show ?thesis by (rule wait_call_inv [OF inv pc])
  qed
next
  case (MSignal cond thread new)
  show ?thesis
  proof (cases "\<exists>td. thread = Some td \<and> td \<noteq> 0")
    case False
    then have "with_cond cond new (\<lambda>c. Cond_Signal t c None) w = Some (pc', w')"
      using k MSignal by (auto simp: posix_pthread_cond_signal_def posix_pthread_cond_signalto_np_def split: option.splits)
    then show ?thesis by (rule signal_call_inv [OF inv pc]) simp
  next
    case True
    then obtain td where td: "thread = Some td" "td \<noteq> 0" by auto
    then have "with_cond cond new (\<lambda>c. Cond_Signal t c (Some td)) w = Some (pc', w')"
      using k MSignal by (simp add: posix_pthread_cond_signalto_np_def)
    then show ?thesis by (rule signal_call_inv [OF inv pc]) (use ok MSignal td in \<open>auto simp: move_ok_def\<close>)
  qed
next
  case (MBroadcast cond new)
  then have e: "with_cond cond new (\<lambda>c. Cond_Broadcast t c) w = Some (pc', w')"
    using k by (simp add: posix_pthread_cond_broadcast_def)
  show ?thesis by (rule with_cond_inv [OF inv pc e]) (use broadcast_cond_inv [where pcs = pcs and t = t] pc in blast)
next
  case (MCondInit cond attr new)
  then obtain r where r: "CondInit cond attr None new (w\<lparr>cond_cells := (cond_cells w)(cond := 0)\<rparr>) = Some (r, w')" "pc' = Out r"
    using k by (auto simp: posix_pthread_cond_init_def)
  have "same_core w w'" using CondInit_core [OF r(1)] by (simp add: same_core_def)
  then show ?thesis using out_cond_inv [OF inv pc] r(2) by simp
next
  case (MCondDestroy cond)
  then have "\<exists>r. pc' = Out r" "same_core w w'"
    using k by (auto simp: posix_pthread_cond_destroy_def Let_def same_core_def split: if_splits prod.splits)
  then show ?thesis using out_cond_inv [OF inv pc] by auto
qed (use k in simp_all)

lemma next_step_inv:
  assumes inv: "cond_inv (pcs, w)" and k: "next_step t (pcs t) w = Some (pc', w')"
  shows "cond_inv (pcs(t := pc'), w')"
proof (cases "pcs t")
  case (InLock p tm l)
  then have e: "on_mutex (\<lambda>m. let (out, m') = Lock_step t tm l m in Some (locked_pc p tm out, m')) p w = Some (pc', w')"
    using k by simp
  have m: "mutex_moved w w'"
    by (rule on_mutex_moved [OF e cond_invD(2) [OF inv]]) (auto split: prod.splits dest: Lock_step_effect)
  obtain out where "pc' = locked_pc p tm out" using e by (auto simp: on_mutex_def bind_iff case_prod_beta)
  then show ?thesis using InLock cond_invD(6) [OF inv, of t] by (intro cond_inv_moved [OF inv m]) auto
next
  case Waking
  then show ?thesis using k waking_cond_inv [OF inv] by auto
next
  case (PreSleep c p r tm)
  then show ?thesis using k sleep_begin_cond_inv [OF inv] by auto
next
  case (Asleep c p r tm)
  then show ?thesis using k acquire_cond_inv [OF inv] by auto
next
  case (Awake c p r e)
  then show ?thesis using k woken_cond_inv [OF inv] by simp
next
  case (Relock p r eo l)
  then have e: "on_mutex (\<lambda>m. let (out, m') = Lock_step t NoTime l m in Some (CvLock_end p r eo out m')) p w = Some (pc', w')"
    using k by simp
  have m: "mutex_moved w w'"
  proof (rule on_mutex_moved [OF e cond_invD(2) [OF inv]])
    fix m x m'
    assume "(let (out, m') = Lock_step t NoTime l m in Some (CvLock_end p r eo out m')) = Some (x, m')"
    then obtain out m1 where m1: "Lock_step t NoTime l m = (out, m1)" "CvLock_end p r eo out m1 = (x, m')"
      by (auto split: prod.splits)
    from CvLock_end_effect [OF Lock_step_effect [OF m1(1)], of p r eo out] m1(2) show "lock_effect t m m'" by simp
  qed
  have "\<not> sleeping pc'" using e by (auto simp: on_mutex_def bind_iff case_prod_beta)
  then show ?thesis using Relock cond_invD(6) [OF inv, of t] by (intro cond_inv_moved [OF inv m]) auto
next
  case (Releasing us)
  show ?thesis
  proof (cases us)
    case Nil
    then show ?thesis using k Releasing cond_invD [OF inv] by (intro cond_inv_plain [OF inv]) auto
  next
    case (Cons x xs)
    then show ?thesis using k Releasing releasing_cond_inv [OF inv] by auto
  qed
qed (use k in auto)

lemma timeout_step_inv:
  assumes inv: "cond_inv (pcs, w)" and k: "timeout_step t (pcs t) w = Some (pc', w')"
  shows "cond_inv (pcs(t := pc'), w')"
  by (rule cond_inv_plain [OF inv])
    (use k cond_invD [OF inv] in \<open>cases "pcs t"; auto split: if_splits\<close>)+

lemma move_inv:
  assumes inv: "cond_inv (pcs, w)" and k: "move t mv (pcs t) w = Some (pc', w')" and ok: "move_ok mv w"
  shows "cond_inv (pcs(t := pc'), w')"
proof -
  consider "mv = MNext" | "mv = MTimeout" | a b c where "mv = MCancelFlags a b c" | p a b where "mv = MLoops p a b"
    | r where "pcs t = Out r" "call_step t mv w = Some (pc', w')"
    using k by (cases mv; cases "pcs t"; simp)
  then show ?thesis
  proof cases
    case 1 then show ?thesis using k next_step_inv [OF inv] by simp
  next
    case 2 then show ?thesis using k timeout_step_inv [OF inv] by simp
  next
    case (3 a b c)
    then have e: "pc' = pcs t" "w' = upd_thread t (\<lambda>td. td\<lparr>cancel_enable := a, cancel_pending := b, no_cancel := c\<rparr>) w"
      using k by auto
    have th: "sleepqueue (threads w' s) = sleepqueue (threads w s)" "wchan (threads w' s) = wchan (threads w s)"
      "defer_waiters (threads w' s) = defer_waiters (threads w s)" "will_sleep (threads w' s) = will_sleep (threads w s)"
      "wake_sema (threads w' s) = wake_sema (threads w s)" for s
      by (simp_all add: e)
    have "same_sleep w w'" using th by (simp add: e same_sleep_def)
    then have sq: "sq_wf w'" using cond_invD(1) [OF inv] by (rule same_sleep_wf)
    have mx: "mutexes w' = mutexes w" by (simp add: e)
    have hd: "holds_deferred s w' = holds_deferred s w" for s by (simp add: holds_deferred_def mx)
    have lk: "locks_ok w'" using cond_invD(2) [OF inv] by (simp add: locks_ok_def mx)
    have wk: "wake_coming pcs w' u = wake_coming pcs w u" for u by (simp add: wake_coming_def th)
    have "cond_inv (pcs, w')" unfolding cond_inv_def prod.case
    proof (intro conjI allI impI)
      fix s show "defer_waiters (threads w' s) \<noteq> [] \<Longrightarrow> will_wake (pcs s) \<or> holds_deferred s w'"
        using cond_invD(3) [OF inv, of s] by (simp only: th hd simp_thms)
      show "will_sleep (threads w' s) \<Longrightarrow> \<exists>c p r tm. pcs s = PreSleep c p r tm"
        using cond_invD(4) [OF inv, of s] by (simp only: th simp_thms)
      show "sleeping (pcs s) \<Longrightarrow> wchan (threads w' s) = None \<Longrightarrow> wake_coming pcs w' s"
        using cond_invD(5) [OF inv, of s] by (simp only: th wk simp_thms)
      show "wchan (threads w' s) = None \<or> wchan (threads w' s) = channel (pcs s)"
        using cond_invD(6) [OF inv, of s] by (simp only: th simp_thms)
    qed (rule sq, rule lk)
    then show ?thesis using e(1) by simp
  next
    case (4 p a b)
    let ?f = "\<lambda>m. Some ((), m\<lparr>m_spinloops := a, m_yieldloops := b\<rparr>)"
    have m: "map_option (\<lambda>(u, w'). (pcs t, w')) (on_mutex ?f p w) = Some (pc', w')" using k unfolding 4 by simp
    then obtain x where x: "on_mutex ?f p w = Some x" by (cases "on_mutex ?f p w") simp_all
    with m have e: "pc' = pcs t" "on_mutex ?f p w = Some (fst x, w')" by (simp_all add: case_prod_beta) (simp add: prod_eq_iff)
    have "mutex_moved w w'"
      by (rule on_mutex_moved [OF e(2) cond_invD(2) [OF inv]]) (auto simp: lock_effect_def)
    then have "cond_inv (pcs, w')" by (rule cond_inv_moved_same [OF inv])
    then show ?thesis using e(1) by simp
  next
    case 5 then show ?thesis using call_step_inv [OF inv] ok by blast
  qed
qed

lemma cond_step_inv: "cond_step s s' \<Longrightarrow> cond_inv s \<Longrightarrow> cond_inv s'"
  by (induction rule: cond_step.induct) (rule move_inv)

lemma cond_start_inv:
  assumes "cond_start w"
  shows "cond_inv (\<lambda>_. Out 0, w)"
  using assms no_sleepers_wf(1) [of w] unfolding cond_start_def cond_inv_def locks_ok_def
  by (auto simp: no_sleepers_def)

lemma cond_reachable_inv: "cond_step\<^sup>*\<^sup>* s s' \<Longrightarrow> cond_inv s \<Longrightarrow> cond_inv s'"
  by (induction rule: rtranclp_induct) (auto intro: cond_step_inv)

text \<open>
  C11. No wake-up of a condition variable is lost: however the threads call and whatever the order of
  their steps, a thread that a signal or broadcast took from the queue while it sleeps has its semaphore
  released, or another thread still has to release it: one that is about to, or one that keeps it for the
  unlock of a mutex it holds.  When all others have returned and no mutex is held, the thread can run on.
\<close>

theorem cond_no_lost_wakeup:
  assumes "cond_start w0" "cond_step\<^sup>*\<^sup>* (\<lambda>_. Out 0, w0) (pcs, w)"
    and "pcs t = Asleep c p r tm" "wchan (threads w t) = None"
  shows "(wake_sema (threads w t) > 0 \<or> (\<exists>s. t \<in> set (pending (pcs s))) \<or>
      (\<exists>s. t \<in> set (defer_waiters (threads w s)) \<and> (will_wake (pcs s) \<or> holds_deferred s w))) \<and>
    ((\<forall>s. s \<noteq> t \<longrightarrow> (\<exists>x. pcs s = Out x)) \<and> (\<forall>q m. mutexes w q = Some m \<longrightarrow> m_owner m = None) \<longrightarrow>
      move t MNext (pcs t) w \<noteq> None)"
proof -
  note inv = cond_reachable_inv [OF assms(2) cond_start_inv [OF assms(1)]]
  have D: "will_wake (pcs s) \<or> holds_deferred s w" if "t \<in> set (defer_waiters (threads w s))" for s
    using that cond_invD(3) [OF inv, of s] by (cases "defer_waiters (threads w s)") auto
  have "wake_coming pcs w t" using cond_invD(5) [OF inv, of t] assms(3,4) by simp
  then have A: "wake_sema (threads w t) > 0 \<or> (\<exists>s. t \<in> set (pending (pcs s))) \<or>
      (\<exists>s. t \<in> set (defer_waiters (threads w s)) \<and> (will_wake (pcs s) \<or> holds_deferred s w))"
    unfolding wake_coming_def using D by blast
  moreover have "move t MNext (pcs t) w \<noteq> None"
    if q: "\<forall>s. s \<noteq> t \<longrightarrow> (\<exists>x. pcs s = Out x)" "\<forall>q m. mutexes w q = Some m \<longrightarrow> m_owner m = None"
  proof -
    have "pending (pcs s) = [] \<and> \<not> will_wake (pcs s)" for s using q(1) assms(3) by (cases "s = t") fastforce+
    moreover have "\<not> holds_deferred s w" for s using q(2) by (auto simp: holds_deferred_def)
    ultimately have "wake_sema (threads w t) > 0" using A by auto
    then show ?thesis using assms(3) by (simp add: Sleep_acquire_def)
  qed
  ultimately show ?thesis by blast
qed

section \<open>A run\<close>

fun run_moves :: "(nat \<times> Move) list \<Rightarrow> CondConfig \<Rightarrow> CondConfig option" where
  "run_moves [] s = Some s"
| "run_moves ((t, mv) # ms) (pcs, w) =
     (if move_ok mv w then do { (pc', w') \<leftarrow> move t mv (pcs t) w; run_moves ms (pcs(t := pc'), w') } else None)"

lemma run_moves_steps: "run_moves ms s = Some s' \<Longrightarrow> cond_step\<^sup>*\<^sup>* s s'"
proof (induction ms s rule: run_moves.induct)
  case (2 t mv ms pcs w)
  then obtain pc' w' where m: "move_ok mv w" "move t mv (pcs t) w = Some (pc', w')" "run_moves ms (pcs(t := pc'), w') = Some s'"
    by (auto simp: bind_iff split: if_splits)
  have "cond_step (pcs, w) (pcs(t := pc'), w')" using m(1,2) by (rule cond_step.thread [rotated])
  with 2(1) [OF m(1,2) refl m(3)] show ?case by (meson converse_rtranclp_into_rtranclp)
qed simp

definition cond_boot :: CondWorld where
  "cond_boot = \<lparr>mutexes = \<lambda>_. None, mutex_cells = \<lambda>_. 0, mutexattrs = \<lambda>_. None, mutexattr_cells = \<lambda>_. 0,
     MutexId = 0, threads = idle_thread, sqs = \<lambda>_. \<lparr>sq_blocked = [], sq_freeq = [], sq_wchan = 0\<rparr>, sc_table = \<lambda>_. [],
     conds = \<lambda>_. None, cond_cells = \<lambda>_. 0, condattrs = \<lambda>_. None, condattr_cells = \<lambda>_. 0, CondId = 0,
     thread_list = [], dead_threads = []\<rparr>"

lemma cond_boot_start: "cond_start cond_boot"
  by (simp add: cond_start_def no_sleepers_def cond_boot_def idle_thread_def)

text \<open>Thread 1 locks a mutex and waits with a time limit; thread 2 signals.\<close>

definition wait_and_signal :: "(nat \<times> Move) list" where
  "wait_and_signal = [(1, MLock 10 NoTime (Some 100)), (1, MNext), (1, MNext), (1, MNext),
     (1, MWait 20 10 (RelTime 5) (Some 200)), (1, MNext), (2, MSignal 20 None None)]"

lemmas run_defs = with_mutex_def check_and_init_mutex_def InitStatic_def MutexInit_def on_mutex_def
  construct_PthreadMutex_def PthreadMutexattrDefault_def Lock_def locked_pc_def acquire_or_def try_acquire_def
  with_cond_def check_and_init_cond_def Cond_InitStatic_def CondInit_def posix_pthread_cond_reltimedwait_np_def
  posix_pthread_cond_wait_def posix_pthread_cond_signal_def Cond_Wait_def IsOwned_def set_waiters_def upd_thread_def
  CvUnlock_def Unlock_def Type_def set_mutex_def SleepqAdd_def SleepqLookup_def SC_HASH_def set_thread_def set_sq_def
  ClearWake_def Sleep_begin_def WakeAll_def Cond_Signal_def SleepqRemove_def unlink_def lend_def
  Sleep_acquire_def Cond_woken_def CvLock_def CvLock_end_def wait_result_def ShouldCancel_def release_sema_def
  bad_abstime_def word_le_nat_alt word_less_nat_alt

lemma wait_and_signal_runs:
  "\<exists>pcs w. run_moves wait_and_signal (\<lambda>_. Out 0, cond_boot) = Some (pcs, w) \<and>
     pcs 1 = Asleep 200 100 0 (RelTime 5) \<and> wchan (threads w 1) = None \<and> pcs 2 = Releasing [1]"
  unfolding wait_and_signal_def
  by (simp add: run_defs cond_boot_def idle_thread_def move_ok_def Let_def)

theorem cond_no_lost_wakeup_witness:
  "\<exists>pcs w. cond_step\<^sup>*\<^sup>* (\<lambda>_. Out 0, cond_boot) (pcs, w) \<and> pcs 1 = Asleep 200 100 0 (RelTime 5) \<and>
     (wake_sema (threads w 1) > 0 \<or> (\<exists>s. 1 \<in> set (pending (pcs s))) \<or>
      (\<exists>s. 1 \<in> set (defer_waiters (threads w s)) \<and> (will_wake (pcs s) \<or> holds_deferred s w)))"
proof -
  obtain pcs w where r: "run_moves wait_and_signal (\<lambda>_. Out 0, cond_boot) = Some (pcs, w)"
    "pcs 1 = Asleep 200 100 0 (RelTime 5)" "wchan (threads w 1) = None" using wait_and_signal_runs by blast
  note s = run_moves_steps [OF r(1)]
  from cond_no_lost_wakeup [OF cond_boot_start s r(2,3)] s r(2) show ?thesis by blast
qed

text \<open>
  The signal takes thread 1 from the queue and thread 2 is about to release its semaphore when the time of
  thread 1 is over.  Thread 1 returns and waits again; the late release wakes it from the second wait,
  which it is still queued for, and it reaches \<open>UNREACHABLE\<close>.
\<close>

definition late_release :: "(nat \<times> Move) list" where
  "late_release = wait_and_signal @ [(1, MTimeout), (1, MNext), (1, MNext), (1, MNext), (1, MNext),
     (1, MWait 20 10 NoTime None), (1, MNext), (2, MNext), (1, MNext), (1, MNext)]"

lemma cond_late_release_stops:
  "\<exists>pcs w. cond_start cond_boot \<and> cond_step\<^sup>*\<^sup>* (\<lambda>_. Out 0, cond_boot) (pcs, w) \<and> pcs 1 = Stopped 200"
proof -
  have "\<exists>pcs w. run_moves late_release (\<lambda>_. Out 0, cond_boot) = Some (pcs, w) \<and> pcs 1 = Stopped 200"
    unfolding late_release_def wait_and_signal_def
    by (simp add: run_defs cond_boot_def idle_thread_def move_ok_def Let_def)
  then show ?thesis using run_moves_steps cond_boot_start by blast
qed

end
