(* ===== verification/Cond_Wait.thy ===== *)
theory Cond_Wait
  imports Cond_Wakeup
begin

text \<open>
  What a wait on a condition variable does to its mutex: \<open>owners_from\<close> says that a step makes no other
  thread an owner, and \<open>wait_inv\<close> that a thread that waits does not own the mutex it will lock again.
\<close>

section \<open>What a wait does to the mutex\<close>

text \<open>Only a thread's own steps make it the owner of a mutex.\<close>

definition owns_mutex :: "'a MutexWorld_scheme \<Rightarrow> nat \<Rightarrow> nat \<Rightarrow> bool" where
  "owns_mutex w p t \<longleftrightarrow> (\<exists>m. mutexes w p = Some m \<and> m_owner m = Some t)"

definition owners_from :: "nat \<Rightarrow> 'a MutexWorld_scheme \<Rightarrow> 'a MutexWorld_scheme \<Rightarrow> bool" where
  "owners_from t w w' \<longleftrightarrow> (\<forall>p u. u \<noteq> t \<longrightarrow> owns_mutex w' p u \<longrightarrow> owns_mutex w p u)"

lemma owners_same: "mutexes w' = mutexes w \<Longrightarrow> owners_from t w w'"
  by (simp add: owners_from_def owns_mutex_def)

lemma owners_trans: "owners_from t w w1 \<Longrightarrow> owners_from t w1 w' \<Longrightarrow> owners_from t w w'"
  by (simp add: owners_from_def)

lemma owners_upd:
  assumes "mutexes w' = (mutexes w)(p \<mapsto> m')"
    "m_owner m' = None \<or> m_owner m' = Some t \<or> (\<exists>m. mutexes w p = Some m \<and> m_owner m' = m_owner m)"
  shows "owners_from t w w'"
  using assms by (auto simp: owners_from_def owns_mutex_def split: if_splits)

lemma owners_on_mutex:
  assumes "on_mutex f p w = Some (r, w')" "\<And>m r m'. f m = Some (r, m') \<Longrightarrow> lock_effect t m m'"
  shows "owners_from t w w'"
proof -
  obtain m m' where m: "mutexes w p = Some m" "f m = Some (r, m')" "mutexes w' = (mutexes w)(p \<mapsto> m')"
    using assms(1) by (auto simp: on_mutex_def bind_iff)
  from assms(2) [OF m(2)] m(1) show ?thesis by (intro owners_upd [OF m(3)]) (auto simp: lock_effect_def)
qed

lemma owners_MutexInit: "MutexInit mutex attr name new w = (r, w') \<Longrightarrow> owners_from t w w'"
  by (auto simp: MutexInit_def Let_def owners_from_def owns_mutex_def construct_PthreadMutex_def
      split: if_splits option.splits)

lemma owners_with_mutex:
  assumes "with_mutex mutex new f w = Some (x, w')" "\<And>m r m'. f m = Some (r, m') \<Longrightarrow> lock_effect t m m'"
  shows "owners_from t w w'"
proof -
  obtain ret w1 where 1: "check_and_init_mutex mutex new w = (ret, w1)" by fastforce
  then have "w1 = w \<or> (\<exists>a. MutexInit mutex a None new w = (ret, w1))"
    by (auto simp: check_and_init_mutex_def InitStatic_def split: if_splits)
  then have o: "owners_from t w w1" using owners_MutexInit owners_same by blast
  show ?thesis
  proof (cases "ret = 0")
    case True
    with assms(1) 1 obtain r where "on_mutex f (mutex_cells w1 mutex) w1 = Some (r, w')"
      by (auto simp: with_mutex_def)
    from owners_trans [OF o owners_on_mutex [OF this assms(2)]] show ?thesis .
  next
    case False
    with assms(1) 1 o show ?thesis by (auto simp: with_mutex_def)
  qed
qed

lemma owners_unlock:
  assumes "posix_pthread_mutex_unlock t mutex w = Some (x, w')"
  shows "owners_from t w w'"
  using assms by (auto simp: posix_pthread_mutex_unlock_def on_mutex_def Let_def bind_iff Unlock_def owners_from_def
      owns_mutex_def split: if_splits)

lemma owners_defer: "mutexes w mp = Some m \<Longrightarrow> owners_from t w (defer_wake t td mp m w)"
  by (rule owners_upd [OF defer_wake_mutexes]) simp

lemma same_sleep_id: "same_sleep w w"
  by (simp add: same_sleep_def)

interpretation broadcast_owners: drop_callback "drop_cb t" "\<lambda>d a w. owners_from t w0 w" for t w0
proof
  fix d a w a' w' td assume o: "owners_from t w0 w" and e: "drop_cb t td (a, w) = Some (a', w')"
  have "owners_from t w w'"
    using e owners_defer by (auto simp: drop_cb_def bind_iff fold_release_mutexes intro: owners_same split: if_splits)
  moreover have "same_sleep w w'"
    using e by (auto simp: drop_cb_def bind_iff defer_wake_sleep fold_release_sleep same_sleep_id split: if_splits)
  ultimately show "same_sleep w w' \<and> owners_from t w0 w'" using owners_trans [OF o] by blast
next
  show "owners_from t w0 w \<Longrightarrow> same_rest w w' \<Longrightarrow> owners_from t w0 w'" for d a w w'
    using owners_trans owners_same same_rest_fields(1) by blast
qed

lemma SleepqRemove_mutexes: "SleepqRemove q t w = Some (b, w') \<Longrightarrow> mutexes w' = mutexes w"
  by (auto simp: SleepqRemove_def unlink_def lend_def set_sq_def set_thread_def Let_def bind_iff split: if_splits list.splits)

lemma SleepqAdd_mutexes: "SleepqAdd c t w = Some w' \<Longrightarrow> mutexes w' = mutexes w"
  by (auto simp: SleepqAdd_def set_sq_def set_thread_def Let_def bind_iff split: if_splits option.splits)

lemma set_waiters_mutexes: "set_waiters c b w = Some w' \<Longrightarrow> mutexes w' = mutexes w"
  using set_waiters_core by (auto simp: same_core_def)

lemma leave_queue_mutexes:
  assumes "leave_queue t c w = Some w'"
  shows "mutexes w' = mutexes w"
proof -
  obtain sq b w1 where "SleepqRemove sq t w = Some (b, w1)" "set_waiters c b w1 = Some w'"
    using assms by (auto simp: leave_queue_def bind_iff)
  then show ?thesis using SleepqRemove_mutexes set_waiters_mutexes by metis
qed

lemma owners_signal:
  assumes "Cond_Signal t c thread w = Some (pc', w')"
  shows "owners_from t w w'"
proof (cases "w' = w")
  case True then show ?thesis by (simp add: owners_same)
next
  case False
  then obtain sq td b mp w1 w2 m where S: "SleepqRemove sq td w = Some (b, w1)" "set_waiters c b w1 = Some w2"
    "mutexes w2 mp = Some m" "w' = (if m_owner m = Some t then defer_wake t td mp m w2 else w2)"
    using assms by (auto simp: Cond_Signal_def Let_def bind_iff split: if_splits option.splits)
  have "owners_from t w w2" using S(1,2) by (simp add: owners_same SleepqRemove_mutexes set_waiters_mutexes)
  moreover have "owners_from t w2 w'" using S(4) owners_defer [of w2 mp m, OF S(3)] by (simp add: owners_same)
  ultimately show ?thesis by (rule owners_trans)
qed

lemma owners_broadcast:
  assumes wf: "sq_wf w" and e: "Cond_Broadcast t c w = Some (pc', w')"
  shows "owners_from t w w'"
proof (cases "SleepqLookup c w")
  case None
  then show ?thesis using e by (simp add: Cond_Broadcast_def owners_same)
next
  case (Some sq)
  have l: "sq \<in> linked w" using SleepqLookup_iff [OF wf] Some by auto
  obtain ws w1 where S: "SleepqDrop sq (drop_cb t) ([], w) = Some (ws, w1)" "set_waiters c False w1 = Some w'"
    using e Some by (auto simp: Cond_Broadcast_def bind_iff)
  have "owners_from t w w" by (simp add: owners_same)
  from broadcast_owners.SleepqDrop_called [OF wf l this S(1)] have "owners_from t w w1" by blast
  then show ?thesis using S(2) owners_same set_waiters_mutexes owners_trans by blast
qed

text \<open>The start of a wait: the mutex is released, and its count kept.\<close>

lemma wait_releases:
  assumes "Cond_Wait t c mutex tm w = Some (pc', w')" "IsOwned (mutex_cells w mutex) t w = Some 0"
  obtains m m' where "mutexes w (mutex_cells w mutex) = Some m" "m_owner m = Some t"
    "mutexes w' = (mutexes w)(mutex_cells w mutex \<mapsto> m')" "m_owner m' = None"
    "pc' = PreSleep c (mutex_cells w mutex) (m_count m) tm"
proof -
  let ?p = "mutex_cells w mutex"
  obtain m0 where m0: "mutexes w ?p = Some m0" "m_owner m0 = Some t" by (rule IsOwned_0 [OF assms(2)])
  obtain w1 m m' r recurse wk w4 where
    S: "set_waiters c True w = Some w1" "mutexes w1 ?p = Some m" "CvUnlock t True m = Some ((r, recurse, wk), m')"
      "SleepqAdd c t (upd_thread t (\<lambda>td. td\<lparr>mutex_obj := Some ?p\<rparr>)
         (set_mutex ?p m' (upd_thread t (\<lambda>td. td\<lparr>will_sleep := True\<rparr>) w1))) = Some w4"
      "pc' = PreSleep c ?p recurse tm" "w' = ClearWake t w4"
    using assms by (auto simp: Cond_Wait_def Let_def bind_iff)
  have "m = m0" using set_waiters_mutexes [OF S(1)] S(2) m0(1) by simp
  moreover have "m_owner m' = None" "recurse = m_count m" using S(3) m0(2) \<open>m = m0\<close>
    by (auto simp: CvUnlock_def Unlock_def split: if_splits)
  moreover have "mutexes w' = (mutexes w)(?p \<mapsto> m')"
    using SleepqAdd_mutexes [OF S(4)] set_waiters_mutexes [OF S(1)] S(6) by (simp add: ClearWake_def set_mutex_def)
  ultimately show thesis using that m0 S(5) by blast
qed

lemma owners_wait:
  assumes "Cond_Wait t c mutex tm w = Some (pc', w')"
  shows "owners_from t w w'"
proof (cases "IsOwned (mutex_cells w mutex) t w = Some 0")
  case True
  from wait_releases [OF assms this] show ?thesis by (metis owners_upd)
next
  case False
  then have "w' = w" using assms by (cases "IsOwned (mutex_cells w mutex) t w") (auto simp: Cond_Wait_def Let_def)
  then show ?thesis by (simp add: owners_same)
qed

lemma owners_with_cond:
  assumes wf: "sq_wf w" and e: "with_cond cond new f w = Some (pc', w')"
    and f: "\<And>c w1. sq_wf w1 \<Longrightarrow> f c w1 = Some (pc', w') \<Longrightarrow> owners_from t w1 w'"
  shows "owners_from t w w'"
proof -
  obtain ret w1 where 1: "check_and_init_cond cond new w = Some (ret, w1)"
    "(if ret \<noteq> 0 then Some (Out ret, w1) else f (cond_cells w1 cond) w1) = Some (pc', w')"
    using e by (auto simp: with_cond_def bind_iff)
  have core: "same_core w w1" by (rule check_and_init_cond_core [OF 1(1)])
  then have "owners_from t w w1" "sq_wf w1" using wf by (auto simp: same_core_def sq_wf_def linked_def intro: owners_same)
  then show ?thesis using 1(2) f owners_trans by (metis option.inject prod.inject)
qed

lemma owners_call:
  assumes wf: "sq_wf w" and k: "call_step t mv w = Some (pc', w')"
  shows "owners_from t w w'"
proof (cases mv)
  case (MLock mutex tm new)
  then obtain x where "with_mutex mutex new (Lock t tm) w = Some (x, w')" using k by (auto simp: bind_iff)
  then show ?thesis by (rule owners_with_mutex) (rule Lock_effect)
next
  case (MTryLock mutex new)
  then obtain x where "with_mutex mutex new (TryLock t) w = Some (x, w')"
    using k by (auto simp: bind_iff posix_pthread_mutex_trylock_def)
  then show ?thesis by (rule owners_with_mutex) (rule TryLock_effect)
next
  case (MUnlock mutex)
  then obtain x where "posix_pthread_mutex_unlock t mutex w = Some (x, w')" using k by (auto simp: bind_iff)
  then show ?thesis by (rule owners_unlock)
next
  case (MMutexInit mutex attr new)
  then obtain r a where "MutexInit mutex a None new w = (r, w')" using k by (auto simp: posix_pthread_mutex_init_def)
  then show ?thesis by (rule owners_MutexInit)
next
  case (MMutexDestroy mutex)
  then obtain r where "posix_pthread_mutex_destroy mutex w = Some (r, w')" using k by auto
  then show ?thesis
    by (auto simp: posix_pthread_mutex_destroy_def Let_def bind_iff owners_from_def owns_mutex_def split: if_splits)
next
  case (MWait cond mutex tm new)
  then have "w' = w \<or> with_cond cond new (\<lambda>c. Cond_Wait t c mutex tm) w = Some (pc', w')"
    using k by (auto simp: posix_pthread_cond_wait_def posix_pthread_cond_timedwait_def
        posix_pthread_cond_reltimedwait_np_def split: LockTime.splits if_splits)
  then show ?thesis using owners_with_cond [OF wf] owners_wait owners_same by blast
next
  case (MSignal cond thread new)
  then obtain th where "with_cond cond new (\<lambda>c. Cond_Signal t c th) w = Some (pc', w')"
    using k by (auto simp: posix_pthread_cond_signal_def posix_pthread_cond_signalto_np_def split: option.splits)
  then show ?thesis by (rule owners_with_cond [OF wf]) (rule owners_signal)
next
  case (MBroadcast cond new)
  then have "with_cond cond new (\<lambda>c. Cond_Broadcast t c) w = Some (pc', w')"
    using k by (simp add: posix_pthread_cond_broadcast_def)
  then show ?thesis by (rule owners_with_cond [OF wf]) (rule owners_broadcast)
next
  case (MCondInit cond attr new)
  then obtain r where "CondInit cond attr None new (w\<lparr>cond_cells := (cond_cells w)(cond := 0)\<rparr>) = Some (r, w')"
    using k by (auto simp: posix_pthread_cond_init_def)
  from CondInit_core [OF this] show ?thesis by (simp add: same_core_def owners_same)
next
  case (MCondDestroy cond)
  then have "mutexes w' = mutexes w"
    using k by (auto simp: posix_pthread_cond_destroy_def Let_def split: if_splits prod.splits)
  then show ?thesis by (rule owners_same)
qed (use k in simp_all)

section \<open>The whole wait\<close>

text \<open>A thread that waits, with the mutex it will lock again and the count it had.\<close>

definition wait_of :: "Pc \<Rightarrow> (nat \<times> s32) option" where
  "wait_of pc = (case pc of PreSleep c p r tm \<Rightarrow> Some (p, r) | Asleep c p r tm \<Rightarrow> Some (p, r)
     | Awake c p r e \<Rightarrow> Some (p, r) | Relock p r e l \<Rightarrow> Some (p, r) | _ \<Rightarrow> None)"

definition wait_error_ok :: "Pc \<Rightarrow> bool" where
  "wait_error_ok pc = (case pc of Awake c p r e \<Rightarrow> e \<in> {0, POSIX_ETIMEDOUT}
     | Relock p r e l \<Rightarrow> e \<in> {None, Some 0, Some POSIX_ETIMEDOUT} | _ \<Rightarrow> True)"

definition wait_inv :: "CondConfig \<Rightarrow> bool" where
  "wait_inv s \<longleftrightarrow> (case s of (pcs, w) \<Rightarrow> \<forall>t. wait_error_ok (pcs t) \<and>
     (\<forall>p r. wait_of (pcs t) = Some (p, r) \<longrightarrow> \<not> owns_mutex w p t))"

text \<open>The end of a wait: the mutex is owned, with the count as it was.\<close>

definition wait_done :: "nat \<Rightarrow> nat \<Rightarrow> s32 \<Rightarrow> Pc \<Rightarrow> 'a MutexWorld_scheme \<Rightarrow> bool" where
  "wait_done t p r pc w \<longleftrightarrow> pc \<in> {Out 0, Out POSIX_ETIMEDOUT} \<and>
     (\<exists>m. mutexes w p = Some m \<and> m_owner m = Some t \<and> m_count m = r)"

definition wait_goes_on :: "nat \<Rightarrow> nat \<Rightarrow> s32 \<Rightarrow> Pc \<Rightarrow> 'a MutexWorld_scheme \<Rightarrow> bool" where
  "wait_goes_on t p r pc w \<longleftrightarrow> wait_of pc = Some (p, r) \<and> wait_error_ok pc \<and> \<not> owns_mutex w p t"

lemma not_owner: "\<not> owns_mutex w p t \<Longrightarrow> mutexes w p = Some m \<Longrightarrow> m_owner m \<noteq> Some t"
  by (auto simp: owns_mutex_def)

lemma owns_same: "mutexes w' = mutexes w \<Longrightarrow> owns_mutex w' p t = owns_mutex w p t"
  by (simp add: owns_mutex_def)

lemma CvLock_goes_on:
  assumes "CvLock t p r eo w = Some (pc', w')" "\<not> owns_mutex w p t" "eo \<in> {None, Some 0, Some POSIX_ETIMEDOUT}"
  shows "wait_goes_on t p r pc' w'"
  using assms by (auto simp: CvLock_def on_mutex_def bind_iff Lock_def CvLock_end_def wait_goes_on_def wait_of_def
      wait_error_ok_def owns_mutex_def split: if_splits)

lemma Lock_step_NoTime:
  "Lock_step t NoTime l m = (out, m') \<Longrightarrow>
     (\<exists>l'. out = Pending l' \<and> m' = m) \<or> out = Returned 0 \<and> m_owner m' = Some t"
  by (cases l) (auto simp: bad_abstime_def acquire_or_def try_acquire_def split: if_splits)

lemma relock_goes_on:
  assumes k: "next_step t (Relock p r eo l) w = Some (pc', w')" and o: "\<not> owns_mutex w p t"
    and e: "eo \<in> {None, Some 0, Some POSIX_ETIMEDOUT}"
  shows "wait_goes_on t p r pc' w' \<or> wait_done t p r pc' w'"
proof -
  obtain m out m1 m' where m: "mutexes w p = Some m" "Lock_step t NoTime l m = (out, m1)"
    "CvLock_end p r eo out m1 = (pc', m')" "mutexes w' = (mutexes w)(p \<mapsto> m')"
    using k by (auto simp: on_mutex_def bind_iff case_prod_beta prod_eq_iff)
  from Lock_step_NoTime [OF m(2)] show ?thesis
  proof (elim disjE exE conjE)
    fix l' assume "out = Pending l'" "m1 = m"
    then have "pc' = Relock p r eo l'" "m' = m" using m(3) by (auto simp: CvLock_end_def)
    then show ?thesis using not_owner [OF o m(1)] m(4) e
      by (simp add: wait_goes_on_def wait_of_def wait_error_ok_def owns_mutex_def)
  next
    assume "out = Returned 0" "m_owner m1 = Some t"
    then have "pc' = Out (wait_result eo 0)" "m' = m1\<lparr>m_count := r\<rparr>" using m(3) by (auto simp: CvLock_end_def)
    then show ?thesis using \<open>m_owner m1 = Some t\<close> m(4) e by (auto simp: wait_done_def wait_result_def)
  qed
qed

lemma Cond_woken_cases:
  assumes k: "Cond_woken t c p r e w = Some (pc', w')"
  obtains (lock) eo w1 where "mutexes w1 = mutexes w" "CvLock t p r eo w1 = Some (pc', w')"
      "eo \<in> {None, Some 0, Some POSIX_ETIMEDOUT}"
    | (stop) "pc' = Stopped c" "w' = w"
proof (cases "wchan (threads w t) = None")
  case True
  then have "CvLock t p r (Some 0) w = Some (pc', w')" using k by (simp add: Cond_woken_def)
  then show ?thesis using that(1) by blast
next
  case False
  then consider eo w1 where "leave_queue t c w = Some w1" "CvLock t p r eo w1 = Some (pc', w')"
      "eo = None \<or> eo = Some POSIX_ETIMEDOUT"
    | "pc' = Stopped c" "w' = w"
    using k by (fastforce simp: Cond_woken_def bind_iff split: if_splits)
  then show ?thesis
  proof cases
    case (1 eo w1)
    then show ?thesis using that(1) [OF leave_queue_mutexes [OF 1(1)] 1(2)] by blast
  next
    case 2
    then show ?thesis by (rule that(2))
  qed
qed

lemma woken_goes_on:
  assumes k: "Cond_woken t c p r e w = Some (pc', w')" and o: "\<not> owns_mutex w p t"
  shows "wait_goes_on t p r pc' w' \<or> pc' = Stopped c"
  using k
proof (cases rule: Cond_woken_cases)
  case (lock eo w1)
  from CvLock_goes_on [OF lock(2) _ lock(3)] o owns_same [OF lock(1)] show ?thesis by simp
qed simp

lemma owners_CvLock:
  assumes "CvLock t p r eo w = Some (pc', w')"
  shows "owners_from t w w'"
proof -
  let ?w = "upd_thread t (\<lambda>td. td\<lparr>mutex_obj := None\<rparr>) w"
  have "owners_from t ?w w'"
  proof (rule owners_on_mutex)
    show "on_mutex (\<lambda>m. do { (out, m') \<leftarrow> Lock t NoTime m; Some (CvLock_end p r eo out m') }) p ?w = Some (pc', w')"
      using assms by (simp add: CvLock_def)
    fix m x m'
    assume "do { (out, m') \<leftarrow> Lock t NoTime m; Some (CvLock_end p r eo out m') } = Some (x, m')"
    then obtain out m1 where "Lock t NoTime m = Some (out, m1)" "CvLock_end p r eo out m1 = (x, m')"
      by (auto simp: bind_iff)
    with CvLock_end_effect [OF Lock_effect, of t NoTime m out m1 p r eo out] show "lock_effect t m m'" by simp
  qed
  then show ?thesis using owners_trans [OF owners_same, of ?w w] by simp
qed

lemma owners_woken:
  assumes "Cond_woken t c p r e w = Some (pc', w')"
  shows "owners_from t w w'"
  using assms
proof (cases rule: Cond_woken_cases)
  case (lock eo w1)
  then show ?thesis using owners_trans [OF owners_same owners_CvLock] by blast
qed (simp add: owners_same)

text \<open>A step of a thread that waits.\<close>

lemma waiting_move:
  assumes k: "move t mv pc w = Some (pc', w')" and pc: "wait_goes_on t p r pc w"
  shows "wait_goes_on t p r pc' w' \<or> wait_done t p r pc' w' \<or> (\<exists>c. pc' = Stopped c)"
proof -
  have o: "\<not> owns_mutex w p t" and wo: "wait_of pc = Some (p, r)" and eo: "wait_error_ok pc"
    using pc by (auto simp: wait_goes_on_def)
  have keep: "wait_goes_on t p r pc' w'" if "mutexes w' = mutexes w" "wait_of pc' = Some (p, r)" "wait_error_ok pc'"
    using that o owns_same [OF that(1)] by (simp add: wait_goes_on_def)
  consider "mv = MNext" | "mv = MTimeout" | a b c where "mv = MCancelFlags a b c" | q a b where "mv = MLoops q a b"
    using k wo by (cases mv; cases pc; simp add: wait_of_def)
  then show ?thesis
  proof cases
    case 1
    then have n: "next_step t pc w = Some (pc', w')" using k by simp
    show ?thesis
    proof (cases pc)
      case (PreSleep c q s tm)
      then have "pc' = Asleep c p r tm" "mutexes w' = mutexes w"
        using n wo by (auto simp: wait_of_def Sleep_begin_def Let_def WakeAll_rest split: if_splits)
      then show ?thesis using keep by (simp add: wait_of_def wait_error_ok_def)
    next
      case (Asleep c q s tm)
      then have "pc' = Awake c p r 0" "mutexes w' = mutexes w"
        using n wo by (auto simp: wait_of_def Sleep_acquire_def split: if_splits)
      then show ?thesis using keep by (simp add: wait_of_def wait_error_ok_def)
    next
      case (Awake c q s e)
      then have "Cond_woken t c p r e w = Some (pc', w')" using n wo by (simp add: wait_of_def)
      from woken_goes_on [OF this o] show ?thesis by blast
    next
      case (Relock q s e l)
      then have "next_step t (Relock p r e l) w = Some (pc', w')" "e \<in> {None, Some 0, Some POSIX_ETIMEDOUT}"
        using n wo eo by (simp_all add: wait_of_def wait_error_ok_def)
      from relock_goes_on [OF this(1) o this(2)] show ?thesis by blast
    qed (use wo in \<open>simp_all add: wait_of_def\<close>)
  next
    case 2
    then have "\<exists>c tm. pc = Asleep c p r tm \<and> pc' = Awake c p r POSIX_ETIMEDOUT \<and> w' = w"
      using k wo by (cases pc) (auto simp: wait_of_def split: if_splits)
    then show ?thesis using keep by (auto simp: wait_of_def wait_error_ok_def)
  next
    case (3 a b c)
    then have "pc' = pc" "mutexes w' = mutexes w" using k by auto
    then show ?thesis using keep wo eo by simp
  next
    case (4 q a b)
    then have "pc' = pc" "\<exists>m. mutexes w q = Some m \<and> mutexes w' = (mutexes w)(q \<mapsto> m\<lparr>m_spinloops := a, m_yieldloops := b\<rparr>)"
      using k by (auto simp: on_mutex_def bind_iff)
    then show ?thesis using wo eo o by (auto simp: wait_goes_on_def owns_mutex_def split: if_splits)
  qed
qed

text \<open>What a step does to the owners, and the steps of a thread that does not wait.\<close>

lemma owners_move:
  assumes wf: "sq_wf w" and k: "move t mv pc w = Some (pc', w')"
  shows "owners_from t w w'"
proof -
  consider "mv = MNext" | "mv = MTimeout" | a b c where "mv = MCancelFlags a b c" | q a b where "mv = MLoops q a b"
    | "call_step t mv w = Some (pc', w')"
    using k by (cases mv; cases pc; simp)
  then show ?thesis
  proof cases
    case 1
    then have n: "next_step t pc w = Some (pc', w')" using k by simp
    show ?thesis
    proof (cases "mutexes w' = mutexes w")
      case True then show ?thesis by (rule owners_same)
    next
      case False
      then consider p tm l where "pc = InLock p tm l" | c p r e where "pc = Awake c p r e" | p r e l where "pc = Relock p r e l"
        using n by (cases "(t, pc, w)" rule: next_step.cases) (auto simp: WakeAll_rest release_sema_def Sleep_begin_def
            Sleep_acquire_def Let_def split: if_splits)
      then show ?thesis
      proof cases
        case (1 p tm l)
        then have "on_mutex (\<lambda>m. let (out, m') = Lock_step t tm l m in Some (locked_pc p tm out, m')) p w = Some (pc', w')"
          using n by simp
        then show ?thesis by (rule owners_on_mutex) (auto split: prod.splits dest: Lock_step_effect)
      next
        case (2 c p r e)
        then show ?thesis using n owners_woken by simp
      next
        case (3 p r e l)
        then have "on_mutex (\<lambda>m. let (out, m') = Lock_step t NoTime l m in Some (CvLock_end p r e out m')) p w = Some (pc', w')"
          using n by simp
        then show ?thesis
        proof (rule owners_on_mutex)
          fix m x m'
          assume "(let (out, m') = Lock_step t NoTime l m in Some (CvLock_end p r e out m')) = Some (x, m')"
          then obtain out m1 where m1: "Lock_step t NoTime l m = (out, m1)" "CvLock_end p r e out m1 = (x, m')"
            by (auto split: prod.splits)
          from CvLock_end_effect [OF Lock_step_effect [OF m1(1)], of p r e out] m1(2) show "lock_effect t m m'" by simp
        qed
      qed
    qed
  next
    case 2
    then have "w' = w" using k by (cases pc) (auto split: if_splits)
    then show ?thesis by (simp add: owners_same)
  next
    case (3 a b c)
    then show ?thesis using k by (auto intro: owners_same)
  next
    case (4 q a b)
    then obtain u where "on_mutex (\<lambda>m. Some ((), m\<lparr>m_spinloops := a, m_yieldloops := b\<rparr>)) q w = Some (u, w')"
      using k by auto
    then show ?thesis by (rule owners_on_mutex) (auto simp: lock_effect_def)
  next
    case 5 then show ?thesis by (rule owners_call [OF wf])
  qed
qed

lemma no_wait_signal: "Cond_Signal t c thread w = Some (pc', w') \<Longrightarrow> wait_of pc' = None"
  by (auto simp: Cond_Signal_def Let_def bind_iff wait_of_def split: if_splits option.splits)

lemma no_wait_broadcast: "Cond_Broadcast t c w = Some (pc', w') \<Longrightarrow> wait_of pc' = None"
  by (auto simp: Cond_Broadcast_def bind_iff wait_of_def split: option.splits)

lemma no_wait_with_cond:
  assumes "with_cond cond new f w = Some (pc', w')" "\<And>c w1. f c w1 = Some (pc', w') \<Longrightarrow> wait_of pc' = None"
  shows "wait_of pc' = None"
  using assms by (auto simp: with_cond_def bind_iff wait_of_def split: if_splits)

lemma no_wait_locked [simp]: "wait_of (locked_pc q tm out) = None" "wait_of (Out e) = None" "wait_of Waking = None"
  by (simp_all add: locked_pc_def wait_of_def split: LockOutcome.split)

lemma no_wait_call:
  assumes k: "call_step t mv w = Some (pc', w')" and no: "\<And>cond mutex tm new. mv \<noteq> MWait cond mutex tm new"
  shows "wait_of pc' = None"
proof (cases mv)
  case (MLock mutex tm new)
  then obtain x where "pc' = (case x of Inl e \<Rightarrow> Out e | Inr out \<Rightarrow> locked_pc (mutex_cells w' mutex) tm out)"
    using k by (auto simp: bind_iff)
  then show ?thesis by (simp split: sum.split)
next
  case (MTryLock mutex new)
  then obtain x where "pc' = (case x of Inl e \<Rightarrow> Out e | Inr r \<Rightarrow> Out r)" using k by (auto simp: bind_iff)
  then show ?thesis by (simp split: sum.split)
next
  case (MSignal cond thread new)
  then obtain th where "with_cond cond new (\<lambda>c. Cond_Signal t c th) w = Some (pc', w')"
    using k by (auto simp: posix_pthread_cond_signal_def posix_pthread_cond_signalto_np_def split: option.splits)
  then show ?thesis by (rule no_wait_with_cond) (rule no_wait_signal)
next
  case (MBroadcast cond new)
  then have "with_cond cond new (\<lambda>c. Cond_Broadcast t c) w = Some (pc', w')"
    using k by (simp add: posix_pthread_cond_broadcast_def)
  then show ?thesis by (rule no_wait_with_cond) (rule no_wait_broadcast)
qed (use k no in \<open>auto simp: bind_iff Let_def split: sum.split_asm prod.split_asm if_splits\<close>)

lemma no_wait_start:
  assumes k: "move t mv pc w = Some (pc', w')" and wo: "wait_of pc = None"
  shows "wait_of pc' = None \<or> (\<exists>cond mutex tm new r0. mv = MWait cond mutex tm new \<and> pc = Out r0)"
proof -
  consider "mv = MNext" | "mv = MTimeout" | a b c where "mv = MCancelFlags a b c" | q a b where "mv = MLoops q a b"
    | r0 where "pc = Out r0" "call_step t mv w = Some (pc', w')"
    using k by (cases mv; cases pc; simp)
  then show ?thesis
  proof cases
    case 1
    then have "next_step t pc w = Some (pc', w')" using k by simp
    then have "(\<exists>p tm out. pc' = locked_pc p tm out) \<or> (\<exists>us. pc' = Releasing us) \<or> pc' = Out 0"
      using wo by (cases "(t, pc, w)" rule: next_step.cases) (auto simp: wait_of_def on_mutex_def bind_iff case_prod_beta)
    then show ?thesis by (auto simp: wait_of_def [of "Releasing _"])
  next
    case 2
    then show ?thesis using k wo by (cases pc) (auto simp: wait_of_def split: if_splits)
  next
    case (3 a b c) then show ?thesis using k wo by simp
  next
    case (4 q a b) then show ?thesis using k wo by auto
  next
    case (5 r0)
    then show ?thesis using no_wait_call [OF 5(2)] by blast
  qed
qed

lemma wait_start:
  assumes k: "move t mv pc w = Some (pc', w')" and wo: "wait_of pc = None" and wo': "wait_of pc' = Some (p, r)"
  shows "wait_error_ok pc' \<and> \<not> owns_mutex w' p t \<and> (\<exists>m. mutexes w p = Some m \<and> m_owner m = Some t \<and> m_count m = r)"
proof -
  obtain cond mutex tm new r0 where mv: "mv = MWait cond mutex tm new" "pc = Out r0"
    using no_wait_start [OF k wo] wo' by auto
  have "with_cond cond new (\<lambda>c. Cond_Wait t c mutex tm) w = Some (pc', w')"
    using k wo' mv by (auto simp: posix_pthread_cond_wait_def posix_pthread_cond_timedwait_def wait_of_def
        posix_pthread_cond_reltimedwait_np_def split: LockTime.splits if_splits)
  then obtain ret w1 where 1: "check_and_init_cond cond new w = Some (ret, w1)"
    "(if ret \<noteq> 0 then Some (Out ret, w1) else Cond_Wait t (cond_cells w1 cond) mutex tm w1) = Some (pc', w')"
    by (auto simp: with_cond_def bind_iff)
  have same: "mutexes w1 = mutexes w" using check_and_init_cond_core [OF 1(1)] by (simp add: same_core_def)
  have c: "Cond_Wait t (cond_cells w1 cond) mutex tm w1 = Some (pc', w')" using 1(2) wo' by (auto simp: wait_of_def split: if_splits)
  have "IsOwned (mutex_cells w1 mutex) t w1 = Some 0"
    using c wo' by (cases "IsOwned (mutex_cells w1 mutex) t w1") (auto simp: Cond_Wait_def Let_def wait_of_def split: if_splits)
  from wait_releases [OF c this] wo' same show ?thesis by (fastforce simp: wait_of_def wait_error_ok_def owns_mutex_def)
qed

lemma wait_step_inv:
  assumes "cond_step (pcs, w) (pcs', w')" "sq_wf w" and inv: "wait_inv (pcs, w)"
  shows "wait_inv (pcs', w')"
proof -
  obtain t mv pc' where m: "move t mv (pcs t) w = Some (pc', w')" "pcs' = pcs(t := pc')"
    using assms(1) by (auto elim: cond_step.cases)
  have I: "wait_error_ok (pcs u)" "wait_of (pcs u) = Some (p, r) \<Longrightarrow> \<not> owns_mutex w p u" for u p r
    using inv by (auto simp: wait_inv_def)
  have o: "owners_from t w w'" by (rule owners_move [OF assms(2) m(1)])
  have own: "owners_from t w w' \<and> wait_error_ok pc' \<and> (\<forall>p r. wait_of pc' = Some (p, r) \<longrightarrow> \<not> owns_mutex w' p t)"
  proof (cases "wait_of (pcs t)")
    case None
    have "wait_of pc' = None \<Longrightarrow> wait_error_ok pc'" by (simp add: wait_of_def wait_error_ok_def split: Pc.splits)
    then show ?thesis using o wait_start [OF m(1) None] by (cases "wait_of pc'") auto
  next
    case (Some pr)
    obtain p r where pr: "wait_of (pcs t) = Some (p, r)" using Some by (cases pr) simp
    from waiting_move [OF m(1), of p r] I pr have
      "wait_goes_on t p r pc' w' \<or> wait_done t p r pc' w' \<or> (\<exists>c. pc' = Stopped c)" by (simp add: wait_goes_on_def)
    with o show ?thesis by (auto simp: wait_goes_on_def wait_done_def wait_error_ok_def wait_of_def)
  qed
  show ?thesis unfolding wait_inv_def prod.case m(2)
  proof (intro allI conjI impI)
    fix u show "wait_error_ok ((pcs(t := pc')) u)" using own I(1) by simp
    show "\<not> owns_mutex w' p u" if "wait_of ((pcs(t := pc')) u) = Some (p, r)" for p r
      using own I(2) [of u p r] that by (cases "u = t") (auto simp: owners_from_def)
  qed
qed

lemma reachable_invs:
  assumes "cond_step\<^sup>*\<^sup>* (\<lambda>_. Out 0, w0) s" "cond_start w0"
  shows "cond_inv s \<and> wait_inv s"
  using assms(1)
proof (induction rule: rtranclp_induct)
  case base
  have "wait_inv (\<lambda>_. Out 0, w0)" by (simp add: wait_inv_def wait_error_ok_def)
  then show ?case using cond_start_inv [OF assms(2)] by blast
next
  case (step s1 s2)
  have "sq_wf (snd s1)" using step.IH cond_invD(1) [of "fst s1" "snd s1"] by simp
  then show ?case using cond_step_inv [OF step.hyps(2)] wait_step_inv [of "fst s1" "snd s1" "fst s2" "snd s2"] step
    by simp
qed

text \<open>
  C12. A wait on a condition variable gives the mutex back as it was: it starts by releasing a mutex the
  thread owns, keeping its recursion count, and every later step of any thread leaves the wait going on
  for the same mutex and count, stops it at \<open>UNREACHABLE\<close>, or ends it with success or \<open>ETIMEDOUT\<close>,
  and then the thread owns the mutex again with the count it had.
\<close>

theorem cond_wait_restores_mutex:
  assumes "cond_start w0" "cond_step\<^sup>*\<^sup>* (\<lambda>_. Out 0, w0) (pcs, w)" "cond_step (pcs, w) (pcs', w')"
  shows "(wait_of (pcs t) = None \<longrightarrow> wait_of (pcs' t) = Some (p, r) \<longrightarrow>
      (\<exists>m. mutexes w p = Some m \<and> m_owner m = Some t \<and> m_count m = r) \<and> \<not> owns_mutex w' p t) \<and>
    (wait_of (pcs t) = Some (p, r) \<longrightarrow>
      wait_of (pcs' t) = Some (p, r) \<and> \<not> owns_mutex w' p t \<or> wait_done t p r (pcs' t) w' \<or> (\<exists>c. pcs' t = Stopped c))"
proof -
  from reachable_invs [OF assms(2,1)] have ci: "cond_inv (pcs, w)" and I: "wait_inv (pcs, w)" by simp_all
  have I': "wait_inv (pcs', w')" by (rule wait_step_inv [OF assms(3) cond_invD(1) [OF ci] I])
  obtain s mv pc' where m: "move s mv (pcs s) w = Some (pc', w')" "pcs' = pcs(s := pc')"
    using assms(3) by (auto elim: cond_step.cases)
  have start: "(\<exists>m. mutexes w p = Some m \<and> m_owner m = Some t \<and> m_count m = r) \<and> \<not> owns_mutex w' p t"
    if "wait_of (pcs t) = None" "wait_of (pcs' t) = Some (p, r)"
    using that m wait_start [of s mv "pcs s" w pc' w' p r] by (cases "s = t") auto
  have later: "wait_of (pcs' t) = Some (p, r) \<and> \<not> owns_mutex w' p t \<or> wait_done t p r (pcs' t) w' \<or> (\<exists>c. pcs' t = Stopped c)"
    if wo: "wait_of (pcs t) = Some (p, r)"
  proof (cases "s = t")
    case True
    have "wait_goes_on t p r (pcs t) w" using I wo by (simp add: wait_inv_def wait_goes_on_def)
    from waiting_move [OF _ this, of mv pc' w'] m True show ?thesis by (auto simp: wait_goes_on_def)
  next
    case False
    then show ?thesis using m wo I' by (simp add: wait_inv_def)
  qed
  from start later show ?thesis by blast
qed

text \<open>Thread 1 locks a recursive mutex twice, waits, is signalled and runs to the end of the wait.\<close>

definition recursive_boot :: CondWorld where
  "recursive_boot = cond_boot\<lparr>mutexattr_cells := (\<lambda>_. 0)(30 := 40),
     mutexattrs := [40 \<mapsto> \<lparr>m_type = Recursive, attr_protocol = ProtNone, m_ceiling = 0\<rparr>]\<rparr>"

definition recursive_wait :: "(nat \<times> Move) list" where
  "recursive_wait = [(1, MMutexInit 10 30 (Some 100)), (1, MLock 10 NoTime None), (1, MNext), (1, MNext), (1, MNext),
     (1, MLock 10 NoTime None), (1, MWait 20 10 NoTime (Some 200)), (1, MNext), (2, MSignal 20 None None), (2, MNext),
     (1, MNext), (1, MNext), (1, MNext), (1, MNext)]"

lemma recursive_wait_runs:
  "\<exists>pcs w w'. run_moves recursive_wait (\<lambda>_. Out 0, recursive_boot) = Some (pcs, w) \<and>
     wait_of (pcs 1) = Some (100, 1) \<and> move 1 MNext (pcs 1) w = Some (Out 0, w')"
  unfolding recursive_wait_def
  by (simp add: run_defs cond_boot_def recursive_boot_def idle_thread_def move_ok_def Let_def
      posix_pthread_mutex_init_def read_mutexattr_def SelfLock_def count_up_def wait_of_def)

theorem cond_wait_restores_mutex_witness:
  "\<exists>pcs w w'. cond_step\<^sup>*\<^sup>* (\<lambda>_. Out 0, recursive_boot) (pcs, w) \<and> wait_of (pcs 1) = Some (100, 1) \<and>
     cond_step (pcs, w) (pcs(1 := Out 0), w') \<and> wait_done 1 100 1 (Out 0) w'"
proof -
  obtain pcs w w' where r: "run_moves recursive_wait (\<lambda>_. Out 0, recursive_boot) = Some (pcs, w)"
    "wait_of (pcs 1) = Some (100, 1)" "move 1 MNext (pcs 1) w = Some (Out 0, w')"
    using recursive_wait_runs by blast
  have start: "cond_start recursive_boot" using cond_boot_start
    by (simp add: recursive_boot_def cond_start_def no_sleepers_def)
  have step: "cond_step (pcs, w) (pcs(1 := Out 0), w')" 
    using r(3) by (rule cond_step.intros [where pcs = pcs and t = 1]) (simp add: move_ok_def)
  note s = run_moves_steps [OF r(1)]
  from cond_wait_restores_mutex [OF start s step, of 1 100 1] r(2) s step show ?thesis by auto
qed

end
