(* ===== verification/Pthread_Rwlock.thy ===== *)
theory Pthread_Rwlock
  imports Pthread_Mutex "HOL-Library.Multiset"
begin

text \<open>
  The read-write locks of \<open>src/src/core/libraries/kernel/threads/rwlock.cpp\<close>, over the lock
  \<open>SharedFirstMutex\<close> of \<open>src/src/common/shared_first_mutex.h\<close>, in which readers go first.

  The lock and the assignment of the owner after it are one step, like the unlocking and the assignment
  before it.  A call that has to wait ends in \<open>RwReading\<close> or \<open>RwWriting\<close>.  There the thread looks at the
  condition of its wait; when it does not hold the thread sleeps on the condition variable, and does not
  look again until a notification, the end of its time or a spurious wakeup has woken it.
\<close>

section \<open>The shared lock\<close>

text \<open>\<open>sleepers\<close> are the threads in the condition variable \<open>cv\<close> that have not been woken.\<close>

record SharedFirstMutex =
  readers :: int
  writer_active :: bool
  sleepers :: "nat set"

definition notify_all :: "SharedFirstMutex \<Rightarrow> SharedFirstMutex" where
  "notify_all m = m\<lparr>sleepers := {}\<rparr>"

definition Shared_try_lock :: "SharedFirstMutex \<Rightarrow> bool \<times> SharedFirstMutex" where
  "Shared_try_lock m = (if writer_active m \<or> readers m > 0 then (False, m) else (True, m\<lparr>writer_active := True\<rparr>))"

definition Shared_try_lock_shared :: "SharedFirstMutex \<Rightarrow> bool \<times> SharedFirstMutex" where
  "Shared_try_lock_shared m = (if writer_active m then (False, m) else (True, m\<lparr>readers := readers m + 1\<rparr>))"

text \<open>
  One look of a thread that is awake at the condition of its wait, in \<open>lock\<close> and \<open>lock_shared\<close> as in
  \<open>try_lock_until\<close> and \<open>try_lock_shared_until\<close>: the lock is taken, or the thread goes to sleep.
\<close>

definition Shared_lock :: "nat \<Rightarrow> SharedFirstMutex \<Rightarrow> bool \<times> SharedFirstMutex" where
  "Shared_lock t m = (if \<not> writer_active m \<and> readers m = 0 then (True, m\<lparr>writer_active := True\<rparr>)
     else (False, m\<lparr>sleepers := insert t (sleepers m)\<rparr>))"

definition Shared_lock_shared :: "nat \<Rightarrow> SharedFirstMutex \<Rightarrow> bool \<times> SharedFirstMutex" where
  "Shared_lock_shared t m = (if \<not> writer_active m then (True, m\<lparr>readers := readers m + 1\<rparr>)
     else (False, m\<lparr>sleepers := insert t (sleepers m)\<rparr>))"

text \<open>The thread is woken, and the last look of \<open>try_lock_until\<close> and \<open>try_lock_shared_until\<close> when the time is over.\<close>

definition wake :: "nat \<Rightarrow> SharedFirstMutex \<Rightarrow> SharedFirstMutex" where
  "wake t m = m\<lparr>sleepers := sleepers m - {t}\<rparr>"

definition Shared_try_lock_until :: "nat \<Rightarrow> SharedFirstMutex \<Rightarrow> bool \<times> SharedFirstMutex" where
  "Shared_try_lock_until t m0 = (let m = wake t m0
     in if \<not> writer_active m \<and> readers m = 0 then (True, m\<lparr>writer_active := True\<rparr>) else (False, m))"

definition Shared_try_lock_shared_until :: "nat \<Rightarrow> SharedFirstMutex \<Rightarrow> bool \<times> SharedFirstMutex" where
  "Shared_try_lock_shared_until t m0 = (let m = wake t m0
     in if \<not> writer_active m then (True, m\<lparr>readers := readers m + 1\<rparr>) else (False, m))"

definition Shared_unlock :: "SharedFirstMutex \<Rightarrow> SharedFirstMutex" where
  "Shared_unlock m = notify_all (m\<lparr>writer_active := False\<rparr>)"

definition Shared_unlock_shared :: "SharedFirstMutex \<Rightarrow> SharedFirstMutex" where
  "Shared_unlock_shared m0 = (let m = m0\<lparr>readers := readers m0 - 1\<rparr>
     in if readers m = 0 then notify_all m else m)"

section \<open>The calls\<close>

abbreviation THR_RWLOCK_INITIALIZER :: nat where "THR_RWLOCK_INITIALIZER \<equiv> 0"
abbreviation THR_RWLOCK_DESTROYED :: nat where "THR_RWLOCK_DESTROYED \<equiv> 1"

record PthreadRwlock =
  rw_lock :: SharedFirstMutex
  rw_owner :: "nat option"

record PthreadRwlockAttr =
  rw_pshared :: s32
  rw_type :: s32

record RwWorld =
  rwlocks :: "nat \<Rightarrow> PthreadRwlock option"
  rwlock_cells :: "nat \<Rightarrow> nat"
  rwlockattrs :: "nat \<Rightarrow> PthreadRwlockAttr option"
  rwlockattr_cells :: "nat \<Rightarrow> nat"
  rdlock_count :: "nat \<Rightarrow> int"
  sdk_version :: s32

definition new_rwlock :: PthreadRwlock where
  "new_rwlock = \<lparr>rw_lock = \<lparr>readers = 0, writer_active = False, sleepers = {}\<rparr>, rw_owner = None\<rparr>"

text \<open>
  The version is compared with \<open>FW_450\<close> as an unsigned number.  A lock that is not made leaves the cell
  as it is.
\<close>

definition RwlockInit :: "nat \<Rightarrow> nat \<Rightarrow> nat option \<Rightarrow> RwWorld \<Rightarrow> (s32 \<times> RwWorld) option" where
  "RwlockInit rwlock attr new w = (case new of
     None \<Rightarrow> Some (POSIX_ENOMEM, w)
   | Some p \<Rightarrow> do {
       bad \<leftarrow> (if attr \<noteq> 0 \<and> sdk_version w mod 4294967296 \<ge> 0x4500000
               then map_option (\<lambda>a. rw_type a > 2) (rwlockattrs w (rwlockattr_cells w attr)) else Some False);
       Some (if bad then (POSIX_EINVAL, w)
             else (0, w\<lparr>rwlocks := (rwlocks w)(p \<mapsto> new_rwlock), rwlock_cells := (rwlock_cells w)(rwlock := p)\<rparr>)) })"

definition Rwlock_InitStatic :: "nat \<Rightarrow> nat option \<Rightarrow> RwWorld \<Rightarrow> s32 \<times> RwWorld" where
  "Rwlock_InitStatic rwlock new w =
     (if rwlock_cells w rwlock = THR_RWLOCK_INITIALIZER
      then (case new of None \<Rightarrow> (POSIX_ENOMEM, w)
        | Some p \<Rightarrow> (0, w\<lparr>rwlocks := (rwlocks w)(p \<mapsto> new_rwlock), rwlock_cells := (rwlock_cells w)(rwlock := p)\<rparr>))
      else (0, w))"

definition check_and_init_rwlock :: "nat \<Rightarrow> nat option \<Rightarrow> RwWorld \<Rightarrow> s32 \<times> RwWorld" where
  "check_and_init_rwlock rwlock new w =
     (if rwlock_cells w rwlock = THR_RWLOCK_INITIALIZER then Rwlock_InitStatic rwlock new w
      else if rwlock_cells w rwlock = THR_RWLOCK_DESTROYED then (POSIX_EINVAL, w)
      else (0, w))"

definition posix_pthread_rwlock_init :: "nat \<Rightarrow> nat \<Rightarrow> nat option \<Rightarrow> RwWorld \<Rightarrow> (s32 \<times> RwWorld) option" where
  "posix_pthread_rwlock_init rwlock attr new w =
     RwlockInit rwlock attr new (w\<lparr>rwlock_cells := (rwlock_cells w)(rwlock := 0)\<rparr>)"

definition posix_pthread_rwlock_destroy :: "nat \<Rightarrow> RwWorld \<Rightarrow> (s32 \<times> RwWorld) option" where
  "posix_pthread_rwlock_destroy rwlock w =
     (let p = rwlock_cells w rwlock
      in if p = THR_RWLOCK_INITIALIZER then Some (0, w)
         else if p = THR_RWLOCK_DESTROYED then Some (POSIX_EINVAL, w)
         else do {
           l \<leftarrow> rwlocks w p;
           Some (0, w\<lparr>rwlock_cells := (rwlock_cells w)(rwlock := THR_RWLOCK_DESTROYED),
                      rwlocks := (rwlocks w)(p := None)\<rparr>) })"

text \<open>Where a thread is; a time of \<open>None\<close> is a null pointer.\<close>

datatype RwPc = RwOut s32 | RwReading nat "(int \<times> int) option" | RwWriting nat "(int \<times> int) option"

definition set_rwlock :: "nat \<Rightarrow> PthreadRwlock \<Rightarrow> RwWorld \<Rightarrow> RwWorld" where
  "set_rwlock p l w = w\<lparr>rwlocks := (rwlocks w)(p \<mapsto> l)\<rparr>"

definition count_read :: "nat \<Rightarrow> int \<Rightarrow> RwWorld \<Rightarrow> RwWorld" where
  "count_read t n w = w\<lparr>rdlock_count := (rdlock_count w)(t := rdlock_count w t + n)\<rparr>"

definition bad_time :: "(int \<times> int) option \<Rightarrow> bool" where
  "bad_time abstime = (case abstime of None \<Rightarrow> False | Some (sec, ns) \<Rightarrow> bad_nsec ns)"

definition Rdlock :: "nat \<Rightarrow> (int \<times> int) option \<Rightarrow> nat \<Rightarrow> RwWorld \<Rightarrow> (RwPc \<times> RwWorld) option" where
  "Rdlock t abstime p w = do {
     l \<leftarrow> rwlocks w p;
     let (ok, m) = Shared_try_lock_shared (rw_lock l);
     Some (if ok then (RwOut 0, count_read t 1 (set_rwlock p (l\<lparr>rw_lock := m\<rparr>) w))
           else if bad_time abstime then (RwOut POSIX_EINVAL, w)
           else (RwReading p abstime, w)) }"

definition Wrlock :: "nat \<Rightarrow> (int \<times> int) option \<Rightarrow> nat \<Rightarrow> RwWorld \<Rightarrow> (RwPc \<times> RwWorld) option" where
  "Wrlock t abstime p w = do {
     l \<leftarrow> rwlocks w p;
     let (ok, m) = Shared_try_lock (rw_lock l);
     Some (if ok then (RwOut 0, set_rwlock p (l\<lparr>rw_lock := m, rw_owner := Some t\<rparr>) w)
           else if bad_time abstime then (RwOut POSIX_EINVAL, w)
           else (RwWriting p abstime, w)) }"

text \<open>
  What \<open>Rdlock\<close> and \<open>Wrlock\<close> do with the result of the wait, for every result of a look at the lock.
\<close>

definition rd_waited :: "nat \<Rightarrow> nat \<Rightarrow> RwPc \<Rightarrow> bool \<times> SharedFirstMutex \<Rightarrow> RwWorld \<Rightarrow> (RwPc \<times> RwWorld) option" where
  "rd_waited t p otherwise r w = do {
     l \<leftarrow> rwlocks w p;
     let (ok, m) = r;
     let w' = set_rwlock p (l\<lparr>rw_lock := m\<rparr>) w;
     Some (if ok then (RwOut 0, count_read t 1 w') else (otherwise, w')) }"

definition wr_waited :: "nat \<Rightarrow> nat \<Rightarrow> RwPc \<Rightarrow> bool \<times> SharedFirstMutex \<Rightarrow> RwWorld \<Rightarrow> (RwPc \<times> RwWorld) option" where
  "wr_waited t p otherwise r w = do {
     l \<leftarrow> rwlocks w p;
     let (ok, m) = r;
     Some (if ok then (RwOut 0, set_rwlock p (l\<lparr>rw_lock := m, rw_owner := Some t\<rparr>) w)
           else (otherwise, set_rwlock p (l\<lparr>rw_lock := m\<rparr>) w)) }"

text \<open>A look of a thread that is awake; a thread that sleeps does nothing.\<close>

fun rw_next :: "nat \<Rightarrow> RwPc \<Rightarrow> RwWorld \<Rightarrow> (RwPc \<times> RwWorld) option" where
  "rw_next t (RwReading p abstime) w = do {
     l \<leftarrow> rwlocks w p;
     (if t \<in> sleepers (rw_lock l) then None
      else rd_waited t p (RwReading p abstime) (Shared_lock_shared t (rw_lock l)) w) }"
| "rw_next t (RwWriting p abstime) w = do {
     l \<leftarrow> rwlocks w p;
     (if t \<in> sleepers (rw_lock l) then None
      else wr_waited t p (RwWriting p abstime) (Shared_lock t (rw_lock l)) w) }"
| "rw_next t (RwOut r) w = None"

text \<open>The end of the time, and a spurious wakeup.\<close>

fun rw_timeout :: "nat \<Rightarrow> RwPc \<Rightarrow> RwWorld \<Rightarrow> (RwPc \<times> RwWorld) option" where
  "rw_timeout t (RwReading p abstime) w =
     (if abstime = None then None
      else do {
        l \<leftarrow> rwlocks w p;
        rd_waited t p (RwOut POSIX_ETIMEDOUT) (Shared_try_lock_shared_until t (rw_lock l)) w })"
| "rw_timeout t (RwWriting p abstime) w =
     (if abstime = None then None
      else do {
        l \<leftarrow> rwlocks w p;
        wr_waited t p (RwOut POSIX_ETIMEDOUT) (Shared_try_lock_until t (rw_lock l)) w })"
| "rw_timeout t (RwOut r) w = None"

definition rw_spurious :: "nat \<Rightarrow> nat \<Rightarrow> RwWorld \<Rightarrow> RwWorld option" where
  "rw_spurious t p w = map_option (\<lambda>l. set_rwlock p (l\<lparr>rw_lock := wake t (rw_lock l)\<rparr>) w) (rwlocks w p)"

definition with_rwlock ::
  "nat \<Rightarrow> nat option \<Rightarrow> (nat \<Rightarrow> RwWorld \<Rightarrow> (RwPc \<times> RwWorld) option) \<Rightarrow> RwWorld \<Rightarrow> (RwPc \<times> RwWorld) option" where
  "with_rwlock rwlock new f w =
     (let (ret, w1) = check_and_init_rwlock rwlock new w
      in if ret \<noteq> 0 then Some (RwOut ret, w1) else f (rwlock_cells w1 rwlock) w1)"

definition posix_pthread_rwlock_rdlock where
  "posix_pthread_rwlock_rdlock t rwlock new = with_rwlock rwlock new (Rdlock t None)"

definition posix_pthread_rwlock_timedrdlock where
  "posix_pthread_rwlock_timedrdlock t rwlock abstime new = with_rwlock rwlock new (Rdlock t abstime)"

definition posix_pthread_rwlock_wrlock where
  "posix_pthread_rwlock_wrlock t rwlock new = with_rwlock rwlock new (Wrlock t None)"

definition posix_pthread_rwlock_timedwrlock where
  "posix_pthread_rwlock_timedwrlock t rwlock abstime new = with_rwlock rwlock new (Wrlock t abstime)"

definition posix_pthread_rwlock_tryrdlock :: "nat \<Rightarrow> nat \<Rightarrow> nat option \<Rightarrow> RwWorld \<Rightarrow> (RwPc \<times> RwWorld) option" where
  "posix_pthread_rwlock_tryrdlock t rwlock new = with_rwlock rwlock new (\<lambda>p w. do {
     l \<leftarrow> rwlocks w p;
     let (ok, m) = Shared_try_lock_shared (rw_lock l);
     Some (if ok then (RwOut 0, count_read t 1 (set_rwlock p (l\<lparr>rw_lock := m\<rparr>) w)) else (RwOut POSIX_EBUSY, w)) })"

definition posix_pthread_rwlock_trywrlock :: "nat \<Rightarrow> nat \<Rightarrow> nat option \<Rightarrow> RwWorld \<Rightarrow> (RwPc \<times> RwWorld) option" where
  "posix_pthread_rwlock_trywrlock t rwlock new = with_rwlock rwlock new (\<lambda>p w. do {
     l \<leftarrow> rwlocks w p;
     let (ok, m) = Shared_try_lock (rw_lock l);
     Some (if ok then (RwOut 0, set_rwlock p (l\<lparr>rw_lock := m, rw_owner := Some t\<rparr>) w) else (RwOut POSIX_EBUSY, w)) })"

definition posix_pthread_rwlock_unlock :: "nat \<Rightarrow> nat \<Rightarrow> RwWorld \<Rightarrow> (s32 \<times> RwWorld) option" where
  "posix_pthread_rwlock_unlock t rwlock w =
     (let p = rwlock_cells w rwlock
      in if p \<le> THR_RWLOCK_DESTROYED then Some (POSIX_EINVAL, w)
         else do {
           l \<leftarrow> rwlocks w p;
           Some (0, if rw_owner l = Some t
                    then set_rwlock p (l\<lparr>rw_owner := None, rw_lock := Shared_unlock (rw_lock l)\<rparr>) w
                    else set_rwlock p (l\<lparr>rw_lock := Shared_unlock_shared (rw_lock l)\<rparr>)
                      (if rw_owner l = None then count_read t (- 1) w else w)) })"

section \<open>Attributes\<close>

text \<open>The object behind a pointer to an attribute; none for a null pointer in either place.\<close>

definition rwattr_at :: "nat \<Rightarrow> RwWorld \<Rightarrow> PthreadRwlockAttr option option" where
  "rwattr_at attr w = (if attr = 0 \<or> rwlockattr_cells w attr = 0 then Some None
     else map_option Some (rwlockattrs w (rwlockattr_cells w attr)))"

definition posix_pthread_rwlockattr_init :: "nat \<Rightarrow> nat option \<Rightarrow> RwWorld \<Rightarrow> s32 \<times> RwWorld" where
  "posix_pthread_rwlockattr_init attr new w =
     (if attr = 0 then (POSIX_EINVAL, w)
      else case new of None \<Rightarrow> (POSIX_ENOMEM, w)
        | Some a \<Rightarrow> (0, w\<lparr>rwlockattrs := (rwlockattrs w)(a \<mapsto> \<lparr>rw_pshared = 0, rw_type = 0\<rparr>),
                          rwlockattr_cells := (rwlockattr_cells w)(attr := a)\<rparr>))"

text \<open>The pointer to the deleted attribute stays in its place.\<close>

definition posix_pthread_rwlockattr_destroy :: "nat \<Rightarrow> RwWorld \<Rightarrow> (s32 \<times> RwWorld) option" where
  "posix_pthread_rwlockattr_destroy attr w = do {
     ao \<leftarrow> rwattr_at attr w;
     Some (case ao of None \<Rightarrow> (POSIX_EINVAL, w)
       | Some a \<Rightarrow> (0, w\<lparr>rwlockattrs := (rwlockattrs w)(rwlockattr_cells w attr := None)\<rparr>)) }"

definition posix_pthread_rwlockattr_getpshared :: "nat \<Rightarrow> RwWorld \<Rightarrow> (s32 \<times> s32) option" where
  "posix_pthread_rwlockattr_getpshared attr w = do {
     ASSERT (attr \<noteq> 0);
     a \<leftarrow> rwlockattrs w (rwlockattr_cells w attr);
     Some (0, rw_pshared a) }"

definition posix_pthread_rwlockattr_gettype_np :: "nat \<Rightarrow> RwWorld \<Rightarrow> (s32 \<times> s32 option) option" where
  "posix_pthread_rwlockattr_gettype_np attr w = do {
     ao \<leftarrow> rwattr_at attr w;
     Some (case ao of None \<Rightarrow> (POSIX_EINVAL, None)
       | Some a \<Rightarrow> if rw_type a > 2 then (POSIX_EINVAL, None) else (0, Some (rw_type a))) }"

text \<open>The type that is stored already is tested, not the new one.\<close>

definition posix_pthread_rwlockattr_settype_np :: "nat \<Rightarrow> s32 \<Rightarrow> RwWorld \<Rightarrow> (s32 \<times> RwWorld) option" where
  "posix_pthread_rwlockattr_settype_np attr type w = do {
     ao \<leftarrow> rwattr_at attr w;
     Some (case ao of None \<Rightarrow> (POSIX_EINVAL, w)
       | Some a \<Rightarrow> if rw_type a > 2 then (POSIX_EINVAL, w)
           else (0, w\<lparr>rwlockattrs := (rwlockattrs w)(rwlockattr_cells w attr \<mapsto> a\<lparr>rw_type := type\<rparr>)\<rparr>)) }"

definition posix_pthread_rwlockattr_setpshared :: "nat \<Rightarrow> s32 \<Rightarrow> RwWorld \<Rightarrow> (s32 \<times> RwWorld) option" where
  "posix_pthread_rwlockattr_setpshared attr pshared w =
     (if pshared \<noteq> 0 then Some (POSIX_EINVAL, w)
      else do {
        ASSERT (attr \<noteq> 0);
        a \<leftarrow> rwlockattrs w (rwlockattr_cells w attr);
        Some (0, w\<lparr>rwlockattrs := (rwlockattrs w)(rwlockattr_cells w attr \<mapsto> a\<lparr>rw_pshared := pshared\<rparr>)\<rparr>) })"

section \<open>Runs of the threads\<close>

datatype RwCall = RdLock | TimedRdLock "(int \<times> int) option" | TryRdLock
  | WrLock | TimedWrLock "(int \<times> int) option" | TryWrLock

fun for_reading :: "RwCall \<Rightarrow> bool" where
  "for_reading RdLock = True"
| "for_reading (TimedRdLock abstime) = True"
| "for_reading TryRdLock = True"
| "for_reading _ = False"

fun rw_acquire :: "RwCall \<Rightarrow> nat \<Rightarrow> nat \<Rightarrow> nat option \<Rightarrow> RwWorld \<Rightarrow> (RwPc \<times> RwWorld) option" where
  "rw_acquire RdLock t rwlock new w = posix_pthread_rwlock_rdlock t rwlock new w"
| "rw_acquire (TimedRdLock abstime) t rwlock new w = posix_pthread_rwlock_timedrdlock t rwlock abstime new w"
| "rw_acquire TryRdLock t rwlock new w = posix_pthread_rwlock_tryrdlock t rwlock new w"
| "rw_acquire WrLock t rwlock new w = posix_pthread_rwlock_wrlock t rwlock new w"
| "rw_acquire (TimedWrLock abstime) t rwlock new w = posix_pthread_rwlock_timedwrlock t rwlock abstime new w"
| "rw_acquire TryWrLock t rwlock new w = posix_pthread_rwlock_trywrlock t rwlock new w"

text \<open>
  The state of a run: the locks, where each thread is, and for the proof the pairs of a lock and a thread
  whose call for reading, or for writing, has returned 0 and who has not unlocked since.
\<close>

record RwSystem =
  rw_world :: RwWorld
  rw_pc :: "nat \<Rightarrow> RwPc"
  rd_held :: "(nat \<times> nat) multiset"
  wr_held :: "(nat \<times> nat) multiset"

fun granted :: "bool \<Rightarrow> nat \<Rightarrow> nat \<Rightarrow> RwPc \<Rightarrow> RwSystem \<Rightarrow> RwSystem" where
  "granted reading p t pc s =
     (if pc = RwOut 0
      then if reading then s\<lparr>rd_held := add_mset (p, t) (rd_held s)\<rparr> else s\<lparr>wr_held := add_mset (p, t) (wr_held s)\<rparr>
      else s)"

fun waits_on :: "nat \<Rightarrow> RwPc \<Rightarrow> bool" where
  "waits_on p (RwReading q abstime) = (p = q)"
| "waits_on p (RwWriting q abstime) = (p = q)"
| "waits_on p (RwOut r) = False"

fun reads :: "RwPc \<Rightarrow> bool" where
  "reads (RwReading q abstime) = True"
| "reads _ = False"

fun waits :: "RwPc \<Rightarrow> bool" where
  "waits (RwOut r) = False"
| "waits _ = True"

fun wait_lock :: "RwPc \<Rightarrow> nat" where
  "wait_lock (RwReading q abstime) = q"
| "wait_lock (RwWriting q abstime) = q"
| "wait_lock (RwOut r) = 0"

text \<open>A fresh object is at an address that no object has.\<close>

definition fresh_rwlock :: "nat option \<Rightarrow> RwWorld \<Rightarrow> bool" where
  "fresh_rwlock new w = (case new of None \<Rightarrow> True | Some p \<Rightarrow> p > 1 \<and> rwlocks w p = None)"

text \<open>
  The program unlocks only what the thread holds, destroys a lock that nobody holds or waits for, and
  passes a place that holds no lock to the call that makes one.
\<close>

inductive rw_step :: "RwSystem \<Rightarrow> RwSystem \<Rightarrow> bool" where
  acquire: "\<not> waits (rw_pc s t) \<Longrightarrow> fresh_rwlock new (rw_world s) \<Longrightarrow>
    rw_acquire call t rwlock new (rw_world s) = Some (pc, w') \<Longrightarrow>
    rw_step s (granted (for_reading call) (rwlock_cells w' rwlock) t pc
      (s\<lparr>rw_world := w', rw_pc := (rw_pc s)(t := pc)\<rparr>))"
| go_on: "rw_next t (rw_pc s t) (rw_world s) = Some (pc, w') \<Longrightarrow>
    rw_step s (granted (reads (rw_pc s t)) (wait_lock (rw_pc s t)) t pc
      (s\<lparr>rw_world := w', rw_pc := (rw_pc s)(t := pc)\<rparr>))"
| time_over: "rw_timeout t (rw_pc s t) (rw_world s) = Some (pc, w') \<Longrightarrow>
    rw_step s (granted (reads (rw_pc s t)) (wait_lock (rw_pc s t)) t pc
      (s\<lparr>rw_world := w', rw_pc := (rw_pc s)(t := pc)\<rparr>))"
| spurious: "rw_spurious t p (rw_world s) = Some w' \<Longrightarrow> rw_step s (s\<lparr>rw_world := w'\<rparr>)"
| unlock: "\<not> waits (rw_pc s t) \<Longrightarrow> p = rwlock_cells (rw_world s) rwlock \<Longrightarrow>
    (p, t) \<in># rd_held s + wr_held s \<Longrightarrow>
    posix_pthread_rwlock_unlock t rwlock (rw_world s) = Some (ret, w') \<Longrightarrow>
    rw_step s (if (p, t) \<in># wr_held s then s\<lparr>rw_world := w', wr_held := wr_held s - {#(p, t)#}\<rparr>
      else s\<lparr>rw_world := w', rd_held := rd_held s - {#(p, t)#}\<rparr>)"
| make: "\<not> waits (rw_pc s t) \<Longrightarrow> fresh_rwlock new (rw_world s) \<Longrightarrow>
    posix_pthread_rwlock_init rwlock attr new (rw_world s) = Some (ret, w') \<Longrightarrow>
    rw_step s (s\<lparr>rw_world := w'\<rparr>)"
| destroy: "\<not> waits (rw_pc s t) \<Longrightarrow> p = rwlock_cells (rw_world s) rwlock \<Longrightarrow>
    (\<forall>u. (p, u) \<notin># rd_held s + wr_held s) \<Longrightarrow> (\<forall>u. \<not> waits_on p (rw_pc s u)) \<Longrightarrow>
    posix_pthread_rwlock_destroy rwlock (rw_world s) = Some (ret, w') \<Longrightarrow>
    rw_step s (s\<lparr>rw_world := w'\<rparr>)"

definition rw_start :: "s32 \<Rightarrow> (nat \<Rightarrow> PthreadRwlockAttr option) \<Rightarrow> (nat \<Rightarrow> nat) \<Rightarrow> RwSystem" where
  "rw_start ver attrs acells = \<lparr>rw_world = \<lparr>rwlocks = (\<lambda>p. None), rwlock_cells = (\<lambda>a. 0), rwlockattrs = attrs,
       rwlockattr_cells = acells, rdlock_count = (\<lambda>t. 0), sdk_version = ver\<rparr>,
     rw_pc = (\<lambda>t. RwOut 0), rd_held = {#}, wr_held = {#}\<rparr>"

inductive rw_reachable :: "RwSystem \<Rightarrow> bool" where
  start: "rw_reachable (rw_start ver attrs acells)"
| step: "rw_reachable s \<Longrightarrow> rw_step s s' \<Longrightarrow> rw_reachable s'"

section \<open>The holders\<close>

definition on_lock :: "nat \<Rightarrow> (nat \<times> nat) multiset \<Rightarrow> (nat \<times> nat) multiset" where
  "on_lock p M = filter_mset (\<lambda>x. fst x = p) M"

definition of_thread :: "nat \<Rightarrow> (nat \<times> nat) multiset \<Rightarrow> (nat \<times> nat) multiset" where
  "of_thread t M = filter_mset (\<lambda>x. snd x = t) M"

lemma on_lock_simps [simp]:
  "on_lock p {#} = {#}"
  "on_lock p (add_mset (q, t) M) = (if q = p then add_mset (q, t) (on_lock p M) else on_lock p M)"
  "on_lock p (M - {#(q, t)#}) = (if q = p then on_lock p M - {#(q, t)#} else on_lock p M)"
  by (auto simp: on_lock_def filter_diff_mset)

lemma of_thread_simps [simp]:
  "of_thread t {#} = {#}"
  "of_thread t (add_mset (q, u) M) = (if u = t then add_mset (q, u) (of_thread t M) else of_thread t M)"
  "of_thread t (M - {#(q, u)#}) = (if u = t then of_thread t M - {#(q, u)#} else of_thread t M)"
  by (auto simp: of_thread_def filter_diff_mset)

lemma in_on_lock: "(p, t) \<in># M \<Longrightarrow> (p, t) \<in># on_lock p M"
  by (simp add: on_lock_def)

lemma in_of_thread: "(p, t) \<in># M \<Longrightarrow> (p, t) \<in># of_thread t M"
  by (simp add: of_thread_def)

lemma on_lock_empty: "(\<And>u. (p, u) \<notin># M) \<Longrightarrow> on_lock p M = {#}"
  by (auto simp: on_lock_def filter_mset_eq_conv multiset_eq_iff count_eq_zero_iff)

text \<open>What the lock says of itself is what its holders are.\<close>

fun holders_ok :: "nat \<Rightarrow> PthreadRwlock option \<Rightarrow> (nat \<times> nat) multiset \<Rightarrow> (nat \<times> nat) multiset \<Rightarrow> bool" where
  "holders_ok p None rd wr \<longleftrightarrow> rd = {#} \<and> wr = {#}"
| "holders_ok p (Some l) rd wr \<longleftrightarrow> readers (rw_lock l) = int (size rd) \<and>
     (writer_active (rw_lock l) \<longleftrightarrow> rw_owner l \<noteq> None) \<and>
     wr = (case rw_owner l of None \<Rightarrow> {#} | Some t \<Rightarrow> {#(p, t)#}) \<and> (rw_owner l \<noteq> None \<longrightarrow> rd = {#})"

definition rw_good :: "RwWorld \<Rightarrow> (nat \<times> nat) multiset \<Rightarrow> (nat \<times> nat) multiset \<Rightarrow> bool" where
  "rw_good w rd wr \<longleftrightarrow> (\<forall>p. holders_ok p (rwlocks w p) (on_lock p rd) (on_lock p wr)) \<and>
     (\<forall>t. rdlock_count w t = int (size (of_thread t rd))) \<and> rwlocks w 0 = None \<and> rwlocks w 1 = None"

lemma good_at: "rw_good w rd wr \<Longrightarrow> rwlocks w p = Some l \<Longrightarrow> holders_ok p (Some l) (on_lock p rd) (on_lock p wr)"
  by (metis rw_good_def)

lemma good_address:
  assumes "rw_good w rd wr" "rwlocks w p = Some l"
  shows "p > 1" "p > 0"
proof -
  have "p \<noteq> 0 \<and> p \<noteq> 1" using assms by (metis rw_good_def option.distinct(1))
  then show "p > 1" by linarith
  then show "p > 0" by linarith
qed

lemma good_new:
  assumes "rw_good w rd wr" "p > 1" "rwlocks w p = None"
  shows "rw_good (w\<lparr>rwlocks := (rwlocks w)(p \<mapsto> new_rwlock), rwlock_cells := c\<rparr>) rd wr"
proof -
  have "holders_ok p None (on_lock p rd) (on_lock p wr)" using assms by (metis rw_good_def)
  then show ?thesis using assms by (auto simp: rw_good_def new_rwlock_def)
qed

lemma good_cells [simp]: "rw_good (w\<lparr>rwlock_cells := c\<rparr>) rd wr = rw_good w rd wr"
  by (simp add: rw_good_def)

lemma good_read:
  assumes "rw_good w rd wr" "rwlocks w p = Some l" "\<not> writer_active (rw_lock l)"
    "readers m = readers (rw_lock l) + 1" "\<not> writer_active m"
  shows "rw_good (count_read t 1 (set_rwlock p (l\<lparr>rw_lock := m\<rparr>) w)) (add_mset (p, t) rd) wr"
  using assms good_at [OF assms(1,2)] good_address [OF assms(1,2)] by (auto simp: rw_good_def count_read_def set_rwlock_def)

lemma good_write:
  assumes "rw_good w rd wr" "rwlocks w p = Some l" "\<not> writer_active (rw_lock l)" "\<not> readers (rw_lock l) > 0"
    "writer_active m" "readers m = readers (rw_lock l)"
  shows "rw_good (set_rwlock p (l\<lparr>rw_lock := m, rw_owner := Some t\<rparr>) w) rd (add_mset (p, t) wr)"
  using assms good_at [OF assms(1,2)] good_address [OF assms(1,2)] by (auto simp: rw_good_def count_read_def set_rwlock_def)

lemma good_asleep:
  assumes "rw_good w rd wr" "rwlocks w p = Some l" "readers m = readers (rw_lock l)" "writer_active m = writer_active (rw_lock l)"
  shows "rw_good (set_rwlock p (l\<lparr>rw_lock := m\<rparr>) w) rd wr"
  using assms good_at [OF assms(1,2)] good_address [OF assms(1,2)] by (auto simp: rw_good_def set_rwlock_def)

lemma good_readers: "rw_good w rd wr \<Longrightarrow> rwlocks w p = Some l \<Longrightarrow> readers (rw_lock l) \<ge> 0"
  using good_at by fastforce

lemma good_destroy:
  assumes "rw_good w rd wr" "\<And>u. (p, u) \<notin># rd" "\<And>u. (p, u) \<notin># wr"
  shows "rw_good (w\<lparr>rwlock_cells := c, rwlocks := (rwlocks w)(p := None)\<rparr>) rd wr"
  using assms(1) on_lock_empty [OF assms(2)] on_lock_empty [OF assms(3)] by (auto simp: rw_good_def)

lemma good_unlock:
  assumes "rw_good w rd wr" "p = rwlock_cells w rwlock" "(p, t) \<in># rd + wr"
    "posix_pthread_rwlock_unlock t rwlock w = Some (ret, w')"
  shows "ret = 0 \<and> (if (p, t) \<in># wr then rw_good w' rd (wr - {#(p, t)#}) else rw_good w' (rd - {#(p, t)#}) wr)"
proof -
  have m: "(p, t) \<in># on_lock p rd \<or> (p, t) \<in># on_lock p wr"
    using assms(3) by (auto intro: in_on_lock)
  obtain l where l: "rwlocks w p = Some l"
  proof (cases "rwlocks w p")
    case None
    then have "holders_ok p None (on_lock p rd) (on_lock p wr)" using assms(1) by (metis rw_good_def)
    then show ?thesis using m by simp
  qed auto
  note p = good_address [OF assms(1) l]
  note h = good_at [OF assms(1) l]
  show ?thesis
  proof (cases "rw_owner l")
    case None
    then have no: "(p, t) \<notin># wr" "(p, t) \<in># rd" using h assms(3) in_on_lock [of p t wr] by auto
    have w': "ret = 0" "w' = set_rwlock p (l\<lparr>rw_lock := Shared_unlock_shared (rw_lock l)\<rparr>) (count_read t (- 1) w)"
      using assms(2,4) p l None by (auto simp: posix_pthread_rwlock_unlock_def Let_def)
    have s: "int (size (on_lock p rd - {#(p, t)#})) = int (size (on_lock p rd)) - 1"
      "int (size (of_thread t rd - {#(p, t)#})) = int (size (of_thread t rd)) - 1"
      using in_on_lock [OF no(2)] in_of_thread [OF no(2)] by (auto dest!: multi_member_split)
    show ?thesis using no w' h None assms(1) l s p
      by (auto simp: rw_good_def set_rwlock_def count_read_def Shared_unlock_shared_def notify_all_def Let_def)
  next
    case (Some u)
    then have u: "(p, t) \<in># on_lock p wr" "t = u" using m h by auto
    then have "(p, t) \<in># wr" by (simp add: on_lock_def)
    moreover have "ret = 0" "w' = set_rwlock p (l\<lparr>rw_owner := None, rw_lock := Shared_unlock (rw_lock l)\<rparr>) w"
      using assms(2,4) p l Some u by (auto simp: posix_pthread_rwlock_unlock_def Let_def)
    ultimately show ?thesis using h Some u assms(1) l p by (auto simp: rw_good_def set_rwlock_def Shared_unlock_def notify_all_def)
  qed
qed

section \<open>The sleeping threads\<close>

text \<open>A thread that sleeps is in a call on that lock, and the condition of its wait does not hold.\<close>

definition blocked :: "RwPc \<Rightarrow> nat \<Rightarrow> SharedFirstMutex \<Rightarrow> bool" where
  "blocked c p m \<longleftrightarrow> waits_on p c \<and> (writer_active m \<or> (\<not> reads c \<and> readers m > 0))"

definition asleep_ok :: "RwWorld \<Rightarrow> (nat \<Rightarrow> RwPc) \<Rightarrow> bool" where
  "asleep_ok w pcs \<longleftrightarrow> (\<forall>p l u. rwlocks w p = Some l \<longrightarrow> u \<in> sleepers (rw_lock l) \<longrightarrow> blocked (pcs u) p (rw_lock l))"

text \<open>The steps that notify nobody: no thread falls asleep, and no condition of a wait becomes true.\<close>

definition only_taken :: "RwWorld \<Rightarrow> RwWorld \<Rightarrow> bool" where
  "only_taken w w' \<longleftrightarrow> (\<forall>p l'. rwlocks w' p = Some l' \<longrightarrow> sleepers (rw_lock l') = {} \<or>
     (\<exists>l. rwlocks w p = Some l \<and> sleepers (rw_lock l') = sleepers (rw_lock l) \<and>
        (writer_active (rw_lock l) \<longrightarrow> writer_active (rw_lock l')) \<and> readers (rw_lock l) \<le> readers (rw_lock l')))"

lemma only_takenD:
  assumes "only_taken w w'" "rwlocks w' p = Some l'" "u \<in> sleepers (rw_lock l')"
  obtains l where "rwlocks w p = Some l" "u \<in> sleepers (rw_lock l)"
    "writer_active (rw_lock l) \<longrightarrow> writer_active (rw_lock l')" "readers (rw_lock l) \<le> readers (rw_lock l')"
  using assms unfolding only_taken_def by (metis empty_iff)

lemma only_taken_refl [simp]: "only_taken w w"
  by (auto simp: only_taken_def)

lemma only_taken_trans:
  assumes "only_taken w w1" "only_taken w1 w2"
  shows "only_taken w w2"
  unfolding only_taken_def
proof (intro allI impI)
  fix p l'
  assume l': "rwlocks w2 p = Some l'"
  show "sleepers (rw_lock l') = {} \<or> (\<exists>l. rwlocks w p = Some l \<and> sleepers (rw_lock l') = sleepers (rw_lock l) \<and>
      (writer_active (rw_lock l) \<longrightarrow> writer_active (rw_lock l')) \<and> readers (rw_lock l) \<le> readers (rw_lock l'))"
  proof (cases "sleepers (rw_lock l') = {}")
    case False
    then obtain l1 where l1: "rwlocks w1 p = Some l1" "sleepers (rw_lock l') = sleepers (rw_lock l1)"
      "writer_active (rw_lock l1) \<longrightarrow> writer_active (rw_lock l')" "readers (rw_lock l1) \<le> readers (rw_lock l')"
      using assms(2) l' unfolding only_taken_def by metis
    then obtain l where "rwlocks w p = Some l" "sleepers (rw_lock l1) = sleepers (rw_lock l)"
      "writer_active (rw_lock l) \<longrightarrow> writer_active (rw_lock l1)" "readers (rw_lock l) \<le> readers (rw_lock l1)"
      using assms(1) False unfolding only_taken_def by metis
    with l1 show ?thesis by (intro disjI2 exI [of _ l]) auto
  qed simp
qed

lemma asleep_only_taken:
  assumes "asleep_ok w pcs" "only_taken w w'" "\<not> waits (pcs t)"
  shows "asleep_ok w' (pcs(t := pc))"
  unfolding asleep_ok_def
proof (intro allI impI)
  fix p l' u
  assume "rwlocks w' p = Some l'" "u \<in> sleepers (rw_lock l')"
  from only_takenD [OF assms(2) this] obtain l where l: "rwlocks w p = Some l" "u \<in> sleepers (rw_lock l)"
    "writer_active (rw_lock l) \<longrightarrow> writer_active (rw_lock l')" "readers (rw_lock l) \<le> readers (rw_lock l')" by metis
  then have b: "blocked (pcs u) p (rw_lock l)" using assms(1) by (simp add: asleep_ok_def)
  then have "u \<noteq> t" using assms(3) by (cases "pcs u") (auto simp: blocked_def)
  then show "blocked ((pcs(t := pc)) u) p (rw_lock l')" using b l(3,4) by (auto simp: blocked_def)
qed

text \<open>A step of the thread itself changes its lock, on which all others sleep as before or not at all.\<close>

lemma asleep_own_step:
  assumes ok: "asleep_ok w pcs" and l: "rwlocks w p = Some l" and c: "waits_on p (pcs t)"
    and m: "sleepers m \<subseteq> insert t (sleepers (rw_lock l))" "writer_active (rw_lock l) \<longrightarrow> writer_active m"
      "readers (rw_lock l) \<le> readers m" "t \<in> sleepers m \<longrightarrow> blocked pc p m"
    and w': "rwlocks w' = (rwlocks w)(p \<mapsto> l')" "rw_lock l' = m"
  shows "asleep_ok w' (pcs(t := pc))"
  unfolding asleep_ok_def
proof (intro allI impI)
  fix q k u
  assume k: "rwlocks w' q = Some k" "u \<in> sleepers (rw_lock k)"
  show "blocked ((pcs(t := pc)) u) q (rw_lock k)"
  proof (cases "q = p")
    case True
    then have km: "rw_lock k = m" using k(1) w' by auto
    show ?thesis
    proof (cases "u = t")
      case False
      then have "u \<in> sleepers (rw_lock l)" using k(2) km m(1) by auto
      then have "blocked (pcs u) p (rw_lock l)" using ok l by (simp add: asleep_ok_def)
      then show ?thesis using False True km m(2,3) by (auto simp: blocked_def)
    qed (use True km k(2) m(4) in simp)
  next
    case False
    then have "blocked (pcs u) q (rw_lock k)" using k w'(1) ok by (simp add: asleep_ok_def)
    moreover have "\<not> waits_on q (pcs t)" using c False by (cases "pcs t") auto
    ultimately show ?thesis by (auto simp: blocked_def)
  qed
qed

lemma asleep_unlock:
  assumes ok: "asleep_ok w pcs" and l: "rwlocks w p = Some l"
    and w': "rwlocks w' = (rwlocks w)(p \<mapsto> l')" "rw_lock l' = Shared_unlock (rw_lock l) \<or>
      rw_lock l' = Shared_unlock_shared (rw_lock l) \<and> readers (rw_lock l) > 0"
  shows "asleep_ok w' pcs"
  unfolding asleep_ok_def
proof (intro allI impI)
  fix q k u
  assume k: "rwlocks w' q = Some k" "u \<in> sleepers (rw_lock k)"
  show "blocked (pcs u) q (rw_lock k)"
  proof (cases "q = p")
    case True
    then have kl: "k = l'" using k(1) w'(1) by simp
    then have m: "sleepers (rw_lock k) = sleepers (rw_lock l)" "writer_active (rw_lock k) = writer_active (rw_lock l)"
      "readers (rw_lock k) > 0" using k(2) w'(2)
      by (auto simp: Shared_unlock_def Shared_unlock_shared_def notify_all_def Let_def split: if_splits)
    have "blocked (pcs u) p (rw_lock l)" using ok l k(2) m(1) by (simp add: asleep_ok_def)
    then show ?thesis using True m by (auto simp: blocked_def)
  qed (use k w'(1) ok in \<open>simp add: asleep_ok_def\<close>)
qed

section \<open>Exclusion\<close>

text \<open>What every attempt to take a lock keeps, whether it succeeds, fails, or begins to wait.\<close>

definition attempt_ok :: "bool \<Rightarrow> nat \<Rightarrow> (nat \<Rightarrow> RwWorld \<Rightarrow> (RwPc \<times> RwWorld) option) \<Rightarrow> bool" where
  "attempt_ok r t f \<longleftrightarrow> (\<forall>w p rd wr pc w'. rw_good w rd wr \<longrightarrow> f p w = Some (pc, w') \<longrightarrow>
     rw_good w' (if r \<and> pc = RwOut 0 then add_mset (p, t) rd else rd)
       (if \<not> r \<and> pc = RwOut 0 then add_mset (p, t) wr else wr) \<and>
     rwlock_cells w' = rwlock_cells w \<and> dom (rwlocks w) \<subseteq> dom (rwlocks w') \<and> only_taken w w' \<and>
     (waits pc \<longrightarrow> wait_lock pc = p \<and> rwlocks w' p \<noteq> None \<and> reads pc = r))"

lemma attempt_okI:
  assumes "\<And>w p rd wr pc w' l. rw_good w rd wr \<Longrightarrow> rwlocks w p = Some l \<Longrightarrow> f p w = Some (pc, w') \<Longrightarrow>
      (pc = RwOut 0 \<and> (if r then \<not> writer_active (rw_lock l) \<and>
           w' = count_read t 1 (set_rwlock p (l\<lparr>rw_lock := (rw_lock l)\<lparr>readers := readers (rw_lock l) + 1\<rparr>\<rparr>) w)
         else \<not> writer_active (rw_lock l) \<and> \<not> readers (rw_lock l) > 0 \<and>
           w' = set_rwlock p (l\<lparr>rw_lock := (rw_lock l)\<lparr>writer_active := True\<rparr>, rw_owner := Some t\<rparr>) w)) \<or>
      (pc \<noteq> RwOut 0 \<and> w' = w \<and> (waits pc \<longrightarrow> wait_lock pc = p \<and> reads pc = r))"
    and "\<And>w p pc w'. f p w = Some (pc, w') \<Longrightarrow> rwlocks w p \<noteq> None"
  shows "attempt_ok r t f"
proof -
  have "rw_good w' (if r \<and> pc = RwOut 0 then add_mset (p, t) rd else rd)
       (if \<not> r \<and> pc = RwOut 0 then add_mset (p, t) wr else wr) \<and>
     rwlock_cells w' = rwlock_cells w \<and> dom (rwlocks w) \<subseteq> dom (rwlocks w') \<and> only_taken w w' \<and>
     (waits pc \<longrightarrow> wait_lock pc = p \<and> rwlocks w' p \<noteq> None \<and> reads pc = r)"
    if g: "rw_good w rd wr" and f: "f p w = Some (pc, w')" for w p rd wr pc w'
  proof -
    obtain l where l: "rwlocks w p = Some l" using assms(2) [OF f] by auto
    show ?thesis using assms(1) [OF g l f] g l
        good_read [OF g l, of "(rw_lock l)\<lparr>readers := readers (rw_lock l) + 1\<rparr>" t]
        good_write [OF g l, of "(rw_lock l)\<lparr>writer_active := True\<rparr>" t]
      by (auto split: if_splits) (auto simp: set_rwlock_def count_read_def only_taken_def)
  qed
  then show ?thesis by (simp add: attempt_ok_def)
qed

lemmas rw_attempt_defs = Rdlock_def Wrlock_def Shared_try_lock_def Shared_try_lock_shared_def

lemma attempt_Rdlock: "attempt_ok True t (Rdlock t abstime)"
  by (rule attempt_okI) (auto simp: rw_attempt_defs bind_iff split: if_splits)

lemma attempt_Wrlock: "attempt_ok False t (Wrlock t abstime)"
  by (rule attempt_okI) (auto simp: rw_attempt_defs bind_iff split: if_splits)

lemma attempt_try_read: "attempt_ok True t (\<lambda>p w. do {
     l \<leftarrow> rwlocks w p;
     let (ok, m) = Shared_try_lock_shared (rw_lock l);
     Some (if ok then (RwOut 0, count_read t 1 (set_rwlock p (l\<lparr>rw_lock := m\<rparr>) w)) else (RwOut POSIX_EBUSY, w)) })"
  by (rule attempt_okI) (auto simp: rw_attempt_defs bind_iff split: if_splits)

lemma attempt_try_write: "attempt_ok False t (\<lambda>p w. do {
     l \<leftarrow> rwlocks w p;
     let (ok, m) = Shared_try_lock (rw_lock l);
     Some (if ok then (RwOut 0, set_rwlock p (l\<lparr>rw_lock := m, rw_owner := Some t\<rparr>) w) else (RwOut POSIX_EBUSY, w)) })"
  by (rule attempt_okI) (auto simp: rw_attempt_defs bind_iff split: if_splits)

lemma good_check_and_init:
  assumes "rw_good w rd wr" "fresh_rwlock new w" "check_and_init_rwlock rwlock new w = (ret, w')"
  shows "rw_good w' rd wr \<and> dom (rwlocks w) \<subseteq> dom (rwlocks w') \<and> only_taken w w'"
  using assms good_new [OF assms(1)]
  by (auto simp: check_and_init_rwlock_def Rwlock_InitStatic_def fresh_rwlock_def only_taken_def new_rwlock_def
    split: if_splits option.splits)

lemma attempt_with_rwlock:
  assumes "attempt_ok r t f" "rw_good w rd wr" "fresh_rwlock new w" "with_rwlock rwlock new f w = Some (pc, w')"
  shows "rw_good w' (if r \<and> pc = RwOut 0 then add_mset (rwlock_cells w' rwlock, t) rd else rd)
      (if \<not> r \<and> pc = RwOut 0 then add_mset (rwlock_cells w' rwlock, t) wr else wr)"
    and "dom (rwlocks w) \<subseteq> dom (rwlocks w')"
    and "waits pc \<Longrightarrow> rwlocks w' (wait_lock pc) \<noteq> None"
    and "only_taken w w'"
proof -
  obtain ret w1 where c: "check_and_init_rwlock rwlock new w = (ret, w1)" by fastforce
  note g = good_check_and_init [OF assms(2,3) c]
  have "(ret \<noteq> 0 \<and> pc = RwOut ret \<and> w' = w1) \<or> (ret = 0 \<and> f (rwlock_cells w1 rwlock) w1 = Some (pc, w'))"
    using assms(4) c by (auto simp: with_rwlock_def split: if_splits)
  then have all: "rw_good w' (if r \<and> pc = RwOut 0 then add_mset (rwlock_cells w' rwlock, t) rd else rd)
      (if \<not> r \<and> pc = RwOut 0 then add_mset (rwlock_cells w' rwlock, t) wr else wr) \<and>
      dom (rwlocks w1) \<subseteq> dom (rwlocks w') \<and> only_taken w1 w' \<and> (waits pc \<longrightarrow> rwlocks w' (wait_lock pc) \<noteq> None)"
  proof
    assume "ret \<noteq> 0 \<and> pc = RwOut ret \<and> w' = w1"
    then show ?thesis using g by simp
  next
    assume "ret = 0 \<and> f (rwlock_cells w1 rwlock) w1 = Some (pc, w')"
    then have f: "f (rwlock_cells w1 rwlock) w1 = Some (pc, w')" by simp
    show ?thesis using assms(1) [unfolded attempt_ok_def, rule_format, OF conjunct1 [OF g] f] by auto
  qed
  then show "rw_good w' (if r \<and> pc = RwOut 0 then add_mset (rwlock_cells w' rwlock, t) rd else rd)
      (if \<not> r \<and> pc = RwOut 0 then add_mset (rwlock_cells w' rwlock, t) wr else wr)" by blast
  show "dom (rwlocks w) \<subseteq> dom (rwlocks w')" using all g by blast
  show "waits pc \<Longrightarrow> rwlocks w' (wait_lock pc) \<noteq> None" using all by blast
  show "only_taken w w'" using all g only_taken_trans by blast
qed

lemma rw_acquire_with: "\<exists>f. attempt_ok (for_reading call) t f \<and> rw_acquire call t rwlock new = with_rwlock rwlock new f"
proof (cases call)
  case RdLock
  then show ?thesis using attempt_Rdlock by (auto simp: fun_eq_iff posix_pthread_rwlock_rdlock_def intro!: exI)
next
  case (TimedRdLock x)
  then show ?thesis using attempt_Rdlock by (auto simp: fun_eq_iff posix_pthread_rwlock_timedrdlock_def intro!: exI)
next
  case TryRdLock
  then show ?thesis using attempt_try_read by (auto simp: fun_eq_iff posix_pthread_rwlock_tryrdlock_def intro!: exI)
next
  case WrLock
  then show ?thesis using attempt_Wrlock by (auto simp: fun_eq_iff posix_pthread_rwlock_wrlock_def intro!: exI)
next
  case (TimedWrLock x)
  then show ?thesis using attempt_Wrlock by (auto simp: fun_eq_iff posix_pthread_rwlock_timedwrlock_def intro!: exI)
next
  case TryWrLock
  then show ?thesis using attempt_try_write by (auto simp: fun_eq_iff posix_pthread_rwlock_trywrlock_def intro!: exI)
qed

definition rw_inv :: "RwSystem \<Rightarrow> bool" where
  "rw_inv s \<longleftrightarrow> rw_good (rw_world s) (rd_held s) (wr_held s) \<and>
     asleep_ok (rw_world s) (rw_pc s) \<and>
     (\<forall>t. waits (rw_pc s t) \<longrightarrow> rwlocks (rw_world s) (wait_lock (rw_pc s t)) \<noteq> None)"

lemma granted_simps [simp]:
  "rw_world (granted r p t pc s) = rw_world s"
  "rw_pc (granted r p t pc s) = rw_pc s"
  "rd_held (granted r p t pc s) = (if r \<and> pc = RwOut 0 then add_mset (p, t) (rd_held s) else rd_held s)"
  "wr_held (granted r p t pc s) = (if \<not> r \<and> pc = RwOut 0 then add_mset (p, t) (wr_held s) else wr_held s)"
  by auto

declare granted.simps [simp del]

lemma waiting_kept: "(\<forall>u. waits (pcs u) \<longrightarrow> rwlocks w (wait_lock (pcs u)) \<noteq> None) \<Longrightarrow>
    dom (rwlocks w) \<subseteq> dom (rwlocks w') \<Longrightarrow> (waits pc \<Longrightarrow> rwlocks w' (wait_lock pc) \<noteq> None) \<Longrightarrow>
    (\<forall>u. waits ((pcs(t := pc)) u) \<longrightarrow> rwlocks w' (wait_lock ((pcs(t := pc)) u)) \<noteq> None)"
  by (auto simp: dom_def)

text \<open>What the end of a wait keeps: for a look that takes the lock, and for one that does not.\<close>

lemma rd_waited_keeps:
  assumes g: "rw_good w rd wr" and a: "asleep_ok w pcs" and l: "rwlocks w p = Some l" and c: "pcs t = RwReading p abstime"
    and r: "rd_waited t p pc0 (ok, m) w = Some (pc, w')"
    and ok: "ok \<Longrightarrow> \<not> writer_active (rw_lock l) \<and> \<not> writer_active m \<and> readers m = readers (rw_lock l) + 1 \<and> t \<notin> sleepers m"
    and no: "\<not> ok \<Longrightarrow> readers m = readers (rw_lock l) \<and> writer_active m = writer_active (rw_lock l) \<and> pc0 \<noteq> RwOut 0 \<and>
        (t \<in> sleepers m \<longrightarrow> blocked pc0 p m)"
    and m: "sleepers m \<subseteq> insert t (sleepers (rw_lock l))"
  shows "rw_good w' (if pc = RwOut 0 then add_mset (p, t) rd else rd) wr \<and> asleep_ok w' (pcs(t := pc)) \<and>
    dom (rwlocks w) \<subseteq> dom (rwlocks w') \<and> (pc = RwOut 0 \<or> pc = pc0)"
proof (cases ok)
  case True
  note ok = ok [OF True]
  have w': "pc = RwOut 0" "w' = count_read t 1 (set_rwlock p (l\<lparr>rw_lock := m\<rparr>) w)"
    using r l True by (auto simp: rd_waited_def)
  have "asleep_ok w' (pcs(t := pc))"
    by (rule asleep_own_step [OF a l, of _ m _ _ "l\<lparr>rw_lock := m\<rparr>"])
      (use c ok m in \<open>auto simp: w' count_read_def set_rwlock_def\<close>)
  then show ?thesis using good_read [OF g l, of m t] ok l w' by (auto simp: count_read_def set_rwlock_def)
next
  case False
  note no = no [OF False]
  have w': "pc = pc0" "w' = set_rwlock p (l\<lparr>rw_lock := m\<rparr>) w" using r l False by (auto simp: rd_waited_def)
  have "asleep_ok w' (pcs(t := pc))"
    by (rule asleep_own_step [OF a l, of _ m _ _ "l\<lparr>rw_lock := m\<rparr>"])
      (use c no m in \<open>auto simp: w' set_rwlock_def\<close>)
  then show ?thesis using good_asleep [OF g l, of m] no l w' by (auto simp: set_rwlock_def)
qed

lemma wr_waited_keeps:
  assumes g: "rw_good w rd wr" and a: "asleep_ok w pcs" and l: "rwlocks w p = Some l" and c: "pcs t = RwWriting p abstime"
    and r: "wr_waited t p pc0 (ok, m) w = Some (pc, w')"
    and ok: "ok \<Longrightarrow> \<not> writer_active (rw_lock l) \<and> readers (rw_lock l) = 0 \<and> writer_active m \<and> readers m = 0 \<and> t \<notin> sleepers m"
    and no: "\<not> ok \<Longrightarrow> readers m = readers (rw_lock l) \<and> writer_active m = writer_active (rw_lock l) \<and> pc0 \<noteq> RwOut 0 \<and>
        (t \<in> sleepers m \<longrightarrow> blocked pc0 p m)"
    and m: "sleepers m \<subseteq> insert t (sleepers (rw_lock l))"
  shows "rw_good w' rd (if pc = RwOut 0 then add_mset (p, t) wr else wr) \<and> asleep_ok w' (pcs(t := pc)) \<and>
    dom (rwlocks w) \<subseteq> dom (rwlocks w') \<and> (pc = RwOut 0 \<or> pc = pc0)"
proof (cases ok)
  case True
  note ok = ok [OF True]
  have w': "pc = RwOut 0" "w' = set_rwlock p (l\<lparr>rw_lock := m, rw_owner := Some t\<rparr>) w"
    using r l True by (auto simp: wr_waited_def)
  have "asleep_ok w' (pcs(t := pc))"
    by (rule asleep_own_step [OF a l, of _ m _ _ "l\<lparr>rw_lock := m, rw_owner := Some t\<rparr>"])
      (use c ok m in \<open>auto simp: w' set_rwlock_def\<close>)
  then show ?thesis using good_write [OF g l, of m t] ok l w' by (auto simp: set_rwlock_def)
next
  case False
  note no = no [OF False]
  have w': "pc = pc0" "w' = set_rwlock p (l\<lparr>rw_lock := m\<rparr>) w" using r l False by (auto simp: wr_waited_def)
  have "asleep_ok w' (pcs(t := pc))"
    by (rule asleep_own_step [OF a l, of _ m _ _ "l\<lparr>rw_lock := m\<rparr>"])
      (use c no m in \<open>auto simp: w' set_rwlock_def\<close>)
  then show ?thesis using good_asleep [OF g l, of m] no l w' by (auto simp: set_rwlock_def)
qed

definition wait_kept :: "nat \<Rightarrow> RwPc \<Rightarrow> RwPc \<Rightarrow> RwWorld \<Rightarrow> RwWorld \<Rightarrow> (nat \<Rightarrow> RwPc) \<Rightarrow> (nat \<times> nat) multiset \<Rightarrow>
    (nat \<times> nat) multiset \<Rightarrow> bool" where
  "wait_kept t c pc w w' pcs rd wr \<longleftrightarrow>
     rw_good w' (if reads c \<and> pc = RwOut 0 then add_mset (wait_lock c, t) rd else rd)
       (if \<not> reads c \<and> pc = RwOut 0 then add_mset (wait_lock c, t) wr else wr) \<and>
     asleep_ok w' (pcs(t := pc)) \<and> dom (rwlocks w) \<subseteq> dom (rwlocks w') \<and> (pc = c \<or> \<not> waits pc)"

lemma rd_waited_keptI:
  assumes "rw_good w' (if pc = RwOut 0 then add_mset (p, t) rd else rd) wr \<and> asleep_ok w' (pcs(t := pc)) \<and>
      dom (rwlocks w) \<subseteq> dom (rwlocks w') \<and> (pc = RwOut 0 \<or> pc = pc0)"
    "pcs t = RwReading p abstime" "pc0 = RwReading p abstime \<or> \<not> waits pc0"
  shows "wait_kept t (pcs t) pc w w' pcs rd wr"
  using assms by (cases "pc = RwOut 0") (auto simp only: wait_kept_def reads.simps wait_lock.simps waits.simps simp_thms if_True if_False)

lemma wr_waited_keptI:
  assumes "rw_good w' rd (if pc = RwOut 0 then add_mset (p, t) wr else wr) \<and> asleep_ok w' (pcs(t := pc)) \<and>
      dom (rwlocks w) \<subseteq> dom (rwlocks w') \<and> (pc = RwOut 0 \<or> pc = pc0)"
    "pcs t = RwWriting p abstime" "pc0 = RwWriting p abstime \<or> \<not> waits pc0"
  shows "wait_kept t (pcs t) pc w w' pcs rd wr"
  using assms by (cases "pc = RwOut 0") (auto simp only: wait_kept_def reads.simps wait_lock.simps waits.simps simp_thms if_True if_False)

lemmas shared_wait_defs = Shared_lock_shared_def Shared_lock_def Shared_try_lock_until_def
  Shared_try_lock_shared_until_def wake_def Let_def blocked_def

lemma rw_next_keeps:
  assumes g: "rw_good w rd wr" and a: "asleep_ok w pcs" and n: "rw_next t (pcs t) w = Some (pc, w')"
  shows "wait_kept t (pcs t) pc w w' pcs rd wr"
proof (cases "pcs t")
  case c: (RwReading p abstime)
  with n obtain l where l: "rwlocks w p = Some l" "t \<notin> sleepers (rw_lock l)"
    "rd_waited t p (RwReading p abstime) (Shared_lock_shared t (rw_lock l)) w = Some (pc, w')"
    by (auto simp: bind_iff split: if_splits)
  obtain ok m where r: "Shared_lock_shared t (rw_lock l) = (ok, m)" by fastforce
  show ?thesis
  proof (rule rd_waited_keptI [OF rd_waited_keeps [OF g a l(1) c l(3) [unfolded r]] c])
  qed (use r l(2) c in \<open>auto simp: shared_wait_defs split: if_splits\<close>)
next
  case c: (RwWriting p abstime)
  with n obtain l where l: "rwlocks w p = Some l" "t \<notin> sleepers (rw_lock l)"
    "wr_waited t p (RwWriting p abstime) (Shared_lock t (rw_lock l)) w = Some (pc, w')"
    by (auto simp: bind_iff split: if_splits)
  obtain ok m where r: "Shared_lock t (rw_lock l) = (ok, m)" by fastforce
  show ?thesis
  proof (rule wr_waited_keptI [OF wr_waited_keeps [OF g a l(1) c l(3) [unfolded r]] c])
  qed (use r l(2) c good_readers [OF g l(1)] in \<open>auto simp: shared_wait_defs split: if_splits\<close>)
qed (use n in simp)

lemma rw_timeout_keeps:
  assumes g: "rw_good w rd wr" and a: "asleep_ok w pcs" and n: "rw_timeout t (pcs t) w = Some (pc, w')"
  shows "wait_kept t (pcs t) pc w w' pcs rd wr"
proof (cases "pcs t")
  case c: (RwReading p abstime)
  with n obtain l where l: "rwlocks w p = Some l"
    "rd_waited t p (RwOut POSIX_ETIMEDOUT) (Shared_try_lock_shared_until t (rw_lock l)) w = Some (pc, w')"
    by (auto simp: bind_iff split: if_splits)
  obtain ok m where r: "Shared_try_lock_shared_until t (rw_lock l) = (ok, m)" by fastforce
  show ?thesis
  proof (rule rd_waited_keptI [OF rd_waited_keeps [OF g a l(1) c l(2) [unfolded r]] c])
  qed (use r c in \<open>auto simp: shared_wait_defs split: if_splits\<close>)
next
  case c: (RwWriting p abstime)
  with n obtain l where l: "rwlocks w p = Some l"
    "wr_waited t p (RwOut POSIX_ETIMEDOUT) (Shared_try_lock_until t (rw_lock l)) w = Some (pc, w')"
    by (auto simp: bind_iff split: if_splits)
  obtain ok m where r: "Shared_try_lock_until t (rw_lock l) = (ok, m)" by fastforce
  show ?thesis
  proof (rule wr_waited_keptI [OF wr_waited_keeps [OF g a l(1) c l(2) [unfolded r]] c])
  qed (use r c in \<open>auto simp: shared_wait_defs split: if_splits\<close>)
qed (use n in simp)

lemma make_good:
  assumes "rw_good w rd wr" "fresh_rwlock new w" "posix_pthread_rwlock_init rwlock attr new w = Some (ret, w')"
  shows "rw_good w' rd wr \<and> dom (rwlocks w) \<subseteq> dom (rwlocks w')"
  using assms good_new [of "w\<lparr>rwlock_cells := (rwlock_cells w)(rwlock := 0)\<rparr>" rd wr]
  by (auto simp: posix_pthread_rwlock_init_def RwlockInit_def fresh_rwlock_def bind_iff
    split: if_splits option.splits)

lemma destroy_good:
  assumes "rw_good w rd wr" "\<And>u. (rwlock_cells w rwlock, u) \<notin># rd + wr"
    "posix_pthread_rwlock_destroy rwlock w = Some (ret, w')"
  shows "rw_good w' rd wr \<and> dom (rwlocks w) - {rwlock_cells w rwlock} \<subseteq> dom (rwlocks w')"
  using assms good_destroy [of w rd wr "rwlock_cells w rwlock"]
  by (auto simp: posix_pthread_rwlock_destroy_def Let_def bind_iff split: if_splits)

lemma unlock_dom: "posix_pthread_rwlock_unlock t rwlock w = Some (ret, w') \<Longrightarrow> dom (rwlocks w) \<subseteq> dom (rwlocks w')"
  by (auto simp: posix_pthread_rwlock_unlock_def Let_def bind_iff set_rwlock_def count_read_def split: if_splits)

lemma waits_on_wait_lock: "waits c \<Longrightarrow> \<not> waits_on p c \<Longrightarrow> wait_lock c \<noteq> p"
  by (cases c) auto

text \<open>A step of a thread that waits, by its own look or by the end of its time.\<close>

lemma wait_kept_inv:
  assumes i: "rw_inv s" and c: "waits (rw_pc s t)"
    and k: "wait_kept t (rw_pc s t) pc (rw_world s) w' (rw_pc s) (rd_held s) (wr_held s)"
  shows "rw_inv (granted (reads (rw_pc s t)) (wait_lock (rw_pc s t)) t pc (s\<lparr>rw_world := w', rw_pc := (rw_pc s)(t := pc)\<rparr>))"
proof -
  have w: "\<forall>u. waits (rw_pc s u) \<longrightarrow> rwlocks (rw_world s) (wait_lock (rw_pc s u)) \<noteq> None" using i by (simp add: rw_inv_def)
  have d: "dom (rwlocks (rw_world s)) \<subseteq> dom (rwlocks w')" "pc = rw_pc s t \<or> \<not> waits pc" using k by (simp_all only: wait_kept_def)
  have "waits pc \<Longrightarrow> rwlocks w' (wait_lock pc) \<noteq> None" using d w c by (metis domIff subset_iff)
  then have "\<forall>u. waits (((rw_pc s)(t := pc)) u) \<longrightarrow> rwlocks w' (wait_lock (((rw_pc s)(t := pc)) u)) \<noteq> None"
    by (rule waiting_kept [OF w d(1)])
  then show ?thesis using k unfolding rw_inv_def wait_kept_def
    by (cases "reads (rw_pc s t)"; cases "pc = RwOut 0") simp_all
qed

lemma unlock_changes:
  assumes g: "rw_good w rd wr" and h: "(rwlock_cells w rwlock, t) \<in># rd + wr"
    and u: "posix_pthread_rwlock_unlock t rwlock w = Some (ret, w')" and a: "asleep_ok w pcs"
  shows "asleep_ok w' pcs"
proof -
  define p where "p = rwlock_cells w rwlock"
  have m: "(p, t) \<in># on_lock p rd \<or> (p, t) \<in># on_lock p wr"
    using h by (auto simp: p_def intro: in_on_lock)
  have "\<exists>l. rwlocks w p = Some l"
  proof (cases "rwlocks w p")
    case None
    then have "holders_ok p None (on_lock p rd) (on_lock p wr)" using g by (metis rw_good_def)
    then show ?thesis using m by simp
  qed simp
  then obtain l where l: "rwlocks w p = Some l" by blast
  have p: "\<not> p \<le> THR_RWLOCK_DESTROYED" using good_address [OF g l] by simp
  show ?thesis
  proof (cases "rw_owner l = Some t")
    case True
    then have "w' = set_rwlock p (l\<lparr>rw_owner := None, rw_lock := Shared_unlock (rw_lock l)\<rparr>) w"
      using u l p by (simp add: posix_pthread_rwlock_unlock_def Let_def p_def [symmetric])
    then show ?thesis using asleep_unlock [OF a l, of w' "l\<lparr>rw_owner := None, rw_lock := Shared_unlock (rw_lock l)\<rparr>"]
      by (simp add: set_rwlock_def)
  next
    case False
    then have "(p, t) \<in># on_lock p rd" using m good_at [OF g l] by (auto split: option.splits)
    then have "on_lock p rd \<noteq> {#}" by auto
    then have pos: "readers (rw_lock l) > 0" using good_at [OF g l] by (simp add: nonempty_has_size)
    have "rwlocks w' = (rwlocks w)(p \<mapsto> l\<lparr>rw_lock := Shared_unlock_shared (rw_lock l)\<rparr>)"
      using u l p False by (auto simp: posix_pthread_rwlock_unlock_def Let_def p_def [symmetric] set_rwlock_def count_read_def)
    then show ?thesis using asleep_unlock [OF a l, of w' "l\<lparr>rw_lock := Shared_unlock_shared (rw_lock l)\<rparr>"] pos by simp
  qed
qed

lemma asleep_fewer:
  assumes "asleep_ok w pcs" "\<And>p l'. rwlocks w' p = Some l' \<Longrightarrow> sleepers (rw_lock l') = {} \<or> rwlocks w p = Some l'"
  shows "asleep_ok w' pcs"
  using assms unfolding asleep_ok_def by (metis empty_iff)

lemma spurious_keeps:
  assumes "rw_spurious t p w = Some w'" "rw_good w rd wr" "asleep_ok w pcs"
  shows "rw_good w' rd wr \<and> asleep_ok w' pcs \<and> dom (rwlocks w) \<subseteq> dom (rwlocks w')"
proof -
  obtain l where l: "rwlocks w p = Some l" "w' = set_rwlock p (l\<lparr>rw_lock := wake t (rw_lock l)\<rparr>) w"
    using assms(1) by (auto simp: rw_spurious_def)
  have "asleep_ok w' pcs"
    using assms(3) l by (auto simp: asleep_ok_def blocked_def set_rwlock_def wake_def split: if_splits)
  then show ?thesis using good_asleep [OF assms(2) l(1), of "wake t (rw_lock l)"] l by (auto simp: wake_def set_rwlock_def)
qed

lemma rw_step_inv: "rw_step s s' \<Longrightarrow> rw_inv s \<Longrightarrow> rw_inv s'"
proof (induction rule: rw_step.induct)
  case (acquire s t new call rwlock pc w')
  obtain f where f: "attempt_ok (for_reading call) t f" "rw_acquire call t rwlock new = with_rwlock rwlock new f"
    using rw_acquire_with by blast
  have g: "rw_good (rw_world s) (rd_held s) (wr_held s)" "asleep_ok (rw_world s) (rw_pc s)"
    "\<forall>t. waits (rw_pc s t) \<longrightarrow> rwlocks (rw_world s) (wait_lock (rw_pc s t)) \<noteq> None"
    using acquire.prems by (simp_all add: rw_inv_def)
  note a = attempt_with_rwlock [OF f(1) g(1) acquire(2) acquire(3) [unfolded f(2)]]
  show ?case using a(1) waiting_kept [OF g(3) a(2,3)] asleep_only_taken [OF g(2) a(4) acquire(1), of pc]
    by (cases "for_reading call"; cases "pc = RwOut 0") (simp_all add: rw_inv_def)
next
  case (go_on t s pc w')
  have "waits (rw_pc s t)" using go_on(1) by (cases "rw_pc s t") auto
  then show ?case using go_on rw_next_keeps by (intro wait_kept_inv) (auto simp: rw_inv_def)
next
  case (time_over t s pc w')
  have "waits (rw_pc s t)" using time_over(1) by (cases "rw_pc s t") auto
  then show ?case using time_over rw_timeout_keeps by (intro wait_kept_inv) (auto simp: rw_inv_def)
next
  case (spurious t p s w')
  have "rw_good w' (rd_held s) (wr_held s) \<and> asleep_ok w' (rw_pc s) \<and> dom (rwlocks (rw_world s)) \<subseteq> dom (rwlocks w')"
    using spurious_keeps [OF spurious(1)] spurious.prems unfolding rw_inv_def by blast
  then show ?case using spurious.prems by (auto simp: rw_inv_def dom_def) blast+
next
  case (unlock s t p rwlock ret w')
  have g: "rw_good (rw_world s) (rd_held s) (wr_held s)" "asleep_ok (rw_world s) (rw_pc s)"
    "\<forall>t. waits (rw_pc s t) \<longrightarrow> rwlocks (rw_world s) (wait_lock (rw_pc s t)) \<noteq> None"
    using unlock.prems by (simp_all add: rw_inv_def)
  have "asleep_ok w' (rw_pc s)" using unlock_changes [OF g(1) _ unlock(4) g(2)] unlock(2,3) by simp
  then show ?case using good_unlock [OF g(1) unlock(2,3,4)] unlock_dom [OF unlock(4)] g(3)
    by (auto simp: rw_inv_def dom_def split: if_splits) blast+
next
  case (make s t new rwlock attr ret w')
  have g: "rw_good (rw_world s) (rd_held s) (wr_held s)" "asleep_ok (rw_world s) (rw_pc s)"
    using make.prems by (simp_all add: rw_inv_def)
  have "asleep_ok w' (rw_pc s)" using make(3)
    by (intro asleep_fewer [OF g(2)]) (auto simp: posix_pthread_rwlock_init_def RwlockInit_def new_rwlock_def bind_iff
      split: if_splits option.splits)
  then show ?case using make_good [OF g(1) make(2,3)] make.prems by (auto simp: rw_inv_def dom_def) blast
next
  case (destroy s t p rwlock ret w')
  have g: "rw_good (rw_world s) (rd_held s) (wr_held s)" "asleep_ok (rw_world s) (rw_pc s)"
    "\<forall>t. waits (rw_pc s t) \<longrightarrow> rwlocks (rw_world s) (wait_lock (rw_pc s t)) \<noteq> None"
    using destroy.prems by (simp_all add: rw_inv_def)
  have d: "rw_good w' (rd_held s) (wr_held s) \<and> dom (rwlocks (rw_world s)) - {p} \<subseteq> dom (rwlocks w')"
    using destroy_good [OF g(1) _ destroy(5)] destroy(2,3) by auto
  have "asleep_ok w' (rw_pc s)" using destroy(5)
    by (intro asleep_fewer [OF g(2)]) (auto simp: posix_pthread_rwlock_destroy_def Let_def bind_iff split: if_splits)
  moreover have "waits (rw_pc s u) \<Longrightarrow> wait_lock (rw_pc s u) \<noteq> p" for u
    using waits_on_wait_lock destroy(4) by blast
  ultimately show ?case using d g(3) by (auto simp: rw_inv_def dom_def) blast
qed

lemma rw_reachable_inv: "rw_reachable s \<Longrightarrow> rw_inv s"
proof (induction rule: rw_reachable.induct)
  case (start ver attrs acells)
  show ?case by (auto simp: rw_inv_def rw_start_def rw_good_def asleep_ok_def)
qed (rule rw_step_inv)

lemma writer_alone:
  assumes "rw_good w rd wr"
  shows "\<forall>p t. (p, t) \<in># wr \<longrightarrow> on_lock p wr = {#(p, t)#} \<and> on_lock p rd = {#}"
proof (intro allI impI)
  fix p t
  assume "(p, t) \<in># wr"
  then have m: "(p, t) \<in># on_lock p wr" by (rule in_on_lock)
  have h: "holders_ok p (rwlocks w p) (on_lock p rd) (on_lock p wr)" using assms by (simp add: rw_good_def)
  show "on_lock p wr = {#(p, t)#} \<and> on_lock p rd = {#}"
    using h m by (cases "rwlocks w p") (auto split: option.splits)
qed

lemma unheld_for_writing:
  assumes "rw_good w rd wr" "rwlocks w p = Some l" "\<forall>u. (p, u) \<notin># rd + wr"
  shows "\<not> writer_active (rw_lock l) \<and> readers (rw_lock l) = 0"
  using good_at [OF assms(1,2)] on_lock_empty [of p rd] on_lock_empty [of p wr] assms(3) by (auto split: option.splits)

lemma unheld_for_reading:
  assumes "rw_good w rd wr" "rwlocks w p = Some l" "\<forall>u. (p, u) \<notin># wr"
  shows "\<not> writer_active (rw_lock l)"
  using good_at [OF assms(1,2)] on_lock_empty [of p wr] assms(3) by (auto split: option.splits)

text \<open>
  A thread that waits for a lock nobody holds is awake, and its next look takes the lock.
\<close>

lemma writer_goes_on:
  assumes "rw_inv s" "rw_pc s t = RwWriting p abstime" "\<forall>u. (p, u) \<notin># rd_held s + wr_held s"
  shows "\<exists>w'. rw_next t (rw_pc s t) (rw_world s) = Some (RwOut 0, w') \<and>
    rw_step s (s\<lparr>rw_world := w', rw_pc := (rw_pc s)(t := RwOut 0), wr_held := add_mset (p, t) (wr_held s)\<rparr>)"
proof -
  have g: "rw_good (rw_world s) (rd_held s) (wr_held s)" using assms(1) by (simp add: rw_inv_def)
  obtain l where l: "rwlocks (rw_world s) p = Some l" using assms(1,2) unfolding rw_inv_def
    by (metis option.exhaust wait_lock.simps(2) waits.simps(3))
  note free = unheld_for_writing [OF g l assms(3)]
  have "t \<notin> sleepers (rw_lock l)" using assms(1,2) l free by (fastforce simp: rw_inv_def asleep_ok_def blocked_def)
  then obtain w' where n: "rw_next t (rw_pc s t) (rw_world s) = Some (RwOut 0, w')"
    using free assms(2) l by (auto simp: Shared_lock_def wr_waited_def)
  then show ?thesis using rw_step.go_on [OF n] assms(2) by (auto simp: granted.simps)
qed

lemma reader_goes_on:
  assumes "rw_inv s" "rw_pc s t = RwReading p abstime" "\<forall>u. (p, u) \<notin># wr_held s"
  shows "\<exists>w'. rw_next t (rw_pc s t) (rw_world s) = Some (RwOut 0, w') \<and>
    rw_step s (s\<lparr>rw_world := w', rw_pc := (rw_pc s)(t := RwOut 0), rd_held := add_mset (p, t) (rd_held s)\<rparr>)"
proof -
  have g: "rw_good (rw_world s) (rd_held s) (wr_held s)" using assms(1) by (simp add: rw_inv_def)
  obtain l where l: "rwlocks (rw_world s) p = Some l" using assms(1,2) unfolding rw_inv_def
    by (metis option.exhaust wait_lock.simps(1) waits.simps(2))
  note free = unheld_for_reading [OF g l assms(3)]
  have "t \<notin> sleepers (rw_lock l)" using assms(1,2) l free by (fastforce simp: rw_inv_def asleep_ok_def blocked_def)
  then obtain w' where n: "rw_next t (rw_pc s t) (rw_world s) = Some (RwOut 0, w')"
    using free assms(2) l by (auto simp: Shared_lock_shared_def rd_waited_def)
  then show ?thesis using rw_step.go_on [OF n] assms(2) by (auto simp: granted.simps)
qed

text \<open>Two threads read, a third waits to write, both readers unlock and the writer gets the lock.\<close>

definition rw_example :: "PthreadRwlock \<Rightarrow> (nat \<Rightarrow> int) \<Rightarrow> (nat \<Rightarrow> RwPc) \<Rightarrow> (nat \<times> nat) multiset \<Rightarrow>
    (nat \<times> nat) multiset \<Rightarrow> RwSystem" where
  "rw_example l counts pcs rd wr = \<lparr>rw_world = \<lparr>rwlocks = [7 \<mapsto> l], rwlock_cells = (\<lambda>a. 0)(5 := 7),
       rwlockattrs = (\<lambda>a. None), rwlockattr_cells = (\<lambda>a. 0), rdlock_count = counts, sdk_version = 0\<rparr>,
     rw_pc = pcs, rd_held = rd, wr_held = wr\<rparr>"

lemma acquire_reachable:
  "rw_reachable s \<Longrightarrow> \<not> waits (rw_pc s t) \<Longrightarrow> fresh_rwlock new (rw_world s) \<Longrightarrow>
   rw_acquire call t rwlock new (rw_world s) = Some (pc, w') \<Longrightarrow>
   s' = granted (for_reading call) (rwlock_cells w' rwlock) t pc (s\<lparr>rw_world := w', rw_pc := (rw_pc s)(t := pc)\<rparr>) \<Longrightarrow>
   rw_reachable s'"
  using rw_reachable.step rw_step.acquire by blast

lemma go_reachable:
  "rw_reachable s \<Longrightarrow> rw_next t (rw_pc s t) (rw_world s) = Some (pc, w') \<Longrightarrow>
   s' = granted (reads (rw_pc s t)) (wait_lock (rw_pc s t)) t pc (s\<lparr>rw_world := w', rw_pc := (rw_pc s)(t := pc)\<rparr>) \<Longrightarrow>
   rw_reachable s'"
  using rw_reachable.step rw_step.go_on by blast

lemma unlock_reachable:
  "rw_reachable s \<Longrightarrow> \<not> waits (rw_pc s t) \<Longrightarrow> p = rwlock_cells (rw_world s) rwlock \<Longrightarrow>
   (p, t) \<in># rd_held s + wr_held s \<Longrightarrow> posix_pthread_rwlock_unlock t rwlock (rw_world s) = Some (ret, w') \<Longrightarrow>
   s' = (if (p, t) \<in># wr_held s then s\<lparr>rw_world := w', wr_held := wr_held s - {#(p, t)#}\<rparr>
      else s\<lparr>rw_world := w', rd_held := rd_held s - {#(p, t)#}\<rparr>) \<Longrightarrow> rw_reachable s'"
  using rw_reachable.step rw_step.unlock by blast

lemmas rw_call_defs = posix_pthread_rwlock_rdlock_def posix_pthread_rwlock_tryrdlock_def
  posix_pthread_rwlock_wrlock_def posix_pthread_rwlock_unlock_def with_rwlock_def check_and_init_rwlock_def
  Rwlock_InitStatic_def rw_attempt_defs Shared_lock_def Shared_unlock_def Shared_unlock_shared_def notify_all_def
  wr_waited_def set_rwlock_def count_read_def bad_time_def new_rwlock_def granted.simps

abbreviation "example_lock n ts \<equiv> \<lparr>rw_lock = \<lparr>readers = n, writer_active = False, sleepers = ts\<rparr>, rw_owner = None\<rparr>"

lemma example_reading:
  "rw_reachable (rw_example (example_lock 1 {}) ((\<lambda>t. 0)(1 := 1)) ((\<lambda>t. RwOut 0)(1 := RwOut 0)) {#(7, 1)#} {#})"
  by (rule acquire_reachable [OF rw_reachable.start [of 0 "\<lambda>a. None" "\<lambda>a. 0"], of 1 "Some 7" RdLock 5])
    (auto simp: rw_start_def rw_example_def rw_call_defs fresh_rwlock_def)

lemma example_two_reading:
  "rw_reachable (rw_example (example_lock 2 {}) ((\<lambda>t. 0)(1 := 1, 2 := 1)) ((\<lambda>t. RwOut 0)(1 := RwOut 0, 2 := RwOut 0))
     {#(7, 1), (7, 2)#} {#})"
  by (rule acquire_reachable [OF example_reading, of 2 None TryRdLock 5])
    (auto simp: rw_example_def rw_call_defs fresh_rwlock_def)

lemma example_waiting:
  "rw_reachable (rw_example (example_lock 2 {}) ((\<lambda>t. 0)(1 := 1, 2 := 1)) ((\<lambda>t. RwOut 0)(3 := RwWriting 7 None))
     {#(7, 1), (7, 2)#} {#})"
  by (rule acquire_reachable [OF example_two_reading, of 3 None WrLock 5])
    (auto simp: rw_example_def rw_call_defs fresh_rwlock_def fun_eq_iff)

lemma example_asleep:
  "rw_reachable (rw_example (example_lock 2 {3}) ((\<lambda>t. 0)(1 := 1, 2 := 1)) ((\<lambda>t. RwOut 0)(3 := RwWriting 7 None))
     {#(7, 1), (7, 2)#} {#})"
  by (rule go_reachable [OF example_waiting, of 3])
    (auto simp: rw_example_def rw_call_defs fun_eq_iff)

lemma example_one_left:
  "rw_reachable (rw_example (example_lock 1 {3}) ((\<lambda>t. 0)(2 := 1)) ((\<lambda>t. RwOut 0)(3 := RwWriting 7 None)) {#(7, 2)#} {#})"
  by (rule unlock_reachable [OF example_asleep, of 1 7 5])
    (auto simp: rw_example_def rw_call_defs fun_eq_iff)

lemma example_none_left:
  "rw_reachable (rw_example (example_lock 0 {}) (\<lambda>t. 0) ((\<lambda>t. RwOut 0)(3 := RwWriting 7 None)) {#} {#})"
  by (rule unlock_reachable [OF example_one_left, of 2 7 5])
    (auto simp: rw_example_def rw_call_defs fun_eq_iff)

text \<open>
  C16. In every run of any number of threads over any number of locks, in which a thread unlocks only a lock
  it holds and destroys only a lock that nobody holds or waits for: a thread whose call for writing returned
  0 is alone until it unlocks, so that no other thread, and not itself a second time, holds that lock for
  writing or for reading; the counter of read locks of each thread is the number of read locks it holds; and
  no wakeup is lost: a thread that waits for writing on a lock that nobody holds, or for reading on a lock
  that nobody holds for writing, is awake, and its next look at the lock takes it.
\<close>

theorem rwlock_exclusion:
  assumes "rw_reachable s"
  shows "(\<forall>p t. (p, t) \<in># wr_held s \<longrightarrow>
        filter_mset (\<lambda>x. fst x = p) (wr_held s) = {#(p, t)#} \<and> filter_mset (\<lambda>x. fst x = p) (rd_held s) = {#}) \<and>
    (\<forall>t. rdlock_count (rw_world s) t = int (size (filter_mset (\<lambda>x. snd x = t) (rd_held s)))) \<and>
    (\<forall>t p abstime. rw_pc s t = RwWriting p abstime \<longrightarrow> (\<forall>u. (p, u) \<notin># rd_held s + wr_held s) \<longrightarrow>
        (\<exists>w'. rw_next t (rw_pc s t) (rw_world s) = Some (RwOut 0, w') \<and>
          rw_step s (s\<lparr>rw_world := w', rw_pc := (rw_pc s)(t := RwOut 0), wr_held := add_mset (p, t) (wr_held s)\<rparr>))) \<and>
    (\<forall>t p abstime. rw_pc s t = RwReading p abstime \<longrightarrow> (\<forall>u. (p, u) \<notin># wr_held s) \<longrightarrow>
        (\<exists>w'. rw_next t (rw_pc s t) (rw_world s) = Some (RwOut 0, w') \<and>
          rw_step s (s\<lparr>rw_world := w', rw_pc := (rw_pc s)(t := RwOut 0), rd_held := add_mset (p, t) (rd_held s)\<rparr>)))"
proof -
  have i: "rw_inv s" using assms by (rule rw_reachable_inv)
  then have g: "rw_good (rw_world s) (rd_held s) (wr_held s)" by (simp add: rw_inv_def)
  have "\<forall>t. rdlock_count (rw_world s) t = int (size (filter_mset (\<lambda>x. snd x = t) (rd_held s)))"
    using g by (simp add: rw_good_def of_thread_def)
  then show ?thesis using writer_alone [OF g, unfolded on_lock_def] writer_goes_on [OF i] reader_goes_on [OF i] by blast
qed

text \<open>The writer has slept, both readers have unlocked; it takes the lock and is alone.\<close>

theorem rwlock_exclusion_witness:
  "\<exists>s w'. rw_reachable s \<and> rw_pc s 3 = RwWriting 7 None \<and> rw_next 3 (rw_pc s 3) (rw_world s) = Some (RwOut 0, w') \<and>
    rw_reachable (s\<lparr>rw_world := w', rw_pc := (rw_pc s)(3 := RwOut 0), wr_held := add_mset (7, 3) (wr_held s)\<rparr>)"
proof -
  let ?s = "rw_example (example_lock 0 {}) (\<lambda>t. 0) ((\<lambda>t. RwOut 0)(3 := RwWriting 7 None)) {#} {#}"
  have "rw_pc ?s 3 = RwWriting 7 None" "\<forall>u. (7, u) \<notin># rd_held ?s + wr_held ?s" by (simp_all add: rw_example_def)
  then obtain w' where "rw_next 3 (rw_pc ?s 3) (rw_world ?s) = Some (RwOut 0, w')"
    "rw_step ?s (?s\<lparr>rw_world := w', rw_pc := (rw_pc ?s)(3 := RwOut 0), wr_held := add_mset (7, 3) (wr_held ?s)\<rparr>)"
    using rwlock_exclusion [OF example_none_left] by blast
  then show ?thesis using example_none_left rw_reachable.step \<open>rw_pc ?s 3 = RwWriting 7 None\<close> by blast
qed

end
