(* ===== verification/Pthread_Keys.thy ===== *)
theory Pthread_Keys
  imports Prelude
begin

text \<open>
  The thread-specific data of \<open>src/src/core/libraries/kernel/threads/pthread_spec.cpp\<close>: a table of keys
  that all threads share, and for each thread an array with a value for every key.

  A key has a sequence number that grows when the key is created, and a value carries that of the key
  when it was stored: the values that are left from a deleted key do not count for the key that takes its
  place.  A destructor is guest code; what it does here is to make calls, which \<open>D\<close> gives for the
  destructor, its argument and the state it is called in.
\<close>

section \<open>Data\<close>

abbreviation PthreadKeysMax :: nat where "PthreadKeysMax \<equiv> 256"
abbreviation PthreadDestructorIterations :: nat where "PthreadDestructorIterations \<equiv> 4"

record PthreadKey =
  key_allocated :: bool
  key_seqno :: s32
  key_destructor :: nat

record PthreadSpecificElem =
  elem_data :: nat
  elem_seqno :: s32

text \<open>\<open>specific_array\<close> is the pointer \<open>specific\<close> of a thread, which may be null.\<close>

record KeyWorld =
  ThreadKeytable :: "nat \<Rightarrow> PthreadKey"
  specific_array :: "nat \<Rightarrow> (nat \<Rightarrow> PthreadSpecificElem) option"
  specific_data_count :: "nat \<Rightarrow> s32"

text \<open>A key is compared with the maximum as an unsigned number.\<close>

definition key_index :: "s32 \<Rightarrow> nat" where
  "key_index key = nat (key mod 4294967296)"

section \<open>The calls\<close>

definition posix_pthread_key_create :: "nat \<Rightarrow> KeyWorld \<Rightarrow> (s32 \<times> s32 option) \<times> KeyWorld" where
  "posix_pthread_key_create destr w =
     (case find (\<lambda>k. \<not> key_allocated (ThreadKeytable w k)) [0..<PthreadKeysMax] of
       Some k \<Rightarrow> ((0, Some (int k)), w\<lparr>ThreadKeytable := (ThreadKeytable w)(k :=
           \<lparr>key_allocated = True, key_seqno = wrap32 (key_seqno (ThreadKeytable w k) + 1), key_destructor = destr\<rparr>)\<rparr>)
     | None \<Rightarrow> ((POSIX_EAGAIN, None), w))"

definition posix_pthread_key_delete :: "s32 \<Rightarrow> KeyWorld \<Rightarrow> s32 \<times> KeyWorld" where
  "posix_pthread_key_delete key w =
     (let k = key_index key
      in if k \<ge> PthreadKeysMax then (POSIX_EINVAL, w)
         else if \<not> key_allocated (ThreadKeytable w k) then (POSIX_EINVAL, w)
         else (0, w\<lparr>ThreadKeytable := (ThreadKeytable w)(k := (ThreadKeytable w k)\<lparr>key_allocated := False\<rparr>)\<rparr>))"

text \<open>\<open>ok\<close>: the allocation of the array succeeds.\<close>

definition posix_pthread_setspecific :: "nat \<Rightarrow> s32 \<Rightarrow> nat \<Rightarrow> bool \<Rightarrow> KeyWorld \<Rightarrow> s32 \<times> KeyWorld" where
  "posix_pthread_setspecific t key value ok w =
     (if specific_array w t = None \<and> \<not> ok then (POSIX_ENOMEM, w)
      else
        let sp = (case specific_array w t of None \<Rightarrow> (\<lambda>_. \<lparr>elem_data = 0, elem_seqno = 0\<rparr>) | Some sp \<Rightarrow> sp);
            w1 = w\<lparr>specific_array := (specific_array w)(t \<mapsto> sp)\<rparr>;
            k = key_index key
        in if k \<ge> PthreadKeysMax then (POSIX_EINVAL, w1)
           else if \<not> key_allocated (ThreadKeytable w k) then (POSIX_EINVAL, w1)
           else
             let n = specific_data_count w t;
                 n' = (if elem_data (sp k) = 0 then (if value \<noteq> 0 then n + 1 else n)
                       else if value = 0 then n - 1 else n)
             in (0, w1\<lparr>specific_data_count := (specific_data_count w)(t := n'),
                       specific_array := (specific_array w)(t \<mapsto> sp(k :=
                         \<lparr>elem_data = value, elem_seqno = key_seqno (ThreadKeytable w k)\<rparr>))\<rparr>))"

definition posix_pthread_getspecific :: "nat \<Rightarrow> s32 \<Rightarrow> KeyWorld \<Rightarrow> nat" where
  "posix_pthread_getspecific t key w = (case specific_array w t of
     None \<Rightarrow> 0
   | Some sp \<Rightarrow>
       let k = key_index key
       in if k \<ge> PthreadKeysMax then 0
          else if key_allocated (ThreadKeytable w k) \<and> elem_seqno (sp k) = key_seqno (ThreadKeytable w k)
          then elem_data (sp k) else 0)"

section \<open>The end of a thread\<close>

datatype KeyOp = KCreate nat | KDelete s32 | KSet nat s32 nat bool | KGet nat s32
datatype KeyResult = RCreate s32 "s32 option" | RInt s32 | RValue nat | RCalls "(nat \<times> nat) list"

fun key_op :: "KeyOp \<Rightarrow> KeyWorld \<Rightarrow> KeyResult \<times> KeyWorld" where
  "key_op (KCreate d) w = (let ((r, k), w') = posix_pthread_key_create d w in (RCreate r k, w'))"
| "key_op (KDelete key) w = (let (r, w') = posix_pthread_key_delete key w in (RInt r, w'))"
| "key_op (KSet t key v ok) w = (let (r, w') = posix_pthread_setspecific t key v ok w in (RInt r, w'))"
| "key_op (KGet t key) w = (RValue (posix_pthread_getspecific t key w), w)"

type_synonym Destructors = "nat \<Rightarrow> nat \<Rightarrow> KeyWorld \<Rightarrow> KeyOp list"

definition call_destructor :: "Destructors \<Rightarrow> nat \<Rightarrow> nat \<Rightarrow> KeyWorld \<Rightarrow> KeyWorld" where
  "call_destructor D d v w = fold (\<lambda>c w. snd (key_op c w)) (D d v w) w"

text \<open>The destructor to call, 0 if none, with the value that was there, which is set to null.\<close>

definition clear_key :: "nat \<Rightarrow> nat \<Rightarrow> KeyWorld \<Rightarrow> ((nat \<times> nat) \<times> KeyWorld) option" where
  "clear_key t k w = do {
     sp \<leftarrow> specific_array w t;
     let e = sp k;
     let tk = ThreadKeytable w k;
     let w' = w\<lparr>specific_array := (specific_array w)(t \<mapsto> sp(k := e\<lparr>elem_data := 0\<rparr>)),
                specific_data_count := (specific_data_count w)(t := specific_data_count w t - 1)\<rparr>;
     Some (if key_allocated tk \<and> elem_data e \<noteq> 0
           then (if elem_seqno e = key_seqno tk then (key_destructor tk, elem_data e) else (0, 0), w')
           else if elem_data e \<noteq> 0 then ((0, 0), w')
           else ((0, 0), w)) }"

text \<open>The two loops, with the calls made so far.\<close>

function cleanup_keys ::
  "Destructors \<Rightarrow> nat \<Rightarrow> nat \<Rightarrow> (nat \<times> nat) list \<Rightarrow> KeyWorld \<Rightarrow> ((nat \<times> nat) list \<times> KeyWorld) option" where
  "cleanup_keys D t key calls w =
     (if key < PthreadKeysMax \<and> specific_data_count w t > 0
      then do {
        ((d, v), w1) \<leftarrow> clear_key t key w;
        (if d \<noteq> 0 then cleanup_keys D t (key + 1) (calls @ [(d, v)]) (call_destructor D d v w1)
         else cleanup_keys D t (key + 1) calls w1) }
      else Some (calls, w))"
  by pat_completeness auto
termination by (relation "measure (\<lambda>(D, t, key, calls, w). PthreadKeysMax - key)") auto

function cleanup_iterations ::
  "Destructors \<Rightarrow> nat \<Rightarrow> nat \<Rightarrow> (nat \<times> nat) list \<Rightarrow> KeyWorld \<Rightarrow> ((nat \<times> nat) list \<times> KeyWorld) option" where
  "cleanup_iterations D t i calls w =
     (if i < PthreadDestructorIterations \<and> specific_data_count w t > 0
      then do { (calls', w') \<leftarrow> cleanup_keys D t 0 calls w; cleanup_iterations D t (i + 1) calls' w' }
      else Some (calls, w))"
  by pat_completeness auto
termination by (relation "measure (\<lambda>(D, t, i, calls, w). PthreadDestructorIterations - i)") auto

declare cleanup_keys.simps [simp del] cleanup_iterations.simps [simp del]

definition thread_cleanupspecific ::
  "Destructors \<Rightarrow> nat \<Rightarrow> KeyWorld \<Rightarrow> ((nat \<times> nat) list \<times> KeyWorld) option" where
  "thread_cleanupspecific D t w = (case specific_array w t of
     None \<Rightarrow> Some ([], w)
   | Some sp \<Rightarrow> do {
       (calls, w') \<leftarrow> cleanup_iterations D t 0 [] w;
       Some (calls, w'\<lparr>specific_array := (specific_array w')(t := None)\<rparr>) })"

section \<open>The loops end\<close>

lemma key_op_array: "specific_array w t \<noteq> None \<Longrightarrow> specific_array (snd (key_op c w)) t \<noteq> None"
  by (cases c) (auto simp: posix_pthread_key_create_def posix_pthread_key_delete_def posix_pthread_setspecific_def
      Let_def split: option.split)

lemma call_destructor_array: "specific_array w t \<noteq> None \<Longrightarrow> specific_array (call_destructor D d v w) t \<noteq> None"
proof -
  have "specific_array w0 t \<noteq> None \<Longrightarrow> specific_array (fold (\<lambda>c w. snd (key_op c w)) cs w0) t \<noteq> None" for cs w0
    
    by (induction cs arbitrary: w0) (simp_all add: key_op_array del: not_None_eq)
  then show "specific_array w t \<noteq> None \<Longrightarrow> ?thesis" by (simp add: call_destructor_def)
qed

lemma clear_key_array:
  assumes "specific_array w t \<noteq> None"
  obtains d v w' where "clear_key t k w = Some ((d, v), w')" "specific_array w' t \<noteq> None"
proof -
  obtain sp where sp: "specific_array w t = Some sp" using assms by blast
  then have "\<exists>x. clear_key t k w = Some x \<and> specific_array (snd x) t \<noteq> None"
    by (simp add: clear_key_def Let_def)
  then obtain x where x: "clear_key t k w = Some x" "specific_array (snd x) t \<noteq> None" by blast
  then show thesis using that [of "fst (fst x)" "snd (fst x)" "snd x"] by simp
qed

lemma cleanup_keys_returns:
  assumes "specific_array w t \<noteq> None"
  shows "\<exists>calls' w'. cleanup_keys D t key calls w = Some (calls', w') \<and> specific_array w' t \<noteq> None \<and>
    length calls' \<le> length calls + (PthreadKeysMax - key)"
  using assms
proof (induction D t key calls w rule: cleanup_keys.induct)
  case (1 D t key calls w)
  show ?case
  proof (cases "key < PthreadKeysMax \<and> specific_data_count w t > 0")
    case True
    obtain d v w1 where c: "clear_key t key w = Some ((d, v), w1)" "specific_array w1 t \<noteq> None"
      using clear_key_array [OF 1(3)] by blast
    show ?thesis
    proof (cases "d = 0")
      case d: True
      from 1(2) [OF True c(1) refl refl _ c(2)] d obtain calls' w' where
        "cleanup_keys D t (key + 1) calls w1 = Some (calls', w')" "specific_array w' t \<noteq> None"
        "length calls' \<le> length calls + (PthreadKeysMax - (key + 1))" by auto
      then show ?thesis using True c(1) d by (simp add: cleanup_keys.simps [of D t key])
    next
      case d: False
      from 1(1) [OF True c(1) refl refl d call_destructor_array [OF c(2)]] obtain calls' w' where
        "cleanup_keys D t (key + 1) (calls @ [(d, v)]) (call_destructor D d v w1) = Some (calls', w')"
        "specific_array w' t \<noteq> None" "length calls' \<le> length calls + 1 + (PthreadKeysMax - (key + 1))" by auto
      moreover have "length calls + 1 + (PthreadKeysMax - (key + 1)) = length calls + (PthreadKeysMax - key)"
        using True by linarith
      ultimately show ?thesis using True c(1) d by (simp add: cleanup_keys.simps [of D t key])
    qed
  next
    case False
    then have "cleanup_keys D t key calls w = Some (calls, w)" by (subst cleanup_keys.simps) (simp only: False if_False)
    then show ?thesis using 1(3) by simp
  qed
qed

lemma cleanup_iterations_returns:
  assumes "specific_array w t \<noteq> None"
  shows "\<exists>calls' w'. cleanup_iterations D t i calls w = Some (calls', w') \<and> specific_array w' t \<noteq> None \<and>
    length calls' \<le> length calls + (PthreadDestructorIterations - i) * PthreadKeysMax"
  using assms
proof (induction D t i calls w rule: cleanup_iterations.induct)
  case (1 D t i calls w)
  show ?case
  proof (cases "i < PthreadDestructorIterations \<and> specific_data_count w t > 0")
    case True
    obtain c1 w1 where k: "cleanup_keys D t 0 calls w = Some (c1, w1)" "specific_array w1 t \<noteq> None"
      "length c1 \<le> length calls + PthreadKeysMax"
      using cleanup_keys_returns [OF 1(2), of D 0 calls] by auto
    from 1(1) [OF True k(1) refl k(2)] obtain calls' w' where
      "cleanup_iterations D t (i + 1) c1 w1 = Some (calls', w')" "specific_array w' t \<noteq> None"
      "length calls' \<le> length c1 + (PthreadDestructorIterations - (i + 1)) * PthreadKeysMax" by auto
    moreover have "PthreadDestructorIterations - i = Suc (PthreadDestructorIterations - (i + 1))" using True by linarith
    ultimately show ?thesis using True k by (simp add: cleanup_iterations.simps [of D t i])
  next
    case False
    then have "cleanup_iterations D t i calls w = Some (calls, w)" by (subst cleanup_iterations.simps) (simp only: False if_False)
    then show ?thesis using 1(2) by simp
  qed
qed

text \<open>
  C19. A thread always gets to its end: whatever the destructors store again in the keys of the thread or
  do to the keys, the clean-up calls at most four destructors for each of the 256 keys, returns, and
  leaves the thread without values.
\<close>

theorem cleanup_ends:
  "\<exists>calls w'. thread_cleanupspecific D t w = Some (calls, w') \<and> specific_array w' t = None \<and>
     length calls \<le> PthreadDestructorIterations * PthreadKeysMax"
proof (cases "specific_array w t")
  case (Some sp)
  then have "specific_array w t \<noteq> None" by simp
  from cleanup_iterations_returns [OF this, of D 0 "[]"] Some show ?thesis
    by (auto simp: thread_cleanupspecific_def)
qed (simp add: thread_cleanupspecific_def)


section \<open>Keys and values, abstractly\<close>

text \<open>
  A set of live keys with their destructors, and for each thread and live key a value.  A new key has no
  values, and a thread that ends calls the destructors of the keys it has values for.
\<close>

record KeySpec =
  live :: "nat \<Rightarrow> bool"
  destructor_of :: "nat \<Rightarrow> nat"
  value_at :: "nat \<Rightarrow> nat \<Rightarrow> nat"
  has_array :: "nat \<Rightarrow> bool"

datatype KeyEvent = Call KeyOp | Exit nat

definition live_key :: "s32 \<Rightarrow> KeySpec \<Rightarrow> bool" where
  "live_key key s \<longleftrightarrow> key_index key < PthreadKeysMax \<and> live s (key_index key)"

fun key_spec :: "KeyEvent \<Rightarrow> KeySpec \<Rightarrow> KeyResult \<times> KeySpec" where
  "key_spec (Call (KCreate d)) s =
     (if \<exists>k<PthreadKeysMax. \<not> live s k
      then let k = (LEAST k. \<not> live s k)
           in (RCreate 0 (Some (int k)), s\<lparr>live := (live s)(k := True), destructor_of := (destructor_of s)(k := d)\<rparr>)
      else (RCreate POSIX_EAGAIN None, s))"
| "key_spec (Call (KDelete key)) s =
     (if live_key key s
      then (RInt 0, s\<lparr>live := (live s)(key_index key := False),
                      value_at := (\<lambda>t. (value_at s t)(key_index key := 0))\<rparr>)
      else (RInt POSIX_EINVAL, s))"
| "key_spec (Call (KSet t key v ok)) s =
     (if \<not> has_array s t \<and> \<not> ok then (RInt POSIX_ENOMEM, s)
      else
        let s1 = s\<lparr>has_array := (has_array s)(t := True)\<rparr>
        in if live_key key s
           then (RInt 0, s1\<lparr>value_at := (value_at s)(t := (value_at s t)(key_index key := v))\<rparr>)
           else (RInt POSIX_EINVAL, s1))"
| "key_spec (Call (KGet t key)) s = (RValue (if live_key key s then value_at s t (key_index key) else 0), s)"
| "key_spec (Exit t) s =
     (RCalls [(destructor_of s k, value_at s t k). k \<leftarrow> [0..<PthreadKeysMax], value_at s t k \<noteq> 0 \<and> destructor_of s k \<noteq> 0],
      s\<lparr>value_at := (value_at s)(t := (\<lambda>_. 0)), has_array := (has_array s)(t := False)\<rparr>)"

text \<open>The code, with destructors that make no calls on keys.\<close>

definition quiet :: Destructors where "quiet = (\<lambda>d v w. [])"

fun key_event :: "KeyEvent \<Rightarrow> KeyWorld \<Rightarrow> (KeyResult \<times> KeyWorld) option" where
  "key_event (Call c) w = Some (key_op c w)"
| "key_event (Exit t) w = map_option (\<lambda>(calls, w'). (RCalls calls, w')) (thread_cleanupspecific quiet t w)"

definition key_value :: "nat \<Rightarrow> nat \<Rightarrow> KeyWorld \<Rightarrow> nat" where
  "key_value t k w = (case specific_array w t of None \<Rightarrow> 0 | Some sp \<Rightarrow>
     if k < PthreadKeysMax \<and> key_allocated (ThreadKeytable w k) \<and> elem_seqno (sp k) = key_seqno (ThreadKeytable w k)
     then elem_data (sp k) else 0)"

definition keys_abs :: "KeyWorld \<Rightarrow> KeySpec" where
  "keys_abs w = \<lparr>live = (\<lambda>k. key_allocated (ThreadKeytable w k)),
     destructor_of = (\<lambda>k. key_destructor (ThreadKeytable w k)),
     value_at = (\<lambda>t k. key_value t k w), has_array = (\<lambda>t. specific_array w t \<noteq> None)\<rparr>"

definition nonnull :: "(nat \<Rightarrow> PthreadSpecificElem) \<Rightarrow> int" where
  "nonnull sp = (\<Sum>k<PthreadKeysMax. if elem_data (sp k) = 0 then 0 else 1)"

text \<open>The invariant: after at most \<open>n\<close> creations no value is newer than its key, and the counts are right.\<close>

definition counted :: "nat \<Rightarrow> KeyWorld \<Rightarrow> bool" where
  "counted t w \<longleftrightarrow> specific_data_count w t = (case specific_array w t of None \<Rightarrow> 0 | Some sp \<Rightarrow> nonnull sp)"

definition keys_inv :: "nat \<Rightarrow> KeyWorld \<Rightarrow> bool" where
  "keys_inv n w \<longleftrightarrow> (\<forall>k. 0 \<le> key_seqno (ThreadKeytable w k) \<and> key_seqno (ThreadKeytable w k) \<le> int n) \<and>
     (\<forall>t sp k. specific_array w t = Some sp \<longrightarrow> elem_seqno (sp k) \<le> key_seqno (ThreadKeytable w k)) \<and>
     (\<forall>t. counted t w)"

lemma nonnull_upd:
  assumes "k < PthreadKeysMax"
  shows "nonnull (sp(k := e)) = nonnull sp - (if elem_data (sp k) = 0 then 0 else 1) + (if elem_data e = 0 then 0 else 1)"
proof -
  have "nonnull f = (if elem_data (f k) = 0 then 0 else 1) + (\<Sum>j\<in>{..<PthreadKeysMax} - {k}. if elem_data (f j) = 0 then 0 else 1)"
    for f unfolding nonnull_def by (rule sum.remove) (use assms in auto)
  from this [of sp] this [of "sp(k := e)"] show ?thesis by simp
qed

lemma nonnull_pos: "nonnull sp > 0 \<longleftrightarrow> (\<exists>k<PthreadKeysMax. elem_data (sp k) \<noteq> 0)"
proof -
  have "nonnull sp = 0 \<longleftrightarrow> (\<forall>k\<in>{..<PthreadKeysMax}. (if elem_data (sp k) = 0 then 0 else 1 :: int) = 0)"
    unfolding nonnull_def by (rule sum_nonneg_eq_0_iff) auto
  moreover have "nonnull sp \<ge> 0" unfolding nonnull_def by (rule sum_nonneg) simp
  ultimately show ?thesis by (auto split: if_splits)
qed


lemma call_quiet [simp]: "call_destructor quiet d v w = w"
  by (simp add: call_destructor_def quiet_def)

lemma counted_pos:
  assumes "counted t w" "specific_array w t = Some sp"
  shows "specific_data_count w t > 0 \<longleftrightarrow> (\<exists>k<PthreadKeysMax. elem_data (sp k) \<noteq> 0)"
  using assms nonnull_pos [of sp] by (simp add: counted_def)

definition live_calls :: "nat \<Rightarrow> nat \<Rightarrow> KeyWorld \<Rightarrow> (nat \<times> nat) list" where
  "live_calls t key w = [(key_destructor (ThreadKeytable w k), key_value t k w).
     k \<leftarrow> [key..<PthreadKeysMax], key_value t k w \<noteq> 0 \<and> key_destructor (ThreadKeytable w k) \<noteq> 0]"

text \<open>What clearing one key does.\<close>

lemma clear_key_effect:
  assumes sp: "specific_array w t = Some sp" and k: "k < PthreadKeysMax" and c: "counted t w"
  obtains d v w' where "clear_key t k w = Some ((d, v), w')" "specific_array w' t = Some (sp(k := (sp k)\<lparr>elem_data := 0\<rparr>))"
    "ThreadKeytable w' = ThreadKeytable w" "counted t w'"
    "\<And>u. u \<noteq> t \<Longrightarrow> specific_array w' u = specific_array w u \<and> specific_data_count w' u = specific_data_count w u"
    "(if d \<noteq> 0 then [(d, v)] else []) = (if key_value t k w \<noteq> 0 \<and> key_destructor (ThreadKeytable w k) \<noteq> 0
       then [(key_destructor (ThreadKeytable w k), key_value t k w)] else [])"
proof -
  let ?sp = "sp(k := (sp k)\<lparr>elem_data := 0\<rparr>)"
  let ?w = "w\<lparr>specific_array := (specific_array w)(t \<mapsto> ?sp),
     specific_data_count := (specific_data_count w)(t := specific_data_count w t - 1)\<rparr>"
  show thesis
  proof (cases "elem_data (sp k) = 0")
    case True
    have "?sp = sp" using True by (metis PthreadSpecificElem.surjective PthreadSpecificElem.update_convs(1) fun_upd_triv)
    moreover have "clear_key t k w = Some ((0, 0), w)" using sp True by (simp add: clear_key_def Let_def)
    moreover have "key_value t k w = 0" using sp True by (simp add: key_value_def)
    ultimately show ?thesis using that [of 0 0 w] sp c by simp
  next
    case False
    have cnt: "counted t ?w" using c sp False nonnull_upd [OF k, of sp] by (simp add: counted_def)
    let ?live = "key_allocated (ThreadKeytable w k) \<and> elem_seqno (sp k) = key_seqno (ThreadKeytable w k)"
    have e: "clear_key t k w = Some (if ?live then (key_destructor (ThreadKeytable w k), elem_data (sp k)) else (0, 0), ?w)"
      using sp False by (simp add: clear_key_def Let_def)
    show ?thesis
    proof (cases ?live)
      case True
      then show ?thesis using that [OF _ _ _ cnt, of "key_destructor (ThreadKeytable w k)" "elem_data (sp k)"] e sp k False
        by (simp add: key_value_def)
    next
      case l: False
      have kv: "key_value t k w = 0" using l sp by (auto simp: key_value_def)
      have "clear_key t k w = Some ((0, 0), ?w)" using e by (simp only: l if_False)
      from that [OF this _ _ cnt] show ?thesis by (simp add: kv)
    qed
  qed
qed


lemma key_value_frame:
  assumes "specific_array w t = Some sp" "specific_array w' t = Some (sp(k := e))" "ThreadKeytable w' = ThreadKeytable w" "j \<noteq> k"
  shows "key_value t j w' = key_value t j w"
  using assms by (simp add: key_value_def)

lemma live_calls_step:
  assumes "k < PthreadKeysMax"
  shows "live_calls t k w = (if key_value t k w \<noteq> 0 \<and> key_destructor (ThreadKeytable w k) \<noteq> 0
     then [(key_destructor (ThreadKeytable w k), key_value t k w)] else []) @ live_calls t (k + 1) w"
  using assms by (simp add: live_calls_def upt_conv_Cons del: upt_Suc)

lemma cleanup_pass:
  assumes "specific_array w t = Some sp" "counted t w" "\<And>j. j < key \<Longrightarrow> j < PthreadKeysMax \<Longrightarrow> elem_data (sp j) = 0"
  shows "\<exists>w' sp'. cleanup_keys quiet t key calls w = Some (calls @ live_calls t key w, w') \<and>
    specific_array w' t = Some sp' \<and> (\<forall>j<PthreadKeysMax. elem_data (sp' j) = 0) \<and>
    ThreadKeytable w' = ThreadKeytable w \<and> counted t w' \<and>
    (\<forall>u. u \<noteq> t \<longrightarrow> specific_array w' u = specific_array w u \<and> specific_data_count w' u = specific_data_count w u)"
  using assms
proof (induction "PthreadKeysMax - key" arbitrary: key calls w sp)
  case 0
  then have k: "\<not> (key < PthreadKeysMax \<and> specific_data_count w t > 0)" by simp
  have "cleanup_keys quiet t key calls w = Some (calls, w)" by (subst cleanup_keys.simps) (simp only: k if_False)
  moreover have "live_calls t key w = []" using 0 by (simp add: live_calls_def)
  ultimately show ?case using 0 by auto
next
  case (Suc n)
  have k: "key < PthreadKeysMax" using Suc(2) by simp
  show ?case
  proof (cases "specific_data_count w t > 0")
    case True
    obtain d v w1 where c: "clear_key t key w = Some ((d, v), w1)"
      "specific_array w1 t = Some (sp(key := (sp key)\<lparr>elem_data := 0\<rparr>))"
      "ThreadKeytable w1 = ThreadKeytable w" "counted t w1"
      "\<And>u. u \<noteq> t \<Longrightarrow> specific_array w1 u = specific_array w u \<and> specific_data_count w1 u = specific_data_count w u"
      "(if d \<noteq> 0 then [(d, v)] else []) = (if key_value t key w \<noteq> 0 \<and> key_destructor (ThreadKeytable w key) \<noteq> 0
       then [(key_destructor (ThreadKeytable w key), key_value t key w)] else [])"
      using clear_key_effect [OF Suc(3) k Suc(4)] by blast
    let ?calls = "calls @ (if d \<noteq> 0 then [(d, v)] else [])"
    have "cleanup_keys quiet t key calls w = cleanup_keys quiet t (key + 1) ?calls w1"
      by (subst cleanup_keys.simps) (simp add: k True c(1))
    moreover have "live_calls t key w = (if d \<noteq> 0 then [(d, v)] else []) @ live_calls t (key + 1) w1"
    proof -
      have "live_calls t (key + 1) w1 = live_calls t (key + 1) w"
        unfolding live_calls_def using key_value_frame [OF Suc(3) c(2,3)] c(3)
        by (intro arg_cong [where f = concat] map_cong refl) auto
      then show ?thesis using live_calls_step [OF k, of t w] c(6) by simp
    qed
    moreover have "n = PthreadKeysMax - (key + 1)" using Suc(2) by simp
    moreover have "elem_data ((sp(key := (sp key)\<lparr>elem_data := 0\<rparr>)) j) = 0" if "j < key + 1" "j < PthreadKeysMax" for j
      using that Suc(5) [of j] by (cases "j = key") auto
    ultimately show ?thesis using Suc(1) [of "key + 1" w1 _ ?calls, OF _ c(2,4)] c(3,5) by simp
  next
    case False
    then have z: "\<forall>j<PthreadKeysMax. elem_data (sp j) = 0" using counted_pos [OF Suc(4,3)] by blast
    have "key_value t j w = 0" for j using z Suc(3) by (simp add: key_value_def)
    then have "live_calls t key w = []" by (simp add: live_calls_def)
    moreover have "cleanup_keys quiet t key calls w = Some (calls, w)"
      by (subst cleanup_keys.simps) (simp only: False simp_thms if_False)
    ultimately show ?thesis using z Suc(3,4) by auto
  qed
qed


lemma cleanup_quiet:
  assumes sp: "specific_array w t = Some sp" and c: "counted t w"
  shows "\<exists>w'. thread_cleanupspecific quiet t w = Some (live_calls t 0 w, w') \<and> specific_array w' t = None \<and>
    ThreadKeytable w' = ThreadKeytable w \<and> counted t w' \<and>
    (\<forall>u. u \<noteq> t \<longrightarrow> specific_array w' u = specific_array w u \<and> specific_data_count w' u = specific_data_count w u)"
proof -
  obtain w1 sp1 where w1: "cleanup_keys quiet t 0 [] w = Some (live_calls t 0 w, w1)"
    "specific_array w1 t = Some sp1" "\<forall>j<PthreadKeysMax. elem_data (sp1 j) = 0" "ThreadKeytable w1 = ThreadKeytable w"
    "counted t w1" "\<forall>u. u \<noteq> t \<longrightarrow> specific_array w1 u = specific_array w u \<and> specific_data_count w1 u = specific_data_count w u"
    using cleanup_pass [OF sp c, of 0 "[]"] by auto
  have n: "\<not> specific_data_count w1 t > 0" using counted_pos [OF w1(5,2)] w1(3) by simp
  moreover have "specific_data_count w1 t = nonnull sp1" using w1(2,5) by (simp add: counted_def)
  moreover have "nonnull sp1 \<ge> 0" unfolding nonnull_def by (rule sum_nonneg) simp
  ultimately have z: "specific_data_count w1 t = 0" by simp
  have stop: "cleanup_iterations quiet t i calls w1 = Some (calls, w1)" for i calls
    by (subst cleanup_iterations.simps) (simp add: z)
  have "\<exists>w2. cleanup_iterations quiet t 0 [] w = Some (live_calls t 0 w, w2) \<and> specific_array w2 t \<noteq> None \<and>
    ThreadKeytable w2 = ThreadKeytable w \<and> specific_data_count w2 t = 0 \<and>
    (\<forall>u. u \<noteq> t \<longrightarrow> specific_array w2 u = specific_array w u \<and> specific_data_count w2 u = specific_data_count w u)"
  proof (cases "specific_data_count w t > 0")
    case True
    then have "cleanup_iterations quiet t 0 [] w = Some (live_calls t 0 w, w1)"
      by (subst cleanup_iterations.simps) (simp add: w1(1) stop)
    then show ?thesis using w1 z by simp
  next
    case False
    then have "cleanup_keys quiet t 0 [] w = Some ([], w)"
      by (subst cleanup_keys.simps) (simp only: False simp_thms if_False)
    moreover have "cleanup_iterations quiet t 0 [] w = Some ([], w)"
      by (subst cleanup_iterations.simps) (simp only: False simp_thms if_False)
    ultimately show ?thesis using w1(1) z sp by simp
  qed
  then obtain w2 where "cleanup_iterations quiet t 0 [] w = Some (live_calls t 0 w, w2)"
    "ThreadKeytable w2 = ThreadKeytable w" "specific_data_count w2 t = 0"
    "\<forall>u. u \<noteq> t \<longrightarrow> specific_array w2 u = specific_array w u \<and> specific_data_count w2 u = specific_data_count w u" by blast
  then show ?thesis using sp by (simp add: thread_cleanupspecific_def counted_def)
qed

section \<open>The code does what the specification says\<close>

lemma keys_invD:
  assumes "keys_inv n w"
  shows "0 \<le> key_seqno (ThreadKeytable w k)" "key_seqno (ThreadKeytable w k) \<le> int n"
    "specific_array w t = Some sp \<Longrightarrow> elem_seqno (sp k) \<le> key_seqno (ThreadKeytable w k)" "counted t w"
  using assms by (auto simp: keys_inv_def)

lemma keys_inv_mono: "keys_inv n w \<Longrightarrow> n \<le> m \<Longrightarrow> keys_inv m w"
  unfolding keys_inv_def by (meson of_nat_mono order_trans)

lemma find_least:
  "find P [0..<n] = (if \<exists>k<n. P k then Some (LEAST k. P k) else None)"
proof (cases "find P [0..<n]")
  case None
  then show ?thesis by (auto simp: find_None_iff)
next
  case (Some k)
  then obtain i where i: "i < n" "P i" "k = i" "\<forall>j<i. \<not> P j" by (auto simp: find_Some_iff)
  have "(LEAST k. P k) = i"
    by (rule Least_equality [of P, OF i(2)]) (use i(4) not_le in blast)
  with Some i show ?thesis by auto
qed

lemma create_refines:
  assumes inv: "keys_inv n w" and n: "n < 2147483647"
  shows "key_spec (Call (KCreate d)) (keys_abs w) = (fst (key_op (KCreate d) w), keys_abs (snd (key_op (KCreate d) w)))"
    "keys_inv (n + 1) (snd (key_op (KCreate d) w))"
proof -
  let ?P = "\<lambda>k. \<not> key_allocated (ThreadKeytable w k)"
  have main: "key_spec (Call (KCreate d)) (keys_abs w) = (fst (key_op (KCreate d) w), keys_abs (snd (key_op (KCreate d) w))) \<and>
    keys_inv (n + 1) (snd (key_op (KCreate d) w))"
  proof (cases "\<exists>k<PthreadKeysMax. ?P k")
    case False
    then have "find ?P [0..<PthreadKeysMax] = None" by (simp only: find_least if_False)
    then have "key_op (KCreate d) w = (RCreate POSIX_EAGAIN None, w)"
      by (simp add: posix_pthread_key_create_def del: upt_conv_Cons)
    moreover have "key_spec (Call (KCreate d)) (keys_abs w) = (RCreate POSIX_EAGAIN None, keys_abs w)"
      using False by (auto simp: keys_abs_def)
    ultimately show ?thesis using keys_inv_mono [OF inv] by simp
  next
    case True
    define k where "k = (LEAST k. ?P k)"
    obtain j where j: "j < PthreadKeysMax" "?P j" using True by blast
    have k: "?P k" "k < PthreadKeysMax" unfolding k_def using LeastI [of ?P, OF j(2)] Least_le [of ?P, OF j(2)] j(1) by simp_all
    have f: "find ?P [0..<PthreadKeysMax] = Some k" using True by (simp only: find_least if_True k_def)
    let ?s = "key_seqno (ThreadKeytable w k)"
    have s: "wrap32 (?s + 1) = ?s + 1" using keys_invD(1,2) [OF inv, of k] n by (intro wrap32_id) simp_all
    let ?w = "w\<lparr>ThreadKeytable := (ThreadKeytable w)(k := \<lparr>key_allocated = True, key_seqno = ?s + 1, key_destructor = d\<rparr>)\<rparr>"
    have e: "key_op (KCreate d) w = (RCreate 0 (Some (int k)), ?w)"
      by (simp add: posix_pthread_key_create_def f s del: upt_conv_Cons)
    have v: "key_value t i ?w = key_value t i w" for t i
    proof (cases "specific_array w t")
      case (Some sp)
      have "elem_seqno (sp k) \<noteq> ?s + 1" using keys_invD(3) [OF inv Some, of k] by simp
      then show ?thesis using Some k(1) by (auto simp: key_value_def)
    qed (simp add: key_value_def)
    have "keys_inv (n + 1) ?w" unfolding keys_inv_def
    proof (intro conjI allI impI)
      fix i show "0 \<le> key_seqno (ThreadKeytable ?w i)" "key_seqno (ThreadKeytable ?w i) \<le> int (n + 1)"
        using keys_invD(1,2) [OF inv, of i] keys_invD(1,2) [OF inv, of k] by auto
    next
      fix t sp i assume "specific_array ?w t = Some sp"
      then show "elem_seqno (sp i) \<le> key_seqno (ThreadKeytable ?w i)"
        using keys_invD(3) [OF inv, of t sp i] by auto
    next
      fix t show "counted t ?w" using keys_invD(4) [OF inv, of t] by (simp add: counted_def)
    qed
    moreover have "key_spec (Call (KCreate d)) (keys_abs w) = (RCreate 0 (Some (int k)), keys_abs ?w)"
      using True v by (simp add: keys_abs_def k_def [symmetric] fun_eq_iff)
    ultimately show ?thesis using e by simp
  qed
  show "key_spec (Call (KCreate d)) (keys_abs w) = (fst (key_op (KCreate d) w), keys_abs (snd (key_op (KCreate d) w)))"
    using main by blast
  show "keys_inv (n + 1) (snd (key_op (KCreate d) w))" using main by blast
qed


lemma key_fields [simp]:
  "live (keys_abs w) k = key_allocated (ThreadKeytable w k)"
  "destructor_of (keys_abs w) k = key_destructor (ThreadKeytable w k)"
  "value_at (keys_abs w) t k = key_value t k w" "has_array (keys_abs w) t = (specific_array w t \<noteq> None)"
  by (simp_all add: keys_abs_def)

lemma live_key_abs: "live_key key (keys_abs w) \<longleftrightarrow>
    key_index key < PthreadKeysMax \<and> key_allocated (ThreadKeytable w (key_index key))"
  by (simp add: live_key_def)

lemma delete_refines:
  assumes inv: "keys_inv n w"
  shows "key_spec (Call (KDelete key)) (keys_abs w) = (fst (key_op (KDelete key) w), keys_abs (snd (key_op (KDelete key) w)))"
    "keys_inv n (snd (key_op (KDelete key) w))"
proof -
  let ?k = "key_index key"
  let ?w = "w\<lparr>ThreadKeytable := (ThreadKeytable w)(?k := (ThreadKeytable w ?k)\<lparr>key_allocated := False\<rparr>)\<rparr>"
  have main: "key_spec (Call (KDelete key)) (keys_abs w) = (fst (key_op (KDelete key) w), keys_abs (snd (key_op (KDelete key) w))) \<and>
    keys_inv n (snd (key_op (KDelete key) w))"
  proof (cases "live_key key (keys_abs w)")
    case True
    then have e: "key_op (KDelete key) w = (RInt 0, ?w)" by (simp add: live_key_abs posix_pthread_key_delete_def Let_def)
    have "key_value t i ?w = (if i = ?k then 0 else key_value t i w)" for t i
      by (simp add: key_value_def split: option.split)
    then have "keys_abs ?w = (keys_abs w)\<lparr>live := (live (keys_abs w))(?k := False),
        value_at := \<lambda>t. (value_at (keys_abs w) t)(?k := 0)\<rparr>"
      by (simp add: keys_abs_def fun_eq_iff)
    moreover have "keys_inv n ?w" unfolding keys_inv_def
      using keys_invD [OF inv] by (auto simp: counted_def)
    ultimately show ?thesis using True e by simp
  next
    case False
    then have "key_op (KDelete key) w = (RInt POSIX_EINVAL, w)"
      by (auto simp: live_key_abs posix_pthread_key_delete_def Let_def)
    then show ?thesis using False inv by simp
  qed
  show "key_spec (Call (KDelete key)) (keys_abs w) = (fst (key_op (KDelete key) w), keys_abs (snd (key_op (KDelete key) w)))"
    using main by blast
  show "keys_inv n (snd (key_op (KDelete key) w))" using main by blast
qed

lemma get_refines: "key_spec (Call (KGet t key)) (keys_abs w) = (fst (key_op (KGet t key) w), keys_abs (snd (key_op (KGet t key) w)))"
  by (auto simp: live_key_abs posix_pthread_getspecific_def key_value_def Let_def split: option.split)

text \<open>The array of a thread that has none has no values.\<close>

definition empty_array :: "nat \<Rightarrow> PthreadSpecificElem" where
  "empty_array = (\<lambda>_. \<lparr>elem_data = 0, elem_seqno = 0\<rparr>)"

lemma nonnull_empty [simp]: "nonnull empty_array = 0"
  by (simp add: nonnull_def empty_array_def)

lemma key_value_cong:
  "specific_array w' u = specific_array w u \<Longrightarrow> ThreadKeytable w' = ThreadKeytable w \<Longrightarrow> key_value u i w' = key_value u i w"
  by (cases "specific_array w u") (simp_all add: key_value_def)

lemma key_value_Some:
  "specific_array w u = Some sp \<Longrightarrow> ThreadKeytable w = T \<Longrightarrow> key_value u i w =
     (if i < PthreadKeysMax \<and> key_allocated (T i) \<and> elem_seqno (sp i) = key_seqno (T i) then elem_data (sp i) else 0)"
  by (auto simp: key_value_def)

lemma keys_abs_set:
  assumes "ThreadKeytable w' = ThreadKeytable w" "\<And>u i. key_value u i w' = F u i"
    "\<And>u. specific_array w' u \<noteq> None \<longleftrightarrow> u = t \<or> specific_array w u \<noteq> None"
  shows "keys_abs w' = (keys_abs w)\<lparr>has_array := (has_array (keys_abs w))(t := True), value_at := F\<rparr>"
  using assms(1,2) assms(3) [unfolded not_None_eq] by (simp add: keys_abs_def fun_eq_iff)

lemma set_refines:
  assumes inv: "keys_inv n w"
  shows "key_spec (Call (KSet t key v ok)) (keys_abs w) = (fst (key_op (KSet t key v ok) w), keys_abs (snd (key_op (KSet t key v ok) w)))"
    "keys_inv n (snd (key_op (KSet t key v ok) w))"
proof -
  let ?k = "key_index key"
  define sp where "sp = (case specific_array w t of None \<Rightarrow> empty_array | Some sp \<Rightarrow> sp)"
  have cnt: "specific_data_count w t = nonnull sp"
    using keys_invD(4) [OF inv, of t] by (simp add: counted_def sp_def split: option.splits)
  have seq: "elem_seqno (sp i) \<le> key_seqno (ThreadKeytable w i)" for i
    using keys_invD(1,3) [OF inv] by (auto simp: sp_def empty_array_def split: option.split)
  have val: "key_value t i w = (if i < PthreadKeysMax \<and> key_allocated (ThreadKeytable w i) \<and>
      elem_seqno (sp i) = key_seqno (ThreadKeytable w i) then elem_data (sp i) else 0)" for i
    by (simp add: key_value_def sp_def empty_array_def split: option.split)
  have main: "key_spec (Call (KSet t key v ok)) (keys_abs w) = (fst (key_op (KSet t key v ok) w), keys_abs (snd (key_op (KSet t key v ok) w))) \<and>
    keys_inv n (snd (key_op (KSet t key v ok) w))"
  proof (cases "specific_array w t = None \<and> \<not> ok")
    case True
    then show ?thesis using inv by (simp add: posix_pthread_setspecific_def)
  next
    case room: False
    let ?w1 = "w\<lparr>specific_array := (specific_array w)(t \<mapsto> sp)\<rparr>"
    let ?e = "\<lparr>elem_data = v, elem_seqno = key_seqno (ThreadKeytable w ?k)\<rparr>"
    let ?n = "specific_data_count w t"
    let ?n' = "if elem_data (sp ?k) = 0 then (if v \<noteq> 0 then ?n + 1 else ?n) else if v = 0 then ?n - 1 else ?n"
    let ?w2 = "?w1\<lparr>specific_data_count := (specific_data_count w)(t := ?n'),
      specific_array := (specific_array w)(t \<mapsto> sp(?k := ?e))\<rparr>"
    have sp': "sp = (case specific_array w t of None \<Rightarrow> (\<lambda>_. \<lparr>elem_data = 0, elem_seqno = 0\<rparr>) | Some sp \<Rightarrow> sp)"
      by (simp only: sp_def empty_array_def)
    have call: "key_op (KSet t key v ok) w = (if live_key key (keys_abs w) then (RInt 0, ?w2) else (RInt POSIX_EINVAL, ?w1))"
      using room unfolding live_key_abs sp' by (simp add: posix_pthread_setspecific_def Let_def)
    show ?thesis
    proof (cases "live_key key (keys_abs w)")
      case True
      then have k: "?k < PthreadKeysMax" "key_allocated (ThreadKeytable w ?k)" by (simp_all add: live_key_abs)
      have "?n' = nonnull (sp(?k := ?e))" using nonnull_upd [OF k(1), of sp ?e] cnt by simp
      then have "keys_inv n ?w2" unfolding keys_inv_def
        using keys_invD [OF inv] seq by (auto simp: counted_def)
      moreover have "key_value u i ?w2 = (if u = t \<and> i = ?k then v else key_value u i w)" for u i
      proof (cases "u = t")
        case True
        have "key_value t i ?w2 = (if i < PthreadKeysMax \<and> key_allocated (ThreadKeytable w i) \<and>
            elem_seqno ((sp(?k := ?e)) i) = key_seqno (ThreadKeytable w i) then elem_data ((sp(?k := ?e)) i) else 0)"
          by (rule key_value_Some) (simp_all add: fun_upd_def)
        then show ?thesis using k val [of i] True by simp
      next
        case False
        then have "key_value u i ?w2 = key_value u i w" by (intro key_value_cong) simp_all
        then show ?thesis using False by simp
      qed
      then have "keys_abs ?w2 = (keys_abs w)\<lparr>has_array := (has_array (keys_abs w))(t := True),
          value_at := (value_at (keys_abs w))(t := (value_at (keys_abs w) t)(?k := v))\<rparr>"
        by (intro keys_abs_set) simp_all
      ultimately show ?thesis using True call room by (auto simp: Let_def)
    next
      case False
      have "keys_inv n ?w1" unfolding keys_inv_def
        using keys_invD [OF inv] seq cnt by (auto simp: counted_def)
      moreover have "key_value u i ?w1 = key_value u i w" for u i
      proof (cases "u = t")
        case True
        have "key_value t i ?w1 = (if i < PthreadKeysMax \<and> key_allocated (ThreadKeytable w i) \<and>
            elem_seqno (sp i) = key_seqno (ThreadKeytable w i) then elem_data (sp i) else 0)"
          by (rule key_value_Some) simp_all
        then show ?thesis using val [of i] True by simp
      next
        case False
        then show ?thesis by (intro key_value_cong) simp_all
      qed
      then have "keys_abs ?w1 = (keys_abs w)\<lparr>has_array := (has_array (keys_abs w))(t := True), value_at := value_at (keys_abs w)\<rparr>"
        by (intro keys_abs_set) simp_all
      ultimately show ?thesis using False call room by (auto simp: Let_def)
    qed
  qed
  show "key_spec (Call (KSet t key v ok)) (keys_abs w) = (fst (key_op (KSet t key v ok) w), keys_abs (snd (key_op (KSet t key v ok) w)))"
    using main by blast
  show "keys_inv n (snd (key_op (KSet t key v ok) w))" using main by blast
qed


lemma exit_refines:
  assumes inv: "keys_inv n w"
  shows "\<exists>w'. key_event (Exit t) w = Some (fst (key_spec (Exit t) (keys_abs w)), w') \<and>
    keys_abs w' = snd (key_spec (Exit t) (keys_abs w)) \<and> keys_inv n w'"
proof (cases "specific_array w t")
  case None
  then have z: "key_value t k w = 0" for k by (simp add: key_value_def)
  then have "fst (key_spec (Exit t) (keys_abs w)) = RCalls []" "keys_abs w = snd (key_spec (Exit t) (keys_abs w))"
    using None by (simp_all add: keys_abs_def fun_eq_iff)
  then show ?thesis using None inv by (simp add: thread_cleanupspecific_def)
next
  case (Some sp)
  from cleanup_quiet [OF Some keys_invD(4) [OF inv]] obtain w' where
    w': "thread_cleanupspecific quiet t w = Some (live_calls t 0 w, w')" "specific_array w' t = None"
      "ThreadKeytable w' = ThreadKeytable w" "counted t w'"
      "\<And>u. u \<noteq> t \<Longrightarrow> specific_array w' u = specific_array w u \<and> specific_data_count w' u = specific_data_count w u"
    by blast
  have "keys_inv n w'" unfolding keys_inv_def
  proof (intro conjI allI impI)
    fix k show "0 \<le> key_seqno (ThreadKeytable w' k)" "key_seqno (ThreadKeytable w' k) \<le> int n"
      using keys_invD(1,2) [OF inv, of k] w'(3) by simp_all
  next
    fix u sp k assume "specific_array w' u = Some sp"
    then show "elem_seqno (sp k) \<le> key_seqno (ThreadKeytable w' k)"
      using keys_invD(3) [OF inv, of u sp k] w'(2,3,5) by (cases "u = t") auto
  next
    fix u show "counted u w'" using keys_invD(4) [OF inv, of u] w'(4,5) by (cases "u = t") (auto simp: counted_def)
  qed
  moreover have "key_value u k w' = (if u = t then 0 else key_value u k w)" for u k
    using w'(2,3,5) key_value_cong [of w' u w k] by (cases "u = t") (simp_all add: key_value_def [of t])
  then have "keys_abs w' = snd (key_spec (Exit t) (keys_abs w))"
    using w'(2,3,5) by (simp add: keys_abs_def fun_eq_iff)
  moreover have "fst (key_spec (Exit t) (keys_abs w)) = RCalls (live_calls t 0 w)"
    by (simp add: live_calls_def del: upt_conv_Cons cong: if_cong)
  ultimately show ?thesis using w'(1) by simp
qed

lemma event_refines:
  assumes inv: "keys_inv n w" and n: "n < 2147483647"
  shows "\<exists>w'. key_event e w = Some (fst (key_spec e (keys_abs w)), w') \<and> keys_abs w' = snd (key_spec e (keys_abs w)) \<and>
    keys_inv (n + 1) w'"
proof (cases e)
  case (Exit t)
  then show ?thesis using exit_refines [OF inv] keys_inv_mono by fastforce
next
  case (Call c)
  have "key_spec (Call c) (keys_abs w) = (fst (key_op c w), keys_abs (snd (key_op c w))) \<and> keys_inv (n + 1) (snd (key_op c w))"
  proof (cases c)
    case (KCreate d)
    then show ?thesis using create_refines [OF inv n] by blast
  next
    case (KDelete key)
    have "n \<le> n + 1" by simp
    then show ?thesis using KDelete delete_refines [OF inv] keys_inv_mono by blast
  next
    case (KSet t key v ok)
    have "n \<le> n + 1" by simp
    then show ?thesis using KSet set_refines [OF inv] keys_inv_mono by blast
  next
    case (KGet t key)
    then show ?thesis using get_refines keys_inv_mono [OF inv, of "n + 1"] by simp
  qed
  moreover have "key_event (Call c) w = Some (fst (key_op c w), snd (key_op c w))" by simp
  ultimately show ?thesis using Call by (metis fst_conv snd_conv)
qed

fun run_code :: "KeyEvent list \<Rightarrow> KeyWorld \<Rightarrow> KeyResult list option" where
  "run_code [] w = Some []"
| "run_code (e # es) w = do { (r, w') \<leftarrow> key_event e w; rs \<leftarrow> run_code es w'; Some (r # rs) }"

fun run_spec :: "KeyEvent list \<Rightarrow> KeySpec \<Rightarrow> KeyResult list" where
  "run_spec [] s = []"
| "run_spec (e # es) s = (let (r, s') = key_spec e s in r # run_spec es s')"

definition key_boot :: KeyWorld where
  "key_boot = \<lparr>ThreadKeytable = (\<lambda>_. \<lparr>key_allocated = False, key_seqno = 0, key_destructor = 0\<rparr>),
     specific_array = (\<lambda>_. None), specific_data_count = (\<lambda>_. 0)\<rparr>"

definition spec_boot :: KeySpec where
  "spec_boot = \<lparr>live = (\<lambda>_. False), destructor_of = (\<lambda>_. 0), value_at = (\<lambda>_ _. 0), has_array = (\<lambda>_. False)\<rparr>"

lemma run_refines:
  assumes "keys_inv n w" "n + length es \<le> 2147483647"
  shows "run_code es w = Some (run_spec es (keys_abs w))"
  using assms
proof (induction es arbitrary: n w)
  case (Cons e es)
  obtain w' where w': "key_event e w = Some (fst (key_spec e (keys_abs w)), w')" "keys_abs w' = snd (key_spec e (keys_abs w))"
    "keys_inv (n + 1) w'"
    using event_refines [OF Cons.prems(1), of e] Cons.prems(2) by auto
  from Cons.IH [OF w'(3)] Cons.prems(2) w' show ?case by (simp add: case_prod_beta Let_def)
qed simp

text \<open>
  C14. Thread-specific data behaves as values attached to live keys: over any sequence of calls and thread
  ends, with destructors that leave the keys alone, every result is the one of the abstract keys.  In
  particular a new key has no values in any thread although the arrays keep those of a deleted key, and
  a thread that ends calls the destructor of each live key it has a value for, once and in the order of
  the keys.  The bound on the length keeps the sequence numbers from wrapping around.
\<close>

theorem keys_refine_values:
  assumes "length es \<le> 2147483647"
  shows "run_code es key_boot = Some (run_spec es spec_boot)"
proof -
  have inv: "keys_inv 0 key_boot" by (simp add: keys_inv_def key_boot_def counted_def)
  have "keys_abs key_boot = spec_boot"
    by (simp add: keys_abs_def key_boot_def spec_boot_def key_value_def)
  then show ?thesis using run_refines [OF inv, of es] assms by simp
qed

theorem keys_refine_values_witness:
  "run_code [Call (KCreate 7), Call (KSet 1 0 5 True), Call (KDelete 0), Call (KCreate 8), Call (KGet 1 0)] key_boot =
     Some (run_spec [Call (KCreate 7), Call (KSet 1 0 5 True), Call (KDelete 0), Call (KCreate 8), Call (KGet 1 0)] spec_boot)"
  by (rule keys_refine_values) simp

end
