(* ===== verification/Psf_Format.thy ===== *)
theory Psf_Format
  imports Prelude
begin

text \<open>
  The parameter files \<open>param.sfo\<close>: class \<open>PSF\<close> of \<open>src/src/core/file_format/psf.h\<close> and
  \<open>src/src/core/file_format/psf.cpp\<close>.  A file has a header, a table of raw entries, the keys and the
  values.  Reading outside the file, an exception of \<open>unordered_map::at\<close>, a failed assertion and
  \<open>UNREACHABLE\<close> have no result.  Strings are lists of bytes.
\<close>

section \<open>Data\<close>

type_synonym u8 = "8 word"

abbreviation PSF_MAGIC :: nat where "PSF_MAGIC \<equiv> 0x505346"
abbreviation PSF_VERSION_1_1 :: nat where "PSF_VERSION_1_1 \<equiv> 0x101"
abbreviation PSF_VERSION_1_0 :: nat where "PSF_VERSION_1_0 \<equiv> 0x100"

abbreviation FmtBinary :: nat where "FmtBinary \<equiv> 0x004"
abbreviation FmtText :: nat where "FmtText \<equiv> 0x204"
abbreviation FmtInteger :: nat where "FmtInteger \<equiv> 0x404"

record PSFHeader =
  psf_magic :: nat
  psf_version :: nat
  key_table_offset :: nat
  data_table_offset :: nat
  index_table_entries :: nat

record PSFRawEntry =
  key_offset :: nat
  raw_fmt :: nat
  param_len :: nat
  param_max_len :: nat
  data_offset :: nat

record PSFEntry =
  entry_key :: "u8 list"
  param_fmt :: nat
  max_len :: nat

record PSF =
  entry_list :: "PSFEntry list"
  map_binaries :: "nat \<Rightarrow> u8 list option"
  map_strings :: "nat \<Rightarrow> u8 list option"
  map_integers :: "nat \<Rightarrow> s32 option"

text \<open>The bytes of a number, the lowest first.\<close>

fun to_le :: "nat \<Rightarrow> nat \<Rightarrow> u8 list" where
  "to_le 0 v = []"
| "to_le (Suc k) v = word_of_nat (v mod 256) # to_le k (v div 256)"

fun of_le :: "u8 list \<Rightarrow> nat" where
  "of_le [] = 0"
| "of_le (b # bs) = unat b + 256 * of_le bs"

text \<open>
  The structures in memory.  The magic number is stored with the highest byte first; of \<open>param_fmt\<close> the
  code reads and writes the raw value, which makes it a little-endian field.
\<close>

definition header_bytes :: "PSFHeader \<Rightarrow> u8 list" where
  "header_bytes h = rev (to_le 4 (psf_magic h)) @ to_le 4 (psf_version h) @ to_le 4 (key_table_offset h) @
     to_le 4 (data_table_offset h) @ to_le 4 (index_table_entries h)"

definition raw_entry_bytes :: "PSFRawEntry \<Rightarrow> u8 list" where
  "raw_entry_bytes r = to_le 2 (key_offset r) @ to_le 2 (raw_fmt r) @ to_le 4 (param_len r) @
     to_le 4 (param_max_len r) @ to_le 4 (data_offset r)"

definition read_bytes :: "u8 list \<Rightarrow> nat \<Rightarrow> nat \<Rightarrow> u8 list option" where
  "read_bytes buf off n = (if off + n \<le> length buf then Some (take n (drop off buf)) else None)"

text \<open>A string that ends with a null byte.\<close>

definition read_cstr :: "u8 list \<Rightarrow> nat \<Rightarrow> u8 list option" where
  "read_cstr buf off = (if 0 \<in> set (drop off buf) then Some (takeWhile (\<lambda>b. b \<noteq> 0) (drop off buf)) else None)"

definition read_header :: "u8 list \<Rightarrow> PSFHeader option" where
  "read_header buf = map_option (\<lambda>bs.
     \<lparr>psf_magic = of_le (rev (take 4 bs)), psf_version = of_le (take 4 (drop 4 bs)),
      key_table_offset = of_le (take 4 (drop 8 bs)), data_table_offset = of_le (take 4 (drop 12 bs)),
      index_table_entries = of_le (take 4 (drop 16 bs))\<rparr>) (read_bytes buf 0 20)"

definition read_raw_entry :: "u8 list \<Rightarrow> nat \<Rightarrow> PSFRawEntry option" where
  "read_raw_entry buf off = map_option (\<lambda>bs.
     \<lparr>key_offset = of_le (take 2 bs), raw_fmt = of_le (take 2 (drop 2 bs)), param_len = of_le (take 4 (drop 4 bs)),
      param_max_len = of_le (take 4 (drop 8 bs)), data_offset = of_le (take 4 (drop 12 bs))\<rparr>) (read_bytes buf off 16)"

section \<open>Reading\<close>

definition empty_psf :: PSF where
  "empty_psf = \<lparr>entry_list = [], map_binaries = (\<lambda>_. None), map_strings = (\<lambda>_. None), map_integers = (\<lambda>_. None)\<rparr>"

definition open_entry :: "PSFHeader \<Rightarrow> u8 list \<Rightarrow> nat \<Rightarrow> PSF \<Rightarrow> PSF option" where
  "open_entry header psf_data i p = do {
     raw \<leftarrow> read_raw_entry psf_data (20 + i * 16);
     key \<leftarrow> read_cstr psf_data (key_table_offset header + key_offset raw);
     let p1 = p\<lparr>entry_list := entry_list p @ [\<lparr>entry_key = key, param_fmt = raw_fmt raw, max_len = param_max_len raw\<rparr>]\<rparr>;
     let data = data_table_offset header + data_offset raw;
     (if raw_fmt raw = FmtBinary then do {
        value \<leftarrow> read_bytes psf_data data (param_len raw);
        Some (p1\<lparr>map_binaries := (map_binaries p1)(i \<mapsto> value)\<rparr>) }
      else if raw_fmt raw = FmtText then do {
        value \<leftarrow> read_cstr psf_data data;
        Some (p1\<lparr>map_strings := (map_strings p1)(i \<mapsto> value)\<rparr>) }
      else if raw_fmt raw = FmtInteger then do {
        ASSERT (param_len raw = 4);
        value \<leftarrow> read_bytes psf_data data 4;
        Some (p1\<lparr>map_integers := (map_integers p1)(i \<mapsto> wrap32 (int (of_le value)))\<rparr>) }
      else None) }"

fun open_entries :: "PSFHeader \<Rightarrow> u8 list \<Rightarrow> nat \<Rightarrow> nat \<Rightarrow> PSF \<Rightarrow> PSF option" where
  "open_entries header psf_data i 0 p = Some p"
| "open_entries header psf_data i (Suc n) p = do {
     p1 \<leftarrow> open_entry header psf_data i p;
     open_entries header psf_data (i + 1) n p1 }"

definition PSF_Open :: "u8 list \<Rightarrow> PSF \<Rightarrow> (bool \<times> PSF) option" where
  "PSF_Open psf_buffer p = do {
     header \<leftarrow> read_header psf_buffer;
     (if psf_magic header \<noteq> PSF_MAGIC then Some (False, empty_psf)
      else if psf_version header \<noteq> PSF_VERSION_1_1 \<and> psf_version header \<noteq> PSF_VERSION_1_0 then Some (False, empty_psf)
      else do {
        p1 \<leftarrow> open_entries header psf_buffer 0 (index_table_entries header) empty_psf;
        Some (True, p1) }) }"

section \<open>Writing\<close>

text \<open>
  The buffer while it is written: the header and the raw entries, which the code reaches through casts of
  its start, and the bytes after them.
\<close>

record PsfBuffer =
  buf_header :: PSFHeader
  buf_entries :: "PSFRawEntry list"
  buf_rest :: "u8 list"

definition buf_size :: "PsfBuffer \<Rightarrow> nat" where
  "buf_size b = 20 + 16 * length (buf_entries b) + length (buf_rest b)"

definition buf_bytes :: "PsfBuffer \<Rightarrow> u8 list" where
  "buf_bytes b = header_bytes (buf_header b) @ concat (map raw_entry_bytes (buf_entries b)) @ buf_rest b"

definition append_bytes :: "u8 list \<Rightarrow> PsfBuffer \<Rightarrow> PsfBuffer" where
  "append_bytes bs b = b\<lparr>buf_rest := buf_rest b @ bs\<rparr>"

definition upd_raw :: "nat \<Rightarrow> (PSFRawEntry \<Rightarrow> PSFRawEntry) \<Rightarrow> PsfBuffer \<Rightarrow> PsfBuffer" where
  "upd_raw i f b = b\<lparr>buf_entries := (buf_entries b)[i := f (buf_entries b ! i)]\<rparr>"

fun encode_keys :: "nat \<Rightarrow> nat \<Rightarrow> PSFEntry list \<Rightarrow> PsfBuffer \<Rightarrow> PsfBuffer" where
  "encode_keys kto i [] b = b"
| "encode_keys kto i (e # es) b =
     encode_keys kto (i + 1) es (append_bytes (entry_key e @ [0])
       (upd_raw i (\<lambda>r. r\<lparr>key_offset := (buf_size b - kto) mod 65536, raw_fmt := param_fmt e,
                         param_max_len := max_len e\<rparr>) b))"

text \<open>The bytes of a value and its length.\<close>

definition value_bytes :: "PSF \<Rightarrow> nat \<Rightarrow> PSFEntry \<Rightarrow> u8 list option" where
  "value_bytes p i e =
     (if param_fmt e = FmtBinary then map_binaries p i
      else if param_fmt e = FmtText then map_option (\<lambda>v. v @ [0]) (map_strings p i)
      else if param_fmt e = FmtInteger then map_option (\<lambda>v. to_le 4 (nat (v mod 4294967296))) (map_integers p i)
      else None)"

definition encode_entry :: "PSF \<Rightarrow> nat \<Rightarrow> nat \<Rightarrow> PSFEntry \<Rightarrow> PsfBuffer \<Rightarrow> PsfBuffer option" where
  "encode_entry p dto i e b = do {
     let b1 = (if buf_size b mod 4 \<noteq> 0 then append_bytes (replicate (4 - buf_size b mod 4) 0) b else b);
     let b2 = upd_raw i (\<lambda>r. r\<lparr>data_offset := (buf_size b1 - dto) mod 4294967296\<rparr>) b1;
     value \<leftarrow> value_bytes p i e;
     let len = length value mod 4294967296;
     padding \<leftarrow> s32_of (wrap32 (int (param_max_len (buf_entries b2 ! i))) - wrap32 (int len));
     ASSERT (padding \<ge> 0);
     Some (append_bytes (value @ replicate (nat padding) 0) (upd_raw i (\<lambda>r. r\<lparr>param_len := len\<rparr>) b2)) }"

fun encode_data :: "PSF \<Rightarrow> nat \<Rightarrow> nat \<Rightarrow> PSFEntry list \<Rightarrow> PsfBuffer \<Rightarrow> PsfBuffer option" where
  "encode_data p dto i [] b = Some b"
| "encode_data p dto i (e # es) b = do { b1 \<leftarrow> encode_entry p dto i e b; encode_data p dto (i + 1) es b1 }"

definition zero_raw :: PSFRawEntry where
  "zero_raw = \<lparr>key_offset = 0, raw_fmt = 0, param_len = 0, param_max_len = 0, data_offset = 0\<rparr>"

definition PSF_Encode :: "PSF \<Rightarrow> u8 list option" where
  "PSF_Encode p = do {
     let n = length (entry_list p);
     let b0 = \<lparr>buf_header = \<lparr>psf_magic = PSF_MAGIC, psf_version = PSF_VERSION_1_1, key_table_offset = 0,
                              data_table_offset = 0, index_table_entries = n mod 4294967296\<rparr>,
               buf_entries = replicate n zero_raw, buf_rest = []\<rparr>;
     let kto = buf_size b0;
     let b1 = encode_keys kto 0 (entry_list p)
                (b0\<lparr>buf_header := (buf_header b0)\<lparr>key_table_offset := kto mod 4294967296\<rparr>\<rparr>);
     let dto = buf_size b1;
     b2 \<leftarrow> encode_data p dto 0 (entry_list p)
             (b1\<lparr>buf_header := (buf_header b1)\<lparr>data_table_offset := dto mod 4294967296\<rparr>\<rparr>);
     Some (buf_bytes b2) }"

section \<open>Looking up and adding\<close>

definition bytes_of :: "string \<Rightarrow> u8 list" where
  "bytes_of s = map (\<lambda>c. word_of_nat (of_char c)) s"

definition psf_known_max_sizes :: "(u8 list \<times> nat) list" where
  "psf_known_max_sizes = map (\<lambda>(k, n). (bytes_of k, n))
     [(''ACCOUNT_ID'', 8), (''CATEGORY'', 4), (''DETAIL'', 1024), (''FORMAT'', 4), (''MAINTITLE'', 128),
      (''PARAMS'', 1024), (''SAVEDATA_BLOCKS'', 8), (''SAVEDATA_DIRECTORY'', 32), (''SUBTITLE'', 128),
      (''TITLE_ID'', 12)]"

definition get_max_size :: "u8 list \<Rightarrow> nat \<Rightarrow> nat" where
  "get_max_size key default_value =
     (case map_of psf_known_max_sizes key of Some n \<Rightarrow> n | None \<Rightarrow> default_value mod 4294967296)"

definition FindEntry :: "u8 list \<Rightarrow> PSF \<Rightarrow> nat option" where
  "FindEntry key p = find (\<lambda>i. entry_key (entry_list p ! i) = key) [0..<length (entry_list p)]"

text \<open>The three getters; \<open>Some None\<close> is the empty optional.\<close>

definition psf_get ::
  "nat \<Rightarrow> (PSF \<Rightarrow> nat \<Rightarrow> 'v option) \<Rightarrow> u8 list \<Rightarrow> PSF \<Rightarrow> 'v option option" where
  "psf_get fmt m key p = (case FindEntry key p of
     None \<Rightarrow> Some None
   | Some i \<Rightarrow> do { ASSERT (param_fmt (entry_list p ! i) = fmt); v \<leftarrow> m p i; Some (Some v) })"

definition GetBinary :: "u8 list \<Rightarrow> PSF \<Rightarrow> u8 list option option" where
  "GetBinary = psf_get FmtBinary map_binaries"

definition GetString :: "u8 list \<Rightarrow> PSF \<Rightarrow> u8 list option option" where
  "GetString = psf_get FmtText map_strings"

definition GetInteger :: "u8 list \<Rightarrow> PSF \<Rightarrow> s32 option option" where
  "GetInteger = psf_get FmtInteger map_integers"

text \<open>
  What the three ways to add share: a key that exists is left alone or updated, else an entry is made.
  \<open>exists i\<close> tells whether the map has the index, which \<open>at\<close> needs, and \<open>store i\<close> puts the value there.
\<close>

definition psf_add ::
  "nat \<Rightarrow> nat \<Rightarrow> (PSF \<Rightarrow> nat \<Rightarrow> bool) \<Rightarrow> (nat \<Rightarrow> PSF \<Rightarrow> PSF) \<Rightarrow> u8 list \<Rightarrow> bool \<Rightarrow> PSF \<Rightarrow> PSF option" where
  "psf_add fmt sz exists store key update p = (case FindEntry key p of
     Some i \<Rightarrow>
       if \<not> update then Some p
       else do {
         ASSERT (param_fmt (entry_list p ! i) = fmt);
         ASSERT (exists p i);
         Some (store i (p\<lparr>entry_list := (entry_list p)[i := (entry_list p ! i)\<lparr>max_len := sz\<rparr>]\<rparr>)) }
   | None \<Rightarrow> Some (store (length (entry_list p))
       (p\<lparr>entry_list := entry_list p @ [\<lparr>entry_key = key, param_fmt = fmt, max_len = sz\<rparr>]\<rparr>)))"

definition AddBinary :: "u8 list \<Rightarrow> u8 list \<Rightarrow> bool \<Rightarrow> PSF \<Rightarrow> PSF option" where
  "AddBinary key value = psf_add FmtBinary (get_max_size key (length value)) (\<lambda>p i. map_binaries p i \<noteq> None)
     (\<lambda>i p. p\<lparr>map_binaries := (map_binaries p)(i \<mapsto> value)\<rparr>) key"

definition AddBinary64 :: "u8 list \<Rightarrow> nat \<Rightarrow> bool \<Rightarrow> PSF \<Rightarrow> PSF option" where
  "AddBinary64 key value = AddBinary key (to_le 8 value)"

definition AddString :: "u8 list \<Rightarrow> u8 list \<Rightarrow> bool \<Rightarrow> PSF \<Rightarrow> PSF option" where
  "AddString key value = psf_add FmtText (get_max_size key (length value + 1)) (\<lambda>p i. map_strings p i \<noteq> None)
     (\<lambda>i p. p\<lparr>map_strings := (map_strings p)(i \<mapsto> value)\<rparr>) key"

definition AddInteger :: "u8 list \<Rightarrow> s32 \<Rightarrow> bool \<Rightarrow> PSF \<Rightarrow> PSF option" where
  "AddInteger key value = psf_add FmtInteger 4 (\<lambda>p i. map_integers p i \<noteq> None)
     (\<lambda>i p. p\<lparr>map_integers := (map_integers p)(i \<mapsto> value)\<rparr>) key"

section \<open>Bytes in a buffer\<close>

lemma length_to_le [simp]: "length (to_le k v) = k"
  by (induction k arbitrary: v) auto

lemma of_le_to_le: "v < 256 ^ k \<Longrightarrow> of_le (to_le k v) = v"
proof (induction k arbitrary: v)
  case (Suc k)
  have "v div 256 < 256 ^ k" using Suc.prems by (simp add: less_mult_imp_div_less mult.commute)
  moreover have "unat (word_of_nat (v mod 256) :: u8) = v mod 256" by (simp add: unat_of_nat)
  ultimately show ?case using Suc.IH by simp
qed simp

definition sits :: "u8 list \<Rightarrow> nat \<Rightarrow> u8 list \<Rightarrow> bool" where
  "sits buf off bs \<longleftrightarrow> (\<exists>xs ys. buf = xs @ bs @ ys \<and> length xs = off)"

lemma sits_length: "sits buf off bs \<Longrightarrow> off + length bs \<le> length buf"
  by (auto simp: sits_def)

lemma sits_append: "sits buf off bs \<Longrightarrow> sits (buf @ zs) off bs"
  unfolding sits_def by (metis append.assoc)

lemma sits_prepend: "sits buf off bs \<Longrightarrow> sits (zs @ buf) (length zs + off) bs"
  unfolding sits_def by (metis append.assoc length_append)

lemma sits_prefix: "sits buf off (as @ bs) \<Longrightarrow> sits buf off as"
  unfolding sits_def by (metis append.assoc)

lemma sits_end: "sits (buf @ bs) (length buf) bs"
  unfolding sits_def by (metis append.right_neutral)

lemma read_bytes_sits: "sits buf off bs \<Longrightarrow> read_bytes buf off (length bs) = Some bs"
  by (auto simp: sits_def read_bytes_def)

lemma read_cstr_sits:
  assumes "sits buf off (s @ [0])" "0 \<notin> set s"
  shows "read_cstr buf off = Some s"
proof -
  obtain xs ys where b: "buf = xs @ (s @ [0]) @ ys" "length xs = off" using assms(1) by (auto simp: sits_def)
  have "takeWhile (\<lambda>b. b \<noteq> 0) (s @ [0] @ ys) = s"
    using assms(2) by (subst takeWhile_append2) auto
  then show ?thesis using b by (simp add: read_cstr_def)
qed

lemma sits_concat:
  assumes "i < length rs" "\<And>r. r \<in> set rs \<Longrightarrow> length (f r) = k"
  shows "sits (concat (map f rs)) (k * i) (f (rs ! i))"
proof -
  have "rs = take i rs @ rs ! i # drop (Suc i) rs" by (rule id_take_nth_drop [OF assms(1)])
  then have "concat (map f rs) = concat (map f (take i rs)) @ f (rs ! i) @ concat (map f (drop (Suc i) rs))"
    by (metis concat.simps(2) concat_append list.simps(9) map_append)
  moreover have "length (concat (map f (take i rs))) = k * i"
  proof -
    have "\<forall>r\<in>set (take i rs). length (f r) = k" using assms(2) by (auto dest: in_set_takeD)
    then have "map (\<lambda>r. length (f r)) (take i rs) = replicate (length (take i rs)) k"
      by (intro replicate_eqI) auto
    then show ?thesis using assms(1) by (simp add: length_concat o_def sum_list_replicate)
  qed
  ultimately show ?thesis unfolding sits_def by blast
qed

definition raw_fits :: "PSFRawEntry \<Rightarrow> bool" where
  "raw_fits r \<longleftrightarrow> key_offset r < 65536 \<and> raw_fmt r < 65536 \<and> param_len r < 4294967296 \<and>
     param_max_len r < 4294967296 \<and> data_offset r < 4294967296"

lemma length_raw_entry_bytes [simp]: "length (raw_entry_bytes r) = 16"
  by (simp add: raw_entry_bytes_def)

lemma length_header_bytes [simp]: "length (header_bytes h) = 20"
  by (simp add: header_bytes_def)

lemma read_raw_entry_sits:
  assumes "sits buf off (raw_entry_bytes r)" "raw_fits r"
  shows "read_raw_entry buf off = Some r"
  using read_bytes_sits [OF assms(1)] assms(2)
  by (simp add: read_raw_entry_def raw_entry_bytes_def raw_fits_def of_le_to_le)

lemma read_header_first:
  assumes "psf_magic h < 4294967296" "psf_version h < 4294967296" "key_table_offset h < 4294967296"
    "data_table_offset h < 4294967296" "index_table_entries h < 4294967296"
  shows "read_header (header_bytes h @ rest) = Some h"
proof -
  have "sits (header_bytes h @ rest) 0 (header_bytes h)" unfolding sits_def by fastforce
  from read_bytes_sits [OF this] show ?thesis using assms
    by (simp add: read_header_def header_bytes_def of_le_to_le)
qed

section \<open>What is written\<close>

lemma buf_simps [simp]:
  "buf_header (append_bytes bs b) = buf_header b" "buf_entries (append_bytes bs b) = buf_entries b"
  "buf_rest (append_bytes bs b) = buf_rest b @ bs" "buf_header (upd_raw i f b) = buf_header b"
  "buf_entries (upd_raw i f b) = (buf_entries b)[i := f (buf_entries b ! i)]" "buf_rest (upd_raw i f b) = buf_rest b"
  by (simp_all add: append_bytes_def upd_raw_def)

text \<open>The raw entry \<open>r\<close> has the key of \<open>e\<close>, which is at its offset in the bytes after the raw entries.\<close>

definition key_written :: "PSFEntry \<Rightarrow> PSFRawEntry \<Rightarrow> u8 list \<Rightarrow> bool" where
  "key_written e r rest \<longleftrightarrow> (\<exists>off. sits rest off (entry_key e @ [0]) \<and> key_offset r = off mod 65536 \<and>
     raw_fmt r = param_fmt e \<and> param_max_len r = max_len e)"

lemma key_written_append: "key_written e r rest \<Longrightarrow> key_written e r (rest @ zs)"
  unfolding key_written_def using sits_append by blast

lemma encode_keys_writes:
  assumes "i + length es = length (buf_entries b)"
  shows "let b' = encode_keys (20 + 16 * length (buf_entries b)) i es b
    in buf_header b' = buf_header b \<and> length (buf_entries b') = length (buf_entries b) \<and>
       buf_rest b' = buf_rest b @ concat (map (\<lambda>e. entry_key e @ [0]) es) \<and>
       (\<forall>j<i. buf_entries b' ! j = buf_entries b ! j) \<and>
       (\<forall>j<length es. key_written (es ! j) (buf_entries b' ! (i + j)) (buf_rest b'))"
  using assms
proof (induction es arbitrary: i b)
  case (Cons e es)
  let ?n = "length (buf_entries b)"
  define b1 where "b1 = append_bytes (entry_key e @ [0])
       (upd_raw i (\<lambda>r. r\<lparr>key_offset := (buf_size b - (20 + 16 * ?n)) mod 65536, raw_fmt := param_fmt e,
                         param_max_len := max_len e\<rparr>) b)"
  have b1: "buf_header b1 = buf_header b" "length (buf_entries b1) = ?n" "buf_rest b1 = buf_rest b @ entry_key e @ [0]"
    "buf_entries b1 = (buf_entries b)[i := (buf_entries b ! i)\<lparr>key_offset := length (buf_rest b) mod 65536,
       raw_fmt := param_fmt e, param_max_len := max_len e\<rparr>]"
    by (simp_all add: b1_def buf_size_def)
  have i: "i < ?n" "(i + 1) + length es = length (buf_entries b1)" using Cons.prems b1(2) by simp_all
  define b' where "b' = encode_keys (20 + 16 * ?n) (i + 1) es b1"
  note IH0 = Cons.IH [OF i(2), unfolded Let_def b1(2), folded b'_def]
  then have IH: "buf_header b' = buf_header b1" "length (buf_entries b') = ?n"
    "buf_rest b' = buf_rest b1 @ concat (map (\<lambda>e. entry_key e @ [0]) es)"
    "\<forall>j<i + 1. buf_entries b' ! j = buf_entries b1 ! j"
    "\<forall>j<length es. key_written (es ! j) (buf_entries b' ! (i + 1 + j)) (buf_rest b')"
    by blast+
  have e: "encode_keys (20 + 16 * ?n) i (e # es) b = b'" by (simp add: b'_def b1_def)
  have "key_written e (buf_entries b1 ! i) (buf_rest b1)"
    unfolding key_written_def using sits_end [of "buf_rest b" "entry_key e @ [0]"] i(1) by (auto simp: b1)
  then have first: "key_written e (buf_entries b' ! i) (buf_rest b')"
    using IH(3,4) key_written_append by simp
  have "key_written ((e # es) ! j) (buf_entries b' ! (i + j)) (buf_rest b')" if "j < length (e # es)" for j
    using that first IH(5) by (cases j) auto
  moreover have "buf_entries b' ! j = buf_entries b ! j" if "j < i" for j
    using that IH(4) b1(4) by simp
  ultimately show ?case unfolding e Let_def using IH(1-3) b1(1,3) by simp
qed simp

text \<open>The raw entry has the value \<open>v\<close>, which is at its offset from the start of the values.\<close>

definition value_written :: "nat \<Rightarrow> u8 list \<Rightarrow> PSFRawEntry \<Rightarrow> u8 list \<Rightarrow> bool" where
  "value_written start v r rest \<longleftrightarrow>
     (\<exists>off. sits rest (start + off) v \<and> data_offset r = off mod 4294967296 \<and> param_len r = length v)"

lemma value_written_append: "value_written start v r rest \<Longrightarrow> value_written start v r (rest @ zs)"
  unfolding value_written_def using sits_append by blast

definition value_fits :: "PSF \<Rightarrow> nat \<Rightarrow> PSFEntry \<Rightarrow> bool" where
  "value_fits p i e \<longleftrightarrow> (\<exists>v. value_bytes p i e = Some v \<and> length v \<le> max_len e) \<and> max_len e < 2147483648"

text \<open>The fields that the second loop keeps.\<close>

definition same_key :: "PSFRawEntry \<Rightarrow> PSFRawEntry \<Rightarrow> bool" where
  "same_key r r' \<longleftrightarrow> key_offset r' = key_offset r \<and> raw_fmt r' = raw_fmt r \<and> param_max_len r' = param_max_len r"

lemma encode_entry_writes:
  assumes fit: "value_fits p i e" and i: "i < length (buf_entries b)" and ml: "param_max_len (buf_entries b ! i) = max_len e"
  obtains b' v where "encode_entry p (20 + 16 * length (buf_entries b) + start) i e b = Some b'"
    "value_bytes p i e = Some v" "buf_header b' = buf_header b" "length (buf_entries b') = length (buf_entries b)"
    "\<exists>more. buf_rest b' = buf_rest b @ more \<and> length more \<le> 3 + max_len e"
    "\<And>j. j \<noteq> i \<Longrightarrow> buf_entries b' ! j = buf_entries b ! j" "same_key (buf_entries b ! i) (buf_entries b' ! i)"
    "start \<le> length (buf_rest b) \<Longrightarrow> value_written start v (buf_entries b' ! i) (buf_rest b')"
proof -
  obtain v where v: "value_bytes p i e = Some v" "length v \<le> max_len e" "max_len e < 2147483648"
    using fit by (auto simp: value_fits_def)
  let ?n = "length (buf_entries b)"
  define pad where "pad = (if buf_size b mod 4 \<noteq> 0 then replicate (4 - buf_size b mod 4) (0 :: u8) else [])"
  have pad: "length pad \<le> 3" by (auto simp: pad_def)
  define b1 where "b1 = append_bytes pad b"
  have b1: "(if buf_size b mod 4 \<noteq> 0 then append_bytes (replicate (4 - buf_size b mod 4) 0) b else b) = b1"
    by (simp add: b1_def pad_def append_bytes_def)
  define b2 where "b2 = upd_raw i (\<lambda>r. r\<lparr>data_offset := (buf_size b1 - (20 + 16 * ?n + start)) mod 4294967296\<rparr>) b1"
  let ?zs = "replicate (max_len e - length v) (0 :: u8)"
  define b' where "b' = append_bytes (v @ ?zs) (upd_raw i (\<lambda>r. r\<lparr>param_len := length v\<rparr>) b2)"
  have lv: "length v mod 4294967296 = length v" using v(2,3) by simp
  have lb: "i < length (buf_entries b1)" and e1: "param_max_len (buf_entries b1 ! i) = max_len e"
    using i ml by (simp_all add: b1_def)
  have "wrap32 (int (max_len e)) = int (max_len e)" "wrap32 (int (length v)) = int (length v)"
    using v(2,3) by (simp_all add: wrap32_id)
  then have pd: "s32_of (wrap32 (int (max_len e)) - wrap32 (int (length v))) = Some (int (max_len e) - int (length v))"
    using v(2,3) by (simp add: s32_of_def)
  have n: "nat (int (max_len e) - int (length v)) = max_len e - length v" by simp
  have enc: "encode_entry p (20 + 16 * ?n + start) i e b = Some b'"
    unfolding encode_entry_def b1 by (simp add: Let_def b2_def [symmetric] v(1) lv lb e1 pd n b'_def v(2))
  have off: "buf_size b1 - (20 + 16 * ?n + start) = length (buf_rest b @ pad) - start"
    by (simp add: b1_def buf_size_def)
  have ent: "buf_entries b' ! i = (buf_entries b ! i)\<lparr>data_offset := (length (buf_rest b @ pad) - start) mod 4294967296,
      param_len := length v\<rparr>"
    using i unfolding b'_def b2_def off by (simp add: b1_def)
  have rest: "buf_rest b' = buf_rest b @ (pad @ v @ ?zs)" by (simp add: b'_def b2_def b1_def)
  show thesis
  proof (rule that [OF enc v(1)])
    show "buf_header b' = buf_header b" "length (buf_entries b') = ?n" by (simp_all add: b'_def b2_def b1_def)
    have "length (pad @ v @ ?zs) \<le> 3 + max_len e" using pad v(2) by simp
    then show "\<exists>more. buf_rest b' = buf_rest b @ more \<and> length more \<le> 3 + max_len e" using rest by blast
    show "buf_entries b' ! j = buf_entries b ! j" if "j \<noteq> i" for j using that by (simp add: b'_def b2_def b1_def)
    show "same_key (buf_entries b ! i) (buf_entries b' ! i)" by (simp add: ent same_key_def)
    assume s: "start \<le> length (buf_rest b)"
    have "sits ((buf_rest b @ pad) @ v) (length (buf_rest b @ pad)) v" by (rule sits_end)
    from sits_append [OF this, of ?zs] have "sits (buf_rest b') (start + (length (buf_rest b @ pad) - start)) v"
      using s by (simp add: rest)
    then show "value_written start v (buf_entries b' ! i) (buf_rest b')"
      unfolding value_written_def ent by auto
  qed
qed

lemma encode_data_writes:
  assumes "i + length es = length (buf_entries b)" "start \<le> length (buf_rest b)"
    "\<And>j. j < length es \<Longrightarrow> value_fits p (i + j) (es ! j) \<and> param_max_len (buf_entries b ! (i + j)) = max_len (es ! j)"
  shows "\<exists>b'. encode_data p (20 + 16 * length (buf_entries b) + start) i es b = Some b' \<and>
       buf_header b' = buf_header b \<and> length (buf_entries b') = length (buf_entries b) \<and>
       (\<exists>more. buf_rest b' = buf_rest b @ more \<and> length more \<le> (\<Sum>e\<leftarrow>es. 3 + max_len e)) \<and>
       (\<forall>j<i. buf_entries b' ! j = buf_entries b ! j) \<and>
       (\<forall>j<length es. same_key (buf_entries b ! (i + j)) (buf_entries b' ! (i + j)) \<and>
          (\<exists>v. value_bytes p (i + j) (es ! j) = Some v \<and> value_written start v (buf_entries b' ! (i + j)) (buf_rest b')))"
  using assms
proof (induction es arbitrary: i b)
  case (Cons e es)
  have i: "i < length (buf_entries b)" using Cons.prems(1) by simp
  have fit0: "value_fits p i e" and ml0: "param_max_len (buf_entries b ! i) = max_len e"
    using Cons.prems(3) [of 0] by simp_all
  obtain b1 v where 1: "encode_entry p (20 + 16 * length (buf_entries b) + start) i e b = Some b1"
    "value_bytes p i e = Some v" "buf_header b1 = buf_header b" "length (buf_entries b1) = length (buf_entries b)"
    "\<exists>more. buf_rest b1 = buf_rest b @ more \<and> length more \<le> 3 + max_len e"
    "\<And>j. j \<noteq> i \<Longrightarrow> buf_entries b1 ! j = buf_entries b ! j" "same_key (buf_entries b ! i) (buf_entries b1 ! i)"
    "start \<le> length (buf_rest b) \<Longrightarrow> value_written start v (buf_entries b1 ! i) (buf_rest b1)"
    by (rule encode_entry_writes [OF fit0 i ml0, of start]) (rule that; assumption)
  obtain m1 where m1: "buf_rest b1 = buf_rest b @ m1" "length m1 \<le> 3 + max_len e" using 1(5) by blast
  have fit: "value_fits p (i + 1 + j) (es ! j) \<and> param_max_len (buf_entries b1 ! (i + 1 + j)) = max_len (es ! j)"
    if "j < length es" for j
    using Cons.prems(3) [of "j + 1"] that 1(6) by simp
  have len1: "i + 1 + length es = length (buf_entries b1)" using Cons.prems(1) 1(4) by simp
  have st1: "start \<le> length (buf_rest b1)" using Cons.prems(2) m1(1) by simp
  from Cons.IH [OF len1 st1 fit] obtain b' where IH:
    "encode_data p (20 + 16 * length (buf_entries b) + start) (i + 1) es b1 = Some b'"
    "buf_header b' = buf_header b1" "length (buf_entries b') = length (buf_entries b)"
    "\<exists>more. buf_rest b' = buf_rest b1 @ more \<and> length more \<le> (\<Sum>e\<leftarrow>es. 3 + max_len e)"
    "\<forall>j<i + 1. buf_entries b' ! j = buf_entries b1 ! j"
    "\<forall>j<length es. same_key (buf_entries b1 ! (i + 1 + j)) (buf_entries b' ! (i + 1 + j)) \<and>
        (\<exists>v. value_bytes p (i + 1 + j) (es ! j) = Some v \<and> value_written start v (buf_entries b' ! (i + 1 + j)) (buf_rest b'))"
    unfolding 1(4) by blast
  obtain m2 where m2: "buf_rest b' = buf_rest b1 @ m2" "length m2 \<le> (\<Sum>e\<leftarrow>es. 3 + max_len e)" using IH(4) by blast
  show ?case
  proof (intro exI [of _ b'] conjI allI impI)
    show "encode_data p (20 + 16 * length (buf_entries b) + start) i (e # es) b = Some b'" using 1(1) IH(1) by simp
    show "buf_header b' = buf_header b" "length (buf_entries b') = length (buf_entries b)" using IH(2,3) 1(3) by simp_all
    have "buf_rest b' = buf_rest b @ (m1 @ m2)" "length (m1 @ m2) \<le> (\<Sum>e\<leftarrow>e # es. 3 + max_len e)"
      using m1 m2 by simp_all
    then show "\<exists>more. buf_rest b' = buf_rest b @ more \<and> length more \<le> (\<Sum>e\<leftarrow>e # es. 3 + max_len e)" by blast
    show "buf_entries b' ! j = buf_entries b ! j" if "j < i" for j using IH(5) 1(6) that by simp
    fix j assume j: "j < length (e # es)"
    have first: "value_written start v (buf_entries b' ! i) (buf_rest b')"
      using 1(8) [OF Cons.prems(2)] value_written_append IH(5) m2(1) by simp
    show "same_key (buf_entries b ! (i + j)) (buf_entries b' ! (i + j))"
      using j 1(7) IH(5) IH(6) 1(6) by (cases j) auto
    show "\<exists>v. value_bytes p (i + j) ((e # es) ! j) = Some v \<and> value_written start v (buf_entries b' ! (i + j)) (buf_rest b')"
      using j first 1(2) IH(6) by (cases j) auto
  qed
qed simp

section \<open>Reading what was written\<close>

text \<open>
  What a file can hold: keys and texts without null bytes, values that fit their maximum, and in each of
  the maps the indices of the entries with its format.
\<close>

definition psf_ok :: "PSF \<Rightarrow> bool" where
  "psf_ok p \<longleftrightarrow>
     (\<forall>i<length (entry_list p). 0 \<notin> set (entry_key (entry_list p ! i)) \<and>
        param_fmt (entry_list p ! i) \<in> {FmtBinary, FmtText, FmtInteger} \<and> value_fits p i (entry_list p ! i)) \<and>
     (\<forall>i. map_binaries p i \<noteq> None \<longleftrightarrow> i < length (entry_list p) \<and> param_fmt (entry_list p ! i) = FmtBinary) \<and>
     (\<forall>i. map_strings p i \<noteq> None \<longleftrightarrow> i < length (entry_list p) \<and> param_fmt (entry_list p ! i) = FmtText) \<and>
     (\<forall>i. map_integers p i \<noteq> None \<longleftrightarrow> i < length (entry_list p) \<and> param_fmt (entry_list p ! i) = FmtInteger) \<and>
     (\<forall>i v. map_strings p i = Some v \<longrightarrow> 0 \<notin> set v) \<and>
     (\<forall>i v. map_integers p i = Some v \<longrightarrow> - 2147483648 \<le> v \<and> v < 2147483648)"

definition psf_prefix :: "nat \<Rightarrow> PSF \<Rightarrow> PSF" where
  "psf_prefix i p = \<lparr>entry_list = take i (entry_list p), map_binaries = map_binaries p |` {..<i},
     map_strings = map_strings p |` {..<i}, map_integers = map_integers p |` {..<i}\<rparr>"

lemma restrict_next:
  "m i = None \<Longrightarrow> m |` {..<Suc i} = m |` {..<i}" "m i = Some v \<Longrightarrow> m |` {..<Suc i} = (m |` {..<i})(i \<mapsto> v)"
  by (auto simp: restrict_map_def fun_eq_iff less_Suc_eq)

lemma psf_okD:
  assumes "psf_ok p"
  shows "i < length (entry_list p) \<Longrightarrow> 0 \<notin> set (entry_key (entry_list p ! i))"
    "i < length (entry_list p) \<Longrightarrow> param_fmt (entry_list p ! i) \<in> {FmtBinary, FmtText, FmtInteger}"
    "i < length (entry_list p) \<Longrightarrow> value_fits p i (entry_list p ! i)"
    "map_binaries p i \<noteq> None \<longleftrightarrow> i < length (entry_list p) \<and> param_fmt (entry_list p ! i) = FmtBinary"
    "map_strings p i \<noteq> None \<longleftrightarrow> i < length (entry_list p) \<and> param_fmt (entry_list p ! i) = FmtText"
    "map_integers p i \<noteq> None \<longleftrightarrow> i < length (entry_list p) \<and> param_fmt (entry_list p ! i) = FmtInteger"
    "map_strings p i = Some v \<Longrightarrow> 0 \<notin> set v"
    "map_integers p i = Some k \<Longrightarrow> - 2147483648 \<le> k \<and> k < 2147483648"
  using assms unfolding psf_ok_def by blast+

lemma wrap32_bytes: "- 2147483648 \<le> k \<Longrightarrow> k < 2147483648 \<Longrightarrow> wrap32 (int (nat (k mod 4294967296))) = k"
  unfolding wrap32_def by (simp add: mod_simps)

lemma entry_eq: "param_fmt e = f \<Longrightarrow> \<lparr>entry_key = entry_key e, param_fmt = f, max_len = max_len e\<rparr> = e"
  by (cases e) simp

lemma open_entry_reads:
  assumes ok: "psf_ok p" and i: "i < length (entry_list p)"
    and raw: "sits buf (20 + i * 16) (raw_entry_bytes r)" "raw_fits r"
    and key: "sits buf (key_table_offset h + key_offset r) (entry_key (entry_list p ! i) @ [0])"
    and fmt: "raw_fmt r = param_fmt (entry_list p ! i)" "param_max_len r = max_len (entry_list p ! i)"
    and val: "value_bytes p i (entry_list p ! i) = Some v" "sits buf (data_table_offset h + data_offset r) v"
      "param_len r = length v"
  shows "open_entry h buf i (psf_prefix i p) = Some (psf_prefix (Suc i) p)"
proof -
  note D = psf_okD [OF ok]
  let ?e = "entry_list p ! i"
  let ?p1 = "(psf_prefix i p)\<lparr>entry_list := entry_list (psf_prefix i p) @ [?e]\<rparr>"
  have c: "read_cstr buf (key_table_offset h + key_offset r) = Some (entry_key ?e)"
    by (rule read_cstr_sits [OF key D(1) [OF i]])
  have rv: "read_bytes buf (data_table_offset h + data_offset r) (length v) = Some v" by (rule read_bytes_sits [OF val(2)])
  have tk: "take (Suc i) (entry_list p) = take i (entry_list p) @ [?e]" using i by (rule take_Suc_conv_app_nth)
  note start = read_raw_entry_sits [OF raw] c fmt val(3)
  consider "param_fmt ?e = FmtBinary" | "param_fmt ?e = FmtText" | "param_fmt ?e = FmtInteger" using D(2) [OF i] by auto
  then show ?thesis
  proof cases
    case 1
    then have m: "map_binaries p i = Some v" "map_strings p i = None" "map_integers p i = None"
      using val(1) D(5) [of i] D(6) [of i] by (auto simp: value_bytes_def)
    have "open_entry h buf i (psf_prefix i p) = Some (?p1\<lparr>map_binaries := (map_binaries ?p1)(i \<mapsto> v)\<rparr>)"
      using 1 rv by (simp add: open_entry_def start Let_def entry_eq [OF 1])
    then show ?thesis by (simp add: psf_prefix_def tk restrict_next(2) [of "map_binaries p", OF m(1)] restrict_next(1) m(2,3))
  next
    case 2
    then obtain s where m: "map_strings p i = Some s" "v = s @ [0]" "map_binaries p i = None" "map_integers p i = None"
      using val(1) D(4) [of i] D(6) [of i] by (auto simp: value_bytes_def)
    have rs: "read_cstr buf (data_table_offset h + data_offset r) = Some s"
      by (rule read_cstr_sits [OF _ D(7) [OF m(1)]]) (use val(2) m(2) in simp)
    have "open_entry h buf i (psf_prefix i p) = Some (?p1\<lparr>map_strings := (map_strings ?p1)(i \<mapsto> s)\<rparr>)"
      using 2 rs by (simp add: open_entry_def start Let_def entry_eq [OF 2])
    then show ?thesis by (simp add: psf_prefix_def tk restrict_next(2) [of "map_strings p", OF m(1)] restrict_next(1) m(3,4))
  next
    case 3
    then obtain k where m: "map_integers p i = Some k" "v = to_le 4 (nat (k mod 4294967296))"
        "map_binaries p i = None" "map_strings p i = None"
      using val(1) D(4) [of i] D(5) [of i] by (auto simp: value_bytes_def)
    have "of_le v = nat (k mod 4294967296)" unfolding m(2) by (rule of_le_to_le) (simp add: nat_less_iff)
    then have k: "wrap32 (int (of_le v)) = k" using wrap32_bytes D(8) [OF m(1)] by simp
    have l: "length v = 4" by (simp add: m(2))
    have "open_entry h buf i (psf_prefix i p) = Some (?p1\<lparr>map_integers := (map_integers ?p1)(i \<mapsto> k)\<rparr>)"
      using 3 rv by (simp add: open_entry_def start Let_def entry_eq [OF 3] l k)
    then show ?thesis by (simp add: psf_prefix_def tk restrict_next(2) [of "map_integers p", OF m(1)] restrict_next(1) m(3,4))
  qed
qed

lemma open_entries_reads:
  assumes "i + n = length (entry_list p)"
    "\<And>j. j < length (entry_list p) \<Longrightarrow> open_entry h buf j (psf_prefix j p) = Some (psf_prefix (Suc j) p)"
  shows "open_entries h buf i n (psf_prefix i p) = Some (psf_prefix (length (entry_list p)) p)"
  using assms by (induction n arbitrary: i) auto

lemma psf_prefix_all:
  assumes "psf_ok p" shows "psf_prefix (length (entry_list p)) p = p"
proof -
  have all: "m |` {..<n} = m" if "\<And>i. m i \<noteq> None \<Longrightarrow> i < n" for m :: "nat \<Rightarrow> 'v option" and n
  proof (rule ext)
    fix x show "(m |` {..<n}) x = m x" using that [of x] by (cases "m x") (auto simp: restrict_map_def)
  qed
  have "map_binaries p |` {..<length (entry_list p)} = map_binaries p" by (rule all) (use psf_okD(4) [OF assms] in blast)
  moreover have "map_strings p |` {..<length (entry_list p)} = map_strings p" by (rule all) (use psf_okD(5) [OF assms] in blast)
  moreover have "map_integers p |` {..<length (entry_list p)} = map_integers p" by (rule all) (use psf_okD(6) [OF assms] in blast)
  ultimately show ?thesis by (simp add: psf_prefix_def)
qed

definition psf_size :: "PSF \<Rightarrow> nat" where
  "psf_size p = 20 + (\<Sum>e\<leftarrow>entry_list p. 20 + length (entry_key e) + max_len e)"

definition psf_key_size :: "PSF \<Rightarrow> nat" where
  "psf_key_size p = (\<Sum>e\<leftarrow>entry_list p. length (entry_key e) + 1)"

lemma psf_size_split: "psf_size p = 20 + 16 * length (entry_list p) + psf_key_size p + (\<Sum>e\<leftarrow>entry_list p. 3 + max_len e)"
proof -
  have split: "(\<Sum>e\<leftarrow>es. 20 + length (entry_key e) + max_len e) =
      16 * length es + (\<Sum>e\<leftarrow>es. length (entry_key e) + 1) + (\<Sum>e\<leftarrow>es. 3 + max_len e)" for es
    by (induction es) auto
  show ?thesis unfolding psf_size_def psf_key_size_def split by linarith
qed

text \<open>The written file, part by part.\<close>

lemma psf_encode_parts:
  assumes ok: "psf_ok p" and size: "psf_size p < 4294967296"
  obtains h rs rest start where "PSF_Encode p = Some (header_bytes h @ concat (map raw_entry_bytes rs) @ rest)"
    "h = \<lparr>psf_magic = PSF_MAGIC, psf_version = PSF_VERSION_1_1, key_table_offset = 20 + 16 * length (entry_list p),
       data_table_offset = 20 + 16 * length (entry_list p) + start, index_table_entries = length (entry_list p)\<rparr>"
    "length rs = length (entry_list p)" "20 + 16 * length (entry_list p) + length rest \<le> psf_size p" "start \<le> length rest"
    "start = psf_key_size p"
    "\<And>j. j < length (entry_list p) \<Longrightarrow> \<exists>off. sits rest off (entry_key (entry_list p ! j) @ [0]) \<and>
       off + length (entry_key (entry_list p ! j)) + 1 \<le> start \<and>
       key_offset (rs ! j) = off mod 65536 \<and> raw_fmt (rs ! j) = param_fmt (entry_list p ! j) \<and>
       param_max_len (rs ! j) = max_len (entry_list p ! j)"
    "\<And>j. j < length (entry_list p) \<Longrightarrow> \<exists>v. value_bytes p j (entry_list p ! j) = Some v \<and> value_written start v (rs ! j) rest"
proof -
  let ?es = "entry_list p"
  let ?n = "length ?es"
  let ?kb = "concat (map (\<lambda>e. entry_key e @ [0]) ?es)"
  have kl: "length ?kb = psf_key_size p" by (simp add: psf_key_size_def length_concat o_def)
  have sz: "20 + 16 * ?n + psf_key_size p + (\<Sum>e\<leftarrow>?es. 3 + max_len e) < 4294967296" using size psf_size_split by simp
  define h0 where "h0 = \<lparr>psf_magic = PSF_MAGIC, psf_version = PSF_VERSION_1_1, key_table_offset = 20 + 16 * ?n,
     data_table_offset = 0, index_table_entries = ?n\<rparr>"
  define b0 where "b0 = \<lparr>buf_header = h0, buf_entries = replicate ?n zero_raw, buf_rest = []\<rparr>"
  have b0: "length (buf_entries b0) = ?n" "buf_rest b0 = []" "buf_header b0 = h0" by (simp_all add: b0_def)
  define b1 where "b1 = encode_keys (20 + 16 * ?n) 0 ?es b0"
  from encode_keys_writes [of 0 ?es b0] have K: "buf_header b1 = h0" "length (buf_entries b1) = ?n" "buf_rest b1 = ?kb"
    "\<And>j. j < ?n \<Longrightarrow> key_written (?es ! j) (buf_entries b1 ! j) (buf_rest b1)"
    unfolding b0 Let_def b1_def [symmetric] by auto
  define h where "h = h0\<lparr>data_table_offset := 20 + 16 * ?n + psf_key_size p\<rparr>"
  define b2 where "b2 = b1\<lparr>buf_header := h\<rparr>"
  have b2: "buf_entries b2 = buf_entries b1" "buf_rest b2 = ?kb" "buf_header b2 = h" using K(3) by (simp_all add: b2_def)
  have dto: "buf_size b1 = 20 + 16 * ?n + psf_key_size p" using K(2,3) kl by (simp add: buf_size_def)
  have fit: "value_fits p (0 + j) (?es ! j) \<and> param_max_len (buf_entries b2 ! (0 + j)) = max_len (?es ! j)" if "j < ?n" for j
    using psf_okD(3) [OF ok that] K(4) [OF that] by (auto simp: key_written_def b2)
  have len2: "0 + ?n = length (buf_entries b2)" "psf_key_size p \<le> length (buf_rest b2)" using K(2) b2 kl by simp_all
  from encode_data_writes [OF len2 fit] obtain b3 where D:
    "encode_data p (20 + 16 * ?n + psf_key_size p) 0 ?es b2 = Some b3" "buf_header b3 = h"
    "length (buf_entries b3) = ?n"
    "\<exists>more. buf_rest b3 = ?kb @ more \<and> length more \<le> (\<Sum>e\<leftarrow>?es. 3 + max_len e)"
    "\<And>j. j < ?n \<Longrightarrow> same_key (buf_entries b1 ! j) (buf_entries b3 ! j) \<and>
       (\<exists>v. value_bytes p j (?es ! j) = Some v \<and> value_written (psf_key_size p) v (buf_entries b3 ! j) (buf_rest b3))"
    unfolding b2 K(2) by auto
  obtain more where more: "buf_rest b3 = ?kb @ more" "length more \<le> (\<Sum>e\<leftarrow>?es. 3 + max_len e)" using D(4) by blast
  have n: "?n mod 4294967296 = ?n" "(20 + 16 * ?n) mod 4294967296 = 20 + 16 * ?n"
    "(20 + 16 * ?n + psf_key_size p) mod 4294967296 = 20 + 16 * ?n + psf_key_size p" using sz by simp_all
  have s0: "buf_size \<lparr>buf_header = X, buf_entries = replicate ?n zero_raw, buf_rest = []\<rparr> = 20 + 16 * ?n" for X
    by (simp add: buf_size_def)
  have b0': "\<lparr>buf_header = \<lparr>psf_magic = PSF_MAGIC, psf_version = PSF_VERSION_1_1, key_table_offset = 20 + 16 * ?n,
     data_table_offset = 0, index_table_entries = ?n\<rparr>, buf_entries = replicate ?n zero_raw, buf_rest = []\<rparr> = b0"
    by (simp add: b0_def h0_def)
  have "PSF_Encode p = Some (buf_bytes b3)"
    unfolding PSF_Encode_def Let_def s0 n
    by (simp add: b0' b1_def [symmetric] dto n K(1) h_def [symmetric] b2_def [symmetric] D(1))
  then have enc: "PSF_Encode p = Some (header_bytes h @ concat (map raw_entry_bytes (buf_entries b3)) @ buf_rest b3)"
    by (simp add: buf_bytes_def D(2))
  show thesis
  proof (rule that [OF enc _ D(3)])
    show "h = \<lparr>psf_magic = PSF_MAGIC, psf_version = PSF_VERSION_1_1, key_table_offset = 20 + 16 * ?n,
        data_table_offset = 20 + 16 * ?n + psf_key_size p, index_table_entries = ?n\<rparr>" by (simp add: h_def h0_def)
    show "20 + 16 * ?n + length (buf_rest b3) \<le> psf_size p" using more kl psf_size_split [of p] by simp
    show "psf_key_size p \<le> length (buf_rest b3)" using more(1) kl by simp
    show "psf_key_size p = psf_key_size p" by (rule refl)
    fix j assume j: "j < ?n"
    from K(4) [OF j] obtain off where off: "sits ?kb off (entry_key (?es ! j) @ [0])"
      "key_offset (buf_entries b1 ! j) = off mod 65536" "raw_fmt (buf_entries b1 ! j) = param_fmt (?es ! j)"
      "param_max_len (buf_entries b1 ! j) = max_len (?es ! j)"
      unfolding K(3) key_written_def by blast
    have s: "same_key (buf_entries b1 ! j) (buf_entries b3 ! j)" using D(5) [OF j] by blast
    have "sits (buf_rest b3) off (entry_key (?es ! j) @ [0])" unfolding more(1) by (rule sits_append [OF off(1)])
    moreover have "off + length (entry_key (?es ! j)) + 1 \<le> psf_key_size p" using sits_length [OF off(1)] kl by simp
    ultimately show "\<exists>off. sits (buf_rest b3) off (entry_key (?es ! j) @ [0]) \<and>
       off + length (entry_key (?es ! j)) + 1 \<le> psf_key_size p \<and>
       key_offset (buf_entries b3 ! j) = off mod 65536 \<and> raw_fmt (buf_entries b3 ! j) = param_fmt (?es ! j) \<and>
       param_max_len (buf_entries b3 ! j) = max_len (?es ! j)"
      using s off(2-4) unfolding same_key_def by metis
    show "\<exists>v. value_bytes p j (?es ! j) = Some v \<and> value_written (psf_key_size p) v (buf_entries b3 ! j) (buf_rest b3)"
      using D(5) [OF j] by blast
  qed
qed

text \<open>
  C18. A parameter file is read back as it was written: if no key or text contains a null byte, every value
  fits its maximum and the keys take at most 64 KB of less than 4 GB, the file can be written, and
  opening what was written gives the same entries and values, in whatever state the reader was.
\<close>

theorem psf_roundtrip:
  assumes ok: "psf_ok p" and size: "psf_size p < 4294967296" and keys: "psf_key_size p \<le> 65536"
  shows "\<exists>file. PSF_Encode p = Some file \<and> PSF_Open file q = Some (True, p)"
proof -
  obtain h rs rest start where P: "PSF_Encode p = Some (header_bytes h @ concat (map raw_entry_bytes rs) @ rest)"
    "h = \<lparr>psf_magic = PSF_MAGIC, psf_version = PSF_VERSION_1_1, key_table_offset = 20 + 16 * length (entry_list p),
       data_table_offset = 20 + 16 * length (entry_list p) + start, index_table_entries = length (entry_list p)\<rparr>"
    "length rs = length (entry_list p)" "20 + 16 * length (entry_list p) + length rest \<le> psf_size p" "start \<le> length rest"
    "start = psf_key_size p"
    "\<And>j. j < length (entry_list p) \<Longrightarrow> \<exists>off. sits rest off (entry_key (entry_list p ! j) @ [0]) \<and>
       off + length (entry_key (entry_list p ! j)) + 1 \<le> start \<and>
       key_offset (rs ! j) = off mod 65536 \<and> raw_fmt (rs ! j) = param_fmt (entry_list p ! j) \<and>
       param_max_len (rs ! j) = max_len (entry_list p ! j)"
    "\<And>j. j < length (entry_list p) \<Longrightarrow> \<exists>v. value_bytes p j (entry_list p ! j) = Some v \<and> value_written start v (rs ! j) rest"
    by (rule psf_encode_parts [OF ok size]) (rule that; assumption)
  let ?n = "length (entry_list p)"
  let ?E = "concat (map raw_entry_bytes rs)"
  let ?B = "header_bytes h @ ?E @ rest"
  have El: "length ?E = 16 * ?n" using P(3) by (simp add: length_concat o_def sum_list_triv)
  have hd: "read_header ?B = Some h"
    by (rule read_header_first) (use P(2,4,5) size in simp_all)
  have one: "open_entry h ?B j (psf_prefix j p) = Some (psf_prefix (Suc j) p)" if j: "j < ?n" for j
  proof -
    obtain off where k: "sits rest off (entry_key (entry_list p ! j) @ [0])"
       "off + length (entry_key (entry_list p ! j)) + 1 \<le> start"
       "key_offset (rs ! j) = off mod 65536" "raw_fmt (rs ! j) = param_fmt (entry_list p ! j)"
       "param_max_len (rs ! j) = max_len (entry_list p ! j)" using P(7) [OF j] by blast
    obtain v where v: "value_bytes p j (entry_list p ! j) = Some v" "value_written start v (rs ! j) rest"
      using P(8) [OF j] by blast
    obtain off2 where o2: "sits rest (start + off2) v" "data_offset (rs ! j) = off2 mod 4294967296"
      "param_len (rs ! j) = length v" using v(2) by (auto simp: value_written_def)
    have rest: "sits ?B (20 + 16 * ?n + o3) bs" if "sits rest o3 bs" for o3 bs
      using sits_prepend [OF sits_prepend [OF that, of ?E], of "header_bytes h"] El by (simp add: ac_simps)
    have ko: "key_offset (rs ! j) = off" using k(2,3) P(6) keys by simp
    have bound: "start + off2 + length v \<le> length rest" using sits_length [OF o2(1)] by simp
    have do2: "data_offset (rs ! j) = off2" using o2(2) bound P(4) size by simp
    have fits: "raw_fits (rs ! j)"
      using psf_okD(2,3) [OF ok j] k(3-5) o2(2,3) bound P(4) size by (auto simp: raw_fits_def value_fits_def)
    have "sits ?E (16 * j) (raw_entry_bytes (rs ! j))" using j P(3) by (intro sits_concat) simp_all
    from sits_prepend [OF sits_append [OF this, of rest], of "header_bytes h"]
    have raw: "sits ?B (20 + j * 16) (raw_entry_bytes (rs ! j))" by (simp add: ac_simps)
    show ?thesis
      by (rule open_entry_reads [OF ok j raw fits _ k(4,5) v(1) _ o2(3)])
        (use rest [OF k(1)] rest [OF o2(1)] in \<open>simp_all add: P(2) ko do2 ac_simps\<close>)
  qed
  have "open_entries h ?B 0 ?n (psf_prefix 0 p) = Some p"
    using open_entries_reads [of 0 ?n p h ?B] one psf_prefix_all [OF ok] by simp
  moreover have "psf_prefix 0 p = empty_psf" by (simp add: psf_prefix_def empty_psf_def)
  ultimately have "PSF_Open ?B q = Some (True, p)" unfolding PSF_Open_def hd by (simp add: P(2))
  with P(1) show ?thesis by blast
qed

text \<open>A file with a text, a number and binary data.\<close>

definition sample_psf :: PSF where
  "sample_psf = \<lparr>entry_list = [\<lparr>entry_key = [84, 73], param_fmt = FmtText, max_len = 4\<rparr>,
       \<lparr>entry_key = [86], param_fmt = FmtInteger, max_len = 4\<rparr>, \<lparr>entry_key = [66], param_fmt = FmtBinary, max_len = 3\<rparr>],
     map_binaries = [2 \<mapsto> [0, 255, 7]], map_strings = [0 \<mapsto> [72, 105]], map_integers = [1 \<mapsto> - 5]\<rparr>"

lemma sample_psf_ok: "psf_ok sample_psf"
proof -
  have n: "length (entry_list sample_psf) = 3" by (simp add: sample_psf_def)
  have lt3: "i < 3 \<longleftrightarrow> i = 0 \<or> i = 1 \<or> i = 2" for i :: nat by auto
  have v: "value_fits sample_psf i (entry_list sample_psf ! i)" if "i < 3" for i
    using that unfolding lt3 by (elim disjE) (simp_all add: sample_psf_def value_fits_def value_bytes_def)
  show ?thesis unfolding psf_ok_def n
  proof (intro conjI allI impI)
    fix i :: nat assume i: "i < 3"
    then show "0 \<notin> set (entry_key (entry_list sample_psf ! i))"
      "param_fmt (entry_list sample_psf ! i) \<in> {FmtBinary, FmtText, FmtInteger}"
      unfolding lt3 by (elim disjE; simp add: sample_psf_def)+
    show "value_fits sample_psf i (entry_list sample_psf ! i)" by (rule v [OF i])
  next
    fix i
    show "(map_binaries sample_psf i \<noteq> None) = (i < 3 \<and> param_fmt (entry_list sample_psf ! i) = FmtBinary)"
      "(map_strings sample_psf i \<noteq> None) = (i < 3 \<and> param_fmt (entry_list sample_psf ! i) = FmtText)"
      "(map_integers sample_psf i \<noteq> None) = (i < 3 \<and> param_fmt (entry_list sample_psf ! i) = FmtInteger)"
      unfolding lt3 by (cases "i = 0"; cases "i = 1"; cases "i = 2"; simp add: sample_psf_def)+
  qed (auto simp: sample_psf_def split: if_splits)
qed

theorem psf_roundtrip_witness:
  "\<exists>file. PSF_Encode sample_psf = Some file \<and> PSF_Open file empty_psf = Some (True, sample_psf)"
proof (rule psf_roundtrip [OF sample_psf_ok])
  show "psf_size sample_psf < 4294967296" by (simp add: psf_size_def sample_psf_def)
  show "psf_key_size sample_psf \<le> 65536" by (simp add: psf_key_size_def sample_psf_def)
qed

section \<open>Looking up what was added\<close>

definition find_key :: "u8 list \<Rightarrow> u8 list list \<Rightarrow> nat option" where
  "find_key key ks = find (\<lambda>i. ks ! i = key) [0..<length ks]"

lemma FindEntry_keys: "FindEntry key p = find_key key (map entry_key (entry_list p))"
proof -
  have "find (\<lambda>i. entry_key (entry_list p ! i) = key) [0..<length (entry_list p)] =
      find (\<lambda>i. map entry_key (entry_list p) ! i = key) [0..<length (entry_list p)]"
    by (rule find_cong [OF refl]) simp
  then show ?thesis by (simp add: FindEntry_def find_key_def)
qed

lemma find_append: "find P (xs @ ys) = (case find P xs of Some x \<Rightarrow> Some x | None \<Rightarrow> find P ys)"
  by (induction xs) auto

lemma find_key_append:
  "find_key key (ks @ [k]) = (case find_key key ks of Some i \<Rightarrow> Some i | None \<Rightarrow> if k = key then Some (length ks) else None)"
proof -
  have "find (\<lambda>i. (ks @ [k]) ! i = key) [0..<length ks] = find (\<lambda>i. ks ! i = key) [0..<length ks]"
    by (rule find_cong [OF refl]) (simp add: nth_append)
  then show ?thesis by (simp add: find_key_def find_append split: option.split)
qed

lemma find_key_Some: "find_key key ks = Some i \<Longrightarrow> i < length ks \<and> ks ! i = key"
  by (auto simp: find_key_def find_Some_iff)

lemma FindEntry_Some: "FindEntry key p = Some i \<Longrightarrow> i < length (entry_list p) \<and> entry_key (entry_list p ! i) = key"
  using find_key_Some [of key "map entry_key (entry_list p)" i] by (auto simp: FindEntry_keys)

definition psf_indexed :: "PSF \<Rightarrow> bool" where
  "psf_indexed p \<longleftrightarrow>
     (\<forall>i. map_binaries p i \<noteq> None \<longleftrightarrow> i < length (entry_list p) \<and> param_fmt (entry_list p ! i) = FmtBinary) \<and>
     (\<forall>i. map_strings p i \<noteq> None \<longleftrightarrow> i < length (entry_list p) \<and> param_fmt (entry_list p ! i) = FmtText) \<and>
     (\<forall>i. map_integers p i \<noteq> None \<longleftrightarrow> i < length (entry_list p) \<and> param_fmt (entry_list p ! i) = FmtInteger)"

text \<open>The entries after a key was added or its entry updated: it is at \<open>i\<close>, and the others are as before.\<close>

definition entries_added :: "nat \<Rightarrow> u8 list \<Rightarrow> nat \<Rightarrow> PSFEntry list \<Rightarrow> PSFEntry list \<Rightarrow> bool" where
  "entries_added fmt key i l es \<longleftrightarrow> i < length es \<and> param_fmt (es ! i) = fmt \<and> length l \<le> length es \<and>
     (\<forall>j<length l. j \<noteq> i \<longrightarrow> es ! j = l ! j) \<and>
     (i < length l \<longrightarrow> entry_key (l ! i) = key \<and> param_fmt (l ! i) = fmt) \<and>
     (\<forall>j<length es. j \<noteq> i \<longrightarrow> j < length l)"

lemma indexed_one:
  assumes m: "\<forall>j. m j \<noteq> None \<longleftrightarrow> j < length l \<and> param_fmt (l ! j) = F" and e: "entries_added fmt key i l es"
    and m': "if F = fmt then m' = m(i \<mapsto> v) else m' = m"
  shows "\<forall>j. m' j \<noteq> None \<longleftrightarrow> j < length es \<and> param_fmt (es ! j) = F"
proof
  fix j
  show "m' j \<noteq> None \<longleftrightarrow> j < length es \<and> param_fmt (es ! j) = F"
  proof (cases "j = i")
    case True
    then show ?thesis using m e m' unfolding entries_added_def by (auto split: if_splits)
  next
    case False
    have "m' j = m j" using m' False by (auto split: if_splits)
    moreover have "j < length es \<longleftrightarrow> j < length l" using e False unfolding entries_added_def by force
    moreover have "j < length l \<Longrightarrow> es ! j = l ! j" using e False unfolding entries_added_def by blast
    ultimately show ?thesis using m by auto
  qed
qed

lemma indexed_all:
  assumes I: "psf_indexed p" and e: "entries_added fmt key i (entry_list p) (entry_list p')"
    "if FmtBinary = fmt then map_binaries p' = (map_binaries p)(i \<mapsto> b) else map_binaries p' = map_binaries p"
    "if FmtText = fmt then map_strings p' = (map_strings p)(i \<mapsto> s) else map_strings p' = map_strings p"
    "if FmtInteger = fmt then map_integers p' = (map_integers p)(i \<mapsto> n) else map_integers p' = map_integers p"
  shows "psf_indexed p'"
proof -
  note D = I [unfolded psf_indexed_def]
  show ?thesis unfolding psf_indexed_def
    by (intro conjI indexed_one [OF _ e(1,2)] indexed_one [OF _ e(1,3)] indexed_one [OF _ e(1,4)]) (use D in blast)+
qed

text \<open>A key that is new or belongs to an entry of the format, and what may not change for the other keys.\<close>

definition addable :: "nat \<Rightarrow> u8 list \<Rightarrow> PSF \<Rightarrow> bool" where
  "addable fmt key p \<longleftrightarrow> FindEntry key p = None \<or> (\<exists>i. FindEntry key p = Some i \<and> param_fmt (entry_list p ! i) = fmt)"

definition same_gets :: "u8 list \<Rightarrow> PSF \<Rightarrow> PSF \<Rightarrow> bool" where
  "same_gets key p p' \<longleftrightarrow> (\<forall>k. k \<noteq> key \<longrightarrow>
     GetBinary k p' = GetBinary k p \<and> GetString k p' = GetString k p \<and> GetInteger k p' = GetInteger k p)"

text \<open>One of the three maps with the format of its entries.\<close>

locale psf_field =
  fixes fmt :: nat and m :: "PSF \<Rightarrow> nat \<Rightarrow> 'v option" and put :: "nat \<Rightarrow> 'v \<Rightarrow> PSF \<Rightarrow> PSF"
  assumes m_put: "m (put i v p) = (m p)(i \<mapsto> v)"
    and put_entries: "entry_list (put i v p) = entry_list p"
    and m_entries: "m (p\<lparr>entry_list := es\<rparr>) = m p"
    and indexed: "psf_indexed p \<Longrightarrow> m p i \<noteq> None \<longleftrightarrow> i < length (entry_list p) \<and> param_fmt (entry_list p ! i) = fmt"
    and put_indexed: "psf_indexed p \<Longrightarrow> entries_added fmt key i (entry_list p) es \<Longrightarrow>
      psf_indexed (put i v (p\<lparr>entry_list := es\<rparr>))"
    and put_others: "j \<noteq> i \<Longrightarrow> map_binaries (put i v (p\<lparr>entry_list := es\<rparr>)) j = map_binaries p j \<and>
      map_strings (put i v (p\<lparr>entry_list := es\<rparr>)) j = map_strings p j \<and>
      map_integers (put i v (p\<lparr>entry_list := es\<rparr>)) j = map_integers p j"
begin

definition add :: "nat \<Rightarrow> u8 list \<Rightarrow> 'v \<Rightarrow> bool \<Rightarrow> PSF \<Rightarrow> PSF option" where
  "add sz key v update p = psf_add fmt sz (\<lambda>p i. m p i \<noteq> None) (\<lambda>i p. put i v p) key update p"

lemma add_new:
  assumes "FindEntry key p = None"
  shows "add sz key v update p = Some (put (length (entry_list p)) v
    (p\<lparr>entry_list := entry_list p @ [\<lparr>entry_key = key, param_fmt = fmt, max_len = sz\<rparr>]\<rparr>))"
  using assms by (simp add: add_def psf_add_def)

lemma add_old:
  assumes "psf_indexed p" "FindEntry key p = Some i" "param_fmt (entry_list p ! i) = fmt"
  shows "add sz key v True p = Some (put i v (p\<lparr>entry_list := (entry_list p)[i := (entry_list p ! i)\<lparr>max_len := sz\<rparr>]\<rparr>))"
proof -
  have i: "i < length (entry_list p)" using FindEntry_Some [OF assms(2)] by simp
  then have "m p i \<noteq> None" using indexed [OF assms(1)] assms(3) by blast
  then show ?thesis using assms(2,3) by (simp add: add_def psf_add_def)
qed

text \<open>The index of a key after an addition.\<close>

lemma add_found:
  assumes p: "psf_indexed p" and a: "addable fmt key p"
  obtains i es where "add sz key v True p = Some (put i v (p\<lparr>entry_list := es\<rparr>))"
    "entries_added fmt key i (entry_list p) es"
    "\<And>k. FindEntry k (put i v (p\<lparr>entry_list := es\<rparr>)) = (if k = key then Some i else FindEntry k p)"
proof (cases "FindEntry key p")
  case None
  let ?es = "entry_list p @ [\<lparr>entry_key = key, param_fmt = fmt, max_len = sz\<rparr>]"
  have "FindEntry k (put (length (entry_list p)) v (p\<lparr>entry_list := ?es\<rparr>)) =
      (case FindEntry k p of Some i \<Rightarrow> Some i | None \<Rightarrow> if key = k then Some (length (entry_list p)) else None)" for k
    by (cases "find_key k (map entry_key (entry_list p))") (simp_all add: FindEntry_keys put_entries find_key_append)
  then have f: "FindEntry k (put (length (entry_list p)) v (p\<lparr>entry_list := ?es\<rparr>)) =
      (if k = key then Some (length (entry_list p)) else FindEntry k p)" for k
    using None by (simp split: option.split)
  have e: "entries_added fmt key (length (entry_list p)) (entry_list p) ?es" by (auto simp: entries_added_def nth_append)
  show ?thesis by (rule that [OF add_new [OF None] e f])
next
  case (Some i)
  then have fm: "param_fmt (entry_list p ! i) = fmt" using a by (auto simp: addable_def)
  have i: "i < length (entry_list p)" "entry_key (entry_list p ! i) = key"
    using FindEntry_Some [OF Some] by simp_all
  let ?es = "(entry_list p)[i := (entry_list p ! i)\<lparr>max_len := sz\<rparr>]"
  have "map entry_key ?es = map entry_key (entry_list p)"
    using i by (metis PSFEntry.ext_inject PSFEntry.surjective PSFEntry.update_convs(3) list_update_id map_update)
  then have f: "FindEntry k (put i v (p\<lparr>entry_list := ?es\<rparr>)) = (if k = key then Some i else FindEntry k p)" for k
    using Some by (simp add: FindEntry_keys put_entries)
  have e: "entries_added fmt key i (entry_list p) ?es" using i fm by (simp add: entries_added_def)
  show ?thesis by (rule that [OF add_old [OF p Some fm] e f])
qed

lemma get_other:
  assumes "\<And>k. k \<noteq> key \<Longrightarrow> FindEntry k p' = FindEntry k p" "entries_added fmt key i (entry_list p) (entry_list p')"
    "\<And>j. j \<noteq> i \<Longrightarrow> m' p' j = m' p j" "k \<noteq> key"
  shows "psf_get f m' k p' = psf_get f m' k p"
proof (cases "FindEntry k p")
  case None
  then show ?thesis using assms(1) [OF assms(4)] by (simp add: psf_get_def)
next
  case (Some j)
  then have j: "j < length (entry_list p)" "entry_key (entry_list p ! j) = k" using FindEntry_Some [OF Some] by simp_all
  have "j \<noteq> i" using assms(2,4) j by (auto simp: entries_added_def)
  then have "entry_list p' ! j = entry_list p ! j" "m' p' j = m' p j"
    using assms(2,3) j(1) by (auto simp: entries_added_def)
  then show ?thesis using Some assms(1) [OF assms(4)] by (simp add: psf_get_def)
qed

lemma add_gets:
  assumes p: "psf_indexed p" and a: "addable fmt key p"
  shows "\<exists>p'. add sz key v True p = Some p' \<and> psf_indexed p' \<and> psf_get fmt m key p' = Some (Some v) \<and> same_gets key p p'"
proof -
  obtain i es where 1: "add sz key v True p = Some (put i v (p\<lparr>entry_list := es\<rparr>))"
    "entries_added fmt key i (entry_list p) es"
    "\<And>k. FindEntry k (put i v (p\<lparr>entry_list := es\<rparr>)) = (if k = key then Some i else FindEntry k p)"
    by (rule add_found [OF p a, of sz v]) (rule that; assumption)
  let ?p = "put i v (p\<lparr>entry_list := es\<rparr>)"
  have es: "entry_list ?p = es" by (simp add: put_entries)
  have "psf_get fmt m key ?p = Some (Some v)" using 1(2,3) by (simp add: psf_get_def es m_put entries_added_def)
  moreover have "same_gets key p ?p"
  proof -
    have fe: "FindEntry k ?p = FindEntry k p" if "k \<noteq> key" for k using 1(3) that by simp
    have ea: "entries_added fmt key i (entry_list p) (entry_list ?p)" using 1(2) es by simp
    show ?thesis unfolding same_gets_def GetBinary_def GetString_def GetInteger_def
      by (intro allI impI conjI get_other [OF fe ea]) (simp_all add: put_others)
  qed
  ultimately show ?thesis using 1(1) put_indexed [OF p 1(2)] by blast
qed

end

lemma psf_indexedD:
  assumes "psf_indexed p"
  shows "map_binaries p i \<noteq> None \<longleftrightarrow> i < length (entry_list p) \<and> param_fmt (entry_list p ! i) = FmtBinary"
    "map_strings p i \<noteq> None \<longleftrightarrow> i < length (entry_list p) \<and> param_fmt (entry_list p ! i) = FmtText"
    "map_integers p i \<noteq> None \<longleftrightarrow> i < length (entry_list p) \<and> param_fmt (entry_list p ! i) = FmtInteger"
  using assms unfolding psf_indexed_def by blast+

interpretation binaries: psf_field FmtBinary map_binaries "\<lambda>i v p. p\<lparr>map_binaries := (map_binaries p)(i \<mapsto> v)\<rparr>"
proof (unfold_locales, goal_cases)
  case (4 p i) then show ?case by (rule psf_indexedD)
next
  case (5 p key i es v)
  show ?case by (rule indexed_all [OF 5(1), of FmtBinary key i _ v "[]" 0]) (use 5(2) in simp_all)
qed simp_all

interpretation texts: psf_field FmtText map_strings "\<lambda>i v p. p\<lparr>map_strings := (map_strings p)(i \<mapsto> v)\<rparr>"
proof (unfold_locales, goal_cases)
  case (4 p i) then show ?case by (rule psf_indexedD)
next
  case (5 p key i es v)
  show ?case by (rule indexed_all [OF 5(1), of FmtText key i _ "[]" v 0]) (use 5(2) in simp_all)
qed simp_all

interpretation integers: psf_field FmtInteger map_integers "\<lambda>i v p. p\<lparr>map_integers := (map_integers p)(i \<mapsto> v)\<rparr>"
proof (unfold_locales, goal_cases)
  case (4 p i) then show ?case by (rule psf_indexedD)
next
  case (5 p key i es v)
  show ?case by (rule indexed_all [OF 5(1), of FmtInteger key i _ "[]" "[]" v]) (use 5(2) in simp_all)
qed simp_all

text \<open>
  C30. A value that was added is found again: adding a text under a new key, or updating the text of a
  key, makes \<open>GetString\<close> return it and changes no other result of the three getters; the same holds for
  numbers and binary data, and the maps stay consistent with the entries.
\<close>

theorem psf_add_get:
  assumes p: "psf_indexed p"
  shows "(addable FmtBinary key p \<longrightarrow> (\<exists>p'. AddBinary key b True p = Some p' \<and> psf_indexed p' \<and>
      GetBinary key p' = Some (Some b) \<and> same_gets key p p')) \<and>
    (addable FmtText key p \<longrightarrow> (\<exists>p'. AddString key s True p = Some p' \<and> psf_indexed p' \<and>
      GetString key p' = Some (Some s) \<and> same_gets key p p')) \<and>
    (addable FmtInteger key p \<longrightarrow> (\<exists>p'. AddInteger key n True p = Some p' \<and> psf_indexed p' \<and>
      GetInteger key p' = Some (Some n) \<and> same_gets key p p'))"
proof -
  have "AddBinary key b = binaries.add (get_max_size key (length b)) key b"
    "AddString key s = texts.add (get_max_size key (length s + 1)) key s" "AddInteger key n = integers.add 4 key n"
    by (rule ext, rule ext, simp add: AddBinary_def binaries.add_def AddString_def texts.add_def AddInteger_def integers.add_def)+
  then show ?thesis using binaries.add_gets [OF p] texts.add_gets [OF p] integers.add_gets [OF p]
    by (simp only: GetBinary_def GetString_def GetInteger_def) blast
qed

theorem psf_add_get_witness:
  "\<exists>p'. AddString [84] [72, 105] True empty_psf = Some p' \<and> GetString [84] p' = Some (Some [72, 105]) \<and>
     same_gets [84] empty_psf p'"
proof -
  have "psf_indexed empty_psf" by (simp add: psf_indexed_def empty_psf_def)
  from psf_add_get [OF this, of "[84]" "[]" "[72, 105]" 0] show ?thesis
    by (auto simp: addable_def FindEntry_def empty_psf_def)
qed

end
