(* ===== verification/Spec2Isabelle.thy ===== *)
theory Spec2Isabelle
  imports Kernel_Memory_Props Semaphore_Props Event_Flag Guest_Run Rtc_Format Cond_Wait Pthread_Rwlock Pthread_Keys Psf_Format
begin

text \<open>
  Verification library for the emulator core of AetherPS4, the C++ code under \<open>src/src/\<close>.

  \<^bold>\<open>The program.\<close>  The emulator runs programs of a game console on a host system.  Its core gives the guest
  program the memory, the threads and the system calls of the console.  A guest call of a system function
  jumps into a small piece of generated code (a veneer), which leaves the translated guest code; an adapter
  reads the arguments from the guest registers and stack and calls the host function.  Memory calls end in the
  memory manager, which keeps the guest address space and two physical memories as maps of areas.  Before the
  host calls a guest function, or lets the translator run guest code, it checks the guest memory concerned
  against the memory manager, through a cache whose entries hold for one generation of the mappings only.
  The synchronisation objects of the guest are built from host locks and semaphores.

  \<^bold>\<open>Memory manager\<close> (\<open>core/memory.h\<close>, \<open>core/memory.cpp\<close>).
  \<^item> \<open>Prelude\<close>: 64-bit arithmetic on natural numbers with the wrap-around written out, 32-bit signed numbers,
    the alignment functions of \<open>common/alignment.h\<close>, \<open>ASSERT\<close>, and facts on lists and maps.
  \<^item> \<open>Ordered_Map\<close>, \<open>Area_Map\<close>: \<open>std::map\<close> as the list of its entries in key order, and the locales of an area map:
    \<open>area_laws\<close> (cells and splitting), \<open>keyed_areas\<close> (carving, merging) and \<open>coalescing_areas\<close> (neighbours that
    can be merged do not occur).  Carving and merging keep the content of a map, cell by cell.
  \<^item> \<open>Phys_Map\<close>: \<open>PhysicalMemoryArea\<close>, \<open>CarvePhysArea\<close>, \<open>MergeAdjacent\<close> of the physical maps, which interpret
    \<open>coalescing_areas\<close>.  \<open>Vma_Map\<close>: \<open>VirtualMemoryArea\<close> and its map, which interprets \<open>keyed_areas\<close>.
  \<^item> \<open>Memory_State\<close>: the record \<open>MemoryManager\<close>, its mutation guards and read-only checks.  \<open>Vma_Join\<close>: when an area
    that is carved, changed and merged joins the one before it, so that its node is erased.
  \<^item> \<open>Backing\<close>: the invariant \<open>mm_wf\<close> of the memory manager.
  \<^item> \<open>Direct_Memory\<close>: construction, \<open>Allocate\<close>, \<open>PoolExpand\<close> and the queries of direct memory (first fit).
  \<^item> \<open>Mapping_Ops\<close>, \<open>Map_Memory\<close>: \<open>SearchFree\<close>, \<open>CreateArea\<close>, \<open>MapMemory\<close>, \<open>MapFile\<close>, and what mapping establishes.
  \<^item> \<open>Unmap\<close>: \<open>UnmapMemory\<close> and \<open>Free\<close>.  \<open>Memory_Pool\<close>: \<open>PoolCommit\<close> and \<open>PoolDecommit\<close>.
  \<^item> \<open>Protection\<close>: \<open>Protect\<close>, \<open>SealGuestExecutable\<close>, names and types.  \<open>Memory_Query\<close>: queries and copies.
  \<^item> \<open>Kernel_Memory\<close>, \<open>Kernel_Memory_Props\<close>: the guest-facing calls of \<open>core/libraries/kernel/memory.cpp\<close> with their
    argument checks and error codes, and what they promise a guest.

  \<^bold>\<open>Guest and host\<close> (\<open>core/linker.cpp\<close>, \<open>core/guest_cpu/\<close>).
  \<^item> \<open>Guest_Validation\<close>: \<open>ValidateGuestMemory\<close> and \<open>GuestMemoryValidationCache\<close>; runs of checks and memory calls.
  \<^item> \<open>Hle_Call\<close>: \<open>hle_call_adapter.h\<close>, the decoding of arguments and the registry of adapters, against the rules of
    the System V convention stated apart.  \<open>Hle_Veneer\<close>: the veneers in both placements.
  \<^item> \<open>Guest_Bridge\<close>: \<open>fex_hle_bridge.cpp\<close>, dispatch and the published host ranges.
  \<^item> \<open>Guest_Run\<close>: the preparation of guest calls and of the main program in \<open>linker.cpp\<close>.

  \<^bold>\<open>Threads\<close> (\<open>core/libraries/kernel/threads/\<close>).
  \<^item> \<open>Slot_Vector\<close>: \<open>common/slot_vector.h\<close>, which refines a finite map; the locale \<open>slot_store\<close> is what the table of
    semaphore handles relies on.
  \<^item> \<open>Semaphore\<close>, \<open>Semaphore_Props\<close>: \<open>semaphore.cpp\<close>, kernel and POSIX semaphores.  \<open>Event_Flag\<close>: \<open>event_flag.cpp\<close>.
  \<^item> \<open>Pthread_Mutex\<close>: \<open>mutex.cpp\<close>.  \<open>Sleepq\<close>: \<open>sleepq.cpp\<close>, the hash table of sleep queues with the objects that
    threads lend it, which refines a map from channels to lists of threads; the locales \<open>drop_callback\<close> and
    \<open>total_callback\<close> are the contract of the callback of \<open>SleepqDrop\<close>.
  \<^item> \<open>Pthread_Cond\<close>: \<open>condvar.cpp\<close>; \<open>Cond_Wakeup\<close>, \<open>Cond_Wait\<close>: no wake-up is lost, and what a wait does to its mutex.
  \<^item> \<open>Pthread_Rwlock\<close>: \<open>rwlock.cpp\<close> over \<open>common/shared_first_mutex.h\<close>.  \<open>Pthread_Keys\<close>: \<open>pthread_spec.cpp\<close>.

  \<^bold>\<open>Libraries.\<close>
  \<^item> \<open>Rtc_Calendar\<close>, \<open>Rtc_Ops\<close>, \<open>Rtc_Format\<close>: \<open>core/libraries/rtc/\<close>, ticks and dates against a reference Gregorian
    calendar, the operations on them, and the text formats.
  \<^item> \<open>Psf_Format\<close>: \<open>core/file_format/psf.cpp\<close>, reading and writing parameter files byte by byte; the locale
    \<open>psf_field\<close> is the contract of the three kinds of values.
\<close>

text \<open>
  \<^bold>\<open>How code becomes definitions.\<close>  A definition has the name of the function it models.  The state of a component
  is a record, passed in and returned; addresses and sizes of 64 bits are natural numbers below \<open>two64\<close> with
  \<open>add64\<close> and \<open>sub64\<close> for the arithmetic that wraps around, flags and registers are words, and 32-bit signed numbers
  are integers with \<open>wrap32\<close> or an overflow as no result.  Error codes are values, in a sum where the code has a
  result or an error.  \<open>None\<close> is a stop of the emulator (\<open>ASSERT\<close>, \<open>UNREACHABLE\<close>), undefined behaviour, an uncaught
  exception, or a loop that does not end; that an operation returns is therefore proved as a result being
  \<open>Some\<close>.  Loops are recursions over the list of areas or \<open>partial_function (option)\<close>, shown to return with the
  operations that use them.  In the step relations of the threads \<open>None\<close> also says that a thread cannot move.

  \<^bold>\<open>Concurrency.\<close>  The memory manager is sequential: its calls hold a lock from beginning to end.  In the thread
  objects every critical section is one step, and the theorems hold for every interleaving of the steps, with
  condition variables and notifications explicit: a thread that sleeps looks again only after it has been
  woken.  Timeouts and spurious wakeups may come at any step.

  \<^bold>\<open>What the lemmas show.\<close>
  \<^item> Invariants: \<open>mm_wf\<close> under nine kinds of guest memory calls (C1), semaphores, event flags, condition variables
    and read-write locks under every interleaving (C7, C11, C16, C21, C37), the veneers under every history of
    allocation (C17).
  \<^item> Exact effects: mapping, unmapping, releasing, committing, protecting (C3, C4, C5, C8, C23, C24, C25, C36) as
    equations between the views \<open>vma_at\<close>, \<open>fmem_at\<close> and \<open>dmem_at\<close>, which give the content at every address;
    first fit (C20, C29, C34); what a signal and a cancellation do (C31, C33).
  \<^item> Refinements: the sleep queues, the slot vector, the mutex and the thread-specific data against abstract
    maps, an owner with a depth, and values attached to live keys (C10, C13, C14, C15).
  \<^item> Round trips: guest arguments, parameter files, dates, RFC 3339 (C6, C18, C38, C40).
  \<^item> Safety of the boundary: accepted guest memory is accessible memory (C2), calls follow the convention (C22),
    code that runs is sealed (C26, C27), published ranges (C32).
  The text before a theorem names its hypotheses; several of them leave out inputs on which the code does not
  keep the property, such as a pool commit that is not aligned or a signal of a negative number.
\<close>

text \<open>
  \<^bold>\<open>Bounds.\<close>  The counter of mapping generations stays below \<open>2 ^ 63\<close> in the runs of \<open>Guest_Validation\<close>; the event
  sequences of \<open>Pthread_Keys\<close> have at most \<open>2 ^ 31 - 1\<close> events, so that the sequence numbers of keys do not wrap;
  parameter files are below 4 GB with keys below 64 KB, the widths of the offsets in the file; the clean-up of
  a thread makes at most 4 times 256 calls of destructors, the two constants of the code; the iteration over a
  slot vector is for capacities below \<open>2 ^ 32\<close>, the range of a handle.  Fuel is not used.

  \<^bold>\<open>Parameters.\<close>  The answers of the host to the address space calls (which addresses it gives, and which pages it
  protects) are fields of the state or arguments; what is asked of it is the list \<open>effects\<close>.  The translator that
  runs guest code, the results of memory allocation, the clock and the time zone, the file table, the host
  functions behind adapters and the calls that destructors make are arguments.

  \<^bold>\<open>Not modelled.\<close>  The host address space and the translator themselves; loading and relocation of modules; creation
  and scheduling of threads; event queues and asynchronous input; the file system; calls about processes,
  time and debugging beyond the clock calls of the RTC library; fibers; the libraries of the console other
  than the kernel and the RTC library, most of which are stubs over host services; the shader recompiler and
  the graphics, which drive Vulkan; the user interface, the launchers and vendored code.  Logging, tracing and
  the tables of exported names are left out everywhere.
\<close>

end
